(* ===== verification/Prelude.thy ===== *)
theory Prelude
  imports Main "HOL-Library.Sublist" "HOL-Library.List_Lexorder" "HOL-Library.Char_ord"
begin

text \<open>
  Shared vocabulary of the development: result types, Go strings as byte lists with the
  standard-library operations the modelled code calls (\<open>strings.TrimSpace\<close>,
  \<open>strings.HasPrefix\<close>, \<open>strings.Contains\<close>, \<open>strings.Split\<close>, \<open>fmt\<close>'s \<open>%d\<close>), Go's
  64-bit signed integers, and the list lemmas the component theories use.
\<close>

named_theorems model_defs \<open>definitions a component unfolds as a whole\<close>
named_theorems step_inv \<open>one operation of a component keeps an invariant\<close>

section \<open>Integers\<close>

text \<open>Go's \<open>int\<close> and \<open>int64\<close> are 64-bit two's complement; arithmetic wraps.\<close>

definition wrap64 :: "int \<Rightarrow> int" where
  "wrap64 x = (x + 2 ^ 63) mod 2 ^ 64 - 2 ^ 63"

lemma wrap64_id: "- (2 ^ 63) \<le> x \<Longrightarrow> x < 2 ^ 63 \<Longrightarrow> wrap64 x = x"
  by (simp add: wrap64_def)

lemma wrap64_range: "- (2 ^ 63) \<le> wrap64 x \<and> wrap64 x < 2 ^ 63"
proof -
  have "0 \<le> (x + 2 ^ 63) mod 2 ^ 64" "(x + 2 ^ 63) mod 2 ^ 64 < (2 :: int) ^ 64"
    by (rule pos_mod_sign, simp) (rule pos_mod_bound, simp)
  then show ?thesis by (simp add: wrap64_def)
qed

section \<open>Strings\<close>

text \<open>A Go string is a sequence of bytes; a \<open>char\<close> of HOL is a byte.\<close>

definition has_prefix :: "string \<Rightarrow> string \<Rightarrow> bool" where
  "has_prefix s p \<longleftrightarrow> take (length p) s = p"

lemma has_prefix_iff: "has_prefix s p \<longleftrightarrow> prefix p s"
  by (auto simp: has_prefix_def prefix_def) (metis append_take_drop_id)

lemma has_prefix_append [simp]: "has_prefix (p @ s) p"
  by (simp add: has_prefix_def)

fun contains :: "string \<Rightarrow> string \<Rightarrow> bool" where
  "contains [] p = (p = [])"
| "contains (c # s) p = (has_prefix (c # s) p \<or> contains s p)"

lemma contains_append: "contains (a @ p @ b) p"
proof (induction a)
  case Nil
  have "has_prefix (p @ b) p" by simp
  then show ?case by (cases "p @ b") (auto simp: has_prefix_def)
qed simp

lemma contains_iff: "contains s p \<longleftrightarrow> sublist p s"
  by (induction s) (auto simp: has_prefix_iff sublist_Cons_right)

text \<open>\<open>strings.Index\<close> and \<open>bytes.Index\<close>.\<close>

fun str_index :: "string \<Rightarrow> string \<Rightarrow> nat option" where
  "str_index [] p = (if p = [] then Some 0 else None)"
| "str_index (c # s) p = (if has_prefix (c # s) p then Some 0 else map_option Suc (str_index s p))"

lemma str_index_bound: "str_index s p = Some i \<Longrightarrow> i + length p \<le> length s"
proof (induction s arbitrary: i)
  case (Cons c s)
  then show ?case using prefix_length_le [of p "c # s"] by (auto simp: has_prefix_iff split: if_splits)
qed (auto split: if_splits)

definition trim_prefix :: "string \<Rightarrow> string \<Rightarrow> string" where
  "trim_prefix s p = (if has_prefix s p then drop (length p) s else s)"

text \<open>
  \<open>unicode.IsSpace\<close> as the UTF-8 encodings of the runes it accepts: the ASCII blanks,
  U+0085, U+00A0, U+1680, U+2000 to U+200A, U+2028, U+2029, U+202F, U+205F and U+3000.
\<close>

definition space_runes :: "string list" where
  "space_runes =
     [[CHR 0x09], [CHR 0x0A], [CHR 0x0B], [CHR 0x0C], [CHR 0x0D], [CHR 0x20],
      [CHR 0xC2, CHR 0x85], [CHR 0xC2, CHR 0xA0], [CHR 0xE1, CHR 0x9A, CHR 0x80],
      [CHR 0xE2, CHR 0x80, CHR 0x80], [CHR 0xE2, CHR 0x80, CHR 0x81],
      [CHR 0xE2, CHR 0x80, CHR 0x82], [CHR 0xE2, CHR 0x80, CHR 0x83],
      [CHR 0xE2, CHR 0x80, CHR 0x84], [CHR 0xE2, CHR 0x80, CHR 0x85],
      [CHR 0xE2, CHR 0x80, CHR 0x86], [CHR 0xE2, CHR 0x80, CHR 0x87],
      [CHR 0xE2, CHR 0x80, CHR 0x88], [CHR 0xE2, CHR 0x80, CHR 0x89],
      [CHR 0xE2, CHR 0x80, CHR 0x8A], [CHR 0xE2, CHR 0x80, CHR 0xA8],
      [CHR 0xE2, CHR 0x80, CHR 0xA9], [CHR 0xE2, CHR 0x80, CHR 0xAF],
      [CHR 0xE2, CHR 0x81, CHR 0x9F], [CHR 0xE3, CHR 0x80, CHR 0x80]]"

text \<open>The blank at the head of a string, for a given list of blanks.\<close>

fun blank_at :: "string list \<Rightarrow> string \<Rightarrow> nat" where
  "blank_at [] s = 0"
| "blank_at (w # ws) s = (if w \<noteq> [] \<and> has_prefix s w then length w else blank_at ws s)"

lemma blank_at_le: "blank_at ws s \<le> length s"
  by (induction ws) (auto simp: has_prefix_iff dest: prefix_length_le)

function trim_left :: "string list \<Rightarrow> string \<Rightarrow> string" where
  "trim_left ws s = (let n = blank_at ws s in if n = 0 then s else trim_left ws (drop n s))"
  by pat_completeness auto
termination
proof (relation "measure (\<lambda>(ws, s). length s)")
  fix ws :: "string list" and s :: string and n
  assume "n = blank_at ws s" "n \<noteq> 0"
  then show "((ws, drop n s), (ws, s)) \<in> measure (\<lambda>(ws, s). length s)"
    using blank_at_le [of ws s] by auto
qed simp

declare trim_left.simps [simp del]

text \<open>\<open>strings.TrimSpace\<close>: both ends, the right one on the reversed bytes.\<close>

definition trim_space :: "string \<Rightarrow> string" where
  "trim_space s = rev (trim_left (map rev space_runes) (rev (trim_left space_runes s)))"

definition blank :: "string \<Rightarrow> bool" where
  "blank s \<longleftrightarrow> trim_space s = []"

lemma trim_left_Nil [simp]: "trim_left ws [] = []"
  using blank_at_le [of ws "[]"] by (subst trim_left.simps) simp

lemma blank_Nil [simp]: "blank []"
  by (simp add: blank_def trim_space_def)

lemma trim_left_suffix: "suffix (trim_left ws s) s"
proof (induction ws s rule: trim_left.induct)
  case (1 ws s)
  then show ?case
    by (subst trim_left.simps)
      (auto simp: Let_def intro: suffix_order.trans suffix_drop)
qed

lemma trim_space_length: "length (trim_space s) \<le> length s"
  using suffix_length_le [OF trim_left_suffix [of "map rev space_runes" "rev (trim_left space_runes s)"]]
    suffix_length_le [OF trim_left_suffix [of space_runes s]]
  by (simp add: trim_space_def)

text \<open>\<open>strings.Split(s, sep)\<close> for a one-byte separator; the result is never empty.\<close>

fun split_on :: "char \<Rightarrow> string \<Rightarrow> string list" where
  "split_on c [] = [[]]"
| "split_on c (x # s) =
     (if x = c then [] # split_on c s
      else (case split_on c s of [] \<Rightarrow> [[x]] | l # ls \<Rightarrow> (x # l) # ls))"

lemma split_on_ne [simp]: "split_on c s \<noteq> []"
  by (induction s) (auto split: list.splits)

fun join :: "string \<Rightarrow> string list \<Rightarrow> string" where
  "join sep [] = []"
| "join sep [x] = x"
| "join sep (x # y # xs) = x @ sep @ join sep (y # xs)"

lemma join_split_on: "join [c] (split_on c s) = s"
proof (induction s)
  case (Cons x s)
  obtain l ls where "split_on c s = l # ls" by (meson neq_Nil_conv split_on_ne)
  with Cons show ?case by (cases ls) auto
qed simp

lemma split_on_parts: "l \<in> set (split_on c s) \<Longrightarrow> c \<notin> set l"
proof (induction s arbitrary: l)
  case (Cons x s)
  obtain k ks where "split_on c s = k # ks" by (meson neq_Nil_conv split_on_ne)
  with Cons show ?case by (auto split: if_splits)
qed simp

text \<open>\<open>strings.Fields\<close>: the maximal runs without blanks.\<close>

function fields_from :: "string \<Rightarrow> string \<Rightarrow> string list" where
  "fields_from cur [] = (if cur = [] then [] else [rev cur])"
| "fields_from cur (c # s) =
     (let n = blank_at space_runes (c # s) in
      if n = 0 then fields_from (c # cur) s
      else (if cur = [] then [] else [rev cur]) @ fields_from [] (drop n (c # s)))"
  by pat_completeness auto
termination by (relation "measure (\<lambda>(cur, s). length s)") auto

definition str_fields :: "string \<Rightarrow> string list" where
  "str_fields s = fields_from [] s"

text \<open>
  UTF-8: the length of a valid encoding at the head (\<open>unicode/utf8\<close> accepts shortest forms
  up to U+10FFFF without surrogates). \<open>[]rune(s)\<close> splits into runes, an invalid byte being
  one rune U+FFFD; a rune is kept here as the bytes \<open>string(r)\<close> would write.
\<close>

definition byte_in :: "nat \<Rightarrow> nat \<Rightarrow> char \<Rightarrow> bool" where
  "byte_in lo hi c \<longleftrightarrow> lo \<le> (of_char c :: nat) \<and> (of_char c :: nat) \<le> hi"

definition rune_start :: "char \<Rightarrow> bool" where
  "rune_start c \<longleftrightarrow> \<not> byte_in 0x80 0xBF c"

fun rune_bytes :: "string \<Rightarrow> bool" where
  "rune_bytes [a] \<longleftrightarrow> byte_in 0 0x7F a"
| "rune_bytes [a, b] \<longleftrightarrow> byte_in 0xC2 0xDF a \<and> byte_in 0x80 0xBF b"
| "rune_bytes [a, b, c] \<longleftrightarrow> byte_in 0x80 0xBF c \<and>
     (byte_in 0xE0 0xE0 a \<and> byte_in 0xA0 0xBF b \<or>
      (byte_in 0xE1 0xEC a \<or> byte_in 0xEE 0xEF a) \<and> byte_in 0x80 0xBF b \<or>
      byte_in 0xED 0xED a \<and> byte_in 0x80 0x9F b)"
| "rune_bytes [a, b, c, d] \<longleftrightarrow> byte_in 0x80 0xBF c \<and> byte_in 0x80 0xBF d \<and>
     (byte_in 0xF0 0xF0 a \<and> byte_in 0x90 0xBF b \<or>
      byte_in 0xF1 0xF3 a \<and> byte_in 0x80 0xBF b \<or>
      byte_in 0xF4 0xF4 a \<and> byte_in 0x80 0x8F b)"
| "rune_bytes _ \<longleftrightarrow> False"

definition valid_rune_len :: "string \<Rightarrow> nat option" where
  "valid_rune_len s = find (\<lambda>n. n \<le> length s \<and> rune_bytes (take n s)) [1, 2, 3, 4]"

definition rune_error :: string where
  "rune_error = [CHR 0xEF, CHR 0xBF, CHR 0xBD]"

fun runes_fuel :: "nat \<Rightarrow> string \<Rightarrow> string list" where
  "runes_fuel 0 s = []"
| "runes_fuel (Suc k) [] = []"
| "runes_fuel (Suc k) (c # s) =
     (case valid_rune_len (c # s) of
        Some n \<Rightarrow> take n (c # s) # runes_fuel k (drop n (c # s))
      | None \<Rightarrow> rune_error # runes_fuel k s)"

definition runes :: "string \<Rightarrow> string list" where
  "runes s = runes_fuel (length s) s"

lemma valid_rune_len_bounds: "valid_rune_len s = Some n \<Longrightarrow> 0 < n \<and> n \<le> length s"
proof -
  assume "valid_rune_len s = Some n"
  then obtain i where i: "i < length [1, 2, 3, 4 :: nat]" "n = [1, 2, 3, 4] ! i" and n: "n \<le> length s"
    unfolding valid_rune_len_def find_Some_iff by blast
  from i have "n \<in> set [1, 2, 3, 4]" by (simp only: nth_mem)
  with n show ?thesis by (simp only: set_simps insert_iff empty_iff) auto
qed

text \<open>One unit of fuel per byte is enough: nothing of the string is left over.\<close>

lemma runes_fuel_enough: "length s \<le> k \<Longrightarrow> runes_fuel k s = runes_fuel (length s) s"
proof (induction "length s" arbitrary: s k rule: less_induct)
  case less
  show ?case
  proof (cases s)
    case Nil
    then show ?thesis by (cases k) simp_all
  next
    case (Cons c t)
    with less(2) obtain k' where k: "k = Suc k'" "length t \<le> k'" by (cases k) simp_all
    show ?thesis
    proof (cases "valid_rune_len s")
      case None
      have "runes_fuel k' t = runes_fuel (length t) t" by (rule less(1)) (use Cons k in simp_all)
      with None Cons k show ?thesis by simp
    next
      case (Some n)
      with valid_rune_len_bounds [OF Some] Cons
      have d: "length (drop n s) < length s" "length (drop n s) \<le> length t" by auto
      have "runes_fuel m (drop n s) = runes_fuel (length (drop n s)) (drop n s)" if "length t \<le> m" for m
        by (rule less(1) [OF d(1)]) (use d(2) that in linarith)
      then have "runes_fuel k' (drop n s) = runes_fuel (length t) (drop n s)" using k(2) by simp
      with Some Cons k show ?thesis by simp
    qed
  qed
qed

section \<open>Decimal numbers\<close>

definition digit :: "nat \<Rightarrow> char" where
  "digit d = char_of (48 + d)"

definition is_digit :: "char \<Rightarrow> bool" where
  "is_digit c \<longleftrightarrow> 48 \<le> (of_char c :: nat) \<and> (of_char c :: nat) \<le> 57"

definition digit_val :: "char \<Rightarrow> nat" where
  "digit_val c = of_char c - 48"

lemma digit_val_digit [simp]: "d < 10 \<Longrightarrow> digit_val (digit d) = d"
  by (simp add: digit_val_def digit_def)

lemma is_digit_digit [simp]: "d < 10 \<Longrightarrow> is_digit (digit d)"
  by (simp add: is_digit_def digit_def)

text \<open>\<open>fmt.Sprintf("%d", n)\<close> and \<open>strconv.Itoa\<close> on a value that is not negative.\<close>

fun show_nat :: "nat \<Rightarrow> string" where
  "show_nat n = (if n < 10 then [digit n] else show_nat (n div 10) @ [digit (n mod 10)])"

declare show_nat.simps [simp del]

definition show_int :: "int \<Rightarrow> string" where
  "show_int i = (if i < 0 then ''-'' @ show_nat (nat (- i)) else show_nat (nat i))"

definition dec_val :: "string \<Rightarrow> nat" where
  "dec_val s = foldl (\<lambda>n c. n * 10 + digit_val c) 0 s"

lemma show_nat_digits: "\<forall>c \<in> set (show_nat n). is_digit c"
proof (induction n rule: show_nat.induct)
  case (1 n)
  then show ?case by (subst show_nat.simps) (auto simp: show_nat.simps [of n])
qed

lemma show_nat_ne [simp]: "show_nat n \<noteq> []"
  by (subst show_nat.simps) simp

lemma dec_val_show_nat [simp]: "dec_val (show_nat n) = n"
proof (induction n rule: show_nat.induct)
  case (1 n)
  show ?case
  proof (cases "n < 10")
    case True
    then show ?thesis by (simp add: show_nat.simps [of n] dec_val_def)
  next
    case False
    with 1 have "foldl (\<lambda>n c. n * 10 + digit_val c) 0 (show_nat (n div 10)) = n div 10"
      by (simp add: dec_val_def)
    with False show ?thesis by (simp add: show_nat.simps [of n] dec_val_def)
  qed
qed

lemma show_nat_inj: "show_nat m = show_nat n \<longleftrightarrow> m = n"
  by (metis dec_val_show_nat)

section \<open>Lists\<close>

text \<open>\<open>xs[len(xs)-n:]\<close>, all of \<open>xs\<close> when it is shorter.\<close>

definition last_n :: "nat \<Rightarrow> 'a list \<Rightarrow> 'a list" where
  "last_n n xs = drop (length xs - n) xs"

lemma last_n_length [simp]: "length (last_n n xs) = min n (length xs)"
  by (simp add: last_n_def)

lemma set_last_n: "set (last_n n xs) \<subseteq> set xs"
  by (simp add: last_n_def set_drop_subset)

lemma last_n_all [simp]: "length xs \<le> n \<Longrightarrow> last_n n xs = xs"
  by (simp add: last_n_def)

lemma last_in_last_n: "0 < n \<Longrightarrow> x \<in> set (last_n n (xs @ [x]))"
  by (cases n) (auto simp: last_n_def Suc_diff_le)

lemma distinct_last_n: "distinct xs \<Longrightarrow> distinct (last_n n xs)"
  by (simp add: last_n_def)

lemma remove1_distinct_iff: "distinct xs \<Longrightarrow> x \<in> set (remove1 y xs) \<longleftrightarrow> x \<in> set xs \<and> x \<noteq> y"
  by auto

lemma set_enumerate0: "set (enumerate 0 xs) = {(j, xs ! j) | j. j < length xs}"
  by (auto simp: in_set_enumerate_eq)

lemma foldl_invariant:
  assumes "I s" and "\<And>s x. I s \<Longrightarrow> x \<in> set xs \<Longrightarrow> I (f s x)"
  shows "I (foldl f s xs)"
  using assms by (induction xs arbitrary: s) auto

section \<open>Printable text has nothing to trim\<close>

definition printable :: "char \<Rightarrow> bool" where
  "printable c \<longleftrightarrow> 0x21 \<le> (of_char c :: nat) \<and> (of_char c :: nat) \<le> 0x7E"

lemma blank_at_0: "\<forall>w \<in> set ws. w = [] \<or> hd w \<noteq> c \<Longrightarrow> blank_at ws (c # s) = 0"
  by (induction ws) (auto simp: has_prefix_iff neq_Nil_conv)

lemma trim_left_0: "\<forall>w \<in> set ws. w = [] \<or> hd w \<noteq> c \<Longrightarrow> trim_left ws (c # s) = c # s"
  by (subst trim_left.simps) (simp add: blank_at_0 Let_def)

lemma space_runes_not_printable:
  "printable c \<Longrightarrow> \<forall>w \<in> set space_runes. hd w \<noteq> c \<and> last w \<noteq> c \<and> w \<noteq> []"
  by (auto simp: space_runes_def printable_def)

lemma trim_space_printable:
  assumes "s \<noteq> []" "printable (hd s)" "printable (last s)"
  shows "trim_space s = s"
proof -
  obtain c t where s: "s = c # t" using assms(1) by (cases s) auto
  have 1: "trim_left space_runes s = s" unfolding s
    by (rule trim_left_0) (use space_runes_not_printable [of c] assms(2) s in auto)
  obtain d u where r: "rev s = d # u" using assms(1) by (cases "rev s") auto
  then have d: "d = last s" by (metis last_rev list.sel(1) rev_rev_ident hd_rev)
  have 2: "trim_left (map rev space_runes) (rev s) = rev s" unfolding r
    by (rule trim_left_0) (use space_runes_not_printable [of d] assms(3) d in \<open>auto simp: hd_rev\<close>)
  show ?thesis unfolding trim_space_def 1 2 by simp
qed

lemma printable_no_blank_at: "printable c \<Longrightarrow> blank_at space_runes (c # s) = 0"
  by (rule blank_at_0) (use space_runes_not_printable [of c] in auto)

lemma fields_from_printable:
  assumes "\<forall>c \<in> set w. printable c"
  shows "fields_from cur (w @ s) = fields_from (rev w @ cur) s"
  using assms by (induction w arbitrary: cur) (auto simp: Let_def printable_no_blank_at)

lemma fields_from_space:
  "fields_from cur (CHR '' '' # s) = (if cur = [] then [] else [rev cur]) @ fields_from [] s"
proof -
  have "blank_at space_runes (CHR '' '' # s) = 1" by (simp add: space_runes_def has_prefix_def)
  then show ?thesis by (simp add: Let_def)
qed

text \<open>\<open>strings.Fields\<close> undoes joining words with single blanks.\<close>

lemma str_fields_join:
  assumes "\<forall>w \<in> set ws. w \<noteq> [] \<and> (\<forall>c \<in> set w. printable c)"
  shows "str_fields (join '' '' ws) = ws"
  using assms
proof (induction ws)
  case (Cons w ws)
  then have w: "w \<noteq> []" "\<forall>c \<in> set w. printable c" by auto
  show ?case
  proof (cases ws)
    case Nil
    then show ?thesis using fields_from_printable [OF w(2), of "[]" "[]"] w(1)
      by (simp add: str_fields_def del: fields_from.simps(2))
  next
    case (Cons w2 ws2)
    then have "str_fields (join '' '' (w # ws)) = fields_from (rev w) (CHR '' '' # join '' '' ws)"
      using fields_from_printable [OF w(2), of "[]" "CHR '' '' # join '' '' ws"]
      by (simp add: str_fields_def del: fields_from.simps(2))
    also have "\<dots> = w # ws" using Cons.IH Cons.prems w(1) by (simp add: fields_from_space str_fields_def del: fields_from.simps(2))
    finally show ?thesis .
  qed
qed (simp add: str_fields_def)

lemma split_on_fresh: "c \<notin> set w \<Longrightarrow> split_on c (w @ s) = (w @ hd (split_on c s)) # tl (split_on c s)"
  by (induction w) (auto split: list.splits)

lemma split_on_join:
  assumes "ws \<noteq> []" "\<forall>w \<in> set ws. c \<notin> set w"
  shows "split_on c (join [c] ws) = ws"
  using assms
proof (induction ws rule: list_nonempty_induct)
  case (single w)
  then show ?case using split_on_fresh [of c w "[]"] by simp
next
  case (cons w ws)
  then show ?case using split_on_fresh [of c w "c # join [c] ws"] by (cases ws) auto
qed

text \<open>ASCII text has one rune per byte.\<close>

lemma runes_ascii: "\<forall>c \<in> set s. byte_in 0 0x7F c \<Longrightarrow> runes s = map (\<lambda>c. [c]) s"
proof -
  assume "\<forall>c \<in> set s. byte_in 0 0x7F c"
  then have "runes_fuel (length s) s = map (\<lambda>c. [c]) s"
  proof (induction s)
    case (Cons c s)
    then have "valid_rune_len (c # s) = Some 1" by (simp add: valid_rune_len_def)
    with Cons show ?case by simp
  qed simp
  then show ?thesis by (simp add: runes_def)
qed

end
