(* ===== verification/Ids.thy ===== *)
theory Ids
  imports Prelude
begin

text \<open>
  Identifiers that a component hands out by counting: \<open>t1, t2, ...\<close> of the to-do list,
  \<open>c1, c2, ...\<close> of the scheduled jobs and \<open>r1, r2, ...\<close> of their runs. All three read the
  number out of an id with the same \<open>idNum\<close> and restart counting behind the largest restored
  number with the same loop. The contract is the locale \<open>id_allocator\<close>.
\<close>

section \<open>The number of an id\<close>

definition idNum :: "string \<Rightarrow> int" where
  "idNum s = foldl (\<lambda>n c. if is_digit c then wrap64 (n * 10 + int (digit_val c)) else n) 0 s"

text \<open>The loop of every restore: \<open>if n := idNum(id); n >= next { next = n + 1 }\<close>.\<close>

definition bump_next :: "int \<Rightarrow> string \<Rightarrow> int" where
  "bump_next n i = (if n \<le> idNum i then wrap64 (idNum i + 1) else n)"

definition restored_next :: "string list \<Rightarrow> int" where
  "restored_next ids = foldl bump_next 1 ids"

lemma wrap64_absorb: "wrap64 (wrap64 x * 10 + d) = wrap64 (x * 10 + d)"
proof -
  have "(((x + 2 ^ 63) mod 2 ^ 64 - 2 ^ 63) * 10 + d + 2 ^ 63) mod 2 ^ 64 =
      (((x + 2 ^ 63) mod 2 ^ 64) * 10 + (d - 2 ^ 63 * 10 + 2 ^ 63)) mod (2 :: int) ^ 64"
    by (simp add: algebra_simps)
  also have "\<dots> = ((x + 2 ^ 63) * 10 + (d - 2 ^ 63 * 10 + 2 ^ 63)) mod 2 ^ 64"
    by (metis mod_add_left_eq mod_mult_left_eq)
  finally show ?thesis by (simp add: wrap64_def algebra_simps)
qed

lemma idNum_digits:
  assumes "\<forall>c \<in> set s. is_digit c"
  shows "foldl (\<lambda>n c. if is_digit c then wrap64 (n * 10 + int (digit_val c)) else n) (wrap64 (int k)) s =
     wrap64 (int (foldl (\<lambda>n c. n * 10 + digit_val c) k s))"
  using assms
proof (induction s arbitrary: k)
  case (Cons c s)
  have "wrap64 (wrap64 (int k) * 10 + int (digit_val c)) = wrap64 (int (k * 10 + digit_val c))"
    by (simp add: wrap64_absorb)
  with Cons.IH [of "k * 10 + digit_val c"] Cons.prems show ?case by (simp del: of_nat_add of_nat_mult)
qed simp

lemma idNum_skip: "\<forall>c \<in> set p. \<not> is_digit c \<Longrightarrow> idNum (p @ s) = idNum s"
proof -
  assume "\<forall>c \<in> set p. \<not> is_digit c"
  then have "foldl (\<lambda>n c. if is_digit c then wrap64 (n * 10 + int (digit_val c)) else n) 0 p = 0"
    by (induction p) auto
  then show ?thesis by (simp add: idNum_def)
qed

lemma wrap64_0 [simp]: "wrap64 0 = 0"
  by (simp add: wrap64_def)

lemma idNum_show: "0 \<le> n \<Longrightarrow> n < 2 ^ 63 \<Longrightarrow> idNum (show_int n) = n"
  using idNum_digits [OF show_nat_digits, of 0 "nat n"] dec_val_show_nat [of "nat n"]
  by (simp add: idNum_def show_int_def dec_val_def wrap64_id)

lemma idNum_range: "- (2 ^ 63) \<le> idNum s \<and> idNum s < 2 ^ 63"
  unfolding idNum_def by (rule foldl_invariant) (use wrap64_range in auto)

text \<open>Restoring puts the counter behind every restored number, unless one is the largest \<open>int\<close>.\<close>

lemma restored_next_fresh:
  assumes "\<forall>i \<in> set ids. idNum i < 2 ^ 63 - 1"
  shows "1 \<le> restored_next ids \<and> (\<forall>i \<in> set ids. idNum i < restored_next ids)"
proof -
  have "n \<le> foldl bump_next n ids \<and> (\<forall>i \<in> set ids. idNum i < foldl bump_next n ids)" if "1 \<le> n" for n
    using assms that
  proof (induction ids arbitrary: n)
    case (Cons i ids)
    have b: "n \<le> bump_next n i" "idNum i < bump_next n i"
      using Cons.prems by (auto simp: bump_next_def wrap64_id)
    have "bump_next n i \<le> foldl bump_next (bump_next n i) ids"
      "\<forall>j \<in> set ids. idNum j < foldl bump_next (bump_next n i) ids"
      using Cons.IH [of "bump_next n i"] Cons.prems b(1) by auto
    with b show ?case by auto
  qed simp
  from this [of 1] show ?thesis by (simp add: restored_next_def)
qed

section \<open>The contract of an allocator\<close>

definition counts_past :: "int \<Rightarrow> string set \<Rightarrow> bool" where
  "counts_past n ids \<longleftrightarrow> 1 \<le> n \<and> (\<forall>i \<in> ids. idNum i < n)"

lemma counts_past_mono: "counts_past n ids \<Longrightarrow> ids' \<subseteq> ids \<Longrightarrow> counts_past n ids'"
  by (auto simp: counts_past_def)

locale id_allocator =
  fixes pre :: string and ids :: "'s \<Rightarrow> string set" and nxt :: "'s \<Rightarrow> int"
    and alloc :: "'a \<Rightarrow> 's \<Rightarrow> ('e + string) \<times> 's"
  assumes pre_no_digit: "\<forall>c \<in> set pre. \<not> is_digit c"
    and alloc_ok: "1 \<le> nxt s \<Longrightarrow> alloc a s = (Inr i, s') \<Longrightarrow> i = pre @ show_int (nxt s) \<and>
      ids s' \<subseteq> insert i (ids s) \<and> nxt s' = wrap64 (nxt s + 1)"
    and alloc_err: "alloc a s = (Inl e, s') \<Longrightarrow> s' = s"
begin

definition fresh :: "'s \<Rightarrow> bool" where
  "fresh s \<longleftrightarrow> counts_past (nxt s) (ids s)"

lemma alloc_step:
  assumes "fresh s" "nxt s < 2 ^ 63 - 1" "alloc a s = (Inr i, s')"
  shows "i \<notin> ids s \<and> idNum i = nxt s \<and> fresh s' \<and> nxt s' = nxt s + 1"
proof -
  have i: "i = pre @ show_int (nxt s)" "ids s' \<subseteq> insert i (ids s)" "nxt s' = nxt s + 1"
    using alloc_ok [OF _ assms(3)] assms(1,2) by (auto simp: fresh_def counts_past_def wrap64_id)
  have n: "idNum i = nxt s" using assms(1,2) unfolding i(1)
    by (subst idNum_skip [OF pre_no_digit], subst idNum_show) (auto simp: fresh_def counts_past_def)
  with i(2,3) assms(1) show ?thesis by (fastforce simp: fresh_def counts_past_def)
qed

text \<open>The ids that a sequence of requests hands out.\<close>

fun handed :: "'a list \<Rightarrow> 's \<Rightarrow> string list" where
  "handed [] s = []"
| "handed (a # as) s = (case alloc a s of (Inr i, s') \<Rightarrow> i # handed as s' | (Inl e, s') \<Rightarrow> handed as s')"

lemma handed_numbers:
  assumes "fresh s" "nxt s + int (length as) < 2 ^ 63"
  shows "(\<forall>i \<in> set (handed as s). nxt s \<le> idNum i \<and> i \<notin> ids s) \<and> distinct (handed as s)"
  using assms
proof (induction as arbitrary: s)
  case (Cons a as)
  obtain r s' where r: "alloc a s = (r, s')" by (cases "alloc a s") auto
  show ?case
  proof (cases r)
    case (Inl e)
    with r have "s' = s" using alloc_err [of a s e s'] by simp
    with Cons.IH [of s] Cons.prems Inl r show ?thesis by simp
  next
    case (Inr i)
    with Cons.prems r have st: "i \<notin> ids s" "idNum i = nxt s" "fresh s'" "nxt s' = nxt s + 1"
      using alloc_step [of s a i s'] by auto
    have "\<forall>j \<in> set (handed as s'). nxt s' \<le> idNum j" "distinct (handed as s')"
      using Cons.IH [of s'] st Cons.prems by simp_all
    moreover have "\<forall>j \<in> ids s. idNum j < nxt s"
      using Cons.prems(1) by (auto simp: fresh_def counts_past_def)
    ultimately show ?thesis using st r Inr by fastforce
  qed
qed simp

end

end
