(* ===== verification/Todo.thy ===== *)
theory Todo
  imports Ids
begin

text \<open>
  \<open>todo/todo.go\<close>: the to-do list of a session. \<open>Add\<close>, \<open>Update\<close>, \<open>Clear\<close>, \<open>Restore\<close> and
  \<open>List\<close> under the store's lock, the two tools on top of them, the invariant that every
  operation keeps (ids distinct and behind the counter, dependencies known), and the ids that
  are never handed out twice. The JSON decoding of a tool's arguments is outside.
\<close>

section \<open>The store\<close>

record todo_item =
  it_id :: string
  it_title :: string
  it_done :: bool
  it_blocked :: "string list"

record todo_store =
  td_items :: "todo_item list"
  td_next :: int

datatype todo_error = TitleRequired | TitleEmpty | DependencyMissing string | IdNotFound string

definition todo_New :: todo_store where
  "todo_New = \<lparr>td_items = [], td_next = 1\<rparr>"

definition todo_Restore :: "todo_item list \<Rightarrow> todo_store" where
  "todo_Restore items = \<lparr>td_items = items, td_next = restored_next (map it_id items)\<rparr>"

definition todo_Clear :: "todo_store \<Rightarrow> todo_store" where
  "todo_Clear s = \<lparr>td_items = [], td_next = 1\<rparr>"

definition todo_Items :: "todo_store \<Rightarrow> todo_item list" where
  "todo_Items s = td_items s"

definition checkDeps :: "todo_store \<Rightarrow> string list \<Rightarrow> todo_error option" where
  "checkDeps s ids = map_option DependencyMissing (find (\<lambda>i. i \<notin> it_id ` set (td_items s)) ids)"

definition todo_Add :: "string \<times> string list \<Rightarrow> todo_store \<Rightarrow> (todo_error + string) \<times> todo_store" where
  "todo_Add a s = (case a of (title, blocked) \<Rightarrow>
     if trim_space title = [] then (Inl TitleRequired, s)
     else case checkDeps s blocked of
         Some e \<Rightarrow> (Inl e, s)
       | None \<Rightarrow>
           let i = ''t'' @ show_int (td_next s) in
           (Inr i, \<lparr>td_items = td_items s @ [\<lparr>it_id = i, it_title = title, it_done = False, it_blocked = blocked\<rparr>],
                    td_next = wrap64 (td_next s + 1)\<rparr>))"

text \<open>
  \<open>Update\<close> writes field by field into the stored item: the dependencies first, then the title,
  then the mark, and returns at the first field that is not valid. Its result is the error, if
  any, and the item as it then is.
\<close>

definition update_item ::
  "todo_store \<Rightarrow> string option \<Rightarrow> bool option \<Rightarrow> string list option \<Rightarrow> todo_item \<Rightarrow>
     todo_error option \<times> todo_item" where
  "update_item s title done blocked it =
     (case (case blocked of None \<Rightarrow> (None, it)
          | Some bs \<Rightarrow> (case checkDeps s bs of Some e \<Rightarrow> (Some e, it) | None \<Rightarrow> (None, it\<lparr>it_blocked := bs\<rparr>))) of
        (Some e, it1) \<Rightarrow> (Some e, it1)
      | (None, it1) \<Rightarrow>
          (case (case title of None \<Rightarrow> (None, it1)
               | Some t \<Rightarrow> if trim_space t = [] then (Some TitleEmpty, it1) else (None, it1\<lparr>it_title := t\<rparr>)) of
             (Some e, it2) \<Rightarrow> (Some e, it2)
           | (None, it2) \<Rightarrow> (None, case done of None \<Rightarrow> it2 | Some d \<Rightarrow> it2\<lparr>it_done := d\<rparr>)))"

fun update_first ::
  "(todo_item \<Rightarrow> todo_error option \<times> todo_item) \<Rightarrow> string \<Rightarrow> todo_item list \<Rightarrow>
     todo_error option \<times> todo_item list" where
  "update_first f i [] = (Some (IdNotFound i), [])"
| "update_first f i (it # its) =
     (if it_id it \<noteq> i then map_prod id (\<lambda>r. it # r) (update_first f i its)
      else map_prod id (\<lambda>r. r # its) (f it))"

definition todo_Update ::
  "string \<Rightarrow> string option \<Rightarrow> bool option \<Rightarrow> string list option \<Rightarrow> todo_store \<Rightarrow>
     todo_error option \<times> todo_store" where
  "todo_Update i title done blocked s =
     map_prod id (\<lambda>its. s\<lparr>td_items := its\<rparr>)
       (update_first (update_item s title done blocked) i (td_items s))"

definition todo_line :: "todo_item \<Rightarrow> string" where
  "todo_line it = ''- '' @ it_id it @ '' '' @ (if it_done it then ''[x]'' else ''[ ]'') @ '' '' @
     it_title it @
     (if it_blocked it \<noteq> [] then '' (blocked by '' @ join '', '' (it_blocked it) @ '')'' else []) @ [CHR 0x0A]"

definition todo_List :: "todo_store \<Rightarrow> string" where
  "todo_List s =
     ''[todo: '' @ show_nat (length (filter (\<lambda>it. \<not> it_done it) (td_items s))) @ '' open, '' @
     show_nat (length (filter it_done (td_items s))) @ '' done]'' @ [CHR 0x0A] @
     concat (map todo_line (td_items s))"

text \<open>The tools: \<open>None\<close> for the store is a call outside a session.\<close>

datatype todo_call =
    TodoAdd string "string list"
  | TodoUpdate string "string option" "bool option" "string list option"

datatype tool_failure_kind = NoStore | StoreError todo_error

fun todo_call_on :: "todo_call \<Rightarrow> todo_store \<Rightarrow> (tool_failure_kind + string) \<times> todo_store" where
  "todo_call_on (TodoAdd title blocked) s =
     (case todo_Add (title, blocked) s of
        (Inl e, s') \<Rightarrow> (Inl (StoreError e), s')
      | (Inr _, s') \<Rightarrow> (Inr (todo_List s'), s'))"
| "todo_call_on (TodoUpdate i title done blocked) s =
     (case todo_Update i title done blocked s of
        (Some e, s') \<Rightarrow> (Inl (StoreError e), s')
      | (None, s') \<Rightarrow> (Inr (todo_List s'), s'))"

definition todo_Call ::
  "todo_call \<Rightarrow> todo_store option \<Rightarrow> (tool_failure_kind + string) \<times> todo_store option" where
  "todo_Call c st = (case st of None \<Rightarrow> (Inl NoStore, None)
     | Some s \<Rightarrow> map_prod id Some (todo_call_on c s))"

section \<open>The allocator contract\<close>

interpretation todo_ids: id_allocator "''t''" "\<lambda>s. it_id ` set (td_items s)" td_next todo_Add
  by unfold_locales
    (auto simp: todo_Add_def is_digit_def Let_def split: prod.splits if_splits option.splits)

section \<open>The invariant\<close>

definition todo_ok :: "todo_store \<Rightarrow> bool" where
  "todo_ok s \<longleftrightarrow> distinct (map it_id (td_items s)) \<and> todo_ids.fresh s \<and>
     (\<forall>it \<in> set (td_items s). set (it_blocked it) \<subseteq> it_id ` set (td_items s) \<and> trim_space (it_title it) \<noteq> [])"

lemma checkDeps_None: "checkDeps s ids = None \<longleftrightarrow> set ids \<subseteq> it_id ` set (td_items s)"
  by (auto simp: checkDeps_def find_None_iff)

lemma todo_Add_cases:
  "todo_Add a s = (Inl e, s') \<Longrightarrow> s' = s"
  "todo_Add a s = (Inr i, s') \<Longrightarrow> \<exists>t bs. a = (t, bs) \<and> trim_space t \<noteq> [] \<and> set bs \<subseteq> it_id ` set (td_items s) \<and>
     td_items s' = td_items s @ [\<lparr>it_id = i, it_title = t, it_done = False, it_blocked = bs\<rparr>]"
  by (auto simp: todo_Add_def Let_def checkDeps_None split: prod.splits if_splits option.splits)

lemma todo_Add_ok [step_inv]:
  assumes "todo_ok s" "td_next s < 2 ^ 63 - 1"
  shows "todo_ok (snd (todo_Add a s))"
proof (cases "todo_Add a s")
  case (Pair r s')
  show ?thesis
  proof (cases r)
    case (Inl e)
    with Pair assms todo_Add_cases(1) show ?thesis by fastforce
  next
    case (Inr i)
    with Pair have st: "i \<notin> it_id ` set (td_items s)" "todo_ids.fresh s'"
      using todo_ids.alloc_step [of s a i s'] assms by (auto simp: todo_ok_def)
    from Pair Inr obtain t bs where "set bs \<subseteq> it_id ` set (td_items s)" "trim_space t \<noteq> []"
      "td_items s' = td_items s @ [\<lparr>it_id = i, it_title = t, it_done = False, it_blocked = bs\<rparr>]"
      using todo_Add_cases(2) [of a s i s'] by auto
    with st assms Pair show ?thesis by (fastforce simp: todo_ok_def)
  qed
qed

lemma update_item_keeps:
  "update_item s t d b it = (e, it') \<Longrightarrow> it_id it' = it_id it \<and>
     (it_blocked it' = it_blocked it \<or> set (it_blocked it') \<subseteq> it_id ` set (td_items s)) \<and>
     (it_title it' = it_title it \<or> trim_space (it_title it') \<noteq> [])"
  by (auto simp: update_item_def checkDeps_None split: option.splits if_splits prod.splits)

lemma update_first_split:
  assumes "update_first f i its = (e, its')"
  shows "(i \<notin> it_id ` set its \<and> its' = its \<and> e = Some (IdNotFound i)) \<or>
     (\<exists>xs it ys it'. its = xs @ it # ys \<and> it_id it = i \<and> i \<notin> it_id ` set xs \<and> f it = (e, it') \<and>
        its' = xs @ it' # ys)"
  using assms
proof (induction its arbitrary: its')
  case (Cons it its)
  show ?case
  proof (cases "it_id it = i")
    case True
    then obtain it' where "f it = (e, it')" "its' = it' # its"
      using Cons.prems by (auto simp: map_prod_def split: prod.splits)
    with True show ?thesis by (intro disjI2 exI [of _ "[]"]) auto
  next
    case False
    then obtain r where r: "update_first f i its = (e, r)" "its' = it # r"
      using Cons.prems by (auto simp: map_prod_def split: prod.splits)
    from Cons.IH [OF r(1)] show ?thesis
    proof (elim disjE exE conjE)
      fix xs x ys x'
      assume "its = xs @ x # ys" "it_id x = i" "i \<notin> it_id ` set xs" "f x = (e, x')" "r = xs @ x' # ys"
      with r(2) False show ?thesis by (intro disjI2 exI [of _ "it # xs"]) auto
    qed (use r(2) False in auto)
  qed
qed simp

lemma todo_Update_ok [step_inv]:
  assumes "todo_ok s"
  shows "todo_ok (snd (todo_Update i t d b s))"
proof -
  obtain e its where u: "update_first (update_item s t d b) i (td_items s) = (e, its)" by fastforce
  then have s': "snd (todo_Update i t d b s) = s\<lparr>td_items := its\<rparr>" by (simp add: todo_Update_def)
  from update_first_split [OF u] show ?thesis
  proof (elim disjE exE conjE)
    assume "its = td_items s"
    then show ?thesis using assms s' by simp
  next
    fix xs it ys it'
    assume a: "td_items s = xs @ it # ys" "update_item s t d b it = (e, it')" "its = xs @ it' # ys"
    from update_item_keeps [OF a(2)] a assms s' show ?thesis
      by (auto simp: todo_ok_def todo_ids.fresh_def)
  qed
qed

section \<open>Properties of the to-do list\<close>

datatype todo_op = OpCall todo_call | OpClear

fun todo_step :: "todo_store \<Rightarrow> todo_op \<Rightarrow> todo_store" where
  "todo_step s (OpCall c) = snd (todo_call_on c s)"
| "todo_step s OpClear = todo_Clear s"

lemma todo_call_store:
  "snd (todo_call_on (TodoAdd t b) s) = snd (todo_Add (t, b) s)"
  "snd (todo_call_on (TodoUpdate i t' d b') s) = snd (todo_Update i t' d b' s)"
  by (auto split: prod.splits sum.splits option.splits)

lemma todo_Add_next: "td_next (snd (todo_Add a s)) \<in> {td_next s, wrap64 (td_next s + 1)}"
  by (auto simp: todo_Add_def Let_def split: prod.splits option.splits)

lemma todo_Update_next: "td_next (snd (todo_Update i t d b s)) = td_next s"
  by (simp add: todo_Update_def map_prod_def split: prod.splits)

lemma todo_step_ok:
  assumes "todo_ok s" "td_next s < 2 ^ 63 - 1"
  shows "todo_ok (todo_step s op) \<and> td_next (todo_step s op) \<le> td_next s + 1"
proof (cases op)
  case (OpCall c)
  have "1 \<le> td_next s" using assms(1) by (simp add: todo_ok_def todo_ids.fresh_def counts_past_def)
  then have w: "wrap64 (td_next s + 1) = td_next s + 1" using assms(2) by (simp add: wrap64_id)
  show ?thesis
  proof (cases c)
    case (TodoAdd t b)
    then show ?thesis using OpCall todo_Add_ok [OF assms, of "(t, b)"] todo_Add_next [of "(t, b)" s] w
      by (auto simp: todo_call_store simp del: todo_call_on.simps)
  next
    case (TodoUpdate i t d b)
    then show ?thesis using OpCall todo_Update_ok [OF assms(1), of i t d b] todo_Update_next [of i t d b s]
      by (auto simp: todo_call_store simp del: todo_call_on.simps)
  qed
next
  case OpClear
  then show ?thesis using assms
    by (auto simp: todo_Clear_def todo_ok_def todo_ids.fresh_def counts_past_def)
qed

text \<open>C35. Whatever the model calls and however often the list is cleared at a compaction, the
  ids of the list stay distinct and behind the counter, every declared dependency exists and no title
  is blank; failing calls included.\<close>

theorem todo_list_stays_consistent:
  assumes "int (length ops) < 2 ^ 63 - 1"
  shows "todo_ok (foldl todo_step todo_New ops)"
proof -
  have "todo_ok (foldl todo_step s ops)" if "todo_ok s" "td_next s + int (length ops) < 2 ^ 63" for s
    using that
  proof (induction ops arbitrary: s)
    case (Cons op ops)
    with todo_step_ok [of s op] show ?case by auto
  qed simp
  moreover have "todo_ok todo_New"
    by (simp add: todo_New_def todo_ok_def todo_ids.fresh_def counts_past_def)
  ultimately show ?thesis using assms by (simp add: todo_New_def)
qed

theorem todo_list_stays_consistent_witness:
  "todo_ok (foldl todo_step todo_New
     [OpCall (TodoAdd ''a'' []), OpCall (TodoAdd ''b'' [''t1'']), OpCall (TodoAdd ''x'' [''t9'']),
      OpCall (TodoUpdate ''t1'' None (Some True) (Some [''t2'']))])"
  by (rule todo_list_stays_consistent) simp

text \<open>An id is never handed out twice, also not after a restart: the ids that any requests
  get from a list restored from a snapshot are distinct and none of the snapshot's.\<close>

theorem todo_ids_never_reused:
  assumes "\<forall>it \<in> set items. idNum (it_id it) < 2 ^ 63 - 1"
    and "restored_next (map it_id items) + int (length requests) < 2 ^ 63"
  shows "distinct (todo_ids.handed requests (todo_Restore items)) \<and>
     set (todo_ids.handed requests (todo_Restore items)) \<inter> it_id ` set items = {}"
proof -
  have "todo_ids.fresh (todo_Restore items)"
    using restored_next_fresh [of "map it_id items"] assms(1)
    by (auto simp: todo_ids.fresh_def counts_past_def todo_Restore_def)
  moreover have "td_next (todo_Restore items) + int (length requests) < 2 ^ 63"
    using assms(2) by (simp add: todo_Restore_def)
  ultimately show ?thesis using todo_ids.handed_numbers [of "todo_Restore items" requests]
    by (auto simp: todo_Restore_def)
qed

theorem todo_ids_never_reused_witness:
  "let items = [\<lparr>it_id = ''t7'', it_title = ''a'', it_done = True, it_blocked = []\<rparr>];
       ids = todo_ids.handed [(''b'', []), (''c'', [''t8''])] (todo_Restore items)
   in distinct ids \<and> set ids \<inter> it_id ` set items = {} \<and> ids = [''t8'', ''t9'']"
proof -
  let ?items = "[\<lparr>it_id = ''t7'', it_title = ''a'', it_done = True, it_blocked = []\<rparr>]"
  have n: "restored_next [''t7''] = 8" "idNum ''t7'' = 7" by code_simp+
  have "todo_ids.handed [(''b'', []), (''c'', [''t8''])] (todo_Restore ?items) = [''t8'', ''t9'']"
  proof -
    have 1: "todo_Add (''b'', []) (todo_Restore ?items) = (Inr ''t8'',
        \<lparr>td_items = ?items @ [\<lparr>it_id = ''t8'', it_title = ''b'', it_done = False, it_blocked = []\<rparr>], td_next = 9\<rparr>)"
      by code_simp
    have 2: "fst (todo_Add (''c'', [''t8''])
        \<lparr>td_items = ?items @ [\<lparr>it_id = ''t8'', it_title = ''b'', it_done = False, it_blocked = []\<rparr>], td_next = 9\<rparr>) =
        Inr ''t9''"
      by code_simp
    show ?thesis unfolding todo_ids.handed.simps 1
      using 2 by (auto split: prod.splits sum.splits)
  qed
  moreover have "distinct (todo_ids.handed [(''b'', []), (''c'', [''t8''])] (todo_Restore ?items)) \<and>
      set (todo_ids.handed [(''b'', []), (''c'', [''t8''])] (todo_Restore ?items)) \<inter> it_id ` set ?items = {}"
    by (rule todo_ids_never_reused) (use n in simp_all)
  ultimately show ?thesis by (simp only: Let_def)
qed

text \<open>An update that reports an error leaves the list unchanged, with one exception: an
  empty title is noticed only after the new dependencies were stored.\<close>

theorem failed_update_changes_only_dependencies:
  assumes "todo_Update i t d b s = (Some e, s')"
  shows "(e \<noteq> TitleEmpty \<or> b = None \<longrightarrow> s' = s) \<and>
     map (\<lambda>it. (it_id it, it_title it, it_done it)) (td_items s') =
       map (\<lambda>it. (it_id it, it_title it, it_done it)) (td_items s)"
proof -
  obtain its where u: "update_first (update_item s t d b) i (td_items s) = (Some e, its)"
    "s' = s\<lparr>td_items := its\<rparr>"
    using assms by (auto simp: todo_Update_def map_prod_def split: prod.splits)
  have item: "it_id x = it_id it \<and> it_title x = it_title it \<and> it_done x = it_done it \<and>
      (e \<noteq> TitleEmpty \<or> b = None \<longrightarrow> x = it)" if "update_item s t d b it = (Some e, x)" for it x
    using that by (auto simp: update_item_def checkDeps_def split: option.splits if_splits prod.splits)
  from update_first_split [OF u(1)] show ?thesis
    using u(2) item by (elim disjE exE conjE) auto
qed

theorem failed_update_changes_only_dependencies_witness:
  "let s = snd (todo_Add (''b'', []) (snd (todo_Add (''a'', []) todo_New)));
       r = todo_Update ''t2'' (Some '' '') None (Some [''t1'']) s
   in fst r = Some TitleEmpty \<and> snd r \<noteq> s \<and>
      map it_title (td_items (snd r)) = [''a'', ''b''] \<and> map it_blocked (td_items (snd r)) = [[], [''t1'']]"
proof -
  let ?s = "snd (todo_Add (''b'', []) (snd (todo_Add (''a'', []) todo_New)))"
  let ?r = "todo_Update ''t2'' (Some '' '') None (Some [''t1'']) ?s"
  have r: "fst ?r = Some TitleEmpty" "map it_title (td_items ?s) = [''a'', ''b'']"
     "map it_blocked (td_items (snd ?r)) = [[], [''t1'']]" "map it_blocked (td_items ?s) = [[], []]"
    by code_simp+
  have "todo_Update ''t2'' (Some '' '') None (Some [''t1'']) ?s = (Some TitleEmpty, snd ?r)"
    unfolding r(1) [symmetric] by (rule prod.collapse [symmetric])
  from failed_update_changes_only_dependencies [OF this, THEN conjunct2]
  have "map (\<lambda>(i, t, d). t) (map (\<lambda>it. (it_id it, it_title it, it_done it)) (td_items (snd ?r))) =
      map (\<lambda>(i, t, d). t) (map (\<lambda>it. (it_id it, it_title it, it_done it)) (td_items ?s))"
    by (rule arg_cong)
  then have t: "map it_title (td_items (snd ?r)) = [''a'', ''b'']"
    unfolding map_map o_def prod.case r(2) .
  have "snd ?r \<noteq> ?s"
  proof
    assume "snd ?r = ?s"
    from r(3) [unfolded this] have "[[], [''t1'']] = [[], [] :: string list]" unfolding r(4) by (rule sym)
    then show False by simp
  qed
  with r t show ?thesis unfolding Let_def by (intro conjI)
qed

end
