(* ===== verification/CronSpec.thy ===== *)
theory CronSpec
  imports Prelude
begin

text \<open>
  \<open>cron/parser.go\<close>: the compiler of five-field cron expressions, the match of a point in time
  and the search for the next match. A point in time is the number of nanoseconds since the
  Unix epoch; the civil fields follow the proleptic Gregorian calendar of Go's \<open>time\<close>, at the
  zone offset \<open>off\<close> (seconds east of UTC as a function of the Unix second), which stands for
  the zone database.
\<close>

section \<open>Fields\<close>

record cron_field =
  anyMatch :: bool
  cf_values :: "int list"

datatype field_error =
    EmptyElement
  | BadStep string
  | BadValue string
  | OutOfRange int int string

definition newField :: cron_field where
  "newField = \<lparr>anyMatch = False, cf_values = []\<rparr>"

definition cf_matches :: "cron_field \<Rightarrow> int \<Rightarrow> bool" where
  "cf_matches f v \<longleftrightarrow> anyMatch f \<or> v \<in> set (cf_values f)"

text \<open>\<open>strconv.Atoi\<close>: an optional sign and decimal digits, within 64 bits.\<close>

definition dec_int :: "string \<Rightarrow> int" where
  "dec_int s = foldl (\<lambda>n c. n * 10 + int (digit_val c)) 0 s"

lemma dec_int_dec_val: "dec_int s = int (dec_val s)"
proof -
  have "foldl (\<lambda>n c. n * 10 + int (digit_val c)) (int k) s = int (foldl (\<lambda>n c. n * 10 + digit_val c) k s)" for k
  proof (induction s arbitrary: k)
    case (Cons c s)
    from Cons [of "k * 10 + digit_val c"] show ?case by simp
  qed simp
  from this [of 0] show ?thesis by (simp add: dec_int_def dec_val_def)
qed

definition atoi :: "string \<Rightarrow> int option" where
  "atoi s =
     (let neg = has_prefix s ''-'';
          ds = (if neg \<or> has_prefix s ''+'' then drop 1 s else s)
      in if ds = [] \<or> \<not> list_all is_digit ds then None
         else if neg then (if dec_int ds \<le> 2 ^ 63 then Some (- dec_int ds) else None)
         else (if dec_int ds < 2 ^ 63 then Some (dec_int ds) else None))"

text \<open>
  \<open>strings.EqualFold\<close> against a name of ASCII capitals: besides the lower-case letters, the
  long s (U+017F) folds to S and the Kelvin sign (U+212A) to K.
\<close>

definition fold_rune :: "string \<Rightarrow> string" where
  "fold_rune r =
     (case r of
        [c] \<Rightarrow> (let n = of_char c :: nat in if 97 \<le> n \<and> n \<le> 122 then [char_of (n - 32)] else [c])
      | _ \<Rightarrow> if r = [CHR 0xC5, CHR 0xBF] then ''S''
             else if r = [CHR 0xE2, CHR 0x84, CHR 0xAA] then ''K'' else r)"

definition equal_fold :: "string \<Rightarrow> string \<Rightarrow> bool" where
  "equal_fold tok name \<longleftrightarrow> map fold_rune (runes tok) = map (\<lambda>c. [c]) name"

definition monthNames :: "(string \<times> int) list" where
  "monthNames = [(''JAN'', 1), (''FEB'', 2), (''MAR'', 3), (''APR'', 4), (''MAY'', 5), (''JUN'', 6),
     (''JUL'', 7), (''AUG'', 8), (''SEP'', 9), (''OCT'', 10), (''NOV'', 11), (''DEC'', 12)]"

definition dowNames :: "(string \<times> int) list" where
  "dowNames = [(''SUN'', 0), (''MON'', 1), (''TUE'', 2), (''WED'', 3), (''THU'', 4), (''FRI'', 5), (''SAT'', 6)]"

text \<open>The range over the name map: its names are distinct, so the order does not matter.\<close>

definition parseValue :: "string \<Rightarrow> (string \<times> int) list \<Rightarrow> int option" where
  "parseValue tok names =
     (case find (\<lambda>(n, v). equal_fold tok n) names of Some (n, v) \<Rightarrow> Some v | None \<Rightarrow> atoi tok)"

text \<open>
  The loop \<open>for v := lo; v <= hi; v += step\<close> on wrapping integers; \<open>None\<close> is a loop that does
  not end.
\<close>

partial_function (option) step_values :: "int \<Rightarrow> int \<Rightarrow> int \<Rightarrow> int list option" where
  "step_values v hi step =
     (if hi < v then Some []
      else Option.bind (step_values (wrap64 (v + step)) hi step) (\<lambda>vs. Some (v # vs)))"

declare step_values.simps [code]

definition cut_at :: "char \<Rightarrow> string \<Rightarrow> (string \<times> string) option" where
  "cut_at c s = (if c \<in> set s then Some (takeWhile (\<lambda>x. x \<noteq> c) s, drop 1 (dropWhile (\<lambda>x. x \<noteq> c) s)) else None)"

definition parse_bounds ::
  "string \<Rightarrow> int \<Rightarrow> int \<Rightarrow> (string \<times> int) list \<Rightarrow> field_error + int \<times> int" where
  "parse_bounds base mn mx names =
     (if base = ''*'' \<or> base = ''?'' then Inr (mn, mx)
      else case cut_at (CHR ''-'') base of
          None \<Rightarrow> (case parseValue base names of None \<Rightarrow> Inl (BadValue base) | Some v \<Rightarrow> Inr (v, v))
        | Some (lo, hi) \<Rightarrow>
            (case parseValue lo names of None \<Rightarrow> Inl (BadValue lo)
             | Some l \<Rightarrow> (case parseValue hi names of None \<Rightarrow> Inl (BadValue hi) | Some h \<Rightarrow> Inr (l, h))))"

text \<open>One comma-separated part, already trimmed; the result \<open>None\<close> does not return.\<close>

definition parse_part ::
  "int \<Rightarrow> int \<Rightarrow> (string \<times> int) list \<Rightarrow> string \<Rightarrow> cron_field \<Rightarrow> (field_error + cron_field) option" where
  "parse_part mn mx names part f =
     (if part = [] then Some (Inl EmptyElement)
      else if part = ''*'' \<or> part = ''?'' then Some (Inr (f\<lparr>anyMatch := True\<rparr>))
      else case (case cut_at (CHR ''/'') part of
            None \<Rightarrow> Inr (part, 1)
          | Some (base, st) \<Rightarrow> (case atoi st of
                None \<Rightarrow> Inl (BadStep part)
              | Some n \<Rightarrow> if n \<le> 0 then Inl (BadStep part) else Inr (base, n))) of
          Inl e \<Rightarrow> Some (Inl e)
        | Inr (base, step) \<Rightarrow>
            (case parse_bounds base mn mx names of
               Inl e \<Rightarrow> Some (Inl e)
             | Inr (lo, hi) \<Rightarrow>
                 if lo < mn \<or> mx < hi \<or> hi < lo then Some (Inl (OutOfRange mn mx part))
                 else map_option (\<lambda>vs. Inr (f\<lparr>cf_values := cf_values f @ vs\<rparr>)) (step_values lo hi step)))"

fun parse_parts ::
  "int \<Rightarrow> int \<Rightarrow> (string \<times> int) list \<Rightarrow> string list \<Rightarrow> cron_field \<Rightarrow> (field_error + cron_field) option" where
  "parse_parts mn mx names [] f = Some (Inr f)"
| "parse_parts mn mx names (p # ps) f =
     (case parse_part mn mx names (trim_space p) f of
        Some (Inr f') \<Rightarrow> parse_parts mn mx names ps f'
      | r \<Rightarrow> r)"

definition parseField ::
  "string \<Rightarrow> int \<Rightarrow> int \<Rightarrow> (string \<times> int) list \<Rightarrow> (field_error + cron_field) option" where
  "parseField raw mn mx names = parse_parts mn mx names (split_on (CHR '','') raw) newField"

section \<open>Expressions\<close>

record spec =
  sp_raw :: string
  sp_minute :: cron_field
  sp_hour :: cron_field
  sp_dom :: cron_field
  sp_month :: cron_field
  sp_dow :: cron_field

datatype field_name = Minute | Hour | DayOfMonth | Month | DayOfWeek
datatype parse_error = FieldCount nat | InField field_name field_error

definition in_field ::
  "field_name \<Rightarrow> (field_error + cron_field) option \<Rightarrow> (cron_field \<Rightarrow> (parse_error + 'a) option) \<Rightarrow>
     (parse_error + 'a) option" where
  "in_field n r k = (case r of None \<Rightarrow> None | Some (Inl e) \<Rightarrow> Some (Inl (InField n e)) | Some (Inr f) \<Rightarrow> k f)"

definition Parse :: "string \<Rightarrow> (parse_error + spec) option" where
  "Parse expr =
     (case str_fields expr of
        [a, b, c, d, e] \<Rightarrow>
          in_field Minute (parseField a 0 59 []) (\<lambda>mi.
          in_field Hour (parseField b 0 23 []) (\<lambda>ho.
          in_field DayOfMonth (parseField c 1 31 []) (\<lambda>dm.
          in_field Month (parseField d 1 12 monthNames) (\<lambda>mo.
          in_field DayOfWeek (parseField e 0 7 dowNames) (\<lambda>dw.
            Some (Inr \<lparr>sp_raw = expr, sp_minute = mi, sp_hour = ho, sp_dom = dm, sp_month = mo, sp_dow = dw\<rparr>))))))
      | ps \<Rightarrow> Some (Inl (FieldCount (length ps))))"

section \<open>Civil time\<close>

abbreviation minute_ns :: int where "minute_ns \<equiv> 60000000000"

definition trunc_minute :: "int \<Rightarrow> int" where
  "trunc_minute t = t - t mod minute_ns"

definition local_seconds :: "(int \<Rightarrow> int) \<Rightarrow> int \<Rightarrow> int" where
  "local_seconds off t = t div 1000000000 + off (t div 1000000000)"

definition t_minute :: "(int \<Rightarrow> int) \<Rightarrow> int \<Rightarrow> int" where
  "t_minute off t = local_seconds off t div 60 mod 60"

definition t_hour :: "(int \<Rightarrow> int) \<Rightarrow> int \<Rightarrow> int" where
  "t_hour off t = local_seconds off t div 3600 mod 24"

definition t_weekday :: "(int \<Rightarrow> int) \<Rightarrow> int \<Rightarrow> int" where
  "t_weekday off t = (local_seconds off t div 86400 + 4) mod 7"

text \<open>Month and day of the day number \<open>z\<close> since 1970-01-01, over 400-year eras from March 0000.\<close>

definition month_day :: "int \<Rightarrow> int \<times> int" where
  "month_day z =
     (let doe = (z + 719468) mod 146097;
          yoe = (doe - doe div 1460 + doe div 36524 - doe div 146096) div 365;
          doy = doe - (365 * yoe + yoe div 4 - yoe div 100);
          mp = (5 * doy + 2) div 153
      in (if mp < 10 then mp + 3 else mp - 9, doy - (153 * mp + 2) div 5 + 1))"

definition t_month :: "(int \<Rightarrow> int) \<Rightarrow> int \<Rightarrow> int" where
  "t_month off t = fst (month_day (local_seconds off t div 86400))"

definition t_day :: "(int \<Rightarrow> int) \<Rightarrow> int \<Rightarrow> int" where
  "t_day off t = snd (month_day (local_seconds off t div 86400))"

section \<open>Matching\<close>

definition Match :: "(int \<Rightarrow> int) \<Rightarrow> spec \<Rightarrow> int \<Rightarrow> bool" where
  "Match off s t0 =
     (let t = trunc_minute t0 in
      if \<not> cf_matches (sp_minute s) (t_minute off t) \<or> \<not> cf_matches (sp_hour s) (t_hour off t) \<or>
         \<not> cf_matches (sp_month s) (t_month off t) then False
      else
        let domRestricted = \<not> anyMatch (sp_dom s);
            dowRestricted = \<not> anyMatch (sp_dow s);
            domOK = cf_matches (sp_dom s) (t_day off t);
            dow = t_weekday off t;
            dowOK = cf_matches (sp_dow s) dow \<or> cf_matches (sp_dow s) (dow + 7) \<or> cf_matches (sp_dow s) (dow - 7)
        in if domRestricted \<and> dowRestricted then domOK \<or> dowOK
           else if domRestricted then domOK
           else if dowRestricted then dowOK
           else True)"

definition maxIter :: int where "maxIter = 366 * 24 * 60 * 8"

function scan_minutes :: "(int \<Rightarrow> bool) \<Rightarrow> int \<Rightarrow> int \<Rightarrow> int option" where
  "scan_minutes P i cand =
     (if maxIter \<le> i then None
      else if P cand then Some cand
      else scan_minutes P (i + 1) (cand + minute_ns))"
  by pat_completeness auto
termination by (relation "measure (\<lambda>(P, i, cand). nat (maxIter - i))") auto

declare scan_minutes.simps [simp del]

definition NextAfter :: "(int \<Rightarrow> int) \<Rightarrow> spec \<Rightarrow> int \<Rightarrow> int option" where
  "NextAfter off s t = scan_minutes (Match off s) 0 (trunc_minute t + minute_ns)"

section \<open>The loop over a range ends\<close>

lemma step_values_done: "hi < v \<Longrightarrow> step_values v hi step = Some []"
  by (subst step_values.simps) simp

lemma step_values_next:
  "v \<le> hi \<Longrightarrow> step_values v hi step = map_option ((#) v) (step_values (wrap64 (v + step)) hi step)"
  by (subst step_values.simps) (auto simp: map_option_case split: option.splits Option.bind_splits)

lemma progression_next:
  fixes v w step :: int
  assumes "0 < step" 
  shows "v \<le> w \<and> (w - v) mod step = 0 \<longleftrightarrow> w = v \<or> v + step \<le> w \<and> (w - (v + step)) mod step = 0"
proof -
  have m: "(w - (v + step)) mod step = (w - v) mod step"
    by (metis diff_diff_eq minus_mod_self2)
  have "v + step \<le> w" if "v \<le> w" "w \<noteq> v" "(w - v) mod step = 0"
  proof -
    have "step dvd w - v" using that(3) by (simp add: dvd_eq_mod_eq_0)
    then have "step \<le> w - v" using that by (intro zdvd_imp_le) simp_all
    then show ?thesis by simp
  qed
  with m assms show ?thesis by (cases "w = v") auto
qed

lemma step_values_small:
  assumes "0 < step" "0 \<le> v" "hi + step < 2 ^ 63"
  shows "\<exists>vs. step_values v hi step = Some vs \<and> (\<forall>w. w \<in> set vs \<longleftrightarrow> v \<le> w \<and> w \<le> hi \<and> (w - v) mod step = 0)"
  using assms(2)
proof (induction "nat (hi + 1 - v)" arbitrary: v rule: less_induct)
  case less
  show ?case
  proof (cases "hi < v")
    case True
    then have "step_values v hi step = Some []" by (rule step_values_done)
    with True show ?thesis by (intro exI [of _ "[]"]) auto
  next
    case False
    have w: "wrap64 (v + step) = v + step" by (rule wrap64_id) (use False assms less(2) in linarith)+
    have "nat (hi + 1 - (v + step)) < nat (hi + 1 - v)" "0 \<le> v + step" using False assms(1) less(2) by linarith+
    from less(1) [OF this] obtain vs where vs: "step_values (v + step) hi step = Some vs"
      "\<And>w. w \<in> set vs \<longleftrightarrow> v + step \<le> w \<and> w \<le> hi \<and> (w - (v + step)) mod step = 0" by blast
    have "w \<in> set (v # vs) \<longleftrightarrow> v \<le> w \<and> w \<le> hi \<and> (w - v) mod step = 0" for w
      using progression_next [OF assms(1), of v w] False assms(1) vs(2) [of w] by auto
    moreover have "step_values v hi step = Some (v # vs)" using False w vs(1) by (simp add: step_values_next)
    ultimately show ?thesis by blast
  qed
qed

lemma step_values_large:
  assumes "step = 2 ^ 63 - k" "1 \<le> k" "k \<le> 100" "hi < 100" "0 \<le> v"
  shows "\<exists>vs. step_values v hi step = Some vs"
  using assms(5)
proof (induction "nat v" arbitrary: v rule: less_induct)
  case less
  have stop: "\<exists>vs. step_values x hi step = Some vs" if "x < k" "- 200 \<le> x" for x
  proof (cases "hi < x")
    case False
    have "hi < x + step" "wrap64 (x + step) = x + step" using that assms by (auto intro: wrap64_id)
    with False show ?thesis by (simp add: step_values_next step_values_done)
  qed (simp add: step_values_done)
  show ?case
  proof (cases "hi < v \<or> v < k")
    case True
    with stop [of v] less(2) show ?thesis by (auto simp: step_values_done)
  next
    case False
    have "wrap64 (v + step) = v + step - 2 ^ 64"
    proof -
      have "(v + step + 2 ^ 63) mod 2 ^ 64 = (v - k) mod 2 ^ 64" using assms(1) by simp
      also have "\<dots> = v - k" using False assms by (intro mod_pos_pos_trivial) auto
      finally show ?thesis using assms(1) by (simp add: wrap64_def)
    qed
    moreover have "wrap64 (v + step - 2 ^ 64 + step) = v - 2 * k"
      using False assms by (subst wrap64_id) auto
    moreover have "v + step - 2 ^ 64 \<le> hi" using False assms by simp
    ultimately have "step_values v hi step =
        map_option ((#) v) (map_option ((#) (v + step - 2 ^ 64)) (step_values (v - 2 * k) hi step))"
      using False by (simp add: step_values_next)
    moreover have "\<exists>vs. step_values (v - 2 * k) hi step = Some vs"
    proof (cases "0 \<le> v - 2 * k")
      case True
      then show ?thesis using less(1) [of "v - 2 * k"] False assms by auto
    next
      case False2: False
      then show ?thesis using stop [of "v - 2 * k"] False assms by auto
    qed
    ultimately show ?thesis by auto
  qed
qed

lemma step_values_returns:
  assumes "0 < step" "step < 2 ^ 63" "0 \<le> v" "hi < 100"
  shows "\<exists>vs. step_values v hi step = Some vs"
proof (cases "hi + step < 2 ^ 63")
  case True
  with step_values_small [of step v hi] assms show ?thesis by auto
next
  case False
  then show ?thesis using step_values_large [of step "2 ^ 63 - step" hi v] assms by auto
qed

lemma dec_val_nonneg_atoi: "atoi s = Some n \<Longrightarrow> n < 2 ^ 63"
  using of_nat_0_le_iff [of "dec_val (drop 1 s)"]
  by (auto simp: atoi_def Let_def dec_int_dec_val split: if_splits)

lemma parse_part_returns:
  assumes "0 \<le> mn" "mx < 100"
  shows "\<exists>r. parse_part mn mx names part f = Some r"
proof -
  have "\<exists>r. step_values lo hi step = Some r"
    if "\<not> (lo < mn \<or> mx < hi \<or> hi < lo)" "0 < step" "step < 2 ^ 63" for lo hi step
    using step_values_returns [of step lo hi] that assms by auto
  then show ?thesis using dec_val_nonneg_atoi
    by (simp add: parse_part_def split: option.split sum.split)
qed

lemma parseField_returns: "0 \<le> mn \<Longrightarrow> mx < 100 \<Longrightarrow> \<exists>r. parseField raw mn mx names = Some r"
proof -
  assume a: "0 \<le> mn" "mx < 100"
  have "\<exists>r. parse_parts mn mx names ps f = Some r" for ps f
  proof (induction ps arbitrary: f)
    case (Cons p ps)
    obtain r where "parse_part mn mx names (trim_space p) f = Some r" using parse_part_returns [OF a] by blast
    with Cons show ?case by (cases r) auto
  qed simp
  then show ?thesis by (simp add: parseField_def)
qed

lemma in_field_returns:
  "\<exists>r. x = Some r \<Longrightarrow> (\<And>f. \<exists>r. k f = Some r) \<Longrightarrow> \<exists>r. in_field n x k = Some r"
  by (auto simp: in_field_def split: sum.splits)

lemma Parse_total: "\<exists>r. Parse expr = Some r"
  unfolding Parse_def
  by (auto split: list.splits intro!: in_field_returns parseField_returns)

text \<open>Compiling an expression always returns, also when a huge step makes the loop counter
  of a range wrap around.\<close>

theorem Parse_returns: "\<exists>r. Parse expr = Some r"
  by (rule Parse_total)

section \<open>The meaning of a field\<close>

datatype cron_part = PAny | PEvery nat | PVal nat | PRange nat nat | PStep nat nat nat

fun show_part :: "cron_part \<Rightarrow> string" where
  "show_part PAny = ''*''"
| "show_part (PEvery n) = ''*/'' @ show_nat n"
| "show_part (PVal a) = show_nat a"
| "show_part (PRange a b) = show_nat a @ ''-'' @ show_nat b"
| "show_part (PStep a b n) = show_nat a @ ''-'' @ show_nat b @ ''/'' @ show_nat n"

fun part_covers :: "int \<Rightarrow> cron_part \<Rightarrow> int \<Rightarrow> bool" where
  "part_covers mn PAny v = True"
| "part_covers mn (PEvery n) v = ((v - mn) mod int n = 0)"
| "part_covers mn (PVal a) v = (v = int a)"
| "part_covers mn (PRange a b) v = (int a \<le> v \<and> v \<le> int b)"
| "part_covers mn (PStep a b n) v = (int a \<le> v \<and> v \<le> int b \<and> (v - int a) mod int n = 0)"

fun part_ok :: "int \<Rightarrow> int \<Rightarrow> cron_part \<Rightarrow> bool" where
  "part_ok mn mx PAny = True"
| "part_ok mn mx (PEvery n) = (0 < n \<and> n < 2 ^ 62)"
| "part_ok mn mx (PVal a) = (mn \<le> int a \<and> int a \<le> mx)"
| "part_ok mn mx (PRange a b) = (mn \<le> int a \<and> a \<le> b \<and> int b \<le> mx)"
| "part_ok mn mx (PStep a b n) = (mn \<le> int a \<and> a \<le> b \<and> int b \<le> mx \<and> 0 < n \<and> n < 2 ^ 62)"

lemma digit_facts: "is_digit c \<Longrightarrow> printable c \<and> byte_in 0 0x7F c \<and> c \<noteq> CHR ''-'' \<and> c \<noteq> CHR ''/'' \<and>
    c \<noteq> CHR '','' \<and> c \<noteq> CHR ''*'' \<and> c \<noteq> CHR ''?'' \<and> c \<noteq> CHR ''+'' \<and> fold_rune [c] = [c]"
  by (auto simp: is_digit_def printable_def byte_in_def fold_rune_def Let_def)

lemma separators_no_digit [simp]: "\<not> is_digit (CHR '','')" "\<not> is_digit (CHR ''-'')" "\<not> is_digit (CHR ''/'')"
  "\<not> is_digit (CHR ''*'')" "\<not> is_digit (CHR ''?'')"
  by (simp_all add: is_digit_def)

lemma show_nat_chars: "c \<in> set (show_nat n) \<Longrightarrow> is_digit c"
  using show_nat_digits by blast

lemma atoi_show: "n < 2 ^ 63 \<Longrightarrow> atoi (show_nat n) = Some (int n)"
proof -
  assume n: "n < 2 ^ 63"
  obtain c s where s: "show_nat n = c # s" using show_nat_ne by (cases "show_nat n") auto
  then have "is_digit c" using show_nat_chars [of c n] by simp
  then have "\<not> has_prefix (show_nat n) ''-''" "\<not> has_prefix (show_nat n) ''+''"
    using digit_facts [of c] by (auto simp: s has_prefix_def)
  moreover have "list_all is_digit (show_nat n)" using show_nat_digits by (simp add: list_all_iff)
  ultimately show ?thesis using n by (simp add: atoi_def dec_int_dec_val)
qed

lemma cut_at_absent: "c \<notin> set s \<Longrightarrow> cut_at c s = None"
  by (simp add: cut_at_def)

lemma cut_at_app: "c \<notin> set a \<Longrightarrow> cut_at c (a @ c # b) = Some (a, b)"
proof -
  assume c: "c \<notin> set a"
  then have "takeWhile (\<lambda>x. x \<noteq> c) (a @ c # b) = a" "dropWhile (\<lambda>x. x \<noteq> c) (a @ c # b) = c # b"
    by (induction a) auto
  then show ?thesis by (simp add: cut_at_def)
qed

text \<open>No number is taken for the name of a month or a weekday.\<close>

definition no_digit_names :: "(string \<times> int) list \<Rightarrow> bool" where
  "no_digit_names names \<longleftrightarrow> (\<forall>(n, v) \<in> set names. n \<noteq> [] \<and> \<not> is_digit (hd n))"

lemma parseValue_show: "no_digit_names names \<Longrightarrow> n < 2 ^ 63 \<Longrightarrow> parseValue (show_nat n) names = Some (int n)"
proof -
  assume n: "no_digit_names names" "n < 2 ^ 63"
  have "runes (show_nat n) = map (\<lambda>c. [c]) (show_nat n)"
    using runes_ascii show_nat_chars digit_facts by blast
  then have "map fold_rune (runes (show_nat n)) = map (\<lambda>c. [c]) (show_nat n)"
    using show_nat_chars digit_facts by simp
  moreover have "show_nat n \<noteq> x" if "(x, v) \<in> set names" for x v
    using n(1) that show_nat_chars [of "hd x" n] by (auto simp: no_digit_names_def)
  moreover have "map (\<lambda>c. [c]) s = map (\<lambda>c. [c]) t \<longleftrightarrow> s = t" for s t :: string
    by (rule inj_map_eq_map) (simp add: inj_on_def)
  ultimately have "find (\<lambda>(x, v). equal_fold (show_nat n) x) names = None"
    by (auto simp: find_None_iff equal_fold_def)
  then show ?thesis using n(2) by (simp add: parseValue_def atoi_show)
qed

lemma show_part_printable:
  "show_part p \<noteq> [] \<and> (\<forall>c \<in> set (show_part p). printable c \<and> c \<noteq> CHR '','')"
proof -
  have "printable (CHR ''*'')" "printable (CHR ''/'')" "printable (CHR ''-'')" by (auto simp: printable_def)
  then show ?thesis by (cases p) (auto dest!: show_nat_chars simp: digit_facts)
qed

lemma show_nat_no: "CHR ''-'' \<notin> set (show_nat n)" "CHR ''/'' \<notin> set (show_nat n)"
  "show_nat n \<noteq> ''*''" "show_nat n \<noteq> ''?''"
  using show_nat_chars [of _ n] by force+

lemma parse_range:
  assumes "no_digit_names names" "a < 2 ^ 63" "b < 2 ^ 63"
  shows "parse_bounds (show_nat a) mn mx names = Inr (int a, int a)"
    "parse_bounds (show_nat a @ ''-'' @ show_nat b) mn mx names = Inr (int a, int b)"
proof -
  show "parse_bounds (show_nat a) mn mx names = Inr (int a, int a)"
    using assms by (simp add: parse_bounds_def show_nat_no cut_at_absent parseValue_show)
  have "show_nat a @ ''-'' @ show_nat b \<noteq> ''*''" "show_nat a @ ''-'' @ show_nat b \<noteq> ''?''"
    by (auto simp: append_eq_Cons_conv)
  then show "parse_bounds (show_nat a @ ''-'' @ show_nat b) mn mx names = Inr (int a, int b)"
    using assms cut_at_app [OF show_nat_no(1), of a "show_nat b"]
    by (simp add: parse_bounds_def parseValue_show)
qed


lemma parse_part_show:
  assumes ok: "part_ok mn mx p" and names: "no_digit_names names" and mn: "0 \<le> mn" and mx: "mn \<le> mx" "mx < 100"
  shows "\<exists>f'. parse_part mn mx names (show_part p) f = Some (Inr f') \<and>
     (\<forall>v. mn \<le> v \<and> v \<le> mx \<longrightarrow> (cf_matches f' v \<longleftrightarrow> cf_matches f v \<or> part_covers mn p v))"
proof -
  have range: "\<exists>f'. parse_part mn mx names s f = Some (Inr f') \<and>
     (\<forall>v. mn \<le> v \<and> v \<le> mx \<longrightarrow>
       (cf_matches f' v \<longleftrightarrow> cf_matches f v \<or> lo \<le> v \<and> v \<le> hi \<and> (v - lo) mod step = 0))"
    if "s \<noteq> []" "s \<noteq> ''*''" "s \<noteq> ''?''" "mn \<le> lo" "lo \<le> hi" "hi \<le> mx" "0 < step" "step < 2 ^ 62"
      and cut: "cut_at (CHR ''/'') s = None \<and> base = s \<and> step = 1 \<or>
        (\<exists>t. cut_at (CHR ''/'') s = Some (base, t) \<and> atoi t = Some step)"
      and b: "parse_bounds base mn mx names = Inr (lo, hi)" for s base lo hi step
  proof -
    have "0 \<le> lo" "hi + step < 2 ^ 63" using that mn mx by auto
    from step_values_small [OF that(7) this] obtain vs where vs: "step_values lo hi step = Some vs"
      "\<forall>w. w \<in> set vs \<longleftrightarrow> lo \<le> w \<and> w \<le> hi \<and> (w - lo) mod step = 0" by blast
    have "parse_part mn mx names s f = Some (Inr (f\<lparr>cf_values := cf_values f @ vs\<rparr>))"
      using that(1-7) cut b vs(1) by (auto simp: parse_part_def)
    with vs(2) show ?thesis by (auto simp: cf_matches_def)
  qed
  have small: "n < 2 ^ 63" if "int n \<le> mx" for n using that mx by simp
  show ?thesis
  proof (cases p)
    case PAny
    then show ?thesis by (simp add: parse_part_def cf_matches_def)
  next
    case (PEvery n)
    have "cut_at (CHR ''/'') (''*/'' @ show_nat n) = Some (''*'', show_nat n)"
      using cut_at_app [of "CHR ''/''" "''*''" "show_nat n"] by simp
    then show ?thesis
      using range [of "show_part p" mn mx "int n" "''*''"] ok PEvery mx atoi_show [of n]
      by (auto simp: parse_bounds_def)
  next
    case (PVal a)
    have "a < 2 ^ 63" by (rule small) (use ok PVal in simp)
    then show ?thesis
      using range [of "show_part p" "int a" "int a" 1 "show_part p"] ok PVal parse_range(1) [OF names, of a a mn mx]
      by (auto simp: cut_at_absent show_nat_no)
  next
    case (PRange a b)
    have ab: "a < 2 ^ 63" "b < 2 ^ 63" by (rule small, use ok PRange in simp)+
    have "CHR ''/'' \<notin> set (show_part p)" using PRange by (simp add: show_nat_no)
    then have "cut_at (CHR ''/'') (show_part p) = None" by (rule cut_at_absent)
    then show ?thesis
      using range [of "show_part p" "int a" "int b" 1 "show_part p"] ok PRange parse_range(2) [OF names ab, of mn mx]
      by (auto simp: append_eq_Cons_conv)
  next
    case (PStep a b n)
    have ab: "a < 2 ^ 63" "b < 2 ^ 63" by (rule small, use ok PStep in simp)+
    have "CHR ''/'' \<notin> set (show_nat a @ ''-'' @ show_nat b)" by (simp add: show_nat_no)
    from cut_at_app [OF this, of "show_nat n"]
    have "cut_at (CHR ''/'') (show_part p) = Some (show_nat a @ ''-'' @ show_nat b, show_nat n)" using PStep by simp
    then show ?thesis
      using range [of "show_part p" "int a" "int b" "int n" "show_nat a @ ''-'' @ show_nat b"] ok PStep
        parse_range(2) [OF names ab, of mn mx] atoi_show [of n]
      by (auto simp: append_eq_Cons_conv)
  qed
qed

lemma parse_parts_show:
  assumes "\<forall>p \<in> set ps. part_ok mn mx p" and "no_digit_names names" "0 \<le> mn" "mn \<le> mx" "mx < 100"
  shows "\<exists>f'. parse_parts mn mx names (map show_part ps) f = Some (Inr f') \<and>
     (\<forall>v. mn \<le> v \<and> v \<le> mx \<longrightarrow> (cf_matches f' v \<longleftrightarrow> cf_matches f v \<or> (\<exists>p \<in> set ps. part_covers mn p v)))"
  using assms(1)
proof (induction ps arbitrary: f)
  case (Cons p ps)
  obtain f1 where f1: "parse_part mn mx names (show_part p) f = Some (Inr f1)"
    "\<And>v. mn \<le> v \<and> v \<le> mx \<Longrightarrow> cf_matches f1 v \<longleftrightarrow> cf_matches f v \<or> part_covers mn p v"
    using parse_part_show [of mn mx p names f] Cons.prems assms(2-5) by auto
  have "trim_space (show_part p) = show_part p"
    using show_part_printable [of p] by (intro trim_space_printable) auto
  moreover obtain f2 where "parse_parts mn mx names (map show_part ps) f1 = Some (Inr f2)"
    "\<And>v. mn \<le> v \<and> v \<le> mx \<Longrightarrow> cf_matches f2 v \<longleftrightarrow> cf_matches f1 v \<or> (\<exists>p \<in> set ps. part_covers mn p v)"
    using Cons.IH [of f1] Cons.prems by auto
  ultimately show ?case using f1 by auto
qed auto

text \<open>A field written as a comma-separated list of values, ranges and steps compiles to
  exactly the values it denotes, for the bounds and names of every field.\<close>

theorem parseField_meaning:
  assumes "ps \<noteq> []" and "\<forall>p \<in> set ps. part_ok mn mx p" and "0 \<le> mn" "mn \<le> mx" "mx < 100"
    and "names \<in> {[], monthNames, dowNames}"
  shows "\<exists>f. parseField (join '','' (map show_part ps)) mn mx names = Some (Inr f) \<and>
     (\<forall>v. mn \<le> v \<and> v \<le> mx \<longrightarrow> (cf_matches f v \<longleftrightarrow> (\<exists>p \<in> set ps. part_covers mn p v)))"
proof -
  have "no_digit_names names" using assms(6)
    by (auto simp: no_digit_names_def monthNames_def dowNames_def is_digit_def)
  moreover have "split_on (CHR '','') (join '','' (map show_part ps)) = map show_part ps"
    using assms(1) show_part_printable by (intro split_on_join) auto
  moreover have "cf_matches newField v = False" for v by (simp add: cf_matches_def newField_def)
  ultimately show ?thesis using parse_parts_show [OF assms(2) _ assms(3-5), of names newField]
    by (simp add: parseField_def)
qed

theorem parseField_meaning_witness:
  "\<exists>f. parseField ''5,10-12,20-30/5'' 0 59 [] = Some (Inr f) \<and> cf_matches f 25 \<and> \<not> cf_matches f 26"
proof -
  let ?ps = "[PVal 5, PRange 10 12, PStep 20 30 5]"
  obtain f where f: "parseField (join '','' (map show_part ?ps)) 0 59 [] = Some (Inr f)"
    "\<forall>v. 0 \<le> v \<and> v \<le> 59 \<longrightarrow> (cf_matches f v \<longleftrightarrow> (\<exists>p \<in> set ?ps. part_covers 0 p v))"
    using parseField_meaning [of ?ps 0 59 "[]"] by auto
  have "join '','' (map show_part ?ps) = ''5,10-12,20-30/5''" by code_simp
  with f show ?thesis by auto
qed

text \<open>A step near the largest integer makes the range loop wrap around and store values
  outside the range: \<open>1/9223372036854775807\<close> as day of the week names Monday, and the compiled
  expression also fires on Saturday, because the stored -1 is taken for 6 - 7.\<close>

theorem huge_step_fires_on_wrong_day:
  "map_option (map_sum id (\<lambda>s. (sp_dow s, Match (\<lambda>_. 0) s 1704531600000000000)))
     (Parse ''0 9 * * 1/9223372036854775807'') =
   Some (Inr (\<lparr>anyMatch = False, cf_values = [1, - (2 ^ 63), - 1]\<rparr>, True)) \<and>
   t_weekday (\<lambda>_. 0) 1704531600000000000 = 6"
  by code_simp

lemma scan_minutes_spec:
  assumes "0 \<le> i"
  shows "case scan_minutes P i cand of
     Some u \<Rightarrow> \<exists>n. u = cand + n * minute_ns \<and> 0 \<le> n \<and> i + n < maxIter \<and> P u \<and>
       (\<forall>k. 0 \<le> k \<and> k < n \<longrightarrow> \<not> P (cand + k * minute_ns))
   | None \<Rightarrow> \<forall>k. 0 \<le> k \<and> i + k < maxIter \<longrightarrow> \<not> P (cand + k * minute_ns)"
  using assms
proof (induction P i cand rule: scan_minutes.induct)
  case (1 P i cand)
  consider "maxIter \<le> i" | "i < maxIter" "P cand" | "i < maxIter" "\<not> P cand" by linarith
  then show ?case
  proof cases
    case 1
    then have "scan_minutes P i cand = None" by (subst scan_minutes.simps) simp
    with 1 show ?thesis by auto
  next
    case 2
    then have "scan_minutes P i cand = Some cand" by (subst scan_minutes.simps) simp
    moreover have "\<exists>n. cand = cand + n * minute_ns \<and> 0 \<le> n \<and> i + n < maxIter \<and> P cand \<and>
       (\<forall>k. 0 \<le> k \<and> k < n \<longrightarrow> \<not> P (cand + k * minute_ns))"
      by (intro exI [of _ 0]) (use 2 in auto)
    ultimately show ?thesis by simp
  next
    case 3
    let ?c = "cand + minute_ns"
    have none: "\<not> P (cand + k * minute_ns)"
      if "0 \<le> k" "k < m + 1" "\<forall>j. 0 \<le> j \<and> j < m \<longrightarrow> \<not> P (?c + j * minute_ns)" for k m
    proof (cases "k = 0")
      case True
      with 3 show ?thesis by simp
    next
      case False
      with that(1,2) have "0 \<le> k - 1" "k - 1 < m" by simp_all
      with that(3) have "\<not> P (?c + (k - 1) * minute_ns)" by blast
      moreover have "?c + (k - 1) * minute_ns = cand + k * minute_ns" by (simp add: left_diff_distrib)
      ultimately show ?thesis by simp
    qed
    have IH: "case scan_minutes P (i + 1) ?c of
       Some u \<Rightarrow> \<exists>n. u = ?c + n * minute_ns \<and> 0 \<le> n \<and> i + 1 + n < maxIter \<and> P u \<and>
         (\<forall>k. 0 \<le> k \<and> k < n \<longrightarrow> \<not> P (?c + k * minute_ns))
     | None \<Rightarrow> \<forall>k. 0 \<le> k \<and> i + 1 + k < maxIter \<longrightarrow> \<not> P (?c + k * minute_ns)"
      by (rule "1.IH") (use "1.prems" 3 in simp_all)
    have eq: "scan_minutes P i cand = scan_minutes P (i + 1) ?c"
      using 3 by (subst scan_minutes.simps) simp
    show ?thesis
    proof (cases "scan_minutes P (i + 1) ?c")
      case None
      with IH have free: "\<forall>j. 0 \<le> j \<and> j < maxIter - i - 1 \<longrightarrow> \<not> P (?c + j * minute_ns)" by simp
      have "\<not> P (cand + k * minute_ns)" if "0 \<le> k" "i + k < maxIter" for k
        by (rule none [OF that(1) _ free]) (use that in simp)
      with None show ?thesis unfolding eq by simp
    next
      case (Some u)
      with IH obtain n where n: "u = ?c + n * minute_ns" "0 \<le> n" "i + 1 + n < maxIter" "P u"
        "\<forall>k. 0 \<le> k \<and> k < n \<longrightarrow> \<not> P (?c + k * minute_ns)" by (simp only: option.case) blast
      have "\<forall>k. 0 \<le> k \<and> k < n + 1 \<longrightarrow> \<not> P (cand + k * minute_ns)"
        using none [OF _ _ n(5)] by blast
      moreover have "u = cand + (n + 1) * minute_ns" unfolding n(1) by (simp add: distrib_right)
      ultimately have "\<exists>n. u = cand + n * minute_ns \<and> 0 \<le> n \<and> i + n < maxIter \<and> P u \<and>
         (\<forall>k. 0 \<le> k \<and> k < n \<longrightarrow> \<not> P (cand + k * minute_ns))"
        using n(2-4) by (intro exI [of _ "n + 1"]) simp
      then show ?thesis unfolding eq Some option.case .
    qed
  qed
qed

text \<open>The whole minutes after \<open>t\<close>.\<close>

lemma minute_after:
  assumes "t < w" "w mod minute_ns = 0"
  shows "\<exists>k. 0 \<le> k \<and> w = trunc_minute t + minute_ns + k * minute_ns"
proof -
  have "trunc_minute t = (t div minute_ns) * minute_ns"
    unfolding trunc_minute_def by (simp add: minus_mod_eq_div_mult)
  moreover have "w = (w div minute_ns) * minute_ns" using assms(2) by (metis add.right_neutral div_mult_mod_eq)
  moreover have "t div minute_ns < w div minute_ns" using assms by (auto simp: div_less_iff_less_mult mult.commute)
  ultimately show ?thesis
    by (intro exI [of _ "w div minute_ns - t div minute_ns - 1"]) (simp add: algebra_simps)
qed

text \<open>C36. \<open>NextAfter\<close> returns the first whole minute after \<open>t\<close> at which the expression matches;
  when it returns none, no minute of the next eight years matches.\<close>

theorem NextAfter_first_match:
  shows "case NextAfter off s t of
     Some u \<Rightarrow> t < u \<and> u mod minute_ns = 0 \<and> Match off s u \<and>
       (\<forall>w. t < w \<and> w < u \<and> w mod minute_ns = 0 \<longrightarrow> \<not> Match off s w)
   | None \<Rightarrow> \<forall>w. t < w \<and> w < t + maxIter * minute_ns \<and> w mod minute_ns = 0 \<longrightarrow> \<not> Match off s w"
proof -
  let ?c = "trunc_minute t + minute_ns"
  have t: "trunc_minute t \<le> t" "t < ?c" "trunc_minute t mod minute_ns = 0"
    unfolding trunc_minute_def by (simp_all add: minus_mod_eq_div_mult)
  note sc = scan_minutes_spec [of 0 "Match off s" ?c]
  show ?thesis
  proof (cases "scan_minutes (Match off s) 0 ?c")
    case None
    with sc have free: "\<And>k. 0 \<le> k \<Longrightarrow> k < maxIter \<Longrightarrow> \<not> Match off s (?c + k * minute_ns)" by simp
    have "\<not> Match off s w" if w: "t < w" "w < t + maxIter * minute_ns" "w mod minute_ns = 0" for w
    proof -
      obtain k where k: "0 \<le> k" "w = ?c + k * minute_ns" using minute_after [OF w(1,3)] by blast
      moreover have "k < maxIter" using k w(2) t(1,2) by (simp add: maxIter_def)
      ultimately show ?thesis using free by simp
    qed
    with None show ?thesis by (simp add: NextAfter_def)
  next
    case (Some u)
    with sc obtain n where n: "u = ?c + n * minute_ns" "0 \<le> n" "Match off s u"
      "\<forall>k. 0 \<le> k \<and> k < n \<longrightarrow> \<not> Match off s (?c + k * minute_ns)" by (simp only: option.case) auto
    have "t < u" using n(1,2) t(2) by simp
    moreover have "u mod minute_ns = 0" unfolding n(1) using t(3) by (simp add: mod_simps)
    moreover have "\<not> Match off s w" if w: "t < w" "w < u" "w mod minute_ns = 0" for w
    proof -
      obtain k where k: "0 \<le> k" "w = ?c + k * minute_ns" using minute_after [OF w(1,3)] by blast
      moreover have "k < n" using k w(2) n(1) by simp
      ultimately show ?thesis using n(4) by simp
    qed
    ultimately show ?thesis using Some n(3) by (simp add: NextAfter_def)
  qed
qed

definition saturday_nine :: spec where
  "saturday_nine = \<lparr>sp_raw = ''0 9 * * 6'', sp_minute = \<lparr>anyMatch = False, cf_values = [0]\<rparr>,
     sp_hour = \<lparr>anyMatch = False, cf_values = [9]\<rparr>, sp_dom = \<lparr>anyMatch = True, cf_values = []\<rparr>,
     sp_month = \<lparr>anyMatch = True, cf_values = []\<rparr>, sp_dow = \<lparr>anyMatch = False, cf_values = [6]\<rparr>\<rparr>"

lemma saturday_nine_next:
  "NextAfter (\<lambda>_. 0) saturday_nine 1704531420000000001 = Some 1704531600000000000"
  by (simp add: NextAfter_def trunc_minute_def scan_minutes.simps maxIter_def Match_def Let_def t_minute_def
    local_seconds_def cf_matches_def saturday_nine_def t_hour_def t_month_def t_weekday_def t_day_def)

lemma saturday_nine_parsed: "Parse ''0 9 * * 6'' = Some (Inr saturday_nine)"
  by code_simp

theorem NextAfter_first_match_witness:
  "Parse ''0 9 * * 6'' = Some (Inr saturday_nine) \<and>
   NextAfter (\<lambda>_. 0) saturday_nine 1704531420000000001 = Some 1704531600000000000 \<and>
   Match (\<lambda>_. 0) saturday_nine 1704531600000000000 \<and>
   \<not> Match (\<lambda>_. 0) saturday_nine 1704531540000000000"
proof -
  note f = NextAfter_first_match [where off = "\<lambda>_. 0" and s = saturday_nine and t = 1704531420000000001,
      unfolded saturday_nine_next option.case, THEN conjunct2, THEN conjunct2]
  have "\<not> Match (\<lambda>_. 0) saturday_nine 1704531540000000000"
    by (rule f [THEN conjunct2, rule_format]) simp
  then show ?thesis by (intro conjI saturday_nine_parsed saturday_nine_next f [THEN conjunct1])
qed

end
