(* ===== verification/CronStore.thy ===== *)
theory CronStore
  imports CronSpec Ids
begin

text \<open>
  \<open>cron/store.go\<close>, \<open>cron/scheduler.go\<close>: the store of scheduled jobs. Points in time are as
  in \<open>CronSpec\<close>; \<open>zero_time\<close> is Go's zero \<open>time.Time\<close>. \<open>cs_disk\<close> is the content of
  \<open>cron.json\<close>, whose JSON coding is taken to be faithful and whose writing to succeed.
\<close>

section \<open>Jobs\<close>

datatype run_status = NoStatus | Pending | Running | Success | Failed | Skipped | Timeout

definition zero_time :: int where "zero_time = - 62135596800000000000"

record cron_job =
  j_id :: string
  j_cron :: string
  j_prompt :: string
  j_recurring :: bool
  j_paused :: bool
  j_created :: int
  j_updated :: int
  j_workspace :: string
  j_session :: string
  j_imchat :: "(string \<times> string) option"
  j_next :: int
  j_last :: "int option"
  j_status :: run_status
  j_count :: int
  j_expire :: "int option"

record cron_store =
  cs_jobs :: "cron_job list"
  cs_next :: int
  cs_file :: bool
  cs_disk :: "cron_job list"

datatype store_error = CronEmpty | PromptEmpty | BadCron parse_error | Unreachable string | JobMissing string

abbreviation hour_ns :: int where "hour_ns \<equiv> 3600000000000"
abbreviation defaultExpiry :: int where "defaultExpiry \<equiv> 7 * 24 * hour_ns"

definition parsed :: "string \<Rightarrow> parse_error + spec" where
  "parsed expr = the (Parse expr)"

definition SpecOf :: "cron_job \<Rightarrow> spec option" where
  "SpecOf j = (case parsed (j_cron j) of Inr s \<Rightarrow> Some s | Inl e \<Rightarrow> None)"

definition validateJob :: "string \<Rightarrow> string \<Rightarrow> store_error option" where
  "validateJob expr prompt =
     (if expr = [] then Some CronEmpty
      else if prompt = [] then Some PromptEmpty
      else case parsed expr of Inl e \<Rightarrow> Some (BadCron e) | Inr s \<Rightarrow> None)"

definition next_of :: "(int \<Rightarrow> int) \<Rightarrow> string \<Rightarrow> int \<Rightarrow> int option" where
  "next_of off expr now = (case parsed expr of Inl e \<Rightarrow> None | Inr s \<Rightarrow> NextAfter off s now)"

section \<open>The store\<close>

definition persistLocked :: "cron_store \<Rightarrow> cron_store" where
  "persistLocked s = (if cs_file s then s\<lparr>cs_disk := cs_jobs s\<rparr> else s)"

definition restoreFromFile :: "cron_store \<Rightarrow> cron_store" where
  "restoreFromFile s = s\<lparr>cs_jobs := cs_disk s, cs_next := restored_next (map j_id (cs_disk s))\<rparr>"

definition cron_New :: "cron_job list option \<Rightarrow> cron_store" where
  "cron_New disk =
     (case disk of
        None \<Rightarrow> \<lparr>cs_jobs = [], cs_next = 1, cs_file = False, cs_disk = []\<rparr>
      | Some js \<Rightarrow> restoreFromFile \<lparr>cs_jobs = [], cs_next = 1, cs_file = True, cs_disk = js\<rparr>)"

record job_request =
  rq_cron :: string
  rq_prompt :: string
  rq_recurring :: bool
  rq_workspace :: string
  rq_session :: string
  rq_now :: int

definition cron_Add ::
  "(int \<Rightarrow> int) \<Rightarrow> job_request \<Rightarrow> cron_store \<Rightarrow> (store_error + cron_job) \<times> cron_store" where
  "cron_Add off rq s =
     (case validateJob (rq_cron rq) (rq_prompt rq) of
        Some e \<Rightarrow> (Inl e, s)
      | None \<Rightarrow>
          (case next_of off (rq_cron rq) (rq_now rq) of
             None \<Rightarrow> (Inl (Unreachable (rq_cron rq)), s)
           | Some nxt \<Rightarrow>
               let job = \<lparr>j_id = ''c'' @ show_int (cs_next s), j_cron = rq_cron rq, j_prompt = rq_prompt rq,
                     j_recurring = rq_recurring rq, j_paused = False, j_created = rq_now rq, j_updated = zero_time,
                     j_workspace = rq_workspace rq, j_session = rq_session rq, j_imchat = None, j_next = nxt,
                     j_last = None, j_status = NoStatus, j_count = 0,
                     j_expire = (if rq_recurring rq then Some (rq_now rq + defaultExpiry) else None)\<rparr>
               in (Inr job, persistLocked (s\<lparr>cs_next := wrap64 (cs_next s + 1), cs_jobs := cs_jobs s @ [job]\<rparr>))))"

definition cron_Get :: "string \<Rightarrow> cron_store \<Rightarrow> cron_job option" where
  "cron_Get i s = find (\<lambda>j. j_id j = i) (cs_jobs s)"

definition cron_List :: "cron_store \<Rightarrow> cron_job list" where
  "cron_List s = cs_jobs s"

text \<open>The store's operations write through the pointer to the first job with the id.\<close>

fun put_job :: "string \<Rightarrow> cron_job \<Rightarrow> cron_job list \<Rightarrow> cron_job list" where
  "put_job i j [] = []"
| "put_job i j (x # xs) = (if j_id x = i then j # xs else x # put_job i j xs)"

definition write_job :: "string \<Rightarrow> cron_job \<Rightarrow> cron_store \<Rightarrow> cron_store" where
  "write_job i j s = persistLocked (s\<lparr>cs_jobs := put_job i j (cs_jobs s)\<rparr>)"

definition opt :: "'a option \<Rightarrow> 'a \<Rightarrow> 'a" where
  "opt x d = (case x of None \<Rightarrow> d | Some y \<Rightarrow> y)"

definition cron_Update ::
  "(int \<Rightarrow> int) \<Rightarrow> string \<Rightarrow> string option \<Rightarrow> string option \<Rightarrow> bool option \<Rightarrow> bool option \<Rightarrow> int \<Rightarrow>
     cron_store \<Rightarrow> (store_error + cron_job) \<times> cron_store" where
  "cron_Update off i prompt expr recurring paused now s =
     (case cron_Get i s of
        None \<Rightarrow> (Inl (JobMissing i), s)
      | Some t \<Rightarrow>
          (case (case expr of None \<Rightarrow> None | Some e \<Rightarrow> validateJob e (opt prompt (j_prompt t))) of
             Some er \<Rightarrow> (Inl er, s)
           | None \<Rightarrow>
               (case (case prompt of None \<Rightarrow> None | Some p \<Rightarrow> validateJob (j_cron t) p) of
                  Some er \<Rightarrow> (Inl er, s)
                | None \<Rightarrow>
                    (case (case expr of None \<Rightarrow> Inr t
                         | Some e \<Rightarrow> (case next_of off e now of
                               None \<Rightarrow> Inl (Unreachable e)
                             | Some n \<Rightarrow> Inr (t\<lparr>j_next := n, j_cron := e\<rparr>))) of
                       Inl er \<Rightarrow> (Inl er, s)
                     | Inr t1 \<Rightarrow>
                         let t2 = t1\<lparr>j_prompt := opt prompt (j_prompt t1),
                               j_recurring := opt recurring (j_recurring t1),
                               j_paused := opt paused (j_paused t1), j_updated := now\<rparr>
                         in (Inr t2, write_job i t2 s)))))"

definition SetIMChat ::
  "string \<Rightarrow> (string \<times> string) option \<Rightarrow> int \<Rightarrow> cron_store \<Rightarrow> (store_error + cron_job) \<times> cron_store" where
  "SetIMChat i chat now s =
     (case cron_Get i s of
        None \<Rightarrow> (Inl (JobMissing i), s)
      | Some t \<Rightarrow> let t2 = t\<lparr>j_imchat := chat, j_updated := now\<rparr> in (Inr t2, write_job i t2 s))"

text \<open>The third component is the job handed to the \<open>onDelete\<close> callback.\<close>

definition cron_Delete :: "string \<Rightarrow> cron_store \<Rightarrow> store_error option \<times> cron_store \<times> cron_job option" where
  "cron_Delete i s =
     (case cron_Get i s of
        None \<Rightarrow> (Some (JobMissing i), s, None)
      | Some j \<Rightarrow> (None, persistLocked (s\<lparr>cs_jobs := remove1 j (cs_jobs s)\<rparr>), Some j))"

text \<open>The next match when there is one; otherwise the field stays.\<close>

definition bump_job :: "(int \<Rightarrow> int) \<Rightarrow> int \<Rightarrow> cron_job \<Rightarrow> cron_job" where
  "bump_job off now j = j\<lparr>j_next := opt (next_of off (j_cron j) now) (j_next j)\<rparr>"

definition Advance ::
  "(int \<Rightarrow> int) \<Rightarrow> string \<Rightarrow> bool \<Rightarrow> int \<Rightarrow> cron_store \<Rightarrow> (cron_job option \<times> bool) \<times> cron_store" where
  "Advance off i fired now s =
     (case cron_Get i s of
        None \<Rightarrow> ((None, False), s)
      | Some t \<Rightarrow>
          if \<not> fired then
            let t2 = bump_job off now (t\<lparr>j_last := Some now, j_status := Skipped\<rparr>)
            in ((Some t2, False), write_job i t2 s)
          else
            let t2 = bump_job off now
                  (t\<lparr>j_count := wrap64 (j_count t + 1), j_last := Some now, j_status := Running\<rparr>);
                del = (\<not> j_recurring t2 \<or> (case j_expire t2 of None \<Rightarrow> False | Some e \<Rightarrow> \<not> now < e))
            in ((Some t2, del), write_job i t2 s))"

definition MarkFinished :: "string \<Rightarrow> run_status \<Rightarrow> int \<Rightarrow> cron_store \<Rightarrow> cron_store" where
  "MarkFinished i st now s =
     (case cron_Get i s of None \<Rightarrow> s
      | Some t \<Rightarrow> write_job i (t\<lparr>j_status := st, j_last := Some now\<rparr>) s)"

definition SetNextRun :: "string \<Rightarrow> int \<Rightarrow> cron_store \<Rightarrow> store_error option \<times> cron_store" where
  "SetNextRun i at s =
     (case cron_Get i s of None \<Rightarrow> (Some (JobMissing i), s)
      | Some t \<Rightarrow> (None, write_job i (t\<lparr>j_next := at\<rparr>) s))"

definition Due :: "cron_job list \<Rightarrow> int \<Rightarrow> cron_job list" where
  "Due js now = filter (\<lambda>j. \<not> j_paused j \<and> j_next j \<noteq> zero_time \<and> \<not> now < j_next j) js"

section \<open>The allocator contract\<close>

definition cron_alloc :: "(int \<Rightarrow> int) \<Rightarrow> job_request \<Rightarrow> cron_store \<Rightarrow> (store_error + string) \<times> cron_store" where
  "cron_alloc off rq s = map_prod (map_sum id j_id) id (cron_Add off rq s)"

lemma persist_simps [simp]:
  "cs_jobs (persistLocked s) = cs_jobs s" "cs_next (persistLocked s) = cs_next s"
  "cs_file (persistLocked s) = cs_file s" "cs_file s \<Longrightarrow> cs_disk (persistLocked s) = cs_jobs s"
  by (simp_all add: persistLocked_def)

interpretation cron_ids: id_allocator "''c''" "\<lambda>s. j_id ` set (cs_jobs s)" cs_next "cron_alloc off" for off
  by unfold_locales
    (auto simp: cron_alloc_def cron_Add_def is_digit_def Let_def split: option.splits)

section \<open>The invariant\<close>

definition job_valid :: "cron_job \<Rightarrow> bool" where
  "job_valid j \<longleftrightarrow> validateJob (j_cron j) (j_prompt j) = None"

definition cron_ok :: "cron_store \<Rightarrow> bool" where
  "cron_ok s \<longleftrightarrow> distinct (map j_id (cs_jobs s)) \<and> cron_ids.fresh s \<and>
     (\<forall>j \<in> set (cs_jobs s). job_valid j) \<and> (cs_file s \<longrightarrow> cs_disk s = cs_jobs s)"

lemma cron_Get_split:
  assumes "cron_Get i s = Some t"
  shows "\<exists>xs ys. cs_jobs s = xs @ t # ys \<and> j_id t = i \<and> i \<notin> j_id ` set xs \<and>
     (\<forall>j. put_job i j (cs_jobs s) = xs @ j # ys) \<and> remove1 t (cs_jobs s) = xs @ ys"
proof -
  have "\<exists>xs ys. js = xs @ t # ys \<and> j_id t = i \<and> i \<notin> j_id ` set xs \<and>
     (\<forall>j. put_job i j js = xs @ j # ys) \<and> remove1 t js = xs @ ys"
    if "find (\<lambda>j. j_id j = i) js = Some t" for js
    using that
  proof (induction js)
    case (Cons x xs)
    show ?case
    proof (cases "j_id x = i")
      case True
      with Cons.prems show ?thesis by (intro exI [of _ "[]"] exI [of _ xs]) auto
    next
      case False
      with Cons obtain as bs where "xs = as @ t # bs" "j_id t = i" "i \<notin> j_id ` set as"
        "\<forall>j. put_job i j xs = as @ j # bs" "remove1 t xs = as @ bs" by auto
      with False show ?thesis by (intro exI [of _ "x # as"] exI [of _ bs]) auto
    qed
  qed simp
  then show ?thesis using assms by (simp add: cron_Get_def)
qed

lemma write_job_ok:
  assumes "cron_ok s" "cron_Get i s = Some t" "j_id j = i" "job_valid j"
  shows "cron_ok (write_job i j s) \<and> cs_next (write_job i j s) = cs_next s"
proof -
  obtain xs ys where "cs_jobs s = xs @ t # ys" "j_id t = i" "put_job i j (cs_jobs s) = xs @ j # ys"
    using cron_Get_split [OF assms(2)] by blast
  then show ?thesis using assms
    by (auto simp: cron_ok_def write_job_def cron_ids.fresh_def)
qed

lemma cron_Get_in: "cron_Get i s = Some t \<Longrightarrow> t \<in> set (cs_jobs s) \<and> j_id t = i"
  using cron_Get_split by fastforce

lemma cron_Get_valid: "cron_ok s \<Longrightarrow> cron_Get i s = Some t \<Longrightarrow> job_valid t \<and> j_id t = i"
  using cron_Get_in [of i s t] by (auto simp: cron_ok_def)

lemma bump_job_simps [simp]:
  "j_id (bump_job off now j) = j_id j" "j_cron (bump_job off now j) = j_cron j"
  "j_prompt (bump_job off now j) = j_prompt j" "j_recurring (bump_job off now j) = j_recurring j"
  "j_expire (bump_job off now j) = j_expire j"
  by (simp_all add: bump_job_def)

lemma cron_Add_ok [step_inv]:
  assumes "cron_ok s" "cs_next s < 2 ^ 63 - 1"
  shows "cron_ok (snd (cron_Add off rq s)) \<and> cs_next (snd (cron_Add off rq s)) \<le> cs_next s + 1"
proof (cases "cron_Add off rq s")
  case (Pair r s')
  show ?thesis
  proof (cases r)
    case (Inl e)
    with Pair have "s' = s" by (auto simp: cron_Add_def Let_def split: option.splits)
    with Pair assms show ?thesis by simp
  next
    case (Inr job)
    have "cron_alloc off rq s = (Inr (j_id job), s')" using Pair Inr by (simp add: cron_alloc_def)
    from cron_ids.alloc_step [OF _ assms(2) this] assms(1)
    have f: "j_id job \<notin> j_id ` set (cs_jobs s)" "cron_ids.fresh s'" "cs_next s' = cs_next s + 1"
      by (auto simp: cron_ok_def)
    have "cs_jobs s' = cs_jobs s @ [job]" "job_valid job" "cs_file s' \<Longrightarrow> cs_disk s' = cs_jobs s'"
      using Pair Inr by (auto simp: cron_Add_def Let_def job_valid_def split: option.splits)
    with f assms Pair show ?thesis by (auto simp: cron_ok_def)
  qed
qed

lemma cron_Update_cases:
  "cron_Update off i p e r b now s = (res, s') \<Longrightarrow>
     (\<exists>er. res = Inl er \<and> s' = s) \<or>
     (\<exists>t t'. cron_Get i s = Some t \<and> res = Inr t' \<and> s' = write_job i t' s \<and> j_id t' = j_id t \<and>
        j_cron t' = opt e (j_cron t) \<and> j_prompt t' = opt p (j_prompt t) \<and> (job_valid t \<longrightarrow> job_valid t') \<and>
        j_count t' = j_count t \<and> j_expire t' = j_expire t)"
proof -
  assume u: "cron_Update off i p e r b now s = (res, s')"
  show ?thesis
  proof (cases "cron_Get i s")
    case None
    with u show ?thesis by (auto simp: cron_Update_def)
  next
    case (Some t)
    show ?thesis
    proof (cases e)
      case None
      show ?thesis
      proof (cases p)
        case None
        with u Some \<open>e = None\<close> show ?thesis
          by (auto simp: cron_Update_def Let_def opt_def job_valid_def)
      next
        case (Some q)
        with u \<open>cron_Get i s = Some t\<close> \<open>e = None\<close> show ?thesis
          by (cases "validateJob (j_cron t) q") (auto simp: cron_Update_def Let_def opt_def job_valid_def)
      qed
    next
      case (Some x)
      show ?thesis
      proof (cases "validateJob x (opt p (j_prompt t)) \<noteq> None \<or>
          (case p of None \<Rightarrow> None | Some q \<Rightarrow> validateJob (j_cron t) q) \<noteq> None \<or> next_of off x now = None")
        case True
        with u \<open>cron_Get i s = Some t\<close> Some show ?thesis
          by (auto simp: cron_Update_def split: option.splits)
      next
        case False
        with u \<open>cron_Get i s = Some t\<close> Some show ?thesis
          by (auto simp: cron_Update_def Let_def opt_def job_valid_def)
      qed
    qed
  qed
qed

lemma cron_Update_ok [step_inv]:
  assumes "cron_ok s"
  shows "cron_ok (snd (cron_Update off i p e r b now s)) \<and> cs_next (snd (cron_Update off i p e r b now s)) = cs_next s"
proof (cases "cron_Update off i p e r b now s")
  case (Pair res s')
  from cron_Update_cases [OF this] show ?thesis
    using assms Pair cron_Get_valid [OF assms] write_job_ok [OF assms] by (elim disjE exE conjE) auto
qed

lemma cron_Delete_ok [step_inv]:
  assumes "cron_ok s"
  shows "cron_ok (fst (snd (cron_Delete i s))) \<and> cs_next (fst (snd (cron_Delete i s))) = cs_next s"
proof (cases "cron_Get i s")
  case (Some t)
  then obtain xs ys where "cs_jobs s = xs @ t # ys" "remove1 t (cs_jobs s) = xs @ ys"
    using cron_Get_split by blast
  then show ?thesis using assms Some
    by (auto simp: cron_Delete_def cron_ok_def cron_ids.fresh_def counts_past_def)
qed (use assms in \<open>simp add: cron_Delete_def\<close>)

lemma write_same:
  assumes "cron_ok s" "cron_Get i s = Some t" "j_id j = j_id t" "j_cron j = j_cron t" "j_prompt j = j_prompt t"
  shows "cron_ok (write_job i j s)" "cs_next (write_job i j s) = cs_next s"
  using write_job_ok [OF assms(1,2), of j] cron_Get_valid [OF assms(1,2)] assms(3-5)
  by (simp_all add: job_valid_def)

lemma single_writes_ok [step_inv]:
  assumes "cron_ok s"
  shows "cron_ok (snd (SetIMChat i c now s)) \<and> cs_next (snd (SetIMChat i c now s)) = cs_next s"
    "cron_ok (snd (Advance off i f now s)) \<and> cs_next (snd (Advance off i f now s)) = cs_next s"
    "cron_ok (MarkFinished i st now s) \<and> cs_next (MarkFinished i st now s) = cs_next s"
    "cron_ok (snd (SetNextRun i now s)) \<and> cs_next (snd (SetNextRun i now s)) = cs_next s"
  using assms
  by (auto simp: SetIMChat_def Advance_def MarkFinished_def SetNextRun_def Let_def
      split: option.splits intro: write_same [OF assms])


section \<open>Properties of the store\<close>

datatype cron_op =
    OpAdd job_request
  | OpUpdate string "string option" "string option" "bool option" "bool option" int
  | OpIMChat string "(string \<times> string) option" int
  | OpDelete string
  | OpAdvance string bool int
  | OpFinished string run_status int
  | OpSetNext string int
  | OpRestart

fun cron_step :: "(int \<Rightarrow> int) \<Rightarrow> cron_store \<Rightarrow> cron_op \<Rightarrow> cron_store" where
  "cron_step off s (OpAdd rq) = snd (cron_Add off rq s)"
| "cron_step off s (OpUpdate i p e r b now) = snd (cron_Update off i p e r b now s)"
| "cron_step off s (OpIMChat i c now) = snd (SetIMChat i c now s)"
| "cron_step off s (OpDelete i) = fst (snd (cron_Delete i s))"
| "cron_step off s (OpAdvance i f now) = snd (Advance off i f now s)"
| "cron_step off s (OpFinished i st now) = MarkFinished i st now s"
| "cron_step off s (OpSetNext i at) = snd (SetNextRun i at s)"
| "cron_step off s OpRestart = cron_New (if cs_file s then Some (cs_disk s) else None)"

lemma restored_next_le: "1 \<le> n \<Longrightarrow> \<forall>i \<in> set ids. idNum i < n \<Longrightarrow> restored_next ids \<le> n"
proof -
  assume a: "1 \<le> n" "\<forall>i \<in> set ids. idNum i < n"
  have "foldl bump_next m ids \<le> n" if "m \<le> n" for m
    using a(2) that
  proof (induction ids arbitrary: m)
    case (Cons i ids)
    have "bump_next m i \<le> n"
    proof (cases "m \<le> idNum i \<and> idNum i = 2 ^ 63 - 1")
      case True
      then show ?thesis using a(1) by (simp add: bump_next_def wrap64_def)
    next
      case False
      then have "m \<le> idNum i \<Longrightarrow> wrap64 (idNum i + 1) = idNum i + 1"
        using idNum_range [of i] by (intro wrap64_id) auto
      then show ?thesis using Cons.prems by (auto simp: bump_next_def)
    qed
    with Cons show ?case by simp
  qed simp
  from this [OF a(1)] show ?thesis by (simp add: restored_next_def)
qed

lemma cron_restart_ok:
  assumes "cron_ok s" "cs_next s < 2 ^ 63"
  shows "cron_ok (cron_step off s OpRestart) \<and> cs_next (cron_step off s OpRestart) \<le> cs_next s"
proof (cases "cs_file s")
  case True
  from assms have f: "1 \<le> cs_next s" "\<forall>i \<in> set (map j_id (cs_jobs s)). idNum i < cs_next s"
    by (auto simp: cron_ok_def cron_ids.fresh_def counts_past_def)
  with assms(2) have "\<forall>i \<in> set (map j_id (cs_jobs s)). idNum i < 2 ^ 63 - 1" by auto
  from restored_next_fresh [OF this] restored_next_le [OF f] True assms(1) show ?thesis
    by (auto simp: cron_New_def restoreFromFile_def cron_ok_def cron_ids.fresh_def counts_past_def)
next
  case False
  with assms(1) show ?thesis by (auto simp: cron_New_def restoreFromFile_def cron_ok_def cron_ids.fresh_def counts_past_def)
qed

lemma cron_step_ok:
  assumes "cron_ok s" "cs_next s < 2 ^ 63 - 1"
  shows "cron_ok (cron_step off s op) \<and> cs_next (cron_step off s op) \<le> cs_next s + 1"
proof (cases op)
  case OpRestart
  then show ?thesis using cron_restart_ok [OF assms(1), of off] assms(2) by simp
next
  case (OpAdd rq)
  then show ?thesis using cron_Add_ok [OF assms] by simp
next
  case (OpUpdate i p e r b now)
  then show ?thesis using cron_Update_ok [OF assms(1)] by simp
next
  case (OpDelete i)
  then show ?thesis using cron_Delete_ok [OF assms(1)] by simp
qed (use single_writes_ok [OF assms(1)] in simp_all)

text \<open>C37. Whatever operations and restarts happen, job ids stay distinct and behind the counter,
  every stored job has a prompt and an expression that compiles, and the file holds exactly the
  jobs in memory.\<close>

theorem cron_store_stays_consistent:
  assumes "int (length ops) < 2 ^ 63 - 2" and "start = None \<or> start = Some []"
  shows "cron_ok (foldl (cron_step off) (cron_New start) ops)"
proof -
  have "cron_ok (foldl (cron_step off) s ops)" if "cron_ok s" "cs_next s + int (length ops) < 2 ^ 63 - 1" for s
    using that
  proof (induction ops arbitrary: s)
    case (Cons op ops)
    then have "cs_next s < 2 ^ 63 - 1" by simp
    from cron_step_ok [OF Cons.prems(1) this, of off op] Cons show ?case by simp
  qed simp
  moreover have "cron_ok (cron_New start)" "cs_next (cron_New start) = 1" using assms(2)
    by (auto simp: cron_New_def restoreFromFile_def cron_ok_def cron_ids.fresh_def counts_past_def restored_next_def)
  ultimately show ?thesis using assms(1) by simp
qed

definition reminder :: job_request where
  "reminder = \<lparr>rq_cron = ''0 9 * * 6'', rq_prompt = ''water the plants'', rq_recurring = False,
     rq_workspace = ''/w'', rq_session = ''s'', rq_now = 1704531420000000001\<rparr>"

theorem cron_store_stays_consistent_witness:
  "cron_ok (foldl (cron_step (\<lambda>_. 0)) (cron_New (Some []))
     [OpAdd reminder, OpAdd reminder, OpDelete ''c2'', OpRestart, OpAdd reminder])"
  by (rule cron_store_stays_consistent) simp_all

text \<open>An update either changes nothing and reports an error, or keeps the job's id, counter
  and expiry and stores a job that is valid if the old one was.\<close>

theorem cron_Update_atomic:
  shows "case cron_Update off i p e r b now s of
     (Inl er, s') \<Rightarrow> s' = s
   | (Inr j', s') \<Rightarrow> \<exists>j. cron_Get i s = Some j \<and> s' = write_job i j' s \<and> j_id j' = i \<and>
       j_cron j' = opt e (j_cron j) \<and> j_prompt j' = opt p (j_prompt j) \<and>
       j_count j' = j_count j \<and> j_expire j' = j_expire j"
proof (cases "cron_Update off i p e r b now s")
  case (Pair res s')
  from cron_Update_cases [OF this] show ?thesis
    using Pair cron_Get_in [of i s] by (elim disjE exE conjE) auto
qed

text \<open>After the scheduler has advanced a job, fired or skipped, it is not due again at the
  same moment, provided its expression still has a match ahead; so one tick cannot run it twice.\<close>

theorem advanced_job_not_due:
  assumes "cron_ok s" and "cron_Get i s = Some j" and "next_of off (j_cron j) now \<noteq> None"
  shows "i \<notin> j_id ` set (Due (cs_jobs (snd (Advance off i fired now s))) now)"
proof -
  obtain n where n: "next_of off (j_cron j) now = Some n" using assms(3) by blast
  then obtain sp where "NextAfter off sp now = Some n" by (auto simp: next_of_def split: sum.splits)
  then have "now < n" using scan_minutes_spec [of 0 "Match off sp" "trunc_minute now + minute_ns"]
    by (auto simp: NextAfter_def trunc_minute_def)
  obtain xs ys where j: "cs_jobs s = xs @ j # ys" "j_id j = i" "i \<notin> j_id ` set xs"
    "\<And>x. put_job i x (cs_jobs s) = xs @ x # ys"
    using cron_Get_split [OF assms(2)] by blast
  then have "i \<notin> j_id ` set ys" using assms(1) by (auto simp: cron_ok_def)
  moreover have "\<exists>x. cs_jobs (snd (Advance off i fired now s)) = xs @ x # ys \<and> j_next x = n"
    using assms(2) n j(4) by (cases fired) (auto simp: Advance_def Let_def write_job_def bump_job_def opt_def)
  ultimately show ?thesis using \<open>now < n\<close> j(3) by (auto simp: Due_def)
qed


lemma reminder_next: "next_of (\<lambda>_. 0) ''0 9 * * 6'' 1704531420000000001 = Some 1704531600000000000"
  by (simp add: next_of_def parsed_def saturday_nine_parsed saturday_nine_next)

lemma reminder_valid: "validateJob ''0 9 * * 6'' ''water the plants'' = None"
  by (simp add: validateJob_def parsed_def saturday_nine_parsed)

definition reminder_job :: "int \<Rightarrow> cron_job" where
  "reminder_job n = \<lparr>j_id = ''c'' @ show_int n, j_cron = ''0 9 * * 6'', j_prompt = ''water the plants'',
     j_recurring = False, j_paused = False, j_created = 1704531420000000001, j_updated = zero_time,
     j_workspace = ''/w'', j_session = ''s'', j_imchat = None, j_next = 1704531600000000000,
     j_last = None, j_status = NoStatus, j_count = 0, j_expire = None\<rparr>"

lemma reminder_added:
  "cron_Add (\<lambda>_. 0) reminder s = (Inr (reminder_job (cs_next s)),
     persistLocked (s\<lparr>cs_next := wrap64 (cs_next s + 1), cs_jobs := cs_jobs s @ [reminder_job (cs_next s)]\<rparr>))"
  by (simp add: cron_Add_def reminder_def reminder_valid reminder_next reminder_job_def Let_def)

lemma wrap64_small: "wrap64 2 = 2" "wrap64 3 = 3"
  by (simp_all add: wrap64_def)

lemma reminder_ids: "j_id (reminder_job 1) = ''c1''" "j_id (reminder_job 2) = ''c2''" "idNum ''c1'' = 1" "idNum ''c2'' = 2"
  by code_simp+

definition one_reminder :: cron_store where
  "one_reminder = \<lparr>cs_jobs = [reminder_job 1], cs_next = 2, cs_file = True, cs_disk = [reminder_job 1]\<rparr>"

lemma one_reminder_added: "snd (cron_Add (\<lambda>_. 0) reminder (cron_New (Some []))) = one_reminder"
  by (simp add: reminder_added cron_New_def restoreFromFile_def restored_next_def persistLocked_def one_reminder_def wrap64_small)

lemma one_reminder_ok: "cron_ok one_reminder"
  by (simp add: one_reminder_def cron_ok_def cron_ids.fresh_def counts_past_def reminder_ids job_valid_def)
    (simp add: reminder_job_def reminder_valid)

theorem advanced_job_not_due_witness:
  "''c1'' \<in> j_id ` set (Due (cs_jobs one_reminder) 1704531600000000000) \<and>
   ''c1'' \<notin> j_id ` set (Due (cs_jobs (snd (Advance (\<lambda>_. 0) ''c1'' True 1704531420000000001 one_reminder)))
     1704531420000000001)"
proof
  show "''c1'' \<in> j_id ` set (Due (cs_jobs one_reminder) 1704531600000000000)"
    by (simp add: one_reminder_def Due_def reminder_ids) (simp add: reminder_job_def zero_time_def)
  have "cron_Get ''c1'' one_reminder = Some (reminder_job 1)"
    by (simp add: one_reminder_def cron_Get_def reminder_ids)
  moreover have "next_of (\<lambda>_. 0) (j_cron (reminder_job 1)) 1704531420000000001 \<noteq> None"
    by (simp add: reminder_job_def reminder_next)
  ultimately show "''c1'' \<notin> j_id ` set (Due (cs_jobs (snd (Advance (\<lambda>_. 0) ''c1'' True 1704531420000000001
      one_reminder))) 1704531420000000001)"
    by (rule advanced_job_not_due [OF one_reminder_ok])
qed

text \<open>Recurring jobs are meant to expire after seven days, but a one-shot job that an update
  turns into a recurring one gets no expiry: it stays in the store however late it fires.\<close>

theorem updated_job_never_expires:
  "case cron_Update (\<lambda>_. 0) ''c1'' None None (Some True) None now one_reminder of
     (Inl er, s') \<Rightarrow> False
   | (Inr j', s') \<Rightarrow> j_recurring j' \<and> j_expire j' = None \<and>
       (\<forall>later off. \<not> snd (fst (Advance off ''c1'' True later s')))"
proof -
  have g: "cron_Get ''c1'' one_reminder = Some (reminder_job 1)"
    by (simp add: one_reminder_def cron_Get_def reminder_ids)
  define j' where "j' = (reminder_job 1)\<lparr>j_recurring := True, j_updated := now\<rparr>"
  have u: "cron_Update (\<lambda>_. 0) ''c1'' None None (Some True) None now one_reminder =
      (Inr j', write_job ''c1'' j' one_reminder)"
    by (simp add: cron_Update_def g opt_def Let_def j'_def)
  have "cron_Get ''c1'' (write_job ''c1'' j' one_reminder) = Some j'"
    by (simp add: write_job_def one_reminder_def cron_Get_def reminder_ids j'_def persistLocked_def)
  moreover have "j_recurring j'" "j_expire j' = None" by (simp_all add: j'_def reminder_job_def)
  ultimately show ?thesis by (simp add: u Advance_def Let_def)
qed

lemma reminders_differ: "reminder_job 1 \<noteq> reminder_job 2"
proof
  assume "reminder_job 1 = reminder_job 2"
  then have "j_id (reminder_job 1) = j_id (reminder_job 2)" by (rule arg_cong)
  then show False unfolding reminder_ids by simp
qed

definition two_reminders :: cron_store where
  "two_reminders = \<lparr>cs_jobs = [reminder_job 1, reminder_job 2], cs_next = 3, cs_file = True,
      cs_disk = [reminder_job 1, reminder_job 2]\<rparr>"

lemma two_reminders_added: "snd (cron_Add (\<lambda>_. 0) reminder one_reminder) = two_reminders"
  by (simp add: reminder_added one_reminder_def persistLocked_def wrap64_small two_reminders_def)

lemma two_reminders_get: "cron_Get ''c2'' two_reminders = Some (reminder_job 2)"
  by (simp add: cron_Get_def reminder_ids two_reminders_def)

lemma two_reminders_restarted:
  "cs_next (cron_step (\<lambda>_. 0) (cron_step (\<lambda>_. 0) two_reminders (OpDelete ''c2'')) OpRestart) = 2"
proof -
  have "cron_step (\<lambda>_. 0) two_reminders (OpDelete ''c2'') =
      \<lparr>cs_jobs = [reminder_job 1], cs_next = 3, cs_file = True, cs_disk = [reminder_job 1]\<rparr>"
    unfolding cron_step.simps cron_Delete_def two_reminders_get
    by (simp add: two_reminders_def persistLocked_def reminders_differ)
  then show ?thesis
    by (simp add: cron_New_def restoreFromFile_def restored_next_def bump_next_def reminder_ids wrap64_small)
qed

text \<open>Job ids are reused after a restart: when the newest job is deleted and the process
  restarts, the next job gets the deleted job's id, under which the run ledger still files the
  old job's runs.\<close>

theorem deleted_job_id_is_reused:
  "let s = snd (cron_Add (\<lambda>_. 0) reminder one_reminder);
       s' = cron_step (\<lambda>_. 0) (cron_step (\<lambda>_. 0) s (OpDelete ''c2'')) OpRestart
   in cron_Get ''c2'' s \<noteq> None \<and>
      map_sum id j_id (fst (cron_Add (\<lambda>_. 0) reminder s')) = Inr ''c2''"
proof -
  have "map_sum id j_id (fst (cron_Add (\<lambda>_. 0) reminder s)) = Inr (j_id (reminder_job (cs_next s)))" for s
    by (simp add: reminder_added)
  then show ?thesis
    unfolding Let_def two_reminders_added two_reminders_get two_reminders_restarted reminder_ids
    by (intro conjI) (simp_all only: two_reminders_restarted reminder_ids option.distinct not_False_eq_True)
qed

end
