(* ===== verification/CronLedger.thy ===== *)
theory CronLedger
  imports CronStore
begin

text \<open>
  \<open>cron/ledger.go\<close>, \<open>cron/retention.go\<close> and the scheduling part of \<open>desktop/bridge/cron.go\<close>:
  the append-only ledger of runs, its folding into one record per run, the choice of old
  session files to clean up, and one tick of the scheduler. The file is the list of the records
  appended to it; \<open>line_len\<close> is the length of a record's JSON line, which matters because
  \<open>bufio.Scanner\<close> stops at a line that does not fit its buffer of 64 KiB. A session is created
  by code outside the package; whether that fails is the parameter \<open>create\<close>.
\<close>

section \<open>Runs\<close>

record cron_run =
  r_run :: string
  r_job :: string
  r_cron :: string
  r_prompt :: string
  r_fired :: int
  r_finished :: int
  r_session :: string
  r_wskey :: string
  r_status :: run_status
  r_error :: string
  r_duration :: int
  r_final :: string

definition blank_run :: "string \<Rightarrow> cron_run" where
  "blank_run i = \<lparr>r_run = i, r_job = [], r_cron = [], r_prompt = [], r_fired = zero_time,
     r_finished = zero_time, r_session = [], r_wskey = [], r_status = NoStatus, r_error = [],
     r_duration = 0, r_final = []\<rparr>"

record run_ledger =
  rl_file :: bool
  rl_open :: bool
  rl_rows :: "cron_run list"
  rl_next :: int

text \<open>\<open>itoa\<close> of the package.\<close>

function itoa_digits :: "int \<Rightarrow> string" where
  "itoa_digits n = (if n \<le> 0 then [] else itoa_digits (n div 10) @ [digit (nat (n mod 10))])"
  by pat_completeness auto
termination by (relation "measure nat") auto

declare itoa_digits.simps [simp del]

definition itoa :: "int \<Rightarrow> string" where
  "itoa n =
     (if n = 0 then ''0''
      else if n < 0 then CHR ''-'' # itoa_digits (wrap64 (- n))
      else itoa_digits n)"

definition maxLine :: int where "maxLine = 65535"

definition readable :: "(cron_run \<Rightarrow> int) \<Rightarrow> cron_run list \<Rightarrow> cron_run list" where
  "readable line_len rows = takeWhile (\<lambda>r. line_len r \<le> maxLine) rows"

definition scanNext :: "(cron_run \<Rightarrow> int) \<Rightarrow> cron_run list \<Rightarrow> int" where
  "scanNext line_len rows = restored_next (map r_run (readable line_len rows))"

text \<open>\<open>disk\<close> is the file's content, \<open>None\<close> when it cannot be opened.\<close>

definition NewLedger :: "(cron_run \<Rightarrow> int) \<Rightarrow> string \<Rightarrow> cron_run list option \<Rightarrow> run_ledger" where
  "NewLedger line_len path disk =
     (if path = [] then \<lparr>rl_file = False, rl_open = False, rl_rows = [], rl_next = 1\<rparr>
      else case disk of
          None \<Rightarrow> \<lparr>rl_file = True, rl_open = False, rl_rows = [], rl_next = 1\<rparr>
        | Some rows \<Rightarrow> \<lparr>rl_file = True, rl_open = True, rl_rows = rows, rl_next = scanNext line_len rows\<rparr>)"

definition append_run :: "cron_run \<Rightarrow> run_ledger \<Rightarrow> run_ledger" where
  "append_run r l = (if rl_open l then l\<lparr>rl_rows := rl_rows l @ [r]\<rparr> else l)"

definition nextRunID :: "run_ledger \<Rightarrow> string \<times> run_ledger" where
  "nextRunID l = (''r'' @ itoa (rl_next l), l\<lparr>rl_next := wrap64 (rl_next l + 1)\<rparr>)"

definition append_new :: "run_status \<Rightarrow> cron_job \<Rightarrow> string \<Rightarrow> int \<Rightarrow> run_ledger \<Rightarrow> cron_run \<times> run_ledger" where
  "append_new st job wsKey now l =
     (case nextRunID l of (i, l1) \<Rightarrow>
        let r = (blank_run i)\<lparr>r_job := j_id job, r_cron := j_cron job, r_prompt := j_prompt job,
              r_fired := now, r_wskey := wsKey, r_status := st\<rparr>
        in (r, append_run r l1))"

definition AppendStart :: "cron_job \<Rightarrow> string \<Rightarrow> int \<Rightarrow> run_ledger \<Rightarrow> cron_run \<times> run_ledger" where
  "AppendStart = append_new Pending"

definition AppendSkipped :: "cron_job \<Rightarrow> string \<Rightarrow> int \<Rightarrow> run_ledger \<Rightarrow> cron_run \<times> run_ledger" where
  "AppendSkipped = append_new Skipped"

definition Start :: "string \<Rightarrow> string \<Rightarrow> int \<Rightarrow> run_ledger \<Rightarrow> run_ledger" where
  "Start runID sid now = append_run ((blank_run runID)\<lparr>r_session := sid, r_fired := now, r_status := Running\<rparr>)"

text \<open>\<open>now.Sub(started)\<close> saturates at 64 bits; \<open>Milliseconds\<close> truncates towards zero.\<close>

definition sub_ns :: "int \<Rightarrow> int \<Rightarrow> int" where
  "sub_ns a b = max (- (2 ^ 63)) (min (2 ^ 63 - 1) (a - b))"

definition Finish ::
  "string \<Rightarrow> run_status \<Rightarrow> string \<Rightarrow> string \<Rightarrow> int \<Rightarrow> int \<Rightarrow> run_ledger \<Rightarrow> run_ledger" where
  "Finish runID st err final started now =
     append_run ((blank_run runID)\<lparr>r_status := st, r_error := err, r_final := final, r_fired := started,
       r_finished := now, r_duration := sgn (sub_ns now started) * (\<bar>sub_ns now started\<bar> div 1000000)\<rparr>)"

definition ReadAll :: "(cron_run \<Rightarrow> int) \<Rightarrow> run_ledger \<Rightarrow> cron_run list" where
  "ReadAll line_len l = (if rl_file l then readable line_len (rl_rows l) else [])"

section \<open>One record per run\<close>

definition merge_run :: "cron_run \<Rightarrow> cron_run \<Rightarrow> cron_run" where
  "merge_run cur r = cur\<lparr>
     r_job := (if r_job r \<noteq> [] then r_job r else r_job cur),
     r_cron := (if r_cron r \<noteq> [] then r_cron r else r_cron cur),
     r_prompt := (if r_prompt r \<noteq> [] then r_prompt r else r_prompt cur),
     r_fired := (if r_fired r \<noteq> zero_time then r_fired r else r_fired cur),
     r_finished := (if r_finished r \<noteq> zero_time then r_finished r else r_finished cur),
     r_session := (if r_session r \<noteq> [] then r_session r else r_session cur),
     r_wskey := (if r_wskey r \<noteq> [] then r_wskey r else r_wskey cur),
     r_status := (if r_status r \<noteq> NoStatus then r_status r else r_status cur),
     r_error := (if r_error r \<noteq> [] then r_error r else r_error cur),
     r_duration := (if r_duration r \<noteq> 0 then r_duration r else r_duration cur),
     r_final := (if r_final r \<noteq> [] then r_final r else r_final cur)\<rparr>"

definition fold_row ::
  "(string \<rightharpoonup> cron_run) \<times> string list \<Rightarrow> cron_run \<Rightarrow> (string \<rightharpoonup> cron_run) \<times> string list" where
  "fold_row st r =
     (case st of (merged, order) \<Rightarrow>
        case merged (r_run r) of
          None \<Rightarrow> (merged(r_run r \<mapsto> merge_run (blank_run (r_run r)) r), order @ [r_run r])
        | Some cur \<Rightarrow> (merged(r_run r \<mapsto> merge_run cur r), order))"

definition latest_of :: "string \<Rightarrow> cron_run list \<Rightarrow> cron_run list" where
  "latest_of job rows =
     (case foldl fold_row (Map.empty, []) rows of (merged, order) \<Rightarrow>
        rev (map (\<lambda>i. the (merged i)) (filter (\<lambda>i. \<not> (job \<noteq> [] \<and> r_job (the (merged i)) \<noteq> job)) order)))"

definition LatestRuns :: "(cron_run \<Rightarrow> int) \<Rightarrow> string \<Rightarrow> run_ledger \<Rightarrow> cron_run list" where
  "LatestRuns line_len job l = latest_of job (ReadAll line_len l)"

section \<open>Retention\<close>

definition DefaultKeepDays :: int where "DefaultKeepDays = 30"

definition finished :: "run_status \<Rightarrow> bool" where
  "finished st \<longleftrightarrow> st \<in> {Running, Success, Failed, Timeout}"

definition cutoff :: "int \<Rightarrow> int \<Rightarrow> int" where
  "cutoff now keepDays = now + wrap64 (- (if keepDays \<le> 0 then DefaultKeepDays else keepDays) * 24 * hour_ns)"

definition clean_row :: "int \<Rightarrow> int \<Rightarrow> cron_run \<Rightarrow> bool" where
  "clean_row now keepDays r \<longleftrightarrow>
     r_session r \<noteq> [] \<and> finished (r_status r) \<and> r_fired r < cutoff now keepDays"

fun dedup_sessions :: "string list \<Rightarrow> cron_run list \<Rightarrow> string list" where
  "dedup_sessions seen [] = []"
| "dedup_sessions seen (r # rs) =
     (if r_session r \<in> set seen then dedup_sessions seen rs
      else r_session r # dedup_sessions (r_session r # seen) rs)"

definition CleanupCandidates :: "cron_run list \<Rightarrow> int \<Rightarrow> int \<Rightarrow> string list" where
  "CleanupCandidates runs now keepDays = dedup_sessions [] (filter (clean_row now keepDays) runs)"

definition CleanupCandidatesByRun :: "cron_run list \<Rightarrow> int \<Rightarrow> int \<Rightarrow> cron_run list" where
  "CleanupCandidatesByRun runs now keepDays = filter (clean_row now keepDays) runs"

text \<open>
  \<open>cronClean\<close>: the rows whose session files it removes. \<open>valid_sid\<close> stands for
  \<open>session.ValidateSessionID\<close>.
\<close>

definition cronClean :: "(cron_run \<Rightarrow> int) \<Rightarrow> (string \<Rightarrow> bool) \<Rightarrow> run_ledger \<Rightarrow> int \<Rightarrow> cron_run list" where
  "cronClean line_len valid_sid led now =
     filter (\<lambda>r. valid_sid (r_session r) \<and> r_job r \<noteq> [])
       (CleanupCandidatesByRun (ReadAll line_len led) now DefaultKeepDays)"

section \<open>A tick of the scheduler\<close>

record scheduler =
  sc_store :: cron_store
  sc_ledger :: run_ledger
  sc_clock :: int

text \<open>
  One due job. \<open>create\<close> answers with the error of the session's creation or the new session id;
  \<open>ws_key\<close> is the key of a workspace; \<open>sc_clock\<close> is \<open>time.Now()\<close> at the end of a failed start.
  The prompt is then asked in the new session, which is outside the model.
\<close>

definition fire_job ::
  "(int \<Rightarrow> int) \<Rightarrow> (cron_job \<Rightarrow> string + string) \<Rightarrow> (string \<Rightarrow> string) \<Rightarrow> bool \<Rightarrow> int \<Rightarrow> scheduler \<Rightarrow> cron_job \<Rightarrow>
     scheduler" where
  "fire_job off create ws_key enabled now sc j =
     (let wk = ws_key (j_workspace j) in
      if \<not> enabled then
        (case Advance off (j_id j) False now (sc_store sc) of ((job, _), s1) \<Rightarrow>
           sc\<lparr>sc_store := s1,
             sc_ledger := (case job of None \<Rightarrow> sc_ledger sc
                | Some jb \<Rightarrow> snd (AppendSkipped jb wk now (sc_ledger sc)))\<rparr>)
      else
        (case AppendStart j wk now (sc_ledger sc) of (r, l1) \<Rightarrow>
           (case create j of
              Inl err \<Rightarrow>
                sc\<lparr>sc_store := snd (Advance off (j_id j) True now (sc_store sc)),
                  sc_ledger := Finish (r_run r) Failed err [] now (sc_clock sc) l1\<rparr>
            | Inr sid \<Rightarrow>
                let l2 = Start (r_run r) sid now l1 in
                (case Advance off (j_id j) True now (sc_store sc) of ((_, del), s1) \<Rightarrow>
                   sc\<lparr>sc_store := (if del then fst (snd (cron_Delete (j_id j) s1)) else s1),
                     sc_ledger := l2\<rparr>))))"

definition cronTick ::
  "(int \<Rightarrow> int) \<Rightarrow> (cron_job \<Rightarrow> string + string) \<Rightarrow> (string \<Rightarrow> string) \<Rightarrow> bool \<Rightarrow> int \<Rightarrow> scheduler \<Rightarrow> scheduler" where
  "cronTick off create ws_key enabled now sc =
     (let sc1 = foldl (fire_job off create ws_key enabled now) sc (Due (cron_List (sc_store sc)) now)
      in sc1\<lparr>sc_store := persistLocked (sc_store sc1)\<rparr>)"

definition finishCronRun ::
  "string \<Rightarrow> string \<Rightarrow> run_status \<Rightarrow> string \<Rightarrow> string \<Rightarrow> int \<Rightarrow> int \<Rightarrow> scheduler \<Rightarrow> scheduler" where
  "finishCronRun runID jobID st err final fired now sc =
     sc\<lparr>sc_ledger := (if runID \<noteq> [] then Finish runID st err final fired now (sc_ledger sc) else sc_ledger sc),
       sc_store := (if jobID \<noteq> [] then MarkFinished jobID st now (sc_store sc) else sc_store sc)\<rparr>"

section \<open>Ids of runs\<close>

lemma itoa_digits_show: "0 < n \<Longrightarrow> itoa_digits n = show_nat (nat n)"
proof (induction n rule: itoa_digits.induct)
  case (1 n)
  have d: "nat (n div 10) = nat n div 10" "nat (n mod 10) = nat n mod 10"
    using 1(2) by (simp_all add: nat_div_distrib nat_mod_distrib)
  have u: "itoa_digits n = itoa_digits (n div 10) @ [digit (nat (n mod 10))]"
    using 1(2) by (simp add: itoa_digits.simps [of n])
  show ?case
  proof (cases "n < 10")
    case True
    then have "n div 10 = 0" "n mod 10 = n" using 1(2) by auto
    moreover have "itoa_digits 0 = []" by (simp add: itoa_digits.simps [of 0])
    moreover have "show_nat (nat n) = [digit (nat n)]" using True by (simp add: show_nat.simps [of "nat n"])
    ultimately show ?thesis unfolding u by simp
  next
    case False
    then have "itoa_digits (n div 10) = show_nat (nat n div 10)" using 1 d by simp
    moreover have "show_nat (nat n) = show_nat (nat n div 10) @ [digit (nat n mod 10)]"
      using False by (simp add: show_nat.simps [of "nat n"])
    ultimately show ?thesis unfolding u d by simp
  qed
qed

lemma itoa_show: "0 \<le> n \<Longrightarrow> itoa n = show_int n"
proof -
  have "digit 0 = CHR ''0''" by code_simp
  then show "0 \<le> n \<Longrightarrow> itoa n = show_int n"
    by (auto simp: itoa_def show_int_def itoa_digits_show show_nat.simps [of 0])
qed

definition run_alloc :: "cron_job \<times> string \<times> int \<Rightarrow> run_ledger \<Rightarrow> (unit + string) \<times> run_ledger" where
  "run_alloc a l = (case a of (job, wk, now) \<Rightarrow> (case AppendStart job wk now l of (r, l') \<Rightarrow> (Inr (r_run r), l')))"

text \<open>\<open>next\<close> counts from 1 upwards, so \<open>itoa\<close> is the decimal rendering there.\<close>

lemma itoa_next: "1 \<le> rl_next l \<Longrightarrow> fst (nextRunID l) = ''r'' @ show_int (rl_next l)"
  by (simp add: nextRunID_def itoa_show)

section \<open>Folding is per run\<close>

definition run_of :: "cron_run list \<Rightarrow> string \<Rightarrow> cron_run" where
  "run_of rows i = foldl merge_run (blank_run i) (filter (\<lambda>r. r_run r = i) rows)"

definition first_ids :: "cron_run list \<Rightarrow> string list" where
  "first_ids rows = rev (remdups (rev (map r_run rows)))"

lemma first_ids_snoc:
  "first_ids (rows @ [r]) = (if r_run r \<in> r_run ` set rows then first_ids rows else first_ids rows @ [r_run r])"
  by (auto simp: first_ids_def)

lemma set_first_ids [simp]: "set (first_ids rows) = r_run ` set rows"
  by (simp add: first_ids_def)

lemma run_of_snoc:
  "run_of (rows @ [r]) i = (if r_run r = i then merge_run (run_of rows i) r else run_of rows i)"
  by (simp add: run_of_def)

lemma run_of_unseen: "i \<notin> r_run ` set rows \<Longrightarrow> run_of rows i = blank_run i"
proof -
  assume "i \<notin> r_run ` set rows"
  then have "filter (\<lambda>r. r_run r = i) rows = []" by (auto simp: filter_empty_conv)
  then show ?thesis by (simp add: run_of_def)
qed

lemma fold_rows:
  "foldl fold_row (Map.empty, []) rows =
     ((\<lambda>i. if i \<in> r_run ` set rows then Some (run_of rows i) else None), first_ids rows)"
proof (induction rows rule: rev_induct)
  case Nil
  show ?case by (simp add: first_ids_def fun_eq_iff)
next
  case (snoc r rows)
  have "foldl fold_row (Map.empty, []) (rows @ [r]) = fold_row (foldl fold_row (Map.empty, []) rows) r" by simp
  also have "\<dots> = ((\<lambda>i. if i \<in> r_run ` set (rows @ [r]) then Some (run_of (rows @ [r]) i) else None),
      first_ids (rows @ [r]))"
    unfolding snoc by (auto simp: fold_row_def first_ids_snoc run_of_snoc run_of_unseen fun_eq_iff)
  finally show ?case .
qed

text \<open>C38. The run history folds the ledger's lines per run: the single pass over the file gives,
  newest run first, for each run id the merge of exactly that run's lines, restricted to the
  job asked for.\<close>

theorem LatestRuns_per_run:
  "LatestRuns line_len job l =
     (let rows = ReadAll line_len l in
      rev (map (run_of rows) (filter (\<lambda>i. job = [] \<or> r_job (run_of rows i) = job) (first_ids rows))))"
proof -
  let ?rows = "ReadAll line_len l"
  let ?m = "\<lambda>i. if i \<in> r_run ` set ?rows then Some (run_of ?rows i) else None"
  have "filter (\<lambda>i. \<not> (job \<noteq> [] \<and> r_job (the (?m i)) \<noteq> job)) (first_ids ?rows) =
      filter (\<lambda>i. job = [] \<or> r_job (run_of ?rows i) = job) (first_ids ?rows)"
    by (rule filter_cong) auto
  moreover have "map (\<lambda>i. the (?m i)) (filter P (first_ids ?rows)) = map (run_of ?rows) (filter P (first_ids ?rows))" for P
    by (rule map_cong) auto
  ultimately show ?thesis
    unfolding LatestRuns_def latest_of_def fold_rows prod.case Let_def by simp
qed

section \<open>The cleaner\<close>

datatype ledger_op =
    LStart cron_job string int
  | LSkipped cron_job string int
  | LRunning string string int
  | LFinish string run_status string string int int

fun ledger_step :: "run_ledger \<Rightarrow> ledger_op \<Rightarrow> run_ledger" where
  "ledger_step l (LStart j wk now) = snd (AppendStart j wk now l)"
| "ledger_step l (LSkipped j wk now) = snd (AppendSkipped j wk now l)"
| "ledger_step l (LRunning i sid now) = Start i sid now l"
| "ledger_step l (LFinish i st err fin started now) = Finish i st err fin started now l"

definition session_rows_nameless :: "run_ledger \<Rightarrow> bool" where
  "session_rows_nameless l \<longleftrightarrow> (\<forall>r \<in> set (rl_rows l). r_session r \<noteq> [] \<longrightarrow> r_job r = [])"

lemma ledger_step_nameless [step_inv]: "session_rows_nameless l \<Longrightarrow> session_rows_nameless (ledger_step l op)"
  by (cases op)
    (auto simp: session_rows_nameless_def AppendStart_def AppendSkipped_def append_new_def nextRunID_def
      append_run_def Start_def Finish_def blank_run_def Let_def)

text \<open>The automatic clean-up never removes anything: only the line written by \<open>Start\<close> names a
  session, that line does not name the job, and \<open>cronClean\<close>, which works on single lines
  instead of folded runs, skips every line without a job.\<close>

theorem cronClean_removes_nothing:
  "cronClean line_len valid_sid (foldl ledger_step (NewLedger line_len path (Some [])) ops) now = []"
proof -
  let ?l = "foldl ledger_step (NewLedger line_len path (Some [])) ops"
  have "session_rows_nameless ?l"
    by (rule foldl_invariant) (auto simp: ledger_step_nameless, simp add: session_rows_nameless_def NewLedger_def)
  moreover have "set (ReadAll line_len ?l) \<subseteq> set (rl_rows ?l)"
    by (auto simp: ReadAll_def readable_def dest: set_takeWhileD)
  ultimately show ?thesis
    by (fastforce simp: cronClean_def CleanupCandidatesByRun_def clean_row_def session_rows_nameless_def filter_empty_conv)
qed

definition old_run_ledger :: run_ledger where
  "old_run_ledger = foldl ledger_step (NewLedger (\<lambda>_. 200) ''cron_runs.jsonl'' (Some []))
     [LStart (reminder_job 1) ''ws'' 0, LRunning ''r1'' ''s-1'' 0, LFinish ''r1'' Success [] ''done'' 0 1000000]"

text \<open>Though there is something to remove: a run that ended more than 30 days ago is listed
  with its job and its session by the history.\<close>

theorem old_run_is_not_cleaned:
  "map (\<lambda>r. (r_run r, r_job r, r_session r, r_wskey r, r_status r)) (LatestRuns (\<lambda>_. 200) ''c1'' old_run_ledger) =
     [(''r1'', ''c1'', ''s-1'', ''ws'', Success)] \<and>
   0 < cutoff (31 * 24 * hour_ns) DefaultKeepDays \<and>
   cronClean (\<lambda>_. 200) (\<lambda>_. True) old_run_ledger (31 * 24 * hour_ns) = []"
  by code_simp

text \<open>One over-long line (a run whose final answer pushes its JSON line past 64 KiB) hides
  everything recorded after it: the history no longer lists later runs, and after a restart the
  counter of run ids is computed from the lines before it only.\<close>

theorem long_line_hides_later_runs:
  assumes "maxLine < line_len r"
  shows "LatestRuns line_len job (l\<lparr>rl_rows := xs @ r # ys\<rparr>) = LatestRuns line_len job (l\<lparr>rl_rows := xs\<rparr>) \<and>
     scanNext line_len (xs @ r # ys) = scanNext line_len xs"
proof -
  have "readable line_len (xs @ r # ys) = readable line_len xs"
    using assms by (induction xs) (auto simp: readable_def)
  then show ?thesis by (simp add: LatestRuns_def ReadAll_def scanNext_def)
qed

theorem long_line_hides_later_runs_witness:
  "let line_len = (\<lambda>r. 250 + int (length (r_final r)));
       long = (blank_run ''r1'')\<lparr>r_final := replicate 70000 (CHR ''x'')\<rparr>;
       l = \<lparr>rl_file = True, rl_open = True, rl_rows = [], rl_next = 3\<rparr>
   in LatestRuns line_len [] (l\<lparr>rl_rows := [] @ long # [blank_run ''r2'']\<rparr>) =
        LatestRuns line_len [] (l\<lparr>rl_rows := []\<rparr>) \<and>
      scanNext line_len ([] @ long # [blank_run ''r2'']) = scanNext line_len []"
  unfolding Let_def by (rule long_line_hides_later_runs) (simp add: maxLine_def)

section \<open>One-shot jobs\<close>

lemma fire_job_enabled:
  "fire_job off create ws_key True now sc j =
     (let (r, l1) = AppendStart j (ws_key (j_workspace j)) now (sc_ledger sc);
          ((jb, del), s1) = Advance off (j_id j) True now (sc_store sc)
      in case create j of
           Inl err \<Rightarrow> sc\<lparr>sc_store := s1, sc_ledger := Finish (r_run r) Failed err [] now (sc_clock sc) l1\<rparr>
         | Inr sid \<Rightarrow> sc\<lparr>sc_store := (if del then fst (snd (cron_Delete (j_id j) s1)) else s1),
             sc_ledger := Start (r_run r) sid now l1\<rparr>)"
  by (auto simp: fire_job_def Let_def split: prod.splits sum.splits)

lemma Advance_get:
  assumes "cron_ok s" "cron_Get i s = Some j"
  shows "\<exists>j' del. Advance off i True now s = ((Some j', del), write_job i j' s) \<and> j_status j' = Running \<and>
     j_id j' = i \<and> j_recurring j' = j_recurring j \<and> j_count j' = wrap64 (j_count j + 1) \<and>
     (\<not> j_recurring j \<longrightarrow> del) \<and> cron_Get i (write_job i j' s) = Some j' \<and>
     cron_Get i (fst (snd (cron_Delete i (write_job i j' s)))) = None"
proof -
  obtain xs ys where j: "cs_jobs s = xs @ j # ys" "j_id j = i" "i \<notin> j_id ` set xs"
    "\<And>x. put_job i x (cs_jobs s) = xs @ x # ys"
    using cron_Get_split [OF assms(2)] by blast
  then have ys: "i \<notin> j_id ` set ys" using assms(1) by (auto simp: cron_ok_def)
  let ?j = "bump_job off now (j\<lparr>j_count := wrap64 (j_count j + 1), j_last := Some now, j_status := Running\<rparr>)"
  have jobs: "cs_jobs (write_job i ?j s) = xs @ ?j # ys" by (simp add: write_job_def j(4))
  have find: "find (\<lambda>x. j_id x = i) (xs @ x # zs) = Some x" if "j_id x = i" for x zs
    using j(3) that by (induction xs) auto
  have g: "cron_Get i (write_job i ?j s) = Some ?j"
    unfolding cron_Get_def jobs using find [of ?j ys] j(2) by simp
  have "j_id ?j = i" using j(2) by simp
  then have "?j \<notin> set xs" using j(3) by (metis image_eqI)
  then have "remove1 ?j (xs @ ?j # ys) = xs @ ys" by (simp add: remove1_append)
  then have "cs_jobs (fst (snd (cron_Delete i (write_job i ?j s)))) = xs @ ys"
    unfolding cron_Delete_def g by (simp add: jobs)
  then have "cron_Get i (fst (snd (cron_Delete i (write_job i ?j s)))) = None"
    unfolding cron_Get_def find_None_iff using j(3) ys by auto
  moreover have "j_status ?j = Running" "j_count ?j = wrap64 (j_count j + 1)" by (simp_all add: bump_job_def)
  ultimately show ?thesis
    using g assms(2) j(2) by (intro exI [of _ ?j]) (auto simp: Advance_def Let_def)
qed

text \<open>A one-shot job is removed from the store once it has started a session. When the
  session cannot be created it stays, counted and marked as running for good, and will fire
  again at the next match of its expression.\<close>

theorem one_shot_after_firing:
  assumes "cron_ok (sc_store sc)" and "cron_Get (j_id j) (sc_store sc) = Some j" and "\<not> j_recurring j"
  shows "case create j of
     Inr sid \<Rightarrow> cron_Get (j_id j) (sc_store (fire_job off create ws_key True now sc j)) = None
   | Inl err \<Rightarrow> \<exists>j'. cron_Get (j_id j) (sc_store (fire_job off create ws_key True now sc j)) = Some j' \<and>
       j_status j' = Running \<and> j_count j' = wrap64 (j_count j + 1)"
proof -
  obtain r l1 where a: "AppendStart j (ws_key (j_workspace j)) now (sc_ledger sc) = (r, l1)" by fastforce
  obtain j' where b: "Advance off (j_id j) True now (sc_store sc) = ((Some j', True), write_job (j_id j) j' (sc_store sc))"
    "j_status j' = Running" "j_count j' = wrap64 (j_count j + 1)"
    "cron_Get (j_id j) (write_job (j_id j) j' (sc_store sc)) = Some j'"
    "cron_Get (j_id j) (fst (snd (cron_Delete (j_id j) (write_job (j_id j) j' (sc_store sc))))) = None"
    using Advance_get [OF assms(1,2), of off now] assms(3) by auto
  show ?thesis using b(2-5) by (simp add: fire_job_enabled a b(1) split: sum.splits)
qed

theorem one_shot_after_firing_witness:
  "\<exists>j'. cron_Get ''c1'' (sc_store (fire_job (\<lambda>_. 0) (\<lambda>_. Inl ''no space'') id True 1704531600000000000
      \<lparr>sc_store = one_reminder, sc_ledger = NewLedger (\<lambda>_. 0) [] None, sc_clock = 0\<rparr> (reminder_job 1))) = Some j' \<and>
    j_status j' = Running \<and> j_count j' = 1"
proof -
  have "cron_Get (j_id (reminder_job 1)) one_reminder = Some (reminder_job 1)"
    by (simp add: one_reminder_def cron_Get_def)
  moreover have "\<not> j_recurring (reminder_job 1)" "j_count (reminder_job 1) = 0" by (simp_all add: reminder_job_def)
  ultimately show ?thesis
    using one_shot_after_firing [where j = "reminder_job 1" and create = "\<lambda>_. Inl ''no space''" and off = "\<lambda>_. 0"
        and ws_key = id and now = 1704531600000000000
        and sc = "\<lparr>sc_store = one_reminder, sc_ledger = NewLedger (\<lambda>_. 0) [] None, sc_clock = 0\<rparr>"] one_reminder_ok
    by (simp add: reminder_ids wrap64_def)
qed


interpretation run_ids: id_allocator "''r''" "\<lambda>l. r_run ` set (rl_rows l)" rl_next run_alloc
proof unfold_locales
  fix a l i l'
  assume n: "1 \<le> rl_next l" and r: "run_alloc a l = (Inr i, l' :: run_ledger)"
  obtain job wk now where a: "a = (job, wk, now)" by (cases a) auto
  have "i = ''r'' @ itoa (rl_next l)" "rl_rows l' \<in> {rl_rows l, rl_rows l @ [fst (AppendStart job wk now l)]}"
    "r_run (fst (AppendStart job wk now l)) = i" "rl_next l' = wrap64 (rl_next l + 1)"
    using r by (auto simp: a run_alloc_def AppendStart_def append_new_def nextRunID_def append_run_def
        blank_run_def Let_def)
  then show "i = ''r'' @ show_int (rl_next l) \<and> r_run ` set (rl_rows l') \<subseteq> insert i (r_run ` set (rl_rows l)) \<and>
      rl_next l' = wrap64 (rl_next l + 1)"
    using n by (auto simp: itoa_show)
qed (auto simp: is_digit_def run_alloc_def split: prod.splits)

text \<open>When every line of the file can be read, the runs started after a restart get ids that
  are distinct and not used in the file.\<close>

theorem run_ids_never_reused:
  assumes "path \<noteq> []" and "\<forall>r \<in> set rows. line_len r \<le> maxLine" and "\<forall>r \<in> set rows. idNum (r_run r) < 2 ^ 63 - 1"
    and "scanNext line_len rows + int (length starts) < 2 ^ 63"
  shows "distinct (run_ids.handed starts (NewLedger line_len path (Some rows))) \<and>
     set (run_ids.handed starts (NewLedger line_len path (Some rows))) \<inter> r_run ` set rows = {}"
proof -
  have r: "readable line_len rows = rows" using assms(2) by (simp add: readable_def takeWhile_eq_all_conv)
  have "run_ids.fresh (NewLedger line_len path (Some rows))"
    using restored_next_fresh [of "map r_run rows"] assms(1,3)
    by (auto simp: run_ids.fresh_def counts_past_def NewLedger_def scanNext_def r)
  with run_ids.handed_numbers [of "NewLedger line_len path (Some rows)" starts] assms(1,4)
  show ?thesis by (auto simp: NewLedger_def)
qed

theorem run_ids_never_reused_witness:
  "let l = NewLedger (\<lambda>_. 200) ''runs'' (Some [blank_run ''r4'']);
       ids = run_ids.handed [(reminder_job 1, [], 0), (reminder_job 1, [], 60)] l
   in distinct ids \<and> set ids \<inter> {''r4''} = {} \<and> length ids = 2"
proof -
  have n: "idNum ''r4'' = 4" "restored_next [''r4''] = 5" by code_simp+
  have "length (run_ids.handed [(reminder_job 1, [], 0), (reminder_job 1, [], 60)] l) = 2" for l
    by (simp add: run_alloc_def split: prod.splits)
  with run_ids_never_reused [of "''runs''" "[blank_run ''r4'']" "\<lambda>_. 200" "[(reminder_job 1, [], 0), (reminder_job 1, [], 60)]"]
  show ?thesis by (simp add: Let_def maxLine_def scanNext_def readable_def n blank_run_def)
qed

end
