(* ===== verification/Literals.thy ===== *)
theory Literals
  imports Main
begin

text \<open>
  String literals of the source that are not ASCII, as their UTF-8 bytes. Each carries an
  English gloss.
\<close>

named_theorems literal_defs \<open>the non-ASCII literals\<close>

definition lit_interrupted :: string where  \<comment> \<open>interrupted\<close>
  [literal_defs]: "lit_interrupted =
      [CHR 0xE5, CHR 0xB7, CHR 0xB2, CHR 0xE4, CHR 0xB8, CHR 0xAD, CHR 0xE6, CHR 0x96, CHR 0xAD]"

definition lit_failed :: string where  \<comment> \<open>failed\<close>
  [literal_defs]: "lit_failed =
      [CHR 0xE5, CHR 0xA4, CHR 0xB1, CHR 0xE8, CHR 0xB4, CHR 0xA5]"

definition lit_abandoned :: string where  \<comment> \<open>abandoned\<close>
  [literal_defs]: "lit_abandoned =
      [CHR 0xE5, CHR 0xB7, CHR 0xB2, CHR 0xE5, CHR 0xBC, CHR 0x83, CHR 0xE7, CHR 0xBD, CHR 0xAE]"

definition lit_completed :: string where  \<comment> \<open>completed\<close>
  [literal_defs]: "lit_completed =
      [CHR 0xE5, CHR 0xAE, CHR 0x8C, CHR 0xE6, CHR 0x88, CHR 0x90]"

definition lit_no_final :: string where  \<comment> \<open>the task was interrupted as requested and left no final result\<close>
  [literal_defs]: "lit_no_final =
      [CHR 0xE4, CHR 0xBB, CHR 0xBB, CHR 0xE5, CHR 0x8A, CHR 0xA1, CHR 0xE5, CHR 0xB7,
      CHR 0xB2, CHR 0xE6, CHR 0x8C, CHR 0x89, CHR 0xE8, CHR 0xAF, CHR 0xB7, CHR 0xE6,
      CHR 0xB1, CHR 0x82, CHR 0xE4, CHR 0xB8, CHR 0xAD, CHR 0xE6, CHR 0x96, CHR 0xAD,
      CHR 0xEF, CHR 0xBC, CHR 0x8C, CHR 0xE6, CHR 0x9C, CHR 0xAA, CHR 0xE4, CHR 0xBA,
      CHR 0xA7, CHR 0xE7, CHR 0x94, CHR 0x9F, CHR 0xE6, CHR 0x9C, CHR 0x80, CHR 0xE7,
      CHR 0xBB, CHR 0x88, CHR 0xE7, CHR 0xBB, CHR 0x93, CHR 0xE6, CHR 0x9E, CHR 0x9C,
      CHR 0xE3, CHR 0x80, CHR 0x82]"

definition lit_no_result :: string where  \<comment> \<open>the task returned no result\<close>
  [literal_defs]: "lit_no_result =
      [CHR 0xE4, CHR 0xBB, CHR 0xBB, CHR 0xE5, CHR 0x8A, CHR 0xA1, CHR 0xE6, CHR 0x9C,
      CHR 0xAA, CHR 0xE8, CHR 0xBF, CHR 0x94, CHR 0xE5, CHR 0x9B, CHR 0x9E, CHR 0xE7,
      CHR 0xBB, CHR 0x93, CHR 0xE6, CHR 0x9E, CHR 0x9C, CHR 0xE3, CHR 0x80, CHR 0x82]"

definition lit_task_open :: string where  \<comment> \<open>opening bracket, background task\<close>
  [literal_defs]: "lit_task_open =
      [CHR 0xE3, CHR 0x80, CHR 0x94, CHR 0xE5, CHR 0x90, CHR 0x8E, CHR 0xE5, CHR 0x8F,
      CHR 0xB0, CHR 0xE4, CHR 0xBB, CHR 0xBB, CHR 0xE5, CHR 0x8A, CHR 0xA1] @ '' ''"

definition lit_task_close :: string where  \<comment> \<open>closing bracket\<close>
  [literal_defs]: "lit_task_close =
      [CHR 0xE3, CHR 0x80, CHR 0x95]"

definition lit_paren_open :: string where  \<comment> \<open>full-width opening parenthesis\<close>
  [literal_defs]: "lit_paren_open =
      [CHR 0xEF, CHR 0xBC, CHR 0x88]"

definition lit_paren_close :: string where  \<comment> \<open>full-width closing parenthesis\<close>
  [literal_defs]: "lit_paren_close =
      [CHR 0xEF, CHR 0xBC, CHR 0x89]"

definition lit_tail_interrupted :: string where  \<comment> \<open>the task did not finish: not a success\<close>
  [literal_defs]: "lit_tail_interrupted =
      [CHR 0x0A, CHR 0x0A, CHR 0xE2, CHR 0x80, CHR 0x94, CHR 0xE2, CHR 0x80, CHR 0x94] @ '' '' @
      [CHR 0xE8, CHR 0xAF, CHR 0xA5, CHR 0xE4, CHR 0xBB, CHR 0xBB, CHR 0xE5, CHR 0x8A,
      CHR 0xA1, CHR 0xE6, CHR 0x9C, CHR 0xAA, CHR 0xE5, CHR 0xAE, CHR 0x8C, CHR 0xE6,
      CHR 0x88, CHR 0x90, CHR 0xEF, CHR 0xBC, CHR 0x8C, CHR 0xE4, CHR 0xB8, CHR 0x8D,
      CHR 0xE8, CHR 0xA6, CHR 0x81, CHR 0xE5, CHR 0xB0, CHR 0x86, CHR 0xE5, CHR 0x85,
      CHR 0xB6, CHR 0xE8, CHR 0xA7, CHR 0x86, CHR 0xE4, CHR 0xB8, CHR 0xBA, CHR 0xE6,
      CHR 0x88, CHR 0x90, CHR 0xE5, CHR 0x8A, CHR 0x9F, CHR 0xE7, CHR 0xBB, CHR 0x93,
      CHR 0xE6, CHR 0x9E, CHR 0x9C, CHR 0xEF, CHR 0xBC, CHR 0x9B, CHR 0xE6, CHR 0x8C,
      CHR 0x89, CHR 0xE5, CHR 0xBD, CHR 0x93, CHR 0xE5, CHR 0x89, CHR 0x8D, CHR 0xE7,
      CHR 0x94, CHR 0xA8, CHR 0xE6, CHR 0x88, CHR 0xB7, CHR 0xE6, CHR 0x84, CHR 0x8F,
      CHR 0xE5, CHR 0x9B, CHR 0xBE, CHR 0xE7, CHR 0xBB, CHR 0xA7, CHR 0xE7, CHR 0xBB,
      CHR 0xAD, CHR 0xE3, CHR 0x80, CHR 0x82]"

definition lit_tail_done :: string where  \<comment> \<open>background result: continue the current work\<close>
  [literal_defs]: "lit_tail_done =
      [CHR 0x0A, CHR 0x0A, CHR 0xE2, CHR 0x80, CHR 0x94, CHR 0xE2, CHR 0x80, CHR 0x94] @ '' '' @
      [CHR 0xE5, CHR 0x90, CHR 0x8E, CHR 0xE5, CHR 0x8F, CHR 0xB0, CHR 0xE4, CHR 0xBB,
      CHR 0xBB, CHR 0xE5, CHR 0x8A, CHR 0xA1, CHR 0xE7, CHR 0xBB, CHR 0x93, CHR 0xE6,
      CHR 0x9E, CHR 0x9C, CHR 0xEF, CHR 0xBC, CHR 0x8C, CHR 0xE6, CHR 0x8D, CHR 0xAE,
      CHR 0xE6, CHR 0xAD, CHR 0xA4, CHR 0xE7, CHR 0xBB, CHR 0xA7, CHR 0xE7, CHR 0xBB,
      CHR 0xAD, CHR 0xE5, CHR 0xBD, CHR 0x93, CHR 0xE5, CHR 0x89, CHR 0x8D, CHR 0xE5,
      CHR 0xB7, CHR 0xA5, CHR 0xE4, CHR 0xBD, CHR 0x9C, CHR 0xE3, CHR 0x80, CHR 0x82]"

definition lit_merged_open :: string where  \<comment> \<open>[slim: merged\<close>
  [literal_defs]: "lit_merged_open =
      [CHR 0x0A] @ ''[slim: '' @
      [CHR 0xE5, CHR 0xB7, CHR 0xB2, CHR 0xE5, CHR 0x90, CHR 0x88, CHR 0xE5, CHR 0xB9,
      CHR 0xB6] @ '' ''"

definition lit_merged_close :: string where  \<comment> \<open>repeated tool calls, the earliest is kept]\<close>
  [literal_defs]: "lit_merged_close =
      '' '' @ [CHR 0xE6, CHR 0xAC, CHR 0xA1, CHR 0xE9, CHR 0x87, CHR 0x8D, CHR 0xE5, CHR 0xA4,
      CHR 0x8D, CHR 0xE5, CHR 0xB7, CHR 0xA5, CHR 0xE5, CHR 0x85, CHR 0xB7, CHR 0xE8,
      CHR 0xB0, CHR 0x83, CHR 0xE7, CHR 0x94, CHR 0xA8, CHR 0xEF, CHR 0xBC, CHR 0x88,
      CHR 0xE5, CHR 0x90, CHR 0x8C, CHR 0xE5, CHR 0x8F, CHR 0x82, CHR 0xE6, CHR 0x95,
      CHR 0xB0, CHR 0xE5, CHR 0x90, CHR 0x8C, CHR 0xE7, CHR 0xBB, CHR 0x93, CHR 0xE6,
      CHR 0x9E, CHR 0x9C, CHR 0xEF, CHR 0xBC, CHR 0x8C, CHR 0xE4, CHR 0xBF, CHR 0x9D,
      CHR 0xE7, CHR 0x95, CHR 0x99, CHR 0xE6, CHR 0x9C, CHR 0x80, CHR 0xE6, CHR 0x97,
      CHR 0xA9, CHR 0xE4, CHR 0xB8, CHR 0x80, CHR 0xE6, CHR 0xAC, CHR 0xA1, CHR 0xEF,
      CHR 0xBC, CHR 0x89] @ '']''"

definition lit_dedup_open :: string where  \<comment> \<open>the content equals message #\<close>
  [literal_defs]: "lit_dedup_open =
      [CHR 0xE5, CHR 0x86, CHR 0x85, CHR 0xE5, CHR 0xAE, CHR 0xB9, CHR 0xE4, CHR 0xB8,
      CHR 0x8E, CHR 0xE6, CHR 0xB6, CHR 0x88, CHR 0xE6, CHR 0x81, CHR 0xAF] @ '' #''"

definition lit_dedup_close :: string where  \<comment> \<open>deduplicated]\<close>
  [literal_defs]: "lit_dedup_close =
      '' '' @ [CHR 0xE7, CHR 0x9B, CHR 0xB8, CHR 0xE5, CHR 0x90, CHR 0x8C, CHR 0xEF, CHR 0xBC,
      CHR 0x8C, CHR 0xE5, CHR 0xB7, CHR 0xB2, CHR 0xE5, CHR 0x8E, CHR 0xBB, CHR 0xE9,
      CHR 0x87, CHR 0x8D] @ '']''"

definition lit_stale_open :: string where  \<comment> \<open>old tool result replaced (older than\<close>
  [literal_defs]: "lit_stale_open =
      [CHR 0xE6, CHR 0x97, CHR 0xA7, CHR 0xE5, CHR 0xB7, CHR 0xA5, CHR 0xE5, CHR 0x85,
      CHR 0xB7, CHR 0xE7, CHR 0xBB, CHR 0x93, CHR 0xE6, CHR 0x9E, CHR 0x9C, CHR 0xE5,
      CHR 0xB7, CHR 0xB2, CHR 0xE5, CHR 0x8D, CHR 0xA0, CHR 0xE4, CHR 0xBD, CHR 0x8D,
      CHR 0xEF, CHR 0xBC, CHR 0x88, CHR 0xE8, CHR 0xB6, CHR 0x85, CHR 0xE8, CHR 0xBF, CHR 0x87] @
      '' ''"

definition lit_stale_close :: string where  \<comment> \<open>rounds); ask to run the tool again]\<close>
  [literal_defs]: "lit_stale_close =
      '' '' @ [CHR 0xE8, CHR 0xBD, CHR 0xAE, CHR 0xEF, CHR 0xBC, CHR 0x89, CHR 0xEF, CHR 0xBC,
      CHR 0x8C, CHR 0xE5, CHR 0x8F, CHR 0xAF, CHR 0xE8, CHR 0xA6, CHR 0x81, CHR 0xE6,
      CHR 0xB1, CHR 0x82, CHR 0xE9, CHR 0x87, CHR 0x8D, CHR 0xE6, CHR 0x96, CHR 0xB0,
      CHR 0xE6, CHR 0x89, CHR 0xA7, CHR 0xE8, CHR 0xA1, CHR 0x8C, CHR 0xE5, CHR 0xB7,
      CHR 0xA5, CHR 0xE5, CHR 0x85, CHR 0xB7, CHR 0xE8, CHR 0x8E, CHR 0xB7, CHR 0xE5,
      CHR 0x8F, CHR 0x96, CHR 0xE6, CHR 0x9C, CHR 0x80, CHR 0xE6, CHR 0x96, CHR 0xB0,
      CHR 0xE5, CHR 0x86, CHR 0x85, CHR 0xE5, CHR 0xAE, CHR 0xB9] @ '']''"

definition lit_spill_open :: string where  \<comment> \<open>[the full output is written to\<close>
  [literal_defs]: "lit_spill_open =
      ''['' @ [CHR 0xE5, CHR 0xAE, CHR 0x8C, CHR 0xE6, CHR 0x95, CHR 0xB4, CHR 0xE8, CHR 0xBE,
      CHR 0x93, CHR 0xE5, CHR 0x87, CHR 0xBA, CHR 0xE5, CHR 0xB7, CHR 0xB2, CHR 0xE5,
      CHR 0x86, CHR 0x99] @ '' ''"

definition lit_spill_close :: string where  \<comment> \<open>the first 2048 bytes follow]\<close>
  [literal_defs]: "lit_spill_close =
      [CHR 0xEF, CHR 0xBC, CHR 0x8C, CHR 0xE4, CHR 0xBB, CHR 0xA5, CHR 0xE4, CHR 0xB8,
      CHR 0x8B, CHR 0xE4, CHR 0xB8, CHR 0xBA, CHR 0xE5, CHR 0x89, CHR 0x8D] @ '' 2048 '' @
      [CHR 0xE5, CHR 0xAD, CHR 0x97, CHR 0xE8, CHR 0x8A, CHR 0x82, CHR 0xE9, CHR 0xA2,
      CHR 0x84, CHR 0xE8, CHR 0xA7, CHR 0x88] @ '']'' @ [CHR 0x0A]"

definition lit_ledger_head :: string where  \<comment> \<open>heading of the file ledger\<close>
  [literal_defs]: "lit_ledger_head =
      ''[FileLedger] (files touched this run '' @ [CHR 0xE2, CHR 0x80, CHR 0x94] @
      '' engine-tracked from tool call arguments; last op per path; read ranges from read_file args)'' @
      [CHR 0x0A]"

definition lit_failures_head :: string where  \<comment> \<open>heading of the recent failures\<close>
  [literal_defs]: "lit_failures_head =
      ''[RecentFailures] (recent failing tool calls this run '' @
      [CHR 0xE2, CHR 0x80, CHR 0x94] @
      '' engine-tracked; do not repeat one unchanged. Change state or arguments first)'' @
      [CHR 0x0A]"

definition lit_repeated_fix :: string where  \<comment> \<open>advice of a blocked repetition\<close>
  [literal_defs]: "lit_repeated_fix =
      ''this exact call failed in the previous tool round and nothing changed since '' @
      [CHR 0xE2, CHR 0x80, CHR 0x94] @
      '' repeating it unchanged will fail the same way; its error output is still in context''"

definition lit_file_missing :: string where  \<comment> \<open>file does not exist\<close>
  [literal_defs]: "lit_file_missing =
      [CHR 0xE6, CHR 0x96, CHR 0x87, CHR 0xE4, CHR 0xBB, CHR 0xB6, CHR 0xE4, CHR 0xB8,
      CHR 0x8D, CHR 0xE5, CHR 0xAD, CHR 0x98, CHR 0xE5, CHR 0x9C, CHR 0xA8]"

definition lit_rerun_bash :: string where  \<comment> \<open>the same command was run again; its output equals message #\<close>
  [literal_defs]: "lit_rerun_bash =
      [CHR 0xE5, CHR 0x90, CHR 0x8C, CHR 0xE4, CHR 0xB8, CHR 0x80, CHR 0xE5, CHR 0x91,
      CHR 0xBD, CHR 0xE4, CHR 0xBB, CHR 0xA4, CHR 0xE9, CHR 0x87, CHR 0x8D, CHR 0xE5,
      CHR 0xA4, CHR 0x8D, CHR 0xE6, CHR 0x89, CHR 0xA7, CHR 0xE8, CHR 0xA1, CHR 0x8C,
      CHR 0xEF, CHR 0xBC, CHR 0x8C, CHR 0xE8, CHR 0xBE, CHR 0x93, CHR 0xE5, CHR 0x87,
      CHR 0xBA, CHR 0xE4, CHR 0xB8, CHR 0x8E, CHR 0xE6, CHR 0xB6, CHR 0x88, CHR 0xE6,
      CHR 0x81, CHR 0xAF] @ '' #''"

definition lit_rerun_search :: string where  \<comment> \<open>the same search was run again; its result equals message #\<close>
  [literal_defs]: "lit_rerun_search =
      [CHR 0xE5, CHR 0x90, CHR 0x8C, CHR 0xE4, CHR 0xB8, CHR 0x80, CHR 0xE6, CHR 0x90,
      CHR 0x9C, CHR 0xE7, CHR 0xB4, CHR 0xA2, CHR 0xE9, CHR 0x87, CHR 0x8D, CHR 0xE5,
      CHR 0xA4, CHR 0x8D, CHR 0xE6, CHR 0x89, CHR 0xA7, CHR 0xE8, CHR 0xA1, CHR 0x8C,
      CHR 0xEF, CHR 0xBC, CHR 0x8C, CHR 0xE7, CHR 0xBB, CHR 0x93, CHR 0xE6, CHR 0x9E,
      CHR 0x9C, CHR 0xE4, CHR 0xB8, CHR 0x8E, CHR 0xE6, CHR 0xB6, CHR 0x88, CHR 0xE6,
      CHR 0x81, CHR 0xAF] @ '' #''"

definition lit_rerun_close :: string where  \<comment> \<open>byte for byte]\<close>
  [literal_defs]: "lit_rerun_close =
      '' '' @ [CHR 0xE9, CHR 0x80, CHR 0x90, CHR 0xE5, CHR 0xAD, CHR 0x97, CHR 0xE7, CHR 0x9B,
      CHR 0xB8, CHR 0xE5, CHR 0x90, CHR 0x8C] @ '']''"

definition lit_fold_old :: string where  \<comment> \<open>the old result of ... is folded\<close>
  [literal_defs]: "lit_fold_old =
      '' '' @ [CHR 0xE7, CHR 0x9A, CHR 0x84, CHR 0xE6, CHR 0x97, CHR 0xA7, CHR 0xE7, CHR 0xBB,
      CHR 0x93, CHR 0xE6, CHR 0x9E, CHR 0x9C, CHR 0xE5, CHR 0xB7, CHR 0xB2, CHR 0xE6,
      CHR 0x8A, CHR 0x98, CHR 0xE5, CHR 0x8F, CHR 0xA0]"

definition lit_fold_edited :: string where  \<comment> \<open>: this session has since edited the file\<close>
  [literal_defs]: "lit_fold_edited =
      [CHR 0xEF, CHR 0xBC, CHR 0x9A, CHR 0xE8, CHR 0xAF, CHR 0xA5, CHR 0xE6, CHR 0x96,
      CHR 0x87, CHR 0xE4, CHR 0xBB, CHR 0xB6, CHR 0xE6, CHR 0xAD, CHR 0xA4, CHR 0xE5,
      CHR 0x90, CHR 0x8E, CHR 0xE8, CHR 0xA2, CHR 0xAB, CHR 0xE6, CHR 0x9C, CHR 0xAC,
      CHR 0xE4, CHR 0xBC, CHR 0x9A, CHR 0xE8, CHR 0xAF, CHR 0x9D, CHR 0xE7, CHR 0xBC,
      CHR 0x96, CHR 0xE8, CHR 0xBE, CHR 0x91] @ '' ''"

definition lit_fold_times :: string where  \<comment> \<open>times\<close>
  [literal_defs]: "lit_fold_times =
      '' '' @ [CHR 0xE6, CHR 0xAC, CHR 0xA1]"

definition lit_fold_plus :: string where  \<comment> \<open>(+\<close>
  [literal_defs]: "lit_fold_plus =
      [CHR 0xEF, CHR 0xBC, CHR 0x88] @ ''+''"

definition lit_fold_lines :: string where  \<comment> \<open>lines)\<close>
  [literal_defs]: "lit_fold_lines =
      '' '' @ [CHR 0xE8, CHR 0xA1, CHR 0x8C, CHR 0xEF, CHR 0xBC, CHR 0x89]"

definition lit_fold_and_covered :: string where  \<comment> \<open>, and the newest read covers this range\<close>
  [literal_defs]: "lit_fold_and_covered =
      [CHR 0xEF, CHR 0xBC, CHR 0x8C, CHR 0xE4, CHR 0xB8, CHR 0x94, CHR 0xE6, CHR 0x9C,
      CHR 0x80, CHR 0xE6, CHR 0x96, CHR 0xB0, CHR 0xE8, CHR 0xAF, CHR 0xBB, CHR 0xE5,
      CHR 0x8F, CHR 0x96, CHR 0xE5, CHR 0xB7, CHR 0xB2, CHR 0xE8, CHR 0xA6, CHR 0x86,
      CHR 0xE7, CHR 0x9B, CHR 0x96, CHR 0xE6, CHR 0x9C, CHR 0xAC, CHR 0xE5, CHR 0x8C,
      CHR 0xBA, CHR 0xE9, CHR 0x97, CHR 0xB4]"

definition lit_fold_covered :: string where  \<comment> \<open>: the newest read covers this range\<close>
  [literal_defs]: "lit_fold_covered =
      [CHR 0xEF, CHR 0xBC, CHR 0x9A, CHR 0xE6, CHR 0x9C, CHR 0x80, CHR 0xE6, CHR 0x96,
      CHR 0xB0, CHR 0xE8, CHR 0xAF, CHR 0xBB, CHR 0xE5, CHR 0x8F, CHR 0x96, CHR 0xE5,
      CHR 0xB7, CHR 0xB2, CHR 0xE8, CHR 0xA6, CHR 0x86, CHR 0xE7, CHR 0x9B, CHR 0x96,
      CHR 0xE6, CHR 0x9C, CHR 0xAC, CHR 0xE5, CHR 0x8C, CHR 0xBA, CHR 0xE9, CHR 0x97, CHR 0xB4]"

definition lit_fold_need :: string where  \<comment> \<open>. If the content is needed use read_file\<close>
  [literal_defs]: "lit_fold_need =
      [CHR 0xE3, CHR 0x80, CHR 0x82, CHR 0xE9, CHR 0x9C, CHR 0x80, CHR 0xE8, CHR 0xA6,
      CHR 0x81, CHR 0xE5, CHR 0x86, CHR 0x85, CHR 0xE5, CHR 0xAE, CHR 0xB9, CHR 0xE7,
      CHR 0x94, CHR 0xA8] @ '' read_file ''"

definition lit_fold_refetch :: string where  \<comment> \<open>(with start_line/end_line) again, or see message #\<close>
  [literal_defs]: "lit_fold_refetch =
      [CHR 0xEF, CHR 0xBC, CHR 0x88, CHR 0xE5, CHR 0x8F, CHR 0xAF, CHR 0xE5, CHR 0xB8,
      CHR 0xA6] @ '' start_line/end_line'' @
      [CHR 0xEF, CHR 0xBC, CHR 0x89, CHR 0xE9, CHR 0x87, CHR 0x8D, CHR 0xE5, CHR 0x8F,
      CHR 0x96, CHR 0xEF, CHR 0xBC, CHR 0x8C, CHR 0xE6, CHR 0x88, CHR 0x96, CHR 0xE7,
      CHR 0x9B, CHR 0xB4, CHR 0xE6, CHR 0x8E, CHR 0xA5, CHR 0xE7, CHR 0x9C, CHR 0x8B,
      CHR 0xE6, CHR 0xB6, CHR 0x88, CHR 0xE6, CHR 0x81, CHR 0xAF] @ '' #''"

definition lit_same_line :: string where  \<comment> \<open>[the same line repeats\<close>
  [literal_defs]: "lit_same_line =
      ''['' @ [CHR 0xE5, CHR 0x90, CHR 0x8C, CHR 0xE4, CHR 0xB8, CHR 0x80, CHR 0xE8, CHR 0xA1,
      CHR 0x8C, CHR 0xE9, CHR 0x87, CHR 0x8D, CHR 0xE5, CHR 0xA4, CHR 0x8D] @ '' ''"

definition lit_same_line_close :: string where  \<comment> \<open>times, folded]\<close>
  [literal_defs]: "lit_same_line_close =
      '' '' @ [CHR 0xE6, CHR 0xAC, CHR 0xA1, CHR 0xEF, CHR 0xBC, CHR 0x8C, CHR 0xE5, CHR 0xB7,
      CHR 0xB2, CHR 0xE6, CHR 0x8A, CHR 0x98, CHR 0xE5, CHR 0x8F, CHR 0xA0] @ '']''"

definition lit_rest_of_file :: string where  \<comment> \<open>[the other\<close>
  [literal_defs]: "lit_rest_of_file =
      ''['' @ [CHR 0xE6, CHR 0x9C, CHR 0xAC, CHR 0xE6, CHR 0x96, CHR 0x87, CHR 0xE4, CHR 0xBB,
      CHR 0xB6, CHR 0xE5, CHR 0x85, CHR 0xB6, CHR 0xE4, CHR 0xBD, CHR 0x99] @ '' ''"

definition lit_rest_of_file_close :: string where  \<comment> \<open>matches of this file are folded: narrow the grep]\<close>
  [literal_defs]: "lit_rest_of_file_close =
      '' '' @ [CHR 0xE8, CHR 0xA1, CHR 0x8C, CHR 0xE5, CHR 0x91, CHR 0xBD, CHR 0xE4, CHR 0xB8,
      CHR 0xAD, CHR 0xE5, CHR 0xB7, CHR 0xB2, CHR 0xE6, CHR 0x8A, CHR 0x98, CHR 0xE5,
      CHR 0x8F, CHR 0xA0, CHR 0xEF, CHR 0xBC, CHR 0x9A, CHR 0xE7, CHR 0x94, CHR 0xA8] @
      '' grep '' @ [CHR 0xE6, CHR 0x94, CHR 0xB6, CHR 0xE7, CHR 0xAA, CHR 0x84] @ '' pattern '' @
      [CHR 0xE6, CHR 0x88, CHR 0x96, CHR 0xE7, CHR 0xBC, CHR 0xA9, CHR 0xE5, CHR 0xB0,
      CHR 0x8F] @ '' path '' @
      [CHR 0xE7, CHR 0xB2, CHR 0xBE, CHR 0xE7, CHR 0xA1, CHR 0xAE, CHR 0xE5, CHR 0x8F,
      CHR 0x96, CHR 0xE5, CHR 0x9B, CHR 0x9E] @ '']''"

definition lit_first_chunk_plain :: string where  \<comment> \<open>first chunk timeout: no stream event within the budget\<close>
  [literal_defs]: "lit_first_chunk_plain =
      [CHR 0xE9, CHR 0xA6, CHR 0x96, CHR 0xE5, CHR 0xAD, CHR 0x97, CHR 0xE8, CHR 0xB6,
      CHR 0x85, CHR 0xE6, CHR 0x97, CHR 0xB6, CHR 0xEF, CHR 0xBC, CHR 0x9A, CHR 0xE8,
      CHR 0xAF, CHR 0xB7, CHR 0xE6, CHR 0xB1, CHR 0x82, CHR 0xE5, CHR 0x8F, CHR 0x91,
      CHR 0xE5, CHR 0x87, CHR 0xBA, CHR 0xE5, CHR 0x90, CHR 0x8E, CHR 0xE6, CHR 0x9C,
      CHR 0xAA, CHR 0xE5, CHR 0x9C, CHR 0xA8, CHR 0xE9, CHR 0xA2, CHR 0x84, CHR 0xE7,
      CHR 0xAE, CHR 0x97, CHR 0xE5, CHR 0x86, CHR 0x85, CHR 0xE6, CHR 0x94, CHR 0xB6,
      CHR 0xE5, CHR 0x88, CHR 0xB0, CHR 0xE6, CHR 0xA8, CHR 0xA1, CHR 0xE5, CHR 0x9E,
      CHR 0x8B, CHR 0xE9, CHR 0xA6, CHR 0x96, CHR 0xE4, CHR 0xB8, CHR 0xAA, CHR 0xE6,
      CHR 0xB5, CHR 0x81, CHR 0xE4, CHR 0xBA, CHR 0x8B, CHR 0xE4, CHR 0xBB, CHR 0xB6,
      CHR 0xEF, CHR 0xBC, CHR 0x88, CHR 0xE4, CHR 0xB8, CHR 0x8A, CHR 0xE6, CHR 0xB8,
      CHR 0xB8, CHR 0xE6, CHR 0x97, CHR 0xA0, CHR 0xE5, CHR 0x93, CHR 0x8D, CHR 0xE5,
      CHR 0xBA, CHR 0x94, CHR 0xEF, CHR 0xBC, CHR 0x89]"

definition lit_first_chunk_open :: string where  \<comment> \<open>first chunk timeout: after the request\<close>
  [literal_defs]: "lit_first_chunk_open =
      [CHR 0xE9, CHR 0xA6, CHR 0x96, CHR 0xE5, CHR 0xAD, CHR 0x97, CHR 0xE8, CHR 0xB6,
      CHR 0x85, CHR 0xE6, CHR 0x97, CHR 0xB6, CHR 0xEF, CHR 0xBC, CHR 0x9A, CHR 0xE8,
      CHR 0xAF, CHR 0xB7, CHR 0xE6, CHR 0xB1, CHR 0x82, CHR 0xE5, CHR 0x8F, CHR 0x91,
      CHR 0xE5, CHR 0x87, CHR 0xBA, CHR 0xE5, CHR 0x90, CHR 0x8E] @ '' ''"

definition lit_first_chunk_close :: string where  \<comment> \<open>no stream event was received, this attempt ends\<close>
  [literal_defs]: "lit_first_chunk_close =
      '' '' @ [CHR 0xE5, CHR 0x86, CHR 0x85, CHR 0xE6, CHR 0x9C, CHR 0xAA, CHR 0xE6, CHR 0x94,
      CHR 0xB6, CHR 0xE5, CHR 0x88, CHR 0xB0, CHR 0xE6, CHR 0xA8, CHR 0xA1, CHR 0xE5,
      CHR 0x9E, CHR 0x8B, CHR 0xE9, CHR 0xA6, CHR 0x96, CHR 0xE4, CHR 0xB8, CHR 0xAA,
      CHR 0xE6, CHR 0xB5, CHR 0x81, CHR 0xE4, CHR 0xBA, CHR 0x8B, CHR 0xE4, CHR 0xBB,
      CHR 0xB6, CHR 0xEF, CHR 0xBC, CHR 0x88, CHR 0xE4, CHR 0xB8, CHR 0x8A, CHR 0xE6,
      CHR 0xB8, CHR 0xB8, CHR 0xE7, CHR 0xBD, CHR 0x91, CHR 0xE5, CHR 0x85, CHR 0xB3,
      CHR 0xE6, CHR 0x8E, CHR 0x92, CHR 0xE9, CHR 0x98, CHR 0x9F, CHR 0xE6, CHR 0x88,
      CHR 0x96, CHR 0xE6, CHR 0x97, CHR 0xA0, CHR 0xE5, CHR 0x93, CHR 0x8D, CHR 0xE5,
      CHR 0xBA, CHR 0x94, CHR 0xEF, CHR 0xBC, CHR 0x89, CHR 0xEF, CHR 0xBC, CHR 0x8C,
      CHR 0xE6, CHR 0x9C, CHR 0xAC, CHR 0xE6, CHR 0xAC, CHR 0xA1, CHR 0xE5, CHR 0xB0,
      CHR 0x9D, CHR 0xE8, CHR 0xAF, CHR 0x95, CHR 0xE7, CHR 0xBB, CHR 0x88, CHR 0xE6,
      CHR 0xAD, CHR 0xA2]"

definition lit_underlying :: string where  \<comment> \<open>; underlying error:\<close>
  [literal_defs]: "lit_underlying =
      [CHR 0xEF, CHR 0xBC, CHR 0x9B, CHR 0xE5, CHR 0xBA, CHR 0x95, CHR 0xE5, CHR 0xB1,
      CHR 0x82, CHR 0xE9, CHR 0x94, CHR 0x99, CHR 0xE8, CHR 0xAF, CHR 0xAF, CHR 0xEF,
      CHR 0xBC, CHR 0x9A]"

definition lit_stall_plain :: string where  \<comment> \<open>stream stalled, this attempt ends\<close>
  [literal_defs]: "lit_stall_plain =
      [CHR 0xE6, CHR 0xB5, CHR 0x81, CHR 0xE5, CHR 0xBC, CHR 0x8F, CHR 0xE5, CHR 0x93,
      CHR 0x8D, CHR 0xE5, CHR 0xBA, CHR 0x94, CHR 0xE5, CHR 0x81, CHR 0x9C, CHR 0xE6,
      CHR 0xBB, CHR 0x9E, CHR 0xEF, CHR 0xBC, CHR 0x9A, CHR 0xE5, CHR 0xB7, CHR 0xB2,
      CHR 0xE6, CHR 0x94, CHR 0xB6, CHR 0xE5, CHR 0x88, CHR 0xB0, CHR 0xE9, CHR 0xA6,
      CHR 0x96, CHR 0xE5, CHR 0xAD, CHR 0x97, CHR 0xE5, CHR 0x90, CHR 0x8E, CHR 0xE9,
      CHR 0x95, CHR 0xBF, CHR 0xE6, CHR 0x97, CHR 0xB6, CHR 0xE9, CHR 0x97, CHR 0xB4,
      CHR 0xE6, CHR 0x9C, CHR 0xAA, CHR 0xE5, CHR 0x86, CHR 0x8D, CHR 0xE6, CHR 0x94,
      CHR 0xB6, CHR 0xE5, CHR 0x88, CHR 0xB0, CHR 0xE6, CHR 0xA8, CHR 0xA1, CHR 0xE5,
      CHR 0x9E, CHR 0x8B, CHR 0xE4, CHR 0xBA, CHR 0x8B, CHR 0xE4, CHR 0xBB, CHR 0xB6,
      CHR 0xEF, CHR 0xBC, CHR 0x88, CHR 0xE4, CHR 0xB8, CHR 0x8A, CHR 0xE6, CHR 0xB8,
      CHR 0xB8, CHR 0xE8, CHR 0xBF, CHR 0x9E, CHR 0xE6, CHR 0x8E, CHR 0xA5, CHR 0xE6,
      CHR 0x8C, CHR 0x82, CHR 0xE6, CHR 0xAD, CHR 0xBB, CHR 0xEF, CHR 0xBC, CHR 0x89,
      CHR 0xEF, CHR 0xBC, CHR 0x8C, CHR 0xE6, CHR 0x9C, CHR 0xAC, CHR 0xE6, CHR 0xAC,
      CHR 0xA1, CHR 0xE5, CHR 0xB0, CHR 0x9D, CHR 0xE8, CHR 0xAF, CHR 0x95, CHR 0xE7,
      CHR 0xBB, CHR 0x88, CHR 0xE6, CHR 0xAD, CHR 0xA2]"

definition lit_stall_open :: string where  \<comment> \<open>stream stalled: after the first event\<close>
  [literal_defs]: "lit_stall_open =
      [CHR 0xE6, CHR 0xB5, CHR 0x81, CHR 0xE5, CHR 0xBC, CHR 0x8F, CHR 0xE5, CHR 0x93,
      CHR 0x8D, CHR 0xE5, CHR 0xBA, CHR 0x94, CHR 0xE5, CHR 0x81, CHR 0x9C, CHR 0xE6,
      CHR 0xBB, CHR 0x9E, CHR 0xEF, CHR 0xBC, CHR 0x9A, CHR 0xE5, CHR 0xB7, CHR 0xB2,
      CHR 0xE6, CHR 0x94, CHR 0xB6, CHR 0xE5, CHR 0x88, CHR 0xB0, CHR 0xE9, CHR 0xA6,
      CHR 0x96, CHR 0xE5, CHR 0xAD, CHR 0x97, CHR 0xE5, CHR 0x90, CHR 0x8E] @ '' ''"

definition lit_stall_close :: string where  \<comment> \<open>no further event was received, this attempt ends\<close>
  [literal_defs]: "lit_stall_close =
      '' '' @ [CHR 0xE5, CHR 0x86, CHR 0x85, CHR 0xE6, CHR 0x9C, CHR 0xAA, CHR 0xE5, CHR 0x86,
      CHR 0x8D, CHR 0xE6, CHR 0x94, CHR 0xB6, CHR 0xE5, CHR 0x88, CHR 0xB0, CHR 0xE4,
      CHR 0xBB, CHR 0xBB, CHR 0xE4, CHR 0xBD, CHR 0x95, CHR 0xE6, CHR 0xA8, CHR 0xA1,
      CHR 0xE5, CHR 0x9E, CHR 0x8B, CHR 0xE4, CHR 0xBA, CHR 0x8B, CHR 0xE4, CHR 0xBB,
      CHR 0xB6, CHR 0xEF, CHR 0xBC, CHR 0x88, CHR 0xE4, CHR 0xB8, CHR 0x8A, CHR 0xE6,
      CHR 0xB8, CHR 0xB8, CHR 0xE8, CHR 0xBF, CHR 0x9E, CHR 0xE6, CHR 0x8E, CHR 0xA5,
      CHR 0xE6, CHR 0x8C, CHR 0x82, CHR 0xE6, CHR 0xAD, CHR 0xBB, CHR 0xE6, CHR 0x88,
      CHR 0x96, CHR 0xE9, CHR 0x9D, CHR 0x99, CHR 0xE9, CHR 0xBB, CHR 0x98, CHR 0xE6,
      CHR 0x97, CHR 0xA0, CHR 0xE5, CHR 0x93, CHR 0x8D, CHR 0xE5, CHR 0xBA, CHR 0x94,
      CHR 0xEF, CHR 0xBC, CHR 0x89, CHR 0xEF, CHR 0xBC, CHR 0x8C, CHR 0xE6, CHR 0x9C,
      CHR 0xAC, CHR 0xE6, CHR 0xAC, CHR 0xA1, CHR 0xE5, CHR 0xB0, CHR 0x9D, CHR 0xE8,
      CHR 0xAF, CHR 0x95, CHR 0xE7, CHR 0xBB, CHR 0x88, CHR 0xE6, CHR 0xAD, CHR 0xA2]"

definition lit_truncated_head :: string where  \<comment> \<open>the output was cut at its limit with nothing visible\<close>
  [literal_defs]: "lit_truncated_head =
      ''LLM '' @ [CHR 0xE8, CHR 0xBE, CHR 0x93, CHR 0xE5, CHR 0x87, CHR 0xBA, CHR 0xE8, CHR 0xA2,
      CHR 0xAB, CHR 0xE4, CHR 0xB8, CHR 0x8A, CHR 0xE9, CHR 0x99, CHR 0x90, CHR 0xE6,
      CHR 0x88, CHR 0xAA, CHR 0xE6, CHR 0x96, CHR 0xAD, CHR 0xEF, CHR 0xBC, CHR 0x8C,
      CHR 0xE6, CHR 0x9C, CHR 0xAA, CHR 0xE4, CHR 0xBA, CHR 0xA7, CHR 0xE5, CHR 0x87,
      CHR 0xBA, CHR 0xE4, CHR 0xBB, CHR 0xBB, CHR 0xE4, CHR 0xBD, CHR 0x95, CHR 0xE5,
      CHR 0x8F, CHR 0xAF, CHR 0xE8, CHR 0xA7, CHR 0x81, CHR 0xE5, CHR 0x86, CHR 0x85,
      CHR 0xE5, CHR 0xAE, CHR 0xB9, CHR 0xEF, CHR 0xBC, CHR 0x88, CHR 0xE9, CHR 0x9B,
      CHR 0xB6, CHR 0xE4, CHR 0xBA, CHR 0xA4, CHR 0xE4, CHR 0xBB, CHR 0x98, CHR 0xEF,
      CHR 0xBC, CHR 0x89]"

definition lit_truncated_limit :: string where  \<comment> \<open>: the output limit of\<close>
  [literal_defs]: "lit_truncated_limit =
      [CHR 0xEF, CHR 0xBC, CHR 0x9A, CHR 0xE6, CHR 0x9C, CHR 0xAC, CHR 0xE6, CHR 0xAC,
      CHR 0xA1, CHR 0xE5, CHR 0x8D, CHR 0x95, CHR 0xE6, CHR 0xAC, CHR 0xA1, CHR 0xE8,
      CHR 0xBE, CHR 0x93, CHR 0xE5, CHR 0x87, CHR 0xBA, CHR 0xE4, CHR 0xB8, CHR 0x8A,
      CHR 0xE9, CHR 0x99, CHR 0x90] @ '' ''"

definition lit_truncated_limit_close :: string where  \<comment> \<open>tokens is used up\<close>
  [literal_defs]: "lit_truncated_limit_close =
      '' tokens '' @
      [CHR 0xE5, CHR 0xB7, CHR 0xB2, CHR 0xE7, CHR 0x94, CHR 0xA8, CHR 0xE5, CHR 0xB0, CHR 0xBD]"

definition lit_truncated_no_limit :: string where  \<comment> \<open>: the output limit is used up\<close>
  [literal_defs]: "lit_truncated_no_limit =
      [CHR 0xEF, CHR 0xBC, CHR 0x9A, CHR 0xE6, CHR 0x9C, CHR 0xAC, CHR 0xE6, CHR 0xAC,
      CHR 0xA1, CHR 0xE5, CHR 0x8D, CHR 0x95, CHR 0xE6, CHR 0xAC, CHR 0xA1, CHR 0xE8,
      CHR 0xBE, CHR 0x93, CHR 0xE5, CHR 0x87, CHR 0xBA, CHR 0xE4, CHR 0xB8, CHR 0x8A,
      CHR 0xE9, CHR 0x99, CHR 0x90, CHR 0xE5, CHR 0xB7, CHR 0xB2, CHR 0xE7, CHR 0x94,
      CHR 0xA8, CHR 0xE5, CHR 0xB0, CHR 0xBD]"

definition lit_truncated_reasoning :: string where  \<comment> \<open>, all spent on reasoning (about\<close>
  [literal_defs]: "lit_truncated_reasoning =
      [CHR 0xEF, CHR 0xBC, CHR 0x8C, CHR 0xE4, CHR 0xB8, CHR 0x94, CHR 0xE5, CHR 0x85,
      CHR 0xA8, CHR 0xE9, CHR 0x83, CHR 0xA8, CHR 0xE8, CHR 0x8A, CHR 0xB1, CHR 0xE5,
      CHR 0x9C, CHR 0xA8] @ '' reasoning '' @
      [CHR 0xE4, CHR 0xB8, CHR 0x8A, CHR 0xEF, CHR 0xBC, CHR 0x88, CHR 0xE8, CHR 0xAF,
      CHR 0xA5, CHR 0xE8, CHR 0xBD, CHR 0xAE] @ '' reasoning '' @
      [CHR 0xE7, CHR 0xBA, CHR 0xA6] @ '' ''"

definition lit_truncated_reasoning_close :: string where  \<comment> \<open>characters), nothing left for the text\<close>
  [literal_defs]: "lit_truncated_reasoning_close =
      '' '' @ [CHR 0xE5, CHR 0xAD, CHR 0x97, CHR 0xE7, CHR 0xAC, CHR 0xA6, CHR 0xEF, CHR 0xBC,
      CHR 0x89, CHR 0xEF, CHR 0xBC, CHR 0x8C, CHR 0xE6, CHR 0xB2, CHR 0xA1, CHR 0xE6,
      CHR 0x9C, CHR 0x89, CHR 0xE7, CHR 0x95, CHR 0x99, CHR 0xE7, CHR 0xBB, CHR 0x99,
      CHR 0xE6, CHR 0xAD, CHR 0xA3, CHR 0xE6, CHR 0x96, CHR 0x87]"

definition lit_full_stop :: string where  \<comment> \<open>full stop\<close>
  [literal_defs]: "lit_full_stop =
      [CHR 0xE3, CHR 0x80, CHR 0x82]"

definition lit_truncated_advice1 :: string where  \<comment> \<open>cause and advice: raise max_tokens\<close>
  [literal_defs]: "lit_truncated_advice1 =
      [CHR 0xE5, CHR 0x8E, CHR 0x9F, CHR 0xE5, CHR 0x9B, CHR 0xA0, CHR 0xEF, CHR 0xBC,
      CHR 0x9A, CHR 0xE6, CHR 0xA8, CHR 0xA1, CHR 0xE5, CHR 0x9E, CHR 0x8B, CHR 0xE7,
      CHR 0x9A, CHR 0x84, CHR 0xE6, CHR 0x80, CHR 0x9D, CHR 0xE8, CHR 0x80, CHR 0x83,
      CHR 0xE9, CHR 0x93, CHR 0xBE, CHR 0xE5, CHR 0x90, CHR 0x83, CHR 0xE5, CHR 0x85,
      CHR 0x89, CHR 0xE4, CHR 0xBA, CHR 0x86, CHR 0xE8, CHR 0xBE, CHR 0x93, CHR 0xE5,
      CHR 0x87, CHR 0xBA, CHR 0xE9, CHR 0xA2, CHR 0x84, CHR 0xE7, CHR 0xAE, CHR 0x97,
      CHR 0xE3, CHR 0x80, CHR 0x82, CHR 0xE5, CHR 0xBB, CHR 0xBA, CHR 0xE8, CHR 0xAE,
      CHR 0xAE, CHR 0xEF, CHR 0xBC, CHR 0x9A, CHR 0xE2, CHR 0x91, CHR 0xA0] @ '' '' @
      [CHR 0xE8, CHR 0xB0, CHR 0x83, CHR 0xE5, CHR 0xA4, CHR 0xA7, CHR 0xE8, CHR 0xAF,
      CHR 0xA5, CHR 0xE6, CHR 0xA8, CHR 0xA1, CHR 0xE5, CHR 0x9E, CHR 0x8B, CHR 0xE7,
      CHR 0x9A, CHR 0x84, CHR 0xE3, CHR 0x80, CHR 0x8C, CHR 0xE5, CHR 0x8D, CHR 0x95,
      CHR 0xE6, CHR 0xAC, CHR 0xA1, CHR 0xE8, CHR 0xBE, CHR 0x93, CHR 0xE5, CHR 0x87,
      CHR 0xBA, CHR 0xE4, CHR 0xB8, CHR 0x8A, CHR 0xE9, CHR 0x99, CHR 0x90, CHR 0xE3,
      CHR 0x80, CHR 0x8D, CHR 0xEF, CHR 0xBC, CHR 0x88] @ ''max_tokens'' @
      [CHR 0xEF, CHR 0xBC, CHR 0x89, CHR 0xEF, CHR 0xBC, CHR 0x9B]"

definition lit_truncated_advice2 :: string where  \<comment> \<open>or lower the effort, or split the task\<close>
  [literal_defs]: "lit_truncated_advice2 =
      [CHR 0xE2, CHR 0x91, CHR 0xA1] @ '' '' @
      [CHR 0xE6, CHR 0x88, CHR 0x96, CHR 0xE9, CHR 0x99, CHR 0x8D, CHR 0xE4, CHR 0xBD,
      CHR 0x8E, CHR 0xE6, CHR 0x8E, CHR 0xA8, CHR 0xE7, CHR 0x90, CHR 0x86, CHR 0xE6,
      CHR 0xA1, CHR 0xA3, CHR 0xE4, CHR 0xBD, CHR 0x8D, CHR 0xEF, CHR 0xBC, CHR 0x9B,
      CHR 0xE2, CHR 0x91, CHR 0xA2] @ '' '' @
      [CHR 0xE6, CHR 0x88, CHR 0x96, CHR 0xE6, CHR 0x8A, CHR 0x8A, CHR 0xE4, CHR 0xBB,
      CHR 0xBB, CHR 0xE5, CHR 0x8A, CHR 0xA1, CHR 0xE6, CHR 0x8B, CHR 0x86, CHR 0xE5,
      CHR 0xB0, CHR 0x8F, CHR 0xE3, CHR 0x80, CHR 0x81, CHR 0xE8, CHR 0xA6, CHR 0x81,
      CHR 0xE6, CHR 0xB1, CHR 0x82, CHR 0xE5, CHR 0x88, CHR 0x86, CHR 0xE6, CHR 0xAC,
      CHR 0xA1, CHR 0xE4, CHR 0xBA, CHR 0xA4, CHR 0xE4, CHR 0xBB, CHR 0x98, CHR 0xE3,
      CHR 0x80, CHR 0x82]"

definition lit_exceeded_head :: string where  \<comment> \<open>ended: the context exceeds the window\<close>
  [literal_defs]: "lit_exceeded_head =
      ''LLM '' @ [CHR 0xE4, CHR 0xB8, CHR 0x8A, CHR 0xE4, CHR 0xB8, CHR 0x8B, CHR 0xE6, CHR 0x96,
      CHR 0x87, CHR 0xE8, CHR 0xB6, CHR 0x85, CHR 0xE9, CHR 0x99, CHR 0x90, CHR 0xE7,
      CHR 0xBB, CHR 0x88, CHR 0xE6, CHR 0xAD, CHR 0xA2]"

definition lit_exceeded_window :: string where  \<comment> \<open>: the window of the model is\<close>
  [literal_defs]: "lit_exceeded_window =
      [CHR 0xEF, CHR 0xBC, CHR 0x9A, CHR 0xE6, CHR 0xA8, CHR 0xA1, CHR 0xE5, CHR 0x9E,
      CHR 0x8B, CHR 0xE7, CHR 0xAA, CHR 0x97, CHR 0xE5, CHR 0x8F, CHR 0xA3] @ '' ''"

definition lit_exceeded_requested :: string where  \<comment> \<open>tokens, this request has about\<close>
  [literal_defs]: "lit_exceeded_requested =
      '' tokens'' @
      [CHR 0xEF, CHR 0xBC, CHR 0x8C, CHR 0xE6, CHR 0x9C, CHR 0xAC, CHR 0xE6, CHR 0xAC,
      CHR 0xA1, CHR 0xE8, CHR 0xAF, CHR 0xB7, CHR 0xE6, CHR 0xB1, CHR 0x82, CHR 0xE7,
      CHR 0xBA, CHR 0xA6] @ '' ''"

definition lit_exceeded_requested_close :: string where  \<comment> \<open>tokens (over the limit)\<close>
  [literal_defs]: "lit_exceeded_requested_close =
      '' tokens'' @
      [CHR 0xEF, CHR 0xBC, CHR 0x88, CHR 0xE8, CHR 0xB6, CHR 0x85, CHR 0xE5, CHR 0x87,
      CHR 0xBA, CHR 0xE4, CHR 0xB8, CHR 0x8A, CHR 0xE9, CHR 0x99, CHR 0x90, CHR 0xEF,
      CHR 0xBC, CHR 0x89]"

definition lit_exceeded_about :: string where  \<comment> \<open>: the window of the model is about\<close>
  [literal_defs]: "lit_exceeded_about =
      [CHR 0xEF, CHR 0xBC, CHR 0x9A, CHR 0xE6, CHR 0xA8, CHR 0xA1, CHR 0xE5, CHR 0x9E,
      CHR 0x8B, CHR 0xE7, CHR 0xAA, CHR 0x97, CHR 0xE5, CHR 0x8F, CHR 0xA3, CHR 0xE7,
      CHR 0xBA, CHR 0xA6] @ '' ''"

definition lit_exceeded_cause :: string where  \<comment> \<open>cause: results, files and history exceed the window\<close>
  [literal_defs]: "lit_exceeded_cause =
      [CHR 0xE3, CHR 0x80, CHR 0x82, CHR 0xE5, CHR 0x8E, CHR 0x9F, CHR 0xE5, CHR 0x9B,
      CHR 0xA0, CHR 0xEF, CHR 0xBC, CHR 0x9A, CHR 0xE5, CHR 0xB7, CHR 0xA5, CHR 0xE5,
      CHR 0x85, CHR 0xB7, CHR 0xE7, CHR 0xBB, CHR 0x93, CHR 0xE6, CHR 0x9E, CHR 0x9C] @ '' / '' @
      [CHR 0xE6, CHR 0x96, CHR 0x87, CHR 0xE4, CHR 0xBB, CHR 0xB6, CHR 0xE5, CHR 0x86,
      CHR 0x85, CHR 0xE5, CHR 0xAE, CHR 0xB9] @ '' / '' @
      [CHR 0xE5, CHR 0x8E, CHR 0x86, CHR 0xE5, CHR 0x8F, CHR 0xB2, CHR 0xE6, CHR 0xB6,
      CHR 0x88, CHR 0xE6, CHR 0x81, CHR 0xAF, CHR 0xE7, CHR 0xB4, CHR 0xAF, CHR 0xE7,
      CHR 0xA7, CHR 0xAF, CHR 0xE8, CHR 0xB6, CHR 0x85, CHR 0xE5, CHR 0x87, CHR 0xBA,
      CHR 0xE6, CHR 0xA8, CHR 0xA1, CHR 0xE5, CHR 0x9E, CHR 0x8B, CHR 0xE4, CHR 0xB8,
      CHR 0x8A, CHR 0xE4, CHR 0xB8, CHR 0x8B, CHR 0xE6, CHR 0x96, CHR 0x87, CHR 0xE7,
      CHR 0xAA, CHR 0x97, CHR 0xE5, CHR 0x8F, CHR 0xA3, CHR 0xE3, CHR 0x80, CHR 0x82]"

definition lit_exceeded_advice1 :: string where  \<comment> \<open>advice: narrow or split the task, or compact\<close>
  [literal_defs]: "lit_exceeded_advice1 =
      [CHR 0xE5, CHR 0xBB, CHR 0xBA, CHR 0xE8, CHR 0xAE, CHR 0xAE, CHR 0xEF, CHR 0xBC,
      CHR 0x9A, CHR 0xE2, CHR 0x91, CHR 0xA0] @ '' '' @
      [CHR 0xE7, CHR 0xBC, CHR 0xA9, CHR 0xE5, CHR 0xB0, CHR 0x8F, CHR 0xE4, CHR 0xBB,
      CHR 0xBB, CHR 0xE5, CHR 0x8A, CHR 0xA1, CHR 0xE8, CHR 0x8C, CHR 0x83, CHR 0xE5,
      CHR 0x9B, CHR 0xB4, CHR 0xE6, CHR 0x88, CHR 0x96, CHR 0xE6, CHR 0x8B, CHR 0x86,
      CHR 0xE5, CHR 0x88, CHR 0x86, CHR 0xE5, CHR 0x90, CHR 0x8E, CHR 0xE9, CHR 0x87,
      CHR 0x8D, CHR 0xE8, CHR 0xAF, CHR 0x95, CHR 0xEF, CHR 0xBC, CHR 0x9B, CHR 0xE2,
      CHR 0x91, CHR 0xA1, CHR 0xEF, CHR 0xBC, CHR 0x88, CHR 0xE4, CHR 0xB8, CHR 0xBB,
      CHR 0xE4, CHR 0xBC, CHR 0x9A, CHR 0xE8, CHR 0xAF, CHR 0x9D, CHR 0xEF, CHR 0xBC,
      CHR 0x89, CHR 0xE4, CHR 0xBD, CHR 0xBF, CHR 0xE7, CHR 0x94, CHR 0xA8] @ '' /compact '' @
      [CHR 0xE5, CHR 0x8E, CHR 0x8B, CHR 0xE7, CHR 0xBC, CHR 0xA9, CHR 0xE4, CHR 0xB8,
      CHR 0x8A, CHR 0xE4, CHR 0xB8, CHR 0x8B, CHR 0xE6, CHR 0x96, CHR 0x87, CHR 0xE5,
      CHR 0x90, CHR 0x8E, CHR 0xE7, CHR 0xBB, CHR 0xA7, CHR 0xE7, CHR 0xBB, CHR 0xAD,
      CHR 0xEF, CHR 0xBC, CHR 0x9B]"

definition lit_exceeded_advice2 :: string where  \<comment> \<open>check for very large tool results\<close>
  [literal_defs]: "lit_exceeded_advice2 =
      [CHR 0xE2, CHR 0x91, CHR 0xA2] @ '' '' @
      [CHR 0xE6, CHR 0xA3, CHR 0x80, CHR 0xE6, CHR 0x9F, CHR 0xA5, CHR 0xE6, CHR 0x98,
      CHR 0xAF, CHR 0xE5, CHR 0x90, CHR 0xA6, CHR 0xE6, CHR 0x9C, CHR 0x89, CHR 0xE5,
      CHR 0xB7, CHR 0xA5, CHR 0xE5, CHR 0x85, CHR 0xB7, CHR 0xE8, CHR 0xBF, CHR 0x94,
      CHR 0xE5, CHR 0x9B, CHR 0x9E, CHR 0xE8, CHR 0xB6, CHR 0x85, CHR 0xE5, CHR 0xA4,
      CHR 0xA7, CHR 0xE7, CHR 0xBB, CHR 0x93, CHR 0xE6, CHR 0x9E, CHR 0x9C, CHR 0xEF,
      CHR 0xBC, CHR 0x88] @ ''bash / read_file '' @
      [CHR 0xE9, CHR 0x95, CHR 0xBF, CHR 0xE8, CHR 0xBE, CHR 0x93, CHR 0xE5, CHR 0x87,
      CHR 0xBA, CHR 0xEF, CHR 0xBC, CHR 0x89, CHR 0xE3, CHR 0x80, CHR 0x82]"

definition lit_exceeded_original :: string where  \<comment> \<open>original error:\<close>
  [literal_defs]: "lit_exceeded_original =
      [CHR 0x0A, CHR 0xE5, CHR 0x8E, CHR 0x9F, CHR 0xE5, CHR 0xA7, CHR 0x8B, CHR 0xE9,
      CHR 0x94, CHR 0x99, CHR 0xE8, CHR 0xAF, CHR 0xAF, CHR 0xEF, CHR 0xBC, CHR 0x9A]"

definition lit_anchor_head :: string where  \<comment> \<open>head of the task anchor reminder\<close>
  [literal_defs]: "lit_anchor_head =
      ''<system-reminder>This session'' @ [CHR 0x27] @ ''s original task goal '' @
      [CHR 0xE2, CHR 0x80, CHR 0x94] @
      '' preserved verbatim by the engine at compaction time, not rephrased by the summarizer '' @
      [CHR 0xE2, CHR 0x80, CHR 0x94] @
      '' is quoted below. Additional user instructions after the original request are in the most recent inputs above:'' @
      [CHR 0x0A]"

definition lit_handoff_head :: string where  \<comment> \<open>head of the handoff after compaction\<close>
  [literal_defs]: "lit_handoff_head =
      ''<system-reminder>Handoff after compaction:'' @ [CHR 0x0A] @
      ''- Continue with the single next action from '' @ [CHR 0x22] @ ''Continuation State'' @
      [CHR 0x22] @
      '' in the summary above; do not restart, do not redo completed work, and do not bulk re-read.'' @
      [CHR 0x0A] @
      ''- The original task goal, if present, was preserved verbatim by the engine in the TaskAnchorReminder message above '' @
      [CHR 0xE2, CHR 0x80, CHR 0x94] @ '' treat it as authoritative.'' @ [CHR 0x0A] @
      ''- The todo snapshot below, if present, is the authoritative session task list '' @
      [CHR 0xE2, CHR 0x80, CHR 0x94] @
      '' advance it with todo_update; do not rebuild it with todo_add.'' @ [CHR 0x0A] @
      ''- Files read earlier are no longer in context. The [FileLedger] below is a map, not a reading list: re-read just-in-time, only the files the current next action needs (prefer targeted read_file ranges or grep).''"

definition lit_pending_tail :: string where  \<comment> \<open>tail of the reminder of pending tasks\<close>
  [literal_defs]: "lit_pending_tail =
      [CHR 0x0A] @
      ''Their results will arrive as new messages. Do not report their outcomes, and do not declare the overall task complete if it depends on them '' @
      [CHR 0xE2, CHR 0x80, CHR 0x94] @
      '' continue with other work or end the turn awaiting their results.'' @ [CHR 0x0A] @
      ''</system-remind>''"

definition lit_incomplete_tail :: string where  \<comment> \<open>tail of the reminder of unfinished todos\<close>
  [literal_defs]: "lit_incomplete_tail =
      [CHR 0x0A] @ ''Check them before you stop: finish the remaining work now, or '' @
      [CHR 0xE2, CHR 0x80, CHR 0x94] @ '' if it is genuinely'' @ [CHR 0x0A] @
      ''blocked or no longer needed '' @ [CHR 0xE2, CHR 0x80, CHR 0x94] @
      '' say explicitly which items are unfinished and why.'' @ [CHR 0x0A] @
      ''Never mark an item done that is not actually done, and never claim the task is'' @
      [CHR 0x0A] @ ''complete while an item you added for it is still open.'' @ [CHR 0x0A] @
      ''</system-remind>''"

definition lit_anchor_intro :: string where  \<comment> \<open>introduction of the anchor in the input of a compaction\<close>
  [literal_defs]: "lit_anchor_intro =
      ''The user'' @ [CHR 0x27] @
      ''s original request, preserved verbatim by the engine (authoritative '' @
      [CHR 0xE2, CHR 0x80, CHR 0x94] @ '' quote this in Main Requests and Intent):'' @ [CHR 0x0A]"

definition lit_goal_reminder :: string where  \<comment> \<open>the goal alignment reminder\<close>
  [literal_defs]: "lit_goal_reminder =
      ''<system-remind>'' @ [CHR 0x0A] @
      ''I should check whether my current work still serves the user'' @ [CHR 0x27] @
      ''s requested outcome. If it does, I should ignore this reminder and continue. If it does not, I should refocus on the user'' @
      [CHR 0x27] @
      ''s request and choose the next justified action. I must not change files merely to satisfy this reminder.'' @
      [CHR 0x0A] @ ''</system-remind>''"

definition lit_continue_nudge :: string where  \<comment> \<open>the nudge after a silent round\<close>
  [literal_defs]: "lit_continue_nudge =
      ''<system-remind>'' @ [CHR 0x0A] @
      ''Your previous turn ended with no visible output right after tool results were returned.'' @
      [CHR 0x0A] @
      ''- If the task is still in progress: continue now, acting on those tool results.'' @
      [CHR 0x0A] @
      ''- If the task is complete: reply with a short completion summary for the user.'' @
      [CHR 0x0A] @ ''Do not stop silently.'' @ [CHR 0x0A] @ ''</system-remind>''"

definition lit_micro :: string where  \<comment> \<open>micro\<close>
  [literal_defs]: "lit_micro =
      [CHR 0xC2, CHR 0xB5]"

definition lit_time_limit_close :: string where  \<comment> \<open>advice of a task stopped by its time limit\<close>
  [literal_defs]: "lit_time_limit_close =
      '' '' @ [CHR 0xE2, CHR 0x80, CHR 0x94] @
      '' the rounds completed so far are kept in its journal (readable via TaskOutput); raise the limit (Registry.SetAsyncTimeout) or split the task into smaller ones''"

definition lit_still :: string where  \<comment> \<open>end of the refusal of a resume\<close>
  [literal_defs]: "lit_still =
      '' '' @ [CHR 0xE2, CHR 0x80, CHR 0x94] @ '' not resumable while running''"

end
