(* ===== verification/Messages.thy ===== *)
theory Messages
  imports Prelude Literals
begin

text \<open>
  The shared data of the whole stack, \<open>core/message.go\<close> and \<open>core/tool.go\<close>: messages with
  their content blocks and tool calls, the constructors that keep the role/field invariants,
  \<open>Validate\<close>, tool results, and usage and cost accounting. Token counts are \<open>int64\<close> in
  the source and are modelled as \<open>int\<close>; a session would need 2^63 tokens to wrap them.
\<close>

section \<open>Roles, content blocks, calls, messages\<close>

datatype role = User | Tool | Assistant | System | OtherRole string

abbreviation ContentTypeText :: string where "ContentTypeText \<equiv> ''text''"
abbreviation ContentTypeImage :: string where "ContentTypeImage \<equiv> ''image''"
abbreviation ContentTypeSummary :: string where "ContentTypeSummary \<equiv> ''summary''"
abbreviation ContentTypeCommand :: string where "ContentTypeCommand \<equiv> ''command''"
abbreviation ContentTypeTaskResult :: string where "ContentTypeTaskResult \<equiv> ''task_result''"
abbreviation ContentTypeSkill :: string where "ContentTypeSkill \<equiv> ''skill''"
abbreviation ContentTypeMeshFrom :: string where "ContentTypeMeshFrom \<equiv> ''mesh_from''"

record content =
  ctype :: string
  ctext :: string
  mime :: string

record tool_call =
  tc_id :: string
  tc_index :: int
  tc_name :: string
  tc_args :: string
  tc_request :: string
  tc_parent :: string
  tc_depth :: int

record message =
  m_role :: role
  m_content :: "content list"
  m_reasoning :: string
  m_signature :: string
  m_model :: string
  m_calls :: "tool_call list"
  m_call_id :: string
  m_tool_name :: string
  m_added :: "string list"

definition text_block :: "string \<Rightarrow> content" where
  "text_block s = \<lparr>ctype = ContentTypeText, ctext = s, mime = []\<rparr>"

definition plain_message :: "role \<Rightarrow> content list \<Rightarrow> message" where
  "plain_message r cs = \<lparr>m_role = r, m_content = cs, m_reasoning = [], m_signature = [],
     m_model = [], m_calls = [], m_call_id = [], m_tool_name = [], m_added = []\<rparr>"

definition NewSystemMessage :: "string \<Rightarrow> message" where
  "NewSystemMessage t = plain_message System [text_block t]"

definition NewUserMessage :: "content list \<Rightarrow> message" where
  "NewUserMessage cs = plain_message User cs"

definition NewAssistantMessage :: "content list \<Rightarrow> string \<Rightarrow> tool_call list \<Rightarrow> message" where
  "NewAssistantMessage cs reasoning calls =
     (plain_message Assistant cs)\<lparr>m_reasoning := reasoning, m_calls := calls\<rparr>"

definition NewAssistantMessageWithSignature ::
  "content list \<Rightarrow> string \<Rightarrow> string \<Rightarrow> tool_call list \<Rightarrow> message" where
  "NewAssistantMessageWithSignature cs reasoning sig calls =
     (NewAssistantMessage cs reasoning calls)\<lparr>m_signature := sig\<rparr>"

definition NewToolMessage :: "string \<Rightarrow> string \<Rightarrow> message" where
  "NewToolMessage cid t = (plain_message Tool [text_block t])\<lparr>m_call_id := cid\<rparr>"

definition NewToolMessageWithImages :: "string \<Rightarrow> string \<Rightarrow> content list \<Rightarrow> message" where
  "NewToolMessageWithImages cid t images =
     (if images = [] then NewToolMessage cid t
      else (plain_message Tool (text_block t # images))\<lparr>m_call_id := cid\<rparr>)"

definition NewSkillMessage :: "string \<Rightarrow> message" where
  "NewSkillMessage t = plain_message User [\<lparr>ctype = ContentTypeSkill, ctext = t, mime = []\<rparr>]"

definition NewCommandMessage :: "string \<Rightarrow> string \<Rightarrow> message" where
  "NewCommandMessage name args =
     plain_message System [\<lparr>ctype = ContentTypeCommand, ctext = name @ [CHR 0x0A] @ args, mime = []\<rparr>]"

definition IsCommandMessage :: "message \<Rightarrow> bool" where
  "IsCommandMessage m \<longleftrightarrow>
     (case m_content m of [] \<Rightarrow> False | c # _ \<Rightarrow> ctype c = ContentTypeCommand)"

text \<open>
  \<open>NewTaskResultMessageWithStatus\<close>: the header line, the name, the body chosen by the
  first matching case (error, result, interrupted, nothing) and the closing instruction.
  The error is its text, \<open>None\<close> for a nil error. Literals outside ASCII are their
  UTF-8 bytes, as in the source file.
\<close>

definition task_label :: "string \<Rightarrow> string" where
  "task_label status =
     (if status = ''interrupted'' then lit_interrupted
      else if status = ''failed'' then lit_failed
      else if status = ''abandoned'' then lit_abandoned
      else lit_completed)"

definition task_body :: "string \<Rightarrow> string \<Rightarrow> string option \<Rightarrow> string" where
  "task_body result status err =
     (case err of
        Some e \<Rightarrow> e
      | None \<Rightarrow>
          (if result \<noteq> [] then result
           else if status = ''interrupted'' then
             lit_no_final
           else lit_no_result))"

definition task_result_text ::
  "string \<Rightarrow> string \<Rightarrow> string \<Rightarrow> string \<Rightarrow> string option \<Rightarrow> string" where
  "task_result_text taskID name result status err =
     lit_task_open @ taskID @ '' '' @ task_label status @ lit_task_close @
     (if name \<noteq> [] then lit_paren_open @ name @ lit_paren_close else []) @
     [CHR 0x0A, CHR 0x0A] @ task_body result status err @
     (if status = ''interrupted'' then
        lit_tail_interrupted
      else lit_tail_done)"

definition NewTaskResultMessageWithStatus ::
  "string \<Rightarrow> string \<Rightarrow> string \<Rightarrow> string \<Rightarrow> string option \<Rightarrow> message" where
  "NewTaskResultMessageWithStatus taskID name result status err =
     plain_message User
       [\<lparr>ctype = ContentTypeTaskResult, ctext = task_result_text taskID name result status err, mime = []\<rparr>]"

definition NewTaskResultMessage :: "string \<Rightarrow> string \<Rightarrow> string \<Rightarrow> string option \<Rightarrow> message" where
  "NewTaskResultMessage taskID name result err =
     NewTaskResultMessageWithStatus taskID name result
       (if err = None then ''completed'' else ''failed'') err"

section \<open>Validate\<close>

datatype validate_error =
    InvalidRole role
  | MissingToolCallId
  | RoleCannotCarryCallId role
  | RoleCannotCarryCalls role
  | InvalidContentType nat string

definition valid_content_type :: "string \<Rightarrow> bool" where
  "valid_content_type t \<longleftrightarrow>
     \<not> (t \<noteq> [] \<and> t \<noteq> ContentTypeText \<and> t \<noteq> ContentTypeImage \<and> t \<noteq> ContentTypeSummary \<and>
        t \<noteq> ContentTypeCommand \<and> t \<noteq> ContentTypeTaskResult \<and> t \<noteq> ContentTypeMeshFrom \<and>
        t \<noteq> ContentTypeSkill)"

fun check_contents :: "nat \<Rightarrow> content list \<Rightarrow> validate_error option" where
  "check_contents i [] = None"
| "check_contents i (c # cs) =
     (if \<not> valid_content_type (ctype c) then Some (InvalidContentType i (ctype c))
      else check_contents (Suc i) cs)"

fun known_role :: "role \<Rightarrow> bool" where
  "known_role (OtherRole s) = False"
| "known_role r = True"

definition Validate :: "message \<Rightarrow> validate_error option" where
  "Validate m =
     (if \<not> known_role (m_role m) then Some (InvalidRole (m_role m))
      else if m_role m = Tool \<and> m_call_id m = [] then Some MissingToolCallId
      else if m_role m \<noteq> Tool \<and> m_call_id m \<noteq> [] then Some (RoleCannotCarryCallId (m_role m))
      else if m_role m \<noteq> Assistant \<and> m_calls m \<noteq> [] then Some (RoleCannotCarryCalls (m_role m))
      else check_contents 0 (m_content m))"

lemmas constructor_defs =
  NewSystemMessage_def NewUserMessage_def NewAssistantMessage_def NewAssistantMessageWithSignature_def
  NewToolMessage_def NewToolMessageWithImages_def NewSkillMessage_def NewCommandMessage_def
  NewTaskResultMessage_def NewTaskResultMessageWithStatus_def plain_message_def text_block_def

lemma check_contents_None:
  "check_contents i cs = None \<longleftrightarrow> (\<forall>c \<in> set cs. valid_content_type (ctype c))"
  by (induction cs arbitrary: i) auto

lemma check_contents_Some:
  "check_contents i cs = Some e \<Longrightarrow>
   \<exists>j < length cs. e = InvalidContentType (i + j) (ctype (cs ! j)) \<and>
     \<not> valid_content_type (ctype (cs ! j)) \<and> (\<forall>k < j. valid_content_type (ctype (cs ! k)))"
proof (induction cs arbitrary: i)
  case (Cons c cs)
  show ?case
  proof (cases "valid_content_type (ctype c)")
    case True
    with Cons.prems have "check_contents (Suc i) cs = Some e" by simp
    from Cons.IH [OF this] obtain j where
      "j < length cs" "e = InvalidContentType (Suc i + j) (ctype (cs ! j))"
      "\<not> valid_content_type (ctype (cs ! j))" "\<forall>k < j. valid_content_type (ctype (cs ! k))"
      by blast
    with True show ?thesis
      by (intro exI [of _ "Suc j"]) (auto simp: nth_Cons split: nat.splits)
  next
    case False
    with Cons.prems show ?thesis by (intro exI [of _ 0]) auto
  qed
qed simp

text \<open>What an accepted message satisfies.\<close>

definition well_formed_message :: "message \<Rightarrow> bool" where
  "well_formed_message m \<longleftrightarrow>
     known_role (m_role m) \<and>
     (m_role m = Tool \<longleftrightarrow> m_call_id m \<noteq> []) \<and>
     (m_calls m \<noteq> [] \<longrightarrow> m_role m = Assistant) \<and>
     (\<forall>c \<in> set (m_content m). valid_content_type (ctype c))"

lemma Validate_None_iff: "Validate m = None \<longleftrightarrow> well_formed_message m"
  by (auto simp: Validate_def well_formed_message_def check_contents_None)

section \<open>Usage and cost\<close>

record cost =
  c_input :: int
  c_output :: int
  c_reasoning :: int
  c_cache_read :: int
  c_cache_write :: int
  c_total :: int
  c_priced :: bool
  c_source :: string

record usage_details =
  d_input_audio :: int
  d_output_audio :: int
  d_input_image :: int
  d_pred_accepted :: int
  d_pred_rejected :: int

record usage =
  u_input :: int
  u_output :: int
  u_cache_read :: int
  u_cache_write :: int
  u_cache_write_1h :: int
  u_reasoning :: int
  u_total :: int
  u_details :: "usage_details option"
  u_summarized :: bool
  u_semantics :: string
  u_cost :: cost

definition zero_cost :: cost where
  "zero_cost = \<lparr>c_input = 0, c_output = 0, c_reasoning = 0, c_cache_read = 0, c_cache_write = 0,
     c_total = 0, c_priced = False, c_source = []\<rparr>"

definition zero_usage :: usage where
  "zero_usage = \<lparr>u_input = 0, u_output = 0, u_cache_read = 0, u_cache_write = 0,
     u_cache_write_1h = 0, u_reasoning = 0, u_total = 0, u_details = None,
     u_summarized = False, u_semantics = [], u_cost = zero_cost\<rparr>"

definition zero_details :: usage_details where
  "zero_details = \<lparr>d_input_audio = 0, d_output_audio = 0, d_input_image = 0,
     d_pred_accepted = 0, d_pred_rejected = 0\<rparr>"

definition cost_Add :: "cost \<Rightarrow> cost \<Rightarrow> cost" where
  "cost_Add c v = c\<lparr>c_input := c_input c + c_input v, c_output := c_output c + c_output v,
     c_reasoning := c_reasoning c + c_reasoning v, c_cache_read := c_cache_read c + c_cache_read v,
     c_cache_write := c_cache_write c + c_cache_write v, c_total := c_total c + c_total v\<rparr>"

definition addDetails :: "usage_details option \<Rightarrow> usage_details option \<Rightarrow> usage_details option" where
  "addDetails a b =
     (if a = None \<and> b = None then None
      else let out = (case a of None \<Rightarrow> zero_details | Some x \<Rightarrow> x)
           in Some (case b of None \<Rightarrow> out
              | Some y \<Rightarrow> out\<lparr>d_input_audio := d_input_audio out + d_input_audio y,
                  d_output_audio := d_output_audio out + d_output_audio y,
                  d_input_image := d_input_image out + d_input_image y,
                  d_pred_accepted := d_pred_accepted out + d_pred_accepted y,
                  d_pred_rejected := d_pred_rejected out + d_pred_rejected y\<rparr>))"

definition usage_Add :: "usage \<Rightarrow> usage \<Rightarrow> usage" where
  "usage_Add u v = u\<lparr>u_input := u_input u + u_input v, u_output := u_output u + u_output v,
     u_cache_read := u_cache_read u + u_cache_read v,
     u_cache_write := u_cache_write u + u_cache_write v,
     u_cache_write_1h := u_cache_write_1h u + u_cache_write_1h v,
     u_reasoning := u_reasoning u + u_reasoning v, u_total := u_total u + u_total v,
     u_details := addDetails (u_details u) (u_details v),
     u_cost := cost_Add (u_cost u) (u_cost v)\<rparr>"

definition CacheMiss :: "usage \<Rightarrow> int" where
  "CacheMiss u = (let miss = u_input u - u_cache_read u - u_cache_write u
     in if miss < 0 then 0 else miss)"

definition usage_IsZero :: "usage \<Rightarrow> bool" where
  "usage_IsZero u \<longleftrightarrow>
     u_input u = 0 \<and> u_output u = 0 \<and> u_cache_read u = 0 \<and> u_cache_write u = 0 \<and>
     u_cache_write_1h u = 0 \<and> u_reasoning u = 0 \<and> u_total u = 0 \<and>
     c_input (u_cost u) = 0 \<and> c_output (u_cost u) = 0 \<and> c_reasoning (u_cost u) = 0 \<and>
     c_cache_read (u_cost u) = 0 \<and> c_cache_write (u_cost u) = 0 \<and> c_total (u_cost u) = 0"

lemma addDetails_assoc: "addDetails (addDetails a b) c = addDetails a (addDetails b c)"
  by (cases a; cases b; cases c) (simp_all add: addDetails_def zero_details_def)

lemma addDetails_comm: "addDetails a b = addDetails b a"
  by (cases a; cases b) (auto simp: addDetails_def zero_details_def Let_def)

lemma addDetails_None [simp]: "addDetails None b = b" "addDetails a None = a"
  by (cases b; simp add: addDetails_def zero_details_def) (cases a; simp add: addDetails_def)

lemma cost_Add_assoc: "cost_Add (cost_Add a b) c = cost_Add a (cost_Add b c)"
  by (simp add: cost_Add_def)

lemma usage_Add_assoc: "usage_Add (usage_Add a b) c = usage_Add a (usage_Add b c)"
  by (simp add: usage_Add_def addDetails_assoc cost_Add_assoc)

lemma usage_Add_zero [simp]: "usage_Add u zero_usage = u"
  by (simp add: usage_Add_def zero_usage_def zero_cost_def cost_Add_def)

section \<open>Tool results\<close>

record tool_error =
  te_code :: string
  te_changed :: string
  te_retryable :: bool
  te_retry_same :: bool
  te_next :: string
  te_recovery :: string

record exec_status =
  ex_code :: int
  ex_timed_out :: bool
  ex_canceled :: bool

record tool_result =
  r_id :: string
  r_result :: string
  r_is_error :: bool
  r_tool_error :: "tool_error option"
  r_exec :: "exec_status option"
  r_blocks :: "content list"
  r_usage :: usage

definition ImageBlocks :: "tool_result \<Rightarrow> content list" where
  "ImageBlocks r = filter (\<lambda>c. ctype c = ContentTypeImage) (r_blocks r)"

definition plain_result :: "string \<Rightarrow> string \<Rightarrow> bool \<Rightarrow> tool_result" where
  "plain_result i t e = \<lparr>r_id = i, r_result = t, r_is_error = e, r_tool_error = None,
     r_exec = None, r_blocks = [], r_usage = zero_usage\<rparr>"

section \<open>Pairing of tool calls and tool results\<close>

text \<open>
  The protocol invariant of a history that is sent to a provider: every tool result answers
  a call of an assistant message, and every call is answered.
\<close>

definition called_ids :: "message list \<Rightarrow> string list" where
  "called_ids ms = concat (map (\<lambda>m. map tc_id (m_calls m)) ms)"

definition answered_ids :: "message list \<Rightarrow> string list" where
  "answered_ids ms = map m_call_id (filter (\<lambda>m. m_role m = Tool) ms)"

definition paired :: "message list \<Rightarrow> bool" where
  "paired ms \<longleftrightarrow> set (called_ids ms) = set (answered_ids ms)"

lemma called_ids_simps [simp]:
  "called_ids [] = []" "called_ids (m # ms) = map tc_id (m_calls m) @ called_ids ms"
  "called_ids (xs @ ys) = called_ids xs @ called_ids ys"
  by (simp_all add: called_ids_def)

lemma answered_ids_simps [simp]:
  "answered_ids [] = []"
  "answered_ids (m # ms) = (if m_role m = Tool then m_call_id m # answered_ids ms else answered_ids ms)"
  "answered_ids (xs @ ys) = answered_ids xs @ answered_ids ys"
  by (simp_all add: answered_ids_def)

lemma paired_append: "paired xs \<Longrightarrow> paired ys \<Longrightarrow> paired (xs @ ys)"
  by (auto simp: paired_def)

end
