(* ===== verification/MergePairs.thy ===== *)
theory MergePairs
  imports Messages "HOL-Library.More_List"
begin

text \<open>
  \<open>agents/merge_pairs.go\<close>: redundant pairs of tool call and tool result are removed from
  the history. The theory models the collection of pairs, the grouping pass, the rebuilding
  of the history with the rewriting of \<open>#N\<close> references, and the self check.
\<close>

abbreviation slimPlaceholderPrefix :: string where "slimPlaceholderPrefix \<equiv> ''[slim:''"

definition defaultMergeProtectRounds :: int where "defaultMergeProtectRounds = 2"

record tool_pair =
  tp_assistant :: nat
  tp_call :: nat
  tp_tool :: nat
  tp_name :: string
  tp_args :: string
  tp_text :: string
  tp_image :: bool

section \<open>Collecting the pairs\<close>

text \<open>
  The Go map \<open>byID\<close> is filled in history order, so a later call with the same id wins:
  \<open>map_of\<close> of the reversed list of entries.
\<close>

fun call_refs :: "nat \<Rightarrow> message list \<Rightarrow> (string \<times> nat \<times> nat) list" where
  "call_refs i [] = []"
| "call_refs i (m # ms) =
     (if m_role m = Assistant
      then map (\<lambda>(j, tc). (tc_id tc, i, j)) (enumerate 0 (m_calls m)) else [])
     @ call_refs (Suc i) ms"

definition byID :: "message list \<Rightarrow> string \<rightharpoonup> nat \<times> nat" where
  "byID ms = map_of (rev (call_refs 0 ms))"

definition first_text :: "message \<Rightarrow> string" where
  "first_text m = (case m_content m of [] \<Rightarrow> []
     | c # _ \<Rightarrow> if ctype c \<noteq> ContentTypeImage then ctext c else [])"

definition pair_at :: "message list \<Rightarrow> nat \<times> message \<Rightarrow> tool_pair option" where
  "pair_at ms = (\<lambda>(i, m).
     if m_role m \<noteq> Tool then None
     else case byID ms (m_call_id m) of
         None \<Rightarrow> None
       | Some (a, c) \<Rightarrow>
           let tc = m_calls (ms ! a) ! c in
           Some \<lparr>tp_assistant = a, tp_call = c, tp_tool = i, tp_name = tc_name tc,
             tp_args = tc_args tc, tp_text = first_text m,
             tp_image = list_ex (\<lambda>x. ctype x = ContentTypeImage) (m_content m)\<rparr>)"

definition collectToolPairs :: "message list \<Rightarrow> tool_pair list" where
  "collectToolPairs ms = List.map_filter (pair_at ms) (enumerate 0 ms)"

definition isSlimPlaceholder :: "string \<Rightarrow> bool" where
  "isSlimPlaceholder t \<longleftrightarrow> has_prefix t slimPlaceholderPrefix"

definition hasVisibleValue :: "message \<Rightarrow> bool" where
  "hasVisibleValue m \<longleftrightarrow>
     \<not> blank (m_reasoning m) \<or> \<not> blank (m_signature m) \<or>
     list_ex (\<lambda>c. ctype c \<noteq> ContentTypeText \<or> \<not> blank (ctext c)) (m_content m)"

section \<open>Grouping\<close>

record group_state =
  gs_groups :: "(tool_pair \<times> tool_pair list) list"
  gs_key :: "string \<rightharpoonup> nat"
  gs_pending :: "tool_pair list"

definition pair_key :: "tool_pair \<Rightarrow> string" where
  "pair_key p = tp_name p @ [CHR 0x00] @ tp_args p"

text \<open>
  One iteration of the loop over the pairs: the representative of a group and its victims.
  In the \<open>read_file\<close> branch the source appends the new pair \<open>p\<close> to the victims and then
  makes \<open>p\<close> the representative.
\<close>

definition open_group :: "tool_pair \<Rightarrow> group_state \<Rightarrow> group_state" where
  "open_group p st = st\<lparr>gs_groups := gs_groups st @ [(p, [])],
     gs_key := (gs_key st)(pair_key p \<mapsto> length (gs_groups st))\<rparr>"

definition group_step :: "nat list \<Rightarrow> group_state \<Rightarrow> tool_pair \<Rightarrow> group_state" where
  "group_step prot st p =
     (if tp_image p then st
      else if tp_tool p \<in> set prot then st
      else if isSlimPlaceholder (tp_text p) then st\<lparr>gs_pending := gs_pending st @ [p]\<rparr>
      else case gs_key st (pair_key p) of
          None \<Rightarrow> open_group p st
        | Some g \<Rightarrow>
            let keep = fst (gs_groups st ! g); vs = snd (gs_groups st ! g) in
            if tp_text p = tp_text keep
            then st\<lparr>gs_groups := (gs_groups st)[g := (keep, vs @ [p])]\<rparr>
            else if tp_name p = ''read_file''
            then st\<lparr>gs_groups := (gs_groups st)[g := (p, vs @ [p])]\<rparr>
            else open_group p st)"

definition attach_pending :: "group_state \<Rightarrow> tool_pair \<Rightarrow> group_state" where
  "attach_pending st p =
     (case gs_key st (pair_key p) of
        None \<Rightarrow> st
      | Some g \<Rightarrow> st\<lparr>gs_groups := (gs_groups st)
          [g := (fst (gs_groups st ! g), snd (gs_groups st ! g) @ [p])]\<rparr>)"

definition group_pairs :: "nat list \<Rightarrow> tool_pair list \<Rightarrow> (tool_pair \<times> tool_pair list) list" where
  "group_pairs prot ps =
     (let st = foldl (group_step prot) \<lparr>gs_groups = [], gs_key = Map.empty, gs_pending = []\<rparr> ps
      in gs_groups (foldl attach_pending st (gs_pending st)))"

definition protected_tools :: "int \<Rightarrow> tool_pair list \<Rightarrow> nat list" where
  "protected_tools rounds ps =
     map tp_tool (last_n (nat (if rounds \<le> 0 then defaultMergeProtectRounds else rounds)) ps)"

text \<open>The groups that delete something, and what they delete.\<close>

definition active_groups ::
  "nat list \<Rightarrow> tool_pair list \<Rightarrow> (tool_pair \<times> tool_pair list) list" where
  "active_groups prot ps =
     filter (\<lambda>(keep, vs). vs \<noteq> [] \<and> tp_tool keep \<notin> set prot) (group_pairs prot ps)"

definition victims :: "(tool_pair \<times> tool_pair list) list \<Rightarrow> tool_pair list" where
  "victims gs = concat (map snd gs)"

definition absorbed :: "(tool_pair \<times> tool_pair list) list \<Rightarrow> nat \<Rightarrow> nat" where
  "absorbed gs i = sum_list (map (\<lambda>(keep, vs). if tp_tool keep = i then length vs else 0) gs)"

section \<open>Rebuilding the history\<close>

definition kept_calls :: "tool_pair list \<Rightarrow> nat \<Rightarrow> message \<Rightarrow> tool_call list" where
  "kept_calls vs i m =
     map snd (filter (\<lambda>(j, tc). \<forall>v \<in> set vs. \<not> (tp_assistant v = i \<and> tp_call v = j))
       (enumerate 0 (m_calls m)))"

definition touched :: "tool_pair list \<Rightarrow> nat \<Rightarrow> bool" where
  "touched vs i \<longleftrightarrow> (\<exists>v \<in> set vs. tp_assistant v = i)"

definition dropped :: "tool_pair list \<Rightarrow> nat \<Rightarrow> message \<Rightarrow> bool" where
  "dropped vs i m \<longleftrightarrow>
     (\<exists>v \<in> set vs. tp_tool v = i) \<or>
     touched vs i \<and> kept_calls vs i m = [] \<and> \<not> hasVisibleValue (m\<lparr>m_calls := []\<rparr>)"

definition stripped :: "tool_pair list \<Rightarrow> nat \<Rightarrow> message \<Rightarrow> message" where
  "stripped vs i m = (if touched vs i then m\<lparr>m_calls := kept_calls vs i m\<rparr> else m)"

definition survivors :: "tool_pair list \<Rightarrow> message list \<Rightarrow> nat list" where
  "survivors vs ms = filter (\<lambda>i. \<not> dropped vs i (ms ! i)) [0..<length ms]"

definition old_to_new :: "nat list \<Rightarrow> nat \<rightharpoonup> nat" where
  "old_to_new idx n = (if n \<in> set idx then Some (length (takeWhile (\<lambda>i. i \<noteq> n) idx)) else None)"

text \<open>
  \<open>refRe.ReplaceAllStringFunc\<close> with \<open>#(\d+)\<close>: every \<open>#\<close> that a digit follows, with the
  longest run of digits. A number \<open>strconv.Atoi\<close> rejects (2^63 and above) stays.
\<close>

function rewrite_refs :: "(nat \<rightharpoonup> nat) \<Rightarrow> string \<Rightarrow> string" where
  "rewrite_refs f [] = []"
| "rewrite_refs f (c # s) =
     (let ds = takeWhile is_digit s in
      if c = CHR ''#'' \<and> ds \<noteq> []
      then c # (if dec_val ds < 2 ^ 63
                then (case f (dec_val ds) of Some n \<Rightarrow> show_nat n | None \<Rightarrow> ds) else ds)
             @ rewrite_refs f (dropWhile is_digit s)
      else c # rewrite_refs f s)"
  by pat_completeness auto
termination
  by (relation "measure (\<lambda>(f, s). length s)") (auto simp: less_Suc_eq_le length_dropWhile_le)

definition set_first_text :: "(string \<Rightarrow> string) \<Rightarrow> message \<Rightarrow> message" where
  "set_first_text f m = (case m_content m of [] \<Rightarrow> m
     | c # cs \<Rightarrow> m\<lparr>m_content := c\<lparr>ctext := f (ctext c)\<rparr> # cs\<rparr>)"

definition rewrite_message :: "(nat \<rightharpoonup> nat) \<Rightarrow> message \<Rightarrow> message" where
  "rewrite_message f m =
     (case m_content m of [] \<Rightarrow> m
      | c # _ \<Rightarrow> if m_role m = Tool \<and> isSlimPlaceholder (ctext c)
                 then set_first_text (rewrite_refs f) m else m)"

definition note_merged :: "nat \<Rightarrow> message \<Rightarrow> message" where
  "note_merged n m =
     (if n = 0 \<or> m_role m \<noteq> Tool then m
      else set_first_text (\<lambda>t. t @ lit_merged_open @ show_nat n @ lit_merged_close) m)"

datatype merge_result = NoMerge | Merged "message list" | MergePanic

text \<open>
  The rewriting loop reads \<open>m.Content[0]\<close> of every surviving tool message, which panics on
  a tool message without content blocks.
\<close>

definition mergeToolPairs :: "int \<Rightarrow> message list \<Rightarrow> merge_result" where
  "mergeToolPairs rounds ms =
     (let ps = collectToolPairs ms in
      if length ps < 2 then NoMerge
      else
        let prot = protected_tools rounds ps;
            gs = active_groups prot ps;
            vs = victims gs
        in if vs = [] then NoMerge
           else
             let idx = survivors vs ms;
                 out = map (\<lambda>i. (i, stripped vs i (ms ! i))) idx
             in if list_ex (\<lambda>(i, m). m_role m = Tool \<and> m_content m = []) out then MergePanic
                else Merged (map (\<lambda>(i, m).
                  note_merged (absorbed gs i) (rewrite_message (old_to_new idx) m)) out))"

section \<open>The self check\<close>

datatype orphan = OrphanResult string | DanglingCall "string set"

definition assertNoOrphanToolMsgs :: "message list \<Rightarrow> orphan option" where
  "assertNoOrphanToolMsgs ms =
     (case find (\<lambda>x. x \<notin> set (called_ids ms)) (answered_ids ms) of
        Some x \<Rightarrow> Some (OrphanResult x)
      | None \<Rightarrow>
          let missing = filter (\<lambda>x. x \<notin> set (answered_ids ms)) (called_ids ms)
          in if missing = [] then None else Some (DanglingCall (set missing)))"

lemma assertNoOrphan_None_iff: "assertNoOrphanToolMsgs ms = None \<longleftrightarrow> paired ms"
  by (auto simp: assertNoOrphanToolMsgs_def paired_def Let_def find_None_iff filter_empty_conv
      split: option.splits) (auto simp: find_Some_iff)

section \<open>Where ids live\<close>

lemma call_refs_set:
  "set (call_refs k ms) = {(tc_id (m_calls (ms ! i) ! j), k + i, j) | i j.
     i < length ms \<and> m_role (ms ! i) = Assistant \<and> j < length (m_calls (ms ! i))}"
proof (induction ms arbitrary: k)
  case (Cons m ms)
  let ?here = "{(tc_id (m_calls m ! j), k, j) | j. m_role m = Assistant \<and> j < length (m_calls m)}"
  have here: "set (if m_role m = Assistant
      then map (\<lambda>(j, tc). (tc_id tc, k, j)) (enumerate 0 (m_calls m)) else []) = ?here"
    by (auto simp: set_enumerate0 image_iff)
  have "?here \<union> {(tc_id (m_calls (ms ! i) ! j), Suc k + i, j) | i j.
      i < length ms \<and> m_role (ms ! i) = Assistant \<and> j < length (m_calls (ms ! i))} =
     {(tc_id (m_calls ((m # ms) ! i) ! j), k + i, j) | i j.
     i < length (m # ms) \<and> m_role ((m # ms) ! i) = Assistant \<and> j < length (m_calls ((m # ms) ! i))}"
    (is "?A \<union> ?B = ?C")
  proof (intro set_eqI iffI)
    fix x assume "x \<in> ?A \<union> ?B"
    then show "x \<in> ?C"
    proof
      assume "x \<in> ?A"
      then obtain j where "x = (tc_id (m_calls m ! j), k, j)" "m_role m = Assistant"
        "j < length (m_calls m)" by blast
      then show ?thesis by (intro CollectI exI [of _ 0] exI [of _ j]) simp
    next
      assume "x \<in> ?B"
      then obtain i j where "x = (tc_id (m_calls (ms ! i) ! j), Suc k + i, j)" "i < length ms"
        "m_role (ms ! i) = Assistant" "j < length (m_calls (ms ! i))" by blast
      then show ?thesis by (intro CollectI exI [of _ "Suc i"] exI [of _ j]) simp
    qed
  next
    fix x assume "x \<in> ?C"
    then obtain i j where x: "x = (tc_id (m_calls ((m # ms) ! i) ! j), k + i, j)"
      "i < length (m # ms)" "m_role ((m # ms) ! i) = Assistant"
      "j < length (m_calls ((m # ms) ! i))" by blast
    show "x \<in> ?A \<union> ?B"
    proof (cases i)
      case 0
      with x show ?thesis by (intro UnI1 CollectI exI [of _ j]) simp
    next
      case (Suc i')
      with x show ?thesis by (intro UnI2 CollectI exI [of _ i'] exI [of _ j]) simp
    qed
  qed
  with here Cons.IH [of "Suc k"] show ?case by (simp only: call_refs.simps set_append)
qed simp

text \<open>Histories that a run produces: only assistants call, ids are unique and answered once.\<close>

definition calls_by_assistants :: "message list \<Rightarrow> bool" where
  "calls_by_assistants ms \<longleftrightarrow> (\<forall>m \<in> set ms. m_calls m \<noteq> [] \<longrightarrow> m_role m = Assistant)"

definition clean_history :: "message list \<Rightarrow> bool" where
  "clean_history ms \<longleftrightarrow>
     calls_by_assistants ms \<and> distinct (called_ids ms) \<and> distinct (answered_ids ms) \<and> paired ms"

lemma caller_is_assistant:
  assumes "calls_by_assistants ms" "i < length ms" "j < length (m_calls (ms ! i))"
  shows "m_role (ms ! i) = Assistant"
proof -
  have "ms ! i \<in> set ms" "m_calls (ms ! i) \<noteq> []" using assms by auto
  with assms(1) show ?thesis by (auto simp: calls_by_assistants_def)
qed

lemma call_refs_fst: "calls_by_assistants ms \<Longrightarrow> map fst (call_refs k ms) = called_ids ms"
  by (induction ms arbitrary: k)
    (auto simp: calls_by_assistants_def split_def comp_def
      simp flip: map_map [of tc_id snd, unfolded comp_def])

lemma byID_iff:
  assumes "calls_by_assistants ms" and "distinct (called_ids ms)"
  shows "byID ms x = Some (i, j) \<longleftrightarrow>
    i < length ms \<and> j < length (m_calls (ms ! i)) \<and> tc_id (m_calls (ms ! i) ! j) = x"
proof -
  have "distinct (map fst (rev (call_refs 0 ms)))"
    using assms call_refs_fst [of ms 0] by (simp add: rev_map [symmetric])
  then have "byID ms x = Some (i, j) \<longleftrightarrow> (x, i, j) \<in> set (call_refs 0 ms)"
    by (simp add: byID_def)
  also have "\<dots> \<longleftrightarrow> i < length ms \<and> j < length (m_calls (ms ! i)) \<and> tc_id (m_calls (ms ! i) ! j) = x"
  proof -
    have "m_role (ms ! i) = Assistant" if "i < length ms" "j < length (m_calls (ms ! i))"
      using caller_is_assistant [OF assms(1) that] .
    then show ?thesis by (auto simp: call_refs_set)
  qed
  finally show ?thesis .
qed

lemma called_ids_index:
  "set (called_ids ms) = {tc_id (m_calls (ms ! i) ! j) | i j. i < length ms \<and> j < length (m_calls (ms ! i))}"
  by (force simp: called_ids_def in_set_conv_nth)

lemma answered_ids_index:
  "set (answered_ids ms) = {m_call_id (ms ! i) | i. i < length ms \<and> m_role (ms ! i) = Tool}"
  by (force simp: answered_ids_def in_set_conv_nth)

lemma answered_ids_inj:
  assumes "distinct (answered_ids ms)" "i < length ms" "k < length ms"
    "m_role (ms ! i) = Tool" "m_role (ms ! k) = Tool" "m_call_id (ms ! i) = m_call_id (ms ! k)"
  shows "i = k"
  using assms
proof (induction ms arbitrary: i k)
  case (Cons m ms)
  have head: False if "m_role m = Tool" "q < length ms" "m_role (ms ! q) = Tool"
    "m_call_id (ms ! q) = m_call_id m" for q
  proof -
    have "m_call_id m \<in> set (answered_ids ms)"
      using that by (auto simp: answered_ids_index intro!: exI [of _ q])
    with Cons.prems(1) that(1) show False by simp
  qed
  show ?case
  proof (cases i)
    case 0
    then show ?thesis using Cons.prems head by (cases k) auto
  next
    case (Suc i')
    show ?thesis
    proof (cases k)
      case 0
      then show ?thesis using Cons.prems head [of i'] Suc by auto
    next
      case (Suc k')
      have "distinct (answered_ids ms)" using Cons.prems(1) by (auto split: if_splits)
      then show ?thesis using Cons.IH [of i' k'] Cons.prems Suc \<open>i = Suc i'\<close> by simp
    qed
  qed
qed simp

section \<open>The victims are pairs of the history\<close>

lemma pair_at_Some:
  assumes "(i, m) \<in> set (enumerate 0 ms)" "pair_at ms (i, m) = Some p"
  shows "tp_tool p = i \<and> i < length ms \<and> m_role (ms ! i) = Tool \<and>
    byID ms (m_call_id (ms ! i)) = Some (tp_assistant p, tp_call p)"
  using assms by (auto simp: pair_at_def in_set_enumerate_eq Let_def split: if_splits option.splits)

lemma collectToolPairs_in:
  assumes "p \<in> set (collectToolPairs ms)"
  shows "tp_tool p < length ms \<and> m_role (ms ! tp_tool p) = Tool \<and>
    byID ms (m_call_id (ms ! tp_tool p)) = Some (tp_assistant p, tp_call p)"
proof -
  from assms obtain i m where "(i, m) \<in> set (enumerate 0 ms)" "pair_at ms (i, m) = Some p"
    by (auto simp: collectToolPairs_def List.map_filter_def)
  from pair_at_Some [OF this] show ?thesis by auto
qed

definition in_groups :: "tool_pair set \<Rightarrow> group_state \<Rightarrow> bool" where
  "in_groups P st \<longleftrightarrow> (\<forall>g \<in> set (gs_groups st). fst g \<in> P \<and> set (snd g) \<subseteq> P) \<and>
     set (gs_pending st) \<subseteq> P \<and> (\<forall>k g. gs_key st k = Some g \<longrightarrow> g < length (gs_groups st))"

lemma in_groups_update:
  assumes "in_groups P st" "gs_key st k = Some g" "q \<in> P" "p \<in> P"
  shows "in_groups P (st\<lparr>gs_groups := (gs_groups st)[g := (q, snd (gs_groups st ! g) @ [p])]\<rparr>)"
proof -
  have g: "g < length (gs_groups st)" using assms by (auto simp: in_groups_def)
  then have "gs_groups st ! g \<in> set (gs_groups st)" by simp
  then have "set (snd (gs_groups st ! g)) \<subseteq> P" using assms(1) by (simp add: in_groups_def)
  then have sub: "set (snd (gs_groups st ! g) @ [p]) \<subseteq> P" using assms(4) by simp
  let ?x = "(q, snd (gs_groups st ! g) @ [p])"
  have "fst y \<in> P \<and> set (snd y) \<subseteq> P" if "y \<in> set ((gs_groups st)[g := ?x])" for y
  proof -
    from that have "y = ?x \<or> y \<in> set (gs_groups st)"
      using set_update_subset_insert by fastforce
    then show ?thesis using sub assms(1,3) by (auto simp: in_groups_def)
  qed
  then show ?thesis using assms(1) by (simp add: in_groups_def)
qed

lemma in_groups_open: "in_groups P st \<Longrightarrow> p \<in> P \<Longrightarrow> in_groups P (open_group p st)"
  by (auto simp: in_groups_def open_group_def less_SucI)

lemma in_groups_step: "in_groups P st \<Longrightarrow> p \<in> P \<Longrightarrow> in_groups P (group_step prot st p)"
proof -
  assume st: "in_groups P st" and p: "p \<in> P"
  have keep: "fst (gs_groups st ! g) \<in> P" if "gs_key st k = Some g" for k g
    using st that nth_mem [of g "gs_groups st"] by (auto simp: in_groups_def)
  have pend: "in_groups P (st\<lparr>gs_pending := gs_pending st @ [p]\<rparr>)"
    using st p by (auto simp: in_groups_def)
  show ?thesis
    using st p pend in_groups_open [OF st p]
    by (auto simp: group_step_def Let_def keep intro: in_groups_update split: option.splits)
qed

lemma in_groups_attach: "in_groups P st \<Longrightarrow> p \<in> P \<Longrightarrow> in_groups P (attach_pending st p)"
proof (cases "gs_key st (pair_key p)")
  case (Some g)
  moreover assume st: "in_groups P st" and "p \<in> P"
  moreover from st Some have "fst (gs_groups st ! g) \<in> P"
    using nth_mem [of g "gs_groups st"] by (auto simp: in_groups_def)
  ultimately show ?thesis by (auto simp: attach_pending_def intro: in_groups_update)
qed (simp add: attach_pending_def)

lemma victims_in_pairs: "set (victims (active_groups prot ps)) \<subseteq> set ps"
proof -
  let ?st0 = "\<lparr>gs_groups = [], gs_key = Map.empty, gs_pending = []\<rparr>"
  let ?st = "foldl (group_step prot) ?st0 ps"
  have st: "in_groups (set ps) ?st"
    by (rule foldl_invariant, simp add: in_groups_def, erule in_groups_step)
  have "in_groups (set ps) (foldl attach_pending ?st (gs_pending ?st))"
    by (rule foldl_invariant, rule st, erule in_groups_attach) (use st in \<open>auto simp: in_groups_def\<close>)
  then show ?thesis
    by (fastforce simp: victims_def active_groups_def group_pairs_def Let_def in_groups_def)
qed

section \<open>Merging keeps calls and results paired\<close>

lemma rewrite_message_ids [simp]:
  "m_role (rewrite_message f m) = m_role m" "m_calls (rewrite_message f m) = m_calls m"
  "m_call_id (rewrite_message f m) = m_call_id m"
  by (simp_all add: rewrite_message_def set_first_text_def split: list.split)

lemma note_merged_ids [simp]:
  "m_role (note_merged n m) = m_role m" "m_calls (note_merged n m) = m_calls m"
  "m_call_id (note_merged n m) = m_call_id m"
  by (simp_all add: note_merged_def set_first_text_def split: list.split)

lemma stripped_ids [simp]:
  "m_role (stripped vs i m) = m_role m" "m_call_id (stripped vs i m) = m_call_id m"
  by (simp_all add: stripped_def)

lemma kept_calls_untouched: "\<not> touched vs i \<Longrightarrow> kept_calls vs i m = m_calls m"
  by (simp add: kept_calls_def touched_def)

lemma stripped_calls: "m_calls (stripped vs i m) = kept_calls vs i m"
  by (simp add: stripped_def kept_calls_untouched)

lemma set_kept_calls:
  "set (kept_calls vs i m) =
   {m_calls m ! j | j. j < length (m_calls m) \<and> (\<forall>v \<in> set vs. \<not> (tp_assistant v = i \<and> tp_call v = j))}"
  by (auto simp: kept_calls_def set_enumerate0 image_iff)

text \<open>The messages that survive, as positions of the old history.\<close>

lemma answered_ids_map:
  "answered_ids (map f xs) = map (\<lambda>x. m_call_id (f x)) (filter (\<lambda>x. m_role (f x) = Tool) xs)"
  by (induction xs) auto

lemma mergeToolPairs_ids:
  assumes "mergeToolPairs rounds ms = Merged out"
  obtains vs where "set vs \<subseteq> set (collectToolPairs ms)"
    "set (called_ids out) = {tc_id c | i c. i \<in> set (survivors vs ms) \<and> c \<in> set (kept_calls vs i (ms ! i))}"
    "set (answered_ids out) = {m_call_id (ms ! i) | i. i \<in> set (survivors vs ms) \<and> m_role (ms ! i) = Tool}"
proof -
  let ?ps = "collectToolPairs ms"
  let ?gs = "active_groups (protected_tools rounds ?ps) ?ps"
  let ?vs = "victims ?gs"
  let ?f = "\<lambda>i. note_merged (absorbed ?gs i) (rewrite_message (old_to_new (survivors ?vs ms)) (stripped ?vs i (ms ! i)))"
  from assms have out: "out = map ?f (survivors ?vs ms)"
    by (auto simp: mergeToolPairs_def Let_def comp_def split: if_splits)
  have "set (called_ids out) = {tc_id c | i c. i \<in> set (survivors ?vs ms) \<and> c \<in> set (kept_calls ?vs i (ms ! i))}"
    unfolding out called_ids_def by (auto simp: stripped_calls)
  moreover have "set (answered_ids out) = {m_call_id (ms ! i) | i. i \<in> set (survivors ?vs ms) \<and> m_role (ms ! i) = Tool}"
    unfolding out by (auto simp: answered_ids_map)
  ultimately show ?thesis using that [of ?vs] victims_in_pairs by blast
qed

lemma survivors_iff: "i \<in> set (survivors vs ms) \<longleftrightarrow> i < length ms \<and> \<not> dropped vs i (ms ! i)"
  by (auto simp: survivors_def)

lemma merge_paired_aux:
  assumes clean: "clean_history ms" and vs: "set vs \<subseteq> set (collectToolPairs ms)"
  shows "{tc_id c | i c. i \<in> set (survivors vs ms) \<and> c \<in> set (kept_calls vs i (ms ! i))} =
    {m_call_id (ms ! i) | i. i \<in> set (survivors vs ms) \<and> m_role (ms ! i) = Tool}" (is "?C = ?A")
proof (intro set_eqI iffI)
  note c = clean [unfolded clean_history_def]
  have byI: "byID ms x = Some (i, j) \<longleftrightarrow> i < length ms \<and> j < length (m_calls (ms ! i)) \<and> tc_id (m_calls (ms ! i) ! j) = x"
    for x i j using c byID_iff by blast
  have asst: "m_role (ms ! i) = Assistant" if "i < length ms" "j < length (m_calls (ms ! i))" for i j
    using c that caller_is_assistant by blast
  have vict: "tp_tool v < length ms \<and> m_role (ms ! tp_tool v) = Tool \<and>
      byID ms (m_call_id (ms ! tp_tool v)) = Some (tp_assistant v, tp_call v)" if "v \<in> set vs" for v
    using vs that collectToolPairs_in by blast
  have keptT: "i \<in> set (survivors vs ms) \<longleftrightarrow> (\<forall>v \<in> set vs. tp_tool v \<noteq> i)"
    if "i < length ms" "m_role (ms ! i) = Tool" for i
  proof -
    have "\<not> touched vs i" using vict asst that by (fastforce simp: touched_def byI)
    with that show ?thesis by (auto simp: survivors_iff dropped_def)
  qed
  fix x
  {
    assume "x \<in> ?C"
    then obtain i j where ij: "i < length ms" "j < length (m_calls (ms ! i))" "x = tc_id (m_calls (ms ! i) ! j)"
      "\<forall>v \<in> set vs. \<not> (tp_assistant v = i \<and> tp_call v = j)" by (auto simp: survivors_iff set_kept_calls)
    then have "x \<in> set (answered_ids ms)" using c by (auto simp: paired_def called_ids_index)
    then obtain t where t: "t < length ms" "m_role (ms ! t) = Tool" "m_call_id (ms ! t) = x"
      by (auto simp: answered_ids_index)
    have "byID ms x = Some (i, j)" using ij by (simp add: byI)
    then have "\<forall>v \<in> set vs. tp_tool v \<noteq> t" using vict ij(4) t(3) by force
    with t show "x \<in> ?A" using keptT by auto
  next
    assume "x \<in> ?A"
    then obtain t where t: "t \<in> set (survivors vs ms)" "t < length ms" "m_role (ms ! t) = Tool" "m_call_id (ms ! t) = x"
      by (auto simp: survivors_iff)
    then have "x \<in> set (called_ids ms)" using c by (auto simp: paired_def answered_ids_index)
    then obtain i j where ij: "i < length ms" "j < length (m_calls (ms ! i))" "tc_id (m_calls (ms ! i) ! j) = x"
      by (auto simp: called_ids_index)
    have free: "\<not> (tp_assistant v = i \<and> tp_call v = j)" if "v \<in> set vs" for v
    proof
      assume eq: "tp_assistant v = i \<and> tp_call v = j"
      from vict [OF that] eq ij have "m_call_id (ms ! tp_tool v) = x" by (simp add: byI)
      with vict [OF that] t c have "tp_tool v = t" using answered_ids_inj [of ms "tp_tool v" t] by auto
      with t keptT that show False by blast
    qed
    then have call: "m_calls (ms ! i) ! j \<in> set (kept_calls vs i (ms ! i))" using ij by (auto simp: set_kept_calls)
    moreover have "\<not> dropped vs i (ms ! i)"
      using call vict asst [OF ij(1,2)] by (auto simp: dropped_def)
    ultimately show "x \<in> ?C" using ij by (auto simp: survivors_iff)
  }
qed

section \<open>What a merge discards\<close>

text \<open>
  The invariant of the grouping pass over the processed pairs \<open>P\<close>: members of a group share
  its key, a victim is a placeholder, repeats the representative's text, or the
  representative is itself a victim, and only a \<open>read_file\<close> representative can be a victim.
\<close>

definition group_ok :: "(tool_pair \<times> tool_pair list) list \<Rightarrow> tool_pair \<times> tool_pair list \<Rightarrow> bool" where
  "group_ok gs g \<longleftrightarrow>
     \<not> isSlimPlaceholder (tp_text (fst g)) \<and>
     (\<forall>v \<in> set (snd g). pair_key v = pair_key (fst g) \<and>
        (isSlimPlaceholder (tp_text v) \<or> tp_text v = tp_text (fst g) \<or> fst g \<in> set (snd g))) \<and>
     (\<forall>g' \<in> set gs. fst g \<in> set (snd g') \<longrightarrow> tp_name (fst g) = ''read_file'')"

definition merge_inv :: "tool_pair set \<Rightarrow> group_state \<Rightarrow> bool" where
  "merge_inv P st \<longleftrightarrow> in_groups P st \<and>
     (\<forall>g \<in> set (gs_groups st). group_ok (gs_groups st) g) \<and>
     (\<forall>k g. gs_key st k = Some g \<longrightarrow> pair_key (fst (gs_groups st ! g)) = k) \<and>
     (\<forall>p \<in> set (gs_pending st). isSlimPlaceholder (tp_text p))"

text \<open>Replacing group \<open>g\<close> by one with the new victim \<open>p\<close> and representative \<open>q\<close>.\<close>

lemma merge_inv_update:
  assumes inv: "merge_inv P st" and g: "gs_key st (pair_key p) = Some g"
    and q: "q = fst (gs_groups st ! g) \<and> (isSlimPlaceholder (tp_text p) \<or> tp_text p = tp_text q) \<or>
            q = p \<and> tp_name p = ''read_file'' \<and> \<not> isSlimPlaceholder (tp_text p)"
    and new: "\<forall>h \<in> set (gs_groups st). fst h \<noteq> p" and p: "p \<in> P"
  shows "merge_inv P (st\<lparr>gs_groups := (gs_groups st)[g := (q, snd (gs_groups st ! g) @ [p])]\<rparr>)"
proof -
  let ?gs = "gs_groups st" and ?x = "(q, snd (gs_groups st ! g) @ [p])"
  have len: "g < length ?gs" using inv g by (auto simp: merge_inv_def in_groups_def)
  then have old: "?gs ! g \<in> set ?gs" by simp
  have ok: "group_ok ?gs h" if "h \<in> set ?gs" for h using inv that by (auto simp: merge_inv_def)
  have key: "pair_key (fst (?gs ! g)) = pair_key p" using inv g by (auto simp: merge_inv_def)
  have qP: "q \<in> P" using q p inv old by (auto simp: merge_inv_def in_groups_def)
  have mem: "h = ?x \<or> h \<in> set ?gs" if "h \<in> set (?gs[g := ?x])" for h
    using that set_update_subset_insert by fastforce
  have only_read: "tp_name (fst h) = ''read_file''" if "h \<in> set ?gs" "h' \<in> set (?gs[g := ?x])"
    "fst h \<in> set (snd h')" for h h'
    using mem [OF that(2)]
  proof
    assume "h' = ?x"
    with that new have "fst h \<in> set (snd (?gs ! g))" by auto
    with ok [OF that(1)] old show ?thesis by (auto simp: group_ok_def)
  qed (use ok [OF that(1)] that(3) in \<open>auto simp: group_ok_def\<close>)
  have okx: "group_ok (?gs[g := ?x]) ?x"
    using q ok [OF old] key only_read [OF old] by (auto simp: group_ok_def)
  have "group_ok (?gs[g := ?x]) h" if "h \<in> set (?gs[g := ?x])" for h
    using mem [OF that]
  proof
    assume "h \<in> set ?gs"
    with ok [OF this] only_read show ?thesis by (auto simp: group_ok_def)
  qed (use okx in simp)
  moreover have "pair_key (fst (?gs[g := ?x] ! k)) = j" if "gs_key st j = Some k" for j k
    using inv that key q len by (cases "k = g") (auto simp: merge_inv_def)
  moreover have "in_groups P (st\<lparr>gs_groups := ?gs[g := ?x]\<rparr>)"
    by (rule in_groups_update [OF _ g qP p]) (use inv in \<open>simp add: merge_inv_def\<close>)
  ultimately show ?thesis using inv by (simp add: merge_inv_def)
qed

lemma merge_inv_open:
  assumes "merge_inv P st" "p \<in> P" "\<not> isSlimPlaceholder (tp_text p)"
    "\<forall>h \<in> set (gs_groups st). p \<notin> set (snd h)"
  shows "merge_inv P (open_group p st)"
  using assms in_groups_open [of P st p]
  by (auto simp: merge_inv_def group_ok_def open_group_def nth_append in_groups_def)

lemma merge_inv_step:
  assumes inv: "merge_inv P st" and p: "p \<notin> P"
  shows "merge_inv (insert p P) (group_step prot st p)"
proof -
  have inv': "merge_inv (insert p P) st" using inv by (auto simp: merge_inv_def in_groups_def)
  have new: "\<forall>h \<in> set (gs_groups st). fst h \<noteq> p" "\<forall>h \<in> set (gs_groups st). p \<notin> set (snd h)"
    using inv p by (auto simp: merge_inv_def in_groups_def)
  have pend: "isSlimPlaceholder (tp_text p) \<Longrightarrow> merge_inv (insert p P) (st\<lparr>gs_pending := gs_pending st @ [p]\<rparr>)"
    using inv' by (auto simp: merge_inv_def in_groups_def)
  have opn: "\<not> isSlimPlaceholder (tp_text p) \<Longrightarrow> merge_inv (insert p P) (open_group p st)"
    using merge_inv_open [OF inv'] new(2) by simp
  have upd: "merge_inv (insert p P) (st\<lparr>gs_groups := (gs_groups st)[g := (q, snd (gs_groups st ! g) @ [p])]\<rparr>)"
    if "gs_key st (pair_key p) = Some g" "q = fst (gs_groups st ! g) \<and> tp_text p = tp_text q \<or>
      q = p \<and> tp_name p = ''read_file'' \<and> \<not> isSlimPlaceholder (tp_text p)" for g q
    by (rule merge_inv_update [OF inv' that(1) _ new(1)]) (use that(2) in auto)
  show ?thesis
    using inv' pend opn upd by (auto simp: group_step_def Let_def split: option.split)
qed

lemma merge_inv_foldl: "distinct ps \<Longrightarrow> merge_inv (set ps)
    (foldl (group_step prot) \<lparr>gs_groups = [], gs_key = Map.empty, gs_pending = []\<rparr> ps)"
proof (induction ps rule: rev_induct)
  case (snoc p ps)
  then show ?case using merge_inv_step [of "set ps" _ p prot] by simp
qed (simp add: merge_inv_def in_groups_def)

lemma merge_inv_attach:
  assumes "merge_inv P st" "p \<in> P" "isSlimPlaceholder (tp_text p)"
  shows "merge_inv P (attach_pending st p)"
proof (cases "gs_key st (pair_key p)")
  case (Some g)
  have "\<forall>h \<in> set (gs_groups st). fst h \<noteq> p"
    using assms by (auto simp: merge_inv_def group_ok_def)
  from merge_inv_update [OF assms(1) Some _ this assms(2), of "fst (gs_groups st ! g)"] assms(3) Some
  show ?thesis by (simp add: attach_pending_def)
qed (use assms in \<open>simp add: attach_pending_def\<close>)

lemma group_pairs_ok:
  assumes "distinct ps" and "g \<in> set (group_pairs prot ps)"
  shows "group_ok (group_pairs prot ps) g \<and> fst g \<in> set ps"
proof -
  let ?st = "foldl (group_step prot) \<lparr>gs_groups = [], gs_key = Map.empty, gs_pending = []\<rparr> ps"
  have st: "merge_inv (set ps) ?st" by (rule merge_inv_foldl [OF assms(1)])
  have "merge_inv (set ps) (foldl attach_pending ?st (gs_pending ?st))"
    by (rule foldl_invariant, rule st, erule merge_inv_attach)
      (use st in \<open>auto simp: merge_inv_def in_groups_def\<close>)
  with assms(2) show ?thesis by (auto simp: group_pairs_def Let_def merge_inv_def in_groups_def)
qed

lemma collectToolPairs_distinct: "distinct (collectToolPairs ms)"
proof -
  have "sorted_wrt (<) (map tp_tool (List.map_filter (pair_at ms) (enumerate k xs))) \<and>
    (\<forall>p \<in> set (List.map_filter (pair_at ms) (enumerate k xs)). k \<le> tp_tool p)" for k xs
  proof (induction xs arbitrary: k)
    case (Cons x xs)
    have "tp_tool p = k" if "pair_at ms (k, x) = Some p" for p
      using that by (auto simp: pair_at_def Let_def split: if_splits option.splits)
    with Cons.IH [of "Suc k"] show ?case
      by (auto simp: List.map_filter_simps split: option.splits dest!: Suc_leD) (metis Suc_le_lessD)
  qed (simp add: List.map_filter_simps)
  from this [of 0 ms] have "sorted_wrt (<) (map tp_tool (collectToolPairs ms))"
    by (simp add: collectToolPairs_def)
  then have "distinct (map tp_tool (collectToolPairs ms))"
    using strict_sorted_iff by blast
  then show ?thesis using distinct_map by blast
qed

section \<open>Properties\<close>

text \<open>A round with one call and its result, as \<open>runTools\<close> writes it back.\<close>

definition round_of :: "string \<Rightarrow> string \<Rightarrow> string \<Rightarrow> string \<Rightarrow> message list" where
  "round_of cid name args res =
     [NewAssistantMessage [text_block []] []
        [\<lparr>tc_id = cid, tc_index = 0, tc_name = name, tc_args = args, tc_request = [],
          tc_parent = [], tc_depth = 0\<rparr>],
      NewToolMessage cid res]"

lemma subseq_concat_filter:
  assumes "\<And>x. subseq (f x) (g x)"
  shows "subseq (concat (map f (filter P xs))) (concat (map g xs))"
proof (induction xs)
  case (Cons x xs)
  show ?case
  proof (cases "P x")
    case True
    with Cons assms show ?thesis by (simp add: list_emb_append_mono)
  next
    case False
    with Cons show ?thesis by (simp add: list_emb_append2)
  qed
qed simp

lemma distinct_subseq: "subseq xs ys \<Longrightarrow> distinct ys \<Longrightarrow> distinct xs"
  by (induction rule: list_emb.induct) (auto dest: list_emb_set)

lemma kept_calls_subseq: "subseq (kept_calls vs i m) (m_calls m)"
proof -
  have "subseq (kept_calls vs i m) (map snd (enumerate 0 (m_calls m)))"
    unfolding kept_calls_def by (intro subseq_map subseq_filter_left)
  then show ?thesis by simp
qed

lemma kept_calls_Nil: "kept_calls vs i m \<noteq> [] \<Longrightarrow> m_calls m \<noteq> []"
  by (auto simp: kept_calls_def)

lemma called_ids_nths: "called_ids ms = concat (map (\<lambda>i. map tc_id (m_calls (ms ! i))) [0..<length ms])"
  unfolding called_ids_def by (subst (1) map_nth [symmetric]) (simp add: comp_def)

lemma answered_ids_nths:
  "answered_ids ms = map (\<lambda>i. m_call_id (ms ! i)) (filter (\<lambda>i. m_role (ms ! i) = Tool) [0..<length ms])"
  by (subst (1) map_nth [symmetric]) (simp only: answered_ids_map)

lemma mergeToolPairs_subseq:
  assumes "mergeToolPairs rounds ms = Merged out"
  shows "subseq (called_ids out) (called_ids ms)" "subseq (answered_ids out) (answered_ids ms)"
    and "calls_by_assistants ms \<Longrightarrow> calls_by_assistants out"
proof -
  let ?ps = "collectToolPairs ms"
  let ?gs = "active_groups (protected_tools rounds ?ps) ?ps"
  let ?vs = "victims ?gs"
  let ?f = "\<lambda>i. note_merged (absorbed ?gs i) (rewrite_message (old_to_new (survivors ?vs ms)) (stripped ?vs i (ms ! i)))"
  from assms have out: "out = map ?f (survivors ?vs ms)"
    by (auto simp: mergeToolPairs_def Let_def comp_def split: if_splits)
  have "called_ids out = concat (map (\<lambda>i. map tc_id (kept_calls ?vs i (ms ! i))) (survivors ?vs ms))"
    unfolding out called_ids_def by (simp add: stripped_calls comp_def)
  then show "subseq (called_ids out) (called_ids ms)"
    by (simp add: called_ids_nths survivors_def subseq_concat_filter subseq_map kept_calls_subseq)
  have "answered_ids out = map (\<lambda>i. m_call_id (ms ! i)) (filter (\<lambda>i. m_role (ms ! i) = Tool) (survivors ?vs ms))"
    unfolding out by (simp add: answered_ids_map)
  then show "subseq (answered_ids out) (answered_ids ms)"
    by (simp add: answered_ids_nths survivors_def filter_filter conj_commute subseq_map flip: filter_filter)
  assume "calls_by_assistants ms"
  then show "calls_by_assistants out"
    unfolding out calls_by_assistants_def
    by (auto simp: stripped_calls survivors_def dest!: kept_calls_Nil)
qed

text \<open>C33. Merging redundant tool pairs keeps every call answered exactly once: from a history whose
  calls are all made by assistants, whose call ids are distinct, whose answered ids are distinct and in
  which the called ids are the answered ids, the merged history is of this kind again. What is left of
  the calls and of the results stands in the old order, and the self check
  \<open>assertNoOrphanToolMsgs\<close> finds nothing.\<close>

theorem mergeToolPairs_keeps_pairing:
  assumes "clean_history ms" and "mergeToolPairs rounds ms = Merged out"
  shows "clean_history out \<and>
    subseq (called_ids out) (called_ids ms) \<and> subseq (answered_ids out) (answered_ids ms) \<and>
    assertNoOrphanToolMsgs out = None"
proof -
  note sub = mergeToolPairs_subseq [OF assms(2)]
  from assms(2) obtain vs where "set vs \<subseteq> set (collectToolPairs ms)"
    "set (called_ids out) = {tc_id c | i c. i \<in> set (survivors vs ms) \<and> c \<in> set (kept_calls vs i (ms ! i))}"
    "set (answered_ids out) = {m_call_id (ms ! i) | i. i \<in> set (survivors vs ms) \<and> m_role (ms ! i) = Tool}"
    by (rule mergeToolPairs_ids)
  with merge_paired_aux [OF assms(1)] have "paired out" by (simp add: paired_def)
  with sub assms(1) show ?thesis
    by (auto simp: clean_history_def assertNoOrphan_None_iff dest: distinct_subseq)
qed

definition rerun_history :: "string \<Rightarrow> string \<Rightarrow> string \<Rightarrow> message list" where
  "rerun_history tool v1 v2 =
     round_of ''c0'' tool ''A'' v1 @ round_of ''c1'' tool ''A'' v2 @
     round_of ''c2'' ''bash'' ''B'' ''x'' @ round_of ''c3'' ''bash'' ''C'' ''y''"

theorem mergeToolPairs_keeps_pairing_witness:
  "clean_history (rerun_history ''bash'' ''ok'' ''ok'') \<and>
   (\<exists>out. mergeToolPairs 2 (rerun_history ''bash'' ''ok'' ''ok'') = Merged out \<and>
     length out = 6 \<and> clean_history out \<and>
     subseq (called_ids out) (called_ids (rerun_history ''bash'' ''ok'' ''ok'')))"
proof -
  let ?h = "rerun_history ''bash'' ''ok'' ''ok''"
  have c: "clean_history ?h" by code_simp
  have "(case mergeToolPairs 2 ?h of Merged out \<Rightarrow> length out = 6 | _ \<Rightarrow> False)" by code_simp
  then obtain out where out: "mergeToolPairs 2 ?h = Merged out" "length out = 6"
    by (auto split: merge_result.splits)
  show ?thesis using c out mergeToolPairs_keeps_pairing [OF c out(1)] by blast
qed

text \<open>For every tool but \<open>read_file\<close>, a merge deletes only redundant results: each deleted
  pair has the tool and arguments of its group's representative, its text is a slim
  placeholder or equals the representative's, and the representative survives.\<close>

theorem merge_discards_only_redundant:
  assumes "g \<in> set (active_groups prot (collectToolPairs ms))" and "v \<in> set (snd g)"
    and "tp_name (fst g) \<noteq> ''read_file''"
  shows "pair_key v = pair_key (fst g) \<and>
    (isSlimPlaceholder (tp_text v) \<or> tp_text v = tp_text (fst g)) \<and>
    fst g \<notin> set (victims (active_groups prot (collectToolPairs ms)))"
proof -
  have "g \<in> set (group_pairs prot (collectToolPairs ms))" using assms(1) by (auto simp: active_groups_def)
  from group_pairs_ok [OF collectToolPairs_distinct this] assms show ?thesis
    by (auto simp: group_ok_def victims_def active_groups_def)
qed

definition demo_groups :: "message list \<Rightarrow> (tool_pair \<times> tool_pair list) list" where
  "demo_groups ms = active_groups (protected_tools 2 (collectToolPairs ms)) (collectToolPairs ms)"

theorem merge_discards_only_redundant_witness:
  "\<exists>g v. g \<in> set (demo_groups (rerun_history ''bash'' ''ok'' ''ok'')) \<and> v \<in> set (snd g) \<and>
     tp_text v = ''ok'' \<and>
     fst g \<notin> set (victims (demo_groups (rerun_history ''bash'' ''ok'' ''ok'')))"
proof -
  let ?gs = "demo_groups (rerun_history ''bash'' ''ok'' ''ok'')"
  have "list_ex (\<lambda>g. tp_name (fst g) \<noteq> ''read_file'' \<and> list_ex (\<lambda>v. tp_text v = ''ok'') (snd g)) ?gs"
    by code_simp
  then obtain g v where g: "g \<in> set ?gs" "v \<in> set (snd g)" "tp_name (fst g) \<noteq> ''read_file''"
    "tp_text v = ''ok''" by (auto simp: list_ex_iff)
  from merge_discards_only_redundant [OF g(1) [unfolded demo_groups_def] g(2,3)] g show ?thesis
    unfolding demo_groups_def by blast
qed

text \<open>The pairs and groups of the two-read history, computed symbolically.\<close>

definition read_pair :: "nat \<Rightarrow> string \<Rightarrow> tool_pair" where
  "read_pair i t = \<lparr>tp_assistant = 2 * i, tp_call = 0, tp_tool = 2 * i + 1,
     tp_name = ''read_file'', tp_args = ''A'', tp_text = t, tp_image = False\<rparr>"

lemma two_reads_pairs:
  "collectToolPairs (rerun_history ''read_file'' v1 v2) =
     [read_pair 0 v1, read_pair 1 v2,
      (read_pair 2 ''x'')\<lparr>tp_name := ''bash'', tp_args := ''B''\<rparr>,
      (read_pair 3 ''y'')\<lparr>tp_name := ''bash'', tp_args := ''C''\<rparr>]"
  by (simp add: collectToolPairs_def rerun_history_def round_of_def List.map_filter_simps
      pair_at_def byID_def constructor_defs first_text_def read_pair_def)

lemma two_reads_groups:
  assumes "v1 \<noteq> v2" "\<not> isSlimPlaceholder v1" "\<not> isSlimPlaceholder v2"
  shows "demo_groups (rerun_history ''read_file'' v1 v2) = [(read_pair 1 v2, [read_pair 1 v2])]"
  using assms
  by (simp add: demo_groups_def two_reads_pairs active_groups_def group_pairs_def Let_def
      protected_tools_def defaultMergeProtectRounds_def last_n_def read_pair_def group_step_def
      open_group_def attach_pending_def pair_key_def)

text \<open>A re-read of a changed file is lost: the history \<open>read v1; read v2\<close> of one path
  with different contents, followed by two protected rounds, is merged to a history that
  holds the stale \<open>v1\<close> and no longer the newest \<open>v2\<close>. The \<open>read_file\<close> branch appends the
  new pair to the victims before it makes it the representative; its comment promises to keep
  the newest and to delete the old one.\<close>

theorem two_reads_keep_the_stale_one:
  assumes "v1 \<noteq> v2" and "\<not> isSlimPlaceholder v1" and "\<not> isSlimPlaceholder v2"
  shows "mergeToolPairs 2 (rerun_history ''read_file'' v1 v2) =
     Merged (round_of ''c0'' ''read_file'' ''A'' v1 @
       round_of ''c2'' ''bash'' ''B'' ''x'' @ round_of ''c3'' ''bash'' ''C'' ''y'')"
proof -
  let ?h = "rerun_history ''read_file'' v1 v2"
  have gs: "active_groups (protected_tools 2 (collectToolPairs ?h)) (collectToolPairs ?h) =
      [(read_pair 1 v2, [read_pair 1 v2])]"
    using two_reads_groups [OF assms] by (simp add: demo_groups_def)
  show ?thesis
    unfolding mergeToolPairs_def gs Let_def
    using assms(2)
    by (simp add: two_reads_pairs victims_def)
      (simp add: survivors_def dropped_def touched_def kept_calls_def hasVisibleValue_def
        rerun_history_def round_of_def constructor_defs read_pair_def upt_rec [of _ 8]
        upt_rec [of _ "Suc _"] stripped_def rewrite_message_def note_merged_def absorbed_def
        isSlimPlaceholder_def has_prefix_def)
qed

theorem two_reads_keep_the_stale_one_witness:
  "mergeToolPairs 2 (rerun_history ''read_file'' ''old'' ''new'') =
     Merged (round_of ''c0'' ''read_file'' ''A'' ''old'' @
       round_of ''c2'' ''bash'' ''B'' ''x'' @ round_of ''c3'' ''bash'' ''C'' ''y'')"
  by (rule two_reads_keep_the_stale_one) (simp_all add: isSlimPlaceholder_def has_prefix_def)

text \<open>In general: whenever a merge deletes a result whose text differs from its
  representative's, the representative is deleted as well, so no pair that carries the
  group's last content survives.\<close>

theorem differing_victim_takes_representative:
  assumes "g \<in> set (active_groups prot (collectToolPairs ms))" and "v \<in> set (snd g)"
    and "\<not> isSlimPlaceholder (tp_text v)" and "tp_text v \<noteq> tp_text (fst g)"
  shows "fst g \<in> set (victims (active_groups prot (collectToolPairs ms)))"
proof -
  have "g \<in> set (group_pairs prot (collectToolPairs ms))" using assms(1) by (auto simp: active_groups_def)
  from group_pairs_ok [OF collectToolPairs_distinct this] assms show ?thesis
    by (auto simp: group_ok_def victims_def)
qed

theorem differing_victim_takes_representative_witness:
  "\<exists>g \<in> set (demo_groups (round_of ''c9'' ''read_file'' ''A'' ''v0'' @
       rerun_history ''read_file'' ''v1'' ''v2'')).
     tp_text (fst g) = ''v2'' \<and> fst g \<in> set (victims (demo_groups
       (round_of ''c9'' ''read_file'' ''A'' ''v0'' @ rerun_history ''read_file'' ''v1'' ''v2'')))"
proof -
  let ?gs = "demo_groups (round_of ''c9'' ''read_file'' ''A'' ''v0'' @
       rerun_history ''read_file'' ''v1'' ''v2'')"
  have "list_ex (\<lambda>g. tp_text (fst g) = ''v2'' \<and> list_ex (\<lambda>v. \<not> isSlimPlaceholder (tp_text v) \<and>
      tp_text v \<noteq> tp_text (fst g)) (snd g)) ?gs" by code_simp
  then obtain g v where g: "g \<in> set ?gs" "tp_text (fst g) = ''v2''" "v \<in> set (snd g)"
    "\<not> isSlimPlaceholder (tp_text v)" "tp_text v \<noteq> tp_text (fst g)" by (auto simp: list_ex_iff)
  from differing_victim_takes_representative [OF g(1) [unfolded demo_groups_def] g(3-5)] g
  show ?thesis unfolding demo_groups_def by blast
qed

end
