(* ===== verification/Ledgers.thy ===== *)
theory Ledgers
  imports Messages
begin

text \<open>
  \<open>agents/fileledger.go\<close>: the per-run ledger of touched files and the ledger of failed tool
  calls. Both keep their keys in the order of last occurrence; that contract is the locale
  \<open>recency_ledger\<close>. The merge of line ranges is modelled on Go slices, because its result
  depends on the backing array that \<open>append\<close> shares with its argument.
\<close>

section \<open>Go slices of strings\<close>

text \<open>
  A slice is its backing array, from the slice's first element to its capacity, and its
  length. \<open>append\<close> writes in place when the capacity suffices, and otherwise copies to a new
  array of capacity \<open>grow cap needed\<close>; the language leaves the growth to the implementation, so
  \<open>grow\<close> is a parameter.
\<close>

record slice =
  sl_arr :: "string list"
  sl_len :: nat

definition sl_list :: "slice \<Rightarrow> string list" where
  "sl_list s = take (sl_len s) (sl_arr s)"

definition sl_nil :: slice where
  "sl_nil = \<lparr>sl_arr = [], sl_len = 0\<rparr>"

definition sl_ok :: "slice \<Rightarrow> bool" where
  "sl_ok s \<longleftrightarrow> sl_len s \<le> length (sl_arr s)"

definition in_place :: "slice \<Rightarrow> string list \<Rightarrow> bool" where
  "in_place s xs \<longleftrightarrow> sl_len s + length xs \<le> length (sl_arr s)"

definition sl_append :: "(nat \<Rightarrow> nat \<Rightarrow> nat) \<Rightarrow> slice \<Rightarrow> string list \<Rightarrow> slice" where
  "sl_append grow s xs =
     (let n = sl_len s + length xs in
      if in_place s xs
      then \<lparr>sl_arr = take (sl_len s) (sl_arr s) @ xs @ drop n (sl_arr s), sl_len = n\<rparr>
      else \<lparr>sl_arr = sl_list s @ xs @ replicate (grow (length (sl_arr s)) n - n) [], sl_len = n\<rparr>)"

definition sl_tail :: "nat \<Rightarrow> slice \<Rightarrow> slice" where
  "sl_tail k s = \<lparr>sl_arr = drop k (sl_arr s), sl_len = sl_len s - k\<rparr>"

text \<open>The growth of the Go runtime for 16-byte elements up to capacity 8.\<close>

definition go_grow :: "nat \<Rightarrow> nat \<Rightarrow> nat" where
  "go_grow cap needed = (if 2 * cap < needed then needed else 2 * cap)"

lemma sl_ok_append: "sl_ok s \<Longrightarrow> sl_ok (sl_append grow s xs)"
  by (auto simp: sl_ok_def sl_append_def in_place_def sl_list_def Let_def)

lemma sl_list_append: "sl_ok s \<Longrightarrow> sl_list (sl_append grow s xs) = sl_list s @ xs"
  by (auto simp: sl_ok_def sl_append_def in_place_def sl_list_def Let_def)

section \<open>The file ledger\<close>

record file_entry =
  fe_op :: string
  fe_ranges :: slice

record file_ledger =
  fl_entries :: "string \<rightharpoonup> file_entry"
  fl_order :: "string list"

definition newFileLedger :: file_ledger where
  "newFileLedger = \<lparr>fl_entries = Map.empty, fl_order = []\<rparr>"

text \<open>
  The merging loop \<open>for _, r := range append(entry.ranges, ranges...)\<close>. \<open>buf\<close> is the array the
  range expression iterates over, \<open>shared\<close> says that \<open>entry.ranges\<close> still has the same array;
  then an in-place append to \<open>entry.ranges\<close> also writes \<open>buf\<close>, possibly an element that the
  loop has not read yet.
\<close>

fun merge_ranges ::
  "(nat \<Rightarrow> nat \<Rightarrow> nat) \<Rightarrow> nat \<Rightarrow> nat \<Rightarrow> string list \<Rightarrow> bool \<Rightarrow> slice \<Rightarrow> string list \<Rightarrow> slice" where
  "merge_ranges grow 0 i buf shared ent seen = ent"
| "merge_ranges grow (Suc k) i buf shared ent seen =
     (let r = buf ! i in
      if r = [] \<or> r \<in> set seen then merge_ranges grow k (Suc i) buf shared ent seen
      else
        let inp = in_place ent [r];
            buf' = (if shared \<and> inp then buf[sl_len ent := r] else buf)
        in merge_ranges grow k (Suc i) buf' (shared \<and> inp) (sl_append grow ent [r]) (r # seen))"

definition add_ranges :: "(nat \<Rightarrow> nat \<Rightarrow> nat) \<Rightarrow> slice \<Rightarrow> string list \<Rightarrow> slice" where
  "add_ranges grow old rs =
     (if rs = [] then old
      else
        let it = sl_append grow old rs;
            ent = (if in_place old rs then \<lparr>sl_arr = sl_arr it, sl_len = sl_len old\<rparr> else old);
            res = merge_ranges grow (sl_len it) 0 (sl_arr it) (in_place old rs) ent []
        in if 4 < sl_len res then sl_tail (sl_len res - 4) res else res)"

definition file_record ::
  "(nat \<Rightarrow> nat \<Rightarrow> nat) \<Rightarrow> string \<Rightarrow> string \<Rightarrow> string list \<Rightarrow> file_ledger \<Rightarrow> file_ledger" where
  "file_record grow path op rs l =
     (if path = [] then l
      else
        let order = (case fl_entries l path of None \<Rightarrow> fl_order l | Some _ \<Rightarrow> remove1 path (fl_order l));
            old = (case fl_entries l path of None \<Rightarrow> sl_nil | Some e \<Rightarrow> fe_ranges e);
            entry = \<lparr>fe_op = op, fe_ranges = add_ranges grow old rs\<rparr>
        in \<lparr>fl_entries = (fl_entries l)(path \<mapsto> entry), fl_order = order @ [path]\<rparr>)"

definition fileLedgerMaxEntries :: nat where "fileLedgerMaxEntries = 40"

definition file_line :: "file_ledger \<Rightarrow> string \<Rightarrow> string" where
  "file_line l p =
     (case fl_entries l p of None \<Rightarrow> ''- : '' @ p
      | Some e \<Rightarrow> ''- '' @ fe_op e @ '': '' @ p @
          (if sl_len (fe_ranges e) > 0 then '' ('' @ join '', '' (sl_list (fe_ranges e)) @ '')'' else []))"

definition file_render :: "file_ledger \<Rightarrow> string" where
  "file_render l =
     (if fl_order l = [] then []
      else lit_ledger_head @
        (if length (fl_order l) > fileLedgerMaxEntries
         then ''- ... and '' @ show_nat (length (fl_order l) - fileLedgerMaxEntries) @
              '' earlier entries omitted'' @ [CHR 0x0A] else []) @
        join [CHR 0x0A] (map (file_line l) (last_n fileLedgerMaxEntries (fl_order l))))"

text \<open>
  \<open>recordFileOps\<close>: the operation by tool name. The JSON decoding of the arguments is the
  parameter \<open>arg_path\<close> (the \<open>path\<close> field, empty when it is missing or the arguments do not
  parse) and \<open>arg_lines\<close> (\<open>start_line\<close> and \<open>end_line\<close>, 0 when missing, \<open>None\<close> when the
  arguments do not parse).
\<close>

definition readRangeFromArgs :: "(string \<Rightarrow> (int \<times> int) option) \<Rightarrow> string \<Rightarrow> string list" where
  "readRangeFromArgs arg_lines args =
     (case arg_lines args of
        None \<Rightarrow> []
      | Some (start, stop) \<Rightarrow>
          if start \<le> 0 then []
          else if start < stop then [''L'' @ show_int start @ ''-'' @ show_int stop]
          else [''L'' @ show_int start])"

definition recordFileOps ::
  "(nat \<Rightarrow> nat \<Rightarrow> nat) \<Rightarrow> (string \<Rightarrow> string) \<Rightarrow> (string \<Rightarrow> (int \<times> int) option) \<Rightarrow>
     tool_call \<Rightarrow> file_ledger \<Rightarrow> file_ledger" where
  "recordFileOps grow arg_path arg_lines tc l =
     (if tc_name tc = ''read_file''
      then file_record grow (arg_path (tc_args tc)) ''read'' (readRangeFromArgs arg_lines (tc_args tc)) l
      else if tc_name tc = ''grep'' \<or> tc_name tc = ''glob''
      then file_record grow (arg_path (tc_args tc)) ''scan'' [] l
      else if tc_name tc = ''write_file'' \<or> tc_name tc = ''edit_file''
      then file_record grow (arg_path (tc_args tc)) ''write'' [] l
      else l)"

section \<open>The failure ledger\<close>

record tool_failure =
  tf_tool :: string
  tf_detail :: string
  tf_code :: string
  tf_round :: int
  tf_envelope :: "tool_error option"

record failure_ledger =
  fa_entries :: "string \<rightharpoonup> tool_failure"
  fa_order :: "string list"

definition failureLedgerMaxEntries :: nat where "failureLedgerMaxEntries = 5"
definition failureDetailMaxRunes :: nat where "failureDetailMaxRunes = 200"

definition retryUnchanged :: "tool_failure \<Rightarrow> bool" where
  "retryUnchanged f \<longleftrightarrow> (case tf_envelope f of None \<Rightarrow> False | Some e \<Rightarrow> te_retry_same e)"

definition newFailureLedger :: failure_ledger where
  "newFailureLedger = \<lparr>fa_entries = Map.empty, fa_order = []\<rparr>"

definition failure_record :: "string \<Rightarrow> tool_failure \<Rightarrow> failure_ledger \<Rightarrow> failure_ledger" where
  "failure_record key f l =
     (if key = [] then l
      else
        let order = (case fa_entries l key of None \<Rightarrow> fa_order l | Some _ \<Rightarrow> remove1 key (fa_order l))
        in \<lparr>fa_entries = (fa_entries l)(key \<mapsto> f), fa_order = order @ [key]\<rparr>)"

definition failure_clear :: "failure_ledger \<Rightarrow> failure_ledger" where
  "failure_clear l = l\<lparr>fa_entries := Map.empty, fa_order := []\<rparr>"

definition blockedIn :: "string \<Rightarrow> int \<Rightarrow> failure_ledger \<Rightarrow> tool_failure option" where
  "blockedIn key round l =
     (case fa_entries l key of
        None \<Rightarrow> None
      | Some f \<Rightarrow> if tf_round f \<noteq> round - 1 \<or> retryUnchanged f then None else Some f)"

definition failure_line :: "failure_ledger \<Rightarrow> string \<Rightarrow> string" where
  "failure_line l k =
     (case fa_entries l k of None \<Rightarrow> ''- ''
      | Some f \<Rightarrow> ''- '' @ tf_tool f @ (if tf_code f \<noteq> [] then '' ['' @ tf_code f @ '']'' else []) @
          (if tf_detail f \<noteq> [] then '': '' @ tf_detail f else []))"

definition failure_render :: "failure_ledger \<Rightarrow> string" where
  "failure_render l =
     (if fa_order l = [] then []
      else lit_failures_head @
        join [CHR 0x0A] (map (failure_line l) (last_n failureLedgerMaxEntries (fa_order l))))"

section \<open>What is recorded of a tool round\<close>

definition isStateChangeTool :: "string \<Rightarrow> bool" where
  "isStateChangeTool name \<longleftrightarrow>
     name = ''write_file'' \<or> name = ''edit_file'' \<or> has_prefix name ''todo_''"

definition failureCode :: "tool_result \<Rightarrow> string" where
  "failureCode r =
     (let env = (case r_tool_error r of None \<Rightarrow> [] | Some e \<Rightarrow> te_code e) in
      if env \<noteq> [] then env
      else case r_exec r of
          None \<Rightarrow> []
        | Some x \<Rightarrow> if ex_canceled x then ''canceled''
            else if ex_timed_out x then ''timeout''
            else if ex_code x \<noteq> 0 then ''exit '' @ show_int (ex_code x) else [])"

text \<open>\<open>strings.Cut(line, ": ")\<close> succeeds with one of the envelope keys in front.\<close>

definition envelopeFieldLine :: "string \<Rightarrow> bool" where
  "envelopeFieldLine line \<longleftrightarrow>
     list_ex (\<lambda>k. has_prefix line (k @ '': ''))
       [''code'', ''changed'', ''retryable'', ''retry_with_same_arguments'', ''next_action'',
        ''fix'', ''recovery'']"

definition clipSingleLine :: "string \<Rightarrow> string" where
  "clipSingleLine s =
     (let t = join '' '' (str_fields s); r = runes t in
      if t = [] then []
      else if length r > failureDetailMaxRunes
      then trim_space (concat (take failureDetailMaxRunes r)) @ ''...''
      else t)"

fun scan_detail :: "string list \<Rightarrow> string \<Rightarrow> string \<Rightarrow> string \<times> string" where
  "scan_detail [] first detail = (first, detail)"
| "scan_detail (raw # ls) first detail =
     (let line = trim_space raw in
      if line = [] \<or> line = ''TOOL_ERROR'' then scan_detail ls first detail
      else if has_prefix line ''detail: ''
      then scan_detail ls first (if detail = [] then drop (length ''detail: '') line else detail)
      else scan_detail ls (if first = [] \<and> \<not> envelopeFieldLine line then line else first) detail)"

definition failureDetail :: "string \<Rightarrow> string" where
  "failureDetail result =
     (case scan_detail (split_on (CHR 0x0A) (trim_prefix result ''invalid params: '')) [] [] of
        (first, detail) \<Rightarrow> clipSingleLine (if detail \<noteq> [] then detail else first))"

text \<open>
  \<open>toolCallKey\<close> is the hex SHA-256 of \<open>name \0 args\<close>; the hash is the parameter \<open>sha\<close>.
\<close>

definition toolCallKey :: "(string \<Rightarrow> string) \<Rightarrow> string \<Rightarrow> string \<Rightarrow> string" where
  "toolCallKey sha name args = sha (name @ [CHR 0x00] @ args)"

definition result_of :: "tool_result list \<Rightarrow> string \<rightharpoonup> tool_result" where
  "result_of rs = map_of (rev (map (\<lambda>r. (r_id r, r)) rs))"

definition note_failure ::
  "(string \<Rightarrow> string) \<Rightarrow> int \<Rightarrow> tool_result list \<Rightarrow> tool_call \<Rightarrow> failure_ledger \<Rightarrow> failure_ledger" where
  "note_failure sha round rs tc l =
     (case result_of rs (tc_id tc) of
        None \<Rightarrow> l
      | Some r \<Rightarrow>
          if \<not> r_is_error r then l
          else failure_record (toolCallKey sha (tc_name tc) (tc_args tc))
            \<lparr>tf_tool = tc_name tc, tf_detail = failureDetail (r_result r), tf_code = failureCode r,
              tf_round = round, tf_envelope = r_tool_error r\<rparr> l)"

definition changed_state :: "tool_result list \<Rightarrow> tool_call \<Rightarrow> bool" where
  "changed_state rs tc \<longleftrightarrow>
     (case result_of rs (tc_id tc) of None \<Rightarrow> False
      | Some r \<Rightarrow> \<not> r_is_error r \<and> isStateChangeTool (tc_name tc))"

definition recordToolOutcomes ::
  "(string \<Rightarrow> string) \<Rightarrow> int \<Rightarrow> tool_call list \<Rightarrow> tool_result list \<Rightarrow> failure_ledger \<Rightarrow> failure_ledger" where
  "recordToolOutcomes sha round calls rs l =
     (let l' = fold (note_failure sha round rs) calls l in
      if list_ex (changed_state rs) calls then failure_clear l' else l')"

section \<open>The result of a blocked repetition\<close>

definition repeatedCallNextAction :: string where
  "repeatedCallNextAction = ''change the state before retrying (edit a file, update the todo list, or change the command/arguments); if nothing can be changed, use a different call''"

definition blockedResult :: "string \<Rightarrow> tool_failure \<Rightarrow> tool_result" where
  "blockedResult i f =
     (let own = (\<lambda>sel dflt. case tf_envelope f of None \<Rightarrow> dflt
            | Some e \<Rightarrow> (let s = clipSingleLine (sel e) in if s \<noteq> [] then s else dflt));
          nxt = own te_next repeatedCallNextAction;
          fx = own te_recovery lit_repeated_fix;
          nl = [CHR 0x0A]
      in \<lparr>r_id = i,
           r_result = ''TOOL_ERROR'' @ nl @ ''code: repeated_failed_call'' @ nl @ ''next_action: '' @ nxt @
             nl @ ''detail: this exact call ('' @ tf_tool f @
             '') already failed in the immediately preceding tool round, and no file/todo change happened since'' @
             nl @ ''fix: '' @ fx,
           r_is_error = True,
           r_tool_error = Some \<lparr>te_code = ''repeated_failed_call'', te_changed = ''false'',
             te_retryable = True, te_retry_same = False, te_next = nxt, te_recovery = fx\<rparr>,
           r_exec = None, r_blocks = [], r_usage = zero_usage\<rparr>)"

section \<open>The contract of both ledgers\<close>

locale recency_ledger =
  fixes order :: "'l \<Rightarrow> string list" and entries :: "'l \<Rightarrow> (string \<rightharpoonup> 'v)"
    and touch :: "string \<Rightarrow> 'a \<Rightarrow> 'l \<Rightarrow> 'l"
  assumes touch_no_key: "touch [] a l = l"
    and touch_order: "k \<noteq> [] \<Longrightarrow> set (order l) = dom (entries l) \<Longrightarrow> order (touch k a l) = remove1 k (order l) @ [k]"
    and touch_dom: "k \<noteq> [] \<Longrightarrow> dom (entries (touch k a l)) = insert k (dom (entries l))"
begin

definition ledger_ok :: "'l \<Rightarrow> bool" where
  "ledger_ok l \<longleftrightarrow> distinct (order l) \<and> set (order l) = dom (entries l)"

definition touch_all :: "(string \<times> 'a) list \<Rightarrow> 'l \<Rightarrow> 'l" where
  "touch_all ops l = foldl (\<lambda>l (k, a). touch k a l) l ops"

lemma touch_ok: "ledger_ok l \<Longrightarrow> ledger_ok (touch k a l)"
  by (cases "k = []") (auto simp: ledger_ok_def touch_no_key touch_order touch_dom remove1_distinct_iff)

lemma touch_all_ok: "ledger_ok l \<Longrightarrow> ledger_ok (touch_all ops l)"
  by (induction ops arbitrary: l) (auto simp: touch_all_def touch_ok)

lemma touch_last: "ledger_ok l \<Longrightarrow> k \<noteq> [] \<Longrightarrow> last (order (touch k a l)) = k"
  by (simp add: ledger_ok_def touch_order)

text \<open>After a key was touched, only keys touched later can stand behind it.\<close>

lemma touch_split:
  assumes "ledger_ok l" "order l = xs @ k # ys"
  shows "\<exists>xs' ys'. order (touch j a l) = xs' @ k # ys' \<and> set ys' \<subseteq> set ys \<union> {j} - {k}"
proof -
  from assms have "k \<notin> set ys" by (auto simp: ledger_ok_def)
  consider "j = []" | "j = k" "j \<noteq> []" | "j \<noteq> k" "j \<noteq> []" "j \<in> set xs" | "j \<noteq> k" "j \<noteq> []" "j \<notin> set xs"
    by blast
  then show ?thesis
  proof cases
    case 1
    then show ?thesis using assms \<open>k \<notin> set ys\<close> by (auto simp: touch_no_key)
  next
    case 2
    with assms \<open>k \<notin> set ys\<close> have "order (touch j a l) = (xs @ ys) @ k # []"
      by (auto simp: ledger_ok_def touch_order remove1_append)
    then show ?thesis by (metis empty_set empty_subsetI)
  next
    case 3
    with assms \<open>k \<notin> set ys\<close> have "order (touch j a l) = remove1 j xs @ k # (ys @ [j])"
      by (simp add: ledger_ok_def touch_order remove1_append)
    with 3 \<open>k \<notin> set ys\<close> show ?thesis by (intro exI [of _ "remove1 j xs"] exI [of _ "ys @ [j]"]) auto
  next
    case 4
    with assms \<open>k \<notin> set ys\<close> have "order (touch j a l) = xs @ k # (remove1 j ys @ [j])"
      by (simp add: ledger_ok_def touch_order remove1_append)
    with 4 \<open>k \<notin> set ys\<close> show ?thesis
      by (intro exI [of _ xs] exI [of _ "remove1 j ys @ [j]"]) (auto dest: notin_set_remove1 set_remove1_subset [THEN subsetD])
  qed
qed

lemma touch_all_split:
  assumes "ledger_ok l" "order l = xs @ k # ys"
  shows "\<exists>xs' ys'. order (touch_all ops l) = xs' @ k # ys' \<and> set ys' \<subseteq> (set ys \<union> fst ` set ops) - {k}"
  using assms
proof (induction ops arbitrary: l xs ys)
  case Nil
  then show ?case by (auto simp: touch_all_def ledger_ok_def)
next
  case (Cons op ops)
  obtain j a where op: "op = (j, a)" by (cases op)
  obtain xs1 ys1 where 1: "order (touch j a l) = xs1 @ k # ys1" "set ys1 \<subseteq> set ys \<union> {j} - {k}"
    using touch_split [OF Cons.prems] by blast
  obtain xs2 ys2 where "order (touch_all ops (touch j a l)) = xs2 @ k # ys2"
    "set ys2 \<subseteq> (set ys1 \<union> fst ` set ops) - {k}"
    using Cons.IH [OF touch_ok [OF Cons.prems(1)] 1(1)] by blast
  with 1(2) op show ?case
    by (intro exI [of _ xs2] exI [of _ ys2]) (auto simp: touch_all_def)
qed

text \<open>A touched key is among the last \<open>n\<close> as long as fewer than \<open>n\<close> other keys were touched.\<close>

lemma touched_recent:
  assumes "ledger_ok l" "k \<noteq> []" "card (fst ` set ops - {k}) < n"
  shows "k \<in> set (last_n n (order (touch_all ops (touch k a l))))"
proof -
  have ok: "ledger_ok (touch k a l)" by (rule touch_ok [OF assms(1)])
  have "order (touch k a l) = remove1 k (order l) @ k # []"
    using assms by (simp add: ledger_ok_def touch_order)
  from touch_all_split [OF ok this, of ops] obtain xs ys
    where o: "order (touch_all ops (touch k a l)) = xs @ k # ys" "set ys \<subseteq> fst ` set ops - {k}" by auto
  have "distinct ys" using touch_all_ok [OF ok, of ops] o(1) by (simp add: ledger_ok_def)
  then have "length ys = card (set ys)" by (simp add: distinct_card)
  also have "\<dots> \<le> card (fst ` set ops - {k})" using o(2) by (intro card_mono) auto
  finally have "length ys < n" using assms(3) by simp
  then show ?thesis unfolding o(1) last_n_def by (auto simp: not_less)
qed

end

definition file_touch :: "(nat \<Rightarrow> nat \<Rightarrow> nat) \<Rightarrow> string \<Rightarrow> string \<times> string list \<Rightarrow> file_ledger \<Rightarrow> file_ledger" where
  "file_touch grow k a = file_record grow k (fst a) (snd a)"

interpretation file_rec: recency_ledger fl_order fl_entries "file_touch grow" for grow
  by unfold_locales
    (auto simp: file_touch_def file_record_def Let_def remove1_idem domIff split: option.splits)

interpretation fail_rec: recency_ledger fa_order fa_entries failure_record
  by unfold_locales
    (auto simp: failure_record_def Let_def remove1_idem domIff split: option.splits)


section \<open>Properties of the ledgers\<close>

lemma newFileLedger_ok: "file_rec.ledger_ok newFileLedger"
  by (simp add: file_rec.ledger_ok_def newFileLedger_def)

lemma newFailureLedger_ok: "fail_rec.ledger_ok newFailureLedger"
  by (simp add: fail_rec.ledger_ok_def newFailureLedger_def)

lemma failure_clear_ok: "fail_rec.ledger_ok (failure_clear l)"
  by (simp add: fail_rec.ledger_ok_def failure_clear_def)

lemma join_part: "x \<in> set xs \<Longrightarrow> \<exists>a b. join sep xs = a @ x @ b"
proof (induction sep xs rule: join.induct)
  case (3 sep y z zs)
  show ?case
  proof (cases "x = y")
    case True
    then have "join sep (y # z # zs) = [] @ x @ (sep @ join sep (z # zs))" by simp
    then show ?thesis by blast
  next
    case False
    with 3 obtain a b where "join sep (z # zs) = a @ x @ b" by auto
    then have "join sep (y # z # zs) = (y @ sep @ a) @ x @ b" by simp
    then show ?thesis by blast
  qed
next
  case (2 sep y)
  then have "join sep [y] = [] @ x @ []" by simp
  then show ?case by blast
qed simp

lemma file_line_rendered:
  assumes "p \<in> set (last_n fileLedgerMaxEntries (fl_order l))"
  shows "contains (file_render l) (file_line l p)"
proof -
  have "fl_order l \<noteq> []" using assms by (auto simp: last_n_def)
  moreover obtain a b where
    "join [CHR 0x0A] (map (file_line l) (last_n fileLedgerMaxEntries (fl_order l))) = a @ file_line l p @ b"
    using join_part [of "file_line l p"] assms by fastforce
  ultimately have "\<exists>a. file_render l = a @ file_line l p @ b"
    unfolding file_render_def by (simp del: append_assoc add: append_assoc [symmetric])
  then show ?thesis by (metis contains_append)
qed

definition record_all ::
  "(nat \<Rightarrow> nat \<Rightarrow> nat) \<Rightarrow> (string \<times> string \<times> string list) list \<Rightarrow> file_ledger \<Rightarrow> file_ledger" where
  "record_all grow ops l = foldl (\<lambda>l (k, op, rs). file_record grow k op rs l) l ops"

lemma record_all_touch: "record_all grow ops l = file_rec.touch_all grow ops l"
  unfolding record_all_def file_rec.touch_all_def file_touch_def
  by (rule arg_cong [where f = "\<lambda>f. foldl f l ops"]) (simp add: fun_eq_iff)

text \<open>A file that the run touched keeps its line in the ledger segment rendered for a
  compaction until 40 other files have been touched after it.\<close>

theorem touched_file_is_rendered:
  fixes grow earlier p op rs later
  defines "l \<equiv> record_all grow (earlier @ (p, op, rs) # later) newFileLedger"
  assumes "p \<noteq> []" and "card (fst ` set later - {p}) < fileLedgerMaxEntries"
  shows "contains (file_render l) (file_line l p)"
proof (rule file_line_rendered)
  have l: "l = file_rec.touch_all grow later
      (file_touch grow p (op, rs) (file_rec.touch_all grow earlier newFileLedger))"
    unfolding l_def record_all_touch by (simp add: file_rec.touch_all_def)
  show "p \<in> set (last_n fileLedgerMaxEntries (fl_order l))" unfolding l
    by (rule file_rec.touched_recent [OF file_rec.touch_all_ok [OF newFileLedger_ok] assms(2-3)])
qed

theorem touched_file_is_rendered_witness:
  "let l = record_all go_grow ([(''b'', ''read'', [''L1-9''])] @ (''a'', ''write'', []) #
       [(''b'', ''scan'', []), (''c'', ''read'', [])]) newFileLedger in
   contains (file_render l) (file_line l ''a'') \<and> file_line l ''a'' = ''- write: a''"
proof -
  let ?l = "record_all go_grow ([(''b'', ''read'', [''L1-9''])] @ (''a'', ''write'', []) #
       [(''b'', ''scan'', []), (''c'', ''read'', [])]) newFileLedger"
  have "contains (file_render ?l) (file_line ?l ''a'')"
    by (rule touched_file_is_rendered) (simp_all add: fileLedgerMaxEntries_def card_insert_if)
  moreover have "file_line ?l ''a'' = ''- write: a''" by code_simp
  ultimately show ?thesis by (simp add: Let_def)
qed


text \<open>The merge loop keeps only elements of its two inputs.\<close>

lemma merge_ranges_ok:
  assumes "sl_ok ent" and "i + k \<le> length buf"
  shows "sl_ok (merge_ranges grow k i buf shared ent seen) \<and>
     set (sl_list (merge_ranges grow k i buf shared ent seen)) \<subseteq> set (sl_list ent) \<union> set (take (i + k) buf)"
  using assms
proof (induction k arbitrary: i buf shared ent seen)
  case (Suc k)
  let ?r = "buf ! i"
  let ?e = "sl_append grow ent [?r]"
  have r: "?r \<in> set (take (i + Suc k) buf)"
    using Suc.prems by (auto simp: in_set_conv_nth intro!: exI [of _ i])
  show ?case
  proof (cases "?r = [] \<or> ?r \<in> set seen")
    case True
    with Suc.IH [of ent "Suc i" buf shared seen] Suc.prems show ?thesis by auto
  next
    case False
    let ?sh = "shared \<and> in_place ent [?r]"
    let ?b = "if ?sh then buf[sl_len ent := ?r] else buf"
    have b: "set (take (Suc i + k) ?b) \<subseteq> set (take (i + Suc k) buf)"
      using r set_update_subset_insert [of "take (i + Suc k) buf" "sl_len ent" ?r] by (auto simp: take_update_swap)
    have "sl_ok ?e" "set (sl_list ?e) \<subseteq> set (sl_list ent) \<union> set (take (i + Suc k) buf)"
      using Suc.prems r by (auto simp: sl_ok_append sl_list_append)
    moreover have "Suc i + k \<le> length ?b" using Suc.prems by simp
    ultimately show ?thesis
      using Suc.IH [of ?e "Suc i" ?b ?sh "?r # seen"] False b by (auto simp: Let_def)
  qed
qed simp

lemma sl_ok_tail: "sl_ok s \<Longrightarrow> sl_ok (sl_tail k s)"
  by (auto simp: sl_ok_def sl_tail_def)

lemma sl_list_tail: "sl_list (sl_tail k s) = drop k (sl_list s)"
  by (simp add: sl_tail_def sl_list_def drop_take)

lemma length_sl_list: "sl_ok s \<Longrightarrow> length (sl_list s) = sl_len s"
  by (simp add: sl_ok_def sl_list_def)

text \<open>Whatever the capacities, the ranges kept for a file are at most four and each was
  recorded for it; the slice stays within its array.\<close>

theorem add_ranges_bounded:
  assumes "sl_ok old" and "length (sl_list old) \<le> 4"
  shows "sl_ok (add_ranges grow old rs) \<and> length (sl_list (add_ranges grow old rs)) \<le> 4 \<and>
     set (sl_list (add_ranges grow old rs)) \<subseteq> set (sl_list old) \<union> set rs"
proof (cases "rs = []")
  case False
  let ?it = "sl_append grow old rs"
  let ?ent = "if in_place old rs then \<lparr>sl_arr = sl_arr ?it, sl_len = sl_len old\<rparr> else old"
  let ?res = "merge_ranges grow (sl_len ?it) 0 (sl_arr ?it) (in_place old rs) ?ent []"
  have it: "sl_ok ?it" "sl_list ?it = sl_list old @ rs" using assms by (auto simp: sl_ok_append sl_list_append)
  have "sl_ok ?ent" "sl_list ?ent = sl_list old"
    using assms by (auto simp: sl_append_def in_place_def sl_ok_def sl_list_def Let_def)
  then have res: "sl_ok ?res" "set (sl_list ?res) \<subseteq> set (sl_list old) \<union> set rs"
    using merge_ranges_ok [of ?ent 0 "sl_len ?it" "sl_arr ?it" grow "in_place old rs" "[]"] it
    by (auto simp: sl_ok_def sl_list_def)
  have "set (sl_list (sl_tail n ?res)) \<subseteq> set (sl_list old) \<union> set rs" for n
    unfolding sl_list_tail by (rule subset_trans [OF set_drop_subset res(2)])
  moreover have "sl_len (sl_tail (sl_len ?res - 4) ?res) \<le> 4" by (simp add: sl_tail_def)
  ultimately show ?thesis using False res
    by (auto simp: add_ranges_def Let_def sl_ok_tail length_sl_list)
qed (use assms in \<open>auto simp: add_ranges_def\<close>)

theorem add_ranges_bounded_witness:
  "length (sl_list (add_ranges go_grow \<lparr>sl_arr = [''L1'', ''L2'', [], []], sl_len = 2\<rparr> [''L3'', ''L4'', ''L5''])) \<le> 4"
  by (rule add_ranges_bounded [THEN conjunct2, THEN conjunct1]) (simp_all add: sl_ok_def sl_list_def)

text \<open>The ranges are not deduplicated and a new one can be lost: three reads of one file
  at different lines, recorded with the growth of the Go runtime, leave the first two twice
  and the third not at all, though the comment of the loop promises to merge without
  duplicates. Each read appends the old ranges to themselves, and the in-place append then
  overwrites the third range before the loop reads it.\<close>

theorem third_read_range_lost:
  "let read = (\<lambda>r l. file_record go_grow ''a.go'' ''read'' [r] l);
       l = read ''L300'' (read ''L200'' (read ''L100'' newFileLedger))
   in file_line l ''a.go'' = ''- read: a.go (L100, L200, L100, L200)''"
  by code_simp


section \<open>The guard against repeated failures\<close>

definition failed_call :: "tool_result list \<Rightarrow> tool_call \<Rightarrow> bool" where
  "failed_call rs tc \<longleftrightarrow> (case result_of rs (tc_id tc) of None \<Rightarrow> False | Some r \<Rightarrow> r_is_error r)"

definition failure_of :: "int \<Rightarrow> tool_result list \<Rightarrow> tool_call \<Rightarrow> tool_failure" where
  "failure_of round rs tc = (let r = the (result_of rs (tc_id tc)) in
     \<lparr>tf_tool = tc_name tc, tf_detail = failureDetail (r_result r), tf_code = failureCode r,
       tf_round = round, tf_envelope = r_tool_error r\<rparr>)"

definition call_key :: "(string \<Rightarrow> string) \<Rightarrow> tool_call \<Rightarrow> string" where
  "call_key sha tc = toolCallKey sha (tc_name tc) (tc_args tc)"

lemma note_failure_alt:
  "note_failure sha round rs tc l =
     (if failed_call rs tc then failure_record (call_key sha tc) (failure_of round rs tc) l else l)"
  by (auto simp: note_failure_def failed_call_def failure_of_def call_key_def Let_def split: option.splits)

lemma fa_entries_record:
  "k \<noteq> [] \<Longrightarrow> fa_entries (failure_record k f l) = (fa_entries l)(k \<mapsto> f)"
  by (simp add: failure_record_def Let_def)

definition failures_with :: "(string \<Rightarrow> string) \<Rightarrow> tool_result list \<Rightarrow> string \<Rightarrow> tool_call list \<Rightarrow> tool_call list" where
  "failures_with sha rs key calls = filter (\<lambda>tc. failed_call rs tc \<and> call_key sha tc = key) calls"

lemma fold_note_failure:
  assumes "\<And>tc. call_key sha tc \<noteq> []"
  shows "fa_entries (fold (note_failure sha round rs) calls l) key =
     (if failures_with sha rs key calls = [] then fa_entries l key
      else Some (failure_of round rs (last (failures_with sha rs key calls))))"
  by (induction calls arbitrary: l)
    (auto simp: failures_with_def note_failure_alt fa_entries_record assms)

text \<open>C34. The guard blocks a call exactly when its last failure happened in the round just
  before, no call of that round changed the state, and the tool did not allow an unchanged
  retry; older failures never block.\<close>

theorem guard_blocks_exactly_last_round:
  assumes sha: "\<And>x. sha x \<noteq> []" and old: "\<forall>f \<in> ran (fa_entries l). tf_round f < round"
  shows "blockedIn key (round + 1) (recordToolOutcomes sha round calls rs l) =
     (let fs = failures_with sha rs key calls; f = failure_of round rs (last fs) in
      if list_ex (changed_state rs) calls \<or> fs = [] \<or> retryUnchanged f then None else Some f)"
proof -
  have "tf_round f < round" if "fa_entries l key = Some f" for f using old that by (auto intro: ranI)
  moreover have "call_key sha tc \<noteq> []" for tc by (simp add: call_key_def toolCallKey_def sha)
  note fold_note_failure [OF this]
  moreover have "tf_round (failure_of round rs tc) = round" for tc by (simp add: failure_of_def Let_def)
  ultimately show ?thesis
    by (auto simp: blockedIn_def recordToolOutcomes_def Let_def failure_clear_def split: option.splits)
qed

theorem guard_blocks_exactly_last_round_witness:
  "let sha = (\<lambda>x. x @ ''#'');
       tc = \<lparr>tc_id = ''1'', tc_index = 0, tc_name = ''bash'', tc_args = ''x'', tc_request = [], tc_parent = [], tc_depth = 0\<rparr>;
       rs = [plain_result ''1'' ''boom'' True]
   in blockedIn (call_key sha tc) (4 + 1) (recordToolOutcomes sha 4 [tc] rs newFailureLedger) \<noteq> None"
proof -
  let ?sha = "\<lambda>x. x @ ''#''"
  let ?tc = "\<lparr>tc_id = ''1'', tc_index = 0, tc_name = ''bash'', tc_args = ''x'', tc_request = [], tc_parent = [], tc_depth = 0\<rparr>"
  let ?rs = "[plain_result ''1'' ''boom'' True]"
  have "failures_with ?sha ?rs (call_key ?sha ?tc) [?tc] = [?tc]" "\<not> changed_state ?rs ?tc"
    "\<not> retryUnchanged (failure_of 4 ?rs ?tc)"
    by (simp_all add: failures_with_def failed_call_def changed_state_def result_of_def plain_result_def
      failure_of_def retryUnchanged_def Let_def)
  then show ?thesis
    unfolding Let_def
    by (subst guard_blocks_exactly_last_round) (simp_all add: newFailureLedger_def Let_def)
qed

end
