(* ===== verification/Slim.thy ===== *)
theory Slim
  imports MergePairs Ledgers CronSpec
begin

text \<open>
  \<open>agents/slim.go\<close>, \<open>agents/slim_text.go\<close>, \<open>agents/slim_image.go\<close>: tool results in the history
  are replaced by short references (a file read again, a command run again, old results, old
  screenshots). All of it works on indices of the history, so the theory models the index
  bookkeeping and proves that a replacement keeps the shape of the history: its length, the
  roles and the ids by which calls and results pair up. The path of a tool call's arguments
  (\<open>arg_path\<close>), the SHA-256 (\<open>sha\<close>) and the success of writing a file (\<open>fs_ok\<close>) are parameters.
\<close>

section \<open>State\<close>

record slim_text_config =
  tx_ReadFold :: bool
  tx_BashStripANSI :: bool
  tx_BashFoldRepeat :: bool
  tx_BashRerunDedup :: bool
  tx_SearchRerunDedup :: bool
  tx_GrepPerFileMax :: int
  tx_GrepPerFileHead :: int
  tx_GrepPerFileTail :: int
  tx_MergePairs :: bool

record image_config =
  im_Keep :: int
  im_MaxRounds :: int

record slim_config =
  sc_DedupMinBytes :: int
  sc_StaleRounds :: int
  sc_StaleMinBytes :: int
  sc_SpillMaxBytes :: int
  sc_SpillDir :: string
  sc_Text :: "slim_text_config option"
  sc_Images :: "image_config option"

definition default_if :: "int \<Rightarrow> int \<Rightarrow> int" where
  "default_if d n = (if n \<le> 0 then d else n)"

definition slim_normalize :: "slim_config \<Rightarrow> slim_config" where
  "slim_normalize c = c\<lparr>
     sc_DedupMinBytes := default_if 2048 (sc_DedupMinBytes c),
     sc_StaleRounds := default_if 20 (sc_StaleRounds c),
     sc_StaleMinBytes := default_if 8192 (sc_StaleMinBytes c),
     sc_SpillMaxBytes := default_if 65536 (sc_SpillMaxBytes c)\<rparr>"

definition text_normalize :: "slim_text_config \<Rightarrow> slim_text_config" where
  "text_normalize c = c\<lparr>
     tx_GrepPerFileMax := default_if 0 (tx_GrepPerFileMax c),
     tx_GrepPerFileHead := default_if 8 (tx_GrepPerFileHead c),
     tx_GrepPerFileTail := default_if 8 (tx_GrepPerFileTail c)\<rparr>"

record slim_text_options =
  so_ReadFold :: "bool option"
  so_BashStripANSI :: "bool option"
  so_BashFoldRepeat :: "bool option"
  so_BashRerunDedup :: "bool option"
  so_SearchRerunDedup :: "bool option"
  so_GrepPerFileMax :: int
  so_GrepPerFileHead :: int
  so_GrepPerFileTail :: int
  so_MergePairs :: "bool option"

definition bool_or_true :: "bool option \<Rightarrow> bool" where
  "bool_or_true b = (case b of None \<Rightarrow> True | Some x \<Rightarrow> x)"

definition toConfig :: "slim_text_options \<Rightarrow> slim_text_config" where
  "toConfig o1 = text_normalize \<lparr>
     tx_ReadFold = bool_or_true (so_ReadFold o1), tx_BashStripANSI = bool_or_true (so_BashStripANSI o1),
     tx_BashFoldRepeat = bool_or_true (so_BashFoldRepeat o1), tx_BashRerunDedup = bool_or_true (so_BashRerunDedup o1),
     tx_SearchRerunDedup = bool_or_true (so_SearchRerunDedup o1), tx_GrepPerFileMax = so_GrepPerFileMax o1,
     tx_GrepPerFileHead = so_GrepPerFileHead o1, tx_GrepPerFileTail = so_GrepPerFileTail o1,
     tx_MergePairs = bool_or_true (so_MergePairs o1)\<rparr>"

record slim_read =
  sr_index :: nat
  sr_hash :: string

record read_range =
  rr_start :: int
  rr_end :: int
  rr_valid :: bool

record read_anchor =
  ra_index :: nat
  ra_rng :: read_range
  ra_gen :: int
  ra_folded :: bool

record edit_stat =
  es_count :: int
  es_added :: int
  es_removed :: int
  es_known :: bool

record slim_state =
  sl_cfg :: slim_config
  sl_readIndex :: "string \<rightharpoonup> slim_read"
  sl_roundStart :: "nat list"
  sl_reads :: "string \<Rightarrow> read_anchor list"
  sl_rerun :: "string \<rightharpoonup> slim_read"
  sl_edits :: "string \<Rightarrow> edit_stat"
  sl_editGen :: "string \<Rightarrow> int"
  sl_removed :: int

definition no_edits :: edit_stat where
  "no_edits = \<lparr>es_count = 0, es_added = 0, es_removed = 0, es_known = False\<rparr>"

definition newSlimState :: "slim_config \<Rightarrow> slim_state" where
  "newSlimState c = \<lparr>sl_cfg = c, sl_readIndex = Map.empty, sl_roundStart = [], sl_reads = (\<lambda>_. []),
     sl_rerun = Map.empty, sl_edits = (\<lambda>_. no_edits), sl_editGen = (\<lambda>_. 0), sl_removed = 0\<rparr>"

definition slim_reset :: "slim_state \<Rightarrow> slim_state" where
  "slim_reset s = newSlimState (sl_cfg s)"

section \<open>Results that are written back\<close>

definition spillResult :: "bool \<Rightarrow> string \<Rightarrow> slim_state \<Rightarrow> tool_call \<Rightarrow> string \<Rightarrow> string" where
  "spillResult fs_ok run_id s tc t =
     (if int (length t) \<le> sc_SpillMaxBytes (sl_cfg s) \<or> sc_SpillDir (sl_cfg s) = [] then t
      else if \<not> fs_ok then t
      else lit_spill_open @ ''spill-'' @ run_id @ ''-'' @ tc_id tc @ ''.txt'' @ lit_spill_close @ take 2048 t)"

text \<open>
  \<open>recordRead\<close> indexes the history without a bounds check: \<open>None\<close> is the panic of an index
  that is out of range.
\<close>

definition recordRead ::
  "(string \<Rightarrow> string) \<Rightarrow> (string \<Rightarrow> string) \<Rightarrow> tool_call \<Rightarrow> string \<Rightarrow> nat \<Rightarrow> slim_state \<times> message list \<Rightarrow>
     (slim_state \<times> message list) option" where
  "recordRead arg_path sha tc t newIdx sm =
     (case sm of (s, ms) \<Rightarrow>
        let path = arg_path (tc_args tc); h = sha t;
            s' = s\<lparr>sl_readIndex := (sl_readIndex s)(path \<mapsto> \<lparr>sr_index = newIdx, sr_hash = h\<rparr>)\<rparr>
        in if tc_name tc \<noteq> ''read_file'' \<or> path = [] then Some (s, ms)
           else case sl_readIndex s path of
               None \<Rightarrow> Some (s', ms)
             | Some prev \<Rightarrow>
                 if sr_hash prev = h \<and> sc_DedupMinBytes (sl_cfg s) \<le> int (length t)
                 then (if sr_index prev < length ms
                       then Some (s', ms[sr_index prev := NewToolMessage (m_call_id (ms ! sr_index prev))
                              (slimPlaceholderPrefix @ lit_dedup_open @ show_nat newIdx @ lit_dedup_close)])
                       else None)
                 else Some (s', ms))"

definition stale_placeholder :: "int \<Rightarrow> string" where
  "stale_placeholder rounds = slimPlaceholderPrefix @ lit_stale_open @ show_int rounds @ lit_stale_close"

definition stale_message :: "int \<Rightarrow> int \<Rightarrow> message \<Rightarrow> message" where
  "stale_message minBytes rounds m =
     (case m_content m of
        [] \<Rightarrow> m
      | c # cs \<Rightarrow>
          if m_role m = Tool \<and> minBytes < int (length (ctext c))
          then m\<lparr>m_content := c\<lparr>ctext := stale_placeholder rounds\<rparr> # cs\<rparr> else m)"

text \<open>\<open>roundStart[len-1-StaleRounds]\<close>, when the run is that old.\<close>

definition round_cutoff :: "int \<Rightarrow> nat list \<Rightarrow> nat option" where
  "round_cutoff rounds starts =
     (if rounds < 0 \<or> int (length starts) \<le> rounds then None
      else Some (starts ! (length starts - 1 - nat rounds)))"

definition stale_messages :: "slim_state \<Rightarrow> message list \<Rightarrow> message list" where
  "stale_messages s ms =
     (case round_cutoff (sc_StaleRounds (sl_cfg s)) (sl_roundStart s) of
        None \<Rightarrow> ms
      | Some k \<Rightarrow> map (stale_message (sc_StaleMinBytes (sl_cfg s)) (sc_StaleRounds (sl_cfg s))) (take k ms) @ drop k ms)"

definition applyStale :: "slim_state \<times> message list \<Rightarrow> slim_state \<times> message list" where
  "applyStale sm =
     (case sm of (s, ms) \<Rightarrow>
        let s' = s\<lparr>sl_roundStart := sl_roundStart s @ [length ms]\<rparr> in (s', stale_messages s' ms))"

section \<open>Repeated calls\<close>

definition rerunKey :: "tool_call \<Rightarrow> string" where
  "rerunKey tc = (if tc_args tc = [] then tc_name tc else tc_name tc @ [CHR 0x00] @ tc_args tc)"

text \<open>Replace the result at an index, if it is one.\<close>

definition fold_result :: "nat \<Rightarrow> string \<Rightarrow> message list \<Rightarrow> message list" where
  "fold_result i t ms =
     (if i < length ms \<and> m_role (ms ! i) = Tool then ms[i := NewToolMessage (m_call_id (ms ! i)) t] else ms)"

definition dedupRerun ::
  "(string \<Rightarrow> string) \<Rightarrow> tool_call \<Rightarrow> string \<Rightarrow> nat \<Rightarrow> string \<Rightarrow> slim_state \<times> message list \<Rightarrow>
     slim_state \<times> message list" where
  "dedupRerun sha tc t newIdx msg sm =
     (case sm of (s, ms) \<Rightarrow>
        let key = rerunKey tc; h = sha t;
            s' = s\<lparr>sl_rerun := (sl_rerun s)(key \<mapsto> \<lparr>sr_index = newIdx, sr_hash = h\<rparr>)\<rparr>
        in if key = [] then (s, ms)
           else case sl_rerun s key of
               None \<Rightarrow> (s', ms)
             | Some prev \<Rightarrow>
                 if sr_index prev = newIdx \<or> sr_hash prev \<noteq> h then (s', ms)
                 else (s', fold_result (sr_index prev)
                         (slimPlaceholderPrefix @ msg @ show_nat newIdx @ lit_rerun_close) ms))"

section \<open>Reads of a file\<close>

text \<open>
  The header \<open>[read_file: PATH, N lines total, showing A-B]\<close> of the first line. The path is the
  longest text for which the rest still matches, as the regular expression's greedy group.
\<close>

definition take_digits :: "string \<Rightarrow> (string \<times> string) option" where
  "take_digits s = (let d = takeWhile is_digit s in if d = [] then None else Some (d, dropWhile is_digit s))"

definition header_tail :: "string \<Rightarrow> (string \<times> string) option" where
  "header_tail s =
     (if \<not> has_prefix s '', '' then None
      else case take_digits (drop 2 s) of
          None \<Rightarrow> None
        | Some (_, r1) \<Rightarrow>
            if \<not> has_prefix r1 '' lines total, showing '' then None
            else case take_digits (drop (length '' lines total, showing '') r1) of
                None \<Rightarrow> None
              | Some (a, r2) \<Rightarrow>
                  if \<not> has_prefix r2 ''-'' then None
                  else case take_digits (drop 1 r2) of
                      None \<Rightarrow> None
                    | Some (b, r3) \<Rightarrow> if has_prefix r3 '']'' then Some (a, b) else None)"

fun split_header :: "string \<Rightarrow> string \<Rightarrow> (string \<times> string \<times> string) option" where
  "split_header pre [] = None"
| "split_header pre (c # s) =
     (case split_header (pre @ [c]) s of
        Some r \<Rightarrow> Some r
      | None \<Rightarrow> if pre = [] then None else map_option (\<lambda>(a, b). (pre, a, b)) (header_tail (c # s)))"

definition no_range :: read_range where
  "no_range = \<lparr>rr_start = 0, rr_end = 0, rr_valid = False\<rparr>"

definition parseReadHeader :: "string \<Rightarrow> string \<times> read_range" where
  "parseReadHeader t =
     (let line = takeWhile (\<lambda>c. c \<noteq> CHR 0x0A) t in
      if \<not> has_prefix line ''[read_file: '' then ([], no_range)
      else case split_header [] (drop (length ''[read_file: '') line) of
          None \<Rightarrow> ([], no_range)
        | Some (p, a, b) \<Rightarrow>
            (case (atoi a, atoi b) of
               (Some x, Some y) \<Rightarrow> (p, \<lparr>rr_start = x, rr_end = y, rr_valid = True\<rparr>)
             | _ \<Rightarrow> (p, no_range)))"

definition covers :: "read_range \<Rightarrow> read_range \<Rightarrow> bool" where
  "covers newer older \<longleftrightarrow> rr_valid newer \<and> rr_valid older \<and>
     rr_start newer \<le> rr_start older \<and> rr_end older \<le> rr_end newer"

definition rangeSuffix :: "read_range \<Rightarrow> string" where
  "rangeSuffix r = (if rr_valid r then '' L'' @ show_int (rr_start r) @ ''-L'' @ show_int (rr_end r) else [])"

definition renderReadFold :: "string \<Rightarrow> read_range \<Rightarrow> edit_stat \<Rightarrow> nat \<Rightarrow> bool \<Rightarrow> string" where
  "renderReadFold path r st newIdx superseded =
     slimPlaceholderPrefix @ ''read_file '' @ path @ rangeSuffix r @ lit_fold_old @
     (if 0 < es_count st then
        lit_fold_edited @ show_int (es_count st) @ lit_fold_times @
        (if es_known st then lit_fold_plus @ show_int (es_added st) @ '' -'' @ show_int (es_removed st) @ lit_fold_lines
         else []) @
        (if superseded then lit_fold_and_covered else [])
      else if superseded then lit_fold_covered else []) @
     lit_fold_need @ path @ lit_fold_refetch @ show_nat newIdx @ '']''"

text \<open>\<open>markFolded\<close> marks the first anchor with the index.\<close>

fun markFolded :: "nat \<Rightarrow> read_anchor list \<Rightarrow> read_anchor list" where
  "markFolded i [] = []"
| "markFolded i (a # as) = (if ra_index a = i then a\<lparr>ra_folded := True\<rparr> # as else a # markFolded i as)"

definition fold_anchor ::
  "string \<Rightarrow> read_range \<Rightarrow> nat \<Rightarrow> int \<Rightarrow> slim_state \<times> message list \<Rightarrow> read_anchor \<Rightarrow> slim_state \<times> message list" where
  "fold_anchor path rng newIdx cur sm old =
     (case sm of (s, ms) \<Rightarrow>
        if ra_index old = newIdx \<or> ra_folded old then (s, ms)
        else
          let superseded = covers rng (ra_rng old); invalidated = ra_gen old < cur in
          if \<not> superseded \<and> \<not> invalidated then (s, ms)
          else if ra_index old < length ms \<and> m_role (ms ! ra_index old) = Tool
          then (s\<lparr>sl_reads := (sl_reads s)(path := markFolded (ra_index old) (sl_reads s path))\<rparr>,
                fold_result (ra_index old) (renderReadFold path (ra_rng old) (sl_edits s path) newIdx superseded) ms)
          else (s, ms))"

text \<open>
  The loop ranges over the anchors that the path had before it; \<open>markFolded\<close> changes the same
  slice in place, but at most the anchor just visited, whose index occurs once in it.
\<close>

definition foldRead ::
  "(string \<Rightarrow> string) \<Rightarrow> tool_call \<Rightarrow> string \<Rightarrow> nat \<Rightarrow> slim_state \<times> message list \<Rightarrow> slim_state \<times> message list" where
  "foldRead arg_path tc t newIdx sm =
     (case sm of (s, ms) \<Rightarrow>
        case parseReadHeader t of (p, rng) \<Rightarrow>
          let path = (if p = [] then arg_path (tc_args tc) else p) in
          if path = [] then (s, ms)
          else
            let cur = sl_editGen s path;
                (s1, ms1) = foldl (fold_anchor path rng newIdx cur) (s, ms) (sl_reads s path)
            in (s1\<lparr>sl_reads := (sl_reads s1)(path := sl_reads s1 path @
                  [\<lparr>ra_index = newIdx, ra_rng = rng, ra_gen = cur, ra_folded = False\<rparr>])\<rparr>, ms1))"

text \<open>The pattern \<open>\\(\\+(\\d+)(?:\\s+-(\\d+))?\\)\<close> at the head of a text.\<close>

definition edit_stats_at :: "string \<Rightarrow> (string \<times> string) option" where
  "edit_stats_at s =
     (if \<not> has_prefix s ''(+'' then None
      else case take_digits (drop 2 s) of
          None \<Rightarrow> None
        | Some (a, r) \<Rightarrow>
            if has_prefix r '')'' then Some (a, [])
            else
              let sp = takeWhile (\<lambda>c. c \<in> set [CHR 0x09, CHR 0x0A, CHR 0x0C, CHR 0x0D, CHR 0x20]) r;
                  r2 = drop (length sp) r
              in if sp = [] \<or> \<not> has_prefix r2 ''-'' then None
                 else case take_digits (drop 1 r2) of
                     None \<Rightarrow> None
                   | Some (b, r3) \<Rightarrow> if has_prefix r3 '')'' then Some (a, b) else None)"

fun find_edit_stats :: "string \<Rightarrow> (string \<times> string) option" where
  "find_edit_stats [] = None"
| "find_edit_stats (c # s) = (case edit_stats_at (c # s) of Some r \<Rightarrow> Some r | None \<Rightarrow> find_edit_stats s)"

definition parseEditStats :: "string \<Rightarrow> (int \<times> int) option" where
  "parseEditStats t =
     (case find_edit_stats t of
        None \<Rightarrow> None
      | Some (a, b) \<Rightarrow>
          (case atoi a of
             None \<Rightarrow> None
           | Some x \<Rightarrow> Some (x, if b = [] then 0 else (case atoi b of Some y \<Rightarrow> y | None \<Rightarrow> 0))))"

definition noteEdit :: "string \<Rightarrow> (int \<times> int) option \<Rightarrow> slim_state \<Rightarrow> slim_state" where
  "noteEdit path stats s =
     (if path = [] then s
      else
        let st = sl_edits s path;
            st1 = st\<lparr>es_count := wrap64 (es_count st + 1)\<rparr>;
            st2 = (case stats of None \<Rightarrow> st1
               | Some (a, r) \<Rightarrow> st1\<lparr>es_added := wrap64 (es_added st1 + a), es_removed := wrap64 (es_removed st1 + r),
                   es_known := True\<rparr>)
        in s\<lparr>sl_editGen := (sl_editGen s)(path := wrap64 (sl_editGen s path + 1)),
             sl_edits := (sl_edits s)(path := st2)\<rparr>)"

section \<open>Command output\<close>

definition in_range :: "nat \<Rightarrow> nat \<Rightarrow> char \<Rightarrow> bool" where
  "in_range lo hi c \<longleftrightarrow> lo \<le> (of_char c :: nat) \<and> (of_char c :: nat) \<le> hi"

text \<open>What follows an escape byte, by the three alternatives of the pattern in their order.\<close>

definition csi_rest :: "string \<Rightarrow> string option" where
  "csi_rest s =
     (if \<not> has_prefix s ''['' then None
      else
        let r = dropWhile (in_range 0x20 0x2F)
              (dropWhile (\<lambda>c. is_digit c \<or> c = CHR '';'' \<or> c = CHR ''?'') (drop 1 s))
        in (case r of c # r' \<Rightarrow> if in_range 0x40 0x7E c then Some r' else None | [] \<Rightarrow> None))"

definition osc_rest :: "string \<Rightarrow> string option" where
  "osc_rest s =
     (if \<not> has_prefix s '']'' then None
      else (case dropWhile (\<lambda>c. c \<noteq> CHR 0x07 \<and> c \<noteq> CHR 0x1B) (drop 1 s) of
          c # r \<Rightarrow> if c = CHR 0x07 then Some r
                   else (case r of d # r' \<Rightarrow> if d = CHR 0x5C then Some r' else None | [] \<Rightarrow> None)
        | [] \<Rightarrow> None))"

definition esc_rest :: "string \<Rightarrow> string option" where
  "esc_rest s =
     (case csi_rest s of
        Some r \<Rightarrow> Some r
      | None \<Rightarrow>
          (case osc_rest s of
             Some r \<Rightarrow> Some r
           | None \<Rightarrow>
               (case s of c # r \<Rightarrow> if in_range 0x40 0x5A c \<or> in_range 0x5C 0x5F c then Some r else None
                | [] \<Rightarrow> None)))"

lemma esc_rest_shorter: "esc_rest s = Some r \<Longrightarrow> length r < length s"
proof -
  have dw: "length (dropWhile P x) \<le> length x" for P and x :: string by (rule length_dropWhile_le)
  have 1: "csi_rest s = Some r \<Longrightarrow> length r < length s" for r
    using dw [of "in_range 0x20 0x2F" "dropWhile (\<lambda>c. is_digit c \<or> c = CHR '';'' \<or> c = CHR ''?'') (drop 1 s)"]
      dw [of "\<lambda>c. is_digit c \<or> c = CHR '';'' \<or> c = CHR ''?''" "drop 1 s"]
    by (auto simp: csi_rest_def Let_def split: list.splits if_splits)
  have 2: "osc_rest s = Some r \<Longrightarrow> length r < length s" for r
    using dw [of "\<lambda>c. c \<noteq> CHR 0x07 \<and> c \<noteq> CHR 0x1B" "drop 1 s"]
    by (auto simp: osc_rest_def split: list.splits if_splits)
  show "esc_rest s = Some r \<Longrightarrow> length r < length s"
    by (auto simp: esc_rest_def split: option.splits list.splits if_splits dest: 1 2)
qed

function stripANSI :: "string \<Rightarrow> string" where
  "stripANSI [] = []"
| "stripANSI (c # s) =
     (if c = CHR 0x1B then (case esc_rest s of Some r \<Rightarrow> stripANSI r | None \<Rightarrow> c # stripANSI s)
      else c # stripANSI s)"
  by pat_completeness auto
termination by (relation "measure length") (auto dest: esc_rest_shorter)

definition bashRepeatThreshold :: nat where "bashRepeatThreshold = 4"

function fold_runs :: "string list \<Rightarrow> string list" where
  "fold_runs [] = []"
| "fold_runs (l # ls) =
     (let run = takeWhile (\<lambda>x. x = l) ls; n = length run + 1; rest = dropWhile (\<lambda>x. x = l) ls in
      (if bashRepeatThreshold \<le> n \<and> trim_space l \<noteq> []
       then [l, lit_same_line @ show_nat (n - 1) @ lit_same_line_close] else l # run) @ fold_runs rest)"
  by pat_completeness auto
termination by (relation "measure length") (auto simp: less_Suc_eq_le length_dropWhile_le)

definition foldRepeatedLines :: "string \<Rightarrow> string" where
  "foldRepeatedLines s =
     (if CHR 0x0A \<notin> set s then s else join [CHR 0x0A] (fold_runs (split_on (CHR 0x0A) s)))"

section \<open>Search results\<close>

text \<open>
  The loop over the blocks of a search result. A block ends before the next separator line; the
  loop continues at that separator, so it needs \<open>None\<close>, the result of not returning.
\<close>

definition fold_block :: "slim_text_config \<Rightarrow> string list \<Rightarrow> string list" where
  "fold_block cfg block =
     (let n = int (length block); h = tx_GrepPerFileHead cfg; t = tx_GrepPerFileTail cfg in
      if tx_GrepPerFileMax cfg < n \<and> \<not> n \<le> h + t
      then take (nat h) block @ [lit_rest_of_file @ show_int (n - h - t) @ lit_rest_of_file_close] @
        drop (nat (n - t)) block
      else block)"

partial_function (option) fold_blocks :: "slim_text_config \<Rightarrow> string list \<Rightarrow> string list option" where
  "fold_blocks cfg ls =
     (if ls = [] then Some []
      else
        let block = takeWhile (\<lambda>l. l \<noteq> ''--'') ls in
        Option.bind (fold_blocks cfg (drop (length block) ls)) (\<lambda>r. Some (fold_block cfg block @ r)))"

definition foldPerFileMatches :: "slim_text_config \<Rightarrow> string \<Rightarrow> string option" where
  "foldPerFileMatches cfg s =
     (if tx_GrepPerFileMax cfg \<le> 0 then Some s
      else
        let ls0 = split_on (CHR 0x0A) s;
            trailing = (last ls0 = []);
            ls = (if trailing then butlast ls0 else ls0);
            headed = (case ls of l # _ \<Rightarrow> has_prefix l ''[grep: '' \<or> has_prefix l ''[glob: '' | [] \<Rightarrow> False)
        in map_option (\<lambda>body. join [CHR 0x0A] ((if headed then take 1 ls else []) @ body @ (if trailing then [[]] else [])))
             (fold_blocks cfg (if headed then drop 1 ls else ls)))"

section \<open>The dispatcher\<close>

definition slimToolResult ::
  "(string \<Rightarrow> string) \<Rightarrow> (string \<Rightarrow> string) \<Rightarrow> tool_call \<Rightarrow> string \<Rightarrow> nat \<Rightarrow> slim_state \<times> message list \<Rightarrow>
     ((slim_state \<times> message list) \<times> string) option" where
  "slimToolResult arg_path sha tc t newIdx sm =
     (case sc_Text (sl_cfg (fst sm)) of
        None \<Rightarrow> Some (sm, t)
      | Some cfg \<Rightarrow>
          if tc_name tc = ''read_file''
          then Some (if tx_ReadFold cfg then foldRead arg_path tc t newIdx sm else sm, t)
          else if tc_name tc = ''write_file'' \<or> tc_name tc = ''edit_file''
          then Some ((noteEdit (arg_path (tc_args tc)) (parseEditStats t) (fst sm), snd sm), t)
          else if tc_name tc = ''bash''
          then
            let t1 = (if tx_BashStripANSI cfg then stripANSI t else t);
                t2 = (if tx_BashFoldRepeat cfg then foldRepeatedLines t1 else t1)
            in Some (if tx_BashRerunDedup cfg then dedupRerun sha tc t2 newIdx lit_rerun_bash sm else sm, t2)
          else if tc_name tc = ''grep'' \<or> tc_name tc = ''glob''
          then
            let sm1 = (if tx_SearchRerunDedup cfg then dedupRerun sha tc t newIdx lit_rerun_search sm else sm)
            in map_option (\<lambda>t1. (sm1, t1)) (foldPerFileMatches cfg t)
          else Some (sm, t))"

section \<open>Images\<close>

definition hasImage :: "message \<Rightarrow> bool" where
  "hasImage m \<longleftrightarrow> list_ex (\<lambda>c. ctype c = ContentTypeImage \<and> ctext c \<noteq> []) (m_content m)"

definition noteForImage :: "string \<Rightarrow> nat \<Rightarrow> int \<Rightarrow> int \<Rightarrow> string" where
  "noteForImage tool i keep age =
     slimPlaceholderPrefix @ ''image older screenshot removed from context (message #'' @ show_nat i @ '', '' @ tool @
     '', '' @ show_int age @ '' rounds old; kept the most recent '' @ show_int keep @
     ''). Re-capture it if you need to see it again '' @ [CHR 0xE2, CHR 0x80, CHR 0x94] @
     '' do NOT assume you still remember its contents.]''"

definition stripImages :: "content list \<Rightarrow> string \<Rightarrow> content list" where
  "stripImages cs note =
     (let out = filter (\<lambda>c. ctype c \<noteq> ContentTypeImage) cs in
      if list_ex (\<lambda>c. \<not> blank (ctext c)) out
      then butlast out @ [(last out)\<lparr>ctext := ctext (last out) @ [CHR 0x0A] @ note\<rparr>]
      else out @ [text_block note])"

definition imageToolName :: "message list \<Rightarrow> message \<Rightarrow> string" where
  "imageToolName ms m =
     (case find (\<lambda>tc. tc_id tc = m_call_id m)
        (concat (map m_calls (filter (\<lambda>x. m_role x = Assistant) (rev ms)))) of
        Some tc \<Rightarrow> tc_name tc | None \<Rightarrow> ''tool'')"

text \<open>
  The age of a result is the number of results after it; before the cutoff, it is the limit.
\<close>

definition image_cutoff :: "int \<Rightarrow> nat list \<Rightarrow> nat" where
  "image_cutoff maxRounds starts =
     (if maxRounds < 0 \<or> int (length starts) \<le> maxRounds then 0
      else starts ! (length starts - 1 - nat maxRounds))"

definition image_age :: "int \<Rightarrow> nat \<Rightarrow> message list \<Rightarrow> nat \<Rightarrow> int" where
  "image_age maxRounds k ms i =
     (if maxRounds \<le> 0 then 0
      else if i < k then maxRounds
      else int (length (filter (\<lambda>m. m_role m = Tool) (drop (Suc i) ms))))"

definition image_results :: "message list \<Rightarrow> nat list" where
  "image_results ms = filter (\<lambda>i. m_role (ms ! i) = Tool \<and> hasImage (ms ! i)) [0..<length ms]"

definition image_victims :: "int \<Rightarrow> int \<Rightarrow> nat \<Rightarrow> message list \<Rightarrow> nat list" where
  "image_victims keep maxRounds k ms =
     (let idx = image_results ms in
      filter (\<lambda>i. \<not> (0 < maxRounds \<and> image_age maxRounds k ms i < maxRounds))
        (take (length idx - nat keep) idx))"

definition applyImageSlim :: "slim_state \<times> message list \<Rightarrow> slim_state \<times> message list" where
  "applyImageSlim sm =
     (case sm of (s, ms) \<Rightarrow>
        case sc_Images (sl_cfg s) of
          None \<Rightarrow> (s, ms)
        | Some ic \<Rightarrow>
            if im_Keep ic < 0 then (s, ms)
            else
              let keep = (if im_Keep ic = 0 then 4 else im_Keep ic);
                  maxRounds = (if im_MaxRounds ic = 0 then 30 else im_MaxRounds ic);
                  k = image_cutoff maxRounds (sl_roundStart s);
                  vs = image_victims keep maxRounds k ms
              in (s\<lparr>sl_removed := sl_removed s + int (length vs)\<rparr>,
                  map (\<lambda>(i, m). if i \<in> set vs
                    then m\<lparr>m_content := stripImages (m_content m)
                       (noteForImage (imageToolName ms m) i keep (image_age maxRounds k ms i))\<rparr>
                    else m) (enumerate 0 ms)))"

section \<open>One result is written back\<close>

text \<open>
  The body of the write-back loop of \<open>RunStream\<close> (\<open>agents/agent_loop.go\<close>) for one call with its
  result, with slimming on: spill, slim the text, index the read, append the message. \<open>None\<close>
  stands for a panic or for not returning.
\<close>

definition write_back ::
  "(string \<Rightarrow> string) \<Rightarrow> (string \<Rightarrow> string) \<Rightarrow> bool \<Rightarrow> string \<Rightarrow> slim_state \<times> message list \<Rightarrow> tool_call \<times> tool_result \<Rightarrow>
     (slim_state \<times> message list) option" where
  "write_back arg_path sha fs_ok run_id sm cr =
     (case cr of (tc, r) \<Rightarrow>
        let n = length (snd sm); t0 = spillResult fs_ok run_id (fst sm) tc (r_result r) in
        Option.bind (slimToolResult arg_path sha tc t0 n sm) (\<lambda>(sm1, t).
          Option.bind (recordRead arg_path sha tc t n sm1) (\<lambda>(s2, ms2).
            Some (s2, ms2 @ [NewToolMessageWithImages (tc_id tc) t
              (filter (\<lambda>b. ctype b = ContentTypeImage) (r_blocks r))]))))"

section \<open>Replacements keep the shape of the history\<close>

definition msg_shape :: "message \<Rightarrow> role \<times> tool_call list \<times> string" where
  "msg_shape m = (m_role m, m_calls m, m_call_id m)"

definition same_shape :: "message list \<Rightarrow> message list \<Rightarrow> bool" where
  "same_shape xs ys \<longleftrightarrow> map msg_shape xs = map msg_shape ys"

lemma same_shape_refl [simp]: "same_shape xs xs"
  by (simp add: same_shape_def)

lemma same_shape_trans: "same_shape xs ys \<Longrightarrow> same_shape ys zs \<Longrightarrow> same_shape xs zs"
  by (simp add: same_shape_def)

lemma same_shape_length: "same_shape xs ys \<Longrightarrow> length ys = length xs"
  unfolding same_shape_def by (drule arg_cong [where f = length]) simp

lemma same_shape_nth: "same_shape xs ys \<Longrightarrow> i < length xs \<Longrightarrow> msg_shape (ys ! i) = msg_shape (xs ! i)"
proof -
  assume s: "same_shape xs ys" and i: "i < length xs"
  have "map msg_shape ys ! i = map msg_shape xs ! i" using s by (simp add: same_shape_def)
  then show ?thesis using i same_shape_length [OF s] by simp
qed

lemma called_shape: "called_ids ms = concat (map (\<lambda>x. map tc_id (fst (snd x))) (map msg_shape ms))"
  by (induction ms) (simp_all add: msg_shape_def)

lemma answered_shape: "answered_ids ms = map (\<lambda>x. snd (snd x)) (filter (\<lambda>x. fst x = Tool) (map msg_shape ms))"
  by (induction ms) (simp_all add: msg_shape_def)

lemma same_shape_ids:
  assumes "same_shape xs ys"
  shows "called_ids ys = called_ids xs" "answered_ids ys = answered_ids xs"
proof -
  have e: "map msg_shape xs = map msg_shape ys" using assms unfolding same_shape_def .
  show "called_ids ys = called_ids xs" using called_shape [of ys] called_shape [of xs] e by metis
  show "answered_ids ys = answered_ids xs" using answered_shape [of ys] answered_shape [of xs] e by metis
qed

locale history_rewrite =
  fixes usable :: "'a \<Rightarrow> message list \<Rightarrow> bool" and rewrite :: "'a \<Rightarrow> message list \<Rightarrow> message list"
  assumes rewrite_shape: "usable a ms \<Longrightarrow> same_shape ms (rewrite a ms)"
begin

lemma rewrite_length: "usable a ms \<Longrightarrow> length (rewrite a ms) = length ms"
  by (rule same_shape_length [OF rewrite_shape])

lemma rewrite_paired: "usable a ms \<Longrightarrow> paired ms \<Longrightarrow> paired (rewrite a ms)"
  using same_shape_ids [OF rewrite_shape] by (simp add: paired_def)

end

lemma shape_update:
  "i < length ms \<Longrightarrow> msg_shape m = msg_shape (ms ! i) \<Longrightarrow> same_shape ms (ms[i := m])"
  by (simp add: same_shape_def map_update) (metis list_update_id nth_map)

lemma tool_message_shape: "m_role m = Tool \<Longrightarrow> m_calls m = [] \<Longrightarrow> msg_shape (NewToolMessage (m_call_id m) t) = msg_shape m"
  by (simp add: msg_shape_def constructor_defs)

text \<open>Tool messages carry no calls; every history that the code builds is like that.\<close>

definition results_plain :: "message list \<Rightarrow> bool" where
  "results_plain ms \<longleftrightarrow> (\<forall>m \<in> set ms. m_role m = Tool \<longrightarrow> m_calls m = [])"

lemma results_plain_shape: "same_shape xs ys \<Longrightarrow> results_plain xs \<Longrightarrow> results_plain ys"
proof -
  have "results_plain ms \<longleftrightarrow> (\<forall>s \<in> set (map msg_shape ms). fst s = Tool \<longrightarrow> fst (snd s) = [])" for ms
    by (auto simp: results_plain_def msg_shape_def)
  then show "same_shape xs ys \<Longrightarrow> results_plain xs \<Longrightarrow> results_plain ys" by (simp add: same_shape_def)
qed

lemma fold_result_shape: "results_plain ms \<Longrightarrow> same_shape ms (fold_result i t ms)"
  by (auto simp: fold_result_def results_plain_def intro!: shape_update tool_message_shape)

interpretation fold_rw: history_rewrite "\<lambda>_. results_plain" "\<lambda>(i, t). fold_result i t"
  by unfold_locales (auto simp: fold_result_shape)

lemma stale_message_shape: "msg_shape (stale_message mb r m) = msg_shape m"
  by (auto simp: stale_message_def msg_shape_def split: list.splits)

interpretation stale_rw: history_rewrite "\<lambda>_ _. True" stale_messages
proof
  fix s ms
  show "same_shape ms (stale_messages s ms)"
  proof (cases "round_cutoff (sc_StaleRounds (sl_cfg s)) (sl_roundStart s)")
    case (Some k)
    have "map msg_shape (map (stale_message b r) (take k ms) @ drop k ms) = map msg_shape (take k ms @ drop k ms)" for b r
      by (simp only: map_append map_map comp_def stale_message_shape)
    with Some show ?thesis by (simp only: stale_messages_def same_shape_def option.case append_take_drop_id)
  qed (simp add: stale_messages_def)
qed

interpretation image_rw: history_rewrite "\<lambda>_ _. True" "\<lambda>s ms. snd (applyImageSlim (s, ms))"
proof
  fix s ms
  have "map msg_shape (map (\<lambda>(i, m). if i \<in> V then m\<lparr>m_content := f i m\<rparr> else m) (enumerate 0 ms)) = map msg_shape ms"
    for V f
  proof -
    have "map (\<lambda>(i, m). msg_shape (if i \<in> V then m\<lparr>m_content := f i m\<rparr> else m)) (enumerate 0 ms) =
        map (\<lambda>(i, m). msg_shape m) (enumerate 0 ms)"
      by (rule map_cong) (auto simp: msg_shape_def)
    also have "\<dots> = map msg_shape (map snd (enumerate 0 ms))" by (simp add: split_def comp_def del: map_snd_enumerate)
    finally show ?thesis by (simp add: split_def comp_def)
  qed
  then show "same_shape ms (snd (applyImageSlim (s, ms)))"
    by (auto simp: applyImageSlim_def same_shape_def Let_def split: option.splits)
qed

section \<open>Every recorded index is the index of a result\<close>

definition is_result :: "message list \<Rightarrow> nat \<Rightarrow> bool" where
  "is_result ms i \<longleftrightarrow> i < length ms \<and> m_role (ms ! i) = Tool"

definition slim_ok :: "slim_state \<times> message list \<Rightarrow> bool" where
  "slim_ok sm \<longleftrightarrow> results_plain (snd sm) \<and>
     (\<forall>r \<in> ran (sl_readIndex (fst sm)). is_result (snd sm) (sr_index r)) \<and>
     (\<forall>r \<in> ran (sl_rerun (fst sm)). is_result (snd sm) (sr_index r)) \<and>
     (\<forall>p. \<forall>a \<in> set (sl_reads (fst sm) p). is_result (snd sm) (ra_index a)) \<and>
     (\<forall>k \<in> set (sl_roundStart (fst sm)). k \<le> length (snd sm))"

lemma is_result_shape: "same_shape xs ys \<Longrightarrow> is_result xs i \<Longrightarrow> is_result ys i"
  using same_shape_nth [of xs ys i] same_shape_length [of xs ys] by (auto simp: is_result_def msg_shape_def)

lemma is_result_append: "is_result xs i \<Longrightarrow> is_result (xs @ ys) i"
  by (auto simp: is_result_def nth_append)

lemma slim_ok_shape: "slim_ok (s, ms) \<Longrightarrow> same_shape ms ms' \<Longrightarrow> slim_ok (s, ms')"
  by (auto simp: slim_ok_def results_plain_shape is_result_shape same_shape_length)

lemma slim_ok_new: "results_plain ms \<Longrightarrow> slim_ok (newSlimState c, ms)"
  by (simp add: slim_ok_def newSlimState_def)

lemma applyStale_ok [step_inv]: "slim_ok sm \<Longrightarrow> slim_ok (applyStale sm)"
proof (cases sm)
  case (Pair s ms)
  assume ok: "slim_ok sm"
  let ?s = "s\<lparr>sl_roundStart := sl_roundStart s @ [length ms]\<rparr>"
  have "slim_ok (?s, ms)" using ok Pair by (auto simp: slim_ok_def)
  then show ?thesis using slim_ok_shape stale_rw.rewrite_shape [where a = ?s and ms = ms] Pair
    by (auto simp: applyStale_def Let_def)
qed

lemma applyImageSlim_ok [step_inv]: "slim_ok sm \<Longrightarrow> slim_ok (applyImageSlim sm)"
proof (cases sm)
  case (Pair s ms)
  assume ok: "slim_ok sm"
  have "slim_ok (fst (applyImageSlim (s, ms)), ms)" using ok Pair
    by (auto simp: applyImageSlim_def Let_def slim_ok_def split: option.splits)
  then have "slim_ok (fst (applyImageSlim (s, ms)), snd (applyImageSlim (s, ms)))"
    using slim_ok_shape image_rw.rewrite_shape [where a = s and ms = ms] by blast
  then show ?thesis by (simp add: Pair)
qed

lemma is_result_list_update [simp]: "is_result ms i \<Longrightarrow> fold_result i t ms = ms[i := NewToolMessage (m_call_id (ms ! i)) t]"
  by (simp add: is_result_def fold_result_def)

text \<open>What the semantic pass may do: keep the shape, and index only results or the new one.\<close>

definition slim_ok_next :: "slim_state \<times> message list \<Rightarrow> slim_state \<times> message list \<Rightarrow> bool" where
  "slim_ok_next sm sm' \<longleftrightarrow> same_shape (snd sm) (snd sm') \<and>
     (\<forall>m. m_role m = Tool \<and> m_calls m = [] \<longrightarrow> slim_ok (fst sm', snd sm' @ [m])) \<and>
     sl_readIndex (fst sm') = sl_readIndex (fst sm)"

lemma slim_ok_snoc:
  assumes "slim_ok (s, ms)" "m_role m = Tool" "m_calls m = []"
  shows "slim_ok (s, ms @ [m])"
  using assms by (auto simp: slim_ok_def results_plain_def intro: is_result_append le_SucI)

lemma slim_ok_next_refl: "slim_ok sm \<Longrightarrow> slim_ok_next sm sm"
  by (cases sm) (simp add: slim_ok_next_def slim_ok_snoc)

lemma dedupRerun_ok [step_inv]:
  assumes "slim_ok (s, ms)"
  shows "slim_ok_next (s, ms) (dedupRerun sha tc t (length ms) msg (s, ms))"
proof -
  let ?k = "rerunKey tc"
  let ?s' = "s\<lparr>sl_rerun := (sl_rerun s)(?k \<mapsto> \<lparr>sr_index = length ms, sr_hash = sha t\<rparr>)\<rparr>"
  have after: "slim_ok (?s', ms' @ [m])" if "same_shape ms ms'" "m_role m = Tool" "m_calls m = []" for ms' m
  proof -
    have ok: "slim_ok (s, ms' @ [m])" using slim_ok_snoc [OF slim_ok_shape [OF assms that(1)] that(2,3)] .
    have len: "length ms' = length ms" by (rule same_shape_length [OF that(1)])
    have "is_result (ms' @ [m]) (length ms)" using that(2) len by (simp add: is_result_def nth_append)
    moreover have "r = \<lparr>sr_index = length ms, sr_hash = sha t\<rparr> \<or> r \<in> ran (sl_rerun s)"
      if "r \<in> ran (sl_rerun ?s')" for r
      using that by (auto simp: ran_def split: if_splits)
    ultimately have "\<forall>r \<in> ran (sl_rerun ?s'). is_result (ms' @ [m]) (sr_index r)"
      using ok by (fastforce simp: slim_ok_def)
    then show ?thesis using ok by (simp add: slim_ok_def)
  qed
  have shape: "same_shape ms (fold_result i x ms)" for i x
    using assms by (auto simp: slim_ok_def fold_result_shape)
  show ?thesis
  proof (cases "?k = []")
    case True
    then show ?thesis using slim_ok_next_refl [OF assms] by (simp add: dedupRerun_def)
  next
    case False
    show ?thesis
    proof (cases "sl_rerun s ?k")
      case None
      with False show ?thesis using after [of ms] by (simp add: dedupRerun_def Let_def slim_ok_next_def)
    next
      case (Some prev)
      with False show ?thesis using after [of ms] after [OF shape] shape
        by (simp add: dedupRerun_def Let_def slim_ok_next_def)
    qed
  qed
qed

lemma markFolded_index: "map ra_index (markFolded i as) = map ra_index as"
  by (induction as) auto

lemma set_markFolded: "a \<in> set (markFolded i as) \<Longrightarrow> ra_index a \<in> ra_index ` set as"
  using markFolded_index [of i as] by (metis list.set_map imageI)

lemma fold_anchor_ok:
  assumes "slim_ok sm"
  shows "slim_ok (fold_anchor path rng n cur sm a) \<and> same_shape (snd sm) (snd (fold_anchor path rng n cur sm a)) \<and>
     sl_readIndex (fst (fold_anchor path rng n cur sm a)) = sl_readIndex (fst sm)"
proof (cases sm)
  case (Pair s ms)
  have "slim_ok (s\<lparr>sl_reads := (sl_reads s)(path := markFolded i (sl_reads s path))\<rparr>, ms)" for i
    using assms Pair by (auto simp: slim_ok_def dest!: set_markFolded)
  moreover have "same_shape ms (fold_result i x ms)" for i x
    using assms Pair by (auto simp: slim_ok_def fold_result_shape)
  ultimately show ?thesis using assms Pair
    by (auto simp: fold_anchor_def Let_def intro: slim_ok_shape)
qed

lemma fold_anchors_ok:
  assumes "slim_ok sm"
  shows "slim_ok (foldl (fold_anchor path rng n cur) sm as) \<and> same_shape (snd sm) (snd (foldl (fold_anchor path rng n cur) sm as)) \<and>
     sl_readIndex (fst (foldl (fold_anchor path rng n cur) sm as)) = sl_readIndex (fst sm)"
  using assms
proof (induction as arbitrary: sm)
  case (Cons a as)
  from fold_anchor_ok [OF Cons.prems, of path rng n cur a] Cons.IH [of "fold_anchor path rng n cur sm a"]
  show ?case by (auto intro: same_shape_trans)
qed simp

lemma foldRead_ok [step_inv]:
  assumes "slim_ok (s, ms)"
  shows "slim_ok_next (s, ms) (foldRead arg_path tc t (length ms) (s, ms))"
proof -
  obtain p rng where h: "parseReadHeader t = (p, rng)" by fastforce
  let ?path = "if p = [] then arg_path (tc_args tc) else p"
  show ?thesis
  proof (cases "?path = []")
    case True
    then show ?thesis using slim_ok_next_refl [OF assms] h by (auto simp: foldRead_def Let_def)
  next
    case False
    let ?cur = "sl_editGen s ?path"
    obtain s1 ms1 where f: "foldl (fold_anchor ?path rng (length ms) ?cur) (s, ms) (sl_reads s ?path) = (s1, ms1)"
      by fastforce
    have ok: "slim_ok (s1, ms1)" "same_shape ms ms1" "sl_readIndex s1 = sl_readIndex s"
      using fold_anchors_ok [OF assms, of ?path rng "length ms" ?cur "sl_reads s ?path"] f by auto
    let ?a = "\<lparr>ra_index = length ms, ra_rng = rng, ra_gen = ?cur, ra_folded = False\<rparr>"
    let ?s2 = "s1\<lparr>sl_reads := (sl_reads s1)(?path := sl_reads s1 ?path @ [?a])\<rparr>"
    have r: "foldRead arg_path tc t (length ms) (s, ms) = (?s2, ms1)"
      using False f h by (simp add: foldRead_def Let_def)
    have "slim_ok (?s2, ms1 @ [m])" if "m_role m = Tool" "m_calls m = []" for m
    proof -
      have "slim_ok (s1, ms1 @ [m])" by (rule slim_ok_snoc [OF ok(1) that])
      moreover have "is_result (ms1 @ [m]) (length ms)"
        using that(1) same_shape_length [OF ok(2)] by (simp add: is_result_def nth_append)
      ultimately show ?thesis by (auto simp: slim_ok_def)
    qed
    then show ?thesis unfolding r using ok(2,3) by (simp add: slim_ok_next_def)
  qed
qed

lemma noteEdit_ok: "slim_ok (s, ms) \<Longrightarrow> slim_ok (noteEdit p st s, ms) \<and> sl_readIndex (noteEdit p st s) = sl_readIndex s"
  by (auto simp: noteEdit_def slim_ok_def Let_def)


lemma recordRead_ok [step_inv]:
  assumes "slim_ok (s0, ms0)" "slim_ok_next (s0, ms0) (s, ms)"
  shows "\<exists>s' ms'. recordRead arg_path sha tc t (length ms) (s, ms) = Some (s', ms') \<and> same_shape ms ms' \<and>
     (\<forall>m. m_role m = Tool \<and> m_calls m = [] \<longrightarrow> slim_ok (s', ms' @ [m]))"
proof -
  let ?p = "arg_path (tc_args tc)"
  let ?new = "\<lparr>sr_index = length ms, sr_hash = sha t\<rparr>"
  let ?s' = "s\<lparr>sl_readIndex := (sl_readIndex s)(?p \<mapsto> ?new)\<rparr>"
  have next_ok: "slim_ok (s, ms @ [m])" if "m_role m = Tool" "m_calls m = []" for m
    using assms(2) that by (simp add: slim_ok_next_def)
  have after: "slim_ok (s', ms' @ [m])"
    if "s' = s \<or> s' = ?s'" "same_shape ms ms'" "m_role m = Tool" "m_calls m = []" for s' ms' m
  proof -
    have "same_shape (ms @ [m]) (ms' @ [m])" using that(2) by (simp add: same_shape_def)
    with next_ok [OF that(3,4)] have ok: "slim_ok (s, ms' @ [m])" by (rule slim_ok_shape)
    have new: "is_result (ms' @ [m]) (length ms)"
      using that(3) same_shape_length [OF that(2)] by (simp add: is_result_def nth_append)
    have "r = ?new \<or> r \<in> ran (sl_readIndex s)" if "r \<in> ran (sl_readIndex ?s')" for r
      using that by (auto simp: ran_def split: if_splits)
    then have "\<forall>r \<in> ran (sl_readIndex ?s'). is_result (ms' @ [m]) (sr_index r)"
      using ok new by (fastforce simp: slim_ok_def)
    then show ?thesis using ok that(1) by (auto simp: slim_ok_def)
  qed
  have plain: "results_plain ms"
    using next_ok [of "NewToolMessage [] []"] by (auto simp: slim_ok_def results_plain_def constructor_defs)
  show ?thesis
  proof (cases "tc_name tc \<noteq> ''read_file'' \<or> ?p = []")
    case True
    then show ?thesis using after [of s ms] by (simp add: recordRead_def)
  next
    case False
    show ?thesis
    proof (cases "sl_readIndex s ?p")
      case None
      with False show ?thesis using after [of ?s' ms] by (simp add: recordRead_def)
    next
      case (Some prev)
      then have "prev \<in> ran (sl_readIndex s0)" using assms(2) by (auto simp: slim_ok_next_def intro: ranI)
      then have "is_result ms0 (sr_index prev)" using assms(1) by (simp add: slim_ok_def)
      then have r: "is_result ms (sr_index prev)"
        using assms(2) by (auto simp: slim_ok_next_def intro: is_result_shape)
      then have "same_shape ms (ms[sr_index prev := NewToolMessage (m_call_id (ms ! sr_index prev)) x])" for x
        using fold_result_shape [OF plain, of "sr_index prev" x] by simp
      with False Some r show ?thesis using after [of ?s'] by (auto simp: recordRead_def Let_def is_result_def)
    qed
  qed
qed

section \<open>The block loop of a search result\<close>

lemma fold_blocks_hangs: "fold_blocks cfg (''--'' # ls) \<noteq> Some r"
proof
  have "xs \<noteq> ''--'' # ls" if "fold_blocks cfg xs = Some y" for xs y
  proof (rule fold_blocks.raw_induct [where P = "\<lambda>c xs y. xs \<noteq> ''--'' # ls", OF _ that], goal_cases)
    case (1 f c ms r)
    show ?case
    proof
      assume "ms = ''--'' # ls"
      with 1(2) obtain y where "f c (''--'' # ls) = Some y" by (auto simp: Let_def split: Option.bind_splits)
      from 1(1) [OF this] show False by simp
    qed
  qed
  moreover assume "fold_blocks cfg (''--'' # ls) = Some r"
  ultimately show False by blast
qed

lemma fold_blocks_returns: "fold_blocks cfg ls \<noteq> None \<longleftrightarrow> ''--'' \<notin> set ls"
proof (cases "ls = []")
  case True
  then show ?thesis by (simp add: fold_blocks.simps [of _ "[]"])
next
  case False
  let ?b = "takeWhile (\<lambda>l. l \<noteq> ''--'') ls"
  have "fold_blocks cfg ls =
      Option.bind (fold_blocks cfg (drop (length ?b) ls)) (\<lambda>r. Some (fold_block cfg ?b @ r))"
    using fold_blocks.simps [of cfg ls] False by (simp only: Let_def if_False)
  then have u: "fold_blocks cfg ls = None \<longleftrightarrow> fold_blocks cfg (drop (length ?b) ls) = None"
    by (cases "fold_blocks cfg (drop (length ?b) ls)") simp_all
  show ?thesis
  proof (cases "''--'' \<in> set ls")
    case True
    then have ne: "dropWhile (\<lambda>l. l \<noteq> ''--'') ls \<noteq> []" by (simp only: dropWhile_eq_Nil_conv) blast
    then obtain x xs where d: "dropWhile (\<lambda>l. l \<noteq> ''--'') ls = x # xs" by (cases "dropWhile (\<lambda>l. l \<noteq> ''--'') ls") blast+
    have "x = ''--''" using hd_dropWhile [OF ne] unfolding d list.sel by blast
    then have "fold_blocks cfg (drop (length ?b) ls) = None"
      using fold_blocks_hangs [of cfg xs] unfolding dropWhile_eq_drop [symmetric] d \<open>x = ''--''\<close>
      by (cases "fold_blocks cfg (''--'' # xs)") blast+
    with u True show ?thesis by (simp only: not_True_eq_False simp_thms)
  next
    case False2: False
    then have "?b = ls" by (simp only: takeWhile_eq_all_conv) blast
    then have "drop (length ?b) ls = []" by (simp only: drop_all)
    moreover have "fold_blocks cfg [] = Some []" using fold_blocks.simps [of cfg "[]"] by (simp only: if_True refl)
    ultimately show ?thesis using u False2 by (simp only: option.distinct)
  qed
qed


section \<open>Properties\<close>

definition search_lines :: "string \<Rightarrow> string list" where
  "search_lines s =
     (let ls0 = split_on (CHR 0x0A) s; ls = (if last ls0 = [] then butlast ls0 else ls0) in
      case ls of [] \<Rightarrow> [] | l # r \<Rightarrow> if has_prefix l ''[grep: '' \<or> has_prefix l ''[glob: '' then r else l # r)"

text \<open>Folding the matches of a search returns exactly when the result has no separator line
  \<open>--\<close> after its heading: the loop stops at a separator and never moves past it, so with the
  option on, a search result of two match groups hangs the run.\<close>

theorem fold_matches_returns_iff:
  assumes "0 < tx_GrepPerFileMax cfg"
  shows "foldPerFileMatches cfg s \<noteq> None \<longleftrightarrow> ''--'' \<notin> set (search_lines s)"
  using assms fold_blocks_returns [of cfg "search_lines s"]
  by (auto simp: foldPerFileMatches_def search_lines_def Let_def split: list.splits)

theorem fold_matches_returns_iff_witness:
  "foldPerFileMatches (toConfig \<lparr>so_ReadFold = None, so_BashStripANSI = None, so_BashFoldRepeat = None,
      so_BashRerunDedup = None, so_SearchRerunDedup = None, so_GrepPerFileMax = 20, so_GrepPerFileHead = 0,
      so_GrepPerFileTail = 0, so_MergePairs = None\<rparr>) (''a.go:1:x'' @ [CHR 0x0A] @ ''--'' @ [CHR 0x0A] @ ''a.go:9:x'') = None"
proof -
  let ?c = "toConfig \<lparr>so_ReadFold = None, so_BashStripANSI = None, so_BashFoldRepeat = None,
      so_BashRerunDedup = None, so_SearchRerunDedup = None, so_GrepPerFileMax = 20, so_GrepPerFileHead = 0,
      so_GrepPerFileTail = 0, so_MergePairs = None\<rparr>"
  let ?s = "''a.go:1:x'' @ [CHR 0x0A] @ ''--'' @ [CHR 0x0A] @ ''a.go:9:x''"
  have c: "0 < tx_GrepPerFileMax ?c" by (simp add: toConfig_def text_normalize_def default_if_def)
  have "''--'' \<in> set (search_lines ?s)" by (simp add: search_lines_def has_prefix_def)
  then have "\<not> foldPerFileMatches ?c ?s \<noteq> None" using fold_matches_returns_iff [OF c, of ?s] by blast
  then show ?thesis by blast
qed

text \<open>The search option is the only way for the semantic pass not to return.\<close>

definition slim_returns :: "slim_state \<Rightarrow> tool_call \<Rightarrow> string \<Rightarrow> bool" where
  "slim_returns s tc t \<longleftrightarrow> (case sc_Text (sl_cfg s) of None \<Rightarrow> True | Some cfg \<Rightarrow>
     (tc_name tc = ''grep'' \<or> tc_name tc = ''glob'') \<longrightarrow> foldPerFileMatches cfg t \<noteq> None)"

lemma slimToolResult_ok:
  assumes "slim_ok (s, ms)" "slim_returns s tc t"
  shows "\<exists>sm t'. slimToolResult arg_path sha tc t (length ms) (s, ms) = Some (sm, t') \<and> slim_ok_next (s, ms) sm"
proof -
  note same = slim_ok_next_refl [OF assms(1)]
  have d: "\<exists>sm t'. Some (if b then dedupRerun sha tc x (length ms) msg (s, ms) else (s, ms), y) = Some (sm, t') \<and>
      slim_ok_next (s, ms) sm" for b x msg y
    using same dedupRerun_ok [OF assms(1), of sha tc x msg] by (cases b) (simp_all only: if_True if_False, blast+)
  have f: "\<exists>sm t'. Some (if b then foldRead arg_path tc t (length ms) (s, ms) else (s, ms), y) = Some (sm, t') \<and>
      slim_ok_next (s, ms) sm" for b y
    using same foldRead_ok [OF assms(1), of arg_path tc t] by (cases b) (simp_all only: if_True if_False, blast+)
  have n: "slim_ok_next (s, ms) (noteEdit p st s, ms)" for p st
    using noteEdit_ok [OF assms(1), of p st] slim_ok_snoc [of "noteEdit p st s" ms]
    unfolding slim_ok_next_def by simp
  show ?thesis
  proof (cases "sc_Text (sl_cfg s)")
    case None
    with same show ?thesis by (simp add: slimToolResult_def)
  next
    case (Some cfg)
    have e: "slimToolResult arg_path sha tc t (length ms) (s, ms) =
      (if tc_name tc = ''read_file''
       then Some (if tx_ReadFold cfg then foldRead arg_path tc t (length ms) (s, ms) else (s, ms), t)
       else if tc_name tc = ''write_file'' \<or> tc_name tc = ''edit_file''
       then Some ((noteEdit (arg_path (tc_args tc)) (parseEditStats t) s, ms), t)
       else if tc_name tc = ''bash''
       then
         let t1 = (if tx_BashStripANSI cfg then stripANSI t else t);
             t2 = (if tx_BashFoldRepeat cfg then foldRepeatedLines t1 else t1)
         in Some (if tx_BashRerunDedup cfg then dedupRerun sha tc t2 (length ms) lit_rerun_bash (s, ms) else (s, ms), t2)
       else if tc_name tc = ''grep'' \<or> tc_name tc = ''glob''
       then map_option (\<lambda>t1. (if tx_SearchRerunDedup cfg
              then dedupRerun sha tc t (length ms) lit_rerun_search (s, ms) else (s, ms), t1)) (foldPerFileMatches cfg t)
       else Some ((s, ms), t))"
      unfolding slimToolResult_def Some option.case fst_conv snd_conv Let_def ..
    consider (c1) "tc_name tc = ''read_file''"
      | (c2) "tc_name tc \<noteq> ''read_file''" "tc_name tc = ''write_file'' \<or> tc_name tc = ''edit_file''"
      | (c3) "tc_name tc \<noteq> ''read_file''" "\<not> (tc_name tc = ''write_file'' \<or> tc_name tc = ''edit_file'')" "tc_name tc = ''bash''"
      | (c4) "tc_name tc \<noteq> ''read_file''" "\<not> (tc_name tc = ''write_file'' \<or> tc_name tc = ''edit_file'')"
          "tc_name tc \<noteq> ''bash''" "tc_name tc = ''grep'' \<or> tc_name tc = ''glob''"
      | (c5) "tc_name tc \<noteq> ''read_file''" "\<not> (tc_name tc = ''write_file'' \<or> tc_name tc = ''edit_file'')"
          "tc_name tc \<noteq> ''bash''" "\<not> (tc_name tc = ''grep'' \<or> tc_name tc = ''glob'')" by blast
    then show ?thesis
    proof cases
      case c1
      show ?thesis unfolding e if_P [OF c1] by (rule f)
    next
      case c2
      show ?thesis unfolding e if_not_P [OF c2(1)] if_P [OF c2(2)] using n by blast
    next
      case c3
      show ?thesis unfolding e if_not_P [OF c3(1)] if_not_P [OF c3(2)] if_P [OF c3(3)] Let_def by (rule d)
    next
      case c4
      then obtain t' where t': "foldPerFileMatches cfg t = Some t'" using assms(2) Some by (auto simp: slim_returns_def)
      show ?thesis unfolding e if_not_P [OF c4(1)] if_not_P [OF c4(2)] if_not_P [OF c4(3)] if_P [OF c4(4)]
          t' option.map by (rule d)
    next
      case c5
      show ?thesis unfolding e if_not_P [OF c5(1)] if_not_P [OF c5(2)] if_not_P [OF c5(3)] if_not_P [OF c5(4)]
        using same by blast
    qed
  qed
qed

text \<open>Writing results back never indexes outside the history: from a state whose recorded
  indices are results of the history, spilling, folding, deduplicating and appending a result
  return, leave the pairing of everything before untouched, and keep the recorded indices right.\<close>

theorem write_back_safe:
  assumes "slim_ok (s, ms)" and "slim_returns s tc (spillResult fs_ok run_id s tc (r_result r))"
  shows "\<exists>s' ms' m. write_back arg_path sha fs_ok run_id (s, ms) (tc, r) = Some (s', ms' @ [m]) \<and>
     slim_ok (s', ms' @ [m]) \<and> same_shape ms ms' \<and> m_role m = Tool \<and> m_call_id m = tc_id tc"
proof -
  let ?t0 = "spillResult fs_ok run_id s tc (r_result r)"
  obtain s1 ms1 t where 1: "slimToolResult arg_path sha tc ?t0 (length ms) (s, ms) = Some ((s1, ms1), t)"
    "slim_ok_next (s, ms) (s1, ms1)"
    using slimToolResult_ok [OF assms, of arg_path sha] by (metis prod.collapse)
  then have sh: "same_shape ms ms1" by (simp add: slim_ok_next_def)
  then have len: "length ms1 = length ms" by (rule same_shape_length)
  obtain s2 ms2 where 2: "recordRead arg_path sha tc t (length ms) (s1, ms1) = Some (s2, ms2)" "same_shape ms1 ms2"
    "\<forall>m. m_role m = Tool \<and> m_calls m = [] \<longrightarrow> slim_ok (s2, ms2 @ [m])"
    using recordRead_ok [OF assms(1) 1(2), of arg_path sha tc t] len by auto
  let ?m = "NewToolMessageWithImages (tc_id tc) t (filter (\<lambda>b. ctype b = ContentTypeImage) (r_blocks r))"
  have "write_back arg_path sha fs_ok run_id (s, ms) (tc, r) = Some (s2, ms2 @ [?m])"
    using 1(1) 2(1) by (simp add: write_back_def Let_def)
  moreover have "m_role ?m = Tool" "m_calls ?m = []" "m_call_id ?m = tc_id tc" by (auto simp: constructor_defs)
  ultimately show ?thesis using 2(3) same_shape_trans [OF sh 2(2)] by blast
qed

text \<open>An earlier read is folded only if the new read covers its lines or the file was edited
  since: every other message of the history is left as it is.\<close>

theorem foldRead_folds_only_outdated:
  assumes "j < length ms" and "parseReadHeader t = (path, rng)" and "path \<noteq> []"
    and "\<forall>a \<in> set (sl_reads s path). ra_index a = j \<longrightarrow> \<not> covers rng (ra_rng a) \<and> \<not> ra_gen a < sl_editGen s path"
  shows "snd (foldRead arg_path tc t newIdx (s, ms)) ! j = ms ! j"
proof -
  have step: "snd (fold_anchor path rng newIdx cur sm a) ! j = snd sm ! j"
    if "ra_index a = j \<Longrightarrow> \<not> covers rng (ra_rng a) \<and> \<not> ra_gen a < cur" for cur sm a
    using that by (cases sm; cases "ra_index a = j") (auto simp: fold_anchor_def fold_result_def Let_def)
  have "snd (foldl (fold_anchor path rng newIdx cur) sm as) ! j = snd sm ! j"
    if "\<forall>a \<in> set as. ra_index a = j \<longrightarrow> \<not> covers rng (ra_rng a) \<and> \<not> ra_gen a < cur" for cur sm as
    using that by (induction as arbitrary: sm) (auto simp: step)
  from this [OF assms(4), of "(s, ms)"] show ?thesis
    using assms(2,3) by (auto simp: foldRead_def Let_def split: prod.splits)
qed


definition plain_slim :: slim_config where
  "plain_slim = \<lparr>sc_DedupMinBytes = 2048, sc_StaleRounds = 20, sc_StaleMinBytes = 8192, sc_SpillMaxBytes = 65536,
     sc_SpillDir = [], sc_Text = None, sc_Images = None\<rparr>"

definition demo_call :: "string \<Rightarrow> string \<Rightarrow> string \<Rightarrow> tool_call" where
  "demo_call i name args = \<lparr>tc_id = i, tc_index = 0, tc_name = name, tc_args = args, tc_request = [], tc_parent = [], tc_depth = 0\<rparr>"

theorem write_back_safe_witness:
  "\<exists>s' ms' m. write_back id id True ''run'' (newSlimState plain_slim, [NewUserMessage []])
       (demo_call ''c1'' ''read_file'' ''a'', plain_result ''c1'' ''text'' False) = Some (s', ms' @ [m]) \<and>
     slim_ok (s', ms' @ [m]) \<and> same_shape [NewUserMessage []] ms' \<and> m_role m = Tool \<and> m_call_id m = ''c1''"
proof -
  have "slim_ok (newSlimState plain_slim, [NewUserMessage []])"
    by (rule slim_ok_new) (simp add: results_plain_def constructor_defs)
  moreover have "slim_returns (newSlimState plain_slim) tc t" for tc t
    by (simp add: slim_returns_def newSlimState_def plain_slim_def)
  ultimately show ?thesis
    using write_back_safe [of "newSlimState plain_slim" "[NewUserMessage []]" "demo_call ''c1'' ''read_file'' ''a''" True
        "''run''" "plain_result ''c1'' ''text'' False" id id]
    by (simp add: demo_call_def)
qed

definition read_text :: "string \<Rightarrow> string" where
  "read_text lines = ''[read_file: a.go, 90 lines total, showing '' @ lines @ '']'' @ [CHR 0x0A] @ ''x := 1''"

definition one_read :: "slim_state \<times> message list" where
  "one_read = ((newSlimState plain_slim)\<lparr>sl_reads := (\<lambda>_. [])(''a.go'' := [\<lparr>ra_index = 1,
      ra_rng = \<lparr>rr_start = 1, rr_end = 40, rr_valid = True\<rparr>, ra_gen = 0, ra_folded = False\<rparr>])\<rparr>,
    [NewUserMessage [], NewToolMessage ''c1'' (read_text ''1-40'')])"

theorem foldRead_folds_only_outdated_witness:
  "snd (foldRead id (demo_call ''c2'' ''read_file'' ''a.go'') (read_text ''30-60'') 3 one_read) ! 1 = snd one_read ! 1 \<and>
   snd (foldRead id (demo_call ''c2'' ''read_file'' ''a.go'') (read_text ''1-60'') 3 one_read) ! 1 \<noteq> snd one_read ! 1"
proof
  have h: "parseReadHeader (read_text ''30-60'') = (''a.go'', \<lparr>rr_start = 30, rr_end = 60, rr_valid = True\<rparr>)"
    by code_simp
  show "snd (foldRead id (demo_call ''c2'' ''read_file'' ''a.go'') (read_text ''30-60'') 3 one_read) ! 1 = snd one_read ! 1"
    unfolding one_read_def snd_conv
    by (rule foldRead_folds_only_outdated [OF _ h]) (simp_all add: covers_def newSlimState_def)
  show "snd (foldRead id (demo_call ''c2'' ''read_file'' ''a.go'') (read_text ''1-60'') 3 one_read) ! 1 \<noteq> snd one_read ! 1"
    by code_simp
qed

text \<open>A screenshot is removed only when it fails both limits: it stays while at most \<open>Keep\<close>
  screenshots are in the history, however old they are, and also while none has reached the age
  limit, however many there are. The comment of the file announces either limit as sufficient.\<close>

theorem screenshots_need_both_limits:
  assumes "sc_Images (sl_cfg s) = Some ic" and "0 < im_Keep ic" and "0 < im_MaxRounds ic"
    and "int (length (image_results ms)) \<le> im_Keep ic \<or>
      (\<forall>i \<in> set (image_results ms).
         image_age (im_MaxRounds ic) (image_cutoff (im_MaxRounds ic) (sl_roundStart s)) ms i < im_MaxRounds ic)"
  shows "snd (applyImageSlim (s, ms)) = ms"
proof -
  let ?vs = "image_victims (im_Keep ic) (im_MaxRounds ic) (image_cutoff (im_MaxRounds ic) (sl_roundStart s)) ms"
  have "?vs = []"
    using assms(3,4) by (auto simp: image_victims_def Let_def filter_empty_conv dest: in_set_takeD)
  moreover have "map (\<lambda>(i, m). m) (enumerate 0 ms) = ms" by (simp add: split_def)
  ultimately show ?thesis using assms(1-3) by (simp add: applyImageSlim_def Let_def)
qed

definition shot :: message where
  "shot = NewToolMessageWithImages ''c1'' ''screenshot'' [\<lparr>ctype = ContentTypeImage, ctext = ''AAAA'', mime = ''image/png''\<rparr>]"

theorem screenshots_need_both_limits_witness:
  "snd (applyImageSlim ((newSlimState (plain_slim\<lparr>sc_Images := Some \<lparr>im_Keep = 1, im_MaxRounds = 30\<rparr>\<rparr>))
      \<lparr>sl_roundStart := [0, 1, 2, 3, 4]\<rparr>, replicate 5 shot)) = replicate 5 shot"
  by (rule screenshots_need_both_limits [where ic = "\<lparr>im_Keep = 1, im_MaxRounds = 30\<rparr>"])
    (simp_all add: newSlimState_def plain_slim_def image_age_def image_cutoff_def,
     auto simp: image_results_def numeral_eq_Suc)

end
