(* ===== verification/Errors.thy ===== *)
theory Errors
  imports Messages
begin

text \<open>
  The errors of a model call (\<open>provider/errors.go\<close>, \<open>provider/provider.go\<close>,
  \<open>provider/retryhint.go\<close>). An error is the value of a datatype with one constructor per
  error type of the source, \<open>errors.As\<close> and \<open>errors.Is\<close> search the chain of its causes, and
  \<open>err_text\<close> is \<open>Error()\<close>, on which the detection of an exceeded context works.
\<close>

section \<open>Texts\<close>

text \<open>
  \<open>strings.ToLower\<close> as far as a search for ASCII text can see it: the ASCII letters, and the
  two other runes whose lower case is an ASCII letter (the Kelvin sign, the dotted capital I).
  The flag \<open>(?i)\<close> of a regular expression folds the Kelvin sign and the long s.
\<close>

definition lower_char :: "char \<Rightarrow> char" where
  "lower_char c = (let n = of_char c :: nat in if 65 \<le> n \<and> n \<le> 90 then char_of (n + 32) else c)"

fun fold_case :: "(string \<times> char) list \<Rightarrow> string \<Rightarrow> string" where
  "fold_case ws [] = []"
| "fold_case ws (c # s) =
     (case find (\<lambda>w. fst w \<noteq> [] \<and> has_prefix (c # s) (fst w)) ws of
        Some w \<Rightarrow> snd w # fold_case ws (drop (length (fst w) - 1) s)
      | None \<Rightarrow> lower_char c # fold_case ws s)"

definition kelvin :: "string \<times> char" where
  "kelvin = ([CHR 0xE2, CHR 0x84, CHR 0xAA], CHR ''k'')"

definition to_lower :: "string \<Rightarrow> string" where
  "to_lower = fold_case [kelvin, ([CHR 0xC4, CHR 0xB0], CHR ''i'')]"

definition re_fold :: "string \<Rightarrow> string" where
  "re_fold = fold_case [kelvin, ([CHR 0xC5, CHR 0xBF], CHR ''s'')]"

text \<open>\<open>Duration.String\<close>: nanoseconds as \<open>1h2m3.5s\<close>, below a second as \<open>ms\<close>, \<open>\<mu>s\<close> or \<open>ns\<close>.\<close>

definition strip_zeros :: "string \<Rightarrow> string" where
  "strip_zeros s = rev (dropWhile (\<lambda>c. c = CHR ''0'') (rev s))"

definition pad_left :: "nat \<Rightarrow> string \<Rightarrow> string" where
  "pad_left k s = replicate (k - length s) (CHR ''0'') @ s"

definition show_frac :: "nat \<Rightarrow> nat \<Rightarrow> string" where
  "show_frac u k =
     (let f = strip_zeros (pad_left k (show_nat (u mod 10 ^ k)))
      in show_nat (u div 10 ^ k) @ (if f = [] then [] else ''.'' @ f))"

definition show_span :: "nat \<Rightarrow> string" where
  "show_span u =
     (if u = 0 then ''0s''
      else if u < 1000 then show_nat u @ ''ns''
      else if u < 10 ^ 6 then show_frac u 3 @ lit_micro @ ''s''
      else if u < 10 ^ 9 then show_frac u 6 @ ''ms''
      else
        let s = u div 10 ^ 9; m = s div 60; h = m div 60;
            f = strip_zeros (pad_left 9 (show_nat (u mod 10 ^ 9)))
        in (if 0 < h then show_nat h @ ''h'' else []) @ (if 0 < m then show_nat (m mod 60) @ ''m'' else []) @
           show_nat (s mod 60) @ (if f = [] then [] else ''.'' @ f) @ ''s'')"

definition show_duration :: "int \<Rightarrow> string" where
  "show_duration d = (if d < 0 then ''-'' else []) @ show_span (nat \<bar>d\<bar>)"

section \<open>Errors\<close>

record retry_hint =
  rh_After :: int
  rh_HasAfter :: bool
  rh_ShouldRetry :: "bool option"

text \<open>
  \<open>Plain\<close> is any error without a cause that the source does not know, \<open>Wrapped\<close> one that
  names its cause (\<open>fmt.Errorf\<close> with \<open>%w\<close>, \<open>url.Error\<close>).
\<close>

datatype err =
    Plain string
  | Wrapped string err
  | Canceled
  | DeadlineExceeded
  | PermanentError err
  | RateLimitError int "err option"
  | UpstreamUnavailableError int "err option"
  | FirstChunkTimeoutError int "err option"
  | StreamStallError int "err option"
  | OutputTruncatedError int int bool
  | ContextExceededError string int int "err option"
  | NotImplementedError string
  | HintError retry_hint err
  | PartialUsageError err usage

fun unwrap :: "err \<Rightarrow> err option" where
  "unwrap (Wrapped t e) = Some e"
| "unwrap (PermanentError e) = Some e"
| "unwrap (RateLimitError n e) = e"
| "unwrap (UpstreamUnavailableError n e) = e"
| "unwrap (FirstChunkTimeoutError d e) = e"
| "unwrap (StreamStallError d e) = e"
| "unwrap (ContextExceededError t w r e) = e"
| "unwrap (HintError h e) = Some e"
| "unwrap (PartialUsageError e u) = Some e"
| "unwrap _ = None"

lemma unwrap_size [termination_simp]: "unwrap e = Some c \<Longrightarrow> size c < size e"
  by (cases e) auto

fun chain :: "err \<Rightarrow> err list" where
  "chain e = e # (case unwrap e of None \<Rightarrow> [] | Some c \<Rightarrow> chain c)"

declare chain.simps [simp del]

text \<open>\<open>errors.As\<close> with a predicate for the type, \<open>errors.Is\<close> with one of the two sentinels.\<close>

definition err_as :: "(err \<Rightarrow> bool) \<Rightarrow> err \<Rightarrow> err option" where
  "err_as p e = find p (chain e)"

definition err_is :: "err \<Rightarrow> err \<Rightarrow> bool" where
  "err_is e target \<longleftrightarrow> target \<in> set (chain e)"

definition truncated_text :: "int \<Rightarrow> int \<Rightarrow> string" where
  "truncated_text limit reasoning =
     lit_truncated_head @
     (if 0 < limit then lit_truncated_limit @ show_int limit @ lit_truncated_limit_close else lit_truncated_no_limit) @
     (if 0 < reasoning then lit_truncated_reasoning @ show_int reasoning @ lit_truncated_reasoning_close else []) @
     lit_full_stop @ lit_truncated_advice1 @ lit_truncated_advice2"

definition exceeded_text :: "string \<Rightarrow> int \<Rightarrow> int \<Rightarrow> string option \<Rightarrow> string" where
  "exceeded_text m w r cause =
     lit_exceeded_head @
     (if 0 < w \<and> 0 < r then lit_exceeded_window @ show_int w @ lit_exceeded_requested @ show_int r @ lit_exceeded_requested_close
      else if 0 < w then lit_exceeded_about @ show_int w @ '' tokens'' else []) @
     lit_exceeded_cause @ lit_exceeded_advice1 @ lit_exceeded_advice2 @
     (if m \<noteq> [] then lit_exceeded_original @ m else []) @
     (case cause of None \<Rightarrow> [] | Some t \<Rightarrow> if t \<noteq> [] \<and> t \<noteq> m then CHR 0x0A # t else [])"

definition shown_cause :: "string option \<Rightarrow> string" where
  "shown_cause t = (case t of None \<Rightarrow> ''<nil>'' | Some s \<Rightarrow> s)"

primrec err_text :: "err \<Rightarrow> string" where
  "err_text (Plain t) = t"
| "err_text (Wrapped t e) = t"
| "err_text Canceled = ''context canceled''"
| "err_text DeadlineExceeded = ''context deadline exceeded''"
| "err_text (PermanentError e) = err_text e"
| "err_text (RateLimitError n e) =
     ''rate limit exceeded (HTTP '' @ show_int (if n = 0 then 429 else n) @ ''): '' @ shown_cause (map_option err_text e)"
| "err_text (UpstreamUnavailableError n e) =
     (case map_option err_text e of
        None \<Rightarrow> ''upstream unavailable (HTTP '' @ show_int n @ '')''
      | Some t \<Rightarrow> if 0 < n then ''upstream unavailable (HTTP '' @ show_int n @ ''): '' @ t else t)"
| "err_text (FirstChunkTimeoutError d e) =
     (if d \<le> 0 then lit_first_chunk_plain
      else lit_first_chunk_open @ show_duration d @ lit_first_chunk_close @
        (case map_option err_text e of None \<Rightarrow> [] | Some t \<Rightarrow> lit_underlying @ t))"
| "err_text (StreamStallError d e) =
     (if d \<le> 0 then lit_stall_plain
      else lit_stall_open @ show_duration d @ lit_stall_close @
        (case map_option err_text e of None \<Rightarrow> [] | Some t \<Rightarrow> lit_underlying @ t))"
| "err_text (OutputTruncatedError limit reasoning had) = truncated_text limit reasoning"
| "err_text (ContextExceededError m w r e) = exceeded_text m w r (map_option err_text e)"
| "err_text (NotImplementedError t) = t"
| "err_text (HintError h e) = err_text e"
| "err_text (PartialUsageError e u) = err_text e"


section \<open>Permanent errors and the exceeded context\<close>

definition IsPermanent :: "err \<Rightarrow> bool" where
  "IsPermanent e \<longleftrightarrow>
     err_as (\<lambda>x. case x of PermanentError c \<Rightarrow> True | _ \<Rightarrow> False) e \<noteq> None \<or>
     err_as (\<lambda>x. case x of ContextExceededError m w r c \<Rightarrow> True | _ \<Rightarrow> False) e \<noteq> None"

definition MarkPermanent :: "err \<Rightarrow> err" where
  "MarkPermanent e = (if IsPermanent e then e else PermanentError e)"

definition NewNotImplementedError :: "string \<Rightarrow> err" where
  "NewNotImplementedError t = MarkPermanent (NotImplementedError t)"

definition contextExceededPatterns :: "string list" where
  "contextExceededPatterns =
     [''maximum context length'', ''context length exceeded'', ''context_length_exceeded'',
      ''context length is'', ''please reduce the length of the messages'',
      ''please reduce the length of the message'', ''too many tokens'',
      ''exceeds the model'' @ [CHR 0x27] @ ''s max'', ''exceeds the maximum context'',
      ''prompt is too long'', ''input is too long'']"

definition isContextExceededMessage :: "string \<Rightarrow> bool" where
  "isContextExceededMessage m \<longleftrightarrow> list_ex (contains (to_lower m)) contextExceededPatterns"

text \<open>
  The pattern \<open>(\d[\d,]*)\s*tokens\<close>: a run of digits and commas that starts with a digit, blanks, the
  word. \<open>FindAllStringSubmatch\<close> takes the leftmost matches, at most two.
\<close>

definition re_blank :: "char \<Rightarrow> bool" where
  "re_blank c \<longleftrightarrow> c \<in> {CHR 0x09, CHR 0x0A, CHR 0x0C, CHR 0x0D, CHR 0x20}"

definition tokens_at :: "string \<Rightarrow> (string \<times> string) option" where
  "tokens_at s =
     (let n = takeWhile (\<lambda>c. is_digit c \<or> c = CHR '','') s;
          r = dropWhile re_blank (drop (length n) s)
      in if s \<noteq> [] \<and> is_digit (hd s) \<and> has_prefix r ''tokens''
         then Some (n, drop 6 r) else None)"

lemma tokens_at_shorter [termination_simp]: "tokens_at s = Some (n, r) \<Longrightarrow> length r < length s"
proof -
  assume a: "tokens_at s = Some (n, r)"
  let ?d = "dropWhile re_blank (drop (length (takeWhile (\<lambda>c. is_digit c \<or> c = CHR '','') s)) s)"
  from a have r: "r = drop 6 ?d" and p: "has_prefix ?d ''tokens''"
    by (auto simp: tokens_at_def Let_def split: if_splits)
  from p have "6 \<le> length ?d" by (auto simp: has_prefix_iff dest: prefix_length_le)
  moreover have "length ?d \<le> length s"
    by (rule le_trans [OF length_dropWhile_le]) simp
  ultimately show ?thesis by (simp add: r)
qed


fun find_tokens :: "nat \<Rightarrow> string \<Rightarrow> string list" where
  "find_tokens k s =
     (if k = 0 \<or> s = [] then []
      else case tokens_at s of
          Some (n, r) \<Rightarrow> n # find_tokens (k - 1) r
        | None \<Rightarrow> find_tokens k (tl s))"

declare find_tokens.simps [simp del]

text \<open>\<open>strconv.ParseInt\<close> of the digits left after removing the commas, 0 where it overflows.\<close>

definition parse_tokens :: "string \<Rightarrow> int" where
  "parse_tokens s = (let n = int (dec_val (filter (\<lambda>c. c \<noteq> CHR '','') s)) in if n < 2 ^ 63 then n else 0)"

definition contextExceededTokens :: "string \<Rightarrow> int \<times> int" where
  "contextExceededTokens m =
     (case map parse_tokens (find_tokens 2 m) of
        [] \<Rightarrow> (0, 0) | [w] \<Rightarrow> (w, 0) | w # r # _ \<Rightarrow> (w, r))"

definition DetectContextExceeded :: "err \<Rightarrow> err" where
  "DetectContextExceeded e =
     (if err_as (\<lambda>x. case x of ContextExceededError m w r c \<Rightarrow> True | _ \<Rightarrow> False) e \<noteq> None then e
      else if \<not> isContextExceededMessage (err_text e) then e
      else case contextExceededTokens (err_text e) of (w, r) \<Rightarrow> ContextExceededError (err_text e) w r (Some e))"

section \<open>Classification\<close>

definition IsRateLimitText :: "string \<Rightarrow> bool" where
  "IsRateLimitText m \<longleftrightarrow>
     list_ex (contains (to_lower m)) [''rate limit'', ''rate_limit'', ''too many requests'', ''429'']"

definition upstreamUnavailablePatterns :: "string list" where
  "upstreamUnavailablePatterns =
     [''service unavailable'', ''endpoint is unavailable'', ''upstream request failed'',
      ''upstream model provider is temporarily unavailable'', ''bad gateway'', ''connection reset by peer'']"

text \<open>
  The pattern \<open>(?i)(status code|http status|status|http)[:=\s,]{0,3}5\d\d\<close> at the head of a text that
  has been folded.
\<close>

definition five_xx :: "string \<Rightarrow> bool" where
  "five_xx s \<longleftrightarrow> 3 \<le> length s \<and> s ! 0 = CHR ''5'' \<and> is_digit (s ! 1) \<and> is_digit (s ! 2)"

definition status_at :: "string \<Rightarrow> bool" where
  "status_at s \<longleftrightarrow>
     list_ex (\<lambda>w. has_prefix s w \<and>
         (let r = drop (length w) s in
          list_ex (\<lambda>k. k \<le> length r \<and> list_all (\<lambda>c. c = CHR '':'' \<or> c = CHR ''='' \<or> c = CHR '','' \<or> re_blank c) (take k r) \<and>
             five_xx (drop k r)) [0, 1, 2, 3]))
       [''status code'', ''http status'', ''status'', ''http'']"

definition upstreamStatus :: "string \<Rightarrow> bool" where
  "upstreamStatus m = (let s = re_fold m in list_ex (\<lambda>i. status_at (drop i s)) [0..<length s])"

definition IsUpstreamUnavailableText :: "string \<Rightarrow> bool" where
  "IsUpstreamUnavailableText m \<longleftrightarrow>
     m \<noteq> [] \<and> (upstreamStatus m \<or> list_ex (contains (to_lower m)) upstreamUnavailablePatterns)"

definition isUpstreamUnavailable :: "err \<Rightarrow> bool" where
  "isUpstreamUnavailable e \<longleftrightarrow>
     err_as (\<lambda>x. case x of UpstreamUnavailableError n c \<Rightarrow> True | FirstChunkTimeoutError d c \<Rightarrow> True
                  | StreamStallError d c \<Rightarrow> True | _ \<Rightarrow> False) e \<noteq> None \<or>
     IsUpstreamUnavailableText (err_text e)"

definition isOutputTruncated :: "err \<Rightarrow> bool" where
  "isOutputTruncated e \<longleftrightarrow> err_as (\<lambda>x. case x of OutputTruncatedError l r h \<Rightarrow> True | _ \<Rightarrow> False) e \<noteq> None"

definition is_rate_limit :: "err \<Rightarrow> bool" where
  "is_rate_limit e \<longleftrightarrow> err_as (\<lambda>x. case x of RateLimitError n c \<Rightarrow> True | _ \<Rightarrow> False) e \<noteq> None"

datatype error_kind =
    KindContextExceeded | KindCanceled | KindAborted | KindOutputTruncated | KindPermanent
  | KindUpstreamUnavailable | KindRateLimit | KindGeneric

definition ClassifyError :: "err \<Rightarrow> error_kind" where
  "ClassifyError e =
     (if err_as (\<lambda>x. case x of ContextExceededError m w r c \<Rightarrow> True | _ \<Rightarrow> False) e \<noteq> None then KindContextExceeded
      else if err_is e Canceled then KindCanceled
      else if isOutputTruncated e then KindOutputTruncated
      else if IsPermanent e then KindPermanent
      else if isUpstreamUnavailable e then KindUpstreamUnavailable
      else if is_rate_limit e then KindRateLimit
      else KindGeneric)"

definition ClassifyHTTPError :: "int \<Rightarrow> err \<Rightarrow> err" where
  "ClassifyHTTPError status e =
     (if status = 429 then RateLimitError status (Some e)
      else if status \<in> {408, 409, 425} then e
      else if 500 \<le> status then UpstreamUnavailableError status (Some e)
      else DetectContextExceeded (MarkPermanent e))"

section \<open>Causes, hints and partial usage\<close>

text \<open>
  The constructors of the two timeouts drop a cause that is a cancellation. \<open>SetCause\<close> does so
  later, and refuses a cause that wraps the error itself: the flag \<open>self\<close> says that it does,
  since values have no identity.
\<close>

definition NewFirstChunkTimeoutError :: "int \<Rightarrow> err option \<Rightarrow> err" where
  "NewFirstChunkTimeoutError d c = FirstChunkTimeoutError d
     (case c of None \<Rightarrow> None | Some e \<Rightarrow> if err_is e Canceled \<or> err_is e DeadlineExceeded then None else c)"

definition NewStreamStallError :: "int \<Rightarrow> err option \<Rightarrow> err" where
  "NewStreamStallError d c = StreamStallError d
     (case c of None \<Rightarrow> None | Some e \<Rightarrow> if err_is e Canceled \<or> err_is e DeadlineExceeded then None else c)"

fun SetCause :: "bool \<Rightarrow> err option \<Rightarrow> err \<Rightarrow> err" where
  "SetCause self (Some c) (FirstChunkTimeoutError d old) =
     FirstChunkTimeoutError d (if self \<or> err_is c Canceled \<or> err_is c DeadlineExceeded then old else Some c)"
| "SetCause self (Some c) (StreamStallError d old) =
     StreamStallError d (if self \<or> err_is c Canceled \<or> err_is c DeadlineExceeded then old else Some c)"
| "SetCause self _ e = e"

definition hint_IsZero :: "retry_hint \<Rightarrow> bool" where
  "hint_IsZero h \<longleftrightarrow> \<not> rh_HasAfter h \<and> rh_ShouldRetry h = None"

definition no_hint :: retry_hint where
  "no_hint = \<lparr>rh_After = 0, rh_HasAfter = False, rh_ShouldRetry = None\<rparr>"

definition WithRetryHint :: "err \<Rightarrow> retry_hint \<Rightarrow> err" where
  "WithRetryHint e h = (if hint_IsZero h then e else HintError h e)"

definition RetryHintOf :: "err \<Rightarrow> retry_hint option" where
  "RetryHintOf e = (case err_as (\<lambda>x. case x of HintError h c \<Rightarrow> True | _ \<Rightarrow> False) e of
     Some (HintError h c) \<Rightarrow> Some h | _ \<Rightarrow> None)"

definition WithPartialUsage :: "err \<Rightarrow> usage \<Rightarrow> err" where
  "WithPartialUsage e u = (if usage_IsZero u then e else PartialUsageError e u)"

definition PartialUsage :: "err \<Rightarrow> usage option" where
  "PartialUsage e = (case err_as (\<lambda>x. case x of PartialUsageError c u \<Rightarrow> True | _ \<Rightarrow> False) e of
     Some (PartialUsageError c u) \<Rightarrow> Some u | _ \<Rightarrow> None)"

text \<open>
  The headers of a response. \<open>http.Header.Get\<close> is \<open>get\<close> (empty where the header is missing);
  \<open>strconv.ParseFloat\<close> scaled to nanoseconds is \<open>scaled unit v\<close>, with the sign of the number
  and the duration, \<open>until\<close> reads an HTTP date.
\<close>

definition ParseRetryHint ::
  "(string \<Rightarrow> string) \<Rightarrow> (int \<Rightarrow> string \<Rightarrow> (bool \<times> int) option) \<Rightarrow> (string \<Rightarrow> int option) \<Rightarrow> retry_hint option" where
  "ParseRetryHint get scaled until =
     (let v1 = trim_space (get ''retry-after-ms''); v2 = trim_space (get ''retry-after'');
          v3 = to_lower (trim_space (get ''x-should-retry''));
          ms = (if v1 = [] then None
                else case scaled 1000000 v1 of Some (True, d) \<Rightarrow> Some d | _ \<Rightarrow> None);
          secs = (if v2 = [] then None
                  else case scaled 1000000000 v2 of
                      Some (p, d) \<Rightarrow> if p then Some d else None
                    | None \<Rightarrow> (case until v2 of Some d \<Rightarrow> if 0 < d then Some d else None | None \<Rightarrow> None));
          after = (case ms of Some d \<Rightarrow> Some d | None \<Rightarrow> secs);
          h = \<lparr>rh_After = (case after of Some d \<Rightarrow> d | None \<Rightarrow> 0), rh_HasAfter = (after \<noteq> None),
               rh_ShouldRetry = (if v3 \<in> {''true'', ''1'', ''yes''} then Some True
                                 else if v3 \<in> {''false'', ''0'', ''no''} then Some False else None)\<rparr>
      in if hint_IsZero h then None else Some h)"


section \<open>Wrappers and the status codes\<close>

lemma chain_unwrap:
  "unwrap e = Some c \<Longrightarrow> chain e = e # chain c"
  "unwrap e = None \<Longrightarrow> chain e = [e]"
  by (simp_all add: chain.simps [of e])

lemma err_as_unwrap:
  "unwrap e = Some c \<Longrightarrow> err_as p e = (if p e then Some e else err_as p c)"
  "unwrap e = None \<Longrightarrow> err_as p e = (if p e then Some e else None)"
  by (simp_all add: err_as_def chain_unwrap)

lemma err_is_unwrap:
  "unwrap e = Some c \<Longrightarrow> err_is e t \<longleftrightarrow> t = e \<or> err_is c t"
  "unwrap e = None \<Longrightarrow> err_is e t \<longleftrightarrow> t = e"
  by (simp_all add: err_is_def chain_unwrap)

definition transparent :: "(err \<Rightarrow> err) \<Rightarrow> bool" where
  "transparent w \<longleftrightarrow> (\<forall>e. ClassifyError (w e) = ClassifyError e \<and> IsPermanent (w e) = IsPermanent e \<and>
     err_text (w e) = err_text e \<and> is_rate_limit (w e) = is_rate_limit e \<and> (\<forall>t \<in> {Canceled, DeadlineExceeded}. err_is (w e) t = err_is e t))"

lemma transparent_usage: "transparent (\<lambda>e. WithPartialUsage e u)"
  by (simp add: transparent_def WithPartialUsage_def ClassifyError_def IsPermanent_def isOutputTruncated_def
      isUpstreamUnavailable_def is_rate_limit_def err_as_unwrap(1) [of "PartialUsageError e u" e for e]
      err_is_unwrap(1) [of "PartialUsageError e u" e for e])

lemma transparent_hint: "transparent (\<lambda>e. WithRetryHint e h)"
  by (simp add: transparent_def WithRetryHint_def ClassifyError_def IsPermanent_def isOutputTruncated_def
      isUpstreamUnavailable_def is_rate_limit_def err_as_unwrap(1) [of "HintError h e" e for e]
      err_is_unwrap(1) [of "HintError h e" e for e])

definition retryable :: "err \<Rightarrow> bool" where
  "retryable e \<longleftrightarrow> \<not> err_is e Canceled \<and> \<not> IsPermanent e"

lemma permanent_Permanent [simp]: "IsPermanent (PermanentError e)"
  by (simp add: IsPermanent_def err_as_unwrap(1) [of "PermanentError e" e])

lemma permanent_Exceeded [simp]: "IsPermanent (ContextExceededError m w r c)"
  by (cases c) (simp_all add: IsPermanent_def err_as_unwrap)

lemma permanent_Detect: "IsPermanent e \<Longrightarrow> IsPermanent (DetectContextExceeded e)"
  by (simp add: DetectContextExceeded_def split: prod.split)

lemma permanent_Mark [simp]: "IsPermanent (MarkPermanent e)"
  by (simp add: MarkPermanent_def)

lemma canceled_kinds [simp]:
  "err_is (RateLimitError n (Some e)) Canceled = err_is e Canceled"
  "err_is (UpstreamUnavailableError n (Some e)) Canceled = err_is e Canceled"
  "IsPermanent (RateLimitError n (Some e)) = IsPermanent e"
  "IsPermanent (UpstreamUnavailableError n (Some e)) = IsPermanent e"
  by (simp_all add: err_is_unwrap(1) [where c = e] IsPermanent_def err_as_unwrap(1) [where c = e])

text \<open>A response's status code decides whether the call may be repeated: exactly 408, 409,
  425, 429 and the 5xx codes leave an error that is not permanent already open to a retry, and
  hints and partial usage attached to it on the way change neither that nor its kind.\<close>

theorem status_decides_retry:
  assumes "retryable e"
  shows "(retryable (WithRetryHint (WithPartialUsage (ClassifyHTTPError status e) u) h) \<longleftrightarrow>
       status \<in> {408, 409, 425, 429} \<or> 500 \<le> status) \<and>
     ClassifyError (WithRetryHint (WithPartialUsage (ClassifyHTTPError status e) u) h) =
       ClassifyError (ClassifyHTTPError status e)"
proof -
  have "retryable (ClassifyHTTPError status e) \<longleftrightarrow> status \<in> {408, 409, 425, 429} \<or> 500 \<le> status"
    using assms permanent_Detect [OF permanent_Mark, of e] by (auto simp: ClassifyHTTPError_def retryable_def)
  then show ?thesis using transparent_usage [of u] transparent_hint [of h]
    by (simp add: transparent_def retryable_def)
qed

theorem status_decides_retry_witness:
  "retryable (ClassifyHTTPError 503 (Plain ''busy'')) \<and> \<not> retryable (ClassifyHTTPError 404 (Plain ''busy''))"
proof -
  have "retryable (Plain ''busy'')" by (simp add: retryable_def err_is_unwrap IsPermanent_def err_as_unwrap)
  note s = status_decides_retry [OF this, THEN conjunct1, of _ zero_usage no_hint]
  have "usage_IsZero zero_usage" "hint_IsZero no_hint"
    by (simp_all add: usage_IsZero_def zero_usage_def zero_cost_def hint_IsZero_def no_hint_def)
  then show ?thesis using s [of 503] s [of 404] by (simp add: WithRetryHint_def WithPartialUsage_def)
qed

end
