(* ===== verification/RunState.thy ===== *)
theory RunState
  imports Errors Ledgers Slim Todo
begin

text \<open>
  The state of one run of the agent loop (\<open>AgentContext\<close>, \<open>Config\<close> and \<open>RunOptions\<close> of
  \<open>agents/agent_loop.go\<close>, \<open>Mode\<close> of \<open>agents/mode.go\<close>) and its small helpers: usage, the token
  estimate, the goal-alignment counter and the list of unfinished todos.
\<close>

section \<open>Tools, modes and the token estimate\<close>

text \<open>What the loop asks a registered tool: its name, whether calls of it may run in parallel and
  the optional interfaces \<open>ReadOnlyTool\<close> and \<open>PlanSafeTool\<close>.\<close>

record tool =
  t_name :: string
  t_parallel :: bool
  t_read_only :: bool
  t_plan_safe :: bool

record tool_mode =
  md_Name :: string
  md_AllowTool :: "(tool \<Rightarrow> bool) option"
  md_SystemHint :: string

definition allowed :: "tool_mode option \<Rightarrow> tool \<Rightarrow> bool" where
  "allowed m t \<longleftrightarrow> (case m of None \<Rightarrow> True
     | Some md \<Rightarrow> (case md_AllowTool md of None \<Rightarrow> True | Some f \<Rightarrow> f t))"

text \<open>
  \<open>estimator\<close> without the ratio that nothing reads. \<open>int64(float64(n) / 4)\<close> is exact below 2^53
  characters.
\<close>

record estimator =
  es_lastInput :: int
  es_requestCount :: int

definition estimatedImageTokens :: int where "estimatedImageTokens = 1600"

definition messageChars :: "message \<Rightarrow> int" where
  "messageChars m =
     sum_list (map (\<lambda>c. if ctype c = ContentTypeImage then estimatedImageTokens * 4 else int (length (ctext c))) (m_content m)) +
     int (length (m_reasoning m)) +
     sum_list (map (\<lambda>tc. int (length (tc_name tc) + length (tc_args tc))) (m_calls m))"

definition messagesChars :: "message list \<Rightarrow> int" where
  "messagesChars ms = sum_list (map messageChars ms)"

definition estimateMessagesTokens :: "message list \<Rightarrow> int" where
  "estimateMessagesTokens ms = messagesChars ms div 4"

definition beginRequest :: "int \<Rightarrow> estimator \<Rightarrow> estimator" where
  "beginRequest n e = e\<lparr>es_requestCount := n\<rparr>"

definition observe :: "int \<Rightarrow> estimator \<Rightarrow> estimator" where
  "observe n e = e\<lparr>es_lastInput := n\<rparr>"

definition estimate :: "message list \<Rightarrow> estimator \<Rightarrow> int" where
  "estimate ms e = (if 0 < es_lastInput e then es_lastInput e else messagesChars ms div 4)"

section \<open>Configuration and state\<close>

text \<open>
  \<open>lc_Slim\<close> holds the normalised options; \<open>lc_MergePairs\<close> is the option \<open>MergePairs\<close> set to true
  in the configuration itself, which the loop asks for.
\<close>

record loop_config =
  lc_MaxIterations :: int
  lc_MaxRetries :: int
  lc_Backoff :: "(int \<Rightarrow> err \<Rightarrow> int) option"
  lc_Slim :: "slim_config option"
  lc_MergePairs :: bool
  lc_MergeProtectRounds :: int
  lc_GoalRounds :: int
  lc_PostToolNudge :: bool
  lc_PendingTasksNudge :: bool
  lc_TodoResetOnCompact :: bool
  lc_HandoffAsUser :: bool
  lc_CompactBackoff :: int
  lc_MaxTokens :: int
  lc_Model :: string

record agent_context =
  ac_Messages :: "message list"
  ac_RunHistory :: "message list"
  ac_Iteration :: int
  ac_inputMark :: int
  ac_Todo :: todo_store
  ac_Mode :: "tool_mode option"
  ac_aborted :: bool
  ac_canceled :: bool
  ac_stopped :: bool
  ac_Usage :: usage
  ac_failures :: failure_ledger
  ac_toolRound :: int
  ac_postToolNudgePending :: bool
  ac_postToolNudgeUsed :: bool
  ac_todoGateUsed :: bool
  ac_pendingTasksNudged :: bool
  ac_stopHookBlocks :: int
  ac_overflowRetryUsed :: bool
  ac_compactBackoffUntil :: "int option"
  ac_afterTools :: bool
  ac_goalRounds :: int
  ac_goalInjected :: bool
  ac_sawText :: bool
  ac_est :: estimator
  ac_forceCompact :: bool
  ac_forceClear :: bool
  ac_slim :: "slim_state option"
  ac_fileLedger :: file_ledger
  ac_Err :: "err option"

text \<open>The context at the start of a run, as \<open>RunStream\<close> builds it.\<close>

definition new_context :: "loop_config \<Rightarrow> tool_mode option \<Rightarrow> todo_store option \<Rightarrow> agent_context" where
  "new_context cfg md td =
     \<lparr>ac_Messages = [], ac_RunHistory = [], ac_Iteration = 0, ac_inputMark = 0,
      ac_Todo = (case td of None \<Rightarrow> todo_New | Some s \<Rightarrow> s), ac_Mode = md,
      ac_aborted = False, ac_canceled = False, ac_stopped = False, ac_Usage = zero_usage,
      ac_failures = newFailureLedger, ac_toolRound = 0, ac_postToolNudgePending = False,
      ac_postToolNudgeUsed = False, ac_todoGateUsed = False, ac_pendingTasksNudged = False,
      ac_stopHookBlocks = 0, ac_overflowRetryUsed = False, ac_compactBackoffUntil = None,
      ac_afterTools = False, ac_goalRounds = 0, ac_goalInjected = False, ac_sawText = False,
      ac_est = \<lparr>es_lastInput = 0, es_requestCount = 0\<rparr>, ac_forceCompact = False, ac_forceClear = False,
      ac_slim = map_option newSlimState (lc_Slim cfg), ac_fileLedger = newFileLedger, ac_Err = None\<rparr>"

definition Abort :: "agent_context \<Rightarrow> agent_context" where
  "Abort ac = ac\<lparr>ac_aborted := True, ac_canceled := True\<rparr>"

definition Cancel :: "agent_context \<Rightarrow> agent_context" where
  "Cancel ac = ac\<lparr>ac_canceled := True\<rparr>"

definition Stop :: "agent_context \<Rightarrow> agent_context" where
  "Stop ac = ac\<lparr>ac_stopped := True\<rparr>"

definition addUsage :: "usage \<Rightarrow> agent_context \<Rightarrow> agent_context" where
  "addUsage u ac = ac\<lparr>ac_Usage := usage_Add (ac_Usage ac) u\<rparr>"

text \<open>\<open>firstUserInput\<close>: the first text block of the last user message that has content.\<close>

definition firstUserInput :: "message list \<Rightarrow> string" where
  "firstUserInput ms =
     (case find (\<lambda>m. m_role m = User \<and> m_content m \<noteq> []) (rev ms) of
        None \<Rightarrow> []
      | Some m \<Rightarrow> (case find (\<lambda>c. ctype c = ContentTypeText) (m_content m) of
            Some c \<Rightarrow> ctext c | None \<Rightarrow> ctext (hd (m_content m))))"

section \<open>Goal alignment\<close>

definition recordGoalAlignmentLLMRound :: "int \<Rightarrow> agent_context \<Rightarrow> agent_context" where
  "recordGoalAlignmentLLMRound threshold ac =
     (if threshold \<le> 0 \<or> ac_goalInjected ac \<or> threshold \<le> ac_goalRounds ac then ac
      else ac\<lparr>ac_goalRounds := ac_goalRounds ac + 1\<rparr>)"

definition terminalTaskStatusMarkers :: "string list" where
  "terminalTaskStatusMarkers = [''completed'', ''failed'', ''interrupted'', ''abandoned'']"

definition hasTerminalTaskStatus :: "string \<Rightarrow> bool" where
  "hasTerminalTaskStatus result \<longleftrightarrow>
     list_ex (\<lambda>st. contains result (CHR 0x22 # ''status'' @ [CHR 0x22] @ '':'' @ [CHR 0x22] @ st @ [CHR 0x22])) terminalTaskStatusMarkers"

definition verifyCommandMarkers :: "string list" where
  "verifyCommandMarkers =
     [''go build'', ''go test'', ''go vet'', ''npm test'', ''npm run build'', ''pytest'', ''cargo build'',
      ''cargo test'', ''make '', ''tsc'', ''ruff'', ''eslint'']"

text \<open>The field \<open>command\<close> of the arguments is the parameter \<open>command_of\<close> (empty when they do not parse).\<close>

definition isVerifyCommand :: "(string \<Rightarrow> string) \<Rightarrow> string \<Rightarrow> bool" where
  "isVerifyCommand command_of args =
     (let cmd = to_lower (command_of args) in cmd \<noteq> [] \<and> list_ex (contains cmd) verifyCommandMarkers)"

definition progressToolResult :: "(string \<Rightarrow> string) \<Rightarrow> tool_call \<Rightarrow> tool_result \<Rightarrow> bool" where
  "progressToolResult command_of tc r =
     (if tc_name tc \<in> {''write_file'', ''edit_file'', ''todo_add'', ''todo_update'', ''agent_spawn'', ''agent_resume''} then True
      else if tc_name tc = ''TaskOutput'' then hasTerminalTaskStatus (r_result r)
      else if tc_name tc = ''bash'' then isVerifyCommand command_of (tc_args tc)
      else False)"

definition made_progress :: "(string \<Rightarrow> string) \<Rightarrow> tool_call list \<Rightarrow> tool_result list \<Rightarrow> bool" where
  "made_progress command_of calls rs \<longleftrightarrow>
     list_ex (\<lambda>tc. case result_of rs (tc_id tc) of None \<Rightarrow> False
        | Some r \<Rightarrow> \<not> r_is_error r \<and> progressToolResult command_of tc r) calls"

definition resetGoalAlignment ::
  "(string \<Rightarrow> string) \<Rightarrow> tool_call list \<Rightarrow> tool_result list \<Rightarrow> agent_context \<Rightarrow> agent_context" where
  "resetGoalAlignment command_of calls rs ac =
     (if made_progress command_of calls rs then ac\<lparr>ac_goalRounds := 0, ac_goalInjected := False\<rparr> else ac)"

section \<open>Unfinished todos\<close>

definition maxUnfinishedTodosInReminder :: nat where "maxUnfinishedTodosInReminder = 10"

definition hasUnfinishedTodos :: "todo_store \<Rightarrow> bool" where
  "hasUnfinishedTodos s \<longleftrightarrow> list_ex (\<lambda>it. \<not> it_done it) (todo_Items s)"

definition renderUnfinishedTodos :: "todo_store \<Rightarrow> string" where
  "renderUnfinishedTodos s =
     (let its = filter (\<lambda>it. \<not> it_done it) (todo_Items s) in
      join [CHR 0x0A] (map (\<lambda>it. ''- '' @ it_id it @ '': '' @ it_title it) (take maxUnfinishedTodosInReminder its)) @
      (if maxUnfinishedTodosInReminder < length its then CHR 0x0A # ''- (more unfinished items omitted)'' else []))"

section \<open>Promotion of a running tool\<close>

definition effectivePromoteAfter :: "int \<Rightarrow> int \<Rightarrow> int" where
  "effectivePromoteAfter run loop =
     (if run < 0 then 0 else if 0 < run then run else if loop < 0 then 0 else loop)"

definition promoteAfterFor :: "int \<Rightarrow> int \<Rightarrow> bool \<Rightarrow> int" where
  "promoteAfterFor run loop hasSink = (if \<not> hasSink then 0 else effectivePromoteAfter run loop)"

end
