(* ===== verification/RunTools.thy ===== *)
theory RunTools
  imports RunState "HOL-Library.Multiset"
begin

text \<open>
  One round of tool calls (\<open>runTools\<close> of \<open>agents/agent_loop.go\<close>): the repeated-failure guard, the
  mode filter, the hook before the tool, execution in a serial and a parallel batch, the ledgers
  and the hooks after it. The tool registry (\<open>GetTool\<close>), the execution of a batch (\<open>RunBatch\<close>),
  \<open>json.Valid\<close> and the hooks are parameters; the world \<open>'w\<close> is what they act on. The warnings
  that a panicking hook leaves are events and not part of the result.
\<close>

section \<open>The environment of a round\<close>

datatype tool_decision = ToolAllow | ToolBlock

record pre_result =
  pr_Decision :: tool_decision
  pr_Updated :: string
  pr_Reason :: string

record post_result =
  po_Additional :: string
  po_Replace :: string

record tool_run_result =
  tr_Name :: string
  tr_CallID :: string
  tr_IsError :: bool
  tr_Result :: string

text \<open>A hook that panics yields \<open>None\<close>.\<close>

record 'w tool_env =
  te_GetTool :: "string \<Rightarrow> tool option"
  te_RunBatch :: "tool_call list \<Rightarrow> 'w \<Rightarrow> (err + tool_result list) \<times> 'w"
  te_jsonValid :: "string \<Rightarrow> bool"
  te_sha :: "string \<Rightarrow> string"
  te_PreToolUse :: "(tool_call \<Rightarrow> pre_result option) option"
  te_PostToolBatch :: "(tool_run_result list \<Rightarrow> bool option) option"
  te_PostToolUse :: "(tool_call \<Rightarrow> tool_result \<Rightarrow> post_result option) option"

text \<open>The three recovering wrappers: a panic allows, does not stop, injects nothing.\<close>

definition callPreToolUse :: "(tool_call \<Rightarrow> pre_result option) \<Rightarrow> tool_call \<Rightarrow> pre_result" where
  "callPreToolUse h c = (case h c of Some r \<Rightarrow> r
     | None \<Rightarrow> \<lparr>pr_Decision = ToolAllow, pr_Updated = [], pr_Reason = []\<rparr>)"

definition callPostToolBatch :: "(tool_run_result list \<Rightarrow> bool option) \<Rightarrow> tool_run_result list \<Rightarrow> bool" where
  "callPostToolBatch h rs = (case h rs of Some b \<Rightarrow> b | None \<Rightarrow> False)"

definition callPostToolUse ::
  "(tool_call \<Rightarrow> tool_result \<Rightarrow> post_result option) \<Rightarrow> tool_call \<Rightarrow> tool_result \<Rightarrow> post_result option" where
  "callPostToolUse h c r = h c r"

section \<open>Sorting the calls\<close>

datatype verdict =
    Guarded tool_result
  | Refused tool_result
  | Serial tool_call
  | Parallel tool_call

definition refuse :: "tool_call \<Rightarrow> string \<Rightarrow> tool_result" where
  "refuse c reason = plain_result (tc_id c) reason True"

definition before_hook :: "'w tool_env \<Rightarrow> tool_call \<Rightarrow> string + tool_call" where
  "before_hook env c =
     (case te_PreToolUse env of None \<Rightarrow> Inr c
      | Some h \<Rightarrow>
          let r = callPreToolUse h c in
          case pr_Decision r of
            ToolBlock \<Rightarrow> Inl (if pr_Reason r = [] then ''blocked by PreToolUse hook'' else pr_Reason r)
          | ToolAllow \<Rightarrow>
              if pr_Updated r \<noteq> [] \<and> pr_Updated r \<noteq> tc_args c \<and> te_jsonValid env (pr_Updated r)
              then Inr (c\<lparr>tc_args := pr_Updated r\<rparr>) else Inr c)"

definition sort_call :: "'w tool_env \<Rightarrow> agent_context \<Rightarrow> tool_call \<Rightarrow> verdict" where
  "sort_call env ac c =
     (case blockedIn (toolCallKey (te_sha env) (tc_name c) (tc_args c)) (ac_toolRound ac) (ac_failures ac) of
        Some f \<Rightarrow> Guarded (blockedResult (tc_id c) f)
      | None \<Rightarrow>
          (case te_GetTool env (tc_name c) of
             None \<Rightarrow> Serial c
           | Some t \<Rightarrow>
               if \<not> allowed (ac_Mode ac) t
               then Refused (refuse c ''blocked: tool is not available in the current mode'')
               else case before_hook env c of
                   Inl reason \<Rightarrow> Refused (refuse c reason)
                 | Inr c' \<Rightarrow> if t_parallel t then Parallel c' else Serial c'))"

fun guarded_of :: "verdict \<Rightarrow> tool_result list" where
  "guarded_of (Guarded r) = [r]"
| "guarded_of _ = []"

fun refused_of :: "verdict \<Rightarrow> tool_result list" where
  "refused_of (Refused r) = [r]"
| "refused_of _ = []"

fun serial_of :: "verdict \<Rightarrow> tool_call list" where
  "serial_of (Serial c) = [c]"
| "serial_of _ = []"

fun parallel_of :: "verdict \<Rightarrow> tool_call list" where
  "parallel_of (Parallel c) = [c]"
| "parallel_of _ = []"

section \<open>After the execution\<close>

definition name_by_id :: "tool_call list \<Rightarrow> string \<Rightarrow> string" where
  "name_by_id calls i = (case map_of (rev (map (\<lambda>c. (tc_id c, tc_name c)) calls)) i of None \<Rightarrow> [] | Some n \<Rightarrow> n)"

definition run_result :: "tool_call list \<Rightarrow> tool_result \<Rightarrow> tool_run_result" where
  "run_result calls r =
     \<lparr>tr_Name = name_by_id calls (r_id r), tr_CallID = r_id r, tr_IsError = r_is_error r, tr_Result = r_result r\<rparr>"

definition after_tool ::
  "(tool_call \<Rightarrow> tool_result \<Rightarrow> post_result option) \<Rightarrow> tool_call list \<Rightarrow> string set \<Rightarrow> tool_result \<Rightarrow> tool_result" where
  "after_tool h calls blocked r =
     (if r_id r \<in> blocked then r
      else case map_of (rev (map (\<lambda>c. (tc_id c, c)) calls)) (r_id r) of
          None \<Rightarrow> r
        | Some c \<Rightarrow>
            (case callPostToolUse h c r of
               None \<Rightarrow> r
             | Some p \<Rightarrow>
                 let t1 = (if po_Replace p \<noteq> [] \<and> \<not> r_is_error r then po_Replace p else r_result r);
                     t2 = (if po_Additional p = [] then t1
                           else (if t1 \<noteq> [] then t1 @ [CHR 0x0A, CHR 0x0A] else t1) @ po_Additional p)
                 in r\<lparr>r_result := t2\<rparr>))"

text \<open>
  \<open>blockedResults\<close> holds the answers of the guard until a refusal by the mode or a hook
  \<^emph>\<open>replaces\<close> it by the refusals.
\<close>

definition kept_blocked :: "verdict list \<Rightarrow> tool_result list" where
  "kept_blocked vs = (let refused = concat (map refused_of vs) in
     if refused \<noteq> [] then refused else concat (map guarded_of vs))"

definition run_batches ::
  "'w tool_env \<Rightarrow> tool_call list \<Rightarrow> tool_call list \<Rightarrow> 'w \<Rightarrow> (err + tool_result list) \<times> 'w" where
  "run_batches env ss ps w =
     (case (if ss = [] then (Inr [], w) else te_RunBatch env ss w) of
        (Inl e, w1) \<Rightarrow> (Inl e, w1)
      | (Inr r1, w1) \<Rightarrow>
          (case (if ps = [] then (Inr [], w1) else te_RunBatch env ps w1) of
             (Inl e, w2) \<Rightarrow> (Inl e, w2)
           | (Inr r2, w2) \<Rightarrow> (Inr (r1 @ r2), w2)))"

definition finish_round ::
  "'w tool_env \<Rightarrow> tool_call list \<Rightarrow> tool_result list \<Rightarrow> tool_result list \<Rightarrow> agent_context \<Rightarrow> tool_result list \<times> agent_context" where
  "finish_round env calls blocked rs ac =
     (let ac1 = fold (\<lambda>r. addUsage (r_usage r)) rs ac;
          ac2 = ac1\<lparr>ac_failures := recordToolOutcomes (te_sha env) (ac_toolRound ac1) calls rs (ac_failures ac1)\<rparr>;
          all = blocked @ rs;
          ac3 = (case te_PostToolBatch env of None \<Rightarrow> ac2
             | Some h \<Rightarrow> if callPostToolBatch h (map (run_result calls) all) then Stop ac2 else ac2);
          out = (case te_PostToolUse env of None \<Rightarrow> all
             | Some h \<Rightarrow> map (after_tool h calls (set (map r_id blocked))) all)
      in (out, ac3))"

text \<open>
  The whole round. \<open>Inr None\<close> is the nil result on which the loop ends, also the value of an
  empty list of results; a nil engine (\<open>engine = False\<close>) returns it before the round is counted.
\<close>

definition runTools ::
  "bool \<Rightarrow> 'w tool_env \<Rightarrow> tool_call list \<Rightarrow> agent_context \<times> 'w \<Rightarrow> (err + tool_result list option) \<times> agent_context \<times> 'w" where
  "runTools engine env calls s =
     (case s of (ac0, w) \<Rightarrow>
        if \<not> engine then (Inr None, ac0, w)
        else
          let ac = ac0\<lparr>ac_toolRound := ac_toolRound ac0 + 1\<rparr>;
              vs = map (sort_call env ac) calls;
              ss = concat (map serial_of vs); ps = concat (map parallel_of vs);
              blocked = kept_blocked vs
          in if ss @ ps = []
             then (Inr (if blocked \<noteq> [] then Some blocked else None), ac, w)
             else case run_batches env ss ps w of
                 (Inl e, w1) \<Rightarrow> (Inl e, ac, w1)
               | (Inr rs, w1) \<Rightarrow>
                   (case finish_round env calls blocked rs ac of
                      (out, ac1) \<Rightarrow> (Inr (if out = [] then None else Some out), ac1, w1)))"

section \<open>Every call is answered, unless a refusal hides the guard's answer\<close>

definition counted :: "agent_context \<Rightarrow> agent_context" where
  "counted ac = ac\<lparr>ac_toolRound := ac_toolRound ac + 1\<rparr>"

definition guards :: "'w tool_env \<Rightarrow> agent_context \<Rightarrow> tool_call \<Rightarrow> bool" where
  "guards env ac c \<longleftrightarrow> guarded_of (sort_call env (counted ac) c) \<noteq> []"

definition refuses :: "'w tool_env \<Rightarrow> agent_context \<Rightarrow> tool_call \<Rightarrow> bool" where
  "refuses env ac c \<longleftrightarrow> refused_of (sort_call env (counted ac) c) \<noteq> []"

definition one_answer_each :: "(tool_call list \<Rightarrow> 'w \<Rightarrow> (err + tool_result list) \<times> 'w) \<Rightarrow> bool" where
  "one_answer_each run \<longleftrightarrow> (\<forall>cs w rs w'. run cs w = (Inr rs, w') \<longrightarrow> map r_id rs = map tc_id cs)"

lemma before_hook_id: "before_hook env c = Inr c' \<Longrightarrow> tc_id c' = tc_id c \<and> tc_name c' = tc_name c"
  by (auto simp: before_hook_def Let_def split: option.splits tool_decision.splits if_splits)

lemma sort_call_ids:
  "map r_id (guarded_of (sort_call env ac c)) @ map r_id (refused_of (sort_call env ac c)) @
   map tc_id (serial_of (sort_call env ac c)) @ map tc_id (parallel_of (sort_call env ac c)) = [tc_id c]"
  by (auto simp: sort_call_def refuse_def plain_result_def blockedResult_def Let_def
      split: option.split sum.split dest: before_hook_id)

lemma ids_in_order:
  "mset (map r_id (concat (map guarded_of (map (sort_call env ac) calls)))) +
   mset (map r_id (concat (map refused_of (map (sort_call env ac) calls)))) +
   mset (map tc_id (concat (map serial_of (map (sort_call env ac) calls)) @ concat (map parallel_of (map (sort_call env ac) calls)))) =
   mset (map tc_id calls)"
proof (induction calls)
  case (Cons c calls)
  have "mset (map r_id (guarded_of (sort_call env ac c))) + mset (map r_id (refused_of (sort_call env ac c))) +
    (mset (map tc_id (serial_of (sort_call env ac c))) + mset (map tc_id (parallel_of (sort_call env ac c)))) = {#tc_id c#}"
    using arg_cong [OF sort_call_ids [of env ac c], of mset] by (simp add: union_assoc)
  with Cons show ?case by (simp add: algebra_simps)
qed simp

lemma guarded_ids:
  "map r_id (concat (map guarded_of (map (sort_call env (counted ac)) calls))) = map tc_id (filter (guards env ac) calls)"
proof (induction calls)
  case (Cons c calls)
  have "map r_id (guarded_of (sort_call env (counted ac) c)) = (if guards env ac c then [tc_id c] else [])"
    using sort_call_ids [of env "counted ac" c] by (cases "sort_call env (counted ac) c") (auto simp: guards_def)
  with Cons show ?case by simp
qed simp

lemma refused_any:
  "concat (map refused_of (map (sort_call env (counted ac)) calls)) \<noteq> [] \<longleftrightarrow> (\<exists>c \<in> set calls. refuses env ac c)"
  by (auto simp: refuses_def)

lemma run_batches_ids:
  "one_answer_each (te_RunBatch env) \<Longrightarrow> run_batches env ss ps w = (Inr rs, w') \<Longrightarrow> map r_id rs = map tc_id (ss @ ps)"
  unfolding run_batches_def one_answer_each_def
  by (auto split: if_splits prod.splits sum.splits) (metis map_append)+

lemma after_tool_id [simp]: "r_id (after_tool h calls B r) = r_id r"
  by (auto simp: after_tool_def Let_def split: option.split)

lemma runTools_results:
  assumes "one_answer_each (te_RunBatch env)" and "runTools True env calls (ac, w) = (Inr (Some rs), ac', w')"
  defines "vs \<equiv> map (sort_call env (counted ac)) calls"
  shows "mset (map r_id rs) = mset (map r_id (kept_blocked vs)) +
    mset (map tc_id (concat (map serial_of vs) @ concat (map parallel_of vs)))"
proof (cases "concat (map serial_of vs) @ concat (map parallel_of vs) = []")
  case True
  then show ?thesis using assms(2)
    by (auto simp: runTools_def Let_def vs_def counted_def split: if_splits)
next
  case False
  then obtain r2 w1 where rb: "run_batches env (concat (map serial_of vs)) (concat (map parallel_of vs)) w = (Inr r2, w1)"
    and ids: "map r_id rs = map r_id (kept_blocked vs @ r2)"
    using assms(2) unfolding runTools_def
    by (auto simp: finish_round_def Let_def vs_def counted_def comp_def split: prod.splits sum.splits if_splits option.splits)
  show ?thesis using run_batches_ids [OF assms(1) rb] ids by simp
qed

text \<open>Where the engine answers each call of a batch once, a round answers every call of the
  model exactly once, with one exception: as soon as the mode or a hook refuses some call, the
  answers to the calls that the repeated-failure guard blocked are overwritten and lost.\<close>

theorem round_answers_calls:
  assumes "one_answer_each (te_RunBatch env)" and "runTools True env calls (ac, w) = (Inr (Some rs), ac', w')"
  shows "mset (map r_id rs) =
    mset (map tc_id (filter (\<lambda>c. \<not> (guards env ac c \<and> (\<exists>c' \<in> set calls. refuses env ac c'))) calls))"
proof -
  define vs where "vs = map (sort_call env (counted ac)) calls"
  have split: "mset (map tc_id calls) =
      mset (map tc_id (filter (guards env ac) calls)) + mset (map tc_id (filter (\<lambda>c. \<not> guards env ac c) calls))"
    by (metis filter_map multiset_partition mset_filter mset_map image_mset_union)
  note all = ids_in_order [of env "counted ac" calls, folded vs_def, unfolded split]
  note g = guarded_ids [of env ac calls, folded vs_def]
  note r = runTools_results [OF assms, folded vs_def]
  show ?thesis
  proof (cases "\<exists>c' \<in> set calls. refuses env ac c'")
    case True
    then have "kept_blocked vs = concat (map refused_of vs)"
      using refused_any [of env ac calls, folded vs_def] by (simp add: kept_blocked_def Let_def)
    with r all g True show ?thesis by simp
  next
    case False
    then have none: "concat (map refused_of vs) = []"
      using refused_any [of env ac calls, folded vs_def] by blast
    then have "kept_blocked vs = concat (map guarded_of vs)" by (simp add: kept_blocked_def Let_def)
    with r all none False split show ?thesis by simp
  qed
qed

section \<open>What the engine is asked to run\<close>

text \<open>
  A call may reach the engine if some call of the model with its id and name is not blocked by
  the guard, is unknown or allowed in the mode, and is not refused by the hook; its arguments
  are the model's or what the hook made of them.
\<close>

definition permitted :: "'w tool_env \<Rightarrow> agent_context \<Rightarrow> tool_call list \<Rightarrow> tool_call \<Rightarrow> bool" where
  "permitted env ac calls c \<longleftrightarrow>
     (\<exists>c0 \<in> set calls.
        blockedIn (toolCallKey (te_sha env) (tc_name c0) (tc_args c0)) (ac_toolRound ac + 1) (ac_failures ac) = None \<and>
        (case te_GetTool env (tc_name c0) of None \<Rightarrow> c = c0
         | Some t \<Rightarrow> allowed (ac_Mode ac) t \<and> before_hook env c0 = Inr c))"

lemma sorted_permitted:
  assumes "c \<in> set (concat (map serial_of (map (sort_call env (counted ac)) calls)) @
      concat (map parallel_of (map (sort_call env (counted ac)) calls)))"
  shows "permitted env ac calls c"
proof -
  from assms obtain c0 where c0: "c0 \<in> set calls" "c \<in> set (serial_of (sort_call env (counted ac) c0)) \<union> set (parallel_of (sort_call env (counted ac) c0))"
    by auto
  then show ?thesis unfolding permitted_def
    by (intro bexI [OF _ c0(1)]) (auto simp: sort_call_def counted_def split: option.splits sum.splits if_splits)
qed

text \<open>The engine is only asked to run permitted calls: the round behaves the same with any
  other engine that agrees on batches of permitted calls. A hook cannot bring back a call that
  the mode forbids.\<close>

theorem only_permitted_calls_run:
  assumes "\<forall>cs w. (\<forall>c \<in> set cs. permitted env ac calls c) \<longrightarrow> run cs w = te_RunBatch env cs w"
  shows "runTools True (env\<lparr>te_RunBatch := run\<rparr>) calls (ac, w) = runTools True env calls (ac, w)"
proof -
  have bh: "before_hook (env\<lparr>te_RunBatch := run\<rparr>) = before_hook env"
    by (intro ext) (simp add: before_hook_def Let_def split: option.split tool_decision.split)
  have sc: "sort_call (env\<lparr>te_RunBatch := run\<rparr>) = sort_call env"
    by (intro ext) (simp add: sort_call_def bh split: option.split)
  have fr: "finish_round (env\<lparr>te_RunBatch := run\<rparr>) = finish_round env"
    by (intro ext) (simp add: finish_round_def Let_def)
  define vs where "vs = map (sort_call env (counted ac)) calls"
  have p: "run cs w = te_RunBatch env cs w"
    if "set cs \<subseteq> set (concat (map serial_of vs) @ concat (map parallel_of vs))" for cs w
    using that assms sorted_permitted [of _ env ac calls, folded vs_def] by blast
  define ss ps where "ss = concat (map serial_of vs)" and "ps = concat (map parallel_of vs)"
  have "run ss v = te_RunBatch env ss v" "run ps v = te_RunBatch env ps v" for v
    by (rule p, simp add: ss_def ps_def)+
  then have "run_batches (env\<lparr>te_RunBatch := run\<rparr>) ss ps w = run_batches env ss ps w"
    by (simp add: run_batches_def split: sum.split prod.split)
  then show ?thesis
    unfolding runTools_def sc fr by (simp add: vs_def ss_def ps_def counted_def Let_def)
qed

definition echo_env :: "unit tool_env" where
  "echo_env =
     \<lparr>te_GetTool = (\<lambda>n. Some \<lparr>t_name = n, t_parallel = (n = ''read_file''), t_read_only = (n = ''read_file''), t_plan_safe = False\<rparr>),
      te_RunBatch = (\<lambda>cs w. (Inr (map (\<lambda>c. plain_result (tc_id c) (tc_args c) False) cs), w)),
      te_jsonValid = (\<lambda>s. True), te_sha = id, te_PreToolUse = None, te_PostToolBatch = None, te_PostToolUse = None\<rparr>"

definition plan_mode :: tool_mode where
  "plan_mode = \<lparr>md_Name = ''plan'', md_AllowTool = Some t_read_only, md_SystemHint = []\<rparr>"

definition failing_read :: tool_failure where
  "failing_read = \<lparr>tf_tool = ''read_file'', tf_detail = ''no such file'', tf_code = [], tf_round = 1, tf_envelope = None\<rparr>"

text \<open>A run in plan mode whose last round failed to read the file \<open>a\<close>.\<close>

definition plan_context :: agent_context where
  "plan_context = (new_context \<lparr>lc_MaxIterations = 0, lc_MaxRetries = 1, lc_Backoff = None, lc_Slim = None, lc_MergePairs = False, lc_MergeProtectRounds = 0,
      lc_GoalRounds = 0, lc_PostToolNudge = False, lc_PendingTasksNudge = False, lc_TodoResetOnCompact = False,
      lc_HandoffAsUser = False, lc_CompactBackoff = 0, lc_MaxTokens = 0, lc_Model = []\<rparr> (Some plan_mode) None)
     \<lparr>ac_toolRound := 1,
      ac_failures := failure_record (toolCallKey id ''read_file'' ''a'') failing_read newFailureLedger\<rparr>"

definition three_calls :: "tool_call list" where
  "three_calls = [demo_call ''c1'' ''read_file'' ''a'', demo_call ''c2'' ''write_file'' ''b'', demo_call ''c3'' ''read_file'' ''c'']"

lemma echo_one_answer_each: "one_answer_each (te_RunBatch echo_env)"
  by (auto simp: one_answer_each_def echo_env_def plain_result_def)

text \<open>The loss happens: of the three calls in plan mode, a repeated failing read, a write and
  a new read, only the last two are answered; without the write all calls are.\<close>

theorem guard_answer_is_lost:
  "map_option (map r_id) (projr (fst (runTools True echo_env three_calls (plan_context, ())))) = Some [''c2'', ''c3''] \<and>
   map_option (map r_id) (projr (fst (runTools True echo_env [three_calls ! 0, three_calls ! 2] (plan_context, ())))) = Some [''c1'', ''c3'']"
  by code_simp

theorem round_answers_calls_witness:
  "\<exists>rs ac'. runTools True echo_env three_calls (plan_context, ()) = (Inr (Some rs), ac', ()) \<and>
     mset (map r_id rs) = mset [''c2'', ''c3'']"
proof -
  obtain rs ac' where r: "runTools True echo_env three_calls (plan_context, ()) = (Inr (Some rs), ac', ())"
  proof -
    have "case runTools True echo_env three_calls (plan_context, ()) of (Inr (Some rs), _) \<Rightarrow> True | _ \<Rightarrow> False"
      by code_simp
    then show thesis using that by (auto split: prod.splits sum.splits option.splits)
  qed
  have "filter (\<lambda>c. \<not> (guards echo_env plan_context c \<and> (\<exists>c' \<in> set three_calls. refuses echo_env plan_context c'))) three_calls = drop 1 three_calls"
    by code_simp
  with round_answers_calls [OF echo_one_answer_each r] r show ?thesis by (auto simp: three_calls_def demo_call_def)
qed

lemma only_c3_permitted: "permitted echo_env plan_context three_calls c \<Longrightarrow> tc_id c = ''c3''"
proof -
  have "blockedIn (toolCallKey id ''read_file'' ''a'') 2 (ac_failures plan_context) \<noteq> None" by code_simp
  then show "permitted echo_env plan_context three_calls c \<Longrightarrow> tc_id c = ''c3''"
    by (auto simp: permitted_def three_calls_def demo_call_def echo_env_def plan_context_def new_context_def
        plan_mode_def allowed_def before_hook_def)
qed

theorem only_permitted_calls_run_witness:
  "runTools True (echo_env\<lparr>te_RunBatch := \<lambda>cs w. if \<forall>c \<in> set cs. tc_id c = ''c3''
       then te_RunBatch echo_env cs w else (Inl Canceled, w)\<rparr>) three_calls (plan_context, ()) =
   runTools True echo_env three_calls (plan_context, ())"
  by (rule only_permitted_calls_run) (auto dest: only_c3_permitted)

end
