(* ===== verification/Retry.thy ===== *)
theory Retry
  imports RunState
begin

text \<open>
  Repeating a failed model call: the waiting time (\<open>agents/backoff.go\<close>) and the loop over the
  attempts (\<open>streamWithRetry\<close> of \<open>agents/agent_loop.go\<close>). One attempt, the wait and the random
  jitter are parameters: \<open>once\<close> is \<open>streamOnce\<close>, which yields the round of the \<open>LLMEnd\<close> event
  (\<open>None\<close> where the stream brought none) and the error, \<open>wait\<close> says whether the run was
  cancelled while waiting. Both act on the run's context and on a world \<open>'w\<close>.
\<close>

section \<open>Waiting times\<close>

definition second :: int where "second = 1000000000"

definition MaxRetryAfter :: int where "MaxRetryAfter = 65 * second"

fun backoff_steps :: "nat \<Rightarrow> int \<Rightarrow> int \<Rightarrow> int" where
  "backoff_steps 0 capd t = t"
| "backoff_steps (Suc k) capd t = (if capd div 2 \<le> t then capd else backoff_steps k capd (t * 2))"

definition DefaultBackoff :: "(int \<Rightarrow> int) \<Rightarrow> int \<Rightarrow> err \<Rightarrow> int" where
  "DefaultBackoff rnd attempt e =
     (let base = (if is_rate_limit e then second else 200000000);
          capd = (if is_rate_limit e then 60 * second else 5 * second);
          half = backoff_steps (nat (attempt - 1)) capd base div 2
      in half + rnd half)"

definition FixedBackoff :: "int \<Rightarrow> int \<Rightarrow> err \<Rightarrow> int" where
  "FixedBackoff d attempt e = d"

section \<open>The loop over the attempts\<close>

datatype finish_reason = FinishStop | FinishToolCall | FinishLength | FinishAbort | FinishError | FinishMaxIterations | FinishOther string

record round_result =
  rd_calls :: "tool_call list"
  rd_finish :: finish_reason
  rd_content :: string
  rd_reasoning :: string
  rd_signature :: string

definition empty_round :: round_result where
  "empty_round = \<lparr>rd_calls = [], rd_finish = FinishOther [], rd_content = [], rd_reasoning = [], rd_signature = []\<rparr>"

record llm_error =
  le_attempt :: int
  le_max :: int
  le_will :: bool
  le_delay :: int
  le_kind :: error_kind
  le_usage :: "usage option"

definition llmErrorKind :: "agent_context \<Rightarrow> err \<Rightarrow> error_kind" where
  "llmErrorKind ac e = (if err_is e Canceled \<and> ac_aborted ac then KindAborted else ClassifyError e)"

definition ctx_err :: "agent_context \<Rightarrow> err option" where
  "ctx_err ac = (if ac_canceled ac then Some Canceled else None)"

text \<open>A return of \<open>ac.ctx.Err()\<close>; where it is nil the caller sees success with an empty round.\<close>

definition ended_by_ctx :: "agent_context \<Rightarrow> err + round_result" where
  "ended_by_ctx ac = (case ctx_err ac of Some e \<Rightarrow> Inl e | None \<Rightarrow> Inr empty_round)"

definition hint_forbids :: "retry_hint option \<Rightarrow> bool" where
  "hint_forbids h = (case h of None \<Rightarrow> False
     | Some h \<Rightarrow> rh_ShouldRetry h = Some False \<or> rh_HasAfter h \<and> MaxRetryAfter < rh_After h)"

definition will_retry :: "int \<Rightarrow> int \<Rightarrow> err \<Rightarrow> bool" where
  "will_retry attempt maxAttempts e \<longleftrightarrow> attempt < maxAttempts \<and> retryable e \<and> \<not> hint_forbids (RetryHintOf e)"

definition retry_delay :: "(int \<Rightarrow> err \<Rightarrow> int) \<Rightarrow> int \<Rightarrow> err \<Rightarrow> int" where
  "retry_delay backoff attempt e =
     (let b = backoff attempt e in
      case RetryHintOf e of None \<Rightarrow> b
      | Some h \<Rightarrow> if rh_HasAfter h \<and> b < rh_After h then rh_After h else b)"

definition charge_partial :: "err \<Rightarrow> agent_context \<Rightarrow> agent_context" where
  "charge_partial e ac = (case PartialUsage e of None \<Rightarrow> ac | Some u \<Rightarrow> addUsage u ac)"

text \<open>The error of an attempt: a stream without \<open>LLMEnd\<close> has failed, an exceeded context is recognised.\<close>

definition attempt_error :: "round_result option \<Rightarrow> err option \<Rightarrow> err option" where
  "attempt_error r e =
     map_option DetectContextExceeded
       (if e = None \<and> r = None then Some (Plain ''provider stream ended without LLMEnd event'') else e)"

definition error_event :: "(int \<Rightarrow> err \<Rightarrow> int) \<Rightarrow> int \<Rightarrow> int \<Rightarrow> agent_context \<Rightarrow> err \<Rightarrow> llm_error" where
  "error_event backoff attempt maxAttempts ac e =
     \<lparr>le_attempt = attempt, le_max = maxAttempts, le_will = will_retry attempt maxAttempts e,
      le_delay = (if will_retry attempt maxAttempts e then retry_delay backoff attempt e else 0),
      le_kind = llmErrorKind ac e, le_usage = PartialUsage e\<rparr>"

function stream_attempts ::
  "(agent_context \<times> 'w \<Rightarrow> (round_result option \<times> err option) \<times> agent_context \<times> 'w) \<Rightarrow>
   (int \<Rightarrow> agent_context \<times> 'w \<Rightarrow> bool \<times> agent_context \<times> 'w) \<Rightarrow> (int \<Rightarrow> err \<Rightarrow> int) \<Rightarrow> int \<Rightarrow> int \<Rightarrow>
   agent_context \<times> 'w \<Rightarrow> (err + round_result) \<times> llm_error list \<times> agent_context \<times> 'w" where
  "stream_attempts once wait backoff maxAttempts attempt s =
     (if ac_aborted (fst s) then (ended_by_ctx (fst s), [], s)
      else case once s of ((r, e0), s1) \<Rightarrow>
        case attempt_error r e0 of
          None \<Rightarrow> (Inr (the r), [], s1)
        | Some e \<Rightarrow>
            let s2 = (charge_partial e (fst s1), snd s1);
                ev = error_event backoff attempt maxAttempts (fst s2) e
            in if \<not> le_will ev then (Inl e, [ev], s2)
               else case wait (le_delay ev) s2 of (gone, s3) \<Rightarrow>
                 if gone then (ended_by_ctx (fst s3), [ev], s3)
                 else case stream_attempts once wait backoff maxAttempts (attempt + 1) s3 of
                     (res, evs, s4) \<Rightarrow> (res, ev # evs, s4))"
  by pat_completeness auto
termination
  by (relation "measure (\<lambda>(once, wait, backoff, maxAttempts, attempt, s). nat (maxAttempts - attempt))")
    (auto simp: error_event_def will_retry_def)

declare stream_attempts.simps [simp del]

definition streamWithRetry ::
  "(agent_context \<times> 'w \<Rightarrow> (round_result option \<times> err option) \<times> agent_context \<times> 'w) \<Rightarrow>
   (int \<Rightarrow> agent_context \<times> 'w \<Rightarrow> bool \<times> agent_context \<times> 'w) \<Rightarrow> (int \<Rightarrow> int) \<Rightarrow> loop_config \<Rightarrow>
   agent_context \<times> 'w \<Rightarrow> (err + round_result) \<times> llm_error list \<times> agent_context \<times> 'w" where
  "streamWithRetry once wait rnd cfg s =
     stream_attempts once wait (case lc_Backoff cfg of Some f \<Rightarrow> f | None \<Rightarrow> DefaultBackoff rnd)
       (if lc_MaxRetries cfg \<le> 0 then 1 else lc_MaxRetries cfg) 1 s"

section \<open>Bounds\<close>

lemma backoff_steps_min:
  assumes "0 < t" "t \<le> capd" "even capd"
  shows "backoff_steps k capd t = min capd (t * 2 ^ k)"
  using assms
proof (induction k arbitrary: t)
  case (Suc k)
  have "(1::int) \<le> 2 ^ k" by simp
  then have le: "t \<le> t * 2 ^ k" using Suc.prems(1) by simp
  show ?case
  proof (cases "capd div 2 \<le> t")
    case True
    with Suc.prems(3) have "capd \<le> 2 * t" by auto
    with le have "capd \<le> t * (2 * 2 ^ k)" by simp
    with True show ?thesis by (simp add: min_def)
  next
    case False
    then have "2 * t \<le> capd" by auto
    with Suc False show ?thesis by (simp add: algebra_simps)
  qed
qed simp

lemma DefaultBackoff_range:
  assumes "\<And>h. 0 < h \<Longrightarrow> 0 \<le> rnd h \<and> rnd h < h"
  defines "temp \<equiv> \<lambda>base capd k. min capd (base * 2 ^ k)"
  shows "0 < DefaultBackoff rnd attempt e \<and>
    DefaultBackoff rnd attempt e < (if is_rate_limit e then 60 * second else 5 * second)"
proof -
  define base capd :: int where "base = (if is_rate_limit e then second else 200000000)"
    and "capd = (if is_rate_limit e then 60 * second else 5 * second)"
  have b: "2 \<le> base" "base \<le> capd" "even capd" by (auto simp: base_def capd_def second_def)
  define t where "t = backoff_steps (nat (attempt - 1)) capd base"
  have one: "(1::int) \<le> 2 ^ nat (attempt - 1)" by simp
  have "base \<le> base * 2 ^ nat (attempt - 1)" using b(1) one by (simp add: mult_le_cancel_left1)
  with b(1) have "2 \<le> base * 2 ^ nat (attempt - 1)" by linarith
  with b have t: "2 \<le> t" "t \<le> capd" by (auto simp: t_def backoff_steps_min)
  then have "0 < t div 2" "t div 2 + t div 2 \<le> t" by auto
  then have "0 < t div 2 + rnd (t div 2)" "t div 2 + rnd (t div 2) < capd"
    using assms(1) [of "t div 2"] t(2) by auto
  then show ?thesis by (simp add: DefaultBackoff_def Let_def base_def capd_def t_def)
qed

lemma retry_delay_bound:
  assumes "will_retry a m e" and "0 \<le> backoff a e" and "backoff a e \<le> MaxRetryAfter"
  shows "0 \<le> retry_delay backoff a e \<and> retry_delay backoff a e \<le> MaxRetryAfter"
  using assms by (auto simp: retry_delay_def will_retry_def hint_forbids_def Let_def split: option.splits)

lemma le_will_event [simp]: "le_will (error_event backoff a m ac e) = will_retry a m e"
  by (simp add: error_event_def)

text \<open>An induction rule for the outcome of the loop, one case per way an attempt can go.\<close>

lemma stream_attempts_rule [case_names aborted ok final gone again]:
  assumes "\<And>a s. ac_aborted (fst s) \<Longrightarrow> P a s (ended_by_ctx (fst s), [], s)"
    and "\<And>a s r s1. \<not> ac_aborted (fst s) \<Longrightarrow> once s = ((Some r, None), s1) \<Longrightarrow> P a s (Inr r, [], s1)"
    and "\<And>a s r e0 s1 e s2 ev. \<not> ac_aborted (fst s) \<Longrightarrow> once s = ((r, e0), s1) \<Longrightarrow> attempt_error r e0 = Some e \<Longrightarrow>
      s2 = (charge_partial e (fst s1), snd s1) \<Longrightarrow> ev = error_event backoff a m (fst s2) e \<Longrightarrow>
      \<not> will_retry a m e \<Longrightarrow> P a s (Inl e, [ev], s2)"
    and "\<And>a s r e0 s1 e s2 ev s3. \<not> ac_aborted (fst s) \<Longrightarrow> once s = ((r, e0), s1) \<Longrightarrow> attempt_error r e0 = Some e \<Longrightarrow>
      s2 = (charge_partial e (fst s1), snd s1) \<Longrightarrow> ev = error_event backoff a m (fst s2) e \<Longrightarrow>
      will_retry a m e \<Longrightarrow> P a s (ended_by_ctx (fst s3), [ev], s3)"
    and "\<And>a s r e0 s1 e s2 ev s3 res evs s4. \<not> ac_aborted (fst s) \<Longrightarrow> once s = ((r, e0), s1) \<Longrightarrow> attempt_error r e0 = Some e \<Longrightarrow>
      s2 = (charge_partial e (fst s1), snd s1) \<Longrightarrow> ev = error_event backoff a m (fst s2) e \<Longrightarrow>
      will_retry a m e \<Longrightarrow> P (a + 1) s3 (res, evs, s4) \<Longrightarrow> P a s (res, ev # evs, s4)"
  shows "P a s (stream_attempts once wait backoff m a s)"
proof (induction "nat (m - a)" arbitrary: a s rule: less_induct)
  case less
  obtain r e0 s1 where once: "once s = ((r, e0), s1)" by (metis prod.collapse)
  note u = stream_attempts.simps [of once wait backoff m a s]
  show ?case
  proof (cases "ac_aborted (fst s)")
    case True
    with assms(1) show ?thesis by (simp add: u)
  next
    case run: False
    show ?thesis
    proof (cases "attempt_error r e0")
      case None
      then obtain r' where "r = Some r'" "e0 = None" by (auto simp: attempt_error_def split: if_splits)
      with assms(2) [of s r' s1 a] run once None show ?thesis by (simp add: u)
    next
      case (Some e)
      define s2 where "s2 = (charge_partial e (fst s1), snd s1)"
      define ev where "ev = error_event backoff a m (fst s2) e"
      obtain gone s3 where w: "wait (le_delay ev) s2 = (gone, s3)" by (metis prod.collapse)
      obtain res evs s4 where rec: "stream_attempts once wait backoff m (a + 1) s3 = (res, evs, s4)" by (metis prod.collapse)
      have step: "stream_attempts once wait backoff m a s =
        (if \<not> will_retry a m e then (Inl e, [ev], s2)
         else if gone then (ended_by_ctx (fst s3), [ev], s3) else (res, ev # evs, s4))"
        unfolding u using run once Some w rec by (simp add: s2_def ev_def)
      note facts = run once Some s2_def ev_def
      show ?thesis
      proof (cases "will_retry a m e")
        case will: True
        then have "nat (m - (a + 1)) < nat (m - a)" by (simp add: will_retry_def)
        from less [OF this, of s3] rec have "P (a + 1) s3 (res, evs, s4)" by simp
        with will show ?thesis by (simp add: step assms(4) [OF facts] assms(5) [OF facts])
      next
        case False
        then show ?thesis by (simp add: step assms(3) [OF facts])
      qed
    qed
  qed
qed

lemma stream_attempts_events:
  assumes b: "\<And>k e. 0 \<le> backoff k e \<and> backoff k e \<le> MaxRetryAfter" and "a \<le> m"
  shows "case stream_attempts once wait backoff m a s of (res, evs, s') \<Rightarrow>
    int (length evs) \<le> m - a + 1 \<and>
    sum_list (map le_delay evs) \<le> (m - a) * MaxRetryAfter \<and>
    list_all le_will (butlast evs)"
proof -
  have "a \<le> m \<longrightarrow> (case stream_attempts once wait backoff m a s of (res, evs, s') \<Rightarrow>
    int (length evs) \<le> m - a + 1 \<and>
    sum_list (map le_delay evs) \<le> (m - a) * MaxRetryAfter \<and>
    list_all le_will (butlast evs))"
  proof (induction rule: stream_attempts_rule)
    case (aborted a s)
    then show ?case by (simp add: MaxRetryAfter_def second_def)
  next
    case (ok a s r s1)
    then show ?case by (simp add: MaxRetryAfter_def second_def)
  next
    case (final a s r e0 s1 e s2 ev)
    then show ?case by (simp add: error_event_def MaxRetryAfter_def second_def)
  next
    case (gone a s r e0 s1 e s2 ev s3)
    have "le_delay ev \<le> MaxRetryAfter"
      using gone retry_delay_bound [OF gone(6), of backoff] b by (simp add: error_event_def)
    moreover have "MaxRetryAfter \<le> (m - a) * MaxRetryAfter"
      using gone(6) by (simp add: will_retry_def MaxRetryAfter_def second_def)
    ultimately show ?case using gone(6) by (simp add: will_retry_def)
  next
    case (again a s r e0 s1 e s2 ev s3 res evs s4)
    have "le_delay ev \<le> MaxRetryAfter"
      using again retry_delay_bound [OF again(6), of backoff] b by (simp add: error_event_def)
    moreover have "le_will ev" using again by (simp add: error_event_def)
    ultimately show ?case using again by (auto simp: will_retry_def algebra_simps)
  qed
  with assms(2) show ?thesis by simp
qed

lemma stream_attempts_kinds:
  "case stream_attempts once wait backoff m a s of (res, evs, s') \<Rightarrow>
    \<forall>ev \<in> set evs. le_will ev \<longrightarrow> le_kind ev \<notin> {KindCanceled, KindAborted, KindPermanent, KindContextExceeded}"
proof -
  have k: "llmErrorKind ac e \<notin> {KindCanceled, KindAborted, KindPermanent, KindContextExceeded}"
    if "will_retry a m e" for a ac e
    using that by (auto simp: will_retry_def retryable_def llmErrorKind_def ClassifyError_def IsPermanent_def)
  show ?thesis
    by (induction rule: stream_attempts_rule) (auto simp: error_event_def dest: k)
qed

text \<open>A ledger of what a round really does: how often the model is called, and how long each wait is.\<close>

definition tally_once ::
  "(agent_context \<times> 'w \<Rightarrow> (round_result option \<times> err option) \<times> agent_context \<times> 'w) \<Rightarrow>
   agent_context \<times> 'w \<times> nat \<times> int list \<Rightarrow> (round_result option \<times> err option) \<times> agent_context \<times> 'w \<times> nat \<times> int list" where
  "tally_once once = (\<lambda>(ac, w, n, ds). case once (ac, w) of (r, ac', w') \<Rightarrow> (r, ac', w', n + 1, ds))"

definition tally_wait ::
  "(int \<Rightarrow> agent_context \<times> 'w \<Rightarrow> bool \<times> agent_context \<times> 'w) \<Rightarrow>
   int \<Rightarrow> agent_context \<times> 'w \<times> nat \<times> int list \<Rightarrow> bool \<times> agent_context \<times> 'w \<times> nat \<times> int list" where
  "tally_wait wait = (\<lambda>d (ac, w, n, ds). case wait d (ac, w) of (gone, ac', w') \<Rightarrow> (gone, ac', w', n, ds @ [d]))"

lemma stream_attempts_tally:
  assumes b: "\<And>k e. 0 \<le> backoff k e \<and> backoff k e \<le> MaxRetryAfter" and "a \<le> m"
  shows "case stream_attempts (tally_once once) (tally_wait wait) backoff m a (ac, w, n, ds) of (res, evs, ac', w', n', ds') \<Rightarrow>
    int n' \<le> int n + (m - a + 1) \<and> (\<exists>ws. ds' = ds @ ws \<and> int (length ws) \<le> m - a \<and> (\<forall>d \<in> set ws. 0 \<le> d \<and> d \<le> MaxRetryAfter))"
  using assms(2)
proof (induction "nat (m - a)" arbitrary: a ac w n ds rule: less_induct)
  case less
  note u = stream_attempts.simps [of "tally_once once" "tally_wait wait" backoff m a "(ac, w, n, ds)"]
  obtain r e0 ac1 w1 where once: "once (ac, w) = ((r, e0), ac1, w1)" by (metis prod.collapse)
  then have t: "tally_once once (ac, w, n, ds) = ((r, e0), ac1, w1, n + 1, ds)" by (simp add: tally_once_def)
  show ?case
  proof (cases "ac_aborted ac")
    case True
    then show ?thesis using less.prems unfolding u by simp
  next
    case run: False
    show ?thesis
    proof (cases "attempt_error r e0")
      case None
      then show ?thesis using run t less.prems unfolding u by simp
    next
      case (Some e)
      let ?ac2 = "charge_partial e ac1"
      let ?ev = "error_event backoff a m ?ac2 e"
      show ?thesis
      proof (cases "will_retry a m e")
        case False
        then show ?thesis using run t Some less.prems unfolding u by simp
      next
        case will: True
        obtain gone ac3 w3 where w: "wait (le_delay ?ev) (?ac2, w1) = (gone, ac3, w3)" by (metis prod.collapse)
        then have tw: "tally_wait wait (le_delay ?ev) (?ac2, w1, n + 1, ds) = (gone, ac3, w3, n + 1, ds @ [le_delay ?ev])" by (simp add: tally_wait_def)
        have d: "0 \<le> le_delay ?ev" "le_delay ?ev \<le> MaxRetryAfter"
          using will retry_delay_bound [OF will, of backoff] b by (simp_all add: error_event_def)
        have am: "a + 1 \<le> m" using will by (simp add: will_retry_def)
        show ?thesis
        proof (cases gone)
          case True
          then show ?thesis using run t Some will tw d am unfolding u by (simp add: Let_def)
        next
          case False
          have "nat (m - (a + 1)) < nat (m - a)" using am by simp
          note IH = less.hyps [OF this am, where ac = ac3 and w = w3 and n = "n + 1" and ds = "ds @ [le_delay ?ev]"]
          obtain res evs ac4 w4 n4 ds4 where rec: "stream_attempts (tally_once once) (tally_wait wait) backoff m (a + 1) (ac3, w3, n + 1, ds @ [le_delay ?ev]) = (res, evs, ac4, w4, n4, ds4)"
            by (metis prod.collapse)
          obtain ws where ws: "ds4 = (ds @ [le_delay ?ev]) @ ws" "int (length ws) \<le> m - (a + 1)" "\<forall>d \<in> set ws. 0 \<le> d \<and> d \<le> MaxRetryAfter"
            and n4: "int n4 \<le> int (n + 1) + (m - (a + 1) + 1)" using IH unfolding rec by auto
          have "stream_attempts (tally_once once) (tally_wait wait) backoff m a (ac, w, n, ds) = (res, ?ev # evs, ac4, w4, n4, ds4)"
            unfolding u using run t Some will tw False rec by simp
          then show ?thesis using ws n4 d by (auto intro!: exI [of _ "le_delay ?ev # ws"])
        qed
      qed
    qed
  qed
qed

text \<open>C39. A round calls the model at most \<open>MaxRetries\<close> times (once where it is not positive) and waits at most one time
  less, with the default backoff never longer than 65 seconds at a time, whatever the server asks for;
  each failure but the last is one that is repeated, and none is repeated that was cancelled or refused
  for good.\<close>

theorem retries_are_bounded:
  assumes "lc_Backoff cfg = None" and "\<And>h. 0 < h \<Longrightarrow> 0 \<le> rnd h \<and> rnd h < h"
  shows "case streamWithRetry (tally_once once) (tally_wait wait) rnd cfg (ac, w, 0, []) of (res, evs, ac', w', n, waits) \<Rightarrow>
    int n \<le> max 1 (lc_MaxRetries cfg) \<and> int (length waits) \<le> max 1 (lc_MaxRetries cfg) - 1 \<and>
    (\<forall>d \<in> set waits. 0 \<le> d \<and> d \<le> 65 * second) \<and>
    list_all le_will (butlast evs) \<and>
    (\<forall>ev \<in> set evs. le_will ev \<longrightarrow>
       le_kind ev \<notin> {KindCanceled, KindAborted, KindPermanent, KindContextExceeded})"
proof -
  let ?m = "if lc_MaxRetries cfg \<le> 0 then 1 else lc_MaxRetries cfg"
  let ?once = "tally_once once" and ?wait = "tally_wait wait"
  have b: "0 \<le> DefaultBackoff rnd k e \<and> DefaultBackoff rnd k e \<le> MaxRetryAfter" for k e
    using DefaultBackoff_range [of rnd k e, OF assms(2)] by (auto simp: MaxRetryAfter_def second_def split: if_splits)
  have m: "?m = max 1 (lc_MaxRetries cfg)" "1 \<le> ?m" by auto
  obtain res evs ac' w' n ws where r: "stream_attempts ?once ?wait (DefaultBackoff rnd) ?m 1 (ac, w, 0, []) = (res, evs, ac', w', n, ws)" by (metis prod.collapse)
  have eq: "streamWithRetry ?once ?wait rnd cfg (ac, w, 0, []) = (res, evs, ac', w', n, ws)" using r assms(1) by (simp add: streamWithRetry_def)
  have t: "int n \<le> ?m \<and> int (length ws) \<le> ?m - 1 \<and> (\<forall>d \<in> set ws. 0 \<le> d \<and> d \<le> MaxRetryAfter)"
    using stream_attempts_tally [where backoff = "DefaultBackoff rnd" and once = once and wait = wait and ac = ac and w = w and n = 0 and ds = "[]", OF b m(2)]
    unfolding r by auto
  have e: "list_all le_will (butlast evs)"
    using stream_attempts_events [where backoff = "DefaultBackoff rnd" and once = ?once and wait = ?wait and s = "(ac, w, 0, [])", OF b m(2)] unfolding r by simp
  have k: "\<forall>ev \<in> set evs. le_will ev \<longrightarrow> le_kind ev \<notin> {KindCanceled, KindAborted, KindPermanent, KindContextExceeded}"
    using stream_attempts_kinds [where backoff = "DefaultBackoff rnd" and once = ?once and wait = ?wait and s = "(ac, w, 0, [])" and a = 1 and m = ?m] unfolding r by simp
  show ?thesis unfolding eq using t e k m(1) by (simp add: MaxRetryAfter_def)
qed

definition retry_config :: "int \<Rightarrow> loop_config" where
  "retry_config n =
     \<lparr>lc_MaxIterations = 0, lc_MaxRetries = n, lc_Backoff = None, lc_Slim = None, lc_MergePairs = False, lc_MergeProtectRounds = 0,
      lc_GoalRounds = 0, lc_PostToolNudge = False, lc_PendingTasksNudge = False, lc_TodoResetOnCompact = False,
      lc_HandoffAsUser = False, lc_CompactBackoff = 0, lc_MaxTokens = 0, lc_Model = []\<rparr>"

theorem retries_are_bounded_witness:
  "case streamWithRetry (tally_once (\<lambda>s. ((None, Some (Plain ''reset'')), s))) (tally_wait (\<lambda>d s. (False, s))) (\<lambda>h. 0) (retry_config 3)
     (new_context (retry_config 3) None None, (), 0, []) of (res, evs, ac', w', n, waits) \<Rightarrow> n \<le> 3 \<and> length waits \<le> 2 \<and> list_all (\<lambda>d. d \<le> 65 * second) waits"
  using retries_are_bounded [of "retry_config 3" "\<lambda>h. 0" "\<lambda>s. ((None, Some (Plain ''reset'')), s)"
      "\<lambda>d s. (False, s)" "new_context (retry_config 3) None None" "()"]
  by (auto simp: retry_config_def list_all_iff split: prod.splits)

text \<open>A rate limit is taken for an exceeded context: the answer 429 with the text \<open>Too many
  tokens, please wait before trying again.\<close> is first classified as a rate limit that may be
  repeated, but the loop searches the error's text for \<open>too many tokens\<close>, so that the round ends
  after one attempt as \<open>context_exceeded\<close>, even where the server asked to retry after five
  seconds.\<close>

theorem rate_limit_taken_for_overflow:
  defines "e \<equiv> ClassifyHTTPError 429 (Plain ''Too many tokens, please wait before trying again.'')"
    and "h \<equiv> \<lparr>rh_After = 5 * second, rh_HasAfter = True, rh_ShouldRetry = Some True\<rparr>"
  shows "retryable e \<and> is_rate_limit e \<and>
    (case streamWithRetry (\<lambda>s. ((None, Some (WithRetryHint e h)), s)) wait rnd cfg (new_context cfg md td, w) of
       (res, evs, s') \<Rightarrow> map le_kind evs = [KindContextExceeded] \<and> map le_will evs = [False] \<and> isl res)"
proof -
  have h: "WithRetryHint e h = HintError h e" by (simp add: WithRetryHint_def hint_IsZero_def h_def)
  have msg: "isContextExceededMessage (err_text (HintError h e))" by (simp only: e_def h_def) code_simp
  have "err_as (\<lambda>x. case x of ContextExceededError m w r c \<Rightarrow> True | _ \<Rightarrow> False) (HintError h e) = None"
    by (simp add: e_def ClassifyHTTPError_def err_as_unwrap)
  with msg obtain m wn rq c where d: "DetectContextExceeded (HintError h e) = ContextExceededError m wn rq c"
    by (cases "contextExceededTokens (err_text (HintError h e))") (simp add: DetectContextExceeded_def)
  have "attempt_error None (Some (HintError h e)) = Some (ContextExceededError m wn rq c)"
    by (simp add: attempt_error_def d)
  moreover have "\<not> will_retry a n (ContextExceededError m wn rq c)" for a n
    by (simp add: will_retry_def retryable_def)
  moreover have "llmErrorKind ac (ContextExceededError m wn rq c) = KindContextExceeded" if "\<not> ac_aborted ac" for ac
    using that by (cases c) (simp_all add: llmErrorKind_def ClassifyError_def err_as_unwrap)
  moreover have "\<not> ac_aborted (charge_partial x (new_context cfg md td))" for x
    by (simp add: charge_partial_def new_context_def addUsage_def split: option.split)
  moreover have "\<not> ac_aborted (new_context cfg md td)" by (simp add: new_context_def)
  moreover have "retryable e \<and> is_rate_limit e"
    by (simp add: e_def ClassifyHTTPError_def retryable_def is_rate_limit_def err_as_unwrap err_is_unwrap IsPermanent_def)
  ultimately show ?thesis
    by (simp add: h streamWithRetry_def stream_attempts.simps error_event_def)
qed

end
