(* ===== verification/Compress.thy ===== *)
theory Compress
  imports Retry
begin

text \<open>
  The compressor of a run's context (\<open>agents/llm_compressor.go\<close>): splitting the history, the
  window of recent messages, rendering the input, the loop over the attempts of the summary
  call and the quality warnings; and the insertion of engine data before a compaction
  (\<open>injectPreCompactContext\<close> of \<open>agents/hooks.go\<close>). The call of the provider is a parameter. The
  texts of the system prompts of the summary and of the warnings are not modelled.
\<close>

section \<open>Rendering of messages\<close>

definition str_trim :: "string list \<Rightarrow> string \<Rightarrow> string" where
  "str_trim ws s = rev (trim_left (map rev ws) (rev (trim_left ws s)))"

fun role_text :: "role \<Rightarrow> string" where
  "role_text User = ''user''"
| "role_text Tool = ''tool''"
| "role_text Assistant = ''assistant''"
| "role_text System = ''system''"
| "role_text (OtherRole r) = r"

definition imageMarker :: string where "imageMarker = ''[image]''"

definition toolResultMaxChars :: nat where "toolResultMaxChars = 3000"

definition truncateToolResult :: "string \<Rightarrow> string" where
  "truncateToolResult s =
     (let r = runes s in
      if length r \<le> toolResultMaxChars then s
      else
        let h = toolResultMaxChars * 2 div 3; t = length r - toolResultMaxChars div 3
        in concat (take h r) @ [CHR 0x0A] @ ''[truncated ~'' @ show_nat (t - h) @ '' chars]'' @ [CHR 0x0A] @ concat (drop t r))"

fun contents_text :: "role \<Rightarrow> bool \<Rightarrow> content list \<Rightarrow> string" where
  "contents_text r sawImage [] = []"
| "contents_text r sawImage (c # cs) =
     (if ctype c = ContentTypeImage then (if sawImage then [] else imageMarker) @ contents_text r True cs
      else if ctype c \<in> {ContentTypeText, ContentTypeSummary, ContentTypeTaskResult, ContentTypeSkill} then
        (if ctype c = ContentTypeTaskResult \<or> ctype c = ContentTypeText \<and> r = Tool
         then truncateToolResult (ctext c) else ctext c) @ contents_text r False cs
      else contents_text r sawImage cs)"

definition messageText :: "message \<Rightarrow> string" where
  "messageText m =
     contents_text (m_role m) False (m_content m) @
     concat (map (\<lambda>tc. [CHR 0x0A] @ ''[tool_call] '' @ tc_name tc @ ''('' @ tc_args tc @ '')'') (m_calls m))"

section \<open>Splitting the history\<close>

definition isSummaryMessage :: "message \<Rightarrow> bool" where
  "isSummaryMessage m \<longleftrightarrow> (case m_content m of [] \<Rightarrow> False | c # _ \<Rightarrow> ctype c = ContentTypeSummary)"

definition hasRealText :: "message \<Rightarrow> bool" where
  "hasRealText m \<longleftrightarrow> list_ex (\<lambda>c. ctype c = ContentTypeText \<and> \<not> blank (ctext c)) (m_content m)"

definition taskAnchorMaxChars :: nat where "taskAnchorMaxChars = 4000"

definition anchor_text :: "message \<Rightarrow> string" where
  "anchor_text m =
     (let a = trim_space (messageText m); r = runes a in
      if taskAnchorMaxChars < length r
      then concat (take taskAnchorMaxChars r) @ [CHR 0x0A, CHR 0x0A] @
        ''[truncated: the original request was longer than 4000 characters; its full gist is in Main Requests and Intent in the summary above]''
      else a)"

text \<open>
  The first and the last index of the latest block of user messages, \<open>None\<close> where there is no
  user message (the source then works with -1).
\<close>

definition latest_block :: "message list \<Rightarrow> (nat \<times> nat) option" where
  "latest_block ms =
     (case filter (\<lambda>i. m_role (ms ! i) = User) [0..<length ms] of
        [] \<Rightarrow> None
      | i # is \<Rightarrow>
          let e = last (i # is)
          in Some (e - length (takeWhile (\<lambda>m. m_role m = User) (rev (take e ms))), e))"

definition in_block :: "(nat \<times> nat) option \<Rightarrow> nat \<Rightarrow> bool" where
  "in_block b i \<longleftrightarrow> (case b of None \<Rightarrow> False | Some (s, e) \<Rightarrow> s \<le> i \<and> i \<le> e)"

definition extractTaskAnchor :: "(nat \<times> nat) option \<Rightarrow> message list \<Rightarrow> string \<times> bool" where
  "extractTaskAnchor b ms =
     (case find (\<lambda>i. m_role (ms ! i) = User \<and> hasRealText (ms ! i) \<and> \<not> blank (messageText (ms ! i))) [0..<length ms] of
        None \<Rightarrow> ([], False)
      | Some i \<Rightarrow> (anchor_text (ms ! i), in_block b i))"

text \<open>
  The recent window: the last \<open>n\<close> messages before the user block, without the first system
  message and without summaries, extended downwards while the oldest is a tool result.
\<close>

definition window_indices :: "message list \<Rightarrow> nat \<Rightarrow> nat \<Rightarrow> nat list" where
  "window_indices ms us n =
     last_n n (filter (\<lambda>i. \<not> (i = 0 \<and> m_role (ms ! i) = System) \<and> \<not> isSummaryMessage (ms ! i)) [0..<us])"

fun extend_window :: "message list \<Rightarrow> nat \<Rightarrow> nat list" where
  "extend_window ms 0 = []"
| "extend_window ms (Suc i) =
     (if m_role (ms ! Suc i) \<noteq> Tool then []
      else if m_role (ms ! i) = System \<or> m_role (ms ! i) = User \<or> isSummaryMessage (ms ! i) then []
      else extend_window ms i @ [i])"

definition recent_window :: "message list \<Rightarrow> nat \<Rightarrow> nat \<Rightarrow> message list" where
  "recent_window ms us n =
     (case window_indices ms us n of [] \<Rightarrow> [] | i # is \<Rightarrow> map ((!) ms) (extend_window ms i @ i # is))"

record split_result =
  sp_system :: "message list"
  sp_latestUser :: "message list"
  sp_prevSummary :: string
  sp_history :: "message list"
  sp_anchor :: string
  sp_anchorInLatest :: bool
  sp_recent :: "message list"

definition splitMessages :: "int \<Rightarrow> message list \<Rightarrow> split_result" where
  "splitMessages keepRecent ms =
     (let b = latest_block ms; is = [0..<length ms];
          rest = filter (\<lambda>i. \<not> in_block b i) is;
          summaries = filter (\<lambda>i. isSummaryMessage (ms ! i)) rest;
          others = filter (\<lambda>i. \<not> isSummaryMessage (ms ! i)) rest;
          anchor = extractTaskAnchor b ms
      in \<lparr>sp_system = map ((!) ms) (filter (\<lambda>i. i = 0 \<and> m_role (ms ! i) = System) others),
          sp_latestUser = map ((!) ms) (filter (in_block b) is),
          sp_prevSummary = concat (map (\<lambda>i. messageText (ms ! i)) summaries),
          sp_history = map ((!) ms) (filter (\<lambda>i. \<not> (i = 0 \<and> m_role (ms ! i) = System)) others),
          sp_anchor = fst anchor, sp_anchorInLatest = snd anchor,
          sp_recent = (case b of Some (us, ue) \<Rightarrow> if 0 < keepRecent then recent_window ms us (nat keepRecent) else []
                       | None \<Rightarrow> [])\<rparr>)"

definition recentTokenLimit :: "int \<Rightarrow> int" where
  "recentTokenLimit window = (if window \<le> 0 then 0 else max (window div 10) 8000)"

definition trimRecentWindow :: "message list \<Rightarrow> int \<Rightarrow> message list" where
  "trimRecentWindow recent limit =
     (if recent = [] \<or> limit \<le> 0 \<or> estimateMessagesTokens recent \<le> limit then recent
      else
        let i = length (takeWhile (\<lambda>i. limit < estimateMessagesTokens (drop i recent)) [0..<length recent])
        in dropWhile (\<lambda>m. m_role m = Tool) (drop i recent))"

text \<open>\<open>injectPreCompactContext\<close>: before the message that precedes the last block of user messages.\<close>

definition injectPreCompactContext :: "message list \<Rightarrow> string \<Rightarrow> message list" where
  "injectPreCompactContext ms inject =
     (let start = length ms - length (takeWhile (\<lambda>m. m_role m = User) (rev ms));
          pos0 = start - 1;
          pos = (if pos0 = 0 \<and> ms \<noteq> [] \<and> m_role (ms ! 0) = System then 1 else pos0)
      in take pos ms @ [NewAssistantMessage [text_block inject] [] []] @ drop pos ms)"

definition renderCompressInput :: "string \<Rightarrow> string \<Rightarrow> message list \<Rightarrow> string" where
  "renderCompressInput prevSummary anchor history =
     (if prevSummary = [] then [] else ''<existing_summary>'' @ [CHR 0x0A] @ prevSummary @ [CHR 0x0A] @ ''</existing_summary>'' @ [CHR 0x0A, CHR 0x0A]) @
     (if anchor = [] then [] else ''<task_anchor>'' @ [CHR 0x0A] @ lit_anchor_intro @ anchor @ [CHR 0x0A] @ ''</task_anchor>'' @ [CHR 0x0A, CHR 0x0A]) @
     ''<conversation_history>'' @ [CHR 0x0A] @
     concat (map (\<lambda>m. [CHR 0x0A] @ ''['' @ role_text (m_role m) @ ''] '' @ messageText m @ [CHR 0x0A]) history) @
     ''</conversation_history>''"


section \<open>Reading and judging a summary\<close>

definition between :: "string \<Rightarrow> string \<Rightarrow> string \<Rightarrow> string option" where
  "between a b s =
     (case (str_index s a, str_index s b) of
        (Some i, Some j) \<Rightarrow> if i < j then Some (trim_space (drop (i + length a) (take j s))) else None
      | _ \<Rightarrow> None)"

definition extractSummary :: "string \<Rightarrow> string" where
  "extractSummary s = (case between ''<summary>'' ''</summary>'' s of Some t \<Rightarrow> t | None \<Rightarrow> s)"

definition extractAnalysis :: "string \<Rightarrow> string" where
  "extractAnalysis s = (case between ''<analysis>'' ''</analysis>'' s of Some t \<Rightarrow> t | None \<Rightarrow> [])"

definition summaryCriticalSections :: "string list" where
  "summaryCriticalSections = [''## Goal'', ''## Key Decisions'', ''## User Inputs'', ''## Fixed Issues'', ''## Next Action'']"

definition legacySections :: "string list" where
  "legacySections = [''## Continuation State'', ''## Main Requests and Intent'', ''## Current Task'',
     ''## Suggested Next Steps'', ''## Task List'', ''## Open Tasks'']"

datatype summary_warning =
    MissingSection string
  | LegacySection string
  | NoHandoff
  | NoBackgroundTasks
  | GoalQuotesHeader string
  | RepeatedPath string
  | OverBudget nat
  | UnknownPath string

definition missingSummarySections :: "string \<Rightarrow> summary_warning list" where
  "missingSummarySections s = map MissingSection (filter (\<lambda>x. \<not> contains s x) summaryCriticalSections)"

definition hasTaskTrace :: "message list \<Rightarrow> string \<Rightarrow> bool" where
  "hasTaskTrace history input \<longleftrightarrow>
     list_ex (contains input) [''[tool_call] agent_spawn'', ''[tool_call] agent_resume'', ''[TaskStates]''] \<or>
     list_ex (\<lambda>m. list_ex (\<lambda>c. ctype c = ContentTypeTaskResult) (m_content m)) history"

definition sectionBody :: "string \<Rightarrow> string \<Rightarrow> string" where
  "sectionBody s header =
     (case str_index s header of None \<Rightarrow> []
      | Some i \<Rightarrow>
          let body = drop (i + length header) s
          in trim_space (case str_index body ([CHR 0x0A] @ ''## '') of None \<Rightarrow> body | Some j \<Rightarrow> take j body))"

text \<open>A path-like token has a separator or an extension of at most six bytes.\<close>

definition isPathLike :: "string \<Rightarrow> bool" where
  "isPathLike t \<longleftrightarrow>
     list_ex (\<lambda>c. c = CHR ''/'' \<or> c = CHR 0x5C) t \<or>
     (let e = takeWhile (\<lambda>c. c \<noteq> CHR ''.'') (rev t) in
      length e + 1 < length t \<and> e \<noteq> [] \<and> length e \<le> 6)"

definition path_cutset :: "string list" where
  "path_cutset = [[CHR 0x60], '' '', [CHR 0x09], ''.'', '','', '';'', '':'', '')'', ''('', [CHR 0x27], [CHR 0x22], [CHR 0xEF, CHR 0xBC, CHR 0x9A]]"

definition add_path :: "string list \<Rightarrow> string \<Rightarrow> string list" where
  "add_path ps tok = (let t = str_trim path_cutset tok in if t = [] \<or> t \<in> set ps \<or> \<not> isPathLike t then ps else ps @ [t])"

text \<open>The quoted parts of a line and the rest after the last complete one.\<close>

function quoted_parts :: "string \<Rightarrow> string list \<times> string" where
  "quoted_parts l =
     (case str_index l [CHR 0x60] of None \<Rightarrow> ([], l)
      | Some i \<Rightarrow>
          (let r = drop (i + 1) l in
           case str_index r [CHR 0x60] of None \<Rightarrow> ([], l)
           | Some j \<Rightarrow> (case quoted_parts (drop (j + 1) r) of (qs, e) \<Rightarrow> (take j r # qs, e))))"
  by pat_completeness auto

termination
  by (relation "measure length") (auto dest!: str_index_bound)

definition line_parts :: "string \<Rightarrow> string list" where
  "line_parts l0 =
     (case quoted_parts (trim_space l0) of (qs, e) \<Rightarrow>
        let l1 = trim_prefix e ''- '';
            l2 = (case str_index l1 '':'' of Some i \<Rightarrow> if 0 < i \<and> i < 16 then drop (i + 1) l1 else l1 | None \<Rightarrow> l1);
            segs = filter (\<lambda>x. x \<noteq> []) (foldr (\<lambda>c acc. if c \<in> {CHR '';'', CHR '','', CHR ''('', CHR '')''} then [] # acc
                     else (c # hd acc) # tl acc) l2 [[]])
        in qs @ map (\<lambda>x. let t = trim_space x in
             (case str_index t '' '' of Some i \<Rightarrow> if 0 < i then take i t else t | None \<Rightarrow> t)) segs)"

definition extractClaimedPaths :: "string \<Rightarrow> string list" where
  "extractClaimedPaths s = foldl add_path [] (concat (map line_parts (split_on (CHR 0x0A) s)))"

definition has_suffix :: "string \<Rightarrow> string \<Rightarrow> bool" where
  "has_suffix s p \<longleftrightarrow> has_prefix (rev s) (rev p)"

definition summaryQualityWarnings :: "string \<Rightarrow> string \<Rightarrow> bool \<Rightarrow> summary_warning list" where
  "summaryQualityWarnings summary input taskTrace =
     (let fcPaths = extractClaimedPaths (sectionBody summary ''## File Context'');
          naPaths = extractClaimedPaths (sectionBody summary ''## Next Action'');
          goal = sectionBody summary ''## Goal''
      in missingSummarySections summary @
         map LegacySection (filter (contains summary) legacySections) @
         (if contains summary ''> HANDOFF'' then [] else [NoHandoff]) @
         (if taskTrace \<and> \<not> contains summary ''## Background Tasks'' then [NoBackgroundTasks] else []) @
         (case find (contains goal) [''New conversation history:'', ''Existing session summary:''] of
            Some h \<Rightarrow> [GoalQuotesHeader h] | None \<Rightarrow> []) @
         map RepeatedPath (filter (\<lambda>p. (contains p ''/'' \<or> contains p '':'') \<and>
             list_ex (\<lambda>f. p = f \<or> has_suffix p f \<or> has_suffix f p) fcPaths) naPaths) @
         (if 24000 < length summary \<or> 6000 < length summary div 4 then [OverBudget (length summary)] else []) @
         map UnknownPath (filter (\<lambda>p. \<not> contains input p) fcPaths))"

section \<open>The summary call\<close>

record compress_config =
  cp_KeepRecent :: int
  cp_LatestUserMax :: int
  cp_MaxTokens :: int
  cp_MaxRetries :: int
  cp_RetryOnMissing :: bool
  cp_ContextWindow :: int
  cp_Backoff :: "(int \<Rightarrow> err \<Rightarrow> int) option"

record stream_end =
  se_Content :: string
  se_Usage :: usage
  se_Model :: string
  se_Finish :: finish_reason

record compress_result =
  cr_Messages :: "message list"
  cr_Summary :: string
  cr_Model :: string
  cr_Usage :: usage
  cr_FailedUsage :: usage
  cr_Warnings :: "summary_warning list"
  cr_Analysis :: string

text \<open>
  One call: the stream is a parameter that yields an error or the fields of its \<open>LLMEnd\<close> event
  (empty where there was none). The result is the error with the usage to account for, or
  summary, analysis, usage and model.
\<close>

definition compressOnce ::
  "int \<Rightarrow> err + stream_end \<Rightarrow> (err \<times> usage) + (string \<times> string \<times> usage \<times> string)" where
  "compressOnce maxTokens r =
     (case r of
        Inl e \<Rightarrow> Inl (e, case PartialUsage e of Some u \<Rightarrow> u | None \<Rightarrow> zero_usage)
      | Inr s \<Rightarrow>
          if blank (se_Content s) then Inl (Plain ''llm compressor: empty summary'', zero_usage)
          else if se_Finish s = FinishLength \<or>
            \<not> contains (se_Content s) ''</summary>'' \<and> 0 < maxTokens \<and> maxTokens \<le> int (length (se_Content s) div 4)
          then Inl (Plain ''llm compressor: summary truncated (finish_reason=length or no </summary> at max_tokens bound)'', zero_usage)
          else Inr (trim_space (extractSummary (se_Content s)), extractAnalysis (se_Content s), se_Usage s, se_Model s))"

record summary_state =
  ss_input :: string
  ss_md :: string
  ss_analysis :: string
  ss_usage :: usage
  ss_failed :: usage
  ss_model :: string
  ss_warnings :: "summary_warning list"

text \<open>
  The inner loop over the quality attempts (\<open>k\<close> are left): it ends with an error, with a summary
  that has no warnings, or with the last one. A further attempt has the warnings appended to
  the original input; that request is kept for the following attempts.
\<close>

fun quality_attempts ::
  "(string \<Rightarrow> 'w \<Rightarrow> (err + stream_end) \<times> 'w) \<Rightarrow> (summary_warning list \<Rightarrow> string) \<Rightarrow> int \<Rightarrow> string \<Rightarrow> bool \<Rightarrow> nat \<Rightarrow>
     summary_state \<times> 'w \<Rightarrow> err option \<times> summary_state \<times> 'w" where
  "quality_attempts call feedback maxTokens input trace 0 sw = (None, sw)"
| "quality_attempts call feedback maxTokens input trace (Suc k) sw =
     (case call (ss_input (fst sw)) (snd sw) of (r, w1) \<Rightarrow>
        case compressOnce maxTokens r of
          Inl (e, u) \<Rightarrow> (Some e, (fst sw)\<lparr>ss_failed := usage_Add (ss_failed (fst sw)) u\<rparr>, w1)
        | Inr (md, a, u, mdl) \<Rightarrow>
            let ws = summaryQualityWarnings md input trace;
                s1 = (fst sw)\<lparr>ss_md := md, ss_analysis := a, ss_usage := u, ss_model := mdl, ss_warnings := ws\<rparr>
            in if ws = [] \<or> k = 0 then (None, s1, w1)
               else quality_attempts call feedback maxTokens input trace k (s1\<lparr>ss_input := input @ feedback ws\<rparr>, w1))"

text \<open>The outer loop (\<open>k\<close> attempts are left, \<open>a\<close> is the number of the current one).\<close>

fun compress_attempts ::
  "(string \<Rightarrow> 'w \<Rightarrow> (err + stream_end) \<times> 'w) \<Rightarrow> (summary_warning list \<Rightarrow> string) \<Rightarrow> (int \<Rightarrow> 'w \<Rightarrow> err option \<times> 'w) \<Rightarrow>
     (int \<Rightarrow> err \<Rightarrow> int) \<Rightarrow> compress_config \<Rightarrow> string \<Rightarrow> bool \<Rightarrow> nat \<Rightarrow> int \<Rightarrow> summary_state \<times> 'w \<Rightarrow>
     (err \<times> usage + summary_state) \<times> 'w" where
  "compress_attempts call feedback wait backoff cfg input trace 0 a sw = (Inr (fst sw), snd sw)"
| "compress_attempts call feedback wait backoff cfg input trace (Suc k) a sw =
     (case quality_attempts call feedback (cp_MaxTokens cfg) input trace (if cp_RetryOnMissing cfg then 2 else 1) sw of
        (None, s1, w1) \<Rightarrow> (Inr s1, w1)
      | (Some e, s1, w1) \<Rightarrow>
          if k = 0 \<or> \<not> retryable e then (Inl (e, ss_failed s1), w1)
          else case wait (backoff a e) w1 of
              (Some ce, w2) \<Rightarrow> (Inl (ce, zero_usage), w2)
            | (None, w2) \<Rightarrow> compress_attempts call feedback wait backoff cfg input trace k (a + 1) (s1, w2))"

definition task_anchor_message :: "string \<Rightarrow> message" where
  "task_anchor_message a = NewSystemMessage (lit_anchor_head @ a @ [CHR 0x0A] @ ''</system-reminder>'')"

definition summary_message :: "string \<Rightarrow> message" where
  "summary_message md = plain_message System [\<lparr>ctype = ContentTypeSummary, ctext = trim_space md, mime = []\<rparr>]"

text \<open>The context after a compaction with the summary \<open>md\<close>.\<close>

definition compacted :: "compress_config \<Rightarrow> split_result \<Rightarrow> message list \<Rightarrow> string \<Rightarrow> message list" where
  "compacted cfg sp latestUser md =
     sp_system sp @ [summary_message md] @
     (if sp_anchor sp \<noteq> [] \<and> \<not> sp_anchorInLatest sp then [task_anchor_message (sp_anchor sp)] else []) @
     (if sp_recent sp = [] then [] else trimRecentWindow (sp_recent sp) (recentTokenLimit (cp_ContextWindow cfg))) @
     latestUser"

definition user_too_long :: "compress_config \<Rightarrow> split_result \<Rightarrow> bool" where
  "user_too_long cfg sp \<longleftrightarrow> 0 < cp_LatestUserMax cfg \<and> cp_LatestUserMax cfg < estimateMessagesTokens (sp_latestUser sp)"

definition Compact ::
  "(string \<Rightarrow> 'w \<Rightarrow> (err + stream_end) \<times> 'w) \<Rightarrow> (summary_warning list \<Rightarrow> string) \<Rightarrow> (int \<Rightarrow> 'w \<Rightarrow> err option \<times> 'w) \<Rightarrow>
     (int \<Rightarrow> int) \<Rightarrow> compress_config \<Rightarrow> message list \<Rightarrow> 'w \<Rightarrow> (err \<times> usage + compress_result) \<times> 'w" where
  "Compact call feedback wait rnd cfg ms w =
     (let sp = splitMessages (cp_KeepRecent cfg) ms; long = user_too_long cfg sp;
          history = (if long then sp_history sp @ sp_latestUser sp else sp_history sp);
          latestUser = (if long then [] else sp_latestUser sp)
      in if history = [] then (Inl (Plain ''llm compressor: nothing to compress'', zero_usage), w)
         else
           let input = renderCompressInput (sp_prevSummary sp) (sp_anchor sp) history;
               s0 = \<lparr>ss_input = input, ss_md = [], ss_analysis = [], ss_usage = zero_usage, ss_failed = zero_usage,
                     ss_model = [], ss_warnings = []\<rparr>
           in case compress_attempts call feedback wait (case cp_Backoff cfg of Some f \<Rightarrow> f | None \<Rightarrow> DefaultBackoff rnd) cfg
                  input (hasTaskTrace history input) (nat (max 1 (cp_MaxRetries cfg))) 1 (s0, w) of
               (Inl eu, w1) \<Rightarrow> (Inl eu, w1)
             | (Inr s1, w1) \<Rightarrow>
                 (Inr \<lparr>cr_Messages = compacted cfg sp latestUser (ss_md s1), cr_Summary = trim_space (ss_md s1),
                       cr_Model = ss_model s1, cr_Usage = ss_usage s1, cr_FailedUsage = ss_failed s1,
                       cr_Warnings = ss_warnings s1, cr_Analysis = ss_analysis s1\<rparr>, w1))"

definition ShouldCompact :: "int \<Rightarrow> int \<Rightarrow> bool" where
  "ShouldCompact estimated budget \<longleftrightarrow> 0 < budget \<and> budget \<le> estimated"


section \<open>Tool exchanges stay together\<close>

text \<open>
  What a provider requires of a history: a tool result follows, with only other results in
  between, the message whose calls it answers. \<open>follows C ms\<close> says so of a continuation after a
  message with the call ids \<open>C\<close>.
\<close>

fun follows :: "string set \<Rightarrow> message list \<Rightarrow> bool" where
  "follows C [] = True"
| "follows C (m # ms) =
     (if m_role m = Tool then m_call_id m \<in> C \<and> follows C ms else follows (set (map tc_id (m_calls m))) ms)"

definition starts_clean :: "message list \<Rightarrow> bool" where
  "starts_clean ms \<longleftrightarrow> (case ms of [] \<Rightarrow> True | m # _ \<Rightarrow> m_role m \<noteq> Tool)"

lemma starts_clean_simps [simp]: "starts_clean []" "starts_clean (m # ms) \<longleftrightarrow> m_role m \<noteq> Tool"
  by (simp_all add: starts_clean_def)

lemma follows_clean: "follows C ms \<Longrightarrow> starts_clean ms \<Longrightarrow> follows D ms"
  by (cases ms) auto

lemma follows_mono: "follows C ms \<Longrightarrow> C \<subseteq> D \<Longrightarrow> follows D ms"
  by (induction ms arbitrary: C D) auto

lemma follows_prefix: "follows C (xs @ ys) \<Longrightarrow> follows C xs"
  by (induction xs arbitrary: C) auto

lemma follows_suffix: "follows C (xs @ ys) \<Longrightarrow> starts_clean ys \<Longrightarrow> follows D ys"
  by (induction xs arbitrary: C) (auto dest: follows_clean split: if_splits)

lemma follows_append: "follows C xs \<Longrightarrow> follows {} ys \<Longrightarrow> starts_clean ys \<Longrightarrow> follows C (xs @ ys)"
  by (induction xs arbitrary: C) (auto dest: follows_clean)

lemma follows_drop: "follows C ms \<Longrightarrow> starts_clean (drop k ms) \<Longrightarrow> follows D (drop k ms)"
  using follows_suffix [of C "take k ms" "drop k ms" D] by simp

lemma follows_take: "follows C ms \<Longrightarrow> follows C (take k ms)"
  using follows_prefix [of C "take k ms" "drop k ms"] by simp

lemma follows_filter:
  "follows C ms \<Longrightarrow> \<forall>m \<in> set ms. \<not> Q m \<longrightarrow> m_role m \<noteq> Tool \<and> m_calls m = [] \<Longrightarrow> follows C (filter Q ms)"
proof (induction ms arbitrary: C)
  case (Cons m ms)
  then have "follows {} ms \<Longrightarrow> follows C (filter Q ms)" using follows_mono [of "{}" ms C] by simp
  with Cons show ?case by (auto split: if_splits)
qed simp

lemma follows_plain: "\<forall>m \<in> set ms. m_role m \<noteq> Tool \<Longrightarrow> follows C ms"
  by (induction ms arbitrary: C) auto

lemma follows_before:
  assumes "follows {} ms" "i < length ms" "m_role (ms ! i) = Tool"
  shows "0 < i \<and> (m_role (ms ! (i - 1)) = Tool \<or> m_calls (ms ! (i - 1)) \<noteq> [])"
proof (rule ccontr)
  assume no: "\<not> ?thesis"
  show False
  proof (cases i)
    case 0
    with assms show False by (cases ms) auto
  next
    case (Suc k)
    with no have p: "m_role (ms ! k) \<noteq> Tool" "m_calls (ms ! k) = []" by auto
    have "drop k ms = ms ! k # ms ! i # drop (Suc i) ms"
      using assms(2) Suc by (simp add: Cons_nth_drop_Suc)
    moreover have "follows {} (drop k ms)"
      using calculation p by (intro follows_drop [OF assms(1)]) simp
    ultimately show False using p assms(3) by simp
  qed
qed

definition history_ok :: "message list \<Rightarrow> bool" where
  "history_ok ms \<longleftrightarrow> follows {} ms \<and>
     (\<forall>m \<in> set ms. (m_calls m \<noteq> [] \<longrightarrow> m_role m = Assistant) \<and> (isSummaryMessage m \<longrightarrow> m_role m = System))"

lemma extend_window_range:
  assumes "history_ok ms" "i < length ms"
  shows "\<exists>j \<le> i. extend_window ms i = [j..<i] \<and> m_role (ms ! j) \<noteq> Tool \<and>
    (\<forall>k \<in> {j..<i}. \<not> isSummaryMessage (ms ! k) \<and> m_role (ms ! k) \<noteq> System)"
  using assms(2)
proof (induction i)
  case 0
  with assms(1) show ?case by (cases ms) (auto simp: history_ok_def)
next
  case (Suc i)
  show ?case
  proof (cases "m_role (ms ! Suc i) = Tool")
    case True
    have f: "follows {} ms" and w: "\<And>m. m \<in> set ms \<Longrightarrow> (m_calls m \<noteq> [] \<longrightarrow> m_role m = Assistant) \<and> (isSummaryMessage m \<longrightarrow> m_role m = System)"
      using assms(1) by (auto simp: history_ok_def)
    have "m_role (ms ! i) = Tool \<or> m_calls (ms ! i) \<noteq> []"
      using follows_before [OF f Suc.prems True] by simp
    moreover have "ms ! i \<in> set ms" using Suc.prems by simp
    ultimately have p: "m_role (ms ! i) = Tool \<or> m_role (ms ! i) = Assistant" "\<not> isSummaryMessage (ms ! i)"
      using w [of "ms ! i"] by auto
    obtain j where j: "j \<le> i" "extend_window ms i = [j..<i]" "m_role (ms ! j) \<noteq> Tool"
      "\<forall>k \<in> {j..<i}. \<not> isSummaryMessage (ms ! k) \<and> m_role (ms ! k) \<noteq> System"
      using Suc by auto
    have "extend_window ms (Suc i) = [j..<Suc i]" using True p j(1,2) by auto
    moreover have "\<forall>k \<in> {j..<Suc i}. \<not> isSummaryMessage (ms ! k) \<and> m_role (ms ! k) \<noteq> System"
      using j(4) p by (auto simp: less_Suc_eq)
    ultimately show ?thesis using j by (intro exI [of _ j]) auto
  next
    case False
    then show ?thesis by (intro exI [of _ "Suc i"]) auto
  qed
qed

lemma upt_split: "(i::nat) \<le> j \<Longrightarrow> j \<le> k \<Longrightarrow> [i..<k] = [i..<j] @ [j..<k]"
  using upt_add_eq_append [of i j "k - j"] by simp

lemma window_indices_range:
  assumes "window_indices ms us n = i # is"
  shows "i < us \<and> i # is = filter (\<lambda>k. \<not> isSummaryMessage (ms ! k)) [i..<us] \<and> \<not> (i = 0 \<and> m_role (ms ! i) = System)"
proof -
  define P where "P = (\<lambda>i. \<not> (i = 0 \<and> m_role (ms ! i) = System) \<and> \<not> isSummaryMessage (ms ! i))"
  define xs where "xs = filter P [0..<us]"
  have "i # is = drop (length xs - n) xs" using assms by (simp add: window_indices_def last_n_def xs_def P_def)
  then obtain pre where eq: "filter P [0..<us] = pre @ i # is"
    unfolding xs_def [symmetric] by (metis append_take_drop_id)
  have "i \<in> set (filter P [0..<us])" unfolding eq by simp
  then have i: "i < us" "P i" by simp_all
  have cut: "filter P [0..<us] = filter P [0..<i] @ i # filter P [Suc i..<us]"
    using i upt_split [of 0 i us] by (simp add: upt_conv_Cons [of i us])
  have "distinct (filter P [0..<us])" by simp
  then have "i \<notin> set pre" "i \<notin> set is" unfolding eq by auto
  moreover from eq cut have "pre @ i # is = filter P [0..<i] @ i # filter P [Suc i..<us]" by simp
  ultimately have "is = filter P [Suc i..<us]" by (subst (asm) append_Cons_eq_iff) auto
  moreover have "filter P [Suc i..<us] = filter (\<lambda>k. \<not> isSummaryMessage (ms ! k)) [Suc i..<us]"
    by (rule filter_cong) (auto simp: P_def)
  ultimately show ?thesis using i by (auto simp: upt_conv_Cons P_def)
qed

lemma map_nth_range: "us \<le> length ms \<Longrightarrow> map ((!) ms) [j..<us] = drop j (take us ms)"
  by (rule nth_equalityI) auto

lemma recent_window_follows:
  assumes "history_ok ms" "us \<le> length ms"
  shows "follows {} (recent_window ms us n) \<and> starts_clean (recent_window ms us n) \<and> set (recent_window ms us n) \<subseteq> set ms"
proof (cases "window_indices ms us n")
  case (Cons i "is")
  note wi = window_indices_range [OF Cons]
  obtain j where j: "j \<le> i" "extend_window ms i = [j..<i]" "m_role (ms ! j) \<noteq> Tool"
    "\<forall>k \<in> {j..<i}. \<not> isSummaryMessage (ms ! k) \<and> m_role (ms ! k) \<noteq> System"
    using extend_window_range [OF assms(1), of i] wi assms(2) by auto
  have "extend_window ms i @ i # is = filter (\<lambda>k. \<not> isSummaryMessage (ms ! k)) ([j..<i] @ [i..<us])"
    using wi j by (auto intro!: filter_True [symmetric])
  also have "[j..<i] @ [i..<us] = [j..<us]" using j(1) wi upt_split [of j i us] by simp
  finally have idx: "extend_window ms i @ i # is = filter (\<lambda>k. \<not> isSummaryMessage (ms ! k)) [j..<us]" .
  have nosum: "\<not> isSummaryMessage (ms ! j)" using j wi by (cases "j = i") (auto dest!: arg_cong [where f = set])
  have rw: "recent_window ms us n = filter (\<lambda>m. \<not> isSummaryMessage m) (drop j (take us ms))"
    unfolding recent_window_def Cons list.case idx map_nth_range [OF assms(2), symmetric]
    by (simp add: filter_map comp_def)
  have cons: "drop j (take us ms) = ms ! j # drop (Suc j) (take us ms)"
    using j(1) wi assms(2) by (simp add: Cons_nth_drop_Suc [symmetric])
  have sub: "set (drop j (take us ms)) \<subseteq> set ms" by (meson in_set_dropD in_set_takeD subsetI)
  have "follows {} (drop j (take us ms))"
    by (rule follows_drop [OF follows_take]) (use assms(1) cons j(3) in \<open>auto simp: history_ok_def\<close>)
  moreover have "\<forall>m \<in> set (drop j (take us ms)). \<not> \<not> isSummaryMessage m \<longrightarrow> m_role m \<noteq> Tool \<and> m_calls m = []"
    using assms(1) sub by (fastforce simp: history_ok_def)
  ultimately have "follows {} (recent_window ms us n)" unfolding rw by (rule follows_filter)
  moreover have "starts_clean (recent_window ms us n)" using cons nosum j(3) by (simp add: rw)
  moreover have "set (recent_window ms us n) \<subseteq> set ms" using sub by (auto simp: rw)
  ultimately show ?thesis by simp
qed (simp add: recent_window_def)


lemma trimRecentWindow_ok:
  assumes "follows {} ms" "starts_clean ms"
  shows "follows {} (trimRecentWindow ms l) \<and> starts_clean (trimRecentWindow ms l) \<and> set (trimRecentWindow ms l) \<subseteq> set ms"
proof -
  have clean: "starts_clean (dropWhile (\<lambda>m. m_role m = Tool) xs)" for xs
    by (induction xs) auto
  have "\<exists>n. trimRecentWindow ms l = drop n ms"
    unfolding trimRecentWindow_def Let_def dropWhile_eq_drop drop_drop by (auto intro: exI [of _ 0])
  then obtain n where "trimRecentWindow ms l = drop n ms" ..
  then have pre: "ms = take n ms @ trimRecentWindow ms l" by simp
  moreover have c: "starts_clean (trimRecentWindow ms l)"
    using assms(2) clean by (simp add: trimRecentWindow_def Let_def)
  ultimately have "follows {} (trimRecentWindow ms l)" using assms(1) by (metis follows_suffix)
  with c pre show ?thesis by (metis set_append Un_upper2)
qed

lemma sorted_le_last: "sorted xs \<Longrightarrow> x \<in> set xs \<Longrightarrow> (x::nat) \<le> last xs"
  by (induction xs) auto

lemma latest_block_bounds:
  assumes "latest_block ms = Some (s, e)"
  shows "s \<le> e \<and> e < length ms \<and> m_role (ms ! e) = User \<and> (\<forall>i. e < i \<and> i < length ms \<longrightarrow> m_role (ms ! i) \<noteq> User) \<and>
    (\<forall>i. s \<le> i \<and> i \<le> e \<longrightarrow> m_role (ms ! i) = User)"
proof -
  define us where "us = filter (\<lambda>i. m_role (ms ! i) = User) [0..<length ms]"
  define b where "b = takeWhile (\<lambda>m. m_role m = User) (rev (take e ms))"
  have ne: "us \<noteq> []" and e: "e = last us" and s: "s = e - length b"
    using assms by (auto simp: latest_block_def us_def b_def Let_def split: list.splits)
  have "e \<in> set us" using ne e by simp
  then have el: "e < length ms" "m_role (ms ! e) = User" by (auto simp: us_def)
  have srt: "sorted us" unfolding us_def by (rule sorted_wrt_filter) simp
  have "m_role (ms ! i) \<noteq> User" if "e < i" "i < length ms" for i
  proof
    assume "m_role (ms ! i) = User"
    then have "i \<in> set us" using that by (simp add: us_def)
    then have "i \<le> last us" using srt by (rule sorted_le_last [rotated])
    with e that show False by simp
  qed
  moreover have "m_role (ms ! i) = User" if i: "s \<le> i" "i \<le> e" for i
  proof (cases "i = e")
    case False
    with i have k: "e - 1 - i < length b" using s by auto
    then have "b ! (e - 1 - i) = rev (take e ms) ! (e - 1 - i)" by (simp add: b_def takeWhile_nth)
    also have "\<dots> = ms ! i" using i False el(1) by (simp add: rev_nth)
    finally have "ms ! i = b ! (e - 1 - i)" by simp
    moreover have "b ! (e - 1 - i) \<in> set b" using k by simp
    ultimately show ?thesis by (auto simp: b_def dest: set_takeWhileD)
  qed (use el in simp)
  ultimately show ?thesis using el s by auto
qed

lemma split_parts:
  fixes ms k
  assumes "history_ok ms"
  defines "sp \<equiv> splitMessages k ms"
  shows "follows {} (sp_recent sp) \<and> starts_clean (sp_recent sp) \<and> set (sp_recent sp) \<subseteq> set ms"
    and "\<forall>m \<in> set (sp_latestUser sp). m_role m = User \<and> m \<in> set ms"
    and "\<forall>m \<in> set (sp_system sp). m_role m = System \<and> m \<in> set ms"
proof -
  show "follows {} (sp_recent sp) \<and> starts_clean (sp_recent sp) \<and> set (sp_recent sp) \<subseteq> set ms"
  proof (cases "latest_block ms")
    case (Some b)
    with latest_block_bounds [of ms "fst b" "snd b"] have "fst b \<le> length ms" by simp
    from recent_window_follows [OF assms(1) this, of "nat k"] Some show ?thesis
      by (auto simp: sp_def splitMessages_def Let_def split: prod.splits)
  qed (simp add: sp_def splitMessages_def Let_def)
  show "\<forall>m \<in> set (sp_latestUser sp). m_role m = User \<and> m \<in> set ms"
    using latest_block_bounds [of ms]
    by (auto simp: sp_def splitMessages_def Let_def in_block_def split: option.splits)
  show "\<forall>m \<in> set (sp_system sp). m_role m = System \<and> m \<in> set ms"
    by (auto simp: sp_def splitMessages_def Let_def)
qed

lemma history_ok_append:
  "history_ok xs \<Longrightarrow> history_ok ys \<Longrightarrow> starts_clean ys \<Longrightarrow> history_ok (xs @ ys)"
  by (auto simp: history_ok_def intro: follows_append)

lemma history_ok_plain:
  "\<forall>m \<in> set ms. m_role m \<noteq> Tool \<and> m_calls m = [] \<and> (isSummaryMessage m \<longrightarrow> m_role m = System) \<Longrightarrow> history_ok ms \<and> starts_clean ms"
  by (cases ms) (auto simp: history_ok_def intro!: follows_plain)

lemma history_ok_sub:
  "history_ok ms \<Longrightarrow> follows {} xs \<Longrightarrow> set xs \<subseteq> set ms \<Longrightarrow> history_ok xs"
  by (auto simp: history_ok_def)

lemma compacted_ok:
  assumes "history_ok ms" and "set u \<subseteq> set (sp_latestUser (splitMessages k ms))"
  shows "history_ok (compacted cfg (splitMessages k ms) u md)"
proof -
  let ?sp = "splitMessages k ms"
  note parts = split_parts [OF assms(1), of k]
  have ok: "m_calls m \<noteq> [] \<longrightarrow> m_role m = Assistant" "isSummaryMessage m \<longrightarrow> m_role m = System" if "m \<in> set ms" for m
    using that assms(1) by (auto simp: history_ok_def)
  have a: "history_ok (sp_system ?sp @ [summary_message md] @
      (if sp_anchor ?sp \<noteq> [] \<and> \<not> sp_anchorInLatest ?sp then [task_anchor_message (sp_anchor ?sp)] else []))"
    using parts(3) ok
    by (intro history_ok_plain [THEN conjunct1]) (fastforce simp: summary_message_def task_anchor_message_def
        NewSystemMessage_def plain_message_def)
  have u: "history_ok u \<and> starts_clean u" using parts(2) assms(2) ok
    by (intro history_ok_plain) fastforce
  define rec where "rec = (if sp_recent ?sp = [] then [] else trimRecentWindow (sp_recent ?sp) (recentTokenLimit (cp_ContextWindow cfg)))"
  have r: "history_ok rec \<and> starts_clean rec"
  proof (cases "sp_recent ?sp = []")
    case False
    with trimRecentWindow_ok [of "sp_recent ?sp" "recentTokenLimit (cp_ContextWindow cfg)"] parts(1)
    have "follows {} rec \<and> starts_clean rec \<and> set rec \<subseteq> set ms" by (auto simp: rec_def)
    with history_ok_sub [OF assms(1)] show ?thesis by blast
  qed (simp add: rec_def history_ok_def)
  have "history_ok (rec @ u) \<and> starts_clean (rec @ u)"
    using r u history_ok_append [of rec u] by (cases rec) auto
  with history_ok_append [OF a] show ?thesis by (simp add: compacted_def rec_def)
qed

lemma Compact_messages:
  assumes "Compact call feedback wait rnd cfg ms w = (Inr r, w')"
  shows "\<exists>md. cr_Messages r = compacted cfg (splitMessages (cp_KeepRecent cfg) ms)
    (if user_too_long cfg (splitMessages (cp_KeepRecent cfg) ms) then [] else sp_latestUser (splitMessages (cp_KeepRecent cfg) ms)) md"
  using assms unfolding Compact_def Let_def by (auto split: if_splits prod.splits sum.splits)

lemma latest_user_last:
  assumes "m \<in> set ms" "m_role m = User"
  shows "sp_latestUser (splitMessages k ms) \<noteq> [] \<and>
    last (sp_latestUser (splitMessages k ms)) = last (filter (\<lambda>m. m_role m = User) ms)"
proof -
  obtain i where "i < length ms" "m_role (ms ! i) = User" using assms by (auto simp: in_set_conv_nth)
  then have "filter (\<lambda>i. m_role (ms ! i) = User) [0..<length ms] \<noteq> []" by (auto simp: filter_empty_conv)
  then obtain s e where b: "latest_block ms = Some (s, e)"
    by (cases "filter (\<lambda>i. m_role (ms ! i) = User) [0..<length ms]") (auto simp: latest_block_def Let_def)
  note lb = latest_block_bounds [OF b]
  have lat: "sp_latestUser (splitMessages k ms) = map ((!) ms) (filter (\<lambda>i. s \<le> i \<and> i \<le> e) [0..<length ms])"
    by (simp add: splitMessages_def Let_def b in_block_def [abs_def])
  have "[0..<length ms] = [0..<e] @ e # [Suc e..<length ms]"
    using lb upt_split [of 0 e "length ms"] by (simp add: upt_conv_Cons [of e])
  then have sp: "filter (\<lambda>i. s \<le> i \<and> i \<le> e) [0..<length ms] = filter (\<lambda>i. s \<le> i \<and> i \<le> e) [0..<e] @ [e]"
    using lb by (simp add: filter_empty_conv)
  have ms: "ms = take e ms @ ms ! e # drop (Suc e) ms" using lb by (simp add: Cons_nth_drop_Suc)
  have "filter (\<lambda>m. m_role m = User) (drop (Suc e) ms) = []"
    using lb by (auto simp: filter_empty_conv in_set_conv_nth)
  then have "filter (\<lambda>m. m_role m = User) ms = filter (\<lambda>m. m_role m = User) (take e ms) @ [ms ! e]"
    using lb by (subst ms) simp
  then have "last (filter (\<lambda>m. m_role m = User) ms) = ms ! e" by simp
  with lat sp show ?thesis by simp
qed

text \<open>A compaction keeps tool exchanges together: from a history in which every tool result
  follows the message whose call it answers it makes another one, although the window of
  recent messages is cut by count and by size. The last message of the user stays the last one
  and verbatim, unless the latest input is too long.\<close>

theorem compact_keeps_exchanges:
  assumes "history_ok ms" and "Compact call feedback wait rnd cfg ms w = (Inr r, w')"
  shows "history_ok (cr_Messages r) \<and>
    (m \<in> set ms \<and> m_role m = User \<and> \<not> user_too_long cfg (splitMessages (cp_KeepRecent cfg) ms) \<longrightarrow>
       last (cr_Messages r) = last (filter (\<lambda>m. m_role m = User) ms))"
proof -
  obtain md where md: "cr_Messages r = compacted cfg (splitMessages (cp_KeepRecent cfg) ms)
    (if user_too_long cfg (splitMessages (cp_KeepRecent cfg) ms) then [] else sp_latestUser (splitMessages (cp_KeepRecent cfg) ms)) md"
    using Compact_messages [OF assms(2)] by blast
  have "history_ok (cr_Messages r)" unfolding md by (rule compacted_ok [OF assms(1)]) simp
  moreover have "last (cr_Messages r) = last (filter (\<lambda>m. m_role m = User) ms)"
    if "m \<in> set ms" "m_role m = User" "\<not> user_too_long cfg (splitMessages (cp_KeepRecent cfg) ms)"
    using latest_user_last [OF that(1,2), of "cp_KeepRecent cfg"] that(3) by (simp add: md compacted_def)
  ultimately show ?thesis by blast
qed

definition small_compress :: compress_config where
  "small_compress = \<lparr>cp_KeepRecent = 10, cp_LatestUserMax = 8192, cp_MaxTokens = 8192, cp_MaxRetries = 11,
     cp_RetryOnMissing = False, cp_ContextWindow = 0, cp_Backoff = Some (FixedBackoff second)\<rparr>"

definition summarise :: "string \<Rightarrow> 'w \<Rightarrow> (err + stream_end) \<times> 'w" where
  "summarise input w = (Inr \<lparr>se_Content = ''## Goal'', se_Usage = zero_usage, se_Model = ''m'', se_Finish = FinishStop\<rparr>, w)"

text \<open>A run in which the user writes while a tool round is being worked on.\<close>

definition busy_history :: "message list" where
  "busy_history =
     [NewSystemMessage ''s'', NewUserMessage [text_block ''fix it''],
      NewAssistantMessage [] [] [demo_call ''c1'' ''read_file'' ''a''], NewToolMessage ''c1'' ''text'',
      NewUserMessage [text_block ''and b'']]"

lemma short_summary:
  "compressOnce 8192 (Inr \<lparr>se_Content = ''## Goal'', se_Usage = u, se_Model = m, se_Finish = FinishStop\<rparr>) =
   Inr (''## Goal'', [], u, m)"
proof -
  have "\<not> blank ''## Goal''" "extractSummary ''## Goal'' = ''## Goal''" "extractAnalysis ''## Goal'' = []"
    "trim_space ''## Goal'' = ''## Goal''" by code_simp+
  then show ?thesis by (simp add: compressOnce_def)
qed

lemma Compact_summarise:
  assumes "sp_history (splitMessages 10 ms) \<noteq> []"
  shows "\<exists>r. Compact summarise (\<lambda>ws. []) (\<lambda>d w. (None, w)) id small_compress ms () = (Inr r, ())"
  using assms short_summary [of zero_usage "''m''"]
  by (simp add: Compact_def Let_def small_compress_def summarise_def eval_nat_numeral)

lemma compact_demo:
  assumes "sp_history (splitMessages 10 ms) \<noteq> []"
  shows "\<exists>r md. Compact summarise (\<lambda>ws. []) (\<lambda>d w. (None, w)) id small_compress ms () = (Inr r, ()) \<and>
    cr_Messages r = compacted small_compress (splitMessages 10 ms)
      (if user_too_long small_compress (splitMessages 10 ms) then [] else sp_latestUser (splitMessages 10 ms)) md"
  using Compact_summarise [OF assms] Compact_messages [of summarise "\<lambda>ws. []" "\<lambda>d w. (None, w)" id small_compress ms "()"]
  by (fastforce simp: small_compress_def)



definition busy_injected :: "message list" where
  "busy_injected = injectPreCompactContext busy_history ''[FileLedger]''"

lemma busy_blocks:
  "latest_block busy_history = Some (4, 4)" "latest_block busy_injected = Some (5, 5)"
  "length busy_history = 5" "length busy_injected = 6"
  "isSummaryMessage (busy_history ! Suc 0) = False" "isSummaryMessage (busy_injected ! Suc 0) = False"
  "busy_injected ! 5 = last busy_history"
  "recent_window busy_injected 5 10 =
     [busy_history ! 1, busy_history ! 2, NewAssistantMessage [text_block ''[FileLedger]''] [] [], busy_history ! 3]"
  "estimateMessagesTokens [busy_history ! 4] \<le> 8192"
  by code_simp+

lemma busy_splits:
  "sp_history (splitMessages 10 busy_history) \<noteq> []"
  "sp_history (splitMessages 10 busy_injected) \<noteq> []"
  "sp_latestUser (splitMessages 10 busy_injected) = [last busy_history]"
  "sp_recent (splitMessages 10 busy_injected) =
     [busy_history ! 1, busy_history ! 2, NewAssistantMessage [text_block ''[FileLedger]''] [] [], busy_history ! 3]"
  "\<not> user_too_long small_compress (splitMessages 10 busy_history)"
  "\<not> user_too_long small_compress (splitMessages 10 busy_injected)"
proof -
  have u: "[0..<5] = [0, 1, 2, 3, 4::nat]" "[0..<6] = [0, 1, 2, 3, 4, 5::nat]" by (simp_all add: upt_rec)
  have l: "last busy_history = busy_history ! 4" by (simp add: busy_history_def)
  have "sp_latestUser (splitMessages 10 busy_history) = [busy_history ! 4]"
    by (simp add: splitMessages_def Let_def busy_blocks in_block_def u)
  moreover show "sp_latestUser (splitMessages 10 busy_injected) = [last busy_history]"
    by (simp add: splitMessages_def Let_def busy_blocks in_block_def u)
  ultimately show "\<not> user_too_long small_compress (splitMessages 10 busy_history)"
    "\<not> user_too_long small_compress (splitMessages 10 busy_injected)"
    using busy_blocks(9) by (simp_all add: user_too_long_def small_compress_def l)
  show "sp_history (splitMessages 10 busy_history) \<noteq> []" "sp_history (splitMessages 10 busy_injected) \<noteq> []"
    by (simp_all add: splitMessages_def Let_def busy_blocks in_block_def u)
  show "sp_recent (splitMessages 10 busy_injected) =
     [busy_history ! 1, busy_history ! 2, NewAssistantMessage [text_block ''[FileLedger]''] [] [], busy_history ! 3]"
    by (simp add: splitMessages_def Let_def busy_blocks)
qed

theorem compact_keeps_exchanges_witness:
  "\<exists>r. Compact summarise (\<lambda>ws. []) (\<lambda>d w. (None, w)) id small_compress busy_history () = (Inr r, ()) \<and>
     history_ok (cr_Messages r) \<and> last (cr_Messages r) = last busy_history"
proof -
  obtain r where r: "Compact summarise (\<lambda>ws. []) (\<lambda>d w. (None, w)) id small_compress busy_history () = (Inr r, ())"
    using Compact_summarise [OF busy_splits(1)] by blast
  have ok: "history_ok busy_history" by code_simp
  have m: "last busy_history \<in> set busy_history" "m_role (last busy_history) = User" 
    "last (filter (\<lambda>m. m_role m = User) busy_history) = last busy_history" by code_simp+
  have "\<not> user_too_long small_compress (splitMessages (cp_KeepRecent small_compress) busy_history)"
    using busy_splits(5) by (simp add: small_compress_def)
  with compact_keeps_exchanges [OF ok r, of "last busy_history"] m r show ?thesis by auto
qed

text \<open>The engine's own insertion before a compaction breaks this: with a tool result right
  before the user's latest message the inserted text (the file ledger, say) comes between the
  call and its result, and the window of recent messages carries it into the new context,
  where the result no longer follows its call.\<close>

theorem injection_splits_exchange:
  "history_ok busy_history \<and>
   (case fst (Compact summarise (\<lambda>ws. []) (\<lambda>d w. (None, w)) id small_compress (injectPreCompactContext busy_history ''[FileLedger]'') ()) of
      Inr r \<Rightarrow> \<not> history_ok (cr_Messages r) \<and> NewAssistantMessage [text_block ''[FileLedger]''] [] [] \<in> set (cr_Messages r)
    | Inl e \<Rightarrow> False)"
proof -
  let ?ms = busy_injected
  obtain r md where r: "Compact summarise (\<lambda>ws. []) (\<lambda>d w. (None, w)) id small_compress ?ms () = (Inr r, ())"
    and c: "cr_Messages r = compacted small_compress (splitMessages 10 ?ms) [last busy_history] md"
    using compact_demo [OF busy_splits(2)] busy_splits(3,6) by auto
  let ?rec = "[busy_history ! 1, busy_history ! 2, NewAssistantMessage [text_block ''[FileLedger]''] [] [], busy_history ! 3]"
  obtain pre where pre: "cr_Messages r = pre @ ?rec @ [last busy_history]"
    unfolding c compacted_def busy_splits(4)
    by (simp add: small_compress_def recentTokenLimit_def trimRecentWindow_def)
  have "\<not> follows {} (?rec @ [last busy_history])" "starts_clean (?rec @ [last busy_history])" by code_simp+
  then have "\<not> history_ok (cr_Messages r)" unfolding pre history_ok_def using follows_suffix by blast
  moreover have "history_ok busy_history" by code_simp
  ultimately show ?thesis using r by (simp add: pre busy_injected_def)
qed

lemma short_retry:
  "compressOnce 8192 (Inr \<lparr>se_Content = ''short'', se_Usage = u, se_Model = m, se_Finish = FinishStop\<rparr>) =
   Inr (''short'', [], u, m) \<and> summaryQualityWarnings ''short'' input trace \<noteq> []"
proof -
  have "\<not> blank ''short''" "extractSummary ''short'' = ''short''" "extractAnalysis ''short'' = []"
    "trim_space ''short'' = ''short''" by code_simp+
  then show ?thesis by (simp add: compressOnce_def summaryQualityWarnings_def Let_def missingSummarySections_def summaryCriticalSections_def has_prefix_def)
qed

text \<open>Where a summary has quality warnings and is asked for again, the usage of the first call
  is lost: neither the usage of the result nor that of the failed attempts contains it.\<close>

theorem quality_retry_loses_usage:
  "case fst (Compact (\<lambda>input n. (Inr \<lparr>se_Content = ''short'', se_Usage = (if n = 0 then u1 else u2), se_Model = ''m'', se_Finish = FinishStop\<rparr>, n + 1))
      (\<lambda>ws. []) (\<lambda>d w. (None, w)) id (small_compress\<lparr>cp_RetryOnMissing := True\<rparr>) busy_history (0 :: nat)) of
     Inr r \<Rightarrow> cr_Usage r = u2 \<and> cr_FailedUsage r = zero_usage
   | Inl e \<Rightarrow> False"
  using busy_splits(1) short_retry
  by (simp add: Compact_def Let_def small_compress_def eval_nat_numeral)

end
