(* ===== verification/Compaction.thy ===== *)
theory Compaction
  imports Compress RunTools
begin

text \<open>
  Commands inside the message list (\<open>agents/commands.go\<close>) and the check before each model call
  whether the context is to be compacted (\<open>maybeCompact\<close> of \<open>agents/agent_loop.go\<close>,
  \<open>renderCompactHandoff\<close> of \<open>agents/fileledger.go\<close>). The compressor is an interface of the source
  and a field of the environment here; the locale \<open>compressor\<close> states what the loop relies on.
  The expansion of the references in one text (\<open>agents/fileref.go\<close>) is the parameter \<open>ce_expand\<close>.
\<close>

section \<open>Commands\<close>

text \<open>
  \<open>cm_Skills\<close> loads a skill: the error, or the text of its instructions; \<open>None\<close> without a registry.
  A custom command acts outside the run. The results of a command are events.
\<close>

record command_env =
  cm_Compressor :: bool
  cm_Skills :: "(string \<Rightarrow> string + string) option"

definition parseCommand :: "message \<Rightarrow> string \<times> string" where
  "parseCommand m =
     (case find (\<lambda>c. ctype c = ContentTypeCommand) (m_content m) of
        None \<Rightarrow> ([], [])
      | Some c \<Rightarrow> (takeWhile (\<lambda>x. x \<noteq> CHR 0x0A) (ctext c), drop 1 (dropWhile (\<lambda>x. x \<noteq> CHR 0x0A) (ctext c))))"

definition load_argument :: "string \<Rightarrow> string option" where
  "load_argument args =
     (let a = trim_space args in
      if has_prefix a ''load '' \<and> \<not> blank (drop 5 a) then Some (trim_space (drop 5 a)) else None)"

definition executeCommand :: "command_env \<Rightarrow> message \<Rightarrow> agent_context \<Rightarrow> message option \<times> agent_context" where
  "executeCommand env m ac =
     (case parseCommand m of (name, args) \<Rightarrow>
        if name = ''compact'' then (None, if cm_Compressor env then ac\<lparr>ac_forceCompact := True\<rparr> else ac)
        else if name = ''clear'' then (None, ac\<lparr>ac_forceClear := True\<rparr>)
        else if name = ''skills'' then
          (case cm_Skills env of None \<Rightarrow> (None, ac)
           | Some load \<Rightarrow>
               (case load_argument args of None \<Rightarrow> (None, ac)
                | Some skill \<Rightarrow>
                    (case load skill of Inl e \<Rightarrow> (None, ac)
                     | Inr text \<Rightarrow>
                         (Some (NewSkillMessage (''Loaded skills (must be followed for the current task):'' @ [CHR 0x0A] @ text)), ac))))
        else (None, ac))"

fun injectCommands :: "command_env \<Rightarrow> message list \<Rightarrow> agent_context \<Rightarrow> message list \<times> agent_context" where
  "injectCommands env [] ac = ([], ac)"
| "injectCommands env (m # ms) ac =
     (if \<not> IsCommandMessage m
      then (case injectCommands env ms ac of (kept, ac') \<Rightarrow> (m # kept, ac'))
      else case executeCommand env m ac of
          (None, ac1) \<Rightarrow> injectCommands env ms ac1
        | (Some i, ac1) \<Rightarrow>
            (case injectCommands env ms (ac1\<lparr>ac_RunHistory := ac_RunHistory ac1 @ [i]\<rparr>) of (kept, ac') \<Rightarrow> (i # kept, ac')))"

section \<open>Compaction\<close>

record 'w compact_env =
  ce_Compressor :: "((int \<Rightarrow> int \<Rightarrow> bool) \<times> (message list \<Rightarrow> 'w \<Rightarrow> ((err \<times> usage) + compress_result) \<times> 'w)) option"
  ce_now :: "'w \<Rightarrow> int"
  ce_PreCompact :: "('w \<Rightarrow> string option) option"
  ce_TaskState :: "('w \<Rightarrow> string) option"
  ce_expand :: "string \<Rightarrow> string"
  ce_margin :: "int \<Rightarrow> int"
  ce_budget :: int

definition callPreCompact :: "('w \<Rightarrow> string option) \<Rightarrow> 'w \<Rightarrow> string" where
  "callPreCompact h w = (case h w of Some s \<Rightarrow> s | None \<Rightarrow> [])"

definition todo_snapshot :: "agent_context \<Rightarrow> string" where
  "todo_snapshot ac = ''[TodoSnapshot] (authoritative session task list)'' @ [CHR 0x0A] @ todo_List (ac_Todo ac)"

definition task_state :: "'w compact_env \<Rightarrow> 'w \<Rightarrow> string" where
  "task_state env w = (case ce_TaskState env of None \<Rightarrow> [] | Some f \<Rightarrow> f w)"

definition inject_unless_empty :: "string \<Rightarrow> message list \<Rightarrow> message list" where
  "inject_unless_empty s ms = (if s = [] then ms else injectPreCompactContext ms s)"

definition expand_message :: "(string \<Rightarrow> string) \<Rightarrow> message \<Rightarrow> message" where
  "expand_message f m =
     (case m_content m of
        [c] \<Rightarrow> if m_role m = User \<and> ctype c = ContentTypeText \<and> f (ctext c) \<noteq> ctext c
               then m\<lparr>m_content := [text_block (f (ctext c))]\<rparr> else m
      | _ \<Rightarrow> m)"

definition expandUserRefsInMessages :: "(string \<Rightarrow> string) \<Rightarrow> message list \<Rightarrow> message list" where
  "expandUserRefsInMessages f = map (expand_message f)"

definition expand_from :: "(string \<Rightarrow> string) \<Rightarrow> int \<Rightarrow> message list \<Rightarrow> message list" where
  "expand_from f mark ms =
     (let k = nat mark in
      if k < length ms then take k ms @ expandUserRefsInMessages f (drop k ms) else ms)"

text \<open>The messages handed to the compressor: the context with up to four insertions.\<close>

definition compact_input :: "'w compact_env \<Rightarrow> loop_config \<Rightarrow> agent_context \<Rightarrow> 'w \<Rightarrow> message list" where
  "compact_input env cfg ac w =
     (let m1 = (case ce_PreCompact env of None \<Rightarrow> ac_Messages ac
                | Some h \<Rightarrow> inject_unless_empty (callPreCompact h w) (ac_Messages ac));
          m2 = inject_unless_empty (file_render (ac_fileLedger ac)) m1;
          m3 = expand_from (ce_expand env) (ac_inputMark ac) m2;
          m4 = (if \<not> lc_TodoResetOnCompact cfg \<and> todo_Items (ac_Todo ac) \<noteq> [] then injectPreCompactContext m3 (todo_snapshot ac) else m3)
      in inject_unless_empty (task_state env w) m4)"

definition line_before :: "string \<Rightarrow> string" where
  "line_before s = (if s = [] then [] else CHR 0x0A # s)"

definition renderCompactHandoff :: "'w compact_env \<Rightarrow> loop_config \<Rightarrow> agent_context \<Rightarrow> 'w \<Rightarrow> string" where
  "renderCompactHandoff env cfg ac w =
     lit_handoff_head @
     line_before (file_render (ac_fileLedger ac)) @
     line_before (task_state env w) @
     (if \<not> lc_TodoResetOnCompact cfg \<and> todo_Items (ac_Todo ac) \<noteq> [] then line_before (todo_snapshot ac) else []) @
     line_before (failure_render (ac_failures ac)) @
     [CHR 0x0A] @ ''</system-reminder>''"

definition compact_todo_message :: "string \<Rightarrow> message" where
  "compact_todo_message snapshot = NewSystemMessage
     (''<system-reminder>Session todos were cleared on compaction. Snapshot of the todo list before compaction (recreate with todo_add / todo_update if your plan needs them):'' @
      [CHR 0x0A] @ snapshot @ [CHR 0x0A] @ ''</system-reminder>'')"

text \<open>What a compaction that succeeded does to the context.\<close>

definition adopt_compaction ::
  "'w compact_env \<Rightarrow> loop_config \<Rightarrow> compress_result \<Rightarrow> agent_context \<Rightarrow> 'w \<Rightarrow> agent_context" where
  "adopt_compaction env cfg r ac w =
     (let handoff = renderCompactHandoff env cfg ac w;
          hm = (if lc_HandoffAsUser cfg then NewUserMessage [text_block handoff] else NewSystemMessage handoff);
          ms = cr_Messages r;
          reset = lc_TodoResetOnCompact cfg \<and> todo_Items (ac_Todo ac) \<noteq> [];
          est = observe (u_input (cr_Usage r)) (ac_est ac);
          ac1 = ac\<lparr>ac_Messages := ms @ [hm] @ (if reset then [compact_todo_message (todo_List (ac_Todo ac))] else []),
                  ac_inputMark := int (length ms),
                  ac_Todo := (if reset then todo_Clear (ac_Todo ac) else ac_Todo ac),
                  ac_slim := map_option slim_reset (ac_slim ac), ac_est := est\<rparr>;
          ac2 = addUsage (cr_Usage r) ac1
      in if usage_IsZero (cr_FailedUsage r) then ac2 else addUsage (cr_FailedUsage r) ac2)"

datatype compaction = NoCompaction | CompactionFailed err | Compacted compress_result

definition maybeCompact ::
  "'w compact_env \<Rightarrow> loop_config \<Rightarrow> bool \<Rightarrow> agent_context \<times> 'w \<Rightarrow> compaction \<times> agent_context \<times> 'w" where
  "maybeCompact env cfg forced s =
     (case s of (ac, w) \<Rightarrow>
        case ce_Compressor env of
          None \<Rightarrow> (NoCompaction, ac, w)
        | Some (should, compact) \<Rightarrow>
            if \<not> forced \<and> 0 < lc_CompactBackoff cfg \<and>
               (case ac_compactBackoffUntil ac of None \<Rightarrow> False | Some t \<Rightarrow> ce_now env w < t)
            then (NoCompaction, ac, w)
            else
              let ms = compact_input env cfg ac w in
              if \<not> forced \<and> \<not> should (ce_margin env (estimate ms (ac_est ac))) (ce_budget env)
              then (NoCompaction, ac, w)
              else case compact ms w of
                  (Inl (e, u), w1) \<Rightarrow>
                    (let ac1 = (if 0 < lc_CompactBackoff cfg
                         then ac\<lparr>ac_compactBackoffUntil := Some (ce_now env w1 + lc_CompactBackoff cfg)\<rparr> else ac)
                     in (CompactionFailed e, if usage_IsZero u then ac1 else addUsage u ac1, w1))
                | (Inr r, w1) \<Rightarrow> (Compacted r, adopt_compaction env cfg r ac w1, w1))"

section \<open>A compaction keeps the exchanges of the context\<close>

lemma expand_message_simps [simp]:
  "m_role (expand_message f m) = m_role m" "m_calls (expand_message f m) = m_calls m"
  "m_call_id (expand_message f m) = m_call_id m"
  by (auto simp: expand_message_def split: list.split)

lemma expand_message_kind [simp]:
  "IsCommandMessage (expand_message f m) = IsCommandMessage m" "isSummaryMessage (expand_message f m) = isSummaryMessage m"
  by (auto simp: expand_message_def IsCommandMessage_def isSummaryMessage_def text_block_def split: list.split)

text \<open>The message before the last block of user messages is not a tool result.\<close>

definition quiet_tail :: "message list \<Rightarrow> bool" where
  "quiet_tail ms \<longleftrightarrow> (case dropWhile (\<lambda>m. m_role m = User) (rev ms) of [] \<Rightarrow> True | m # _ \<Rightarrow> m_role m \<noteq> Tool)"

lemma quiet_tail_cases:
  obtains (users) "\<forall>m \<in> set ms. m_role m = User"
  | (before) xs m us where "ms = xs @ m # us" "m_role m \<noteq> User" "\<forall>u \<in> set us. m_role u = User"
      "quiet_tail ms \<longleftrightarrow> m_role m \<noteq> Tool"
proof (cases "dropWhile (\<lambda>m. m_role m = User) (rev ms)")
  case Nil
  then have "\<forall>m \<in> set ms. m_role m = User" by (simp add: dropWhile_eq_Nil_conv)
  then show thesis by (rule users)
next
  case (Cons m r)
  define us where "us = rev (takeWhile (\<lambda>m. m_role m = User) (rev ms))"
  have "rev ms = takeWhile (\<lambda>m. m_role m = User) (rev ms) @ m # r"
    using takeWhile_dropWhile_id [of "\<lambda>m. m_role m = User" "rev ms"] Cons by simp
  then have "ms = rev r @ m # us" unfolding us_def by (metis append.assoc append_Cons append_Nil rev.simps(2) rev_append rev_rev_ident)
  moreover have "m_role m \<noteq> User" using hd_dropWhile [of "\<lambda>m. m_role m = User" "rev ms"] Cons by simp
  moreover have "\<forall>u \<in> set us. m_role u = User" by (auto simp: us_def dest: set_takeWhileD)
  ultimately show thesis using before Cons by (simp add: quiet_tail_def)
qed

lemma inject_split:
  assumes "ms = xs @ m # us" "m_role m \<noteq> User" "\<forall>u \<in> set us. m_role u = User"
  shows "injectPreCompactContext ms t =
    (if xs = [] \<and> m_role m = System then m # NewAssistantMessage [text_block t] [] [] # us
     else xs @ NewAssistantMessage [text_block t] [] [] # m # us)"
proof -
  have tw: "takeWhile (\<lambda>m. m_role m = User) (rev us @ m # rev xs) = rev us"
    using assms(2,3) by (simp add: takeWhile_append)
  show ?thesis by (simp add: injectPreCompactContext_def Let_def assms(1) tw)
qed

lemma inject_keeps:
  assumes "history_ok ms" "quiet_tail ms"
  shows "history_ok (injectPreCompactContext ms t) \<and> quiet_tail (injectPreCompactContext ms t)"
proof -
  define i where "i = NewAssistantMessage [text_block t] [] []"
  have i: "m_role i = Assistant" "m_calls i = []" "\<not> isSummaryMessage i" by (simp_all add: i_def isSummaryMessage_def constructor_defs)
  have hi: "history_ok [i]" using i by (simp add: history_ok_def)
  show ?thesis
  proof (cases rule: quiet_tail_cases [of ms])
    case users
    then have tw: "takeWhile (\<lambda>m. m_role m = User) (rev ms) = rev ms" by (simp add: takeWhile_eq_all_conv)
    have "injectPreCompactContext ms t =
      (let pos = (if ms \<noteq> [] \<and> m_role (ms ! 0) = System then 1 else 0) in take pos ms @ [i] @ drop pos ms)"
      by (simp add: injectPreCompactContext_def tw i_def)
    then have e: "injectPreCompactContext ms t = i # ms" using users by (cases ms) simp_all
    have "starts_clean ms" using users by (cases ms) auto
    then have "history_ok (i # ms)" using history_ok_append [OF hi assms(1)] by simp
    moreover have "dropWhile (\<lambda>m. m_role m = User) (rev ms @ [i]) = [i]"
      using users i by (subst dropWhile_append2) auto
    then have "quiet_tail (i # ms)" using i by (simp add: quiet_tail_def)
    ultimately show ?thesis by (simp add: e)
  next
    case (before xs m us)
    then have m: "m_role m \<noteq> Tool" using assms(2) by simp
    note e = inject_split [OF before(1-3), of t, folded i_def]
    have dw: "dropWhile (\<lambda>m. m_role m = User) (rev us @ ys) = dropWhile (\<lambda>m. m_role m = User) ys" for ys
      using before(3) by (intro dropWhile_append2) simp
    have clean: "starts_clean (m # us)" "starts_clean us" using m before(3) by (cases us; simp)+
    have f: "follows {} ms" and w: "\<forall>x \<in> set ms. (m_calls x \<noteq> [] \<longrightarrow> m_role x = Assistant) \<and> (isSummaryMessage x \<longrightarrow> m_role x = System)"
      using assms(1) by (auto simp: history_ok_def)
    have fx: "follows {} xs" using follows_prefix [of "{}" xs "m # us"] f before(1) by simp
    have "follows {} (xs @ m # us)" using f before(1) by simp
    then have fm: "follows {} (m # us)" by (rule follows_suffix [OF _ clean(1)])
    have fu: "follows {} us" using before(3) by (intro follows_plain) auto
    show ?thesis
    proof (cases "xs = [] \<and> m_role m = System")
      case True
      have wm: "(m_calls m \<noteq> [] \<longrightarrow> m_role m = Assistant) \<and> (isSummaryMessage m \<longrightarrow> m_role m = System)"
        using w by (simp add: before(1))
      have wu: "\<forall>x \<in> set us. (m_calls x \<noteq> [] \<longrightarrow> m_role x = Assistant) \<and> (isSummaryMessage x \<longrightarrow> m_role x = System)"
        using w by (simp add: before(1))
      have hm: "history_ok [m]" using True wm by (simp add: history_ok_def)
      have "history_ok us" using fu wu by (simp add: history_ok_def)
      then have "history_ok ([i] @ us)" by (rule history_ok_append [OF hi _ clean(2)])
      then have "history_ok ([m] @ i # us)" using i by (intro history_ok_append [OF hm]) simp_all
      moreover have "quiet_tail (m # i # us)" using i by (simp add: quiet_tail_def dw)
      ultimately show ?thesis using True by (simp add: e)
    next
      case False
      have "\<forall>x \<in> set xs \<union> set (m # us). (m_calls x \<noteq> [] \<longrightarrow> m_role x = Assistant) \<and> (isSummaryMessage x \<longrightarrow> m_role x = System)"
        using w unfolding before(1) by simp
      then have hx: "history_ok xs" and hu: "history_ok (m # us)" using fx fm unfolding history_ok_def by blast+
      have "history_ok ([i] @ m # us)" by (rule history_ok_append [OF hi hu clean(1)])
      then have "history_ok (xs @ i # m # us)" using i by (intro history_ok_append [OF hx]) simp_all
      moreover have "quiet_tail (xs @ i # m # us)" using before(2) m by (simp add: quiet_tail_def dw)
      ultimately show ?thesis unfolding e if_not_P [OF False] by blast
    qed
  qed
qed

lemma expand_keeps:
  assumes "history_ok ms" "quiet_tail ms"
  shows "history_ok (expand_from f k ms) \<and> quiet_tail (expand_from f k ms)"
proof -
  have e: "expand_from f k ms = take (nat k) ms @ map (expand_message f) (drop (nat k) ms)"
    by (simp add: expand_from_def expandUserRefsInMessages_def Let_def)
  have m: "follows C (map (expand_message f) ys) = follows C ys" for C ys
    by (induction ys arbitrary: C) auto
  have f: "follows C (xs @ map (expand_message f) ys) = follows C (xs @ ys)" for C xs ys
    by (induction xs arbitrary: C) (auto simp: m)
  have "map m_role (rev (expand_from f k ms)) = map m_role (rev ms)"
  proof -
    have "map m_role (expand_from f k ms) = map m_role (take (nat k) ms) @ map m_role (drop (nat k) ms)" by (simp add: e comp_def)
    then have "map m_role (expand_from f k ms) = map m_role ms" by (metis append_take_drop_id map_append)
    then show ?thesis by (metis rev_map)
  qed
  then have "map m_role (dropWhile (\<lambda>m. m_role m = User) (rev (expand_from f k ms))) =
      map m_role (dropWhile (\<lambda>m. m_role m = User) (rev ms))"
  proof -
    have "map m_role (dropWhile (\<lambda>m. m_role m = User) xs) = dropWhile (\<lambda>r. r = User) (map m_role xs)" for xs :: "message list"
      by (simp add: dropWhile_map comp_def)
    then show ?thesis using \<open>map m_role (rev (expand_from f k ms)) = map m_role (rev ms)\<close> by simp
  qed
  moreover have "\<forall>m \<in> set (take (nat k) ms) \<union> set (drop (nat k) ms).
      (m_calls m \<noteq> [] \<longrightarrow> m_role m = Assistant) \<and> (isSummaryMessage m \<longrightarrow> m_role m = System)"
    using assms(1) by (auto simp: history_ok_def dest: in_set_takeD in_set_dropD)
  ultimately have q: "map m_role (dropWhile (\<lambda>m. m_role m = User) (rev (expand_from f k ms))) =
      map m_role (dropWhile (\<lambda>m. m_role m = User) (rev ms))"
    and w: "\<forall>m \<in> set (expand_from f k ms). (m_calls m \<noteq> [] \<longrightarrow> m_role m = Assistant) \<and> (isSummaryMessage m \<longrightarrow> m_role m = System)"
    by (simp_all add: e ball_Un)
  have "quiet_tail (expand_from f k ms)"
    using q assms(2) unfolding quiet_tail_def
    by (cases "dropWhile (\<lambda>m. m_role m = User) (rev (expand_from f k ms))";
        cases "dropWhile (\<lambda>m. m_role m = User) (rev ms)") (simp_all del: dropWhile_eq_Nil_conv)
  moreover have "follows {} (expand_from f k ms)" using assms(1) unfolding e f by (simp add: history_ok_def)
  ultimately show ?thesis using w by (simp add: history_ok_def)
qed


text \<open>
  What the loop relies on in a compressor: it keeps the tool exchanges of its input together. The
  compressor of \<open>agents/llm_compressor.go\<close> does so (\<open>compacted_ok\<close>).
\<close>

locale compressor =
  fixes compact :: "message list \<Rightarrow> 'w \<Rightarrow> ((err \<times> usage) + compress_result) \<times> 'w"
  assumes keeps_exchanges: "history_ok ms \<Longrightarrow> compact ms w = (Inr r, w') \<Longrightarrow> history_ok (cr_Messages r)"
begin

lemma adopted_ok:
  assumes "history_ok ms" "compact ms w = (Inr r, w1)"
  shows "history_ok (ac_Messages (adopt_compaction env cfg r ac w2))"
proof -
  define tail where "tail = drop (length (cr_Messages r)) (ac_Messages (adopt_compaction env cfg r ac w2))"
  have e: "ac_Messages (adopt_compaction env cfg r ac w2) = cr_Messages r @ tail"
    by (simp add: tail_def adopt_compaction_def Let_def addUsage_def)
  have "\<forall>m \<in> set tail. m_role m \<noteq> Tool \<and> m_calls m = [] \<and> (isSummaryMessage m \<longrightarrow> m_role m = System)"
    by (auto simp: tail_def adopt_compaction_def Let_def addUsage_def compact_todo_message_def isSummaryMessage_def
        constructor_defs split: if_splits)
  from history_ok_plain [OF this] history_ok_append [OF keeps_exchanges [OF assms]] show ?thesis by (simp add: e)
qed

lemma compaction_keeps:
  assumes "ce_Compressor env = Some (should, compact)" "history_ok (compact_input env cfg ac w)" "history_ok (ac_Messages ac)"
  shows "history_ok (ac_Messages (fst (snd (maybeCompact env cfg forced (ac, w)))))"
  using assms adopted_ok [OF assms(2)]
  by (auto simp: maybeCompact_def Let_def addUsage_def split: prod.split sum.split)

end

interpretation llm: compressor "Compact call feedback wait rnd cfg"
proof
  fix ms w r w'
  assume ok: "history_ok ms" and c: "Compact call feedback wait rnd cfg ms w = (Inr r, w')"
  show "history_ok (cr_Messages r)"
    using Compact_messages [OF c] compacted_ok [OF ok] by (auto split: if_splits)
qed

lemma compact_input_ok:
  assumes "history_ok (ac_Messages ac)" "quiet_tail (ac_Messages ac)"
  shows "history_ok (compact_input env cfg ac w)"
proof -
  have i: "history_ok (inject_unless_empty t ms) \<and> quiet_tail (inject_unless_empty t ms)" if "history_ok ms \<and> quiet_tail ms" for t ms
    using inject_keeps that by (simp add: inject_unless_empty_def)
  define m1 where "m1 = (case ce_PreCompact env of None \<Rightarrow> ac_Messages ac
    | Some h \<Rightarrow> inject_unless_empty (callPreCompact h w) (ac_Messages ac))"
  define m3 where "m3 = expand_from (ce_expand env) (ac_inputMark ac) (inject_unless_empty (file_render (ac_fileLedger ac)) m1)"
  have "history_ok m1 \<and> quiet_tail m1" using assms i by (simp add: m1_def split: option.split)
  then have m3: "history_ok m3 \<and> quiet_tail m3" unfolding m3_def using i expand_keeps by blast
  then have "history_ok (if c then injectPreCompactContext m3 t else m3) \<and> quiet_tail (if c then injectPreCompactContext m3 t else m3)" for c t
    using inject_keeps by simp
  with i show ?thesis unfolding compact_input_def Let_def m1_def [symmetric] m3_def [symmetric] by blast
qed

text \<open>C32. Compaction keeps the run's context in order with everything the engine inserts before it
  and appends after it, provided that the message before the last block of user messages is no
  tool result; a compaction that is refused or fails leaves the messages as they are.\<close>

theorem compaction_keeps_context:
  assumes "history_ok (ac_Messages ac)" and "quiet_tail (ac_Messages ac)"
    and "ce_Compressor env = Some (should, Compact call feedback wait rnd ccfg)"
  shows "history_ok (ac_Messages (fst (snd (maybeCompact env cfg forced (ac, w))))) \<and>
    ((\<nexists>r. fst (maybeCompact env cfg forced (ac, w)) = Compacted r) \<longrightarrow>
       ac_Messages (fst (snd (maybeCompact env cfg forced (ac, w)))) = ac_Messages ac)"
proof
  show "history_ok (ac_Messages (fst (snd (maybeCompact env cfg forced (ac, w)))))"
    by (rule llm.compaction_keeps [OF assms(3) compact_input_ok [OF assms(1,2)] assms(1)])
  show "(\<nexists>r. fst (maybeCompact env cfg forced (ac, w)) = Compacted r) \<longrightarrow>
       ac_Messages (fst (snd (maybeCompact env cfg forced (ac, w)))) = ac_Messages ac"
    by (auto simp: maybeCompact_def Let_def addUsage_def split: prod.split sum.split option.split)
qed

definition calm_context :: agent_context where
  "calm_context = (new_context (retry_config 1) None None)
     \<lparr>ac_Messages := [NewSystemMessage ''s'', NewUserMessage [text_block ''fix it''],
        NewAssistantMessage [text_block ''done''] [] [], NewUserMessage [text_block ''and b'']]\<rparr>"

definition llm_env :: "unit compact_env" where
  "llm_env = \<lparr>ce_Compressor = Some (ShouldCompact, Compact summarise (\<lambda>ws. []) (\<lambda>d w. (None, w)) id small_compress),
     ce_now = (\<lambda>w. 0), ce_PreCompact = None, ce_TaskState = None, ce_expand = id, ce_margin = id, ce_budget = 1\<rparr>"

theorem compaction_keeps_context_witness:
  "history_ok (ac_Messages (fst (snd (maybeCompact llm_env (retry_config 1) True (calm_context, ())))))"
proof -
  have "history_ok (ac_Messages calm_context)" "quiet_tail (ac_Messages calm_context)" by code_simp+
  then show ?thesis
    using compaction_keeps_context [of calm_context llm_env ShouldCompact summarise "\<lambda>ws. []" "\<lambda>d w. (None, w)" id small_compress
        "retry_config 1" True "()"]
    by (simp add: llm_env_def)
qed

end
