(* ===== verification/AgentLoop.thy ===== *)
theory AgentLoop
  imports Compaction
begin

text \<open>
  The main loop of a run (\<open>RunStream\<close>, \<open>streamOnce\<close>, \<open>translate\<close> and \<open>toolSchemas\<close> of
  \<open>agents/agent_loop.go\<close>). The provider, the tool engine, the compressor, the hooks and the
  host's callbacks are parameters that act on a world \<open>'w\<close>. What other goroutines do to the run
  (interrupting it, changing the shared todo list) is read from the world by \<open>observe\<close> at the
  top of each iteration, after each model call and at the end. Events to the handler, the
  artifacts of the run and time stamps are not modelled.
\<close>

section \<open>One model call\<close>

record llm_end =
  en_Calls :: "tool_call list"
  en_Finish :: finish_reason
  en_Content :: string
  en_Reasoning :: string
  en_Signature :: string
  en_Usage :: usage
  en_RequestId :: string
  en_RawFinish :: string

datatype stream_event =
    LLMStartEvent string
  | LLMContentDelta string string int
  | LLMReasoningDelta string string int
  | LLMToolCallStart string int string
  | LLMToolCallDelta string int string string
  | LLMEndEvent llm_end

text \<open>
  What a call of \<open>Provider.Stream\<close> comes to: the events its handler took before it returned, the
  error, and the cause of the cancellation of its context where there is one.
\<close>

record stream_outcome =
  so_events :: "stream_event list"
  so_err :: "err option"
  so_cause :: "err option"
  so_self :: bool

record schema =
  sm_Name :: string
  sm_Body :: string

record request =
  rq_Model :: string
  rq_MaxTokens :: int
  rq_Messages :: "message list"
  rq_Tools :: "schema list"

text \<open>\<open>Poll\<close> is \<open>re_Poll\<close>; \<open>re_Stop\<close> yields \<open>None\<close> where the hook panics, else whether to go on and why.\<close>

record 'w run_env =
  re_commands :: command_env
  re_compact :: "'w compact_env"
  re_engine :: bool
  re_tools :: "'w tool_env"
  re_schemas :: "schema list option"
  re_Stream :: "request \<Rightarrow> 'w \<Rightarrow> stream_outcome \<times> 'w"
  re_wait :: "int \<Rightarrow> 'w \<Rightarrow> 'w"
  re_rnd :: "int \<Rightarrow> int"
  re_Poll :: "('w \<Rightarrow> message list \<times> 'w) option"
  re_OnTurn :: "agent_context \<Rightarrow> 'w \<Rightarrow> 'w"
  re_Stop :: "(string \<Rightarrow> int \<Rightarrow> 'w \<Rightarrow> (bool \<times> string) option \<times> 'w) option"
  re_flags :: "'w \<Rightarrow> bool \<times> bool \<times> bool"
  re_todo :: "'w \<Rightarrow> todo_store \<Rightarrow> todo_store"
  re_arg_path :: "string \<Rightarrow> string"
  re_arg_lines :: "string \<Rightarrow> (int \<times> int) option"
  re_command_of :: "string \<Rightarrow> string"
  re_grow :: "nat \<Rightarrow> nat \<Rightarrow> nat"
  re_fs_ok :: bool
  re_run_id :: string

definition observe_run :: "'w run_env \<Rightarrow> agent_context \<times> 'w \<Rightarrow> agent_context \<times> 'w" where
  "observe_run env s =
     (case (s, re_flags env (snd s)) of ((ac, w), (a, c, st)) \<Rightarrow>
        (ac\<lparr>ac_aborted := ac_aborted ac \<or> a, ac_canceled := ac_canceled ac \<or> a \<or> c,
            ac_stopped := ac_stopped ac \<or> st, ac_Todo := re_todo env w (ac_Todo ac)\<rparr>, w))"

text \<open>\<open>toolSchemas\<close>: the tools that the mode allows, the read-only ones first.\<close>

definition visible_tools :: "'w run_env \<Rightarrow> tool_mode option \<Rightarrow> schema list \<Rightarrow> schema list" where
  "visible_tools env md = filter (\<lambda>s. case te_GetTool (re_tools env) (sm_Name s) of None \<Rightarrow> False | Some t \<Rightarrow> allowed md t)"

definition schema_read_only :: "'w run_env \<Rightarrow> schema \<Rightarrow> bool" where
  "schema_read_only env s = (case te_GetTool (re_tools env) (sm_Name s) of None \<Rightarrow> False | Some t \<Rightarrow> t_read_only t)"

definition toolSchemas :: "'w run_env \<Rightarrow> tool_mode option \<Rightarrow> schema list" where
  "toolSchemas env md =
     (if \<not> re_engine env then []
      else case re_schemas env of None \<Rightarrow> []
        | Some ss \<Rightarrow>
            (let vis = visible_tools env md ss in
             filter (schema_read_only env) vis @ filter (\<lambda>s. \<not> schema_read_only env s) vis))"

fun translate :: "stream_event \<Rightarrow> agent_context \<times> round_result option \<Rightarrow> agent_context \<times> round_result option" where
  "translate (LLMEndEvent ev) (ac, r) =
     (let fr = (if en_Finish ev = FinishOther [] then FinishStop else en_Finish ev);
          ac1 = addUsage (en_Usage ev) ac
      in (if 0 < u_input (en_Usage ev) then ac1\<lparr>ac_est := observe (u_input (en_Usage ev)) (ac_est ac1)\<rparr> else ac1,
          Some \<lparr>rd_calls = en_Calls ev, rd_finish = fr, rd_content = en_Content ev,
                rd_reasoning = en_Reasoning ev, rd_signature = en_Signature ev\<rparr>))"
| "translate _ s = s"

definition user_text :: "string \<Rightarrow> message" where
  "user_text t = NewUserMessage [text_block t]"

text \<open>The context in which references are expanded, and the request with its two transient reminders.\<close>

definition expand_inputs :: "'w run_env \<Rightarrow> agent_context \<Rightarrow> agent_context" where
  "expand_inputs env ac =
     (if nat (ac_inputMark ac) < length (ac_Messages ac)
      then ac\<lparr>ac_Messages := expand_from (ce_expand (re_compact env)) (ac_inputMark ac) (ac_Messages ac),
              ac_inputMark := int (length (ac_Messages ac))\<rparr>
      else ac)"

definition goal_due :: "loop_config \<Rightarrow> agent_context \<Rightarrow> bool" where
  "goal_due cfg ac \<longleftrightarrow> 0 < lc_GoalRounds cfg \<and> lc_GoalRounds cfg \<le> ac_goalRounds ac \<and> \<not> ac_goalInjected ac"

definition request_messages :: "loop_config \<Rightarrow> agent_context \<Rightarrow> message list" where
  "request_messages cfg ac =
     ac_Messages ac @
     (if goal_due cfg ac then [user_text lit_goal_reminder] else []) @
     (if ac_postToolNudgePending ac then [user_text lit_continue_nudge] else [])"

definition begin_request :: "loop_config \<Rightarrow> agent_context \<Rightarrow> agent_context" where
  "begin_request cfg ac =
     ac\<lparr>ac_goalInjected := ac_goalInjected ac \<or> goal_due cfg ac, ac_postToolNudgePending := False,
        ac_est := beginRequest (int (length (request_messages cfg ac))) (ac_est ac)\<rparr>"

text \<open>The watchdogs cancel the call's context; their cause replaces the error that this leads to.\<close>

definition stream_error :: "stream_outcome \<Rightarrow> err option" where
  "stream_error o1 =
     (case (so_err o1, so_cause o1) of
        (Some e, Some (StreamStallError d c)) \<Rightarrow> Some (SetCause (so_self o1) (Some e) (StreamStallError d c))
      | (_, Some (FirstChunkTimeoutError d c)) \<Rightarrow>
          if so_events o1 = [] then Some (SetCause (so_self o1) (so_err o1) (FirstChunkTimeoutError d c)) else so_err o1
      | (e, _) \<Rightarrow> e)"

definition streamOnce ::
  "'w run_env \<Rightarrow> loop_config \<Rightarrow> agent_context \<times> 'w \<Rightarrow> (round_result option \<times> err option) \<times> agent_context \<times> 'w" where
  "streamOnce env cfg s =
     (case s of (ac0, w) \<Rightarrow>
        let ac = expand_inputs env ac0;
            rq = \<lparr>rq_Model = lc_Model cfg, rq_MaxTokens = lc_MaxTokens cfg, rq_Messages = request_messages cfg ac,
                  rq_Tools = toolSchemas env (ac_Mode ac)\<rparr>
        in case re_Stream env rq w of (o1, w1) \<Rightarrow>
          (case fold translate (so_events o1) (begin_request cfg ac, None) of
             (ac1, r) \<Rightarrow> ((r, stream_error o1), observe_run env (ac1, w1))))"

definition wait_retry :: "'w run_env \<Rightarrow> int \<Rightarrow> agent_context \<times> 'w \<Rightarrow> bool \<times> agent_context \<times> 'w" where
  "wait_retry env d s =
     (let s1 = observe_run env (fst s, re_wait env d (snd s)) in (ac_canceled (fst s1), s1))"

definition overflow_keywords :: "string list" where
  "overflow_keywords = [''context length'', ''maximum context'', ''context window'', ''too many tokens'', ''input length'', ''token limit'']"

definition isContextOverflowError :: "err \<Rightarrow> bool" where
  "isContextOverflowError e \<longleftrightarrow>
     ClassifyError e = KindContextExceeded \<or> list_ex (contains (to_lower (err_text e))) overflow_keywords"

section \<open>The parts of an iteration\<close>

record 'w run_state =
  rs_ac :: agent_context
  rs_w :: 'w
  rs_content :: string
  rs_reasoning :: string
  rs_calls :: "tool_call list"

datatype flow = Continue | Break | Panic

definition append_messages :: "message list \<Rightarrow> agent_context \<Rightarrow> agent_context" where
  "append_messages ms ac = ac\<lparr>ac_Messages := ac_Messages ac @ ms\<rparr>"

definition append_history :: "message list \<Rightarrow> agent_context \<Rightarrow> agent_context" where
  "append_history ms ac = ac\<lparr>ac_RunHistory := ac_RunHistory ac @ ms\<rparr>"

definition onTurn :: "'w run_env \<Rightarrow> agent_context \<times> 'w \<Rightarrow> agent_context \<times> 'w" where
  "onTurn env s = (fst s, re_OnTurn env (fst s) (snd s))"

definition poll_top :: "'w run_env \<Rightarrow> agent_context \<times> 'w \<Rightarrow> agent_context \<times> 'w" where
  "poll_top env s =
     (case re_Poll env of
        None \<Rightarrow> s
      | Some p \<Rightarrow>
          (case p (snd s) of (inputs, w1) \<Rightarrow>
             if inputs = [] then (fst s, w1)
             else onTurn env ((append_messages inputs (fst s))\<lparr>ac_inputMark := int (length (ac_Messages (fst s)))\<rparr>, w1)))"

definition consume_commands :: "'w run_env \<Rightarrow> agent_context \<Rightarrow> agent_context" where
  "consume_commands env ac =
     (case injectCommands (re_commands env) (ac_Messages ac) ac of (ms, ac1) \<Rightarrow> ac1\<lparr>ac_Messages := ms\<rparr>)"

definition clear_context :: "agent_context \<Rightarrow> agent_context" where
  "clear_context ac =
     (let ms = (case ac_Messages ac of m # _ \<Rightarrow> if m_role m = System then [m] else [] | [] \<Rightarrow> [])
      in Stop (ac\<lparr>ac_forceClear := False, ac_Messages := ms, ac_inputMark := int (length ms)\<rparr>))"

definition merging :: "loop_config \<Rightarrow> bool" where
  "merging cfg \<longleftrightarrow> lc_Slim cfg \<noteq> None \<and> lc_MergePairs cfg"

text \<open>Stale results, old screenshots and repeated pairs of calls; \<open>None\<close> stands for a panic.\<close>

definition settle :: "loop_config \<Rightarrow> agent_context \<Rightarrow> agent_context option" where
  "settle cfg ac =
     (case ac_slim ac of
        None \<Rightarrow> Some ac
      | Some s \<Rightarrow>
          (case applyImageSlim (applyStale (s, ac_Messages ac)) of (s2, ms2) \<Rightarrow>
             let ac2 = ac\<lparr>ac_slim := Some s2, ac_Messages := ms2\<rparr> in
             if \<not> merging cfg then Some ac2
             else case mergeToolPairs (lc_MergeProtectRounds cfg) ms2 of
                 NoMerge \<Rightarrow> Some ac2
               | Merged ms3 \<Rightarrow> Some (ac2\<lparr>ac_slim := Some (slim_reset s2), ac_Messages := ms3\<rparr>)
               | MergePanic \<Rightarrow> None))"

definition model_round ::
  "'w run_env \<Rightarrow> loop_config \<Rightarrow> agent_context \<times> 'w \<Rightarrow> (err + round_result) \<times> llm_error list \<times> agent_context \<times> 'w" where
  "model_round env cfg = streamWithRetry (streamOnce env cfg) (wait_retry env) (re_rnd env) cfg"

definition reply_message :: "loop_config \<Rightarrow> round_result \<Rightarrow> tool_call list \<Rightarrow> message" where
  "reply_message cfg r calls =
     (NewAssistantMessageWithSignature [text_block (rd_content r)] (rd_reasoning r) (rd_signature r) calls)\<lparr>m_model := lc_Model cfg\<rparr>"

section \<open>A round without tool calls\<close>

definition maxStopHookBlocks :: int where "maxStopHookBlocks = 8"

definition pending_reminder :: "string \<Rightarrow> message" where
  "pending_reminder snap = NewSystemMessage
     (''<system-remind>Background tasks are still running (no final result yet):'' @ [CHR 0x0A] @ snap @ lit_pending_tail)"

definition todo_reminder :: "todo_store \<Rightarrow> message" where
  "todo_reminder s = NewSystemMessage
     (''<system-remind>'' @ [CHR 0x0A] @ ''You are about to finish, but the session todo list still has unfinished items:'' @ [CHR 0x0A] @
      renderUnfinishedTodos s @ lit_incomplete_tail)"

definition stop_reminder :: "int \<Rightarrow> string \<Rightarrow> message" where
  "stop_reminder n reason = NewSystemMessage
     (''<system-reminder>A Stop hook asked this turn to keep going ('' @ show_int n @ ''/'' @ show_int maxStopHookBlocks @ ''):'' @
      [CHR 0x0A] @ (if blank reason then ''the hook asked you to keep working on the current task'' else trim_space reason) @
      [CHR 0x0A] @ ''</system-reminder>'')"

definition interrupted :: "agent_context \<Rightarrow> bool" where
  "interrupted ac \<longleftrightarrow> ac_aborted ac \<or> ac_canceled ac"

text \<open>The hook at the natural end: whether to go on, the reason, the world.\<close>

definition callStop :: "'w run_env \<Rightarrow> round_result \<Rightarrow> agent_context \<times> 'w \<Rightarrow> (bool \<times> string) \<times> 'w" where
  "callStop env r s =
     (case re_Stop env of
        None \<Rightarrow> ((False, []), snd s)
      | Some h \<Rightarrow>
          (case h (rd_content r) (ac_Iteration (fst s)) (snd s) of
             (None, w1) \<Rightarrow> ((False, []), w1)
           | (Some c, w1) \<Rightarrow> (c, w1)))"

definition truncated :: "round_result \<Rightarrow> bool" where
  "truncated r \<longleftrightarrow> rd_finish r = FinishLength \<and> blank (rd_content r)"

definition end_round :: "'w run_env \<Rightarrow> loop_config \<Rightarrow> round_result \<Rightarrow> agent_context \<times> 'w \<Rightarrow> flow \<times> agent_context \<times> 'w" where
  "end_round env cfg r s =
     (if truncated r
      then (Break, (fst s)\<lparr>ac_Err := Some (OutputTruncatedError (lc_MaxTokens cfg) (int (length (rd_reasoning r))) (ac_sawText (fst s)))\<rparr>, snd s)
      else (Break, onTurn env s))"

definition stop_gate :: "'w run_env \<Rightarrow> loop_config \<Rightarrow> round_result \<Rightarrow> agent_context \<times> 'w \<Rightarrow> flow \<times> agent_context \<times> 'w" where
  "stop_gate env cfg r s =
     (if re_Stop env \<noteq> None \<and> \<not> interrupted (fst s) \<and> ac_stopHookBlocks (fst s) < maxStopHookBlocks
      then case callStop env r s of ((go, reason), w1) \<Rightarrow>
        if go
        then let n = ac_stopHookBlocks (fst s) + 1 in
          (Continue, onTurn env (append_messages [stop_reminder n reason] ((fst s)\<lparr>ac_stopHookBlocks := n\<rparr>), w1))
        else end_round env cfg r (fst s, w1)
      else end_round env cfg r s)"

definition todo_gate :: "'w run_env \<Rightarrow> loop_config \<Rightarrow> round_result \<Rightarrow> agent_context \<times> 'w \<Rightarrow> flow \<times> agent_context \<times> 'w" where
  "todo_gate env cfg r s =
     (if \<not> ac_todoGateUsed (fst s) \<and> \<not> interrupted (fst s) \<and> hasUnfinishedTodos (ac_Todo (fst s))
      then (Continue, onTurn env (append_messages [todo_reminder (ac_Todo (fst s))] ((fst s)\<lparr>ac_todoGateUsed := True\<rparr>), snd s))
      else stop_gate env cfg r s)"

definition pending_gate :: "'w run_env \<Rightarrow> loop_config \<Rightarrow> round_result \<Rightarrow> agent_context \<times> 'w \<Rightarrow> flow \<times> agent_context \<times> 'w" where
  "pending_gate env cfg r s =
     (let snap = task_state (re_compact env) (snd s) in
      if lc_PendingTasksNudge cfg \<and> ce_TaskState (re_compact env) \<noteq> None \<and> \<not> ac_pendingTasksNudged (fst s) \<and> snap \<noteq> []
      then (Continue, onTurn env (append_messages [pending_reminder snap] ((fst s)\<lparr>ac_pendingTasksNudged := True\<rparr>), snd s))
      else todo_gate env cfg r s)"

definition final_round :: "'w run_env \<Rightarrow> loop_config \<Rightarrow> round_result \<Rightarrow> agent_context \<times> 'w \<Rightarrow> flow \<times> agent_context \<times> 'w" where
  "final_round env cfg r s =
     (case s of (ac, w) \<Rightarrow>
        if rd_content r = [] \<and> lc_PostToolNudge cfg \<and> ac_afterTools ac \<and> \<not> ac_postToolNudgePending ac \<and> \<not> ac_postToolNudgeUsed ac
        then (Continue, ac\<lparr>ac_postToolNudgePending := True, ac_postToolNudgeUsed := True, ac_afterTools := False\<rparr>, w)
        else
          let ac1 = ac\<lparr>ac_afterTools := False\<rparr>; m = reply_message cfg r [] in
          case re_Poll env of
            Some p \<Rightarrow>
              (let ac2 = (if rd_content r \<noteq> [] then append_history [m] (append_messages [m] ac1) else ac1) in
               case p w of (inputs, w1) \<Rightarrow>
                 if inputs \<noteq> [] then (Continue, onTurn env (append_messages inputs ac2, w1))
                 else pending_gate env cfg r (ac2, w1))
          | None \<Rightarrow>
              pending_gate env cfg r
                (if rd_content r \<noteq> [] \<or> rd_reasoning r \<noteq> [] then append_history [m] ac1 else ac1, w))"

section \<open>A round with tool calls\<close>

text \<open>One result is written back; \<open>None\<close> where slimming does not return.\<close>

definition write_result :: "'w run_env \<Rightarrow> tool_call \<times> tool_result \<Rightarrow> agent_context \<Rightarrow> agent_context option" where
  "write_result env cr ac =
     (let ac1 = ac\<lparr>ac_fileLedger := recordFileOps (re_grow env) (re_arg_path env) (re_arg_lines env) (fst cr) (ac_fileLedger ac)\<rparr> in
      case ac_slim ac of
        None \<Rightarrow>
          (let m = NewToolMessageWithImages (tc_id (fst cr)) (r_result (snd cr))
               (filter (\<lambda>b. ctype b = ContentTypeImage) (r_blocks (snd cr)))
           in Some (append_history [m] (append_messages [m] ac1)))
      | Some sl \<Rightarrow>
          map_option (\<lambda>(sl1, ms). append_history [last ms] (ac1\<lparr>ac_slim := Some sl1, ac_Messages := ms\<rparr>))
            (write_back (re_arg_path env) (te_sha (re_tools env)) (re_fs_ok env) (re_run_id env) (sl, ac_Messages ac) cr))"

fun write_results :: "'w run_env \<Rightarrow> tool_result list \<Rightarrow> tool_call list \<Rightarrow> agent_context \<Rightarrow> agent_context option" where
  "write_results env rs [] ac = Some ac"
| "write_results env rs (tc # calls) ac =
     (case result_of rs (tc_id tc) of
        None \<Rightarrow> write_results env rs calls ac
      | Some r \<Rightarrow> Option.bind (write_result env (tc, r) ac) (write_results env rs calls))"

definition tool_round :: "'w run_env \<Rightarrow> loop_config \<Rightarrow> round_result \<Rightarrow> agent_context \<times> 'w \<Rightarrow> flow \<times> agent_context \<times> 'w" where
  "tool_round env cfg r s =
     (case runTools (re_engine env) (re_tools env) (rd_calls r) s of
        (Inr (Some rs), ac1, w1) \<Rightarrow>
          (let m = reply_message cfg r (rd_calls r);
               ac2 = append_history [m] (append_messages [m] (resetGoalAlignment (re_command_of env) (rd_calls r) rs ac1))
           in case write_results env rs (rd_calls r) ac2 of
               None \<Rightarrow> (Panic, ac2, w1)
             | Some ac3 \<Rightarrow> (Continue, onTurn env (ac3\<lparr>ac_afterTools := True\<rparr>, w1)))
      | (_, s1) \<Rightarrow> (Break, s1))"

section \<open>The loop\<close>

definition adopt_round :: "loop_config \<Rightarrow> round_result \<Rightarrow> agent_context \<Rightarrow> agent_context" where
  "adopt_round cfg r ac =
     recordGoalAlignmentLLMRound (lc_GoalRounds cfg)
       (if blank (rd_content r) then ac else ac\<lparr>ac_sawText := True\<rparr>)"

definition put :: "'w run_state \<Rightarrow> agent_context \<times> 'w \<Rightarrow> 'w run_state" where
  "put st s = st\<lparr>rs_ac := fst s, rs_w := snd s\<rparr>"

definition take_round :: "'w run_env \<Rightarrow> loop_config \<Rightarrow> round_result \<Rightarrow> 'w run_state \<Rightarrow> agent_context \<times> 'w \<Rightarrow> flow \<times> 'w run_state" where
  "take_round env cfg r st s =
     (let st1 = st\<lparr>rs_content := rd_content r, rs_reasoning := rd_reasoning r\<rparr>;
          s1 = (adopt_round cfg r (fst s), snd s)
      in if rd_finish r \<noteq> FinishToolCall \<or> rd_calls r = []
         then case final_round env cfg r s1 of (f, s2) \<Rightarrow> (f, put st1 s2)
         else case tool_round env cfg r s1 of (f, s2) \<Rightarrow>
           (f, put (st1\<lparr>rs_calls := rs_calls st @ rd_calls r\<rparr>) s2))"

text \<open>From the settled context on: compaction, the model call and what follows from its outcome.\<close>

definition run_round :: "'w run_env \<Rightarrow> loop_config \<Rightarrow> 'w run_state \<Rightarrow> agent_context \<times> 'w \<Rightarrow> flow \<times> 'w run_state" where
  "run_round env cfg st s =
     (let forced = ac_forceCompact (fst s);
          s1 = snd (maybeCompact (re_compact env) cfg forced ((fst s)\<lparr>ac_forceCompact := False\<rparr>, snd s))
      in if forced then (Continue, put st (Stop (fst s1), snd s1))
         else case model_round env cfg s1 of
             (Inr r, evs, s2) \<Rightarrow> take_round env cfg r st s2
           | (Inl e, evs, (ac2, w2)) \<Rightarrow>
               if \<not> ac_overflowRetryUsed ac2 \<and> ce_Compressor (re_compact env) \<noteq> None \<and> isContextOverflowError e
               then (Continue, put st (snd (maybeCompact (re_compact env) cfg True (ac2\<lparr>ac_overflowRetryUsed := True\<rparr>, w2))))
               else (Break, put st (ac2\<lparr>ac_Err := Some e\<rparr>, w2)))"

definition iterate :: "'w run_env \<Rightarrow> loop_config \<Rightarrow> 'w run_state \<Rightarrow> flow \<times> 'w run_state" where
  "iterate env cfg st =
     (let s0 = observe_run env (rs_ac st, rs_w st) in
      if ac_aborted (fst s0) \<or> ac_stopped (fst s0) then (Break, put st s0)
      else
        let s1 = poll_top env s0; ac2 = consume_commands env (fst s1) in
        if ac_forceClear ac2 then (Continue, put st (clear_context ac2, snd s1))
        else case settle cfg ac2 of
            None \<Rightarrow> (Panic, put st (ac2, snd s1))
          | Some ac3 \<Rightarrow> run_round env cfg st (ac3, snd s1))"

definition next_iteration :: "'w run_state \<Rightarrow> 'w run_state" where
  "next_iteration st = st\<lparr>rs_ac := (rs_ac st)\<lparr>ac_Iteration := ac_Iteration (rs_ac st) + 1\<rparr>\<rparr>"

definition over :: "loop_config \<Rightarrow> 'w run_state \<Rightarrow> bool" where
  "over cfg st \<longleftrightarrow> 0 < lc_MaxIterations cfg \<and> lc_MaxIterations cfg < ac_Iteration (rs_ac st)"

text \<open>The loop may run for ever: it yields \<open>None\<close> then, else the last flow and the state.\<close>

partial_function (option) run_loop ::
  "'w run_env \<Rightarrow> loop_config \<Rightarrow> 'w run_state \<Rightarrow> (flow \<times> 'w run_state) option" where
  "run_loop env cfg st =
     (if over cfg st then Some (Continue, st)
      else case iterate env cfg st of
          (Continue, st1) \<Rightarrow> run_loop env cfg (next_iteration st1)
        | (f, st1) \<Rightarrow> Some (f, st1))"

section \<open>Start and end of a run\<close>

definition join_prompt :: "string \<Rightarrow> string \<Rightarrow> string" where
  "join_prompt a b = (if b = [] then a else if a = [] then b else a @ [CHR 0x0A, CHR 0x0A] @ b)"

definition run_prompt :: "string \<Rightarrow> string option \<Rightarrow> tool_mode option \<Rightarrow> string" where
  "run_prompt base extra md =
     join_prompt (join_prompt base (case extra of None \<Rightarrow> [] | Some e \<Rightarrow> trim_space e))
       (case md of None \<Rightarrow> [] | Some m \<Rightarrow> md_SystemHint m)"

definition install_prompt :: "string \<Rightarrow> message list \<Rightarrow> message list \<times> bool" where
  "install_prompt p ms =
     (if p = [] then (ms, False)
      else case ms of
          [] \<Rightarrow> ([NewSystemMessage p], True)
        | m # ms' \<Rightarrow>
            if m_role m \<noteq> System then (NewSystemMessage p # ms, True)
            else if messageText m \<noteq> p then (NewSystemMessage p # ms', True)
            else (ms, False))"

definition start_run :: "'w run_env \<Rightarrow> loop_config \<Rightarrow> string \<Rightarrow> string option \<Rightarrow> tool_mode option \<Rightarrow> todo_store option \<Rightarrow>
    message list \<Rightarrow> agent_context" where
  "start_run env cfg base extra md td input =
     (case injectCommands (re_commands env) input (new_context cfg md td) of (ms, ac1) \<Rightarrow>
        case install_prompt (run_prompt base extra md) ms of (ms1, changed) \<Rightarrow>
          let ac2 = ac1\<lparr>ac_Messages := ms1, ac_inputMark := 0, ac_Iteration := 1\<rparr>
          in if changed then append_history [hd ms1] ac2 else ac2)"

record agent_end =
  ae_Iterations :: int
  ae_Content :: string
  ae_Reasoning :: string
  ae_Calls :: "tool_call list"
  ae_Finish :: finish_reason
  ae_Usage :: usage
  ae_Error :: "err option"
  ae_Kind :: "error_kind option"

definition hit_max :: "loop_config \<Rightarrow> agent_context \<Rightarrow> bool" where
  "hit_max cfg ac \<longleftrightarrow> 0 < lc_MaxIterations cfg \<and> lc_MaxIterations cfg < ac_Iteration ac"

definition end_reason :: "loop_config \<Rightarrow> agent_context \<Rightarrow> finish_reason" where
  "end_reason cfg ac =
     (if ac_aborted ac then FinishAbort
      else if ac_Err ac \<noteq> None then FinishError
      else if ac_stopped ac then FinishStop
      else if hit_max cfg ac then FinishMaxIterations
      else FinishStop)"

definition end_run :: "'w run_env \<Rightarrow> loop_config \<Rightarrow> 'w run_state \<Rightarrow> agent_end" where
  "end_run env cfg st =
     (let ac = fst (observe_run env (rs_ac st, rs_w st));
          e = (if ac_aborted ac then None else ac_Err ac)
      in \<lparr>ae_Iterations = (if hit_max cfg ac then lc_MaxIterations cfg else ac_Iteration ac),
          ae_Content = rs_content st, ae_Reasoning = rs_reasoning st, ae_Calls = rs_calls st,
          ae_Finish = end_reason cfg ac, ae_Usage = ac_Usage ac, ae_Error = e,
          ae_Kind = map_option (llmErrorKind ac) e\<rparr>)"

text \<open>The whole run; a panic ends the process and has no \<open>AgentEnd\<close>.\<close>

datatype run_outcome = Ended agent_end | Panicked

definition RunStream :: "'w run_env \<Rightarrow> loop_config \<Rightarrow> string \<Rightarrow> string option \<Rightarrow> tool_mode option \<Rightarrow> todo_store option \<Rightarrow>
    message list \<Rightarrow> 'w \<Rightarrow> (run_outcome \<times> 'w run_state) option" where
  "RunStream env cfg base extra md td input w =
     map_option (\<lambda>(f, st). (if f = Panic then Panicked else Ended (end_run env cfg st), st))
       (run_loop env cfg \<lparr>rs_ac = start_run env cfg base extra md td input, rs_w = w,
          rs_content = [], rs_reasoning = [], rs_calls = []\<rparr>)"

end
