(* ===== verification/AgentRun.thy ===== *)
theory AgentRun
  imports AgentLoop
begin

text \<open>
  Properties of whole runs of the agent loop: the context stays acceptable to a provider
  (\<open>exchanges_ok\<close>), a run ends (\<open>spare\<close> counts the rounds that its gates may still ask for), what
  becomes of reminders and of the user's interjections. The states at the top of the loop are
  those of the step relation \<open>loop_reaches\<close>.
\<close>

section \<open>The context stays a sequence of complete exchanges\<close>

definition plain :: "message \<Rightarrow> bool" where
  "plain m \<longleftrightarrow> m_role m \<noteq> Tool \<and> m_calls m = []"

fun complete :: "string list \<Rightarrow> message list \<Rightarrow> bool" where
  "complete is [] \<longleftrightarrow> is = []"
| "complete is (m # ms) \<longleftrightarrow>
     (if m_role m = Tool then is \<noteq> [] \<and> m_call_id m = hd is \<and> complete (tl is) ms
      else is = [] \<and> complete (map tc_id (m_calls m)) ms)"

definition exchanges_ok :: "message list \<Rightarrow> bool" where
  "exchanges_ok ms \<longleftrightarrow> complete [] ms \<and>
     (\<forall>m \<in> set ms. (m_calls m \<noteq> [] \<longrightarrow> m_role m = Assistant) \<and> (IsCommandMessage m \<longrightarrow> plain m))"

lemma complete_append: "complete [] ys \<Longrightarrow> complete is xs \<Longrightarrow> complete is (xs @ ys)"
  by (induction xs arbitrary: "is") (auto split: if_splits)

lemma complete_plain: "\<forall>m \<in> set ms. plain m \<Longrightarrow> complete [] ms"
  by (induction ms) (auto simp: plain_def)

lemma complete_tools: "\<forall>m \<in> set ms. m_role m = Tool \<Longrightarrow> complete (map m_call_id ms) ms"
  by (induction ms) auto

lemma exchanges_append: "exchanges_ok xs \<Longrightarrow> exchanges_ok ys \<Longrightarrow> exchanges_ok (xs @ ys)"
  by (auto simp: exchanges_ok_def complete_append)

lemma exchanges_plain: "\<forall>m \<in> set ms. plain m \<Longrightarrow> exchanges_ok ms"
  by (auto simp: exchanges_ok_def complete_plain plain_def)

lemma exchanges_round:
  assumes "m_role m = Assistant" "\<not> IsCommandMessage m" "map m_call_id ts = map tc_id (m_calls m)"
    "\<forall>t \<in> set ts. m_role t = Tool \<and> m_calls t = [] \<and> \<not> IsCommandMessage t"
  shows "exchanges_ok (m # ts)"
  using assms complete_tools [of ts] by (auto simp: exchanges_ok_def)

lemma expand_message_plain [simp]: "plain (expand_message f m) = plain m"
  by (simp add: plain_def)

lemma complete_expand: "complete is (xs @ map (expand_message f) ys) = complete is (xs @ ys)"
proof -
  have "complete is (map (expand_message f) ys) = complete is ys" for "is"
    by (induction ys arbitrary: "is") auto
  then show ?thesis by (induction xs arbitrary: "is") auto
qed

lemma exchanges_expand: "exchanges_ok ms \<Longrightarrow> exchanges_ok (expand_from f k ms)"
proof -
  assume ok: "exchanges_ok ms"
  have e: "expand_from f k ms = take (nat k) ms @ map (expand_message f) (drop (nat k) ms)"
    by (simp add: expand_from_def expandUserRefsInMessages_def Let_def)
  have "\<forall>m \<in> set (take (nat k) ms) \<union> set (drop (nat k) ms). (m_calls m \<noteq> [] \<longrightarrow> m_role m = Assistant) \<and> (IsCommandMessage m \<longrightarrow> plain m)"
    using ok by (auto simp: exchanges_ok_def dest: in_set_takeD in_set_dropD)
  then show ?thesis using ok by (auto simp: exchanges_ok_def e complete_expand)
qed

lemma executeCommand_ok:
  assumes "executeCommand env m ac = (i, ac')"
  shows "ac_slim ac' = ac_slim ac \<and> ac_Mode ac' = ac_Mode ac \<and> ac_Messages ac' = ac_Messages ac \<and>
    (\<forall>x. i = Some x \<longrightarrow> plain x \<and> \<not> IsCommandMessage x)"
  using assms
  by (auto simp: executeCommand_def plain_def IsCommandMessage_def constructor_defs Let_def
      split: prod.splits if_splits option.splits sum.splits)

lemma complete_cons_plain: "plain m \<Longrightarrow> complete is (m # ms) \<longleftrightarrow> is = [] \<and> complete [] ms"
  by (simp add: plain_def)

lemma injectCommands_ok:
  assumes "injectCommands env ms ac = (ms', ac')"
    and "complete is ms" and "\<forall>m \<in> set ms. (m_calls m \<noteq> [] \<longrightarrow> m_role m = Assistant) \<and> (IsCommandMessage m \<longrightarrow> plain m)"
  shows "complete is ms' \<and> (\<forall>m \<in> set ms'. (m_calls m \<noteq> [] \<longrightarrow> m_role m = Assistant) \<and> \<not> IsCommandMessage m) \<and>
     ac_slim ac' = ac_slim ac \<and> ac_Mode ac' = ac_Mode ac"
  using assms
proof (induction ms arbitrary: "is" ac ms' ac')
  case (Cons m ms)
  show ?case
  proof (cases "IsCommandMessage m")
    case False
    then obtain kept where k: "injectCommands env ms ac = (kept, ac')" "ms' = m # kept"
      using Cons.prems(1) by (auto split: prod.splits)
    show ?thesis
    proof (cases "m_role m = Tool")
      case True
      with Cons.IH [OF k(1), of "tl is"] Cons.prems False k(2) show ?thesis by simp
    next
      case no: False
      with Cons.IH [OF k(1), of "map tc_id (m_calls m)"] Cons.prems False k(2) show ?thesis by simp
    qed
  next
    case True
    then have c: "is = []" "complete [] ms" using Cons.prems by (auto simp: plain_def)
    obtain i ac1 where e: "executeCommand env m ac = (i, ac1)" by fastforce
    note ex = executeCommand_ok [OF e]
    show ?thesis
    proof (cases i)
      case None
      with Cons.IH [of ac1 ms' ac' "[]"] Cons.prems True c e ex show ?thesis by simp
    next
      case (Some x)
      then obtain kept where k: "injectCommands env ms (ac1\<lparr>ac_RunHistory := ac_RunHistory ac1 @ [x]\<rparr>) = (kept, ac')" "ms' = x # kept"
        using Cons.prems(1) True e by (auto split: prod.splits)
      with Cons.IH [OF k(1), of "[]"] Cons.prems c ex Some show ?thesis
        by (auto simp: complete_cons_plain) (auto simp: plain_def)
    qed
  qed
qed auto

text \<open>The states at the top of the loop that a run passes through.\<close>

inductive loop_reaches :: "'w run_env \<Rightarrow> loop_config \<Rightarrow> 'w run_state \<Rightarrow> 'w run_state \<Rightarrow> bool"
  for env :: "'w run_env" and cfg :: loop_config and st0 :: "'w run_state" where
  start: "loop_reaches env cfg st0 st0"
| step: "loop_reaches env cfg st0 st \<Longrightarrow> \<not> over cfg st \<Longrightarrow> iterate env cfg st = (Continue, st1) \<Longrightarrow>
    loop_reaches env cfg st0 (next_iteration st1)"

lemma loop_reaches_trans:
  "loop_reaches env cfg st1 st2 \<Longrightarrow> loop_reaches env cfg st0 st1 \<Longrightarrow> loop_reaches env cfg st0 st2"
  by (induction rule: loop_reaches.induct) (auto intro: loop_reaches.step)

definition loop_ends :: "'w run_env \<Rightarrow> loop_config \<Rightarrow> 'w run_state \<Rightarrow> flow \<times> 'w run_state \<Rightarrow> bool" where
  "loop_ends env cfg st0 r \<longleftrightarrow>
     (\<exists>st. loop_reaches env cfg st0 st \<and> (over cfg st \<and> r = (Continue, st) \<or> \<not> over cfg st \<and> fst r \<noteq> Continue \<and> iterate env cfg st = r))"

lemma loop_ends_step:
  "\<not> over cfg st \<Longrightarrow> iterate env cfg st = (Continue, st1) \<Longrightarrow> loop_ends env cfg (next_iteration st1) r \<Longrightarrow> loop_ends env cfg st r"
proof -
  assume a: "\<not> over cfg st" "iterate env cfg st = (Continue, st1)" "loop_ends env cfg (next_iteration st1) r"
  then obtain st2 where st2: "loop_reaches env cfg (next_iteration st1) st2"
    "over cfg st2 \<and> r = (Continue, st2) \<or> \<not> over cfg st2 \<and> fst r \<noteq> Continue \<and> iterate env cfg st2 = r"
    unfolding loop_ends_def by blast
  have "loop_reaches env cfg st (next_iteration st1)"
    by (rule loop_reaches.step [OF loop_reaches.start a(1,2)])
  from loop_reaches_trans [OF st2(1) this] st2(2) show ?thesis unfolding loop_ends_def by blast
qed

lemma run_loop_reaches:
  assumes "run_loop env cfg st = Some r"
  shows "loop_ends env cfg st r"
proof (rule run_loop.raw_induct [where P = loop_ends, OF _ assms], goal_cases)
  case (1 loop env cfg st r)
  obtain f st1 where i: "iterate env cfg st = (f, st1)" by fastforce
  consider (over) "over cfg st" | (go) "\<not> over cfg st" "f = Continue" | (stop) "\<not> over cfg st" "f \<noteq> Continue" by blast
  then show ?case
  proof cases
    case over
    with 1(2) have "r = (Continue, st)" by simp
    with over show ?thesis unfolding loop_ends_def using loop_reaches.start by blast
  next
    case go
    with 1(2) i have "loop env cfg (next_iteration st1) = Some r" by simp
    from 1(1) [OF this] show ?thesis by (rule loop_ends_step [OF go(1) i [unfolded go(2)]])
  next
    case stop
    with 1(2) i have r: "r = (f, st1)" by (cases f) simp_all
    show ?thesis unfolding loop_ends_def
      by (rule exI [of _ st]) (simp add: r stop i loop_reaches.start)
  qed
qed

section \<open>Preservation\<close>

definition plain_run :: "'w run_env \<Rightarrow> loop_config \<Rightarrow> bool" where
  "plain_run env cfg \<longleftrightarrow>
     ce_Compressor (re_compact env) = None \<and> one_answer_each (te_RunBatch (re_tools env)) \<and>
     te_PreToolUse (re_tools env) = None \<and>
     (case re_Poll env of None \<Rightarrow> True | Some p \<Rightarrow> \<forall>w. \<forall>m \<in> set (fst (p w)). plain m)"

definition ctx_ok :: "agent_context \<Rightarrow> bool" where
  "ctx_ok ac \<longleftrightarrow> exchanges_ok (ac_Messages ac) \<and> ac_slim ac = None \<and> ac_Mode ac = None"

lemma ctx_ok_frame [simp]:
  "ctx_ok (append_history ms ac) = ctx_ok ac" "ctx_ok (addUsage u ac) = ctx_ok ac" "ctx_ok (Stop ac) = ctx_ok ac"
  "ctx_ok (charge_partial e ac) = ctx_ok ac" "ctx_ok (adopt_round cfg r ac) = ctx_ok ac"
  "ctx_ok (begin_request cfg ac) = ctx_ok ac" "ctx_ok (resetGoalAlignment f cs rs ac) = ctx_ok ac"
  "ctx_ok (fst (observe_run env s)) = ctx_ok (fst s)" "ctx_ok (fst (onTurn env s)) = ctx_ok (fst s)"
  by (auto simp: ctx_ok_def append_history_def addUsage_def Stop_def charge_partial_def adopt_round_def
      recordGoalAlignmentLLMRound_def begin_request_def resetGoalAlignment_def observe_run_def onTurn_def
      split: option.splits prod.splits)

lemma ctx_ok_append: "ctx_ok ac \<Longrightarrow> exchanges_ok ms \<Longrightarrow> ctx_ok (append_messages ms ac)"
  by (simp add: ctx_ok_def append_messages_def exchanges_append)

lemma ctx_ok_translate: "ctx_ok ac \<Longrightarrow> fold translate es (ac, r) = (ac', r') \<Longrightarrow> ctx_ok ac'"
proof (induction es arbitrary: ac r)
  case (Cons e es)
  obtain ac1 r1 where t: "translate e (ac, r) = (ac1, r1)" by fastforce
  then have "ctx_ok ac1" using Cons.prems(1)
    by (cases e) (auto simp: Let_def ctx_ok_def addUsage_def split: if_splits)
  with Cons t show ?case by simp
qed simp

lemma streamOnce_ok: "ctx_ok (fst s) \<Longrightarrow> ctx_ok (fst (snd (streamOnce env cfg s)))"
proof -
  assume ok: "ctx_ok (fst s)"
  then have "ctx_ok (expand_inputs env (fst s))"
    by (auto simp: expand_inputs_def ctx_ok_def exchanges_expand)
  then show ?thesis
    by (auto simp: streamOnce_def Let_def split: prod.split dest: ctx_ok_translate [rotated])
qed


lemma stream_attempts_keeps:
  assumes once: "\<And>s. P (fst s) \<Longrightarrow> P (fst (snd (once s)))" and wait: "\<And>d s. P (fst s) \<Longrightarrow> P (fst (snd (wait d s)))"
    and charge: "\<And>e ac. P ac \<Longrightarrow> P (charge_partial e ac)"
  shows "P (fst s) \<Longrightarrow> P (fst (snd (snd (stream_attempts once wait backoff m a s))))"
proof (induction "nat (m - a)" arbitrary: a s rule: less_induct)
  case less
  obtain r e0 s1 where o1: "once s = ((r, e0), s1)" by (metis prod.collapse)
  with once [OF less.prems] have s1: "P (fst s1)" by simp
  note u = stream_attempts.simps [of once wait backoff m a s]
  show ?case
  proof (cases "ac_aborted (fst s) \<or> attempt_error r e0 = None")
    case True
    with less.prems s1 show ?thesis by (auto simp: u o1)
  next
    case False
    then obtain e where e: "attempt_error r e0 = Some e" by blast
    define s2 where "s2 = (charge_partial e (fst s1), snd s1)"
    define ev where "ev = error_event backoff a m (fst s2) e"
    have s2: "P (fst s2)" using charge s1 by (simp add: s2_def)
    obtain gone s3 where w: "wait (le_delay ev) s2 = (gone, s3)" by (rule prod.exhaust)
    with wait [OF s2] have s3: "P (fst s3)" by (metis snd_conv)
    obtain res evs s4 where rec: "stream_attempts once wait backoff m (a + 1) s3 = (res, evs, s4)" by (metis prod.collapse)
    have lw: "le_will ev = will_retry a m e" by (simp add: ev_def)
    have step: "snd (snd (stream_attempts once wait backoff m a s)) =
        (if \<not> will_retry a m e then s2 else if gone then s3 else s4)"
      unfolding u using False o1 e w rec by (simp add: lw s2_def [symmetric] ev_def [symmetric] Let_def)
    show ?thesis
    proof (cases "will_retry a m e")
      case True
      then have "nat (m - (a + 1)) < nat (m - a)" by (simp add: will_retry_def)
      from less.hyps [OF this s3] rec have "P (fst s4)" by simp
      with s2 s3 show ?thesis by (simp add: step)
    qed (simp add: step s2)
  qed
qed

lemma model_round_ok: "ctx_ok (fst s) \<Longrightarrow> ctx_ok (fst (snd (snd (model_round env cfg s))))"
  unfolding model_round_def streamWithRetry_def
  by (rule stream_attempts_keeps [where P = ctx_ok]) (auto simp: streamOnce_ok wait_retry_def Let_def)

lemma maybeCompact_off:
  "ce_Compressor env = None \<Longrightarrow> maybeCompact env cfg forced s = (NoCompaction, s)"
  by (cases s) (simp add: maybeCompact_def)

lemma reply_message_ok:
  "m_role (reply_message cfg r cs) = Assistant" "m_calls (reply_message cfg r cs) = cs" "\<not> IsCommandMessage (reply_message cfg r cs)"
  by (simp_all add: reply_message_def IsCommandMessage_def constructor_defs)

lemma ctx_ok_flags [simp]:
  "ctx_ok (ac\<lparr>ac_stopHookBlocks := n\<rparr>) = ctx_ok ac" "ctx_ok (ac\<lparr>ac_todoGateUsed := b\<rparr>) = ctx_ok ac"
  "ctx_ok (ac\<lparr>ac_pendingTasksNudged := b\<rparr>) = ctx_ok ac" "ctx_ok (ac\<lparr>ac_afterTools := b\<rparr>) = ctx_ok ac"
  "ctx_ok (ac\<lparr>ac_Err := e\<rparr>) = ctx_ok ac" "ctx_ok (ac\<lparr>ac_inputMark := k\<rparr>) = ctx_ok ac"
  "ctx_ok (ac\<lparr>ac_postToolNudgePending := b, ac_postToolNudgeUsed := b', ac_afterTools := b''\<rparr>) = ctx_ok ac"
  "ctx_ok (ac\<lparr>ac_postToolNudgePending := b, ac_postToolNudgeUsed := b'\<rparr>) = ctx_ok ac"
  "ctx_ok (ac\<lparr>ac_forceCompact := b\<rparr>) = ctx_ok ac" "ctx_ok (ac\<lparr>ac_overflowRetryUsed := b\<rparr>) = ctx_ok ac"
  "ctx_ok (ac\<lparr>ac_Iteration := k\<rparr>) = ctx_ok ac" "ctx_ok (ac\<lparr>ac_fileLedger := l\<rparr>) = ctx_ok ac"
  by (simp_all add: ctx_ok_def)

lemma ctx_ok_reminder [simp]: "ctx_ok ac \<Longrightarrow> ctx_ok (append_messages [NewSystemMessage t] ac)"
  using ctx_ok_append [OF _ exchanges_plain] by (simp add: plain_def constructor_defs)

lemma gates_ok:
  fixes s :: "agent_context \<times> 'w"
  assumes "ctx_ok (fst s)"
  shows "ctx_ok (fst (snd (pending_gate env cfg r s)))"
proof -
  have e: "ctx_ok (fst (snd (end_round env cfg r s)))" if "ctx_ok (fst s)" for s :: "agent_context \<times> 'w"
    using that by (simp add: end_round_def)
  have st: "ctx_ok (fst (snd (stop_gate env cfg r s)))" if "ctx_ok (fst s)" for s :: "agent_context \<times> 'w"
    using that e by (simp add: stop_gate_def stop_reminder_def Let_def split: prod.split)
  have td: "ctx_ok (fst (snd (todo_gate env cfg r s)))" if "ctx_ok (fst s)" for s :: "agent_context \<times> 'w"
    using that st by (simp add: todo_gate_def todo_reminder_def)
  show ?thesis using assms td by (simp add: pending_gate_def pending_reminder_def Let_def)
qed

lemma final_round_ok:
  assumes "plain_run env cfg" "ctx_ok (fst s)"
  shows "ctx_ok (fst (snd (final_round env cfg r s)))"
proof -
  have m: "ctx_ok (append_messages [reply_message cfg r []] ac)" if "ctx_ok ac" for ac
    using ctx_ok_append [OF that exchanges_plain] by (simp add: plain_def reply_message_ok)
  have i: "ctx_ok (append_messages ins ac)" if "ctx_ok ac" "re_Poll env = Some p" "p w = (ins, w1)" for ins ac p w w1
  proof -
    have "\<forall>w. \<forall>m \<in> set (fst (p w)). plain m" using assms(1) that(2) by (simp add: plain_run_def)
    then have "\<forall>m \<in> set (fst (p w)). plain m" by blast
    then have "\<forall>x \<in> set ins. plain x" by (simp add: that(3))
    then show ?thesis by (intro ctx_ok_append [OF that(1)] exchanges_plain)
  qed
  obtain ac w where s: "s = (ac, w)" by fastforce
  then have ok: "ctx_ok ac" using assms(2) by simp
  define ac1 where "ac1 = ac\<lparr>ac_afterTools := False\<rparr>"
  have ok1: "ctx_ok ac1" "ctx_ok (append_messages [reply_message cfg r []] ac1)" using ok m by (simp_all add: ac1_def)
  show ?thesis
  proof (cases "re_Poll env")
    case None
    with ok ok1 show ?thesis
      by (simp add: final_round_def s Let_def gates_ok ac1_def [symmetric])
  next
    case (Some p)
    obtain ins w1 where p: "p w = (ins, w1)" by fastforce
    have "ctx_ok (append_messages ins ac2)" if "ctx_ok ac2" for ac2 by (rule i [OF that Some p])
    with ok ok1 Some p show ?thesis
      by (simp add: final_round_def s Let_def gates_ok ac1_def [symmetric])
  qed
qed

text \<open>With no mode and no hook before the tools the round answers every call.\<close>

lemma unrefused_round:
  assumes "plain_run env cfg" "ac_Mode ac = None" "runTools True (re_tools env) calls (ac, w) = (Inr (Some rs), ac', w')"
  shows "mset (map r_id rs) = mset (map tc_id calls)"
proof -
  let ?vs = "map (sort_call (re_tools env) (counted ac)) calls"
  have "refused_of (sort_call (re_tools env) (counted ac) c) = []" for c
    using assms(1,2)
    by (auto simp: sort_call_def counted_def allowed_def before_hook_def plain_run_def split: option.splits)
  then have none: "concat (map refused_of ?vs) = []" by simp
  have kept: "kept_blocked ?vs = concat (map guarded_of ?vs)"
    unfolding kept_blocked_def Let_def none by simp
  have "mset (map r_id rs) = mset (map r_id (concat (map guarded_of ?vs))) +
    mset (map tc_id (concat (map serial_of ?vs) @ concat (map parallel_of ?vs)))"
    using runTools_results [OF _ assms(3)] assms(1) unfolding kept by (simp add: plain_run_def)
  also have "\<dots> = mset (map tc_id calls)"
    using ids_in_order [of "re_tools env" "counted ac" calls] unfolding none by simp
  finally show ?thesis .
qed

lemma runTools_frame:
  assumes "runTools e env calls (ac, w) = (res, ac', w')"
  shows "ac_Messages ac' = ac_Messages ac \<and> ac_slim ac' = ac_slim ac \<and> ac_Mode ac' = ac_Mode ac"
proof -
  have u: "ac_Messages (fold (\<lambda>r. addUsage (r_usage r)) rs ac) = ac_Messages ac \<and>
    ac_slim (fold (\<lambda>r. addUsage (r_usage r)) rs ac) = ac_slim ac \<and> ac_Mode (fold (\<lambda>r. addUsage (r_usage r)) rs ac) = ac_Mode ac" for rs ac
    by (induction rs arbitrary: ac) (auto simp: addUsage_def)
  show ?thesis using assms
    by (auto simp: runTools_def finish_round_def Let_def Stop_def u split: if_splits sum.splits prod.splits option.splits)
qed


lemma write_results_off:
  assumes "ac_slim ac = None" and "\<forall>c \<in> set calls. result_of rs (tc_id c) \<noteq> None"
  shows "\<exists>ac' ts. write_results env rs calls ac = Some ac' \<and> ac_slim ac' = None \<and> ac_Mode ac' = ac_Mode ac \<and>
    ac_Messages ac' = ac_Messages ac @ ts \<and> map m_call_id ts = map tc_id calls \<and>
    (\<forall>t \<in> set ts. m_role t = Tool \<and> m_calls t = [] \<and> \<not> IsCommandMessage t)"
  using assms
proof (induction calls arbitrary: ac)
  case (Cons c calls)
  then obtain r where r: "result_of rs (tc_id c) = Some r" by auto
  define m where "m = NewToolMessageWithImages (tc_id c) (r_result r) (filter (\<lambda>b. ctype b = ContentTypeImage) (r_blocks r))"
  define ac1 where "ac1 = append_history [m] (append_messages [m]
    (ac\<lparr>ac_fileLedger := recordFileOps (re_grow env) (re_arg_path env) (re_arg_lines env) c (ac_fileLedger ac)\<rparr>))"
  have m: "m_call_id m = tc_id c" "m_role m = Tool" "m_calls m = []" "\<not> IsCommandMessage m"
    by (simp_all add: m_def IsCommandMessage_def constructor_defs)
  have ac1: "ac_slim ac1 = None" "ac_Mode ac1 = ac_Mode ac" "ac_Messages ac1 = ac_Messages ac @ [m]"
    using Cons.prems by (simp_all add: ac1_def append_history_def append_messages_def)
  have w: "write_results env rs (c # calls) ac = write_results env rs calls ac1"
    using Cons.prems by (simp add: r write_result_def Let_def ac1_def m_def)
  from Cons.IH [OF ac1(1)] Cons.prems obtain ac' ts where "write_results env rs calls ac1 = Some ac'" "ac_slim ac' = None"
    "ac_Mode ac' = ac_Mode ac1" "ac_Messages ac' = ac_Messages ac1 @ ts" "map m_call_id ts = map tc_id calls"
    "\<forall>t \<in> set ts. m_role t = Tool \<and> m_calls t = [] \<and> \<not> IsCommandMessage t" by auto
  with w ac1 m show ?case by (intro exI [of _ ac'] exI [of _ "m # ts"]) simp
qed simp

lemma result_of_answered: "c \<in> set calls \<Longrightarrow> mset (map r_id rs) = mset (map tc_id calls) \<Longrightarrow> result_of rs (tc_id c) \<noteq> None"
proof -
  assume c: "c \<in> set calls" and m: "mset (map r_id rs) = mset (map tc_id calls)"
  have "set (map r_id rs) = set (map tc_id calls)" using m by (rule mset_eq_setD)
  then have "tc_id c \<in> r_id ` set rs" using c by (simp add: image_iff) metis
  then show ?thesis by (simp add: result_of_def map_of_eq_None_iff image_image)
qed

lemma tool_round_ok:
  assumes "plain_run env cfg" "ctx_ok (fst s)"
  shows "ctx_ok (fst (snd (tool_round env cfg r s))) \<and> fst (tool_round env cfg r s) \<noteq> Panic"
proof -
  obtain ac w where s: "s = (ac, w)" by fastforce
  obtain res ac1 w1 where rt: "runTools (re_engine env) (re_tools env) (rd_calls r) (ac, w) = (res, ac1, w1)"
    by (metis prod.collapse)
  have ok: "ctx_ok ac" using assms(2) s by simp
  with runTools_frame [OF rt] have ok1: "ctx_ok ac1" by (simp add: ctx_ok_def)
  show ?thesis
  proof (cases "\<exists>rs. res = Inr (Some rs)")
    case False
    then show ?thesis using ok1 rt by (auto simp: tool_round_def s split: sum.split option.split)
  next
    case True
    then obtain rs where rs: "res = Inr (Some rs)" by blast
    then have e: "re_engine env" using rt by (cases "re_engine env") (simp_all add: runTools_def)
    then have "runTools True (re_tools env) (rd_calls r) (ac, w) = (Inr (Some rs), ac1, w1)" using rt rs by simp
    from unrefused_round [OF assms(1) _ this] ok
    have ids: "mset (map r_id rs) = mset (map tc_id (rd_calls r))" by (simp add: ctx_ok_def)
    define m where "m = reply_message cfg r (rd_calls r)"
    define ac2 where "ac2 = append_history [m] (append_messages [m] (resetGoalAlignment (re_command_of env) (rd_calls r) rs ac1))"
    have f: "ac_slim (resetGoalAlignment g cs rs ac1) = ac_slim ac1 \<and> ac_Messages (resetGoalAlignment g cs rs ac1) = ac_Messages ac1 \<and>
      ac_Mode (resetGoalAlignment g cs rs ac1) = ac_Mode ac1" for g cs
      by (simp add: resetGoalAlignment_def)
    then have ac2: "ac_slim ac2 = None" "ac_Mode ac2 = None" "ac_Messages ac2 = ac_Messages ac1 @ [m]"
      using ok1 by (simp_all add: ac2_def append_history_def append_messages_def ctx_ok_def)
    obtain ac3 ts where w3: "write_results env rs (rd_calls r) ac2 = Some ac3" "ac_slim ac3 = None" "ac_Mode ac3 = ac_Mode ac2"
      "ac_Messages ac3 = ac_Messages ac2 @ ts" "map m_call_id ts = map tc_id (rd_calls r)"
      "\<forall>t \<in> set ts. m_role t = Tool \<and> m_calls t = [] \<and> \<not> IsCommandMessage t"
      using write_results_off [OF ac2(1)] result_of_answered [OF _ ids] by metis
    have "exchanges_ok (m # ts)"
      using w3(5,6) by (intro exchanges_round) (simp_all add: m_def reply_message_ok)
    with ok1 have "ctx_ok ac3" using w3 ac2 exchanges_append [of "ac_Messages ac1" "m # ts"] by (simp add: ctx_ok_def)
    then show ?thesis using rt rs w3(1) by (simp add: tool_round_def s Let_def m_def [symmetric] ac2_def [symmetric])
  qed
qed

lemma poll_top_ok: "plain_run env cfg \<Longrightarrow> ctx_ok (fst s) \<Longrightarrow> ctx_ok (fst (poll_top env s))"
proof -
  assume pr: "plain_run env cfg" and ok: "ctx_ok (fst s)"
  show ?thesis
  proof (cases "re_Poll env")
    case (Some p)
    obtain ins w1 where p: "p (snd s) = (ins, w1)" by fastforce
    have "\<forall>w. \<forall>m \<in> set (fst (p w)). plain m" using pr Some by (simp add: plain_run_def)
    then have "\<forall>m \<in> set (fst (p (snd s))). plain m" by blast
    then have "ctx_ok (append_messages ins (fst s))" using p by (intro ctx_ok_append [OF ok] exchanges_plain) simp
    with Some p ok show ?thesis by (simp add: poll_top_def)
  qed (simp add: poll_top_def ok)
qed

lemma consume_commands_ok: "ctx_ok ac \<Longrightarrow> ctx_ok (consume_commands env ac)"
proof -
  assume ok: "ctx_ok ac"
  obtain ms ac1 where i: "injectCommands (re_commands env) (ac_Messages ac) ac = (ms, ac1)" by fastforce
  from injectCommands_ok [OF i, of "[]"] ok show ?thesis
    by (auto simp: consume_commands_def i ctx_ok_def exchanges_ok_def)
qed

lemma clear_context_ok: "ctx_ok ac \<Longrightarrow> ctx_ok (clear_context ac)"
proof (cases "ac_Messages ac")
  case (Cons m ms)
  assume "ctx_ok ac"
  with Cons show ?thesis
    by (cases "m_calls m") (auto simp: clear_context_def ctx_ok_def Stop_def exchanges_ok_def Let_def)
qed (auto simp: clear_context_def ctx_ok_def Stop_def exchanges_ok_def)

lemma take_round_ok:
  assumes "plain_run env cfg" "ctx_ok (fst s)"
  shows "ctx_ok (rs_ac (snd (take_round env cfg r st s))) \<and> fst (take_round env cfg r st s) \<noteq> Panic"
proof -
  define s1 where "s1 = (adopt_round cfg r (fst s), snd s)"
  have s1: "ctx_ok (fst s1)" using assms(2) by (simp add: s1_def)
  have g: "fst (pending_gate env cfg r s) \<noteq> Panic" for s
    by (simp add: pending_gate_def todo_gate_def stop_gate_def end_round_def Let_def split: prod.split)
  have "fst (final_round env cfg r s1) \<noteq> Panic"
    by (auto simp: final_round_def Let_def g split: prod.split option.split)
  with final_round_ok [OF assms(1) s1, of r] tool_round_ok [OF assms(1) s1, of r] show ?thesis
    by (auto simp: take_round_def Let_def s1_def [symmetric] put_def split: prod.split)
qed

lemma run_round_ok:
  assumes "plain_run env cfg" "ctx_ok (fst s)"
  shows "ctx_ok (rs_ac (snd (run_round env cfg st s))) \<and> fst (run_round env cfg st s) \<noteq> Panic"
proof -
  define s1 where "s1 = ((fst s)\<lparr>ac_forceCompact := False\<rparr>, snd s)"
  have off: "ce_Compressor (re_compact env) = None" using assms(1) by (simp add: plain_run_def)
  have s1: "ctx_ok (fst s1)" using assms(2) by (simp add: s1_def)
  obtain res evs s2 where m: "model_round env cfg s1 = (res, evs, s2)" by (metis prod.collapse)
  with model_round_ok [OF s1, of env cfg] have s2: "ctx_ok (fst s2)" by simp
  then show ?thesis using s1 take_round_ok [OF assms(1) s2]
    by (auto simp: run_round_def Let_def maybeCompact_off [OF off] off s1_def [symmetric] m put_def split: sum.split prod.split)
qed

lemma iterate_ok:
  assumes "plain_run env cfg" "ctx_ok (rs_ac st)"
  shows "ctx_ok (rs_ac (snd (iterate env cfg st))) \<and> fst (iterate env cfg st) \<noteq> Panic"
proof -
  define s0 where "s0 = observe_run env (rs_ac st, rs_w st)"
  define s1 where "s1 = poll_top env s0"
  define ac2 where "ac2 = consume_commands env (fst s1)"
  have s0: "ctx_ok (fst s0)" using assms(2) by (simp add: s0_def)
  have ac2: "ctx_ok ac2" unfolding ac2_def s1_def by (intro consume_commands_ok poll_top_ok [OF assms(1) s0])
  then have "settle cfg ac2 = Some ac2" by (simp add: settle_def ctx_ok_def)
  with s0 ac2 run_round_ok [OF assms(1), of "(ac2, snd s1)" st] clear_context_ok [OF ac2] show ?thesis
    by (simp add: iterate_def Let_def s0_def [symmetric] s1_def [symmetric] ac2_def [symmetric] put_def)
qed

lemma reached_ctx_ok:
  assumes "loop_reaches env cfg st0 st" "plain_run env cfg" "ctx_ok (rs_ac st0)"
  shows "ctx_ok (rs_ac st)"
  using assms
proof (induction rule: loop_reaches.induct)
  case (step st st1)
  from iterate_ok [OF step.prems(1), of st] step show ?case by (simp add: next_iteration_def)
qed simp

lemma start_run_ok:
  assumes "exchanges_ok input" "lc_Slim cfg = None"
  shows "ctx_ok (start_run env cfg base extra None td input)"
proof -
  obtain ms ac1 where i: "injectCommands (re_commands env) input (new_context cfg None td) = (ms, ac1)" by fastforce
  from injectCommands_ok [OF i, of "[]"] assms
  have ok: "exchanges_ok ms" "ac_slim ac1 = None" "ac_Mode ac1 = None" by (auto simp: exchanges_ok_def new_context_def)
  obtain ms1 changed where p: "install_prompt (run_prompt base extra None) ms = (ms1, changed)" by fastforce
  have sys: "exchanges_ok (NewSystemMessage t # ms')" if "exchanges_ok ms'" for t ms'
    using exchanges_append [OF exchanges_plain, of "[NewSystemMessage t]"] that by (simp add: plain_def constructor_defs)
  have "exchanges_ok ms'" if "ms = m # ms'" "m_role m = System" for m ms'
    using ok(1) that by (cases "m_calls m") (auto simp: exchanges_ok_def)
  then have "exchanges_ok ms1" using p ok(1) sys
    by (auto simp: install_prompt_def split: if_splits list.splits)
  then have "ctx_ok (ac1\<lparr>ac_Messages := ms1, ac_inputMark := 0, ac_Iteration := 1\<rparr>)" using ok by (simp add: ctx_ok_def)
  then show ?thesis by (simp add: start_run_def i p Let_def)
qed

text \<open>C1. Without slimming, compaction, mode and hook before the tools, and with an engine that
  answers each call of a batch once, a run keeps its context a sequence of complete exchanges:
  at every turn of the loop and at the end each message with tool calls is followed by exactly
  the results of its calls in their order, whatever the model, the retries, the user's
  interjections, commands and the reminders of the gates do; and no iteration panics.\<close>

theorem run_keeps_exchanges:
  assumes "plain_run env cfg" and "lc_Slim cfg = None" and "exchanges_ok input"
    and "loop_reaches env cfg \<lparr>rs_ac = start_run env cfg base extra None td input, rs_w = w,
      rs_content = [], rs_reasoning = [], rs_calls = []\<rparr> st"
  shows "exchanges_ok (ac_Messages (rs_ac st)) \<and> exchanges_ok (ac_Messages (rs_ac (snd (iterate env cfg st)))) \<and>
    fst (iterate env cfg st) \<noteq> Panic"
proof -
  have "ctx_ok (rs_ac st)" using reached_ctx_ok [OF assms(4,1)] start_run_ok [OF assms(3,2), of env base extra td] by simp
  with iterate_ok [OF assms(1)] show ?thesis by (simp add: ctx_ok_def)
qed


section \<open>How long a run lasts\<close>

text \<open>The extra rounds that the gates of a run may still ask for.\<close>

definition spare :: "agent_context \<Rightarrow> nat" where
  "spare ac = nat (maxStopHookBlocks - ac_stopHookBlocks ac) + of_bool (\<not> ac_todoGateUsed ac) +
     of_bool (\<not> ac_pendingTasksNudged ac) + of_bool (\<not> ac_postToolNudgeUsed ac) +
     of_bool (\<not> ac_overflowRetryUsed ac) + of_bool (\<not> ac_stopped ac)"

lemma run_loop_measure:
  assumes inv: "\<And>st st1. Q st \<Longrightarrow> \<not> over cfg st \<Longrightarrow> iterate env cfg st = (Continue, st1) \<Longrightarrow>
      Q (next_iteration st1) \<and> m (next_iteration st1) < m st \<and> ac_Iteration (rs_ac st1) = ac_Iteration (rs_ac st)"
    and stays: "\<And>st f st1. iterate env cfg st = (f, st1) \<Longrightarrow> ac_Iteration (rs_ac st1) = ac_Iteration (rs_ac st)"
    and "Q st"
  shows "\<exists>f st'. run_loop env cfg st = Some (f, st') \<and> ac_Iteration (rs_ac st') \<le> ac_Iteration (rs_ac st) + int (m st)"
  using assms(3)
proof (induction "m st" arbitrary: st rule: less_induct)
  case less
  obtain f st1 where i: "iterate env cfg st = (f, st1)" by fastforce
  note u = run_loop.simps [of env cfg st]
  consider (over) "over cfg st" | (go) "\<not> over cfg st" "f = Continue" | (stop) "\<not> over cfg st" "f \<noteq> Continue" by blast
  then show ?case
  proof cases
    case over
    then show ?thesis by (simp add: u)
  next
    case go
    then have n: "Q (next_iteration st1)" "m (next_iteration st1) < m st" "ac_Iteration (rs_ac st1) = ac_Iteration (rs_ac st)"
      using inv [OF less.prems go(1)] i by auto
    from less.hyps [OF n(2,1)] obtain f' st' where "run_loop env cfg (next_iteration st1) = Some (f', st')"
      "ac_Iteration (rs_ac st') \<le> ac_Iteration (rs_ac (next_iteration st1)) + int (m (next_iteration st1))" by blast
    with go i n(2,3) show ?thesis by (auto simp: u next_iteration_def)
  next
    case stop
    with i stays [OF i] show ?thesis by (cases f) (auto simp: u)
  qed
qed


text \<open>What no part of an iteration does: give back a spare round or count an iteration.\<close>

definition kept :: "agent_context \<Rightarrow> agent_context \<Rightarrow> bool" where
  "kept ac ac' \<longleftrightarrow> spare ac' \<le> spare ac \<and> ac_Iteration ac' = ac_Iteration ac"

lemma kept_refl [simp]: "kept ac ac"
  by (simp add: kept_def)

lemma kept_trans: "kept a b \<Longrightarrow> kept b c \<Longrightarrow> kept a c"
  by (auto simp: kept_def)

definition gates :: "agent_context \<Rightarrow> int \<times> bool \<times> bool \<times> bool \<times> bool \<times> bool \<times> int" where
  "gates ac = (ac_stopHookBlocks ac, ac_todoGateUsed ac, ac_pendingTasksNudged ac, ac_postToolNudgeUsed ac,
     ac_overflowRetryUsed ac, ac_stopped ac, ac_Iteration ac)"

lemma kept_gates: "gates b = gates c \<Longrightarrow> kept a b = kept a c"
  by (simp add: gates_def kept_def spare_def)

lemma gates_frame [simp]:
  "gates (append_history ms ac) = gates ac" "gates (append_messages ms ac) = gates ac" "gates (addUsage u ac) = gates ac"
  "gates (charge_partial e ac) = gates ac" "gates (adopt_round cfg r ac) = gates ac"
  "gates (begin_request cfg ac) = gates ac" "gates (resetGoalAlignment f cs rs ac) = gates ac"
  "gates (fst (onTurn env s)) = gates (fst s)" "gates (expand_inputs env ac) = gates ac"
  "gates (ac\<lparr>ac_afterTools := b\<rparr>) = gates ac" "gates (ac\<lparr>ac_inputMark := k\<rparr>) = gates ac"
  "gates (ac\<lparr>ac_forceCompact := b\<rparr>) = gates ac" "gates (ac\<lparr>ac_Err := eo\<rparr>) = gates ac"
  "gates (ac\<lparr>ac_Messages := ms\<rparr>) = gates ac" "gates (ac\<lparr>ac_slim := sl\<rparr>) = gates ac"
  "gates (ac\<lparr>ac_fileLedger := l\<rparr>) = gates ac" "gates (ac\<lparr>ac_forceClear := b\<rparr>) = gates ac"
  "gates (ac\<lparr>ac_failures := fl\<rparr>) = gates ac" "gates (ac\<lparr>ac_toolRound := k\<rparr>) = gates ac"
  "gates (ac\<lparr>ac_RunHistory := ms\<rparr>) = gates ac" "gates (ac\<lparr>ac_est := es\<rparr>) = gates ac"
  "gates (ac\<lparr>ac_Messages := ms, ac_inputMark := k\<rparr>) = gates ac"
  "gates (ac\<lparr>ac_compactBackoffUntil := t\<rparr>) = gates ac" "gates (ac\<lparr>ac_forceClear := b, ac_Messages := ms, ac_inputMark := k\<rparr>) = gates ac"
  by (auto simp: gates_def append_history_def append_messages_def addUsage_def charge_partial_def adopt_round_def
      recordGoalAlignmentLLMRound_def begin_request_def resetGoalAlignment_def onTurn_def expand_inputs_def split: option.split)

lemma kept_frame:
  "gates b = gates c \<Longrightarrow> kept a c \<Longrightarrow> kept a b"
  using kept_gates by blast

lemma spare_Stop: "spare (Stop ac) \<le> spare ac" "\<not> ac_stopped ac \<Longrightarrow> spare (Stop ac) < spare ac"
  by (simp_all add: spare_def Stop_def)

lemma kept_Stop: "kept a ac \<Longrightarrow> kept a (Stop ac)"
  using spare_Stop(1) [of ac] by (simp add: kept_def Stop_def)

lemma kept_observe: "kept a (fst s) \<Longrightarrow> kept a (fst (observe_run env s))"
proof -
  assume k: "kept a (fst s)"
  have "gates (fst (observe_run env s)) = gates (fst s) \<or> gates (fst (observe_run env s)) = gates (Stop (fst s))"
    by (cases s; cases "re_flags env (snd s)") (auto simp: gates_def observe_run_def Stop_def)
  with k kept_Stop [OF k] show ?thesis using kept_gates by blast
qed

lemma gates_translate: "gates (fst (fold translate es s)) = gates (fst s)"
proof (induction es arbitrary: s)
  case (Cons e es)
  have "gates (fst (translate e s)) = gates (fst s)"
    by (cases s; cases e) (simp_all add: Let_def)
  with Cons show ?case by simp
qed simp

lemma kept_streamOnce: "kept a (fst s) \<Longrightarrow> kept a (fst (snd (streamOnce env cfg s)))"
proof -
  assume k: "kept a (fst s)"
  have "kept a (fst (fold translate es (begin_request cfg (expand_inputs env (fst s)), None)))" for es
    by (rule kept_frame [OF _ k]) (simp add: gates_translate)
  then show ?thesis
    by (auto simp: streamOnce_def Let_def intro!: kept_observe split: prod.split) (metis fst_conv)
qed

lemma kept_model_round: "kept a (fst s) \<Longrightarrow> kept a (fst (snd (snd (model_round env cfg s))))"
  unfolding model_round_def streamWithRetry_def
  by (rule stream_attempts_keeps [where P = "kept a"])
    (auto simp: kept_streamOnce wait_retry_def Let_def kept_frame [OF gates_frame(4)] intro: kept_observe)

lemma gates_compact [simp]: "gates (fst (snd (maybeCompact env cfg forced s))) = gates (fst s)"
proof -
  have f: "gates (adopt_compaction env cfg r ac w) = gates ac" for r ac w
    by (simp add: adopt_compaction_def Let_def) (simp add: gates_def)
  show ?thesis
    by (cases s) (simp add: maybeCompact_def Let_def f split: prod.split option.split sum.split)
qed

lemma gates_poll_top [simp]: "gates (fst (poll_top env s)) = gates (fst s)"
  by (simp add: poll_top_def split: option.split prod.split)

lemma gates_injectCommands: "injectCommands env ms ac = (ms', ac') \<Longrightarrow> gates ac' = gates ac"
proof (induction ms arbitrary: ms' ac)
  case (Cons m ms)
  obtain i ac1 where e: "executeCommand env m ac = (i, ac1)" by fastforce
  have "gates ac1 = gates ac" using e
    by (auto simp: executeCommand_def Let_def split: prod.splits if_splits option.splits sum.splits)
  with Cons e show ?case by (auto split: option.splits prod.splits if_splits)
qed simp

lemma gates_consume [simp]: "gates (consume_commands env ac) = gates ac"
  by (cases "injectCommands (re_commands env) (ac_Messages ac) ac") (simp add: consume_commands_def gates_injectCommands)

lemma gates_settle: "settle cfg ac = Some ac' \<Longrightarrow> gates ac' = gates ac"
  by (auto simp: settle_def Let_def gates_def split: option.splits prod.splits if_splits merge_result.splits)

lemma kept_runTools: "kept a (fst s) \<Longrightarrow> kept a (fst (snd (runTools e env calls s)))"
proof -
  assume k: "kept a (fst s)"
  obtain ac w where s: "s = (ac, w)" by fastforce
  have u: "gates (fold (\<lambda>r. addUsage (r_usage r)) rs ac) = gates ac" for rs ac
    by (induction rs arbitrary: ac) simp_all
  define ac1 where "ac1 = ac\<lparr>ac_toolRound := ac_toolRound ac + 1\<rparr>"
  have k1: "kept a ac1" by (rule kept_frame [OF _ k]) (simp add: ac1_def s)
  have f: "kept a (snd (finish_round env calls blocked rs ac1))" for blocked rs
  proof -
    have "kept a ((fold (\<lambda>r. addUsage (r_usage r)) rs ac1)\<lparr>ac_failures := l\<rparr>)" for l
      by (rule kept_frame [OF _ k1]) (simp add: u)
    then show ?thesis using kept_Stop by (simp add: finish_round_def Let_def split: option.split)
  qed
  show ?thesis using k k1 f
    by (simp add: runTools_def s Let_def ac1_def [symmetric] split: prod.split sum.split) (metis snd_conv)
qed

lemma gates_write_results: "write_results env rs calls ac = Some ac' \<Longrightarrow> gates ac' = gates ac"
proof (induction calls arbitrary: ac)
  case (Cons c calls)
  have one: "write_result env cr ac = Some ac1 \<Longrightarrow> gates ac1 = gates ac" for cr ac1
    by (auto simp: write_result_def Let_def gates_def append_history_def append_messages_def split: option.splits)
  show ?case using Cons.prems one Cons.IH
    by (auto split: option.splits Option.bind_splits)
qed simp


text \<open>A step from \<open>a\<close> that continues the loop spends a spare round.\<close>

definition spends :: "agent_context \<Rightarrow> flow \<times> agent_context \<times> 'w \<Rightarrow> bool" where
  "spends a r \<longleftrightarrow> kept a (fst (snd r)) \<and> (fst r = Continue \<longrightarrow> spare (fst (snd r)) < spare a)"

lemma spends_weaken: "spends b r \<Longrightarrow> kept a b \<Longrightarrow> spends a r"
  by (auto simp: spends_def kept_def)

lemma spends_break: "kept a (fst s) \<Longrightarrow> f \<noteq> Continue \<Longrightarrow> spends a (f, s)"
  by (simp add: spends_def)

lemma kept_same: "gates b = gates a \<Longrightarrow> kept a b"
  using kept_gates [of b a a] by simp

lemma spends_same: "gates b = gates a \<Longrightarrow> spends b r \<Longrightarrow> spends a r"
  by (rule spends_weaken) (auto intro: kept_same)

lemma end_round_spends: "spends (fst s) (end_round env cfg r s)"
  by (simp add: end_round_def spends_def kept_same)

lemma spare_used:
  "\<not> ac_todoGateUsed ac \<Longrightarrow> spare (ac\<lparr>ac_todoGateUsed := True\<rparr>) < spare ac"
  "\<not> ac_pendingTasksNudged ac \<Longrightarrow> spare (ac\<lparr>ac_pendingTasksNudged := True\<rparr>) < spare ac"
  "\<not> ac_overflowRetryUsed ac \<Longrightarrow> spare (ac\<lparr>ac_overflowRetryUsed := True\<rparr>) < spare ac"
  "\<not> ac_postToolNudgeUsed ac \<Longrightarrow>
     spare (ac\<lparr>ac_postToolNudgePending := True, ac_postToolNudgeUsed := True, ac_afterTools := False\<rparr>) < spare ac"
  "ac_stopHookBlocks ac < maxStopHookBlocks \<Longrightarrow> spare (ac\<lparr>ac_stopHookBlocks := ac_stopHookBlocks ac + 1\<rparr>) < spare ac"
  by (simp_all add: spare_def)

lemma spends_spare:
  assumes "spare b < spare a" "ac_Iteration b = ac_Iteration a" "gates (fst s) = gates b"
  shows "spends a (f, s)"
proof -
  have "kept b (fst s)" "spare (fst s) \<le> spare b" using kept_same [OF assms(3)] by (simp_all add: kept_def)
  with assms show ?thesis by (simp add: spends_def kept_def)
qed

lemma stop_gate_spends: "spends (fst s) (stop_gate env cfg r s)"
proof (cases "re_Stop env \<noteq> None \<and> \<not> interrupted (fst s) \<and> ac_stopHookBlocks (fst s) < maxStopHookBlocks")
  case True
  obtain go reason w1 where c: "callStop env r s = ((go, reason), w1)" by (metis prod.collapse)
  define n where "n = ac_stopHookBlocks (fst s) + 1"
  have "spends (fst s) (Continue, onTurn env (append_messages ms ((fst s)\<lparr>ac_stopHookBlocks := n\<rparr>), w1))" for ms
    using True by (intro spends_spare [OF spare_used(5)]) (simp_all add: n_def)
  moreover have "spends (fst s) (end_round env cfg r (fst s, w1))"
    using end_round_spends [of "(fst s, w1)"] by simp
  ultimately show ?thesis using True unfolding stop_gate_def c n_def [symmetric] by (simp add: Let_def)
next
  case False
  then show ?thesis using end_round_spends [of s] unfolding stop_gate_def by (simp only: if_False)
qed

lemma todo_gate_spends: "spends (fst s) (todo_gate env cfg r s)"
proof (cases "\<not> ac_todoGateUsed (fst s) \<and> \<not> interrupted (fst s) \<and> hasUnfinishedTodos (ac_Todo (fst s))")
  case True
  then have "spends (fst s) (Continue, onTurn env (append_messages ms ((fst s)\<lparr>ac_todoGateUsed := True\<rparr>), snd s))" for ms
    by (intro spends_spare [OF spare_used(1)]) simp_all
  then show ?thesis unfolding todo_gate_def if_P [OF True] .
next
  case False
  then show ?thesis using stop_gate_spends [of s] unfolding todo_gate_def by (simp only: if_False)
qed

lemma pending_gate_spends: "spends (fst s) (pending_gate env cfg r s)"
proof (cases "lc_PendingTasksNudge cfg \<and> ce_TaskState (re_compact env) \<noteq> None \<and> \<not> ac_pendingTasksNudged (fst s) \<and>
    task_state (re_compact env) (snd s) \<noteq> []")
  case True
  then have "spends (fst s) (Continue, onTurn env (append_messages ms ((fst s)\<lparr>ac_pendingTasksNudged := True\<rparr>), snd s))" for ms
    by (intro spends_spare [OF spare_used(2)]) simp_all
  then show ?thesis unfolding pending_gate_def Let_def if_P [OF True] .
next
  case False
  then show ?thesis using todo_gate_spends [of s] unfolding pending_gate_def Let_def by (simp only: if_False)
qed

definition silent_inbox :: "'w run_env \<Rightarrow> bool" where
  "silent_inbox env \<longleftrightarrow> (case re_Poll env of None \<Rightarrow> True | Some p \<Rightarrow> \<forall>w. fst (p w) = [])"

text \<open>The state with which the gates are asked, \<open>None\<close> where the round continues before them.\<close>

lemma final_round_kept:
  "kept (fst s) (fst (snd (final_round env cfg r s))) \<and>
   (silent_inbox env \<longrightarrow> spends (fst s) (final_round env cfg r s))"
proof -
  obtain ac w where s: "s = (ac, w)" by fastforce
  let ?n = "rd_content r = [] \<and> lc_PostToolNudge cfg \<and> ac_afterTools ac \<and> \<not> ac_postToolNudgePending ac \<and> \<not> ac_postToolNudgeUsed ac"
  define ac1 where "ac1 = ac\<lparr>ac_afterTools := False\<rparr>"
  have g: "spends ac (pending_gate env cfg r (b, w1))" if "gates b = gates ac" for b w1
    using spends_same [OF that pending_gate_spends [of "(b, w1)", unfolded fst_conv]] .
  have both: "kept ac (fst (snd x))" if "spends ac x" for x :: "flow \<times> agent_context \<times> 'a"
    using that by (simp add: spends_def)
  show ?thesis
  proof (cases ?n)
    case True
    then have "spends ac (Continue, ac\<lparr>ac_postToolNudgePending := True, ac_postToolNudgeUsed := True, ac_afterTools := False\<rparr>, w)"
      by (intro spends_spare [OF spare_used(4)]) (simp_all add: gates_def)
    with both [OF this] True show ?thesis by (simp add: final_round_def s)
  next
    case no: False
    show ?thesis
    proof (cases "re_Poll env")
      case None
      have "spends ac (final_round env cfg r s)"
        using no None unfolding final_round_def s by (simp add: Let_def) (intro conjI impI g; simp)
      with both [OF this] s show ?thesis by simp
    next
      case (Some p)
      obtain ins w1 where p: "p w = (ins, w1)" by fastforce
      define ac2 where "ac2 = (if rd_content r \<noteq> [] then append_history [reply_message cfg r []] (append_messages [reply_message cfg r []] ac1) else ac1)"
      have a2: "gates ac2 = gates ac" by (simp add: ac2_def ac1_def)
      have e: "final_round env cfg r s =
        (if ins \<noteq> [] then (Continue, onTurn env (append_messages ins ac2, w1)) else pending_gate env cfg r (ac2, w1))"
        unfolding final_round_def s prod.case if_not_P [OF no] by (simp add: Let_def Some p ac2_def ac1_def)
      have "kept ac (fst (onTurn env (append_messages ins ac2, w1)))" by (rule kept_same) (simp add: a2)
      moreover have "silent_inbox env \<Longrightarrow> ins = []" using Some p by (auto simp: silent_inbox_def dest: spec [of _ w])
      ultimately show ?thesis using g [OF a2, of w1] both [OF g [OF a2, of w1]] unfolding e by (auto simp: s)
    qed
  qed
qed


lemma tool_round_kept: "kept (fst s) (fst (snd (tool_round env cfg r s)))"
proof -
  obtain res ac1 w1 where rt: "runTools (re_engine env) (re_tools env) (rd_calls r) s = (res, ac1, w1)"
    by (metis prod.collapse)
  from kept_runTools [of "fst s" s, OF kept_refl, of "re_engine env" "re_tools env" "rd_calls r"] rt
  have k: "kept (fst s) ac1" by simp
  show ?thesis
  proof (cases "\<exists>rs. res = Inr (Some rs)")
    case False
    then show ?thesis using k rt by (auto simp: tool_round_def split: sum.split option.split)
  next
    case True
    then obtain rs where rs: "res = Inr (Some rs)" by blast
    define ac2 where "ac2 = append_history [reply_message cfg r (rd_calls r)] (append_messages [reply_message cfg r (rd_calls r)]
      (resetGoalAlignment (re_command_of env) (rd_calls r) rs ac1))"
    have "kept (fst s) ac2" by (rule kept_frame [OF _ k]) (simp add: ac2_def)
    moreover have "kept (fst s) (fst (onTurn env (ac3\<lparr>ac_afterTools := True\<rparr>, w1)))"
      if "write_results env rs (rd_calls r) ac2 = Some ac3" for ac3
      by (rule kept_frame [OF _ k]) (simp add: gates_write_results [OF that] ac2_def)
    ultimately show ?thesis using rt rs
      by (simp add: tool_round_def Let_def ac2_def [symmetric] split: option.split)
  qed
qed

text \<open>The model never asks for tools.\<close>

definition talks_only :: "'w run_env \<Rightarrow> bool" where
  "talks_only env \<longleftrightarrow>
     (\<forall>rq w. list_all (\<lambda>e. case e of LLMEndEvent x \<Rightarrow> en_Calls x = [] | _ \<Rightarrow> True) (so_events (fst (re_Stream env rq w))))"

lemma translate_calls:
  "list_all (\<lambda>e. case e of LLMEndEvent x \<Rightarrow> en_Calls x = [] | _ \<Rightarrow> True) es \<Longrightarrow>
   (\<forall>r. snd s = Some r \<longrightarrow> rd_calls r = []) \<Longrightarrow> snd (fold translate es s) = Some r \<Longrightarrow> rd_calls r = []"
proof (induction es arbitrary: s)
  case (Cons e es)
  have "\<forall>r. snd (translate e s) = Some r \<longrightarrow> rd_calls r = []"
    using Cons.prems(1,2) by (cases s; cases e) (auto simp: Let_def)
  with Cons show ?case by simp
qed simp

lemma stream_attempts_result:
  assumes "\<And>s r e s1. once s = ((Some r, e), s1) \<Longrightarrow> P r" and "P empty_round"
  shows "(case fst (stream_attempts once wait backoff m a s) of Inr r \<Rightarrow> P r | Inl e \<Rightarrow> True)"
  by (rule stream_attempts_rule [where P = "\<lambda>a s x. case fst x of Inr r \<Rightarrow> P r | Inl e \<Rightarrow> True"])
    (auto simp: ended_by_ctx_def assms split: option.splits)

lemma model_round_calls:
  assumes "talks_only env" "model_round env cfg s = (Inr r, evs, s1)"
  shows "rd_calls r = []"
proof -
  have once: "rd_calls r = []" if o1: "streamOnce env cfg s = ((Some r, e), s1)" for s r e s1
  proof -
    obtain ac w where s: "s = (ac, w)" by fastforce
    define rq where "rq = \<lparr>rq_Model = lc_Model cfg, rq_MaxTokens = lc_MaxTokens cfg,
      rq_Messages = request_messages cfg (expand_inputs env ac), rq_Tools = toolSchemas env (ac_Mode (expand_inputs env ac))\<rparr>"
    have t: "list_all (\<lambda>e. case e of LLMEndEvent x \<Rightarrow> en_Calls x = [] | _ \<Rightarrow> True) (so_events (fst (re_Stream env rq w)))"
      using assms(1) by (simp add: talks_only_def)
    have "snd (fold translate (so_events (fst (re_Stream env rq w))) (begin_request cfg (expand_inputs env ac), None)) = Some r"
      using o1 by (simp add: streamOnce_def s Let_def rq_def [symmetric] split: prod.splits)
    from translate_calls [OF t _ this] show ?thesis by simp
  qed
  have "case fst (model_round env cfg s) of Inr r \<Rightarrow> rd_calls r = [] | Inl e \<Rightarrow> True"
    unfolding model_round_def streamWithRetry_def
    by (rule stream_attempts_result) (auto simp: empty_round_def dest: once)
  with assms(2) show ?thesis by simp
qed

lemma take_round_kept:
  assumes "kept a (fst s)"
  shows "kept a (rs_ac (snd (take_round env cfg r st s))) \<and>
    (silent_inbox env \<and> rd_calls r = [] \<and> fst (take_round env cfg r st s) = Continue \<longrightarrow>
       spare (rs_ac (snd (take_round env cfg r st s))) < spare a)"
proof -
  define s1 where "s1 = (adopt_round cfg r (fst s), snd s)"
  have k: "kept a (fst s1)" by (rule kept_frame [OF _ assms]) (simp add: s1_def)
  obtain f2 s2 where f: "final_round env cfg r s1 = (f2, s2)" by (metis prod.collapse)
  obtain f3 s3 where t: "tool_round env cfg r s1 = (f3, s3)" by (metis prod.collapse)
  have "kept a (fst s2)" "kept a (fst s3)"
    using final_round_kept [of s1 env cfg r] tool_round_kept [of s1 env cfg r] f t kept_trans [OF k] by auto
  moreover have "silent_inbox env \<Longrightarrow> f2 = Continue \<Longrightarrow> spare (fst s2) < spare a"
    using final_round_kept [of s1 env cfg r] k by (auto simp: f spends_def kept_def)
  ultimately show ?thesis by (simp add: take_round_def Let_def s1_def [symmetric] f t put_def)
qed

lemma run_round_spends:
  assumes "kept a (fst s)" "\<not> ac_stopped (fst s)"
  shows "kept a (rs_ac (snd (run_round env cfg st s))) \<and>
    (silent_inbox env \<and> talks_only env \<and> fst (run_round env cfg st s) = Continue \<longrightarrow>
       spare (rs_ac (snd (run_round env cfg st s))) < spare a)"
proof -
  define s1 where "s1 = snd (maybeCompact (re_compact env) cfg (ac_forceCompact (fst s)) ((fst s)\<lparr>ac_forceCompact := False\<rparr>, snd s))"
  have g: "gates (fst s1) = gates (fst s)" by (simp add: s1_def)
  have k1: "kept a (fst s1)" by (rule kept_frame [OF g assms(1)])
  obtain res evs s2 where m: "model_round env cfg s1 = (res, evs, s2)" by (metis prod.collapse)
  with kept_model_round [OF k1, of env cfg] have k2: "kept a (fst s2)" by simp
  show ?thesis
  proof (cases "ac_forceCompact (fst s)")
    case True
    have "spare (Stop (fst s1)) < spare a"
      using spare_Stop(2) [of "fst s1"] g assms(2) k1 by (simp add: gates_def kept_def)
    moreover have "run_round env cfg st s = (Continue, put st (Stop (fst s1), snd s1))"
      using True unfolding run_round_def Let_def s1_def by simp
    ultimately show ?thesis using kept_Stop [OF k1] by (simp add: put_def)
  next
    case no: False
    show ?thesis
    proof (cases res)
      case (Inr r)
      have e: "run_round env cfg st s = take_round env cfg r st s2"
        using no m Inr by (simp add: run_round_def Let_def s1_def)
      have "talks_only env \<Longrightarrow> rd_calls r = []" by (rule model_round_calls [OF _ m [unfolded Inr]])
      with take_round_kept [OF k2] show ?thesis by (auto simp: e)
    next
      case (Inl e)
      obtain ac2 w2 where s2: "s2 = (ac2, w2)" by fastforce
      define s3 where "s3 = snd (maybeCompact (re_compact env) cfg True (ac2\<lparr>ac_overflowRetryUsed := True\<rparr>, w2))"
      have r: "run_round env cfg st s =
          (if \<not> ac_overflowRetryUsed ac2 \<and> ce_Compressor (re_compact env) \<noteq> None \<and> isContextOverflowError e
           then (Continue, put st s3) else (Break, put st (ac2\<lparr>ac_Err := Some e\<rparr>, w2)))"
        using no m Inl unfolding s3_def by (simp add: run_round_def Let_def s1_def s2)
      have g3: "gates (fst s3) = gates (ac2\<lparr>ac_overflowRetryUsed := True\<rparr>)" by (simp add: s3_def)
      have s3: "kept a (fst s3) \<and> spare (fst s3) < spare a" if "\<not> ac_overflowRetryUsed ac2"
        using spends_spare [OF spare_used(3) [OF that] _ g3, of Continue] k2 s2 by (auto simp: spends_def kept_def)
      have "kept a (ac2\<lparr>ac_Err := Some e\<rparr>)" by (rule kept_frame [OF gates_frame(13)]) (use k2 s2 in simp)
      with s3 show ?thesis by (auto simp: r put_def)
    qed
  qed
qed

lemma iterate_spends:
  assumes "iterate env cfg st = (f, st1)"
  shows "kept (rs_ac st) (rs_ac st1) \<and>
    (silent_inbox env \<and> talks_only env \<and> f = Continue \<longrightarrow> spare (rs_ac st1) < spare (rs_ac st))"
proof -
  define s0 where "s0 = observe_run env (rs_ac st, rs_w st)"
  define s1 where "s1 = poll_top env s0"
  define ac2 where "ac2 = consume_commands env (fst s1)"
  have k0: "kept (rs_ac st) (fst s0)" unfolding s0_def by (rule kept_observe) simp
  have g2: "gates ac2 = gates (fst s0)" by (simp add: ac2_def s1_def)
  have k2: "kept (rs_ac st) ac2" by (rule kept_frame [OF g2 k0])
  have e: "iterate env cfg st =
    (if ac_aborted (fst s0) \<or> ac_stopped (fst s0) then (Break, put st s0)
     else if ac_forceClear ac2 then (Continue, put st (clear_context ac2, snd s1))
     else case settle cfg ac2 of None \<Rightarrow> (Panic, put st (ac2, snd s1)) | Some ac3 \<Rightarrow> run_round env cfg st (ac3, snd s1))"
    unfolding iterate_def Let_def s0_def s1_def ac2_def ..
  show ?thesis
  proof (cases "ac_aborted (fst s0) \<or> ac_stopped (fst s0)")
    case True
    with k0 assms show ?thesis by (auto simp: e put_def)
  next
    case False
    then have ns: "\<not> ac_stopped ac2" using g2 by (simp add: gates_def)
    show ?thesis
    proof (cases "ac_forceClear ac2")
      case True
      have g: "gates (clear_context ac2) = gates (Stop ac2)" by (simp add: clear_context_def Let_def) (simp add: gates_def Stop_def)
      have "kept (rs_ac st) (clear_context ac2)" by (rule kept_frame [OF g kept_Stop [OF k2]])
      moreover have "spare (clear_context ac2) < spare (rs_ac st)"
        using kept_same [OF g] spare_Stop(2) [OF ns] k2 by (simp add: kept_def)
      ultimately show ?thesis using True False assms by (auto simp: e put_def)
    next
      case no: False
      show ?thesis
      proof (cases "settle cfg ac2")
        case None
        with no False k2 assms show ?thesis by (auto simp: e put_def)
      next
        case (Some ac3)
        have g3: "gates ac3 = gates ac2" by (rule gates_settle [OF Some])
        have "kept (rs_ac st) (fst (ac3, snd s1))" "\<not> ac_stopped (fst (ac3, snd s1))"
          using kept_frame [OF g3 k2] g3 ns by (simp_all add: gates_def)
        from run_round_spends [OF this, of env cfg st] show ?thesis using no False Some assms by (simp add: e)
      qed
    qed
  qed
qed

text \<open>C2. A run whose model only talks and whose user stays silent ends, also without a limit on
  the iterations, and within fourteen of them: every continuation spends one of thirteen spare
  rounds (eight for the Stop hook, one each for unfinished todos, pending tasks, a silent reply
  after tools, an exceeded context, and a command that stops the run).\<close>

theorem quiet_run_ends:
  assumes "talks_only env" and "silent_inbox env"
  shows "\<exists>out st. RunStream env cfg base extra md td input w = Some (out, st) \<and> ac_Iteration (rs_ac st) \<le> 14"
proof -
  define st0 where "st0 = \<lparr>rs_ac = start_run env cfg base extra md td input, rs_w = w, rs_content = [], rs_reasoning = [], rs_calls = []\<rparr>"
  obtain ms ac1 where i: "injectCommands (re_commands env) input (new_context cfg md td) = (ms, ac1)" by fastforce
  obtain ms1 changed where p: "install_prompt (run_prompt base extra md) ms = (ms1, changed)" by fastforce
  have it: "ac_Iteration (rs_ac st0) = 1"
    by (simp add: st0_def start_run_def i p Let_def append_history_def)
  have sp: "spare ac \<le> 13" if "0 \<le> ac_stopHookBlocks ac" for ac
  proof -
    have o1: "of_bool b \<le> (1 :: nat)" for b by simp
    have "nat (maxStopHookBlocks - ac_stopHookBlocks ac) \<le> 8" using that by (simp add: maxStopHookBlocks_def)
    then show ?thesis unfolding spare_def
      using o1 [of "\<not> ac_todoGateUsed ac"] o1 [of "\<not> ac_pendingTasksNudged ac"] o1 [of "\<not> ac_postToolNudgeUsed ac"]
        o1 [of "\<not> ac_overflowRetryUsed ac"] o1 [of "\<not> ac_stopped ac"] by linarith
  qed
  have "gates ac1 = gates (new_context cfg md td)" by (rule gates_injectCommands [OF i])
  then have "ac_stopHookBlocks ac1 = 0" by (simp add: gates_def new_context_def)
  then have "0 \<le> ac_stopHookBlocks (rs_ac st0)"
    by (simp add: st0_def start_run_def i p Let_def append_history_def)
  then have sp0: "spare (rs_ac st0) \<le> 13" by (rule sp)
  have "\<exists>f st'. run_loop env cfg st0 = Some (f, st') \<and> ac_Iteration (rs_ac st') \<le> ac_Iteration (rs_ac st0) + int (spare (rs_ac st0))"
  proof (rule run_loop_measure [where Q = "\<lambda>st. True" and m = "\<lambda>st. spare (rs_ac st)"])
    show "True \<and> spare (rs_ac (next_iteration st1)) < spare (rs_ac st) \<and> ac_Iteration (rs_ac st1) = ac_Iteration (rs_ac st)"
      if "iterate env cfg st = (Continue, st1)" for st st1
      using iterate_spends [OF that] assms by (simp add: next_iteration_def kept_def spare_def)
    show "ac_Iteration (rs_ac st1) = ac_Iteration (rs_ac st)" if "iterate env cfg st = (f, st1)" for st f st1
      using iterate_spends [OF that] by (simp add: kept_def)
  qed simp
  then obtain f st' where r: "run_loop env cfg st0 = Some (f, st')" "ac_Iteration (rs_ac st') \<le> 1 + int (spare (rs_ac st0))"
    unfolding it by blast
  have "ac_Iteration (rs_ac st') \<le> 14" using r(2) sp0 by linarith
  then show ?thesis unfolding RunStream_def st0_def [symmetric] r(1) by simp
qed

text \<open>With a limit on the iterations every run ends, whatever model, tools, user and hooks do.\<close>

theorem limited_run_ends:
  assumes "0 < lc_MaxIterations cfg"
  shows "\<exists>out st. RunStream env cfg base extra md td input w = Some (out, st)"
proof -
  have "\<exists>f st'. run_loop env cfg st = Some (f, st') \<and>
      ac_Iteration (rs_ac st') \<le> ac_Iteration (rs_ac st) + int (nat (lc_MaxIterations cfg + 1 - ac_Iteration (rs_ac st)))" for st
  proof (rule run_loop_measure [where Q = "\<lambda>st. True"])
    show "True \<and> nat (lc_MaxIterations cfg + 1 - ac_Iteration (rs_ac (next_iteration st1))) <
        nat (lc_MaxIterations cfg + 1 - ac_Iteration (rs_ac st)) \<and> ac_Iteration (rs_ac st1) = ac_Iteration (rs_ac st)"
      if "\<not> over cfg st" "iterate env cfg st = (Continue, st1)" for st st1
      using iterate_spends [OF that(2)] that(1) assms by (simp add: next_iteration_def kept_def over_def)
    show "ac_Iteration (rs_ac st1) = ac_Iteration (rs_ac st)" if "iterate env cfg st = (f, st1)" for st f st1
      using iterate_spends [OF that] by (simp add: kept_def)
  qed simp
  then show ?thesis unfolding RunStream_def by fastforce
qed


section \<open>What gets lost\<close>

text \<open>The two reminders that are added to a request only, not to the context, are lost when
  that attempt fails: the next attempt of the same round is sent without them, and since both
  count as given no later request of the run brings back the nudge.\<close>

theorem reminders_lost_on_retry:
  "(let ac = expand_inputs env (fst s); s1 = snd (streamOnce env cfg s);
        s2 = snd (wait_retry env d (charge_partial e (fst s1), snd s1))
    in request_messages cfg (expand_inputs env (fst s2)) = ac_Messages (expand_inputs env (fst s2)) \<and>
       (request_messages cfg ac = ac_Messages ac) = (\<not> goal_due cfg ac \<and> \<not> ac_postToolNudgePending ac))"
proof -
  obtain ac w where s: "s = (ac, w)" by fastforce
  define tr where "tr = (\<lambda>a :: agent_context. goal_due cfg a \<or> ac_postToolNudgePending a)"
  define fl where "fl = (\<lambda>a :: agent_context. (ac_goalRounds a, ac_goalInjected a, ac_postToolNudgePending a))"
  have same: "tr b = tr c" if "fl b = fl c" for b c using that by (simp add: tr_def fl_def goal_due_def)
  have keep: "fl (addUsage u a) = fl a" "fl (a\<lparr>ac_est := es\<rparr>) = fl a" "fl (charge_partial e a) = fl a"
    "fl (fst (observe_run env x)) = fl (fst x)" "fl (expand_inputs env a) = fl a" for u a es x
    by (auto simp: fl_def addUsage_def charge_partial_def observe_run_def expand_inputs_def split: option.split prod.split)
  have t: "fl (fst (fold translate es x)) = fl (fst x)" for es x
  proof (induction es arbitrary: x)
    case (Cons y es)
    have "fl (fst (translate y x)) = fl (fst x)" by (cases x; cases y) (simp_all add: Let_def keep)
    with Cons show ?case by simp
  qed simp
  have b: "\<not> tr (begin_request cfg a)" for a by (auto simp: tr_def begin_request_def goal_due_def)
  have "fl (fst (snd (streamOnce env cfg s))) = fl (begin_request cfg (expand_inputs env ac))"
    by (auto simp: streamOnce_def s Let_def keep split: prod.split) (metis t fst_conv)
  then have "\<not> tr (fst (snd (streamOnce env cfg s)))" using same b by blast
  moreover have "tr (expand_inputs env (fst (snd (wait_retry env d (charge_partial e a, w))))) = tr a" for a w
    by (rule same) (simp add: wait_retry_def Let_def keep)
  ultimately have "\<not> tr (expand_inputs env (fst (snd (wait_retry env d (charge_partial e (fst (snd (streamOnce env cfg s))), snd (snd (streamOnce env cfg s)))))))"
    by simp
  then show ?thesis unfolding Let_def by (auto simp: request_messages_def tr_def)
qed

text \<open>Of inputs of the user that arrive at the end of a round and again before the next one only
  the later ones have their file references expanded: the second arrival moves the mark behind
  the first ones, which reach the model as they were typed, now and in every later request.\<close>

theorem earlier_input_not_expanded:
  assumes "re_Poll env = Some p" and "p w = (first, w1)" and "first \<noteq> []"
    and "p (re_OnTurn env (append_messages first ac) w1) = (later, w2)" and "later \<noteq> []"
  shows "ac_Messages (expand_inputs env (fst (poll_top env (onTurn env (append_messages first ac, w1))))) =
    ac_Messages ac @ first @ expandUserRefsInMessages (ce_expand (re_compact env)) later"
  using assms
  by (simp add: poll_top_def onTurn_def append_messages_def expand_inputs_def expand_from_def Let_def nat_int_add)

definition demo_compact :: "'w compact_env" where
  "demo_compact = \<lparr>ce_Compressor = None, ce_now = (\<lambda>w. 0), ce_PreCompact = None, ce_TaskState = None,
     ce_expand = (\<lambda>t. t @ ''!''), ce_margin = id, ce_budget = 0\<rparr>"

text \<open>An environment whose world counts the model calls; tools echo their arguments.\<close>

definition demo_env :: "(nat \<Rightarrow> stream_event list) \<Rightarrow> (nat \<Rightarrow> message list \<times> nat) option \<Rightarrow> nat run_env" where
  "demo_env reply poll =
     \<lparr>re_commands = \<lparr>cm_Compressor = False, cm_Skills = None\<rparr>, re_compact = demo_compact, re_engine = True,
      re_tools = \<lparr>te_GetTool = te_GetTool echo_env,
        te_RunBatch = (\<lambda>cs w. (Inr (map (\<lambda>c. plain_result (tc_id c) (tc_args c) False) cs), w)),
        te_jsonValid = (\<lambda>s. True), te_sha = id, te_PreToolUse = None, te_PostToolBatch = None, te_PostToolUse = None\<rparr>,
      re_schemas = Some [\<lparr>sm_Name = ''write_file'', sm_Body = []\<rparr>, \<lparr>sm_Name = ''read_file'', sm_Body = []\<rparr>],
      re_Stream = (\<lambda>rq n. (\<lparr>so_events = reply n, so_err = None, so_cause = None, so_self = False\<rparr>, n + 1)),
      re_wait = (\<lambda>d n. n), re_rnd = (\<lambda>h. 0), re_Poll = poll, re_OnTurn = (\<lambda>ac n. n), re_Stop = None,
      re_flags = (\<lambda>n. (False, False, False)), re_todo = (\<lambda>n t. t), re_arg_path = id, re_arg_lines = (\<lambda>s. None),
      re_command_of = id, re_grow = (\<lambda>a b. b), re_fs_ok = True, re_run_id = ''r''\<rparr>"

definition says :: "tool_call list \<Rightarrow> string \<Rightarrow> stream_event" where
  "says calls t = LLMEndEvent \<lparr>en_Calls = calls, en_Finish = (if calls = [] then FinishStop else FinishToolCall),
     en_Content = t, en_Reasoning = [], en_Signature = [], en_Usage = zero_usage, en_RequestId = ''r'', en_RawFinish = ''stop''\<rparr>"

text \<open>A run that reads a file and then answers.\<close>

definition reading_run :: "nat run_env" where
  "reading_run = demo_env (\<lambda>n. [if n = 0 then says [demo_call ''c1'' ''read_file'' ''a''] [] else says [] ''done'']) None"

definition reading_start :: "nat run_state" where
  "reading_start = \<lparr>rs_ac = start_run reading_run (retry_config 1) ''s'' None None None [NewUserMessage [text_block ''read a'']],
     rs_w = 0, rs_content = [], rs_reasoning = [], rs_calls = []\<rparr>"

theorem run_keeps_exchanges_witness:
  "\<exists>st. loop_reaches reading_run (retry_config 1) reading_start st \<and> exchanges_ok (ac_Messages (rs_ac st)) \<and>
     map m_role (ac_Messages (rs_ac st)) = [System, User, Assistant, Tool]"
proof -
  obtain st1 where i: "iterate reading_run (retry_config 1) reading_start = (Continue, st1)"
    and r: "map m_role (ac_Messages (rs_ac st1)) = [System, User, Assistant, Tool]"
  proof -
    have "case iterate reading_run (retry_config 1) reading_start of
        (f, st1) \<Rightarrow> f = Continue \<and> map m_role (ac_Messages (rs_ac st1)) = [System, User, Assistant, Tool]" by code_simp
    then show thesis using that by (auto split: prod.splits)
  qed
  have n: "\<not> over (retry_config 1) reading_start" by (simp add: over_def retry_config_def)
  have reach: "loop_reaches reading_run (retry_config 1) reading_start (next_iteration st1)"
    by (rule loop_reaches.step [OF loop_reaches.start n i])
  have p: "plain_run reading_run (retry_config 1)"
    by (auto simp: plain_run_def reading_run_def demo_env_def demo_compact_def one_answer_each_def plain_result_def)
  have l: "lc_Slim (retry_config 1) = None" by (simp add: retry_config_def)
  have e: "exchanges_ok [NewUserMessage [text_block ''read a'']]" by code_simp
  have "exchanges_ok (ac_Messages (rs_ac (next_iteration st1)))"
    using run_keeps_exchanges [OF p l e reach [unfolded reading_start_def]] by blast
  with reach r show ?thesis by (intro exI [of _ "next_iteration st1"]) (simp add: next_iteration_def)
qed

theorem quiet_run_ends_witness:
  "\<exists>out st. RunStream (demo_env (\<lambda>n. [says [] ''hello'']) None) (retry_config 1) [] None None None [NewUserMessage [text_block ''hi'']] 0 =
     Some (out, st) \<and> ac_Iteration (rs_ac st) \<le> 14"
  by (rule quiet_run_ends) (simp_all add: talks_only_def silent_inbox_def demo_env_def says_def)

theorem limited_run_ends_witness:
  "\<exists>out st. RunStream (demo_env (\<lambda>n. [says [demo_call ''c1'' ''read_file'' ''a''] []]) None)
     ((retry_config 1)\<lparr>lc_MaxIterations := 3\<rparr>) [] None None None [NewUserMessage [text_block ''hi'']] 0 = Some (out, st)"
  by (rule limited_run_ends) simp

text \<open>The user sends two messages with a reference each, one before and one after the checkpoint.\<close>

theorem earlier_input_not_expanded_witness:
  "ac_Messages (expand_inputs (demo_env (\<lambda>n. []) (Some (\<lambda>n. ([user_text (if n = 0 then ''@a'' else ''@b'')], n + 1))))
     (fst (poll_top (demo_env (\<lambda>n. []) (Some (\<lambda>n. ([user_text (if n = 0 then ''@a'' else ''@b'')], n + 1))))
        (onTurn (demo_env (\<lambda>n. []) (Some (\<lambda>n. ([user_text (if n = 0 then ''@a'' else ''@b'')], n + 1))))
          (append_messages [user_text ''@a''] (new_context (retry_config 1) None None), 1))))) =
   [user_text ''@a'', user_text ''@b!'']"
  by (subst earlier_input_not_expanded [where p = "\<lambda>n. ([user_text (if n = 0 then ''@a'' else ''@b'')], n + 1)" and w = 0
      and first = "[user_text ''@a'']" and later = "[user_text ''@b'']"])
    (simp_all add: demo_env_def new_context_def demo_compact_def expandUserRefsInMessages_def expand_message_def user_text_def
      constructor_defs)

section \<open>The tools of a request\<close>

lemma filter_split_mset: "mset (filter P xs @ filter (\<lambda>x. \<not> P x) xs) = mset xs"
  by (induction xs) simp_all

text \<open>A request lists exactly the registered tools that the mode allows, the read-only ones
  first; switching between modes that allow the same read-only tools leaves that part of the
  request, which the provider caches, as it is.\<close>

theorem tool_schemas_of_mode:
  assumes "re_engine env" and "re_schemas env = Some ss"
    and "\<forall>t. t_read_only t \<longrightarrow> allowed md t = allowed md' t"
  shows "mset (toolSchemas env md) = mset (visible_tools env md ss) \<and>
    filter (schema_read_only env) (toolSchemas env md) = filter (schema_read_only env) (toolSchemas env md') \<and>
    (\<exists>n. \<forall>i < length (toolSchemas env md). schema_read_only env (toolSchemas env md ! i) \<longleftrightarrow> i < n)"
proof -
  let ?v = "\<lambda>md. visible_tools env md ss"
  have t: "toolSchemas env md = filter (schema_read_only env) (?v md) @ filter (\<lambda>s. \<not> schema_read_only env s) (?v md)" for md
    using assms(1,2) by (simp add: toolSchemas_def Let_def)
  have "filter (schema_read_only env) (?v md) = filter (schema_read_only env) (?v md')"
    unfolding visible_tools_def filter_filter
    by (rule filter_cong [OF refl]) (use assms(3) in \<open>auto simp: schema_read_only_def split: option.splits\<close>)
  then have "filter (schema_read_only env) (toolSchemas env md) = filter (schema_read_only env) (toolSchemas env md')"
    by (simp add: t)
  moreover have "\<forall>i < length (toolSchemas env md). schema_read_only env (toolSchemas env md ! i) \<longleftrightarrow> i < length (filter (schema_read_only env) (?v md))"
  proof (intro allI impI)
    fix i assume i: "i < length (toolSchemas env md)"
    show "schema_read_only env (toolSchemas env md ! i) \<longleftrightarrow> i < length (filter (schema_read_only env) (?v md))"
    proof (cases "i < length (filter (schema_read_only env) (?v md))")
      case True
      then have "toolSchemas env md ! i \<in> set (filter (schema_read_only env) (?v md))"
        unfolding t nth_append_left [OF True] by (rule nth_mem)
      with True show ?thesis by simp
    next
      case False
      then have "toolSchemas env md ! i \<in> set (filter (\<lambda>s. \<not> schema_read_only env s) (?v md))"
        using i unfolding t nth_append by (simp only: if_False) (rule nth_mem, simp)
      with False show ?thesis by simp
    qed
  qed
  ultimately show ?thesis using filter_split_mset t by metis
qed


theorem tool_schemas_of_mode_witness:
  "mset (toolSchemas (demo_env (\<lambda>n. []) None) None) = {#\<lparr>sm_Name = ''write_file'', sm_Body = []\<rparr>, \<lparr>sm_Name = ''read_file'', sm_Body = []\<rparr>#}"
  using tool_schemas_of_mode [of "demo_env (\<lambda>n. []) None" "[\<lparr>sm_Name = ''write_file'', sm_Body = []\<rparr>, \<lparr>sm_Name = ''read_file'', sm_Body = []\<rparr>]"
      None "Some plan_mode"]
  by (simp add: demo_env_def visible_tools_def allowed_def plan_mode_def echo_env_def)

end
