(* ===== verification/ToolCallMerge.thy ===== *)
theory ToolCallMerge
  imports Messages "HOL-Library.Multiset"
begin

text \<open>
  The merger of streamed tool calls (\<open>provider/toolcall_merge.go\<close>): a call arrives in frames that
  name it by its position, by its identifier or by neither. The calls are pointers in the code; here
  they are the list \<open>ta_all\<close>, and both indexes hold positions in it.
\<close>

record tool_frame =
  fr_index :: "int option"
  fr_id :: string
  fr_name :: string
  fr_args :: string

record tool_acc =
  ta_byIndex :: "int \<rightharpoonup> nat"
  ta_byID :: "string \<rightharpoonup> nat"
  ta_all :: "tool_call list"
  ta_used :: "int list"

definition newToolCallAccumulator :: tool_acc where
  "newToolCallAccumulator = \<lparr>ta_byIndex = (\<lambda>_. None), ta_byID = (\<lambda>_. None), ta_all = [], ta_used = []\<rparr>"

lemma free_above: "i \<in> set u \<Longrightarrow> length (filter (\<lambda>x. i + 1 \<le> x) u) < length (filter (\<lambda>x. i \<le> (x :: int)) u)"
proof (induction u)
  case (Cons a u)
  have "length (filter (\<lambda>x. i + 1 \<le> x) u) \<le> length (filter (\<lambda>x. i \<le> x) u)"
    by (induction u) auto
  then show ?case using Cons by auto
qed simp

function least_free :: "int list \<Rightarrow> int \<Rightarrow> int" where
  "least_free u i = (if i \<in> set u then least_free u (i + 1) else i)"
  by auto
termination by (relation "measure (\<lambda>(u, i). length (filter (\<lambda>x. i \<le> x) u))") (auto dest: free_above)

declare least_free.simps [simp del]

definition pickIndex :: "int option \<Rightarrow> tool_acc \<Rightarrow> int" where
  "pickIndex explicit a =
     (case explicit of
        Some i \<Rightarrow> if i \<notin> set (ta_used a) then i else least_free (ta_used a) 0
      | None \<Rightarrow> least_free (ta_used a) 0)"

text \<open>The call a frame belongs to: by position, by identifier, or the last one.\<close>

definition lookup_call :: "tool_acc \<Rightarrow> tool_frame \<Rightarrow> nat option" where
  "lookup_call a f =
     (let c1 = (case fr_index f of Some i \<Rightarrow> ta_byIndex a i | None \<Rightarrow> None);
          c2 = (if c1 = None \<and> fr_id f \<noteq> [] then ta_byID a (fr_id f) else c1)
      in if c2 = None \<and> fr_index f = None \<and> fr_id f = [] \<and> ta_all a \<noteq> []
         then Some (length (ta_all a) - 1) else c2)"

definition new_call :: "string \<Rightarrow> int \<Rightarrow> tool_frame \<Rightarrow> tool_call" where
  "new_call requestId idx f = \<lparr>tc_id = fr_id f, tc_index = idx, tc_name = fr_name f, tc_args = [], tc_request = requestId,
     tc_parent = [], tc_depth = 0\<rparr>"

definition upd_at :: "nat \<Rightarrow> ('a \<Rightarrow> 'a) \<Rightarrow> 'a list \<Rightarrow> 'a list" where
  "upd_at p g xs = (if p < length xs then xs[p := g (xs ! p)] else xs)"

text \<open>What a call still lacks is filled in, never replaced.\<close>

definition fill_in :: "tool_frame \<Rightarrow> tool_call \<Rightarrow> tool_call" where
  "fill_in f c =
     (let c1 = (if fr_id f \<noteq> [] \<and> tc_id c = [] then c\<lparr>tc_id := fr_id f\<rparr> else c)
      in if tc_name c1 = [] \<and> fr_name f \<noteq> [] then c1\<lparr>tc_name := fr_name f\<rparr> else c1)"

definition resolve :: "string \<Rightarrow> tool_frame \<Rightarrow> tool_acc \<Rightarrow> tool_acc \<times> nat \<times> bool" where
  "resolve requestId f a =
     (let found = lookup_call a f;
          p = (case found of Some q \<Rightarrow> q | None \<Rightarrow> length (ta_all a));
          idx = pickIndex (fr_index f) a;
          a1 = (if found = None
                then a\<lparr>ta_used := idx # ta_used a, ta_all := ta_all a @ [new_call requestId idx f]\<rparr> else a);
          a2 = (case fr_index f of
                  Some i \<Rightarrow> if ta_byIndex a1 i = None then a1\<lparr>ta_byIndex := (ta_byIndex a1)(i \<mapsto> p)\<rparr> else a1
                | None \<Rightarrow> a1);
          a3 = (if fr_id f \<noteq> [] then a2\<lparr>ta_byID := (ta_byID a2)(fr_id f \<mapsto> p)\<rparr> else a2)
      in (a3\<lparr>ta_all := upd_at p (fill_in f) (ta_all a3)\<rparr>, p, found = None))"

definition add_args :: "nat \<Rightarrow> string \<Rightarrow> tool_acc \<Rightarrow> tool_acc" where
  "add_args p t a = a\<lparr>ta_all := upd_at p (\<lambda>c. c\<lparr>tc_args := tc_args c @ t\<rparr>) (ta_all a)\<rparr>"

text \<open>One frame of the stream: it is resolved and its arguments are added.\<close>

definition feed :: "string \<Rightarrow> tool_frame \<Rightarrow> tool_acc \<Rightarrow> tool_acc" where
  "feed requestId f a = (case resolve requestId f a of (a', p, n) \<Rightarrow> if fr_args f \<noteq> [] then add_args p (fr_args f) a' else a')"

definition call_list :: "tool_acc \<Rightarrow> tool_call list" where
  "call_list a = sort_key tc_index (ta_all a)"

section \<open>Positions stay distinct\<close>

text \<open>The positions of the calls are the used ones, and both indexes stay within the list.\<close>

definition acc_ok :: "tool_acc \<Rightarrow> bool" where
  "acc_ok a \<longleftrightarrow> ta_used a = rev (map tc_index (ta_all a)) \<and> distinct (map tc_index (ta_all a)) \<and>
     ran (ta_byIndex a) \<subseteq> {..<length (ta_all a)} \<and> ran (ta_byID a) \<subseteq> {..<length (ta_all a)}"

lemma least_free_fresh: "least_free u i \<notin> set u"
  by (induction u i rule: least_free.induct) (subst least_free.simps, simp)

lemma pickIndex_fresh: "pickIndex e a \<notin> set (ta_used a)"
  by (simp add: pickIndex_def least_free_fresh split: option.splits)

lemma upd_at_length [simp]: "length (upd_at p g xs) = length xs"
  by (simp add: upd_at_def)

lemma upd_at_nth: "q < length xs \<Longrightarrow> upd_at p g xs ! q = (if q = p then g (xs ! q) else xs ! q)"
  by (auto simp: upd_at_def)

lemma upd_at_end: "p = length xs \<Longrightarrow> upd_at p g (xs @ [x]) = xs @ [g x]"
  by (simp add: upd_at_def)

lemma map_upd_at: "(\<And>x. h (g x) = h x) \<Longrightarrow> map h (upd_at p g xs) = map h xs"
  by (rule nth_equalityI) (auto simp: upd_at_nth)

lemma map_upd_at_commute: "(\<And>x. h (g x) = g' (h x)) \<Longrightarrow> map h (upd_at p g xs) = upd_at p g' (map h xs)"
  by (rule nth_equalityI) (auto simp: upd_at_nth)

lemma fill_in_index [simp]: "tc_index (fill_in f c) = tc_index c"
  by (simp add: fill_in_def Let_def)

lemma fill_in_args [simp]: "tc_args (fill_in f c) = tc_args c"
  by (simp add: fill_in_def Let_def)

lemma lookup_in_range: "acc_ok a \<Longrightarrow> lookup_call a f = Some p \<Longrightarrow> p < length (ta_all a)"
  by (auto simp: lookup_call_def acc_ok_def Let_def ran_def split: option.splits if_splits)

lemma ran_upd: "ran (m(k \<mapsto> v)) \<subseteq> insert v (ran m)"
  by (auto simp: ran_def)

lemma resolve_ok:
  assumes "acc_ok a"
  shows "acc_ok (fst (resolve r f a)) \<and> fst (snd (resolve r f a)) < length (ta_all (fst (resolve r f a)))"
proof -
  have fresh: "pickIndex (fr_index f) a \<notin> tc_index ` set (ta_all a)"
    using pickIndex_fresh [of "fr_index f" a] assms by (simp add: acc_ok_def)
  show ?thesis
  proof (cases "lookup_call a f")
    case None
    then show ?thesis
      using assms fresh ran_upd [of "ta_byIndex a"] ran_upd [of "ta_byID a"]
      by (fastforce simp: resolve_def Let_def acc_ok_def map_upd_at new_call_def split: option.splits)
  next
    case (Some p)
    then show ?thesis
      using assms lookup_in_range [OF assms Some] ran_upd [of "ta_byIndex a"] ran_upd [of "ta_byID a"]
      by (fastforce simp: resolve_def Let_def acc_ok_def map_upd_at split: option.splits)
  qed
qed

lemma feed_ok: "acc_ok a \<Longrightarrow> acc_ok (feed r f a)"
  using resolve_ok [of a r f] by (auto simp: feed_def add_args_def acc_ok_def map_upd_at split: prod.splits)

section \<open>Frames find their call\<close>

text \<open>The specification: the calls in order of their first frame, each with the first identifier and
  name given for it and the concatenation of the arguments of its frames.\<close>

type_synonym call_view = "string \<times> string \<times> string"

definition view_of :: "tool_call \<Rightarrow> call_view" where
  "view_of c = (tc_id c, tc_name c, tc_args c)"

fun first_set :: "string list \<Rightarrow> string" where
  "first_set [] = []"
| "first_set (x # xs) = (if x \<noteq> [] then x else first_set xs)"

definition note_key :: "'a list \<Rightarrow> 'a \<Rightarrow> 'a list" where
  "note_key ks k = (if k \<in> set ks then ks else ks @ [k])"

definition owners :: "(tool_frame \<Rightarrow> 'k) \<Rightarrow> tool_frame list \<Rightarrow> 'k list" where
  "owners own fs = foldl note_key [] (map own fs)"

definition spec_call :: "(tool_frame \<Rightarrow> 'k) \<Rightarrow> tool_frame list \<Rightarrow> 'k \<Rightarrow> call_view" where
  "spec_call own fs k =
     (let mine = filter (\<lambda>f. own f = k) fs
      in (first_set (map fr_id mine), first_set (map fr_name mine), concat (map fr_args mine)))"

definition same_label :: "tool_frame \<Rightarrow> tool_frame \<Rightarrow> bool" where
  "same_label f g \<longleftrightarrow> (fr_index f \<noteq> None \<and> fr_index f = fr_index g) \<or> (fr_id f \<noteq> [] \<and> fr_id f = fr_id g)"

text \<open>Every frame carries a label, a label belongs to one call, and a further frame of a call carries a
  label that an earlier one has shown.\<close>

definition labelled :: "(tool_frame \<Rightarrow> 'k) \<Rightarrow> tool_frame list \<Rightarrow> bool" where
  "labelled own fs \<longleftrightarrow>
     (\<forall>f \<in> set fs. (fr_index f \<noteq> None \<or> fr_id f \<noteq> []) \<and> (\<forall>g \<in> set fs. same_label f g \<longrightarrow> own f = own g)) \<and>
     (\<forall>n < length fs. own (fs ! n) \<in> own ` set (take n fs) \<longrightarrow> (\<exists>g \<in> set (take n fs). same_label g (fs ! n)))"

lemma owners_snoc: "owners own (fs @ [f]) = note_key (owners own fs) (own f)"
  by (simp add: owners_def)

lemma owners_set: "set (owners own fs) = own ` set fs"
  by (induction fs rule: rev_induct) (auto simp: owners_snoc note_key_def, auto simp: owners_def)

lemma owners_distinct: "distinct (owners own fs)"
  by (induction fs rule: rev_induct) (auto simp: owners_snoc note_key_def, auto simp: owners_def)

lemma labelled_snoc:
  assumes "labelled own (fs @ [f])"
  shows "labelled own fs" "fr_index f \<noteq> None \<or> fr_id f \<noteq> []"
    "\<And>g. g \<in> set fs \<Longrightarrow> same_label g f \<Longrightarrow> own g = own f"
    "own f \<in> own ` set fs \<Longrightarrow> \<exists>g \<in> set fs. same_label g f"
proof -
  show "labelled own fs"
    unfolding labelled_def
  proof (intro conjI ballI allI impI)
    fix n assume n: "n < length fs" "own (fs ! n) \<in> own ` set (take n fs)"
    then show "\<exists>g \<in> set (take n fs). same_label g (fs ! n)"
      using assms unfolding labelled_def by (elim conjE) (drule spec [of _ n], simp add: nth_append)
  qed (use assms in \<open>auto simp: labelled_def\<close>)
  show "fr_index f \<noteq> None \<or> fr_id f \<noteq> []" "\<And>g. g \<in> set fs \<Longrightarrow> same_label g f \<Longrightarrow> own g = own f"
    using assms by (auto simp: labelled_def)
  show "own f \<in> own ` set fs \<Longrightarrow> \<exists>g \<in> set fs. same_label g f"
    using assms unfolding labelled_def by (elim conjE) (drule spec [of _ "length fs"], simp)
qed

definition merge_view :: "tool_frame \<Rightarrow> call_view \<Rightarrow> call_view" where
  "merge_view f v = (case v of (i, n, t) \<Rightarrow> (if i = [] then fr_id f else i, if n = [] then fr_name f else n, t @ fr_args f))"

definition place :: "tool_acc \<Rightarrow> tool_frame \<Rightarrow> nat" where
  "place a f = (case lookup_call a f of Some p \<Rightarrow> p | None \<Rightarrow> length (ta_all a))"

lemma view_fill: "view_of ((fill_in f c)\<lparr>tc_args := tc_args c @ fr_args f\<rparr>) = merge_view f (view_of c)"
  by (simp add: view_of_def fill_in_def merge_view_def Let_def)

lemma upd_at_twice: "upd_at p g (upd_at p h xs) = upd_at p (g \<circ> h) xs"
  by (rule nth_equalityI) (auto simp: upd_at_nth)

lemma feed_all:
  "ta_all (feed r f a) = upd_at (place a f) (\<lambda>c. (fill_in f c)\<lparr>tc_args := tc_args c @ fr_args f\<rparr>)
     (ta_all a @ (if lookup_call a f = None then [new_call r (pickIndex (fr_index f) a) f] else []))"
proof -
  have "(\<lambda>c. c\<lparr>tc_args := tc_args c @ t\<rparr>) \<circ> fill_in f = (\<lambda>c. (fill_in f c)\<lparr>tc_args := tc_args c @ t\<rparr>)" for t
    by (rule ext) simp
  moreover have "fill_in f = (\<lambda>c. (fill_in f c)\<lparr>tc_args := tc_args c\<rparr>)"
    by (rule ext) (simp add: fill_in_def Let_def)
  ultimately show ?thesis
    by (cases "lookup_call a f") (auto simp: feed_def resolve_def add_args_def Let_def place_def upd_at_twice split: option.splits)
qed

lemma map_view_fill:
  "map view_of (upd_at p (\<lambda>c. (fill_in f c)\<lparr>tc_args := tc_args c @ fr_args f\<rparr>) xs) = upd_at p (merge_view f) (map view_of xs)"
  by (rule map_upd_at_commute) (rule view_fill)

lemma feed_views:
  "map view_of (ta_all (feed r f a)) =
     upd_at (place a f) (merge_view f) (map view_of (ta_all a) @ (if lookup_call a f = None then [([], [], [])] else []))"
proof (cases "lookup_call a f")
  case None
  then show ?thesis
    unfolding feed_all map_view_fill by (simp add: place_def upd_at_end view_of_def new_call_def merge_view_def)
qed (simp add: feed_all map_view_fill)

lemma feed_index:
  "ta_byIndex (feed r f a) = (case fr_index f of
     Some i \<Rightarrow> if ta_byIndex a i = None then (ta_byIndex a)(i \<mapsto> place a f) else ta_byIndex a | None \<Rightarrow> ta_byIndex a)"
  by (auto simp: feed_def resolve_def add_args_def Let_def place_def split: option.splits)

lemma feed_id:
  "ta_byID (feed r f a) = (if fr_id f \<noteq> [] then (ta_byID a)(fr_id f \<mapsto> place a f) else ta_byID a)"
  by (auto simp: feed_def resolve_def add_args_def Let_def place_def split: option.splits)

text \<open>Both indexes send exactly the labels that frames have shown to the position of their call.\<close>

definition tracks :: "(tool_frame \<Rightarrow> 'k) \<Rightarrow> tool_frame list \<Rightarrow> tool_acc \<Rightarrow> bool" where
  "tracks own fs a \<longleftrightarrow>
     map view_of (ta_all a) = map (spec_call own fs) (owners own fs) \<and>
     (\<forall>i p. ta_byIndex a i = Some p \<longleftrightarrow> p < length (owners own fs) \<and> (\<exists>f \<in> set fs. fr_index f = Some i \<and> own f = owners own fs ! p)) \<and>
     (\<forall>d p. ta_byID a d = Some p \<longleftrightarrow> d \<noteq> [] \<and> p < length (owners own fs) \<and> (\<exists>f \<in> set fs. fr_id f = d \<and> own f = owners own fs ! p))"

lemma tracks_length: "tracks own fs a \<Longrightarrow> length (ta_all a) = length (owners own fs)"
  by (auto simp: tracks_def dest: map_eq_imp_length_eq)

lemma owner_position: "k \<in> own ` set fs \<Longrightarrow> \<exists>p < length (owners own fs). owners own fs ! p = k"
  using owners_set [of own fs] by (metis in_set_conv_nth)

lemma owner_unique:
  "p < length (owners own fs) \<Longrightarrow> q < length (owners own fs) \<Longrightarrow> owners own fs ! p = owners own fs ! q \<Longrightarrow> p = q"
  using owners_distinct [of own fs] by (simp add: nth_eq_iff_index_eq)

lemma lookup_tracked:
  assumes t: "tracks own fs a" and l: "labelled own (fs @ [f])"
  shows "lookup_call a f = Some p \<longleftrightarrow> p < length (owners own fs) \<and> owners own fs ! p = own f"
proof -
  note ls = labelled_snoc [OF l]
  have hit: "q < length (owners own fs) \<and> owners own fs ! q = own f"
    if "lookup_call a f = Some q" for q
  proof -
    have "(\<exists>i. fr_index f = Some i \<and> ta_byIndex a i = Some q) \<or> (fr_id f \<noteq> [] \<and> ta_byID a (fr_id f) = Some q)"
      using that ls(2) by (auto simp: lookup_call_def Let_def split: option.splits if_splits)
    then consider (i) i where "fr_index f = Some i" "ta_byIndex a i = Some q" | (d) "fr_id f \<noteq> []" "ta_byID a (fr_id f) = Some q"
      by blast
    then obtain g where "g \<in> set fs" "same_label g f" "own g = owners own fs ! q" "q < length (owners own fs)"
      using t by cases (auto simp: tracks_def same_label_def)
    then show ?thesis using ls(3) by metis
  qed
  have "lookup_call a f \<noteq> None" if "own f \<in> own ` set fs"
  proof -
    from ls(4) [OF that] obtain g where g: "g \<in> set fs" "same_label g f" by blast
    from owner_position [of "own g" own fs] g(1) obtain q where q: "q < length (owners own fs)" "owners own fs ! q = own g" by auto
    have "(\<exists>i. fr_index f = Some i \<and> ta_byIndex a i = Some q) \<or> (fr_id f \<noteq> [] \<and> ta_byID a (fr_id f) = Some q)"
    proof (cases "fr_index g \<noteq> None \<and> fr_index g = fr_index f")
      case True
      then obtain i where i: "fr_index f = Some i" by (cases "fr_index f") auto
      moreover from True i have "fr_index g = Some i" by simp
      moreover from this have "ta_byIndex a i = Some q" using t g(1) q by (auto simp: tracks_def)
      ultimately show ?thesis by blast
    next
      case False
      then have "fr_id f \<noteq> []" "fr_id g = fr_id f" using g(2) by (auto simp: same_label_def)
      moreover from this have "ta_byID a (fr_id f) = Some q" using t g(1) q by (auto simp: tracks_def)
      ultimately show ?thesis by blast
    qed
    then show ?thesis by (auto simp: lookup_call_def Let_def split: option.splits)
  qed
  then have miss: "lookup_call a f \<noteq> None" if "q < length (owners own fs)" "owners own fs ! q = own f" for q
    using that owners_set [of own fs] nth_mem [OF that(1)] by simp
  show ?thesis
  proof
    assume p: "p < length (owners own fs) \<and> owners own fs ! p = own f"
    then obtain q where q: "lookup_call a f = Some q" using miss by blast
    with hit [OF q] p owner_unique [of p own fs q] show "lookup_call a f = Some p" by simp
  qed (rule hit)
qed

lemma place_tracked:
  assumes "tracks own fs a" "labelled own (fs @ [f])"
  shows "place a f < length (owners own (fs @ [f]))" "owners own (fs @ [f]) ! place a f = own f"
    "lookup_call a f = None \<longleftrightarrow> own f \<notin> own ` set fs"
proof -
  have lk: "lookup_call a f = None \<longleftrightarrow> own f \<notin> own ` set fs"
    using lookup_tracked [OF assms] owner_position [of "own f" own fs] owners_set [of own fs]
    by (metis nth_mem not_None_eq)
  show "lookup_call a f = None \<longleftrightarrow> own f \<notin> own ` set fs" by (rule lk)
  have "place a f < length (owners own (fs @ [f])) \<and> owners own (fs @ [f]) ! place a f = own f"
  proof (cases "lookup_call a f")
    case None
    then show ?thesis using lk tracks_length [OF assms(1)] by (simp add: place_def owners_snoc note_key_def owners_set)
  next
    case (Some p)
    then show ?thesis using lk lookup_tracked [OF assms, of p] by (simp add: place_def owners_snoc note_key_def owners_set)
  qed
  then show "place a f < length (owners own (fs @ [f]))" "owners own (fs @ [f]) ! place a f = own f" by simp_all
qed

lemma spec_call_snoc:
  "spec_call own (fs @ [f]) k = (if own f = k then merge_view f (spec_call own fs k) else spec_call own fs k)"
proof -
  have fs: "first_set (xs @ [y]) = (if first_set xs = [] then y else first_set xs)" for xs y
    by (induction xs) auto
  show ?thesis by (simp add: spec_call_def Let_def fs merge_view_def)
qed

lemma spec_call_absent: "k \<notin> own ` set fs \<Longrightarrow> spec_call own fs k = ([], [], [])"
proof -
  assume "k \<notin> own ` set fs"
  then have "filter (\<lambda>f. own f = k) fs = []" by (auto simp: filter_empty_conv)
  then show ?thesis by (simp add: spec_call_def)
qed

lemma views_tracked:
  assumes t: "tracks own fs a" and l: "labelled own (fs @ [f])"
  shows "map view_of (ta_all (feed r f a)) = map (spec_call own (fs @ [f])) (owners own (fs @ [f]))"
proof -
  let ?p = "place a f" and ?os = "owners own (fs @ [f])"
  note pt = place_tracked [OF t l]
  have base: "map view_of (ta_all a) @ (if lookup_call a f = None then [([], [], [])] else []) = map (spec_call own fs) ?os"
    using t pt(3) by (auto simp: tracks_def owners_snoc note_key_def owners_set spec_call_absent)
  have "upd_at ?p (merge_view f) (map (spec_call own fs) ?os) = map (spec_call own (fs @ [f])) ?os"
  proof (rule nth_equalityI)
    fix q assume "q < length (upd_at ?p (merge_view f) (map (spec_call own fs) ?os))"
    then have q: "q < length ?os" by simp
    then have "own f = ?os ! q \<longleftrightarrow> q = ?p" using pt(1, 2) owner_unique [of q own "fs @ [f]" ?p] by auto
    then show "upd_at ?p (merge_view f) (map (spec_call own fs) ?os) ! q = map (spec_call own (fs @ [f])) ?os ! q"
      using q by (simp add: upd_at_nth spec_call_snoc)
  qed simp
  then show ?thesis by (simp only: feed_views base)
qed

lemma owners_prefix: "q < length (owners own fs) \<Longrightarrow> owners own (fs @ [f]) ! q = owners own fs ! q"
  by (simp add: owners_snoc note_key_def nth_append)

lemma tracks_feed:
  assumes t: "tracks own fs a" and l: "labelled own (fs @ [f])"
  shows "tracks own (fs @ [f]) (feed r f a)"
proof -
  let ?p = "place a f" and ?os = "owners own (fs @ [f])"
  note pt = place_tracked [OF t l] and ls = labelled_snoc [OF l]
  have mono: "q < length (owners own fs) \<Longrightarrow> q < length ?os" for q by (simp add: owners_snoc note_key_def)
  have inside: "q < length (owners own fs)" if "q < length ?os" "g \<in> set fs" "own g = ?os ! q" for q g
  proof -
    from owner_position [of "own g" own fs] that(2) obtain q' where q': "q' < length (owners own fs)" "owners own fs ! q' = own g" by auto
    then have "q' = q" using that owner_unique [of q' own "fs @ [f]" q] by (simp add: mono owners_prefix)
    then show ?thesis using q' by simp
  qed
  have eq: "(q < length (owners own fs) \<and> own g = owners own fs ! q) \<longleftrightarrow> (q < length ?os \<and> own g = ?os ! q)" if "g \<in> set fs" for g q
    using inside [OF _ that, of q] by (cases "q < length (owners own fs)") (auto simp: mono owners_prefix)
  have old: "(q < length (owners own fs) \<and> (\<exists>g \<in> set fs. P g \<and> own g = owners own fs ! q)) \<longleftrightarrow>
      (q < length ?os \<and> (\<exists>g \<in> set fs. P g \<and> own g = ?os ! q))" for P q
    using eq [of _ q] by blast
  have here: "q < length ?os \<and> own f = ?os ! q \<longleftrightarrow> q = ?p" for q
    using pt(1, 2) owner_unique [of q own "fs @ [f]" ?p] by auto
  have idx: "ta_byIndex (feed r f a) i = Some q \<longleftrightarrow> q < length ?os \<and> (\<exists>g \<in> set (fs @ [f]). fr_index g = Some i \<and> own g = ?os ! q)" for i q
  proof (cases "fr_index f = Some i")
    case True
    have hit: "ta_byIndex a i = Some q' \<Longrightarrow> q' = ?p" for q'
    proof -
      assume "ta_byIndex a i = Some q'"
      then have "q' < length (owners own fs) \<and> (\<exists>g \<in> set fs. fr_index g = Some i \<and> own g = owners own fs ! q')"
        using t unfolding tracks_def by blast
      then obtain g where "g \<in> set fs" "fr_index g = Some i" "own g = ?os ! q'" "q' < length ?os"
        unfolding old by blast
      then show "q' = ?p" using ls(3) [of g] True here [of q'] by (simp add: same_label_def)
    qed
    have same: "own g = own f" if "g \<in> set (fs @ [f])" "fr_index g = Some i" for g
      using that ls(3) [of g] True by (auto simp: same_label_def)
    have "ta_byIndex (feed r f a) i = Some q \<longleftrightarrow> q = ?p"
      using True hit by (auto simp: feed_index)
    moreover have "(\<exists>g \<in> set (fs @ [f]). fr_index g = Some i \<and> own g = ?os ! q) \<longleftrightarrow> own f = ?os ! q"
      using same True by (metis in_set_conv_decomp)
    ultimately show ?thesis using here [of q] by blast
  next
    case False
    then have "ta_byIndex (feed r f a) i = ta_byIndex a i" by (auto simp: feed_index split: option.splits)
    then have "ta_byIndex (feed r f a) i = Some q \<longleftrightarrow> q < length (owners own fs) \<and> (\<exists>g \<in> set fs. fr_index g = Some i \<and> own g = owners own fs ! q)"
      using t unfolding tracks_def by simp
    then show ?thesis unfolding old using False by simp
  qed
  have ids: "ta_byID (feed r f a) d = Some q \<longleftrightarrow> d \<noteq> [] \<and> q < length ?os \<and> (\<exists>g \<in> set (fs @ [f]). fr_id g = d \<and> own g = ?os ! q)" for d q
  proof (cases "fr_id f = d \<and> d \<noteq> []")
    case True
    have same: "own g = own f" if "g \<in> set (fs @ [f])" "fr_id g = d" for g
      using that ls(3) [of g] True by (auto simp: same_label_def)
    have "ta_byID (feed r f a) d = Some q \<longleftrightarrow> q = ?p" using True by (auto simp: feed_id)
    moreover have "(\<exists>g \<in> set (fs @ [f]). fr_id g = d \<and> own g = ?os ! q) \<longleftrightarrow> own f = ?os ! q"
      using same True by (metis in_set_conv_decomp)
    ultimately show ?thesis using here [of q] True by blast
  next
    case False
    then have "d \<noteq> [] \<Longrightarrow> ta_byID (feed r f a) d = ta_byID a d" by (auto simp: feed_id)
    moreover have "ta_byID (feed r f a) [] = ta_byID a []" by (auto simp: feed_id)
    ultimately have "ta_byID (feed r f a) d = Some q \<longleftrightarrow> d \<noteq> [] \<and> q < length (owners own fs) \<and> (\<exists>g \<in> set fs. fr_id g = d \<and> own g = owners own fs ! q)"
      using t unfolding tracks_def by (cases "d = []") simp_all
    then show ?thesis unfolding old using False by auto
  qed
  show ?thesis unfolding tracks_def using views_tracked [OF t l] idx ids by blast
qed

text \<open>A stream of frames, each under the request identifier known when it arrives.\<close>

definition accumulate :: "(string \<times> tool_frame) list \<Rightarrow> tool_acc" where
  "accumulate rfs = foldl (\<lambda>a (r, f). feed r f a) newToolCallAccumulator rfs"

lemma accumulate_snoc: "accumulate (rfs @ [(r, f)]) = feed r f (accumulate rfs)"
  by (simp add: accumulate_def)

lemma accumulate_ok: "acc_ok (accumulate rfs)"
proof (induction rfs rule: rev_induct)
  case Nil
  show ?case by (simp add: accumulate_def newToolCallAccumulator_def acc_ok_def)
next
  case (snoc x rfs)
  then show ?case by (cases x) (simp add: accumulate_snoc feed_ok)
qed

lemma accumulate_tracks: "labelled own (map snd rfs) \<Longrightarrow> tracks own (map snd rfs) (accumulate rfs)"
proof (induction rfs rule: rev_induct)
  case Nil
  show ?case by (simp add: tracks_def accumulate_def newToolCallAccumulator_def owners_def)
next
  case (snoc x rfs)
  obtain r f where x: "x = (r, f)" by (cases x)
  have "labelled own (map snd rfs)" using snoc.prems labelled_snoc(1) by simp
  then show ?case using tracks_feed snoc x by (simp add: accumulate_snoc)
qed

lemma call_list_sorted: "sorted_wrt (<) (map tc_index (call_list (accumulate rfs)))"
  using accumulate_ok [of rfs] by (simp add: call_list_def acc_ok_def strict_sorted_iff distinct_map)

lemma call_list_views:
  "labelled own (map snd rfs) \<Longrightarrow>
     mset (map view_of (call_list (accumulate rfs))) = image_mset (spec_call own (map snd rfs)) (mset (owners own (map snd rfs)))"
  using accumulate_tracks [of own rfs] by (simp add: tracks_def call_list_def) (metis mset_map)

end
