(* ===== verification/Repair.thy ===== *)
theory Repair
  imports Messages
begin

text \<open>
  The repair of a tool call's arguments (\<open>tools/repair.go\<close>) and the JSON syntax check that decides
  whether a repair is adopted: \<open>json.Valid\<close> of Go's library, here as the state machine that the
  library runs over the bytes (a state, a stack of open containers, at most 10000 of them).
\<close>

section \<open>The syntax check\<close>

datatype jstate =
    BeginValue | BeginValueOrEmpty | BeginStringOrEmpty | BeginString | EndValue | EndTop
  | InString | InStringEsc | InStringEscU nat
  | Neg | Digits | Zero | Dot | DotDigits | Exp | ExpSign | ExpDigits
  | Lit string

datatype jopen = ObjectKey | ObjectValue | ArrayValue

definition json_space :: "char \<Rightarrow> bool" where
  "json_space c \<longleftrightarrow> c = CHR '' '' \<or> c = CHR 0x09 \<or> c = CHR 0x0D \<or> c = CHR 0x0A"

definition maxNestingDepth :: int where "maxNestingDepth = 10000"

type_synonym jscan = "jstate \<times> jopen list"

definition push_open :: "jopen \<Rightarrow> jstate \<Rightarrow> jopen list \<Rightarrow> jscan option" where
  "push_open p st ps = (if int (length ps) < maxNestingDepth then Some (st, p # ps) else None)"

definition pop_open :: "jopen list \<Rightarrow> jscan" where
  "pop_open ps = (if tl ps = [] then (EndTop, []) else (EndValue, tl ps))"

definition begin_value :: "char \<Rightarrow> jopen list \<Rightarrow> jscan option" where
  "begin_value c ps =
     (if json_space c then Some (BeginValue, ps)
      else if c = CHR ''{'' then push_open ObjectKey BeginStringOrEmpty ps
      else if c = CHR ''['' then push_open ArrayValue BeginValueOrEmpty ps
      else if c = CHR 0x22 then Some (InString, ps)
      else if c = CHR ''-'' then Some (Neg, ps)
      else if c = CHR ''0'' then Some (Zero, ps)
      else if c = CHR ''t'' then Some (Lit ''rue'', ps)
      else if c = CHR ''f'' then Some (Lit ''alse'', ps)
      else if c = CHR ''n'' then Some (Lit ''ull'', ps)
      else if is_digit c then Some (Digits, ps)
      else None)"

definition begin_string :: "char \<Rightarrow> jopen list \<Rightarrow> jscan option" where
  "begin_string c ps =
     (if json_space c then Some (BeginString, ps) else if c = CHR 0x22 then Some (InString, ps) else None)"

definition end_value :: "char \<Rightarrow> jopen list \<Rightarrow> jscan option" where
  "end_value c ps =
     (case ps of
        [] \<Rightarrow> if json_space c then Some (EndTop, []) else None
      | p # r \<Rightarrow>
          if json_space c then Some (EndValue, ps)
          else case p of
              ObjectKey \<Rightarrow> if c = CHR '':'' then Some (BeginValue, ObjectValue # r) else None
            | ObjectValue \<Rightarrow>
                if c = CHR '','' then Some (BeginString, ObjectKey # r)
                else if c = CHR ''}'' then Some (pop_open ps) else None
            | ArrayValue \<Rightarrow>
                if c = CHR '','' then Some (BeginValue, ps)
                else if c = CHR '']'' then Some (pop_open ps) else None)"

definition is_hex :: "char \<Rightarrow> bool" where
  "is_hex c \<longleftrightarrow> is_digit c \<or> c \<in> set ''abcdefABCDEF''"

fun json_step :: "jscan \<Rightarrow> char \<Rightarrow> jscan option" where
  "json_step (BeginValue, ps) c = begin_value c ps"
| "json_step (BeginValueOrEmpty, ps) c =
     (if json_space c then Some (BeginValueOrEmpty, ps) else if c = CHR '']'' then end_value c ps else begin_value c ps)"
| "json_step (BeginStringOrEmpty, ps) c =
     (if json_space c then Some (BeginStringOrEmpty, ps)
      else if c = CHR ''}'' then end_value c (ObjectValue # tl ps) else begin_string c ps)"
| "json_step (BeginString, ps) c = begin_string c ps"
| "json_step (EndValue, ps) c = end_value c ps"
| "json_step (EndTop, ps) c = (if json_space c then Some (EndTop, ps) else None)"
| "json_step (InString, ps) c =
     (if c = CHR 0x22 then Some (EndValue, ps)
      else if c = CHR 0x5C then Some (InStringEsc, ps)
      else if (of_char c :: nat) < 32 then None
      else Some (InString, ps))"
| "json_step (InStringEsc, ps) c =
     (if c \<in> {CHR ''b'', CHR ''f'', CHR ''n'', CHR ''r'', CHR ''t'', CHR 0x5C, CHR ''/'', CHR 0x22} then Some (InString, ps)
      else if c = CHR ''u'' then Some (InStringEscU 3, ps) else None)"
| "json_step (InStringEscU k, ps) c =
     (if is_hex c then Some (if k = 0 then InString else InStringEscU (k - 1), ps) else None)"
| "json_step (Neg, ps) c = (if c = CHR ''0'' then Some (Zero, ps) else if is_digit c then Some (Digits, ps) else None)"
| "json_step (Digits, ps) c =
     (if is_digit c then Some (Digits, ps)
      else if c = CHR ''.'' then Some (Dot, ps)
      else if c = CHR ''e'' \<or> c = CHR ''E'' then Some (Exp, ps)
      else end_value c ps)"
| "json_step (Zero, ps) c =
     (if c = CHR ''.'' then Some (Dot, ps)
      else if c = CHR ''e'' \<or> c = CHR ''E'' then Some (Exp, ps)
      else end_value c ps)"
| "json_step (Dot, ps) c = (if is_digit c then Some (DotDigits, ps) else None)"
| "json_step (DotDigits, ps) c =
     (if is_digit c then Some (DotDigits, ps)
      else if c = CHR ''e'' \<or> c = CHR ''E'' then Some (Exp, ps)
      else end_value c ps)"
| "json_step (Exp, ps) c =
     (if c = CHR ''+'' \<or> c = CHR ''-'' then Some (ExpSign, ps)
      else if is_digit c then Some (ExpDigits, ps) else None)"
| "json_step (ExpSign, ps) c = (if is_digit c then Some (ExpDigits, ps) else None)"
| "json_step (ExpDigits, ps) c = (if is_digit c then Some (ExpDigits, ps) else end_value c ps)"
| "json_step (Lit [], ps) c = None"
| "json_step (Lit (x # xs), ps) c = (if c = x then Some (if xs = [] then EndValue else Lit xs, ps) else None)"

fun json_scan :: "jscan \<Rightarrow> string \<Rightarrow> jscan option" where
  "json_scan s [] = Some s"
| "json_scan s (c # cs) = Option.bind (json_step s c) (\<lambda>s'. json_scan s' cs)"

text \<open>At the end the machine is at the top or reaches it by one more space.\<close>

definition json_ends :: "jscan \<Rightarrow> bool" where
  "json_ends s \<longleftrightarrow> fst s = EndTop \<or> (case json_step s (CHR '' '') of Some s' \<Rightarrow> fst s' = EndTop | None \<Rightarrow> False)"

definition json_start :: jscan where "json_start = (BeginValue, [])"

definition json_valid :: "string \<Rightarrow> bool" where
  "json_valid t \<longleftrightarrow> (case json_scan json_start t of Some s \<Rightarrow> json_ends s | None \<Rightarrow> False)"

section \<open>The repair\<close>

text \<open>A quote state: outside a string, or inside one opened by the given quote, escaped or not.\<close>

fun repair_quotes :: "(char \<times> bool) option \<Rightarrow> string \<Rightarrow> string" where
  "repair_quotes q [] = []"
| "repair_quotes (Some (q, True)) (c # s) = c # repair_quotes (Some (q, False)) s"
| "repair_quotes (Some (q, False)) (c # s) =
     (if c = CHR 0x5C then c # repair_quotes (Some (q, True)) s
      else if c = q then CHR 0x22 # repair_quotes None s
      else c # repair_quotes (Some (q, False)) s)"
| "repair_quotes None (c # s) =
     (if c = CHR 0x22 \<or> c = CHR 0x27 then CHR 0x22 # repair_quotes (Some (c, False)) s
      else c # repair_quotes None s)"

definition repairQuotes :: "string \<Rightarrow> string" where
  "repairQuotes s = repair_quotes None s"

definition isSpaceByte :: "char \<Rightarrow> bool" where
  "isSpaceByte c \<longleftrightarrow> c = CHR '' '' \<or> c = CHR 0x09 \<or> c = CHR 0x0A \<or> c = CHR 0x0D"

definition before_closer :: "string \<Rightarrow> bool" where
  "before_closer s = (case dropWhile isSpaceByte s of [] \<Rightarrow> False | c # _ \<Rightarrow> c = CHR ''}'' \<or> c = CHR '']'')"

fun trimTrailingCommas :: "string \<Rightarrow> string" where
  "trimTrailingCommas [] = []"
| "trimTrailingCommas (c # s) =
     (if c = CHR '','' \<and> before_closer s then trimTrailingCommas s else c # trimTrailingCommas s)"

text \<open>Inside a string or not, behind a backslash or not, and the closers of the open containers.\<close>

record balance =
  ba_inStr :: bool
  ba_escaped :: bool
  ba_stack :: string

definition balance_step :: "char \<Rightarrow> balance \<Rightarrow> balance" where
  "balance_step c b =
     (if ba_inStr b then
        if ba_escaped b then b\<lparr>ba_escaped := False\<rparr>
        else if c = CHR 0x5C then b\<lparr>ba_escaped := True\<rparr>
        else if c = CHR 0x22 then b\<lparr>ba_inStr := False\<rparr>
        else b
      else if c = CHR 0x22 then b\<lparr>ba_inStr := True\<rparr>
      else if c = CHR ''{'' then b\<lparr>ba_stack := CHR ''}'' # ba_stack b\<rparr>
      else if c = CHR ''['' then b\<lparr>ba_stack := CHR '']'' # ba_stack b\<rparr>
      else if (c = CHR ''}'' \<or> c = CHR '']'') \<and> ba_stack b \<noteq> [] \<and> hd (ba_stack b) = c then b\<lparr>ba_stack := tl (ba_stack b)\<rparr>
      else b)"

definition balance_start :: balance where
  "balance_start = \<lparr>ba_inStr = False, ba_escaped = False, ba_stack = []\<rparr>"

definition balanceJSON :: "string \<Rightarrow> string" where
  "balanceJSON s =
     (let b = fold balance_step s balance_start in s @ (if ba_inStr b then [CHR 0x22] else []) @ ba_stack b)"

definition RepairArguments :: "string \<Rightarrow> string" where
  "RepairArguments args =
     (let s = trim_space args in
      if s = [] \<or> json_valid s then s
      else let r = trimTrailingCommas (balanceJSON (repairQuotes s)) in if json_valid r then r else s)"

section \<open>What a repair can do\<close>

fun closer :: "jopen \<Rightarrow> char" where
  "closer ArrayValue = CHR '']''"
| "closer _ = CHR ''}''"

definition string_state :: "jstate \<Rightarrow> bool" where
  "string_state st \<longleftrightarrow> (case st of InString \<Rightarrow> True | InStringEsc \<Rightarrow> True | InStringEscU k \<Rightarrow> True | _ \<Rightarrow> False)"

text \<open>States in which a value is expected or being read; only there may the top not be a key.\<close>

definition value_state :: "jstate \<Rightarrow> bool" where
  "value_state st \<longleftrightarrow> (case st of BeginValue \<Rightarrow> True | BeginValueOrEmpty \<Rightarrow> True | Neg \<Rightarrow> True | Digits \<Rightarrow> True | Zero \<Rightarrow> True
     | Dot \<Rightarrow> True | DotDigits \<Rightarrow> True | Exp \<Rightarrow> True | ExpSign \<Rightarrow> True | ExpDigits \<Rightarrow> True | Lit x \<Rightarrow> True | _ \<Rightarrow> False)"

definition scan_ok :: "jscan \<Rightarrow> bool" where
  "scan_ok s \<longleftrightarrow> (case s of (st, ps) \<Rightarrow>
     ObjectKey \<notin> set (tl ps) \<and> (value_state st \<longrightarrow> ObjectKey \<notin> set ps) \<and>
     (st = BeginStringOrEmpty \<longrightarrow> ps \<noteq> [] \<and> hd ps = ObjectKey) \<and>
     (st = BeginValueOrEmpty \<longrightarrow> ps \<noteq> [] \<and> hd ps = ArrayValue) \<and>
     (st = EndTop \<longrightarrow> ps = []) \<and>
     (\<forall>xs. st = Lit xs \<longrightarrow> set xs \<subseteq> set ''ruealsl''))"

definition balance_of :: "jscan \<Rightarrow> balance" where
  "balance_of s = \<lparr>ba_inStr = string_state (fst s), ba_escaped = (fst s = InStringEsc), ba_stack = map closer (snd s)\<rparr>"

lemmas scan_defs = begin_value_def begin_string_def end_value_def push_open_def pop_open_def scan_ok_def value_state_def

lemma not_in_tl: "x \<notin> set ps \<Longrightarrow> x \<notin> set (tl ps)"
  by (cases ps) auto

lemma begin_value_ok: "begin_value c ps = Some s' \<Longrightarrow> ObjectKey \<notin> set ps \<Longrightarrow> scan_ok s'"
  by (auto simp: scan_defs not_in_tl split: if_splits)

lemma end_value_ok: "end_value c ps = Some s' \<Longrightarrow> ObjectKey \<notin> set (tl ps) \<Longrightarrow> scan_ok s'"
  by (cases ps) (auto simp: scan_defs not_in_tl split: if_splits jopen.splits)

lemma json_step_ok:
  assumes "json_step s c = Some s'" "scan_ok s"
  shows "scan_ok s'"
  using assms
proof (cases "(s, c)" rule: json_step.cases)
  case (1 ps c') then show ?thesis using assms begin_value_ok by (auto simp: scan_ok_def value_state_def)
next
  case (2 ps c') then show ?thesis using assms begin_value_ok end_value_ok not_in_tl
    by (auto simp: scan_ok_def value_state_def split: if_splits)
next
  case (3 ps c') then show ?thesis using assms end_value_ok[of c "ObjectValue # tl ps"]
    by (auto simp: scan_ok_def value_state_def begin_string_def split: if_splits)
next
  case (4 ps c') then show ?thesis using assms by (auto simp: scan_ok_def value_state_def begin_string_def split: if_splits)
next
  case (5 ps c') then show ?thesis using assms end_value_ok by (auto simp: scan_ok_def value_state_def)
next
  case (11 ps c') then show ?thesis using assms end_value_ok not_in_tl by (auto simp: scan_ok_def value_state_def split: if_splits)
next
  case (12 ps c') then show ?thesis using assms end_value_ok not_in_tl by (auto simp: scan_ok_def value_state_def split: if_splits)
next
  case (14 ps c') then show ?thesis using assms end_value_ok not_in_tl by (auto simp: scan_ok_def value_state_def split: if_splits)
next
  case (17 ps c') then show ?thesis using assms end_value_ok not_in_tl by (auto simp: scan_ok_def value_state_def split: if_splits)
qed (auto simp: scan_ok_def value_state_def not_in_tl split: if_splits)

text \<open>Characters that open or close nothing.\<close>

definition neutral :: "char \<Rightarrow> bool" where
  "neutral c \<longleftrightarrow> c \<notin> {CHR 0x22, CHR ''{'', CHR ''['', CHR ''}'', CHR '']''}"

lemma neutral_space: "json_space c \<Longrightarrow> neutral c" and neutral_digit: "is_digit c \<Longrightarrow> neutral c"
  and neutral_hex: "is_hex c \<Longrightarrow> neutral c"
  by (auto simp: json_space_def is_digit_def is_hex_def neutral_def)

lemma neutral_chars: "neutral (CHR ''.'')" "neutral (CHR ''e'')" "neutral (CHR ''E'')" "neutral (CHR ''+'')" "neutral (CHR ''-'')"
  "neutral (CHR ''0'')"
  by (simp_all add: neutral_def)

lemma neutral_letters: "c \<in> set ''ruealsl'' \<Longrightarrow> neutral c"
  by (auto simp: neutral_def)

lemma balance_neutral: "neutral c \<Longrightarrow> \<not> ba_inStr b \<Longrightarrow> balance_step c b = b"
  unfolding neutral_def balance_step_def by auto

abbreviation outside :: "jopen list \<Rightarrow> balance" where
  "outside ps \<equiv> \<lparr>ba_inStr = False, ba_escaped = False, ba_stack = map closer ps\<rparr>"

lemma balance_outside:
  "balance_step (CHR 0x22) \<lparr>ba_inStr = False, ba_escaped = False, ba_stack = st\<rparr> = \<lparr>ba_inStr = True, ba_escaped = False, ba_stack = st\<rparr>"
  "balance_step (CHR ''{'') (outside ps) = outside (ObjectKey # ps)"
  "balance_step (CHR ''['') (outside ps) = outside (ArrayValue # ps)"
  "balance_step (CHR ''}'') (outside (ObjectValue # ps)) = outside ps"
  "balance_step (CHR ''}'') (outside (ObjectKey # ps)) = outside ps"
  "balance_step (CHR '']'') (outside (ArrayValue # ps)) = outside ps"
  by (simp_all add: balance_step_def)

lemma balance_of_simps:
  "balance_of (st, ps) = \<lparr>ba_inStr = string_state st, ba_escaped = (st = InStringEsc), ba_stack = map closer ps\<rparr>"
  by (simp add: balance_of_def)

lemma balance_begin:
  assumes "begin_value c ps = Some s'"
  shows "balance_step c (outside ps) = balance_of s'"
proof (cases "neutral c")
  case True
  then have "balance_step c (outside ps) = outside ps" by (rule balance_neutral) simp
  moreover have "c \<noteq> CHR 0x22" "c \<noteq> CHR ''{''" "c \<noteq> CHR ''[''" using True by (auto simp: neutral_def)
  ultimately show ?thesis using assms
    by (auto simp: begin_value_def balance_of_simps string_state_def split: if_splits)
next
  case False
  then have "c = CHR 0x22 \<or> c = CHR ''{'' \<or> c = CHR ''[''"
    using assms neutral_space neutral_digit by (auto simp: begin_value_def neutral_def split: if_splits)
  then show ?thesis using assms
    by (elim disjE) (auto simp: begin_value_def json_space_def push_open_def balance_outside balance_of_simps string_state_def
        split: if_splits)
qed

lemma balance_end:
  assumes "end_value c ps = Some s'"
  shows "balance_step c (outside ps) = balance_of s'"
proof (cases "neutral c")
  case True
  then have "balance_step c (outside ps) = outside ps" by (rule balance_neutral) simp
  moreover have "c \<noteq> CHR ''}''" "c \<noteq> CHR '']''" using True by (auto simp: neutral_def)
  ultimately show ?thesis using assms
    by (cases ps) (auto simp: end_value_def balance_of_simps string_state_def split: if_splits jopen.splits)
next
  case False
  then have "\<not> json_space c" "c \<noteq> CHR '':''" "c \<noteq> CHR '',''" using neutral_space by (auto simp: neutral_def)
  with assms show ?thesis
    by (cases ps) (auto simp: end_value_def pop_open_def balance_outside [simplified] balance_of_simps string_state_def
        split: if_splits jopen.splits)
qed

lemma balance_string:
  assumes "begin_string c ps = Some s'"
  shows "balance_step c (outside ps) = balance_of s'"
proof (cases "json_space c")
  case True
  then have "s' = (BeginString, ps)" using assms by (simp add: begin_string_def)
  then show ?thesis using balance_neutral [OF neutral_space [OF True]] by (simp add: balance_of_simps string_state_def)
next
  case False
  then have "c = CHR 0x22" "s' = (InString, ps)" using assms by (auto simp: begin_string_def split: if_splits)
  then show ?thesis by (simp only: balance_outside(1)) (simp add: balance_of_simps string_state_def)
qed

definition number_state :: "jstate \<Rightarrow> bool" where
  "number_state st \<longleftrightarrow> st \<in> {Neg, Digits, Zero, Dot, DotDigits, Exp, ExpSign, ExpDigits}"

lemma number_step:
  assumes "json_step (st, ps) c = Some s'" "number_state st"
  shows "end_value c ps = Some s' \<or> neutral c \<and> (\<exists>st'. number_state st' \<and> s' = (st', ps))"
  using assms by (cases st) (auto simp: number_state_def neutral_digit neutral_chars split: if_splits)

lemma balance_number:
  assumes "json_step (st, ps) c = Some s'" "number_state st"
  shows "balance_step c (balance_of (st, ps)) = balance_of s'"
proof -
  have out: "number_state t \<Longrightarrow> balance_of (t, ps) = outside ps" for t
    by (auto simp: number_state_def balance_of_simps string_state_def)
  from number_step [OF assms] show ?thesis
  proof
    assume "end_value c ps = Some s'"
    from balance_end [OF this] show ?thesis by (simp add: out assms(2))
  next
    assume "neutral c \<and> (\<exists>st'. number_state st' \<and> s' = (st', ps))"
    then show ?thesis using balance_neutral [of c "outside ps"] by (auto simp: out assms(2))
  qed
qed

lemma json_step_balance:
  assumes "json_step s c = Some s'" "scan_ok s"
  shows "balance_step c (balance_of s) = balance_of s'"
  using assms
proof (cases "(s, c)" rule: json_step.cases)
  case (1 ps c') then show ?thesis using assms balance_begin by (simp add: balance_of_simps string_state_def)
next
  case (2 ps c')
  then show ?thesis using assms balance_begin balance_end balance_neutral neutral_space
    by (auto simp: balance_of_simps string_state_def split: if_splits)
next
  case (3 ps c')
  then obtain r where r: "ps = ObjectKey # r" using assms by (cases ps) (auto simp: scan_ok_def)
  consider (s) "json_space c" "s' = s" | (e) "end_value c (ObjectValue # r) = Some s'" | (q) "begin_string c ps = Some s'"
    using 3 r assms by (cases "json_space c"; cases "c = CHR ''}''") simp_all
  then show ?thesis
  proof cases
    case s
    then show ?thesis using balance_neutral [OF neutral_space [OF s(1)], of "balance_of s"] 3
      by (simp add: balance_of_simps string_state_def)
  next
    case e
    from balance_end [OF e] show ?thesis using 3 r by (simp add: balance_of_simps string_state_def)
  next
    case q
    from balance_string [OF q] show ?thesis using 3 by (simp add: balance_of_simps string_state_def)
  qed
next
  case (4 ps c') then show ?thesis using assms balance_string [of c ps s'] by (simp add: balance_of_simps string_state_def)
next
  case (5 ps c') then show ?thesis using assms balance_end by (simp add: balance_of_simps string_state_def)
next
  case (6 ps c')
  then have "s' = s" "json_space c" using assms by (auto split: if_splits)
  then show ?thesis using 6 balance_neutral [OF neutral_space, of c "balance_of s"] by (simp add: balance_of_simps string_state_def)
next
  case (7 ps c') then show ?thesis using assms
    by (auto simp: balance_of_simps string_state_def balance_step_def split: if_splits)
next
  case (8 ps c') then show ?thesis using assms
    by (auto simp: balance_of_simps string_state_def balance_step_def split: if_splits)
next
  case (9 k ps c')
  then have "c \<noteq> CHR 0x22" "c \<noteq> CHR 0x5C" "s' = (if k = 0 then InString else InStringEscU (k - 1), ps)"
    using assms by (auto simp: is_hex_def is_digit_def split: if_splits)
  then show ?thesis using 9 by (simp add: balance_of_simps string_state_def balance_step_def)
next
  case (10 ps c') then show ?thesis using assms balance_number by (simp add: number_state_def)
next
  case (11 ps c') then show ?thesis using assms balance_number by (simp add: number_state_def)
next
  case (12 ps c') then show ?thesis using assms balance_number by (simp add: number_state_def)
next
  case (13 ps c') then show ?thesis using assms balance_number by (simp add: number_state_def)
next
  case (14 ps c') then show ?thesis using assms balance_number by (simp add: number_state_def)
next
  case (15 ps c') then show ?thesis using assms balance_number by (simp add: number_state_def)
next
  case (16 ps c') then show ?thesis using assms balance_number by (simp add: number_state_def)
next
  case (17 ps c') then show ?thesis using assms balance_number by (simp add: number_state_def)
next
  case (18 ps c') then show ?thesis using assms by simp
next
  case (19 x xs ps c')
  then have "neutral c" "s' = (if xs = [] then EndValue else Lit xs, ps)"
    using assms neutral_letters [of c] by (auto simp: scan_ok_def split: if_splits)
  then show ?thesis using 19 balance_neutral [of c "outside ps"] by (simp add: balance_of_simps string_state_def)
qed

text \<open>On what the check accepts, quotes are read alike: the quote repair changes nothing.\<close>

definition quote_of :: "jscan \<Rightarrow> (char \<times> bool) option" where
  "quote_of s = (if string_state (fst s) then Some (CHR 0x22, fst s = InStringEsc) else None)"

lemma single_quote_refused: "\<not> string_state (fst s) \<Longrightarrow> scan_ok s \<Longrightarrow> json_step s (CHR 0x27) = None"
proof (cases "(s, CHR 0x27)" rule: json_step.cases)
  case (19 x xs ps c)
  moreover assume "scan_ok s"
  ultimately show ?thesis by (auto simp: scan_ok_def)
qed (auto simp: string_state_def begin_value_def begin_string_def end_value_def json_space_def is_digit_def
      split: list.splits jopen.splits)

lemma quote_step:
  assumes "c \<noteq> CHR 0x27 \<or> string_state (fst s)" "balance_step c (balance_of s) = balance_of s'"
  shows "repair_quotes (quote_of s) (c # t) = c # repair_quotes (quote_of s') t"
proof -
  define q where "q b = (if ba_inStr b then Some (CHR 0x22, ba_escaped b) else None)" for b :: balance
  have q: "quote_of s = q (balance_of s)" for s by (simp add: q_def quote_of_def balance_of_def)
  have "repair_quotes (q b) (c # t) = c # repair_quotes (q (balance_step c b)) t" if "c \<noteq> CHR 0x27 \<or> ba_inStr b" "ba_escaped b \<Longrightarrow> ba_inStr b" for b :: balance
    using that by (cases "ba_inStr b"; cases "ba_escaped b") (simp_all add: q_def balance_step_def)
  from this [of "balance_of s"] assms show ?thesis by (simp add: q balance_of_def string_state_def)
qed

lemma json_step_quotes:
  assumes "json_step s c = Some s'" "scan_ok s"
  shows "repair_quotes (quote_of s) (c # t) = c # repair_quotes (quote_of s') t"
  by (rule quote_step [OF _ json_step_balance [OF assms]]) (use assms single_quote_refused in fastforce)

lemma json_scan_tracked:
  assumes "json_scan s t = Some s'" "scan_ok s"
  shows "fold balance_step t (balance_of s) = balance_of s' \<and> repair_quotes (quote_of s) t = t \<and> scan_ok s'"
  using assms
proof (induction t arbitrary: s)
  case (Cons c t)
  then obtain m where m: "json_step s c = Some m" "json_scan m t = Some s'"
    by (auto simp: bind_eq_Some_conv)
  from json_step_ok [OF m(1) Cons.prems(2)] json_step_balance [OF m(1) Cons.prems(2)]
    json_step_quotes [OF m(1) Cons.prems(2)] Cons.IH [OF m(2)]
  show ?case by simp
qed simp

section \<open>Closing what is open\<close>

lemma json_scan_append: "json_scan s (t @ u) = Option.bind (json_scan s t) (\<lambda>m. json_scan m u)"
  by (induction t arbitrary: s) (auto split: Option.bind_splits)

lemma end_value_closer:
  "p \<noteq> ObjectKey \<Longrightarrow> end_value (closer p) (p # r) = Some (if r = [] then (EndTop, []) else (EndValue, r))"
  by (cases p) (auto simp: end_value_def json_space_def pop_open_def)

lemma close_stack:
  "ObjectKey \<notin> set ps \<Longrightarrow> \<exists>m. json_scan (EndValue, ps) (map closer ps) = Some m \<and> json_ends m"
proof (induction ps)
  case Nil
  show ?case by (simp add: json_ends_def end_value_def json_space_def)
next
  case (Cons p r)
  then show ?case by (cases "r = []") (auto simp: end_value_closer json_ends_def)
qed

text \<open>The states behind which a text only lacks its closing quote and its closers.\<close>

definition closable :: "jscan \<Rightarrow> bool" where
  "closable s \<longleftrightarrow> (case s of (st, ps) \<Rightarrow>
     st \<in> {EndTop, BeginStringOrEmpty, BeginValueOrEmpty, Digits, Zero, DotDigits, ExpDigits} \<or>
     st \<in> {InString, EndValue} \<and> ObjectKey \<notin> set ps)"

lemma closer_plain: "\<not> is_digit (closer p)" "closer p \<noteq> CHR ''.''" "closer p \<noteq> CHR ''e''" "closer p \<noteq> CHR ''E''"
  "\<not> json_space (closer p)"
  by (cases p; simp add: is_digit_def json_space_def)+

lemma closable_closes:
  assumes "closable (st, ps)" "scan_ok (st, ps)"
  shows "\<exists>m. json_scan (st, ps) ((if st = InString then [CHR 0x22] else []) @ map closer ps) = Some m \<and> json_ends m"
proof -
  consider (s) "st = InString" "ObjectKey \<notin> set ps" | (v) "st = EndValue" "ObjectKey \<notin> set ps" | (t) "st = EndTop" "ps = []"
    | (n) "st \<in> {Digits, Zero, DotDigits, ExpDigits}" "ObjectKey \<notin> set ps"
    | (o) r where "st = BeginStringOrEmpty" "ps = ObjectKey # r" "ObjectKey \<notin> set r"
    | (a) r where "st = BeginValueOrEmpty" "ps = ArrayValue # r" "ObjectKey \<notin> set r"
    using assms by (cases ps) (auto simp: closable_def scan_ok_def value_state_def)
  then show ?thesis
  proof cases
    case s
    then show ?thesis using close_stack [OF s(2)] by simp
  next
    case v
    then show ?thesis using close_stack [OF v(2)] by simp
  next
    case t
    then show ?thesis by (simp add: json_ends_def)
  next
    case n
    then have plain: "st \<noteq> InString" by auto
    show ?thesis
    proof (cases ps)
      case Nil
      then show ?thesis using n by (auto simp: json_ends_def end_value_def json_space_def is_digit_def)
    next
      case (Cons p r)
      have "json_step (st, p # r) (closer p) = end_value (closer p) (p # r)" using n(1) by (auto simp: closer_plain)
      then have "json_scan (st, ps) (map closer ps) = json_scan (EndValue, ps) (map closer ps)" by (simp add: Cons)
      then show ?thesis using close_stack [OF n(2)] plain by simp
    qed
  next
    case o
    have "json_scan (st, ps) (map closer ps) = json_scan (EndValue, ObjectValue # r) (map closer (ObjectValue # r))"
      using o by (simp add: json_space_def)
    then show ?thesis using close_stack [of "ObjectValue # r"] o by simp
  next
    case a
    have "json_scan (st, ps) (map closer ps) = json_scan (EndValue, ArrayValue # r) (map closer (ArrayValue # r))"
      using a by (simp add: json_space_def)
    then show ?thesis using close_stack [of "ArrayValue # r"] a by simp
  qed
qed

text \<open>C31. Arguments whose generation broke off inside a string value or behind a complete value, that the
  syntax check accepts up to there and that have no blanks around them are completed, provided that the pass over
  trailing commas finds nothing to delete in what the brackets complete (it also looks into strings): the result
  is valid JSON that begins with what had arrived.\<close>

theorem cut_arguments_are_completed:
  assumes "json_scan json_start s = Some m" "closable m"
    and "s \<noteq> []" "trim_space s = s" "trimTrailingCommas (balanceJSON s) = balanceJSON s"
  shows "json_valid (RepairArguments s) \<and> take (length s) (RepairArguments s) = s"
proof (cases "json_valid s")
  case True
  then show ?thesis using assms by (simp add: RepairArguments_def)
next
  case False
  obtain st ps where m: "m = (st, ps)" by (cases m)
  have ok: "scan_ok json_start" by (simp add: json_start_def scan_ok_def value_state_def)
  note tr = json_scan_tracked [OF assms(1) ok]
  have start: "balance_of json_start = balance_start" "quote_of json_start = None"
    by (simp_all add: json_start_def balance_of_def balance_start_def quote_of_def string_state_def)
  have b: "balanceJSON s = s @ (if st = InString then [CHR 0x22] else []) @ map closer ps"
    using tr start assms(2) unfolding m
    by (auto simp: balanceJSON_def Let_def balance_of_simps closable_def string_state_def)
  have "json_valid (balanceJSON s)"
    using closable_closes [of st ps] tr assms(1, 2) unfolding m b
    by (auto simp: json_valid_def json_scan_append)
  moreover have "repairQuotes s = s" using tr start by (simp add: repairQuotes_def)
  ultimately show ?thesis using assms False by (simp add: RepairArguments_def b)
qed

abbreviation quoted :: "string \<Rightarrow> string" where
  "quoted t \<equiv> CHR 0x22 # t @ [CHR 0x22]"

lemma cut_arguments_are_completed_witness:
  "json_valid (RepairArguments (''{'' @ quoted ''path'' @ '':'' @ CHR 0x22 # ''a.go'')) \<and>
   take 13 (RepairArguments (''{'' @ quoted ''path'' @ '':'' @ CHR 0x22 # ''a.go'')) = ''{'' @ quoted ''path'' @ '':'' @ CHR 0x22 # ''a.go''"
proof -
  define s where "s = ''{'' @ quoted ''path'' @ '':'' @ CHR 0x22 # ''a.go''"
  have scan: "json_scan json_start s = Some (InString, [ObjectValue])"
    unfolding s_def by code_simp
  have "closable (InString, [ObjectValue])" by (simp add: closable_def)
  moreover have "s \<noteq> []" unfolding s_def by simp
  moreover have "trim_space s = s" unfolding s_def by code_simp
  moreover have "trimTrailingCommas (balanceJSON s) = balanceJSON s" unfolding s_def by code_simp
  moreover have "length s = 13" unfolding s_def by simp
  ultimately have "json_valid (RepairArguments s) \<and> take 13 (RepairArguments s) = s"
    using cut_arguments_are_completed [OF scan] by simp
  then show ?thesis unfolding s_def .
qed

text \<open>The repair is not limited to syntax: a comma inside an unfinished string value, in front of a
  bracket of the same string, is deleted from the value.\<close>

theorem repair_edits_a_string:
  "RepairArguments (''{'' @ quoted ''text'' @ '':'' @ CHR 0x22 # ''f(a,)[b,]'')
     = ''{'' @ quoted ''text'' @ '':'' @ quoted ''f(a,)[b]'' @ ''}''"
  by code_simp

end
