(* ===== verification/OpenAIStream.thy ===== *)
theory OpenAIStream
  imports ToolCallMerge Repair AgentLoop
begin

text \<open>
  The receiving half of the chat-completions provider (\<open>provider/openai.go\<close>, \<open>OpenAIProvider.Stream\<close>
  behind the opening of the stream): the chunks are merged into one answer, their parts are handed to
  the caller's handler as they come, and the end of the stream decides the finish reason. The stream
  is the list of what \<open>Recv\<close> returns, ending with \<open>io.EOF\<close>; the classification of an SDK error, the
  price of the usage, the retry hint of the response and whether the endpoint must send a finish
  reason are parameters. Requests and their translation are not part of this theory.
\<close>

record prompt_details =
  pd_Cached :: int
  pd_Audio :: int

record completion_details =
  cd_Reasoning :: int
  cd_Audio :: int
  cd_Accepted :: int
  cd_Rejected :: int

record openai_usage =
  ou_Prompt :: int
  ou_Completion :: int
  ou_Total :: int
  ou_PromptDetails :: "prompt_details option"
  ou_CompletionDetails :: "completion_details option"

record openai_choice =
  ch_Reasoning :: string
  ch_Content :: string
  ch_Tools :: "tool_frame list"
  ch_Finish :: string

record openai_chunk =
  ck_ID :: string
  ck_Usage :: "openai_usage option"
  ck_Choices :: "openai_choice list"

datatype received = Chunk openai_chunk | RecvError err

definition toCoreUsage :: "openai_usage \<Rightarrow> usage" where
  "toCoreUsage u =
     (let cu = zero_usage\<lparr>u_input := ou_Prompt u, u_output := ou_Completion u, u_total := ou_Total u,
            u_semantics := ''protocol:openai''\<rparr>;
          (cu1, d1) = (case ou_PromptDetails u of
              Some p \<Rightarrow> (cu\<lparr>u_cache_read := pd_Cached p\<rparr>, zero_details\<lparr>d_input_audio := pd_Audio p\<rparr>)
            | None \<Rightarrow> (cu, zero_details));
          (cu2, d2) = (case ou_CompletionDetails u of
              Some c \<Rightarrow> (cu1\<lparr>u_reasoning := cd_Reasoning c\<rparr>,
                d1\<lparr>d_output_audio := cd_Audio c, d_pred_accepted := cd_Accepted c, d_pred_rejected := cd_Rejected c\<rparr>)
            | None \<Rightarrow> (cu1, d1))
      in if d2 \<noteq> zero_details then cu2\<lparr>u_details := Some d2\<rparr> else cu2)"

text \<open>The constants of the SDK are \<open>stop\<close>, \<open>length\<close>, \<open>tool_calls\<close> and \<open>content_filter\<close>.\<close>

definition mapFinishReason :: "string \<Rightarrow> finish_reason" where
  "mapFinishReason fr =
     (if fr = ''stop'' then FinishStop
      else if fr = ''length'' then FinishLength
      else if fr = ''tool_calls'' then FinishToolCall
      else if fr = ''content_filter'' then FinishOther ''content_filter''
      else FinishStop)"

record oai_env =
  oe_classify :: "err \<Rightarrow> err"
  oe_price :: "usage \<Rightarrow> usage"
  oe_hint :: "retry_hint option"
  oe_needs_finish :: bool

text \<open>The variables of the loop, with the state of the handler.\<close>

record 'h oai =
  oa_h :: 'h
  oa_started :: bool
  oa_requestId :: string
  oa_content :: string
  oa_reasoning :: string
  oa_finish :: finish_reason
  oa_raw :: string
  oa_usage :: usage
  oa_tools :: tool_acc
  oa_contentSeq :: int
  oa_reasoningSeq :: int

definition oai_start :: "'h \<Rightarrow> 'h oai" where
  "oai_start h = \<lparr>oa_h = h, oa_started = False, oa_requestId = [], oa_content = [], oa_reasoning = [],
     oa_finish = FinishOther [], oa_raw = [], oa_usage = zero_usage, oa_tools = newToolCallAccumulator,
     oa_contentSeq = 0, oa_reasoningSeq = 0\<rparr>"

type_synonym 'h handler = "stream_event \<Rightarrow> 'h \<Rightarrow> 'h \<times> err option"

text \<open>A step returns the variables and, where the code returns, the error.\<close>

definition emit :: "'h handler \<Rightarrow> stream_event \<Rightarrow> 'h oai \<Rightarrow> 'h oai \<times> err option" where
  "emit han ev s = (case han ev (oa_h s) of (h, r) \<Rightarrow> (s\<lparr>oa_h := h\<rparr>, r))"

definition and_then :: "'s \<times> err option \<Rightarrow> ('s \<Rightarrow> 's \<times> err option) \<Rightarrow> 's \<times> err option" where
  "and_then r f = (case r of (s, Some e) \<Rightarrow> (s, Some e) | (s, None) \<Rightarrow> f s)"

fun each_of :: "('a \<Rightarrow> 's \<Rightarrow> 's \<times> err option) \<Rightarrow> 'a list \<Rightarrow> 's \<Rightarrow> 's \<times> err option" where
  "each_of f [] s = (s, None)"
| "each_of f (x # xs) s = and_then (f x s) (each_of f xs)"

definition on_reasoning :: "'h handler \<Rightarrow> string \<Rightarrow> 'h oai \<Rightarrow> 'h oai \<times> err option" where
  "on_reasoning han t s =
     (if t = [] then (s, None)
      else and_then (emit han (LLMReasoningDelta (oa_requestId s) t (oa_reasoningSeq s)) (s\<lparr>oa_reasoning := oa_reasoning s @ t\<rparr>))
             (\<lambda>s. (s\<lparr>oa_reasoningSeq := oa_reasoningSeq s + 1\<rparr>, None)))"

definition on_content :: "'h handler \<Rightarrow> string \<Rightarrow> 'h oai \<Rightarrow> 'h oai \<times> err option" where
  "on_content han t s =
     (if t = [] then (s, None)
      else and_then (emit han (LLMContentDelta (oa_requestId s) t (oa_contentSeq s)) (s\<lparr>oa_content := oa_content s @ t\<rparr>))
             (\<lambda>s. (s\<lparr>oa_contentSeq := oa_contentSeq s + 1\<rparr>, None)))"

definition on_frame :: "'h handler \<Rightarrow> tool_frame \<Rightarrow> 'h oai \<Rightarrow> 'h oai \<times> err option" where
  "on_frame han f s =
     (case resolve (oa_requestId s) f (oa_tools s) of (acc, p, isNew) \<Rightarrow>
        let c = ta_all acc ! p; s1 = s\<lparr>oa_tools := acc\<rparr> in
        and_then (if isNew then emit han (LLMToolCallStart (tc_id c) (tc_index c) (tc_name c)) s1 else (s1, None))
          (\<lambda>s2. if fr_args f = [] then (s2, None)
                else emit han (LLMToolCallDelta (tc_id c) (tc_index c) (tc_name c) (fr_args f))
                       (s2\<lparr>oa_tools := add_args p (fr_args f) (oa_tools s2)\<rparr>)))"

definition on_choice :: "'h handler \<Rightarrow> openai_choice \<Rightarrow> 'h oai \<Rightarrow> 'h oai \<times> err option" where
  "on_choice han ch s =
     and_then (and_then (and_then (on_reasoning han (ch_Reasoning ch) s) (on_content han (ch_Content ch)))
       (each_of (on_frame han) (ch_Tools ch)))
       (\<lambda>s. (if ch_Finish ch \<noteq> [] then s\<lparr>oa_raw := ch_Finish ch, oa_finish := mapFinishReason (ch_Finish ch)\<rparr> else s, None))"

definition on_chunk :: "'h handler \<Rightarrow> openai_chunk \<Rightarrow> 'h oai \<Rightarrow> 'h oai \<times> err option" where
  "on_chunk han ck s =
     (let s1 = (if oa_requestId s = [] \<and> ck_ID ck \<noteq> [] then s\<lparr>oa_requestId := ck_ID ck\<rparr> else s) in
      and_then (if \<not> oa_started s1 then emit han (LLMStartEvent (oa_requestId s1)) (s1\<lparr>oa_started := True\<rparr>) else (s1, None))
        (\<lambda>s2. each_of (on_choice han) (ck_Choices ck)
           (case ck_Usage ck of Some u \<Rightarrow> s2\<lparr>oa_usage := toCoreUsage u\<rparr> | None \<Rightarrow> s2)))"

definition attachRetryHint :: "retry_hint option \<Rightarrow> err \<Rightarrow> err" where
  "attachRetryHint hint e = (case hint of Some h \<Rightarrow> WithRetryHint e h | None \<Rightarrow> e)"

definition on_receive :: "oai_env \<Rightarrow> 'h handler \<Rightarrow> received \<Rightarrow> 'h oai \<Rightarrow> 'h oai \<times> err option" where
  "on_receive env han r s =
     (case r of
        Chunk ck \<Rightarrow> on_chunk han ck s
      | RecvError e \<Rightarrow> (s, Some (attachRetryHint (oe_hint env) (WithPartialUsage (oe_classify env e) (oe_price env (oa_usage s))))))"

definition final_reason :: "tool_call list \<Rightarrow> finish_reason \<Rightarrow> finish_reason" where
  "final_reason calls fr =
     (let fr1 = (if calls \<noteq> [] \<and> fr \<noteq> FinishToolCall \<and> fr \<noteq> FinishOther ''content_filter'' then FinishToolCall else fr)
      in if fr1 = FinishOther [] then FinishStop else fr1)"

definition end_event :: "oai_env \<Rightarrow> 'h oai \<Rightarrow> llm_end" where
  "end_event env s =
     (let calls = call_list (oa_tools s) in
      \<lparr>en_Calls = calls, en_Finish = final_reason calls (oa_finish s), en_Content = oa_content s, en_Reasoning = oa_reasoning s,
       en_Signature = [], en_Usage = oe_price env (oa_usage s), en_RequestId = oa_requestId s, en_RawFinish = oa_raw s\<rparr>)"

definition finish_stream :: "oai_env \<Rightarrow> 'h handler \<Rightarrow> 'h oai \<Rightarrow> 'h oai \<times> err option" where
  "finish_stream env han s =
     (if oa_raw s = [] \<and> oe_needs_finish env
      then (s, Some (WithPartialUsage (UpstreamUnavailableError 0 (Some (Plain ''stream ended without finish_reason'')))
                       (oe_price env (oa_usage s))))
      else emit han (LLMEndEvent (end_event env s)) s)"

definition openai_Stream :: "oai_env \<Rightarrow> 'h handler \<Rightarrow> received list \<Rightarrow> 'h \<Rightarrow> 'h oai \<times> err option" where
  "openai_Stream env han rs h = and_then (each_of (on_receive env han) rs (oai_start h)) (finish_stream env han)"

section \<open>The deltas and the answer agree\<close>

text \<open>A handler that keeps the events it gets, oldest first.\<close>

definition keep_event :: "stream_event list handler" where
  "keep_event ev evs = (evs @ [ev], None)"

fun content_delta :: "stream_event \<Rightarrow> string" where
  "content_delta (LLMContentDelta r t n) = t"
| "content_delta _ = []"

fun reasoning_delta :: "stream_event \<Rightarrow> string" where
  "reasoning_delta (LLMReasoningDelta r t n) = t"
| "reasoning_delta _ = []"

fun tool_delta :: "int \<Rightarrow> stream_event \<Rightarrow> string" where
  "tool_delta k (LLMToolCallDelta i n nm t) = (if n = k then t else [])"
| "tool_delta k _ = []"

fun started_call :: "stream_event \<Rightarrow> int list" where
  "started_call (LLMToolCallStart i n nm) = [n]"
| "started_call _ = []"

definition args_at :: "tool_call list \<Rightarrow> int \<Rightarrow> string" where
  "args_at cs k = concat (map tc_args (filter (\<lambda>c. tc_index c = k) cs))"

text \<open>What the events of a stream show is what has been merged so far.\<close>

definition mirrors :: "stream_event list oai \<Rightarrow> bool" where
  "mirrors s \<longleftrightarrow>
     acc_ok (oa_tools s) \<and>
     concat (map content_delta (oa_h s)) = oa_content s \<and>
     concat (map reasoning_delta (oa_h s)) = oa_reasoning s \<and>
     concat (map started_call (oa_h s)) = map tc_index (ta_all (oa_tools s)) \<and>
     (\<forall>k. concat (map (tool_delta k) (oa_h s)) = args_at (ta_all (oa_tools s)) k)"

lemma each_of_keeps:
  assumes "\<And>x s. x \<in> set xs \<Longrightarrow> P s \<Longrightarrow> P (fst (f x s))"
  shows "P s \<Longrightarrow> P (fst (each_of f xs s))"
  using assms
proof (induction xs arbitrary: s)
  case (Cons x xs)
  obtain s1 r where r: "f x s = (s1, r)" by (cases "f x s")
  have "P s1" using Cons.prems(2) [of x s] Cons.prems(1) r by simp
  then show ?case using Cons r by (cases r) (auto simp: and_then_def)
qed simp

lemma and_then_keeps: "P (fst r) \<Longrightarrow> (\<And>s. P s \<Longrightarrow> P (fst (f s))) \<Longrightarrow> P (fst (and_then r f))"
  by (cases r) (auto simp: and_then_def split: option.splits)

lemma args_at_nth:
  assumes "distinct (map tc_index cs)" "p < length cs"
  shows "args_at cs (tc_index (cs ! p)) = tc_args (cs ! p)"
proof -
  have "filter (\<lambda>c. tc_index c = tc_index (cs ! p)) cs = [cs ! p]"
    using assms
  proof (induction cs arbitrary: p)
    case (Cons c cs)
    have none: "filter (\<lambda>d. tc_index d = tc_index c) cs = []"
      using Cons.prems(1) unfolding filter_empty_conv by (metis distinct.simps(2) image_eqI list.simps(9) set_map)
    show ?case
    proof (cases p)
      case 0
      then show ?thesis using none by simp
    next
      case (Suc q)
      then have "cs ! q \<in> set cs" using Cons.prems(2) by simp
      then have "tc_index c \<noteq> tc_index (cs ! q)" using Cons.prems(1) by force
      then show ?thesis using Suc Cons by simp
    qed
  qed simp
  then show ?thesis by (simp add: args_at_def)
qed

lemma args_at_absent: "k \<notin> tc_index ` set cs \<Longrightarrow> args_at cs k = []"
proof -
  assume "k \<notin> tc_index ` set cs"
  then have "filter (\<lambda>c. tc_index c = k) cs = []" by (auto simp: filter_empty_conv)
  then show ?thesis by (simp add: args_at_def)
qed

lemma args_at_upd:
  assumes d: "distinct (map tc_index cs)" and p: "p < length cs" and g: "\<And>c. tc_index (g c) = tc_index c" "\<And>c. tc_args (g c) = tc_args c @ t"
  shows "args_at (upd_at p g cs) k = args_at cs k @ (if k = tc_index (cs ! p) then t else [])"
proof (cases "k \<in> tc_index ` set cs")
  case True
  then obtain q where q: "q < length cs" "k = tc_index (cs ! q)" by (auto simp: in_set_conv_nth)
  have d': "distinct (map tc_index (upd_at p g cs))" using d by (simp add: map_upd_at g)
  have k: "k = tc_index (upd_at p g cs ! q)" using q by (simp add: upd_at_nth g)
  have "args_at (upd_at p g cs) k = tc_args (upd_at p g cs ! q)"
    unfolding k by (rule args_at_nth [OF d']) (simp add: q)
  moreover have "args_at cs k = tc_args (cs ! q)" unfolding q(2) by (rule args_at_nth [OF d q(1)])
  moreover have "k = tc_index (cs ! p) \<longleftrightarrow> q = p" 
    using nth_eq_iff_index_eq [OF d, of p q] p q by auto
  ultimately show ?thesis using q by (simp add: upd_at_nth g)
next
  case False
  have "set (map tc_index (upd_at p g cs)) = set (map tc_index cs)" by (simp only: map_upd_at g)
  then have "k \<notin> tc_index ` set (upd_at p g cs)" using False by simp
  moreover have "k \<noteq> tc_index (cs ! p)" using False p by auto
  ultimately show ?thesis using False by (simp add: args_at_absent)
qed

lemma resolve_args:
  assumes "acc_ok a" "resolve r f a = (a', p, n)"
  shows "args_at (ta_all a') k = args_at (ta_all a) k"
    "map tc_index (ta_all a') = map tc_index (ta_all a) @ (if n then [tc_index (ta_all a' ! p)] else [])"
proof -
  let ?b = "ta_all a @ (if n then [new_call r (pickIndex (fr_index f) a) f] else [])"
  have a': "ta_all a' = upd_at p (fill_in f) ?b" and p: "p = place a f" and n: "n \<longleftrightarrow> lookup_call a f = None"
    using assms(2) by (auto simp: resolve_def Let_def place_def split: if_splits option.splits)
  have b: "distinct (map tc_index ?b)" "p < length ?b"
    using assms(1) pickIndex_fresh [of "fr_index f" a] lookup_in_range [OF assms(1), of f]
    by (auto simp: acc_ok_def new_call_def p place_def n split: option.splits)
  have "args_at (ta_all a') k = args_at ?b k"
    unfolding a' using args_at_upd [OF b, of "fill_in f" "[]" k] by simp
  also have "\<dots> = args_at (ta_all a) k" by (simp add: args_at_def new_call_def)
  finally show "args_at (ta_all a') k = args_at (ta_all a) k" .
  have "map tc_index (ta_all a') = map tc_index ?b" unfolding a' by (rule map_upd_at) simp
  moreover have "n \<Longrightarrow> p = length (ta_all a)" using n by (simp add: p place_def)
  ultimately show "map tc_index (ta_all a') = map tc_index (ta_all a) @ (if n then [tc_index (ta_all a' ! p)] else [])"
    by (simp add: a' upd_at_nth)
qed

lemma on_frame_mirrors: "mirrors s \<Longrightarrow> mirrors (fst (on_frame keep_event f s))"
proof -
  assume m: "mirrors s"
  obtain a p n where r: "resolve (oa_requestId s) f (oa_tools s) = (a, p, n)" by (metis prod_cases3)
  have ok: "acc_ok a" "p < length (ta_all a)" using resolve_ok [of "oa_tools s" "oa_requestId s" f] m r by (auto simp: mirrors_def)
  have ok': "acc_ok (add_args p t a)" for t using ok by (simp add: add_args_def acc_ok_def map_upd_at)
  note ra = resolve_args [OF _ r]
  have up: "args_at (upd_at p (\<lambda>c. c\<lparr>tc_args := tc_args c @ t\<rparr>) (ta_all a)) k =
      args_at (ta_all a) k @ (if k = tc_index (ta_all a ! p) then t else [])" for t k
    using args_at_upd [of "ta_all a" p "\<lambda>c. c\<lparr>tc_args := tc_args c @ t\<rparr>" t k] ok by (simp add: acc_ok_def)
  show ?thesis
    using m ra ok ok' up
    by (cases n; cases "fr_args f = []")
      (auto simp: on_frame_def Let_def r mirrors_def and_then_def emit_def keep_event_def add_args_def map_upd_at)
qed

lemma on_choice_mirrors: "mirrors s \<Longrightarrow> mirrors (fst (on_choice keep_event ch s))"
  unfolding on_choice_def on_reasoning_def on_content_def
  by (intro and_then_keeps [where P = mirrors] each_of_keeps [where P = mirrors] on_frame_mirrors;
      simp add: mirrors_def and_then_def emit_def keep_event_def)

lemma on_receive_mirrors: "mirrors s \<Longrightarrow> mirrors (fst (on_receive env keep_event r s))"
  unfolding on_receive_def on_chunk_def Let_def
  by (cases r; simp only: received.case fst_conv)
    (intro and_then_keeps [where P = mirrors] each_of_keeps [where P = mirrors] on_choice_mirrors;
      simp add: mirrors_def emit_def keep_event_def split: option.splits)

lemma and_then_None: "and_then r f = (s, None) \<Longrightarrow> \<exists>m. r = (m, None) \<and> f m = (s, None)"
  by (cases r) (auto simp: and_then_def split: option.splits)

lemma received_mirrors: "mirrors (fst (each_of (on_receive env keep_event) rs (oai_start [])))"
  by (rule each_of_keeps [where P = mirrors], rule on_receive_mirrors)
    (simp_all add: mirrors_def oai_start_def acc_ok_def newToolCallAccumulator_def args_at_def)

text \<open>C29. When a stream ends without an error, the answer it ends with is what the deltas showed: the
  content, the reasoning and, call by call, the arguments; each call was announced under its
  position, and the positions ascend.\<close>

theorem answer_is_what_was_streamed:
  assumes "openai_Stream env keep_event rs [] = (s, None)"
  shows "\<exists>evs ev. oa_h s = evs @ [LLMEndEvent ev] \<and>
     en_Content ev = concat (map content_delta evs) \<and>
     en_Reasoning ev = concat (map reasoning_delta evs) \<and>
     sorted_wrt (<) (map tc_index (en_Calls ev)) \<and>
     set (map tc_index (en_Calls ev)) = set (concat (map started_call evs)) \<and>
     list_all (\<lambda>c. tc_args c = concat (map (tool_delta (tc_index c)) evs)) (en_Calls ev)"
proof -
  from and_then_None [OF assms [unfolded openai_Stream_def]] obtain m where
    m: "each_of (on_receive env keep_event) rs (oai_start []) = (m, None)" "finish_stream env keep_event m = (s, None)" by blast
  have mm: "mirrors m" using received_mirrors [of env rs] m(1) by simp
  then have d: "distinct (map tc_index (ta_all (oa_tools m)))" by (simp add: mirrors_def acc_ok_def)
  have args: "tc_args c = args_at (ta_all (oa_tools m)) (tc_index c)" if "c \<in> set (ta_all (oa_tools m))" for c
    using that args_at_nth [OF d] by (auto simp: in_set_conv_nth)
  have sorted: "sorted_wrt (<) (map tc_index (call_list (oa_tools m)))"
    using d by (simp add: call_list_def strict_sorted_iff distinct_map)
  have s: "oa_h s = oa_h m @ [LLMEndEvent (end_event env m)]"
    using m(2) by (auto simp: finish_stream_def emit_def keep_event_def split: if_splits)
  have calls: "en_Calls (end_event env m) = call_list (oa_tools m)" "en_Content (end_event env m) = oa_content m"
    "en_Reasoning (end_event env m) = oa_reasoning m" "set (call_list (oa_tools m)) = set (ta_all (oa_tools m))"
    by (simp_all add: end_event_def Let_def call_list_def)
  have deltas: "concat (map (tool_delta k) (oa_h m)) = args_at (ta_all (oa_tools m)) k" for k
    using mm by (simp add: mirrors_def)
  show ?thesis
    by (rule exI [of _ "oa_h m"], rule exI [of _ "end_event env m"], intro conjI)
      (use s calls sorted mm args deltas in \<open>simp_all add: mirrors_def list_all_iff\<close>)
qed

section \<open>Calls are put together by their labels\<close>

definition stream_frames :: "received list \<Rightarrow> tool_frame list" where
  "stream_frames rs = concat (map (\<lambda>r. case r of Chunk ck \<Rightarrow> concat (map ch_Tools (ck_Choices ck)) | RecvError e \<Rightarrow> []) rs)"

definition fed :: "tool_frame list \<Rightarrow> 'h oai \<Rightarrow> bool" where
  "fed fs s \<longleftrightarrow> (\<exists>rfs. map snd rfs = fs \<and> oa_tools s = accumulate rfs)"

lemma fed_cong: "oa_tools s = oa_tools s' \<Longrightarrow> fed fs s = fed fs s'"
  by (simp add: fed_def)

lemma each_of_fed:
  assumes "\<And>x s s' fs. f x s = (s', None) \<Longrightarrow> fed fs s \<Longrightarrow> fed (fs @ out x) s'"
  shows "each_of f xs s = (s', None) \<Longrightarrow> fed fs s \<Longrightarrow> fed (fs @ concat (map out xs)) s'"
proof (induction xs arbitrary: s fs)
  case (Cons x xs)
  from and_then_None [OF Cons.prems(1) [unfolded each_of.simps]] obtain m where
    "f x s = (m, None)" "each_of f xs m = (s', None)" by blast
  then show ?case using Cons.IH [of m "fs @ out x"] assms Cons.prems(2) by simp
qed simp

lemma emit_tools: "emit han ev s = (s', r) \<Longrightarrow> oa_tools s' = oa_tools s"
  by (auto simp: emit_def split: prod.splits)

lemma on_frame_fed:
  assumes "on_frame han f s = (s', None)" "fed fs s"
  shows "fed (fs @ [f]) s'"
proof -
  obtain a p n where r: "resolve (oa_requestId s) f (oa_tools s) = (a, p, n)" by (metis prod_cases3)
  have "oa_tools s' = feed (oa_requestId s) f (oa_tools s)"
    using assms(1) r
    by (auto simp: on_frame_def feed_def Let_def dest!: and_then_None emit_tools split: if_splits)
  moreover obtain rfs where "map snd rfs = fs" "oa_tools s = accumulate rfs" using assms(2) by (auto simp: fed_def)
  ultimately have "map snd (rfs @ [(oa_requestId s, f)]) = fs @ [f] \<and> oa_tools s' = accumulate (rfs @ [(oa_requestId s, f)])"
    by (simp add: accumulate_snoc)
  then show ?thesis unfolding fed_def by blast
qed

lemma on_choice_fed:
  assumes "on_choice han ch s = (s', None)" "fed fs s"
  shows "fed (fs @ ch_Tools ch) s'"
proof -
  from assms(1) obtain m1 m2 m3 where m: "on_reasoning han (ch_Reasoning ch) s = (m1, None)" "on_content han (ch_Content ch) m1 = (m2, None)"
    "each_of (on_frame han) (ch_Tools ch) m2 = (m3, None)" "oa_tools s' = oa_tools m3"
    unfolding on_choice_def by (auto dest!: and_then_None split: if_splits)
  have "oa_tools m2 = oa_tools s"
    using m(1, 2) by (auto simp: on_reasoning_def on_content_def dest!: and_then_None emit_tools split: if_splits)
  then have "fed fs m2" using assms(2) by (simp add: fed_def)
  from each_of_fed [of "on_frame han" "\<lambda>f. [f]", OF on_frame_fed m(3) this] show ?thesis
    using m(4) by (simp add: fed_def)
qed

lemma on_receive_fed:
  assumes "on_receive env han r s = (s', None)" "fed fs s"
  shows "fed (fs @ stream_frames [r]) s'"
proof (cases r)
  case (Chunk ck)
  define m0 where "m0 = (if oa_requestId s = [] \<and> ck_ID ck \<noteq> [] then s\<lparr>oa_requestId := ck_ID ck\<rparr> else s)"
  have m0: "oa_tools m0 = oa_tools s" by (simp add: m0_def)
  from assms(1) Chunk obtain m1 where m1: "(if \<not> oa_started m0 then emit han (LLMStartEvent (oa_requestId m0)) (m0\<lparr>oa_started := True\<rparr>) else (m0, None)) = (m1, None)"
    and rest: "each_of (on_choice han) (ck_Choices ck) (case ck_Usage ck of Some u \<Rightarrow> m1\<lparr>oa_usage := toCoreUsage u\<rparr> | None \<Rightarrow> m1) = (s', None)"
    unfolding m0_def by (auto simp: on_receive_def on_chunk_def Let_def dest!: and_then_None)
  have "oa_tools m1 = oa_tools s" using m1 m0 by (auto dest: emit_tools split: if_splits)
  then have "oa_tools (case ck_Usage ck of Some u \<Rightarrow> m1\<lparr>oa_usage := toCoreUsage u\<rparr> | None \<Rightarrow> m1) = oa_tools s"
    by (cases "ck_Usage ck") simp_all
  with rest obtain m where m: "oa_tools m = oa_tools s" "each_of (on_choice han) (ck_Choices ck) m = (s', None)" by blast
  then have "fed fs m" using assms(2) by (simp add: fed_def)
  from each_of_fed [OF on_choice_fed m(2) this] show ?thesis by (simp add: Chunk stream_frames_def)
qed (use assms in \<open>simp add: on_receive_def\<close>)

text \<open>C30. Frames find their call although they are labelled by position, by identifier or by both: when
  the stream ends, the calls of the answer are, one for each call of the model, the first identifier
  and name given for it and the concatenation of the arguments of its frames.\<close>

theorem frames_find_their_call:
  assumes "labelled own (stream_frames rs)" "openai_Stream env han rs h = (s, None)"
  shows "mset (map view_of (en_Calls (end_event env s))) =
     image_mset (spec_call own (stream_frames rs)) (mset (owners own (stream_frames rs)))"
proof -
  from and_then_None [OF assms(2) [unfolded openai_Stream_def]] obtain m where
    m: "each_of (on_receive env han) rs (oai_start h) = (m, None)" "finish_stream env han m = (s, None)" by blast
  have "fed [] (oai_start h)" by (auto simp: fed_def oai_start_def accumulate_def intro: exI [of _ "[]"])
  from each_of_fed [OF on_receive_fed m(1) this] have "fed (stream_frames rs) m" by (simp add: stream_frames_def)
  moreover have "oa_tools s = oa_tools m" using m(2) by (auto simp: finish_stream_def dest: emit_tools split: if_splits)
  ultimately obtain rfs where "map snd rfs = stream_frames rs" "oa_tools s = accumulate rfs" by (auto simp: fed_def)
  then show ?thesis using call_list_views [of own rfs] assms(1) by (simp add: end_event_def Let_def)
qed

section \<open>Concrete streams\<close>

definition plain_env :: oai_env where
  "plain_env = \<lparr>oe_classify = (\<lambda>e. e), oe_price = (\<lambda>u. u), oe_hint = None, oe_needs_finish = False\<rparr>"

definition choice :: "string \<Rightarrow> tool_frame list \<Rightarrow> string \<Rightarrow> received" where
  "choice t fs fin = Chunk \<lparr>ck_ID = ''r'', ck_Usage = None,
     ck_Choices = [\<lparr>ch_Reasoning = [], ch_Content = t, ch_Tools = fs, ch_Finish = fin\<rparr>]\<rparr>"

text \<open>Two calls whose frames alternate; the later frames carry only one of the two labels.\<close>

definition two_calls :: "received list" where
  "two_calls =
     [choice ''ok'' [\<lparr>fr_index = Some 0, fr_id = ''a'', fr_name = ''read'', fr_args = ''[1''\<rparr>] [],
      choice [] [\<lparr>fr_index = Some 1, fr_id = ''b'', fr_name = ''grep'', fr_args = ''[3''\<rparr>] [],
      choice [] [\<lparr>fr_index = None, fr_id = ''a'', fr_name = [], fr_args = '',2]''\<rparr>] [],
      choice [] [\<lparr>fr_index = Some 1, fr_id = [], fr_name = [], fr_args = '']''\<rparr>] ''tool_calls'']"

definition of_call :: "tool_frame \<Rightarrow> string" where
  "of_call f = (if fr_id f = ''a'' then ''first'' else ''second'')"

lemmas stream_defs = openai_Stream_def choice_def on_receive_def on_chunk_def on_choice_def on_frame_def on_content_def on_reasoning_def and_then_def emit_def keep_event_def oai_start_def resolve_def
  lookup_call_def newToolCallAccumulator_def fill_in_def upd_at_def new_call_def pickIndex_def add_args_def finish_stream_def
  plain_env_def end_event_def final_reason_def call_list_def mapFinishReason_def Let_def

lemma two_calls_end: "snd (openai_Stream plain_env keep_event two_calls []) = None"
  by (simp add: stream_defs two_calls_def least_free.simps)

lemma answer_is_what_was_streamed_witness:
  "\<exists>evs ev. oa_h (fst (openai_Stream plain_env keep_event two_calls [])) = evs @ [LLMEndEvent ev] \<and>
     en_Content ev = concat (map content_delta evs) \<and>
     en_Reasoning ev = concat (map reasoning_delta evs) \<and>
     sorted_wrt (<) (map tc_index (en_Calls ev)) \<and>
     set (map tc_index (en_Calls ev)) = set (concat (map started_call evs)) \<and>
     list_all (\<lambda>c. tc_args c = concat (map (tool_delta (tc_index c)) evs)) (en_Calls ev)"
  by (rule answer_is_what_was_streamed [of plain_env two_calls])
    (metis prod.collapse two_calls_end)

lemma frames_find_their_call_witness:
  "mset (map view_of (en_Calls (end_event plain_env (fst (openai_Stream plain_env keep_event two_calls []))))) =
     {#(''a'', ''read'', ''[1,2]''), (''b'', ''grep'', ''[3]'')#}"
proof -
  have frames: "stream_frames two_calls =
     [\<lparr>fr_index = Some 0, fr_id = ''a'', fr_name = ''read'', fr_args = ''[1''\<rparr>,
      \<lparr>fr_index = Some 1, fr_id = ''b'', fr_name = ''grep'', fr_args = ''[3''\<rparr>,
      \<lparr>fr_index = None, fr_id = ''a'', fr_name = [], fr_args = '',2]''\<rparr>,
      \<lparr>fr_index = Some 1, fr_id = [], fr_name = [], fr_args = '']''\<rparr>]"
    by (simp add: stream_frames_def two_calls_def choice_def)
  have l: "labelled of_call (stream_frames two_calls)"
    unfolding frames labelled_def
    by (auto simp: same_label_def of_call_def less_Suc_eq)
  have "openai_Stream plain_env keep_event two_calls [] = (fst (openai_Stream plain_env keep_event two_calls []), None)"
    by (metis prod.collapse two_calls_end)
  from frames_find_their_call [OF l this] show ?thesis
    by (simp add: frames owners_def note_key_def spec_call_def of_call_def)
qed

text \<open>C21. An answer that the upstream cut off at its length limit in the middle of a tool call is reported
  as a complete round of tool calls, and the repair of arguments closes the cut-off arguments, so that
  the call runs with a part of its content.\<close>

definition cut_write :: string where
  "cut_write = ''{'' @ quoted ''path'' @ '':'' @ quoted ''a.go'' @ '','' @ quoted ''content'' @ '':'' @ CHR 0x22 # ''package ma''"

theorem cut_off_call_is_run:
  "let s = fst (openai_Stream plain_env keep_event
         [choice [] [\<lparr>fr_index = Some 0, fr_id = ''c'', fr_name = ''write'', fr_args = cut_write\<rparr>] [], choice [] [] ''length''] []);
       ev = end_event plain_env s
   in en_RawFinish ev = ''length'' \<and> en_Finish ev = FinishToolCall \<and> map tc_args (en_Calls ev) = [cut_write] \<and>
      RepairArguments cut_write = cut_write @ CHR 0x22 # ''}''"
proof -
  have "RepairArguments cut_write = cut_write @ CHR 0x22 # ''}''" by code_simp
  then show ?thesis
    by (simp add: stream_defs cut_write_def)
qed

end
