(* ===== verification/SlotPool.thy ===== *)
theory SlotPool
  imports Prelude
begin

text \<open>
  The pool of concurrency slots of the sub-agents (\<open>subagent/slots.go\<close>) as a step relation. A
  change of the capacity starts a new generation with a channel of its own; every caller of \<open>Acquire\<close>
  is a process that reads the current generation, waits on its channel and on the signal of a change,
  and gives its slot back to the channel it took it from. Channels are their fill: generation \<open>g\<close> has
  the capacity \<open>sp_caps ! g\<close> and holds \<open>sp_fill ! g\<close> tokens.
\<close>

datatype acquirer =
    Fresh | Trying | Waiting nat | Holding nat | Released nat | Cancelled

record slot_pool =
  sp_caps :: "nat list"
  sp_fill :: "nat list"
  sp_procs :: "acquirer list"

definition DefaultConcurrency :: nat where "DefaultConcurrency = 1000"

definition effective :: "int \<Rightarrow> nat" where
  "effective n = (if n \<le> 0 then DefaultConcurrency else nat n)"

definition NewSlotPool :: "int \<Rightarrow> nat \<Rightarrow> slot_pool" where
  "NewSlotPool n procs = \<lparr>sp_caps = [effective n], sp_fill = [0], sp_procs = replicate procs Fresh\<rparr>"

definition generation :: "slot_pool \<Rightarrow> nat" where
  "generation p = length (sp_caps p) - 1"

definition Capacity :: "slot_pool \<Rightarrow> nat" where
  "Capacity p = last (sp_caps p)"

definition InFlight :: "slot_pool \<Rightarrow> nat" where
  "InFlight p = last (sp_fill p)"

definition SetCapacity :: "int \<Rightarrow> slot_pool \<Rightarrow> slot_pool" where
  "SetCapacity n p =
     (if effective n = Capacity p then p
      else p\<lparr>sp_caps := sp_caps p @ [effective n], sp_fill := sp_fill p @ [0]\<rparr>)"

definition move :: "nat \<Rightarrow> acquirer \<Rightarrow> slot_pool \<Rightarrow> slot_pool" where
  "move t a p = p\<lparr>sp_procs := (sp_procs p)[t := a]\<rparr>"

definition add_token :: "nat \<Rightarrow> slot_pool \<Rightarrow> slot_pool" where
  "add_token g p = p\<lparr>sp_fill := (sp_fill p)[g := sp_fill p ! g + 1]\<rparr>"

definition drop_token :: "nat \<Rightarrow> slot_pool \<Rightarrow> slot_pool" where
  "drop_token g p = p\<lparr>sp_fill := (sp_fill p)[g := sp_fill p ! g - 1]\<rparr>"

text \<open>What process \<open>t\<close> does next, and a change of the capacity by anyone.\<close>

inductive acquirer_step :: "nat \<Rightarrow> slot_pool \<Rightarrow> slot_pool \<Rightarrow> bool" for t :: nat where
  call: "\<lbrakk>t < length (sp_procs p); sp_procs p ! t = Fresh\<rbrakk> \<Longrightarrow> acquirer_step t p (move t Trying p)"
| look: "\<lbrakk>t < length (sp_procs p); sp_procs p ! t = Trying\<rbrakk> \<Longrightarrow> acquirer_step t p (move t (Waiting (generation p)) p)"
| take_slot: "\<lbrakk>t < length (sp_procs p); sp_procs p ! t = Waiting g; sp_fill p ! g < sp_caps p ! g\<rbrakk>
    \<Longrightarrow> acquirer_step t p (move t (Holding g) (add_token g p))"
| changed: "\<lbrakk>t < length (sp_procs p); sp_procs p ! t = Waiting g; g \<noteq> generation p\<rbrakk> \<Longrightarrow> acquirer_step t p (move t Trying p)"
| cancel: "\<lbrakk>t < length (sp_procs p); sp_procs p ! t = Waiting g\<rbrakk> \<Longrightarrow> acquirer_step t p (move t Cancelled p)"
| release: "\<lbrakk>t < length (sp_procs p); sp_procs p ! t = Holding g; 0 < sp_fill p ! g\<rbrakk>
    \<Longrightarrow> acquirer_step t p (move t (Released g) (drop_token g p))"
| release_again: "\<lbrakk>t < length (sp_procs p); sp_procs p ! t = Released g\<rbrakk> \<Longrightarrow> acquirer_step t p p"

inductive slot_step :: "slot_pool \<Rightarrow> slot_pool \<Rightarrow> bool" where
  process: "acquirer_step t p q \<Longrightarrow> slot_step p q"
| resize: "slot_step p (SetCapacity n p)"

inductive slot_reachable :: "int \<Rightarrow> nat \<Rightarrow> slot_pool \<Rightarrow> bool" for n :: int and k :: nat where
  start: "slot_reachable n k (NewSlotPool n k)"
| step: "slot_reachable n k p \<Longrightarrow> slot_step p q \<Longrightarrow> slot_reachable n k q"

inductive_cases acquirer_stepE: "acquirer_step t p q"
inductive_cases slot_stepE: "slot_step p q"

section \<open>Conservation of slots\<close>

definition holders :: "nat \<Rightarrow> slot_pool \<Rightarrow> nat" where
  "holders g p = count_list (sp_procs p) (Holding g)"

fun known_generation :: "nat \<Rightarrow> acquirer \<Rightarrow> bool" where
  "known_generation n (Waiting g) \<longleftrightarrow> g < n"
| "known_generation n (Holding g) \<longleftrightarrow> g < n"
| "known_generation n (Released g) \<longleftrightarrow> g < n"
| "known_generation n _ \<longleftrightarrow> True"

definition pool_ok :: "slot_pool \<Rightarrow> bool" where
  "pool_ok p \<longleftrightarrow> sp_caps p \<noteq> [] \<and> length (sp_fill p) = length (sp_caps p) \<and>
     (\<forall>c \<in> set (sp_caps p). 0 < c) \<and>
     (\<forall>a \<in> set (sp_procs p). known_generation (length (sp_caps p)) a) \<and>
     (\<forall>g < length (sp_caps p). sp_fill p ! g = holders g p \<and> holders g p \<le> sp_caps p ! g)"

lemma count_list_update:
  "t < length xs \<Longrightarrow> count_list (xs[t := y]) x + (if xs ! t = x then 1 else 0) = count_list xs x + (if y = x then 1 else 0)"
proof (induction xs arbitrary: t)
  case (Cons z xs)
  show ?case
  proof (cases t)
    case (Suc n)
    then show ?thesis using Cons.IH [of n] Cons.prems by (auto split: if_splits)
  qed simp
qed simp

lemma holders_move: "t < length (sp_procs p) \<Longrightarrow>
    holders g (move t a p) + (if sp_procs p ! t = Holding g then 1 else 0) = holders g p + (if a = Holding g then 1 else 0)"
  unfolding holders_def move_def using count_list_update [of t "sp_procs p" a "Holding g"] by simp

lemma known_mono: "known_generation n a \<Longrightarrow> n \<le> m \<Longrightarrow> known_generation m a"
  by (cases a) auto

lemma move_fields [simp]: "sp_caps (move t a p) = sp_caps p" "sp_fill (move t a p) = sp_fill p"
  "generation (move t a p) = generation p" "sp_procs (move t a p) = (sp_procs p)[t := a]"
  by (simp_all add: move_def generation_def)

lemma token_fields [simp]:
  "sp_caps (add_token g p) = sp_caps p" "sp_procs (add_token g p) = sp_procs p"
  "sp_caps (drop_token g p) = sp_caps p" "sp_procs (drop_token g p) = sp_procs p"
  "holders h (add_token g p) = holders h p" "holders h (drop_token g p) = holders h p"
  "sp_fill (add_token g p) = (sp_fill p)[g := sp_fill p ! g + 1]"
  "sp_fill (drop_token g p) = (sp_fill p)[g := sp_fill p ! g - 1]"
  by (simp_all add: add_token_def drop_token_def holders_def)

lemma known_update: "\<forall>a \<in> set xs. known_generation n a \<Longrightarrow> known_generation n b \<Longrightarrow> \<forall>a \<in> set (xs[t := b]). known_generation n a"
  using set_update_subset_insert [of xs t b] by auto

lemma quiet_move_ok:
  assumes "pool_ok p" "t < length (sp_procs p)" "\<And>g. a \<noteq> Holding g" "\<And>g. sp_procs p ! t \<noteq> Holding g"
    "known_generation (length (sp_caps p)) a"
  shows "pool_ok (move t a p)"
proof -
  have "holders g (move t a p) = holders g p" for g using holders_move [OF assms(2), of g a] assms(3, 4) by simp
  moreover have "\<forall>b \<in> set ((sp_procs p)[t := a]). known_generation (length (sp_caps p)) b"
    using assms(1, 5) by (intro known_update) (simp_all add: pool_ok_def)
  ultimately show ?thesis using assms(1) by (simp add: pool_ok_def)
qed

lemma proc_known: "pool_ok p \<Longrightarrow> t < length (sp_procs p) \<Longrightarrow> known_generation (length (sp_caps p)) (sp_procs p ! t)"
  unfolding pool_ok_def by (meson nth_mem)

lemma acquirer_step_ok:
  assumes "acquirer_step t p q" "pool_ok p"
  shows "pool_ok q"
  using assms(1)
proof cases
  case (take_slot g)
  have g: "g < length (sp_caps p)" using proc_known [OF assms(2) take_slot(2)] take_slot(3) by simp
  have h: "holders h q = holders h p + (if h = g then 1 else 0)" for h
    using holders_move [of t "add_token g p" h "Holding g"] take_slot by (auto split: if_splits)
  have k: "\<forall>a \<in> set (sp_procs q). known_generation (length (sp_caps p)) a"
    using assms(2) g known_update [of "sp_procs p" _ "Holding g" t] by (simp add: take_slot(1) pool_ok_def)
  have f: "sp_fill q ! h = holders h q \<and> holders h q \<le> sp_caps p ! h" if "h < length (sp_caps p)" for h
    using assms(2) that g take_slot(4) h [of h] by (cases "h = g") (simp_all add: pool_ok_def take_slot(1))
  show ?thesis using assms(2) k f by (simp add: pool_ok_def take_slot(1))
next
  case (release g)
  have g: "g < length (sp_caps p)" using proc_known [OF assms(2) release(2)] release(3) by simp
  have h: "holders h q + (if h = g then 1 else 0) = holders h p" for h
    using holders_move [of t "drop_token g p" h "Released g"] release by (auto split: if_splits)
  have "holders h q = (if h = g then holders g p - 1 else holders h p)" for h using h [of h] by (auto split: if_splits)
  note hq = this
  have k: "\<forall>a \<in> set (sp_procs q). known_generation (length (sp_caps p)) a"
    using assms(2) g known_update [of "sp_procs p" _ "Released g" t] by (simp add: release(1) pool_ok_def)
  have f: "sp_fill q ! h = holders h q \<and> holders h q \<le> sp_caps p ! h" if "h < length (sp_caps p)" for h
    using assms(2) that g hq [of h] by (cases "h = g") (auto simp: pool_ok_def release(1))
  show ?thesis using assms(2) k f by (simp add: pool_ok_def release(1))
next
  case look
  have "generation p < length (sp_caps p)" using assms(2) by (simp add: pool_ok_def generation_def)
  then show ?thesis unfolding look(1) by (intro quiet_move_ok assms(2) look(2)) (simp_all add: look(3))
next
  case call
  show ?thesis unfolding call(1) by (intro quiet_move_ok assms(2) call(2)) (simp_all add: call(3))
next
  case (changed g)
  show ?thesis unfolding changed(1) by (intro quiet_move_ok assms(2) changed(2)) (simp_all add: changed(3))
next
  case (cancel g)
  show ?thesis unfolding cancel(1) by (intro quiet_move_ok assms(2) cancel(2)) (simp_all add: cancel(3))
next
  case (release_again g)
  show ?thesis unfolding release_again(1) by (rule assms(2))
qed

lemma resize_ok:
  assumes "pool_ok p"
  shows "pool_ok (SetCapacity n p)"
proof -
  have "holders (length (sp_caps p)) p = 0"
    using assms by (force simp: pool_ok_def holders_def count_list_0_iff)
  moreover have "0 < effective n" by (simp add: effective_def DefaultConcurrency_def)
  ultimately show ?thesis
    using assms by (auto simp: pool_ok_def SetCapacity_def holders_def nth_append less_Suc_eq intro: known_mono)
qed

lemma reachable_ok: "slot_reachable n k p \<Longrightarrow> pool_ok p"
proof (induction rule: slot_reachable.induct)
  case start
  then show ?case
    by (auto simp: pool_ok_def NewSlotPool_def effective_def DefaultConcurrency_def holders_def count_list_0_iff)
next
  case (step p q)
  then show ?case by (auto elim!: slot_stepE intro: acquirer_step_ok resize_ok)
qed

lemma current_generation:
  assumes "pool_ok p"
  shows "InFlight p = sp_fill p ! generation p" "Capacity p = sp_caps p ! generation p" "generation p < length (sp_caps p)"
proof -
  have "sp_caps p \<noteq> []" "sp_fill p \<noteq> []" using assms by (auto simp: pool_ok_def)
  then show "InFlight p = sp_fill p ! generation p" "Capacity p = sp_caps p ! generation p" "generation p < length (sp_caps p)"
    using assms by (simp_all add: InFlight_def Capacity_def generation_def last_conv_nth pool_ok_def)
qed

text \<open>Slots are conserved over any interleaving of callers, releases and changes of the capacity: the
  fill of a channel is the number of callers that hold a slot of it, and no generation has more
  holders than its capacity.\<close>

theorem slots_are_conserved:
  assumes "slot_reachable n k p"
  shows "InFlight p = holders (generation p) p \<and> InFlight p \<le> Capacity p \<and>
     list_all (\<lambda>g. sp_fill p ! g = holders g p \<and> holders g p \<le> sp_caps p ! g) [0..<length (sp_caps p)]"
proof -
  have ok: "pool_ok p" by (rule reachable_ok [OF assms])
  then show ?thesis using current_generation [OF ok] by (simp add: pool_ok_def list_all_iff)
qed

lemma reach_steps:
  "slot_reachable n k p \<Longrightarrow> acquirer_step t p q \<Longrightarrow> slot_reachable n k q"
  by (rule slot_reachable.step [OF _ process])

text \<open>Three callers, a pool of one slot that is enlarged to two while the slot is taken.\<close>

definition crowd :: slot_pool where
  "crowd = \<lparr>sp_caps = [1, 2], sp_fill = [1, 2], sp_procs = [Holding 0, Holding 1, Holding 1]\<rparr>"

lemma holding_reached:
  assumes "slot_reachable n k p" "t < length (sp_procs p)" "sp_procs p ! t = Fresh" "InFlight p < Capacity p"
  shows "slot_reachable n k (move t (Holding (generation p)) (add_token (generation p) p))"
proof -
  let ?g = "generation p"
  have ok: "pool_ok p" by (rule reachable_ok [OF assms(1)])
  then have room: "sp_fill p ! ?g < sp_caps p ! ?g"
    using assms(4) current_generation by simp
  have "slot_reachable n k (move t Trying p)" by (rule reach_steps [OF assms(1) call]) (use assms in simp_all)
  then have "slot_reachable n k (move t (Waiting ?g) (move t Trying p))"
    using reach_steps look [of t "move t Trying p"] assms(2) by simp
  then have "slot_reachable n k (move t (Holding ?g) (add_token ?g (move t (Waiting ?g) (move t Trying p))))"
    using reach_steps take_slot [of t "move t (Waiting ?g) (move t Trying p)" ?g] assms(2) room by simp
  moreover have "move t (Holding ?g) (add_token ?g (move t (Waiting ?g) (move t Trying p))) = move t (Holding ?g) (add_token ?g p)"
    by (simp add: move_def add_token_def)
  ultimately show ?thesis by simp
qed

lemma crowd_reached: "slot_reachable 1 3 crowd"
proof -
  define p0 where "p0 = NewSlotPool 1 3"
  have p0: "p0 = \<lparr>sp_caps = [1], sp_fill = [0], sp_procs = [Fresh, Fresh, Fresh]\<rparr>"
    by (simp add: p0_def NewSlotPool_def effective_def numeral_3_eq_3)
  have "slot_reachable 1 3 p0" unfolding p0_def by (rule slot_reachable.start)
  from holding_reached [OF this, of 0]
  have "slot_reachable 1 3 \<lparr>sp_caps = [1], sp_fill = [1], sp_procs = [Holding 0, Fresh, Fresh]\<rparr>"
    by (simp add: p0 InFlight_def Capacity_def generation_def move_def add_token_def)
  from slot_reachable.step [OF this resize [of _ 2]]
  have "slot_reachable 1 3 \<lparr>sp_caps = [1, 2], sp_fill = [1, 0], sp_procs = [Holding 0, Fresh, Fresh]\<rparr>"
    by (simp add: SetCapacity_def effective_def Capacity_def)
  from holding_reached [OF this, of 1]
  have "slot_reachable 1 3 \<lparr>sp_caps = [1, 2], sp_fill = [1, 1], sp_procs = [Holding 0, Holding 1, Fresh]\<rparr>"
    by (simp add: InFlight_def Capacity_def generation_def move_def add_token_def)
  from holding_reached [OF this, of 2]
  show ?thesis
    by (simp add: crowd_def InFlight_def Capacity_def generation_def move_def add_token_def numeral_2_eq_2)
qed

lemma slots_are_conserved_witness:
  "InFlight crowd = holders (generation crowd) crowd \<and> InFlight crowd \<le> Capacity crowd \<and>
     list_all (\<lambda>g. sp_fill crowd ! g = holders g crowd \<and> holders g crowd \<le> sp_caps crowd ! g) [0..<length (sp_caps crowd)]"
  by (rule slots_are_conserved [OF crowd_reached])

text \<open>C40. Nobody waits while a slot is free: whenever the current generation has room, a caller that has
  not been given a slot yet, wherever it stands and on whatever old generation it waits, reaches one by
  steps of its own. In particular every waiter can proceed after a change of the capacity.\<close>

theorem waiter_gets_a_free_slot:
  assumes "slot_reachable n k p" "t < length (sp_procs p)" "sp_procs p ! t \<in> {Fresh, Trying, Waiting g}" "InFlight p < Capacity p"
  shows "\<exists>q. (acquirer_step t)\<^sup>*\<^sup>* p q \<and> sp_procs q ! t = Holding (generation p)"
proof -
  let ?g = "generation p"
  have ok: "pool_ok p" by (rule reachable_ok [OF assms(1)])
  then have room: "sp_fill p ! ?g < sp_caps p ! ?g"
    using assms(4) current_generation by simp
  have take: "acquirer_step t (move t (Waiting ?g) p) (move t (Holding ?g) (add_token ?g (move t (Waiting ?g) p)))"
    using take_slot [of t "move t (Waiting ?g) p" ?g] assms(2) room by simp
  have look': "acquirer_step t (move t Trying p) (move t (Waiting ?g) p)"
    using look [of t "move t Trying p"] assms(2) by (simp add: move_def generation_def)
  have wait: "(acquirer_step t)\<^sup>*\<^sup>* (move t Trying p) (move t (Holding ?g) (add_token ?g (move t (Waiting ?g) p)))"
    by (rule converse_rtranclp_into_rtranclp [OF look' r_into_rtranclp [of "acquirer_step t", OF take]])
  have same: "move t (sp_procs p ! t) p = p" by (simp add: move_def)
  have "(acquirer_step t)\<^sup>*\<^sup>* p (move t (Holding ?g) (add_token ?g (move t (Waiting ?g) p)))"
  proof -
    consider (f) "sp_procs p ! t = Fresh" | (t) "sp_procs p ! t = Trying" | (c) "sp_procs p ! t = Waiting ?g"
      | (o) "sp_procs p ! t = Waiting g" "g \<noteq> ?g"
      using assms(3) by auto
    then show ?thesis
    proof cases
      case f
      from converse_rtranclp_into_rtranclp [OF call wait] show ?thesis using assms(2) f by blast
    next
      case t
      then show ?thesis using wait same by simp
    next
      case c
      then show ?thesis using r_into_rtranclp [of "acquirer_step t", OF take] same by simp
    next
      case o
      from converse_rtranclp_into_rtranclp [OF changed wait] show ?thesis using assms(2) o by blast
    qed
  qed
  then show ?thesis using assms(2) by (intro exI conjI) auto
qed

lemma waiter_gets_a_free_slot_witness:
  "\<exists>q. (acquirer_step 1)\<^sup>*\<^sup>* (NewSlotPool 2 3) q \<and> sp_procs q ! 1 = Holding (generation (NewSlotPool 2 3))"
  by (rule waiter_gets_a_free_slot [OF slot_reachable.start, of _ _ _ 0])
    (simp_all add: NewSlotPool_def InFlight_def Capacity_def effective_def numeral_3_eq_3)

text \<open>Enlarging the pool while slots are taken admits more holders than the new capacity.\<close>

theorem enlarged_pool_overshoots: "slot_reachable 1 3 crowd \<and> holders 0 crowd + holders 1 crowd = 3 \<and> Capacity crowd = 2"
  using crowd_reached by (simp add: holders_def crowd_def Capacity_def)

end
