(* ===== verification/SubTasks.thy ===== *)
theory SubTasks
  imports SlotPool Errors
begin

text \<open>
  The registry of background sub-agents (\<open>subagent/registry.go\<close>): its tasks, the goroutines that run
  and task_settle them, and the operations other goroutines call meanwhile. Each section that the code runs
  under a lock is one step. A \<open>done\<close> channel is a number; closing a closed one is the panic of Go's
  run-time. What a run of the sub-agent returns and the outcome of \<open>SlotPool.Acquire\<close> are arguments;
  new task ids are arguments too. Journals and checkpoints are not modelled.
\<close>

datatype task_status = TaskRunning | TaskInterrupting | TaskCompleted | TaskInterrupted | TaskFailed | TaskAbandoned

fun status_text :: "task_status \<Rightarrow> string" where
  "status_text TaskRunning = ''running''"
| "status_text TaskInterrupting = ''interrupting''"
| "status_text TaskCompleted = ''completed''"
| "status_text TaskInterrupted = ''interrupted''"
| "status_text TaskFailed = ''failed''"
| "status_text TaskAbandoned = ''abandoned''"

record task =
  tk_ID :: string
  tk_Name :: string
  tk_ToolName :: string
  tk_Status :: task_status
  tk_Result :: string
  tk_Usage :: usage
  tk_Err :: "err option"
  tk_outputFile :: string
  tk_parent :: string
  tk_resumedFrom :: string
  tk_accepting :: bool
  tk_abort :: bool
  tk_abortRequested :: bool
  tk_done :: nat
  tk_inbox :: "message list"
  tk_waiting :: bool

text \<open>A goroutine of a task: it executes the run, publishes what it settled, or is about to close.\<close>

datatype phase =
    Executing
  | Publishing string task_status usage "err option"
  | Closing

record push =
  pu_task :: string
  pu_name :: string
  pu_result :: string
  pu_status :: task_status
  pu_usage :: usage
  pu_err :: "err option"

record task_registry =
  rg_tasks :: "task list"
  rg_closed :: bool
  rg_callback :: bool
  rg_timeout :: int
  rg_runs :: "(string \<times> phase) list"
  rg_pending :: "string list"
  rg_channels :: nat
  rg_shut :: "nat list"
  rg_pushed :: "push list"
  rg_panic :: bool

record start_options =
  st_ToolName :: string
  st_Name :: string
  st_Journal :: "string \<Rightarrow> string option"
  st_Parent :: string
  st_ResumedFrom :: string

definition defaultAsyncTaskTimeout :: int where
  "defaultAsyncTaskTimeout = 43200000000000"

definition NewRegistry :: task_registry where
  "NewRegistry = \<lparr>rg_tasks = [], rg_closed = False, rg_callback = False, rg_timeout = defaultAsyncTaskTimeout, rg_runs = [],
     rg_pending = [], rg_channels = 0, rg_shut = [], rg_pushed = [], rg_panic = False\<rparr>"

definition SetAsyncTimeout :: "int \<Rightarrow> task_registry \<Rightarrow> task_registry" where
  "SetAsyncTimeout d r = r\<lparr>rg_timeout := (if d \<le> 0 then defaultAsyncTaskTimeout else d)\<rparr>"

definition currentAsyncTimeout :: "task_registry \<Rightarrow> int" where
  "currentAsyncTimeout r = (if rg_timeout r \<le> 0 then defaultAsyncTaskTimeout else rg_timeout r)"

text \<open>The map of the tasks, as a list of tasks with distinct ids.\<close>

definition task_get :: "string \<Rightarrow> task_registry \<Rightarrow> task option" where
  "task_get i r = find (\<lambda>t. tk_ID t = i) (rg_tasks r)"

definition task_upd :: "string \<Rightarrow> (task \<Rightarrow> task) \<Rightarrow> task_registry \<Rightarrow> task_registry" where
  "task_upd i f r = r\<lparr>rg_tasks := map (\<lambda>t. if tk_ID t = i then f t else t) (rg_tasks r)\<rparr>"

definition ErrTaskNotFound :: err where "ErrTaskNotFound = Plain ''task not found''"
definition ErrTaskFinished :: err where "ErrTaskFinished = Plain ''task already finished''"
definition ErrTaskInboxFull :: err where "ErrTaskInboxFull = Plain ''task inbox full''"
definition ErrTaskAbandoned :: err where "ErrTaskAbandoned = Plain ''task abandoned''"
definition ErrClosed :: err where "ErrClosed = Plain ''task registry closed''"

definition not_found :: "string \<Rightarrow> err" where
  "not_found i = Wrapped (err_text ErrTaskNotFound @ '': '' @ i) ErrTaskNotFound"

section \<open>Starting a task\<close>

definition new_task :: "string \<Rightarrow> start_options \<Rightarrow> nat \<Rightarrow> task" where
  "new_task i so ch = \<lparr>tk_ID = i, tk_Name = st_Name so, tk_ToolName = st_ToolName so, tk_Status = TaskRunning, tk_Result = [],
     tk_Usage = zero_usage, tk_Err = None, tk_outputFile = (case st_Journal so i of Some p \<Rightarrow> p | None \<Rightarrow> []),
     tk_parent = st_Parent so, tk_resumedFrom = st_ResumedFrom so, tk_accepting = True, tk_abort = False,
     tk_abortRequested = False, tk_done = ch, tk_inbox = [], tk_waiting = False\<rparr>"

text \<open>\<open>start\<close> with a fresh id; \<open>slot\<close> is the error of \<open>Acquire\<close>, if any.\<close>

definition task_start :: "string \<Rightarrow> start_options \<Rightarrow> err option \<Rightarrow> task_registry \<Rightarrow> err + task_registry" where
  "task_start i so slot r =
     (if rg_closed r then Inl ErrClosed
      else case slot of
          Some e \<Rightarrow> Inl e
        | None \<Rightarrow> Inr (r\<lparr>rg_tasks := rg_tasks r @ [new_task i so (rg_channels r)], rg_channels := rg_channels r + 1,
                          rg_runs := rg_runs r @ [(i, Executing)]\<rparr>))"

definition adopt :: "string \<Rightarrow> string \<Rightarrow> string \<Rightarrow> string \<Rightarrow> task_registry \<Rightarrow> err + task_registry" where
  "adopt i name tool file r =
     (if rg_closed r then Inl ErrClosed
      else if task_get i r \<noteq> None then Inr r
      else Inr (r\<lparr>rg_tasks := rg_tasks r @
          [\<lparr>tk_ID = i, tk_Name = name, tk_ToolName = tool, tk_Status = TaskInterrupted, tk_Result = [], tk_Usage = zero_usage,
            tk_Err = None, tk_outputFile = file, tk_parent = [], tk_resumedFrom = i, tk_accepting = False, tk_abort = False,
            tk_abortRequested = False, tk_done = rg_channels r, tk_inbox = [], tk_waiting = False\<rparr>],
          rg_channels := rg_channels r + 1\<rparr>))"

text \<open>\<open>restart\<close> up to the wait for a slot, and from there.\<close>

definition restart_reset :: "string \<Rightarrow> string \<Rightarrow> task_registry \<Rightarrow> err + task_registry" where
  "restart_reset i resumedFrom r =
     (if rg_closed r then Inl ErrClosed
      else case task_get i r of
          None \<Rightarrow> Inl (not_found i)
        | Some t \<Rightarrow>
            if tk_Status t = TaskRunning \<or> tk_Status t = TaskInterrupting
            then Inl (Plain (''task '' @ i @ '' is still '' @ status_text (tk_Status t) @ lit_still))
            else Inr ((task_upd i (\<lambda>t. t\<lparr>tk_Status := TaskRunning, tk_Result := [], tk_Err := None, tk_abort := False,
                     tk_abortRequested := False, tk_accepting := True, tk_resumedFrom := resumedFrom,
                     tk_done := rg_channels r\<rparr>) r)
                   \<lparr>rg_channels := rg_channels r + 1, rg_pending := i # rg_pending r\<rparr>))"

definition close_channel :: "nat \<Rightarrow> task_registry \<Rightarrow> task_registry" where
  "close_channel ch r = (if ch \<in> set (rg_shut r) then r\<lparr>rg_panic := True\<rparr> else r\<lparr>rg_shut := ch # rg_shut r\<rparr>)"

definition close_done :: "string \<Rightarrow> task_registry \<Rightarrow> task_registry" where
  "close_done i r = (case task_get i r of Some t \<Rightarrow> close_channel (tk_done t) r | None \<Rightarrow> r)"

definition restart_acquired :: "string \<Rightarrow> err option \<Rightarrow> task_registry \<Rightarrow> task_registry" where
  "restart_acquired i slot r =
     (let r1 = r\<lparr>rg_pending := remove1 i (rg_pending r)\<rparr> in
      case slot of
        None \<Rightarrow> r1\<lparr>rg_runs := rg_runs r1 @ [(i, Executing)]\<rparr>
      | Some e \<Rightarrow> close_done i (task_upd i (\<lambda>t. t\<lparr>tk_Status := TaskFailed, tk_Err := Some e\<rparr>) r1))"

section \<open>The goroutine of a task\<close>

definition limit_error :: "int \<Rightarrow> err \<Rightarrow> err" where
  "limit_error d e = Wrapped (''background task exceeded its time limit ('' @ show_duration d @ '') and was stopped; '' @
     err_text e @ lit_time_limit_close) e"

text \<open>The first part of \<open>runAndFinalize\<close> up to the unlocking of the task; \<open>late\<close> says that the
  deadline of the run has passed. \<open>k\<close> is the place of the goroutine.\<close>

definition final_status :: "bool \<Rightarrow> err option \<Rightarrow> task_status" where
  "final_status aborted e = (if aborted then TaskInterrupted else if e \<noteq> None then TaskFailed else TaskCompleted)"

definition task_settle :: "nat \<Rightarrow> string \<Rightarrow> usage \<Rightarrow> err option \<Rightarrow> bool \<Rightarrow> task_registry \<Rightarrow> task_registry" where
  "task_settle k result u e late r =
     (let i = fst (rg_runs r ! k);
          e1 = (case e of Some x \<Rightarrow> if late \<and> \<not> rg_closed r then Some (limit_error (currentAsyncTimeout r) x) else e | None \<Rightarrow> None)
      in case task_get i r of
           None \<Rightarrow> r
         | Some t \<Rightarrow>
             if tk_Status t = TaskAbandoned then r\<lparr>rg_runs := (rg_runs r)[k := (i, Closing)]\<rparr>
             else let st = final_status (tk_abortRequested t) e1
                  in (task_upd i (\<lambda>t. t\<lparr>tk_Result := result, tk_Usage := u, tk_Err := e1, tk_Status := st\<rparr>) r)
                     \<lparr>rg_runs := (rg_runs r)[k := (i, if tk_waiting t then Closing else Publishing result st u e1)]\<rparr>)"

definition inboxSize :: nat where "inboxSize = 16"

definition deliverToParent :: "task \<Rightarrow> string \<Rightarrow> task_status \<Rightarrow> err option \<Rightarrow> task_registry \<Rightarrow> task_registry option" where
  "deliverToParent t result st e r =
     (case task_get (tk_parent t) r of
        None \<Rightarrow> None
      | Some p \<Rightarrow>
          if tk_Status p \<noteq> TaskRunning \<or> \<not> tk_accepting p then None
          else if length (tk_inbox p) < inboxSize
          then Some (task_upd (tk_parent t) (\<lambda>p. p\<lparr>tk_inbox := tk_inbox p @
                 [NewTaskResultMessageWithStatus (tk_ID t) (tk_Name t) result (status_text st) (map_option err_text e)]\<rparr>) r)
          else None)"

definition task_publish :: "nat \<Rightarrow> task_registry \<Rightarrow> task_registry" where
  "task_publish k r =
     (case rg_runs r ! k of
        (i, Publishing result st u e) \<Rightarrow>
          (case task_get i r of
             None \<Rightarrow> r
           | Some t \<Rightarrow>
               let r1 = r\<lparr>rg_runs := (rg_runs r)[k := (i, Closing)]\<rparr> in
               case (if tk_parent t \<noteq> [] then deliverToParent t result st e r1 else None) of
                 Some r2 \<Rightarrow> r2
               | None \<Rightarrow>
                   if rg_callback r
                   then r1\<lparr>rg_pushed := rg_pushed r @ [\<lparr>pu_task = i, pu_name = tk_Name t, pu_result = result, pu_status = st,
                          pu_usage = u, pu_err = e\<rparr>]\<rparr>
                   else r1)
      | _ \<Rightarrow> r)"

text \<open>The deferred end: the slot is given back (see \<open>SlotPool\<close>) and the \<open>done\<close> channel that the task has
  \<^emph>\<open>now\<close> is closed.\<close>

definition finish_run :: "nat \<Rightarrow> task_registry \<Rightarrow> task_registry" where
  "finish_run k r = close_done (fst (rg_runs r ! k)) (r\<lparr>rg_runs := take k (rg_runs r) @ drop (Suc k) (rg_runs r)\<rparr>)"

section \<open>Operations of other goroutines\<close>

definition task_addUsage :: "usage \<Rightarrow> task \<Rightarrow> task" where
  "task_addUsage u t =
     (let a = tk_Usage t; c = u_cost a; d = u_cost u in
      t\<lparr>tk_Usage := a\<lparr>u_input := u_input a + u_input u, u_output := u_output a + u_output u,
          u_cache_read := u_cache_read a + u_cache_read u, u_cache_write := u_cache_write a + u_cache_write u,
          u_reasoning := u_reasoning a + u_reasoning u, u_total := u_total a + u_total u,
          u_cost := c\<lparr>c_input := c_input c + c_input d, c_output := c_output c + c_output d,
             c_cache_read := c_cache_read c + c_cache_read d, c_cache_write := c_cache_write c + c_cache_write d,
             c_total := c_total c + c_total d\<rparr>\<rparr>\<rparr>)"

definition closeDelivery :: "task \<Rightarrow> task" where
  "closeDelivery t = t\<lparr>tk_accepting := False\<rparr>"

text \<open>\<open>setAbort\<close> and \<open>Abort\<close> with the answer whether the handle is called at once.\<close>

definition setAbort :: "task \<Rightarrow> task \<times> bool" where
  "setAbort t = (t\<lparr>tk_abort := True\<rparr>, tk_abortRequested t)"

definition task_Abort :: "task \<Rightarrow> task \<times> bool" where
  "task_Abort t = (t\<lparr>tk_abortRequested := True\<rparr>, tk_abort t)"

definition task_Interrupt :: "(string \<Rightarrow> err option) option \<Rightarrow> string \<Rightarrow> task_registry \<Rightarrow> err option \<times> task_registry" where
  "task_Interrupt tooltask i r =
     (if has_prefix i ''tooltask-''
      then (case tooltask of None \<Rightarrow> Some ErrTaskNotFound | Some fn \<Rightarrow> fn i, r)
      else case task_get i r of
          None \<Rightarrow> (Some (not_found i), r)
        | Some t \<Rightarrow>
            if tk_Status t \<noteq> TaskRunning then (Some ErrTaskFinished, r)
            else (None, task_upd i (\<lambda>t. fst (task_Abort (t\<lparr>tk_Status := TaskInterrupting\<rparr>))) r))"

definition task_Send :: "string \<Rightarrow> string \<Rightarrow> task_registry \<Rightarrow> err option \<times> task_registry" where
  "task_Send i msg r =
     (case task_get i r of
        None \<Rightarrow> (Some (not_found i), r)
      | Some t \<Rightarrow>
          if tk_Status t \<noteq> TaskRunning then (Some ErrTaskFinished, r)
          else if length (tk_inbox t) < inboxSize
          then (None, task_upd i (\<lambda>t. t\<lparr>tk_inbox := tk_inbox t @ [NewUserMessage [text_block msg]]\<rparr>) r)
          else (Some ErrTaskInboxFull, r))"

definition poll_inbox :: "string \<Rightarrow> task_registry \<Rightarrow> message list \<times> task_registry" where
  "poll_inbox i r =
     (case task_get i r of None \<Rightarrow> ([], r) | Some t \<Rightarrow> (tk_inbox t, task_upd i (\<lambda>t. t\<lparr>tk_inbox := []\<rparr>) r))"

text \<open>\<open>Wait\<close> up to its block (on the channel it returns), and behind it.\<close>

definition wait_begin :: "string \<Rightarrow> task_registry \<Rightarrow> err + nat \<times> task_registry" where
  "wait_begin i r =
     (case task_get i r of
        None \<Rightarrow> Inl (not_found i)
      | Some t \<Rightarrow> if tk_Status t = TaskAbandoned then Inl ErrTaskAbandoned
                  else Inr (tk_done t, task_upd i (\<lambda>t. t\<lparr>tk_waiting := True\<rparr>) r))"

definition wait_end :: "string \<Rightarrow> task_registry \<Rightarrow> (string \<times> err option) \<times> task_registry" where
  "wait_end i r =
     ((case task_get i r of Some t \<Rightarrow> (tk_Result t, tk_Err t) | None \<Rightarrow> ([], None)),
      task_upd i (\<lambda>t. t\<lparr>tk_waiting := False\<rparr>) r)"

definition AbandonAll :: "task_registry \<Rightarrow> task_registry" where
  "AbandonAll r = r\<lparr>rg_tasks := map (\<lambda>t. if tk_Status t = TaskRunning then t\<lparr>tk_Status := TaskAbandoned\<rparr> else t) (rg_tasks r)\<rparr>"

definition TotalUsage :: "task_registry \<Rightarrow> usage" where
  "TotalUsage r = foldl (\<lambda>acc t. if tk_Status t = TaskAbandoned then acc else tk_Usage (task_addUsage (tk_Usage t) (t\<lparr>tk_Usage := acc\<rparr>)))
     zero_usage (rg_tasks r)"

definition close_registry :: "task_registry \<Rightarrow> task_registry" where
  "close_registry r = r\<lparr>rg_closed := True\<rparr>"

record task_info =
  ti_ID :: string
  ti_Kind :: string
  ti_Name :: string
  ti_ToolName :: string
  ti_Status :: task_status
  ti_Error :: string
  ti_OutputFile :: string
  ti_Parent :: string
  ti_ResumedFrom :: string

record tool_task =
  tt_ID :: string
  tt_Name :: string
  tt_Interrupting :: bool

definition task_snapshot :: "task \<Rightarrow> task_info" where
  "task_snapshot t = \<lparr>ti_ID = tk_ID t, ti_Kind = ''agent'', ti_Name = tk_Name t, ti_ToolName = tk_ToolName t,
     ti_Status = tk_Status t, ti_Error = (case tk_Err t of Some e \<Rightarrow> err_text e | None \<Rightarrow> []),
     ti_OutputFile = tk_outputFile t, ti_Parent = tk_parent t, ti_ResumedFrom = tk_resumedFrom t\<rparr>"

definition Snapshot :: "string \<Rightarrow> task_registry \<Rightarrow> err + task_info" where
  "Snapshot i r = (case task_get i r of None \<Rightarrow> Inl (not_found i) | Some t \<Rightarrow> Inr (task_snapshot t))"

definition task_list :: "tool_task list \<Rightarrow> task_registry \<Rightarrow> task_info list" where
  "task_list tools r = map task_snapshot (rg_tasks r) @
     map (\<lambda>tt. \<lparr>ti_ID = tt_ID tt, ti_Kind = ''tool'', ti_Name = tt_Name tt, ti_ToolName = tt_Name tt,
        ti_Status = (if tt_Interrupting tt then TaskInterrupting else TaskRunning), ti_Error = [], ti_OutputFile = [],
        ti_Parent = [], ti_ResumedFrom = []\<rparr>) tools"

definition InFlightDescendants :: "tool_task list \<Rightarrow> string \<Rightarrow> task_registry \<Rightarrow> task_info list" where
  "InFlightDescendants tools p r =
     (if p = [] then []
      else filter (\<lambda>ti. ti_Parent ti = p \<and> (ti_Status ti = TaskRunning \<or> ti_Status ti = TaskInterrupting)) (task_list tools r))"

definition ToolTaskByID :: "tool_task list option \<Rightarrow> string \<Rightarrow> tool_task option" where
  "ToolTaskByID tools i = (case tools of None \<Rightarrow> None | Some ts \<Rightarrow> find (\<lambda>t. tt_ID t = i) ts)"

section \<open>Interleavings\<close>

text \<open>One step of the registry. Only the resumption of a task depends on \<open>allowed\<close>, which says when the
  host calls it.\<close>

inductive task_step :: "(task_registry \<Rightarrow> string \<Rightarrow> bool) \<Rightarrow> task_registry \<Rightarrow> task_registry \<Rightarrow> bool"
  for allowed :: "task_registry \<Rightarrow> string \<Rightarrow> bool" where
  start: "task_get i r = None \<Longrightarrow> task_start i so slot r = Inr r' \<Longrightarrow> task_step allowed r r'"
| adopted: "adopt i name tool file r = Inr r' \<Longrightarrow> task_step allowed r r'"
| reset: "allowed r i \<Longrightarrow> restart_reset i rf r = Inr r' \<Longrightarrow> task_step allowed r r'"
| acquired: "i \<in> set (rg_pending r) \<Longrightarrow> task_step allowed r (restart_acquired i slot r)"
| settled: "k < length (rg_runs r) \<Longrightarrow> snd (rg_runs r ! k) = Executing \<Longrightarrow> task_step allowed r (task_settle k result u e late r)"
| published: "k < length (rg_runs r) \<Longrightarrow> task_step allowed r (task_publish k r)"
| finished: "k < length (rg_runs r) \<Longrightarrow> snd (rg_runs r ! k) = Closing \<Longrightarrow> task_step allowed r (finish_run k r)"
| used: "task_step allowed r (task_upd i (task_addUsage u) r)"
| deaf: "task_step allowed r (task_upd i closeDelivery r)"
| handle: "task_step allowed r (task_upd i (fst \<circ> setAbort) r)"
| interrupted: "task_step allowed r (snd (task_Interrupt tooltask i r))"
| sent: "task_step allowed r (snd (task_Send i msg r))"
| polled: "task_step allowed r (snd (poll_inbox i r))"
| waits: "wait_begin i r = Inr (ch, r') \<Longrightarrow> task_step allowed r r'"
| waited: "task_step allowed r (snd (wait_end i r))"
| abandoned: "task_step allowed r (AbandonAll r)"
| configured: "task_step allowed r (SetAsyncTimeout d r)"
| connected: "task_step allowed r (r\<lparr>rg_callback := True\<rparr>)"
| closed: "task_step allowed r (close_registry r)"

inductive task_reachable :: "(task_registry \<Rightarrow> string \<Rightarrow> bool) \<Rightarrow> task_registry \<Rightarrow> bool"
  for allowed :: "task_registry \<Rightarrow> string \<Rightarrow> bool" where
  start: "task_reachable allowed NewRegistry"
| step: "task_reachable allowed r \<Longrightarrow> task_step allowed r r' \<Longrightarrow> task_reachable allowed r'"

inductive_cases task_stepE: "task_step allowed r r'"

text \<open>A host that resumes a task only when its goroutine is gone, and one that goes by the status alone.\<close>

definition drivers :: "string \<Rightarrow> task_registry \<Rightarrow> nat" where
  "drivers i r = count_list (map fst (rg_runs r)) i + count_list (rg_pending r) i"

definition when_gone :: "task_registry \<Rightarrow> string \<Rightarrow> bool" where
  "when_gone r i \<longleftrightarrow> drivers i r = 0"

definition by_status :: "task_registry \<Rightarrow> string \<Rightarrow> bool" where
  "by_status r i \<longleftrightarrow> True"

section \<open>Resumption before the end of the goroutine\<close>

definition spawn :: start_options where
  "spawn = \<lparr>st_ToolName = ''agent_spawn'', st_Name = ''a'', st_Journal = (\<lambda>i. None), st_Parent = [], st_ResumedFrom = []\<rparr>"

lemmas task_ops = NewRegistry_def task_start_def new_task_def spawn_def task_settle_def task_publish_def finish_run_def close_done_def
  close_channel_def restart_reset_def restart_acquired_def task_get_def task_upd_def deliverToParent_def final_status_def Let_def

text \<open>A task that is resumed as soon as it has its final status, while the goroutine of its former run is
  still about to close the \<open>done\<close> channel, crashes the program: the old goroutine closes the new channel
  and the new one closes it again.\<close>

theorem early_resume_crashes: "\<exists>r. task_reachable by_status r \<and> rg_panic r"
proof -
  let ?r0 = NewRegistry
  define r1 where "r1 = projr (task_start ''t'' spawn None ?r0)"
  define r2 where "r2 = task_publish 0 (task_settle 0 ''done'' zero_usage None False r1)"
  define r3 where "r3 = restart_acquired ''t'' None (projr (restart_reset ''t'' [] r2))"
  define r4 where "r4 = finish_run 0 (task_publish 0 (task_settle 0 ''again'' zero_usage None False (finish_run 0 r3)))"
  have 1: "task_reachable by_status r1"
    by (rule task_reachable.step [OF task_reachable.start], rule task_step.start [of "''t''" _ spawn None])
      (simp_all add: r1_def task_ops)
  have 2: "task_reachable by_status r2"
    unfolding r2_def
    by (rule task_reachable.step [OF task_reachable.step [OF 1 settled] published]) (simp_all add: r1_def task_ops)
  have 3: "task_reachable by_status r3"
    unfolding r3_def
    by (rule task_reachable.step [OF task_reachable.step [OF 2 reset [where i = "''t''" and rf = "[]"]] acquired])
      (simp_all add: r1_def r2_def task_ops by_status_def zero_usage_def)
  have 4: "task_reachable by_status (finish_run 0 r3)"
    by (rule task_reachable.step [OF 3 finished]) (simp_all add: r1_def r2_def r3_def task_ops)
  have 5: "task_reachable by_status (task_publish 0 (task_settle 0 ''again'' zero_usage None False (finish_run 0 r3)))"
    by (rule task_reachable.step [OF task_reachable.step [OF 4 settled] published]) (simp_all add: r1_def r2_def r3_def task_ops)
  have "task_reachable by_status r4"
    unfolding r4_def by (rule task_reachable.step [OF 5 finished]) (simp_all add: r1_def r2_def r3_def task_ops)
  moreover have "rg_panic r4" by (simp add: r1_def r2_def r3_def r4_def task_ops)
  ultimately show ?thesis by blast
qed

section \<open>Resumption of finished tasks\<close>

fun life :: "task_status \<Rightarrow> bool" where
  "life TaskRunning \<longleftrightarrow> True"
| "life TaskInterrupting \<longleftrightarrow> True"
| "life _ \<longleftrightarrow> False"

text \<open>A task with a final status has no executing goroutine, every task at most one, whose channel is open.\<close>

definition executing :: "string \<Rightarrow> task_registry \<Rightarrow> bool" where
  "executing i r \<longleftrightarrow> (i, Executing) \<in> set (rg_runs r) \<or> i \<in> set (rg_pending r)"

definition task_ok :: "task_registry \<Rightarrow> task \<Rightarrow> bool" where
  "task_ok r t \<longleftrightarrow> tk_done t < rg_channels r \<and> drivers (tk_ID t) r \<le> 1 \<and>
     (drivers (tk_ID t) r = 1 \<longrightarrow> tk_done t \<notin> set (rg_shut r)) \<and>
     (life (tk_Status t) \<longleftrightarrow> executing (tk_ID t) r \<and> tk_Status t \<noteq> TaskAbandoned)"

definition registry_ok :: "task_registry \<Rightarrow> bool" where
  "registry_ok r \<longleftrightarrow> \<not> rg_panic r \<and> set (rg_shut r) \<subseteq> {..<rg_channels r} \<and> distinct (map tk_ID (rg_tasks r)) \<and> distinct (map tk_done (rg_tasks r)) \<and>
     fst ` set (rg_runs r) \<union> set (rg_pending r) \<subseteq> tk_ID ` set (rg_tasks r) \<and>
     (\<forall>t \<in> set (rg_tasks r). task_ok r t)"

lemma drivers_cong: "map fst (rg_runs r') = map fst (rg_runs r) \<Longrightarrow> rg_pending r' = rg_pending r \<Longrightarrow> drivers i r' = drivers i r"
  by (simp add: drivers_def)

lemma get_in: "task_get i r = Some t \<Longrightarrow> t \<in> set (rg_tasks r) \<and> tk_ID t = i"
  by (auto simp: task_get_def find_Some_iff)

lemma get_None: "task_get i r = None \<longleftrightarrow> i \<notin> tk_ID ` set (rg_tasks r)"
  by (auto simp: task_get_def find_None_iff)

lemma get_unique:
  assumes "registry_ok r" "task_get i r = Some t" "t' \<in> set (rg_tasks r)" "tk_ID t' = i"
  shows "t' = t"
proof -
  have "inj_on tk_ID (set (rg_tasks r))" using assms(1) by (simp add: registry_ok_def distinct_map)
  moreover have "t \<in> set (rg_tasks r)" "tk_ID t = i" using get_in [OF assms(2)] by simp_all
  ultimately show ?thesis using assms(3, 4) by (metis inj_onD)
qed

lemma task_okD: "registry_ok r \<Longrightarrow> t \<in> set (rg_tasks r) \<Longrightarrow> task_ok r t"
  by (simp add: registry_ok_def)

lemma driver_known:
  assumes "registry_ok r" "i \<notin> tk_ID ` set (rg_tasks r)"
  shows "drivers i r = 0 \<and> \<not> executing i r"
proof -
  have "i \<notin> fst ` set (rg_runs r)" "i \<notin> set (rg_pending r)" using assms by (auto simp: registry_ok_def)
  then show ?thesis by (force simp: drivers_def count_list_0_iff executing_def)
qed

text \<open>Changes of tasks that leave the id and the channel alone.\<close>

lemma tasks_map_ok:
  assumes ok: "registry_ok r"
    and g: "\<And>t. t \<in> set (rg_tasks r) \<Longrightarrow> tk_ID (g t) = tk_ID t \<and> tk_done (g t) = tk_done t \<and>
       ((life (tk_Status (g t)) \<longleftrightarrow> life (tk_Status t)) \<and> (tk_Status (g t) = TaskAbandoned \<longleftrightarrow> tk_Status t = TaskAbandoned) \<or>
        tk_Status (g t) = TaskAbandoned)"
  shows "registry_ok (r\<lparr>rg_tasks := map g (rg_tasks r)\<rparr>)"
proof -
  have ids: "map (tk_ID \<circ> g) (rg_tasks r) = map tk_ID (rg_tasks r)" "map (tk_done \<circ> g) (rg_tasks r) = map tk_done (rg_tasks r)"
    using g by simp_all
  have "task_ok (r\<lparr>rg_tasks := ts\<rparr>) (g t)" if "t \<in> set (rg_tasks r)" for t ts
    using task_okD [OF ok that] g [OF that] by (auto simp: task_ok_def drivers_def executing_def)
  moreover have "tk_ID ` g ` set (rg_tasks r) = tk_ID ` set (rg_tasks r)"
    using arg_cong [OF ids(1), of set] by (simp add: image_comp)
  ultimately show ?thesis
    using ok unfolding registry_ok_def
    by (intro conjI ballI) (simp_all add: ids, auto)
qed

lemma upd_ok:
  assumes "registry_ok r" "\<And>t. tk_ID (f t) = tk_ID t \<and> tk_done (f t) = tk_done t \<and> tk_Status (f t) = tk_Status t"
  shows "registry_ok (task_upd i f r)"
  unfolding task_upd_def by (rule tasks_map_ok [OF assms(1)]) (simp add: assms(2))

lemma other_fields_ok:
  "registry_ok (r\<lparr>rg_pushed := x\<rparr>) = registry_ok r" "registry_ok (r\<lparr>rg_closed := c\<rparr>) = registry_ok r"
  "registry_ok (r\<lparr>rg_callback := c\<rparr>) = registry_ok r" "registry_ok (r\<lparr>rg_timeout := d\<rparr>) = registry_ok r"
  by (simp_all add: registry_ok_def task_ok_def drivers_def executing_def)

lemma start_ok:
  assumes ok: "registry_ok r" and new: "tk_ID t \<notin> tk_ID ` set (rg_tasks r)" and ch: "tk_done t = rg_channels r"
    and st: "life (tk_Status t) \<longleftrightarrow> run" "tk_Status t \<noteq> TaskAbandoned"
  shows "registry_ok (r\<lparr>rg_tasks := rg_tasks r @ [t], rg_channels := rg_channels r + 1,
     rg_runs := rg_runs r @ (if run then [(tk_ID t, Executing)] else [])\<rparr>)" (is "registry_ok ?r")
proof -
  note none = driver_known [OF ok new]
  have shut: "rg_channels r \<notin> set (rg_shut r)" using ok by (auto simp: registry_ok_def)
  have old: "task_ok ?r t'" if "t' \<in> set (rg_tasks r)" for t'
    using task_okD [OF ok that] that new by (auto simp: task_ok_def drivers_def executing_def)
  have "tk_done t' < rg_channels r" if "t' \<in> set (rg_tasks r)" for t' using task_okD [OF ok that] by (simp add: task_ok_def)
  then have "tk_done t \<notin> tk_done ` set (rg_tasks r)" using ch by fastforce
  moreover have "task_ok ?r t" using none ch st shut by (auto simp: task_ok_def drivers_def executing_def)
  ultimately show ?thesis
    using ok new old by (auto simp: registry_ok_def)
qed

lemma count_single:
  "count_list xs a \<le> 1 \<Longrightarrow> k < length xs \<Longrightarrow> xs ! k = a \<Longrightarrow> j < length xs \<Longrightarrow> xs ! j = a \<Longrightarrow> j = k"
proof (induction xs arbitrary: j k)
  case (Cons x xs)
  have "n < length xs \<Longrightarrow> xs ! n = a \<Longrightarrow> 0 < count_list xs a" for n
    using count_list_0_iff [of xs a] by (metis gr0I nth_mem)
  then show ?case using Cons by (cases j; cases k) (auto split: if_splits)
qed simp

lemma run_task:
  assumes "registry_ok r" "k < length (rg_runs r)" "fst (rg_runs r ! k) = i"
  obtains t where "task_get i r = Some t" "t \<in> set (rg_tasks r)" "tk_ID t = i" "drivers i r = 1" "count_list (map fst (rg_runs r)) i = 1"
    "i \<notin> set (rg_pending r)"
proof -
  have "rg_runs r ! k \<in> set (rg_runs r)" using assms(2) by simp
  then have i: "i \<in> fst ` set (rg_runs r)" using assms(3) by blast
  then have "i \<in> tk_ID ` set (rg_tasks r)" using assms(1) by (auto simp: registry_ok_def)
  then obtain t where t: "task_get i r = Some t" using get_None [of i r] by (cases "task_get i r") auto
  have "task_ok r t" "tk_ID t = i" using task_okD [OF assms(1)] get_in [OF t] by simp_all
  moreover have "count_list (map fst (rg_runs r)) i \<noteq> 0" using i by (simp add: count_list_0_iff)
  ultimately have "drivers i r = 1" "count_list (map fst (rg_runs r)) i = 1" "count_list (rg_pending r) i = 0"
    by (auto simp: task_ok_def drivers_def)
  then show ?thesis using that [OF t] get_in [OF t] by (simp add: count_list_0_iff)
qed

text \<open>A goroutine that goes from one phase to another.\<close>

lemma phase_ok:
  assumes ok: "registry_ok r" and k: "k < length (rg_runs r)" "fst (rg_runs r ! k) = i" and ph: "ph \<noteq> Executing"
    and g: "\<And>t. tk_ID (g t) = tk_ID t \<and> tk_done (g t) = tk_done t"
    and st: "\<And>t. task_get i r = Some t \<Longrightarrow> snd (rg_runs r ! k) = Executing \<Longrightarrow>
       \<not> life (tk_Status (g t))" "snd (rg_runs r ! k) \<noteq> Executing \<Longrightarrow> g = (\<lambda>t. t)"
  shows "registry_ok ((task_upd i g r)\<lparr>rg_runs := (rg_runs r)[k := (i, ph)]\<rparr>)" (is "registry_ok ?r")
proof -
  from run_task [OF ok k] obtain t where t: "task_get i r = Some t" "t \<in> set (rg_tasks r)" "tk_ID t = i"
    "count_list (map fst (rg_runs r)) i = 1" "i \<notin> set (rg_pending r)" by blast
  let ?h = "\<lambda>t. if tk_ID t = i then g t else t"
  have fst': "map fst ((rg_runs r)[k := (i, ph)]) = map fst (rg_runs r)"
    using k by (simp add: map_update list_update_same_conv)
  have drv: "drivers j ?r = drivers j r" for j by (simp add: drivers_def fst' task_upd_def)
  have others: "executing j ?r = executing j r" if "j \<noteq> i" for j
    using that k by (auto simp: executing_def task_upd_def in_set_conv_nth nth_list_update split: if_splits)
      (metis fst_conv)+
  have only: "n = k" if "n < length (rg_runs r)" "fst (rg_runs r ! n) = i" for n
    using count_single [of "map fst (rg_runs r)" i k n] k that t(4) by simp
  have mine: "\<not> executing i ?r"
  proof
    assume "executing i ?r"
    then have "(i, Executing) \<in> set ((rg_runs r)[k := (i, ph)])" using t(5) by (simp add: executing_def task_upd_def)
    then obtain n where n: "n < length (rg_runs r)" "(rg_runs r)[k := (i, ph)] ! n = (i, Executing)"
      by (metis in_set_conv_nth length_list_update)
    then have "n \<noteq> k" using ph by auto
    then show False using n only [of n] by simp
  qed
  have was: "executing i r \<longleftrightarrow> snd (rg_runs r ! k) = Executing"
  proof
    assume "executing i r"
    then obtain n where n: "n < length (rg_runs r)" "rg_runs r ! n = (i, Executing)"
      using t(5) by (metis executing_def in_set_conv_nth)
    then show "snd (rg_runs r ! k) = Executing" using only [of n] by simp
  next
    assume "snd (rg_runs r ! k) = Executing"
    then have "rg_runs r ! k = (i, Executing)" using k by (metis prod.collapse)
    then show "executing i r" using k by (metis executing_def nth_mem)
  qed
  have tasks: "task_ok ?r (?h u)" if u: "u \<in> set (rg_tasks r)" for u
  proof (cases "tk_ID u = i")
    case True
    then have "u = t" using get_unique [OF ok t(1) u] by simp
    then show ?thesis using task_okD [OF ok u] True st(1) [OF t(1)] st(2) g [of u] drv [of i] mine was
      by (cases "snd (rg_runs r ! k) = Executing") (simp_all add: task_ok_def task_upd_def)
  next
    case False
    then show ?thesis using task_okD [OF ok u] drv others by (simp add: task_ok_def task_upd_def)
  qed
  have ids: "map (tk_ID \<circ> ?h) (rg_tasks r) = map tk_ID (rg_tasks r)" "map (tk_done \<circ> ?h) (rg_tasks r) = map tk_done (rg_tasks r)"
    using g by simp_all
  have im: "tk_ID ` (g ` (S \<inter> {t. tk_ID t = i}) \<union> S \<inter> {t. tk_ID t \<noteq> i}) = tk_ID ` S" for S
    by (simp add: image_Un image_image g) blast
  have runs: "fst ` set ((rg_runs r)[k := (i, ph)]) = fst ` set (rg_runs r)" using arg_cong [OF fst', of set] by simp
  have "\<forall>u \<in> set (rg_tasks ?r). task_ok ?r u"
  proof
    fix u assume "u \<in> set (rg_tasks ?r)"
    then have "u \<in> ?h ` set (rg_tasks r)" by (simp add: task_upd_def)
    then obtain u' where "u' \<in> set (rg_tasks r)" "u = ?h u'" by blast
    then show "task_ok ?r u" using tasks by simp
  qed
  moreover have "\<not> rg_panic ?r \<and> set (rg_shut ?r) \<subseteq> {..<rg_channels ?r} \<and> distinct (map tk_ID (rg_tasks ?r)) \<and>
      distinct (map tk_done (rg_tasks ?r)) \<and> fst ` set (rg_runs ?r) \<union> set (rg_pending ?r) \<subseteq> tk_ID ` set (rg_tasks ?r)"
    using ok unfolding registry_ok_def by (simp add: task_upd_def ids im runs)
  ultimately show ?thesis unfolding registry_ok_def by blast
qed

text \<open>Closing the channel of a task whose only driver has just gone.\<close>

lemma close_ok:
  assumes ok: "registry_ok r" and t: "task_get i r = Some t" and one: "drivers i r = 1"
    and gone: "drivers i r' = 0" "\<not> executing i r'" "\<And>j. j \<noteq> i \<Longrightarrow> drivers j r' = drivers j r \<and> executing j r' = executing j r"
    and same: "rg_panic r' = rg_panic r" "rg_shut r' = rg_shut r" "rg_channels r' = rg_channels r"
      "fst ` set (rg_runs r') \<subseteq> fst ` set (rg_runs r)" "set (rg_pending r') \<subseteq> set (rg_pending r)"
    and g: "rg_tasks r' = rg_tasks (task_upd i g r)" "\<And>t. tk_ID (g t) = tk_ID t \<and> tk_done (g t) = tk_done t" "\<not> life (tk_Status (g t))"
  shows "registry_ok (close_done i r')"
proof -
  let ?h = "\<lambda>t. if tk_ID t = i then g t else t"
  have ti: "t \<in> set (rg_tasks r)" "tk_ID t = i" using get_in [OF t] by simp_all
  have open': "tk_done t \<notin> set (rg_shut r)" "tk_done t < rg_channels r"
    using task_okD [OF ok ti(1)] ti one by (simp_all add: task_ok_def)
  have tasks: "rg_tasks r' = map ?h (rg_tasks r)" using g(1) by (simp add: task_upd_def)
  have get: "task_get i r' = Some (g t)"
  proof -
    have "find (\<lambda>t. tk_ID t = i) (map ?h ts) = map_option ?h (find (\<lambda>t. tk_ID t = i) ts)" for ts
      by (induction ts) (use g(2) in auto)
    then show ?thesis using t ti by (simp add: task_get_def tasks)
  qed
  let ?q = "r'\<lparr>rg_shut := tk_done t # rg_shut r\<rparr>"
  have q: "close_done i r' = ?q" using get open' by (simp add: close_done_def close_channel_def g(2) same)
  have dr: "drivers j ?q = drivers j r'" "executing j ?q = executing j r'" for j by (simp_all add: drivers_def executing_def)
  have each: "task_ok ?q (?h u)" if u: "u \<in> set (rg_tasks r)" for u
  proof (cases "tk_ID u = i")
    case True
    then have "u = t" using get_unique [OF ok t u] by simp
    then show ?thesis using True gone g(2, 3) open'(2) same by (simp add: task_ok_def dr)
  next
    case False
    have "tk_done u \<noteq> tk_done t"
      using ok u ti False by (auto simp: registry_ok_def distinct_map dest: inj_onD)
    then show ?thesis using task_okD [OF ok u] False gone(3) [OF False] same by (simp add: task_ok_def dr)
  qed
  have ids: "map (tk_ID \<circ> ?h) (rg_tasks r) = map tk_ID (rg_tasks r)" "map (tk_done \<circ> ?h) (rg_tasks r) = map tk_done (rg_tasks r)"
    using g(2) by simp_all
  have im: "tk_ID ` (g ` (S \<inter> {t. tk_ID t = i}) \<union> S \<inter> {t. tk_ID t \<noteq> i}) = tk_ID ` S" for S
    by (simp add: image_Un image_image g) blast
  have "\<forall>u \<in> set (rg_tasks ?q). task_ok ?q u"
  proof
    fix u assume "u \<in> set (rg_tasks ?q)"
    then have "u \<in> ?h ` set (rg_tasks r)" by (simp add: tasks)
    then obtain u' where "u' \<in> set (rg_tasks r)" "u = ?h u'" by blast
    then show "task_ok ?q u" using each by simp
  qed
  moreover have "fst ` set (rg_runs r') \<union> set (rg_pending r') \<subseteq> tk_ID ` set (rg_tasks r)"
    by (rule order_trans [OF Un_mono [OF same(4, 5)]]) (use ok in \<open>simp add: registry_ok_def\<close>)
  ultimately show ?thesis unfolding q using ok open' unfolding registry_ok_def by (simp add: tasks ids im same)
qed

lemma task_upd_id: "task_upd i (\<lambda>t. t) r = r"
  by (simp add: task_upd_def)

lemma settle_ok:
  assumes ok: "registry_ok r" and k: "k < length (rg_runs r)" "snd (rg_runs r ! k) = Executing"
  shows "registry_ok (task_settle k result u e late r)"
proof -
  let ?i = "fst (rg_runs r ! k)"
  from run_task [OF ok k(1) refl] obtain t where t: "task_get ?i r = Some t" by blast
  show ?thesis
  proof (cases "tk_Status t = TaskAbandoned")
    case True
    have "registry_ok ((task_upd ?i (\<lambda>t. t) r)\<lparr>rg_runs := (rg_runs r)[k := (?i, Closing)]\<rparr>)"
      by (rule phase_ok [OF ok k(1) refl]) (use True t in auto)
    then show ?thesis using True t by (simp add: task_settle_def task_upd_id)
  next
    case False
    have fin: "\<not> life (final_status a x)" for a x by (simp add: final_status_def)
    show ?thesis
      using False t unfolding task_settle_def
      by (simp add: Let_def) (intro conjI impI phase_ok [OF ok k(1) refl], simp_all add: fin k(2))
  qed
qed

lemma publish_ok:
  assumes ok: "registry_ok r" and k: "k < length (rg_runs r)"
  shows "registry_ok (task_publish k r)"
proof (cases "rg_runs r ! k")
  case (Pair i ph)
  let ?r1 = "r\<lparr>rg_runs := (rg_runs r)[k := (i, Closing)]\<rparr>"
  show ?thesis
  proof (cases ph)
    case (Publishing result st u e)
    have "registry_ok ((task_upd i (\<lambda>t. t) r)\<lparr>rg_runs := (rg_runs r)[k := (i, Closing)]\<rparr>)"
      by (rule phase_ok [OF ok k]) (use Pair Publishing in auto)
    then have r1: "registry_ok ?r1" by (simp add: task_upd_id)
    have "registry_ok r2" if "deliverToParent t result st e ?r1 = Some r2" for t r2
      using that upd_ok [OF r1] by (auto simp: deliverToParent_def split: option.splits if_splits)
    then show ?thesis
      using ok r1 by (auto simp: task_publish_def Pair Publishing Let_def other_fields_ok split: option.splits)
  qed (use ok in \<open>simp_all add: task_publish_def Pair\<close>)
qed

lemma finish_ok:
  assumes ok: "registry_ok r" and k: "k < length (rg_runs r)" "snd (rg_runs r ! k) = Closing"
  shows "registry_ok (finish_run k r)"
proof -
  let ?i = "fst (rg_runs r ! k)"
  let ?r1 = "r\<lparr>rg_runs := take k (rg_runs r) @ drop (Suc k) (rg_runs r)\<rparr>"
  from run_task [OF ok k(1) refl] obtain t where t: "task_get ?i r = Some t" "t \<in> set (rg_tasks r)" "tk_ID t = ?i" "drivers ?i r = 1"
    "count_list (map fst (rg_runs r)) ?i = 1" "?i \<notin> set (rg_pending r)" by blast
  have runs: "rg_runs r = take k (rg_runs r) @ (?i, Closing) # drop (Suc k) (rg_runs r)"
    using id_take_nth_drop [OF k(1)] k(2) by (metis prod.collapse)
  have cnt: "count_list (map fst (rg_runs r)) j = count_list (map fst (rg_runs ?r1)) j + (if j = ?i then 1 else 0)" for j
    by (subst runs) simp
  have mem: "(j, Executing) \<in> set (rg_runs r) \<longleftrightarrow> (j, Executing) \<in> set (rg_runs ?r1)" for j
    by (subst runs) simp
  have none: "\<not> executing ?i ?r1"
  proof
    assume "executing ?i ?r1"
    then have "(?i, Executing) \<in> set (rg_runs ?r1)" using t(6) by (simp add: executing_def)
    then have "?i \<in> set (map fst (rg_runs ?r1))" using imageI [of "(?i, Executing)" "set (rg_runs ?r1)" fst] by (simp add: image_Un)
    then have "count_list (map fst (rg_runs ?r1)) ?i \<noteq> 0" using count_list_0_iff by metis
    then show False using cnt [of ?i] t(5) by simp
  qed
  have "\<not> executing ?i r" using none mem t(6) by (simp add: executing_def)
  then have dead: "\<not> life (tk_Status t)" using task_okD [OF ok t(2)] t(3) by (simp add: task_ok_def)
  have "set (rg_runs ?r1) \<subseteq> set (rg_runs r)" by (subst (2) runs) auto
  then have sub: "fst ` set (rg_runs ?r1) \<subseteq> fst ` set (rg_runs r)" by (rule image_mono)
  have "registry_ok (close_done ?i ?r1)"
  proof (rule close_ok [OF ok t(1) t(4), where g = "\<lambda>t. t"])
    show "drivers ?i ?r1 = 0" using cnt [of ?i] t(4, 5) by (simp add: drivers_def)
    show "drivers j ?r1 = drivers j r \<and> executing j ?r1 = executing j r" if "j \<noteq> ?i" for j
      using cnt [of j] mem [of j] that by (simp add: drivers_def executing_def)
    show "fst ` set (rg_runs ?r1) \<subseteq> fst ` set (rg_runs r)" by (rule sub)
  qed (use none dead in \<open>simp_all add: task_upd_id\<close>)
  then show ?thesis by (simp add: finish_run_def)
qed

lemma same_drivers_ok:
  assumes ok: "registry_ok r" and d: "\<And>j. drivers j r' = drivers j r \<and> executing j r' = executing j r"
    and same: "rg_tasks r' = rg_tasks r" "rg_panic r' = rg_panic r" "rg_shut r' = rg_shut r" "rg_channels r' = rg_channels r"
    and sub: "fst ` set (rg_runs r') \<union> set (rg_pending r') \<subseteq> tk_ID ` set (rg_tasks r)"
  shows "registry_ok r'"
proof -
  have "task_ok r' t" if "t \<in> set (rg_tasks r)" for t
    using task_okD [OF ok that] d [of "tk_ID t"] same by (simp add: task_ok_def)
  then show ?thesis using ok same sub by (simp add: registry_ok_def)
qed

lemma count_remove1: "x \<in> set xs \<Longrightarrow> count_list xs y = count_list (remove1 x xs) y + (if y = x then 1 else 0)"
  by (induction xs) auto

lemma acquired_ok:
  assumes ok: "registry_ok r" and i: "i \<in> set (rg_pending r)"
  shows "registry_ok (restart_acquired i slot r)"
proof -
  have "i \<in> tk_ID ` set (rg_tasks r)" using ok i by (auto simp: registry_ok_def)
  then obtain t where t: "task_get i r = Some t" using get_None [of i r] by (cases "task_get i r") auto
  have ti: "t \<in> set (rg_tasks r)" "tk_ID t = i" using get_in [OF t] by simp_all
  have "0 < count_list (rg_pending r) i" using i count_list_0_iff by (metis gr0I)
  then have one: "drivers i r = 1" "count_list (map fst (rg_runs r)) i = 0" "count_list (rg_pending r) i = 1"
    using task_okD [OF ok ti(1)] ti(2) by (simp_all add: task_ok_def drivers_def)
  have cnt: "count_list (rg_pending r) j = count_list (remove1 i (rg_pending r)) j + (if j = i then 1 else 0)" for j
    by (rule count_remove1 [OF i])
  have gone: "i \<notin> set (remove1 i (rg_pending r))" using cnt [of i] one(3) count_list_0_iff by fastforce
  have norun: "i \<notin> fst ` set (rg_runs r)" using one(2) by (simp add: count_list_0_iff)
  have keep: "j \<in> set (remove1 i (rg_pending r)) \<longleftrightarrow> j \<in> set (rg_pending r)" if "j \<noteq> i" for j using that by (simp add: in_set_remove1)
  show ?thesis
  proof (cases slot)
    case None
    have "registry_ok (r\<lparr>rg_pending := remove1 i (rg_pending r), rg_runs := rg_runs r @ [(i, Executing)]\<rparr>)" (is "registry_ok ?r")
    proof (rule same_drivers_ok [OF ok])
      show "drivers j ?r = drivers j r \<and> executing j ?r = executing j r" for j
        using cnt [of j] i keep [of j] by (auto simp: drivers_def executing_def)
      show "fst ` set (rg_runs ?r) \<union> set (rg_pending ?r) \<subseteq> tk_ID ` set (rg_tasks r)"
        using ok i set_remove1_subset [of i "rg_pending r"] by (auto simp: registry_ok_def)
    qed simp_all
    then show ?thesis by (simp add: restart_acquired_def Let_def None)
  next
    case (Some e)
    let ?g = "\<lambda>t. t\<lparr>tk_Status := TaskFailed, tk_Err := Some e\<rparr>"
    have "registry_ok (close_done i (task_upd i ?g (r\<lparr>rg_pending := remove1 i (rg_pending r)\<rparr>)))"
      by (rule close_ok [OF ok t one(1), where g = ?g])
        (use cnt gone norun keep one set_remove1_subset [of i "rg_pending r"]
          in \<open>auto simp: drivers_def executing_def task_upd_def image_iff\<close>)
    then show ?thesis by (simp add: restart_acquired_def Let_def Some)
  qed
qed

lemma reset_ok:
  assumes ok: "registry_ok r" and q: "when_gone r i" and r': "restart_reset i rf r = Inr r'"
  shows "registry_ok r'"
proof -
  let ?f = "\<lambda>t. t\<lparr>tk_Status := TaskRunning, tk_Result := [], tk_Err := None, tk_abort := False,
      tk_abortRequested := False, tk_accepting := True, tk_resumedFrom := rf, tk_done := rg_channels r\<rparr>"
  let ?h = "\<lambda>t. if tk_ID t = i then ?f t else t"
  from r' obtain t where t: "task_get i r = Some t"
    and rr: "r' = (task_upd i ?f r)\<lparr>rg_channels := rg_channels r + 1, rg_pending := i # rg_pending r\<rparr>"
    by (auto simp: restart_reset_def split: if_splits option.splits)
  have ti: "t \<in> set (rg_tasks r)" "tk_ID t = i" using get_in [OF t] by simp_all
  have none: "drivers i r = 0" using q by (simp add: when_gone_def)
  have shut: "rg_channels r \<notin> set (rg_shut r)" using ok by (auto simp: registry_ok_def)
  have tasks: "rg_tasks r' = map ?h (rg_tasks r)" by (simp add: rr task_upd_def)
  have dr: "drivers j r' = drivers j r + (if j = i then 1 else 0)" "executing j r' \<longleftrightarrow> executing j r \<or> j = i" for j
    by (auto simp: rr drivers_def executing_def task_upd_def)
  have each: "task_ok r' (?h u)" if u: "u \<in> set (rg_tasks r)" for u
    using task_okD [OF ok u] none shut dr [of "tk_ID u"] by (auto simp: task_ok_def rr task_upd_def)
  have lt: "tk_done u < rg_channels r" if "u \<in> set (rg_tasks r)" for u using task_okD [OF ok that] by (simp add: task_ok_def)
  have "inj_on (\<lambda>u. tk_done (?h u)) (set (rg_tasks r))"
  proof (rule inj_onI)
    fix u v assume u: "u \<in> set (rg_tasks r)" and v: "v \<in> set (rg_tasks r)" and eq: "tk_done (?h u) = tk_done (?h v)"
    consider "tk_ID u = i" "tk_ID v = i" | "tk_ID u \<noteq> i" "tk_ID v \<noteq> i"
      using eq lt [OF u] lt [OF v] by (auto split: if_splits)
    then show "u = v"
    proof cases
      case 1
      then show ?thesis using get_unique [OF ok t u] get_unique [OF ok t v] by simp
    next
      case 2
      then show ?thesis using eq ok u v by (auto simp: registry_ok_def distinct_map dest: inj_onD)
    qed
  qed
  then have dist: "distinct (map (tk_done \<circ> ?h) (rg_tasks r))"
    using ok by (simp add: registry_ok_def distinct_map comp_def)
  have ids: "map (tk_ID \<circ> ?h) (rg_tasks r) = map tk_ID (rg_tasks r)" by simp
  have im: "tk_ID ` ?h ` S = tk_ID ` S" for S unfolding image_image by (rule image_cong) auto
  have "\<forall>u \<in> set (rg_tasks r'). task_ok r' u"
  proof
    fix u assume "u \<in> set (rg_tasks r')"
    then have "u \<in> ?h ` set (rg_tasks r)" by (simp add: tasks)
    then obtain u' where "u' \<in> set (rg_tasks r)" "u = ?h u'" by blast
    then show "task_ok r' u" using each by simp
  qed
  moreover have "set (rg_shut r) \<subseteq> {..<rg_channels r + 1}" using ok by (auto simp: registry_ok_def)
  moreover have "fst ` set (rg_runs r') \<union> set (rg_pending r') \<subseteq> tk_ID ` set (rg_tasks r')"
    unfolding tasks set_map im using ok ti by (auto simp: registry_ok_def rr task_upd_def)
  moreover have "distinct (map tk_ID (rg_tasks r'))" "distinct (map tk_done (rg_tasks r'))"
    using ok dist unfolding tasks by (simp_all add: registry_ok_def ids del: comp_apply)
  ultimately show ?thesis using ok by (simp add: registry_ok_def rr task_upd_def)
qed

lemma interrupt_ok: "registry_ok r \<Longrightarrow> registry_ok (snd (task_Interrupt tooltask i r))"
proof -
  assume ok: "registry_ok r"
  have "registry_ok (task_upd i (\<lambda>t. fst (task_Abort (t\<lparr>tk_Status := TaskInterrupting\<rparr>))) r)"
    if "task_get i r = Some t" "tk_Status t = TaskRunning" for t
    unfolding task_upd_def
  proof (rule tasks_map_ok [OF ok])
    fix u assume "u \<in> set (rg_tasks r)"
    then have "tk_ID u = i \<Longrightarrow> tk_Status u = TaskRunning" using get_unique [OF ok that(1)] that(2) by simp
    then show "tk_ID (if tk_ID u = i then fst (task_Abort (u\<lparr>tk_Status := TaskInterrupting\<rparr>)) else u) = tk_ID u \<and>
        tk_done (if tk_ID u = i then fst (task_Abort (u\<lparr>tk_Status := TaskInterrupting\<rparr>)) else u) = tk_done u \<and>
        (life (tk_Status (if tk_ID u = i then fst (task_Abort (u\<lparr>tk_Status := TaskInterrupting\<rparr>)) else u)) = life (tk_Status u) \<and>
         (tk_Status (if tk_ID u = i then fst (task_Abort (u\<lparr>tk_Status := TaskInterrupting\<rparr>)) else u) = TaskAbandoned) = (tk_Status u = TaskAbandoned) \<or>
         tk_Status (if tk_ID u = i then fst (task_Abort (u\<lparr>tk_Status := TaskInterrupting\<rparr>)) else u) = TaskAbandoned)"
      by (simp add: task_Abort_def)
  qed
  then show ?thesis using ok by (auto simp: task_Interrupt_def split: option.splits)
qed

lemma abandon_ok: "registry_ok r \<Longrightarrow> registry_ok (AbandonAll r)"
  unfolding AbandonAll_def by (rule tasks_map_ok) auto

lemma new_registry_ok: "registry_ok NewRegistry"
  by (simp add: registry_ok_def NewRegistry_def)

lemma task_step_ok:
  assumes "task_step when_gone r r'" "registry_ok r"
  shows "registry_ok r'"
  using assms
proof (induction rule: task_step.induct)
  case (start i r so slot r')
  then have r': "r' = r\<lparr>rg_tasks := rg_tasks r @ [new_task i so (rg_channels r)], rg_channels := rg_channels r + 1,
      rg_runs := rg_runs r @ [(i, Executing)]\<rparr>"
    by (auto simp: task_start_def split: if_splits option.splits)
  show ?case
    using start_ok [OF start.prems, of "new_task i so (rg_channels r)" True] start.hyps(1)
    by (simp add: r' get_None new_task_def)
next
  case (adopted i name tool path r r')
  show ?case
  proof (cases "task_get i r")
    case None
    let ?t = "\<lparr>tk_ID = i, tk_Name = name, tk_ToolName = tool, tk_Status = TaskInterrupted, tk_Result = [], tk_Usage = zero_usage,
            tk_Err = None, tk_outputFile = path, tk_parent = [], tk_resumedFrom = i, tk_accepting = False, tk_abort = False,
            tk_abortRequested = False, tk_done = rg_channels r, tk_inbox = [], tk_waiting = False\<rparr>"
    have "r' = r\<lparr>rg_tasks := rg_tasks r @ [?t], rg_channels := rg_channels r + 1\<rparr>"
      using adopted.hyps None by (auto simp: adopt_def split: if_splits)
    then show ?thesis using start_ok [OF adopted.prems, of ?t False] None by (simp add: get_None)
  qed (use adopted in \<open>auto simp: adopt_def split: if_splits\<close>)
next
  case (reset r i rf r')
  show ?case by (rule reset_ok [OF reset.prems reset.hyps])
next
  case (acquired i r slot)
  show ?case by (rule acquired_ok [OF acquired.prems acquired.hyps])
next
  case (settled k r result u e late)
  show ?case by (rule settle_ok [OF settled.prems settled.hyps])
next
  case (published k r)
  show ?case by (rule publish_ok [OF published.prems published.hyps])
next
  case (finished k r)
  show ?case by (rule finish_ok [OF finished.prems finished.hyps])
next
  case (used r i u)
  then show ?case by (rule upd_ok) (simp add: task_addUsage_def Let_def)
next
  case (deaf r i)
  then show ?case by (rule upd_ok) (simp add: closeDelivery_def)
next
  case (handle r i)
  then show ?case by (rule upd_ok) (simp add: setAbort_def)
next
  case (interrupted r tooltask i)
  then show ?case by (rule interrupt_ok)
next
  case (sent r i msg)
  then show ?case by (auto simp: task_Send_def intro!: upd_ok split: option.splits)
next
  case (polled r i)
  then show ?case by (auto simp: poll_inbox_def intro!: upd_ok split: option.splits)
next
  case (waits i r ch r')
  then show ?case by (auto simp: wait_begin_def intro!: upd_ok split: option.splits if_splits)
next
  case (waited r i)
  then show ?case by (auto simp: wait_end_def intro!: upd_ok)
next
  case (abandoned r)
  then show ?case by (rule abandon_ok)
qed (simp_all add: SetAsyncTimeout_def close_registry_def other_fields_ok)

lemma task_reachable_ok: "task_reachable when_gone r \<Longrightarrow> registry_ok r"
  by (induction rule: task_reachable.induct) (auto intro: new_registry_ok task_step_ok)

text \<open>C25. If tasks are only resumed after their goroutine has gone, no interleaving of starts, resumptions,
  interrupts, waits and endings closes a channel twice; a task has at most one driver (a goroutine or a
  pending resumption), its \<open>done\<close> channel is open as long as it has one, and a task that is running or
  being interrupted is really executed.\<close>

theorem finished_tasks_resume_safely:
  assumes "task_reachable when_gone r"
  shows "\<not> rg_panic r \<and>
     list_all (\<lambda>t. drivers (tk_ID t) r \<le> 1 \<and>
        (drivers (tk_ID t) r = 1 \<longrightarrow> tk_done t \<notin> set (rg_shut r)) \<and>
        (life (tk_Status t) \<longrightarrow> executing (tk_ID t) r) \<and>
        (executing (tk_ID t) r \<longrightarrow> life (tk_Status t) \<or> tk_Status t = TaskAbandoned)) (rg_tasks r)"
  using task_reachable_ok [OF assms] by (auto simp: registry_ok_def task_ok_def list_all_iff)

definition resumed :: task_registry where
  "resumed = projr (restart_reset ''t'' ''t''
     (finish_run 0 (task_publish 0 (task_settle 0 ''done'' zero_usage None False (projr (task_start ''t'' spawn None NewRegistry))))))"

lemma resumed_reachable: "task_reachable when_gone resumed"
proof -
  define r1 where "r1 = projr (task_start ''t'' spawn None NewRegistry)"
  define r2 where "r2 = finish_run 0 (task_publish 0 (task_settle 0 ''done'' zero_usage None False r1))"
  have "task_reachable when_gone r1"
    by (rule task_reachable.step [OF task_reachable.start], rule task_step.start [of "''t''" _ spawn None])
      (simp_all add: r1_def task_ops)
  from task_reachable.step [OF task_reachable.step [OF this settled [of 0 r1 _ "''done''" zero_usage None False]] published [of 0]]
  have 1: "task_reachable when_gone (task_publish 0 (task_settle 0 ''done'' zero_usage None False r1))"
    by (simp add: r1_def task_ops)
  have 2: "task_reachable when_gone r2"
    unfolding r2_def by (rule task_reachable.step [OF 1 finished]) (simp_all add: r1_def task_ops)
  show ?thesis
    unfolding resumed_def r1_def [symmetric] r2_def [symmetric]
    by (rule task_reachable.step [OF 2 reset [where i = "''t''" and rf = "''t''"]])
      (simp_all add: r1_def r2_def task_ops when_gone_def drivers_def)
qed

lemma finished_tasks_resume_safely_witness:
  "\<not> rg_panic resumed \<and>
     list_all (\<lambda>t. drivers (tk_ID t) resumed \<le> 1 \<and>
        (drivers (tk_ID t) resumed = 1 \<longrightarrow> tk_done t \<notin> set (rg_shut resumed)) \<and>
        (life (tk_Status t) \<longrightarrow> executing (tk_ID t) resumed) \<and>
        (executing (tk_ID t) resumed \<longrightarrow> life (tk_Status t) \<or> tk_Status t = TaskAbandoned)) (rg_tasks resumed)"
  by (rule finished_tasks_resume_safely [OF resumed_reachable])

section \<open>Delivery of the result\<close>

text \<open>What every task finds in its inbox, and the conditions under which the parent takes a result itself:
  the task has a parent that runs, still accepts and has room.\<close>

definition inboxes :: "task_registry \<Rightarrow> string \<rightharpoonup> message list" where
  "inboxes r = (\<lambda>i. map_option tk_inbox (task_get i r))"

definition parent_takes :: "task \<Rightarrow> task_registry \<Rightarrow> bool" where
  "parent_takes t r \<longleftrightarrow> tk_parent t \<noteq> [] \<and>
     (\<exists>p \<in> set (rg_tasks r). tk_ID p = tk_parent t \<and> tk_Status p = TaskRunning \<and> tk_accepting p \<and> length (tk_inbox p) < inboxSize)"

lemma inboxes_runs [simp]: "inboxes (r\<lparr>rg_runs := x\<rparr>) = inboxes r" "inboxes (r\<lparr>rg_pushed := y\<rparr>) = inboxes r"
  by (simp_all add: inboxes_def task_get_def)

lemma find_map_upd:
  assumes "\<And>t. tk_ID (f t) = tk_ID t"
  shows "find (\<lambda>t. tk_ID t = j) (map (\<lambda>t. if tk_ID t = i then f t else t) ts) =
     map_option (if j = i then f else id) (find (\<lambda>t. tk_ID t = j) ts)"
  using assms by (induction ts) (auto simp: id_def)

lemma inboxes_upd:
  "inboxes (task_upd i (\<lambda>p. p\<lparr>tk_inbox := tk_inbox p @ [m]\<rparr>) r) =
     (case inboxes r i of None \<Rightarrow> inboxes r | Some ms \<Rightarrow> (inboxes r)(i \<mapsto> ms @ [m]))"
  by (auto simp: inboxes_def task_get_def task_upd_def find_map_upd fun_eq_iff option.map_comp comp_def split: option.splits)

lemma parent_takes_iff:
  assumes "registry_ok r"
  shows "parent_takes t r \<longleftrightarrow> tk_parent t \<noteq> [] \<and> (case task_get (tk_parent t) r of None \<Rightarrow> False
     | Some p \<Rightarrow> tk_Status p = TaskRunning \<and> tk_accepting p \<and> length (tk_inbox p) < inboxSize)"
proof (cases "task_get (tk_parent t) r")
  case None
  then have "\<forall>p \<in> set (rg_tasks r). tk_ID p \<noteq> tk_parent t" by (metis get_None imageI)
  with None show ?thesis by (auto simp: parent_takes_def)
next
  case (Some p)
  with get_in [OF Some] show ?thesis
    by (auto simp: parent_takes_def dest: get_unique [OF assms Some])
qed

text \<open>C26. The result of a run that has to be reported arrives exactly once. If the parent task runs, accepts
  messages and has room, the result message with the identifier, the name, the result, the status and the
  error of this very run is appended to the inbox of the parent; no other inbox changes and the callback
  is not called. Otherwise no inbox changes and the callback gets the result, once, with the same parts. In both
  cases the run goes on to its end, so that it publishes no second time, and the other runs stay as they
  are.\<close>

theorem result_arrives_once:
  assumes "task_reachable when_gone r" "k < length (rg_runs r)" "rg_runs r ! k = (i, Publishing result st u e)" "rg_callback r"
  shows "\<exists>t \<in> set (rg_tasks r). tk_ID t = i \<and>
     (if parent_takes t r
      then rg_pushed (task_publish k r) = rg_pushed r \<and>
        inboxes (task_publish k r) = (inboxes r)(tk_parent t \<mapsto> the (inboxes r (tk_parent t)) @
           [NewTaskResultMessageWithStatus i (tk_Name t) result (status_text st) (map_option err_text e)])
      else inboxes (task_publish k r) = inboxes r \<and>
        rg_pushed (task_publish k r) = rg_pushed r @ [\<lparr>pu_task = i, pu_name = tk_Name t, pu_result = result,
           pu_status = st, pu_usage = u, pu_err = e\<rparr>]) \<and>
     rg_runs (task_publish k r) = (rg_runs r)[k := (i, Closing)]"
proof -
  have ok: "registry_ok r" by (rule task_reachable_ok [OF assms(1)])
  from run_task [OF ok assms(2), of i] assms(3) obtain t where t: "task_get i r = Some t" by auto
  note ti = get_in [OF t]
  let ?r1 = "r\<lparr>rg_runs := (rg_runs r)[k := (i, Closing)]\<rparr>"
  let ?m = "NewTaskResultMessageWithStatus i (tk_Name t) result (status_text st) (map_option err_text e)"
  have get: "task_get x ?r1 = task_get x r" for x by (simp add: task_get_def)
  show ?thesis
  proof (cases "parent_takes t r")
    case True
    then obtain p where p: "task_get (tk_parent t) r = Some p" and d: "tk_parent t \<noteq> []"
      "deliverToParent t result st e ?r1 = Some (task_upd (tk_parent t) (\<lambda>p. p\<lparr>tk_inbox := tk_inbox p @ [?m]\<rparr>) ?r1)"
      using ti by (auto simp: parent_takes_iff [OF ok] deliverToParent_def get split: option.splits)
    have "task_publish k r = task_upd (tk_parent t) (\<lambda>p. p\<lparr>tk_inbox := tk_inbox p @ [?m]\<rparr>) ?r1"
      using t d assms(3) by (simp add: task_publish_def)
    moreover have "inboxes r (tk_parent t) = Some (tk_inbox p)" using p by (simp add: inboxes_def)
    ultimately have "inboxes (task_publish k r) = (inboxes r)(tk_parent t \<mapsto> tk_inbox p @ [?m])"
        "rg_pushed (task_publish k r) = rg_pushed r" "rg_runs (task_publish k r) = (rg_runs r)[k := (i, Closing)]"
      by (simp add: inboxes_upd, simp_all add: task_upd_def)
    with ti True p show ?thesis by (intro bexI [of _ t]) (auto simp: inboxes_def)
  next
    case False
    then have "(if tk_parent t \<noteq> [] then deliverToParent t result st e ?r1 else None) = None"
      by (auto simp: parent_takes_iff [OF ok] deliverToParent_def get split: option.splits)
    with t assms(3,4) have "task_publish k r = ?r1\<lparr>rg_pushed := rg_pushed r @ [\<lparr>pu_task = i, pu_name = tk_Name t, pu_result = result,
           pu_status = st, pu_usage = u, pu_err = e\<rparr>]\<rparr>" by (simp add: task_publish_def)
    with ti False show ?thesis by (intro bexI [of _ t]) auto
  qed
qed

definition reporting :: task_registry where
  "reporting = task_settle 0 ''done'' zero_usage None False
     ((projr (task_start ''t'' spawn None NewRegistry))\<lparr>rg_callback := True\<rparr>)"

definition family :: task_registry where
  "family = task_settle 1 ''done'' zero_usage None False
     ((projr (task_start ''t'' (spawn\<lparr>st_Parent := ''p''\<rparr>) None (projr (task_start ''p'' spawn None NewRegistry))))\<lparr>rg_callback := True\<rparr>)"

lemma family_reachable: "task_reachable when_gone family"
proof -
  define r1 where "r1 = projr (task_start ''p'' spawn None NewRegistry)"
  define r2 where "r2 = projr (task_start ''t'' (spawn\<lparr>st_Parent := ''p''\<rparr>) None r1)"
  have "task_reachable when_gone r1"
    by (rule task_reachable.step [OF task_reachable.start], rule task_step.start [of "''p''" _ spawn None])
      (simp_all add: r1_def task_ops)
  then have "task_reachable when_gone r2"
    by (rule task_reachable.step, intro task_step.start [of "''t''" _ "spawn\<lparr>st_Parent := ''p''\<rparr>" None])
      (simp_all add: r2_def r1_def task_ops)
  from task_reachable.step [OF task_reachable.step [OF this connected] settled [of 1 _ _ "''done''" zero_usage None False]]
  show ?thesis by (simp add: family_def r1_def r2_def task_ops)
qed

lemma family_state: "rg_runs family = [(''p'', Executing), (''t'', Publishing ''done'' TaskCompleted zero_usage None)]" "rg_callback family"
  "rg_pushed family = []" "inboxes family ''p'' = Some []" "\<forall>t \<in> set (rg_tasks family). tk_ID t = ''t'' \<longrightarrow> tk_parent t = ''p'' \<and> tk_Name t = ''a''"
  "\<exists>p \<in> set (rg_tasks family). tk_ID p = ''p'' \<and> tk_Status p = TaskRunning \<and> tk_accepting p \<and> tk_inbox p = []"
  by (simp_all add: family_def task_ops inboxes_def)

lemma result_arrives_once_witness:
  "map pu_result (rg_pushed (task_publish 0 reporting)) = [''done''] \<and> inboxes (task_publish 0 reporting) = inboxes reporting \<and>
    rg_pushed (task_publish 1 family) = [] \<and>
    inboxes (task_publish 1 family) ''p'' = Some [NewTaskResultMessageWithStatus ''t'' ''a'' ''done'' ''completed'' None]"
proof -
  have callback: "map pu_result (rg_pushed (task_publish 0 reporting)) = [''done''] \<and> inboxes (task_publish 0 reporting) = inboxes reporting"
  proof -
    define r1 where "r1 = projr (task_start ''t'' spawn None NewRegistry)"
    have "task_reachable when_gone r1"
      by (rule task_reachable.step [OF task_reachable.start], rule task_step.start [of "''t''" _ spawn None])
        (simp_all add: r1_def task_ops)
    from task_reachable.step [OF task_reachable.step [OF this connected] settled [of 0 _ _ "''done''" zero_usage None False]]
    have "task_reachable when_gone reporting"
      by (simp add: reporting_def r1_def task_ops)
    moreover have "rg_runs reporting = [(''t'', Publishing ''done'' TaskCompleted zero_usage None)]" "rg_callback reporting"
        "rg_pushed reporting = []" "\<forall>t \<in> set (rg_tasks reporting). tk_parent t = []"
      by (simp_all add: reporting_def task_ops)
    ultimately show ?thesis
      using result_arrives_once [of reporting 0 "''t''" "''done''" TaskCompleted zero_usage None]
      by (auto simp: parent_takes_def)
  qed
  have parent: "rg_pushed (task_publish 1 family) = [] \<and>
    inboxes (task_publish 1 family) ''p'' = Some [NewTaskResultMessageWithStatus ''t'' ''a'' ''done'' ''completed'' None]"
  proof -
    have "\<exists>t \<in> set (rg_tasks family). tk_ID t = ''t'' \<and>
       (if parent_takes t family
        then rg_pushed (task_publish 1 family) = rg_pushed family \<and>
          inboxes (task_publish 1 family) = (inboxes family)(tk_parent t \<mapsto> the (inboxes family (tk_parent t)) @
             [NewTaskResultMessageWithStatus ''t'' (tk_Name t) ''done'' (status_text TaskCompleted) (map_option err_text None)])
        else inboxes (task_publish 1 family) = inboxes family \<and>
          rg_pushed (task_publish 1 family) = rg_pushed family @ [\<lparr>pu_task = ''t'', pu_name = tk_Name t, pu_result = ''done'',
             pu_status = TaskCompleted, pu_usage = zero_usage, pu_err = None\<rparr>]) \<and>
       rg_runs (task_publish 1 family) = (rg_runs family)[1 := (''t'', Closing)]"
      by (rule result_arrives_once [OF family_reachable]) (simp_all add: family_state)
    then obtain t where t: "t \<in> set (rg_tasks family)" "tk_ID t = ''t''" and p: "if parent_takes t family
        then rg_pushed (task_publish 1 family) = rg_pushed family \<and>
          inboxes (task_publish 1 family) = (inboxes family)(tk_parent t \<mapsto> the (inboxes family (tk_parent t)) @
             [NewTaskResultMessageWithStatus ''t'' (tk_Name t) ''done'' (status_text TaskCompleted) (map_option err_text None)])
        else inboxes (task_publish 1 family) = inboxes family \<and>
          rg_pushed (task_publish 1 family) = rg_pushed family @ [\<lparr>pu_task = ''t'', pu_name = tk_Name t, pu_result = ''done'',
             pu_status = TaskCompleted, pu_usage = zero_usage, pu_err = None\<rparr>]" by blast
    have n: "tk_parent t = ''p''" "tk_Name t = ''a''" using family_state(5) t by auto
    have "parent_takes t family" using family_state(6) n by (auto simp: parent_takes_def inboxSize_def)
    with p show ?thesis by (simp add: n family_state)
  qed
  from callback parent show ?thesis by blast
qed

text \<open>A task that is being interrupted escapes \<open>AbandonAll\<close> and reports its end to the new session.\<close>

theorem interrupted_task_escapes_abandoning:
  "let r = AbandonAll (snd (task_Interrupt None ''t'' ((projr (task_start ''t'' spawn None NewRegistry))\<lparr>rg_callback := True\<rparr>)))
   in map pu_task (rg_pushed (task_publish 0 (task_settle 0 ''done'' zero_usage (Some Canceled) False r))) = [''t'']"
  by (simp add: task_ops AbandonAll_def task_Interrupt_def task_Abort_def has_prefix_def)

text \<open>The total of all tasks has no reasoning cost, no long-lived cache writes and no details.\<close>

theorem total_usage_drops_parts:
  "c_reasoning (u_cost (TotalUsage r)) = 0 \<and> u_cache_write_1h (TotalUsage r) = 0 \<and> u_details (TotalUsage r) = None"
proof -
  have "c_reasoning (u_cost (f acc)) = 0 \<and> u_cache_write_1h (f acc) = 0 \<and> u_details (f acc) = None"
    if "c_reasoning (u_cost acc) = 0 \<and> u_cache_write_1h acc = 0 \<and> u_details acc = None"
      and "f = (\<lambda>acc. foldl (\<lambda>acc t. if tk_Status t = TaskAbandoned then acc else tk_Usage (task_addUsage (tk_Usage t) (t\<lparr>tk_Usage := acc\<rparr>))) acc ts)"
    for f acc ts
    unfolding that(2) using that(1) by (induction ts arbitrary: acc) (auto simp: task_addUsage_def Let_def)
  from this [of zero_usage _ "rg_tasks r", OF _ refl] show ?thesis
    by (simp add: TotalUsage_def zero_usage_def zero_cost_def)
qed

end
