(* ===== verification/BlockIndex.thy ===== *)
theory BlockIndex
  imports Prelude "HOL-Library.AList" "HOL-Library.Multiset"
begin

text \<open>
  The index file beside the block sidecar (\<open>session/block_index.go\<close>): big-endian integers, the
  binary format with its two lengths and its digest, and the two conversions between the
  entries of the file and the run-time index, a map from block ids to places in the sidecar.
  \<open>SHA-256\<close> is a parameter \<open>sha\<close>. Ids and lengths of the file are unsigned 64-bit numbers,
  here natural numbers whose encoding keeps the low eight bytes.
\<close>

section \<open>Big-endian integers\<close>

primrec be :: "nat \<Rightarrow> nat \<Rightarrow> string" where
  "be 0 n = []"
| "be (Suc k) n = be k (n div 256) @ [char_of n]"

definition un_be :: "string \<Rightarrow> nat" where
  "un_be s = foldl (\<lambda>v c. v * 256 + of_char c) 0 s"

lemma be_length [simp]: "length (be k n) = k"
  by (induction k arbitrary: n) auto

lemma un_be_be: "un_be (be k n) = n mod 256 ^ k"
proof (induction k arbitrary: n)
  case (Suc k)
  have "un_be (be (Suc k) n) = (n div 256 mod 256 ^ k) * 256 + n mod 256"
    using Suc [of "n div 256"] by (simp add: un_be_def)
  also have "\<dots> = n mod 256 ^ Suc k" by (simp add: mod_mult2_eq)
  finally show ?case .
qed (simp add: un_be_def)

lemma un_be_fits: "n < 256 ^ k \<Longrightarrow> un_be (be k n) = n"
  by (simp add: un_be_be)

lemma be_mod: "be k (n mod 256 ^ k) = be k n"
proof (induction k arbitrary: n)
  case (Suc k)
  have "n mod 256 ^ Suc k div 256 = n div 256 mod 256 ^ k"
    by (simp add: mod_mult2_eq)
  moreover have "n mod 256 ^ Suc k mod 256 = n mod 256"
    by (simp add: mod_mod_cancel)
  then have "(char_of (n mod 256 ^ Suc k) :: char) = char_of n"
    by (metis char_of_mod_256)
  ultimately show ?case using Suc [of "n div 256"] by simp
qed simp

text \<open>Go's conversions \<open>uint64(x)\<close> of an \<open>int64\<close>, \<open>int64(n)\<close> of a \<open>uint64\<close> and \<open>int32(x)\<close>.\<close>

definition to_u64 :: "int \<Rightarrow> nat" where "to_u64 x = nat (x mod 2 ^ 64)"

definition to_s64 :: "nat \<Rightarrow> int" where "to_s64 n = wrap64 (int n)"

definition to_s32 :: "int \<Rightarrow> int" where "to_s32 x = (x + 2 ^ 31) mod 2 ^ 32 - 2 ^ 31"

definition int64_range :: "int \<Rightarrow> bool" where
  "int64_range x \<longleftrightarrow> - (2 ^ 63) \<le> x \<and> x < 2 ^ 63"

lemma to_s32_id: "- (2 ^ 31) \<le> x \<Longrightarrow> x < 2 ^ 31 \<Longrightarrow> to_s32 x = x"
  by (simp add: to_s32_def)

lemma to_s32_fits: "int64_range (to_s32 x)"
proof -
  have "0 \<le> (x + 2 ^ 31) mod 2 ^ 32" "(x + 2 ^ 31) mod 2 ^ 32 < (2 :: int) ^ 32"
    by (rule pos_mod_sign, simp) (rule pos_mod_bound, simp)
  then show ?thesis by (simp add: to_s32_def int64_range_def)
qed

lemma s64_be: "int64_range x \<Longrightarrow> to_s64 (un_be (be 8 (to_u64 x))) = x"
proof -
  assume x: "int64_range x"
  have "un_be (be 8 (to_u64 x)) = to_u64 x"
  proof (rule un_be_fits)
    have "x mod 2 ^ 64 < 2 ^ 64" by simp
    then show "to_u64 x < 256 ^ 8" by (simp add: to_u64_def)
  qed
  moreover have "int (to_u64 x) = x mod 2 ^ 64" by (simp add: to_u64_def)
  moreover have "wrap64 (x mod 2 ^ 64) = wrap64 x" unfolding wrap64_def by (simp add: mod_simps)
  ultimately show ?thesis using x by (simp add: to_s64_def int64_range_def wrap64_id)
qed

section \<open>The format\<close>

text \<open>One entry of the file; the place of a block at run time.\<close>

record index_entry =
  ie_id :: nat
  ie_off :: int
  ie_n :: int
  ie_digest :: string

record block_ref =
  rf_off :: int
  rf_n :: int
  rf_hash :: string

type_synonym block_map = "(string \<times> block_ref) list"

definition indexMagic :: string where "indexMagic = ''HBIDX001''"
definition indexEntrySize :: nat where "indexEntrySize = 32"
definition indexHeadSize :: nat where "indexHeadSize = 68"
definition indexTailSize :: nat where "indexTailSize = 8"

lemmas index_sizes = indexEntrySize_def indexHeadSize_def indexTailSize_def

text \<open>\<open>make([]byte, 32); copy(cp, chain)\<close>\<close>

definition pad32 :: "string \<Rightarrow> string" where
  "pad32 s = take 32 (s @ replicate 32 (CHR 0x00))"

definition encode_entry :: "index_entry \<Rightarrow> string" where
  "encode_entry e = be 8 (ie_id e) @ be 8 (to_u64 (ie_off e)) @ be 8 (to_u64 (ie_n e)) @ ie_digest e"

definition encodeBlockIndex :: "(string \<Rightarrow> string) \<Rightarrow> index_entry list \<Rightarrow> int \<Rightarrow> string \<Rightarrow> int \<Rightarrow> int \<Rightarrow> string" where
  "encodeBlockIndex sha es covered chain records stale =
     (let body = concat (map encode_entry es) in
      indexMagic @ be 4 (length es) @ be 8 (to_u64 covered) @ pad32 chain @ be 8 (to_u64 records) @ be 8 (to_u64 stale)
      @ body @ take indexTailSize (sha body))"

text \<open>\<open>b[i:j]\<close>\<close>

definition sub :: "nat \<Rightarrow> nat \<Rightarrow> 'a list \<Rightarrow> 'a list" where
  "sub i j xs = take (j - i) (drop i xs)"

definition decode_entry :: "string \<Rightarrow> index_entry" where
  "decode_entry p = \<lparr>ie_id = un_be (sub 0 8 p), ie_off = to_s64 (un_be (sub 8 16 p)),
     ie_n = to_s64 (un_be (sub 16 24 p)), ie_digest = sub 24 32 p\<rparr>"

primrec decode_entries :: "nat \<Rightarrow> string \<Rightarrow> index_entry list" where
  "decode_entries 0 p = []"
| "decode_entries (Suc k) p = decode_entry p # decode_entries k (drop indexEntrySize p)"

record block_index =
  bi_entries :: "index_entry list"
  bi_covered :: int
  bi_chain :: string
  bi_records :: int
  bi_stale :: int

definition decodeBlockIndex :: "(string \<Rightarrow> string) \<Rightarrow> string \<Rightarrow> block_index option" where
  "decodeBlockIndex sha b =
     (if length b < indexHeadSize + indexTailSize then None
      else if take 8 b \<noteq> indexMagic then None
      else
        let count = un_be (sub 8 12 b);
            body = sub indexHeadSize (indexHeadSize + count * indexEntrySize) b
        in if indexHeadSize + count * indexEntrySize + indexTailSize \<noteq> length b then None
           else if drop (length b - indexTailSize) b \<noteq> take indexTailSize (sha body) then None
           else Some \<lparr>bi_entries = decode_entries count body, bi_covered = to_s64 (un_be (sub 12 20 b)),
                      bi_chain = sub 20 52 b, bi_records = to_s64 (un_be (sub 52 60 b)),
                      bi_stale = to_s64 (un_be (sub 60 68 b))\<rparr>)"

text \<open>\<open>loadBlockIndex\<close>: no file is no index.\<close>

definition loadBlockIndex :: "(string \<Rightarrow> string) \<Rightarrow> string option \<Rightarrow> block_index option" where
  "loadBlockIndex sha idx = Option.bind idx (decodeBlockIndex sha)"

section \<open>Ids and the run-time index\<close>

definition uintToString :: "nat \<Rightarrow> string" where
  "uintToString v = (if v = 0 then ''0'' else show_nat v)"

definition parseUintID :: "string \<Rightarrow> nat option" where
  "parseUintID s =
     (if s = [] \<or> (\<exists>c \<in> set s. \<not> is_digit c) then None
      else Some (foldl (\<lambda>v c. (v * 10 + digit_val c) mod 2 ^ 64) 0 s))"

text \<open>A Go map; filling it with a key again overwrites the earlier value.\<close>

definition ref_of_entry :: "index_entry \<Rightarrow> block_ref" where
  "ref_of_entry e = \<lparr>rf_off = ie_off e, rf_n = to_s32 (ie_n e), rf_hash = ie_digest e\<rparr>"

definition indexToMap :: "index_entry list \<Rightarrow> block_map" where
  "indexToMap es = foldl (\<lambda>m e. AList.update (uintToString (ie_id e)) (ref_of_entry e) m) [] es"

definition entry_of :: "string \<times> block_ref \<Rightarrow> index_entry option" where
  "entry_of kr = (case parseUintID (fst kr) of
     None \<Rightarrow> None
   | Some v \<Rightarrow> Some \<lparr>ie_id = v, ie_off = rf_off (snd kr), ie_n = rf_n (snd kr), ie_digest = rf_hash (snd kr)\<rparr>)"

definition mapToIndex :: "block_map \<Rightarrow> index_entry list" where
  "mapToIndex m = sort_key ie_id (List.map_filter entry_of m)"

section \<open>Decoding undoes encoding\<close>

definition entry_ok :: "index_entry \<Rightarrow> bool" where
  "entry_ok e \<longleftrightarrow> ie_id e < 2 ^ 64 \<and> int64_range (ie_off e) \<and> int64_range (ie_n e) \<and> length (ie_digest e) = 8"

lemma sub_append1: "j \<le> length xs \<Longrightarrow> sub i j (xs @ ys) = sub i j xs"
  by (simp add: sub_def)

lemma sub_append2: "length xs \<le> i \<Longrightarrow> sub i j (xs @ ys) = sub (i - length xs) (j - length xs) ys"
  by (simp add: sub_def)

lemma sub_full [simp]: "length xs \<le> j \<Longrightarrow> sub 0 j xs = xs"
  by (simp add: sub_def)

lemmas sub_simps = sub_append1 sub_append2

lemma encode_entry_length: "length (ie_digest e) = 8 \<Longrightarrow> length (encode_entry e) = 32"
  by (simp add: encode_entry_def)

lemma u64_be: "n < 2 ^ 64 \<Longrightarrow> un_be (be 8 n) = n"
  by (rule un_be_fits) simp

lemma decode_encode_entry:
  assumes "entry_ok e"
  shows "decode_entry (encode_entry e @ s) = e"
  using assms
  by (cases e) (simp add: entry_ok_def decode_entry_def encode_entry_def sub_simps s64_be u64_be)

lemma body_length: "\<forall>e \<in> set es. entry_ok e \<Longrightarrow> length (concat (map encode_entry es)) = length es * 32"
  by (induction es) (auto simp: entry_ok_def encode_entry_length)

lemma decode_encode_entries:
  "\<forall>e \<in> set es. entry_ok e \<Longrightarrow> decode_entries (length es) (concat (map encode_entry es) @ s) = es"
proof (induction es)
  case (Cons e es)
  then have e: "entry_ok e" and l: "length (encode_entry e) = 32"
    by (auto simp: entry_ok_def encode_entry_length)
  show ?case using Cons decode_encode_entry [OF e] l by (simp add: indexEntrySize_def)
qed simp

lemma decode_encode_index:
  assumes es: "\<forall>e \<in> set es. entry_ok e" "length es < 2 ^ 32"
    and sha: "length (sha (concat (map encode_entry es))) = 32"
    and ints: "int64_range covered" "int64_range records" "int64_range stale"
  shows "decodeBlockIndex sha (encodeBlockIndex sha es covered chain records stale) =
    Some \<lparr>bi_entries = es, bi_covered = covered, bi_chain = pad32 chain, bi_records = records, bi_stale = stale\<rparr>"
proof -
  define body where "body = concat (map encode_entry es)"
  define tail where "tail = take indexTailSize (sha body)"
  define b where "b = encodeBlockIndex sha es covered chain records stale"
  have lb: "length body = length es * 32" using body_length [OF es(1)] by (simp add: body_def)
  have lt: "length tail = 8" using sha by (simp add: tail_def body_def index_sizes)
  have lm: "length indexMagic = 8" by (simp add: indexMagic_def)
  have lp: "length (pad32 chain) = 32" by (simp add: pad32_def)
  have b: "b = indexMagic @ be 4 (length es) @ be 8 (to_u64 covered) @ pad32 chain @ be 8 (to_u64 records) @
      be 8 (to_u64 stale) @ body @ tail"
    by (simp add: b_def encodeBlockIndex_def Let_def body_def tail_def)
  have count: "un_be (sub 8 12 b) = length es"
    using es(2) by (simp add: b sub_simps lm un_be_fits)
  have len: "length b = 76 + length es * 32" by (simp add: b lm lp lb lt)
  have body: "sub 68 (68 + length es * 32) b = body" by (simp add: b sub_simps lm lp lb)
  have tl: "drop (length b - 8) b = tail" unfolding len by (simp add: b lm lp lb lt)
  have magic: "take 8 b = indexMagic" by (simp add: b lm)
  have f: "to_s64 (un_be (sub 12 20 b)) = covered" "sub 20 52 b = pad32 chain"
    "to_s64 (un_be (sub 52 60 b)) = records" "to_s64 (un_be (sub 60 68 b)) = stale"
    using ints by (simp_all add: b sub_simps lm lp s64_be)
  have es': "decode_entries (length es) body = es"
    using decode_encode_entries [OF es(1), of "[]"] by (simp add: body_def)
  have tail': "take 8 (sha body) = tail" by (simp add: tail_def index_sizes)
  show ?thesis unfolding b_def [symmetric] decodeBlockIndex_def Let_def index_sizes count body tl magic f es' tail'
    using len by simp
qed

text \<open>A run-time index as the store keeps it: ids in their canonical spelling, int32 lengths.\<close>

definition map_ok :: "block_map \<Rightarrow> bool" where
  "map_ok m \<longleftrightarrow> distinct (map fst m) \<and>
     (\<forall>(k, r) \<in> set m. (\<exists>v < 2 ^ 64. k = uintToString v) \<and> int64_range (rf_off r) \<and> to_s32 (rf_n r) = rf_n r \<and> length (rf_hash r) = 8)"

lemma parse_digits_mod:
  "foldl (\<lambda>v c. (v * 10 + digit_val c) mod m) (n mod m) s = foldl (\<lambda>v c. v * 10 + digit_val c) n s mod m"
proof (induction s arbitrary: n)
  case (Cons c s)
  have "(n mod m * 10 + digit_val c) mod m = (n * 10 + digit_val c) mod m" by (metis mod_add_left_eq mod_mult_left_eq)
  then show ?case using Cons [of "n * 10 + digit_val c"] by simp
qed simp

lemma parse_uintToString: "v < 2 ^ 64 \<Longrightarrow> parseUintID (uintToString v) = Some v"
proof -
  assume v: "v < 2 ^ 64"
  have "digit 0 = CHR ''0''" by code_simp
  then have s: "uintToString v = show_nat v" by (simp add: uintToString_def show_nat.simps [of 0])
  have "foldl (\<lambda>v c. (v * 10 + digit_val c) mod 2 ^ 64) 0 (show_nat v) = dec_val (show_nat v) mod 2 ^ 64"
    using parse_digits_mod [of "2 ^ 64" 0 "show_nat v"] by (simp add: dec_val_def)
  also have "\<dots> = v" using v by (simp only: dec_val_show_nat) simp
  finally show ?thesis using show_nat_digits [of v] by (simp add: parseUintID_def s)
qed

lemma uintToString_inj: "v < 2 ^ 64 \<Longrightarrow> w < 2 ^ 64 \<Longrightarrow> uintToString v = uintToString w \<Longrightarrow> v = w"
  using parse_uintToString by (metis option.inject)

lemma entry_of_ok:
  assumes "map_ok m" "(k, r) \<in> set m"
  obtains e where "entry_of (k, r) = Some e" "entry_ok e" "uintToString (ie_id e) = k" "ref_of_entry e = r"
proof -
  from assms obtain v where v: "v < 2 ^ 64" "k = uintToString v" and r: "int64_range (rf_off r)" "to_s32 (rf_n r) = rf_n r"
    "length (rf_hash r) = 8" by (auto simp: map_ok_def)
  have n: "int64_range (rf_n r)" using to_s32_fits [of "rf_n r"] r(2) by simp
  show thesis
    by (rule that [of "\<lparr>ie_id = v, ie_off = rf_off r, ie_n = rf_n r, ie_digest = rf_hash r\<rparr>"])
      (use v r n in \<open>simp_all add: entry_of_def parse_uintToString entry_ok_def ref_of_entry_def\<close>)
qed

text \<open>Filling a map with pairwise different keys.\<close>

lemma map_of_fill:
  assumes "distinct (map f es)"
  shows "map_of (foldl (\<lambda>m e. AList.update (f e) (g e) m) m0 es) k =
    (case map_of (map (\<lambda>e. (f e, g e)) es) k of Some r \<Rightarrow> Some r | None \<Rightarrow> map_of m0 k)"
  using assms
proof (induction es arbitrary: m0)
  case (Cons e es)
  then have "map_of (map (\<lambda>e. (f e, g e)) es) (f e) = None" by (auto simp: map_of_eq_None_iff)
  then show ?case using Cons by (auto simp: update_conv' split: option.splits)
qed simp

lemma mapToIndex_set:
  "set (mapToIndex m) = {e. \<exists>kr \<in> set m. entry_of kr = Some e}"
  by (force simp: mapToIndex_def List.map_filter_def image_iff)

lemma indexToMap_mapToIndex:
  assumes "map_ok m"
  shows "map_of (indexToMap (mapToIndex m)) = map_of m"
proof -
  have key: "uintToString (ie_id e) = fst kr \<and> ref_of_entry e = snd kr" if "kr \<in> set m" "entry_of kr = Some e" for kr e
    using entry_of_ok [OF assms, of "fst kr" "snd kr"] that by (metis option.inject prod.collapse)
  have "map (\<lambda>e. (uintToString (ie_id e), ref_of_entry e)) (List.map_filter entry_of m) = m"
    using entry_of_ok [OF assms] key
  proof -
    have "map (\<lambda>e. (uintToString (ie_id e), ref_of_entry e)) (List.map_filter entry_of m') = m'" if "set m' \<subseteq> set m" for m'
      using that
    proof (induction m')
      case (Cons kr m')
      then obtain e where "entry_of kr = Some e" using entry_of_ok [OF assms, of "fst kr" "snd kr"] by auto
      moreover have "(uintToString (ie_id e), ref_of_entry e) = kr"
        using key [of kr e] Cons.prems calculation by (simp add: prod_eq_iff)
      ultimately show ?case using Cons by (simp add: map_filter_simps)
    qed (simp add: map_filter_simps)
    then show ?thesis by simp
  qed
  then have eq: "mset (map (\<lambda>e. (uintToString (ie_id e), ref_of_entry e)) (mapToIndex m)) = mset m"
    by (metis mapToIndex_def mset_map mset_sort)
  then have d: "distinct (map (\<lambda>e. uintToString (ie_id e)) (mapToIndex m))"
    using assms
  proof -
    have "mset (map fst (map (\<lambda>e. (uintToString (ie_id e), ref_of_entry e)) (mapToIndex m))) = mset (map fst m)"
      using arg_cong [OF eq, of "image_mset fst"] by (simp only: mset_map)
    then have "distinct (map fst (map (\<lambda>e. (uintToString (ie_id e), ref_of_entry e)) (mapToIndex m)))"
      using assms mset_eq_imp_distinct_iff unfolding map_ok_def by blast
    then show ?thesis by (simp add: comp_def)
  qed
  have "map_of (map (\<lambda>e. (uintToString (ie_id e), ref_of_entry e)) (mapToIndex m)) = map_of m"
  proof (rule map_of_inject_set [THEN iffD2])
    show "distinct (map fst (map (\<lambda>e. (uintToString (ie_id e), ref_of_entry e)) (mapToIndex m)))"
      using d by (simp add: comp_def)
    show "distinct (map fst m)" using assms by (simp add: map_ok_def)
    show "set (map (\<lambda>e. (uintToString (ie_id e), ref_of_entry e)) (mapToIndex m)) = set m"
      by (rule mset_eq_setD [OF eq])
  qed
  then show ?thesis using map_of_fill [OF d, of ref_of_entry "[]"] by (auto simp: indexToMap_def split: option.splits)
qed

lemma mapToIndex_ok:
  assumes "map_ok m"
  shows "\<forall>e \<in> set (mapToIndex m). entry_ok e" "length (mapToIndex m) \<le> length m" "sorted (map ie_id (mapToIndex m))"
proof -
  show "\<forall>e \<in> set (mapToIndex m). entry_ok e"
    using entry_of_ok [OF assms] by (auto simp: mapToIndex_set) (metis option.inject)
  show "sorted (map ie_id (mapToIndex m))" by (simp add: mapToIndex_def)
  have "length (List.map_filter entry_of m) \<le> length m" by (induction m) (auto simp: map_filter_simps split: option.splits)
  then show "length (mapToIndex m) \<le> length m" by (simp add: mapToIndex_def)
qed

text \<open>Decoding a written index file gives back the run-time index, its coverage and its
  counters: the same places of the same blocks, listed by ascending id.\<close>

theorem index_file_roundtrip:
  assumes "map_ok m" "length m < 2 ^ 32" "\<And>x. length (sha x) = 32"
    and "int64_range covered" "int64_range records" "int64_range stale"
  shows "\<exists>bi. loadBlockIndex sha (Some (encodeBlockIndex sha (mapToIndex m) covered [] records stale)) = Some bi \<and>
    map_of (indexToMap (bi_entries bi)) = map_of m \<and> sorted (map ie_id (bi_entries bi)) \<and>
    bi_covered bi = covered \<and> bi_records bi = records \<and> bi_stale bi = stale"
proof -
  have "length (mapToIndex m) < 2 ^ 32" using mapToIndex_ok(2) [OF assms(1)] assms(2) by (rule le_less_trans)
  from decode_encode_index [OF mapToIndex_ok(1) [OF assms(1)] this, of sha, OF assms(3-6), of "[]"]
  show ?thesis using indexToMap_mapToIndex [OF assms(1)] mapToIndex_ok(3) [OF assms(1)] by (simp add: loadBlockIndex_def)
qed

text \<open>Two blocks, 10 and 9, in an arbitrary order.\<close>

definition two_refs :: block_map where
  "two_refs = [(''10'', \<lparr>rf_off = 40, rf_n = 7, rf_hash = replicate 8 (CHR ''x'')\<rparr>),
     (''9'', \<lparr>rf_off = 17, rf_n = 6, rf_hash = replicate 8 (CHR ''y'')\<rparr>)]"

lemma two_refs_ok: "map_ok two_refs"
proof -
  have "digit 0 = CHR ''0''" "digit (Suc 0) = CHR ''1''" "digit 9 = CHR ''9''" by code_simp+
  then have "uintToString 10 = ''10''" "uintToString 9 = ''9''"
    by (simp_all add: uintToString_def show_nat.simps)
  moreover have "(10 :: nat) < 2 ^ 64" "(9 :: nat) < 2 ^ 64" by simp_all
  ultimately have "\<exists>v<2 ^ 64. ''10'' = uintToString v" "\<exists>v<2 ^ 64. ''9'' = uintToString v" by metis+
  then show ?thesis by (simp add: two_refs_def map_ok_def int64_range_def to_s32_def)
qed

theorem index_file_roundtrip_witness:
  "\<exists>bi. loadBlockIndex (\<lambda>_. replicate 32 (CHR ''h'')) (Some (encodeBlockIndex (\<lambda>_. replicate 32 (CHR ''h'')) (mapToIndex two_refs) 60 [] 2 0)) = Some bi \<and>
    map_of (indexToMap (bi_entries bi)) = map_of two_refs \<and> sorted (map ie_id (bi_entries bi)) \<and>
    bi_covered bi = 60 \<and> bi_records bi = 2 \<and> bi_stale bi = 0"
  by (rule index_file_roundtrip [OF two_refs_ok]) (simp_all add: two_refs_def int64_range_def)

end
