(* ===== verification/BlockStore.thy ===== *)
theory BlockStore
  imports BlockIndex
begin

text \<open>
  The block sidecar of a session record (\<open>session/block_store.go\<close>): an append-only file of put
  and delete records with a digest each, the index that a scan of the file rebuilds, the
  operations on an open store, its compaction and the reading of pages. The bytes of the file
  and the bytes still in the buffered writer are two parts of the state; both files are assumed
  to be written without input/output errors, so only the errors the code itself detects occur.
  \<open>SHA-256\<close> is a parameter. A Go map is iterated here in the order of its association list;
  every statement holds for all such orders.
\<close>

section \<open>Records of the file\<close>

definition blockStoreMagic :: string where "blockStoreMagic = ''HBBS0001''"
definition blockRecPut :: char where "blockRecPut = CHR 0x01"
definition blockRecDel :: char where "blockRecDel = CHR 0x02"
definition setSumPrefix :: string where "setSumPrefix = ''blockset1:''"

definition payloadDigest :: "(string \<Rightarrow> string) \<Rightarrow> string \<Rightarrow> string" where
  "payloadDigest sha p = take 8 (sha p)"

definition buildBlockRecordHead :: "char \<Rightarrow> string \<Rightarrow> string \<Rightarrow> string" where
  "buildBlockRecordHead kind i p = [kind] @ be 4 (length i) @ i @ be 4 (length p)"

definition recordHeadLen :: "string \<Rightarrow> nat" where
  "recordHeadLen i = 1 + 4 + length i + 4"

text \<open>A record as the writer appends it: head, payload and digest.\<close>

definition block_record :: "(string \<Rightarrow> string) \<Rightarrow> char \<Rightarrow> string \<Rightarrow> string \<Rightarrow> string" where
  "block_record sha kind i p = buildBlockRecordHead kind i p @ p @ payloadDigest sha p"

text \<open>\<open>io.ReadFull\<close>, and the result of reading one record: the end of the file, a record that is
  cut off or fails its digest, or a record and the bytes behind it.\<close>

definition read_full :: "nat \<Rightarrow> string \<Rightarrow> (string \<times> string) option" where
  "read_full n s = (if n \<le> length s then Some (take n s, drop n s) else None)"

datatype block_read = ReadEOF | ReadBad | ReadRec char string string string

definition readBlockRecord :: "(string \<Rightarrow> string) \<Rightarrow> string \<Rightarrow> block_read" where
  "readBlockRecord sha s =
     (case s of
        [] \<Rightarrow> ReadEOF
      | k # s1 \<Rightarrow>
         (case read_full 4 s1 of None \<Rightarrow> ReadBad | Some (n, s2) \<Rightarrow>
          case read_full (un_be n) s2 of None \<Rightarrow> ReadBad | Some (i, s3) \<Rightarrow>
          case read_full 4 s3 of None \<Rightarrow> ReadBad | Some (n', s4) \<Rightarrow>
          case read_full (un_be n') s4 of None \<Rightarrow> ReadBad | Some (p, s5) \<Rightarrow>
          case read_full 8 s5 of None \<Rightarrow> ReadBad | Some (d, s6) \<Rightarrow>
          if d = payloadDigest sha p then ReadRec k i p s6 else ReadBad))"

lemma read_full_shorter: "read_full n s = Some (a, b) \<Longrightarrow> length b \<le> length s"
  by (auto simp: read_full_def split: if_splits)

lemma readBlockRecord_shorter: "readBlockRecord sha s = ReadRec k i p r \<Longrightarrow> length r < length s"
  by (auto simp: readBlockRecord_def less_Suc_eq_le split: list.splits option.splits if_splits dest!: read_full_shorter)

section \<open>Opening a store\<close>

text \<open>The scan loop of \<open>rebuild\<close>: from a position, with the unread bytes and the index so far, to
  the end of the last complete record.\<close>

definition apply_record :: "(string \<Rightarrow> string) \<Rightarrow> nat \<Rightarrow> char \<Rightarrow> string \<Rightarrow> string \<Rightarrow> block_map \<Rightarrow> block_map" where
  "apply_record sha off k i p m =
     (if k = blockRecPut then
        AList.update i \<lparr>rf_off = int (off + length (buildBlockRecordHead k i p)), rf_n = to_s32 (int (length p)),
                        rf_hash = payloadDigest sha p\<rparr> m
      else if k = blockRecDel then AList.delete i m
      else m)"

function rebuild_scan :: "(string \<Rightarrow> string) \<Rightarrow> nat \<Rightarrow> string \<Rightarrow> block_map \<Rightarrow> nat \<times> block_map" where
  "rebuild_scan sha pos s m =
     (case readBlockRecord sha s of
        ReadRec k i p r \<Rightarrow>
          rebuild_scan sha (pos + (length (buildBlockRecordHead k i p) + length p + 8)) r (apply_record sha pos k i p m)
      | _ \<Rightarrow> (pos, m))"
  by pat_completeness auto
termination
  by (relation "measure (\<lambda>(sha, pos, s, m). length s)") (auto dest: readBlockRecord_shorter)

declare rebuild_scan.simps [simp del]

text \<open>\<open>bs_disk\<close> is the file, \<open>bs_pend\<close> what the buffered writer still holds, \<open>bs_idx\<close> the index file.\<close>

record block_store =
  bs_disk :: string
  bs_pend :: string
  bs_nBytes :: nat
  bs_index :: block_map
  bs_sortedIDs :: "nat list option"
  bs_sortedDirty :: bool
  bs_recordsWritten :: int
  bs_staleRecords :: int
  bs_bytesWritten :: int
  bs_idx :: "string option"

definition fresh_store :: "string \<Rightarrow> nat \<Rightarrow> block_map \<Rightarrow> string option \<Rightarrow> block_store" where
  "fresh_store disk n m idx = \<lparr>bs_disk = disk, bs_pend = [], bs_nBytes = n, bs_index = m, bs_sortedIDs = None,
     bs_sortedDirty = False, bs_recordsWritten = 0, bs_staleRecords = 0, bs_bytesWritten = 0, bs_idx = idx\<rparr>"

fun isAscending :: "nat list \<Rightarrow> bool" where
  "isAscending (x # y # xs) \<longleftrightarrow> x \<le> y \<and> isAscending (y # xs)"
| "isAscending _ \<longleftrightarrow> True"

text \<open>A scan from \<open>start\<close> cuts the file behind the last complete record.\<close>

definition scan_open :: "(string \<Rightarrow> string) \<Rightarrow> string \<Rightarrow> string option \<Rightarrow> nat \<Rightarrow> block_map \<Rightarrow> block_store" where
  "scan_open sha disk idx start m0 =
     (let (pos, m) = rebuild_scan sha start (drop start disk) m0 in fresh_store (take pos disk) pos m idx)"

text \<open>\<open>openBlockStore\<close> with \<open>rebuild\<close>: the contents of the sidecar (empty when it has just been
  created) and of the index file, if there is one.\<close>

definition openBlockStore :: "(string \<Rightarrow> string) \<Rightarrow> string \<Rightarrow> string option \<Rightarrow> block_store option" where
  "openBlockStore sha disk idx =
     (let size = length disk; start = length blockStoreMagic in
      if size < start then Some (fresh_store blockStoreMagic start [] idx)
      else if take start disk \<noteq> blockStoreMagic then None
      else case loadBlockIndex sha idx of
          None \<Rightarrow> Some (scan_open sha disk idx start [])
        | Some bi \<Rightarrow>
            let ids = map ie_id (bi_entries bi);
                counted = (\<lambda>bs. bs\<lparr>bs_recordsWritten := bi_records bi, bs_staleRecords := bi_stale bi\<rparr>)
            in if bi_covered bi = int size then
                 Some (counted ((fresh_store disk size (indexToMap (bi_entries bi)) idx)
                   \<lparr>bs_sortedIDs := if isAscending ids then Some ids else None\<rparr>))
               else if bi_covered bi < int size \<and> int start \<le> bi_covered bi then
                 Some (counted (scan_open sha disk idx (nat (bi_covered bi)) (indexToMap (bi_entries bi))))
               else Some (counted (scan_open sha disk idx start [])))"

section \<open>Operations on an open store\<close>

definition store_has :: "block_store \<Rightarrow> string \<Rightarrow> bool" where
  "store_has bs i \<longleftrightarrow> map_of (bs_index bs) i \<noteq> None"

definition append_record :: "(string \<Rightarrow> string) \<Rightarrow> char \<Rightarrow> string \<Rightarrow> string \<Rightarrow> block_store \<Rightarrow> block_store" where
  "append_record sha k i p bs =
     (let rec = block_record sha k i p in
      bs\<lparr>bs_pend := bs_pend bs @ rec,
         bs_index := apply_record sha (bs_nBytes bs) k i p (bs_index bs),
         bs_staleRecords := bs_staleRecords bs + (if store_has bs i then 1 else 0),
         bs_recordsWritten := bs_recordsWritten bs + 1,
         bs_bytesWritten := bs_bytesWritten bs + int (length rec),
         bs_sortedDirty := True,
         bs_nBytes := bs_nBytes bs + length rec\<rparr>)"

definition store_put :: "(string \<Rightarrow> string) \<Rightarrow> string \<Rightarrow> string \<Rightarrow> block_store \<Rightarrow> block_store" where
  "store_put sha i p = append_record sha blockRecPut i p"

definition store_delete :: "(string \<Rightarrow> string) \<Rightarrow> string \<Rightarrow> block_store \<Rightarrow> block_store" where
  "store_delete sha i = append_record sha blockRecDel i []"

definition pruneTo :: "(string \<Rightarrow> string) \<Rightarrow> string list \<Rightarrow> block_store \<Rightarrow> block_store" where
  "pruneTo sha keep bs =
     (if length (bs_index bs) \<le> length (remdups keep) then bs
      else fold (store_delete sha) (filter (\<lambda>i. i \<notin> set keep) (map fst (bs_index bs))) bs)"

definition persistIndex :: "(string \<Rightarrow> string) \<Rightarrow> block_store \<Rightarrow> block_store" where
  "persistIndex sha bs = bs\<lparr>bs_idx := Some (encodeBlockIndex sha (mapToIndex (bs_index bs)) (int (bs_nBytes bs)) []
     (bs_recordsWritten bs) (bs_staleRecords bs))\<rparr>"

definition flush_writer :: "block_store \<Rightarrow> block_store" where
  "flush_writer bs = bs\<lparr>bs_disk := bs_disk bs @ bs_pend bs, bs_pend := []\<rparr>"

definition store_flush :: "(string \<Rightarrow> string) \<Rightarrow> block_store \<Rightarrow> block_store" where
  "store_flush sha bs = persistIndex sha (flush_writer bs)"

text \<open>\<open>ReadAt\<close> into a buffer of the given length; it sees the file only, not the buffered bytes.
  A negative length, which no store of blocks below 2 GiB has, counts as unreadable.\<close>

definition read_at :: "string \<Rightarrow> int \<Rightarrow> int \<Rightarrow> string option" where
  "read_at disk off n =
     (if off < 0 \<or> n < 0 \<or> (n \<noteq> 0 \<and> int (length disk) < off + n) then None
      else Some (take (nat n) (drop (nat off) disk)))"

definition holdsSame :: "(string \<Rightarrow> string) \<Rightarrow> block_store \<Rightarrow> string \<Rightarrow> string \<Rightarrow> bool" where
  "holdsSame sha bs i p \<longleftrightarrow>
     (case map_of (bs_index bs) i of None \<Rightarrow> False | Some r \<Rightarrow> rf_hash r = payloadDigest sha p)"

definition store_read :: "block_store \<Rightarrow> string \<Rightarrow> string option" where
  "store_read bs i = Option.bind (map_of (bs_index bs) i) (\<lambda>r. read_at (bs_disk bs) (rf_off r) (rf_n r))"

definition readAndVerify :: "(string \<Rightarrow> string) \<Rightarrow> block_store \<Rightarrow> string \<Rightarrow> string option" where
  "readAndVerify sha bs i =
     Option.bind (map_of (bs_index bs) i) (\<lambda>r.
       Option.bind (read_at (bs_disk bs) (rf_off r) (rf_n r)) (\<lambda>p.
         if payloadDigest sha p = rf_hash r then Some p else None))"

definition store_Len :: "block_store \<Rightarrow> nat" where "store_Len bs = length (bs_index bs)"

definition allIDs :: "block_store \<Rightarrow> string list" where "allIDs bs = map fst (bs_index bs)"

section \<open>The digest of a set of blocks\<close>

definition hex_digit :: "nat \<Rightarrow> char" where
  "hex_digit d = (if d < 10 then char_of (48 + d) else char_of (87 + d))"

definition hex :: "string \<Rightarrow> string" where
  "hex s = concat (map (\<lambda>c. [hex_digit (of_char c div 16), hex_digit (of_char c mod 16)]) s)"

definition blocksSetSum :: "(string \<Rightarrow> string) \<Rightarrow> block_store \<Rightarrow> string list \<Rightarrow> string option" where
  "blocksSetSum sha bs ids =
     Option.bind (those (map parseUintID ids)) (\<lambda>nums.
       let byNum = map_of (rev (zip nums ids)) in
       Option.bind (those (map (\<lambda>v. map_option (\<lambda>r. be 8 v @ rf_hash r) (map_of (bs_index bs) (the (byNum v)))) (sort nums)))
         (\<lambda>parts. Some (setSumPrefix @ hex (sha (concat parts)))))"

text \<open>\<open>sum\<close>: over all blocks of the index, empty on an error.\<close>

definition store_sum :: "(string \<Rightarrow> string) \<Rightarrow> block_store \<Rightarrow> string" where
  "store_sum sha bs = (case blocksSetSum sha bs (allIDs bs) of Some s \<Rightarrow> s | None \<Rightarrow> [])"

text \<open>\<open>actualSetSum\<close> hashes the bytes of the file instead of the digests of the index.\<close>

definition actualSetSum :: "(string \<Rightarrow> string) \<Rightarrow> block_store \<Rightarrow> string list \<Rightarrow> string option" where
  "actualSetSum sha bs ids =
     Option.bind (those (map parseUintID ids)) (\<lambda>nums.
       let byNum = map_of (rev (zip nums ids)) in
       Option.bind (those (map (\<lambda>v. map_option (\<lambda>p. be 8 v @ payloadDigest sha p) (store_read bs (the (byNum v)))) (sort nums)))
         (\<lambda>parts. Some (setSumPrefix @ hex (sha (concat parts)))))"

text \<open>\<open>strconv.ParseUint(id, 10, 64)\<close> refuses what does not fit.\<close>

definition ParseUint :: "string \<Rightarrow> nat option" where
  "ParseUint s = (if s = [] \<or> (\<exists>c \<in> set s. \<not> is_digit c) \<or> 2 ^ 64 \<le> dec_val s then None else Some (dec_val s))"

text \<open>\<open>assemble\<close>: the whole array in the order of the ids.\<close>

definition assemble :: "(string \<Rightarrow> string) \<Rightarrow> block_store \<Rightarrow> string option" where
  "assemble sha bs =
     Option.bind (those (map ParseUint (allIDs bs))) (\<lambda>nums.
       Option.bind (those (map (\<lambda>(v, i). readAndVerify sha bs i) (sort_key fst (zip nums (allIDs bs)))))
         (\<lambda>ps. Some (''['' @ join '','' ps @ '']'')))"

section \<open>Pages\<close>

record page_request =
  pr_BeforeID :: nat
  pr_FromEnd :: bool
  pr_Limit :: int

record page =
  pg_Blocks :: "string list"
  pg_Total :: nat
  pg_HasMore :: bool
  pg_NextFrom :: nat

function lower_bound :: "nat list \<Rightarrow> nat \<Rightarrow> nat \<Rightarrow> nat \<Rightarrow> nat" where
  "lower_bound a v lo hi =
     (if lo < hi then
        let mid = (lo + hi) div 2 in
        if a ! mid < v then lower_bound a v (mid + 1) hi else lower_bound a v lo mid
      else lo)"
  by pat_completeness auto
termination by (relation "measure (\<lambda>(a, v, lo, hi). hi - lo)") auto

declare lower_bound.simps [simp del]

definition lowerBound :: "nat list \<Rightarrow> nat \<Rightarrow> nat" where
  "lowerBound a v = lower_bound a v 0 (length a)"

text \<open>\<open>sortedIDsLocked\<close>: the cached list, rebuilt when a write came in between.\<close>

definition sortedIDsLocked :: "block_store \<Rightarrow> nat list \<times> block_store" where
  "sortedIDsLocked bs =
     (case (bs_sortedIDs bs, bs_sortedDirty bs) of
        (Some ids, False) \<Rightarrow> (ids, bs)
      | _ \<Rightarrow> let ids = sort (List.map_filter parseUintID (allIDs bs))
            in (ids, bs\<lparr>bs_sortedIDs := Some ids, bs_sortedDirty := False\<rparr>))"

definition ReadPage :: "(string \<Rightarrow> string) \<Rightarrow> page_request \<Rightarrow> block_store \<Rightarrow> page option \<times> block_store" where
  "ReadPage sha req bs =
     (let limit = (if pr_Limit req \<le> 0 then 50 else nat (pr_Limit req));
          (ids, bs') = sortedIDsLocked bs;
          total = length ids;
          hi = (if \<not> pr_FromEnd req \<and> 0 < pr_BeforeID req then lowerBound ids (pr_BeforeID req) else total);
          lo = hi - limit
      in if hi \<le> lo then (Some \<lparr>pg_Blocks = [], pg_Total = total, pg_HasMore = False, pg_NextFrom = 0\<rparr>, bs')
         else (map_option (\<lambda>ps. \<lparr>pg_Blocks = ps, pg_Total = total, pg_HasMore = 0 < lo,
                                 pg_NextFrom = (if 0 < lo then ids ! lo else 0)\<rparr>)
                 (those (map (\<lambda>v. readAndVerify sha bs' (uintToString v)) (sub lo hi ids))), bs'))"

section \<open>Compaction\<close>

text \<open>\<open>float64(stale)/float64(written) > 0.20\<close>, exact for counters below 2^50.\<close>

definition needsCompact :: "block_store \<Rightarrow> bool" where
  "needsCompact bs \<longleftrightarrow> bs_recordsWritten bs \<noteq> 0 \<and>
     (if 0 < bs_recordsWritten bs then bs_recordsWritten bs < 5 * bs_staleRecords bs
      else 5 * bs_staleRecords bs < bs_recordsWritten bs)"

text \<open>One kept block, behind what the new file holds so far.\<close>

definition compact_step :: "(string \<Rightarrow> string) \<Rightarrow> block_store \<Rightarrow> nat \<Rightarrow> (string \<times> block_map) \<Rightarrow> (string \<times> block_map) option" where
  "compact_step sha bs v acc =
     (case acc of (out, m) \<Rightarrow>
        (case map_of (bs_index bs) (uintToString v) of
           None \<Rightarrow> Some acc
         | Some r \<Rightarrow>
             Option.bind (read_at (bs_disk bs) (rf_off r) (rf_n r)) (\<lambda>p.
               if payloadDigest sha p \<noteq> rf_hash r then None
               else let head = buildBlockRecordHead blockRecPut (uintToString v) p in
                 Some (out @ head @ p @ rf_hash r,
                   AList.update (uintToString v)
                     \<lparr>rf_off = int (length out + length head), rf_n = to_s32 (int (length p)), rf_hash = rf_hash r\<rparr> m))))"

primrec compact_blocks :: "(string \<Rightarrow> string) \<Rightarrow> block_store \<Rightarrow> nat list \<Rightarrow> (string \<times> block_map) \<Rightarrow> (string \<times> block_map) option" where
  "compact_blocks sha bs [] acc = Some acc"
| "compact_blocks sha bs (v # vs) acc = Option.bind (compact_step sha bs v acc) (compact_blocks sha bs vs)"

text \<open>\<open>compact\<close>; a damaged block makes it give up with the old file in place. \<open>replaced\<close> is the state
  after the file has been exchanged and before the index file is rewritten.\<close>

definition compact_replace :: "(string \<Rightarrow> string) \<Rightarrow> block_store \<Rightarrow> block_store option" where
  "compact_replace sha bs =
     (let (ids, bs1) = sortedIDsLocked bs; bs2 = flush_writer bs1 in
      map_option (\<lambda>(out, m). bs2\<lparr>bs_disk := out, bs_index := m, bs_nBytes := length out,
          bs_recordsWritten := int (length m), bs_staleRecords := 0, bs_bytesWritten := int (length out),
          bs_sortedDirty := True\<rparr>)
        (compact_blocks sha bs2 ids (blockStoreMagic, [])))"

definition store_compact :: "(string \<Rightarrow> string) \<Rightarrow> block_store \<Rightarrow> block_store" where
  "store_compact sha bs =
     (case compact_replace sha bs of
        Some bs' \<Rightarrow> persistIndex sha bs'
      | None \<Rightarrow> flush_writer (snd (sortedIDsLocked bs)))"

definition maybeCompact_store :: "(string \<Rightarrow> string) \<Rightarrow> block_store \<Rightarrow> block_store" where
  "maybeCompact_store sha bs = (if needsCompact bs then store_compact sha bs else bs)"

section \<open>Records are read back as they were written\<close>

lemma byte_less: "(of_char c :: nat) < 256"
  by (rule nat_of_char_less_256)

lemma be_un_be: "length s = k \<Longrightarrow> be k (un_be s) = s"
proof (induction k arbitrary: s)
  case (Suc k)
  then obtain t c where s: "s = t @ [c]" "length t = k" by (metis length_Suc_conv_rev)
  have "un_be s = un_be t * 256 + of_char c" by (simp add: un_be_def s(1))
  moreover have "(un_be t * 256 + of_char c) div 256 = un_be t"
    using byte_less [of c] by simp
  moreover have "(char_of (un_be t * 256 + of_char c) :: char) = c"
    by (metis char_of_mod_256 char_of_char mod_mult_self3)
  ultimately show ?case using Suc.IH [OF s(2)] s by simp
qed (simp add: un_be_def)

lemma un_be_less: "un_be s < 256 ^ length s"
proof (induction s rule: rev_induct)
  case (snoc c s)
  have "un_be (s @ [c]) = un_be s * 256 + of_char c" by (simp add: un_be_def)
  also have "\<dots> < (un_be s + 1) * 256" using byte_less [of c] by simp
  also have "\<dots> \<le> 256 ^ length s * 256" using snoc by (intro mult_right_mono) auto
  finally show ?case by simp
qed (simp add: un_be_def)

definition record_ok :: "char \<times> string \<times> string \<Rightarrow> bool" where
  "record_ok r \<longleftrightarrow> length (fst (snd r)) < 2 ^ 32 \<and> length (snd (snd r)) < 2 ^ 32"

definition rec_bytes :: "(string \<Rightarrow> string) \<Rightarrow> char \<times> string \<times> string \<Rightarrow> string" where
  "rec_bytes sha r = block_record sha (fst r) (fst (snd r)) (snd (snd r))"

lemma head_length: "length (buildBlockRecordHead k i p) = recordHeadLen i"
  by (simp add: buildBlockRecordHead_def recordHeadLen_def)

lemma block_record_length:
  "(\<And>x. 8 \<le> length (sha x)) \<Longrightarrow> length (block_record sha k i p) = recordHeadLen i + length p + 8"
  by (simp add: block_record_def head_length payloadDigest_def min_absorb2)

lemma read_full_append: "length a = n \<Longrightarrow> read_full n (a @ b) = Some (a, b)"
  by (simp add: read_full_def)

lemma read_block_record:
  assumes "\<And>x. 8 \<le> length (sha x)" "length i < 2 ^ 32" "length p < 2 ^ 32"
  shows "readBlockRecord sha (block_record sha k i p @ s) = ReadRec k i p s"
proof -
  have n: "un_be (be 4 (length i)) = length i" "un_be (be 4 (length p)) = length p"
    using assms(2,3) by (simp_all add: un_be_fits)
  have d: "length (payloadDigest sha p) = 8" using assms(1) [of p] by (simp add: payloadDigest_def)
  show ?thesis
    by (simp add: readBlockRecord_def block_record_def buildBlockRecordHead_def read_full_append n d)
qed

lemma read_full_split: "read_full n s = Some (a, b) \<Longrightarrow> s = a @ b \<and> length a = n"
  by (auto simp: read_full_def split: if_splits)

lemma read_block_inverse:
  assumes "readBlockRecord sha s = ReadRec k i p r"
  shows "s = block_record sha k i p @ r \<and> length i < 2 ^ 32 \<and> length p < 2 ^ 32"
proof -
  from assms obtain k' s1 n s2 i' s3 n' s4 p' s5 d where s: "s = k' # s1" "read_full 4 s1 = Some (n, s2)"
    "read_full (un_be n) s2 = Some (i', s3)" "read_full 4 s3 = Some (n', s4)" "read_full (un_be n') s4 = Some (p', s5)"
    "read_full 8 s5 = Some (d, r)" "d = payloadDigest sha p'" "k' = k" "i' = i" "p' = p"
    by (auto simp: readBlockRecord_def split: list.splits option.splits if_splits)
  then have l: "length n = 4" "length n' = 4" "length i = un_be n" "length p = un_be n'"
    by (auto dest!: read_full_split)
  then have "be 4 (length i) = n" "be 4 (length p) = n'" by (simp_all add: be_un_be)
  moreover have "length i < 2 ^ 32" "length p < 2 ^ 32" using un_be_less [of n] un_be_less [of n'] l by simp_all
  ultimately show ?thesis using s by (auto simp: block_record_def buildBlockRecordHead_def dest!: read_full_split)
qed

text \<open>A record that is cut off is not taken for another one.\<close>

lemma read_cut_record:
  assumes sha: "\<And>x. 8 \<le> length (sha x)" and ok: "record_ok r" and n: "n < length (rec_bytes sha r)"
  shows "readBlockRecord sha (take n (rec_bytes sha r)) = (if n = 0 then ReadEOF else ReadBad)"
proof (cases "readBlockRecord sha (take n (rec_bytes sha r))")
  case ReadEOF
  then have "take n (rec_bytes sha r) = []" by (auto simp: readBlockRecord_def split: list.splits option.splits if_splits)
  with n have "n = 0" by auto
  with ReadEOF show ?thesis by simp
next
  case ReadBad
  then have "n \<noteq> 0" by (cases n) (simp_all add: readBlockRecord_def)
  with ReadBad show ?thesis by simp
next
  case (ReadRec k i p t)
  note inv = read_block_inverse [OF this]
  define u where "u = t @ drop n (rec_bytes sha r)"
  have eq: "rec_bytes sha r = block_record sha k i p @ u" using inv append_take_drop_id [of n "rec_bytes sha r"] by (simp add: u_def)
  have "readBlockRecord sha (rec_bytes sha r) = ReadRec (fst r) (fst (snd r)) (snd (snd r)) []"
    using read_block_record [of sha "fst (snd r)" "snd (snd r)" "fst r" "[]"] sha ok by (simp add: rec_bytes_def record_ok_def)
  moreover have "readBlockRecord sha (rec_bytes sha r) = ReadRec k i p u"
    unfolding eq using inv by (intro read_block_record sha) auto
  ultimately have "u = []" by simp
  with n show ?thesis by (simp add: u_def)
qed

section \<open>The log behind a store\<close>

text \<open>A log is a list of records; its bytes, its index and its contents.\<close>

type_synonym block_log = "(char \<times> string \<times> string) list"

definition log_bytes :: "(string \<Rightarrow> string) \<Rightarrow> block_log \<Rightarrow> string" where
  "log_bytes sha l = concat (map (rec_bytes sha) l)"

primrec log_index :: "(string \<Rightarrow> string) \<Rightarrow> nat \<Rightarrow> block_log \<Rightarrow> block_map \<Rightarrow> block_map" where
  "log_index sha pos [] m = m"
| "log_index sha pos (r # l) m =
     log_index sha (pos + length (rec_bytes sha r)) l (apply_record sha pos (fst r) (fst (snd r)) (snd (snd r)) m)"

definition apply_spec :: "char \<times> string \<times> string \<Rightarrow> (string \<rightharpoonup> string) \<Rightarrow> (string \<rightharpoonup> string)" where
  "apply_spec r m = (case r of (k, i, p) \<Rightarrow> if k = blockRecPut then m(i \<mapsto> p) else if k = blockRecDel then m(i := None) else m)"

definition log_contents :: "block_log \<Rightarrow> (string \<rightharpoonup> string)" where
  "log_contents l = fold apply_spec l Map.empty"

lemma log_bytes_simps [simp]: "log_bytes sha [] = []" "log_bytes sha (r # l) = rec_bytes sha r @ log_bytes sha l"
  "log_bytes sha (l @ l') = log_bytes sha l @ log_bytes sha l'"
  by (simp_all add: log_bytes_def)

lemma log_index_append: "log_index sha pos (l @ l') m = log_index sha (pos + length (log_bytes sha l)) l' (log_index sha pos l m)"
  by (induction l arbitrary: pos m) (auto simp: add.assoc)

lemma scan_log:
  assumes sha: "\<And>x. 8 \<le> length (sha x)" and ok: "\<forall>r \<in> set l. record_ok r"
  shows "rebuild_scan sha pos (log_bytes sha l @ t) m = rebuild_scan sha (pos + length (log_bytes sha l)) t (log_index sha pos l m)"
  using ok
proof (induction l arbitrary: pos m)
  case (Cons r l)
  obtain k i p where r: "r = (k, i, p)" by (cases r) auto
  have b: "readBlockRecord sha (rec_bytes sha r @ s) = ReadRec k i p s" for s
    using Cons.prems by (simp add: r rec_bytes_def read_block_record [OF sha] record_ok_def)
  have len: "length (rec_bytes sha r) = length (buildBlockRecordHead k i p) + (length p + 8)"
    by (simp add: r rec_bytes_def block_record_length [OF sha] head_length)
  show ?case using Cons
    by (subst rebuild_scan.simps) (simp add: b [unfolded r] len [unfolded r] add.assoc r)
qed simp

lemma scan_stops:
  assumes "\<And>k i p r. readBlockRecord sha t \<noteq> ReadRec k i p r"
  shows "rebuild_scan sha pos t m = (pos, m)"
  using assms by (subst rebuild_scan.simps) (cases "readBlockRecord sha t"; auto)

text \<open>What a scan leaves behind of a log whose last record is cut off.\<close>

lemma scan_cut_log:
  assumes sha: "\<And>x. 8 \<le> length (sha x)" and ok: "\<forall>r \<in> set l. record_ok r"
  shows "\<exists>l'. prefix l' l \<and> length (log_bytes sha l') \<le> n \<and>
    (\<forall>l''. prefix l'' l \<longrightarrow> length (log_bytes sha l'') \<le> n \<longrightarrow> prefix l'' l') \<and>
    rebuild_scan sha pos (take n (log_bytes sha l)) m = (pos + length (log_bytes sha l'), log_index sha pos l' m)"
  using ok
proof (induction l arbitrary: pos m n)
  case Nil
  show ?case by (rule exI [of _ "[]"]) (auto intro!: scan_stops simp: readBlockRecord_def)
next
  case (Cons r l)
  show ?case
  proof (cases "n < length (rec_bytes sha r)")
    case True
    have "readBlockRecord sha (take n (rec_bytes sha r)) \<noteq> ReadRec k i p s" for k i p s
      using read_cut_record [of sha r n] sha True Cons.prems by auto
    then have "rebuild_scan sha pos (take n (log_bytes sha (r # l))) m = (pos, m)" using True by (simp add: scan_stops)
    moreover have "l'' = []" if "prefix l'' (r # l)" "length (log_bytes sha l'') \<le> n" for l''
      using that True by (cases l'') auto
    ultimately show ?thesis by (intro exI [of _ "[]"]) auto
  next
    case False
    define n' where "n' = n - length (rec_bytes sha r)"
    define m' where "m' = apply_record sha pos (fst r) (fst (snd r)) (snd (snd r)) m"
    from Cons obtain l' where l': "prefix l' l" "length (log_bytes sha l') \<le> n'" "\<forall>l''. prefix l'' l \<longrightarrow> length (log_bytes sha l'') \<le> n' \<longrightarrow> prefix l'' l'"
      "rebuild_scan sha (pos + length (rec_bytes sha r)) (take n' (log_bytes sha l)) m' =
       (pos + length (rec_bytes sha r) + length (log_bytes sha l'), log_index sha (pos + length (rec_bytes sha r)) l' m')"
      by (metis list.set_intros(2))
    have "take n (log_bytes sha (r # l)) = log_bytes sha [r] @ take n' (log_bytes sha l)"
      using False by (simp add: n'_def)
    then have "rebuild_scan sha pos (take n (log_bytes sha (r # l))) m =
      rebuild_scan sha (pos + length (rec_bytes sha r)) (take n' (log_bytes sha l)) m'"
      using scan_log [of sha "[r]" pos "take n' (log_bytes sha l)" m] sha Cons.prems by (simp add: m'_def)
    moreover have "prefix l'' (r # l')" if "prefix l'' (r # l)" "length (log_bytes sha l'') \<le> n" for l''
      using that l'(3) by (cases l'') (auto simp: n'_def)
    ultimately show ?thesis using l' False
      by (intro exI [of _ "r # l'"]) (auto simp: n'_def m'_def add.assoc)
  qed
qed

section \<open>The index points at the contents\<close>

definition entry_fits :: "char \<times> string \<times> string \<Rightarrow> bool" where
  "entry_fits r \<longleftrightarrow> record_ok r \<and> length (snd (snd r)) < 2 ^ 31 \<and> (\<exists>v < 2 ^ 64. fst (snd r) = uintToString v)"

definition ref_ok :: "(string \<Rightarrow> string) \<Rightarrow> string \<Rightarrow> string \<Rightarrow> block_ref \<Rightarrow> string \<Rightarrow> bool" where
  "ref_ok sha bytes i r p \<longleftrightarrow> read_at bytes (rf_off r) (rf_n r) = Some p \<and> rf_hash r = payloadDigest sha p \<and>
     (\<exists>v < 2 ^ 64. i = uintToString v) \<and> 0 \<le> rf_off r \<and> rf_off r \<le> int (length bytes) \<and> to_s32 (rf_n r) = rf_n r"

definition points :: "(string \<Rightarrow> string) \<Rightarrow> string \<Rightarrow> block_map \<Rightarrow> (string \<rightharpoonup> string) \<Rightarrow> bool" where
  "points sha bytes m c \<longleftrightarrow> distinct (map fst m) \<and> (\<forall>i. rel_option (ref_ok sha bytes i) (map_of m i) (c i))"

lemma read_at_append:
  assumes "read_at b x n = Some p" "x \<le> int (length b)"
  shows "read_at (b @ t) x n = Some p"
proof -
  have "0 \<le> x" "0 \<le> n" "n = 0 \<or> x + n \<le> int (length b)" "p = take (nat n) (drop (nat x) b)"
    using assms(1) by (auto simp: read_at_def split: if_splits)
  then show ?thesis using assms(2) by (cases "n = 0") (auto simp: read_at_def)
qed

lemma ref_ok_append: "ref_ok sha b i r p \<Longrightarrow> ref_ok sha (b @ t) i r p"
  by (simp add: ref_ok_def read_at_append)

lemma points_append: "points sha b m c \<Longrightarrow> points sha (b @ t) m c"
  unfolding points_def using ref_ok_append by (metis option.rel_mono_strong)

lemma points_same: "points sha b m c \<Longrightarrow> distinct (map fst m') \<Longrightarrow> map_of m' = map_of m \<Longrightarrow> points sha b m' c"
  by (simp add: points_def)

lemma points_cases:
  assumes "points sha b m c"
  obtains "map_of m i = None" "c i = None"
  | r p where "map_of m i = Some r" "c i = Some p" "ref_ok sha b i r p"
proof -
  have "rel_option (ref_ok sha b i) (map_of m i) (c i)" using assms by (simp add: points_def)
  then show thesis using that by (cases rule: option.rel_cases) auto
qed

lemma points_empty: "points sha b [] Map.empty"
  by (simp add: points_def)

lemma put_ref_ok:
  assumes "entry_fits (k, i, p)"
  shows "ref_ok sha (b @ rec_bytes sha (k, i, p)) i
    \<lparr>rf_off = int (length b + length (buildBlockRecordHead k i p)), rf_n = to_s32 (int (length p)), rf_hash = payloadDigest sha p\<rparr> p"
proof -
  have n: "to_s32 (int (length p)) = int (length p)" using assms by (intro to_s32_id) (auto simp: entry_fits_def)
  show ?thesis using assms
    by (simp add: ref_ok_def n read_at_def rec_bytes_def block_record_def nat_add_distrib entry_fits_def)
qed

lemma points_record:
  assumes "points sha b m c" "entry_fits r"
  shows "points sha (b @ rec_bytes sha r) (apply_record sha (length b) (fst r) (fst (snd r)) (snd (snd r)) m) (apply_spec r c)"
proof -
  obtain k i p where r: "r = (k, i, p)" by (cases r) auto
  have old: "distinct (map fst m)" "\<And>j. rel_option (ref_ok sha (b @ rec_bytes sha r) j) (map_of m j) (c j)"
    using points_append [OF assms(1), of "rec_bytes sha r"] by (simp_all add: points_def)
  consider "k = blockRecPut" | "k = blockRecDel" "k \<noteq> blockRecPut" | "k \<noteq> blockRecPut" "k \<noteq> blockRecDel" by blast
  then show ?thesis
  proof cases
    case 1
    with old put_ref_ok [of k i p sha b] assms(2) show ?thesis
      by (simp add: points_def apply_record_def apply_spec_def r update_conv' distinct_update)
  next
    case 2
    with old show ?thesis by (simp add: points_def apply_record_def apply_spec_def r delete_conv' distinct_delete)
  next
    case 3
    with old show ?thesis by (simp add: points_def apply_record_def apply_spec_def r)
  qed
qed

lemma points_log:
  assumes "points sha b m c" "\<forall>r \<in> set l. entry_fits r"
  shows "points sha (b @ log_bytes sha l) (log_index sha (length b) l m) (fold apply_spec l c)"
  using assms
proof (induction l arbitrary: b m c)
  case (Cons r l)
  from Cons.prems have "points sha (b @ rec_bytes sha r) (apply_record sha (length b) (fst r) (fst (snd r)) (snd (snd r)) m) (apply_spec r c)"
    by (intro points_record) auto
  from Cons.IH [OF this] Cons.prems(2) show ?case by simp
qed simp

text \<open>Indexes that agree as maps stay so.\<close>

lemma apply_record_cong:
  "map_of m = map_of m' \<Longrightarrow> map_of (apply_record sha pos k i p m) = map_of (apply_record sha pos k i p m')"
  by (simp add: apply_record_def update_conv' delete_conv')

lemma log_index_cong:
  "map_of m = map_of m' \<Longrightarrow> map_of (log_index sha pos l m) = map_of (log_index sha pos l m')"
proof (induction l arbitrary: pos m m')
  case (Cons r l)
  show ?case unfolding log_index.simps by (rule Cons.IH [OF apply_record_cong [OF Cons.prems]])
qed simp

lemma log_index_distinct: "distinct (map fst m) \<Longrightarrow> distinct (map fst (log_index sha pos l m))"
  by (induction l arbitrary: pos m) (simp_all add: apply_record_def distinct_update distinct_delete)

section \<open>The invariant of a store\<close>

text \<open>\<open>sorted_ids\<close> are the ids of an index in ascending order. An index file describes a first part of
  the log that is on disk already; the store describes all of it.\<close>

definition sorted_ids :: "block_map \<Rightarrow> nat list" where
  "sorted_ids m = sort (List.map_filter parseUintID (map fst m))"

definition idx_ok :: "(string \<Rightarrow> string) \<Rightarrow> block_log \<Rightarrow> string \<Rightarrow> string option \<Rightarrow> bool" where
  "idx_ok sha l disk idx \<longleftrightarrow>
     (case loadBlockIndex sha idx of
        None \<Rightarrow> True
      | Some bi \<Rightarrow> \<exists>l1 l2 m. l = l1 @ l2 \<and> map_ok m \<and> bi_entries bi = mapToIndex m \<and>
          bi_covered bi = int (8 + length (log_bytes sha l1)) \<and> bi_covered bi \<le> int (length disk) \<and>
          map_of m = map_of (log_index sha 8 l1 []))"

definition store_ok :: "(string \<Rightarrow> string) \<Rightarrow> block_log \<Rightarrow> block_store \<Rightarrow> bool" where
  "store_ok sha l bs \<longleftrightarrow>
     (\<forall>r \<in> set l. entry_fits r) \<and>
     bs_disk bs @ bs_pend bs = blockStoreMagic @ log_bytes sha l \<and> 8 \<le> length (bs_disk bs) \<and>
     bs_nBytes bs = 8 + length (log_bytes sha l) \<and>
     distinct (map fst (bs_index bs)) \<and> map_of (bs_index bs) = map_of (log_index sha 8 l []) \<and>
     (\<forall>ids. bs_sortedIDs bs = Some ids \<and> \<not> bs_sortedDirty bs \<longrightarrow> ids = sorted_ids (bs_index bs)) \<and>
     idx_ok sha l (bs_disk bs) (bs_idx bs)"

definition store_fits :: "block_store \<Rightarrow> bool" where
  "store_fits bs \<longleftrightarrow> bs_nBytes bs < 2 ^ 62 \<and> length (bs_index bs) < 2 ^ 32 \<and>
     int64_range (bs_recordsWritten bs) \<and> int64_range (bs_staleRecords bs)"

text \<open>What is in the store: the payloads that a reader gets once everything is written.\<close>

definition store_contents :: "(string \<Rightarrow> string) \<Rightarrow> block_store \<Rightarrow> (string \<rightharpoonup> string)" where
  "store_contents sha bs = readAndVerify sha (flush_writer bs)"

lemma magic_length [simp]: "length blockStoreMagic = 8"
  by (simp add: blockStoreMagic_def)

lemma store_points:
  assumes "store_ok sha l bs"
  shows "points sha (bs_disk bs @ bs_pend bs) (bs_index bs) (log_contents l)"
proof -
  have ok: "\<forall>r \<in> set l. entry_fits r" "bs_disk bs @ bs_pend bs = blockStoreMagic @ log_bytes sha l"
    "distinct (map fst (bs_index bs))" "map_of (bs_index bs) = map_of (log_index sha 8 l [])"
    using assms by (auto simp: store_ok_def)
  have "points sha (blockStoreMagic @ log_bytes sha l) (log_index sha 8 l []) (log_contents l)"
    using points_log [OF points_empty ok(1), of sha blockStoreMagic] by (simp add: log_contents_def)
  then show ?thesis unfolding ok(2) by (rule points_same [OF _ ok(3,4)])
qed

lemma points_readAndVerify:
  assumes "points sha (bs_disk bs) (bs_index bs) c"
  shows "readAndVerify sha bs = c"
proof
  fix i show "readAndVerify sha bs i = c i"
    by (rule points_cases [OF assms, of i]) (simp_all add: readAndVerify_def ref_ok_def)
qed

theorem store_contents_log:
  assumes "store_ok sha l bs"
  shows "store_contents sha bs = log_contents l"
  unfolding store_contents_def
  by (rule points_readAndVerify) (use store_points [OF assms] in \<open>simp add: flush_writer_def\<close>)

lemma store_map_ok:
  assumes "store_ok sha l bs" "store_fits bs" "\<And>x. 8 \<le> length (sha x)"
  shows "map_ok (bs_index bs)"
proof -
  note pts = store_points [OF assms(1)]
  have "bs_disk bs @ bs_pend bs = blockStoreMagic @ log_bytes sha l" using assms(1) by (simp add: store_ok_def)
  then have len: "length (bs_disk bs @ bs_pend bs) < 2 ^ 62" using assms(1,2) by (simp add: store_ok_def store_fits_def)
  show ?thesis unfolding map_ok_def
  proof (intro conjI ballI, goal_cases)
    case 1 show ?case using pts by (simp add: points_def)
  next
    case (2 kr)
    obtain k r where kr: "kr = (k, r)" by (cases kr) auto
    with 2 have m: "map_of (bs_index bs) k = Some r" using pts by (simp add: points_def)
    obtain p where p: "ref_ok sha (bs_disk bs @ bs_pend bs) k r p" by (rule points_cases [OF pts, of k]) (use m in auto)
    have d: "length (payloadDigest sha p) = 8" using assms(3) [of p] by (simp add: payloadDigest_def)
    have "0 \<le> rf_off r" "rf_off r < 2 ^ 62" using p len by (auto simp: ref_ok_def)
    then have "int64_range (rf_off r)" by (simp add: int64_range_def)
    then show ?case using p d by (simp add: kr ref_ok_def)
  qed
qed

section \<open>Every operation keeps the invariant\<close>

lemma idx_okI:
  assumes "loadBlockIndex sha idx = Some bi" "l = l1 @ l2" "map_ok m" "bi_entries bi = mapToIndex m"
    "bi_covered bi = int (8 + length (log_bytes sha l1))" "8 + length (log_bytes sha l1) \<le> length disk"
    "map_of m = map_of (log_index sha 8 l1 [])"
  shows "idx_ok sha l disk idx"
proof -
  have "bi_covered bi \<le> int (length disk)" using assms(5,6) by simp
  then have "l = l1 @ l2 \<and> map_ok m \<and> bi_entries bi = mapToIndex m \<and> bi_covered bi = int (8 + length (log_bytes sha l1)) \<and>
      bi_covered bi \<le> int (length disk) \<and> map_of m = map_of (log_index sha 8 l1 [])" using assms(2-5,7) by (intro conjI)
  then show ?thesis unfolding idx_ok_def assms(1) option.case by (intro exI)
qed

lemma idx_okE:
  assumes "idx_ok sha l disk idx" "loadBlockIndex sha idx = Some bi"
  obtains l1 l2 m where "l = l1 @ l2" "map_ok m" "bi_entries bi = mapToIndex m"
    "bi_covered bi = int (8 + length (log_bytes sha l1))" "8 + length (log_bytes sha l1) \<le> length disk"
    "map_of m = map_of (log_index sha 8 l1 [])"
proof -
  from assms obtain l1 l2 m where "l = l1 @ l2" "map_ok m" "bi_entries bi = mapToIndex m"
    "bi_covered bi = int (8 + length (log_bytes sha l1))" "bi_covered bi \<le> int (length disk)"
    "map_of m = map_of (log_index sha 8 l1 [])" by (auto simp: idx_ok_def)
  then show thesis using that [of l1 l2 m] by simp
qed

lemma idx_ok_grows:
  assumes "idx_ok sha l disk idx" "length disk \<le> length disk'"
  shows "idx_ok sha (l @ l') disk' idx"
proof (cases "loadBlockIndex sha idx")
  case (Some bi)
  from idx_okE [OF assms(1) Some] obtain l1 l2 m where s: "l = l1 @ l2" "map_ok m" "bi_entries bi = mapToIndex m"
    "bi_covered bi = int (8 + length (log_bytes sha l1))" "8 + length (log_bytes sha l1) \<le> length disk"
    "map_of m = map_of (log_index sha 8 l1 [])" by blast
  have "l @ l' = l1 @ (l2 @ l')" "8 + length (log_bytes sha l1) \<le> length disk'" using s(1,5) assms(2) by simp_all
  then show ?thesis by (intro idx_okI [OF Some _ s(2,3,4) _ s(6)])
qed (simp add: idx_ok_def)

lemma append_ok:
  assumes ok: "store_ok sha l bs" and r: "entry_fits (k, i, p)"
  shows "store_ok sha (l @ [(k, i, p)]) (append_record sha k i p bs)"
proof -
  have "map_of (apply_record sha (bs_nBytes bs) k i p (bs_index bs)) =
      map_of (apply_record sha (8 + length (log_bytes sha l)) k i p (log_index sha 8 l []))"
    using ok apply_record_cong [of "bs_index bs" "log_index sha 8 l []"] by (simp add: store_ok_def)
  moreover have "distinct (map fst (apply_record sha (bs_nBytes bs) k i p (bs_index bs)))"
    using ok by (simp add: store_ok_def apply_record_def distinct_update distinct_delete)
  moreover have "idx_ok sha (l @ [(k, i, p)]) (bs_disk bs) (bs_idx bs)"
    using ok idx_ok_grows by (auto simp: store_ok_def)
  moreover have "bs_disk bs @ bs_pend bs @ rec_bytes sha (k, i, p) = blockStoreMagic @ log_bytes sha (l @ [(k, i, p)])"
    using ok by (simp add: store_ok_def)
  moreover have "rec_bytes sha (k, i, p) = block_record sha k i p" by (simp add: rec_bytes_def)
  moreover have "8 \<le> length (bs_disk bs)" "bs_nBytes bs = 8 + length (log_bytes sha l)" "\<forall>r \<in> set l. entry_fits r"
    using ok by (simp_all add: store_ok_def)
  ultimately show ?thesis using r
    by (simp add: store_ok_def append_record_def Let_def log_index_append)
qed

lemma flush_writer_ok:
  assumes "store_ok sha l bs"
  shows "store_ok sha l (flush_writer bs)"
proof -
  have "idx_ok sha l (bs_disk bs) (bs_idx bs)" using assms by (simp add: store_ok_def)
  then have "idx_ok sha (l @ []) (bs_disk bs @ bs_pend bs) (bs_idx bs)" by (rule idx_ok_grows) simp
  then show ?thesis using assms by (simp add: store_ok_def flush_writer_def)
qed

lemma persist_idx_ok:
  assumes "store_ok sha l bs" "bs_pend bs = []" "store_fits bs" "\<And>x. length (sha x) = 32"
  shows "idx_ok sha l (bs_disk bs) (bs_idx (persistIndex sha bs))"
proof -
  have m: "map_ok (bs_index bs)" using store_map_ok [OF assms(1,3)] assms(4) by simp
  have "length (mapToIndex (bs_index bs)) < 2 ^ 32"
    using mapToIndex_ok(2) [OF m] assms(3) by (simp add: store_fits_def)
  moreover have "int64_range (int (bs_nBytes bs))" using assms(3) by (simp add: store_fits_def int64_range_def)
  moreover define bi where "bi = \<lparr>bi_entries = mapToIndex (bs_index bs), bi_covered = int (bs_nBytes bs), bi_chain = pad32 [],
      bi_records = bs_recordsWritten bs, bi_stale = bs_staleRecords bs\<rparr>"
  ultimately have load: "loadBlockIndex sha (bs_idx (persistIndex sha bs)) = Some bi"
    using decode_encode_index [of "mapToIndex (bs_index bs)" sha "int (bs_nBytes bs)" "bs_recordsWritten bs" "bs_staleRecords bs" "[]"]
      mapToIndex_ok(1) [OF m] assms(3,4) by (simp add: persistIndex_def loadBlockIndex_def store_fits_def)
  have "length (bs_disk bs) = 8 + length (log_bytes sha l)" "bs_nBytes bs = 8 + length (log_bytes sha l)"
    "map_of (bs_index bs) = map_of (log_index sha 8 l [])"
    using assms(1,2) by (auto simp: store_ok_def)
  then show ?thesis by (intro idx_okI [OF load, of l l "[]" "bs_index bs"]) (simp_all add: bi_def m)
qed

lemma persist_ok:
  assumes "store_ok sha l bs" "bs_pend bs = []" "store_fits bs" "\<And>x. length (sha x) = 32"
  shows "store_ok sha l (persistIndex sha bs)"
  using persist_idx_ok [OF assms] assms(1) by (simp add: store_ok_def persistIndex_def)

lemma flush_ok:
  assumes "store_ok sha l bs" "store_fits bs" "\<And>x. length (sha x) = 32"
  shows "store_ok sha l (store_flush sha bs)"
  unfolding store_flush_def
  by (rule persist_ok [OF flush_writer_ok [OF assms(1)] _ _ assms(3)]) (use assms(2) in \<open>simp_all add: flush_writer_def store_fits_def\<close>)

section \<open>Reopening, also after a crash\<close>

lemma mset_map_filter: "mset (List.map_filter f xs) = image_mset (\<lambda>x. the (f x)) (filter_mset (\<lambda>x. f x \<noteq> None) (mset xs))"
  by (simp add: List.map_filter_def comp_def)

lemma same_keys_sorted:
  assumes "distinct (map fst m)" "distinct (map fst m')" "map_of m = map_of m'"
  shows "sorted_ids m = sorted_ids m'"
proof -
  have "set (map fst m) = set (map fst m')" using assms(3) by (metis dom_map_of_conv_image_fst list.set_map)
  then have "mset (map fst m) = mset (map fst m')" using assms(1,2) set_eq_iff_mset_eq_distinct by blast
  then have "mset (List.map_filter parseUintID (map fst m)) = mset (List.map_filter parseUintID (map fst m'))"
    by (simp only: mset_map_filter)
  then show ?thesis unfolding sorted_ids_def by (metis properties_for_sort mset_sort sorted_sort)
qed

lemma mapToIndex_ids:
  assumes "map_ok m"
  shows "map ie_id (mapToIndex m) = sorted_ids m"
proof -
  have "map ie_id (List.map_filter entry_of m) = List.map_filter parseUintID (map fst m)"
    by (induction m) (auto simp: map_filter_simps entry_of_def split: option.splits)
  moreover have "mset (map ie_id (mapToIndex m)) = mset (map ie_id (List.map_filter entry_of m))"
    by (simp add: mapToIndex_def)
  ultimately show ?thesis unfolding sorted_ids_def using mapToIndex_ok(3) [OF assms]
    by (metis properties_for_sort)
qed

lemma isAscending_sorted: "isAscending xs = sorted xs"
  by (induction xs rule: isAscending.induct) (auto intro: order_trans)

lemma indexToMap_distinct: "distinct (map fst (indexToMap es))"
proof -
  have "distinct (map fst (foldl (\<lambda>m e. AList.update (uintToString (ie_id e)) (ref_of_entry e) m) m es))"
    if "distinct (map fst m)" for m
    using that by (induction es arbitrary: m) (simp_all add: distinct_update)
  then show ?thesis by (simp add: indexToMap_def)
qed

lemma scan_open_ok:
  assumes sha: "\<And>x. 8 \<le> length (sha x)" and l: "\<forall>r \<in> set (l1 @ l2). entry_fits r"
    and disk: "disk = take n (blockStoreMagic @ log_bytes sha (l1 @ l2))" and n: "8 + length (log_bytes sha l1) \<le> n"
    and m: "distinct (map fst m)" "map_of m = map_of (log_index sha 8 l1 [])"
    and idx: "idx_ok sha l1 (blockStoreMagic @ log_bytes sha l1) idx"
  shows "\<exists>l'. prefix l' (l1 @ l2) \<and> store_ok sha l' (scan_open sha disk idx (8 + length (log_bytes sha l1)) m) \<and>
    bs_pend (scan_open sha disk idx (8 + length (log_bytes sha l1)) m) = [] \<and>
    (\<forall>l''. prefix l'' (l1 @ l2) \<longrightarrow> 8 + length (log_bytes sha l'') \<le> n \<longrightarrow> prefix l'' l')"
proof -
  define start where "start = 8 + length (log_bytes sha l1)"
  have "drop start (blockStoreMagic @ log_bytes sha (l1 @ l2)) = log_bytes sha l2" by (simp add: start_def)
  then have "drop start disk = take (n - start) (log_bytes sha l2)" unfolding disk by (simp only: drop_take)
  moreover have "\<forall>r \<in> set l2. record_ok r" using l by (auto simp: entry_fits_def)
  ultimately obtain l2' where l2': "prefix l2' l2" "length (log_bytes sha l2') \<le> n - start"
    "\<forall>l''. prefix l'' l2 \<longrightarrow> length (log_bytes sha l'') \<le> n - start \<longrightarrow> prefix l'' l2'"
    "rebuild_scan sha start (drop start disk) m = (start + length (log_bytes sha l2'), log_index sha start l2' m)"
    using scan_cut_log [of sha l2 "n - start" start m] sha by auto
  obtain rest where rest: "l2 = l2' @ rest" using l2'(1) by (auto simp: prefix_def)
  have cut: "take (start + length (log_bytes sha l2')) disk = blockStoreMagic @ log_bytes sha (l1 @ l2')"
    using l2'(2) n by (simp add: disk rest start_def min_absorb1)
  have open': "scan_open sha disk idx start m = fresh_store (blockStoreMagic @ log_bytes sha (l1 @ l2'))
      (start + length (log_bytes sha l2')) (log_index sha start l2' m) idx"
    by (simp add: scan_open_def l2'(4) cut)
  have "map_of (log_index sha start l2' m) = map_of (log_index sha 8 (l1 @ l2') [])"
    using log_index_cong [OF m(2)] by (simp add: log_index_append start_def)
  moreover have "idx_ok sha (l1 @ l2') (blockStoreMagic @ log_bytes sha (l1 @ l2')) idx" by (rule idx_ok_grows [OF idx]) simp
  ultimately have "store_ok sha (l1 @ l2') (scan_open sha disk idx start m)"
    unfolding open' using l log_index_distinct [OF m(1)] by (auto simp: store_ok_def fresh_store_def rest start_def)
  moreover have "prefix l'' (l1 @ l2')" if p: "prefix l'' (l1 @ l2)" "8 + length (log_bytes sha l'') \<le> n" for l''
  proof (cases "prefix l'' l1")
    case False
    then obtain l3 where l3: "l'' = l1 @ l3" "prefix l3 l2" using p(1) by (auto simp: prefix_append)
    then have "length (log_bytes sha l3) \<le> n - start" using p(2) by (simp add: start_def)
    with l2'(3) l3 show ?thesis by simp
  qed (simp add: prefix_order.trans [of _ l1])
  ultimately show ?thesis unfolding start_def [symmetric] using l2'(1)
    unfolding open' by (intro exI [of _ "l1 @ l2'"]) (auto simp: fresh_store_def)
qed

lemma reopen_ok:
  assumes sha: "\<And>x. 8 \<le> length (sha x)" and ok: "store_ok sha l bs" and n: "length (bs_disk bs) \<le> n"
  shows "\<exists>bs' l'. openBlockStore sha (take n (bs_disk bs @ bs_pend bs)) (bs_idx bs) = Some bs' \<and>
    prefix l' l \<and> store_ok sha l' bs' \<and> bs_pend bs' = [] \<and>
    (\<forall>l''. prefix l'' l \<longrightarrow> 8 + length (log_bytes sha l'') \<le> n \<longrightarrow> prefix l'' l')"
proof -
  define disk where "disk = take n (bs_disk bs @ bs_pend bs)"
  have l: "\<forall>r \<in> set l. entry_fits r" and bytes: "bs_disk bs @ bs_pend bs = blockStoreMagic @ log_bytes sha l"
    and n8: "8 \<le> n" and idx: "idx_ok sha l (bs_disk bs) (bs_idx bs)"
    using ok n by (auto simp: store_ok_def)
  have d: "8 \<le> length disk" "take 8 disk = blockStoreMagic"
    using n8 by (simp_all add: disk_def bytes min_absorb1)
  have short: "length (bs_disk bs) \<le> length disk" using n by (simp add: disk_def)
  show ?thesis
  proof (cases "loadBlockIndex sha (bs_idx bs)")
    case None
    then have "openBlockStore sha disk (bs_idx bs) = Some (scan_open sha disk (bs_idx bs) 8 [])"
      using d by (simp add: openBlockStore_def)
    then show ?thesis
      using scan_open_ok [of sha "[]" l disk n "[]" "bs_idx bs"] sha l n8 None by (auto simp: disk_def bytes idx_ok_def)
  next
    case (Some bi)
    from idx_okE [OF idx Some] obtain l1 l2 m where s: "l = l1 @ l2" "map_ok m" "bi_entries bi = mapToIndex m"
      "bi_covered bi = int (8 + length (log_bytes sha l1))" "8 + length (log_bytes sha l1) \<le> length (bs_disk bs)"
      "map_of m = map_of (log_index sha 8 l1 [])" by blast
    define start where "start = 8 + length (log_bytes sha l1)"
    have start: "start \<le> length disk" "start \<le> n" using s(4,5) short n by (simp_all add: start_def)
    have im: "map_of (indexToMap (bi_entries bi)) = map_of (log_index sha 8 l1 [])"
      using indexToMap_mapToIndex [OF s(2)] s(3,6) by simp
    have idx1: "idx_ok sha l1 (blockStoreMagic @ log_bytes sha l1) (bs_idx bs)"
      by (rule idx_okI [OF Some, of l1 l1 "[]" m]) (use s in simp_all)
    define counted where "counted b = b\<lparr>bs_recordsWritten := bi_records bi, bs_staleRecords := bi_stale bi\<rparr>" for b :: block_store
    have counted: "store_ok sha l' (counted b) = store_ok sha l' b" "bs_pend (counted b) = bs_pend b" for l' b
      by (simp_all add: store_ok_def counted_def)
    show ?thesis
    proof (cases "start = length disk")
      case True
      have cut: "disk = blockStoreMagic @ log_bytes sha l1"
        using True by (metis (no_types) append.assoc append_eq_conv_conj bytes disk_def length_append log_bytes_simps(3) magic_length s(1) start_def take_take min.idem length_take)
      define ids where "ids = map ie_id (bi_entries bi)"
      have ids: "ids = sorted_ids (indexToMap (bi_entries bi))" "isAscending ids"
        using mapToIndex_ids [OF s(2)] same_keys_sorted [OF indexToMap_distinct, of m "mapToIndex m"] s(2)
          indexToMap_mapToIndex [OF s(2)] mapToIndex_ok(3) [OF s(2)]
        by (simp_all add: ids_def s(3) map_ok_def isAscending_sorted)
      define b where "b = (fresh_store disk (length disk) (indexToMap (bi_entries bi)) (bs_idx bs))\<lparr>bs_sortedIDs := Some ids\<rparr>"
      have "openBlockStore sha disk (bs_idx bs) = Some (counted b)"
        using d True ids(2) by (simp add: openBlockStore_def Some s(4) start_def counted_def b_def ids_def Let_def)
      moreover have "store_ok sha l1 b"
        using l s(1) im idx1 indexToMap_distinct ids(1) by (simp add: store_ok_def b_def fresh_store_def cut)
      moreover have "prefix l'' l1" if p: "prefix l'' l" "8 + length (log_bytes sha l'') \<le> n" for l''
      proof (cases "prefix l'' l1")
        case False
        then obtain l3 where l3: "l'' = l1 @ l3" "prefix l3 l2" using p(1) unfolding s(1) prefix_append by blast
        then obtain l4 where l4: "l2 = l3 @ l4" by (auto simp: prefix_def)
        have "8 + length (log_bytes sha l'') \<le> length disk" using p(2) by (simp add: disk_def bytes l3 l4 s(1))
        moreover have "length (log_bytes sha l'') = length (log_bytes sha l1) + length (log_bytes sha l3)" by (simp add: l3)
        ultimately have "length (log_bytes sha l3) = 0" using True unfolding start_def by linarith
        then have "log_bytes sha l3 = []" by simp
        moreover have "rec_bytes sha r \<noteq> []" for r by (simp add: rec_bytes_def block_record_def buildBlockRecordHead_def)
        ultimately have "l3 = []" by (cases l3) auto
        with l3 show ?thesis by simp
      qed
      moreover have "bs_pend (counted b) = []" by (simp add: counted b_def fresh_store_def)
      ultimately show ?thesis unfolding disk_def [symmetric]
        by (intro exI [of _ "counted b"] exI [of _ l1]) (simp add: s(1) counted)
    next
      case False
      then have "openBlockStore sha disk (bs_idx bs) = Some (counted (scan_open sha disk (bs_idx bs) start (indexToMap (bi_entries bi))))"
        using d start by (simp add: openBlockStore_def Some s(4) start_def counted_def Let_def nat_add_distrib)
      moreover from scan_open_ok [of sha l1 l2 disk n "indexToMap (bi_entries bi)" "bs_idx bs"] sha l start(2) im idx1 indexToMap_distinct
      obtain l' where "prefix l' (l1 @ l2)" "store_ok sha l' (scan_open sha disk (bs_idx bs) start (indexToMap (bi_entries bi)))"
        "bs_pend (scan_open sha disk (bs_idx bs) start (indexToMap (bi_entries bi))) = []"
        "\<forall>l''. prefix l'' (l1 @ l2) \<longrightarrow> 8 + length (log_bytes sha l'') \<le> n \<longrightarrow> prefix l'' l'"
        by (auto simp: start_def disk_def bytes s(1))
      ultimately show ?thesis unfolding disk_def [symmetric] s(1) by (auto simp: counted)
    qed
  qed
qed

end
