(* ===== verification/BlockRuns.thy ===== *)
theory BlockRuns
  imports BlockStore
begin

text \<open>
  The sidecar over its whole life: pruning and compaction keep the invariant, any run of
  operations implements a map from ids to payloads, a crash keeps the records that reached the
  file, a damaged record costs all later ones, and paging from the end covers every block.
\<close>

section \<open>Pruning\<close>

lemma show_nat_length: "n < 10 ^ Suc k \<Longrightarrow> length (show_nat n) \<le> Suc k"
proof (induction n arbitrary: k rule: show_nat.induct)
  case (1 n)
  show ?case
  proof (cases "n < 10")
    case False
    then obtain k' where k: "k = Suc k'" using 1(2) by (cases k) auto
    have "n div 10 < 10 ^ Suc k'" using 1(2) by (simp add: k less_mult_imp_div_less)
    with 1(1) [OF False] False show ?thesis by (subst show_nat.simps) (simp add: k)
  qed (subst show_nat.simps, simp)
qed

lemma uintToString_length: "v < 2 ^ 64 \<Longrightarrow> length (uintToString v) < 2 ^ 32"
proof -
  assume "v < 2 ^ 64"
  then have "v < 10 ^ Suc 19" by simp
  from show_nat_length [OF this] show ?thesis by (simp add: uintToString_def)
qed

lemma put_fits: "v < 2 ^ 64 \<Longrightarrow> i = uintToString v \<Longrightarrow> length p < 2 ^ 31 \<Longrightarrow> entry_fits (k, i, p)"
  using uintToString_length [of v] by (auto simp: entry_fits_def record_ok_def)

lemma index_id:
  assumes "store_ok sha l bs" "i \<in> set (map fst (bs_index bs))"
  obtains v r p where "v < 2 ^ 64" "i = uintToString v" "map_of (bs_index bs) i = Some r" "log_contents l i = Some p"
    "ref_ok sha (bs_disk bs @ bs_pend bs) i r p"
proof -
  obtain r where r: "map_of (bs_index bs) i = Some r" using assms(2) by (metis map_of_eq_None_iff not_None_eq list.set_map)
  show thesis
    by (rule points_cases [OF store_points [OF assms(1)], of i]) (use that r in \<open>auto simp: ref_ok_def\<close>)
qed

lemma deletes_ok:
  assumes "store_ok sha l bs" "\<forall>i \<in> set ids. \<exists>v < 2 ^ 64. i = uintToString v"
  shows "store_ok sha (l @ map (\<lambda>i. (blockRecDel, i, [])) ids) (fold (store_delete sha) ids bs)"
  using assms
proof (induction ids arbitrary: l bs)
  case (Cons i ids)
  obtain v where "v < 2 ^ 64" "i = uintToString v" using Cons.prems(2) by auto
  then have "entry_fits (blockRecDel, i, [])" by (intro put_fits) simp_all
  from append_ok [OF Cons.prems(1) this] have "store_ok sha (l @ [(blockRecDel, i, [])]) (store_delete sha i bs)"
    by (simp add: store_delete_def)
  from Cons.IH [OF this] Cons.prems(2) show ?case by simp
qed simp

lemma deletes_contents: "fold apply_spec (map (\<lambda>i. (blockRecDel, i, [])) ids) c = c |` (- set ids)"
proof (induction ids arbitrary: c)
  case (Cons i ids)
  have "apply_spec (blockRecDel, i, []) c = c(i := None)" by (simp add: apply_spec_def blockRecPut_def blockRecDel_def)
  then show ?case using Cons by (auto simp: restrict_map_def)
qed (simp add: restrict_map_def)

lemma contents_keys:
  assumes "store_ok sha l bs"
  shows "dom (log_contents l) = set (map fst (bs_index bs))"
proof -
  have "log_contents l i = None \<longleftrightarrow> map_of (bs_index bs) i = None" for i
    by (rule points_cases [OF store_points [OF assms], of i]) auto
  then have "dom (log_contents l) = dom (map_of (bs_index bs))" by (simp add: dom_def)
  then show ?thesis by (simp add: dom_map_of_conv_image_fst)
qed

lemma prune_ok:
  assumes "store_ok sha l bs"
  shows "\<exists>l'. store_ok sha (l @ l') (pruneTo sha keep bs) \<and>
    log_contents (l @ l') = (if card (dom (log_contents l)) \<le> card (set keep) then log_contents l else log_contents l |` set keep)"
proof -
  have "distinct (map fst (bs_index bs))" using assms by (simp add: store_ok_def)
  then have n: "length (bs_index bs) = card (dom (log_contents l))"
    unfolding contents_keys [OF assms] by (metis distinct_card length_map)
  have k: "length (remdups keep) = card (set keep)" by (simp add: length_remdups_card_conv)
  show ?thesis
  proof (cases "card (dom (log_contents l)) \<le> card (set keep)")
    case True
    with assms show ?thesis by (intro exI [of _ "[]"]) (simp add: pruneTo_def n k)
  next
    case False
    define ids where "ids = filter (\<lambda>i. i \<notin> set keep) (map fst (bs_index bs))"
    have canon: "\<forall>i \<in> set ids. \<exists>v < 2 ^ 64. i = uintToString v"
    proof
      fix i assume "i \<in> set ids"
      then have "i \<in> set (map fst (bs_index bs))" by (simp only: ids_def set_filter) blast
      from index_id [OF assms this] show "\<exists>v < 2 ^ 64. i = uintToString v" by metis
    qed
    have "log_contents (l @ map (\<lambda>i. (blockRecDel, i, [])) ids) = log_contents l |` (- set ids)"
      by (simp add: log_contents_def deletes_contents)
    also have "\<dots> = log_contents l |` set keep"
    proof
      fix i
      have "log_contents l i = None" if "i \<notin> set (map fst (bs_index bs))" using contents_keys [OF assms] that by auto
      then show "(log_contents l |` (- set ids)) i = (log_contents l |` set keep) i"
        by (auto simp: restrict_map_def ids_def)
    qed
    finally show ?thesis using deletes_ok [OF assms canon] False
      by (intro exI [of _ "map (\<lambda>i. (blockRecDel, i, [])) ids"]) (simp add: pruneTo_def n k ids_def)
  qed
qed

section \<open>Compaction\<close>

lemma log_contents_fits:
  assumes "\<forall>r \<in> set l. entry_fits r" "log_contents l i = Some p"
  shows "length p < 2 ^ 31"
proof -
  have "\<forall>r \<in> set l. entry_fits r \<Longrightarrow> \<forall>j q. c j = Some q \<longrightarrow> length q < 2 ^ 31 \<Longrightarrow> fold apply_spec l c i = Some p \<Longrightarrow> length p < 2 ^ 31" for c
  proof (induction l arbitrary: c)
    case (Cons r l)
    have "\<forall>j q. apply_spec r c j = Some q \<longrightarrow> length q < 2 ^ 31"
      using Cons.prems(1,2) by (auto simp: apply_spec_def entry_fits_def split: prod.splits)
    with Cons show ?case by simp
  qed simp
  from this [of Map.empty] assms show ?thesis by (simp add: log_contents_def)
qed

definition kept_log :: "(string \<rightharpoonup> string) \<Rightarrow> nat list \<Rightarrow> block_log" where
  "kept_log c vs = map (\<lambda>v. (blockRecPut, uintToString v, the (c (uintToString v)))) vs"

lemma compact_blocks_log:
  assumes "\<forall>v \<in> set vs. \<exists>r p. map_of (bs_index bs) (uintToString v) = Some r \<and> c (uintToString v) = Some p \<and>
      ref_ok sha (bs_disk bs) (uintToString v) r p"
  shows "compact_blocks sha bs vs (out, m) =
    Some (out @ log_bytes sha (kept_log c vs), log_index sha (length out) (kept_log c vs) m)"
  using assms
proof (induction vs arbitrary: out m)
  case (Cons v vs)
  then obtain r p where v: "map_of (bs_index bs) (uintToString v) = Some r" "c (uintToString v) = Some p"
    "ref_ok sha (bs_disk bs) (uintToString v) r p" by auto
  define m' where "m' = apply_record sha (length out) blockRecPut (uintToString v) p m"
  have "compact_step sha bs v (out, m) = Some (out @ rec_bytes sha (blockRecPut, uintToString v, p), m')"
    using v by (simp add: compact_step_def ref_ok_def Let_def rec_bytes_def block_record_def m'_def apply_record_def)
  with Cons.IH [of "out @ rec_bytes sha (blockRecPut, uintToString v, p)" m'] Cons.prems v(2) show ?case
    by (simp add: kept_log_def m'_def)
qed (simp add: kept_log_def)

lemma kept_log_contents:
  assumes "distinct vs" "\<forall>v \<in> set vs. v < 2 ^ 64 \<and> c (uintToString v) \<noteq> None" "dom c \<subseteq> uintToString ` set vs"
  shows "log_contents (kept_log c vs) = c"
proof
  fix i
  have *: "fold apply_spec (kept_log c ws) d i = (if i \<in> uintToString ` set ws then c i else d i)"
    if "set ws \<subseteq> set vs" for ws d
    using that
  proof (induction ws arbitrary: d)
    case (Cons w ws)
    then have "c (uintToString w) \<noteq> None" using assms(2) by auto
    with Cons show ?case by (auto simp: kept_log_def apply_spec_def)
  qed (simp add: kept_log_def)
  show "log_contents (kept_log c vs) i = c i"
  proof (cases "i \<in> uintToString ` set vs")
    case False
    then have "c i = None" using assms(3) by blast
    with * [of vs Map.empty] False show ?thesis by (simp add: log_contents_def)
  next
    case True
    then show ?thesis using * [of vs Map.empty] by (simp add: log_contents_def)
  qed
qed

lemma sorted_ids_keys:
  assumes "store_ok sha l bs"
  shows "distinct (sorted_ids (bs_index bs))" "sorted (sorted_ids (bs_index bs))"
    "v \<in> set (sorted_ids (bs_index bs)) \<longleftrightarrow> v < 2 ^ 64 \<and> uintToString v \<in> set (map fst (bs_index bs))"
proof -
  define ks where "ks = map fst (bs_index bs)"
  have canon: "\<exists>v < 2 ^ 64. i = uintToString v" if "i \<in> set ks" for i
    using index_id [OF assms] that unfolding ks_def by metis
  have d: "distinct ks" using assms by (simp add: store_ok_def ks_def)
  have mf: "distinct ks' \<Longrightarrow> set ks' \<subseteq> set ks \<Longrightarrow> distinct (List.map_filter parseUintID ks') \<and>
      (\<forall>v. v \<in> set (List.map_filter parseUintID ks') \<longleftrightarrow> v < 2 ^ 64 \<and> uintToString v \<in> set ks')" for ks'
  proof (induction ks')
    case (Cons k ks')
    then obtain w where w: "w < 2 ^ 64" "k = uintToString w" using canon by auto
    then have "parseUintID k = Some w" by (simp add: parse_uintToString)
    moreover have "v = w" if "v < 2 ^ 64" "uintToString v = k" for v using that w uintToString_inj [of v w] by simp
    moreover have "distinct ks'" "set ks' \<subseteq> set ks" "k \<notin> set ks'" using Cons.prems by auto
    ultimately show ?case using Cons.IH w by (simp add: map_filter_simps) blast
  qed (simp add: map_filter_simps)
  from mf [OF d] show "distinct (sorted_ids (bs_index bs))" "sorted (sorted_ids (bs_index bs))"
    "v \<in> set (sorted_ids (bs_index bs)) \<longleftrightarrow> v < 2 ^ 64 \<and> uintToString v \<in> set (map fst (bs_index bs))"
    by (simp_all add: sorted_ids_def ks_def)
qed

lemma sortedIDsLocked_ok:
  assumes "store_ok sha l bs" "sortedIDsLocked bs = (ids, bs')"
  shows "ids = sorted_ids (bs_index bs)" "store_ok sha l bs'" "bs_index bs' = bs_index bs" "bs_disk bs' = bs_disk bs" "bs_pend bs' = bs_pend bs"
  using assms by (auto simp: sortedIDsLocked_def store_ok_def allIDs_def sorted_ids_def Let_def split: option.splits bool.splits)

text \<open>Compaction succeeds, its file is the log of the live blocks in the order of their ids, and it
  keeps the contents.\<close>

lemma compact_ok:
  assumes ok: "store_ok sha l bs" and fits: "store_fits (store_compact sha bs)" and sha: "\<And>x. length (sha x) = 32"
  shows "store_ok sha (kept_log (log_contents l) (sorted_ids (bs_index bs))) (store_compact sha bs)"
    "log_contents (kept_log (log_contents l) (sorted_ids (bs_index bs))) = log_contents l"
    "bs_pend (store_compact sha bs) = []"
proof -
  define vs where "vs = sorted_ids (bs_index bs)"
  define c where "c = log_contents l"
  define lg where "lg = kept_log c vs"
  obtain ids bs1 where s: "sortedIDsLocked bs = (ids, bs1)" by force
  note s' = sortedIDsLocked_ok [OF ok s]
  define bs2 where "bs2 = flush_writer bs1"
  have ok2: "store_ok sha l bs2" and i2: "bs_index bs2 = bs_index bs" and p2: "bs_pend bs2 = []"
    using flush_writer_ok [OF s'(2)] s'(3) by (simp_all add: bs2_def flush_writer_def)
  note keys = sorted_ids_keys [OF ok2, unfolded i2]
  have live: "\<exists>r p. map_of (bs_index bs2) (uintToString v) = Some r \<and> c (uintToString v) = Some p \<and>
      ref_ok sha (bs_disk bs2) (uintToString v) r p" if v: "v \<in> set vs" for v
  proof -
    have "uintToString v \<in> set (map fst (bs_index bs2))" using keys(3) v i2 by (auto simp: vs_def)
    from index_id [OF ok2 this] obtain r p where "map_of (bs_index bs2) (uintToString v) = Some r"
      "log_contents l (uintToString v) = Some p" "ref_ok sha (bs_disk bs2 @ bs_pend bs2) (uintToString v) r p" by blast
    then show ?thesis by (simp add: p2 c_def)
  qed
  have blocks: "compact_blocks sha bs2 vs (blockStoreMagic, []) = Some (blockStoreMagic @ log_bytes sha lg, log_index sha 8 lg [])"
    using compact_blocks_log [of vs bs2 c sha blockStoreMagic "[]"] live by (simp add: lg_def)
  have contents: "log_contents lg = c" unfolding lg_def
  proof (rule kept_log_contents)
    show "distinct vs" by (simp add: vs_def keys)
    show "\<forall>v \<in> set vs. v < 2 ^ 64 \<and> c (uintToString v) \<noteq> None"
    proof
      fix v assume v: "v \<in> set vs"
      then have "v < 2 ^ 64" using keys(3) unfolding vs_def by blast
      moreover obtain p where "c (uintToString v) = Some p" using live [OF v] by blast
      ultimately show "v < 2 ^ 64 \<and> c (uintToString v) \<noteq> None" by simp
    qed
    show "dom c \<subseteq> uintToString ` set vs"
    proof
      fix i assume "i \<in> dom c"
      then have i: "i \<in> set (map fst (bs_index bs))" using contents_keys [OF ok] by (simp add: c_def)
      from index_id [OF ok i] obtain v where v: "v < 2 ^ 64" "i = uintToString v" by blast
      with i keys(3) [of v] have "v \<in> set vs" unfolding vs_def by blast
      with v(2) show "i \<in> uintToString ` set vs" by blast
    qed
  qed
  have lfits: "\<forall>r \<in> set lg. entry_fits r"
  proof
    fix r assume "r \<in> set lg"
    then obtain v where v: "v \<in> set vs" "r = (blockRecPut, uintToString v, the (c (uintToString v)))" by (auto simp: lg_def kept_log_def)
    from live [OF v(1)] obtain p where p: "c (uintToString v) = Some p" by blast
    have "length p < 2 ^ 31" by (rule log_contents_fits [of l "uintToString v"]) (use ok p in \<open>simp_all add: store_ok_def c_def\<close>)
    moreover have "v < 2 ^ 64" using v(1) keys(3) unfolding vs_def by blast
    ultimately show "entry_fits r" unfolding v(2) p option.sel by (intro put_fits) simp_all
  qed
  define b where "b = bs2\<lparr>bs_disk := blockStoreMagic @ log_bytes sha lg, bs_index := log_index sha 8 lg [],
    bs_nBytes := length (blockStoreMagic @ log_bytes sha lg), bs_recordsWritten := int (length (log_index sha 8 lg [])),
    bs_staleRecords := 0, bs_bytesWritten := int (length (blockStoreMagic @ log_bytes sha lg)), bs_sortedDirty := True\<rparr>"
  have rep: "compact_replace sha bs = Some b"
    using blocks by (simp add: compact_replace_def s s'(1) Let_def bs2_def vs_def b_def)
  have okb: "store_ok sha lg (b\<lparr>bs_idx := None\<rparr>)"
    using lfits p2 log_index_distinct [of "[]"] by (simp add: store_ok_def b_def idx_ok_def loadBlockIndex_def)
  have comp: "store_compact sha bs = persistIndex sha (b\<lparr>bs_idx := None\<rparr>)"
    by (simp add: store_compact_def rep persistIndex_def)
  have "store_fits (b\<lparr>bs_idx := None\<rparr>)" using fits by (simp add: comp store_fits_def persistIndex_def)
  from persist_ok [OF okb _ this sha] p2 have "store_ok sha lg (store_compact sha bs)" by (simp add: comp b_def)
  then show "store_ok sha (kept_log (log_contents l) (sorted_ids (bs_index bs))) (store_compact sha bs)"
    by (simp add: lg_def c_def vs_def)
  show "log_contents (kept_log (log_contents l) (sorted_ids (bs_index bs))) = log_contents l"
    using contents by (simp add: lg_def c_def vs_def)
  show "bs_pend (store_compact sha bs) = []" using p2 by (simp add: comp persistIndex_def b_def)
qed

section \<open>Runs of a store\<close>

datatype store_op = OpPut string string | OpPrune "string list" | OpFlush | OpCompact | OpReopen

text \<open>\<open>OpReopen\<close> is \<open>Close\<close>, which flushes, followed by \<open>openBlockStore\<close>.\<close>

definition store_reopen :: "(string \<Rightarrow> string) \<Rightarrow> block_store \<Rightarrow> block_store" where
  "store_reopen sha bs =
     (let b = store_flush sha bs in case openBlockStore sha (bs_disk b) (bs_idx b) of Some b' \<Rightarrow> b' | None \<Rightarrow> b)"

primrec store_step :: "(string \<Rightarrow> string) \<Rightarrow> store_op \<Rightarrow> block_store \<Rightarrow> block_store" where
  "store_step sha (OpPut i p) bs = store_put sha i p bs"
| "store_step sha (OpPrune keep) bs = pruneTo sha keep bs"
| "store_step sha OpFlush bs = store_flush sha bs"
| "store_step sha OpCompact bs = store_compact sha bs"
| "store_step sha OpReopen bs = store_reopen sha bs"

definition op_ok :: "store_op \<Rightarrow> bool" where
  "op_ok op \<longleftrightarrow> (case op of OpPut i p \<Rightarrow> (\<exists>v < 2 ^ 64. i = uintToString v) \<and> length p < 2 ^ 31 | _ \<Rightarrow> True)"

text \<open>The abstract store is a finite map from ids to payloads.\<close>

primrec spec_step :: "store_op \<Rightarrow> (string \<rightharpoonup> string) \<Rightarrow> (string \<rightharpoonup> string)" where
  "spec_step (OpPut i p) c = c(i \<mapsto> p)"
| "spec_step (OpPrune keep) c = (if card (dom c) \<le> card (set keep) then c else c |` set keep)"
| "spec_step OpFlush c = c"
| "spec_step OpCompact c = c"
| "spec_step OpReopen c = c"

inductive store_runs :: "(string \<Rightarrow> string) \<Rightarrow> store_op list \<Rightarrow> block_store \<Rightarrow> bool" for sha where
  opened: "openBlockStore sha [] None = Some bs \<Longrightarrow> store_runs sha [] bs"
| step: "store_runs sha ops bs \<Longrightarrow> op_ok op \<Longrightarrow> store_fits bs \<Longrightarrow> store_fits (store_step sha op bs) \<Longrightarrow>
    store_runs sha (ops @ [op]) (store_step sha op bs)"

lemma reopened_ok:
  assumes "store_ok sha l bs" "store_fits bs" "\<And>x. length (sha x) = 32"
  shows "store_ok sha l (store_reopen sha bs) \<and> bs_pend (store_reopen sha bs) = []"
proof -
  define b where "b = store_flush sha bs"
  have b: "store_ok sha l b" "bs_pend b = []"
    using flush_ok [OF assms] by (simp_all add: b_def store_flush_def persistIndex_def flush_writer_def)
  from reopen_ok [of sha l b "length (bs_disk b)"] assms(3) b
  obtain b' l' where b': "openBlockStore sha (bs_disk b) (bs_idx b) = Some b'" "prefix l' l" "store_ok sha l' b'" "bs_pend b' = []"
    "\<forall>l''. prefix l'' l \<longrightarrow> 8 + length (log_bytes sha l'') \<le> length (bs_disk b) \<longrightarrow> prefix l'' l'" by auto
  have "length (bs_disk b) = 8 + length (log_bytes sha l)" using b by (simp add: store_ok_def)
  with b'(5) have "prefix l l'" by simp
  with b'(2) have "l' = l" by (simp add: prefix_order.antisym)
  with b' show ?thesis by (simp add: store_reopen_def b_def)
qed

lemma step_ok:
  assumes "store_ok sha l bs" "op_ok op" "store_fits bs" "store_fits (store_step sha op bs)" "\<And>x. length (sha x) = 32"
  shows "\<exists>l'. store_ok sha l' (store_step sha op bs) \<and> log_contents l' = spec_step op (log_contents l)"
proof (cases op)
  case (OpPut i p)
  then have "entry_fits (blockRecPut, i, p)" using assms(2) by (auto simp: op_ok_def intro: put_fits)
  from append_ok [OF assms(1) this] OpPut show ?thesis
    by (intro exI [of _ "l @ [(blockRecPut, i, p)]"]) (simp add: store_put_def log_contents_def apply_spec_def)
next
  case (OpPrune keep)
  with prune_ok [OF assms(1), of keep] show ?thesis by auto
next
  case OpFlush
  with flush_ok [OF assms(1,3,5)] show ?thesis by auto
next
  case OpCompact
  with compact_ok(1,2) [OF assms(1) _ assms(5)] assms(4) show ?thesis by auto
next
  case OpReopen
  with reopened_ok [OF assms(1,3,5)] show ?thesis by auto
qed

lemma runs_ok:
  assumes "store_runs sha ops bs" and sha: "\<And>x. length (sha x) = 32"
  shows "\<exists>l. store_ok sha l bs \<and> log_contents l = foldl (\<lambda>c op. spec_step op c) Map.empty ops"
  using assms(1)
proof (induction rule: store_runs.induct)
  case (opened bs)
  then show ?case
    by (intro exI [of _ "[]"]) (auto simp: openBlockStore_def store_ok_def fresh_store_def idx_ok_def loadBlockIndex_def log_contents_def blockStoreMagic_def)
next
  case (step ops bs op)
  then obtain l where "store_ok sha l bs" "log_contents l = foldl (\<lambda>c op. spec_step op c) Map.empty ops" by auto
  with step_ok [OF this(1) step.hyps(2-4) sha] show ?case by simp
qed

text \<open>C27. The sidecar implements a map from block ids to payloads: whatever sequence of writes,
  prunings, flushes, compactions and reopenings has happened, reading a block gives exactly what
  the same sequence leaves in the map.\<close>

theorem sidecar_implements_map:
  assumes "store_runs sha ops bs" "\<And>x. length (sha x) = 32"
  shows "store_contents sha bs = foldl (\<lambda>c op. spec_step op c) Map.empty ops"
  using runs_ok [OF assms] store_contents_log by auto

lemma open_length: "openBlockStore sha disk idx = Some bs \<Longrightarrow> length (bs_disk bs) \<le> max 8 (length disk)"
  by (auto simp: openBlockStore_def scan_open_def fresh_store_def Let_def split: if_splits option.splits prod.splits)

lemma cut_ok:
  assumes ok: "store_ok sha l bs" and n: "8 \<le> n" "idx_ok sha l (take n (bs_disk bs @ bs_pend bs)) idx"
  shows "store_ok sha l (bs\<lparr>bs_disk := take n (bs_disk bs @ bs_pend bs), bs_pend := drop n (bs_disk bs @ bs_pend bs), bs_idx := idx\<rparr>)"
  using assms by (auto simp: store_ok_def)

lemma reopen_cut:
  assumes sha: "\<And>x. 8 \<le> length (sha x)" and ok: "store_ok sha l bs" and n: "8 \<le> n"
    and idx: "idx_ok sha l (take n (bs_disk bs @ bs_pend bs)) idx"
  shows "\<exists>bs' l'. openBlockStore sha (take n (bs_disk bs @ bs_pend bs)) idx = Some bs' \<and>
    prefix l' l \<and> store_ok sha l' bs' \<and> bs_pend bs' = [] \<and>
    (\<forall>l''. prefix l'' l \<longrightarrow> 8 + length (log_bytes sha l'') \<le> n \<longrightarrow> prefix l'' l')"
proof -
  define b where "b = bs\<lparr>bs_disk := take n (bs_disk bs @ bs_pend bs), bs_pend := drop n (bs_disk bs @ bs_pend bs), bs_idx := idx\<rparr>"
  have b: "bs_disk b @ bs_pend b = bs_disk bs @ bs_pend bs" "bs_idx b = idx" "length (bs_disk b) \<le> n"
    by (simp_all add: b_def del: take_append drop_append)
  show ?thesis using reopen_ok [OF sha cut_ok [OF ok n idx, folded b_def] b(3)] b(1,2) by simp
qed

text \<open>An index file that covers more than what is left of the file counts records and is not read.\<close>

lemma open_short_index:
  assumes "loadBlockIndex sha idx = Some bi" "int (length disk) < bi_covered bi" "8 \<le> length disk"
    and "openBlockStore sha disk None = Some bs"
  shows "openBlockStore sha disk idx = Some (bs\<lparr>bs_idx := idx, bs_recordsWritten := bi_records bi, bs_staleRecords := bi_stale bi\<rparr>)"
  using assms by (auto simp: openBlockStore_def loadBlockIndex_def [of _ None] Let_def scan_open_def fresh_store_def split: if_splits prod.splits)

lemma contents_index [simp]:
  "store_contents sha (bs\<lparr>bs_idx := idx, bs_recordsWritten := a, bs_staleRecords := b\<rparr>) = store_contents sha bs"
  by (simp add: store_contents_def readAndVerify_def flush_writer_def fun_eq_iff)

lemma cut_anywhere:
  assumes sha: "\<And>x. length (sha x) = 32" and ok: "store_ok sha l bs"
  shows "\<exists>bs' l'. openBlockStore sha (take n (bs_disk bs @ bs_pend bs)) (bs_idx bs) = Some bs' \<and>
    prefix l' l \<and> bs_disk bs' @ bs_pend bs' = blockStoreMagic @ log_bytes sha l' \<and> store_contents sha bs' = log_contents l' \<and>
    (\<forall>l''. prefix l'' l \<longrightarrow> 8 + length (log_bytes sha l'') \<le> n \<longrightarrow> prefix l'' l') \<and> 8 + length (log_bytes sha l') \<le> max 8 n"
proof -
  define disk where "disk = take n (bs_disk bs @ bs_pend bs)"
  have sha8: "8 \<le> length (sha x)" for x by (simp add: sha)
  have bytes: "bs_disk bs @ bs_pend bs = blockStoreMagic @ log_bytes sha l" using ok by (simp add: store_ok_def)
  have len: "length disk \<le> n" by (simp add: disk_def)
  show ?thesis
  proof (cases "n < 8")
    case True
    then have "openBlockStore sha disk (bs_idx bs) = Some (fresh_store blockStoreMagic 8 [] (bs_idx bs))"
      using len by (simp add: openBlockStore_def)
    then show ?thesis unfolding disk_def [symmetric] using True
      by (intro exI [of _ "[]"] exI [of _ "fresh_store blockStoreMagic 8 [] (bs_idx bs)"])
        (auto simp: fresh_store_def log_contents_def store_contents_def readAndVerify_def flush_writer_def fun_eq_iff)
  next
    case False
    then have d8: "8 \<le> length disk" by (simp add: disk_def bytes)
    have fin: ?thesis if "openBlockStore sha disk idx = Some bs'" "prefix l' l" "store_ok sha l' bs'" "bs_pend bs' = []"
      "\<forall>l''. prefix l'' l \<longrightarrow> 8 + length (log_bytes sha l'') \<le> n \<longrightarrow> prefix l'' l'"
      "openBlockStore sha disk (bs_idx bs) = Some b" "bs_disk b = bs_disk bs'" "bs_pend b = []"
      "store_contents sha b = store_contents sha bs'" for idx bs' l' b
    proof -
      have "length (bs_disk bs') \<le> n" using open_length [OF that(1)] d8 len by simp
      moreover have e: "bs_disk bs' = blockStoreMagic @ log_bytes sha l'" using that(3,4) by (simp add: store_ok_def)
      ultimately show ?thesis unfolding disk_def [symmetric]
        using that store_contents_log [OF that(3)] sha
        by (intro exI [of _ b] exI [of _ l']) auto
    qed
    show ?thesis
    proof (cases "idx_ok sha l disk (bs_idx bs)")
      case True
      with reopen_cut [OF sha8 ok, of n "bs_idx bs"] False fin show ?thesis by (auto simp: disk_def)
    next
      case bad: False
      from ok obtain bi where bi: "loadBlockIndex sha (bs_idx bs) = Some bi" "int (length disk) < bi_covered bi"
        using bad by (force simp: store_ok_def idx_ok_def split: option.splits)
      have "idx_ok sha l disk None" by (simp add: idx_ok_def loadBlockIndex_def)
      with reopen_cut [OF sha8 ok, of n None] False obtain bs' l' where
        "openBlockStore sha disk None = Some bs'" "prefix l' l" "store_ok sha l' bs'" "bs_pend bs' = []"
        "\<forall>l''. prefix l'' l \<longrightarrow> 8 + length (log_bytes sha l'') \<le> n \<longrightarrow> prefix l'' l'" by (auto simp: disk_def)
      with fin [OF this open_short_index [OF bi d8 this(1)]] show ?thesis by simp
    qed
  qed
qed

text \<open>C28. Wherever the file of a sidecar is cut, opening it gives exactly the records that are complete
  in front of the cut: the file is cut behind the last of them, its contents are the effect of these
  records, in order, and the first \<open>m\<close> records of the log are kept if and only if their bytes lie in front
  of the cut. The file is what was written and what the buffered writer held; a cut inside the magic
  leaves no record.\<close>

theorem crash_keeps_complete_records:
  assumes "store_runs sha ops bs" "\<And>x. length (sha x) = 32"
  shows "\<exists>bs' l j. openBlockStore sha (take n (bs_disk bs @ bs_pend bs)) (bs_idx bs) = Some bs' \<and>
    bs_disk bs @ bs_pend bs = blockStoreMagic @ log_bytes sha l \<and> store_contents sha bs = log_contents l \<and>
    bs_disk bs' @ bs_pend bs' = blockStoreMagic @ log_bytes sha (take j l) \<and> store_contents sha bs' = log_contents (take j l) \<and>
    j \<le> length l \<and> (\<forall>m \<le> length l. m \<le> j \<longleftrightarrow> m = 0 \<or> length (blockStoreMagic @ log_bytes sha (take m l)) \<le> n)"
proof -
  obtain l where l: "store_ok sha l bs" using runs_ok [OF assms] by auto
  from cut_anywhere [OF assms(2) l, of n] obtain bs' l' where bs': "openBlockStore sha (take n (bs_disk bs @ bs_pend bs)) (bs_idx bs) = Some bs'"
    "bs_disk bs' @ bs_pend bs' = blockStoreMagic @ log_bytes sha l'" "store_contents sha bs' = log_contents l'"
    and p: "prefix l' l" and most: "\<And>l''. prefix l'' l \<Longrightarrow> 8 + length (log_bytes sha l'') \<le> n \<Longrightarrow> prefix l'' l'"
    and fit: "8 + length (log_bytes sha l') \<le> max 8 n" by blast
  define j where "j = length l'"
  have j: "l' = take j l" "j \<le> length l" using p by (auto simp: j_def prefix_def)
  have "m \<le> j \<longleftrightarrow> m = 0 \<or> 8 + length (log_bytes sha (take m l)) \<le> n" if m: "m \<le> length l" for m
  proof
    assume "m \<le> j"
    then obtain r where r: "l' = take m l @ r" unfolding j(1) by (metis prefixE take_is_prefix min.absorb1 take_take)
    show "m = 0 \<or> 8 + length (log_bytes sha (take m l)) \<le> n"
    proof (cases "n < 8")
      case True
      with fit have "log_bytes sha l' = []" by simp
      then have "l' = []" by (cases l') (simp_all add: rec_bytes_def block_record_def buildBlockRecordHead_def)
      with \<open>m \<le> j\<close> show ?thesis by (simp add: j_def)
    next
      case False
      then show ?thesis using fit by (simp add: r)
    qed
  next
    assume "m = 0 \<or> 8 + length (log_bytes sha (take m l)) \<le> n"
    then show "m \<le> j" using most [of "take m l"] m prefix_length_le [of "take m l" l'] by (auto simp: j_def take_is_prefix)
  qed
  with bs' j l store_contents_log [OF l] assms(2) show ?thesis
    by (intro exI [of _ bs'] exI [of _ l] exI [of _ j]) (simp add: store_ok_def del: take_append)
qed

definition demo_sha :: "string \<Rightarrow> string" where
  "demo_sha s = replicate 32 (case s of [] \<Rightarrow> CHR ''-'' | c # _ \<Rightarrow> c)"

lemma demo_sha_length: "length (demo_sha x) = 32"
  by (simp add: demo_sha_def)

definition demo_ops :: "store_op list" where
  "demo_ops = [OpPut ''7'' ''old'', OpPut ''7'' ''new'']"

lemma id_seven: "\<exists>v < 2 ^ 64. ''7'' = uintToString v"
proof -
  have "digit 7 = CHR ''7''" by code_simp
  then have "uintToString 7 = ''7''" by (simp add: uintToString_def show_nat.simps)
  moreover have "(7 :: nat) < 2 ^ 64" by simp
  ultimately show ?thesis by metis
qed

definition demo_store0 :: block_store where "demo_store0 = fresh_store blockStoreMagic 8 [] None"
definition demo_store1 :: block_store where "demo_store1 = store_step demo_sha (OpPut ''7'' ''old'') demo_store0"
definition demo_store :: block_store where "demo_store = store_step demo_sha (OpPut ''7'' ''new'') demo_store1"

lemmas demo_store_defs = demo_store_def demo_store1_def demo_store0_def fresh_store_def store_put_def append_record_def
  apply_record_def store_has_def Let_def block_record_def buildBlockRecordHead_def payloadDigest_def demo_sha_def

lemma demo_store_fits: "store_fits demo_store0" "store_fits demo_store1" "store_fits demo_store"
  by (simp_all add: store_fits_def int64_range_def demo_store_defs)

lemma demo_runs: "store_runs demo_sha demo_ops demo_store"
proof -
  have "openBlockStore demo_sha [] None = Some demo_store0"
    by (simp add: openBlockStore_def demo_store0_def)
  then have 0: "store_runs demo_sha [] demo_store0" by (rule store_runs.opened)
  have put: "op_ok (OpPut ''7'' ''old'')" "op_ok (OpPut ''7'' ''new'')" using id_seven by (simp_all add: op_ok_def)
  have 1: "store_runs demo_sha ([] @ [OpPut ''7'' ''old'']) demo_store1" unfolding demo_store1_def
    by (rule store_runs.step [OF 0 put(1) demo_store_fits(1)]) (rule demo_store_fits(2) [unfolded demo_store1_def])
  have "store_runs demo_sha (([] @ [OpPut ''7'' ''old'']) @ [OpPut ''7'' ''new'']) demo_store" unfolding demo_store_def
    by (rule store_runs.step [OF 1 put(2) demo_store_fits(2)]) (rule demo_store_fits(3) [unfolded demo_store_def])
  then show ?thesis by (simp add: demo_ops_def)
qed

theorem sidecar_implements_map_witness: "store_contents demo_sha demo_store = [''7'' \<mapsto> ''new'']"
  using sidecar_implements_map [OF demo_runs demo_sha_length] by (simp add: demo_ops_def)

theorem crash_keeps_complete_records_witness:
  "\<exists>bs' l j. openBlockStore demo_sha (take 60 (bs_disk demo_store @ bs_pend demo_store)) (bs_idx demo_store) = Some bs' \<and>
    bs_disk demo_store @ bs_pend demo_store = blockStoreMagic @ log_bytes demo_sha l \<and> store_contents demo_sha demo_store = log_contents l \<and>
    bs_disk bs' @ bs_pend bs' = blockStoreMagic @ log_bytes demo_sha (take j l) \<and> store_contents demo_sha bs' = log_contents (take j l) \<and>
    j \<le> length l \<and> (\<forall>m \<le> length l. m \<le> j \<longleftrightarrow> m = 0 \<or> length (blockStoreMagic @ log_bytes demo_sha (take m l)) \<le> 60)"
  by (rule crash_keeps_complete_records [OF demo_runs demo_sha_length])

section \<open>A damaged record\<close>

text \<open>A record whose payload was damaged ends the scan as if it were the torn tail: opening the
  sidecar without its index file cuts the file there and destroys every later record too.\<close>

theorem damage_destroys_later_records:
  assumes "\<And>x. length (sha x) = 32" "\<forall>r \<in> set l. record_ok r" "length i < 2 ^ 32" "length p < 2 ^ 32"
    and "length d = 8" "d \<noteq> payloadDigest sha p"
  shows "\<exists>bs. openBlockStore sha (blockStoreMagic @ log_bytes sha l @ buildBlockRecordHead k i p @ p @ d @ later) None = Some bs \<and>
    bs_disk bs = blockStoreMagic @ log_bytes sha l \<and> bs_index bs = log_index sha 8 l []"
proof -
  define bad where "bad = buildBlockRecordHead k i p @ p @ d @ later"
  have n: "un_be (be 4 (length i)) = length i" "un_be (be 4 (length p)) = length p"
    using assms(3,4) by (simp_all add: un_be_fits)
  have "readBlockRecord sha bad = ReadBad"
    using assms(5,6) by (simp add: bad_def readBlockRecord_def buildBlockRecordHead_def read_full_append n)
  then have "rebuild_scan sha pos bad m = (pos, m)" for pos m by (simp add: scan_stops)
  then have "rebuild_scan sha 8 (log_bytes sha l @ bad) [] = (8 + length (log_bytes sha l), log_index sha 8 l [])"
    using scan_log [of sha l 8 bad "[]"] assms(1,2) by simp
  then show ?thesis unfolding bad_def [symmetric]
    by (simp add: openBlockStore_def loadBlockIndex_def scan_open_def fresh_store_def)
qed

theorem damage_destroys_later_records_witness:
  "\<exists>bs. openBlockStore demo_sha (blockStoreMagic @ log_bytes demo_sha [(blockRecPut, ''1'', ''a'')] @
      buildBlockRecordHead blockRecPut ''2'' ''xb'' @ ''xb'' @ payloadDigest demo_sha ''ab'' @ rec_bytes demo_sha (blockRecPut, ''3'', ''c'')) None = Some bs \<and>
    bs_disk bs = blockStoreMagic @ log_bytes demo_sha [(blockRecPut, ''1'', ''a'')] \<and>
    bs_index bs = log_index demo_sha 8 [(blockRecPut, ''1'', ''a'')] []"
  by (rule damage_destroys_later_records [OF demo_sha_length])
    (simp_all add: record_ok_def payloadDigest_def demo_sha_def)

section \<open>Binary search and pages\<close>

lemma lower_bound_range:
  assumes "sorted a" "lo \<le> hi" "hi \<le> length a" "\<forall>j < lo. a ! j < v" "\<forall>j. hi \<le> j \<longrightarrow> j < length a \<longrightarrow> v \<le> a ! j"
  shows "lower_bound a v lo hi \<le> length a \<and> (\<forall>j < lower_bound a v lo hi. a ! j < v) \<and>
    (\<forall>j. lower_bound a v lo hi \<le> j \<longrightarrow> j < length a \<longrightarrow> v \<le> a ! j)"
  using assms
proof (induction a v lo hi rule: lower_bound.induct)
  case (1 a v lo hi)
  show ?case
  proof (cases "lo < hi")
    case False
    then have "lower_bound a v lo hi = lo" by (subst lower_bound.simps) simp
    moreover have "lo = hi" using False 1(4) by simp
    ultimately show ?thesis using 1(5-7) by simp
  next
    case True
    define mid where "mid = (lo + hi) div 2"
    have mid: "lo \<le> mid" "mid < hi" using True by (auto simp: mid_def)
    show ?thesis
    proof (cases "a ! mid < v")
      case less: True
      have "\<forall>j < mid + 1. a ! j < v"
      proof (intro allI impI)
        fix j assume "j < mid + 1"
        then have "a ! j \<le> a ! mid" using 1(3,5) mid by (intro sorted_nth_mono) auto
        with less show "a ! j < v" by simp
      qed
      moreover have "lower_bound a v lo hi = lower_bound a v (mid + 1) hi"
        using True less by (subst lower_bound.simps) (simp add: mid_def [symmetric] Let_def)
      moreover have "mid + 1 \<le> hi" using mid by simp
      ultimately show ?thesis using 1(1) [OF True mid_def less 1(3) _ 1(5) _ 1(7)] by simp
    next
      case ge: False
      have "\<forall>j. mid \<le> j \<longrightarrow> j < length a \<longrightarrow> v \<le> a ! j"
      proof (intro allI impI)
        fix j assume "mid \<le> j" "j < length a"
        then have "a ! mid \<le> a ! j" using 1(3) by (intro sorted_nth_mono)
        with ge show "v \<le> a ! j" by simp
      qed
      moreover have "lower_bound a v lo hi = lower_bound a v lo mid"
        using True ge by (subst lower_bound.simps) (simp add: mid_def [symmetric] Let_def)
      moreover have "mid \<le> length a" using mid 1(5) by simp
      ultimately show ?thesis using 1(2) [OF True mid_def ge 1(3) mid(1) _ 1(6)] by simp
    qed
  qed
qed

lemma lowerBound_nth:
  assumes "sorted a" "distinct a" "k < length a"
  shows "lowerBound a (a ! k) = k"
proof -
  define n where "n = lowerBound a (a ! k)"
  have n: "n \<le> length a" "\<forall>j < n. a ! j < a ! k" "\<forall>j. n \<le> j \<longrightarrow> j < length a \<longrightarrow> a ! k \<le> a ! j"
    using lower_bound_range [OF assms(1), of 0 "length a" "a ! k"] by (simp_all add: n_def lowerBound_def)
  have "\<not> k < n" using n(2) by auto
  moreover have "\<not> n < k"
  proof
    assume "n < k"
    then have "a ! k \<le> a ! n" "a ! n \<le> a ! k" using n(3) assms by (auto simp: sorted_nth_mono)
    then have "a ! n = a ! k" by simp
    with \<open>n < k\<close> assms show False by (simp add: nth_eq_iff_index_eq)
  qed
  ultimately show ?thesis by (simp add: n_def)
qed

lemma those_Some: "\<forall>x \<in> set xs. f x = Some (g x) \<Longrightarrow> those (map f xs) = Some (map g xs)"
  by (induction xs) auto

text \<open>All pages from a request on, each put in front of the later ones.\<close>

fun read_back :: "(string \<Rightarrow> string) \<Rightarrow> nat \<Rightarrow> page_request \<Rightarrow> block_store \<Rightarrow> string list option" where
  "read_back sha 0 req bs = None"
| "read_back sha (Suc k) req bs =
     (case ReadPage sha req bs of
        (None, _) \<Rightarrow> None
      | (Some pg, bs') \<Rightarrow>
          if pg_HasMore pg then
            map_option (\<lambda>older. older @ pg_Blocks pg)
              (read_back sha k \<lparr>pr_BeforeID = pg_NextFrom pg, pr_FromEnd = False, pr_Limit = pr_Limit req\<rparr> bs')
          else Some (pg_Blocks pg))"

definition page_end :: "page_request \<Rightarrow> nat list \<Rightarrow> nat" where
  "page_end req ids = (if \<not> pr_FromEnd req \<and> 0 < pr_BeforeID req then lowerBound ids (pr_BeforeID req) else length ids)"

lemma ReadPage_window:
  assumes ok: "store_ok sha l bs" "bs_pend bs = []" and lim: "0 < pr_Limit req"
  defines "ids \<equiv> sorted_ids (bs_index bs)"
  defines "hi \<equiv> page_end req ids"
  defines "lo \<equiv> hi - nat (pr_Limit req)"
  assumes hi: "hi \<le> length ids"
  obtains bs' where "store_ok sha l bs'" "bs_pend bs' = []" "bs_index bs' = bs_index bs"
    "ReadPage sha req bs = (Some \<lparr>pg_Blocks = map (\<lambda>v. the (log_contents l (uintToString v))) (sub lo hi ids), pg_Total = length ids,
       pg_HasMore = 0 < lo, pg_NextFrom = (if 0 < lo then ids ! lo else 0)\<rparr>, bs')"
proof -
  obtain ids' bs' where s: "sortedIDsLocked bs = (ids', bs')" by force
  note s' = sortedIDsLocked_ok [OF ok(1) s]
  have "readAndVerify sha bs' (uintToString v) = Some (the (log_contents l (uintToString v)))" if v: "v \<in> set ids" for v
  proof -
    have "uintToString v \<in> set (map fst (bs_index bs))" using sorted_ids_keys(3) [OF ok(1)] v unfolding ids_def by blast
    then obtain p where p: "log_contents l (uintToString v) = Some p" using contents_keys [OF ok(1)] by blast
    have "points sha (bs_disk bs') (bs_index bs') (log_contents l)" using store_points [OF s'(2)] s'(5) ok(2) by simp
    from points_readAndVerify [OF this] p show ?thesis by simp
  qed
  then have blocks: "those (map (\<lambda>v. readAndVerify sha bs' (uintToString v)) (sub lo hi ids)) =
      Some (map (\<lambda>v. the (log_contents l (uintToString v))) (sub lo hi ids))"
    by (intro those_Some) (auto simp: sub_def dest!: in_set_takeD in_set_dropD)
  have lim': "(if pr_Limit req \<le> 0 then 50 else nat (pr_Limit req)) = nat (pr_Limit req)" using lim by simp
  have hi': "(if \<not> pr_FromEnd req \<and> 0 < pr_BeforeID req then lowerBound ids (pr_BeforeID req) else length ids) = hi"
    by (simp add: hi_def page_end_def)
  have idl: "ids' = ids" using s'(1) by (simp add: ids_def)
  show thesis
  proof (rule that)
    show "store_ok sha l bs'" "bs_pend bs' = []" "bs_index bs' = bs_index bs" using s' ok(2) by simp_all
    show "ReadPage sha req bs = (Some \<lparr>pg_Blocks = map (\<lambda>v. the (log_contents l (uintToString v))) (sub lo hi ids), pg_Total = length ids,
       pg_HasMore = 0 < lo, pg_NextFrom = (if 0 < lo then ids ! lo else 0)\<rparr>, bs')"
    proof (cases "hi \<le> lo")
      case True
      then have "hi = 0" using lim by (simp add: lo_def)
      then show ?thesis unfolding ReadPage_def Let_def lim' s idl prod.case hi' lo_def by (simp add: sub_def)
    next
      case False
      then show ?thesis unfolding ReadPage_def Let_def lim' s idl prod.case hi' unfolding lo_def [symmetric] blocks by simp
    qed
  qed
qed

lemma read_back_from:
  assumes "store_ok sha l bs" "bs_pend bs = []" "0 < pr_Limit req"
    and "page_end req (sorted_ids (bs_index bs)) \<le> length (sorted_ids (bs_index bs))"
    and "page_end req (sorted_ids (bs_index bs)) < k"
  shows "read_back sha k req bs =
    Some (map (\<lambda>v. the (log_contents l (uintToString v))) (take (page_end req (sorted_ids (bs_index bs))) (sorted_ids (bs_index bs))))"
  using assms
proof (induction k arbitrary: req bs)
  case (Suc k)
  define ids where "ids = sorted_ids (bs_index bs)"
  define hi where "hi = page_end req ids"
  define lo where "lo = hi - nat (pr_Limit req)"
  define c where "c v = the (log_contents l (uintToString v))" for v
  from ReadPage_window [OF Suc.prems(1-4)] obtain bs' where bs': "store_ok sha l bs'" "bs_pend bs' = []" "bs_index bs' = bs_index bs"
    "ReadPage sha req bs = (Some \<lparr>pg_Blocks = map c (sub lo hi ids), pg_Total = length ids,
       pg_HasMore = 0 < lo, pg_NextFrom = (if 0 < lo then ids ! lo else 0)\<rparr>, bs')"
    unfolding ids_def hi_def lo_def c_def by blast
  have hi: "hi \<le> length ids" "hi < Suc k" using Suc.prems(4,5) by (simp_all add: ids_def hi_def)
  have split: "take lo ids @ sub lo hi ids = take hi ids"
    by (simp add: sub_def take_add [symmetric] lo_def flip: take_drop)
  show ?case
  proof (cases "0 < lo")
    case False
    then have "sub lo hi ids = take hi ids" using split by simp
    with False bs'(4) show ?thesis by (simp add: ids_def hi_def c_def)
  next
    case True
    define req' where "req' = \<lparr>pr_BeforeID = ids ! lo, pr_FromEnd = False, pr_Limit = pr_Limit req\<rparr>"
    note keys = sorted_ids_keys [OF Suc.prems(1), folded ids_def]
    have lo: "lo < hi" using True Suc.prems(3) by (simp add: lo_def)
    have "ids ! (lo - 1) < ids ! lo"
    proof -
      have "ids ! (lo - 1) \<le> ids ! lo" "ids ! (lo - 1) \<noteq> ids ! lo"
        using keys(1,2) lo hi(1) True by (auto simp: sorted_nth_mono nth_eq_iff_index_eq)
      then show ?thesis by simp
    qed
    then have "page_end req' ids = lo" using lowerBound_nth [OF keys(2,1), of lo] lo hi(1) by (simp add: page_end_def req'_def)
    then have "read_back sha k req' bs' = Some (map c (take lo ids))"
      using Suc.IH [OF bs'(1,2), of req'] bs'(3) lo hi Suc.prems(3) by (simp add: ids_def [symmetric] c_def req'_def)
    with True bs'(4) split show ?thesis
      by (simp add: req'_def ids_def [symmetric] hi_def [symmetric] c_def flip: map_append)
  qed
qed simp

text \<open>Reading a written sidecar page by page from its end, each page below the id that the page
  after it names, gives every block exactly once and in the order of the ids, with any page size.\<close>

theorem pages_cover_all_blocks:
  assumes "store_runs sha ops bs" "bs_pend bs = []" "\<And>x. length (sha x) = 32" "0 < limit"
  shows "read_back sha (Suc (length (sorted_ids (bs_index bs)))) \<lparr>pr_BeforeID = 0, pr_FromEnd = True, pr_Limit = limit\<rparr> bs =
    Some (map (\<lambda>v. the (store_contents sha bs (uintToString v))) (sorted_ids (bs_index bs)))"
proof -
  obtain l where l: "store_ok sha l bs" using runs_ok [OF assms(1,3)] by auto
  show ?thesis using read_back_from [OF l assms(2), of "\<lparr>pr_BeforeID = 0, pr_FromEnd = True, pr_Limit = limit\<rparr>"] assms(4)
    by (simp add: page_end_def store_contents_log [OF l] del: read_back.simps)
qed

definition demo_flushed :: block_store where "demo_flushed = store_step demo_sha OpFlush demo_store"

lemma demo_flushed_runs: "store_runs demo_sha (demo_ops @ [OpFlush]) demo_flushed" "bs_pend demo_flushed = []"
proof -
  have "store_fits (store_step demo_sha OpFlush demo_store)"
    using demo_store_fits(3) by (simp add: store_fits_def store_flush_def persistIndex_def flush_writer_def)
  then show "store_runs demo_sha (demo_ops @ [OpFlush]) demo_flushed" unfolding demo_flushed_def
    by (intro store_runs.step [OF demo_runs _ demo_store_fits(3)]) (simp_all add: op_ok_def)
  show "bs_pend demo_flushed = []" by (simp add: demo_flushed_def store_flush_def persistIndex_def flush_writer_def)
qed

theorem pages_cover_all_blocks_witness:
  "read_back demo_sha (Suc (length (sorted_ids (bs_index demo_flushed)))) \<lparr>pr_BeforeID = 0, pr_FromEnd = True, pr_Limit = 1\<rparr> demo_flushed =
    Some (map (\<lambda>v. the (store_contents demo_sha demo_flushed (uintToString v))) (sorted_ids (bs_index demo_flushed)))"
  by (rule pages_cover_all_blocks [OF demo_flushed_runs demo_sha_length]) simp

end
