(* ===== verification/JsonStream.thy ===== *)
theory JsonStream
  imports Repair
begin

text \<open>
  What the session store uses of \<open>encoding/json\<close> beside the syntax check of theory \<open>Repair\<close>: a
  \<open>json.Decoder\<close> that walks over the members of an object token by token, the decoding of
  strings and integers, and the writing of strings. Decoded strings are exact on ASCII text; an
  escape \<open>\u\<close> above it is written as three bytes whatever it stands for.
\<close>

section \<open>Reading values\<close>

definition skip_ws :: "string \<Rightarrow> string" where "skip_ws s = dropWhile json_space s"

definition scan_done :: "jscan \<Rightarrow> bool" where
  "scan_done st \<longleftrightarrow> st = (EndTop, []) \<or> st = (EndValue, [])"

definition number_done :: "jscan \<Rightarrow> bool" where
  "number_done st \<longleftrightarrow> st \<in> {(Digits, []), (Zero, []), (DotDigits, []), (ExpDigits, [])}"

text \<open>\<open>Decode\<close> into a \<open>json.RawMessage\<close>: the text of the next value and the rest. A number ends in
  front of the first byte that cannot continue it; at the end of the input it is complete.\<close>

fun read_value :: "jscan \<Rightarrow> string \<Rightarrow> (string \<times> string) option" where
  "read_value st s =
     (if scan_done st then Some ([], s)
      else case s of
          [] \<Rightarrow> if number_done st then Some ([], []) else None
        | c # t \<Rightarrow>
            (case json_step st c of
               Some st' \<Rightarrow>
                 if number_done st \<and> scan_done st' then Some ([], c # t)
                 else map_option (\<lambda>(v, r). (c # v, r)) (read_value st' t)
             | None \<Rightarrow> if number_done st then Some ([], c # t) else None))"

declare read_value.simps [simp del]

lemma read_value_split: "read_value st s = Some (v, r) \<Longrightarrow> s = v @ r"
proof (induction st s arbitrary: v r rule: read_value.induct)
  case (1 st s)
  from 1(2) [unfolded read_value.simps [of st s]] show ?case
    by (auto split: if_splits list.splits option.splits dest: 1(1))
qed

section \<open>Walking over an object\<close>

datatype key_result = NoMore | BadKey | Key string string

text \<open>Between two members: \<open>More\<close> and the \<open>Token\<close> that is the key, in front of the colon.\<close>

definition key_string :: "string \<Rightarrow> key_result" where
  "key_string s =
     (case s of
        c # t \<Rightarrow>
          if c = CHR 0x22 then
            (case read_value (InString, []) t of Some (k, r) \<Rightarrow> Key (CHR 0x22 # k) r | None \<Rightarrow> BadKey)
          else BadKey
      | [] \<Rightarrow> BadKey)"

definition next_key :: "bool \<Rightarrow> string \<Rightarrow> key_result" where
  "next_key first s =
     (case skip_ws s of
        [] \<Rightarrow> NoMore
      | c # t \<Rightarrow>
          if c = CHR ''}'' \<or> c = CHR '']'' then NoMore
          else if first then key_string (c # t)
          else if c = CHR '','' then key_string (skip_ws t)
          else BadKey)"

text \<open>The value behind a key.\<close>

definition member_value :: "string \<Rightarrow> (string \<times> string) option" where
  "member_value s =
     (case skip_ws s of
        c # t \<Rightarrow> if c = CHR '':'' then read_value json_start (skip_ws t) else None
      | [] \<Rightarrow> None)"

lemma skip_ws_length: "length (skip_ws s) \<le> length s"
  by (simp add: skip_ws_def length_dropWhile_le)

lemma read_value_length: "read_value st s = Some (v, r) \<Longrightarrow> length r \<le> length s"
  by (auto dest: read_value_split)

lemma key_string_length: "key_string s = Key k r \<Longrightarrow> length r < length s"
  by (auto simp: key_string_def less_Suc_eq_le dest!: read_value_length split: list.splits if_splits option.splits)

lemma next_key_length: "next_key first s = Key k r \<Longrightarrow> length r < length s"
  using skip_ws_length [of s]
  by (auto simp: next_key_def split: list.splits if_splits dest!: key_string_length)
    (meson Suc_lessD le_less_trans less_le_trans less_Suc_eq_le order.strict_trans2 skip_ws_length Suc_leD)+

lemma member_value_length: "member_value s = Some (v, r) \<Longrightarrow> length r \<le> length s"
  using skip_ws_length [of s]
  by (auto simp: member_value_def split: list.splits if_splits dest!: read_value_length)
    (meson Suc_leD le_trans skip_ws_length)

section \<open>Strings and integers\<close>

definition hex_val :: "char \<Rightarrow> nat" where
  "hex_val c = (let n = of_char c in if n < 58 then n - 48 else if n < 71 then n - 55 else n - 87)"

text \<open>The bytes of a code unit of an escape.\<close>

definition unit_bytes :: "nat \<Rightarrow> string" where
  "unit_bytes n =
     (if n < 0x80 then [char_of n]
      else if n < 0x800 then [char_of (0xC0 + n div 64), char_of (0x80 + n mod 64)]
      else [char_of (0xE0 + n div 4096), char_of (0x80 + n div 64 mod 64), char_of (0x80 + n mod 64)])"

fun unescape :: "string \<Rightarrow> string" where
  "unescape (c # d # s) =
     (if c \<noteq> CHR 0x5C then c # unescape (d # s)
      else if d = CHR ''u'' then
        (case s of
           h1 # h2 # h3 # h4 # t \<Rightarrow> unit_bytes (((hex_val h1 * 16 + hex_val h2) * 16 + hex_val h3) * 16 + hex_val h4) @ unescape t
         | _ \<Rightarrow> [])
      else
        (if d = CHR ''b'' then CHR 0x08 else if d = CHR ''f'' then CHR 0x0C else if d = CHR ''n'' then CHR 0x0A
         else if d = CHR ''r'' then CHR 0x0D else if d = CHR ''t'' then CHR 0x09 else d) # unescape s)"
| "unescape s = s"

text \<open>A string literal with its quotes.\<close>

definition unquote :: "string \<Rightarrow> string option" where
  "unquote v = (if 2 \<le> length v \<and> v ! 0 = CHR 0x22 then Some (unescape (butlast (tl v))) else None)"

text \<open>Decoding into a Go variable that holds \<open>x\<close>: \<open>null\<close> leaves it alone.\<close>

definition decode_string :: "string \<Rightarrow> string \<Rightarrow> string option" where
  "decode_string x v = (if v = ''null'' then Some x else unquote v)"

definition decode_uint64 :: "nat \<Rightarrow> string \<Rightarrow> nat option" where
  "decode_uint64 x v =
     (if v = ''null'' then Some x
      else if v \<noteq> [] \<and> (\<forall>c \<in> set v. is_digit c) \<and> dec_val v < 2 ^ 64 then Some (dec_val v) else None)"

definition decode_int :: "int \<Rightarrow> string \<Rightarrow> int option" where
  "decode_int x v =
     (if v = ''null'' then Some x
      else let neg = (v \<noteq> [] \<and> v ! 0 = CHR ''-''); d = (if neg then tl v else v) in
        if d = [] \<or> \<not> (\<forall>c \<in> set d. is_digit c) then None
        else let i = (if neg then - int (dec_val d) else int (dec_val d)) in
          if - (2 ^ 63) \<le> i \<and> i < 2 ^ 63 then Some i else None)"

text \<open>\<open>json.Marshal\<close> of a string: control characters, quotes, backslashes and the characters of HTML
  are escaped, and so are invalid bytes and the separators U+2028 and U+2029.\<close>

definition low_hex :: "nat \<Rightarrow> char" where
  "low_hex d = (if d < 10 then char_of (48 + d) else char_of (87 + d))"

definition quote_byte :: "char \<Rightarrow> string" where
  "quote_byte c =
     (if c = CHR 0x22 \<or> c = CHR 0x5C then [CHR 0x5C, c]
      else if c = CHR 0x08 then [CHR 0x5C, CHR ''b''] else if c = CHR 0x0C then [CHR 0x5C, CHR ''f'']
      else if c = CHR 0x0A then [CHR 0x5C, CHR ''n''] else if c = CHR 0x0D then [CHR 0x5C, CHR ''r'']
      else if c = CHR 0x09 then [CHR 0x5C, CHR ''t'']
      else if (of_char c :: nat) < 32 \<or> c \<in> set ''<>&'' then
        CHR 0x5C # ''u00'' @ [low_hex (of_char c div 16), low_hex (of_char c mod 16)]
      else [c])"

fun quote_fuel :: "nat \<Rightarrow> string \<Rightarrow> string" where
  "quote_fuel 0 s = []"
| "quote_fuel (Suc k) [] = []"
| "quote_fuel (Suc k) (c # s) =
     (case valid_rune_len (c # s) of
        None \<Rightarrow> CHR 0x5C # ''ufffd'' @ quote_fuel k s
      | Some n \<Rightarrow>
          (let r = take n (c # s) in
           if n = 1 then quote_byte c
           else if r = [CHR 0xE2, CHR 0x80, CHR 0xA8] then CHR 0x5C # ''u2028''
           else if r = [CHR 0xE2, CHR 0x80, CHR 0xA9] then CHR 0x5C # ''u2029''
           else r) @ quote_fuel k (drop n (c # s)))"

definition json_quote :: "string \<Rightarrow> string" where
  "json_quote s = CHR 0x22 # quote_fuel (length s) s @ [CHR 0x22]"

section \<open>A value in front of a delimiter\<close>

definition is_delim :: "char \<Rightarrow> bool" where
  "is_delim c \<longleftrightarrow> c = CHR '','' \<or> c = CHR ''}'' \<or> c = CHR '']''"

lemma number_delim: "number_done st \<Longrightarrow> is_delim c \<Longrightarrow> json_step st c = None"
  by (auto simp: number_done_def is_delim_def is_digit_def end_value_def json_space_def)

text \<open>A state at which a value may end is at its end, in the digits of a number, or behind it.\<close>

lemma ends_states: "json_ends st \<Longrightarrow> scan_ok st \<Longrightarrow> scan_done st \<or> number_done st"
proof -
  assume e: "json_ends st" "scan_ok st"
  obtain q ps where st: "st = (q, ps)" by force
  have top: "json_step st (CHR '' '') = Some s' \<Longrightarrow> fst s' = EndTop \<Longrightarrow> q \<noteq> EndTop \<Longrightarrow> scan_done st \<or> number_done st" for s'
    unfolding st by (cases "(st, CHR '' '')" rule: json_step.cases)
      (auto simp: st scan_done_def number_done_def begin_value_def begin_string_def end_value_def json_space_def is_digit_def is_hex_def
        split: if_splits list.splits)
  from e show ?thesis
  proof (cases "q = EndTop")
    case True
    with e show ?thesis by (simp add: st scan_done_def scan_ok_def)
  next
    case False
    with e obtain s' where "json_step st (CHR '' '') = Some s'" "fst s' = EndTop"
      by (auto simp: json_ends_def st split: option.splits)
    then show ?thesis using False by (rule top)
  qed
qed

lemma done_only_space: "scan_done st \<Longrightarrow> json_scan st v = Some st' \<Longrightarrow> \<forall>c \<in> set v. json_space c"
proof (induction v arbitrary: st)
  case (Cons c v)
  then obtain s1 where s1: "json_step st c = Some s1" "json_scan s1 v = Some st'" by (auto simp: bind_eq_Some_conv)
  then have "json_space c \<and> scan_done s1" using Cons.prems(1)
    by (auto simp: scan_done_def end_value_def split: if_splits)
  moreover have "\<forall>x \<in> set v. json_space x" by (rule Cons.IH [OF _ s1(2)]) (use calculation in simp)
  ultimately show ?case by simp
qed simp

lemma read_value_prefix:
  assumes "json_scan st v = Some st'" "scan_done st' \<or> json_ends st' \<and> s = c # t \<and> is_delim c" "scan_ok st" "\<not> scan_done st \<or> v = []"
    "v = [] \<or> \<not> json_space (last v)"
  shows "read_value st (v @ s) = Some (v, s)"
  using assms
proof (induction v arbitrary: st)
  case Nil
  then have "scan_done st \<or> number_done st \<and> s = c # t \<and> is_delim c" using ends_states [of st] by auto
  then show ?case
  proof
    assume n: "number_done st \<and> s = c # t \<and> is_delim c"
    then have "json_step st c = None" using number_delim by blast
    with n show ?thesis by (subst read_value.simps) simp
  qed (subst read_value.simps, simp)
next
  case (Cons x v)
  then obtain s1 where s1: "json_step st x = Some s1" "json_scan s1 v = Some st'" by (auto simp: bind_eq_Some_conv)
  have ok: "scan_ok s1" by (rule json_step_ok [OF s1(1) Cons.prems(3)])
  have tail: "v = [] \<or> \<not> json_space (last v)" using Cons.prems(5) by (cases "v = []") auto
  have d: "\<not> scan_done s1 \<or> v = []"
  proof (rule ccontr)
    assume "\<not> ?thesis"
    then have "scan_done s1" "v \<noteq> []" by auto
    with done_only_space [OF _ s1(2)] tail show False by (metis last_in_set)
  qed
  have "\<not> (number_done st \<and> scan_done s1)"
  proof
    assume a: "number_done st \<and> scan_done s1"
    then have "json_space x" using s1(1)
      by (auto simp: number_done_def scan_done_def end_value_def split: if_splits)
    moreover have "v = []" using d a by simp
    ultimately show False using Cons.prems(5) by simp
  qed
  with Cons.IH [OF s1(2) Cons.prems(2) ok d tail] Cons.prems(4) s1(1) show ?case
    by (subst read_value.simps) auto
qed

lemma read_value_ends:
  assumes "json_scan st v = Some st'" "json_ends st'" "scan_ok st" "\<not> scan_done st \<or> v = []" "v = [] \<or> \<not> json_space (last v)" "is_delim c"
  shows "read_value st (v @ c # t) = Some (v, c # t)"
  using read_value_prefix [OF assms(1) _ assms(3-5), of "c # t" c t] assms by simp

text \<open>The text of a value: valid, without blanks around it.\<close>

definition value_text :: "string \<Rightarrow> bool" where
  "value_text v \<longleftrightarrow> json_valid v \<and> v \<noteq> [] \<and> \<not> json_space (hd v) \<and> \<not> json_space (last v)"

lemma scan_start_ok: "scan_ok json_start"
  by (simp add: scan_ok_def json_start_def value_state_def)

lemma member_value_text:
  assumes "value_text v" "is_delim c"
  shows "member_value (CHR '':'' # v @ c # t) = Some (v, c # t)"
proof -
  have v: "v \<noteq> []" "\<not> json_space (hd v)" "\<not> json_space (last v)" using assms(1) by (auto simp: value_text_def)
  obtain st' where "json_scan json_start v = Some st'" "json_ends st'"
    using assms(1) by (auto simp: value_text_def json_valid_def split: option.splits)
  from read_value_ends [OF this scan_start_ok _ _ assms(2)] v have "read_value json_start (v @ c # t) = Some (v, c # t)"
    by (auto simp: json_start_def scan_done_def)
  moreover have "skip_ws (v @ c # t) = v @ c # t" using v by (cases v) (auto simp: skip_ws_def)
  ultimately show ?thesis by (simp add: member_value_def skip_ws_def json_space_def)
qed

text \<open>A key without quotes and backslashes.\<close>

definition plain_key :: "string \<Rightarrow> bool" where
  "plain_key k \<longleftrightarrow> (\<forall>c \<in> set k. c \<noteq> CHR 0x22 \<and> c \<noteq> CHR 0x5C \<and> 32 \<le> (of_char c :: nat))"

lemma read_plain: "plain_key k \<Longrightarrow> read_value (InString, []) (k @ CHR 0x22 # t) = Some (k @ [CHR 0x22], t)"
proof (induction k)
  case Nil
  have "read_value (EndValue, []) t = Some ([], t)" by (subst read_value.simps) (simp add: scan_done_def)
  then show ?case by (subst read_value.simps) (simp add: scan_done_def number_done_def)
next
  case (Cons c k)
  then show ?case by (subst read_value.simps) (simp add: plain_key_def scan_done_def number_done_def)
qed

lemma next_key_first: "plain_key k \<Longrightarrow> next_key True (CHR 0x22 # k @ CHR 0x22 # t) = Key (CHR 0x22 # k @ [CHR 0x22]) t"
  using read_plain [of k t] by (simp add: next_key_def skip_ws_def json_space_def key_string_def)

lemma next_key_comma: "plain_key k \<Longrightarrow> next_key False (CHR '','' # CHR 0x22 # k @ CHR 0x22 # t) = Key (CHR 0x22 # k @ [CHR 0x22]) t"
  using read_plain [of k t] by (simp add: next_key_def skip_ws_def json_space_def key_string_def)

section \<open>Written strings and numbers are values\<close>

lemma plain_unescape: "plain_key k \<Longrightarrow> unescape k = k"
  by (induction k rule: unescape.induct) (auto simp: plain_key_def)

lemma unquote_plain: "plain_key k \<Longrightarrow> unquote (CHR 0x22 # k @ [CHR 0x22]) = Some k"
  by (simp add: unquote_def plain_unescape butlast_append)

lemma scan_append: "json_scan st (a @ b) = Option.bind (json_scan st a) (\<lambda>s'. json_scan s' b)"
proof (induction a arbitrary: st)
  case (Cons c a)
  then show ?case by (cases "json_step st c") simp_all
qed simp

lemma rune_high: "rune_bytes r \<Longrightarrow> length r \<noteq> 1 \<Longrightarrow> c \<in> set r \<Longrightarrow> 0x80 \<le> (of_char c :: nat)"
  by (cases r rule: rune_bytes.cases) (auto simp: byte_in_def)

lemma scan_high: "\<forall>c \<in> set r. 0x80 \<le> (of_char c :: nat) \<Longrightarrow> json_scan (InString, ps) r = Some (InString, ps)"
proof (induction r)
  case (Cons c r)
  then have "0x80 \<le> (of_char c :: nat)" by simp
  moreover have "c \<noteq> CHR 0x22" "c \<noteq> CHR 0x5C" using calculation by auto
  ultimately show ?case using Cons by simp
qed simp

lemma hex_low: "d < 16 \<Longrightarrow> is_hex (low_hex d)"
proof -
  assume "d < 16"
  then consider "d < 10" | "d = 10" | "d = 11" | "d = 12" | "d = 13" | "d = 14" | "d = 15" by linarith
  then show ?thesis
  proof cases
    case 1
    then show ?thesis by (simp add: low_hex_def is_hex_def is_digit_def)
  qed (simp only:, code_simp)+
qed

lemma scan_quote_byte: "json_scan (InString, ps) (quote_byte c) = Some (InString, ps)"
proof -
  have b: "(of_char c :: nat) < 256" by (rule nat_of_char_less_256)
  then have "is_hex (low_hex (of_char c div 16))" "is_hex (low_hex (of_char c mod 16))"
    by (simp_all add: hex_low less_mult_imp_div_less)
  moreover have "is_hex (CHR ''0'')" by (simp add: is_hex_def is_digit_def)
  ultimately show ?thesis by (simp add: quote_byte_def)
qed

lemma scan_quoted: "json_scan (InString, ps) (quote_fuel k s) = Some (InString, ps)"
proof (induction k s rule: quote_fuel.induct)
  case (3 k c s)
  have esc: "json_scan (InString, ps) (CHR 0x5C # ''ufffd'') = Some (InString, ps)"
    "json_scan (InString, ps) (CHR 0x5C # ''u2028'') = Some (InString, ps)"
    "json_scan (InString, ps) (CHR 0x5C # ''u2029'') = Some (InString, ps)"
    by (simp_all add: is_hex_def is_digit_def)
  show ?case
  proof (cases "valid_rune_len (c # s)")
    case None
    with 3(1) esc(1) show ?thesis using scan_append [of "(InString, ps)" "CHR 0x5C # ''ufffd''" "quote_fuel k s"] by simp
  next
    case (Some n)
    define r where "r = take n (c # s)"
    from Some have r: "rune_bytes r" "n \<le> length (c # s)" unfolding valid_rune_len_def r_def find_Some_iff by blast+
    define q where "q = (if n = 1 then quote_byte c else if r = [CHR 0xE2, CHR 0x80, CHR 0xA8] then CHR 0x5C # ''u2028''
      else if r = [CHR 0xE2, CHR 0x80, CHR 0xA9] then CHR 0x5C # ''u2029'' else r)"
    have "length r = n" using r(2) by (simp add: r_def)
    then have "n \<noteq> 1 \<Longrightarrow> json_scan (InString, ps) r = Some (InString, ps)" using rune_high [OF r(1)] by (intro scan_high) auto
    then have "json_scan (InString, ps) q = Some (InString, ps)" using esc scan_quote_byte by (simp add: q_def del: json_scan.simps)
    moreover have "quote_fuel (Suc k) (c # s) = q @ quote_fuel k (drop n (c # s))"
      by (simp add: Some q_def r_def Let_def)
    ultimately show ?thesis using 3(2) [OF Some] scan_append [of "(InString, ps)" q "quote_fuel k (drop n (c # s))"] by simp
  qed
qed simp_all

lemma quote_value: "value_text (json_quote s)"
proof -
  have "json_scan json_start (json_quote s) = Some (EndValue, [])"
    using scan_append [of "(InString, [])" "quote_fuel (length s) s" "[CHR 0x22]"]
    by (simp add: json_quote_def json_start_def begin_value_def json_space_def scan_quoted)
  then show ?thesis
    by (simp add: value_text_def json_valid_def json_ends_def end_value_def json_space_def) (simp add: json_quote_def)
qed

lemma plain_quote_fuel:
  assumes "\<forall>c \<in> set s. 32 \<le> (of_char c :: nat) \<and> (of_char c :: nat) < 128 \<and> c \<notin> set ''<>&'' \<and> c \<noteq> CHR 0x22 \<and> c \<noteq> CHR 0x5C"
  shows "quote_fuel (length s) s = s"
  using assms
proof (induction s)
  case (Cons c s)
  then have "valid_rune_len (c # s) = Some 1" by (simp add: valid_rune_len_def byte_in_def)
  moreover have "quote_byte c = [c]"
  proof -
    have c: "32 \<le> (of_char c :: nat)" "c \<notin> set ''<>&''" "c \<noteq> CHR 0x22" "c \<noteq> CHR 0x5C" using Cons.prems by simp_all
    have "c \<noteq> d" if "(of_char d :: nat) < 32" for d using c(1) that by auto
    then have "c \<noteq> CHR 0x08" "c \<noteq> CHR 0x0C" "c \<noteq> CHR 0x0A" "c \<noteq> CHR 0x0D" "c \<noteq> CHR 0x09" by simp_all
    with c show ?thesis unfolding quote_byte_def by simp
  qed
  ultimately show ?case using Cons by (simp del: One_nat_def) simp
qed simp

text \<open>Decimal numbers.\<close>

lemma scan_digits: "\<forall>c \<in> set s. is_digit c \<Longrightarrow> json_scan (Digits, ps) s = Some (Digits, ps)"
  by (induction s) auto

lemma show_nat_head: "0 < n \<Longrightarrow> hd (show_nat n) \<noteq> CHR ''0''"
proof (induction n rule: show_nat.induct)
  case (1 n)
  show ?case
  proof (cases "n < 10")
    case True
    then have "digit_val (digit n) = n" by simp
    moreover have "digit_val (CHR ''0'') = 0" by (simp add: digit_val_def)
    ultimately have "digit n \<noteq> CHR ''0''" using 1(2) by (cases "digit n = CHR ''0''") simp_all
    with True show ?thesis by (subst show_nat.simps) simp
  next
    case False
    with 1 show ?thesis by (subst show_nat.simps) simp
  qed
qed

lemma digit_not_space: "is_digit c \<Longrightarrow> \<not> json_space c"
  by (auto simp: is_digit_def json_space_def)

lemma show_nat_value: "value_text (show_nat n)"
proof -
  obtain c t where ct: "show_nat n = c # t" by (cases "show_nat n") auto
  have d: "\<forall>x \<in> set (show_nat n). is_digit x" by (rule show_nat_digits)
  then have c: "is_digit c" "\<forall>x \<in> set t. is_digit x" by (auto simp: ct)
  have "last (show_nat n) \<in> set (show_nat n)" by simp
  with d have l: "\<not> json_space (last (show_nat n))" using digit_not_space by blast
  have "\<exists>st. json_scan json_start (show_nat n) = Some st \<and> json_ends st"
  proof (cases "c = CHR ''0''")
    case True
    then have "n = 0" using show_nat_head [of n] ct by auto
    then have "t = []" using ct by (subst (asm) show_nat.simps) simp
    with True show ?thesis
      by (simp add: ct json_start_def begin_value_def json_space_def json_ends_def end_value_def)
  next
    case False
    have ne: "c \<noteq> x" if "\<not> is_digit x" for x using c(1) that by auto
    have "c \<noteq> CHR ''{''" "c \<noteq> CHR ''[''" "c \<noteq> CHR 0x22" "c \<noteq> CHR ''-''" "c \<noteq> CHR ''t''" "c \<noteq> CHR ''f''" "c \<noteq> CHR ''n''"
      by (rule ne, simp add: is_digit_def)+
    then have "begin_value c [] = Some (Digits, [])"
      using c(1) False digit_not_space [OF c(1)] unfolding begin_value_def by simp
    then show ?thesis using scan_digits [OF c(2)]
      by (simp add: ct json_start_def json_ends_def end_value_def json_space_def is_digit_def)
  qed
  then show ?thesis using l c(1) digit_not_space by (auto simp: value_text_def json_valid_def ct)
qed

lemma decode_show_nat: "n < 2 ^ 64 \<Longrightarrow> decode_uint64 x (show_nat n) = Some n"
proof -
  assume n: "n < 2 ^ 64"
  have "show_nat n \<noteq> ''null''"
  proof
    assume "show_nat n = ''null''"
    then have "is_digit (CHR ''n'')" using show_nat_digits [of n] by simp
    then show False by (simp add: is_digit_def)
  qed
  with n show ?thesis using show_nat_digits [of n] by (simp add: decode_uint64_def)
qed

section \<open>Objects of strings and numbers\<close>

lemma scan_plain: "plain_key k \<Longrightarrow> json_scan (InString, ps) (k @ CHR 0x22 # s) = json_scan (EndValue, ps) s"
  by (induction k) (auto simp: plain_key_def)

lemma scan_brace_open: "length ps < 1000 \<Longrightarrow> json_scan (BeginValue, ps) (CHR ''{'' # s) = json_scan (BeginStringOrEmpty, ObjectKey # ps) s"
  by (simp add: begin_value_def json_space_def push_open_def maxNestingDepth_def)

lemma scan_key:
  "plain_key k \<Longrightarrow> json_scan (BeginStringOrEmpty, ObjectKey # ps) (CHR 0x22 # k @ CHR 0x22 # CHR '':'' # s) = json_scan (BeginValue, ObjectValue # ps) s"
  "plain_key k \<Longrightarrow> json_scan (BeginString, ObjectKey # ps) (CHR 0x22 # k @ CHR 0x22 # CHR '':'' # s) = json_scan (BeginValue, ObjectValue # ps) s"
  using scan_plain [of k "ObjectKey # ps" "CHR '':'' # s"]
  by (simp_all add: json_space_def begin_string_def end_value_def)

lemma scan_string: "json_scan (BeginValue, ps) (json_quote x @ s) = json_scan (EndValue, ps) s"
  using scan_append [of "(InString, ps)" "quote_fuel (length x) x" "CHR 0x22 # s"]
  by (simp add: json_quote_def begin_value_def json_space_def scan_quoted)

lemma scan_number:
  assumes "c = CHR '','' \<or> c = CHR ''}''"
  shows "json_scan (BeginValue, p # ps) (show_nat n @ c # s) = json_scan (EndValue, p # ps) (c # s)"
proof -
  obtain d t where dt: "show_nat n = d # t" by (cases "show_nat n") auto
  have dig: "is_digit d" "\<forall>x \<in> set t. is_digit x" using show_nat_digits [of n] by (auto simp: dt)
  have c: "\<not> is_digit c" "c \<noteq> CHR ''.''" "c \<noteq> CHR ''e''" "c \<noteq> CHR ''E''" using assms by (auto simp: is_digit_def)
  show ?thesis
  proof (cases "d = CHR ''0''")
    case True
    then have "n = 0" using show_nat_head [of n] dt by auto
    then have "t = []" using dt by (subst (asm) show_nat.simps) simp
    with True c show ?thesis by (simp add: dt begin_value_def json_space_def)
  next
    case False
    have ne: "d \<noteq> x" if "\<not> is_digit x" for x using dig(1) that by auto
    have "d \<noteq> CHR ''{''" "d \<noteq> CHR ''[''" "d \<noteq> CHR 0x22" "d \<noteq> CHR ''-''" "d \<noteq> CHR ''t''" "d \<noteq> CHR ''f''" "d \<noteq> CHR ''n''"
      by (rule ne, simp add: is_digit_def)+
    then have "begin_value d (p # ps) = Some (Digits, p # ps)"
      using dig(1) False digit_not_space [OF dig(1)] unfolding begin_value_def by simp
    then show ?thesis
      using scan_append [of "(Digits, p # ps)" t "c # s"] scan_digits [OF dig(2), of "p # ps"] c by (simp add: dt)
  qed
qed

lemma scan_next: "json_scan (EndValue, ObjectValue # ps) (CHR '','' # s) = json_scan (BeginString, ObjectKey # ps) s"
  by (simp add: end_value_def json_space_def)

lemma scan_close:
  "json_scan (EndValue, ObjectValue # p # ps) (CHR ''}'' # s) = json_scan (EndValue, p # ps) s"
  "json_scan (EndValue, [ObjectValue]) (CHR ''}'' # s) = json_scan (EndTop, []) s"
  by (simp_all add: end_value_def json_space_def pop_open_def)

lemmas scan_object = scan_brace_open scan_key scan_string scan_number scan_next scan_close

end
