(* ===== verification/BlockView.thy ===== *)
theory BlockView
  imports BlockRuns JsonStream
begin

text \<open>
  The second half of \<open>session/block_store.go\<close>: the byte-level work on a view checkpoint. Its
  \<open>blocks\<close> array is found and cut into elements without parsing, every block is written to the
  sidecar, and the array is replaced by a small reference; on reading, the reference is checked
  against the sidecar and replaced by the array again. Names of the fields of the reference are
  compared exactly (\<open>encoding/json\<close> would also fold case).
\<close>

section \<open>Scanning without parsing\<close>

definition blocksRefKey :: string where "blocksRefKey = ''$blocks_ref''"

definition blocks_key :: string where "blocks_key = [CHR 0x22] @ ''blocks'' @ [CHR 0x22] @ '':''"

text \<open>Inside a string or not, behind a backslash or not: what all the scanning loops track.\<close>

fun lex_step :: "bool \<times> bool \<Rightarrow> char \<Rightarrow> bool \<times> bool" where
  "lex_step (True, esc) c =
     (if esc then (True, False) else if c = CHR 0x5C then (True, True) else if c = CHR 0x22 then (False, False) else (True, False))"
| "lex_step (False, esc) c = (c = CHR 0x22, esc)"

text \<open>The loop of \<open>findBlocksField\<close>: the depth, the element read so far in reverse and the elements
  before it.\<close>

fun block_elems :: "int \<Rightarrow> bool \<times> bool \<Rightarrow> string \<Rightarrow> string list \<Rightarrow> string \<Rightarrow> string list option" where
  "block_elems d q cur out [] = None"
| "block_elems d q cur out (c # s) =
     (if fst q then block_elems d (lex_step q c) (c # cur) out s
      else if c = CHR ''{'' \<or> c = CHR ''['' then block_elems (d + 1) q (c # cur) out s
      else if c = CHR ''}'' \<or> c = CHR '']'' then
        if c = CHR '']'' \<and> d = 0 then Some (if cur = [] then out else out @ [rev cur])
        else block_elems (d - 1) q (c # cur) out s
      else if c = CHR '','' \<and> d = 0 then block_elems d q [] (out @ [rev cur]) s
      else block_elems d (lex_step q c) (c # cur) out s)"

definition findBlocksField :: "string \<Rightarrow> string list option" where
  "findBlocksField view =
     (case str_index view blocks_key of
        None \<Rightarrow> None
      | Some ki \<Rightarrow>
         (case dropWhile json_space (drop (ki + length blocks_key) view) of
            c # t \<Rightarrow> if c = CHR ''['' then block_elems 0 (False, False) [] [] t else None
          | [] \<Rightarrow> None))"

text \<open>\<open>matchJSONEnd\<close>: the position behind the bracket that closes the one at \<open>open\<close>.\<close>

fun match_end :: "char \<Rightarrow> char \<Rightarrow> int \<Rightarrow> bool \<times> bool \<Rightarrow> string \<Rightarrow> nat option" where
  "match_end op cl d q [] = None"
| "match_end op cl d q (c # s) =
     (if fst q then map_option Suc (match_end op cl d (lex_step q c) s)
      else if c = CHR 0x22 then map_option Suc (match_end op cl d (lex_step q c) s)
      else if c = op then map_option Suc (match_end op cl (d + 1) q s)
      else if c = cl then (if d - 1 = 0 then Some 1 else map_option Suc (match_end op cl (d - 1) q s))
      else map_option Suc (match_end op cl d q s))"

definition matchJSONEnd :: "string \<Rightarrow> nat \<Rightarrow> char \<Rightarrow> char \<Rightarrow> nat option" where
  "matchJSONEnd b start op cl = map_option ((+) start) (match_end op cl 0 (False, False) (drop start b))"

definition splitViewBlocks :: "string \<Rightarrow> string option" where
  "splitViewBlocks view =
     (case str_index view blocks_key of
        None \<Rightarrow> None
      | Some ki \<Rightarrow>
         (let rest = drop (ki + length blocks_key) view; v = dropWhile json_space rest;
              start = ki + length blocks_key + (length rest - length v)
          in if v = [] then None
             else if v ! 0 = CHR ''['' then map_option (\<lambda>e. sub start e view) (matchJSONEnd view start (CHR ''['') (CHR '']''))
             else if v ! 0 = CHR ''{'' then map_option (\<lambda>e. sub start e view) (matchJSONEnd view start (CHR ''{'') (CHR ''}''))
             else None))"

fun array_parts :: "int \<Rightarrow> bool \<times> bool \<Rightarrow> string \<Rightarrow> string \<Rightarrow> string list" where
  "array_parts d q cur [] = [rev cur]"
| "array_parts d q cur (c # s) =
     (if fst q then array_parts d (lex_step q c) (c # cur) s
      else if c = CHR ''{'' \<or> c = CHR ''['' then array_parts (d + 1) q (c # cur) s
      else if c = CHR ''}'' \<or> c = CHR '']'' then array_parts (d - 1) q (c # cur) s
      else if c = CHR '','' \<and> d = 0 then rev cur # array_parts d q [] s
      else array_parts d (lex_step q c) (c # cur) s)"

definition splitBlocksArray :: "string \<Rightarrow> string list option" where
  "splitBlocksArray raw =
     (let t = trim_space raw in
      if length t < 2 \<or> t ! 0 \<noteq> CHR ''['' \<or> last t \<noteq> CHR '']'' then None
      else let body = butlast (tl t) in Some (if trim_space body = [] then [] else array_parts 0 (False, False) [] body))"

text \<open>\<open>topLevelKey\<close>: only the root object is open in front of the position.\<close>

definition level_step :: "char \<Rightarrow> (int \<times> int) \<times> bool \<times> bool \<Rightarrow> (int \<times> int) \<times> bool \<times> bool" where
  "level_step c st =
     (case st of ((curly, square), q) \<Rightarrow>
        if fst q then ((curly, square), lex_step q c)
        else if c = CHR ''{'' then ((curly + 1, square), q)
        else if c = CHR ''}'' then ((curly - 1, square), q)
        else if c = CHR ''['' then ((curly, square + 1), q)
        else if c = CHR '']'' then ((curly, square - 1), q)
        else ((curly, square), lex_step q c))"

definition topLevelKey :: "string \<Rightarrow> nat \<Rightarrow> bool" where
  "topLevelKey b pos \<longleftrightarrow> fst (fold level_step (take pos b) ((0, 0), (False, False))) = (1, 0)"

definition replaceJSONField :: "string \<Rightarrow> string \<Rightarrow> string \<Rightarrow> string option" where
  "replaceJSONField obj field val =
     (let t = trim_space obj; keyLit = [CHR 0x22] @ field @ [CHR 0x22] @ '':'' in
      if length t < 2 \<or> t ! 0 \<noteq> CHR ''{'' \<or> last t \<noteq> CHR ''}'' then None
      else case str_index t keyLit of
          None \<Rightarrow> None
        | Some ki \<Rightarrow>
            if \<not> topLevelKey t ki then None
            else
              let rest = drop (ki + length keyLit) t; v = dropWhile json_space rest;
                  start = ki + length keyLit + (length rest - length v)
              in if v = [] then None
                 else map_option (\<lambda>e. take start t @ val @ drop e t)
                   (if v ! 0 = CHR ''['' then matchJSONEnd t start (CHR ''['') (CHR '']'')
                    else if v ! 0 = CHR ''{'' then matchJSONEnd t start (CHR ''{'') (CHR ''}'')
                    else Some (start + length (takeWhile (\<lambda>c. c \<noteq> CHR '','' \<and> c \<noteq> CHR ''}'') v))))"

section \<open>Blocks\<close>

text \<open>\<open>blockID\<close>: the members of the object up to the first \<open>id\<close>.\<close>

function block_id_from :: "bool \<Rightarrow> string \<Rightarrow> string option" where
  "block_id_from first s =
     (case next_key first s of
        Key k r \<Rightarrow>
          if unquote k = Some ''id'' then
            Option.bind (member_value r) (\<lambda>(v, _). map_option show_nat (decode_uint64 0 v))
          else (case member_value r of Some (_, r') \<Rightarrow> block_id_from False r' | None \<Rightarrow> None)
      | _ \<Rightarrow> None)"
  by pat_completeness auto
termination
  by (relation "measure (\<lambda>(first, s). length s)") (auto dest!: next_key_length member_value_length)

declare block_id_from.simps [simp del]

definition blockID :: "string \<Rightarrow> string option" where
  "blockID elem =
     (case skip_ws elem of c # t \<Rightarrow> if c = CHR ''{'' then block_id_from True t else None | [] \<Rightarrow> None)"

definition status_is :: "string \<Rightarrow> string" where
  "status_is v = [CHR 0x22] @ ''status'' @ [CHR 0x22] @ '':'' @ [CHR 0x22] @ v @ [CHR 0x22]"

definition isLiveBlock :: "string \<Rightarrow> bool" where
  "isLiveBlock elem \<longleftrightarrow>
     (let head = take 256 elem in contains head (status_is ''running'') \<or> contains head (status_is ''interrupting''))"

section \<open>Writing: the array becomes a reference\<close>

record ref_doc =
  rd_Store :: string
  rd_Sum :: string
  rd_Count :: int
  rd_Schema :: int

definition quoted_name :: "string \<Rightarrow> string" where
  "quoted_name k = [CHR 0x22] @ k @ [CHR 0x22] @ '':''"

definition marshal_ref :: "ref_doc \<Rightarrow> string" where
  "marshal_ref d =
     ''{'' @ quoted_name blocksRefKey @ ''{'' @ quoted_name ''store'' @ json_quote (rd_Store d) @ '','' @
     quoted_name ''sum'' @ json_quote (rd_Sum d) @ '','' @ quoted_name ''count'' @ show_int (rd_Count d) @ '','' @
     quoted_name ''schema'' @ show_int (rd_Schema d) @ ''}}''"

text \<open>The loop over the blocks: how many were written, or nothing when a block has no id; the store
  keeps what was written before.\<close>

fun ref_elems :: "(string \<Rightarrow> string) \<Rightarrow> string list \<Rightarrow> nat \<Rightarrow> block_store \<Rightarrow> nat option \<times> block_store" where
  "ref_elems sha [] wrote bs = (Some wrote, bs)"
| "ref_elems sha (e # es) wrote bs =
     (case blockID e of
        None \<Rightarrow> (None, bs)
      | Some i \<Rightarrow>
          if isLiveBlock e then ref_elems sha es (wrote + 1) (store_put sha i e bs)
          else if holdsSame sha bs i e then ref_elems sha es wrote bs
          else ref_elems sha es (wrote + 1) (store_put sha i e bs))"

definition ref_to :: "string \<Rightarrow> string \<Rightarrow> nat \<Rightarrow> ref_doc" where
  "ref_to base chk n = \<lparr>rd_Store = base, rd_Sum = chk, rd_Count = int n, rd_Schema = 1\<rparr>"

text \<open>The common part of \<open>refBlocks\<close> and \<open>refBlocksFromSpans\<close>: \<open>base\<close> is the name of the sidecar and
  \<open>replace\<close> puts the reference into the view.\<close>

definition ref_with :: "(string \<Rightarrow> string) \<Rightarrow> string \<Rightarrow> string list \<Rightarrow> (string \<Rightarrow> string option) \<Rightarrow> block_store \<Rightarrow>
    (string \<times> nat) option \<times> block_store" where
  "ref_with sha base elems replace bs =
     (case ref_elems sha elems 0 bs of
        (None, bs1) \<Rightarrow> (None, bs1)
      | (Some wrote, bs1) \<Rightarrow>
          let ids = List.map_filter blockID elems; bs2 = pruneTo sha ids bs1 in
          (case blocksSetSum sha bs2 ids of
             None \<Rightarrow> (None, bs2)
           | Some chk \<Rightarrow> (map_option (\<lambda>v. (v, wrote)) (replace (marshal_ref (ref_to base chk (length elems)))), bs2)))"

definition refBlocks :: "(string \<Rightarrow> string) \<Rightarrow> string \<Rightarrow> string \<Rightarrow> block_store \<Rightarrow> (string \<times> nat) option \<times> block_store" where
  "refBlocks sha base view bs =
     (case findBlocksField view of
        None \<Rightarrow> (None, bs)
      | Some elems \<Rightarrow> ref_with sha base elems (replaceJSONField view ''blocks'') bs)"

definition replaceBlocksWithKnownSpans :: "string \<Rightarrow> string list \<Rightarrow> string \<Rightarrow> string option" where
  "replaceBlocksWithKnownSpans view spans val =
     (case str_index view blocks_key of
        None \<Rightarrow> None
      | Some ki \<Rightarrow>
         (let rest = drop (ki + length blocks_key) view; v = dropWhile json_space rest;
              start = ki + length blocks_key + (length rest - length v);
              fin = start + sum_list (map length spans) + length spans + 1
          in if v = [] \<or> v ! 0 \<noteq> CHR ''['' then None
             else if length view < fin then None
             else if view ! (fin - 1) \<noteq> CHR '']'' then None
             else Some (take start view @ val @ drop fin view)))"

definition refBlocksFromSpans :: "(string \<Rightarrow> string) \<Rightarrow> string \<Rightarrow> string \<Rightarrow> string list \<Rightarrow> block_store \<Rightarrow>
    (string \<times> nat) option \<times> block_store" where
  "refBlocksFromSpans sha base view spans bs =
     (if spans = [] then
        let bs1 = pruneTo sha [] bs; chk = (case blocksSetSum sha bs1 [] of Some s \<Rightarrow> s | None \<Rightarrow> []) in
        (map_option (\<lambda>v. (v, 0)) (replaceJSONField view ''blocks'' (marshal_ref (ref_to base chk 0))), bs1)
      else ref_with sha base spans
        (\<lambda>ref. case replaceBlocksWithKnownSpans view spans ref of Some v \<Rightarrow> Some v | None \<Rightarrow> replaceJSONField view ''blocks'' ref) bs)"

section \<open>Reading: the reference becomes the array\<close>

text \<open>\<open>json.Unmarshal\<close> of an object, member by member into a state.\<close>

function obj_fold :: "(string \<Rightarrow> string \<Rightarrow> 's \<Rightarrow> 's option) \<Rightarrow> bool \<Rightarrow> string \<Rightarrow> 's \<Rightarrow> 's option" where
  "obj_fold f first s x =
     (case next_key first s of
        NoMore \<Rightarrow> Some x
      | BadKey \<Rightarrow> None
      | Key k r \<Rightarrow>
         (case (unquote k, member_value r) of
            (Some key, Some (v, r')) \<Rightarrow> (case f key v x of Some x' \<Rightarrow> obj_fold f False r' x' | None \<Rightarrow> None)
          | _ \<Rightarrow> None))"
  by pat_completeness auto
termination
  by (relation "measure (\<lambda>(f, first, s, x). length s)")
    (auto dest!: next_key_length sym [of "Some _" "member_value _"] member_value_length)

declare obj_fold.simps [simp del]

definition unmarshal_object :: "(string \<Rightarrow> string \<Rightarrow> 's \<Rightarrow> 's option) \<Rightarrow> string \<Rightarrow> 's \<Rightarrow> 's option" where
  "unmarshal_object f t x =
     (if t = ''null'' then Some x
      else case skip_ws t of c # s \<Rightarrow> if c = CHR ''{'' then obj_fold f True s x else None | [] \<Rightarrow> None)"

definition zero_ref :: ref_doc where
  "zero_ref = \<lparr>rd_Store = [], rd_Sum = [], rd_Count = 0, rd_Schema = 0\<rparr>"

definition ref_field :: "string \<Rightarrow> string \<Rightarrow> ref_doc \<Rightarrow> ref_doc option" where
  "ref_field k v d =
     (if k = ''store'' then map_option (\<lambda>x. d\<lparr>rd_Store := x\<rparr>) (decode_string (rd_Store d) v)
      else if k = ''sum'' then map_option (\<lambda>x. d\<lparr>rd_Sum := x\<rparr>) (decode_string (rd_Sum d) v)
      else if k = ''count'' then map_option (\<lambda>x. d\<lparr>rd_Count := x\<rparr>) (decode_int (rd_Count d) v)
      else if k = ''schema'' then map_option (\<lambda>x. d\<lparr>rd_Schema := x\<rparr>) (decode_int (rd_Schema d) v)
      else Some d)"

text \<open>The outer result is the error, the inner one a missing key.\<close>

definition parse_ref :: "string \<Rightarrow> ref_doc option option" where
  "parse_ref t =
     (if \<not> json_valid t then None
      else unmarshal_object (\<lambda>k v acc. map_option (\<lambda>d. if k = blocksRefKey then Some d else acc) (unmarshal_object ref_field v zero_ref)) t None)"

text \<open>\<open>resolveBlocksRef\<close> on the contents of the sidecar and of its index file, which may not exist; it
  also gives these files as they are afterwards, for it creates and closes them.\<close>

definition close_files :: "(string \<Rightarrow> string) \<Rightarrow> block_store \<Rightarrow> string option \<times> string option" where
  "close_files sha bs = (let b = store_flush sha bs in (Some (bs_disk b), bs_idx b))"

definition resolveBlocksRef :: "(string \<Rightarrow> string) \<Rightarrow> string \<Rightarrow> string option \<Rightarrow> string option \<Rightarrow>
    string option \<times> string option \<times> string option" where
  "resolveBlocksRef sha view disk idx =
     (case splitViewBlocks view of
        None \<Rightarrow> (Some view, disk, idx)
      | Some raw \<Rightarrow>
         (let t = trim_space raw in
          if \<not> contains t blocksRefKey then (Some view, disk, idx)
          else case parse_ref t of
              None \<Rightarrow> (None, disk, idx)
            | Some None \<Rightarrow> (None, disk, idx)
            | Some (Some ref) \<Rightarrow>
               (let bytes = (case disk of Some b \<Rightarrow> b | None \<Rightarrow> []) in
                case openBlockStore sha bytes idx of
                  None \<Rightarrow> (None, Some bytes, idx)
                | Some bs \<Rightarrow>
                    (if rd_Count ref \<noteq> int (store_Len bs) then None
                     else if rd_Sum ref \<noteq> [] \<and> has_prefix (rd_Sum ref) setSumPrefix \<and> store_sum sha bs \<noteq> rd_Sum ref then None
                     else Option.bind (assemble sha bs) (replaceJSONField view ''blocks''),
                     close_files sha bs))))"

section \<open>The scans follow the JSON text\<close>

text \<open>What the scanning loops track, read off the state of the syntax check.\<close>

definition lex_of :: "jscan \<Rightarrow> bool \<times> bool" where
  "lex_of st = (string_state (fst st), fst st = InStringEsc)"

definition opens :: "char \<Rightarrow> jopen list \<Rightarrow> int" where
  "opens cl ps = int (length (filter (\<lambda>p. closer p = cl) ps))"

lemma balance_lex: "lex_of st = (ba_inStr (balance_of st), ba_escaped (balance_of st))"
  by (cases st) (simp add: lex_of_def balance_of_simps)

text \<open>A bracket outside strings opens or closes the innermost container; a comma needs one.\<close>

lemma json_step_close:
  assumes "json_step st c = Some st'" "scan_ok st" "\<not> fst (lex_of st)" "c = CHR ''}'' \<or> c = CHR '']''"
  shows "\<exists>p. snd st = p # snd st' \<and> closer p = c \<and> lex_of st' = (False, False)"
proof -
  obtain q ps where st: "st = (q, ps)" by force
  have e: "end_value c qs = Some st' \<Longrightarrow> \<exists>p. qs = p # snd st' \<and> closer p = c \<and> lex_of st' = (False, False)" for qs
    using assms(4) by (cases qs) (auto simp: end_value_def json_space_def pop_open_def lex_of_def string_state_def split: if_splits jopen.splits)
  have no: "begin_value c qs = None" "begin_string c qs = None" for qs
    using assms(4) by (elim disjE; simp add: begin_value_def begin_string_def json_space_def is_digit_def)+
  have chars: "\<not> json_space c" "\<not> is_digit c" "c \<noteq> CHR 0x22" "c \<noteq> CHR ''.''" "c \<noteq> CHR ''e''" "c \<noteq> CHR ''E''" "c \<noteq> CHR ''0''" "c \<noteq> CHR ''+''" "c \<noteq> CHR ''-''"
    using assms(4) by (elim disjE; simp add: json_space_def is_digit_def)+
  have lit: "q \<noteq> Lit (c # xs)" for xs
    using assms(2,4) by (elim disjE) (auto simp: scan_ok_def st)
  show ?thesis
  proof (cases "q = BeginStringOrEmpty")
    case True
    then obtain r where r: "ps = ObjectKey # r" using assms(2) by (cases ps) (auto simp: scan_ok_def st)
    have "end_value c (ObjectValue # r) = Some st'"
      using assms(1,4) True no by (auto simp: st r json_space_def split: if_splits)
    from e [OF this] r show ?thesis by (auto simp: st)
  next
    case False
    have nolit: "q \<noteq> Lit xs" for xs
    proof
      assume "q = Lit xs"
      with assms(1) lit show False by (cases xs) (auto simp: st split: if_splits)
    qed
    have "end_value c ps = Some st'"
      using assms(1,3,4) False no
      using chars nolit
      by (cases "(st, c)" rule: json_step.cases)
        (simp_all add: st lex_of_def string_state_def split: if_splits)
    from e [OF this] show ?thesis by (simp add: st)
  qed
qed

lemma json_step_comma:
  assumes "json_step st (CHR '','') = Some st'" "\<not> fst (lex_of st)" "scan_ok st"
  shows "snd st \<noteq> []"
proof -
  obtain q ps where st: "st = (q, ps)" by force
  show ?thesis using assms
    by (cases "(st, CHR '','')" rule: json_step.cases)
      (auto simp: st lex_of_def string_state_def json_space_def is_digit_def begin_value_def begin_string_def end_value_def scan_ok_def split: if_splits)
qed

lemma closer_length: "map closer ps = map closer qs \<Longrightarrow> length ps = length qs \<and> opens cl ps = opens cl qs"
proof -
  assume m: "map closer ps = map closer qs"
  then have "length ps = length qs" by (metis length_map)
  then show ?thesis using m by (induction ps qs rule: list_induct2) (auto simp: opens_def)
qed

text \<open>One step of the check and one step of the loops.\<close>

lemma json_step_lex:
  assumes "json_step st c = Some st'" "scan_ok st"
  shows "(fst (lex_of st) \<and> lex_of st' = lex_step (lex_of st) c \<and> map closer (snd st') = map closer (snd st)) \<or>
    (\<not> fst (lex_of st) \<and> (c = CHR ''{'' \<or> c = CHR ''['') \<and> lex_of st' = lex_of st \<and> map closer (snd st') = (if c = CHR ''{'' then CHR ''}'' else CHR '']'') # map closer (snd st)) \<or>
    (\<not> fst (lex_of st) \<and> (c = CHR ''}'' \<or> c = CHR '']'') \<and> lex_of st' = lex_of st \<and> map closer (snd st) = c # map closer (snd st')) \<or>
    (\<not> fst (lex_of st) \<and> c \<notin> {CHR ''{'', CHR ''['', CHR ''}'', CHR '']''} \<and> lex_of st' = lex_step (lex_of st) c \<and> map closer (snd st') = map closer (snd st))"
proof -
  define b where "b = balance_of st"
  define b' where "b' = balance_of st'"
  have b': "b' = balance_step c b" using json_step_balance [OF assms] by (simp add: b_def b'_def)
  have esc: "\<not> ba_inStr b \<Longrightarrow> \<not> ba_escaped b"
    by (cases st) (auto simp: b_def balance_of_simps string_state_def)
  have lx: "lex_of st = (ba_inStr b, ba_escaped b)" "lex_of st' = (ba_inStr b', ba_escaped b')"
    "map closer (snd st) = ba_stack b" "map closer (snd st') = ba_stack b'"
    by (simp_all add: balance_lex b_def b'_def) (simp_all add: balance_of_def)
  show ?thesis
  proof (cases "ba_inStr b")
    case True
    then show ?thesis unfolding lx b' by (simp add: balance_step_def)
  next
    case out: False
    then have ne: "\<not> ba_escaped b" by (rule esc)
    consider "c = CHR ''{'' \<or> c = CHR ''[''" | "c = CHR ''}'' \<or> c = CHR '']''" | "c = CHR 0x22" |
      "c \<notin> {CHR ''{'', CHR ''['', CHR ''}'', CHR '']'', CHR 0x22}" by blast
    then show ?thesis
    proof cases
      case 1
      then show ?thesis unfolding lx b' using out ne by (elim disjE) (simp_all add: balance_step_def)
    next
      case 2
      from json_step_close [OF assms _ 2] out obtain p where "snd st = p # snd st'" "closer p = c" "lex_of st' = (False, False)"
        by (auto simp: lx(1))
      then have "map closer (snd st) = c # map closer (snd st')" "lex_of st' = lex_of st" using out ne by (simp_all add: lx(1))
      then show ?thesis using 2 out by (simp add: lx(1))
    next
      case 3
      then show ?thesis unfolding lx b' using out ne by (simp add: balance_step_def)
    next
      case 4
      then show ?thesis unfolding lx b' using out ne by (simp add: balance_step_def)
    qed
  qed
qed

lemma closer_opens: "map closer ps = k # map closer qs \<Longrightarrow> length ps = Suc (length qs) \<and> opens cl ps = opens cl qs + (if k = cl then 1 else 0)"
proof -
  assume m: "map closer ps = k # map closer qs"
  then obtain p ps' where p: "ps = p # ps'" "closer p = k" "map closer ps' = map closer qs" by auto
  from closer_length [OF p(3), of cl] p(1,2) show ?thesis by (simp add: opens_def)
qed

lemma block_elems_scan:
  assumes "json_scan st v = Some st'" "scan_ok st"
  shows "block_elems (int (length (snd st))) (lex_of st) cur out (v @ s) =
    block_elems (int (length (snd st'))) (lex_of st') (rev v @ cur) out s"
  using assms
proof (induction v arbitrary: st cur)
  case (Cons c v)
  then obtain s1 where s1: "json_step st c = Some s1" "json_scan s1 v = Some st'" by (auto simp: bind_eq_Some_conv)
  have "block_elems (int (length (snd st))) (lex_of st) cur out (c # (v @ s)) =
      block_elems (int (length (snd s1))) (lex_of s1) (c # cur) out (v @ s)"
    using json_step_lex [OF s1(1) Cons.prems(2)]
  proof (elim disjE conjE, goal_cases)
    case 1
    with closer_length [of "snd s1" "snd st"] show ?case by simp
  next
    case 2
    with closer_opens [of "snd s1" _ "snd st"] show ?case by (simp add: add.commute [of 1])
  next
    case 3
    with closer_opens [of "snd s1" _ "snd st"] show ?case by (simp add: add.commute [of 1])
  next
    case 4
    with closer_opens [of "snd st" c "snd s1"] show ?case by simp
  next
    case 5
    with closer_opens [of "snd st" c "snd s1"] show ?case by simp
  next
    case 6
    have "c = CHR '','' \<Longrightarrow> snd st \<noteq> []" using json_step_comma [of st s1] s1(1) 6 Cons.prems(2) by simp
    then have "\<not> (c = CHR '','' \<and> int (length (snd st)) = 0)" by auto
    moreover have "length (snd s1) = length (snd st)" using 6 closer_length [of "snd s1" "snd st"] by simp
    ultimately show ?case using 6 by (simp only: block_elems.simps) simp
  qed
  with Cons.IH [OF s1(2) json_step_ok [OF s1(1) Cons.prems(2)]] show ?case by simp
qed simp

lemma match_end_scan:
  assumes "json_scan st v = Some st'" "scan_ok st" "1 \<le> d" "(op, cl) \<in> {(CHR ''['', CHR '']''), (CHR ''{'', CHR ''}'')}"
  shows "match_end op cl (d + opens cl (snd st)) (lex_of st) (v @ s) =
    map_option ((+) (length v)) (match_end op cl (d + opens cl (snd st')) (lex_of st') s)"
  using assms(1,2)
proof (induction v arbitrary: st)
  case Nil
  then show ?case by (simp add: option.map_ident)
next
  case (Cons c v)
  then obtain s1 where s1: "json_step st c = Some s1" "json_scan s1 v = Some st'" by (auto simp: bind_eq_Some_conv)
  have pos: "0 \<le> opens cl ps" for ps by (simp add: opens_def)
  have "match_end op cl (d + opens cl (snd st)) (lex_of st) (c # (v @ s)) =
      map_option Suc (match_end op cl (d + opens cl (snd s1)) (lex_of s1) (v @ s))"
    using json_step_lex [OF s1(1) Cons.prems(2)]
  proof (elim disjE conjE, goal_cases)
    case 1
    with closer_length [of "snd s1" "snd st"] show ?case by simp
  next
    case 2
    with closer_opens [of "snd s1" _ "snd st" cl] assms(4) show ?case by (auto simp: add.assoc)
  next
    case 3
    with closer_opens [of "snd s1" _ "snd st" cl] assms(4) show ?case by (auto simp: add.assoc)
  next
    case 4
    with closer_opens [of "snd st" c "snd s1" cl] assms(3,4) pos [of "snd s1"] show ?case by (auto simp: add.assoc)
  next
    case 5
    with closer_opens [of "snd st" c "snd s1" cl] assms(3,4) pos [of "snd s1"] show ?case by (auto simp: add.assoc)
  next
    case 6
    then have "c \<noteq> op" "c \<noteq> cl" using assms(4) by auto
    moreover have "c \<noteq> CHR 0x22 \<Longrightarrow> lex_step (lex_of st) c = lex_of st" using 6(1) by (cases "lex_of st") auto
    ultimately show ?case using 6 closer_length [of "snd s1" "snd st"] by (cases "c = CHR 0x22") simp_all
  qed
  with Cons.IH [OF s1(2) json_step_ok [OF s1(1) Cons.prems(2)]] show ?case
    by (simp add: option.map_comp comp_def)
qed

text \<open>Over a whole value.\<close>

lemma value_scan:
  assumes "value_text v"
  obtains st where "json_scan json_start v = Some st" "snd st = []" "lex_of st = (False, False)"
proof -
  obtain st where st: "json_scan json_start v = Some st" "json_ends st"
    using assms by (auto simp: value_text_def json_valid_def split: option.splits)
  have "scan_ok st'" if "json_scan st0 w = Some st'" "scan_ok st0" for st0 st' w
    using that by (induction w arbitrary: st0) (auto simp: bind_eq_Some_conv intro: json_step_ok)
  then have "scan_ok st" using st(1) scan_start_ok by blast
  from ends_states [OF st(2) this] have "snd st = []" "lex_of st = (False, False)"
    by (auto simp: scan_done_def number_done_def lex_of_def string_state_def)
  with st(1) show thesis by (rule that)
qed

lemma lex_start: "lex_of json_start = (False, False)" "snd json_start = []"
  by (simp_all add: lex_of_def json_start_def string_state_def)

lemma block_elems_value:
  assumes "value_text v"
  shows "block_elems 0 (False, False) cur out (v @ s) = block_elems 0 (False, False) (rev v @ cur) out s"
proof -
  from value_scan [OF assms] obtain st where "json_scan json_start v = Some st" "snd st = []" "lex_of st = (False, False)" .
  with block_elems_scan [OF this(1) scan_start_ok, of cur out s] show ?thesis by (simp add: lex_start)
qed

lemma match_end_value:
  assumes "value_text v" "1 \<le> d" "(op, cl) \<in> {(CHR ''['', CHR '']''), (CHR ''{'', CHR ''}'')}"
  shows "match_end op cl d (False, False) (v @ s) = map_option ((+) (length v)) (match_end op cl d (False, False) s)"
proof -
  from value_scan [OF assms(1)] obtain st where "json_scan json_start v = Some st" "snd st = []" "lex_of st = (False, False)" .
  with match_end_scan [OF this(1) scan_start_ok assms(2,3), of s] show ?thesis by (simp add: lex_start opens_def)
qed

text \<open>Arrays of values.\<close>

definition array_text :: "string list \<Rightarrow> string" where
  "array_text es = ''['' @ join '','' es @ '']''"

lemma block_elems_array:
  assumes "\<forall>e \<in> set es. value_text e"
  shows "block_elems 0 (False, False) [] out (join '','' es @ CHR '']'' # s) = Some (out @ es)"
  using assms
proof (induction "'','' :: string" es arbitrary: out rule: join.induct)
  case (2 e)
  then have "e \<noteq> []" by (simp add: value_text_def)
  with 2 show ?case using block_elems_value [of e "[]" out "CHR '']'' # s"] by simp
next
  case (3 e e' es)
  have "block_elems 0 (False, False) [] out (join '','' (e # e' # es) @ CHR '']'' # s) =
      block_elems 0 (False, False) [] (out @ [e]) (join '','' (e' # es) @ CHR '']'' # s)"
    using block_elems_value [of e "[]" out "CHR '','' # join '','' (e' # es) @ CHR '']'' # s"] 3(2) by simp
  with 3 show ?case by simp
qed simp

lemma match_end_array:
  assumes "\<forall>e \<in> set es. value_text e"
  shows "match_end (CHR ''['') (CHR '']'') 1 (False, False) (join '','' es @ CHR '']'' # s) = Some (Suc (length (join '','' es)))"
  using assms
proof (induction "'','' :: string" es rule: join.induct)
  case (2 e)
  then show ?case using match_end_value [of e 1 "CHR ''[''" "CHR '']''" "CHR '']'' # s"] by simp
next
  case (3 e e' es)
  then show ?case
    using match_end_value [of e 1 "CHR ''[''" "CHR '']''" "CHR '','' # join '','' (e' # es) @ CHR '']'' # s"] by simp
qed simp

end
