(* ===== verification/BlockRef.thy ===== *)
theory BlockRef
  imports BlockView
begin

text \<open>
  The reference that stands for the blocks of a view: it is parsed back from its text, a view is
  taken apart and put together around it, and the store behind it holds exactly the blocks of the
  last commit, so writing and reading a view gives the same bytes.
\<close>

section \<open>The reference is read back\<close>

definition ref_body :: "ref_doc \<Rightarrow> string" where
  "ref_body d = ''{'' @ quoted_name ''store'' @ json_quote (rd_Store d) @ '','' @
     quoted_name ''sum'' @ json_quote (rd_Sum d) @ '','' @ quoted_name ''count'' @ show_int (rd_Count d) @ '','' @
     quoted_name ''schema'' @ show_int (rd_Schema d) @ ''}''"

lemma marshal_ref_body: "marshal_ref d = ''{'' @ quoted_name blocksRefKey @ ref_body d @ ''}''"
  by (simp add: marshal_ref_def ref_body_def)

lemma plain_names: "plain_key ''store''" "plain_key ''sum''" "plain_key ''count''" "plain_key ''schema''" "plain_key ''$blocks_ref''" "plain_key ''blocks''"
  by (simp_all add: plain_key_def)

lemma scan_named:
  "plain_key k \<Longrightarrow> json_scan (BeginStringOrEmpty, ObjectKey # ps) (quoted_name k @ s) = json_scan (BeginValue, ObjectValue # ps) s"
  "plain_key k \<Longrightarrow> json_scan (BeginString, ObjectKey # ps) (quoted_name k @ s) = json_scan (BeginValue, ObjectValue # ps) s"
  using scan_key [of k ps s] by (simp_all add: quoted_name_def del: json_scan.simps)

lemma scan_ref_body:
  assumes "length ps < 500"
  shows "json_scan (BeginValue, ps) (ref_body (ref_to base chk n) @ s) =
    json_scan (EndValue, [ObjectValue] @ ps) (CHR ''}'' # s)"
proof -
  have i: "show_int (int n) = show_nat n" "show_int 1 = show_nat 1" by (simp_all add: show_int_def)
  have "length ps < 1000" using assms by simp
  then show ?thesis
    by (simp add: ref_body_def ref_to_def i scan_brace_open scan_named plain_names scan_string scan_next scan_number del: json_scan.simps One_nat_def)
qed

lemma ref_body_value: "value_text (ref_body (ref_to base chk n))"
proof -
  have "json_scan json_start (ref_body (ref_to base chk n) @ []) = Some (EndTop, [])"
    using scan_ref_body [of "[]" base chk n "[]"] by (simp add: json_start_def scan_close del: json_scan.simps) simp
  then have "json_scan json_start (ref_body (ref_to base chk n)) = Some (EndTop, [])" by simp
  then show ?thesis by (simp add: value_text_def json_valid_def json_ends_def) (simp add: ref_body_def json_space_def)
qed

lemma marshal_ref_valid: "json_valid (marshal_ref (ref_to base chk n))"
proof -
  have "json_scan json_start (marshal_ref (ref_to base chk n)) = json_scan (BeginStringOrEmpty, [ObjectKey]) (quoted_name blocksRefKey @ ref_body (ref_to base chk n) @ ''}'')"
    by (simp add: marshal_ref_body json_start_def begin_value_def json_space_def push_open_def maxNestingDepth_def)
  also have "\<dots> = json_scan (EndValue, [ObjectValue, ObjectValue]) ''}}''"
    using scan_named(1) [of blocksRefKey "[]"] scan_ref_body [of "[ObjectValue]" base chk n "''}''"]
    by (simp add: plain_names blocksRefKey_def del: json_scan.simps)
  also have "\<dots> = Some (EndTop, [])" by (simp add: end_value_def json_space_def pop_open_def)
  finally show ?thesis by (simp add: json_valid_def json_ends_def)
qed

text \<open>One member of an object, by the shape of its text.\<close>

lemma obj_fold_member:
  assumes "plain_key k" "value_text v" "is_delim c"
  shows "obj_fold f True (quoted_name k @ v @ c # s) x =
      (case f k v x of Some x' \<Rightarrow> obj_fold f False (c # s) x' | None \<Rightarrow> None)"
    "obj_fold f False (CHR '','' # quoted_name k @ v @ c # s) x =
      (case f k v x of Some x' \<Rightarrow> obj_fold f False (c # s) x' | None \<Rightarrow> None)"
  using next_key_first [OF assms(1), of "CHR '':'' # v @ c # s"] next_key_comma [OF assms(1), of "CHR '':'' # v @ c # s"]
    member_value_text [OF assms(2,3), of s] unquote_plain [OF assms(1)]
  by (subst obj_fold.simps, simp add: quoted_name_def)+

lemma obj_fold_end: "obj_fold f first (CHR ''}'' # s) x = Some x"
  by (subst obj_fold.simps) (simp add: next_key_def skip_ws_def json_space_def)

lemma decode_int_show: "n < 2 ^ 63 \<Longrightarrow> decode_int x (show_nat n) = Some (int n)"
proof -
  assume n: "n < 2 ^ 63"
  have d: "\<forall>c \<in> set (show_nat n). is_digit c" by (rule show_nat_digits)
  have "show_nat n \<noteq> ''null''"
  proof
    assume "show_nat n = ''null''"
    with d have "is_digit (CHR ''n'')" by simp
    then show False by (simp add: is_digit_def)
  qed
  moreover have "show_nat n ! 0 \<noteq> CHR ''-''"
  proof
    assume "show_nat n ! 0 = CHR ''-''"
    moreover have "show_nat n ! 0 \<in> set (show_nat n)" by (simp add: nth_mem)
    ultimately have "is_digit (CHR ''-'')" using d by metis
    then show False by (simp add: is_digit_def)
  qed
  moreover have "int n < 2 ^ 63" using n by (metis of_nat_less_iff of_nat_numeral of_nat_power)
  ultimately show ?thesis using d by (simp add: decode_int_def)
qed

lemma decode_quoted: "\<exists>y. decode_string x (json_quote s) = Some y"
  by (simp add: decode_string_def unquote_def json_quote_def)

text \<open>Text that is written without escapes.\<close>

definition plain_text :: "string \<Rightarrow> bool" where
  "plain_text s \<longleftrightarrow> (\<forall>c \<in> set s. 32 \<le> (of_char c :: nat) \<and> (of_char c :: nat) < 128 \<and> c \<notin> set ''<>&'' \<and> c \<noteq> CHR 0x22 \<and> c \<noteq> CHR 0x5C)"

lemma decode_plain: "plain_text s \<Longrightarrow> decode_string x (json_quote s) = Some s"
proof -
  assume s: "plain_text s"
  then have "plain_key s" by (simp add: plain_text_def plain_key_def)
  moreover have "json_quote s = CHR 0x22 # s @ [CHR 0x22]" using plain_quote_fuel s by (simp add: json_quote_def plain_text_def)
  ultimately show ?thesis using unquote_plain by (simp add: decode_string_def)
qed

lemma unmarshal_ref_body:
  assumes "plain_text chk" "n < 2 ^ 63"
  shows "\<exists>st. unmarshal_object ref_field (ref_body (ref_to base chk n)) zero_ref =
    Some \<lparr>rd_Store = st, rd_Sum = chk, rd_Count = int n, rd_Schema = 1\<rparr>"
proof -
  obtain st where st: "decode_string [] (json_quote base) = Some st" using decode_quoted by blast
  have i: "show_int (int n) = show_nat n" "show_int 1 = show_nat 1" by (simp_all add: show_int_def)
  have dl: "is_delim (CHR '','')" "is_delim (CHR ''}'')" by (simp_all add: is_delim_def)
  have one: "decode_int 0 (show_nat 1) = Some 1" using decode_int_show [of 1 0] by simp
  have "ref_body (ref_to base chk n) = CHR ''{'' # quoted_name ''store'' @ json_quote base @ CHR '','' # quoted_name ''sum'' @ json_quote chk @
      CHR '','' # quoted_name ''count'' @ show_nat n @ CHR '','' # quoted_name ''schema'' @ show_nat 1 @ CHR ''}'' # []"
    by (simp add: ref_body_def ref_to_def i del: One_nat_def)
  then have "unmarshal_object ref_field (ref_body (ref_to base chk n)) zero_ref = obj_fold ref_field True
      (quoted_name ''store'' @ json_quote base @ CHR '','' # quoted_name ''sum'' @ json_quote chk @
      CHR '','' # quoted_name ''count'' @ show_nat n @ CHR '','' # quoted_name ''schema'' @ show_nat 1 @ CHR ''}'' # []) zero_ref"
    by (simp add: unmarshal_object_def skip_ws_def json_space_def del: One_nat_def)
  also have "\<dots> = Some \<lparr>rd_Store = st, rd_Sum = chk, rd_Count = int n, rd_Schema = 1\<rparr>"
    by (simp add: obj_fold_member plain_names quote_value show_nat_value dl obj_fold_end ref_field_def zero_ref_def st
        decode_plain [OF assms(1)] decode_int_show [OF assms(2)] one del: One_nat_def)
  finally show ?thesis by blast
qed

lemma parse_marshal_ref:
  assumes "plain_text chk" "n < 2 ^ 63"
  shows "\<exists>st. parse_ref (marshal_ref (ref_to base chk n)) =
    Some (Some \<lparr>rd_Store = st, rd_Sum = chk, rd_Count = int n, rd_Schema = 1\<rparr>)"
proof -
  obtain st where st: "unmarshal_object ref_field (ref_body (ref_to base chk n)) zero_ref =
    Some \<lparr>rd_Store = st, rd_Sum = chk, rd_Count = int n, rd_Schema = 1\<rparr>" using unmarshal_ref_body [OF assms] by blast
  have "is_delim (CHR ''}'')" by (simp add: is_delim_def)
  then show ?thesis
    using marshal_ref_valid [of base chk n] plain_names(5) ref_body_value [of base chk n] st
    by (simp add: parse_ref_def marshal_ref_body unmarshal_object_def skip_ws_def json_space_def blocksRefKey_def
        obj_fold_member obj_fold_end)
qed

section \<open>The frame of a view\<close>

text \<open>What surrounds the blocks: an object in which the key occurs first, and at the top level, in
  front of the array.\<close>

definition view_frame :: "string \<Rightarrow> string \<Rightarrow> bool" where
  "view_frame pre post \<longleftrightarrow> str_index (pre @ blocks_key) blocks_key = Some (length pre) \<and>
     fst (fold level_step pre ((0, 0), (False, False))) = (1, 0) \<and>
     pre \<noteq> [] \<and> pre ! 0 = CHR ''{'' \<and> post \<noteq> [] \<and> last post = CHR ''}''"

lemma str_index_first: "str_index (pre @ p) p = Some (length pre) \<Longrightarrow> str_index (pre @ p @ x) p = Some (length pre)"
proof (induction pre)
  case Nil
  have "has_prefix (p @ x) p" by simp
  then show ?case by (cases "p @ x") auto
next
  case (Cons c pre)
  have "has_prefix (c # pre @ p @ x) p = has_prefix (c # pre @ p) p"
    using take_append [of "length p" "c # pre @ p" x] by (simp add: has_prefix_def)
  with Cons show ?case by (auto split: if_splits)
qed

lemma frame_index: "view_frame pre post \<Longrightarrow> str_index (pre @ blocks_key @ x) blocks_key = Some (length pre)"
  by (simp add: view_frame_def str_index_first)

lemma frame_trim:
  assumes "view_frame pre post"
  shows "trim_space (pre @ blocks_key @ x @ post) = pre @ blocks_key @ x @ post"
proof (rule trim_space_printable)
  obtain t where "pre = CHR ''{'' # t" using assms by (cases pre) (auto simp: view_frame_def)
  then show "printable (hd (pre @ blocks_key @ x @ post))" by (simp add: printable_def)
  show "printable (last (pre @ blocks_key @ x @ post))" using assms by (simp add: view_frame_def printable_def)
qed (use assms in \<open>simp add: view_frame_def\<close>)

text \<open>A bracketed value is skipped as a whole.\<close>

definition bracketed :: "string \<Rightarrow> bool" where
  "bracketed v \<longleftrightarrow> (\<exists>w. v = CHR ''['' # w \<and> (\<forall>s. match_end (CHR ''['') (CHR '']'') 1 (False, False) (w @ s) = Some (length w))) \<or>
     (\<exists>w. v = CHR ''{'' # w \<and> (\<forall>s. match_end (CHR ''{'') (CHR ''}'') 1 (False, False) (w @ s) = Some (length w)))"

lemma bracketed_match:
  assumes "bracketed v" "b = a @ v @ s"
  shows "v \<noteq> []" "\<not> json_space (v ! 0)"
    "v ! 0 = CHR ''['' \<Longrightarrow> matchJSONEnd b (length a) (CHR ''['') (CHR '']'') = Some (length a + length v)"
    "v ! 0 \<noteq> CHR ''['' \<Longrightarrow> v ! 0 = CHR ''{'' \<and> matchJSONEnd b (length a) (CHR ''{'') (CHR ''}'') = Some (length a + length v)"
  using assms by (auto simp: bracketed_def matchJSONEnd_def json_space_def)

lemma array_bracketed: "\<forall>e \<in> set es. value_text e \<Longrightarrow> bracketed (array_text es)"
  using match_end_array [of es] by (simp add: bracketed_def array_text_def)

lemma ref_bracketed: "bracketed (marshal_ref (ref_to base chk n))"
proof -
  define w where "w = quoted_name blocksRefKey @ ref_body (ref_to base chk n) @ ''}''"
  have q: "match_end (CHR ''{'') (CHR ''}'') 1 (False, False) (quoted_name blocksRefKey @ s) =
      map_option ((+) (length (quoted_name blocksRefKey))) (match_end (CHR ''{'') (CHR ''}'') 1 (False, False) s)" for s
    by (cases "match_end (CHR ''{'') (CHR ''}'') 1 (False, False) s") (simp_all add: quoted_name_def blocksRefKey_def)
  have "match_end (CHR ''{'') (CHR ''}'') 1 (False, False) (w @ s) = Some (length w)" for s
    using match_end_value [OF ref_body_value [of base chk n], of 1 "CHR ''{''" "CHR ''}''" "CHR ''}'' # s"]
    by (simp add: w_def q)
  then show ?thesis by (simp add: bracketed_def marshal_ref_body w_def)
qed

lemma skip_to_value: "bracketed v \<Longrightarrow> dropWhile json_space (v @ s) = v @ s"
  using bracketed_match(1,2) [of v "v @ s" "[]" s] by (cases v) auto

lemma replace_in_frame:
  assumes f: "view_frame pre post" and v: "bracketed v"
  shows "replaceJSONField (pre @ blocks_key @ v @ post) ''blocks'' val = Some (pre @ blocks_key @ val @ post)"
proof -
  define t where "t = pre @ blocks_key @ v @ post"
  have trim: "trim_space t = t" using frame_trim [OF f] by (simp add: t_def)
  have key: "[CHR 0x22] @ ''blocks'' @ [CHR 0x22] @ '':'' = blocks_key" by (simp add: blocks_key_def)
  have shape: "\<not> (length t < 2 \<or> t ! 0 \<noteq> CHR ''{'' \<or> last t \<noteq> CHR ''}'')"
  proof -
    have "t ! 0 = pre ! 0" using f by (cases pre) (auto simp: t_def view_frame_def)
    moreover have "last t = last post" "2 \<le> length t" using f by (auto simp: t_def view_frame_def blocks_key_def)
    ultimately show ?thesis using f by (simp add: view_frame_def)
  qed
  have ix: "str_index t blocks_key = Some (length pre)" using frame_index [OF f] by (simp add: t_def)
  have top: "topLevelKey t (length pre)" using f by (simp add: topLevelKey_def t_def view_frame_def)
  have rest: "drop (length pre + length blocks_key) t = v @ post" by (simp add: t_def)
  note m = bracketed_match [OF v, of t "pre @ blocks_key" post]
  have t': "t = (pre @ blocks_key) @ v @ post" by (simp add: t_def)
  have v0: "(v @ post) ! 0 = v ! 0" using m(1) [OF t'] by (cases v) simp_all
  have sp: "dropWhile json_space (v @ post) = v @ post" by (rule skip_to_value [OF v])
  have e: "(if v ! 0 = CHR ''['' then matchJSONEnd t (length pre + length blocks_key) (CHR ''['') (CHR '']'')
            else if v ! 0 = CHR ''{'' then matchJSONEnd t (length pre + length blocks_key) (CHR ''{'') (CHR ''}'')
            else y) = Some (length pre + length blocks_key + length v)" for y
    using m(3,4) [OF t'] by (cases "v ! 0 = CHR ''[''") simp_all
  have ne: "v @ post \<noteq> []" using m(1) [OF t'] by simp
  show ?thesis unfolding t_def [symmetric] replaceJSONField_def Let_def trim key ix option.case rest sp v0 diff_self_eq_0 add_0_right e
    using shape top ne by (simp add: t_def)
qed

lemma split_in_frame:
  assumes f: "view_frame pre post" and v: "bracketed v"
  shows "splitViewBlocks (pre @ blocks_key @ v @ post) = Some v"
proof -
  define t where "t = pre @ blocks_key @ v @ post"
  have ix: "str_index t blocks_key = Some (length pre)" using frame_index [OF f] by (simp add: t_def)
  have rest: "drop (length pre + length blocks_key) t = v @ post" by (simp add: t_def)
  note m = bracketed_match [OF v, of t "pre @ blocks_key" post]
  have t': "t = (pre @ blocks_key) @ v @ post" by (simp add: t_def)
  have v0: "(v @ post) ! 0 = v ! 0" using m(1) [OF t'] by (cases v) simp_all
  have sp: "dropWhile json_space (v @ post) = v @ post" by (rule skip_to_value [OF v])
  have ne: "v @ post \<noteq> []" using m(1) [OF t'] by simp
  have cut: "sub (length pre + length blocks_key) (length pre + length blocks_key + length v) t = v"
    by (simp add: t_def sub_def)
  have m': "v ! 0 = CHR ''['' \<Longrightarrow> matchJSONEnd t (length pre + length blocks_key) (CHR ''['') (CHR '']'') = Some (length pre + length blocks_key + length v)"
    "v ! 0 \<noteq> CHR ''['' \<Longrightarrow> v ! 0 = CHR ''{'' \<and> matchJSONEnd t (length pre + length blocks_key) (CHR ''{'') (CHR ''}'') = Some (length pre + length blocks_key + length v)"
    using m(3,4) [OF t'] by simp_all
  show ?thesis unfolding t_def [symmetric] splitViewBlocks_def Let_def ix option.case rest sp v0 diff_self_eq_0 add_0_right
    using m' ne cut by (cases "v ! 0 = CHR ''[''") simp_all
qed

lemma find_in_frame:
  assumes f: "view_frame pre post" and es: "\<forall>e \<in> set es. value_text e"
  shows "findBlocksField (pre @ blocks_key @ array_text es @ post) = Some es"
proof -
  have "str_index (pre @ blocks_key @ array_text es @ post) blocks_key = Some (length pre)" using frame_index [OF f] by simp
  then show ?thesis using block_elems_array [OF es, of "[]" post]
    by (simp add: findBlocksField_def array_text_def json_space_def)
qed

section \<open>The blocks of a commit\<close>

lemma decode_uint64_less: "decode_uint64 0 v = Some n \<Longrightarrow> n < 2 ^ 64"
  by (simp add: decode_uint64_def split: if_splits)

lemma block_id_canonical: "block_id_from first s = Some i \<Longrightarrow> \<exists>v < 2 ^ 64. i = show_nat v"
proof (induction first s rule: block_id_from.induct)
  case (1 first s)
  show ?case
  proof (cases "next_key first s")
    case (Key k r)
    note step = 1(2) [unfolded block_id_from.simps [of first s] Key key_result.case]
    show ?thesis
    proof (cases "unquote k = Some ''id''")
      case True
      with step obtain v r' n where "decode_uint64 0 v = Some n" "i = show_nat n" by (auto simp: bind_eq_Some_conv)
      then show ?thesis using decode_uint64_less by blast
    next
      case False
      with step obtain v r' where v: "member_value r = Some (v, r')" "block_id_from False r' = Some i"
        by (auto split: option.splits)
      show ?thesis by (rule 1(1) [OF Key False v(1) refl v(2)])
    qed
  qed (use 1(2) in \<open>simp_all add: block_id_from.simps [of first s]\<close>)
qed

lemma blockID_canonical:
  assumes "blockID e = Some i"
  shows "\<exists>v < 2 ^ 64. i = uintToString v"
proof -
  have "digit 0 = CHR ''0''" by code_simp
  then have "show_nat v = uintToString v" for v by (simp add: uintToString_def show_nat.simps [of 0])
  moreover obtain t where "block_id_from True t = Some i" using assms by (auto simp: blockID_def split: list.splits if_splits)
  ultimately show ?thesis using block_id_canonical [of True t i] by simp
qed

definition block_ids :: "nat list \<Rightarrow> string list" where "block_ids vs = map uintToString vs"

lemma ref_elems_ok:
  assumes "store_ok sha l bs" "map blockID es = map Some ids" "distinct ids" "\<forall>e \<in> set es. length e < 2 ^ 31"
    and "\<forall>(i, e) \<in> set (zip ids es). \<forall>p. log_contents l i = Some p \<longrightarrow> payloadDigest sha p = payloadDigest sha e \<longrightarrow> p = e"
  shows "\<exists>w' l' bs'. ref_elems sha es w bs = (Some w', bs') \<and> store_ok sha l' bs' \<and>
    log_contents l' = log_contents l ++ map_of (zip ids es) \<and> bs_disk bs' = bs_disk bs"
  using assms
proof (induction es arbitrary: w l bs ids)
  case (Cons e es)
  then obtain i ids' where ids: "ids = i # ids'" "blockID e = Some i" "map blockID es = map Some ids'" by (cases ids) auto
  have fits: "entry_fits (blockRecPut, i, e)"
    using blockID_canonical [OF ids(2)] Cons.prems(4) by (auto intro: put_fits)
  have new: "i \<notin> set ids'" "distinct ids'" using Cons.prems(3) ids by auto
  have rest: "log_contents l'' ++ map_of (zip ids' es) = log_contents l ++ map_of (zip ids (e # es))"
    if "log_contents l'' = (log_contents l)(i \<mapsto> e)" for l''
    using that new(1) by (auto simp: ids map_add_def fun_eq_iff split: option.splits dest!: map_of_SomeD set_zip_leftD)
  have later: "\<forall>(j, x) \<in> set (zip ids' es). \<forall>p. log_contents l'' j = Some p \<longrightarrow> payloadDigest sha p = payloadDigest sha x \<longrightarrow> p = x"
    if l'': "log_contents l'' = (log_contents l)(i \<mapsto> e)" for l''
  proof (intro ballI, clarify)
    fix j x p assume z: "(j, x) \<in> set (zip ids' es)" "log_contents l'' j = Some p" "payloadDigest sha p = payloadDigest sha x"
    then have "j \<noteq> i" using new(1) set_zip_leftD by metis
    with z(2) l'' have "log_contents l j = Some p" by simp
    moreover have "(j, x) \<in> set (zip ids (e # es))" using z(1) ids(1) by simp
    ultimately show "p = x" using Cons.prems(5) z(3) by blast
  qed
  have put: "\<exists>w' l' bs'. ref_elems sha es w2 (store_put sha i e bs) = (Some w', bs') \<and> store_ok sha l' bs' \<and>
      log_contents l' = log_contents l ++ map_of (zip ids (e # es)) \<and> bs_disk bs' = bs_disk bs" for w2
  proof -
    have ok: "store_ok sha (l @ [(blockRecPut, i, e)]) (store_put sha i e bs)"
      using append_ok [OF Cons.prems(1) fits] by (simp add: store_put_def)
    have c: "log_contents (l @ [(blockRecPut, i, e)]) = (log_contents l)(i \<mapsto> e)" by (simp add: log_contents_def apply_spec_def)
    have "bs_disk (store_put sha i e bs) = bs_disk bs" by (simp add: store_put_def append_record_def Let_def)
    with Cons.IH [OF ok ids(3) new(2) _ later [OF c], of w2] Cons.prems(4) rest [OF c] show ?thesis by auto
  qed
  show ?case
  proof (cases "\<not> isLiveBlock e \<and> holdsSame sha bs i e")
    case True
    then obtain r where r: "map_of (bs_index bs) i = Some r" "rf_hash r = payloadDigest sha e" by (auto simp: holdsSame_def split: option.splits)
    then have "log_contents l i = Some e"
    proof -
      obtain p where p: "log_contents l i = Some p" "payloadDigest sha p = payloadDigest sha e"
        by (rule points_cases [OF store_points [OF Cons.prems(1)], of i]) (use r in \<open>auto simp: ref_ok_def\<close>)
      moreover have "(i, e) \<in> set (zip ids (e # es))" by (simp add: ids)
      ultimately show ?thesis using Cons.prems(5) by blast
    qed
    then have c: "log_contents l = (log_contents l)(i \<mapsto> e)" by (simp add: map_upd_triv)
    have "\<exists>w' l' bs'. ref_elems sha es w bs = (Some w', bs') \<and> store_ok sha l' bs' \<and>
      log_contents l' = log_contents l ++ map_of (zip ids' es) \<and> bs_disk bs' = bs_disk bs"
      using Cons.IH [OF Cons.prems(1) ids(3) new(2) _ later [OF c]] Cons.prems(4) by simp
    with rest [OF c] True ids(2) show ?thesis by simp
  next
    case False
    with put [of "w + 1"] ids(2) show ?thesis by auto
  qed
qed auto

section \<open>Digest and array of a set of blocks\<close>

text \<open>Ids in any order name the same digest and the same array.\<close>

lemma those_canonical:
  assumes "\<forall>v \<in> set ns. v < 2 ^ 64"
  shows "those (map parseUintID (block_ids ns)) = Some ns" "those (map ParseUint (block_ids ns)) = Some ns"
proof -
  have z: "digit 0 = CHR ''0''" by code_simp
  have "ParseUint (uintToString v) = Some v" if "v < 2 ^ 64" for v
  proof -
    have "uintToString v = show_nat v" using z by (simp add: uintToString_def show_nat.simps [of 0])
    then show ?thesis using that show_nat_digits [of v] by (simp add: ParseUint_def)
  qed
  then show "those (map ParseUint (block_ids ns)) = Some ns"
    using assms those_Some [of ns "ParseUint \<circ> uintToString" id] by (simp add: block_ids_def)
  show "those (map parseUintID (block_ids ns)) = Some ns"
    using assms parse_uintToString those_Some [of ns "parseUintID \<circ> uintToString" id] by (simp add: block_ids_def)
qed

lemma by_num: "v \<in> set ns \<Longrightarrow> map_of (rev (zip ns (block_ids ns))) v = Some (uintToString v)"
proof -
  assume v: "v \<in> set ns"
  have z: "rev (zip ns (block_ids ns)) = map (\<lambda>v. (v, uintToString v)) (rev ns)"
    by (induction ns) (simp_all add: block_ids_def)
  show ?thesis unfolding z using v by (induction "rev ns" arbitrary: ns) (auto simp: map_of_map_restrict comp_def)
qed

definition blocks_digest :: "(string \<Rightarrow> string) \<Rightarrow> (string \<rightharpoonup> string) \<Rightarrow> nat list \<Rightarrow> string" where
  "blocks_digest sha c vs =
     setSumPrefix @ hex (sha (concat (map (\<lambda>v. be 8 v @ payloadDigest sha (the (c (uintToString v)))) vs)))"

lemma set_sum:
  assumes "store_ok sha l bs" "\<forall>v \<in> set ns. v < 2 ^ 64 \<and> log_contents l (uintToString v) \<noteq> None"
  shows "blocksSetSum sha bs (block_ids ns) = Some (blocks_digest sha (log_contents l) (sort ns))"
proof -
  have "map_option (\<lambda>r. be 8 v @ rf_hash r) (map_of (bs_index bs) (the (map_of (rev (zip ns (block_ids ns))) v))) =
      Some (be 8 v @ payloadDigest sha (the (log_contents l (uintToString v))))" if v: "v \<in> set ns" for v
    by (rule points_cases [OF store_points [OF assms(1)], of "uintToString v"])
      (use v by_num [OF v] assms(2) in \<open>auto simp: ref_ok_def\<close>)
  then have "those (map (\<lambda>v. map_option (\<lambda>r. be 8 v @ rf_hash r) (map_of (bs_index bs) (the (map_of (rev (zip ns (block_ids ns))) v)))) (sort ns)) =
      Some (map (\<lambda>v. be 8 v @ payloadDigest sha (the (log_contents l (uintToString v)))) (sort ns))"
    by (intro those_Some) simp
  then show ?thesis using those_canonical(1) [of ns] assms(2) by (simp add: blocksSetSum_def blocks_digest_def Let_def)
qed

lemma sort_key_pairs: "sort_key fst (map (\<lambda>v. (v, f v)) ns) = map (\<lambda>v. (v, f v)) (sort ns)" for ns :: "nat list"
proof (induction ns)
  case (Cons n ns)
  have "insort_key fst (n, f n) (map (\<lambda>v. (v, f v)) xs) = map (\<lambda>v. (v, f v)) (insort n xs)" for xs
    by (induction xs) auto
  with Cons show ?case by simp
qed simp

lemma assemble_ids:
  assumes "store_ok sha l bs" "bs_pend bs = []" "allIDs bs = block_ids ns" "\<forall>v \<in> set ns. v < 2 ^ 64"
  shows "assemble sha bs = Some (array_text (map (\<lambda>v. the (log_contents l (uintToString v))) (sort ns)))"
proof -
  have r: "readAndVerify sha bs = log_contents l"
    by (rule points_readAndVerify) (use store_points [OF assms(1)] assms(2) in simp)
  have k: "log_contents l (uintToString v) \<noteq> None" if "v \<in> set ns" for v
  proof -
    have "set (map fst (bs_index bs)) = uintToString ` set ns" using arg_cong [OF assms(3), of set] by (simp add: allIDs_def block_ids_def)
    then have "uintToString v \<in> dom (log_contents l)" using contents_keys [OF assms(1)] that by simp
    then show ?thesis by blast
  qed
  have "zip ns (block_ids ns) = map (\<lambda>v. (v, uintToString v)) ns" by (simp add: block_ids_def zip_map2 zip_same_conv_map)
  then have "those (map (\<lambda>(v, i). readAndVerify sha bs i) (sort_key fst (zip ns (block_ids ns)))) =
      Some (map (\<lambda>v. the (log_contents l (uintToString v))) (sort ns))"
    using those_Some [of "sort ns" "\<lambda>v. readAndVerify sha bs (uintToString v)" "\<lambda>v. the (log_contents l (uintToString v))"] k
    by (auto simp: sort_key_pairs r comp_def)
  then show ?thesis using those_canonical(2) [OF assms(4)] by (simp add: assemble_def assms(3) array_text_def)
qed

lemma index_ids:
  assumes "store_ok sha l bs"
  obtains ns where "allIDs bs = block_ids ns" "\<forall>v \<in> set ns. v < 2 ^ 64" "distinct ns"
    "\<forall>v \<in> set ns. log_contents l (uintToString v) \<noteq> None" "store_Len bs = length ns"
    "dom (log_contents l) = uintToString ` set ns"
proof -
  have "\<exists>ns. is = block_ids ns \<and> (\<forall>v \<in> set ns. v < 2 ^ 64)" if "set is \<subseteq> set (allIDs bs)" for "is"
    using that
  proof (induction "is")
    case (Cons i "is")
    then have "i \<in> set (map fst (bs_index bs))" by (simp add: allIDs_def)
    from index_id [OF assms this] obtain v where "v < 2 ^ 64" "i = uintToString v" by blast
    moreover obtain ns where "is = block_ids ns" "\<forall>v \<in> set ns. v < 2 ^ 64" using Cons by auto
    ultimately show ?case by (intro exI [of _ "v # ns"]) (simp add: block_ids_def)
  qed (simp add: block_ids_def)
  then obtain ns where ns: "allIDs bs = block_ids ns" "\<forall>v \<in> set ns. v < 2 ^ 64" by blast
  have d: "distinct (allIDs bs)" using assms by (simp add: store_ok_def allIDs_def)
  then have "distinct ns" by (simp add: ns(1) block_ids_def distinct_map)
  moreover have k: "dom (log_contents l) = uintToString ` set ns"
    using contents_keys [OF assms] arg_cong [OF ns(1), of set] by (simp add: allIDs_def block_ids_def)
  moreover have "store_Len bs = length ns" using arg_cong [OF ns(1), of length] by (simp add: allIDs_def block_ids_def store_Len_def)
  moreover have "\<forall>v \<in> set ns. log_contents l (uintToString v) \<noteq> None" using k by blast
  ultimately show thesis using that [OF ns] by blast
qed

section \<open>What is written is what is read\<close>

lemma open_flushed:
  assumes "store_ok sha l b" "bs_pend b = []" "\<And>x. length (sha x) = 32"
  shows "\<exists>b'. openBlockStore sha (bs_disk b) (bs_idx b) = Some b' \<and> store_ok sha l b' \<and> bs_pend b' = []"
proof -
  from reopen_ok [of sha l b "length (bs_disk b)"] assms
  obtain b' l' where b': "openBlockStore sha (bs_disk b) (bs_idx b) = Some b'" "prefix l' l" "store_ok sha l' b'" "bs_pend b' = []"
    "\<forall>l''. prefix l'' l \<longrightarrow> 8 + length (log_bytes sha l'') \<le> length (bs_disk b) \<longrightarrow> prefix l'' l'" by auto
  have "length (bs_disk b) = 8 + length (log_bytes sha l)" using assms(1,2) by (simp add: store_ok_def)
  with b'(5) have "prefix l l'" by simp
  with b'(2) have "l' = l" by (simp add: prefix_order.antisym)
  with b' show ?thesis by auto
qed

lemma hex_plain: "plain_text (hex s)"
proof -
  have "plain_text [hex_digit d]" if d: "d < 16" for d
  proof -
    have n: "(of_char (hex_digit d) :: nat) = (if d < 10 then 48 + d else 87 + d)" using d by (simp add: hex_digit_def)
    have ne: "hex_digit d \<noteq> x" if "(of_char x :: nat) < 48 \<or> (57 < (of_char x :: nat) \<and> (of_char x :: nat) < 97)" for x
      using n that d by (auto split: if_splits)
    have "hex_digit d \<noteq> CHR ''<''" "hex_digit d \<noteq> CHR ''>''" "hex_digit d \<noteq> CHR ''&''" "hex_digit d \<noteq> CHR 0x22" "hex_digit d \<noteq> CHR 0x5C"
      by (rule ne, simp)+
    then show ?thesis using n d by (simp add: plain_text_def)
  qed
  moreover have "(of_char c :: nat) div 16 < 16" "(of_char c :: nat) mod 16 < 16" for c :: char
    using byte_less [of c] by (simp_all add: less_mult_imp_div_less)
  ultimately show ?thesis by (induction s) (auto simp: hex_def plain_text_def)
qed

lemma digest_plain: "plain_text (blocks_digest sha c vs)"
  using hex_plain by (auto simp: blocks_digest_def plain_text_def setSumPrefix_def)

lemma marshal_ref_trim: "trim_space (marshal_ref d) = marshal_ref d"
  by (rule trim_space_printable) (simp_all add: marshal_ref_body printable_def)

lemma marshal_ref_marked: "contains (marshal_ref d) blocksRefKey"
proof -
  have "marshal_ref d = [CHR ''{'', CHR 0x22] @ blocksRefKey @ ([CHR 0x22] @ '':'' @ ref_body d @ ''}'')"
    by (simp add: marshal_ref_body quoted_name_def)
  then show ?thesis using contains_append by metis
qed

text \<open>A store that holds exactly the blocks of the reference gives the array back.\<close>

lemma resolve_in_frame:
  assumes f: "view_frame pre post" and sha: "\<And>x. length (sha x) = 32"
    and ok: "store_ok sha l b" "bs_pend b = []" and vs: "sorted_wrt (<) vs" "\<forall>v \<in> set vs. v < 2 ^ 64" "dom (log_contents l) = uintToString ` set vs"
    and n: "length vs < 2 ^ 63"
  shows "fst (resolveBlocksRef sha (pre @ blocks_key @ marshal_ref (ref_to base (blocks_digest sha (log_contents l) vs) (length vs)) @ post)
      (Some (bs_disk b)) (bs_idx b)) =
    Some (pre @ blocks_key @ array_text (map (\<lambda>v. the (log_contents l (uintToString v))) vs) @ post)"
proof -
  define chk where "chk = blocks_digest sha (log_contents l) vs"
  define raw where "raw = marshal_ref (ref_to base chk (length vs))"
  obtain b' where b': "openBlockStore sha (bs_disk b) (bs_idx b) = Some b'" "store_ok sha l b'" "bs_pend b' = []"
    using open_flushed [OF ok sha] by blast
  from index_ids [OF b'(2)] obtain ns where ns: "allIDs b' = block_ids ns" "\<forall>v \<in> set ns. v < 2 ^ 64" "distinct ns"
    "\<forall>v \<in> set ns. log_contents l (uintToString v) \<noteq> None" "store_Len b' = length ns" "dom (log_contents l) = uintToString ` set ns" .
  have "set ns = set vs"
  proof (intro set_eqI iffI)
    fix v assume "v \<in> set ns"
    then have "uintToString v \<in> uintToString ` set vs" using ns(6) vs(3) by blast
    then obtain w where "w \<in> set vs" "uintToString v = uintToString w" by blast
    then show "v \<in> set vs" using uintToString_inj ns(2) vs(2) \<open>v \<in> set ns\<close> by metis
  next
    fix v assume "v \<in> set vs"
    then have "uintToString v \<in> uintToString ` set ns" using ns(6) vs(3) by blast
    then obtain w where "w \<in> set ns" "uintToString v = uintToString w" by blast
    then show "v \<in> set ns" using uintToString_inj ns(2) vs(2) \<open>v \<in> set vs\<close> by metis
  qed
  moreover have "sorted vs" "distinct vs" using vs(1) by (auto simp: strict_sorted_iff)
  ultimately have sort: "sort ns = vs" using ns(3) by (metis distinct_sort set_sort sorted_distinct_set_unique sorted_sort)
  then have len: "store_Len b' = length vs" using ns(5) by (metis length_sort)
  have total: "store_sum sha b' = chk"
    using set_sum [OF b'(2), of ns] ns(1,2,4) sort by (simp add: store_sum_def chk_def)
  have arr: "assemble sha b' = Some (array_text (map (\<lambda>v. the (log_contents l (uintToString v))) vs))"
    using assemble_ids [OF b'(2,3) ns(1,2)] sort by simp
  obtain st where parse: "parse_ref raw = Some (Some \<lparr>rd_Store = st, rd_Sum = chk, rd_Count = int (length vs), rd_Schema = 1\<rparr>)"
    using parse_marshal_ref [OF digest_plain n] unfolding raw_def chk_def by blast
  have cutting: "splitViewBlocks (pre @ blocks_key @ raw @ post) = Some raw"
    by (simp add: raw_def split_in_frame [OF f ref_bracketed])
  have restore: "replaceJSONField (pre @ blocks_key @ raw @ post) ''blocks'' val = Some (pre @ blocks_key @ val @ post)" for val
    by (simp add: raw_def replace_in_frame [OF f ref_bracketed])
  have mark: "contains raw blocksRefKey" "trim_space raw = raw" by (simp_all add: raw_def marshal_ref_marked marshal_ref_trim)
  show ?thesis unfolding chk_def [symmetric] raw_def [symmetric]
    by (simp add: resolveBlocksRef_def cutting mark parse b'(1) Let_def len total arr restore)
qed

text \<open>A commit leaves exactly its blocks in the store and points at them.\<close>

lemma refBlocks_in_frame:
  assumes f: "view_frame pre post" and ok: "store_ok sha l bs"
    and es: "\<forall>e \<in> set es. value_text e" "map blockID es = map Some (block_ids vs)" "\<forall>e \<in> set es. length e < 2 ^ 31"
    and vs: "sorted_wrt (<) vs" "\<forall>v \<in> set vs. v < 2 ^ 64"
    and fresh: "\<forall>(i, e) \<in> set (zip (block_ids vs) es). \<forall>p. log_contents l i = Some p \<longrightarrow> payloadDigest sha p = payloadDigest sha e \<longrightarrow> p = e"
  obtains w l' bs' where "store_ok sha l' bs'" "log_contents l' = map_of (zip (block_ids vs) es)"
    "refBlocks sha base (pre @ blocks_key @ array_text es @ post) bs =
      (Some (pre @ blocks_key @ marshal_ref (ref_to base (blocks_digest sha (log_contents l') vs) (length vs)) @ post, w), bs')"
proof -
  have len: "length es = length vs" using arg_cong [OF es(2), of length] by (simp add: block_ids_def)
  have dvs: "distinct vs" "sorted vs" using vs(1) by (auto simp: strict_sorted_iff)
  then have dist: "distinct (block_ids vs)"
    using vs(2) uintToString_inj unfolding block_ids_def distinct_map by (auto intro!: inj_onI)
  have lenz: "length (block_ids vs) = length es" using len by (simp add: block_ids_def)
  from ref_elems_ok [OF ok es(2) dist es(3) fresh, of 0] obtain w l1 bs1 where r: "ref_elems sha es 0 bs = (Some w, bs1)"
    "store_ok sha l1 bs1" "log_contents l1 = log_contents l ++ map_of (zip (block_ids vs) es)" by blast
  have ids: "List.map_filter blockID es = block_ids vs"
  proof -
    have "map blockID es = map Some is \<Longrightarrow> List.map_filter blockID es = is" for "is"
      by (induction es arbitrary: "is") (auto simp: map_filter_simps map_eq_Cons_conv Cons_eq_map_conv)
    then show ?thesis using es(2) .
  qed
  have dz: "dom (map_of (zip (block_ids vs) es)) = set (block_ids vs)" using lenz by (simp add: dom_map_of_zip)
  from prune_ok [OF r(2), of "block_ids vs"] obtain l2 where l2: "store_ok sha (l1 @ l2) (pruneTo sha (block_ids vs) bs1)"
    "log_contents (l1 @ l2) = (if card (dom (log_contents l1)) \<le> card (set (block_ids vs)) then log_contents l1 else log_contents l1 |` set (block_ids vs))"
    by blast
  have "log_contents (l1 @ l2) = map_of (zip (block_ids vs) es)"
  proof -
    have restr: "log_contents l1 |` set (block_ids vs) = map_of (zip (block_ids vs) es)"
    proof
      fix i
      show "(log_contents l1 |` set (block_ids vs)) i = map_of (zip (block_ids vs) es) i"
        using dz by (cases "map_of (zip (block_ids vs) es) i") (auto simp: r(3) restrict_map_def map_add_def)
    qed
    have sub: "set (block_ids vs) \<subseteq> dom (log_contents l1)" using dz by (simp add: r(3))
    have fin: "finite (dom (log_contents l1))" by (simp add: contents_keys [OF r(2)])
    show ?thesis
    proof (cases "card (dom (log_contents l1)) \<le> card (set (block_ids vs))")
      case True
      then have "dom (log_contents l1) = set (block_ids vs)" using card_seteq [OF fin sub] by simp
      then have "log_contents l1 |` set (block_ids vs) = log_contents l1"
        by (intro ext) (metis domIff restrict_in restrict_out)
      with True restr l2(2) show ?thesis by simp
    next
      case False
      with restr l2(2) show ?thesis by simp
    qed
  qed
  note c = this
  have "\<forall>v \<in> set vs. v < 2 ^ 64 \<and> log_contents (l1 @ l2) (uintToString v) \<noteq> None"
  proof
    fix v assume "v \<in> set vs"
    then have "uintToString v \<in> dom (log_contents (l1 @ l2))" unfolding c dz by (simp add: block_ids_def)
    then show "v < 2 ^ 64 \<and> log_contents (l1 @ l2) (uintToString v) \<noteq> None" using vs(2) \<open>v \<in> set vs\<close> by blast
  qed
  from set_sum [OF l2(1) this] dvs(2) have chk: "blocksSetSum sha (pruneTo sha (block_ids vs) bs1) (block_ids vs) =
    Some (blocks_digest sha (log_contents (l1 @ l2)) vs)" by (simp add: sorted_sort_id)
  show thesis
  proof (rule that [OF l2(1) c])
    show "refBlocks sha base (pre @ blocks_key @ array_text es @ post) bs =
      (Some (pre @ blocks_key @ marshal_ref (ref_to base (blocks_digest sha (log_contents (l1 @ l2)) vs) (length vs)) @ post, w), pruneTo sha (block_ids vs) bs1)"
      by (simp add: refBlocks_def find_in_frame [OF f es(1)] ref_with_def r(1) ids Let_def chk
          replace_in_frame [OF f array_bracketed [OF es(1)]] len)
  qed
qed

lemma resolve_stored:
  assumes f: "view_frame pre post" and sha: "\<And>x. length (sha x) = 32"
    and b: "store_ok sha l b" "bs_pend b = []" and vs: "sorted_wrt (<) vs" "\<forall>v \<in> set vs. v < 2 ^ 64"
    and c: "log_contents l = map_of (zip (block_ids vs) es)" and len: "length es = length vs" and n: "length vs < 2 ^ 63"
  shows "fst (resolveBlocksRef sha (pre @ blocks_key @ marshal_ref (ref_to base (blocks_digest sha (log_contents l) vs) (length vs)) @ post)
      (Some (bs_disk b)) (bs_idx b)) = Some (pre @ blocks_key @ array_text es @ post)"
proof -
  have dom: "dom (log_contents l) = uintToString ` set vs" using len by (simp add: c dom_map_of_zip block_ids_def)
  have "distinct vs" using vs(1) by (simp add: strict_sorted_iff)
  then have dist: "distinct (block_ids vs)"
    using vs(2) uintToString_inj unfolding block_ids_def distinct_map by (auto intro!: inj_onI)
  have "map (\<lambda>v. the (log_contents l (uintToString v))) vs = es"
  proof (rule nth_equalityI)
    fix k assume "k < length (map (\<lambda>v. the (log_contents l (uintToString v))) vs)"
    then have k: "k < length vs" by simp
    then have "map_of (zip (block_ids vs) es) (block_ids vs ! k) = Some (es ! k)"
      using len dist by (intro map_of_zip_nth) (simp_all add: block_ids_def)
    with k show "map (\<lambda>v. the (log_contents l (uintToString v))) vs ! k = es ! k" by (simp add: c block_ids_def)
  qed (simp add: len)
  with resolve_in_frame [OF f sha b vs dom n, of base] show ?thesis by simp
qed

lemma flushed_pend: "bs_pend (store_flush sha bs) = []"
  by (simp add: store_flush_def persistIndex_def flush_writer_def)

text \<open>Whatever the sidecar holds before, writing a view whose blocks come with ascending ids and
  reading it back gives the same bytes: the reference in the record leads to exactly the array
  that was replaced.\<close>

theorem view_roundtrip:
  assumes "view_frame pre post" "store_runs sha ops bs" "\<And>x. length (sha x) = 32"
    and "\<forall>e \<in> set es. value_text e" "map blockID es = map Some (block_ids vs)" "\<forall>e \<in> set es. length e < 2 ^ 31"
    and "sorted_wrt (<) vs" "\<forall>v \<in> set vs. v < 2 ^ 64" "length vs < 2 ^ 63"
    and "\<forall>(i, e) \<in> set (zip (block_ids vs) es). \<forall>p. store_contents sha bs i = Some p \<longrightarrow> payloadDigest sha p = payloadDigest sha e \<longrightarrow> p = e"
    and "store_fits (snd (refBlocks sha base (pre @ blocks_key @ array_text es @ post) bs))"
  shows "\<exists>view' w bs'. refBlocks sha base (pre @ blocks_key @ array_text es @ post) bs = (Some (view', w), bs') \<and>
    fst (resolveBlocksRef sha view' (Some (bs_disk (store_flush sha bs'))) (bs_idx (store_flush sha bs'))) =
      Some (pre @ blocks_key @ array_text es @ post)"
proof -
  obtain l where l: "store_ok sha l bs" using runs_ok [OF assms(2,3)] by blast
  have fresh: "\<forall>(i, e) \<in> set (zip (block_ids vs) es). \<forall>p. log_contents l i = Some p \<longrightarrow> payloadDigest sha p = payloadDigest sha e \<longrightarrow> p = e"
    using assms(10) by (simp add: store_contents_log [OF l])
  from refBlocks_in_frame [OF assms(1) l assms(4-8) fresh, of base] obtain w l' bs' where r: "store_ok sha l' bs'"
    "log_contents l' = map_of (zip (block_ids vs) es)"
    "refBlocks sha base (pre @ blocks_key @ array_text es @ post) bs =
      (Some (pre @ blocks_key @ marshal_ref (ref_to base (blocks_digest sha (log_contents l') vs) (length vs)) @ post, w), bs')" .
  have fits: "store_fits bs'" using assms(11) r(3) by simp
  have b: "store_ok sha l' (store_flush sha bs')" "bs_pend (store_flush sha bs') = []"
    using flush_ok [OF r(1) fits assms(3)] by (simp_all add: flushed_pend)
  have len: "length es = length vs" using arg_cong [OF assms(5), of length] by (simp add: block_ids_def)
  show ?thesis unfolding r(3) using resolve_stored [OF assms(1,3) b assms(7,8) r(2) len assms(9), of base] by simp
qed

text \<open>A reference to blocks does not resolve against an empty sidecar.\<close>

lemma reference_needs_its_sidecar:
  assumes "view_frame pre post" "plain_text chk" "0 < n" "n < 2 ^ 63"
  shows "fst (resolveBlocksRef sha (pre @ blocks_key @ marshal_ref (ref_to base chk n) @ post) None None) = None"
proof -
  obtain st where "parse_ref (marshal_ref (ref_to base chk n)) = Some (Some \<lparr>rd_Store = st, rd_Sum = chk, rd_Count = int n, rd_Schema = 1\<rparr>)"
    using parse_marshal_ref [OF assms(2,4)] by blast
  moreover have "openBlockStore sha [] None = Some (fresh_store blockStoreMagic 8 [] None)" by (simp add: openBlockStore_def)
  ultimately show ?thesis using assms(3)
    by (simp add: resolveBlocksRef_def split_in_frame [OF assms(1) ref_bracketed] marshal_ref_trim marshal_ref_marked Let_def
        store_Len_def fresh_store_def)
qed

section \<open>An example\<close>

definition demo_pre :: string where "demo_pre = ''{'' @ quoted_name ''schema_version'' @ ''1,''"
definition demo_post :: string where "demo_post = '','' @ quoted_name ''turns'' @ ''[]}''"
definition demo_block :: string where "demo_block = ''{'' @ quoted_name ''id'' @ ''7}''"

lemma demo_frame: "view_frame demo_pre demo_post"
  by (simp add: view_frame_def demo_pre_def demo_post_def quoted_name_def blocks_key_def has_prefix_def level_step_def)

lemma seven: "show_nat 7 = ''7''"
proof -
  have "digit 7 = CHR ''7''" by code_simp
  then show ?thesis by (simp add: show_nat.simps)
qed

lemma demo_block_value: "value_text demo_block"
proof -
  have k: "plain_key ''id''" by (simp add: plain_key_def)
  have b: "demo_block = CHR ''{'' # quoted_name ''id'' @ show_nat 7 @ CHR ''}'' # []" by (simp add: demo_block_def seven)
  have "json_scan json_start demo_block = json_scan (EndValue, [ObjectValue]) (CHR ''}'' # [])"
    unfolding b json_start_def using k by (simp add: scan_brace_open scan_named scan_number del: json_scan.simps)
  then show ?thesis
    by (simp add: value_text_def json_valid_def end_value_def pop_open_def json_space_def json_ends_def)
      (simp add: demo_block_def)
qed

lemma demo_block_id: "blockID demo_block = Some ''7''"
proof -
  have s: "show_nat 7 = ''7''" by (rule seven)
  have "blockID demo_block = block_id_from True (CHR 0x22 # ''id'' @ CHR 0x22 # (CHR '':'' # show_nat 7 @ CHR ''}'' # []))"
    by (simp add: blockID_def demo_block_def quoted_name_def skip_ws_def json_space_def s)
  also have "\<dots> = Some ''7''"
    using next_key_first [of "''id''" "CHR '':'' # show_nat 7 @ CHR ''}'' # []"] member_value_text [OF show_nat_value, of "CHR ''}''" 7 "[]"]
      unquote_plain [of "''id''"] decode_show_nat [of 7 0]
    by (subst block_id_from.simps) (simp add: plain_key_def is_delim_def s del: append.simps)
  finally show ?thesis .
qed

lemma demo_not_live: "\<not> isLiveBlock demo_block"
  by (simp add: isLiveBlock_def demo_block_def quoted_name_def status_is_def has_prefix_def)

lemma demo_index: "map_of (bs_index demo_store) ''7'' = Some \<lparr>rf_off = 39, rf_n = to_s32 3, rf_hash = replicate 8 (CHR ''n'')\<rparr>"
    "length (bs_index demo_store) = 1"
  by (simp_all add: demo_store_defs blockRecPut_def)

lemma demo_ref_store: "snd (refBlocks demo_sha base (demo_pre @ blocks_key @ array_text [demo_block] @ demo_post) demo_store) =
    store_put demo_sha ''7'' demo_block demo_store"
proof -
  have find: "findBlocksField (demo_pre @ blocks_key @ array_text [demo_block] @ demo_post) = Some [demo_block]"
    by (rule find_in_frame [OF demo_frame]) (simp add: demo_block_value)
  have same: "\<not> holdsSame demo_sha demo_store ''7'' demo_block"
    by (simp add: holdsSame_def demo_index payloadDigest_def demo_sha_def demo_block_def)
  have "length (bs_index (store_put demo_sha ''7'' demo_block demo_store)) = 1"
    by (simp add: demo_store_defs blockRecPut_def)
  then have "pruneTo demo_sha [''7''] (store_put demo_sha ''7'' demo_block demo_store) = store_put demo_sha ''7'' demo_block demo_store"
    by (simp add: pruneTo_def)
  then show ?thesis
    by (simp add: refBlocks_def find ref_with_def demo_block_id demo_not_live same map_filter_simps Let_def split: option.splits)
qed

theorem view_roundtrip_witness:
  "\<exists>view' w bs'. refBlocks demo_sha ''f'' (demo_pre @ blocks_key @ array_text [demo_block] @ demo_post) demo_store = (Some (view', w), bs') \<and>
    fst (resolveBlocksRef demo_sha view' (Some (bs_disk (store_flush demo_sha bs'))) (bs_idx (store_flush demo_sha bs'))) =
      Some (demo_pre @ blocks_key @ array_text [demo_block] @ demo_post)"
proof (rule view_roundtrip [OF demo_frame demo_runs demo_sha_length])
  have d: "digit 7 = CHR ''7''" by code_simp
  then have u: "uintToString 7 = ''7''" by (simp add: uintToString_def show_nat.simps)
  show "\<forall>e \<in> set [demo_block]. value_text e" by (simp add: demo_block_value)
  show "map blockID [demo_block] = map Some (block_ids [7])" by (simp add: demo_block_id block_ids_def u)
  show "\<forall>e \<in> set [demo_block]. length e < 2 ^ 31" by (simp add: demo_block_def quoted_name_def)
  show "sorted_wrt (<) [7 :: nat]" "\<forall>v \<in> set [7]. v < (2 :: nat) ^ 64" "length [7 :: nat] < 2 ^ 63" by simp_all
  have "store_contents demo_sha demo_store = [''7'' \<mapsto> ''new'']"
    using runs_ok [OF demo_runs demo_sha_length] store_contents_log by (auto simp: demo_ops_def)
  then show "\<forall>(i, e) \<in> set (zip (block_ids [7]) [demo_block]). \<forall>p. store_contents demo_sha demo_store i = Some p \<longrightarrow>
      payloadDigest demo_sha p = payloadDigest demo_sha e \<longrightarrow> p = e"
    by (simp add: block_ids_def u payloadDigest_def demo_sha_def demo_block_def)
  show "store_fits (snd (refBlocks demo_sha ''f'' (demo_pre @ blocks_key @ array_text [demo_block] @ demo_post) demo_store))"
    unfolding demo_ref_store by (simp add: store_fits_def int64_range_def demo_store_defs blockRecPut_def demo_block_def quoted_name_def)
qed

end
