(* ===== verification/RecordStore.thy ===== *)
theory RecordStore
  imports BlockRef
begin

text \<open>
  The session record store (\<open>session/store_record.go\<close>): the envelope of a record with its checksum
  in the last field, its validation, the reading of a record with its bounded backup, the commit
  as a sequence of file operations, and the deletion. \<open>SHA-256\<close>, the JSON form of a session
  state and of a time, and the canonical re-encoding behind the older checksum are the fields of
  a \<open>codec\<close>. A state and a time are kept as their JSON text. File operations succeed, except that
  a link needs its source and may be unsupported.
\<close>

section \<open>Records\<close>

record session_record =
  sr_Type :: string
  sr_SchemaVersion :: int
  sr_SessionID :: string
  sr_WorkspaceKey :: string
  sr_Revision :: nat
  sr_ReducerSeq :: nat
  sr_ClearGeneration :: nat
  sr_UpdatedAt :: string
  sr_SDKState :: string
  sr_View :: "string option"
  sr_Checksum :: string

datatype rec_error = ErrRecordNotFound | ErrInvalidSessionRecord | ErrRecordChecksum | ErrRecordCorrupt | ErrRecordRevision
  | EncodeError | ContextError

text \<open>\<open>cd_legacy\<close> is \<open>checksumForRecord\<close>, \<open>cd_stored\<close> \<open>checksumForStoredPayload\<close>.\<close>

record codec =
  cd_sha :: "string \<Rightarrow> string"
  cd_state_ok :: "string \<Rightarrow> bool"
  cd_time_ok :: "string \<Rightarrow> bool"
  cd_legacy :: "session_record \<Rightarrow> string option"
  cd_stored :: "string \<Rightarrow> string option"

definition SessionRecordType :: string where "SessionRecordType = ''session_record''"
definition SessionRecordSchemaVersion :: int where "SessionRecordSchemaVersion = 1"
definition ViewCheckpointSchemaVersion :: int where "ViewCheckpointSchemaVersion = 1"
definition checksumV2Prefix :: string where "checksumV2Prefix = ''sha256b:''"

definition zero_time_text :: string where "zero_time_text = [CHR 0x22] @ ''0001-01-01T00:00:00Z'' @ [CHR 0x22]"

definition NewEmptyViewCheckpoint :: string where
  "NewEmptyViewCheckpoint = ''{'' @ quoted_name ''schema_version'' @ ''1,'' @ quoted_name ''blocks'' @ ''[],'' @
     quoted_name ''run_nodes'' @ ''[],'' @ quoted_name ''turns'' @ ''[],'' @ quoted_name ''usage'' @ ''{},'' @
     quoted_name ''cost_usd'' @ ''0,'' @ quoted_name ''todos'' @ ''[],'' @ quoted_name ''degraded'' @ ''false}''"

definition NewSessionRecord :: "string \<Rightarrow> string \<Rightarrow> nat \<Rightarrow> nat \<Rightarrow> nat \<Rightarrow> string \<Rightarrow> string option \<Rightarrow> string \<Rightarrow> session_record" where
  "NewSessionRecord ws sid revision seq gen state view now =
     \<lparr>sr_Type = SessionRecordType, sr_SchemaVersion = SessionRecordSchemaVersion, sr_SessionID = sid, sr_WorkspaceKey = ws,
      sr_Revision = revision, sr_ReducerSeq = seq, sr_ClearGeneration = gen, sr_UpdatedAt = now, sr_SDKState = state,
      sr_View = (case view of Some (c # v) \<Rightarrow> Some (c # v) | _ \<Rightarrow> Some NewEmptyViewCheckpoint), sr_Checksum = []\<rparr>"

section \<open>Validation\<close>

definition validatePathComponent :: "string \<Rightarrow> bool" where
  "validatePathComponent v \<longleftrightarrow>
     \<not> (v = [] \<or> v = ''.'' \<or> v = ''..'' \<or> contains v ''..'') \<and> (\<forall>c \<in> set v. c \<noteq> CHR ''/'' \<and> c \<noteq> CHR 0x5C \<and> c \<noteq> CHR 0x00)"

definition RecordPath :: "string \<Rightarrow> string \<Rightarrow> bool" where
  "RecordPath ws sid \<longleftrightarrow> validatePathComponent ws \<and> validatePathComponent sid"

definition validateCheckpointForCommit :: "string option \<Rightarrow> bool" where
  "validateCheckpointForCommit view \<longleftrightarrow>
     (let t = trim_space (case view of Some v \<Rightarrow> v | None \<Rightarrow> []); head = take 256 t in
      t \<noteq> [] \<and> t \<noteq> ''null'' \<and> t ! 0 = CHR ''{'' \<and>
      contains head (quoted_name ''schema_version'' @ show_int ViewCheckpointSchemaVersion) \<and>
      (contains head (blocks_key @ ''['') \<or> contains head (blocks_key @ ''{'' @ [CHR 0x22] @ blocksRefKey)))"

definition validateSessionRecordShape :: "session_record \<Rightarrow> bool" where
  "validateSessionRecordShape r \<longleftrightarrow>
     sr_Type r = SessionRecordType \<and> sr_SchemaVersion r = SessionRecordSchemaVersion \<and>
     validatePathComponent (sr_WorkspaceKey r) \<and> validatePathComponent (sr_SessionID r) \<and>
     sr_Revision r \<noteq> 0 \<and> sr_UpdatedAt r \<noteq> zero_time_text \<and> validateCheckpointForCommit (sr_View r)"

text \<open>\<open>sameChecksum\<close> compares in constant time.\<close>

definition sameChecksum :: "string \<Rightarrow> string \<Rightarrow> bool" where "sameChecksum a b \<longleftrightarrow> a = b"

definition record_Validate :: "codec \<Rightarrow> session_record \<Rightarrow> rec_error option" where
  "record_Validate cd r =
     (if \<not> validateSessionRecordShape r then Some ErrInvalidSessionRecord
      else if trim_space (sr_Checksum r) = [] then Some ErrRecordChecksum
      else if has_prefix (sr_Checksum r) checksumV2Prefix then None
      else case cd_legacy cd r of
          None \<Rightarrow> Some EncodeError
        | Some expected \<Rightarrow> if sameChecksum (sr_Checksum r) expected then None else Some ErrRecordChecksum)"

section \<open>The envelope\<close>

definition placeholder :: string where "placeholder = quoted_name ''view_checkpoint'' @ ''null''"

text \<open>\<open>json.Marshal\<close> of a record without its view: the fields in the order of the struct.\<close>

definition head_front :: "session_record \<Rightarrow> string" where
  "head_front r = ''{'' @ quoted_name ''type'' @ json_quote (sr_Type r) @ '','' @ quoted_name ''schema_version'' @ show_int (sr_SchemaVersion r) @ '','' @
     quoted_name ''session_id'' @ json_quote (sr_SessionID r) @ '','' @ quoted_name ''workspace_key'' @ json_quote (sr_WorkspaceKey r) @ '','' @
     quoted_name ''revision'' @ show_nat (sr_Revision r) @ '','' @ quoted_name ''reducer_seq'' @ show_nat (sr_ReducerSeq r) @ '','' @
     quoted_name ''clear_generation'' @ show_nat (sr_ClearGeneration r) @ '','' @ quoted_name ''updated_at'' @ sr_UpdatedAt r @ '','' @
     quoted_name ''sdk_state'' @ sr_SDKState r @ '',''"

definition checksum_field :: "string \<Rightarrow> string" where
  "checksum_field c = '','' @ quoted_name ''checksum'' @ c @ ''}''"

definition marshal_head :: "session_record \<Rightarrow> string" where
  "marshal_head r = head_front r @ placeholder @ checksum_field (json_quote (sr_Checksum r))"

text \<open>A missing view is \<open>null\<close>, an empty one an error.\<close>

definition raw_view :: "session_record \<Rightarrow> string option" where
  "raw_view r = (case sr_View r of None \<Rightarrow> Some ''null'' | Some [] \<Rightarrow> None | Some v \<Rightarrow> Some v)"

definition encodeRecordEnvelope :: "session_record \<Rightarrow> (string \<times> string \<times> string) option" where
  "encodeRecordEnvelope r =
     Option.bind (raw_view r) (\<lambda>v.
       let head = marshal_head r in
       case str_index head placeholder of
         None \<Rightarrow> None
       | Some i \<Rightarrow> Some (take (i + length (quoted_name ''view_checkpoint'')) head, v, drop (i + length placeholder) head))"

definition marshalRecordEnvelope :: "session_record \<Rightarrow> string option" where
  "marshalRecordEnvelope r =
     Option.bind (raw_view r) (\<lambda>v.
       let head = marshal_head r in
       case str_index head placeholder of
         None \<Rightarrow> None
       | Some i \<Rightarrow> Some (take i head @ quoted_name ''view_checkpoint'' @ v @ drop (i + length placeholder) head))"

section \<open>The checksum in the last field\<close>

text \<open>\<open>bytes.LastIndex\<close>\<close>

fun str_last_index :: "string \<Rightarrow> string \<Rightarrow> nat option" where
  "str_last_index [] p = (if p = [] then Some 0 else None)"
| "str_last_index (c # s) p =
     (case str_last_index s p of
        Some i \<Rightarrow> Some (Suc i)
      | None \<Rightarrow> if has_prefix (c # s) p then Some 0 else None)"

definition checksum_key :: string where "checksum_key = quoted_name ''checksum'' @ [CHR 0x22]"

record checksum_span =
  cs_fieldStart :: nat
  cs_valueStart :: nat
  cs_valueEnd :: nat
  cs_afterClose :: nat

definition isJSONSpaceByte :: "char \<Rightarrow> bool" where
  "isJSONSpaceByte c \<longleftrightarrow> c = CHR '' '' \<or> c = CHR 0x09 \<or> c = CHR 0x0A \<or> c = CHR 0x0D"

definition checksumFieldSpan :: "string \<Rightarrow> checksum_span option" where
  "checksumFieldSpan b =
     (case str_last_index b checksum_key of
        None \<Rightarrow> None
      | Some i \<Rightarrow>
         (let vStart = i + length checksum_key in
          case str_index (drop vStart b) [CHR 0x22] of
            None \<Rightarrow> None
          | Some k \<Rightarrow>
             (let vEnd = vStart + k;
                  before = dropWhile isJSONSpaceByte (rev (take i b));
                  rest = dropWhile isJSONSpaceByte (drop (vEnd + 1) b)
              in if before = [] \<or> before ! 0 \<noteq> CHR '','' then None
                 else if rest = [] \<or> rest ! 0 \<noteq> CHR ''}'' then None
                 else Some \<lparr>cs_fieldStart = length before - 1, cs_valueStart = vStart, cs_valueEnd = vEnd + 1,
                            cs_afterClose = length b - length rest + 1\<rparr>)))"

definition stripChecksumField :: "string \<Rightarrow> string option" where
  "stripChecksumField b = map_option (\<lambda>sp. take (cs_fieldStart sp) b @ ''}'') (checksumFieldSpan b)"

definition checksumBytes :: "(string \<Rightarrow> string) \<Rightarrow> string \<Rightarrow> string option" where
  "checksumBytes sha b =
     map_option (\<lambda>sp. checksumV2Prefix @ hex (sha (take (cs_fieldStart sp) b @ ''}''))) (checksumFieldSpan b)"

definition stored_checksum :: "string \<Rightarrow> checksum_span \<Rightarrow> string" where
  "stored_checksum b sp = sub (cs_valueStart sp) (cs_valueEnd sp - 1) b"

definition cheapParseChecksum :: "string \<Rightarrow> string option" where
  "cheapParseChecksum b = map_option (stored_checksum b) (checksumFieldSpan b)"

definition checksumMatchesStoredBytes :: "(string \<Rightarrow> string) \<Rightarrow> string \<Rightarrow> string \<Rightarrow> bool" where
  "checksumMatchesStoredBytes sha stored b \<longleftrightarrow>
     has_prefix stored checksumV2Prefix \<and> (case checksumBytes sha b of Some got \<Rightarrow> sameChecksum stored got | None \<Rightarrow> False)"

definition checksumMatchesStoredPayload :: "codec \<Rightarrow> string \<Rightarrow> string \<Rightarrow> bool" where
  "checksumMatchesStoredPayload cd stored b \<longleftrightarrow> (case cd_stored cd b of Some e \<Rightarrow> sameChecksum stored e | None \<Rightarrow> False)"

section \<open>Reading a record\<close>

definition empty_record :: session_record where
  "empty_record = \<lparr>sr_Type = [], sr_SchemaVersion = 0, sr_SessionID = [], sr_WorkspaceKey = [], sr_Revision = 0, sr_ReducerSeq = 0,
     sr_ClearGeneration = 0, sr_UpdatedAt = zero_time_text, sr_SDKState = ''{}'', sr_View = None, sr_Checksum = []\<rparr>"

text \<open>The scalar fields that all readers decode; nothing for another key.\<close>

definition scalar_field :: "string \<Rightarrow> string \<Rightarrow> session_record \<Rightarrow> session_record option option" where
  "scalar_field k v r =
     (if k = ''type'' then Some (map_option (\<lambda>x. r\<lparr>sr_Type := x\<rparr>) (decode_string (sr_Type r) v))
      else if k = ''schema_version'' then Some (map_option (\<lambda>x. r\<lparr>sr_SchemaVersion := x\<rparr>) (decode_int (sr_SchemaVersion r) v))
      else if k = ''session_id'' then Some (map_option (\<lambda>x. r\<lparr>sr_SessionID := x\<rparr>) (decode_string (sr_SessionID r) v))
      else if k = ''workspace_key'' then Some (map_option (\<lambda>x. r\<lparr>sr_WorkspaceKey := x\<rparr>) (decode_string (sr_WorkspaceKey r) v))
      else if k = ''revision'' then Some (map_option (\<lambda>x. r\<lparr>sr_Revision := x\<rparr>) (decode_uint64 (sr_Revision r) v))
      else if k = ''reducer_seq'' then Some (map_option (\<lambda>x. r\<lparr>sr_ReducerSeq := x\<rparr>) (decode_uint64 (sr_ReducerSeq r) v))
      else if k = ''clear_generation'' then Some (map_option (\<lambda>x. r\<lparr>sr_ClearGeneration := x\<rparr>) (decode_uint64 (sr_ClearGeneration r) v))
      else None)"

text \<open>All fields of the struct; \<open>DisallowUnknownFields\<close> makes any other key an error.\<close>

definition record_field :: "codec \<Rightarrow> string \<Rightarrow> string \<Rightarrow> session_record \<Rightarrow> session_record option" where
  "record_field cd k v r =
     (case scalar_field k v r of
        Some res \<Rightarrow> res
      | None \<Rightarrow>
          if k = ''updated_at'' then (if v = ''null'' then Some r else if cd_time_ok cd v then Some (r\<lparr>sr_UpdatedAt := v\<rparr>) else None)
          else if k = ''sdk_state'' then (if v = ''null'' then Some r else if cd_state_ok cd v then Some (r\<lparr>sr_SDKState := v\<rparr>) else None)
          else if k = ''view_checkpoint'' then Some (r\<lparr>sr_View := Some v\<rparr>)
          else if k = ''checksum'' then map_option (\<lambda>x. r\<lparr>sr_Checksum := x\<rparr>) (decode_string (sr_Checksum r) v)
          else None)"

text \<open>One value, and nothing but blanks behind it (\<open>ensureJSONEOF\<close>).\<close>

definition decode_record :: "codec \<Rightarrow> string \<Rightarrow> session_record option" where
  "decode_record cd data =
     (case read_value json_start (skip_ws data) of
        None \<Rightarrow> None
      | Some (v, rest) \<Rightarrow> if skip_ws rest \<noteq> [] then None else unmarshal_object (record_field cd) v empty_record)"

text \<open>A record file with the sidecar and the index file that its own path names.\<close>

record rec_slot =
  sl_file :: "string option"
  sl_blocks :: "string option"
  sl_idx :: "string option"

definition readRecordCandidate :: "codec \<Rightarrow> rec_slot \<Rightarrow> string \<Rightarrow> string \<Rightarrow> (rec_error + session_record \<times> string) \<times> rec_slot" where
  "readRecordCandidate cd slot ws sid =
     (case sl_file slot of
        None \<Rightarrow> (Inl ErrRecordNotFound, slot)
      | Some data \<Rightarrow>
         (case decode_record cd data of
            None \<Rightarrow> (Inl ErrRecordCorrupt, slot)
          | Some r \<Rightarrow>
              if sr_WorkspaceKey r \<noteq> ws \<or> sr_SessionID r \<noteq> sid then (Inl ErrRecordCorrupt, slot)
              else if has_prefix (sr_Checksum r) checksumV2Prefix \<and> \<not> checksumMatchesStoredBytes (cd_sha cd) (sr_Checksum r) data
                then (Inl ErrRecordCorrupt, slot)
              else if (case record_Validate cd r of
                    None \<Rightarrow> False
                  | Some e \<Rightarrow> e \<noteq> ErrRecordChecksum \<or>
                      \<not> checksumMatchesStoredBytes (cd_sha cd) (sr_Checksum r) data \<and> \<not> checksumMatchesStoredPayload cd (sr_Checksum r) data)
                then (Inl ErrRecordCorrupt, slot)
              else (case sr_View r of
                  None \<Rightarrow> (Inr (r, data), slot)
                | Some view \<Rightarrow>
                   (case resolveBlocksRef (cd_sha cd) view (sl_blocks slot) (sl_idx slot) of
                      (res, blocks, idx) \<Rightarrow>
                        (case res of
                           None \<Rightarrow> (Inl ErrRecordCorrupt, slot\<lparr>sl_blocks := blocks, sl_idx := idx\<rparr>)
                         | Some full \<Rightarrow> (Inr (r\<lparr>sr_View := Some full\<rparr>, data), slot\<lparr>sl_blocks := blocks, sl_idx := idx\<rparr>))))))"

text \<open>The files of one session: the formal record, its backup under the path with \<open>.bak\<close> behind it, and
  a temporary file.\<close>

record rec_dir =
  rd_formal :: rec_slot
  rd_bak :: rec_slot
  rd_tmp :: "string option"

definition loadRecordLocked :: "codec \<Rightarrow> rec_dir \<Rightarrow> string \<Rightarrow> string \<Rightarrow> (rec_error + session_record) \<times> rec_dir" where
  "loadRecordLocked cd dir ws sid =
     (case readRecordCandidate cd (rd_formal dir) ws sid of
        (Inr (r, _), formal) \<Rightarrow> (Inr r, dir\<lparr>rd_formal := formal\<rparr>)
      | (Inl e1, formal) \<Rightarrow>
         (case readRecordCandidate cd (rd_bak dir) ws sid of
            (Inr (r, _), bak) \<Rightarrow> (Inr r, dir\<lparr>rd_formal := formal, rd_bak := bak\<rparr>)
          | (Inl e2, bak) \<Rightarrow>
              (Inl (if e1 = ErrRecordNotFound \<and> e2 = ErrRecordNotFound then ErrRecordNotFound else ErrRecordCorrupt),
               dir\<lparr>rd_formal := formal, rd_bak := bak\<rparr>)))"

definition LoadRecord :: "codec \<Rightarrow> rec_dir \<Rightarrow> string \<Rightarrow> string \<Rightarrow> (rec_error + session_record) \<times> rec_dir" where
  "LoadRecord cd dir ws sid =
     (if \<not> RecordPath ws sid then (Inl ErrInvalidSessionRecord, dir) else loadRecordLocked cd dir ws sid)"

section \<open>Reading the head only\<close>

text \<open>\<open>parseRecordHeadScalars\<close>: the members in front of the view; it returns at the key of the view.\<close>

function head_scalars :: "bool \<Rightarrow> string \<Rightarrow> session_record \<Rightarrow> session_record option" where
  "head_scalars first s r =
     (case next_key first s of
        Key k t \<Rightarrow>
          if unquote k = Some ''view_checkpoint'' then Some (r\<lparr>sr_View := Some []\<rparr>)
          else (case member_value t of
              None \<Rightarrow> None
            | Some (v, t') \<Rightarrow>
               (case scalar_field (case unquote k of Some key \<Rightarrow> key | None \<Rightarrow> []) v r of
                  None \<Rightarrow> head_scalars False t' r
                | Some None \<Rightarrow> None
                | Some (Some r') \<Rightarrow> head_scalars False t' r'))
      | _ \<Rightarrow> None)"
  by pat_completeness auto
termination
  by (relation "measure (\<lambda>(first, s, r). length s)") (auto dest!: next_key_length member_value_length)

declare head_scalars.simps [simp del]

definition object_start :: "string \<Rightarrow> string option" where
  "object_start data = (case skip_ws data of c # t \<Rightarrow> if c = CHR ''{'' then Some t else None | [] \<Rightarrow> None)"

definition parseRecordHeadScalars :: "string \<Rightarrow> session_record option" where
  "parseRecordHeadScalars data = Option.bind (object_start data) (\<lambda>t. head_scalars True t empty_record)"

text \<open>\<open>readRecordBaseline\<close>: revision and checksum, and the bytes of the file.\<close>

definition readRecordBaseline :: "codec \<Rightarrow> rec_slot \<Rightarrow> string \<Rightarrow> string \<Rightarrow> rec_error + (nat \<times> string) \<times> string" where
  "readRecordBaseline cd slot ws sid =
     (case sl_file slot of
        None \<Rightarrow> Inl ErrRecordNotFound
      | Some data \<Rightarrow>
         (case Option.bind (checksumFieldSpan data) (\<lambda>sp.
             if has_prefix (stored_checksum data sp) checksumV2Prefix \<and> checksumBytes (cd_sha cd) data = Some (stored_checksum data sp)
             then map_option (\<lambda>h. ((sr_Revision h, stored_checksum data sp), data)) (parseRecordHeadScalars data) else None) of
            Some b \<Rightarrow> Inr b
          | None \<Rightarrow>
             (case fst (readRecordCandidate cd slot ws sid) of
                Inl e \<Rightarrow> Inl e
              | Inr (r, raw) \<Rightarrow> Inr ((sr_Revision r, sr_Checksum r), raw))))"

record record_metadata =
  md_Revision :: nat
  md_ReducerSeq :: nat
  md_ClearGeneration :: nat

text \<open>\<open>readRecordMetadataFrom\<close> walks over the same members; at the key of the view it jumps over the
  check of type and schema, and without that key it fails at the end anyway.\<close>

definition readRecordMetadataFrom :: "string \<Rightarrow> string \<Rightarrow> string \<Rightarrow> rec_error + record_metadata" where
  "readRecordMetadataFrom data ws sid =
     (case parseRecordHeadScalars data of
        None \<Rightarrow> Inl ErrRecordCorrupt
      | Some h \<Rightarrow>
          if sr_WorkspaceKey h \<noteq> ws \<or> sr_SessionID h \<noteq> sid then Inl ErrRecordCorrupt
          else if sr_Revision h = 0 then Inl ErrRecordCorrupt
          else Inr \<lparr>md_Revision = sr_Revision h, md_ReducerSeq = sr_ReducerSeq h, md_ClearGeneration = sr_ClearGeneration h\<rparr>)"

definition loadMetadataCandidate :: "codec \<Rightarrow> rec_slot \<Rightarrow> string \<Rightarrow> string \<Rightarrow> rec_error + record_metadata" where
  "loadMetadataCandidate cd slot ws sid =
     (case sl_file slot of
        None \<Rightarrow> Inl ErrRecordNotFound
      | Some data \<Rightarrow>
         (case cheapParseChecksum data of
            Some stored \<Rightarrow>
              if has_prefix stored checksumV2Prefix then
                (if checksumBytes (cd_sha cd) data = Some stored then readRecordMetadataFrom data ws sid else Inl ErrRecordCorrupt)
              else (case fst (readRecordCandidate cd slot ws sid) of
                  Inl e \<Rightarrow> Inl e
                | Inr (r, _) \<Rightarrow> Inr \<lparr>md_Revision = sr_Revision r, md_ReducerSeq = sr_ReducerSeq r, md_ClearGeneration = sr_ClearGeneration r\<rparr>)
          | None \<Rightarrow> (case fst (readRecordCandidate cd slot ws sid) of
                Inl e \<Rightarrow> Inl e
              | Inr (r, _) \<Rightarrow> Inr \<lparr>md_Revision = sr_Revision r, md_ReducerSeq = sr_ReducerSeq r, md_ClearGeneration = sr_ClearGeneration r\<rparr>)))"

definition LoadRecordMetadata :: "codec \<Rightarrow> rec_dir \<Rightarrow> string \<Rightarrow> string \<Rightarrow> rec_error + record_metadata" where
  "LoadRecordMetadata cd dir ws sid =
     (if \<not> RecordPath ws sid then Inl ErrInvalidSessionRecord
      else case loadMetadataCandidate cd (rd_formal dir) ws sid of
          Inr m \<Rightarrow> Inr m
        | Inl e1 \<Rightarrow>
           (case loadMetadataCandidate cd (rd_bak dir) ws sid of
              Inr m \<Rightarrow> Inr m
            | Inl e2 \<Rightarrow> Inl (if e1 = ErrRecordNotFound \<and> e2 = ErrRecordNotFound then ErrRecordNotFound else ErrRecordCorrupt)))"

section \<open>Committing a record\<close>

text \<open>The sidecar step of \<open>CommitRecord\<close>: \<open>spans\<close> are the blocks the caller has cut already, \<open>cached\<close> is the
  store of an earlier commit of this process.\<close>

definition sidecar_commit :: "codec \<Rightarrow> string \<Rightarrow> block_store option \<Rightarrow> rec_slot \<Rightarrow> string \<Rightarrow> string list \<Rightarrow> string \<times> rec_slot" where
  "sidecar_commit cd base cached slot view spans =
     (case (case cached of Some bs \<Rightarrow> Some bs
            | None \<Rightarrow> openBlockStore (cd_sha cd) (case sl_blocks slot of Some b \<Rightarrow> b | None \<Rightarrow> []) (sl_idx slot)) of
        None \<Rightarrow> (view, slot\<lparr>sl_blocks := Some (case sl_blocks slot of Some b \<Rightarrow> b | None \<Rightarrow> [])\<rparr>)
      | Some bs \<Rightarrow>
         (case (if spans \<noteq> [] then refBlocksFromSpans (cd_sha cd) base view spans bs else refBlocks (cd_sha cd) base view bs) of
            (res, bs1) \<Rightarrow>
              (let bs2 = (case res of Some _ \<Rightarrow> store_flush (cd_sha cd) bs1 | None \<Rightarrow> bs1); bs3 = maybeCompact_store (cd_sha cd) bs2 in
               (case res of Some (v, _) \<Rightarrow> v | None \<Rightarrow> view, slot\<lparr>sl_blocks := Some (bs_disk bs3), sl_idx := bs_idx bs3\<rparr>))))"

text \<open>The file operations of a commit, the last of which makes it durable.\<close>

datatype fs_op = WriteTmp string | RemoveBak | LinkBak | CopyBak string | RenameTmp | RemoveTmp

fun fs_apply :: "fs_op \<Rightarrow> rec_dir \<Rightarrow> rec_dir" where
  "fs_apply (WriteTmp b) d = d\<lparr>rd_tmp := Some b\<rparr>"
| "fs_apply RemoveBak d = d\<lparr>rd_bak := (rd_bak d)\<lparr>sl_file := None\<rparr>\<rparr>"
| "fs_apply LinkBak d = d\<lparr>rd_bak := (rd_bak d)\<lparr>sl_file := sl_file (rd_formal d)\<rparr>\<rparr>"
| "fs_apply (CopyBak b) d = d\<lparr>rd_bak := (rd_bak d)\<lparr>sl_file := Some b\<rparr>\<rparr>"
| "fs_apply RenameTmp d = d\<lparr>rd_formal := (rd_formal d)\<lparr>sl_file := rd_tmp d\<rparr>, rd_tmp := None\<rparr>"
| "fs_apply RemoveTmp d = d\<lparr>rd_tmp := None\<rparr>"

text \<open>The bytes of a record file and its checksum, from the three parts of the envelope.\<close>

definition envelope_checksum :: "(string \<Rightarrow> string) \<Rightarrow> string \<times> string \<times> string \<Rightarrow> string option" where
  "envelope_checksum sha env =
     (case env of (pre, view, post) \<Rightarrow>
        map_option (\<lambda>sp. checksumV2Prefix @ hex (sha (pre @ view @ take (cs_fieldStart sp) post @ ''}''))) (checksumFieldSpan post))"

definition envelope_bytes :: "string \<times> string \<times> string \<Rightarrow> string \<Rightarrow> string" where
  "envelope_bytes env chk =
     (case env of (pre, view, _) \<Rightarrow>
        pre @ view @ '','' @ quoted_name ''checksum'' @ [CHR 0x22] @ chk @ [CHR 0x22] @ ''}'' @ [CHR 0x0A])"

text \<open>The baseline: the formal record, else its backup; an error unless both are missing.\<close>

definition commit_baseline :: "codec \<Rightarrow> rec_dir \<Rightarrow> string \<Rightarrow> string \<Rightarrow> rec_error + ((nat \<times> string) \<times> string) option" where
  "commit_baseline cd dir ws sid =
     (case readRecordBaseline cd (rd_formal dir) ws sid of
        Inr b \<Rightarrow> Inr (Some b)
      | Inl e1 \<Rightarrow>
         (case readRecordBaseline cd (rd_bak dir) ws sid of
            Inr b \<Rightarrow> Inr (Some b)
          | Inl e2 \<Rightarrow> if e1 = ErrRecordNotFound \<and> e2 = ErrRecordNotFound then Inr None else Inl ErrRecordCorrupt))"

definition backup_ops :: "bool \<Rightarrow> rec_dir \<Rightarrow> ((nat \<times> string) \<times> string) option \<Rightarrow> fs_op list" where
  "backup_ops links dir base =
     (case base of
        None \<Rightarrow> []
      | Some (_, raw) \<Rightarrow>
          if raw = [] then []
          else [RemoveBak, if links \<and> sl_file (rd_formal dir) \<noteq> None then LinkBak else CopyBak raw])"

text \<open>\<open>CommitRecord\<close> behind the sidecar step: the result (the checksum to set in the caller's record) and
  the file operations. \<open>cancelled n\<close> is the context at its \<open>n\<close>-th check.\<close>

definition commit_files :: "codec \<Rightarrow> bool \<Rightarrow> (nat \<Rightarrow> bool) \<Rightarrow> session_record \<Rightarrow> string \<Rightarrow> rec_dir \<Rightarrow> (rec_error + string) \<times> fs_op list" where
  "commit_files cd links cancelled r view dir =
     (let working = r\<lparr>sr_View := Some view\<rparr> in
      case encodeRecordEnvelope working of
        None \<Rightarrow> (Inl EncodeError, [])
      | Some env \<Rightarrow>
         (case envelope_checksum (cd_sha cd) env of
            None \<Rightarrow> (Inl ErrRecordChecksum, [])
          | Some chk \<Rightarrow>
              if sr_Checksum r \<noteq> [] \<and> \<not> sameChecksum (sr_Checksum r) chk \<and>
                  cd_legacy cd (working\<lparr>sr_Checksum := chk\<rparr>) \<noteq> Some (sr_Checksum r) then (Inl ErrRecordChecksum, [])
              else if cancelled 1 then (Inl ContextError, [])
              else (case commit_baseline cd dir (sr_WorkspaceKey r) (sr_SessionID r) of
                  Inl e \<Rightarrow> (Inl e, [])
                | Inr base \<Rightarrow>
                   (case base of
                      Some ((held, old), _) \<Rightarrow>
                        if sr_Revision r < held then (Inl ErrRecordRevision, [])
                        else if held = sr_Revision r then (if sameChecksum old chk then (Inr chk, []) else (Inl ErrRecordRevision, []))
                        else if cancelled 2 then (Inl ContextError, [])
                        else if cancelled 3 then (Inl ContextError, WriteTmp (envelope_bytes env chk) # backup_ops links dir base @ [RemoveTmp])
                        else (Inr chk, WriteTmp (envelope_bytes env chk) # backup_ops links dir base @ [RenameTmp])
                    | None \<Rightarrow>
                        if cancelled 2 then (Inl ContextError, [])
                        else if cancelled 3 then (Inl ContextError, [WriteTmp (envelope_bytes env chk), RemoveTmp])
                        else (Inr chk, [WriteTmp (envelope_bytes env chk), RenameTmp])))))"

definition CommitRecord :: "codec \<Rightarrow> bool \<Rightarrow> (nat \<Rightarrow> bool) \<Rightarrow> string \<Rightarrow> block_store option \<Rightarrow> session_record \<Rightarrow> string list \<Rightarrow> rec_dir \<Rightarrow>
    (rec_error + string) \<times> rec_dir" where
  "CommitRecord cd links cancelled base cached r spans dir =
     (if cancelled 0 then (Inl ContextError, dir)
      else if \<not> validateSessionRecordShape r then (Inl ErrInvalidSessionRecord, dir)
      else case sidecar_commit cd base cached (rd_formal dir) (case sr_View r of Some v \<Rightarrow> v | None \<Rightarrow> []) spans of
          (view, formal) \<Rightarrow>
            (let dir1 = dir\<lparr>rd_formal := formal\<rparr> in
             case commit_files cd links cancelled r view dir1 of (res, ops) \<Rightarrow> (res, fold fs_apply ops dir1)))"

section \<open>Deleting a record\<close>

text \<open>\<open>DeleteSessionRecord\<close>: both record files, the temporary file and the sidecar. Closing a cached store
  flushes it first, which writes its index file.\<close>

definition DeleteSessionRecord :: "codec \<Rightarrow> block_store option \<Rightarrow> rec_dir \<Rightarrow> rec_dir" where
  "DeleteSessionRecord cd cached dir =
     \<lparr>rd_formal = \<lparr>sl_file = None, sl_blocks = None,
        sl_idx = (case cached of Some bs \<Rightarrow> bs_idx (store_flush (cd_sha cd) bs) | None \<Rightarrow> sl_idx (rd_formal dir))\<rparr>,
      rd_bak = (rd_bak dir)\<lparr>sl_file := None\<rparr>, rd_tmp = None\<rparr>"

end
