(* ===== verification/JsonObject.thy ===== *)
theory JsonObject
  imports BlockRef
begin

text \<open>
  Objects by their members: the text of an object, and what the scanner and the decoders of
  \<open>encoding/json\<close> make of it.
\<close>

definition members_text :: "(string \<times> string) list \<Rightarrow> string" where
  "members_text ms = concat (map (\<lambda>(k, v). CHR '','' # quoted_name k @ v) ms)"

fun object_text :: "(string \<times> string) list \<Rightarrow> string" where
  "object_text [] = ''{}''"
| "object_text ((k, v) # ms) = CHR ''{'' # quoted_name k @ v @ members_text ms @ ''}''"

fun fold_members :: "(string \<Rightarrow> string \<Rightarrow> 's \<Rightarrow> 's option) \<Rightarrow> (string \<times> string) list \<Rightarrow> 's \<Rightarrow> 's option" where
  "fold_members f [] x = Some x"
| "fold_members f ((k, v) # ms) x = Option.bind (f k v x) (fold_members f ms)"

definition plain_members :: "(string \<times> string) list \<Rightarrow> bool" where
  "plain_members ms \<longleftrightarrow> (\<forall>(k, v) \<in> set ms. plain_key k \<and> value_text v)"

lemma members_simps [simp]:
  "members_text [] = []" "members_text ((k, v) # ms) = CHR '','' # quoted_name k @ v @ members_text ms"
  "members_text (ms @ ns) = members_text ms @ members_text ns"
  "plain_members []" "plain_members ((k, v) # ms) \<longleftrightarrow> plain_key k \<and> value_text v \<and> plain_members ms"
  "plain_members (ms @ ns) \<longleftrightarrow> plain_members ms \<and> plain_members ns"
  by (auto simp: members_text_def plain_members_def)

lemma members_head: "is_delim c \<Longrightarrow> \<exists>d t. members_text ms @ c # s = d # t \<and> is_delim d"
  by (cases ms) (auto simp: is_delim_def)

lemma member_value_delim:
  assumes "value_text v" "is_delim c"
  shows "member_value (CHR '':'' # v @ members_text ms @ c # s) = Some (v, members_text ms @ c # s)"
proof -
  obtain d t where "members_text ms @ c # s = d # t" "is_delim d" using members_head [OF assms(2)] by blast
  then show ?thesis using member_value_text [OF assms(1)] by simp
qed

lemma obj_fold_members:
  assumes "plain_members ms" "is_delim c"
  shows "obj_fold f False (members_text ms @ c # s) x =
    (case fold_members f ms x of Some x' \<Rightarrow> obj_fold f False (c # s) x' | None \<Rightarrow> None)"
  using assms(1)
proof (induction ms arbitrary: x)
  case (Cons m ms)
  obtain k v where m: "m = (k, v)" by force
  from Cons.prems m have p: "plain_key k" "value_text v" "plain_members ms" by auto
  obtain d t where d: "members_text ms @ c # s = d # t" "is_delim d" using members_head [OF assms(2)] by blast
  show ?case using obj_fold_member(2) [OF p(1,2) d(2), of f t x] Cons.IH [OF p(3)]
    by (simp add: m d(1) split: option.splits)
qed simp

lemma unmarshal_object_text:
  assumes "plain_members ms"
  shows "unmarshal_object f (object_text ms) x = fold_members f ms x"
proof (cases ms)
  case Nil
  then show ?thesis by (simp add: unmarshal_object_def skip_ws_def json_space_def obj_fold_end)
next
  case (Cons m ns)
  obtain k v where m: "m = (k, v)" by force
  from assms Cons m have p: "plain_key k" "value_text v" "plain_members ns" by auto
  have c: "is_delim (CHR ''}'')" by (simp add: is_delim_def)
  obtain d t where d: "members_text ns @ ''}'' = d # t" "is_delim d" using members_head [OF c] by blast
  have "unmarshal_object f (object_text ms) x = obj_fold f True (quoted_name k @ v @ d # t) x"
    by (simp add: Cons m unmarshal_object_def skip_ws_def json_space_def d(1))
  also have "\<dots> = (case f k v x of Some x' \<Rightarrow> obj_fold f False (d # t) x' | None \<Rightarrow> None)"
    by (rule obj_fold_member(1) [OF p(1,2) d(2)])
  also have "\<dots> = fold_members f ms x"
    using obj_fold_members [OF p(3) c, of f "[]"] by (auto simp: Cons m d(1) obj_fold_end split: option.splits bind_splits)
  finally show ?thesis .
qed

section \<open>The text is one value\<close>

text \<open>A value that stands as a member: the scanner is behind it at the next comma or brace.\<close>

definition in_object :: "string \<Rightarrow> bool" where
  "in_object v \<longleftrightarrow> (\<forall>c s. c = CHR '','' \<or> c = CHR ''}'' \<longrightarrow>
     json_scan (BeginValue, [ObjectValue]) (v @ c # s) = json_scan (EndValue, [ObjectValue]) (c # s))"

text \<open>An object, an array or a string below the top level, by running the scanner.\<close>

definition nested_text :: "string \<Rightarrow> bool" where
  "nested_text v \<longleftrightarrow> value_text v \<and> json_scan (BeginValue, [ObjectValue]) v = Some (EndValue, [ObjectValue])"

lemma in_object_values:
  "in_object (json_quote x)" "in_object (show_nat n)" "nested_text v \<Longrightarrow> in_object v"
  by (auto simp: in_object_def scan_string scan_number nested_text_def simp del: json_scan.simps) (simp_all add: scan_append del: json_scan.simps)

lemma in_objectD: "in_object v \<Longrightarrow> c = CHR '','' \<or> c = CHR ''}'' \<Longrightarrow>
    json_scan (BeginValue, [ObjectValue]) (v @ c # s) = json_scan (EndValue, [ObjectValue]) (c # s)"
  unfolding in_object_def by blast

definition object_members :: "(string \<times> string) list \<Rightarrow> bool" where
  "object_members ms \<longleftrightarrow> (\<forall>(k, v) \<in> set ms. plain_key k \<and> value_text v \<and> in_object v)"

lemma object_members_simps [simp]:
  "object_members []" "object_members ((k, v) # ms) \<longleftrightarrow> plain_key k \<and> value_text v \<and> in_object v \<and> object_members ms"
  "object_members (ms @ ns) \<longleftrightarrow> object_members ms \<and> object_members ns"
  by (auto simp: object_members_def)

lemma object_members_plain: "object_members ms \<Longrightarrow> plain_members ms"
  by (auto simp: object_members_def plain_members_def)

lemma scan_members:
  assumes "object_members ms" "c = CHR '','' \<or> c = CHR ''}''"
  shows "json_scan (EndValue, [ObjectValue]) (members_text ms @ c # s) = json_scan (EndValue, [ObjectValue]) (c # s)"
  using assms(1)
proof (induction ms)
  case (Cons m ms)
  obtain k v where m: "m = (k, v)" by force
  obtain d t where d: "members_text ms @ c # s = d # t" "d = CHR '','' \<or> d = CHR ''}''"
    using assms(2) by (cases ms) auto
  from Cons m have p: "plain_key k" "in_object v"
    "json_scan (EndValue, [ObjectValue]) (d # t) = json_scan (EndValue, [ObjectValue]) (c # s)" by (auto simp: d(1) simp del: json_scan.simps)
  have "json_scan (EndValue, [ObjectValue]) (members_text (m # ms) @ c # s) =
      json_scan (BeginValue, [ObjectValue]) (v @ d # t)"
    by (simp add: m d(1) scan_next scan_named(2) [OF p(1)] del: json_scan.simps)
  then show ?case using in_objectD [OF p(2) d(2)] p(3) by (simp del: json_scan.simps)
qed simp

lemma scan_object_text: "object_members ms \<Longrightarrow> json_scan json_start (object_text ms) = Some (EndTop, [])"
proof (cases ms)
  case Nil
  then show ?thesis by (simp add: json_start_def begin_value_def push_open_def maxNestingDepth_def json_space_def end_value_def pop_open_def)
next
  case (Cons m ns)
  assume a: "object_members ms"
  obtain k v where m: "m = (k, v)" by force
  obtain d t where d: "members_text ns @ ''}'' = d # t" "d = CHR '','' \<or> d = CHR ''}''"
    by (cases ns) auto
  from a Cons m have p: "plain_key k" "in_object v" "object_members ns" by auto
  have "json_scan json_start (object_text ms) = json_scan (BeginValue, [ObjectValue]) (v @ d # t)"
    using scan_brace_open [of "[]" "quoted_name k @ v @ d # t"]
    by (simp add: Cons m json_start_def d(1) scan_named(1) [OF p(1)] del: json_scan.simps)
  also have "\<dots> = json_scan (EndValue, [ObjectValue]) (members_text ns @ CHR ''}'' # [])"
    using in_objectD [OF p(2) d(2)] d(1) by (simp del: json_scan.simps)
  also have "\<dots> = Some (EndTop, [])"
    unfolding scan_members [OF p(3) disjI2 [OF refl]] by (simp add: scan_close(2) del: json_scan.simps) simp
  finally show ?thesis .
qed

lemma object_text_last: "last (object_text ms) = CHR ''}''" "object_text ms \<noteq> []" "hd (object_text ms) = CHR ''{''"
  by (cases ms rule: object_text.cases; simp)+

lemma object_value: "object_members ms \<Longrightarrow> value_text (object_text ms)"
  by (simp add: value_text_def json_valid_def scan_object_text json_ends_def object_text_last json_space_def)

lemma read_object_text: "object_members ms \<Longrightarrow> read_value json_start (object_text ms @ s) = Some (object_text ms, s)"
  by (rule read_value_prefix [OF scan_object_text])
    (use scan_start_ok in \<open>auto simp: scan_done_def object_text_last json_space_def json_start_def\<close>)

end
