(* ===== verification/RecordCommit.thy ===== *)
theory RecordCommit
  imports RecordStore JsonObject
begin

text \<open>
  What the session record store promises (\<open>session/store_record.go\<close>): the bytes that a commit writes
  carry their own checksum and lead every reader to the same record, a commit never goes back, and
  a crash between its file operations leaves a record that can be read.
\<close>

section \<open>The checksum field at the end\<close>

lemma last_index_append: "str_last_index b p = Some i \<Longrightarrow> str_last_index (a @ b) p = Some (length a + i)"
  by (induction a) auto

lemma has_prefix_tl: "has_prefix s (c # p) \<Longrightarrow> s \<noteq> [] \<and> hd s = c \<and> has_prefix (tl s) p"
  by (cases s) (auto simp: has_prefix_def)

text \<open>A quote ends the value before the key can occur again.\<close>

lemma key_not_in_value:
  assumes "CHR 0x22 \<notin> set s" "CHR 0x22 \<notin> set z"
  shows "str_last_index (s @ CHR 0x22 # CHR ''}'' # z) checksum_key = None"
proof -
  have z: "str_last_index z checksum_key = None" using assms(2)
    by (induction z) (auto simp: checksum_key_def quoted_name_def has_prefix_def)
  have "str_last_index (CHR 0x22 # CHR ''}'' # z) checksum_key = None"
    using z by (simp add: checksum_key_def quoted_name_def has_prefix_def)
  then show ?thesis using assms(1)
    by (induction s) (auto simp: checksum_key_def quoted_name_def has_prefix_def)
qed

lemma key_last:
  assumes s: "CHR 0x22 \<notin> set s" and z: "CHR 0x22 \<notin> set z"
  shows "str_last_index (checksum_key @ s @ CHR 0x22 # CHR ''}'' # z) checksum_key = Some 0"
proof -
  define t where "t = s @ CHR 0x22 # CHR ''}'' # z"
  define w where "w = ''checksum''"
  define k where "k = CHR 0x22 # CHR '':'' # [CHR 0x22 :: char]"
  have t0: "str_last_index t checksum_key = None" unfolding t_def by (rule key_not_in_value [OF s z])
  have key: "checksum_key = CHR 0x22 # w @ k" by (simp add: checksum_key_def quoted_name_def w_def k_def)
  have "\<not> has_prefix (CHR 0x22 # t) checksum_key"
  proof
    assume "has_prefix (CHR 0x22 # t) checksum_key"
    then have "has_prefix t (w @ k)" by (simp add: key has_prefix_def)
    then obtain u where u: "t = w @ CHR 0x22 # CHR '':'' # CHR 0x22 # u"
      unfolding has_prefix_iff prefix_def k_def by auto
    have "takeWhile (\<lambda>c. c \<noteq> CHR 0x22) t = s" "dropWhile (\<lambda>c. c \<noteq> CHR 0x22) t = CHR 0x22 # CHR ''}'' # z"
      unfolding t_def using s by (induction s) auto
    moreover have "dropWhile (\<lambda>c. c \<noteq> CHR 0x22) t = CHR 0x22 # CHR '':'' # CHR 0x22 # u" by (simp add: u w_def)
    ultimately show False by simp
  qed
  then have "str_last_index (w @ k @ t) checksum_key = None"
    using t0 by (simp add: w_def k_def key has_prefix_def)
  then show ?thesis unfolding t_def [symmetric] key by (simp add: has_prefix_def)
qed

definition checksum_tail :: "string \<Rightarrow> string \<Rightarrow> string" where
  "checksum_tail chk z = CHR '','' # checksum_key @ chk @ CHR 0x22 # CHR ''}'' # z"

lemma tail_span:
  assumes "CHR 0x22 \<notin> set chk" "\<forall>c \<in> set z. isJSONSpaceByte c"
  obtains sp where "checksumFieldSpan (b @ checksum_tail chk z) = Some sp" "cs_fieldStart sp = length b"
    "stored_checksum (b @ checksum_tail chk z) sp = chk"
proof -
  define d where "d = b @ checksum_tail chk z"
  have "\<not> isJSONSpaceByte (CHR 0x22)" by (simp add: isJSONSpaceByte_def)
  with assms(2) have z: "CHR 0x22 \<notin> set z" by blast
  define n where "n = length b + 1 + length checksum_key"
  have i: "str_last_index d checksum_key = Some (length b + 1)"
    using last_index_append [OF key_last [OF assms(1) z], of "b @ [CHR '','']"] by (simp add: d_def checksum_tail_def)
  have rest: "drop n d = chk @ CHR 0x22 # CHR ''}'' # z" by (simp add: d_def checksum_tail_def n_def)
  have q: "str_index (chk @ CHR 0x22 # y) [CHR 0x22] = Some (length chk)" for y
    using assms(1) by (induction chk) (auto simp: has_prefix_def)
  have "drop (n + length chk + 1) d = drop (length chk + 1) (drop n d)" by (simp add: add_ac)
  then have after: "dropWhile isJSONSpaceByte (drop (n + length chk + 1) d) = CHR ''}'' # z"
    unfolding rest by (simp add: isJSONSpaceByte_def)
  have before: "dropWhile isJSONSpaceByte (rev (take (length b + 1) d)) = CHR '','' # rev b"
    by (simp add: d_def checksum_tail_def isJSONSpaceByte_def)
  have sp: "checksumFieldSpan d = Some \<lparr>cs_fieldStart = length b, cs_valueStart = n,
      cs_valueEnd = n + length chk + 1, cs_afterClose = length d - length (CHR ''}'' # z) + 1\<rparr>"
    unfolding checksumFieldSpan_def i option.case n_def [symmetric] Let_def rest q after before by simp
  moreover have "sub n (n + length chk) d = chk"
    using rest by (simp add: sub_def)
  ultimately show thesis using that by (simp add: d_def stored_checksum_def)
qed

lemma tail_checksum:
  assumes "CHR 0x22 \<notin> set chk" "\<forall>c \<in> set z. isJSONSpaceByte c"
  shows "checksumBytes sha (b @ checksum_tail chk z) = Some (checksumV2Prefix @ hex (sha (b @ ''}'')))"
    "cheapParseChecksum (b @ checksum_tail chk z) = Some chk"
    "stripChecksumField (b @ checksum_tail chk z) = Some (b @ ''}'')"
  by (rule tail_span [OF assms, of b], simp add: checksumBytes_def cheapParseChecksum_def stripChecksumField_def)+

section \<open>The written bytes lead back to the record\<close>

definition head_members :: "session_record \<Rightarrow> (string \<times> string) list" where
  "head_members r =
     [(''type'', json_quote (sr_Type r)), (''schema_version'', show_int (sr_SchemaVersion r)), (''session_id'', json_quote (sr_SessionID r)),
      (''workspace_key'', json_quote (sr_WorkspaceKey r)), (''revision'', show_nat (sr_Revision r)), (''reducer_seq'', show_nat (sr_ReducerSeq r)),
      (''clear_generation'', show_nat (sr_ClearGeneration r)), (''updated_at'', sr_UpdatedAt r), (''sdk_state'', sr_SDKState r)]"

definition record_members :: "session_record \<Rightarrow> string \<Rightarrow> string \<Rightarrow> (string \<times> string) list" where
  "record_members r v chk = head_members r @ [(''view_checkpoint'', v), (''checksum'', json_quote chk)]"

text \<open>What a record must satisfy to be written: names without escapes, numbers of their types, and a time
  and a state in the form that \<open>encoding/json\<close> gives them.\<close>

definition record_sane :: "codec \<Rightarrow> session_record \<Rightarrow> bool" where
  "record_sane cd r \<longleftrightarrow> plain_text (sr_SessionID r) \<and> plain_text (sr_WorkspaceKey r) \<and>
     sr_Revision r < 2 ^ 64 \<and> sr_ReducerSeq r < 2 ^ 64 \<and> sr_ClearGeneration r < 2 ^ 64 \<and>
     nested_text (sr_UpdatedAt r) \<and> sr_UpdatedAt r \<noteq> ''null'' \<and> cd_time_ok cd (sr_UpdatedAt r) \<and>
     nested_text (sr_SDKState r) \<and> sr_SDKState r \<noteq> ''null'' \<and> cd_state_ok cd (sr_SDKState r) \<and>
     plain_text (sr_Checksum r) \<and> str_index (head_front r @ placeholder) placeholder = Some (length (head_front r))"

definition envelope_front :: "session_record \<Rightarrow> string \<Rightarrow> string" where
  "envelope_front r v = head_front r @ quoted_name ''view_checkpoint'' @ v"

lemma encode_envelope:
  assumes "record_sane cd r" "v \<noteq> []"
  shows "encodeRecordEnvelope (r\<lparr>sr_View := Some v\<rparr>) =
    Some (head_front r @ quoted_name ''view_checkpoint'', v, checksum_field (json_quote (sr_Checksum r)))"
proof -
  define h where "h = head_front r"
  have h: "head_front (r\<lparr>sr_View := Some v\<rparr>) = h" by (simp add: head_front_def h_def)
  have i: "str_index (h @ placeholder @ x) placeholder = Some (length h)" for x
    using assms(1) unfolding record_sane_def h_def by (intro str_index_first) blast
  have p: "placeholder = quoted_name ''view_checkpoint'' @ ''null''" by (simp add: placeholder_def)
  have "take (length h + length (quoted_name ''view_checkpoint'')) (h @ placeholder @ x) = h @ quoted_name ''view_checkpoint''" for x
    by (simp add: p)
  moreover have "drop (length h + length placeholder) (h @ placeholder @ x) = x" for x by simp
  moreover have "raw_view (r\<lparr>sr_View := Some v\<rparr>) = Some v" using assms(2) by (cases v) (simp_all add: raw_view_def)
  ultimately show ?thesis unfolding h_def [symmetric] by (simp add: encodeRecordEnvelope_def marshal_head_def h i Let_def)
qed

lemma plain_no_quote: "plain_text s \<Longrightarrow> CHR 0x22 \<notin> set s"
  by (auto simp: plain_text_def)

lemma quote_plain: "plain_text s \<Longrightarrow> json_quote s = CHR 0x22 # s @ [CHR 0x22]"
  using plain_quote_fuel by (simp add: json_quote_def plain_text_def)

lemma field_tail: "plain_text chk \<Longrightarrow> checksum_field (json_quote chk) = checksum_tail chk []"
  by (simp add: checksum_field_def checksum_tail_def checksum_key_def quote_plain)

lemma sum_plain: "plain_text (checksumV2Prefix @ hex x)"
  using hex_plain [of x] by (simp add: plain_text_def checksumV2Prefix_def)

definition record_sum :: "(string \<Rightarrow> string) \<Rightarrow> session_record \<Rightarrow> string \<Rightarrow> string" where
  "record_sum sha r v = checksumV2Prefix @ hex (sha (envelope_front r v @ ''}''))"

lemma commit_checksum:
  assumes "record_sane cd r" "v \<noteq> []"
  shows "Option.bind (encodeRecordEnvelope (r\<lparr>sr_View := Some v\<rparr>)) (envelope_checksum sha) = Some (record_sum sha r v)"
proof -
  have pl: "plain_text (sr_Checksum r)" using assms(1) by (simp add: record_sane_def)
  obtain sp where "checksumFieldSpan (checksum_tail (sr_Checksum r) []) = Some sp" "cs_fieldStart sp = 0"
    using tail_span [OF plain_no_quote [OF pl], of "[]" "[]"] by auto
  then show ?thesis
    by (simp add: encode_envelope [OF assms] envelope_checksum_def field_tail [OF pl] record_sum_def envelope_front_def)
qed

definition record_bytes :: "(string \<Rightarrow> string) \<Rightarrow> session_record \<Rightarrow> string \<Rightarrow> string" where
  "record_bytes sha r v = envelope_front r v @ checksum_tail (record_sum sha r v) [CHR 0x0A]"

lemma commit_bytes:
  assumes "record_sane cd r" "v \<noteq> []"
  shows "map_option (\<lambda>env. envelope_bytes env (record_sum sha r v)) (encodeRecordEnvelope (r\<lparr>sr_View := Some v\<rparr>)) = Some (record_bytes sha r v)"
  by (simp add: encode_envelope [OF assms] envelope_bytes_def record_bytes_def envelope_front_def checksum_tail_def checksum_key_def)

lemma record_bytes_text: "record_bytes sha r v = object_text (record_members r v (record_sum sha r v)) @ [CHR 0x0A]"
  using quote_plain [OF sum_plain, of "sha (envelope_front r v @ ''}'')"]
  by (simp add: record_bytes_def record_members_def head_members_def envelope_front_def head_front_def checksum_tail_def checksum_key_def record_sum_def)

lemma written_checksum:
  "checksumBytes sha (record_bytes sha r v) = Some (record_sum sha r v)"
  "cheapParseChecksum (record_bytes sha r v) = Some (record_sum sha r v)"
  using tail_checksum [OF plain_no_quote [OF sum_plain], of "[CHR 0x0A]"]
  by (simp_all add: record_bytes_def record_sum_def isJSONSpaceByte_def)

section \<open>The readers\<close>

lemma fold_members_append: "fold_members f (ms @ ns) x = Option.bind (fold_members f ms x) (fold_members f ns)"
  by (induction ms arbitrary: x) (auto split: bind_splits prod.splits)

lemma head_members_ok:
  assumes "record_sane cd r" "sr_SchemaVersion r = SessionRecordSchemaVersion" "sr_Type r = SessionRecordType"
  shows "object_members (head_members r)"
proof -
  have "show_int (sr_SchemaVersion r) = show_nat 1" using assms by (simp add: show_int_def SessionRecordSchemaVersion_def)
  then show ?thesis using assms(1)
    by (simp add: head_members_def plain_key_def quote_value show_nat_value in_object_values record_sane_def nested_text_def)
qed

text \<open>The checksum, the view, the type and the schema of a record set to those of a file.\<close>

lemma decode_members:
  assumes "record_sane cd r" "sr_SchemaVersion r = SessionRecordSchemaVersion" "sr_Type r = SessionRecordType" "plain_text chk"
  shows "fold_members (record_field cd) (record_members r v chk) empty_record = Some (r\<lparr>sr_View := Some v, sr_Checksum := chk\<rparr>)"
proof -
  have s: "decode_int x (show_int (sr_SchemaVersion r)) = Some (sr_SchemaVersion r)" for x
    using decode_int_show [of 1 x] assms(2) by (simp add: show_int_def SessionRecordSchemaVersion_def)
  have t: "decode_string x (json_quote (sr_Type r)) = Some (sr_Type r)" for x
    by (rule decode_plain) (simp add: assms(3) SessionRecordType_def plain_text_def)
  have p: "plain_text (sr_SessionID r)" "plain_text (sr_WorkspaceKey r)"
    and n: "sr_Revision r < 2 ^ 64" "sr_ReducerSeq r < 2 ^ 64" "sr_ClearGeneration r < 2 ^ 64"
    and u: "sr_UpdatedAt r \<noteq> ''null''" "cd_time_ok cd (sr_UpdatedAt r)" "sr_SDKState r \<noteq> ''null''" "cd_state_ok cd (sr_SDKState r)"
    using assms(1) by (simp_all add: record_sane_def)
  show ?thesis
    by (simp add: record_members_def head_members_def record_field_def scalar_field_def empty_record_def s t u
        decode_plain [OF p(1)] decode_plain [OF p(2)] decode_plain [OF assms(4)]
        decode_show_nat [OF n(1)] decode_show_nat [OF n(2)] decode_show_nat [OF n(3)])
qed

lemma decode_written:
  assumes "record_sane cd r" "sr_SchemaVersion r = SessionRecordSchemaVersion" "sr_Type r = SessionRecordType" "nested_text v"
  shows "decode_record cd (record_bytes sha r v) = Some (r\<lparr>sr_View := Some v, sr_Checksum := record_sum sha r v\<rparr>)"
proof -
  define ms where "ms = record_members r v (record_sum sha r v)"
  have ok: "object_members ms" using head_members_ok [OF assms(1-3)] assms(4)
    by (simp add: ms_def record_members_def plain_key_def quote_value in_object_values nested_text_def)
  have d: "record_bytes sha r v = object_text ms @ [CHR 0x0A]" by (simp add: record_bytes_text ms_def)
  have "skip_ws (object_text ms @ s) = object_text ms @ s" for s
    using object_text_last(2,3) [of ms] by (cases "object_text ms") (simp_all add: skip_ws_def json_space_def)
  moreover have "fold_members (record_field cd) ms empty_record = Some (r\<lparr>sr_View := Some v, sr_Checksum := record_sum sha r v\<rparr>)"
    unfolding ms_def by (rule decode_members [OF assms(1-3)]) (simp add: record_sum_def sum_plain)
  ultimately show ?thesis
    by (simp add: decode_record_def d read_object_text [OF ok] unmarshal_object_text [OF object_members_plain [OF ok]]
      skip_ws_def [of "[CHR 0x0A]"] json_space_def)
qed

text \<open>The readers of the head walk over the same members up to the view.\<close>

fun fold_scalars :: "(string \<times> string) list \<Rightarrow> session_record \<Rightarrow> session_record option" where
  "fold_scalars [] r = Some r"
| "fold_scalars ((k, v) # ms) r =
     (case scalar_field k v r of None \<Rightarrow> fold_scalars ms r | Some None \<Rightarrow> None | Some (Some r') \<Rightarrow> fold_scalars ms r')"

lemma head_scalars_members:
  assumes "plain_members ms" "\<forall>(k, v) \<in> set ms. k \<noteq> ''view_checkpoint''" "is_delim c"
  shows "head_scalars False (members_text ms @ c # s) r = Option.bind (fold_scalars ms r) (head_scalars False (c # s))"
  using assms(1,2)
proof (induction ms arbitrary: r)
  case (Cons m ms)
  obtain k v where m: "m = (k, v)" by force
  from Cons.prems m have p: "plain_key k" "value_text v" "plain_members ms" "k \<noteq> ''view_checkpoint''" "\<forall>(k, v) \<in> set ms. k \<noteq> ''view_checkpoint''"
    by auto
  have "head_scalars False (members_text (m # ms) @ c # s) r =
      (case scalar_field k v r of None \<Rightarrow> head_scalars False (members_text ms @ c # s) r
        | Some None \<Rightarrow> None | Some (Some r') \<Rightarrow> head_scalars False (members_text ms @ c # s) r')"
    using next_key_comma [OF p(1), of "CHR '':'' # v @ members_text ms @ c # s"] member_value_delim [OF p(2) assms(3), of ms s]
      unquote_plain [OF p(1)] p(4)
    by (subst head_scalars.simps) (simp add: m quoted_name_def)
  then show ?case using Cons.IH [OF p(3,5)] by (simp add: m split: option.splits)
qed simp

lemma head_scalars_first:
  assumes "plain_key k" "value_text v" "k \<noteq> ''view_checkpoint''" "is_delim c"
  shows "head_scalars True (quoted_name k @ v @ members_text ms @ c # s) r = head_scalars False (members_text ((k, v) # ms) @ c # s) r"
  using next_key_comma [OF assms(1), of "CHR '':'' # v @ members_text ms @ c # s"] next_key_first [OF assms(1), of "CHR '':'' # v @ members_text ms @ c # s"]
    member_value_delim [OF assms(2,4), of ms s] unquote_plain [OF assms(1)] assms(3)
  by (subst head_scalars.simps, subst (2) head_scalars.simps) (simp add: quoted_name_def)

lemma head_scalars_view:
  "head_scalars False (CHR '','' # quoted_name ''view_checkpoint'' @ s) r = Some (r\<lparr>sr_View := Some []\<rparr>)"
  using next_key_comma [of "''view_checkpoint''" "CHR '':'' # s"] unquote_plain [of "''view_checkpoint''"]
  by (subst head_scalars.simps) (simp add: quoted_name_def plain_key_def)

lemma head_of_written:
  assumes "record_sane cd r" "sr_SchemaVersion r = SessionRecordSchemaVersion" "sr_Type r = SessionRecordType"
  shows "parseRecordHeadScalars (record_bytes sha r v) =
    Some (r\<lparr>sr_UpdatedAt := zero_time_text, sr_SDKState := ''{}'', sr_View := Some [], sr_Checksum := []\<rparr>)"
proof -
  define z where "z = quoted_name ''view_checkpoint'' @ v @ checksum_tail (record_sum sha r v) [CHR 0x0A]"
  obtain k v1 ms where h: "head_members r = (k, v1) # ms" by (simp add: head_members_def)
  have ok: "plain_members (head_members r)" by (rule object_members_plain [OF head_members_ok [OF assms]])
  have names: "\<forall>(k, v) \<in> set (head_members r). k \<noteq> ''view_checkpoint''" by (simp add: head_members_def)
  have c: "is_delim (CHR '','')" by (simp add: is_delim_def)
  have "record_bytes sha r v = CHR ''{'' # quoted_name k @ v1 @ members_text ms @ CHR '','' # z"
    using h unfolding head_members_def
    by (auto simp: record_bytes_def envelope_front_def head_front_def z_def)
  then have "parseRecordHeadScalars (record_bytes sha r v) = head_scalars True (quoted_name k @ v1 @ members_text ms @ CHR '','' # z) empty_record"
    by (simp add: parseRecordHeadScalars_def object_start_def skip_ws_def json_space_def)
  also have "\<dots> = head_scalars False (members_text (head_members r) @ CHR '','' # z) empty_record"
    unfolding h by (rule head_scalars_first) (use ok names c h in auto)
  also have "\<dots> = Option.bind (fold_scalars (head_members r) empty_record) (head_scalars False (CHR '','' # z))"
    by (rule head_scalars_members [OF ok names c])
  finally have main: "parseRecordHeadScalars (record_bytes sha r v) =
      map_option (\<lambda>h. h\<lparr>sr_View := Some []\<rparr>) (fold_scalars (head_members r) empty_record)"
    unfolding z_def head_scalars_view by (simp add: map_option_case split: bind_split)
  have s: "decode_int x (show_int (sr_SchemaVersion r)) = Some (sr_SchemaVersion r)" for x
    using decode_int_show [of 1 x] assms(2) by (simp add: show_int_def SessionRecordSchemaVersion_def)
  have t: "decode_string x (json_quote (sr_Type r)) = Some (sr_Type r)" for x
    by (rule decode_plain) (simp add: assms(3) SessionRecordType_def plain_text_def)
  have p: "plain_text (sr_SessionID r)" "plain_text (sr_WorkspaceKey r)"
    and n: "sr_Revision r < 2 ^ 64" "sr_ReducerSeq r < 2 ^ 64" "sr_ClearGeneration r < 2 ^ 64"
    using assms(1) by (simp_all add: record_sane_def)
  show ?thesis unfolding main
    by (simp add: head_members_def scalar_field_def empty_record_def s t decode_plain [OF p(1)] decode_plain [OF p(2)]
        decode_show_nat [OF n(1)] decode_show_nat [OF n(2)] decode_show_nat [OF n(3)])
qed

lemma baseline_of_written:
  assumes "record_sane cd r" "sr_SchemaVersion r = SessionRecordSchemaVersion" "sr_Type r = SessionRecordType" "sl_file slot = Some (record_bytes (cd_sha cd) r v)"
  shows "readRecordBaseline cd slot ws sid = Inr ((sr_Revision r, record_sum (cd_sha cd) r v), record_bytes (cd_sha cd) r v)"
proof -
  obtain sp where sp: "checksumFieldSpan (record_bytes (cd_sha cd) r v) = Some sp"
    "stored_checksum (record_bytes (cd_sha cd) r v) sp = record_sum (cd_sha cd) r v"
    using written_checksum(2) [of "cd_sha cd" r v] by (auto simp: cheapParseChecksum_def)
  have "has_prefix (record_sum (cd_sha cd) r v) checksumV2Prefix" by (simp add: record_sum_def)
  then show ?thesis
    by (simp add: readRecordBaseline_def assms(4) sp written_checksum(1) head_of_written [OF assms(1-3)])
qed

end
