(* ===== verification/RecordSafety.thy ===== *)
theory RecordSafety
  imports RecordCommit BlockRuns
begin

text \<open>
  The promises of the session record store as a whole: what is committed is what is loaded, a crash
  between the file operations of a commit leaves the old or the new record, and two cases in which
  the backup does not help.
\<close>

section \<open>A view with a reference is a member\<close>

definition scan_frame :: "jscan \<Rightarrow> jscan \<Rightarrow> string \<Rightarrow> string \<Rightarrow> bool" where
  "scan_frame start final pre post \<longleftrightarrow>
     (case json_scan start (pre @ blocks_key) of
        Some (q, ps) \<Rightarrow> q = BeginValue \<and> ps \<noteq> [] \<and> length ps < 400 \<and> json_scan (EndValue, ps) post = Some final
      | None \<Rightarrow> False)"

text \<open>A view around its blocks, as an object of its own and as a member.\<close>

definition view_around :: "string \<Rightarrow> string \<Rightarrow> bool" where
  "view_around pre post \<longleftrightarrow> view_frame pre post \<and> scan_frame json_start (EndTop, []) pre post \<and>
     scan_frame (BeginValue, [ObjectValue]) (EndValue, [ObjectValue]) pre post"

lemma scan_ref:
  assumes "length ps < 400"
  shows "json_scan (BeginValue, p # ps) (marshal_ref (ref_to base chk n) @ s) = json_scan (EndValue, p # ps) s"
proof -
  have l: "length (ObjectValue # p # ps) < 500" "length (p # ps) < 1000" using assms by simp_all
  have k: "plain_key blocksRefKey" by (simp add: plain_names(5) blocksRefKey_def)
  show ?thesis
    by (simp add: marshal_ref_body scan_brace_open [OF l(2)] scan_named(1) [OF k] scan_ref_body [OF l(1)] scan_close(1) del: json_scan.simps)
qed

lemma scan_in_frame:
  assumes "scan_frame start final pre post"
  shows "json_scan start (pre @ blocks_key @ marshal_ref (ref_to base chk n) @ post) = Some final"
proof -
  obtain ps where ps: "json_scan start (pre @ blocks_key) = Some (BeginValue, ps)" "ps \<noteq> []" "length ps < 400"
    "json_scan (EndValue, ps) post = Some final"
    using assms by (auto simp: scan_frame_def split: option.splits)
  obtain p qs where p: "ps = p # qs" using ps(2) by (cases ps) auto
  have "json_scan start ((pre @ blocks_key) @ marshal_ref (ref_to base chk n) @ post) = json_scan (BeginValue, ps) (marshal_ref (ref_to base chk n) @ post)"
    unfolding scan_append [of start "pre @ blocks_key"] ps(1) by simp
  also have "\<dots> = Some final" using scan_ref [of qs] ps(3,4) by (simp add: p del: json_scan.simps)
  finally show ?thesis by simp
qed

lemma ref_view_nested:
  assumes "view_around pre post"
  shows "nested_text (pre @ blocks_key @ marshal_ref (ref_to base chk n) @ post)"
proof -
  have f: "pre \<noteq> []" "pre ! 0 = CHR ''{''" "post \<noteq> []" "last post = CHR ''}''"
    using assms by (simp_all add: view_around_def view_frame_def)
  then have "hd (pre @ blocks_key @ x @ post) = CHR ''{''" "last (pre @ blocks_key @ x @ post) = CHR ''}''" for x
    by (simp_all add: hd_conv_nth nth_append)
  moreover have "json_scan json_start (pre @ blocks_key @ marshal_ref (ref_to base chk n) @ post) = Some (EndTop, [])"
    "json_scan (BeginValue, [ObjectValue]) (pre @ blocks_key @ marshal_ref (ref_to base chk n) @ post) = Some (EndValue, [ObjectValue])"
    using assms scan_in_frame by (auto simp: view_around_def)
  ultimately show ?thesis using f
    by (simp add: nested_text_def value_text_def json_valid_def json_ends_def json_space_def)
qed

section \<open>The sidecar step\<close>

lemma sidecar_committed:
  assumes f: "view_frame pre post" and sha: "\<And>x. length (cd_sha cd x) = 32" and l: "store_ok (cd_sha cd) l bs"
    and es: "\<forall>e \<in> set es. value_text e" "map blockID es = map Some (block_ids vs)" "\<forall>e \<in> set es. length e < 2 ^ 31"
    and vs: "sorted_wrt (<) vs" "\<forall>v \<in> set vs. v < 2 ^ 64" "length vs < 2 ^ 63"
    and fresh: "\<forall>(i, e) \<in> set (zip (block_ids vs) es). \<forall>p. log_contents l i = Some p \<longrightarrow> payloadDigest (cd_sha cd) p = payloadDigest (cd_sha cd) e \<longrightarrow> p = e"
    and fits: "store_fits (snd (refBlocks (cd_sha cd) base (pre @ blocks_key @ array_text es @ post) bs))"
      "store_fits (maybeCompact_store (cd_sha cd) (store_flush (cd_sha cd) (snd (refBlocks (cd_sha cd) base (pre @ blocks_key @ array_text es @ post) bs))))"
  obtains chk slot' where "sidecar_commit cd base (Some bs) slot (pre @ blocks_key @ array_text es @ post) [] =
      (pre @ blocks_key @ marshal_ref (ref_to base chk (length vs)) @ post, slot')"
    "sl_file slot' = sl_file slot" "plain_text chk"
    "fst (resolveBlocksRef (cd_sha cd) (pre @ blocks_key @ marshal_ref (ref_to base chk (length vs)) @ post) (sl_blocks slot') (sl_idx slot')) =
      Some (pre @ blocks_key @ array_text es @ post)"
proof -
  define sha where "sha = cd_sha cd"
  note l' = l [folded sha_def] and sha' = sha [folded sha_def] and fits' = fits [folded sha_def]
  from refBlocks_in_frame [OF f l' es vs(1,2) fresh [folded sha_def], of base] obtain w l2 bs2 where r: "store_ok sha l2 bs2"
    "log_contents l2 = map_of (zip (block_ids vs) es)"
    "refBlocks sha base (pre @ blocks_key @ array_text es @ post) bs =
      (Some (pre @ blocks_key @ marshal_ref (ref_to base (blocks_digest sha (log_contents l2) vs) (length vs)) @ post, w), bs2)" .
  have b2: "store_ok sha l2 (store_flush sha bs2)" "bs_pend (store_flush sha bs2) = []"
    using flush_ok [OF r(1) _ sha'] fits'(1) r(3) by (simp_all add: flushed_pend)
  define b3 where "b3 = maybeCompact_store sha (store_flush sha bs2)"
  obtain l3 where b3: "store_ok sha l3 b3" "log_contents l3 = log_contents l2" "bs_pend b3 = []"
    using b2 compact_ok [OF b2(1) _ sha'] fits'(2) r(3) unfolding b3_def maybeCompact_store_def by (cases "needsCompact (store_flush sha bs2)") auto
  have len: "length es = length vs" using arg_cong [OF es(2), of length] by (simp add: block_ids_def)
  show thesis
  proof (rule that [of "blocks_digest sha (log_contents l2) vs" "slot\<lparr>sl_blocks := Some (bs_disk b3), sl_idx := bs_idx b3\<rparr>"])
    show "sidecar_commit cd base (Some bs) slot (pre @ blocks_key @ array_text es @ post) [] =
      (pre @ blocks_key @ marshal_ref (ref_to base (blocks_digest sha (log_contents l2) vs) (length vs)) @ post,
       slot\<lparr>sl_blocks := Some (bs_disk b3), sl_idx := bs_idx b3\<rparr>)"
      by (simp add: sidecar_commit_def sha_def [symmetric] r(3) Let_def b3_def)
    show "fst (resolveBlocksRef (cd_sha cd) (pre @ blocks_key @ marshal_ref (ref_to base (blocks_digest sha (log_contents l2) vs) (length vs)) @ post)
        (sl_blocks (slot\<lparr>sl_blocks := Some (bs_disk b3), sl_idx := bs_idx b3\<rparr>)) (sl_idx (slot\<lparr>sl_blocks := Some (bs_disk b3), sl_idx := bs_idx b3\<rparr>))) =
      Some (pre @ blocks_key @ array_text es @ post)"
      using resolve_stored [OF f sha' b3(1,3) vs(1,2) _ len vs(3), of base] by (simp add: sha_def [symmetric] b3(2) r(2))
  qed (simp_all add: digest_plain)
qed

section \<open>What is committed is what is loaded\<close>

text \<open>The schema version and the key of the blocks stand at the front of a view.\<close>

definition view_head :: "string \<Rightarrow> bool" where
  "view_head pre \<longleftrightarrow> length pre \<le> 200 \<and> contains pre (quoted_name ''schema_version'' @ show_int ViewCheckpointSchemaVersion)"

lemma contains_before: "contains a w \<Longrightarrow> contains (a @ b) w"
  by (simp add: contains_iff sublist_append)

lemma view_checks:
  assumes f: "view_frame pre post" and h: "view_head pre"
  shows "validateCheckpointForCommit (Some (pre @ blocks_key @ ''['' @ x @ post))"
    "validateCheckpointForCommit (Some (pre @ blocks_key @ (''{'' @ [CHR 0x22] @ blocksRefKey) @ x @ post))"
proof -
  have pre: "pre \<noteq> []" "pre ! 0 = CHR ''{''" using f by (simp_all add: view_frame_def)
  then have nn: "pre @ y \<noteq> ''null''" "(pre @ y) ! 0 = CHR ''{''" "pre @ y \<noteq> []" for y by (cases pre; simp)+
  have t: "take 256 (pre @ y) = pre @ take (256 - length pre) y" for y using h by (simp add: view_head_def)
  have ver: "contains (pre @ y) (quoted_name ''schema_version'' @ show_int ViewCheckpointSchemaVersion)" for y
    using h contains_before by (auto simp: view_head_def)
  have key: "contains (take 256 (pre @ w @ y)) w" if w: "length w \<le> 56" for w y
  proof -
    have "length pre \<le> 200" using h by (simp add: view_head_def)
    with w have "length w \<le> 256 - length pre" by linarith
    with t have "take 256 (pre @ w @ y) = pre @ w @ take (256 - length pre - length w) y" by simp
    then show ?thesis using contains_append by metis
  qed
  note trim = frame_trim [OF f]
  show "validateCheckpointForCommit (Some (pre @ blocks_key @ ''['' @ x @ post))"
    using trim [of "''['' @ x"] nn ver t key [of "blocks_key @ ''[''" "x @ post"]
    by (simp add: validateCheckpointForCommit_def Let_def) (simp add: blocks_key_def)
  show "validateCheckpointForCommit (Some (pre @ blocks_key @ (''{'' @ [CHR 0x22] @ blocksRefKey) @ x @ post))"
    using trim [of "(''{'' @ [CHR 0x22] @ blocksRefKey) @ x"] nn ver t key [of "blocks_key @ ''{'' @ [CHR 0x22] @ blocksRefKey" "x @ post"]
    by (simp add: validateCheckpointForCommit_def Let_def) (simp add: blocks_key_def blocksRefKey_def)
qed

lemma blank_at_rune: "blank_at ws s = n \<Longrightarrow> n \<noteq> 0 \<Longrightarrow> take n s \<in> set ws"
  by (induction ws) (auto simp: has_prefix_def split: if_splits)

lemma trim_left_keeps: "\<forall>w \<in> set ws. c \<notin> set w \<Longrightarrow> c \<in> set s \<Longrightarrow> c \<in> set (trim_left ws s)"
proof (induction ws s rule: trim_left.induct)
  case (1 ws s)
  show ?case
  proof (cases "blank_at ws s = 0")
    case True
    then show ?thesis using 1(3) by (subst trim_left.simps) simp
  next
    case False
    then have "c \<notin> set (take (blank_at ws s) s)" using 1(2) blank_at_rune by blast
    then have "c \<in> set (drop (blank_at ws s) s)" using 1(3) by (metis Un_iff append_take_drop_id set_append)
    with 1(1) [OF refl False 1(2)] False show ?thesis by (subst trim_left.simps) simp
  qed
qed

lemma trim_space_keeps:
  assumes "printable c" "c \<in> set s"
  shows "c \<in> set (trim_space s)"
proof -
  have "\<forall>w \<in> set space_runes. c \<notin> set w" using assms(1) by (auto simp: space_runes_def printable_def)
  then show ?thesis using assms(2) trim_left_keeps [of space_runes c] trim_left_keeps [of "map rev space_runes" c] by (simp add: trim_space_def)
qed

lemma candidate_of_written:
  assumes r: "record_sane cd r" "validateSessionRecordShape r" and v: "nested_text v" "validateCheckpointForCommit (Some v)"
    and wr: "sl_file slot = Some (record_bytes (cd_sha cd) r v)"
  shows "readRecordCandidate cd slot (sr_WorkspaceKey r) (sr_SessionID r) =
    (case resolveBlocksRef (cd_sha cd) v (sl_blocks slot) (sl_idx slot) of (res, blocks, idx) \<Rightarrow>
       (case res of None \<Rightarrow> Inl ErrRecordCorrupt
        | Some full \<Rightarrow> Inr (r\<lparr>sr_View := Some full, sr_Checksum := record_sum (cd_sha cd) r v\<rparr>, record_bytes (cd_sha cd) r v),
        slot\<lparr>sl_blocks := blocks, sl_idx := idx\<rparr>))"
proof -
  have ty: "sr_SchemaVersion r = SessionRecordSchemaVersion" "sr_Type r = SessionRecordType"
    using r(2) by (simp_all add: validateSessionRecordShape_def)
  have dec: "decode_record cd (record_bytes (cd_sha cd) r v) = Some (r\<lparr>sr_View := Some v, sr_Checksum := record_sum (cd_sha cd) r v\<rparr>)"
    by (rule decode_written [OF r(1) ty v(1)])
  have pre: "has_prefix (record_sum (cd_sha cd) r v) checksumV2Prefix" by (simp add: record_sum_def)
  have "CHR ''s'' \<in> set (record_sum (cd_sha cd) r v)" by (simp add: record_sum_def checksumV2Prefix_def)
  then have "trim_space (record_sum (cd_sha cd) r v) \<noteq> []"
    using trim_space_keeps [of "CHR ''s''"] by (fastforce simp: printable_def)
  then have ok: "record_Validate cd (r\<lparr>sr_View := Some v, sr_Checksum := record_sum (cd_sha cd) r v\<rparr>) = None"
    using r(2) v(2) pre by (simp add: record_Validate_def validateSessionRecordShape_def)
  have m: "checksumMatchesStoredBytes (cd_sha cd) (record_sum (cd_sha cd) r v) (record_bytes (cd_sha cd) r v)"
    by (simp add: checksumMatchesStoredBytes_def pre written_checksum(1) sameChecksum_def)
  show ?thesis
    by (simp add: readRecordCandidate_def wr dec m ok split: prod.splits option.splits)
qed

lemma sidecar_keeps_file: "sl_file (snd (sidecar_commit cd base cached slot view spans)) = sl_file slot"
  by (simp add: sidecar_commit_def Let_def split: option.splits prod.splits)

lemma backup_ops_keep:
  "rd_formal (fold fs_apply (take k (backup_ops links d b)) e) = rd_formal e"
  "rd_tmp (fold fs_apply (take k (backup_ops links d b)) e) = rd_tmp e"
  by (auto simp: backup_ops_def take_Cons split: option.splits nat.splits)

lemma shape_type:
  "validateSessionRecordShape r \<Longrightarrow> sr_SchemaVersion r = SessionRecordSchemaVersion"
  "validateSessionRecordShape r \<Longrightarrow> sr_Type r = SessionRecordType"
  "validateSessionRecordShape r \<Longrightarrow> RecordPath (sr_WorkspaceKey r) (sr_SessionID r)"
  by (simp_all add: validateSessionRecordShape_def RecordPath_def)

lemma commit_env:
  assumes "record_sane cd r" "v \<noteq> []"
  shows "envelope_checksum sha (head_front r @ quoted_name ''view_checkpoint'', v, checksum_field (json_quote (sr_Checksum r))) = Some (record_sum sha r v)"
    "envelope_bytes (head_front r @ quoted_name ''view_checkpoint'', v, checksum_field (json_quote (sr_Checksum r))) (record_sum sha r v) = record_bytes sha r v"
  using commit_checksum [OF assms, of sha] commit_bytes [OF assms, of sha] by (simp_all add: encode_envelope [OF assms])

text \<open>A commit that is not cancelled, over no record or an older one.\<close>

lemma commit_files_new:
  assumes r: "record_sane cd r" "sr_Checksum r = []" "v \<noteq> []" and nc: "\<forall>n. \<not> cancelled n"
    and b: "commit_baseline cd dir (sr_WorkspaceKey r) (sr_SessionID r) = Inr b" "\<forall>n c raw. b = Some ((n, c), raw) \<longrightarrow> n < sr_Revision r"
  shows "commit_files cd links cancelled r v dir =
    (Inr (record_sum (cd_sha cd) r v), WriteTmp (record_bytes (cd_sha cd) r v) # backup_ops links dir b @ [RenameTmp])"
proof -
  note e = encode_envelope [OF r(1,3)] and c = commit_env(1) [OF r(1,3)] and w = commit_env(2) [OF r(1,3)]
  show ?thesis using nc b(2)
    by (simp add: commit_files_def Let_def e [unfolded r(2)] c [unfolded r(2)] w [unfolded r(2)] r(2) b(1) split: option.splits)
      (auto simp: backup_ops_def)
qed

text \<open>Blocks that the caller has cut give what the scan of the view gives.\<close>

lemma array_length: "es \<noteq> [] \<Longrightarrow> length (array_text es) = sum_list (map length es) + length es + 1"
proof -
  assume "es \<noteq> []"
  then have "length (join '','' es) + 1 = sum_list (map length es) + length es"
    by (induction "'',''" es rule: join.induct) auto
  then show ?thesis by (simp add: array_text_def)
qed

lemma known_spans_in_frame:
  assumes f: "view_frame pre post" and es: "es \<noteq> []"
  shows "replaceBlocksWithKnownSpans (pre @ blocks_key @ array_text es @ post) es ref = Some (pre @ blocks_key @ ref @ post)"
proof -
  let ?view = "pre @ blocks_key @ array_text es @ post" and ?k = "length pre + length blocks_key" and ?n = "length (array_text es)"
  have i: "str_index ?view blocks_key = Some (length pre)" by (rule frame_index [OF f])
  have rest: "drop ?k ?view = array_text es @ post" by simp
  have v: "dropWhile json_space (array_text es @ post) = array_text es @ post" "array_text es \<noteq> []" "(array_text es @ post) ! 0 = CHR ''[''"
    by (simp_all add: array_text_def json_space_def)
  have len: "?k + sum_list (map length es) + length es + 1 = ?k + ?n" using array_length [OF es] by simp
  have last: "?view ! (?k + ?n - 1) = CHR '']''"
  proof -
    have "?view = (pre @ blocks_key @ ''['' @ join '','' es) @ '']'' @ post" by (simp add: array_text_def)
    moreover have "length (pre @ blocks_key @ ''['' @ join '','' es) = ?k + ?n - 1" by (simp add: array_text_def)
    ultimately show ?thesis by (metis append_Cons nth_append_length)
  qed
  have d: "drop (?k + ?n) ?view = post" "take ?k ?view = pre @ blocks_key" by simp_all
  show ?thesis
    unfolding replaceBlocksWithKnownSpans_def i option.case Let_def rest v(1) diff_self_eq_0 add_0_right len last d
    using v(2,3) by simp
qed

lemma spans_give_what_the_scan_gives:
  assumes f: "view_frame pre post" and es: "\<forall>e \<in> set es. value_text e" "es \<noteq> []"
  shows "refBlocksFromSpans sha base (pre @ blocks_key @ array_text es @ post) es bs = refBlocks sha base (pre @ blocks_key @ array_text es @ post) bs"
  using es(2) by (simp add: refBlocksFromSpans_def refBlocks_def find_in_frame [OF f es(1)] ref_with_def known_spans_in_frame [OF f es(2)]
      replace_in_frame [OF f array_bracketed [OF es(1)]] Let_def split: option.splits prod.splits)

lemma sidecar_paths:
  assumes f: "view_frame pre post" and es: "\<forall>e \<in> set es. value_text e" and spans: "spans = [] \<or> spans = es"
    and cached: "cached = Some bs \<or> cached = None \<and>
      openBlockStore (cd_sha cd) (case sl_blocks slot of Some b \<Rightarrow> b | None \<Rightarrow> []) (sl_idx slot) = Some bs"
  shows "sidecar_commit cd base cached slot (pre @ blocks_key @ array_text es @ post) spans =
    sidecar_commit cd base (Some bs) slot (pre @ blocks_key @ array_text es @ post) []"
proof -
  have "(case cached of Some b \<Rightarrow> Some b | None \<Rightarrow> openBlockStore (cd_sha cd) (case sl_blocks slot of Some b \<Rightarrow> b | None \<Rightarrow> []) (sl_idx slot)) = Some bs"
    using cached by auto
  then show ?thesis using spans spans_give_what_the_scan_gives [OF f es, of "cd_sha cd" base bs]
    by (cases "spans = []") (auto simp: sidecar_commit_def)
qed

text \<open>With the sidecar open and the blocks found by the scan.\<close>

lemma committed_by_scan:
  assumes "view_around pre post" "view_head pre" "\<And>x. length (cd_sha cd x) = 32" "store_runs (cd_sha cd) ops bs"
    and "\<forall>e \<in> set es. value_text e" "map blockID es = map Some (block_ids vs)" "\<forall>e \<in> set es. length e < 2 ^ 31"
    and "sorted_wrt (<) vs" "\<forall>v \<in> set vs. v < 2 ^ 64" "length vs < 2 ^ 63"
    and "\<forall>(i, e) \<in> set (zip (block_ids vs) es). \<forall>p. store_contents (cd_sha cd) bs i = Some p \<longrightarrow>
      payloadDigest (cd_sha cd) p = payloadDigest (cd_sha cd) e \<longrightarrow> p = e"
    and "store_fits (snd (refBlocks (cd_sha cd) base (pre @ blocks_key @ array_text es @ post) bs))"
    and "store_fits (maybeCompact_store (cd_sha cd) (store_flush (cd_sha cd) (snd (refBlocks (cd_sha cd) base (pre @ blocks_key @ array_text es @ post) bs))))"
    and "record_sane cd r" "validateSessionRecordShape r" "sr_View r = Some (pre @ blocks_key @ array_text es @ post)" "sr_Checksum r = []"
    and "commit_baseline cd (dir\<lparr>rd_formal := snd (sidecar_commit cd base (Some bs) (rd_formal dir) (pre @ blocks_key @ array_text es @ post) [])\<rparr>)
      (sr_WorkspaceKey r) (sr_SessionID r) = Inr b"
    and "\<forall>n c raw. b = Some ((n, c), raw) \<longrightarrow> n < sr_Revision r" "\<forall>n. \<not> cancelled n"
  shows "\<exists>chk dir'. CommitRecord cd links cancelled base (Some bs) r [] dir = (Inr chk, dir') \<and>
    fst (LoadRecord cd dir' (sr_WorkspaceKey r) (sr_SessionID r)) = Inr (r\<lparr>sr_Checksum := chk\<rparr>)"
proof -
  define view where "view = pre @ blocks_key @ array_text es @ post"
  have f: "view_frame pre post" using assms(1) by (simp add: view_around_def)
  obtain l where l: "store_ok (cd_sha cd) l bs" using runs_ok [OF assms(4,3)] by blast
  have fresh: "\<forall>(i, e) \<in> set (zip (block_ids vs) es). \<forall>p. log_contents l i = Some p \<longrightarrow> payloadDigest (cd_sha cd) p = payloadDigest (cd_sha cd) e \<longrightarrow> p = e"
    using assms(11) by (simp add: store_contents_log [OF l])
  from sidecar_committed [OF f assms(3) l assms(5-10) fresh assms(12,13), of "rd_formal dir"] obtain chk slot' where
    sc: "sidecar_commit cd base (Some bs) (rd_formal dir) view [] = (pre @ blocks_key @ marshal_ref (ref_to base chk (length vs)) @ post, slot')"
    and res: "fst (resolveBlocksRef (cd_sha cd) (pre @ blocks_key @ marshal_ref (ref_to base chk (length vs)) @ post) (sl_blocks slot') (sl_idx slot')) = Some view"
    unfolding view_def by blast
  define v where "v = pre @ blocks_key @ marshal_ref (ref_to base chk (length vs)) @ post"
  define d1 where "d1 = dir\<lparr>rd_formal := slot'\<rparr>"
  define d2 where "d2 = fold fs_apply (WriteTmp (record_bytes (cd_sha cd) r v) # backup_ops links d1 b @ [RenameTmp]) d1"
  have nested: "nested_text v" unfolding v_def by (rule ref_view_nested [OF assms(1)])
  have "v = pre @ blocks_key @ (''{'' @ [CHR 0x22] @ blocksRefKey) @ ([CHR 0x22] @ '':'' @ ref_body (ref_to base chk (length vs)) @ ''}'') @ post"
    by (simp add: v_def marshal_ref_body quoted_name_def)
  then have ok: "validateCheckpointForCommit (Some v)" 
    using view_checks(2) [OF f assms(2), of "[CHR 0x22] @ '':'' @ ref_body (ref_to base chk (length vs)) @ ''}''"] by simp
  have ne: "v \<noteq> []" using f by (simp add: v_def view_frame_def)
  have base: "commit_baseline cd d1 (sr_WorkspaceKey r) (sr_SessionID r) = Inr b"
    using assms(18) sc by (simp add: d1_def view_def)
  have cf: "commit_files cd links cancelled r v d1 =
      (Inr (record_sum (cd_sha cd) r v), WriteTmp (record_bytes (cd_sha cd) r v) # backup_ops links d1 b @ [RenameTmp])"
    by (rule commit_files_new [OF assms(14,17) ne assms(20) base assms(19)])
  have "\<not> cancelled 0" using assms(20) by blast
  with assms(15,16) sc have com: "CommitRecord cd links cancelled base (Some bs) r [] dir = (Inr (record_sum (cd_sha cd) r v), d2)"
    by (simp add: CommitRecord_def Let_def view_def [symmetric] v_def [symmetric] d1_def [symmetric] cf d2_def)
  have keep: "rd_formal (fold fs_apply (backup_ops links d1 b) e) = rd_formal e" "rd_tmp (fold fs_apply (backup_ops links d1 b) e) = rd_tmp e" for e
    using backup_ops_keep [of "length (backup_ops links d1 b)" links d1 b e] by simp_all
  have slot: "rd_formal d2 = slot'\<lparr>sl_file := Some (record_bytes (cd_sha cd) r v)\<rparr>"
    by (simp add: d2_def keep) (simp add: d1_def)
  have self: "r\<lparr>sr_View := Some view, sr_Checksum := x\<rparr> = r\<lparr>sr_Checksum := x\<rparr>" for x
    using assms(16) by (simp add: view_def)
  obtain bl ix where rr: "resolveBlocksRef (cd_sha cd) v (sl_blocks slot') (sl_idx slot') = (Some view, bl, ix)"
    using res unfolding v_def by (metis prod.collapse)
  have "fst (LoadRecord cd d2 (sr_WorkspaceKey r) (sr_SessionID r)) = Inr (r\<lparr>sr_Checksum := record_sum (cd_sha cd) r v\<rparr>)"
    using candidate_of_written [OF assms(14,15) nested ok, of "rd_formal d2"] shape_type(3) [OF assms(15)]
    by (simp add: LoadRecord_def loadRecordLocked_def slot rr self)
  with com show ?thesis by blast
qed

text \<open>C3. What is committed is what is loaded, whether the caller has cut the blocks of the view (\<open>BlockSpans\<close>) or the
  store scans for them, and whether the sidecar is open already or is opened now: for every record of sound
  shape without a checksum of its own whose view embeds the blocks \<open>es\<close> with ascending ids, if no block of the
  sidecar with one of these ids has the digest of another text, the store stays within its number ranges, and the
  current record is missing or older, the commit succeeds, and loading gives the same record with the same view,
  although the blocks went to the sidecar and the sidecar may have been compacted.\<close>

theorem committed_record_is_loaded:
  assumes "view_around pre post" "view_head pre" "\<And>x. length (cd_sha cd x) = 32" "store_runs (cd_sha cd) ops bs"
    and "\<forall>e \<in> set es. value_text e" "map blockID es = map Some (block_ids vs)" "\<forall>e \<in> set es. length e < 2 ^ 31"
    and "sorted_wrt (<) vs" "\<forall>v \<in> set vs. v < 2 ^ 64" "length vs < 2 ^ 63"
    and "\<forall>(i, e) \<in> set (zip (block_ids vs) es). \<forall>p. store_contents (cd_sha cd) bs i = Some p \<longrightarrow>
      payloadDigest (cd_sha cd) p = payloadDigest (cd_sha cd) e \<longrightarrow> p = e"
    and "store_fits (snd (refBlocks (cd_sha cd) base (pre @ blocks_key @ array_text es @ post) bs))"
    and "store_fits (maybeCompact_store (cd_sha cd) (store_flush (cd_sha cd) (snd (refBlocks (cd_sha cd) base (pre @ blocks_key @ array_text es @ post) bs))))"
    and "record_sane cd r" "validateSessionRecordShape r" "sr_View r = Some (pre @ blocks_key @ array_text es @ post)" "sr_Checksum r = []"
    and "commit_baseline cd (dir\<lparr>rd_formal := snd (sidecar_commit cd base (Some bs) (rd_formal dir) (pre @ blocks_key @ array_text es @ post) [])\<rparr>)
      (sr_WorkspaceKey r) (sr_SessionID r) = Inr b"
    and "\<forall>n c raw. b = Some ((n, c), raw) \<longrightarrow> n < sr_Revision r" "\<forall>n. \<not> cancelled n"
    and "spans = [] \<or> spans = es"
    and "cached = Some bs \<or> cached = None \<and> openBlockStore (cd_sha cd) (case sl_blocks (rd_formal dir) of Some x \<Rightarrow> x | None \<Rightarrow> []) (sl_idx (rd_formal dir)) = Some bs"
  shows "\<exists>chk dir'. CommitRecord cd links cancelled base cached r spans dir = (Inr chk, dir') \<and>
    fst (LoadRecord cd dir' (sr_WorkspaceKey r) (sr_SessionID r)) = Inr (r\<lparr>sr_Checksum := chk\<rparr>)"
proof -
  have "view_frame pre post" using assms(1) by (simp add: view_around_def)
  from sidecar_paths [OF this assms(5,21,22), of base]
  have "CommitRecord cd links cancelled base cached r spans dir = CommitRecord cd links cancelled base (Some bs) r [] dir"
    using assms(16) by (simp add: CommitRecord_def)
  then show ?thesis
    using committed_by_scan [where links = links, OF assms(1-3) assms(4-20)] by simp
qed

section \<open>Crashes\<close>

text \<open>What a commit does to the record files: nothing, or a temporary file, the backup and the replacement, over
  no record or an older one. A cancelled commit removes the temporary file instead.\<close>

lemma commit_files_ops:
  assumes r: "record_sane cd r" "v \<noteq> []" and c: "commit_files cd links cancelled r v dir = (res, ops)"
  shows "ops = [] \<or> (\<exists>b. commit_baseline cd dir (sr_WorkspaceKey r) (sr_SessionID r) = Inr b \<and> (\<forall>n c raw. b = Some ((n, c), raw) \<longrightarrow> n < sr_Revision r) \<and>
    (ops = WriteTmp (record_bytes (cd_sha cd) r v) # backup_ops links dir b @ [RenameTmp] \<and> res = Inr (record_sum (cd_sha cd) r v) \<or>
     ops = WriteTmp (record_bytes (cd_sha cd) r v) # backup_ops links dir b @ [RemoveTmp]))"
proof (cases "commit_baseline cd dir (sr_WorkspaceKey r) (sr_SessionID r)")
  case (Inl e)
  then show ?thesis using c by (simp add: commit_files_def Let_def encode_envelope [OF r] commit_env [OF r] split: if_splits)
next
  case (Inr b)
  show ?thesis
  proof (cases b)
    case None
    then show ?thesis using c
      by (simp add: commit_files_def Let_def encode_envelope [OF r] commit_env [OF r] Inr backup_ops_def split: if_splits)
  next
    case (Some x)
    obtain n s raw where "x = ((n, s), raw)" by (metis prod.collapse)
    then show ?thesis using c Some
      by (simp add: commit_files_def Let_def encode_envelope [OF r] commit_env [OF r] Inr split: if_splits)
  qed
qed

lemma baseline_file: "sl_file slot = None \<Longrightarrow> readRecordBaseline cd slot ws sid = Inl ErrRecordNotFound"
  by (simp add: readRecordBaseline_def)

text \<open>C4. A crash during the replacement of the record file: if the record file can be read before a commit, then after
  any number of the file operations that follow the step of the sidecar the record from which the next commit
  starts (\<open>commit_baseline\<close>) is the old one or, with a higher revision, the new one; and when the commit
  has reported success and hard links work, the backup is the old record. A record file that is
  damaged before the commit, and a crash inside the step of the sidecar, are not covered (see
  \<open>crash_over_damaged_record_loses_backup\<close> for the former).\<close>

theorem crash_leaves_old_or_new:
  assumes "record_sane cd r" "validateSessionRecordShape r" "v \<noteq> []"
    and "readRecordBaseline cd (rd_formal dir) (sr_WorkspaceKey r) (sr_SessionID r) = Inr old" "snd old \<noteq> []"
    and "commit_files cd links cancelled r v dir = (res, ops)"
  shows "commit_baseline cd (fold fs_apply (take k ops) dir) (sr_WorkspaceKey r) (sr_SessionID r) \<in>
      {Inr (Some old), Inr (Some ((sr_Revision r, record_sum (cd_sha cd) r v), record_bytes (cd_sha cd) r v))} \<and>
    (ops \<noteq> [] \<longrightarrow> fst (fst old) < sr_Revision r) \<and>
    (\<forall>chk. res = Inr chk \<longrightarrow> ops \<noteq> [] \<longrightarrow> links \<longrightarrow> sl_file (rd_bak (fold fs_apply ops dir)) = sl_file (rd_formal dir))"
proof -
  define bytes where "bytes = record_bytes (cd_sha cd) r v"
  have base: "commit_baseline cd dir (sr_WorkspaceKey r) (sr_SessionID r) = Inr (Some old)"
    by (simp add: commit_baseline_def assms(4))
  have there: "sl_file (rd_formal dir) \<noteq> None" using assms(4) baseline_file by fastforce
  have old: "commit_baseline cd d (sr_WorkspaceKey r) (sr_SessionID r) = Inr (Some old)" if "rd_formal d = rd_formal dir" for d
    by (simp add: commit_baseline_def that assms(4))
  have new: "commit_baseline cd d (sr_WorkspaceKey r) (sr_SessionID r) = Inr (Some ((sr_Revision r, record_sum (cd_sha cd) r v), bytes))"
    if "sl_file (rd_formal d) = Some bytes" for d
    using baseline_of_written [OF assms(1) shape_type(1,2) [OF assms(2)], of "rd_formal d" v] that assms(2)
    by (simp add: commit_baseline_def bytes_def)
  from commit_files_ops [OF assms(1,3,6)] show ?thesis
  proof (elim disjE exE conjE, goal_cases)
    case 1
    then show ?thesis by (simp add: base)
  next
    case (2 b)
    then have b: "b = Some old" using base by simp
    then have lt: "fst (fst old) < sr_Revision r" using 2(2) by (metis prod.collapse)
    have ops: "ops = WriteTmp bytes # backup_ops links dir (Some old) @ [RenameTmp]" using 2 b by (simp add: bytes_def)
    have "commit_baseline cd (fold fs_apply (take k ops) dir) (sr_WorkspaceKey r) (sr_SessionID r) \<in>
        {Inr (Some old), Inr (Some ((sr_Revision r, record_sum (cd_sha cd) r v), bytes))}"
    proof (cases "k \<le> 1 + length (backup_ops links dir (Some old))")
      case True
      then have "take k ops = take k (WriteTmp bytes # backup_ops links dir (Some old))" by (simp add: ops take_Cons' )
      then have "rd_formal (fold fs_apply (take k ops) dir) = rd_formal dir"
        by (cases k) (simp_all add: backup_ops_keep)
      then show ?thesis using old by simp
    next
      case False
      then have "take k ops = ops" by (simp add: ops)
      moreover have "sl_file (rd_formal (fold fs_apply ops dir)) = Some bytes"
        using backup_ops_keep(2) [of "length (backup_ops links dir (Some old))" links dir "Some old"] by (simp add: ops)
      ultimately show ?thesis using new by simp
    qed
    moreover have "sl_file (rd_bak (fold fs_apply ops dir)) = sl_file (rd_formal dir)" if links
      using that there assms(5) by (cases old) (simp add: ops backup_ops_def)
    ultimately show ?thesis using lt by (simp add: bytes_def)
  next
    case (3 b)
    then have b: "b = Some old" using base by simp
    then have lt: "fst (fst old) < sr_Revision r" using 3(2) by (metis prod.collapse)
    have ops: "ops = WriteTmp bytes # backup_ops links dir (Some old) @ [RemoveTmp]" using 3 b by (simp add: bytes_def)
    have "rd_formal (fold fs_apply (take k ops) dir) = rd_formal dir"
    proof (cases "k \<le> 1 + length (backup_ops links dir (Some old))")
      case True
      then have "take k ops = take k (WriteTmp bytes # backup_ops links dir (Some old))" by (simp add: ops take_Cons')
      then show ?thesis by (cases k) (simp_all add: backup_ops_keep)
    next
      case False
      then have "take k ops = ops" by (simp add: ops)
      then show ?thesis
        using backup_ops_keep(1) [of "length (backup_ops links dir (Some old))" links dir "Some old"] by (simp add: ops)
    qed
    moreover have "sl_file (rd_bak (fold fs_apply ops dir)) = sl_file (rd_formal dir)" if links
      using that there assms(5) by (cases old) (simp add: ops backup_ops_def)
    ultimately show ?thesis using lt old by simp
  qed
qed

text \<open>When the record file is damaged and the backup is what the commit starts from, the commit first removes
  this backup and links the damaged file in its place: a crash before the replacement leaves no record
  that can be read, although there was one before.\<close>

theorem crash_over_damaged_record_loses_backup:
  assumes "sl_file (rd_formal dir) = Some junk" "checksumFieldSpan junk = None" "decode_record cd junk = None"
    and "readRecordBaseline cd (rd_bak dir) (sr_WorkspaceKey r) (sr_SessionID r) = Inr old" "snd old \<noteq> []"
    and "record_sane cd r" "validateSessionRecordShape r" "v \<noteq> []" "commit_files cd True cancelled r v dir = (res, ops)" "ops \<noteq> []"
  shows "commit_baseline cd dir (sr_WorkspaceKey r) (sr_SessionID r) = Inr (Some old) \<and>
    commit_baseline cd (fold fs_apply (take 3 ops) dir) (sr_WorkspaceKey r) (sr_SessionID r) = Inl ErrRecordCorrupt \<and>
    fst (LoadRecord cd (fold fs_apply (take 3 ops) dir) (sr_WorkspaceKey r) (sr_SessionID r)) = Inl ErrRecordCorrupt"
proof -
  have cand: "readRecordCandidate cd slot ws sid = (Inl ErrRecordCorrupt, slot)" if "sl_file slot = Some junk" for slot ws sid
    by (simp add: readRecordCandidate_def that assms(3))
  have bl: "readRecordBaseline cd slot ws sid = Inl ErrRecordCorrupt" if "sl_file slot = Some junk" for slot ws sid
    by (simp add: readRecordBaseline_def that assms(2) cand)
  have base: "commit_baseline cd dir (sr_WorkspaceKey r) (sr_SessionID r) = Inr (Some old)"
    by (simp add: commit_baseline_def bl [OF assms(1)] assms(4))
  have "backup_ops True dir (Some old) = [RemoveBak, LinkBak]" using assms(1,5) by (cases old) (simp add: backup_ops_def)
  with commit_files_ops [OF assms(6,8,9)] assms(10) base obtain x where "ops = [WriteTmp (record_bytes (cd_sha cd) r v), RemoveBak, LinkBak, x]"
    by auto
  then have "rd_formal (fold fs_apply (take 3 ops) dir) = rd_formal dir" "sl_file (rd_bak (fold fs_apply (take 3 ops) dir)) = Some junk"
    using assms(1) by simp_all
  then show ?thesis using base assms(1) shape_type(3) [OF assms(7)]
    by (simp add: commit_baseline_def bl LoadRecord_def loadRecordLocked_def cand)
qed

text \<open>A backup whose blocks are in a sidecar is never loaded: its reference is resolved against a sidecar under
  the backup's own path, which no commit writes. The reader of the metadata still accepts it.\<close>

theorem backup_is_accepted_but_not_loaded:
  assumes "view_around pre post" "view_head pre" "plain_text chk" "0 < n" "n < 2 ^ 63" "record_sane cd r" "validateSessionRecordShape r"
    and "sl_file (rd_formal dir) = None"
    and "rd_bak dir = \<lparr>sl_file = Some (record_bytes (cd_sha cd) r (pre @ blocks_key @ marshal_ref (ref_to base chk n) @ post)), sl_blocks = None, sl_idx = None\<rparr>"
  shows "LoadRecordMetadata cd dir (sr_WorkspaceKey r) (sr_SessionID r) =
      Inr \<lparr>md_Revision = sr_Revision r, md_ReducerSeq = sr_ReducerSeq r, md_ClearGeneration = sr_ClearGeneration r\<rparr> \<and>
    fst (LoadRecord cd dir (sr_WorkspaceKey r) (sr_SessionID r)) = Inl ErrRecordCorrupt"
proof -
  define v where "v = pre @ blocks_key @ marshal_ref (ref_to base chk n) @ post"
  have f: "view_frame pre post" using assms(1) by (simp add: view_around_def)
  have nested: "nested_text v" unfolding v_def by (rule ref_view_nested [OF assms(1)])
  have "v = pre @ blocks_key @ (''{'' @ [CHR 0x22] @ blocksRefKey) @ ([CHR 0x22] @ '':'' @ ref_body (ref_to base chk n) @ ''}'') @ post"
    by (simp add: v_def marshal_ref_body quoted_name_def)
  then have ok: "validateCheckpointForCommit (Some v)"
    using view_checks(2) [OF f assms(2), of "[CHR 0x22] @ '':'' @ ref_body (ref_to base chk n) @ ''}''"] by simp
  obtain bl ix where no: "resolveBlocksRef (cd_sha cd) v None None = (None, bl, ix)"
    using reference_needs_its_sidecar [OF f assms(3-5)] unfolding v_def by (metis prod.collapse)
  have "fst (readRecordCandidate cd (rd_bak dir) (sr_WorkspaceKey r) (sr_SessionID r)) = Inl ErrRecordCorrupt"
    using candidate_of_written [OF assms(6,7) nested ok, of "rd_bak dir"] assms(9) no by (simp add: v_def)
  then obtain slot where cand: "readRecordCandidate cd (rd_bak dir) (sr_WorkspaceKey r) (sr_SessionID r) = (Inl ErrRecordCorrupt, slot)"
    by (metis prod.collapse)
  have "readRecordCandidate cd (rd_formal dir) ws sid = (Inl ErrRecordNotFound, rd_formal dir)" for ws sid
    by (simp add: readRecordCandidate_def assms(8))
  then have "fst (LoadRecord cd dir (sr_WorkspaceKey r) (sr_SessionID r)) = Inl ErrRecordCorrupt"
    using cand shape_type(3) [OF assms(7)] by (simp add: LoadRecord_def loadRecordLocked_def)
  moreover have "has_prefix (record_sum (cd_sha cd) r v) checksumV2Prefix" by (simp add: record_sum_def)
  ultimately show ?thesis
    using shape_type [OF assms(7)] head_of_written [OF assms(6) shape_type(1,2) [OF assms(7)], of "cd_sha cd" v] assms(7,8)
    by (simp add: LoadRecordMetadata_def loadMetadataCandidate_def assms(9) v_def [symmetric] written_checksum readRecordMetadataFrom_def
        validateSessionRecordShape_def)
qed

section \<open>An example\<close>

definition demo_codec :: codec where
  "demo_codec = \<lparr>cd_sha = demo_sha, cd_state_ok = (\<lambda>s. s \<noteq> []), cd_time_ok = (\<lambda>s. s \<noteq> []), cd_legacy = (\<lambda>r. None), cd_stored = (\<lambda>s. None)\<rparr>"

definition demo_time :: string where "demo_time = [CHR 0x22] @ ''2026-01-01T00:00:00Z'' @ [CHR 0x22]"

definition demo_view :: string where "demo_view = demo_pre @ blocks_key @ array_text [demo_block] @ demo_post"

definition demo_record :: session_record where
  "demo_record = NewSessionRecord ''w'' ''s'' 2 0 0 ''{}'' (Some demo_view) demo_time"

definition no_files :: rec_slot where "no_files = \<lparr>sl_file = None, sl_blocks = None, sl_idx = None\<rparr>"

lemma demo_around: "view_around demo_pre demo_post" "view_head demo_pre"
proof -
  have "scan_frame json_start (EndTop, []) demo_pre demo_post" "scan_frame (BeginValue, [ObjectValue]) (EndValue, [ObjectValue]) demo_pre demo_post"
    by code_simp+
  then show "view_around demo_pre demo_post" using demo_frame by (simp add: view_around_def)
  have "show_int ViewCheckpointSchemaVersion = ''1''" by code_simp
  then show "view_head demo_pre"
    by (simp add: view_head_def demo_pre_def quoted_name_def has_prefix_def)
qed

definition demo_front :: "string \<Rightarrow> string" where
  "demo_front rv = ''{'' @ quoted_name ''type'' @ [CHR 0x22] @ SessionRecordType @ [CHR 0x22] @ '','' @
     quoted_name ''schema_version'' @ ''1,'' @ quoted_name ''session_id'' @ [CHR 0x22] @ ''s'' @ [CHR 0x22] @ '','' @
     quoted_name ''workspace_key'' @ [CHR 0x22] @ ''w'' @ [CHR 0x22] @ '','' @
     quoted_name ''revision'' @ rv @ '','' @ quoted_name ''reducer_seq'' @ ''0,'' @ quoted_name ''clear_generation'' @ ''0,'' @
     quoted_name ''updated_at'' @ demo_time @ '','' @ quoted_name ''sdk_state'' @ ''{},''"

lemma demo_head: "head_front (demo_record\<lparr>sr_Revision := n\<rparr>) = demo_front (show_nat n)"
proof -
  have q: "json_quote SessionRecordType = [CHR 0x22] @ SessionRecordType @ [CHR 0x22]" "json_quote ''s'' = [CHR 0x22] @ ''s'' @ [CHR 0x22]"
    "json_quote ''w'' = [CHR 0x22] @ ''w'' @ [CHR 0x22]"
    by (simp_all add: quote_plain plain_text_def SessionRecordType_def)
  have d: "digit 0 = CHR ''0''" "digit 1 = CHR ''1''" by code_simp+
  then have n: "show_nat 0 = ''0''" "show_nat 1 = ''1''" by (simp_all add: show_nat.simps)
  then have i: "show_int 1 = ''1''" by (simp add: show_int_def)
  show ?thesis
    by (simp add: head_front_def demo_front_def demo_record_def NewSessionRecord_def q n i SessionRecordSchemaVersion_def del: One_nat_def show_nat.simps)
qed

lemma demo_sane: "n \<in> {1, 2} \<Longrightarrow> record_sane demo_codec (demo_record\<lparr>sr_Revision := n\<rparr>)"
proof -
  assume n: "n \<in> {1, 2}"
  have d: "digit 1 = CHR ''1''" "digit 2 = CHR ''2''" by code_simp+
  then have "show_nat 1 = ''1''" "show_nat 2 = ''2''" by (simp_all add: show_nat.simps)
  moreover have "str_index (demo_front ''1'' @ placeholder) placeholder = Some (length (demo_front ''1''))"
    "str_index (demo_front ''2'' @ placeholder) placeholder = Some (length (demo_front ''2''))" by code_simp+
  ultimately have own: "str_index (head_front (demo_record\<lparr>sr_Revision := n\<rparr>) @ placeholder) placeholder =
      Some (length (head_front (demo_record\<lparr>sr_Revision := n\<rparr>)))"
    using n unfolding demo_head by auto
  have "nested_text demo_time" "nested_text ''{}''" by code_simp+
  moreover have "demo_time \<noteq> ''null''" "demo_time \<noteq> []" by (simp_all add: demo_time_def)
  ultimately show ?thesis using own n
    unfolding record_sane_def by (auto simp: demo_record_def NewSessionRecord_def demo_codec_def plain_text_def)
qed

lemma demo_now_sane: "record_sane demo_codec demo_record"
  using demo_sane [of 2] by (simp add: demo_record_def NewSessionRecord_def)

lemma demo_fields:
  "sr_Type demo_record = SessionRecordType" "sr_SchemaVersion demo_record = SessionRecordSchemaVersion" "sr_SessionID demo_record = ''s''"
  "sr_WorkspaceKey demo_record = ''w''" "sr_Revision demo_record = 2" "sr_UpdatedAt demo_record = demo_time"
  "sr_View demo_record = Some demo_view" "sr_Checksum demo_record = []"
  by (simp_all add: demo_record_def NewSessionRecord_def demo_view_def demo_pre_def)

lemma demo_valid: "validateSessionRecordShape demo_record"
proof -
  have "validateCheckpointForCommit (Some demo_view)"
    using view_checks(1) [OF demo_frame demo_around(2), of "demo_block @ '']''"] by (simp add: demo_view_def array_text_def)
  moreover have "demo_time \<noteq> zero_time_text" by (simp add: demo_time_def zero_time_text_def)
  ultimately show ?thesis
    by (simp add: validateSessionRecordShape_def demo_fields validatePathComponent_def has_prefix_def)
qed

lemma demo_first_ref: "snd (refBlocks demo_sha base demo_view demo_store0) = store_put demo_sha ''7'' demo_block demo_store0"
proof -
  have find: "findBlocksField (demo_pre @ blocks_key @ array_text [demo_block] @ demo_post) = Some [demo_block]"
    by (rule find_in_frame [OF demo_frame]) (simp add: demo_block_value)
  have same: "\<not> holdsSame demo_sha demo_store0 ''7'' demo_block" by (simp add: holdsSame_def demo_store0_def fresh_store_def)
  have "length (bs_index (store_put demo_sha ''7'' demo_block demo_store0)) = 1"
    by (simp add: demo_store_defs blockRecPut_def)
  then have "pruneTo demo_sha [''7''] (store_put demo_sha ''7'' demo_block demo_store0) = store_put demo_sha ''7'' demo_block demo_store0"
    by (simp add: pruneTo_def)
  then show ?thesis
    by (simp add: demo_view_def refBlocks_def find ref_with_def demo_block_id demo_not_live same map_filter_simps Let_def split: option.splits)
qed

lemma demo_first_fits:
  "store_fits (store_put demo_sha ''7'' demo_block demo_store0)"
  "store_fits (maybeCompact_store demo_sha (store_flush demo_sha (store_put demo_sha ''7'' demo_block demo_store0)))"
proof -
  show f: "store_fits (store_put demo_sha ''7'' demo_block demo_store0)"
    by (simp add: store_fits_def int64_range_def demo_store_defs blockRecPut_def demo_block_def quoted_name_def)
  have "\<not> needsCompact (store_flush demo_sha (store_put demo_sha ''7'' demo_block demo_store0))"
    by (simp add: needsCompact_def store_flush_def persistIndex_def flush_writer_def demo_store_defs blockRecPut_def)
  then show "store_fits (maybeCompact_store demo_sha (store_flush demo_sha (store_put demo_sha ''7'' demo_block demo_store0)))"
    using f by (simp add: maybeCompact_store_def store_fits_def store_flush_def persistIndex_def flush_writer_def)
qed

theorem committed_record_is_loaded_witness:
  "\<exists>chk dir'. CommitRecord demo_codec True (\<lambda>n. False) ''f'' None demo_record [demo_block] \<lparr>rd_formal = no_files, rd_bak = no_files, rd_tmp = None\<rparr> = (Inr chk, dir') \<and>
    fst (LoadRecord demo_codec dir' (sr_WorkspaceKey demo_record) (sr_SessionID demo_record)) = Inr (demo_record\<lparr>sr_Checksum := chk\<rparr>)"
proof (rule committed_record_is_loaded [OF demo_around _ _ _ _ _ _ _ _ _ _ _ demo_now_sane demo_valid])
  have d: "digit 7 = CHR ''7''" by code_simp
  then have u: "uintToString 7 = ''7''" by (simp add: uintToString_def show_nat.simps)
  have s: "cd_sha demo_codec = demo_sha" by (simp add: demo_codec_def)
  show "length (cd_sha demo_codec x) = 32" for x by (simp add: s demo_sha_length)
  have open0: "openBlockStore demo_sha [] None = Some demo_store0" by (simp add: openBlockStore_def demo_store0_def)
  then show "store_runs (cd_sha demo_codec) [] demo_store0" by (simp add: s store_runs.opened)
  show "\<forall>e \<in> set [demo_block]. value_text e" by (simp add: demo_block_value)
  show "map blockID [demo_block] = map Some (block_ids [7])" by (simp add: demo_block_id block_ids_def u)
  show "\<forall>e \<in> set [demo_block]. length e < 2 ^ 31" by (simp add: demo_block_def quoted_name_def)
  show "sorted_wrt (<) [7 :: nat]" "\<forall>v \<in> set [7]. v < (2 :: nat) ^ 64" "length [7 :: nat] < 2 ^ 63" by simp_all
  have "store_contents demo_sha demo_store0 = Map.empty"
    using sidecar_implements_map [OF store_runs.opened [OF open0] demo_sha_length] by simp
  then show "\<forall>(i, e) \<in> set (zip (block_ids [7]) [demo_block]). \<forall>p. store_contents (cd_sha demo_codec) demo_store0 i = Some p \<longrightarrow>
      payloadDigest (cd_sha demo_codec) p = payloadDigest (cd_sha demo_codec) e \<longrightarrow> p = e"
    by (simp add: s block_ids_def)
  show "store_fits (snd (refBlocks (cd_sha demo_codec) ''f'' (demo_pre @ blocks_key @ array_text [demo_block] @ demo_post) demo_store0))"
    "store_fits (maybeCompact_store (cd_sha demo_codec) (store_flush (cd_sha demo_codec)
       (snd (refBlocks (cd_sha demo_codec) ''f'' (demo_pre @ blocks_key @ array_text [demo_block] @ demo_post) demo_store0))))"
    unfolding s demo_first_ref [unfolded demo_view_def] by (rule demo_first_fits)+
  show "sr_View demo_record = Some (demo_pre @ blocks_key @ array_text [demo_block] @ demo_post)" "sr_Checksum demo_record = []"
    by (simp_all add: demo_fields demo_view_def)
  show "commit_baseline demo_codec (\<lparr>rd_formal = no_files, rd_bak = no_files, rd_tmp = None\<rparr>\<lparr>rd_formal := snd (sidecar_commit demo_codec ''f'' (Some demo_store0)
      (rd_formal \<lparr>rd_formal = no_files, rd_bak = no_files, rd_tmp = None\<rparr>) (demo_pre @ blocks_key @ array_text [demo_block] @ demo_post) [])\<rparr>)
      (sr_WorkspaceKey demo_record) (sr_SessionID demo_record) = Inr None"
    by (simp add: commit_baseline_def baseline_file sidecar_keeps_file no_files_def)
  show "None = Some demo_store0 \<or> None = None \<and> openBlockStore (cd_sha demo_codec) (case sl_blocks (rd_formal \<lparr>rd_formal = no_files, rd_bak = no_files, rd_tmp = None\<rparr>) of
      Some x \<Rightarrow> x | None \<Rightarrow> []) (sl_idx (rd_formal \<lparr>rd_formal = no_files, rd_bak = no_files, rd_tmp = None\<rparr>)) = Some demo_store0"
    using open0 by (simp add: s no_files_def)
qed simp_all

text \<open>An older record, as the record file or as the backup.\<close>

definition demo_old :: session_record where "demo_old = demo_record\<lparr>sr_Revision := 1\<rparr>"

definition old_base :: "(nat \<times> string) \<times> string" where
  "old_base = ((1, record_sum demo_sha demo_old ''{}''), record_bytes demo_sha demo_old ''{}'')"

definition old_slot :: rec_slot where "old_slot = \<lparr>sl_file = Some (snd old_base), sl_blocks = None, sl_idx = None\<rparr>"
definition old_dir :: rec_dir where "old_dir = \<lparr>rd_formal = old_slot, rd_bak = no_files, rd_tmp = None\<rparr>"
definition torn_dir :: rec_dir where "torn_dir = \<lparr>rd_formal = no_files\<lparr>sl_file := Some ''{''\<rparr>, rd_bak = old_slot, rd_tmp = None\<rparr>"

lemma old_baseline: "readRecordBaseline demo_codec old_slot ws sid = Inr old_base" "snd old_base \<noteq> []"
proof -
  have "readRecordBaseline demo_codec old_slot ws sid =
      Inr ((sr_Revision demo_old, record_sum (cd_sha demo_codec) demo_old ''{}''), record_bytes (cd_sha demo_codec) demo_old ''{}'')"
    by (rule baseline_of_written) (use demo_sane [of 1] in \<open>simp_all add: demo_old_def demo_fields old_slot_def old_base_def demo_codec_def\<close>)
  then show "readRecordBaseline demo_codec old_slot ws sid = Inr old_base" by (simp add: old_base_def demo_codec_def demo_old_def)
  show "snd old_base \<noteq> []" by (simp add: old_base_def record_bytes_def checksum_tail_def)
qed

definition demo_commit :: "rec_dir \<Rightarrow> (rec_error + string) \<times> fs_op list" where
  "demo_commit dir = commit_files demo_codec True (\<lambda>n. False) demo_record demo_view dir"

lemma demo_view_ne: "demo_view \<noteq> []" by (simp add: demo_view_def demo_pre_def)

theorem crash_leaves_old_or_new_witness:
  "commit_baseline demo_codec (fold fs_apply (take 3 (snd (demo_commit old_dir))) old_dir) ''w'' ''s'' \<in>
    {Inr (Some old_base), Inr (Some ((2, record_sum demo_sha demo_record demo_view), record_bytes demo_sha demo_record demo_view))}"
proof -
  have base: "readRecordBaseline demo_codec (rd_formal old_dir) (sr_WorkspaceKey demo_record) (sr_SessionID demo_record) = Inr old_base"
    by (simp add: old_dir_def old_baseline)
  have "commit_files demo_codec True (\<lambda>n. False) demo_record demo_view old_dir = (fst (demo_commit old_dir), snd (demo_commit old_dir))"
    by (simp add: demo_commit_def)
  from crash_leaves_old_or_new [OF demo_now_sane demo_valid demo_view_ne base old_baseline(2) this, of 3]
  show ?thesis by (simp add: demo_fields demo_codec_def)
qed

theorem crash_over_damaged_record_loses_backup_witness:
  "commit_baseline demo_codec torn_dir ''w'' ''s'' = Inr (Some old_base) \<and>
    commit_baseline demo_codec (fold fs_apply (take 3 (snd (demo_commit torn_dir))) torn_dir) ''w'' ''s'' = Inl ErrRecordCorrupt \<and>
    fst (LoadRecord demo_codec (fold fs_apply (take 3 (snd (demo_commit torn_dir))) torn_dir) ''w'' ''s'') = Inl ErrRecordCorrupt"
proof -
  have key: "str_last_index ''{'' checksum_key = None" by (simp add: checksum_key_def quoted_name_def has_prefix_def)
  then have torn: "checksumFieldSpan ''{'' = None" by (simp add: checksumFieldSpan_def)
  have bad: "decode_record demo_codec ''{'' = None"
    by (simp add: decode_record_def skip_ws_def json_space_def read_value.simps json_start_def scan_done_def number_done_def begin_value_def push_open_def maxNestingDepth_def)
  have cand: "readRecordBaseline demo_codec (no_files\<lparr>sl_file := Some ''{''\<rparr>) ws sid = Inl ErrRecordCorrupt" for ws sid
    by (simp add: readRecordBaseline_def readRecordCandidate_def torn bad)
  have bak: "readRecordBaseline demo_codec (rd_bak torn_dir) (sr_WorkspaceKey demo_record) (sr_SessionID demo_record) = Inr old_base"
    by (simp add: torn_dir_def old_baseline)
  have base: "commit_baseline demo_codec torn_dir (sr_WorkspaceKey demo_record) (sr_SessionID demo_record) = Inr (Some old_base)"
    by (simp add: commit_baseline_def torn_dir_def cand old_baseline)
  have "demo_commit torn_dir = (Inr (record_sum (cd_sha demo_codec) demo_record demo_view),
      WriteTmp (record_bytes (cd_sha demo_codec) demo_record demo_view) # backup_ops True torn_dir (Some old_base) @ [RenameTmp])"
    unfolding demo_commit_def by (rule commit_files_new [OF demo_now_sane _ demo_view_ne _ base]) (simp_all add: demo_fields old_base_def)
  then have ops: "commit_files demo_codec True (\<lambda>n. False) demo_record demo_view torn_dir = (fst (demo_commit torn_dir), snd (demo_commit torn_dir))"
    "snd (demo_commit torn_dir) \<noteq> []" by (simp_all add: demo_commit_def)
  have file0: "sl_file (rd_formal torn_dir) = Some ''{''" by (simp add: torn_dir_def)
  from crash_over_damaged_record_loses_backup [OF file0 torn bad bak old_baseline(2) demo_now_sane demo_valid demo_view_ne ops]
  show ?thesis by (simp add: demo_fields)
qed

definition ref_dir :: rec_dir where
  "ref_dir = \<lparr>rd_formal = no_files, rd_bak = no_files\<lparr>sl_file := Some (record_bytes demo_sha demo_record
     (demo_pre @ blocks_key @ marshal_ref (ref_to ''s.record.json.blocks'' ''blockset1:00'' 1) @ demo_post))\<rparr>, rd_tmp = None\<rparr>"

theorem backup_is_accepted_but_not_loaded_witness:
  "LoadRecordMetadata demo_codec ref_dir ''w'' ''s'' = Inr \<lparr>md_Revision = 2, md_ReducerSeq = 0, md_ClearGeneration = 0\<rparr> \<and>
    fst (LoadRecord demo_codec ref_dir ''w'' ''s'') = Inl ErrRecordCorrupt"
proof -
  have "sl_file (rd_formal ref_dir) = None"
    "rd_bak ref_dir = \<lparr>sl_file = Some (record_bytes (cd_sha demo_codec) demo_record
      (demo_pre @ blocks_key @ marshal_ref (ref_to ''s.record.json.blocks'' ''blockset1:00'' 1) @ demo_post)), sl_blocks = None, sl_idx = None\<rparr>"
    by (simp_all add: ref_dir_def no_files_def demo_codec_def)
  from backup_is_accepted_but_not_loaded [OF demo_around _ _ _ demo_now_sane demo_valid this]
  show ?thesis by (simp add: demo_fields plain_text_def) (simp add: demo_record_def NewSessionRecord_def)
qed

end
