(* ===== verification/ToolText.thy ===== *)
theory ToolText
  imports Errors
begin

text \<open>
  The texts of tool results (\<open>tools/engine.go\<close>, \<open>tools/exec_status.go\<close>, \<open>tools/nested.go\<close>,
  \<open>tools/builtin/recovery.go\<close>): the middle cut out of a long result at rune boundaries, the
  envelope of a tool error and its reading, the codes of errors without one, exit codes that are
  no failure, and the suggestions for an unknown name. The percentage, which Go computes in
  \<open>float64\<close>, is a parameter.
\<close>

section \<open>Cutting at runes\<close>

text \<open>\<open>cutPrefixUTF8\<close> steps back to a byte that starts a rune, \<open>cutSuffixUTF8\<close> forward.\<close>

fun back_to_start :: "string \<Rightarrow> nat \<Rightarrow> nat" where
  "back_to_start s 0 = 0"
| "back_to_start s (Suc n) = (if rune_start (s ! Suc n) then Suc n else back_to_start s n)"

definition cutPrefixUTF8 :: "string \<Rightarrow> int \<Rightarrow> nat" where
  "cutPrefixUTF8 s n =
     (if n \<le> 0 then 0 else if int (length s) \<le> n then length s else back_to_start s (nat n))"

definition cutSuffixUTF8 :: "string \<Rightarrow> int \<Rightarrow> nat" where
  "cutSuffixUTF8 s n =
     (if n \<le> 0 then length s
      else let i = int (length s) - n in
        if i < 0 then 0
        else nat i + length (takeWhile (\<lambda>c. \<not> rune_start c) (drop (nat i) s)))"

definition narrow_hint :: string where
  "narrow_hint = ''Narrow the output to see it all (e.g. `head`/`-l`/`wc`, a smaller path or pattern) ...]''"

definition blank_line :: string where "blank_line = [CHR 0x0A, CHR 0x0A]"

definition spill_hint :: "string \<Rightarrow> string" where
  "spill_hint path = ''The **full** output is written to '' @ path @
     '' '' @ [CHR 0xE2, CHR 0x80, CHR 0x94] @ '' read the missing middle from that file (read_file with start_line/end_line for line-oriented logs; for a huge single line use `sed -n`/`tail -c`/`grep` on that path) instead of re-running this command ...]''"

text \<open>The note between both ends: the numbers of bytes left out, in all, in front and behind.\<close>

definition omission_note :: "(nat \<Rightarrow> nat \<Rightarrow> string) \<Rightarrow> nat \<Rightarrow> nat \<Rightarrow> nat \<Rightarrow> nat \<Rightarrow> string option \<Rightarrow> string" where
  "omission_note pct omitted whole front behind path =
     blank_line @ ''[... '' @ show_nat omitted @ '' bytes omitted from the middle ('' @ pct omitted whole @ ''% of '' @ show_nat whole @
     '' bytes total); showing the first '' @ show_nat front @ '' and the last '' @ show_nat behind @ '' bytes '' @ [CHR 0xE2, CHR 0x80, CHR 0x94] @
     '' both ends are present, the middle is not. '' @
     (case path of Some p \<Rightarrow> spill_hint p | None \<Rightarrow> narrow_hint) @ blank_line"

text \<open>\<open>truncate\<close>; \<open>spilled\<close> is the path of the file that \<open>spillText\<close> has written, if it has.\<close>

definition truncate_at :: "string \<Rightarrow> int \<Rightarrow> nat \<times> nat" where
  "truncate_at s mx = (cutPrefixUTF8 s (mx div 2), cutSuffixUTF8 s (mx - mx div 2))"

definition truncate_text :: "(nat \<Rightarrow> nat \<Rightarrow> string) \<Rightarrow> int \<Rightarrow> string option \<Rightarrow> string \<Rightarrow> string" where
  "truncate_text pct mx spilled s =
     (if mx \<le> 0 \<or> int (length s) \<le> mx then s
      else case truncate_at s mx of (headEnd, tailStart) \<Rightarrow>
        if tailStart \<le> headEnd then take headEnd s @ blank_line @ ''[... '' @ show_nat (length s - headEnd) @ '' bytes omitted ...]''
        else take headEnd s @ omission_note pct (tailStart - headEnd) (length s) headEnd (length s - tailStart) spilled @ drop tailStart s)"

definition maxSpillBytes :: int where "maxSpillBytes = 256 * 2 ^ 20"

definition token_char :: "string \<Rightarrow> string" where
  "token_char r =
     (case r of [c] \<Rightarrow> if byte_in 0x61 0x7A c \<or> byte_in 0x41 0x5A c \<or> is_digit c \<or> c \<in> set ''._-'' then [c] else ''_'' | _ \<Rightarrow> ''_'')"

text \<open>The loop of \<open>safeFileToken\<close> stops once 64 bytes are written.\<close>

fun file_token :: "string list \<Rightarrow> string \<Rightarrow> string" where
  "file_token [] out = out"
| "file_token (r # rs) out = (let out' = out @ token_char r in if 64 \<le> length out' then out' else file_token rs out')"

definition safeFileToken :: "string \<Rightarrow> string" where
  "safeFileToken s = (if s = [] then ''call'' else let out = file_token (runes s) [] in if out = [] then ''call'' else out)"

definition humanBytes :: "int \<Rightarrow> string" where
  "humanBytes n = (if n \<le> 0 then ''unlimited'' else if 2 ^ 20 \<le> n then show_int (n div 2 ^ 20) @ ''MB'' else show_int (n div 2 ^ 10) @ ''KB'')"

text \<open>Arguments and results in the records of nested calls are cut at a byte.\<close>

definition truncNested :: "string \<Rightarrow> nat \<Rightarrow> string" where
  "truncNested s mx =
     (if length s \<le> mx then s
      else let marker = ''...[+'' @ show_nat (length s - mx + 16) @ '' bytes]'' in
        if mx \<le> length marker then take mx s else take (mx - length marker) s @ marker)"

section \<open>The envelope of a tool error\<close>

definition recoveryError :: "string \<Rightarrow> string \<Rightarrow> string \<Rightarrow> string \<Rightarrow> string" where
  "recoveryError code nxt detail fx =
     ''TOOL_ERROR'' @ [CHR 0x0A] @ ''code: '' @ code @ [CHR 0x0A] @ ''next_action: '' @ nxt @ [CHR 0x0A] @ ''detail: '' @ detail @ [CHR 0x0A] @ ''fix: '' @ fx"

text \<open>\<open>strings.SplitN(line, ": ", 2)\<close>, if there are two parts.\<close>

definition key_and_value :: "string \<Rightarrow> (string \<times> string) option" where
  "key_and_value line = map_option (\<lambda>i. (take i line, drop (i + 2) line)) (str_index line '': '')"

definition envelope_line :: "string \<Rightarrow> tool_error \<Rightarrow> tool_error" where
  "envelope_line line e =
     (case key_and_value line of
        None \<Rightarrow> e
      | Some (k, v) \<Rightarrow>
          if k = ''code'' then e\<lparr>te_code := v\<rparr>
          else if k = ''changed'' then e\<lparr>te_changed := v\<rparr>
          else if k = ''retryable'' then e\<lparr>te_retryable := (v = ''true'')\<rparr>
          else if k = ''retry_with_same_arguments'' then e\<lparr>te_retry_same := (v = ''true'')\<rparr>
          else if k = ''next_action'' then e\<lparr>te_next := v\<rparr>
          else if k = ''fix'' then e\<lparr>te_recovery := v\<rparr>
          else if k = ''recovery'' then e\<lparr>te_recovery := v\<rparr>
          else e)"

definition blank_tool_error :: tool_error where
  "blank_tool_error = \<lparr>te_code = [], te_changed = ''false'', te_retryable = True, te_retry_same = False, te_next = [], te_recovery = []\<rparr>"

definition parseToolError :: "string \<Rightarrow> tool_error option" where
  "parseToolError result =
     (let r = trim_prefix result ''invalid params: '' in
      if \<not> has_prefix r (''TOOL_ERROR'' @ [CHR 0x0A]) then None
      else Some (fold envelope_line (split_on (CHR 0x0A) r) blank_tool_error))"

definition errorCode :: "tool_error option \<Rightarrow> string" where "errorCode e = (case e of None \<Rightarrow> [] | Some x \<Rightarrow> te_code x)"
definition errorChanged :: "tool_error option \<Rightarrow> string" where "errorChanged e = (case e of None \<Rightarrow> [] | Some x \<Rightarrow> te_changed x)"
definition errorRetryable :: "tool_error option \<Rightarrow> bool" where "errorRetryable e = (case e of None \<Rightarrow> False | Some x \<Rightarrow> te_retryable x)"
definition errorNextAction :: "tool_error option \<Rightarrow> string" where "errorNextAction e = (case e of None \<Rightarrow> [] | Some x \<Rightarrow> te_next x)"
definition errorRecovery :: "tool_error option \<Rightarrow> string" where "errorRecovery e = (case e of None \<Rightarrow> [] | Some x \<Rightarrow> te_recovery x)"

definition errorCodeCanceled :: string where "errorCodeCanceled = ''canceled''"

definition lit_not_found :: string where  \<comment> \<open>the file does not exist\<close>
  "lit_not_found = [CHR 0xE6, CHR 0x96, CHR 0x87, CHR 0xE4, CHR 0xBB, CHR 0xB6, CHR 0xE4, CHR 0xB8, CHR 0x8D, CHR 0xE5, CHR 0xAD, CHR 0x98,
     CHR 0xE5, CHR 0x9C, CHR 0xA8]"

definition fallbackErrorCode :: "string \<Rightarrow> string" where
  "fallbackErrorCode result =
     (let r = to_lower result in
      if contains r ''file not found'' \<or> contains r lit_not_found \<or> contains r ''no such file or directory'' then ''file_not_found''
      else if contains r ''escapes workspace root'' \<or> contains r ''is protected'' then ''path_not_allowed''
      else if contains r ''is a directory'' then ''not_a_file''
      else if contains r ''transport error'' \<or> contains r ''transport closed'' then ''transport_error''
      else if contains r ''deadline exceeded'' \<or> contains r ''timed out'' \<or> contains r ''timeout'' then ''timeout''
      else if contains r ''is not registered'' then ''unknown_tool''
      else ''unclassified'')"

section \<open>Exit codes that are no failure\<close>

text \<open>\<open>filepath.Base\<close>: the last element of a path.\<close>

definition path_Base :: "string \<Rightarrow> string" where
  "path_Base p =
     (if p = [] then ''.''
      else let q = rev (dropWhile (\<lambda>c. c = CHR ''/'') (rev p)) in
        if q = [] then ''/'' else rev (takeWhile (\<lambda>c. c \<noteq> CHR ''/'') (rev q)))"

definition benign_commands :: "string list" where
  "benign_commands = [''grep'', ''egrep'', ''fgrep'', ''rg'', ''rgrep'', ''diff'', ''cmp'', ''test'', ''['', ''[['']"

definition benignNonZeroExit :: "string \<Rightarrow> int \<Rightarrow> bool" where
  "benignNonZeroExit cmd code \<longleftrightarrow>
     code = 1 \<and> (case str_fields cmd of [] \<Rightarrow> False | f # _ \<Rightarrow> path_Base f \<in> set benign_commands)"

section \<open>Suggestions for an unknown name\<close>

text \<open>Names are compared rune by rune after \<open>strings.ToLower\<close>, exact for ASCII letters.\<close>

record name_match =
  nm_name :: string
  nm_runes :: "string list"
  nm_prefix :: nat
  nm_sub :: nat

definition nm_score :: "name_match \<Rightarrow> nat" where "nm_score m = nm_prefix m + nm_sub m"

text \<open>The order of Go strings, byte by byte.\<close>

fun str_less :: "string \<Rightarrow> string \<Rightarrow> bool" where
  "str_less _ [] = False"
| "str_less [] (d # t) = True"
| "str_less (c # s) (d # t) = ((of_char c :: nat) < of_char d \<or> c = d \<and> str_less s t)"

definition betterThan :: "name_match \<Rightarrow> name_match \<Rightarrow> bool" where
  "betterThan m n =
     (if nm_score m \<noteq> nm_score n then nm_score n < nm_score m
      else if nm_prefix m \<noteq> nm_prefix n then nm_prefix n < nm_prefix m
      else if nm_sub m \<noteq> nm_sub n then nm_sub n < nm_sub m
      else if length (nm_runes m) \<noteq> length (nm_runes n) then length (nm_runes m) < length (nm_runes n)
      else str_less (nm_name m) (nm_name n))"

fun commonRunePrefix :: "'a list \<Rightarrow> 'a list \<Rightarrow> nat" where
  "commonRunePrefix (x # xs) (y # ys) = (if x = y then Suc (commonRunePrefix xs ys) else 0)"
| "commonRunePrefix _ _ = 0"

text \<open>One row of the table of \<open>longestCommonRunes\<close>: the run of equal runes that ends at each place.\<close>

fun dp_row :: "'a \<Rightarrow> 'a list \<Rightarrow> nat list \<Rightarrow> nat list" where
  "dp_row a (b # bs) (p # ps) = (if a = b then Suc p else 0) # dp_row a bs ps"
| "dp_row a _ _ = []"

text \<open>\<open>prev\<close> is shifted: its first entry stands for the column in front of the first rune.\<close>

fun dp_rows :: "'a list \<Rightarrow> 'a list \<Rightarrow> nat list \<Rightarrow> nat \<Rightarrow> nat" where
  "dp_rows [] b row best = best"
| "dp_rows (a # as) b row best = (let cur = dp_row a b (0 # row) in dp_rows as b cur (fold max cur best))"

definition longestCommonRunes :: "'a list \<Rightarrow> 'a list \<Rightarrow> nat" where
  "longestCommonRunes a b = dp_rows a b (replicate (length b) 0) 0"

definition minToolNameSimilarity :: nat where "minToolNameSimilarity = 3"
definition minFileStemSimilarity :: nat where "minFileStemSimilarity = 3"
definition maxAvailableToolNames :: nat where "maxAvailableToolNames = 20"

definition toolNameCloseEnough :: "name_match \<Rightarrow> bool" where "toolNameCloseEnough m \<longleftrightarrow> minToolNameSimilarity \<le> nm_prefix m + nm_sub m"
definition fileStemCloseEnough :: "name_match \<Rightarrow> bool" where "fileStemCloseEnough m \<longleftrightarrow> minFileStemSimilarity \<le> nm_sub m"

text \<open>\<open>strings.LastIndex(s, ".")\<close> cuts the extension; a name that starts with a dot and has no other is empty.\<close>

definition last_dot :: "string \<Rightarrow> nat option" where
  "last_dot s = (if CHR ''.'' \<in> set s then Some (length s - 1 - length (takeWhile (\<lambda>c. c \<noteq> CHR ''.'') (rev s))) else None)"

definition fileStem :: "string \<Rightarrow> string" where
  "fileStem name =
     (let b = path_Base name in
      case last_dot b of
        Some d \<Rightarrow> if 0 < d then take d b else if has_prefix b ''.'' then [] else b
      | None \<Rightarrow> b)"

text \<open>The loop of \<open>rankNameMatches\<close>: the exact match alone, or all candidates that are close enough.\<close>

fun name_hits :: "string list \<Rightarrow> (string \<Rightarrow> string) \<Rightarrow> (name_match \<Rightarrow> bool) \<Rightarrow> string list \<Rightarrow> name_match list \<Rightarrow> name_match + name_match list" where
  "name_hits t cmp accept [] hits = Inr hits"
| "name_hits t cmp accept (c # cs) hits =
     (let k = runes (to_lower (cmp c)) in
      if k = [] then name_hits t cmp accept cs hits
      else let p = commonRunePrefix t k; m = \<lparr>nm_name = c, nm_runes = k, nm_prefix = p, nm_sub = 0\<rparr> in
        if p = length t \<and> p = length k then Inl m
        else let m' = m\<lparr>nm_sub := longestCommonRunes t k\<rparr> in
          name_hits t cmp accept cs (if accept m' then hits @ [m'] else hits))"

fun insert_match :: "name_match \<Rightarrow> name_match list \<Rightarrow> name_match list" where
  "insert_match m [] = [m]"
| "insert_match m (x # xs) = (if betterThan x m then x # insert_match m xs else m # x # xs)"

definition rankNameMatches :: "string \<Rightarrow> string list \<Rightarrow> int \<Rightarrow> (string \<Rightarrow> string) \<Rightarrow> (name_match \<Rightarrow> bool) \<Rightarrow> name_match list" where
  "rankNameMatches target names limit cmp accept =
     (if limit \<le> 0 then []
      else let t = runes (to_lower target) in
        if t = [] then []
        else case name_hits t cmp accept names [] of
            Inl m \<Rightarrow> [m]
          | Inr hits \<Rightarrow> take (nat limit) (foldr insert_match hits []))"

definition suggestToolName :: "string \<Rightarrow> string list \<Rightarrow> string" where
  "suggestToolName name names =
     (case rankNameMatches name names 1 (\<lambda>x. x) toolNameCloseEnough of [] \<Rightarrow> [] | m # _ \<Rightarrow> nm_name m)"

definition SuggestSimilarFileNames :: "string \<Rightarrow> string list \<Rightarrow> int \<Rightarrow> string list" where
  "SuggestSimilarFileNames target names limit = map nm_name (rankNameMatches target names limit fileStem fileStemCloseEnough)"

text \<open>\<open>toolSuggestion\<close>; \<open>q\<close> is \<open>strconv.Quote\<close>.\<close>

definition toolSuggestion :: "(string \<Rightarrow> string) \<Rightarrow> string \<Rightarrow> string list \<Rightarrow> string" where
  "toolSuggestion q name names =
     (if names = [] then '' (no tools are registered)''
      else let available = join '', '' (take maxAvailableToolNames names) @
                 (if maxAvailableToolNames < length names
                  then '', '' @ [CHR 0xE2, CHR 0x80, CHR 0xA6] @ '' ('' @ show_nat (length names) @ '' tools total)'' else []);
               best = suggestToolName name names
           in if best \<noteq> [] then ''; did you mean '' @ q best @ ''? (available: '' @ available @ '')''
              else '' (available: '' @ available @ '')'')"

section \<open>Both ends of a long result\<close>

lemma rune_bytes_shape: "rune_bytes r \<Longrightarrow> r \<noteq> [] \<and> rune_start (hd r) \<and> (\<forall>c \<in> set (tl r). \<not> rune_start c) \<and> length r \<le> 4"
  by (cases r rule: rune_bytes.cases) (auto simp: rune_start_def byte_in_def)

lemma back_to_start_le: "back_to_start s n \<le> n"
  by (induction n) auto

lemma back_to_start_stays: "rune_start (s ! n) \<Longrightarrow> back_to_start s n = n"
  by (cases n) auto

lemma back_to_start_skip:
  "\<forall>i. m < i \<and> i \<le> m + k \<longrightarrow> \<not> rune_start (s ! i) \<Longrightarrow> back_to_start s (m + k) = back_to_start s m"
  by (induction k) auto

text \<open>Any position in a text of runes is in front of the text's end inside one of its runes.\<close>

lemma position_in_runes:
  "n < length (concat rs) \<Longrightarrow> \<exists>front r post k. rs = front @ r # post \<and> n = length (concat front) + k \<and> k < length r"
proof (induction rs arbitrary: n)
  case (Cons r rs)
  show ?case
  proof (cases "n < length r")
    case True
    then have "r # rs = [] @ r # rs \<and> n = length (concat []) + n \<and> n < length r" by simp
    then show ?thesis by blast
  next
    case False
    then have "n - length r < length (concat rs)" using Cons.prems by simp
    from Cons.IH [OF this] obtain front r' post k where
      f: "rs = front @ r' # post" "n - length r = length (concat front) + k" "k < length r'" by blast
    then have "r # rs = (r # front) @ r' # post \<and> n = length (concat (r # front)) + k \<and> k < length r'" using False by simp
    then show ?thesis by blast
  qed
qed simp

lemma rune_at:
  assumes "rune_bytes r" "k < length r"
  shows "rune_start (r ! k) \<longleftrightarrow> k = 0"
proof (cases k)
  case 0
  then show ?thesis using rune_bytes_shape [OF assms(1)] by (simp add: hd_conv_nth [symmetric])
next
  case (Suc j)
  then have "r ! k \<in> set (tl r)" using assms(2) by (cases r) auto
  then show ?thesis using rune_bytes_shape [OF assms(1)] Suc by auto
qed

lemma cut_prefix_runes:
  assumes rs: "\<forall>r \<in> set rs. rune_bytes r" and n: "0 \<le> n"
  obtains front post where "rs = front @ post" "cutPrefixUTF8 (concat rs) n = length (concat front)"
    "int (length (concat front)) \<le> n" "post = [] \<or> n < int (length (concat front)) + 4"
proof (cases "n = 0 \<or> int (length (concat rs)) \<le> n")
  case True
  then show thesis
  proof
    assume "n = 0"
    then show thesis using that [of "[]" rs] by (simp add: cutPrefixUTF8_def)
  next
    assume "int (length (concat rs)) \<le> n"
    then have "cutPrefixUTF8 (concat rs) n = length (concat rs)" using n unfolding cutPrefixUTF8_def by presburger
    then show thesis using that [of rs "[]"] \<open>int (length (concat rs)) \<le> n\<close> by simp
  qed
next
  case False
  then have "nat n < length (concat rs)" using n by linarith
  from position_in_runes [OF this] obtain front r post k where
    f: "rs = front @ r # post" "nat n = length (concat front) + k" "k < length r" by blast
  have r: "rune_bytes r" using rs f(1) by simp
  have at: "concat rs ! (length (concat front) + i) = r ! i" if "i < length r" for i
    using that by (simp add: f(1) nth_append)
  have "\<forall>i. length (concat front) < i \<and> i \<le> length (concat front) + k \<longrightarrow> \<not> rune_start (concat rs ! i)"
  proof (intro allI impI)
    fix i assume "length (concat front) < i \<and> i \<le> length (concat front) + k"
    then obtain j where "i = length (concat front) + j" "0 < j" "j \<le> k" by (metis add_diff_inverse_nat less_imp_le nat_add_left_cancel_le not_less zero_less_diff)
    then show "\<not> rune_start (concat rs ! i)" using at rune_at [OF r, of j] f(3) by simp
  qed
  then have "back_to_start (concat rs) (nat n) = back_to_start (concat rs) (length (concat front))"
    unfolding f(2) by (rule back_to_start_skip)
  also have "\<dots> = length (concat front)"
    using at [of 0] rune_at [OF r, of 0] f(3) by (intro back_to_start_stays) (metis add.right_neutral gr_implies_not_zero length_greater_0_conv list.size(3))
  finally have "cutPrefixUTF8 (concat rs) n = length (concat front)" using False n by (auto simp: cutPrefixUTF8_def)
  then show thesis using that [of front "r # post"] f n rune_bytes_shape [OF r] by simp linarith
qed

lemma cut_suffix_runes:
  assumes rs: "\<forall>r \<in> set rs. rune_bytes r" and n: "0 \<le> n"
  obtains front post where "rs = front @ post" "cutSuffixUTF8 (concat rs) n = length (concat front)"
    "int (length (concat post)) \<le> n" "front = [] \<or> n < int (length (concat post)) + 4"
proof (cases "n = 0 \<or> int (length (concat rs)) \<le> n")
  case True
  then show thesis
  proof
    assume "n = 0"
    then show thesis using that [of rs "[]"] by (simp add: cutSuffixUTF8_def)
  next
    assume le: "int (length (concat rs)) \<le> n"
    show thesis
    proof (cases "concat rs = []")
      case True
      then have "rs = []" using rs rune_bytes_shape by (cases rs) auto
      then show thesis using that [of "[]" "[]"] n by (simp add: cutSuffixUTF8_def)
    next
      case False
      then obtain c t where ct: "concat rs = c # t" by (cases "concat rs") auto
      obtain r rr where "rs = r # rr" using False by (cases rs) auto
      then have st: "rune_start c" using rs ct rune_bytes_shape [of r] by (cases r) auto
      have "cutSuffixUTF8 (concat rs) n = 0"
      proof (cases "int (length (concat rs)) - n < 0")
        case True
        then show ?thesis using n le False by (auto simp: cutSuffixUTF8_def)
      next
        case False
        then have "int (length (concat rs)) = n" using le by linarith
        then show ?thesis using st ct by (simp add: cutSuffixUTF8_def)
      qed
      then show thesis using that [of "[]" rs] le by simp
    qed
  qed
next
  case False
  define i where "i = nat (int (length (concat rs)) - n)"
  have i: "int i = int (length (concat rs)) - n" "i < length (concat rs)" using False n by (auto simp: i_def)
  from position_in_runes [OF i(2)] obtain front r post k where
    f: "rs = front @ r # post" "i = length (concat front) + k" "k < length r" by blast
  have r: "rune_bytes r" using rs f(1) by simp
  have post: "post = [] \<or> (\<exists>c t. concat post = c # t \<and> rune_start c)"
  proof (cases post)
    case (Cons q qs)
    then have "rune_bytes q" using rs f(1) by simp
    then show ?thesis using rune_bytes_shape [of q] Cons by (cases q) auto
  qed simp
  have cut: "cutSuffixUTF8 (concat rs) n = i + length (takeWhile (\<lambda>c. \<not> rune_start c) (drop k r @ concat post))"
  proof -
    have "cutSuffixUTF8 (concat rs) n = i + length (takeWhile (\<lambda>c. \<not> rune_start c) (drop i (concat rs)))"
      using False n by (simp add: cutSuffixUTF8_def Let_def i_def)
    moreover have "drop i (concat rs) = drop k r @ concat post" using f by simp
    ultimately show ?thesis by simp
  qed
  show thesis
  proof (cases k)
    case 0
    then have "takeWhile (\<lambda>c. \<not> rune_start c) (drop k r @ concat post) = []"
      using rune_bytes_shape [OF r] by (cases r) auto
    then have "cutSuffixUTF8 (concat rs) n = length (concat front)" using cut 0 f(2) by simp
    then show thesis using that [of front "r # post"] f(1) i(1) f(2) 0 by (simp add: f(1))
  next
    case (Suc j)
    have "\<forall>c \<in> set (drop k r). \<not> rune_start c"
      using rune_bytes_shape [OF r] Suc by (cases r) (auto dest: in_set_dropD)
    then have "takeWhile (\<lambda>c. \<not> rune_start c) (drop k r @ concat post) = drop k r"
      using post by (auto simp: takeWhile_append2)
    then have "cutSuffixUTF8 (concat rs) n = length (concat (front @ [r]))" using cut f(2,3) by simp
    moreover have "length (concat rs) = length (concat front) + length r + length (concat post)" by (simp add: f(1))
    ultimately show thesis using that [of "front @ [r]" post] f i(1) rune_bytes_shape [OF r] Suc by simp
  qed
qed

text \<open>Cutting a long result keeps whole runes at both ends: what is shown is a first and a last part of the
  text, neither longer than half the limit nor more than three bytes short of it, something is left
  out between them, and the note states the exact numbers of bytes.\<close>

theorem truncate_keeps_both_ends:
  assumes "\<forall>r \<in> set rs. rune_bytes r" "0 < mx" "mx < int (length (concat rs))"
  shows "\<exists>front mid post. rs = front @ mid @ post \<and> mid \<noteq> [] \<and>
    truncate_text pct mx spilled (concat rs) = concat front @
      omission_note pct (length (concat mid)) (length (concat rs)) (length (concat front)) (length (concat post)) spilled @ concat post \<and>
    int (length (concat front)) \<in> {mx div 2 - 3 .. mx div 2} \<and> int (length (concat post)) \<in> {mx - mx div 2 - 3 .. mx - mx div 2}"
proof -
  have h: "0 \<le> mx div 2" "0 \<le> mx - mx div 2" "mx div 2 + (mx - mx div 2) = mx" using assms(2) by auto
  from cut_prefix_runes [OF assms(1) h(1)] obtain front rest where f: "rs = front @ rest"
    "cutPrefixUTF8 (concat rs) (mx div 2) = length (concat front)" "int (length (concat front)) \<le> mx div 2"
    "rest = [] \<or> mx div 2 < int (length (concat front)) + 4" .
  from cut_suffix_runes [OF assms(1) h(2)] obtain fore post where p: "rs = fore @ post"
    "cutSuffixUTF8 (concat rs) (mx - mx div 2) = length (concat fore)" "int (length (concat post)) \<le> mx - mx div 2"
    "fore = [] \<or> mx - mx div 2 < int (length (concat post)) + 4" .
  have lens: "length (concat rs) = length (concat front) + length (concat rest)" "length (concat rs) = length (concat fore) + length (concat post)"
    using arg_cong [OF f(1), of "length \<circ> concat"] arg_cong [OF p(1), of "length \<circ> concat"] by simp_all
  have lt: "length (concat front) < length (concat fore)" using f(3) p(3) lens assms(3) h(3) by linarith
  obtain mid where mid: "fore = front @ mid" "rest = mid @ post"
  proof -
    have "front @ rest = fore @ post" using f(1) p(1) by simp
    then obtain us where "front = fore @ us \<and> us @ rest = post \<or> front @ us = fore \<and> rest = us @ post"
      unfolding append_eq_append_conv2 by blast
    then show thesis using that lt by auto
  qed
  have "mid \<noteq> []" using lt mid(1) by auto
  have ne: "rest \<noteq> []" "fore \<noteq> []" using lt mid \<open>mid \<noteq> []\<close> by auto
  have len: "length (concat fore) - length (concat front) = length (concat mid)" by (simp add: mid(1))
  have "take (length (concat front)) (concat rs) = concat front" by (simp add: f(1))
  moreover have "drop (length (concat fore)) (concat rs) = concat post" by (simp add: p(1))
  moreover have "length (concat rs) - length (concat fore) = length (concat post)" using lens by simp
  ultimately have "truncate_text pct mx spilled (concat rs) = concat front @
      omission_note pct (length (concat mid)) (length (concat rs)) (length (concat front)) (length (concat post)) spilled @ concat post"
    using assms(2,3) lt len by (simp add: truncate_text_def truncate_at_def f(2) p(2) del: length_concat)
  moreover have "rs = front @ mid @ post" using p(1) mid(1) by simp
  ultimately show ?thesis using f(3,4) p(3,4) ne \<open>mid \<noteq> []\<close> by (intro exI [of _ front] exI [of _ mid] exI [of _ post]) auto
qed

definition demo_runes :: "string list" where
  "demo_runes = [''a'', [CHR 0xC3, CHR 0xA9], ''b'', ''c'', ''d'', [CHR 0xC3, CHR 0xA9]]"

theorem truncate_keeps_both_ends_witness:
  "\<exists>front mid post. demo_runes = front @ mid @ post \<and> mid \<noteq> [] \<and>
    truncate_text (\<lambda>a b. ''50'') 4 None (concat demo_runes) = concat front @
      omission_note (\<lambda>a b. ''50'') (length (concat mid)) (length (concat demo_runes)) (length (concat front)) (length (concat post)) None @ concat post \<and>
    int (length (concat front)) \<in> {4 div 2 - 3 .. 4 div 2} \<and> int (length (concat post)) \<in> {4 - 4 div 2 - 3 .. 4 - 4 div 2}"
proof (rule truncate_keeps_both_ends)
  show "\<forall>r \<in> set demo_runes. rune_bytes r" by (simp add: demo_runes_def byte_in_def)
  show "4 < int (length (concat demo_runes))" by (simp add: demo_runes_def)
qed simp

section \<open>The envelope is read back\<close>

definition envelope_keys :: "string list" where
  "envelope_keys = [''code'', ''changed'', ''retryable'', ''retry_with_same_arguments'', ''next_action'', ''fix'', ''recovery'']"

lemma other_line: "(case key_and_value l of Some (k, v) \<Rightarrow> k \<notin> set envelope_keys | None \<Rightarrow> True) \<Longrightarrow> envelope_line l e = e"
proof (cases "key_and_value l")
  case (Some kv)
  obtain k v where "kv = (k, v)" by force
  moreover assume "case key_and_value l of Some (k, v) \<Rightarrow> k \<notin> set envelope_keys | None \<Rightarrow> True"
  ultimately have "k \<notin> set envelope_keys" "key_and_value l = Some (k, v)" using Some by simp_all
  then show ?thesis by (simp add: envelope_line_def envelope_keys_def)
qed (simp add: envelope_line_def)

lemma other_lines: "\<forall>l \<in> set ls. case key_and_value l of Some (k, v) \<Rightarrow> k \<notin> set envelope_keys | None \<Rightarrow> True \<Longrightarrow> fold envelope_line ls e = e"
  by (induction ls) (simp_all add: other_line)

lemma split_on_append: "split_on c (s @ c # t) = split_on c s @ split_on c t"
  by (induction s) (auto split: list.splits)

lemma split_on_single: "c \<notin> set s \<Longrightarrow> split_on c s = [s]"
  by (induction s) auto

text \<open>C24. The envelope that the builtin tools write is read back: if code, next action and fix are single lines and
  no further line of the detail looks like a field, then code, next action and fix come out as they went in, also
  behind the prefix of a failed validation, and the fields the short form leaves out have their defaults. The
  detail itself is not read back; nobody has a field for it.\<close>

theorem tool_error_roundtrip:
  assumes "CHR 0x0A \<notin> set code" "CHR 0x0A \<notin> set nxt" "CHR 0x0A \<notin> set fx"
    and "\<forall>l \<in> set (tl (split_on (CHR 0x0A) detail)). case key_and_value l of Some (k, v) \<Rightarrow> k \<notin> set envelope_keys | None \<Rightarrow> True"
  shows "map parseToolError [recoveryError code nxt detail fx, ''invalid params: '' @ recoveryError code nxt detail fx] =
    replicate 2 (Some \<lparr>te_code = code, te_changed = ''false'', te_retryable = True, te_retry_same = False, te_next = nxt, te_recovery = fx\<rparr>)"
proof -
  have first: "split_on (CHR 0x0A) (''detail: '' @ detail) = (''detail: '' @ hd (split_on (CHR 0x0A) detail)) # tl (split_on (CHR 0x0A) detail)"
    by (cases "split_on (CHR 0x0A) detail") simp_all
  have lines: "split_on (CHR 0x0A) (recoveryError code nxt detail fx) =
      [''TOOL_ERROR'', ''code: '' @ code, ''next_action: '' @ nxt, ''detail: '' @ hd (split_on (CHR 0x0A) detail)] @
      tl (split_on (CHR 0x0A) detail) @ [''fix: '' @ fx]"
  proof -
    have "recoveryError code nxt detail fx = ''TOOL_ERROR'' @ CHR 0x0A # (''code: '' @ code) @ CHR 0x0A # (''next_action: '' @ nxt) @ CHR 0x0A #
        (''detail: '' @ detail) @ CHR 0x0A # (''fix: '' @ fx)" by (simp add: recoveryError_def)
    then show ?thesis
      unfolding split_on_append first using split_on_single [of "CHR 0x0A" "''TOOL_ERROR''"] split_on_single [of "CHR 0x0A" "''code: '' @ code"]
        split_on_single [of "CHR 0x0A" "''next_action: '' @ nxt"] split_on_single [of "CHR 0x0A" "''fix: '' @ fx"] assms(1-3)
      by (simp only: split_on_append first) simp
  qed
  have kv: "envelope_line (''code: '' @ code) e = e\<lparr>te_code := code\<rparr>" "envelope_line (''next_action: '' @ nxt) e = e\<lparr>te_next := nxt\<rparr>"
    "envelope_line (''fix: '' @ fx) e = e\<lparr>te_recovery := fx\<rparr>" "envelope_line (''detail: '' @ x) e = e" "envelope_line ''TOOL_ERROR'' e = e" for x e
    by (simp_all add: envelope_line_def key_and_value_def has_prefix_def)
  have "fold envelope_line (split_on (CHR 0x0A) (recoveryError code nxt detail fx)) blank_tool_error =
    \<lparr>te_code = code, te_changed = ''false'', te_retryable = True, te_retry_same = False, te_next = nxt, te_recovery = fx\<rparr>"
    unfolding lines fold_append fold.simps o_apply id_apply kv other_lines [OF assms(4)] by (simp add: blank_tool_error_def)
  moreover have "trim_prefix (p @ recoveryError code nxt detail fx) ''invalid params: '' = recoveryError code nxt detail fx" if "p \<in> {[], ''invalid params: ''}" for p
    using that by (auto simp: trim_prefix_def) (auto simp: recoveryError_def has_prefix_def)
  moreover have "has_prefix (recoveryError code nxt detail fx) (''TOOL_ERROR'' @ [CHR 0x0A])" by (simp add: recoveryError_def has_prefix_def)
  ultimately have read: "parseToolError (p @ recoveryError code nxt detail fx) =
      Some \<lparr>te_code = code, te_changed = ''false'', te_retryable = True, te_retry_same = False, te_next = nxt, te_recovery = fx\<rparr>"
    if "p \<in> {[], ''invalid params: ''}" for p
    unfolding parseToolError_def Let_def using that by simp
  show ?thesis using read [of "[]"] read [of "''invalid params: ''"] by (simp add: numeral_2_eq_2)
qed

theorem tool_error_roundtrip_witness:
  "map parseToolError [recoveryError ''bad'' ''review'' (''x'' @ [CHR 0x0A] @ ''at: 3'') ''retry'',
       ''invalid params: '' @ recoveryError ''bad'' ''review'' (''x'' @ [CHR 0x0A] @ ''at: 3'') ''retry''] =
    replicate 2 (Some \<lparr>te_code = ''bad'', te_changed = ''false'', te_retryable = True, te_retry_same = False, te_next = ''review'', te_recovery = ''retry''\<rparr>)"
  by (rule tool_error_roundtrip) (simp_all add: key_and_value_def envelope_keys_def has_prefix_def)

section \<open>The table finds the longest common run\<close>

lemma dp_row_nth:
  "length ps = length b \<Longrightarrow> length (dp_row a b (p # ps)) = length b \<and>
    (\<forall>j < length b. dp_row a b (p # ps) ! j = (if a = b ! j then Suc ((p # ps) ! j) else 0))"
proof (induction b arbitrary: p ps)
  case (Cons x b)
  obtain q qs where ps: "ps = q # qs" "length qs = length b" using Cons.prems by (cases ps) auto
  show ?case using Cons.IH [of qs q] ps by (auto simp: nth_Cons split: nat.splits)
qed simp

text \<open>The longest run of equal runes at the ends of two lists.\<close>

definition common_end :: "'a list \<Rightarrow> 'a list \<Rightarrow> nat" where
  "common_end a b = commonRunePrefix (rev a) (rev b)"

definition end_row :: "'a list \<Rightarrow> 'a list \<Rightarrow> nat list" where
  "end_row a b = map (\<lambda>j. common_end a (take (Suc j) b)) [0..<length b]"

lemma end_row_step: "dp_row x b (0 # end_row a b) = end_row (a @ [x]) b"
proof (rule nth_equalityI)
  note d = dp_row_nth [of "end_row a b" b x 0]
  show len: "length (dp_row x b (0 # end_row a b)) = length (end_row (a @ [x]) b)" using d by (simp add: end_row_def)
  fix j assume "j < length (dp_row x b (0 # end_row a b))"
  then have j: "j < length b" using d by (simp add: end_row_def)
  have "(0 # end_row a b) ! j = common_end a (take j b)"
    using j by (cases j) (simp_all add: end_row_def common_end_def)
  then show "dp_row x b (0 # end_row a b) ! j = end_row (a @ [x]) b ! j"
    using d j by (simp add: end_row_def common_end_def take_Suc_conv_app_nth)
qed

lemma fold_max: "fold max xs (m :: nat) = Max (insert m (set xs))"
proof (induction xs arbitrary: m)
  case (Cons x xs)
  have "Max (insert (max x m) (set xs)) = max (max x m) (Max (insert (max x m) (set xs)))"
    by (metis Max_insert List.finite_set finite_insert insert_absorb2 insert_not_empty max.idem)
  then show ?case using Cons.IH [of "max x m"] by (cases "xs = []") (auto simp: Max_insert max.assoc max.commute max.left_commute)
qed simp

lemma dp_rows_max:
  "dp_rows as b (end_row a b) best = Max (insert best {common_end (a @ take i as) (take j b) | i j. 0 < i \<and> i \<le> length as \<and> 0 < j \<and> j \<le> length b})"
proof (induction as arbitrary: a best)
  case Nil
  then show ?case by simp
next
  case (Cons x as)
  define S where "S = {common_end (a @ take i (x # as)) (take j b) | i j. 0 < i \<and> i \<le> length (x # as) \<and> 0 < j \<and> j \<le> length b}"
  define T where "T = {common_end ((a @ [x]) @ take i as) (take j b) | i j. 0 < i \<and> i \<le> length as \<and> 0 < j \<and> j \<le> length b}"
  have fin: "finite T" unfolding T_def by (rule finite_subset [of _ "(\<lambda>(i, j). common_end ((a @ [x]) @ take i as) (take j b)) ` ({..length as} \<times> {..length b})"]) auto
  have row: "set (end_row (a @ [x]) b) = {common_end (a @ [x]) (take j b) | j. 0 < j \<and> j \<le> length b}"
    unfolding end_row_def by (auto simp: image_iff Bex_def) (metis Suc_le_eq Suc_pred' )
  have S: "S = set (end_row (a @ [x]) b) \<union> T"
  proof
    show "S \<subseteq> set (end_row (a @ [x]) b) \<union> T"
    proof
      fix v assume "v \<in> S"
      then obtain i j where v: "v = common_end (a @ take i (x # as)) (take j b)" "0 < i" "i \<le> length (x # as)" "0 < j" "j \<le> length b"
        by (auto simp: S_def)
      obtain i' where i: "i = Suc i'" using v(2) by (cases i) auto
      show "v \<in> set (end_row (a @ [x]) b) \<union> T"
      proof (cases "i' = 0")
        case True
        then show ?thesis using v i by (auto simp: row)
      next
        case False
        then have "v = common_end ((a @ [x]) @ take i' as) (take j b)" "0 < i'" "i' \<le> length as" using v i by simp_all
        then show ?thesis using v(4,5) by (auto simp: T_def)
      qed
    qed
    have "common_end ((a @ [x]) @ take i as) (take j b) \<in> S" if "i \<le> length as" "0 < j" "j \<le> length b" for i j
      using that unfolding S_def by (intro CollectI exI [of _ "Suc i"] exI [of _ j]) simp
    from this [of 0] this show "set (end_row (a @ [x]) b) \<union> T \<subseteq> S" by (auto simp: row T_def)
  qed
  have "dp_rows (x # as) b (end_row a b) best = Max (insert (Max (insert best (set (end_row (a @ [x]) b)))) T)"
    by (simp add: Let_def end_row_step fold_max Cons.IH T_def)
  also have "\<dots> = Max (insert best (set (end_row (a @ [x]) b)) \<union> T)"
  proof (cases "T = {}")
    case False
    have "Max (insert (Max (insert best (set (end_row (a @ [x]) b)))) T) = max (Max (insert best (set (end_row (a @ [x]) b)))) (Max T)"
      using fin False by simp
    also have "\<dots> = Max (insert best (set (end_row (a @ [x]) b)) \<union> T)"
      by (rule Max_Un [symmetric]) (use fin False in simp_all)
    finally show ?thesis .
  qed simp
  finally have r: "dp_rows (x # as) b (end_row a b) best = Max (insert best (set (end_row (a @ [x]) b)) \<union> T)" .
  have "insert best (set (end_row (a @ [x]) b)) \<union> T = insert best S" using S by simp
  then show ?case using r unfolding S_def by (simp only:)
qed

lemma Max_dominated:
  fixes S :: "nat set"
  assumes "finite W" "S \<subseteq> W" "S \<noteq> {}" "\<And>x. x \<in> W \<Longrightarrow> \<exists>v \<in> S. x \<le> v"
  shows "Max S = Max W"
proof (rule antisym)
  show "Max S \<le> Max W" using assms(1-3) by (intro Max_mono)
  have "Max W \<in> W" using assms(1-3) by (intro Max_in) auto
  then obtain v where "v \<in> S" "Max W \<le> v" using assms(4) by blast
  then show "Max W \<le> Max S" using assms(1,2) finite_subset Max_ge le_trans by metis
qed

lemma common_prefix_split: "\<exists>w. length w = commonRunePrefix xs ys \<and> prefix w xs \<and> prefix w ys"
proof (induction xs ys rule: commonRunePrefix.induct)
  case (1 x xs y ys)
  show ?case
  proof (cases "x = y")
    case True
    with 1 obtain w where "length w = commonRunePrefix xs ys" "prefix w xs" "prefix w ys" by blast
    then show ?thesis using True by (intro exI [of _ "x # w"]) simp
  qed (intro exI [of _ "[]"], simp)
qed auto

lemma common_prefix_least: "prefix w xs \<Longrightarrow> prefix w ys \<Longrightarrow> length w \<le> commonRunePrefix xs ys"
  by (induction xs ys arbitrary: w rule: commonRunePrefix.induct) (auto simp: prefix_Cons)

text \<open>The rolling table computes what it is meant to: the length of the longest run of runes that occurs in both
  names.\<close>

theorem longestCommonRunes_is_longest:
  "longestCommonRunes a b = Max {length w | w. sublist w a \<and> sublist w b}"
proof -
  define S where "S = insert 0 {common_end (take i a) (take j b) | i j. 0 < i \<and> i \<le> length a \<and> 0 < j \<and> j \<le> length b}"
  have zero: "replicate (length b) 0 = end_row [] b"
    by (rule nth_equalityI) (simp_all add: end_row_def common_end_def)
  have lc: "longestCommonRunes a b = Max S" using dp_rows_max [of a b "[]" 0] by (simp add: longestCommonRunes_def zero S_def)
  define W where "W = {length w | w. sublist w a \<and> sublist w b}"
  have finW: "finite W" unfolding W_def
    by (rule finite_subset [of _ "{..length a}"]) (auto dest: sublist_length_le)
  have "S \<subseteq> W"
  proof
    fix v assume "v \<in> S"
    then consider "v = 0" | i j where "v = common_end (take i a) (take j b)" by (auto simp: S_def)
    then show "v \<in> W"
    proof cases
      case 1
      then show ?thesis unfolding W_def by (intro CollectI exI [of _ "[]"]) simp
    next
      case 2
      obtain w where w: "length w = v" "prefix w (rev (take i a))" "prefix w (rev (take j b))"
        using common_prefix_split [of "rev (take i a)" "rev (take j b)"] 2 by (auto simp: common_end_def)
      then have "suffix (rev w) (take i a)" "suffix (rev w) (take j b)" by (simp_all add: suffix_to_prefix)
      then have "sublist (rev w) (take i a)" "sublist (rev w) (take j b)" by (simp_all add: suffix_imp_sublist)
      then have "sublist (rev w) a" "sublist (rev w) b" using sublist_order.order.trans sublist_take by blast+
      then show ?thesis using w(1) unfolding W_def by (intro CollectI exI [of _ "rev w"]) simp
    qed
  qed
  moreover have "\<exists>v \<in> S. x \<le> v" if "x \<in> W" for x
  proof -
    from that obtain w where w: "x = length w" "sublist w a" "sublist w b" by (auto simp: W_def)
    then obtain a1 a2 b1 b2 where ab: "a = a1 @ w @ a2" "b = b1 @ w @ b2" by (auto simp: sublist_def)
    show ?thesis
    proof (cases "w = []")
      case True
      then show ?thesis using w(1) by (auto simp: S_def)
    next
      case False
      define v where "v = common_end (take (length (a1 @ w)) a) (take (length (b1 @ w)) b)"
      have "v \<in> S" unfolding S_def v_def using False ab
        by (intro insertI2 CollectI exI [of _ "length (a1 @ w)"] exI [of _ "length (b1 @ w)"]) simp
      moreover have "length (rev w) \<le> v" unfolding v_def common_end_def
        by (rule common_prefix_least) (simp_all add: ab)
      ultimately show ?thesis using w(1) by auto
    qed
  qed
  ultimately have "Max S = Max W" by (intro Max_dominated [OF finW]) (auto simp: S_def)
  then show ?thesis by (simp add: lc W_def)
qed

end
