(* ===== verification/ToolEngine.thy ===== *)
theory ToolEngine
  imports ToolText RunState AgentLoop BlockView
begin

text \<open>
  The tool engine (\<open>tools/engine.go\<close>, \<open>tools/exposure.go\<close>, \<open>tools/nested.go\<close>,
  \<open>tools/repair.go\<close>, \<open>core/nested.go\<close>): the registry with its aliases and suggestions, the schemas
  shown to the model, the approval in front of a round, one tool call from its validation to its
  result, and the calls an orchestrating tool makes itself. Tools are records of the functions the
  engine calls on them; what the engine does is a list of steps.
\<close>

section \<open>Nested records\<close>

definition NestedMaxCalls :: nat where "NestedMaxCalls = 256"
definition NestedMaxArgsPerCall :: nat where "NestedMaxArgsPerCall = 8 * 1024"
definition NestedMaxArgsTotal :: nat where "NestedMaxArgsTotal = 32 * 1024"
definition NestedMaxDepth :: int where "NestedMaxDepth = 1"

record nested_record =
  nc_Id :: string
  nc_Name :: string
  nc_Args :: string
  nc_Result :: string
  nc_IsError :: bool
  nc_Usage :: "usage option"

record host_ops =
  ho_Search :: nat
  ho_Describe :: nat

definition no_host_ops :: host_ops where "no_host_ops = \<lparr>ho_Search = 0, ho_Describe = 0\<rparr>"

definition HostOps_Add :: "string \<Rightarrow> host_ops \<Rightarrow> host_ops" where
  "HostOps_Add kind h =
     (if kind = ''search'' then h\<lparr>ho_Search := ho_Search h + 1\<rparr>
      else if kind = ''describe'' then h\<lparr>ho_Describe := ho_Describe h + 1\<rparr> else h)"

record nested_recorder =
  nr_calls :: "nested_record list"
  nr_argBytes :: nat
  nr_dropped :: nat
  nr_hostOps :: host_ops
  nr_usage :: usage

definition NewNestedRecorder :: nested_recorder where
  "NewNestedRecorder = \<lparr>nr_calls = [], nr_argBytes = 0, nr_dropped = 0, nr_hostOps = no_host_ops, nr_usage = zero_usage\<rparr>"

definition recorder_Add :: "nested_record \<Rightarrow> nat \<Rightarrow> nested_recorder \<Rightarrow> nested_recorder" where
  "recorder_Add x argBytes r =
     (if NestedMaxCalls \<le> length (nr_calls r) \<or> 0 < argBytes \<and> NestedMaxArgsTotal < nr_argBytes r + argBytes
      then r\<lparr>nr_dropped := nr_dropped r + 1\<rparr>
      else r\<lparr>nr_calls := nr_calls r @ [x], nr_argBytes := nr_argBytes r + argBytes\<rparr>)"

definition recorder_AddUsage :: "usage \<Rightarrow> nested_recorder \<Rightarrow> nested_recorder" where
  "recorder_AddUsage u r = (if usage_IsZero u then r else r\<lparr>nr_usage := usage_Add (nr_usage r) u\<rparr>)"

definition AddHostOp :: "string \<Rightarrow> nested_recorder \<Rightarrow> nested_recorder" where
  "AddHostOp kind r = r\<lparr>nr_hostOps := HostOps_Add kind (nr_hostOps r)\<rparr>"

definition TakeRecord :: "nested_recorder \<Rightarrow> nested_record list \<times> nested_recorder" where
  "TakeRecord r = (if nr_calls r = [] then ([], r) else (nr_calls r, r\<lparr>nr_calls := [], nr_argBytes := 0\<rparr>))"

definition TakeUsage :: "nested_recorder \<Rightarrow> usage \<times> nested_recorder" where
  "TakeUsage r = (nr_usage r, r\<lparr>nr_usage := zero_usage\<rparr>)"

definition TakeHostOps :: "nested_recorder \<Rightarrow> host_ops \<times> nested_recorder" where
  "TakeHostOps r = (nr_hostOps r, r\<lparr>nr_hostOps := no_host_ops\<rparr>)"

section \<open>Tools\<close>

text \<open>What a call leaves behind: its text, the images and the exit it has reported, a structured result, its
  usage and the change of a file (if the tool reports these).\<close>

record call_output =
  co_out :: string
  co_images :: "content list"
  co_exit :: "(string \<times> int \<times> bool \<times> bool) option"
  co_structured :: "string option"
  co_usage :: "usage option"
  co_diff :: "string option"

datatype call_outcome = CallPanics string | CallFails string | CallReturns call_output

record engine_tool =
  et_Name :: string
  et_Description :: string
  et_required :: "string list"
  et_CanParallel :: bool
  et_Exposure :: "string option"
  et_RequiresApproval :: "(tool_call \<Rightarrow> bool) option"
  et_ToolTimeout :: "int option"
  et_TimeoutForArgs :: "(string \<Rightarrow> int) option"
  et_DisableAutoPromote :: "bool option"
  et_AsyncPromoteAfter :: "int option"
  et_ValidParams :: "string \<Rightarrow> string \<Rightarrow> string option"
  et_BeforeCall :: "tool_call \<Rightarrow> string option"
  et_Call :: "tool_call \<Rightarrow> nested_recorder \<Rightarrow> call_outcome \<times> nested_recorder"
  et_OutputSchema :: bool
  et_SkipTruncate :: "bool option"
  et_PrepareLoadout :: "(schema list \<Rightarrow> schema list option) option"

text \<open>\<open>en_create\<close> writes a spill file and gives its path; \<open>en_pct\<close> and \<open>en_quote\<close> format.\<close>

record engine =
  en_tools :: "(string \<times> engine_tool) list"
  en_maxParallel :: int
  en_maxResponse :: int
  en_spillDir :: string
  en_toolTimeout :: int
  en_maxImageBytes :: int
  en_maxImages :: int
  en_create :: "string \<Rightarrow> string \<Rightarrow> string option"
  en_pct :: "nat \<Rightarrow> nat \<Rightarrow> string"
  en_quote :: "string \<Rightarrow> string"

definition defaultMaxResponseSize :: int where "defaultMaxResponseSize = 20000"
definition defaultToolTimeout :: int where "defaultToolTimeout = 300000000000"
definition defaultMaxImageBytes :: int where "defaultMaxImageBytes = 3 * 2 ^ 20"
definition defaultMaxResultImages :: int where "defaultMaxResultImages = 4"

definition NewToolEngine :: "(string \<Rightarrow> string \<Rightarrow> string option) \<Rightarrow> (nat \<Rightarrow> nat \<Rightarrow> string) \<Rightarrow> (string \<Rightarrow> string) \<Rightarrow> engine" where
  "NewToolEngine create pct q =
     \<lparr>en_tools = [], en_maxParallel = 8, en_maxResponse = defaultMaxResponseSize, en_spillDir = [], en_toolTimeout = defaultToolTimeout,
      en_maxImageBytes = defaultMaxImageBytes, en_maxImages = defaultMaxResultImages, en_create = create, en_pct = pct, en_quote = q\<rparr>"

definition RegisterTool :: "engine_tool \<Rightarrow> engine \<Rightarrow> engine" where
  "RegisterTool t e = e\<lparr>en_tools := AList.update (et_Name t) t (en_tools e)\<rparr>"

definition SetMaxParallel :: "int \<Rightarrow> engine \<Rightarrow> engine" where
  "SetMaxParallel n e = (if n \<le> 0 then e else e\<lparr>en_maxParallel := n\<rparr>)"

definition toolAliases :: "(string \<times> string) list" where
  "toolAliases = [(''Bash'', ''bash''), (''Read'', ''read_file''), (''Write'', ''write_file''), (''Edit'', ''edit_file''),
     (''Glob'', ''glob''), (''Grep'', ''grep'')]"

fun insert_name :: "string \<Rightarrow> string list \<Rightarrow> string list" where
  "insert_name n [] = [n]"
| "insert_name n (x # xs) = (if str_less x n then x # insert_name n xs else n # x # xs)"

text \<open>The keys of the table of tools, in the order of \<open>sort.Strings\<close>.\<close>

definition tool_names :: "engine \<Rightarrow> string list" where
  "tool_names e = foldr insert_name (map fst (en_tools e)) []"

definition not_registered :: "engine \<Rightarrow> string \<Rightarrow> string" where
  "not_registered e name = ''tool '' @ en_quote e name @ '' is not registered'' @ toolSuggestion (en_quote e) name (tool_names e)"

definition GetTool :: "engine \<Rightarrow> string \<Rightarrow> string + engine_tool" where
  "GetTool e name =
     (case map_of (en_tools e) name of
        Some t \<Rightarrow> Inr t
      | None \<Rightarrow>
         (case Option.bind (map_of toolAliases name) (map_of (en_tools e)) of
            Some t \<Rightarrow> Inr t
          | None \<Rightarrow> Inl (not_registered e name)))"

definition engine_Tools :: "engine \<Rightarrow> engine_tool list" where
  "engine_Tools e = List.map_filter (map_of (en_tools e)) (tool_names e)"

section \<open>Exposure\<close>

datatype exposure = ExposureDirect | ExposureModelOnly | ExposureCodemode | ExposureDeferred | ExposureHidden

definition exposure_of_text :: "string \<Rightarrow> exposure" where
  "exposure_of_text s =
     (if s = ''direct'' then ExposureDirect else if s = ''model-only'' then ExposureModelOnly
      else if s = ''codemode'' then ExposureCodemode else if s = ''deferred'' then ExposureDeferred else ExposureHidden)"

definition exposure_text :: "exposure \<Rightarrow> string" where
  "exposure_text x = (case x of ExposureDirect \<Rightarrow> ''direct'' | ExposureModelOnly \<Rightarrow> ''model-only'' | ExposureCodemode \<Rightarrow> ''codemode''
     | ExposureDeferred \<Rightarrow> ''deferred'' | ExposureHidden \<Rightarrow> ''hidden'')"

definition ToolExposureOf :: "engine_tool \<Rightarrow> exposure" where
  "ToolExposureOf t = (case et_Exposure t of None \<Rightarrow> ExposureDirect | Some s \<Rightarrow> exposure_of_text s)"

definition DeclaredToModel :: "engine_tool \<Rightarrow> bool" where
  "DeclaredToModel t \<longleftrightarrow> ToolExposureOf t \<in> {ExposureDirect, ExposureModelOnly}"

definition CallableFromScript :: "engine_tool \<Rightarrow> bool" where
  "CallableFromScript t \<longleftrightarrow> ToolExposureOf t \<in> {ExposureDirect, ExposureCodemode, ExposureDeferred}"

definition ListedInCodemodeCatalog :: "engine_tool \<Rightarrow> bool" where
  "ListedInCodemodeCatalog t \<longleftrightarrow> ToolExposureOf t \<in> {ExposureDirect, ExposureCodemode}"

text \<open>\<open>sm_Body\<close> is the description; the parameters of a schema do not change.\<close>

definition ToolParams :: "engine \<Rightarrow> schema list" where
  "ToolParams e =
     (let ts = filter DeclaredToModel (engine_Tools e);
          schemas = map (\<lambda>t. \<lparr>sm_Name = et_Name t, sm_Body = et_Description t\<rparr>) ts
      in fold (\<lambda>t ss. case et_PrepareLoadout t of
             Some f \<Rightarrow> (case f ss of Some out \<Rightarrow> out | None \<Rightarrow> ss)
           | None \<Rightarrow> ss) ts schemas)"

section \<open>The end of a call\<close>

record engine_result = tool_result +
  r_nested :: "nested_record list"
  r_structured :: "string option"
  r_hostOps :: host_ops

record finish_input =
  fi_result :: string
  fi_isErr :: bool
  fi_usage :: usage
  fi_diff :: "string option"
  fi_images :: "content list"
  fi_exec :: "exec_status option"
  fi_structured :: "string option"

definition failed_input :: "string \<Rightarrow> finish_input" where
  "failed_input msg = \<lparr>fi_result = msg, fi_isErr = True, fi_usage = zero_usage, fi_diff = None, fi_images = [], fi_exec = None, fi_structured = None\<rparr>"

record response_event =
  rs_call :: tool_call
  rs_result :: string
  rs_isError :: bool
  rs_code :: string
  rs_changed :: string
  rs_retryable :: bool
  rs_next :: string
  rs_recovery :: string
  rs_nested :: "nested_record list"

text \<open>What the engine does, in order: events for the handler, and its calls into the tool.\<close>

datatype engine_step =
    StepApproval tool_call
  | StepStart tool_call string
  | StepBefore tool_call
  | StepCall engine_tool tool_call
  | StepResponse response_event
  | StepAfter tool_call

definition buildResultBlocks :: "string \<Rightarrow> content list \<Rightarrow> content list" where
  "buildResultBlocks text images = (if images = [] then [] else (if text \<noteq> [] then [text_block text] else []) @ images)"

text \<open>The code in the event: that of the envelope, else a cancellation, else a guess from the text.\<close>

definition event_code :: "tool_error option \<Rightarrow> finish_input \<Rightarrow> string" where
  "event_code te i =
     (if errorCode te = [] \<and> fi_isErr i
      then (case fi_exec i of Some x \<Rightarrow> if ex_canceled x then errorCodeCanceled else fallbackErrorCode (fi_result i)
            | None \<Rightarrow> fallbackErrorCode (fi_result i))
      else errorCode te)"

text \<open>The records and the usage of nested calls are taken at the outermost call only; \<open>None\<close> is a call
  without a recorder.\<close>

definition take_nested :: "tool_call \<Rightarrow> nested_recorder option \<Rightarrow> (nested_record list \<times> usage \<times> host_ops) \<times> nested_recorder option" where
  "take_nested call nr =
     (if tc_depth call \<noteq> 0 then (([], zero_usage, no_host_ops), nr)
      else case nr of
          None \<Rightarrow> (([], zero_usage, no_host_ops), None)
        | Some r \<Rightarrow> (case TakeRecord r of (ns, r1) \<Rightarrow> case TakeUsage r1 of (u, r2) \<Rightarrow> case TakeHostOps r2 of (h, r3) \<Rightarrow> ((ns, u, h), Some r3)))"

definition finish :: "tool_call \<Rightarrow> finish_input \<Rightarrow> nested_recorder option \<Rightarrow> engine_result \<times> engine_step list \<times> nested_recorder option" where
  "finish call i nr =
     (case take_nested call nr of ((ns, nu, h), nr') \<Rightarrow>
        (let usg = (if tc_depth call = 0 \<and> nr \<noteq> None then usage_Add (fi_usage i) nu else fi_usage i);
             te = (if fi_isErr i then parseToolError (fi_result i) else None);
             r = \<lparr>r_id = tc_id call, r_result = fi_result i, r_is_error = fi_isErr i, r_tool_error = te, r_exec = fi_exec i,
                  r_blocks = buildResultBlocks (fi_result i) (fi_images i), r_usage = usg, r_nested = ns,
                  r_structured = fi_structured i, r_hostOps = h\<rparr>
         in (r, [StepResponse \<lparr>rs_call = call, rs_result = fi_result i, rs_isError = fi_isErr i, rs_code = event_code te i,
                   rs_changed = errorChanged te, rs_retryable = errorRetryable te, rs_next = errorNextAction te,
                   rs_recovery = errorRecovery te, rs_nested = ns\<rparr>], nr')))"

section \<open>One call\<close>

record approval_decision =
  ad_approved :: bool
  ad_timedOut :: bool

type_synonym decisions = "(string \<rightharpoonup> approval_decision) option"

definition rejection :: string where "rejection = ''user rejected the tool call (approval denied)''"

definition undecided :: string where
  "undecided = ''approval timed out with no decision from the user: nobody approved or rejected this call in time, so it did NOT run. Tell the user it is still pending (they may have been away or still reading), then either ask again or propose an alternative '' @
     [CHR 0xE2, CHR 0x80, CHR 0x94] @ '' do not treat this as a rejection.''"

definition denial :: "decisions \<Rightarrow> string \<Rightarrow> string option" where
  "denial ds i =
     (case Option.bind ds (\<lambda>m. m i) of
        None \<Rightarrow> None
      | Some d \<Rightarrow> if ad_approved d then None else Some (if ad_timedOut d then undecided else rejection))"

text \<open>The keys of the arguments, if they are an object (or \<open>null\<close>).\<close>

definition argument_keys :: "string \<Rightarrow> string list option" where
  "argument_keys args = unmarshal_object (\<lambda>k v ks. Some (k # ks)) (rev (skip_ws (rev (skip_ws args)))) []"

definition missingFieldsHint :: "engine_tool \<Rightarrow> string \<Rightarrow> string" where
  "missingFieldsHint t args =
     (if \<not> json_valid args then []
      else case argument_keys args of
          None \<Rightarrow> []
        | Some ks \<Rightarrow> (let missing = filter (\<lambda>f. f \<notin> set ks) (et_required t) in
            if missing = [] then [] else ''missing required field(s): '' @ join '', '' missing))"

definition invalid_params :: "engine_tool \<Rightarrow> string \<Rightarrow> string \<Rightarrow> string" where
  "invalid_params t args err =
     ''invalid params: '' @ err @
     (if missingFieldsHint t args \<noteq> [] then ''; '' @ missingFieldsHint t args
      else if \<not> json_valid args then ''; arguments is not valid JSON (auto-repair failed)'' else [])"

definition spillText :: "engine \<Rightarrow> string \<Rightarrow> string \<Rightarrow> string option" where
  "spillText e i s =
     (if en_spillDir e = [] \<or> maxSpillBytes < int (length s) then None
      else en_create e (''spill-'' @ safeFileToken i @ ''-*.txt'') s)"

definition engine_truncate :: "engine \<Rightarrow> string \<Rightarrow> string \<Rightarrow> string" where
  "engine_truncate e s i = truncate_text (en_pct e) (en_maxResponse e) (spillText e i s) s"

text \<open>\<open>ImageSink.Add\<close> keeps images with content only.\<close>

definition is_image :: "content \<Rightarrow> bool" where "is_image c \<longleftrightarrow> ctype c = ContentTypeImage \<and> ctext c \<noteq> []"

fun pass_images :: "engine \<Rightarrow> content list \<Rightarrow> content list \<Rightarrow> nat \<Rightarrow> content list \<times> nat" where
  "pass_images e [] kept lost = (kept, lost)"
| "pass_images e (c # cs) kept lost =
     (if \<not> is_image c then pass_images e cs kept lost
      else if 0 < en_maxImages e \<and> en_maxImages e \<le> int (length kept) then pass_images e cs kept (lost + 1)
      else if 0 < en_maxImageBytes e \<and> en_maxImageBytes e < int (length (ctext c)) then pass_images e cs kept (lost + 1)
      else pass_images e cs (kept @ [c]) lost)"

definition limitImages :: "engine \<Rightarrow> string \<Rightarrow> content list \<Rightarrow> string \<times> content list" where
  "limitImages e text imgs =
     (case pass_images e (filter is_image imgs) [] 0 of (kept, lost) \<Rightarrow>
        (if lost = 0 then text
         else text @ blank_line @ ''['' @ show_nat lost @ '' image(s) omitted: exceeds the per-image or per-result size/count limit (max '' @
           humanBytes (en_maxImageBytes e) @ ''/image, '' @ show_int (en_maxImages e) @ '' images/result)]'', kept))"

definition exit_failed :: "(string \<times> int \<times> bool \<times> bool) option \<Rightarrow> bool" where
  "exit_failed x = (case x of None \<Rightarrow> False
     | Some (cmd, code, timedOut, canceled) \<Rightarrow> timedOut \<or> canceled \<or> code \<noteq> 0 \<and> \<not> benignNonZeroExit cmd code)"

definition finish_output :: "engine \<Rightarrow> engine_tool \<Rightarrow> tool_call \<Rightarrow> call_output \<Rightarrow> finish_input" where
  "finish_output e t call o1 =
     (case limitImages e (if et_SkipTruncate t = Some True then co_out o1 else engine_truncate e (co_out o1) (tc_id call)) (co_images o1) of
        (text, images) \<Rightarrow>
          \<lparr>fi_result = text, fi_isErr = exit_failed (co_exit o1), fi_usage = (case co_usage o1 of Some u \<Rightarrow> u | None \<Rightarrow> zero_usage),
           fi_diff = co_diff o1, fi_images = images,
           fi_exec = map_option (\<lambda>(cmd, code, timedOut, canceled). \<lparr>ex_code = code, ex_timed_out = timedOut, ex_canceled = canceled\<rparr>) (co_exit o1),
           fi_structured = (if et_OutputSchema t then co_structured o1 else None)\<rparr>)"

definition call_tool :: "engine \<Rightarrow> engine_tool \<Rightarrow> tool_call \<Rightarrow> nested_recorder \<Rightarrow> finish_input \<times> nested_recorder" where
  "call_tool e t call r =
     (case et_Call t call r of
        (CallPanics v, r') \<Rightarrow> (failed_input (''tool '' @ tc_name call @ '' panicked: '' @ v), r')
      | (CallFails msg, r') \<Rightarrow> (failed_input msg, r')
      | (CallReturns o1, r') \<Rightarrow> (finish_output e t call o1, r'))"

text \<open>\<open>execute\<close>: \<open>nr\<close> is the recorder of the context, if it has one.\<close>

definition execute :: "engine \<Rightarrow> tool_call \<Rightarrow> decisions \<Rightarrow> string \<Rightarrow> nested_recorder option \<Rightarrow>
    engine_result \<times> engine_step list \<times> nested_recorder option" where
  "execute e call ds taskID nr =
     (case denial ds (tc_id call) of
        Some msg \<Rightarrow> finish call (failed_input msg) nr
      | None \<Rightarrow>
         (case GetTool e (tc_name call) of
            Inl msg \<Rightarrow> finish call (failed_input msg) nr
          | Inr t \<Rightarrow>
             (let started = StepStart call taskID; call' = call\<lparr>tc_args := RepairArguments (tc_args call)\<rparr> in
              case et_ValidParams t (tc_name call') (tc_args call') of
                Some err \<Rightarrow>
                  (case finish call' (failed_input (invalid_params t (tc_args call') err)) nr of (r, steps, nr') \<Rightarrow> (r, started # steps, nr'))
              | None \<Rightarrow>
                 (let rec0 = (case nr of Some r \<Rightarrow> r | None \<Rightarrow> NewNestedRecorder) in
                  case et_BeforeCall t call' of
                    Some reason \<Rightarrow>
                      (case finish call' (failed_input (''blocked: '' @ reason)) (Some rec0) of (r, steps, nr') \<Rightarrow>
                         (r, started # StepBefore call' # steps, nr'))
                  | None \<Rightarrow>
                     (case call_tool e t call' rec0 of (i, rec1) \<Rightarrow>
                        (case finish call' i (Some rec1) of (r, steps, nr') \<Rightarrow>
                           (r, started # StepBefore call' # StepCall t call' # steps @ [StepAfter call'], nr')))))))"

section \<open>Approval\<close>

text \<open>The approver: its policy, if it has one, and what asking for the \<open>n\<close>-th call of a round ends in.\<close>

datatype wait_result = Approved bool | WindowExpired | WaitFails string
datatype begin_result = BeginFails string | NoWait | Waits wait_result

record approver =
  ap_NeedsApproval :: "(tool_call \<Rightarrow> bool) option"
  ap_begin :: "nat \<Rightarrow> tool_call \<Rightarrow> begin_result"

definition needs_approval :: "engine \<Rightarrow> approver \<Rightarrow> tool_call \<Rightarrow> bool" where
  "needs_approval e ap c =
     (case GetTool e (tc_name c) of
        Inl _ \<Rightarrow> False
      | Inr t \<Rightarrow>
         (case ap_NeedsApproval ap of
            Some f \<Rightarrow> f c
          | None \<Rightarrow> (case et_RequiresApproval t of Some f \<Rightarrow> f c | None \<Rightarrow> False)))"

fun ask_approval :: "approver \<Rightarrow> nat \<Rightarrow> tool_call list \<Rightarrow> (string \<rightharpoonup> approval_decision) \<Rightarrow>
    (string + (string \<rightharpoonup> approval_decision)) \<times> engine_step list" where
  "ask_approval ap n [] m = (Inr m, [])"
| "ask_approval ap n (c # cs) m =
     (case ap_begin ap n c of
        BeginFails err \<Rightarrow> (Inl err, [])
      | NoWait \<Rightarrow> (Inl (''approver returned nil wait function for call '' @ tc_id c), [])
      | Waits (WaitFails err) \<Rightarrow> (Inl err, [StepApproval c])
      | Waits WindowExpired \<Rightarrow>
          (case ask_approval ap (Suc n) cs (m(tc_id c \<mapsto> \<lparr>ad_approved = False, ad_timedOut = True\<rparr>)) of (res, steps) \<Rightarrow> (res, StepApproval c # steps))
      | Waits (Approved ok) \<Rightarrow>
          (case ask_approval ap (Suc n) cs (m(tc_id c \<mapsto> \<lparr>ad_approved = ok, ad_timedOut = False\<rparr>)) of (res, steps) \<Rightarrow> (res, StepApproval c # steps)))"

definition preApprove :: "engine \<Rightarrow> approver option \<Rightarrow> tool_call list \<Rightarrow> (string + decisions) \<times> engine_step list" where
  "preApprove e oap calls =
     (case oap of
        None \<Rightarrow> (Inr None, [])
      | Some ap \<Rightarrow>
         (let pending = filter (needs_approval e ap) calls in
          if pending = [] then (Inr None, [])
          else case ask_approval ap 0 pending Map.empty of (Inl err, steps) \<Rightarrow> (Inl err, steps) | (Inr m, steps) \<Rightarrow> (Inr (Some m), steps)))"

definition timeoutFor :: "engine \<Rightarrow> tool_call \<Rightarrow> int" where
  "timeoutFor e c =
     (case GetTool e (tc_name c) of
        Inl _ \<Rightarrow> en_toolTimeout e
      | Inr t \<Rightarrow>
         (let t1 = (case et_ToolTimeout t of Some v \<Rightarrow> if 0 < v then v else if v < 0 then 0 else en_toolTimeout e | None \<Rightarrow> en_toolTimeout e)
          in case et_TimeoutForArgs t of
               Some f \<Rightarrow> if f (tc_args c) \<noteq> 0 then f (tc_args c) else t1
             | None \<Rightarrow> t1))"

section \<open>Calls of an orchestrating tool\<close>

definition only_approvals :: "engine_step list \<Rightarrow> engine_step list" where
  "only_approvals steps = filter (\<lambda>s. case s of StepStart _ _ \<Rightarrow> False | StepResponse _ \<Rightarrow> False | _ \<Rightarrow> True) steps"

definition refused_result :: "string \<Rightarrow> string \<Rightarrow> engine_result" where
  "refused_result i msg = \<lparr>r_id = i, r_result = msg, r_is_error = True, r_tool_error = None, r_exec = None, r_blocks = [], r_usage = zero_usage,
     r_nested = [], r_structured = None, r_hostOps = no_host_ops\<rparr>"

definition executeApproved :: "engine \<Rightarrow> approver option \<Rightarrow> tool_call \<Rightarrow> nested_recorder option \<Rightarrow>
    engine_result \<times> engine_step list \<times> nested_recorder option" where
  "executeApproved e ap call nr =
     (case preApprove e ap [call] of
        (Inl err, steps) \<Rightarrow> (refused_result (tc_id call) (''approval could not be requested: '' @ err), steps, nr)
      | (Inr ds, steps) \<Rightarrow> (case execute e call ds [] nr of (r, steps2, nr') \<Rightarrow> (r, steps @ steps2, nr')))"

definition usageOrNil :: "usage \<Rightarrow> usage option" where
  "usageOrNil u = (if usage_IsZero u then None else Some u)"

definition nested_depth :: "string \<Rightarrow> int \<Rightarrow> int" where
  "nested_depth parent depth = (if parent \<noteq> [] \<and> depth \<le> 0 then 1 else depth)"

definition not_from_script :: "string \<Rightarrow> exposure \<Rightarrow> string" where
  "not_from_script q x = ''tool '' @ q @ '' is not callable from a script (exposure '' @ [CHR 0x22] @ exposure_text x @ [CHR 0x22] @
     ''): hidden tools are retired and model-only tools must not be orchestrated''"

definition too_deep :: "int \<Rightarrow> string" where
  "too_deep d = ''nested tool call refused: nesting depth '' @ show_int d @ '' exceeds the limit of '' @ show_int NestedMaxDepth @
     '' (a codemode script must not spawn another codemode script)''"

definition nested_record_of :: "tool_call \<Rightarrow> engine_result \<Rightarrow> nested_record" where
  "nested_record_of c r =
     \<lparr>nc_Id = tc_id c, nc_Name = tc_name c, nc_Args = truncNested (tc_args c) NestedMaxArgsPerCall,
      nc_Result = truncNested (r_result r) NestedMaxArgsPerCall, nc_IsError = r_is_error r, nc_Usage = usageOrNil (r_usage r)\<rparr>"

definition nested_run :: "engine \<Rightarrow> approver option \<Rightarrow> tool_call \<Rightarrow> int \<Rightarrow> nested_recorder option \<Rightarrow>
    engine_result \<times> engine_step list \<times> nested_recorder option" where
  "nested_run e ap c d nr =
     (case executeApproved e ap c nr of (r, steps, nr') \<Rightarrow>
        (r, only_approvals steps,
         if d \<le> 0 then nr'
         else case nr of None \<Rightarrow> None
           | Some _ \<Rightarrow> map_option (\<lambda>x. recorder_AddUsage (r_usage r) (recorder_Add (nested_record_of c r) (length (tc_args c)) x)) nr'))"

text \<open>\<open>ExecuteOne\<close>: the exposure is that of the tool that the name resolves to.\<close>

definition ExecuteOne :: "engine \<Rightarrow> approver option \<Rightarrow> tool_call \<Rightarrow> string \<Rightarrow> int \<Rightarrow> nested_recorder option \<Rightarrow>
    engine_result \<times> engine_step list \<times> nested_recorder option" where
  "ExecuteOne e ap call parent depth nr =
     (let d = nested_depth parent depth; c = call\<lparr>tc_parent := parent, tc_depth := d\<rparr> in
      case GetTool e (tc_name c) of
        Inr t \<Rightarrow>
          if \<not> CallableFromScript t then (refused_result (tc_id c) (not_from_script (en_quote e (tc_name c)) (ToolExposureOf t)), [], nr)
          else if NestedMaxDepth < d then (refused_result (tc_id c) (too_deep d), [], nr)
          else nested_run e ap c d nr
      | Inl _ \<Rightarrow> if NestedMaxDepth < d then (refused_result (tc_id c) (too_deep d), [], nr) else nested_run e ap c d nr)"


section \<open>Approval decides\<close>

definition decision_of :: "wait_result \<Rightarrow> approval_decision option" where
  "decision_of w = (case w of Approved ok \<Rightarrow> Some \<lparr>ad_approved = ok, ad_timedOut = False\<rparr>
     | WindowExpired \<Rightarrow> Some \<lparr>ad_approved = False, ad_timedOut = True\<rparr> | WaitFails _ \<Rightarrow> None)"

lemma ask_approval_decides:
  assumes "ask_approval ap n cs m = (Inr m', asked)" "distinct (map tc_id cs)"
  shows "(\<forall>k < length cs. \<exists>w d. ap_begin ap (n + k) (cs ! k) = Waits w \<and> decision_of w = Some d \<and> m' (tc_id (cs ! k)) = Some d) \<and>
    (\<forall>i. i \<notin> tc_id ` set cs \<longrightarrow> m' i = m i)"
  using assms
proof (induction cs arbitrary: n m m' asked)
  case (Cons c cs)
  obtain w d asked' where d: "ask_approval ap (Suc n) cs (m(tc_id c \<mapsto> d)) = (Inr m', asked')"
      "ap_begin ap n c = Waits w" "decision_of w = Some d"
    using Cons.prems(1) by (auto simp: decision_of_def split: begin_result.splits wait_result.splits prod.splits)
  have dist: "distinct (map tc_id cs)" "tc_id c \<notin> tc_id ` set cs" using Cons.prems(2) by auto
  note IH = Cons.IH [OF d(1) dist(1)]
  have here: "m' (tc_id c) = Some d" using IH dist(2) by auto
  show ?case
  proof (intro conjI allI impI)
    fix k assume k: "k < length (c # cs)"
    show "\<exists>w d. ap_begin ap (n + k) ((c # cs) ! k) = Waits w \<and> decision_of w = Some d \<and> m' (tc_id ((c # cs) ! k)) = Some d"
    proof (cases k)
      case 0 then show ?thesis using here d(2,3) by auto
    next
      case (Suc j)
      then have "j < length cs" using k by simp
      then show ?thesis using IH Suc by (metis add_Suc_right add_Suc nth_Cons_Suc)
    qed
  next
    fix i assume "i \<notin> tc_id ` set (c # cs)"
    then show "m' i = m i" using IH by auto
  qed
qed simp

lemma finish_steps:
  assumes "finish call i nr = (r, steps, nr')"
  shows "r_id r = tc_id call \<and> r_result r = fi_result i \<and> r_is_error r = fi_isErr i \<and> r_exec r = fi_exec i \<and>
    (\<exists>rs. steps = [StepResponse rs] \<and> rs_call rs = call \<and> rs_result rs = fi_result i \<and> rs_isError rs = fi_isErr i \<and> rs_nested rs = r_nested r)"
  using assms by (auto simp: finish_def Let_def split: prod.splits)

lemma execute_denied:
  assumes "denial ds (tc_id call) = Some msg" "execute e call ds taskID nr = (r, steps, nr')"
  shows "(\<exists>rs. steps = [StepResponse rs]) \<and> r_result r = msg \<and> r_is_error r \<and> r_id r = tc_id call"
  using assms finish_steps [of call "failed_input msg" nr r steps nr'] by (auto simp: execute_def failed_input_def)

text \<open>The steps of \<open>execute\<close>: an answer alone, after the start, after a blocked call, or a full call.\<close>

lemma execute_steps:
  assumes "execute e call ds taskID nr = (r, steps, nr')"
  obtains (refused) rs where "steps = [StepResponse rs]" "rs_result rs = r_result r" "rs_isError rs" "r_is_error r" "r_id r = tc_id call"
  | (invalid) rs where "denial ds (tc_id call) = None" "steps = [StepStart call taskID, StepResponse rs]" "rs_result rs = r_result r" "rs_isError rs" "r_is_error r" "r_id r = tc_id call"
  | (blocked) rs c' where "denial ds (tc_id call) = None" "steps = [StepStart call taskID, StepBefore c', StepResponse rs]" "rs_result rs = r_result r" "rs_isError rs" "r_is_error r" "r_id r = tc_id call"
  | (called) t c' rs where "denial ds (tc_id call) = None" "GetTool e (tc_name call) = Inr t" "c' = call\<lparr>tc_args := RepairArguments (tc_args call)\<rparr>"
      "et_ValidParams t (tc_name c') (tc_args c') = None" "et_BeforeCall t c' = None"
      "steps = [StepStart call taskID, StepBefore c', StepCall t c', StepResponse rs, StepAfter c']"
      "rs_result rs = r_result r" "rs_isError rs = r_is_error r" "r_id r = tc_id call"
proof (cases "denial ds (tc_id call)")
  case (Some msg)
  then show ?thesis using assms finish_steps [of call "failed_input msg" nr r steps nr'] refused by (auto simp: execute_def failed_input_def)
next
  case ok: None
  show ?thesis
  proof (cases "GetTool e (tc_name call)")
    case (Inl msg)
    then show ?thesis using assms ok finish_steps [of call "failed_input msg" nr r steps nr'] by (auto simp: execute_def failed_input_def intro: refused)
  next
    case (Inr t)
    define c' where "c' = call\<lparr>tc_args := RepairArguments (tc_args call)\<rparr>"
    define rec0 where "rec0 = (case nr of Some r \<Rightarrow> r | None \<Rightarrow> NewNestedRecorder)"
    have id': "tc_id c' = tc_id call" by (simp add: c'_def)
    show ?thesis
    proof (cases "et_ValidParams t (tc_name c') (tc_args c')")
      case (Some err)
      obtain s2 where f: "finish c' (failed_input (invalid_params t (tc_args c') err)) nr = (r, s2, nr')" "steps = StepStart call taskID # s2"
        using assms ok Inr Some by (auto simp: execute_def Let_def c'_def split: prod.splits)
      then show ?thesis using finish_steps [OF f(1)] f(2) ok id' invalid by (auto simp: failed_input_def)
    next
      case valid: None
      show ?thesis
      proof (cases "et_BeforeCall t c'")
        case (Some reason)
        obtain s2 where f: "finish c' (failed_input (''blocked: '' @ reason)) (Some rec0) = (r, s2, nr')" "steps = StepStart call taskID # StepBefore c' # s2"
          using assms ok Inr valid Some by (auto simp: execute_def Let_def c'_def rec0_def split: prod.splits)
        then show ?thesis using finish_steps [OF f(1)] f(2) ok id' blocked by (auto simp: failed_input_def)
      next
        case None
        obtain i rec1 s2 where f: "finish c' i (Some rec1) = (r, s2, nr')"
            "steps = StepStart call taskID # StepBefore c' # StepCall t c' # s2 @ [StepAfter c']"
          using assms ok Inr valid None by (auto simp: execute_def Let_def c'_def rec0_def split: prod.splits)
        then show ?thesis using finish_steps [OF f(1)] f(2) ok Inr valid None id' c'_def called by auto
      qed
    qed
  qed
qed

lemma preApprove_decides:
  assumes "preApprove e (Some ap) calls = (Inr ds, asked)" "distinct (map tc_id calls)"
    and "k < length (filter (needs_approval e ap) calls)" "filter (needs_approval e ap) calls ! k = c"
  obtains w d where "ap_begin ap k c = Waits w" "decision_of w = Some d" "Option.bind ds (\<lambda>m. m (tc_id c)) = Some d"
proof -
  let ?p = "filter (needs_approval e ap) calls"
  have "?p \<noteq> []" using assms(3) by auto
  then obtain m where m: "ask_approval ap 0 ?p Map.empty = (Inr m, asked)" "ds = Some m"
    using assms(1) by (auto simp: preApprove_def Let_def split: prod.splits sum.splits)
  have dist: "distinct (map tc_id ?p)" using assms(2) by (rule distinct_map_filter)
  show thesis using ask_approval_decides [OF m(1) dist] assms(3,4) m(2) that by fastforce
qed

lemma unapproved_call_is_refused:
  assumes "preApprove e (Some ap) calls = (Inr ds, asked)" "distinct (map tc_id calls)"
    and "k < length (filter (needs_approval e ap) calls)" "filter (needs_approval e ap) calls ! k = c"
    and "execute e c ds taskID nr = (r, steps, nr')"
  shows "ap_begin ap k c = Waits (Approved True) \<or>
    (ap_begin ap k c = Waits (Approved False) \<and> r_result r = rejection \<or> ap_begin ap k c = Waits WindowExpired \<and> r_result r = undecided) \<and>
    r_is_error r \<and> (\<exists>rs. steps = [StepResponse rs] \<and> rs_result rs = r_result r)"
proof -
  obtain w d where w: "ap_begin ap k c = Waits w" "decision_of w = Some d" "Option.bind ds (\<lambda>m. m (tc_id c)) = Some d"
    using preApprove_decides [OF assms(1-4)] .
  have refuse: "r_result r = msg \<and> r_is_error r \<and> (\<exists>rs. steps = [StepResponse rs] \<and> rs_result rs = r_result r)"
    if "denial ds (tc_id c) = Some msg" for msg
    using that assms(5) finish_steps [of c "failed_input msg" nr r steps nr'] by (auto simp: execute_def failed_input_def)
  show ?thesis
  proof (cases w)
    case (Approved ok)
    then show ?thesis using w refuse [of rejection] by (cases ok) (auto simp: decision_of_def denial_def)
  next
    case WindowExpired
    then show ?thesis using w refuse [of undecided] by (auto simp: decision_of_def denial_def)
  next
    case (WaitFails err)
    then show ?thesis using w by (simp add: decision_of_def)
  qed
qed

text \<open>C5. In a round of tool calls with distinct ids, the \<open>k\<close>-th call that needs approval reaches its tool only
  if the user approved this very call: a rejection and an expired window are each answered with their own
  text, as an error, and neither the tool nor its hooks see the call.\<close>

theorem unapproved_call_never_reaches_its_tool:
  assumes "preApprove e (Some ap) calls = (Inr ds, asked)" "distinct (map tc_id calls)"
    and "k < length (filter (needs_approval e ap) calls)" "filter (needs_approval e ap) calls ! k = c"
    and "execute e c ds taskID nr = (r, steps, nr')"
  shows "ap_begin ap k c = Waits (Approved True) \<or>
    (ap_begin ap k c = Waits (Approved False) \<and> r_result r = rejection \<or> ap_begin ap k c = Waits WindowExpired \<and> r_result r = undecided) \<and>
    r_is_error r \<and> (\<exists>rs. steps = [StepResponse rs] \<and> rs_result rs = r_result r)"
  using assms by (rule unapproved_call_is_refused)

definition sample_output :: call_output where
  "sample_output = \<lparr>co_out = ''ok'', co_images = [], co_exit = None, co_structured = None, co_usage = Some (zero_usage\<lparr>u_total := 5\<rparr>), co_diff = None\<rparr>"

definition sample_tool :: "string \<Rightarrow> string option \<Rightarrow> engine_tool" where
  "sample_tool name expo =
     \<lparr>et_Name = name, et_Description = [], et_required = [], et_CanParallel = True, et_Exposure = expo, et_RequiresApproval = Some (\<lambda>_. True),
      et_ToolTimeout = None, et_TimeoutForArgs = None, et_DisableAutoPromote = None, et_AsyncPromoteAfter = None, et_ValidParams = (\<lambda>_ _. None),
      et_BeforeCall = (\<lambda>_. None), et_Call = (\<lambda>_ r. (CallReturns sample_output, r)), et_OutputSchema = False, et_SkipTruncate = Some True,
      et_PrepareLoadout = None\<rparr>"

definition sample_engine :: engine where
  "sample_engine = RegisterTool (sample_tool ''old'' (Some ''hidden'')) (RegisterTool (sample_tool ''bash'' None) (NewToolEngine (\<lambda>_ _. None) (\<lambda>_ _. []) (\<lambda>s. s)))"

definition sample_approver :: approver where
  "sample_approver = \<lparr>ap_NeedsApproval = None, ap_begin = (\<lambda>n c. Waits (if n = 0 then Approved True else WindowExpired))\<rparr>"

definition sample_call :: "string \<Rightarrow> string \<Rightarrow> tool_call" where
  "sample_call i name = \<lparr>tc_id = i, tc_index = 0, tc_name = name, tc_args = ''{}'', tc_request = [], tc_parent = [], tc_depth = 0\<rparr>"

lemma sample_GetTool:
  "GetTool sample_engine ''bash'' = Inr (sample_tool ''bash'' None)" "GetTool sample_engine ''old'' = Inr (sample_tool ''old'' (Some ''hidden''))"
  by (simp_all add: GetTool_def sample_engine_def RegisterTool_def NewToolEngine_def sample_tool_def)

lemma sample_begin: "ap_begin sample_approver n c = Waits (if n = 0 then Approved True else WindowExpired)"
  by (simp add: sample_approver_def)

lemma sample_needs: "needs_approval sample_engine sample_approver (sample_call i ''bash'')"
  by (simp add: needs_approval_def sample_call_def sample_GetTool sample_approver_def sample_tool_def)

theorem unapproved_call_never_reaches_its_tool_witness:
  "case preApprove sample_engine (Some sample_approver) [sample_call ''a'' ''bash'', sample_call ''b'' ''bash''] of
     (Inr ds, _) \<Rightarrow> (case execute sample_engine (sample_call ''b'' ''bash'') ds [] None of (r, steps, _) \<Rightarrow>
        r_result r = undecided \<and> (\<exists>rs. steps = [StepResponse rs]))
   | _ \<Rightarrow> False"
proof -
  let ?calls = "[sample_call ''a'' ''bash'', sample_call ''b'' ''bash'']" and ?b = "sample_call ''b'' ''bash''"
  obtain ds asked where p: "preApprove sample_engine (Some sample_approver) ?calls = (Inr ds, asked)"
    by (auto simp: preApprove_def Let_def sample_needs sample_begin)
  obtain r steps nr' where x: "execute sample_engine ?b ds [] None = (r, steps, nr')" by (metis prod_cases3)
  have d: "distinct (map tc_id ?calls)" by (simp add: sample_call_def)
  have k: "1 < length (filter (needs_approval sample_engine sample_approver) ?calls)" "filter (needs_approval sample_engine sample_approver) ?calls ! 1 = ?b"
    by (simp_all add: sample_needs)
  show ?thesis using unapproved_call_never_reaches_its_tool [OF p d k x] p x by (auto simp: sample_approver_def)
qed

section \<open>One answer for every call\<close>

definition is_response :: "engine_step \<Rightarrow> bool" where
  "is_response s = (case s of StepResponse _ \<Rightarrow> True | _ \<Rightarrow> False)"

text \<open>Whatever happens to a call (refused, unknown, invalid, blocked, failed, panicked or successful), it ends
  in a result with the id of the call, and exactly one response event goes out, with the same text and verdict.\<close>

theorem every_call_is_answered_once:
  "r_id (fst (execute e call ds taskID nr)) = tc_id call \<and>
   (\<exists>rs. filter is_response (fst (snd (execute e call ds taskID nr))) = [StepResponse rs] \<and>
      rs_result rs = r_result (fst (execute e call ds taskID nr)) \<and> rs_isError rs = r_is_error (fst (execute e call ds taskID nr)))"
proof -
  obtain r steps nr' where x: "execute e call ds taskID nr = (r, steps, nr')" by (metis prod_cases3)
  show ?thesis unfolding x by (rule execute_steps [OF x]) (simp_all add: is_response_def)
qed

lemma panic_is_an_error_result:
  assumes "denial ds (tc_id call) = None" "GetTool e (tc_name call) = Inr t"
    and "et_ValidParams t (tc_name call) (RepairArguments (tc_args call)) = None"
    and "et_BeforeCall t (call\<lparr>tc_args := RepairArguments (tc_args call)\<rparr>) = None"
    and "et_Call t (call\<lparr>tc_args := RepairArguments (tc_args call)\<rparr>) (case nr of Some r \<Rightarrow> r | None \<Rightarrow> NewNestedRecorder) = (CallPanics v, r1)"
    and "execute e call ds taskID nr = (r, steps, nr')"
  shows "r_is_error r \<and> r_result r = ''tool '' @ tc_name call @ '' panicked: '' @ v \<and> (\<exists>c'. last steps = StepAfter c')"
  using assms by (auto simp: execute_def call_tool_def Let_def failed_input_def dest!: finish_steps split: prod.splits)

section \<open>Calls from a script\<close>

lemma nested_depth_pos: "parent \<noteq> [] \<Longrightarrow> 0 < nested_depth parent depth"
  by (simp add: nested_depth_def)

lemma executeApproved_calls:
  assumes "executeApproved e ap call nr = (r, steps, nr')"
  shows "r_id r = tc_id call \<and>
    (\<forall>t c'. StepCall t c' \<in> set steps \<longrightarrow> GetTool e (tc_name call) = Inr t \<and> c' = call\<lparr>tc_args := RepairArguments (tc_args call)\<rparr> \<and>
       (\<forall>a. ap = Some a \<and> needs_approval e a call \<longrightarrow> ap_begin a 0 call = Waits (Approved True)))"
proof (cases "preApprove e ap [call]")
  case (Pair p asked)
  have asked: "StepCall t c' \<notin> set asked" for t c'
    using Pair by (auto simp: preApprove_def Let_def split: option.splits if_splits prod.splits sum.splits begin_result.splits wait_result.splits)
  show ?thesis
  proof (cases p)
    case (Inl err)
    then show ?thesis using assms Pair asked by (auto simp: executeApproved_def refused_result_def)
  next
    case (Inr ds)
    obtain steps2 where x: "execute e call ds [] nr = (r, steps2, nr')" "steps = asked @ steps2"
      using assms Pair Inr by (auto simp: executeApproved_def split: prod.splits)
    have approved: "ap_begin a 0 call = Waits (Approved True)"
      if "StepCall t c' \<in> set steps" "ap = Some a" "needs_approval e a call" for t c' a
    proof -
      have "\<not> (\<exists>rs. steps2 = [StepResponse rs])" using that(1) x(2) asked by auto
      then show ?thesis using unapproved_call_is_refused [of e a "[call]" ds asked 0 call "[]" nr r steps2 nr'] Pair Inr x(1) that by auto
    qed
    have "r_id r = tc_id call" using x(1) by (rule execute_steps)
    moreover have "GetTool e (tc_name call) = Inr t \<and> c' = call\<lparr>tc_args := RepairArguments (tc_args call)\<rparr>"
      if "StepCall t c' \<in> set steps" for t c'
    proof -
      have "StepCall t c' \<in> set steps2" using that x(2) asked by auto
      then show ?thesis using x(1) by (auto elim!: execute_steps)
    qed
    ultimately show ?thesis using approved by blast
  qed
qed

text \<open>A script of an orchestrating tool reaches a tool only if that tool may be called from scripts (hidden and
  model-only tools never, whatever alias or name the script uses), at nesting depth one at most, and only after
  the approval the tool needs; and its calls raise no start and no response events of their own.\<close>

theorem scripts_reach_only_callable_tools:
  assumes "ExecuteOne e ap call parent depth nr = (r, steps, nr')" "StepCall t c' \<in> set steps"
  shows "CallableFromScript t \<and> GetTool e (tc_name call) = Inr t \<and> tc_depth c' \<le> NestedMaxDepth \<and> tc_parent c' = parent \<and>
    filter is_response steps = [] \<and>
    (\<forall>a. ap = Some a \<longrightarrow> \<not> needs_approval e a (call\<lparr>tc_parent := parent, tc_depth := tc_depth c'\<rparr>) \<or>
       ap_begin a 0 (call\<lparr>tc_parent := parent, tc_depth := tc_depth c'\<rparr>) = Waits (Approved True))"
proof -
  define d where "d = nested_depth parent depth"
  define c where "c = call\<lparr>tc_parent := parent, tc_depth := d\<rparr>"
  have run: "nested_run e ap c d nr = (r, steps, nr')" "d \<le> NestedMaxDepth" "\<forall>t. GetTool e (tc_name c) = Inr t \<longrightarrow> CallableFromScript t"
    using assms by (auto simp: ExecuteOne_def Let_def d_def c_def split: sum.splits if_splits)
  obtain r1 steps1 nr1 where x: "executeApproved e ap c nr = (r1, steps1, nr1)" "steps = only_approvals steps1"
    using run(1) by (auto simp: nested_run_def split: prod.splits)
  have "StepCall t c' \<in> set steps1" using assms(2) x(2) by (simp add: only_approvals_def)
  then have "GetTool e (tc_name c) = Inr t" "c' = c\<lparr>tc_args := RepairArguments (tc_args c)\<rparr>"
    "\<forall>a. ap = Some a \<and> needs_approval e a c \<longrightarrow> ap_begin a 0 c = Waits (Approved True)"
    using executeApproved_calls [OF x(1)] by blast+
  moreover have "filter is_response steps = []" by (auto simp: x(2) only_approvals_def is_response_def filter_empty_conv split: engine_step.splits)
  ultimately show ?thesis using run(2,3) by (auto simp: c_def)
qed

theorem scripts_reach_only_callable_tools_witness:
  "case ExecuteOne sample_engine None (sample_call ''n'' ''bash'') ''outer'' 0 (Some NewNestedRecorder) of
     (r, steps, nr') \<Rightarrow> (\<exists>t c'. StepCall t c' \<in> set steps \<and> CallableFromScript t)"
proof -
  obtain r steps nr' where x: "ExecuteOne sample_engine None (sample_call ''n'' ''bash'') ''outer'' 0 (Some NewNestedRecorder) = (r, steps, nr')"
    by (metis prod_cases3)
  have "\<exists>c'. StepCall (sample_tool ''bash'' None) c' \<in> set steps"
    using x by (auto simp: ExecuteOne_def nested_run_def executeApproved_def preApprove_def execute_def Let_def nested_depth_def NestedMaxDepth_def
        sample_call_def sample_GetTool only_approvals_def denial_def sample_tool_def CallableFromScript_def ToolExposureOf_def split: prod.splits if_splits)
  then show ?thesis using scripts_reach_only_callable_tools [OF x] x by auto
qed

section \<open>The record of nested calls\<close>

definition recorder_ok :: "nested_recorder \<Rightarrow> bool" where
  "recorder_ok r \<longleftrightarrow> length (nr_calls r) \<le> NestedMaxCalls \<and> nr_argBytes r \<le> NestedMaxArgsTotal"

lemma recorder_Add_ok [intro]: "recorder_ok r \<Longrightarrow> recorder_ok (recorder_Add x n r)"
  by (auto simp: recorder_ok_def recorder_Add_def)

lemma recorder_AddUsage_ok [intro]: "recorder_ok r \<Longrightarrow> recorder_ok (recorder_AddUsage u r)"
  by (simp add: recorder_ok_def recorder_AddUsage_def)

lemma recorder_Add_counts:
  "length (nr_calls (recorder_Add x n r)) + nr_dropped (recorder_Add x n r) = Suc (length (nr_calls r) + nr_dropped r)"
  "nr_usage (recorder_Add x n r) = nr_usage r" "nr_hostOps (recorder_Add x n r) = nr_hostOps r"
  by (auto simp: recorder_Add_def)

lemma recorder_AddUsage_counts:
  "nr_calls (recorder_AddUsage u r) = nr_calls r" "nr_dropped (recorder_AddUsage u r) = nr_dropped r"
  "u_total (nr_usage (recorder_AddUsage u r)) = u_total (nr_usage r) + u_total u"
  by (simp_all add: recorder_AddUsage_def usage_IsZero_def usage_Add_def)

text \<open>A script: its calls in order, each with its outer call as the parent.\<close>

fun script_calls :: "engine \<Rightarrow> approver option \<Rightarrow> string \<Rightarrow> tool_call list \<Rightarrow> nested_recorder \<Rightarrow> engine_result list \<times> nested_recorder" where
  "script_calls e ap parent [] r = ([], r)"
| "script_calls e ap parent (c # cs) r =
     (case ExecuteOne e ap c parent 1 (Some r) of (res, _, r1) \<Rightarrow>
        (case script_calls e ap parent cs (case r1 of Some r' \<Rightarrow> r' | None \<Rightarrow> r) of (ress, r2) \<Rightarrow> (res # ress, r2)))"

definition script_may_call :: "engine \<Rightarrow> tool_call \<Rightarrow> bool" where
  "script_may_call e c = (case GetTool e (tc_name c) of Inr t \<Rightarrow> CallableFromScript t | Inl _ \<Rightarrow> True)"

definition leaves_recorder :: "engine \<Rightarrow> bool" where
  "leaves_recorder e \<longleftrightarrow> (\<forall>(n, t) \<in> set (en_tools e). \<forall>c r. snd (et_Call t c r) = r)"

lemma GetTool_registered: "GetTool e n = Inr t \<Longrightarrow> \<exists>m. (m, t) \<in> set (en_tools e)"
  by (auto simp: GetTool_def bind_eq_Some_conv split: option.splits dest!: map_of_SomeD)

lemma finish_nested: "tc_depth c \<noteq> 0 \<Longrightarrow> snd (snd (finish c i nr)) = nr"
  by (simp add: finish_def take_nested_def Let_def)

lemma call_tool_recorder:
  assumes "leaves_recorder e" "GetTool e n = Inr t" "call_tool e t c r = (i, r')"
  shows "r' = r"
proof -
  obtain m where "(m, t) \<in> set (en_tools e)" using GetTool_registered assms(2) by blast
  then have "snd (et_Call t c r) = r" using assms(1) by (auto simp: leaves_recorder_def)
  then show ?thesis using assms(3) by (auto simp: call_tool_def split: prod.splits call_outcome.splits)
qed

lemma execute_recorder:
  assumes "leaves_recorder e" "tc_depth c \<noteq> 0" "execute e c ds tid (Some r0) = (r, steps, nr')"
  shows "nr' = Some r0"
proof -
  have fin: "finish x i nr = (a, b, nr2) \<Longrightarrow> tc_depth x \<noteq> 0 \<Longrightarrow> nr2 = nr" for x i nr a b nr2
    using finish_nested [of x i nr] by simp
  show ?thesis
    using assms by (auto simp: execute_def Let_def dest!: fin dest: call_tool_recorder split: option.splits sum.splits prod.splits)
qed

lemma ExecuteOne_recorder:
  assumes "leaves_recorder e" "parent \<noteq> []" "ExecuteOne e ap c parent 1 (Some r) = (res, steps, nr')"
  shows "nr' = Some (if script_may_call e c
      then recorder_AddUsage (r_usage res) (recorder_Add (nested_record_of (c\<lparr>tc_parent := parent, tc_depth := 1\<rparr>) res) (length (tc_args c)) r)
      else r) \<and> (\<not> script_may_call e c \<longrightarrow> r_usage res = zero_usage)"
proof -
  let ?c = "c\<lparr>tc_parent := parent, tc_depth := 1\<rparr>"
  have ea: "nr1 = Some r" if "executeApproved e ap ?c (Some r) = (r1, s1, nr1)" for r1 s1 nr1
    using that execute_recorder [OF assms(1), of ?c]
    by (auto simp: executeApproved_def split: prod.splits sum.splits)
  have d: "nested_depth parent 1 = 1" by (simp add: nested_depth_def)
  show ?thesis
    using assms(3) by (auto simp: ExecuteOne_def Let_def d nested_run_def script_may_call_def refused_result_def NestedMaxDepth_def
        dest!: ea split: sum.splits if_splits prod.splits)
qed

text \<open>The limits of the record of nested calls never cost usage: after a script's calls the recorder holds at
  most 256 records and 32 KiB of arguments, every call that ran is recorded or counted as dropped, and the
  usage to be charged to the outer call has grown by exactly the usage of all the calls.\<close>

theorem nested_usage_survives_the_limits:
  assumes "leaves_recorder e" "parent \<noteq> []" "recorder_ok r" "script_calls e ap parent calls r = (results, r')"
  shows "recorder_ok r' \<and>
    length (nr_calls r') + nr_dropped r' = length (nr_calls r) + nr_dropped r + length (filter (script_may_call e) calls) \<and>
    u_total (nr_usage r') = u_total (nr_usage r) + sum_list (map (\<lambda>x. u_total (r_usage x)) results)"
  using assms(3,4)
proof (induction calls arbitrary: r results)
  case (Cons c cs)
  obtain res steps nr1 where x: "ExecuteOne e ap c parent 1 (Some r) = (res, steps, nr1)" by (metis prod_cases3)
  note one = ExecuteOne_recorder [OF assms(1,2) x]
  then obtain r1 where r1: "nr1 = Some r1" by blast
  obtain ress where rest: "script_calls e ap parent cs r1 = (ress, r')" "results = res # ress"
    using Cons.prems(2) x r1 by (auto split: prod.splits)
  have ok: "recorder_ok r1" using one r1 Cons.prems(1) by (auto split: if_splits)
  show ?case
    using Cons.IH [OF ok rest(1)] one r1 rest(2)
    by (auto simp: recorder_AddUsage_counts recorder_Add_counts zero_usage_def split: if_splits)
qed simp

lemma sample_leaves: "leaves_recorder sample_engine"
  by (simp add: leaves_recorder_def sample_engine_def RegisterTool_def NewToolEngine_def sample_tool_def)

theorem nested_usage_survives_the_limits_witness:
  "case script_calls sample_engine None ''outer'' [sample_call ''a'' ''bash'', sample_call ''b'' ''old''] NewNestedRecorder of
     (results, r') \<Rightarrow> length (nr_calls r') + nr_dropped r' = 1 \<and> u_total (nr_usage r') = sum_list (map (\<lambda>x. u_total (r_usage x)) results)"
proof -
  let ?calls = "[sample_call ''a'' ''bash'', sample_call ''b'' ''old'']"
  obtain results r' where x: "script_calls sample_engine None ''outer'' ?calls NewNestedRecorder = (results, r')" by fastforce
  have ok: "recorder_ok NewNestedRecorder" by (simp add: recorder_ok_def NewNestedRecorder_def)
  have names: "tc_name (sample_call i n) = n" for i n by (simp add: sample_call_def)
  have n: "length (filter (script_may_call sample_engine) ?calls) = 1"
    by (simp add: script_may_call_def names sample_GetTool sample_tool_def CallableFromScript_def ToolExposureOf_def exposure_of_text_def)
  show ?thesis
    using nested_usage_survives_the_limits [OF sample_leaves _ ok x] n x by (simp add: NewNestedRecorder_def zero_usage_def)
qed

end
