(* ===== verification/ToolBatch.thy ===== *)
theory ToolBatch
  imports ToolEngine
begin

text \<open>
  A batch of tool calls (\<open>tools/engine.go\<close> from \<open>runBatch\<close>, \<open>tools/task.go\<close>, \<open>tools/timeout.go\<close>,
  \<open>core/reparentable.go\<close>): one goroutine per call, the loop that waits for them, and the controller through
  which the host moves a running call to the background or interrupts it. A step of the model is one
  section of the code between two points at which the goroutines meet: an access to a channel, a lock
  or an atomic flag. The tools are parameters: the event that a tool returns carries its result.
\<close>

section \<open>The contexts of a task\<close>

text \<open>\<open>Reparentable\<close>: the reason it ended for, and whether it still follows its parent.\<close>

record reparentable =
  rp_err :: "string option"
  rp_detached :: bool

definition canceled_text :: string where "canceled_text = ''context canceled''"
definition deadline_text :: string where "deadline_text = ''context deadline exceeded''"

definition NewReparentable :: reparentable where "NewReparentable = \<lparr>rp_err = None, rp_detached = False\<rparr>"

definition rp_cancel :: "string \<Rightarrow> reparentable \<Rightarrow> reparentable" where
  "rp_cancel err r = (case rp_err r of None \<Rightarrow> r\<lparr>rp_err := Some err\<rparr> | Some _ \<Rightarrow> r)"

definition rp_Cancel :: "reparentable \<Rightarrow> reparentable" where "rp_Cancel r = rp_cancel canceled_text r"
definition rp_Detach :: "reparentable \<Rightarrow> reparentable" where "rp_Detach r = r\<lparr>rp_detached := True\<rparr>"

definition rp_parent_done :: "string \<Rightarrow> reparentable \<Rightarrow> reparentable" where
  "rp_parent_done err r = (if rp_detached r then r else rp_cancel err r)"

text \<open>\<open>liftableTimeout\<close>: its end, whether the limit is lifted, whether the timer runs and the parent is watched.\<close>

record liftable =
  lt_deadline :: int
  lt_err :: "string option"
  lt_lifted :: bool
  lt_timer :: bool
  lt_watch :: bool

definition newLiftableTimeout :: "int \<Rightarrow> int \<Rightarrow> liftable" where
  "newLiftableTimeout now timeout = \<lparr>lt_deadline = now + timeout, lt_err = None, lt_lifted = False, lt_timer = True, lt_watch = True\<rparr>"

definition closeDone :: "string \<Rightarrow> liftable \<Rightarrow> liftable" where
  "closeDone err l = (case lt_err l of None \<Rightarrow> l\<lparr>lt_err := Some err, lt_watch := False\<rparr> | Some _ \<Rightarrow> l)"

definition lt_fire :: "liftable \<Rightarrow> liftable" where
  "lt_fire l = (if lt_timer l \<and> \<not> lt_lifted l then closeDone deadline_text l else l)"

definition lt_parent_done :: "string \<Rightarrow> liftable \<Rightarrow> liftable" where
  "lt_parent_done err l = (if lt_watch l then closeDone err l else l)"

definition lt_lift :: "liftable \<Rightarrow> liftable" where "lt_lift l = l\<lparr>lt_lifted := True, lt_timer := False\<rparr>"
definition lt_stop :: "liftable \<Rightarrow> liftable" where "lt_stop l = l\<lparr>lt_timer := False, lt_watch := False\<rparr>"

definition lt_Deadline :: "int option \<Rightarrow> liftable \<Rightarrow> int option" where
  "lt_Deadline parent l =
     (if lt_lifted l then None
      else case parent of Some pd \<Rightarrow> if pd < lt_deadline l then Some pd else Some (lt_deadline l) | None \<Rightarrow> Some (lt_deadline l))"

text \<open>\<open>IsUnlimited\<close> of the context of a task.\<close>

definition lt_IsUnlimited :: "bool \<Rightarrow> liftable \<Rightarrow> bool" where "lt_IsUnlimited parent l = (lt_lifted l \<or> parent)"

section \<open>Tasks and the controller\<close>

text \<open>Where the goroutine of a call stands: before its serial predecessor is done, before the semaphore, in
  \<open>execute\<close>, behind \<open>close(t.done)\<close>, before the delivery, before \<open>doneCh <- i\<close>, at its end.\<close>

datatype goroutine = GWaitPrev | GWaitSem | GRunning | GClosed | GDeliver | GSend | GEnd

record batch_task =
  bt_taskID :: string
  bt_call :: tool_call
  bt_serial :: bool
  bt_prev :: "nat option"
  bt_auto :: int
  bt_pc :: goroutine
  bt_slot :: bool
  bt_done :: bool
  bt_result :: engine_result
  bt_promoted :: bool
  bt_interrupt :: bool
  bt_ph :: bool
  bt_signalled :: bool
  bt_given :: bool
  bt_started :: "int option"
  bt_rctx :: reparentable
  bt_lb :: "liftable option"

text \<open>A call of \<open>Promote\<close> that is under way: before the flag is set, before it is counted, before the signal.\<close>

datatype promote_stage = PDetach | PCount | PSignal

datatype wait_loop = LWait | LCancel nat | LReturned

record batch =
  b_tasks :: "batch_task list"
  b_ctl :: bool
  b_cap :: int
  b_loop :: wait_loop
  b_pending :: int
  b_results :: "engine_result list"
  b_doneCh :: "nat list"
  b_promoteCh :: "nat list"
  b_promoted_events :: "nat list"
  b_registered :: "nat list"
  b_count :: int
  b_released :: bool
  b_idle :: nat
  b_pushed :: "(nat \<times> engine_result \<times> bool) list"
  b_hosts :: "(nat \<times> promote_stage) list"
  b_ctx :: "string option"
  b_now :: int

definition tk :: "batch \<Rightarrow> nat \<Rightarrow> batch_task" where "tk s i = b_tasks s ! i"
definition ntasks :: "batch \<Rightarrow> nat" where "ntasks s = length (b_tasks s)"
definition upd :: "nat \<Rightarrow> (batch_task \<Rightarrow> batch_task) \<Rightarrow> batch \<Rightarrow> batch" where
  "upd i f s = s\<lparr>b_tasks := (b_tasks s)[i := f (b_tasks s ! i)]\<rparr>"

definition blank_result :: "string \<Rightarrow> engine_result" where
  "blank_result i = \<lparr>r_id = i, r_result = [], r_is_error = False, r_tool_error = None, r_exec = None, r_blocks = [], r_usage = zero_usage,
     r_nested = [], r_structured = None, r_hostOps = no_host_ops\<rparr>"

definition failed_result :: "string \<Rightarrow> string \<Rightarrow> engine_result" where
  "failed_result i msg = (blank_result i)\<lparr>r_result := msg, r_is_error := True\<rparr>"

definition stuck_text :: string where
  "stuck_text = ''TOOL_ERROR'' @ [CHR 0x0A] @ ''code: tool_stuck'' @ [CHR 0x0A] @ ''next_action: review'' @ [CHR 0x0A] @
     ''detail: tool did not respond to cancellation within timeout'' @ [CHR 0x0A] @ ''fix: avoid this tool or run it in background''"

text \<open>\<open>json.Marshal\<close> writes the keys of a map in order.\<close>

definition placeholderResult :: "batch_task \<Rightarrow> engine_result" where
  "placeholderResult t = (blank_result (tc_id (bt_call t)))\<lparr>r_result :=
     ''{'' @ quoted_name ''name'' @ json_quote (tc_name (bt_call t)) @ '','' @ quoted_name ''status'' @ json_quote ''running'' @ '','' @
     quoted_name ''task_id'' @ json_quote (bt_taskID t) @ '','' @ quoted_name ''type'' @ json_quote ''tool'' @ ''}''\<rparr>"

section \<open>The launch\<close>

text \<open>\<open>serialPrev\<close>: the last serial call before each call.\<close>

fun serial_prevs :: "nat \<Rightarrow> nat option \<Rightarrow> bool list \<Rightarrow> nat option list" where
  "serial_prevs i lastSerial [] = []"
| "serial_prevs i lastSerial (b # bs) = lastSerial # serial_prevs (Suc i) (if b then Some i else lastSerial) bs"

definition is_serial :: "engine \<Rightarrow> tool_call \<Rightarrow> bool" where
  "is_serial e c = (case GetTool e (tc_name c) of Inr t \<Rightarrow> \<not> et_CanParallel t | Inl _ \<Rightarrow> False)"

text \<open>\<open>autoAfter\<close>: the threshold after which a call goes to the background by itself.\<close>

definition auto_after :: "engine \<Rightarrow> int \<Rightarrow> tool_call \<Rightarrow> int" where
  "auto_after e promoteAfter c =
     (case GetTool e (tc_name c) of
        Inl _ \<Rightarrow> promoteAfter
      | Inr t \<Rightarrow>
         (let aa = (if et_DisableAutoPromote t = Some True then 0 else promoteAfter)
          in case et_AsyncPromoteAfter t of Some v \<Rightarrow> if 0 < v then v else if v < 0 then 0 else aa | None \<Rightarrow> aa))"

definition launch :: "engine \<Rightarrow> int \<Rightarrow> int \<Rightarrow> string \<Rightarrow> tool_call \<Rightarrow> nat option \<Rightarrow> batch_task" where
  "launch e promoteAfter now taskID c prev =
     \<lparr>bt_taskID = taskID, bt_call = c, bt_serial = is_serial e c, bt_prev = (if is_serial e c then prev else None),
      bt_auto = auto_after e promoteAfter c, bt_pc = GWaitPrev, bt_slot = False, bt_done = False, bt_result = blank_result [],
      bt_promoted = False, bt_interrupt = False, bt_ph = False, bt_signalled = False, bt_given = False, bt_started = None,
      bt_rctx = NewReparentable, bt_lb = (if 0 < timeoutFor e c then Some (newLiftableTimeout now (timeoutFor e c)) else None)\<rparr>"

fun launch_all :: "engine \<Rightarrow> int \<Rightarrow> int \<Rightarrow> (tool_call \<times> string) list \<Rightarrow> nat option list \<Rightarrow> batch_task list" where
  "launch_all e promoteAfter now ((c, i) # cs) (p # ps) = launch e promoteAfter now i c p # launch_all e promoteAfter now cs ps"
| "launch_all e promoteAfter now _ _ = []"

text \<open>A batch begins on a controller that is fresh, or that an earlier batch of the round has used.\<close>

definition start_batch :: "engine \<Rightarrow> bool \<Rightarrow> int \<Rightarrow> int \<Rightarrow> (tool_call \<times> string) list \<Rightarrow> batch" where
  "start_batch e ctl promoteAfter now calls =
     (let ts = launch_all e promoteAfter now calls (serial_prevs 0 None (map (is_serial e \<circ> fst) calls)) in
      \<lparr>b_tasks = ts, b_ctl = ctl, b_cap = en_maxParallel e, b_loop = LWait, b_pending = int (length calls),
       b_results = map (\<lambda>c. blank_result (tc_id (fst c))) calls, b_doneCh = [], b_promoteCh = [], b_promoted_events = [],
       b_registered = [0..<length calls], b_count = 0, b_released = False, b_idle = 0, b_pushed = [], b_hosts = [], b_ctx = None, b_now = now\<rparr>)"

text \<open>The second batch of a round, if the first has left no call in the background.\<close>

definition next_batch :: "engine \<Rightarrow> int \<Rightarrow> (tool_call \<times> string) list \<Rightarrow> batch \<Rightarrow> batch option" where
  "next_batch e promoteAfter calls s =
     (if b_count s \<noteq> 0 then None
      else Some ((start_batch e (b_ctl s) promoteAfter (b_now s) calls)\<lparr>b_released := b_released s, b_idle := b_idle s, b_ctx := b_ctx s\<rparr>))"

section \<open>The operations of the controller\<close>

definition maybeIdle :: "batch \<Rightarrow> batch" where
  "maybeIdle s = (if \<not> b_released s \<or> b_count s \<noteq> 0 \<or> 0 < b_idle s then s else s\<lparr>b_idle := 1\<rparr>)"

definition taskDone :: "nat \<Rightarrow> batch \<Rightarrow> batch" where
  "taskDone i s = maybeIdle (s\<lparr>b_registered := removeAll i (b_registered s), b_count := b_count s - 1\<rparr>)"

definition release_batch :: "batch \<Rightarrow> batch" where
  "release_batch s = (if b_ctl s then maybeIdle (s\<lparr>b_released := True\<rparr>) else s)"

definition deliver :: "nat \<Rightarrow> batch \<Rightarrow> batch" where
  "deliver i s =
     (if bt_given (tk s i) then s
      else let s1 = upd i (\<lambda>t. t\<lparr>bt_given := True\<rparr>) s in
        if \<not> bt_promoted (tk s i) then s1
        else taskDone i (s1\<lparr>b_pushed := b_pushed s1 @ [(i, bt_result (tk s i), bt_interrupt (tk s i))]\<rparr>))"

text \<open>\<open>detach\<close> behind its flag: leave the parent, lift the limit.\<close>

definition set_free :: "batch_task \<Rightarrow> batch_task" where
  "set_free t = t\<lparr>bt_rctx := rp_Detach (bt_rctx t), bt_lb := map_option lt_lift (bt_lb t)\<rparr>"

definition detach :: "nat \<Rightarrow> batch \<Rightarrow> batch" where
  "detach i s =
     (if bt_promoted (tk s i) then s
      else upd i (\<lambda>t. set_free (t\<lparr>bt_promoted := True\<rparr>)) (s\<lparr>b_count := b_count s + 1\<rparr>))"

definition Interrupt :: "nat \<Rightarrow> batch \<Rightarrow> bool \<times> batch" where
  "Interrupt i s =
     (if i \<notin> set (b_registered s) \<or> bt_done (tk s i) \<or> bt_interrupt (tk s i) then (False, s)
      else (True, upd i (\<lambda>t. t\<lparr>bt_interrupt := True, bt_rctx := rp_Cancel (bt_rctx t)\<rparr>) s))"

text \<open>\<open>batch_Snapshot\<close>: the promoted calls that are still registered.\<close>

definition batch_Snapshot :: "batch \<Rightarrow> nat list" where
  "batch_Snapshot s = filter (\<lambda>i. bt_promoted (tk s i)) (b_registered s)"

section \<open>The waiting loop\<close>

definition markPromoted :: "nat \<Rightarrow> batch \<Rightarrow> batch" where
  "markPromoted i s = (if b_ctl s then detach i s else upd i (\<lambda>t. set_free (t\<lparr>bt_promoted := True\<rparr>)) s)"

definition finishPromote :: "nat \<Rightarrow> batch \<Rightarrow> batch" where
  "finishPromote i s =
     (let s1 = (if bt_ph (tk s i) then s
                else upd i (\<lambda>t. t\<lparr>bt_ph := True\<rparr>) (s\<lparr>b_results := (b_results s)[i := placeholderResult (tk s i)], b_pending := b_pending s - 1,
                       b_promoted_events := b_promoted_events s @ [i]\<rparr>))
      in if bt_done (tk s i) \<and> b_ctl s then deliver i s1 else s1)"

text \<open>A call is due when it is not promoted and has been started longer ago than its threshold.\<close>

definition overdue :: "batch \<Rightarrow> nat \<Rightarrow> bool" where
  "overdue s i \<longleftrightarrow> \<not> bt_promoted (tk s i) \<and> 0 < bt_auto (tk s i) \<and>
     (case bt_started (tk s i) of Some t0 \<Rightarrow> t0 + bt_auto (tk s i) < b_now s | None \<Rightarrow> False)"

definition timer_pass :: "batch \<Rightarrow> batch" where
  "timer_pass s = fold (\<lambda>i s. if overdue s i then finishPromote i (markPromoted i s) else s) [0..<ntasks s] s"

section \<open>Steps\<close>

datatype batch_event =
    GoStart nat | GoGiveUp nat | GoAcquire nat | GoReturn nat engine_result | GoCheck nat | GoDeliver nat | GoSend nat
  | CtxEnds string | CtxFollows nat | LimitFires nat | LimitFollows nat | Clock int
  | HostPromote nat | HostStep nat | HostInterrupt nat
  | LoopCtx | LoopPromote | LoopDone | LoopTimer | LoopEnd | LoopCollect | LoopStuck | LoopCancelled

definition slots_used :: "batch \<Rightarrow> int" where "slots_used s = int (length (filter bt_slot (b_tasks s)))"

definition close_task :: "engine_result \<Rightarrow> batch_task \<Rightarrow> batch_task" where
  "close_task r t = t\<lparr>bt_result := r, bt_done := True\<rparr>"

fun go_step :: "batch_event \<Rightarrow> batch \<Rightarrow> batch option" where
  "go_step (GoStart i) s =
     (if i < ntasks s \<and> bt_pc (tk s i) = GWaitPrev \<and> (case bt_prev (tk s i) of None \<Rightarrow> True | Some p \<Rightarrow> bt_done (tk s p))
      then Some (upd i (\<lambda>t. t\<lparr>bt_pc := GWaitSem, bt_started := Some (b_now s)\<rparr>) s) else None)"
| "go_step (GoGiveUp i) s =
     (if i < ntasks s \<and> (bt_pc (tk s i) = GWaitPrev \<and> bt_prev (tk s i) \<noteq> None \<or> bt_pc (tk s i) = GWaitSem \<and> 0 < b_cap s)
      then (case rp_err (bt_rctx (tk s i)) of
              Some err \<Rightarrow> Some (upd i (\<lambda>t. (close_task (failed_result (tc_id (bt_call t)) err) t)\<lparr>bt_pc := GSend\<rparr>) s)
            | None \<Rightarrow> None)
      else None)"
| "go_step (GoAcquire i) s =
     (if i < ntasks s \<and> bt_pc (tk s i) = GWaitSem \<and> (b_cap s \<le> 0 \<or> slots_used s < b_cap s)
      then Some (upd i (\<lambda>t. t\<lparr>bt_pc := GRunning, bt_slot := 0 < b_cap s\<rparr>) s) else None)"
| "go_step (GoReturn i r) s =
     (if i < ntasks s \<and> bt_pc (tk s i) = GRunning
      then Some (upd i (\<lambda>t. (close_task r t)\<lparr>bt_pc := GClosed, bt_lb := map_option lt_stop (bt_lb t)\<rparr>) s) else None)"
| "go_step (GoCheck i) s =
     (if i < ntasks s \<and> bt_pc (tk s i) = GClosed
      then Some (upd i (\<lambda>t. t\<lparr>bt_pc := if bt_promoted t \<and> b_ctl s then GDeliver else GSend\<rparr>) s) else None)"
| "go_step (GoDeliver i) s =
     (if i < ntasks s \<and> bt_pc (tk s i) = GDeliver then Some (deliver i (upd i (\<lambda>t. t\<lparr>bt_pc := GSend\<rparr>) s)) else None)"
| "go_step (GoSend i) s =
     (if i < ntasks s \<and> bt_pc (tk s i) = GSend
      then Some (upd i (\<lambda>t. t\<lparr>bt_pc := GEnd, bt_slot := False\<rparr>) (s\<lparr>b_doneCh := b_doneCh s @ [i]\<rparr>)) else None)"
| "go_step ev s = None"

fun ctx_step :: "batch_event \<Rightarrow> batch \<Rightarrow> batch option" where
  "ctx_step (CtxEnds err) s = (if b_ctx s = None then Some (s\<lparr>b_ctx := Some err\<rparr>) else None)"
| "ctx_step (CtxFollows i) s =
     (if i < ntasks s
      then (case b_ctx s of Some err \<Rightarrow> Some (upd i (\<lambda>t. t\<lparr>bt_rctx := rp_parent_done err (bt_rctx t)\<rparr>) s) | None \<Rightarrow> None) else None)"
| "ctx_step (LimitFires i) s =
     (if i < ntasks s
      then (case bt_lb (tk s i) of
              Some l \<Rightarrow> if lt_deadline l \<le> b_now s then Some (upd i (\<lambda>t. t\<lparr>bt_lb := Some (lt_fire l)\<rparr>) s) else None
            | None \<Rightarrow> None) else None)"
| "ctx_step (LimitFollows i) s =
     (if i < ntasks s
      then (case (bt_lb (tk s i), rp_err (bt_rctx (tk s i))) of
              (Some l, Some err) \<Rightarrow> Some (upd i (\<lambda>t. t\<lparr>bt_lb := Some (lt_parent_done err l)\<rparr>) s) | _ \<Rightarrow> None) else None)"
| "ctx_step (Clock d) s = (if 0 \<le> d then Some (s\<lparr>b_now := b_now s + d\<rparr>) else None)"
| "ctx_step ev s = None"

text \<open>\<open>Promote\<close> looks whether the task is done, and only then sets the flag, counts, and signals.\<close>

fun host_step :: "batch_event \<Rightarrow> batch \<Rightarrow> batch option" where
  "host_step (HostPromote i) s =
     (if b_ctl s \<and> i \<in> set (b_registered s) \<and> \<not> bt_done (tk s i) then Some (s\<lparr>b_hosts := b_hosts s @ [(i, PDetach)]\<rparr>) else None)"
| "host_step (HostStep k) s =
     (if k < length (b_hosts s)
      then (case b_hosts s ! k of
          (i, PDetach) \<Rightarrow>
            if bt_promoted (tk s i) then Some (s\<lparr>b_hosts := (b_hosts s)[k := (i, PSignal)]\<rparr>)
            else Some (upd i (\<lambda>t. t\<lparr>bt_promoted := True\<rparr>) (s\<lparr>b_hosts := (b_hosts s)[k := (i, PCount)]\<rparr>))
        | (i, PCount) \<Rightarrow> Some (upd i set_free (s\<lparr>b_hosts := (b_hosts s)[k := (i, PSignal)], b_count := b_count s + 1\<rparr>))
        | (i, PSignal) \<Rightarrow>
            (let s1 = s\<lparr>b_hosts := take k (b_hosts s) @ drop (Suc k) (b_hosts s)\<rparr> in
             if bt_signalled (tk s i) then Some s1
             else Some (upd i (\<lambda>t. t\<lparr>bt_signalled := True\<rparr>) (s1\<lparr>b_promoteCh := b_promoteCh s @ [i]\<rparr>))))
      else None)"
| "host_step (HostInterrupt i) s = (case Interrupt i s of (True, s1) \<Rightarrow> Some s1 | _ \<Rightarrow> None)"
| "host_step ev s = None"

fun loop_step :: "batch_event \<Rightarrow> batch \<Rightarrow> batch option" where
  "loop_step LoopCtx s =
     (if b_loop s = LWait \<and> 0 < b_pending s \<and> b_ctx s \<noteq> None
      then Some (s\<lparr>b_tasks := map (\<lambda>t. if bt_promoted t then t else t\<lparr>bt_rctx := rp_Cancel (bt_rctx t)\<rparr>) (b_tasks s), b_loop := LCancel 0\<rparr>) else None)"
| "loop_step LoopPromote s =
     (if b_loop s = LWait \<and> 0 < b_pending s
      then (case b_promoteCh s of
              i # rest \<Rightarrow> Some (if i \<in> set (b_registered s) then finishPromote i (s\<lparr>b_promoteCh := rest\<rparr>) else s\<lparr>b_promoteCh := rest\<rparr>)
            | [] \<Rightarrow> None) else None)"
| "loop_step LoopDone s =
     (if b_loop s = LWait \<and> 0 < b_pending s
      then (case b_doneCh s of
              i # rest \<Rightarrow> Some (if bt_promoted (tk s i) then s\<lparr>b_doneCh := rest\<rparr>
                  else s\<lparr>b_doneCh := rest, b_results := (b_results s)[i := bt_result (tk s i)], b_pending := b_pending s - 1\<rparr>)
            | [] \<Rightarrow> None) else None)"
| "loop_step LoopTimer s =
     (if b_loop s = LWait \<and> 0 < b_pending s \<and> (\<exists>i \<in> set [0..<ntasks s]. overdue s i) then Some (timer_pass s) else None)"
| "loop_step LoopEnd s = (if b_loop s = LWait \<and> b_pending s \<le> 0 then Some (release_batch (s\<lparr>b_loop := LReturned\<rparr>)) else None)"
| "loop_step LoopCollect s =
     (case b_loop s of
        LCancel k \<Rightarrow>
          if k < ntasks s
          then (if bt_promoted (tk s k) then Some ((finishPromote k s)\<lparr>b_loop := LCancel (Suc k)\<rparr>)
                else if bt_done (tk s k) then Some (s\<lparr>b_results := (b_results s)[k := bt_result (tk s k)], b_loop := LCancel (Suc k)\<rparr>)
                else None)
          else None
      | _ \<Rightarrow> None)"
| "loop_step LoopStuck s =
     (case b_loop s of
        LCancel k \<Rightarrow>
          if k < ntasks s \<and> \<not> bt_promoted (tk s k) \<and> \<not> bt_done (tk s k)
          then Some (s\<lparr>b_results := (b_results s)[k := failed_result (tc_id (bt_call (tk s k))) stuck_text], b_loop := LCancel (Suc k)\<rparr>) else None
      | _ \<Rightarrow> None)"
| "loop_step LoopCancelled s =
     (case b_loop s of LCancel k \<Rightarrow> if k = ntasks s then Some (release_batch (s\<lparr>b_loop := LReturned\<rparr>)) else None | _ \<Rightarrow> None)"
| "loop_step ev s = None"

definition batch_step :: "batch_event \<Rightarrow> batch \<Rightarrow> batch option" where
  "batch_step ev s =
     (case go_step ev s of Some s' \<Rightarrow> Some s'
      | None \<Rightarrow> (case ctx_step ev s of Some s' \<Rightarrow> Some s'
         | None \<Rightarrow> (case host_step ev s of Some s' \<Rightarrow> Some s' | None \<Rightarrow> loop_step ev s)))"

fun batch_run :: "batch_event list \<Rightarrow> batch \<Rightarrow> batch option" where
  "batch_run [] s = Some s"
| "batch_run (ev # evs) s = Option.bind (batch_step ev s) (batch_run evs)"

section \<open>What every step keeps\<close>

named_theorems batch_simps "one task of a batch after an operation"

lemma ntasks_upd [batch_simps]: "ntasks (upd i f s) = ntasks s"
  by (simp add: ntasks_def upd_def)

lemma tk_upd [batch_simps]: "i < ntasks s \<Longrightarrow> tk (upd i f s) j = (if i = j then f (tk s j) else tk s j)"
  by (simp add: tk_def upd_def ntasks_def)

lemma upd_fields [batch_simps]:
  "b_ctl (upd i f s) = b_ctl s" "b_cap (upd i f s) = b_cap s" "b_loop (upd i f s) = b_loop s" "b_pending (upd i f s) = b_pending s"
  "b_results (upd i f s) = b_results s" "b_doneCh (upd i f s) = b_doneCh s" "b_promoteCh (upd i f s) = b_promoteCh s"
  "b_registered (upd i f s) = b_registered s" "b_count (upd i f s) = b_count s" "b_released (upd i f s) = b_released s"
  "b_idle (upd i f s) = b_idle s" "b_pushed (upd i f s) = b_pushed s" "b_hosts (upd i f s) = b_hosts s" "b_ctx (upd i f s) = b_ctx s"
  "b_now (upd i f s) = b_now s"
  by (simp_all add: upd_def)

lemma tk_fields [batch_simps]:
  "tk (s\<lparr>b_results := a\<rparr>) = tk s" "tk (s\<lparr>b_pending := n\<rparr>) = tk s" "tk (s\<lparr>b_promoted_events := l\<rparr>) = tk s" "tk (s\<lparr>b_loop := w\<rparr>) = tk s"
  "tk (s\<lparr>b_count := n\<rparr>) = tk s" "tk (s\<lparr>b_hosts := h\<rparr>) = tk s" "tk (s\<lparr>b_doneCh := l\<rparr>) = tk s" "tk (s\<lparr>b_promoteCh := l\<rparr>) = tk s"
  "tk (s\<lparr>b_registered := l\<rparr>) = tk s" "tk (s\<lparr>b_pushed := u\<rparr>) = tk s" "tk (s\<lparr>b_idle := k\<rparr>) = tk s" "tk (s\<lparr>b_released := r\<rparr>) = tk s"
  "tk (s\<lparr>b_ctx := x\<rparr>) = tk s" "tk (s\<lparr>b_now := n\<rparr>) = tk s"
  by (simp_all add: tk_def fun_eq_iff)

lemma ntasks_fields [batch_simps]:
  "ntasks (s\<lparr>b_results := a\<rparr>) = ntasks s" "ntasks (s\<lparr>b_pending := n\<rparr>) = ntasks s" "ntasks (s\<lparr>b_promoted_events := l\<rparr>) = ntasks s"
  "ntasks (s\<lparr>b_loop := w\<rparr>) = ntasks s" "ntasks (s\<lparr>b_count := n\<rparr>) = ntasks s" "ntasks (s\<lparr>b_hosts := h\<rparr>) = ntasks s" "ntasks (s\<lparr>b_doneCh := l\<rparr>) = ntasks s"
  "ntasks (s\<lparr>b_promoteCh := l\<rparr>) = ntasks s" "ntasks (s\<lparr>b_registered := l\<rparr>) = ntasks s" "ntasks (s\<lparr>b_pushed := u\<rparr>) = ntasks s"
  "ntasks (s\<lparr>b_idle := k\<rparr>) = ntasks s" "ntasks (s\<lparr>b_released := r\<rparr>) = ntasks s" "ntasks (s\<lparr>b_ctx := x\<rparr>) = ntasks s" "ntasks (s\<lparr>b_now := n\<rparr>) = ntasks s"
  by (simp_all add: ntasks_def)

definition pc_done :: "goroutine \<Rightarrow> bool" where "pc_done p \<longleftrightarrow> p \<in> {GClosed, GDeliver, GSend, GEnd}"

lemma pc_done_simps [simp]: "\<not> pc_done GWaitPrev" "\<not> pc_done GWaitSem" "\<not> pc_done GRunning" "pc_done GClosed" "pc_done GDeliver" "pc_done GSend" "pc_done GEnd"
  by (simp_all add: pc_done_def)

definition call_ok :: "batch_task \<Rightarrow> bool" where
  "call_ok t \<longleftrightarrow> bt_done t = pc_done (bt_pc t) \<and> (bt_ph t \<longrightarrow> bt_promoted t) \<and> (bt_given t \<longrightarrow> bt_promoted t \<and> bt_done t) \<and>
     (bt_pc t = GDeliver \<longrightarrow> bt_promoted t)"

definition channels_ok :: "batch \<Rightarrow> bool" where
  "channels_ok s \<longleftrightarrow> distinct (b_doneCh s) \<and> (\<forall>i \<in> set (b_doneCh s). i < ntasks s \<and> bt_pc (tk s i) = GEnd) \<and>
     (\<forall>i \<in> set (b_promoteCh s). i < ntasks s \<and> bt_promoted (tk s i)) \<and>
     (\<forall>h \<in> set (b_hosts s). fst h < ntasks s \<and> (snd h = PDetach \<or> bt_promoted (tk s (fst h)))) \<and>
     (\<forall>i \<in> set (b_registered s). i < ntasks s) \<and> length (b_results s) = ntasks s"

definition pushed_ok :: "batch \<Rightarrow> bool" where
  "pushed_ok s \<longleftrightarrow> distinct (map fst (b_pushed s)) \<and>
     (\<forall>p \<in> set (b_pushed s). fst p < ntasks s \<and> bt_given (tk s (fst p)) \<and> fst (snd p) = bt_result (tk s (fst p)))"

definition batch_ok :: "batch \<Rightarrow> bool" where
  "batch_ok s \<longleftrightarrow> (\<forall>i < ntasks s. call_ok (tk s i)) \<and> channels_ok s \<and> pushed_ok s"

lemma maybeIdle_fields [batch_simps]:
  "b_tasks (maybeIdle s) = b_tasks s" "tk (maybeIdle s) = tk s" "ntasks (maybeIdle s) = ntasks s" "b_ctl (maybeIdle s) = b_ctl s" "b_cap (maybeIdle s) = b_cap s"
  "b_loop (maybeIdle s) = b_loop s" "b_pending (maybeIdle s) = b_pending s" "b_results (maybeIdle s) = b_results s"
  "b_doneCh (maybeIdle s) = b_doneCh s" "b_promoteCh (maybeIdle s) = b_promoteCh s" "b_registered (maybeIdle s) = b_registered s"
  "b_count (maybeIdle s) = b_count s" "b_released (maybeIdle s) = b_released s" "b_pushed (maybeIdle s) = b_pushed s"
  "b_hosts (maybeIdle s) = b_hosts s" "b_ctx (maybeIdle s) = b_ctx s" "b_now (maybeIdle s) = b_now s"
  by (simp_all add: maybeIdle_def tk_def ntasks_def fun_eq_iff)

text \<open>What the operations of the loop and the controller leave alone.\<close>

definition same_task :: "batch_task \<Rightarrow> batch_task \<Rightarrow> bool" where
  "same_task t t' \<longleftrightarrow> bt_pc t' = bt_pc t \<and> bt_done t' = bt_done t \<and> bt_result t' = bt_result t \<and> bt_call t' = bt_call t \<and> bt_taskID t' = bt_taskID t \<and>
     bt_started t' = bt_started t \<and> bt_auto t' = bt_auto t \<and> bt_slot t' = bt_slot t \<and> bt_serial t' = bt_serial t \<and> bt_prev t' = bt_prev t \<and>
     rp_err (bt_rctx t') = rp_err (bt_rctx t) \<and>
     (bt_promoted t \<longrightarrow> bt_promoted t') \<and> (bt_ph t \<longrightarrow> bt_ph t') \<and> (bt_given t \<longrightarrow> bt_given t')"

definition same_frame :: "batch \<Rightarrow> batch \<Rightarrow> bool" where
  "same_frame s s' \<longleftrightarrow> ntasks s' = ntasks s \<and> b_ctl s' = b_ctl s \<and> b_cap s' = b_cap s \<and> b_loop s' = b_loop s \<and> b_doneCh s' = b_doneCh s \<and>
     b_promoteCh s' = b_promoteCh s \<and> b_hosts s' = b_hosts s \<and> b_ctx s' = b_ctx s \<and> b_now s' = b_now s \<and> b_released s' = b_released s \<and>
     length (b_results s') = length (b_results s) \<and> set (b_registered s') \<subseteq> set (b_registered s) \<and> (\<forall>i. same_task (tk s i) (tk s' i))"

lemma same_task_refl [simp]: "same_task t t"
  by (simp add: same_task_def)

lemma same_task_trans: "same_task t t' \<Longrightarrow> same_task t' t'' \<Longrightarrow> same_task t t''"
  by (simp add: same_task_def)

lemma same_frame_refl [simp]: "same_frame s s"
  by (simp add: same_frame_def)

lemma same_frame_trans [trans]: "same_frame s s' \<Longrightarrow> same_frame s' s'' \<Longrightarrow> same_frame s s''"
  by (auto simp: same_frame_def intro: same_task_trans)

lemma deliver_frame: "i < ntasks s \<Longrightarrow> same_frame s (deliver i s)"
  by (auto simp: deliver_def taskDone_def same_frame_def same_task_def Let_def batch_simps)

lemma detach_frame: "i < ntasks s \<Longrightarrow> same_frame s (detach i s)"
  by (auto simp: detach_def same_frame_def same_task_def set_free_def rp_Detach_def batch_simps)

lemma markPromoted_frame: "i < ntasks s \<Longrightarrow> same_frame s (markPromoted i s)"
  using detach_frame [of i s] by (auto simp: markPromoted_def same_frame_def same_task_def set_free_def rp_Detach_def batch_simps)

lemma finishPromote_frame: "i < ntasks s \<Longrightarrow> same_frame s (finishPromote i s)"
proof -
  assume i: "i < ntasks s"
  let ?s1 = "if bt_ph (tk s i) then s
                else upd i (\<lambda>t. t\<lparr>bt_ph := True\<rparr>) (s\<lparr>b_results := (b_results s)[i := placeholderResult (tk s i)], b_pending := b_pending s - 1,
                       b_promoted_events := b_promoted_events s @ [i]\<rparr>)"
  have 1: "same_frame s ?s1" using i by (auto simp: same_frame_def same_task_def batch_simps)
  have "i < ntasks ?s1" using i by (simp add: batch_simps)
  then show ?thesis using 1 deliver_frame [of i ?s1] same_frame_trans [of s ?s1] unfolding finishPromote_def Let_def by (auto simp del: if_split_asm)
qed

lemma frame_channels: "same_frame s s' \<Longrightarrow> channels_ok s \<Longrightarrow> channels_ok s'"
  unfolding channels_ok_def same_frame_def same_task_def by (metis subset_eq)

lemma deliver_ok:
  assumes "batch_ok s" "i < ntasks s" "bt_done (tk s i)" "bt_promoted (tk s i)"
  shows "batch_ok (deliver i s)"
proof -
  have "channels_ok (deliver i s)" using assms deliver_frame [of i s] frame_channels by (auto simp: batch_ok_def)
  moreover have "pushed_ok (deliver i s)"
    using assms by (auto simp: batch_ok_def pushed_ok_def deliver_def taskDone_def Let_def batch_simps)
  moreover have "\<forall>j < ntasks (deliver i s). call_ok (tk (deliver i s) j)"
    using assms by (auto simp: batch_ok_def call_ok_def deliver_def taskDone_def Let_def batch_simps)
  ultimately show ?thesis by (simp add: batch_ok_def)
qed

lemma markPromoted_ok:
  assumes "batch_ok s" "i < ntasks s"
  shows "batch_ok (markPromoted i s)"
proof -
  have "channels_ok (markPromoted i s)" using assms markPromoted_frame [of i s] frame_channels by (auto simp: batch_ok_def)
  moreover have "pushed_ok (markPromoted i s)"
    using assms by (auto simp: batch_ok_def pushed_ok_def markPromoted_def detach_def set_free_def batch_simps)
  moreover have "\<forall>j < ntasks (markPromoted i s). call_ok (tk (markPromoted i s) j)"
    using assms by (auto simp: batch_ok_def call_ok_def markPromoted_def detach_def set_free_def batch_simps)
  ultimately show ?thesis by (simp add: batch_ok_def)
qed

lemma markPromoted_promotes: "i < ntasks s \<Longrightarrow> bt_promoted (tk (markPromoted i s) i)"
  by (auto simp: markPromoted_def detach_def set_free_def batch_simps)

text \<open>The first half of \<open>finishPromote\<close>: the placeholder.\<close>

definition put_placeholder :: "nat \<Rightarrow> batch \<Rightarrow> batch" where
  "put_placeholder i s =
     (if bt_ph (tk s i) then s
      else upd i (\<lambda>t. t\<lparr>bt_ph := True\<rparr>) (s\<lparr>b_results := (b_results s)[i := placeholderResult (tk s i)], b_pending := b_pending s - 1,
             b_promoted_events := b_promoted_events s @ [i]\<rparr>))"

lemma finishPromote_split:
  "finishPromote i s = (if bt_done (tk s i) \<and> b_ctl s then deliver i (put_placeholder i s) else put_placeholder i s)"
  by (simp add: finishPromote_def put_placeholder_def Let_def)

lemma put_placeholder_frame: "i < ntasks s \<Longrightarrow> same_frame s (put_placeholder i s)"
  by (auto simp: put_placeholder_def same_frame_def same_task_def batch_simps)

lemma put_placeholder_ok:
  assumes "batch_ok s" "i < ntasks s" "bt_promoted (tk s i)"
  shows "batch_ok (put_placeholder i s)"
proof -
  have "channels_ok (put_placeholder i s)" using assms put_placeholder_frame [of i s] frame_channels by (auto simp: batch_ok_def)
  moreover have "pushed_ok (put_placeholder i s)" using assms by (auto simp: batch_ok_def pushed_ok_def put_placeholder_def batch_simps)
  moreover have "\<forall>j < ntasks (put_placeholder i s). call_ok (tk (put_placeholder i s) j)"
    using assms by (auto simp: batch_ok_def call_ok_def put_placeholder_def batch_simps)
  ultimately show ?thesis by (simp add: batch_ok_def)
qed

lemma finishPromote_ok:
  assumes "batch_ok s" "i < ntasks s" "bt_promoted (tk s i)"
  shows "batch_ok (finishPromote i s)"
proof (cases "bt_done (tk s i) \<and> b_ctl s")
  case True
  note p = put_placeholder_frame [OF assms(2)]
  have "i < ntasks (put_placeholder i s)" "bt_done (tk (put_placeholder i s) i)" "bt_promoted (tk (put_placeholder i s) i)"
    using p True assms(2,3) by (auto simp: same_frame_def same_task_def)
  then show ?thesis using deliver_ok [OF put_placeholder_ok [OF assms]] True by (simp add: finishPromote_split)
next
  case False
  then show ?thesis using put_placeholder_ok [OF assms] by (auto simp: finishPromote_split)
qed

text \<open>One call of the pass that the timer starts, and the pass by induction over it.\<close>

definition timer_one :: "nat \<Rightarrow> batch \<Rightarrow> batch" where
  "timer_one i s = (if overdue s i then finishPromote i (markPromoted i s) else s)"

lemma timer_pass_fold: "timer_pass s = fold timer_one [0..<ntasks s] s"
  by (simp add: timer_pass_def timer_one_def [abs_def])

lemma timer_one_frame: "i < ntasks s \<Longrightarrow> same_frame s (timer_one i s)"
proof -
  assume i: "i < ntasks s"
  have "i < ntasks (markPromoted i s)" using markPromoted_frame [OF i] i by (simp add: same_frame_def)
  then show ?thesis using same_frame_trans [OF markPromoted_frame [OF i] finishPromote_frame] by (simp add: timer_one_def)
qed

lemma timer_one_ok:
  assumes "batch_ok s" "i < ntasks s"
  shows "batch_ok (timer_one i s)"
proof -
  have "i < ntasks (markPromoted i s)" using markPromoted_frame [OF assms(2)] assms(2) by (simp add: same_frame_def)
  then show ?thesis using finishPromote_ok [OF markPromoted_ok [OF assms]] markPromoted_promotes [OF assms(2)] assms(1) by (simp add: timer_one_def)
qed

lemma timer_fold_keeps:
  assumes "P s" "\<And>i s. P s \<Longrightarrow> i < ntasks s \<Longrightarrow> P (timer_one i s)" "\<forall>i \<in> set is. i < ntasks s"
  shows "P (fold timer_one is s) \<and> same_frame s (fold timer_one is s)"
  using assms(1,3)
proof (induction "is" arbitrary: s)
  case (Cons i "is")
  have f: "same_frame s (timer_one i s)" using Cons.prems(2) timer_one_frame by simp
  then have "\<forall>j \<in> set is. j < ntasks (timer_one i s)" using Cons.prems(2) by (simp add: same_frame_def)
  then show ?case using Cons.IH [OF assms(2) [OF Cons.prems(1)]] Cons.prems(2) f by (auto intro: same_frame_trans)
qed simp

lemma timer_pass_ok: "batch_ok s \<Longrightarrow> batch_ok (timer_pass s) \<and> same_frame s (timer_pass s)"
  unfolding timer_pass_fold by (rule timer_fold_keeps) (auto intro: timer_one_ok)

section \<open>Every step keeps the batch well-formed\<close>

lemma batch_ok_fields [batch_simps]:
  "batch_ok (s\<lparr>b_ctx := x\<rparr>) = batch_ok s" "batch_ok (s\<lparr>b_now := n\<rparr>) = batch_ok s" "batch_ok (s\<lparr>b_count := n\<rparr>) = batch_ok s"
  "batch_ok (s\<lparr>b_loop := w\<rparr>) = batch_ok s" "batch_ok (s\<lparr>b_pending := n\<rparr>) = batch_ok s" "batch_ok (s\<lparr>b_released := r\<rparr>) = batch_ok s"
  "batch_ok (maybeIdle s) = batch_ok s"
  by (simp_all add: batch_ok_def channels_ok_def pushed_ok_def batch_simps)

definition task_moves :: "batch_task \<Rightarrow> batch_task \<Rightarrow> bool" where
  "task_moves t t' \<longleftrightarrow> (bt_pc t = GEnd \<longrightarrow> bt_pc t' = GEnd) \<and> (bt_promoted t \<longrightarrow> bt_promoted t') \<and> (bt_given t \<longrightarrow> bt_given t' \<and> bt_result t' = bt_result t)"

lemma upd_call_ok:
  assumes "batch_ok s" "i < ntasks s" "call_ok (f (tk s i))" "task_moves (tk s i) (f (tk s i))"
  shows "batch_ok (upd i f s)"
proof -
  have "channels_ok (upd i f s)" using assms by (auto simp: batch_ok_def channels_ok_def task_moves_def batch_simps)
  moreover have "pushed_ok (upd i f s)" using assms by (auto simp: batch_ok_def pushed_ok_def task_moves_def batch_simps)
  ultimately show ?thesis using assms(1-3) by (auto simp: batch_ok_def batch_simps)
qed

lemma call_ok_of: "batch_ok s \<Longrightarrow> i < ntasks s \<Longrightarrow> call_ok (tk s i)"
  by (simp add: batch_ok_def)

lemma not_given: "call_ok t \<Longrightarrow> \<not> bt_done t \<Longrightarrow> \<not> bt_given t"
  by (auto simp: call_ok_def)

lemma send_ok:
  assumes "batch_ok s" "i < ntasks s" "bt_pc (tk s i) = GSend"
  shows "batch_ok (upd i (\<lambda>t. t\<lparr>bt_pc := GEnd, bt_slot := False\<rparr>) (s\<lparr>b_doneCh := b_doneCh s @ [i]\<rparr>))"
proof -
  have "i \<notin> set (b_doneCh s)" using assms by (auto simp: batch_ok_def channels_ok_def)
  then have "channels_ok (upd i (\<lambda>t. t\<lparr>bt_pc := GEnd, bt_slot := False\<rparr>) (s\<lparr>b_doneCh := b_doneCh s @ [i]\<rparr>))"
    using assms by (auto simp: batch_ok_def channels_ok_def batch_simps)
  moreover have "pushed_ok (upd i (\<lambda>t. t\<lparr>bt_pc := GEnd, bt_slot := False\<rparr>) (s\<lparr>b_doneCh := b_doneCh s @ [i]\<rparr>))"
    using assms by (auto simp: batch_ok_def pushed_ok_def batch_simps)
  ultimately show ?thesis using assms by (auto simp: batch_ok_def call_ok_def batch_simps)
qed

lemma go_step_ok:
  assumes "batch_ok s" "go_step ev s = Some s'"
  shows "batch_ok s'"
proof (cases ev)
  case (GoStart i)
  then show ?thesis using assms call_ok_of [OF assms(1), of i] by (auto simp: call_ok_def task_moves_def split: if_splits intro!: upd_call_ok)
next
  case (GoGiveUp i)
  then show ?thesis using assms call_ok_of [OF assms(1), of i]
    by (auto simp: call_ok_def task_moves_def close_task_def split: if_splits option.splits intro!: upd_call_ok)
next
  case (GoAcquire i)
  then show ?thesis using assms call_ok_of [OF assms(1), of i] by (auto simp: call_ok_def task_moves_def split: if_splits intro!: upd_call_ok)
next
  case (GoReturn i r)
  then show ?thesis using assms call_ok_of [OF assms(1), of i] by (auto simp: call_ok_def task_moves_def close_task_def split: if_splits intro!: upd_call_ok)
next
  case (GoCheck i)
  then show ?thesis using assms call_ok_of [OF assms(1), of i] by (auto simp: call_ok_def task_moves_def split: if_splits intro!: upd_call_ok)
next
  case (GoDeliver i)
  let ?s1 = "upd i (\<lambda>t. t\<lparr>bt_pc := GSend\<rparr>) s"
  have i: "i < ntasks s" "bt_pc (tk s i) = GDeliver" "s' = deliver i ?s1" using GoDeliver assms(2) by (auto split: if_splits)
  have t: "call_ok (tk s i)" using call_ok_of [OF assms(1) i(1)] .
  have "batch_ok ?s1" using assms(1) i t by (intro upd_call_ok) (auto simp: call_ok_def task_moves_def)
  then show ?thesis using i t deliver_ok [of ?s1 i] by (auto simp: call_ok_def batch_simps)
next
  case (GoSend i)
  then show ?thesis using assms send_ok [OF assms(1), of i] by (auto split: if_splits)
qed (use assms in simp_all)

lemma ctx_step_ok:
  assumes "batch_ok s" "ctx_step ev s = Some s'"
  shows "batch_ok s'"
proof (cases ev)
  case (CtxFollows i)
  then show ?thesis using assms call_ok_of [OF assms(1), of i] by (auto simp: call_ok_def task_moves_def split: if_splits option.splits intro!: upd_call_ok)
next
  case (LimitFires i)
  then show ?thesis using assms call_ok_of [OF assms(1), of i] by (auto simp: call_ok_def task_moves_def split: if_splits option.splits intro!: upd_call_ok)
next
  case (LimitFollows i)
  then show ?thesis using assms call_ok_of [OF assms(1), of i] by (auto simp: call_ok_def task_moves_def split: if_splits option.splits intro!: upd_call_ok)
qed (use assms in \<open>auto simp: batch_simps split: if_splits\<close>)

lemma host_fields_ok:
  assumes "batch_ok s"
  shows "\<forall>h \<in> set hs. fst h < ntasks s \<and> (snd h = PDetach \<or> bt_promoted (tk s (fst h))) \<Longrightarrow> batch_ok (s\<lparr>b_hosts := hs\<rparr>)"
    "\<forall>i \<in> set ps. i < ntasks s \<and> bt_promoted (tk s i) \<Longrightarrow> batch_ok (s\<lparr>b_promoteCh := ps\<rparr>)"
  using assms by (auto simp: batch_ok_def channels_ok_def pushed_ok_def batch_simps)

lemma host_ok:
  "batch_ok s \<Longrightarrow> h \<in> set (b_hosts s) \<Longrightarrow> fst h < ntasks s \<and> (snd h = PDetach \<or> bt_promoted (tk s (fst h)))"
  by (simp add: batch_ok_def channels_ok_def)

lemma host_step_ok:
  assumes ok: "batch_ok s" and st: "host_step ev s = Some s'"
  shows "batch_ok s'"
proof (cases ev)
  case (HostPromote i)
  have "i < ntasks s" "s' = s\<lparr>b_hosts := b_hosts s @ [(i, PDetach)]\<rparr>"
    using HostPromote st ok by (auto simp: batch_ok_def channels_ok_def split: if_splits)
  then show ?thesis using host_fields_ok(1) [OF ok] host_ok [OF ok] by simp
next
  case (HostStep k)
  obtain i stage where k: "k < length (b_hosts s)" "b_hosts s ! k = (i, stage)" using HostStep st by (cases "b_hosts s ! k") (auto split: if_splits)
  have h: "i < ntasks s" "stage = PDetach \<or> bt_promoted (tk s i)" using host_ok [OF ok nth_mem [OF k(1)]] k(2) by auto
  have t: "call_ok (tk s i)" using call_ok_of [OF ok h(1)] .
  have put: "batch_ok (s\<lparr>b_hosts := (b_hosts s)[k := (i, st2)]\<rparr>)" if "bt_promoted (tk s i)" for st2
    using that h(1) host_ok [OF ok] by (intro host_fields_ok(1) [OF ok]) (auto dest!: set_update_subset_insert [THEN subsetD])
  show ?thesis
  proof (cases stage)
    case PDetach
    show ?thesis
    proof (cases "bt_promoted (tk s i)")
      case True
      then show ?thesis using HostStep st k PDetach put by auto
    next
      case False
      let ?u = "upd i (\<lambda>t. t\<lparr>bt_promoted := True\<rparr>) s"
      have u: "batch_ok ?u" using ok h t by (intro upd_call_ok) (auto simp: call_ok_def task_moves_def)
      have "s' = ?u\<lparr>b_hosts := (b_hosts s)[k := (i, PCount)]\<rparr>" using HostStep st k PDetach False by (cases s) (auto simp: upd_def)
      moreover have "batch_ok (?u\<lparr>b_hosts := (b_hosts s)[k := (i, PCount)]\<rparr>)"
        using h(1) host_ok [OF ok] by (intro host_fields_ok(1) [OF u]) (auto simp: batch_simps dest!: set_update_subset_insert [THEN subsetD])
      ultimately show ?thesis by simp
    qed
  next
    case PCount
    let ?s1 = "s\<lparr>b_hosts := (b_hosts s)[k := (i, PSignal)], b_count := b_count s + 1\<rparr>"
    have "batch_ok ?s1" using put h PCount by (simp add: batch_simps)
    then have "batch_ok (upd i set_free ?s1)" using h(1) t by (intro upd_call_ok) (auto simp: call_ok_def task_moves_def set_free_def batch_simps)
    then show ?thesis using HostStep st k PCount by simp
  next
    case PSignal
    let ?s1 = "s\<lparr>b_hosts := take k (b_hosts s) @ drop (Suc k) (b_hosts s)\<rparr>"
    have s1: "batch_ok ?s1" using host_ok [OF ok] by (intro host_fields_ok(1) [OF ok]) (auto dest: in_set_takeD in_set_dropD)
    have "batch_ok (?s1\<lparr>b_promoteCh := b_promoteCh s @ [i]\<rparr>)"
      using ok h PSignal by (intro host_fields_ok(2) [OF s1]) (auto simp: batch_ok_def channels_ok_def batch_simps)
    then have "batch_ok (upd i (\<lambda>t. t\<lparr>bt_signalled := True\<rparr>) (?s1\<lparr>b_promoteCh := b_promoteCh s @ [i]\<rparr>))"
      using h(1) t by (intro upd_call_ok) (auto simp: call_ok_def task_moves_def batch_simps)
    then show ?thesis using HostStep st k PSignal s1 by (auto simp: Let_def split: if_splits)
  qed
next
  case (HostInterrupt i)
  have "i < ntasks s" "s' = upd i (\<lambda>t. t\<lparr>bt_interrupt := True, bt_rctx := rp_Cancel (bt_rctx t)\<rparr>) s"
    using HostInterrupt st ok by (auto simp: Interrupt_def batch_ok_def channels_ok_def split: if_splits)
  then show ?thesis using ok call_ok_of [OF ok, of i] by (auto simp: call_ok_def task_moves_def intro!: upd_call_ok)
qed (use st in simp_all)


lemma results_ok: "batch_ok s \<Longrightarrow> length rs = ntasks s \<Longrightarrow> batch_ok (s\<lparr>b_results := rs\<rparr>)"
  by (simp add: batch_ok_def channels_ok_def pushed_ok_def batch_simps)

lemma doneCh_ok: "batch_ok s \<Longrightarrow> b_doneCh s = i # rest \<Longrightarrow> batch_ok (s\<lparr>b_doneCh := rest\<rparr>) \<and> i < ntasks s \<and> bt_pc (tk s i) = GEnd"
  by (auto simp: batch_ok_def channels_ok_def pushed_ok_def batch_simps)

lemma results_length: "batch_ok s \<Longrightarrow> length (b_results s) = ntasks s"
  by (simp add: batch_ok_def channels_ok_def)

lemma release_batch_ok: "batch_ok s \<Longrightarrow> batch_ok (release_batch s)"
  by (simp add: release_batch_def batch_simps)

definition cancel_rest :: "batch \<Rightarrow> batch" where
  "cancel_rest s = s\<lparr>b_tasks := map (\<lambda>t. if bt_promoted t then t else t\<lparr>bt_rctx := rp_Cancel (bt_rctx t)\<rparr>) (b_tasks s)\<rparr>"

lemma cancel_rest_tk:
  "ntasks (cancel_rest s) = ntasks s"
  "i < ntasks s \<Longrightarrow> tk (cancel_rest s) i = (if bt_promoted (tk s i) then tk s i else (tk s i)\<lparr>bt_rctx := rp_Cancel (bt_rctx (tk s i))\<rparr>)"
  by (simp_all add: cancel_rest_def ntasks_def tk_def)

lemma cancel_rest_ok: "batch_ok s \<Longrightarrow> batch_ok (cancel_rest s)"
proof -
  assume ok: "batch_ok s"
  have same: "bt_pc (tk (cancel_rest s) i) = bt_pc (tk s i) \<and> bt_promoted (tk (cancel_rest s) i) = bt_promoted (tk s i) \<and>
      bt_given (tk (cancel_rest s) i) = bt_given (tk s i) \<and> bt_result (tk (cancel_rest s) i) = bt_result (tk s i) \<and>
      bt_done (tk (cancel_rest s) i) = bt_done (tk s i) \<and> bt_ph (tk (cancel_rest s) i) = bt_ph (tk s i)" if "i < ntasks s" for i
    using that by (simp add: cancel_rest_tk)
  have f: "b_doneCh (cancel_rest s) = b_doneCh s" "b_promoteCh (cancel_rest s) = b_promoteCh s" "b_hosts (cancel_rest s) = b_hosts s"
    "b_registered (cancel_rest s) = b_registered s" "b_results (cancel_rest s) = b_results s" "b_pushed (cancel_rest s) = b_pushed s"
    by (simp_all add: cancel_rest_def)
  show ?thesis
    using ok same by (auto simp: batch_ok_def channels_ok_def pushed_ok_def call_ok_def f cancel_rest_tk(1))
qed

lemma loop_step_ok:
  assumes ok: "batch_ok s" and st: "loop_step ev s = Some s'"
  shows "batch_ok s'"
proof (cases ev)
  case LoopCtx
  then have "s' = (cancel_rest s)\<lparr>b_loop := LCancel 0\<rparr>" using st by (auto simp: cancel_rest_def split: if_splits)
  then show ?thesis using cancel_rest_ok [OF ok] by (simp add: batch_simps)
next
  case LoopPromote
  obtain i rest where c: "b_promoteCh s = i # rest" "s' = (if i \<in> set (b_registered s) then finishPromote i (s\<lparr>b_promoteCh := rest\<rparr>) else s\<lparr>b_promoteCh := rest\<rparr>)"
    using LoopPromote st by (auto split: if_splits list.splits)
  have p: "\<forall>j \<in> set (i # rest). j < ntasks s \<and> bt_promoted (tk s j)" using ok c(1) by (metis batch_ok_def channels_ok_def)
  then have "batch_ok (s\<lparr>b_promoteCh := rest\<rparr>)" by (intro host_fields_ok(2) [OF ok]) auto
  then show ?thesis using c(2) p finishPromote_ok [of "s\<lparr>b_promoteCh := rest\<rparr>" i] by (auto simp: batch_simps)
next
  case LoopDone
  then show ?thesis using st doneCh_ok [OF ok] results_length [OF ok]
    by (auto simp: batch_simps split: if_splits list.splits intro!: results_ok)
next
  case LoopTimer
  then show ?thesis using st timer_pass_ok [OF ok] by (auto split: if_splits)
next
  case LoopEnd
  then show ?thesis using st ok by (auto simp: batch_simps split: if_splits intro!: release_batch_ok)
next
  case LoopCollect
  then show ?thesis using st ok results_length [OF ok] finishPromote_ok [OF ok]
    by (auto simp: batch_simps split: if_splits wait_loop.splits intro!: results_ok)
next
  case LoopStuck
  then show ?thesis using st ok results_length [OF ok] by (auto simp: batch_simps split: if_splits wait_loop.splits intro!: results_ok)
next
  case LoopCancelled
  then show ?thesis using st ok by (auto simp: batch_simps split: if_splits wait_loop.splits intro!: release_batch_ok)
qed (use st in simp_all)

lemma batch_step_cases:
  assumes "batch_step ev s = Some s'"
  obtains "go_step ev s = Some s'" | "ctx_step ev s = Some s'" | "host_step ev s = Some s'" | "loop_step ev s = Some s'"
  using assms by (auto simp: batch_step_def split: option.splits)

lemma batch_step_ok: "batch_ok s \<Longrightarrow> batch_step ev s = Some s' \<Longrightarrow> batch_ok s'"
  by (elim batch_step_cases) (auto intro: go_step_ok ctx_step_ok host_step_ok loop_step_ok)

lemma batch_run_keeps:
  assumes "P s" "\<And>s ev s'. P s \<Longrightarrow> batch_step ev s = Some s' \<Longrightarrow> P s'" "batch_run evs s = Some s'"
  shows "P s'"
  using assms(1,3) by (induction evs arbitrary: s) (auto simp: bind_eq_Some_conv intro: assms(2))

lemma serial_prevs_length [simp]: "length (serial_prevs i p bs) = length bs"
  by (induction bs arbitrary: i p) simp_all

lemma launch_all_nth:
  "length ps = length calls \<Longrightarrow> length (launch_all e pa now calls ps) = length calls \<and>
    (\<forall>i < length calls. launch_all e pa now calls ps ! i = launch e pa now (snd (calls ! i)) (fst (calls ! i)) (ps ! i))"
proof (induction e pa now calls ps rule: launch_all.induct)
  case (1 e pa now c i cs p ps)
  then show ?case by (auto simp: nth_Cons split: nat.splits)
qed auto

lemma start_batch_tk:
  "ntasks (start_batch e ctl pa now calls) = length calls"
  "i < length calls \<Longrightarrow> tk (start_batch e ctl pa now calls) i =
     launch e pa now (snd (calls ! i)) (fst (calls ! i)) (serial_prevs 0 None (map (is_serial e \<circ> fst) calls) ! i)"
  using launch_all_nth [of "serial_prevs 0 None (map (is_serial e \<circ> fst) calls)" calls e pa now]
  by (simp_all add: start_batch_def ntasks_def tk_def Let_def)

lemma start_batch_ok: "batch_ok (start_batch e ctl pa now calls)"
proof -
  have f: "b_doneCh (start_batch e ctl pa now calls) = []" "b_promoteCh (start_batch e ctl pa now calls) = []" "b_hosts (start_batch e ctl pa now calls) = []"
    "b_registered (start_batch e ctl pa now calls) = [0..<length calls]" "length (b_results (start_batch e ctl pa now calls)) = length calls"
    "b_pushed (start_batch e ctl pa now calls) = []"
    by (simp_all add: start_batch_def Let_def)
  show ?thesis by (auto simp: batch_ok_def channels_ok_def pushed_ok_def call_ok_def f start_batch_tk launch_def)
qed


section \<open>Results of the batch\<close>

text \<open>A result is collected when the notice of its end has been read and the call was not promoted.\<close>

definition got :: "batch \<Rightarrow> nat \<Rightarrow> bool" where
  "got s i \<longleftrightarrow> bt_pc (tk s i) = GEnd \<and> i \<notin> set (b_doneCh s) \<and> \<not> bt_promoted (tk s i)"

definition unsettled :: "batch \<Rightarrow> nat set" where "unsettled s = {i. i < ntasks s \<and> \<not> bt_ph (tk s i) \<and> \<not> got s i}"

definition stuck_result :: "batch \<Rightarrow> nat \<Rightarrow> engine_result" where
  "stuck_result s i = failed_result (tc_id (bt_call (tk s i))) stuck_text"

definition settled :: "batch \<Rightarrow> nat \<Rightarrow> bool" where
  "settled s i \<longleftrightarrow> bt_ph (tk s i) \<or> \<not> bt_promoted (tk s i) \<and> bt_done (tk s i) \<and> b_results s ! i = bt_result (tk s i) \<or>
     b_ctx s \<noteq> None \<and> b_results s ! i = stuck_result s i"

definition wait_ok :: "batch \<Rightarrow> bool" where
  "wait_ok s \<longleftrightarrow> (\<forall>i < ntasks s. bt_ph (tk s i) \<longrightarrow> b_results s ! i = placeholderResult (tk s i)) \<and>
     (case b_loop s of
        LWait \<Rightarrow> b_pending s = int (card (unsettled s)) \<and> (\<forall>i < ntasks s. got s i \<longrightarrow> b_results s ! i = bt_result (tk s i))
      | LCancel k \<Rightarrow> k \<le> ntasks s \<and> b_ctx s \<noteq> None \<and> (\<forall>j < k. settled s j)
      | LReturned \<Rightarrow> \<forall>j < ntasks s. settled s j)"

definition alike :: "batch \<Rightarrow> batch \<Rightarrow> nat \<Rightarrow> bool" where
  "alike s s' i \<longleftrightarrow> bt_ph (tk s' i) = bt_ph (tk s i) \<and> got s' i = got s i \<and>
     bt_call (tk s' i) = bt_call (tk s i) \<and> bt_taskID (tk s' i) = bt_taskID (tk s i) \<and>
     (bt_done (tk s i) \<longrightarrow> bt_done (tk s' i) \<and> bt_result (tk s' i) = bt_result (tk s i) \<and> (\<not> bt_promoted (tk s i) \<longrightarrow> \<not> bt_promoted (tk s' i)))"

lemma got_done: "batch_ok s \<Longrightarrow> i < ntasks s \<Longrightarrow> got s i \<Longrightarrow> bt_done (tk s i) \<and> \<not> bt_promoted (tk s i)"
  using call_ok_of [of s i] by (auto simp: got_def call_ok_def)

lemma wait_ok_cong:
  assumes "wait_ok s" "batch_ok s" "ntasks s' = ntasks s" "b_loop s' = b_loop s" "b_pending s' = b_pending s" "b_results s' = b_results s"
    "b_ctx s \<noteq> None \<longrightarrow> b_ctx s' \<noteq> None" "\<And>i. i < ntasks s \<Longrightarrow> alike s s' i"
  shows "wait_ok s'"
proof -
  have u: "unsettled s' = unsettled s" using assms(3,8) by (auto simp: unsettled_def alike_def)
  have old: "\<forall>i < ntasks s. bt_ph (tk s i) \<longrightarrow> b_results s ! i = placeholderResult (tk s i)" using assms(1) by (simp add: wait_ok_def)
  have ph: "\<forall>i < ntasks s'. bt_ph (tk s' i) \<longrightarrow> b_results s' ! i = placeholderResult (tk s' i)"
  proof (intro allI impI)
    fix i assume i: "i < ntasks s'" "bt_ph (tk s' i)"
    have "alike s s' i" using assms(3,8) i(1) by simp
    then show "b_results s' ! i = placeholderResult (tk s' i)" using old i assms(3,6) by (simp add: alike_def placeholderResult_def)
  qed
  have g: "b_results s' ! i = bt_result (tk s' i)" if "b_loop s = LWait" "i < ntasks s'" "got s' i" for i
  proof -
    have i: "i < ntasks s" "alike s s' i" using assms(3,8) that(2) by simp_all
    then have "got s i" using that(3) by (simp add: alike_def)
    then show ?thesis using i that(1) assms(1,6) got_done [OF assms(2) i(1)] by (simp add: wait_ok_def alike_def)
  qed
  have st: "settled s' i" if "settled s i" "i < ntasks s" for i
    using that assms(6,7) assms(8) [OF that(2)] by (auto simp: settled_def alike_def stuck_result_def)
  show ?thesis
  proof (cases "b_loop s")
    case LWait
    then show ?thesis using assms(1,4,5) u ph g by (simp add: wait_ok_def)
  next
    case (LCancel k)
    then have "k \<le> ntasks s" "b_ctx s \<noteq> None" "\<forall>j < k. settled s j" using assms(1) by (simp_all add: wait_ok_def)
    then show ?thesis using LCancel assms(3,4,7) ph st by (simp add: wait_ok_def)
  next
    case LReturned
    then show ?thesis using assms(1,3,4) ph st by (simp add: wait_ok_def)
  qed
qed

lemma upd_wait:
  assumes "wait_ok s" "batch_ok s" "i < ntasks s" "bt_ph (f (tk s i)) = bt_ph (tk s i)" "bt_call (f (tk s i)) = bt_call (tk s i)"
    "bt_taskID (f (tk s i)) = bt_taskID (tk s i)"
    "bt_done (tk s i) \<longrightarrow> bt_done (f (tk s i)) \<and> bt_result (f (tk s i)) = bt_result (tk s i) \<and> bt_promoted (f (tk s i)) = bt_promoted (tk s i)"
    "bt_pc (f (tk s i)) = bt_pc (tk s i) \<or> bt_pc (tk s i) \<noteq> GEnd \<and> bt_pc (f (tk s i)) \<noteq> GEnd"
  shows "wait_ok (upd i f s)"
proof (rule wait_ok_cong [OF assms(1,2)])
  fix j assume j: "j < ntasks s"
  have "bt_pc (tk s i) = GEnd \<longrightarrow> bt_done (tk s i)" using call_ok_of [OF assms(2,3)] by (auto simp: call_ok_def)
  then have "got (upd i f s) j = got s j" using assms(3,7,8) by (auto simp: got_def batch_simps)
  then show "alike s (upd i f s) j" using assms(3-7) by (auto simp: alike_def batch_simps)
qed (simp_all add: batch_simps)

lemma deliver_wait: "wait_ok s \<Longrightarrow> batch_ok s \<Longrightarrow> i < ntasks s \<Longrightarrow> wait_ok (deliver i s)"
  by (rule wait_ok_cong [of s]) (auto simp: deliver_def taskDone_def Let_def alike_def got_def batch_simps)

lemma put_placeholder_wait:
  assumes "wait_ok s" "batch_ok s" "i < ntasks s" "bt_promoted (tk s i)" "b_loop s = LWait \<or> b_loop s = LCancel i"
  shows "wait_ok (put_placeholder i s)"
proof (cases "bt_ph (tk s i)")
  case True
  then show ?thesis using assms(1) by (simp add: put_placeholder_def)
next
  case False
  let ?s = "put_placeholder i s"
  have t: "tk ?s j = (if i = j then (tk s i)\<lparr>bt_ph := True\<rparr> else tk s j)" for j using assms(3) False by (simp add: put_placeholder_def batch_simps)
  have f: "b_results ?s = (b_results s)[i := placeholderResult (tk s i)]" "b_pending ?s = b_pending s - 1" "b_loop ?s = b_loop s" "b_ctx ?s = b_ctx s"
    "ntasks ?s = ntasks s" "b_doneCh ?s = b_doneCh s"
    using False by (simp_all add: put_placeholder_def batch_simps)
  have len: "length (b_results s) = ntasks s" using results_length [OF assms(2)] .
  have g: "got ?s j = got s j" for j by (simp add: got_def t f)
  have i: "i \<in> unsettled s" using False assms(3,4) by (simp add: unsettled_def got_def)
  have u: "unsettled ?s = unsettled s - {i}" by (auto simp: unsettled_def t f g)
  have fin: "finite (unsettled s)" by (simp add: unsettled_def)
  have "0 < card (unsettled s)" using i fin by (auto simp: card_gt_0_iff)
  then have c: "int (card (unsettled ?s)) = int (card (unsettled s)) - 1" using i fin u by simp
  have ph: "\<forall>j < ntasks ?s. bt_ph (tk ?s j) \<longrightarrow> b_results ?s ! j = placeholderResult (tk ?s j)"
    using assms(1) len by (auto simp: wait_ok_def t f nth_list_update placeholderResult_def)
  have gi: "\<not> got s i" using assms(4) by (simp add: got_def)
  have st: "settled ?s j" if "settled s j" "j \<noteq> i" for j
    using that by (auto simp: settled_def t f stuck_result_def)
  show ?thesis
    using assms(1,5) ph c gi st f len g by (auto simp: wait_ok_def t nth_list_update)
qed

lemma finishPromote_wait:
  assumes "wait_ok s" "batch_ok s" "i < ntasks s" "bt_promoted (tk s i)" "b_loop s = LWait \<or> b_loop s = LCancel i"
  shows "wait_ok (finishPromote i s)"
proof -
  have "i < ntasks (put_placeholder i s)" using put_placeholder_frame [OF assms(3)] assms(3) by (simp add: same_frame_def)
  then show ?thesis using put_placeholder_wait [OF assms] put_placeholder_ok [OF assms(2-4)] deliver_wait
    by (auto simp: finishPromote_split)
qed

lemma markPromoted_wait:
  assumes "wait_ok s" "batch_ok s" "i < ntasks s" "\<not> bt_done (tk s i)"
  shows "wait_ok (markPromoted i s)"
proof (rule wait_ok_cong [OF assms(1,2)])
  fix j assume "j < ntasks s"
  have "bt_pc (tk s i) \<noteq> GEnd" using call_ok_of [OF assms(2,3)] assms(4) by (auto simp: call_ok_def)
  then show "alike s (markPromoted i s) j"
    using assms(3,4) by (auto simp: alike_def got_def markPromoted_def detach_def set_free_def batch_simps)
qed (auto simp: markPromoted_def detach_def batch_simps)

text \<open>A call is moved to the background in time if it has not ended yet.\<close>

fun in_time :: "batch_event \<Rightarrow> batch \<Rightarrow> bool" where
  "in_time (HostStep k) s = (k < length (b_hosts s) \<and> snd (b_hosts s ! k) = PDetach \<longrightarrow>
     bt_promoted (tk s (fst (b_hosts s ! k))) \<or> \<not> bt_done (tk s (fst (b_hosts s ! k))))"
| "in_time LoopTimer s = (\<forall>i < ntasks s. overdue s i \<longrightarrow> \<not> bt_done (tk s i))"
| "in_time _ s = True"

fun run_in_time :: "batch_event list \<Rightarrow> batch \<Rightarrow> bool" where
  "run_in_time [] s = True"
| "run_in_time (ev # evs) s = (in_time ev s \<and> (case batch_step ev s of Some s' \<Rightarrow> run_in_time evs s' | None \<Rightarrow> True))"

lemma timer_wait:
  assumes "wait_ok s" "batch_ok s" "b_loop s = LWait" "\<forall>i < ntasks s. overdue s i \<longrightarrow> \<not> bt_done (tk s i)"
  shows "wait_ok (timer_pass s)"
proof -
  define P where "P s \<longleftrightarrow> wait_ok s \<and> batch_ok s \<and> b_loop s = LWait \<and> (\<forall>i < ntasks s. overdue s i \<longrightarrow> \<not> bt_done (tk s i))" for s
  have "P (timer_one i s)" if p: "P s" and i: "i < ntasks s" for i s
  proof -
    have f: "same_frame s (timer_one i s)" by (rule timer_one_frame [OF i])
    have m: "same_frame s (markPromoted i s)" by (rule markPromoted_frame [OF i])
    have "wait_ok (timer_one i s)"
      using p i markPromoted_wait [of s i] markPromoted_ok [of s i] markPromoted_promotes [OF i] finishPromote_wait [of "markPromoted i s" i] m
      by (auto simp: P_def timer_one_def same_frame_def)
    moreover have "overdue s j" if "overdue (timer_one i s) j" for j
      using that f by (auto simp: overdue_def same_frame_def same_task_def split: option.splits)
    ultimately show ?thesis using p i f timer_one_ok [of s i] by (auto simp: P_def same_frame_def same_task_def)
  qed
  then have "P (fold timer_one [0..<ntasks s] s) \<and> same_frame s (fold timer_one [0..<ntasks s] s)"
    using assms by (intro timer_fold_keeps) (auto simp: P_def)
  then show ?thesis by (simp add: timer_pass_fold P_def)
qed


lemma go_wait:
  assumes w: "wait_ok s" and ok: "batch_ok s" and st: "go_step ev s = Some s'"
  shows "wait_ok s'"
proof (cases ev)
  case (GoStart i)
  then show ?thesis using st by (auto split: if_splits intro!: upd_wait [OF w ok])
next
  case (GoGiveUp i)
  then show ?thesis using st call_ok_of [OF ok, of i]
    by (auto simp: close_task_def call_ok_def split: if_splits option.splits intro!: upd_wait [OF w ok])
next
  case (GoAcquire i)
  then show ?thesis using st by (auto split: if_splits intro!: upd_wait [OF w ok])
next
  case (GoReturn i r)
  then show ?thesis using st call_ok_of [OF ok, of i] by (auto simp: close_task_def call_ok_def split: if_splits intro!: upd_wait [OF w ok])
next
  case (GoCheck i)
  then show ?thesis using st by (auto split: if_splits intro!: upd_wait [OF w ok])
next
  case (GoDeliver i)
  let ?s1 = "upd i (\<lambda>t. t\<lparr>bt_pc := GSend\<rparr>) s"
  have i: "i < ntasks s" "bt_pc (tk s i) = GDeliver" "s' = deliver i ?s1" using GoDeliver st by (auto split: if_splits)
  have "wait_ok ?s1" using i by (intro upd_wait [OF w ok]) auto
  moreover have "batch_ok ?s1" using ok i call_ok_of [OF ok i(1)] by (intro upd_call_ok) (auto simp: call_ok_def task_moves_def)
  ultimately show ?thesis using i deliver_wait [of ?s1 i] by (simp add: batch_simps)
next
  case (GoSend i)
  then have i: "i < ntasks s" "bt_pc (tk s i) = GSend"
    "s' = upd i (\<lambda>t. t\<lparr>bt_pc := GEnd, bt_slot := False\<rparr>) (s\<lparr>b_doneCh := b_doneCh s @ [i]\<rparr>)" using st by (auto split: if_splits)
  show ?thesis unfolding i(3)
  proof (rule wait_ok_cong [OF w ok])
    fix j assume "j < ntasks s"
    show "alike s (upd i (\<lambda>t. t\<lparr>bt_pc := GEnd, bt_slot := False\<rparr>) (s\<lparr>b_doneCh := b_doneCh s @ [i]\<rparr>)) j"
      using i(1,2) by (auto simp: alike_def got_def batch_simps)
  qed (simp_all add: batch_simps)
qed (use st in simp_all)

lemma ctx_wait:
  assumes w: "wait_ok s" and ok: "batch_ok s" and st: "ctx_step ev s = Some s'"
  shows "wait_ok s'"
proof (cases ev)
  case (CtxEnds err)
  have "wait_ok (s\<lparr>b_ctx := Some err\<rparr>)" by (rule wait_ok_cong [OF w ok]) (simp_all add: alike_def got_def batch_simps)
  then show ?thesis using CtxEnds st by (simp split: if_splits)
next
  case (CtxFollows i)
  then show ?thesis using st by (auto split: if_splits option.splits intro!: upd_wait [OF w ok])
next
  case (LimitFires i)
  then show ?thesis using st by (auto split: if_splits option.splits intro!: upd_wait [OF w ok])
next
  case (LimitFollows i)
  then show ?thesis using st by (auto split: if_splits option.splits intro!: upd_wait [OF w ok])
next
  case (Clock d)
  have "wait_ok (s\<lparr>b_now := b_now s + d\<rparr>)" by (rule wait_ok_cong [OF w ok]) (simp_all add: alike_def got_def batch_simps)
  then show ?thesis using Clock st by (simp split: if_splits)
qed (use st in simp_all)

lemma hosts_wait: "wait_ok s \<Longrightarrow> batch_ok s \<Longrightarrow> wait_ok (s\<lparr>b_hosts := hs\<rparr>)"
  by (rule wait_ok_cong [of s]) (simp_all add: alike_def got_def batch_simps)

lemma promoteCh_wait: "wait_ok s \<Longrightarrow> batch_ok s \<Longrightarrow> wait_ok (s\<lparr>b_promoteCh := ps\<rparr>)"
  by (rule wait_ok_cong [of s]) (simp_all add: alike_def got_def batch_simps)

lemma upd_alike:
  assumes "wait_ok s" "batch_ok s" "ntasks s1 = ntasks s" "b_loop s1 = b_loop s" "b_pending s1 = b_pending s" "b_results s1 = b_results s"
    "b_ctx s1 = b_ctx s" "b_doneCh s1 = b_doneCh s" "tk s1 = tk s" "i < ntasks s"
    "bt_ph (f (tk s i)) = bt_ph (tk s i)" "bt_call (f (tk s i)) = bt_call (tk s i)" "bt_taskID (f (tk s i)) = bt_taskID (tk s i)"
    "bt_pc (f (tk s i)) = bt_pc (tk s i)" "bt_done (f (tk s i)) = bt_done (tk s i)" "bt_result (f (tk s i)) = bt_result (tk s i)"
    "bt_promoted (f (tk s i)) = bt_promoted (tk s i) \<or> \<not> bt_done (tk s i)"
  shows "wait_ok (upd i f s1)"
proof (rule wait_ok_cong [OF assms(1,2)])
  fix j assume "j < ntasks s"
  have "bt_pc (tk s i) = GEnd \<longrightarrow> bt_done (tk s i)" using call_ok_of [OF assms(2,10)] by (auto simp: call_ok_def)
  then show "alike s (upd i f s1) j" using assms(3,8-17) by (auto simp: alike_def got_def batch_simps)
qed (use assms(3-8) in \<open>simp_all add: batch_simps\<close>)

lemma host_wait:
  assumes w: "wait_ok s" and ok: "batch_ok s" and st: "host_step ev s = Some s'" and t: "in_time ev s"
  shows "wait_ok s'"
proof (cases ev)
  case (HostPromote i)
  then show ?thesis using st hosts_wait [OF w ok] by (auto split: if_splits)
next
  case (HostStep k)
  obtain i stage where k: "k < length (b_hosts s)" "b_hosts s ! k = (i, stage)" using HostStep st by (cases "b_hosts s ! k") (auto split: if_splits)
  have i: "i < ntasks s" using host_ok [OF ok nth_mem [OF k(1)]] k(2) by auto
  show ?thesis
  proof (cases stage)
    case PDetach
    show ?thesis
    proof (cases "bt_promoted (tk s i)")
      case True
      then show ?thesis using HostStep st k PDetach hosts_wait [OF w ok] by auto
    next
      case False
      then have "\<not> bt_done (tk s i)" using t HostStep k PDetach by simp
      then show ?thesis using HostStep st k PDetach False i by (auto simp: batch_simps intro!: upd_alike [OF w ok])
    qed
  next
    case PCount
    then show ?thesis using HostStep st k i by (auto simp: batch_simps set_free_def intro!: upd_alike [OF w ok])
  next
    case PSignal
    then show ?thesis using HostStep st k i hosts_wait [OF w ok] by (auto simp: batch_simps Let_def split: if_splits intro!: upd_alike [OF w ok])
  qed
next
  case (HostInterrupt i)
  have "i < ntasks s" "s' = upd i (\<lambda>t. t\<lparr>bt_interrupt := True, bt_rctx := rp_Cancel (bt_rctx t)\<rparr>) s"
    using HostInterrupt st ok by (auto simp: Interrupt_def batch_ok_def channels_ok_def split: if_splits)
  then show ?thesis by (auto intro!: upd_alike [OF w ok])
qed (use st in simp_all)


lemma release_wait: "wait_ok s \<Longrightarrow> wait_ok (release_batch s)"
  by (cases "b_loop s") (auto simp: release_batch_def wait_ok_def unsettled_def settled_def got_def stuck_result_def batch_simps)

lemma all_settled:
  assumes "wait_ok s" "batch_ok s" "b_loop s = LWait" "b_pending s \<le> 0" "j < ntasks s"
  shows "settled s j"
proof -
  have "finite (unsettled s)" by (simp add: unsettled_def)
  then have "unsettled s = {}" using assms(1,3,4) by (simp add: wait_ok_def)
  then have "bt_ph (tk s j) \<or> got s j" using assms(5) by (auto simp: unsettled_def)
  then show ?thesis using assms(1,3,5) got_done [OF assms(2,5)] by (auto simp: settled_def wait_ok_def)
qed

lemma collect_wait:
  assumes w: "wait_ok s" and ok: "batch_ok s" and c: "b_doneCh s = i # rest" "b_loop s = LWait" "\<not> bt_promoted (tk s i)"
  shows "wait_ok (s\<lparr>b_doneCh := rest, b_results := (b_results s)[i := bt_result (tk s i)], b_pending := b_pending s - 1\<rparr>)"
proof -
  let ?s = "s\<lparr>b_doneCh := rest, b_results := (b_results s)[i := bt_result (tk s i)], b_pending := b_pending s - 1\<rparr>"
  have i: "i < ntasks s" "bt_pc (tk s i) = GEnd" "i \<notin> set rest" using ok c(1) by (auto simp: batch_ok_def channels_ok_def)
  have ph: "\<not> bt_ph (tk s i)" using call_ok_of [OF ok i(1)] c(3) by (auto simp: call_ok_def)
  have g: "got ?s j = (got s j \<or> j = i)" for j using c i by (auto simp: got_def batch_simps)
  have u: "unsettled ?s = unsettled s - {i}" by (auto simp: unsettled_def g batch_simps)
  have mem: "i \<in> unsettled s" "finite (unsettled s)" using i ph c(1) by (auto simp: unsettled_def got_def)
  then have "0 < card (unsettled s)" by (auto simp: card_gt_0_iff)
  then have "int (card (unsettled ?s)) = int (card (unsettled s)) - 1" using mem u by simp
  then show ?thesis
    using w c(2) ph i(1) results_length [OF ok] g by (auto simp: wait_ok_def nth_list_update batch_simps)
qed

lemma cancel_rest_wait: "wait_ok s \<Longrightarrow> batch_ok s \<Longrightarrow> wait_ok (cancel_rest s)"
  by (rule wait_ok_cong [of s]) (auto simp: cancel_rest_tk alike_def got_def, auto simp: cancel_rest_def)

lemma set_result_wait:
  assumes w: "wait_ok s" and k: "b_loop s = LCancel k" "k < ntasks s" "batch_ok s" "\<not> bt_promoted (tk s k)"
    and r: "bt_done (tk s k) \<and> r = bt_result (tk s k) \<or> r = stuck_result s k"
  shows "wait_ok (s\<lparr>b_results := (b_results s)[k := r], b_loop := LCancel (Suc k)\<rparr>)"
proof -
  let ?s = "s\<lparr>b_results := (b_results s)[k := r], b_loop := LCancel (Suc k)\<rparr>"
  have ctx: "b_ctx s \<noteq> None" "\<forall>j < k. settled s j" using w k(1) by (simp_all add: wait_ok_def)
  have ph: "\<not> bt_ph (tk s k)" using call_ok_of [OF k(3,2)] k(4) by (auto simp: call_ok_def)
  have "settled ?s j" if "j < Suc k" for j
    using that ctx r k(4) results_length [OF k(3)] k(2) by (auto simp: settled_def stuck_result_def nth_list_update less_Suc_eq batch_simps)
  then show ?thesis using w k(1,2) ctx(1) ph results_length [OF k(3)] by (auto simp: wait_ok_def nth_list_update batch_simps)
qed

lemma loop_wait:
  assumes w: "wait_ok s" and ok: "batch_ok s" and st: "loop_step ev s = Some s'" and t: "in_time ev s"
  shows "wait_ok s'"
proof (cases ev)
  case LoopCtx
  then have s': "s' = (cancel_rest s)\<lparr>b_loop := LCancel 0\<rparr>" "b_ctx s \<noteq> None" using st by (auto simp: cancel_rest_def split: if_splits)
  have "b_ctx (cancel_rest s) = b_ctx s" by (simp add: cancel_rest_def)
  then show ?thesis using cancel_rest_wait [OF w ok] s' by (simp add: wait_ok_def batch_simps)
next
  case LoopPromote
  obtain i rest where c: "b_promoteCh s = i # rest" "s' = (if i \<in> set (b_registered s) then finishPromote i (s\<lparr>b_promoteCh := rest\<rparr>) else s\<lparr>b_promoteCh := rest\<rparr>)" "b_loop s = LWait"
    using LoopPromote st by (auto split: if_splits list.splits)
  have p: "\<forall>j \<in> set (i # rest). j < ntasks s \<and> bt_promoted (tk s j)" using ok c(1) by (metis batch_ok_def channels_ok_def)
  then have "batch_ok (s\<lparr>b_promoteCh := rest\<rparr>)" by (intro host_fields_ok(2) [OF ok]) auto
  then show ?thesis using c p promoteCh_wait [OF w ok, of rest] finishPromote_wait [of "s\<lparr>b_promoteCh := rest\<rparr>" i] by (auto simp: batch_simps)
next
  case LoopDone
  obtain i rest where c: "b_doneCh s = i # rest" "b_loop s = LWait"
    "s' = (if bt_promoted (tk s i) then s\<lparr>b_doneCh := rest\<rparr>
           else s\<lparr>b_doneCh := rest, b_results := (b_results s)[i := bt_result (tk s i)], b_pending := b_pending s - 1\<rparr>)"
    using LoopDone st by (auto split: if_splits list.splits)
  show ?thesis
  proof (cases "bt_promoted (tk s i)")
    case True
    have "wait_ok (s\<lparr>b_doneCh := rest\<rparr>)"
      by (rule wait_ok_cong [OF w ok]) (use True c(1) in \<open>auto simp: alike_def got_def batch_simps\<close>)
    then show ?thesis using True c(3) by simp
  next
    case False
    then show ?thesis using collect_wait [OF w ok c(1,2)] c(3) by simp
  qed
next
  case LoopTimer
  then show ?thesis using st t timer_wait [OF w ok] by (auto split: if_splits)
next
  case LoopEnd
  then have s': "s' = release_batch (s\<lparr>b_loop := LReturned\<rparr>)" "b_loop s = LWait" "b_pending s \<le> 0" using st by (auto split: if_splits)
  have "settled (s\<lparr>b_loop := LReturned\<rparr>) j" if "j < ntasks s" for j
    using all_settled [OF w ok s'(2,3) that] by (simp add: settled_def stuck_result_def batch_simps)
  then have "wait_ok (s\<lparr>b_loop := LReturned\<rparr>)" using w by (auto simp: wait_ok_def batch_simps)
  then show ?thesis using s'(1) release_wait by simp
next
  case LoopCollect
  then obtain k where k: "b_loop s = LCancel k" "k < ntasks s" using st by (auto split: wait_loop.splits if_splits)
  show ?thesis
  proof (cases "bt_promoted (tk s k)")
    case True
    let ?f = "finishPromote k s"
    have f: "wait_ok ?f" "same_frame s ?f" using finishPromote_wait [OF w ok k(2) True] finishPromote_frame [OF k(2)] k(1) by auto
    have "bt_ph (tk ?f k)" using k(2) by (auto simp: finishPromote_split put_placeholder_def deliver_def taskDone_def Let_def batch_simps)
    then have "settled ?f j" if "j < Suc k" for j using that f k by (auto simp: wait_ok_def same_frame_def settled_def less_Suc_eq)
    then have "\<forall>j < Suc k. settled (?f\<lparr>b_loop := LCancel (Suc k)\<rparr>) j" by (simp add: settled_def stuck_result_def batch_simps)
    then have "wait_ok (?f\<lparr>b_loop := LCancel (Suc k)\<rparr>)" using f k by (auto simp: wait_ok_def same_frame_def batch_simps)
    then show ?thesis using LoopCollect st k True by simp
  next
    case False
    then show ?thesis using LoopCollect st k ok set_result_wait [OF w k(1,2) ok False] by (auto split: if_splits)
  qed
next
  case LoopStuck
  then obtain k where k: "b_loop s = LCancel k" "k < ntasks s" "\<not> bt_promoted (tk s k)"
    "s' = s\<lparr>b_results := (b_results s)[k := stuck_result s k], b_loop := LCancel (Suc k)\<rparr>" using st by (auto simp: stuck_result_def split: wait_loop.splits if_splits)
  then show ?thesis using set_result_wait [OF w k(1,2) ok k(3)] by simp
next
  case LoopCancelled
  then obtain k where k: "b_loop s = LCancel k" "k = ntasks s" "s' = release_batch (s\<lparr>b_loop := LReturned\<rparr>)" using st by (auto split: wait_loop.splits if_splits)
  then have "wait_ok (s\<lparr>b_loop := LReturned\<rparr>)" using w by (auto simp: wait_ok_def settled_def stuck_result_def batch_simps)
  then show ?thesis using k(3) release_wait by simp
qed (use st in simp_all)

lemma start_wait: "wait_ok (start_batch e ctl pa now calls)"
proof -
  let ?s = "start_batch e ctl pa now calls"
  have t: "\<not> bt_ph (tk ?s i) \<and> \<not> got ?s i" if "i < length calls" for i using that by (simp add: start_batch_tk launch_def got_def)
  then have "unsettled ?s = {i. i < length calls}" by (auto simp: unsettled_def start_batch_tk)
  moreover have "b_loop ?s = LWait" "b_pending ?s = int (length calls)" by (simp_all add: start_batch_def Let_def)
  ultimately show ?thesis using t by (auto simp: wait_ok_def start_batch_tk)
qed

lemma batch_step_wait: "wait_ok s \<Longrightarrow> batch_ok s \<Longrightarrow> batch_step ev s = Some s' \<Longrightarrow> in_time ev s \<Longrightarrow> wait_ok s'"
  by (elim batch_step_cases) (auto intro: go_wait ctx_wait host_wait loop_wait)

lemma batch_run_wait:
  "wait_ok s \<Longrightarrow> batch_ok s \<Longrightarrow> run_in_time evs s \<Longrightarrow> batch_run evs s = Some s' \<Longrightarrow> wait_ok s'"
proof (induction evs arbitrary: s)
  case (Cons ev evs)
  obtain s1 where s1: "batch_step ev s = Some s1" "batch_run evs s1 = Some s'" using Cons.prems(4) by (auto simp: bind_eq_Some_conv)
  have "in_time ev s" "run_in_time evs s1" using Cons.prems(3) s1(1) by auto
  then show ?case using Cons.IH [OF batch_step_wait [OF Cons.prems(1,2) s1(1)] batch_step_ok [OF Cons.prems(2) s1(1)]] s1(2) by simp
qed simp

text \<open>What never changes: the calls, their order and their limits.\<close>

definition statics :: "batch \<Rightarrow> (tool_call \<times> string \<times> bool \<times> nat option \<times> int) list \<times> bool \<times> int" where
  "statics s = (map (\<lambda>t. (bt_call t, bt_taskID t, bt_serial t, bt_prev t, bt_auto t)) (b_tasks s), b_ctl s, b_cap s)"

lemma statics_frame: "same_frame s s' \<Longrightarrow> statics s' = statics s"
proof -
  assume f: "same_frame s s'"
  have "length (b_tasks s') = length (b_tasks s)" using f by (simp add: same_frame_def ntasks_def)
  moreover have "\<forall>i < length (b_tasks s). same_task (b_tasks s ! i) (b_tasks s' ! i)" using f by (simp add: same_frame_def tk_def)
  ultimately show ?thesis using f by (auto simp: statics_def same_frame_def same_task_def intro!: nth_equalityI)
qed

lemma statics_upd:
  "bt_call (f (tk s i)) = bt_call (tk s i) \<Longrightarrow> bt_taskID (f (tk s i)) = bt_taskID (tk s i) \<Longrightarrow> bt_serial (f (tk s i)) = bt_serial (tk s i) \<Longrightarrow>
   bt_prev (f (tk s i)) = bt_prev (tk s i) \<Longrightarrow> bt_auto (f (tk s i)) = bt_auto (tk s i) \<Longrightarrow> statics (upd i f s) = statics s"
  by (cases "i < length (b_tasks s)") (auto simp: statics_def upd_def tk_def map_update list_update_same_conv list_update_beyond)

lemma statics_fields [batch_simps]:
  "statics (s\<lparr>b_results := a\<rparr>) = statics s" "statics (s\<lparr>b_pending := n\<rparr>) = statics s" "statics (s\<lparr>b_loop := w\<rparr>) = statics s"
  "statics (s\<lparr>b_count := n\<rparr>) = statics s" "statics (s\<lparr>b_hosts := h\<rparr>) = statics s" "statics (s\<lparr>b_doneCh := l\<rparr>) = statics s" "statics (s\<lparr>b_promoteCh := l\<rparr>) = statics s"
  "statics (s\<lparr>b_ctx := x\<rparr>) = statics s" "statics (s\<lparr>b_now := n\<rparr>) = statics s" "statics (s\<lparr>b_released := r\<rparr>) = statics s" "statics (maybeIdle s) = statics s"
  "statics (release_batch s) = statics s"
  by (simp_all add: statics_def release_batch_def batch_simps)

lemma go_statics: "batch_ok s \<Longrightarrow> go_step ev s = Some s' \<Longrightarrow> statics s' = statics s"
proof (cases ev)
  case (GoDeliver i)
  assume "batch_ok s" "go_step ev s = Some s'"
  then have i: "i < ntasks s" "s' = deliver i (upd i (\<lambda>t. t\<lparr>bt_pc := GSend\<rparr>) s)" using GoDeliver by (auto split: if_splits)
  then show ?thesis using statics_frame [OF deliver_frame, of i "upd i (\<lambda>t. t\<lparr>bt_pc := GSend\<rparr>) s"] by (simp add: statics_upd batch_simps)
qed (auto simp: batch_simps close_task_def split: if_splits option.splits intro!: statics_upd [THEN trans])

lemma ctx_statics: "ctx_step ev s = Some s' \<Longrightarrow> statics s' = statics s"
  by (cases ev) (auto simp: batch_simps split: if_splits option.splits intro!: statics_upd [THEN trans])

lemma host_statics: "host_step ev s = Some s' \<Longrightarrow> statics s' = statics s"
  by (cases ev) (auto simp: batch_simps Interrupt_def set_free_def Let_def split: if_splits prod.splits promote_stage.splits intro!: statics_upd [THEN trans])

lemma cancel_rest_statics: "statics (cancel_rest s) = statics s"
  by (auto simp: statics_def cancel_rest_def)

lemma loop_statics:
  assumes ok: "batch_ok s" and st: "loop_step ev s = Some s'"
  shows "statics s' = statics s"
proof (cases ev)
  case LoopCtx
  then show ?thesis using st cancel_rest_statics [of s] by (auto simp: cancel_rest_def statics_def split: if_splits)
next
  case LoopPromote
  obtain i rest where c: "b_promoteCh s = i # rest" "s' = (if i \<in> set (b_registered s) then finishPromote i (s\<lparr>b_promoteCh := rest\<rparr>) else s\<lparr>b_promoteCh := rest\<rparr>)"
    using LoopPromote st by (auto split: if_splits list.splits)
  have "i < ntasks s" using ok c(1) by (auto simp: batch_ok_def channels_ok_def)
  then show ?thesis using c(2) statics_frame [OF finishPromote_frame, of i "s\<lparr>b_promoteCh := rest\<rparr>"] by (simp add: batch_simps)
next
  case LoopTimer
  then show ?thesis using st statics_frame timer_pass_ok [OF ok] by (auto split: if_splits)
next
  case LoopCollect
  then show ?thesis using st statics_frame [OF finishPromote_frame] by (auto simp: batch_simps split: wait_loop.splits if_splits)
qed (use st in \<open>auto simp: batch_simps split: if_splits list.splits wait_loop.splits\<close>)

lemma batch_step_statics: "batch_ok s \<Longrightarrow> batch_step ev s = Some s' \<Longrightarrow> statics s' = statics s"
  by (elim batch_step_cases) (auto dest: go_statics ctx_statics host_statics loop_statics)

lemma batch_run_ok:
  assumes "batch_ok s" "batch_run evs s = Some s'"
  shows "batch_ok s' \<and> statics s' = statics s"
proof (rule batch_run_keeps [of "\<lambda>x. batch_ok x \<and> statics x = statics s", OF _ _ assms(2)])
  show "batch_ok s \<and> statics s = statics s" using assms(1) by simp
  show "batch_ok s2 \<and> statics s2 = statics s" if "batch_ok s1 \<and> statics s1 = statics s" "batch_step ev s1 = Some s2" for s1 ev s2
    using that batch_step_ok [of s1 ev s2] batch_step_statics [of s1 ev s2] by simp
qed

lemma ntasks_statics: "statics s' = statics s \<Longrightarrow> ntasks s' = ntasks s"
  by (auto simp: statics_def ntasks_def dest: map_eq_imp_length_eq)

lemma batch_run_start:
  assumes "batch_run evs (start_batch e ctl pa now calls) = Some s"
  shows "batch_ok s" "ntasks s = length calls" "statics s = statics (start_batch e ctl pa now calls)"
  using batch_run_ok [OF start_batch_ok assms] ntasks_statics [of s] by (simp_all add: start_batch_tk)

end
