(* ===== verification/BatchRuns.thy ===== *)
theory BatchRuns
  imports ToolBatch
begin

text \<open>
  Runs of a batch of tool calls: what arrives from the background, what moving a call there protects it
  from, the order of serial calls, and runs in which the bookkeeping of \<open>tools/engine.go\<close> and
  \<open>tools/task.go\<close> goes wrong.
\<close>

section \<open>Runs of two serial calls\<close>

definition serial_engine :: engine where
  "serial_engine = RegisterTool ((sample_tool ''edit'' None)\<lparr>et_CanParallel := False\<rparr>) (NewToolEngine (\<lambda>_ _. None) (\<lambda>_ _. []) (\<lambda>s. s))"

definition batch_calls :: "(tool_call \<times> string) list" where
  "batch_calls = [(sample_call ''a'' ''edit'', ''t1''), (sample_call ''b'' ''edit'', ''t2'')]"

definition two_start :: "int \<Rightarrow> batch" where "two_start after = start_batch serial_engine True after 0 batch_calls"

definition two_task :: "int \<Rightarrow> string \<Rightarrow> string \<Rightarrow> nat option \<Rightarrow> batch_task" where
  "two_task after i tid prev =
     \<lparr>bt_taskID = tid, bt_call = sample_call i ''edit'', bt_serial = True, bt_prev = prev, bt_auto = after, bt_pc = GWaitPrev, bt_slot = False, bt_done = False,
      bt_result = blank_result [], bt_promoted = False, bt_interrupt = False, bt_ph = False, bt_signalled = False, bt_given = False, bt_started = None,
      bt_rctx = NewReparentable, bt_lb = Some (newLiftableTimeout 0 300000000000)\<rparr>"

lemma serial_GetTool: "GetTool serial_engine ''edit'' = Inr ((sample_tool ''edit'' None)\<lparr>et_CanParallel := False\<rparr>)"
  by (simp add: GetTool_def serial_engine_def RegisterTool_def NewToolEngine_def sample_tool_def)

lemma two_start_explicit:
  "two_start after = \<lparr>b_tasks = [two_task after ''a'' ''t1'' None, two_task after ''b'' ''t2'' (Some 0)], b_ctl = True, b_cap = 8, b_loop = LWait, b_pending = 2,
     b_results = [blank_result ''a'', blank_result ''b''], b_doneCh = [], b_promoteCh = [], b_promoted_events = [], b_registered = [0, 1], b_count = 0,
     b_released = False, b_idle = 0, b_pushed = [], b_hosts = [], b_ctx = None, b_now = 0\<rparr>"
proof -
  have n: "tc_name (sample_call i ''edit'') = ''edit''" "tc_id (sample_call i ''edit'') = i" for i by (simp_all add: sample_call_def)
  have e: "en_toolTimeout serial_engine = 300000000000" "en_maxParallel serial_engine = 8"
    by (simp_all add: serial_engine_def RegisterTool_def NewToolEngine_def defaultToolTimeout_def)
  have l: "launch serial_engine after 0 tid (sample_call i ''edit'') prev = two_task after i tid prev" for i tid prev
    by (simp add: launch_def two_task_def is_serial_def auto_after_def timeoutFor_def n e serial_GetTool sample_tool_def)
  have "is_serial serial_engine (sample_call i ''edit'')" for i by (simp add: is_serial_def n serial_GetTool)
  then show ?thesis by (simp add: two_start_def start_batch_def batch_calls_def l n e upt_rec)
qed

lemmas batch_eval = two_start_explicit batch_step_def upd_def tk_def ntasks_def close_task_def slots_used_def overdue_def timer_pass_def markPromoted_def
  detach_def set_free_def finishPromote_def deliver_def taskDone_def maybeIdle_def release_batch_def Let_def two_task_def Interrupt_def upt_rec
  NewReparentable_def rp_Cancel_def rp_cancel_def rp_Detach_def newLiftableTimeout_def lt_lift_def lt_stop_def

lemma all_less_two: "(\<forall>i < Suc (Suc 0). P i) \<longleftrightarrow> P 0 \<and> P (Suc 0)"
  by (auto simp: less_Suc_eq)

lemma batch_step_ctx: "batch_ok s \<Longrightarrow> batch_step ev s = Some s' \<Longrightarrow> b_ctx s \<noteq> None \<Longrightarrow> b_ctx s' \<noteq> None"
proof (elim batch_step_cases)
  assume "batch_ok s" "go_step ev s = Some s'" "b_ctx s \<noteq> None"
  then show "b_ctx s' \<noteq> None" by (cases ev) (auto simp: deliver_def taskDone_def Let_def batch_simps split: if_splits option.splits)
next
  assume "ctx_step ev s = Some s'" "b_ctx s \<noteq> None"
  then show "b_ctx s' \<noteq> None" by (cases ev) (auto simp: batch_simps split: if_splits option.splits)
next
  assume "host_step ev s = Some s'" "b_ctx s \<noteq> None"
  then show "b_ctx s' \<noteq> None" by (cases ev) (auto simp: Interrupt_def Let_def batch_simps split: if_splits prod.splits promote_stage.splits)
next
  assume "batch_ok s" "loop_step ev s = Some s'" "b_ctx s \<noteq> None"
  moreover have "b_ctx (finishPromote i s) = b_ctx s" for i s
    by (simp add: finishPromote_def deliver_def taskDone_def Let_def batch_simps)
  ultimately show "b_ctx s' \<noteq> None" using timer_pass_ok [of s]
    by (cases ev) (auto simp: release_batch_def same_frame_def batch_simps split: if_splits list.splits wait_loop.splits)
qed

text \<open>A batch that waits for a call nobody will report.\<close>

definition hung :: "batch \<Rightarrow> bool" where
  "hung s \<longleftrightarrow> (\<forall>i < ntasks s. bt_pc (tk s i) = GEnd \<and> bt_done (tk s i) \<and> bt_auto (tk s i) \<le> 0) \<and> b_doneCh s = [] \<and> b_promoteCh s = [] \<and> b_hosts s = [] \<and>
     b_loop s = LWait \<and> 0 < b_pending s"

lemma hung_step:
  assumes "hung s" "batch_ok s" "batch_step ev s = Some s'"
  shows "hung s' \<or> b_ctx s' \<noteq> None"
proof (cases "b_ctx s = None")
  case True
  have reg: "\<forall>i \<in> set (b_registered s). i < ntasks s" using assms(2) by (simp add: batch_ok_def channels_ok_def)
  show ?thesis using assms(3)
  proof (cases rule: batch_step_cases)
    case 1
    then show ?thesis using assms(1) by (cases ev) (auto simp: hung_def split: if_splits)
  next
    case 2
    then show ?thesis using assms(1) True by (cases ev) (auto simp: hung_def batch_simps split: if_splits option.splits)
  next
    case 3
    then show ?thesis using assms(1) reg by (cases ev) (auto simp: hung_def Interrupt_def split: if_splits)
  next
    case 4
    then show ?thesis using assms(1) True by (cases ev) (auto simp: hung_def overdue_def split: if_splits)
  qed
next
  case False
  then show ?thesis using batch_step_ctx [OF assms(2,3)] by simp
qed

lemma hung_run: "hung s \<or> b_ctx s \<noteq> None \<Longrightarrow> batch_ok s \<Longrightarrow> batch_run evs s = Some s' \<Longrightarrow> hung s' \<or> b_ctx s' \<noteq> None"
proof (induction evs arbitrary: s)
  case (Cons ev evs)
  obtain s1 where s1: "batch_step ev s = Some s1" "batch_run evs s1 = Some s'" using Cons.prems(3) by (auto simp: bind_eq_Some_conv)
  have "hung s1 \<or> b_ctx s1 \<noteq> None" using Cons.prems(1,2) hung_step [OF _ _ s1(1)] batch_step_ctx [OF _ s1(1)] by blast
  then show ?case using Cons.IH batch_step_ok [OF Cons.prems(2) s1(1)] s1(2) by blast
qed simp

definition slow_reader :: "engine_result \<Rightarrow> engine_result \<Rightarrow> batch_event list" where
  "slow_reader r1 r2 = [GoStart 0, GoAcquire 0, HostPromote 0, HostStep 0, HostStep 0, HostStep 0, GoReturn 0 r1, GoCheck 0, GoDeliver 0, GoSend 0, LoopPromote, LoopDone,
     GoStart 1, GoAcquire 1, GoReturn 1 r2, GoCheck 1, GoSend 1, LoopDone]"

lemma slow_reader_run:
  "\<exists>s. batch_run (slow_reader r1 r2) (two_start 0) = Some s \<and> hung s \<and> b_ctx s = None \<and> map fst (b_pushed s) = [0]"
  by (simp add: slow_reader_def batch_eval hung_def all_less_two) 


text \<open>C23. Defect of the hand-over: a call that was moved to the background and ends before the loop has read the
  signal is delivered and taken off the register, so the signal finds nothing, no placeholder is put and the
  call is waited for although all calls have ended: the batch returns only if its context is cancelled.\<close>

theorem early_delivery_hangs_the_batch:
  "\<exists>evs s. batch_run evs (two_start 0) = Some s \<and> bt_pc (tk s 0) = GEnd \<and> bt_pc (tk s 1) = GEnd \<and> b_ctx s = None \<and>
     (\<forall>evs'. case batch_run evs' s of Some s' \<Rightarrow> b_loop s' = LWait \<or> (\<exists>err. b_ctx s' = Some err) | None \<Rightarrow> True)"
proof -
  obtain s where s: "batch_run (slow_reader r1 r2) (two_start 0) = Some s" "hung s" "b_ctx s = None" using slow_reader_run [of r1 r2] by blast
  have ok: "batch_ok s" and n: "ntasks s = 2" using batch_run_start [OF s(1) [unfolded two_start_def]] by (simp_all add: batch_calls_def)
  have "bt_pc (tk s 0) = GEnd" "bt_pc (tk s 1) = GEnd" using s(2) n by (simp_all add: hung_def)
  moreover have "case batch_run evs' s of Some s' \<Rightarrow> b_loop s' = LWait \<or> (\<exists>err. b_ctx s' = Some err) | None \<Rightarrow> True" for evs'
  proof (cases "batch_run evs' s")
    case (Some s')
    then show ?thesis using hung_run [of s evs' s'] ok s(2) by (auto simp: hung_def)
  qed simp
  ultimately show ?thesis using s by blast
qed

text \<open>A batch that has returned while the controller still counts a call whose goroutine has ended.\<close>

definition abandoned :: "nat \<Rightarrow> batch \<Rightarrow> bool" where
  "abandoned i s \<longleftrightarrow> (\<forall>j < ntasks s. bt_pc (tk s j) = GEnd \<and> bt_done (tk s j)) \<and> b_loop s = LReturned \<and> b_hosts s = [] \<and> i \<in> set (batch_Snapshot s) \<and>
     b_idle s = 0 \<and> i \<notin> fst ` set (b_pushed s)"

lemma abandoned_step:
  assumes "abandoned i s" "batch_ok s" "batch_step ev s = Some s'"
  shows "abandoned i s'"
proof -
  have reg: "\<forall>i \<in> set (b_registered s). i < ntasks s" using assms(2) by (simp add: batch_ok_def channels_ok_def)
  show ?thesis using assms(3)
  proof (cases rule: batch_step_cases)
    case 1
    then show ?thesis using assms(1) by (cases ev) (auto simp: abandoned_def split: if_splits)
  next
    case 2
    then show ?thesis using assms(1) by (cases ev) (auto simp: abandoned_def batch_Snapshot_def batch_simps split: if_splits option.splits)
  next
    case 3
    then show ?thesis using assms(1) reg by (cases ev) (auto simp: abandoned_def Interrupt_def split: if_splits)
  next
    case 4
    then show ?thesis using assms(1) by (cases ev) (auto simp: abandoned_def split: if_splits)
  qed
qed

lemma abandoned_run: "abandoned i s \<Longrightarrow> batch_ok s \<Longrightarrow> batch_run evs s = Some s' \<Longrightarrow> abandoned i s'"
  by (induction evs arbitrary: s) (auto simp: bind_eq_Some_conv dest: abandoned_step batch_step_ok)

definition stop_queued :: "engine_result \<Rightarrow> batch_event list" where
  "stop_queued r = [GoStart 0, GoAcquire 0, HostPromote 1, HostStep 0, HostStep 0, HostStep 0, LoopPromote, HostInterrupt 1, GoGiveUp 1, GoSend 1, LoopDone,
     GoReturn 0 r, GoCheck 0, GoSend 0, LoopDone, LoopEnd]"

lemma stop_queued_run: "\<exists>s. batch_run (stop_queued r) (two_start 0) = Some s \<and> abandoned 1 s \<and> bt_interrupt (tk s 1)"
  by (simp add: stop_queued_def batch_eval abandoned_def batch_Snapshot_def all_less_two)

text \<open>Defect of the precise interruption: a call in the background that is interrupted while it still waits for
  its turn ends without being delivered. Its end is never reported, the controller is never given back, and the
  call stays in the list of running background calls for ever.\<close>

theorem stopped_waiting_call_is_never_reported:
  "\<exists>evs s. batch_run evs (two_start 0) = Some s \<and> b_loop s = LReturned \<and> bt_pc (tk s 1) = GEnd \<and> bt_interrupt (tk s 1) \<and>
     (\<forall>evs'. case batch_run evs' s of Some s' \<Rightarrow> 1 \<in> set (batch_Snapshot s') \<and> 1 \<notin> fst ` set (b_pushed s') \<and> b_idle s' = 0 | None \<Rightarrow> True)"
proof -
  obtain s where s: "batch_run (stop_queued r) (two_start 0) = Some s" "abandoned 1 s" "bt_interrupt (tk s 1)" using stop_queued_run [of r] by blast
  have ok: "batch_ok s" and n: "ntasks s = 2" using batch_run_start [OF s(1) [unfolded two_start_def]] by (simp_all add: batch_calls_def)
  have "bt_pc (tk s 1) = GEnd" "b_loop s = LReturned" using s(2) n by (simp_all add: abandoned_def)
  moreover have "case batch_run evs' s of Some s' \<Rightarrow> 1 \<in> set (batch_Snapshot s') \<and> 1 \<notin> fst ` set (b_pushed s') \<and> b_idle s' = 0 | None \<Rightarrow> True" for evs'
  proof (cases "batch_run evs' s")
    case (Some s')
    then show ?thesis using abandoned_run [OF s(2) ok] by (simp add: abandoned_def)
  qed simp
  ultimately show ?thesis using s by blast
qed

text \<open>The first of the two batches of a round gives the controller back although the second goes on to use it.\<close>

lemma controller_is_closed_between_batches:
  "\<exists>evs s s2 evs2 s3. batch_run evs (two_start 0) = Some s \<and> b_loop s = LReturned \<and> next_batch serial_engine 0 batch_calls s = Some s2 \<and>
     batch_run evs2 s2 = Some s3 \<and> b_idle s3 = 1 \<and> batch_Snapshot s3 = [0] \<and> bt_pc (tk s3 0) = GRunning"
proof -
  let ?e = "[GoStart 0, GoAcquire 0, GoReturn 0 (blank_result []), GoCheck 0, GoSend 0, LoopDone, GoStart 1, GoAcquire 1, GoReturn 1 (blank_result []), GoCheck 1, GoSend 1, LoopDone, LoopEnd]"
  obtain s where s: "batch_run ?e (two_start 0) = Some s" "b_loop s = LReturned" "b_count s = 0" "b_released s" "b_idle s = 1" "b_ctx s = None" "b_ctl s" "b_now s = 0"
    by (simp add: batch_eval)
  have nx: "next_batch serial_engine 0 batch_calls s = Some ((two_start 0)\<lparr>b_released := True, b_idle := 1\<rparr>)"
    using s by (simp add: next_batch_def two_start_def) (simp add: start_batch_def Let_def)
  have "\<exists>s3. batch_run [GoStart 0, GoAcquire 0, HostPromote 0, HostStep 0, HostStep 0, HostStep 0, LoopPromote] ((two_start 0)\<lparr>b_released := True, b_idle := 1\<rparr>) = Some s3
      \<and> b_idle s3 = 1 \<and> batch_Snapshot s3 = [0] \<and> bt_pc (tk s3 0) = GRunning"
    by (simp add: batch_eval batch_Snapshot_def)
  then show ?thesis using s nx by blast
qed

section \<open>What arrives from the background\<close>

text \<open>C19. Whatever the order of steps, the result of a call is handed to the host at most once, only for a call
  that was moved to the background and has ended, and it is the result that its tool has returned.\<close>

theorem background_results_arrive_once:
  assumes "batch_run evs (start_batch e ctl pa now calls) = Some s" "(i, r, byUser) \<in> set (b_pushed s)"
  shows "i < length calls \<and> bt_promoted (tk s i) \<and> bt_done (tk s i) \<and> r = bt_result (tk s i) \<and> distinct (map fst (b_pushed s))"
proof -
  note ok = batch_run_start [OF assms(1)]
  have "i < ntasks s \<and> bt_given (tk s i) \<and> r = bt_result (tk s i)" "distinct (map fst (b_pushed s))"
    using ok(1) assms(2) by (auto simp: batch_ok_def pushed_ok_def)
  then show ?thesis using call_ok_of [OF ok(1), of i] ok(2) by (auto simp: call_ok_def)
qed

theorem background_results_arrive_once_witness:
  "\<exists>s. batch_run (slow_reader (blank_result []) (blank_result [])) (two_start 0) = Some s \<and> bt_promoted (tk s 0) \<and> bt_done (tk s 0)"
proof -
  obtain s where s: "batch_run (slow_reader (blank_result []) (blank_result [])) (two_start 0) = Some s" "map fst (b_pushed s) = [0]"
    using slow_reader_run [of "blank_result []" "blank_result []"] by (elim exE conjE) (rule that)
  obtain r b where m: "(0, r, b) \<in> set (b_pushed s)" using s(2) by (cases "b_pushed s") auto
  have "bt_promoted (tk s 0)" "bt_done (tk s 0)" using background_results_arrive_once [OF s(1) [unfolded two_start_def] m] by blast+
  then show ?thesis using s(1) by (intro exI [of _ s] conjI)
qed

section \<open>What the batch answers\<close>

text \<open>C17. If calls are moved to the background only while they run, a batch that returns answers every call with
  what its tool has returned, or, for a call in the background, with the placeholder that names its task; only
  after a cancellation a call that does not react is answered as stuck.\<close>

theorem batch_answers_every_call:
  assumes "batch_run evs (start_batch e ctl pa now calls) = Some s" "run_in_time evs (start_batch e ctl pa now calls)"
    and "b_loop s = LReturned" "i < length calls"
  shows "bt_promoted (tk s i) \<and> b_results s ! i = placeholderResult (tk s i) \<or>
    \<not> bt_promoted (tk s i) \<and> bt_done (tk s i) \<and> b_results s ! i = bt_result (tk s i) \<or>
    b_ctx s \<noteq> None \<and> b_results s ! i = stuck_result s i"
proof -
  have w: "wait_ok s" using batch_run_wait [OF start_wait start_batch_ok assms(2,1)] .
  note ok = batch_run_start(1) [OF assms(1)] and n = batch_run_start(2) [OF assms(1)]
  show ?thesis using w assms(3,4) n call_ok_of [OF ok, of i] by (auto simp: wait_ok_def settled_def call_ok_def)
qed

definition plain_events :: "batch_event list" where
  "plain_events = [GoStart 0, GoAcquire 0, GoReturn 0 (blank_result ''x''), GoCheck 0, GoSend 0, LoopDone, GoStart 1, GoAcquire 1, HostPromote 1, HostStep 0, HostStep 0, HostStep 0,
     LoopPromote, LoopEnd]"

lemma promoted_second_run: "\<exists>s. batch_run plain_events (two_start 0) = Some s \<and> b_loop s = LReturned \<and> b_ctx s = None \<and> bt_promoted (tk s 1) \<and> \<not> bt_promoted (tk s 0)"
  by (simp add: plain_events_def batch_eval)

lemma plain_run_in_time: "run_in_time plain_events (two_start 0)"
  by (simp add: plain_events_def batch_eval)

theorem batch_answers_every_call_witness:
  "\<exists>s. batch_run plain_events (two_start 0) = Some s \<and> b_results s ! 0 = bt_result (tk s 0) \<and> b_results s ! 1 = placeholderResult (tk s 1)"
proof -
  obtain s where s: "batch_run plain_events (two_start 0) = Some s" "b_loop s = LReturned" "b_ctx s = None" "bt_promoted (tk s 1)" "\<not> bt_promoted (tk s 0)"
    using promoted_second_run by blast
  show ?thesis
    using batch_answers_every_call [OF s(1) [unfolded two_start_def] plain_run_in_time [unfolded two_start_def] s(2), of 0]
      batch_answers_every_call [OF s(1) [unfolded two_start_def] plain_run_in_time [unfolded two_start_def] s(2), of 1] s
    by (simp add: batch_calls_def)
qed

section \<open>What a call in the background is protected from\<close>

text \<open>Detached, with its limit lifted, and neither of its contexts ended.\<close>

definition at_liberty :: "batch_task \<Rightarrow> bool" where
  "at_liberty t \<longleftrightarrow> bt_promoted t \<and> rp_detached (bt_rctx t) \<and> rp_err (bt_rctx t) = None \<and>
     (case bt_lb t of None \<Rightarrow> True | Some l \<Rightarrow> lt_lifted l \<and> lt_err l = None)"

lemma deliver_liberty: "j < ntasks s \<Longrightarrow> at_liberty (tk (deliver j s) i) = at_liberty (tk s i)"
  by (auto simp: deliver_def taskDone_def Let_def at_liberty_def batch_simps)

lemma finishPromote_liberty: "j < ntasks s \<Longrightarrow> at_liberty (tk s i) \<Longrightarrow> at_liberty (tk (finishPromote j s) i)"
proof -
  assume j: "j < ntasks s" and i: "at_liberty (tk s i)"
  have "j < ntasks (put_placeholder j s)" using put_placeholder_frame [OF j] j by (simp add: same_frame_def)
  moreover have "at_liberty (tk (put_placeholder j s) i)" using j i by (auto simp: put_placeholder_def at_liberty_def batch_simps)
  ultimately show ?thesis using deliver_liberty by (simp add: finishPromote_split)
qed

lemma markPromoted_liberty: "j < ntasks s \<Longrightarrow> at_liberty (tk s i) \<Longrightarrow> at_liberty (tk (markPromoted j s) i)"
  by (auto simp: markPromoted_def detach_def set_free_def rp_Detach_def lt_lift_def at_liberty_def batch_simps split: option.splits)

lemma timer_liberty: "batch_ok s \<Longrightarrow> at_liberty (tk s i) \<Longrightarrow> at_liberty (tk (timer_pass s) i)"
proof -
  assume "batch_ok s" "at_liberty (tk s i)"
  moreover have "at_liberty (tk (timer_one j s) i)" if "at_liberty (tk s i)" "j < ntasks s" for j s
  proof -
    have "j < ntasks (markPromoted j s)" using markPromoted_frame [OF that(2)] that(2) by (simp add: same_frame_def)
    then show ?thesis using that finishPromote_liberty markPromoted_liberty by (auto simp: timer_one_def)
  qed
  ultimately show ?thesis unfolding timer_pass_fold using timer_fold_keeps [of "\<lambda>s. at_liberty (tk s i)" s "[0..<ntasks s]"] by simp
qed

lemma liberty_step:
  assumes ok: "batch_ok s" and t: "at_liberty (tk s i)" "i < ntasks s" and st: "batch_step ev s = Some s'" and no: "ev \<noteq> HostInterrupt i"
  shows "at_liberty (tk s' i)"
  using st
proof (cases rule: batch_step_cases)
  case 1
  show ?thesis
  proof (cases ev)
    case (GoDeliver j)
    then have j: "j < ntasks s" "s' = deliver j (upd j (\<lambda>t. t\<lparr>bt_pc := GSend\<rparr>) s)" using 1 by (auto split: if_splits)
    then show ?thesis using t deliver_liberty [of j "upd j (\<lambda>t. t\<lparr>bt_pc := GSend\<rparr>) s" i] by (auto simp: at_liberty_def batch_simps)
  qed (use 1 t in \<open>auto simp: at_liberty_def close_task_def lt_stop_def batch_simps split: if_splits option.splits\<close>)
next
  case 2
  then show ?thesis using t
    by (cases ev) (auto simp: at_liberty_def rp_parent_done_def lt_fire_def lt_parent_done_def closeDone_def batch_simps split: if_splits option.splits)
next
  case 3
  have h: "fst (b_hosts s ! k) < ntasks s" if "k < length (b_hosts s)" for k using host_ok [OF ok nth_mem [OF that]] by simp
  have reg: "\<forall>i \<in> set (b_registered s). i < ntasks s" using ok by (simp add: batch_ok_def channels_ok_def)
  show ?thesis
  proof (cases ev)
    case (HostStep k)
    then show ?thesis using 3 t h [of k]
      by (auto simp: at_liberty_def set_free_def rp_Detach_def lt_lift_def Let_def batch_simps split: if_splits prod.splits promote_stage.splits option.splits)
  next
    case (HostInterrupt j)
    then show ?thesis using 3 t reg no by (auto simp: at_liberty_def Interrupt_def batch_simps split: if_splits)
  qed (use 3 t in \<open>auto simp: batch_simps split: if_splits\<close>)
next
  case 4
  show ?thesis
  proof (cases ev)
    case LoopCtx
    then have "s' = (cancel_rest s)\<lparr>b_loop := LCancel 0\<rparr>" using 4 by (auto simp: cancel_rest_def split: if_splits)
    then show ?thesis using t by (auto simp: cancel_rest_tk at_liberty_def batch_simps)
  next
    case LoopPromote
    obtain j rest where c: "b_promoteCh s = j # rest" "s' = (if j \<in> set (b_registered s) then finishPromote j (s\<lparr>b_promoteCh := rest\<rparr>) else s\<lparr>b_promoteCh := rest\<rparr>)"
      using LoopPromote 4 by (auto split: if_splits list.splits)
    have "j < ntasks s" using ok c(1) by (auto simp: batch_ok_def channels_ok_def)
    then show ?thesis using c(2) t finishPromote_liberty [of j "s\<lparr>b_promoteCh := rest\<rparr>" i] by (auto simp: batch_simps)
  next
    case LoopTimer
    then show ?thesis using 4 t timer_liberty [OF ok] by (auto split: if_splits)
  next
    case LoopCollect
    then show ?thesis using 4 t finishPromote_liberty by (auto simp: batch_simps split: wait_loop.splits if_splits)
  qed (use 4 t in \<open>auto simp: release_batch_def batch_simps split: if_splits list.splits wait_loop.splits\<close>)
qed

lemma liberty_run:
  "batch_ok s \<Longrightarrow> at_liberty (tk s i) \<Longrightarrow> i < ntasks s \<Longrightarrow> batch_run evs s = Some s' \<Longrightarrow> HostInterrupt i \<notin> set evs \<Longrightarrow> at_liberty (tk s' i)"
proof (induction evs arbitrary: s)
  case (Cons ev evs)
  obtain s1 where s1: "batch_step ev s = Some s1" "batch_run evs s1 = Some s'" using Cons.prems(4) by (auto simp: bind_eq_Some_conv)
  note ok = batch_step_ok [OF Cons.prems(1) s1(1)]
  have "i < ntasks s1" using ntasks_statics [OF batch_step_statics [OF Cons.prems(1) s1(1)]] Cons.prems(3) by simp
  then show ?case using Cons.IH [OF ok liberty_step [OF Cons.prems(1,2,3) s1(1)] _ s1(2)] Cons.prems(5) by auto
qed simp

text \<open>The contexts of a call have not ended.\<close>

definition contexts_live :: "batch_task \<Rightarrow> bool" where
  "contexts_live t \<longleftrightarrow> rp_err (bt_rctx t) = None \<and> (case bt_lb t of None \<Rightarrow> True | Some l \<Rightarrow> lt_err l = None)"

lemma timer_one_waiting:
  assumes j: "j < ntasks s" and i: "contexts_live (tk s i)" "overdue s i" "i \<noteq> j"
  shows "contexts_live (tk (timer_one j s) i) \<and> overdue (timer_one j s) i"
proof -
  have m: "j < ntasks (markPromoted j s)" using markPromoted_frame [OF j] j by (simp add: same_frame_def)
  have p: "j < ntasks (put_placeholder j (markPromoted j s))" using put_placeholder_frame [OF m] m by (simp add: same_frame_def)
  have 1: "tk (markPromoted j s) i = tk s i" "b_now (markPromoted j s) = b_now s" using j i(3) by (auto simp: markPromoted_def detach_def batch_simps)
  have 2: "tk (put_placeholder j (markPromoted j s)) i = tk s i" "b_now (put_placeholder j (markPromoted j s)) = b_now s"
    using m i(3) 1 by (auto simp: put_placeholder_def batch_simps)
  have 3: "tk (deliver j (put_placeholder j (markPromoted j s))) i = tk s i" "b_now (deliver j (put_placeholder j (markPromoted j s))) = b_now s"
    using p i(3) 2 by (auto simp: deliver_def taskDone_def Let_def batch_simps)
  have "tk (finishPromote j (markPromoted j s)) i = tk s i" "b_now (finishPromote j (markPromoted j s)) = b_now s"
    using 2 3 by (simp_all add: finishPromote_split)
  then have "tk (timer_one j s) i = tk s i" "b_now (timer_one j s) = b_now s" by (simp_all add: timer_one_def)
  then show ?thesis using i(1,2) by (auto simp: overdue_def split: option.splits)
qed

lemma timer_one_frees:
  assumes i: "i < ntasks s" "contexts_live (tk s i)" "overdue s i"
  shows "at_liberty (tk (timer_one i s) i)"
proof -
  have m: "i < ntasks (markPromoted i s)" using markPromoted_frame [OF i(1)] i(1) by (simp add: same_frame_def)
  have "\<not> bt_promoted (tk s i)" using i(3) by (simp add: overdue_def)
  then have "at_liberty (tk (markPromoted i s) i)" using i(1,2)
    by (auto simp: markPromoted_def detach_def set_free_def rp_Detach_def lt_lift_def contexts_live_def at_liberty_def batch_simps split: option.splits)
  then show ?thesis using finishPromote_liberty [OF m] i(3) by (simp add: timer_one_def)
qed

lemma timer_frees:
  assumes i: "i < ntasks s" "contexts_live (tk s i)" "overdue s i"
  shows "at_liberty (tk (timer_pass s) i)"
proof -
  have l: "[0..<ntasks s] = [0..<i] @ i # [Suc i..<ntasks s]"
    using i(1) by (metis upt_conv_Cons upt_add_eq_append le_add1 less_imp_add_positive plus_nat.add_0 zero_le)
  define s1 where "s1 = fold timer_one [0..<i] s"
  have 1: "fold timer_one [0..<m] s = t \<Longrightarrow> m \<le> i \<Longrightarrow> ntasks t = ntasks s \<and> contexts_live (tk t i) \<and> overdue t i" for m t
  proof (induction m arbitrary: t)
    case (Suc m)
    let ?t = "fold timer_one [0..<m] s"
    have t: "ntasks ?t = ntasks s" "contexts_live (tk ?t i)" "overdue ?t i" using Suc by simp_all
    have m: "m < ntasks ?t" "i \<noteq> m" using Suc.prems(2) i(1) t(1) by simp_all
    have "t = timer_one m ?t" using Suc.prems(1) by simp
    then show ?case using timer_one_waiting [OF m(1) t(2,3) m(2)] timer_one_frame [OF m(1)] t(1) by (simp add: same_frame_def)
  qed (use i in simp)
  have s1: "ntasks s1 = ntasks s" "contexts_live (tk s1 i)" "overdue s1 i" using 1 [of i s1] by (simp_all add: s1_def)
  have f: "at_liberty (tk (timer_one i s1) i)" "ntasks (timer_one i s1) = ntasks s"
    using timer_one_frees [of i s1] timer_one_frame [of i s1] s1 i(1) by (simp_all add: same_frame_def)
  have "at_liberty (tk (timer_one j t) i)" if "at_liberty (tk t i)" "j < ntasks t" for j t
  proof -
    have "j < ntasks (markPromoted j t)" using markPromoted_frame [OF that(2)] that(2) by (simp add: same_frame_def)
    then show ?thesis using that finishPromote_liberty markPromoted_liberty by (auto simp: timer_one_def)
  qed
  then have "at_liberty (tk (fold timer_one [Suc i..<ntasks s] (timer_one i s1)) i)"
    using timer_fold_keeps [of "\<lambda>t. at_liberty (tk t i)" "timer_one i s1" "[Suc i..<ntasks s]"] f by simp
  then show ?thesis by (simp add: timer_pass_fold l s1_def)
qed

text \<open>The step that sets a call free: the host has set the flag and detaches the call, or the timer moves a call that is due.\<close>

definition frees :: "batch_event \<Rightarrow> batch \<Rightarrow> nat \<Rightarrow> bool" where
  "frees ev s i \<longleftrightarrow>
     (case ev of
        HostStep k \<Rightarrow> k < length (b_hosts s) \<and> b_hosts s ! k = (i, PCount)
      | LoopTimer \<Rightarrow> i < ntasks s \<and> overdue s i
      | _ \<Rightarrow> False)"

text \<open>C20. A call in the background outlives the run, from the step on that detaches it: if none of its contexts has ended
  when the host's promotion detaches it or when the timer moves it, then neither the end of the context of the
  batch, nor its own time limit, nor the cancellation of the other calls ends one of them afterwards; only the host's
  interruption of this very call does.\<close>

theorem background_call_outlives_the_run:
  assumes "batch_run evs (start_batch e ctl pa now calls) = Some s" "frees ev s i" "contexts_live (tk s i)"
    and "batch_step ev s = Some s1" "batch_run evs' s1 = Some s2" "HostInterrupt i \<notin> set evs'"
  shows "rp_err (bt_rctx (tk s2 i)) = None \<and> (\<forall>l \<in> set_option (bt_lb (tk s2 i)). lt_err l = None \<and> lt_Deadline parent l = None)"
proof -
  note ok = batch_run_start(1) [OF assms(1)]
  have "i < ntasks s \<and> at_liberty (tk s1 i)"
  proof (cases ev)
    case (HostStep k)
    then have k: "k < length (b_hosts s)" "b_hosts s ! k = (i, PCount)" using assms(2) by (simp_all add: frees_def)
    have i: "i < ntasks s" "bt_promoted (tk s i)" using host_ok [OF ok nth_mem [OF k(1)]] k(2) by auto
    have "s1 = upd i set_free (s\<lparr>b_hosts := (b_hosts s)[k := (i, PSignal)], b_count := b_count s + 1\<rparr>)"
      using assms(4) HostStep k by (simp add: batch_step_def)
    then show ?thesis using i assms(3)
      by (auto simp: at_liberty_def contexts_live_def set_free_def rp_Detach_def lt_lift_def batch_simps split: option.splits)
  next
    case LoopTimer
    then have i: "i < ntasks s" "overdue s i" using assms(2) by (simp_all add: frees_def)
    have "s1 = timer_pass s" using assms(4) LoopTimer by (auto simp: batch_step_def split: if_splits)
    then show ?thesis using timer_frees [OF i(1) assms(3) i(2)] i(1) by simp
  qed (use assms(2) in \<open>simp_all add: frees_def\<close>)
  moreover have "ntasks s1 = ntasks s" using ntasks_statics [OF batch_step_statics [OF ok assms(4)]] .
  ultimately have "at_liberty (tk s2 i)" using liberty_run [OF batch_step_ok [OF ok assms(4)] _ _ assms(5,6)] by simp
  then show ?thesis by (auto simp: at_liberty_def lt_Deadline_def split: option.splits)
qed

lemma promoted_first:
  "\<exists>s s1 s2. batch_run [GoStart 0, GoAcquire 0, HostPromote 0, HostStep 0] (two_start 0) = Some s \<and> b_hosts s = [(0, PCount)] \<and>
     contexts_live (tk s 0) \<and> batch_step (HostStep 0) s = Some s1 \<and>
     batch_run [HostStep 0, CtxEnds ''over'', CtxFollows 0, Clock 400000000000, LimitFires 0, LoopCtx] s1 = Some s2 \<and> b_ctx s2 = Some ''over''"
  by (simp add: batch_eval contexts_live_def)

theorem background_call_outlives_the_run_witness:
  "\<exists>s1 s2. batch_run [HostStep 0, CtxEnds ''over'', CtxFollows 0, Clock 400000000000, LimitFires 0, LoopCtx] s1 = Some s2 \<and>
     b_ctx s2 = Some ''over'' \<and> rp_err (bt_rctx (tk s2 0)) = None"
proof -
  obtain s s1 s2 where s: "batch_run [GoStart 0, GoAcquire 0, HostPromote 0, HostStep 0] (two_start 0) = Some s" "b_hosts s = [(0, PCount)]"
    "contexts_live (tk s 0)" "batch_step (HostStep 0) s = Some s1"
    "batch_run [HostStep 0, CtxEnds ''over'', CtxFollows 0, Clock 400000000000, LimitFires 0, LoopCtx] s1 = Some s2" "b_ctx s2 = Some ''over''"
    using promoted_first by blast
  have f: "frees (HostStep 0) s 0" using s(2) by (simp add: frees_def)
  have "rp_err (bt_rctx (tk s2 0)) = None"
    using background_call_outlives_the_run [OF s(1) [unfolded two_start_def] f s(3,4,5), THEN conjunct1] by simp
  then show ?thesis using s(5,6) by (intro exI [of _ s1] exI [of _ s2] conjI)
qed

text \<open>Before that step the call is not protected, although its flag is set and the loop no longer cancels it: the end of
  the context of the batch then ends the call too.\<close>

theorem promoted_call_dies_before_it_is_detached:
  "\<exists>s. batch_run [GoStart 0, GoAcquire 0, HostPromote 0, HostStep 0, CtxEnds err, CtxFollows 0, HostStep 0] (two_start 0) = Some s \<and>
     bt_promoted (tk s 0) \<and> bt_pc (tk s 0) = GRunning \<and> \<not> bt_interrupt (tk s 0) \<and> rp_err (bt_rctx (tk s 0)) = Some err"
  by (simp add: batch_eval rp_parent_done_def)

section \<open>Promotions of collected calls\<close>

text \<open>From one state of a batch to a later one: who is still without an answer was so before, and nobody has written its place.\<close>

definition still_blank :: "batch \<Rightarrow> batch \<Rightarrow> bool" where
  "still_blank s s' \<longleftrightarrow> ntasks s' = ntasks s \<and> (\<forall>i \<in> unsettled s'. i \<in> unsettled s \<and> b_results s' ! i = b_results s ! i)"

lemma still_blank_refl [simp]: "still_blank s s"
  by (simp add: still_blank_def)

lemma still_blank_trans: "still_blank s s' \<Longrightarrow> still_blank s' s'' \<Longrightarrow> still_blank s s''"
  by (auto simp: still_blank_def)

lemma still_blankI:
  assumes "ntasks s' = ntasks s" "b_results s' = b_results s" "\<And>i. i < ntasks s \<Longrightarrow> bt_ph (tk s i) \<Longrightarrow> bt_ph (tk s' i)"
    "\<And>i. i < ntasks s \<Longrightarrow> got s i \<Longrightarrow> got s' i"
  shows "still_blank s s'"
  using assms by (auto simp: still_blank_def unsettled_def)

lemma upd_blank:
  assumes "batch_ok s" "i < ntasks s" "bt_ph (f (tk s i)) = bt_ph (tk s i)" "bt_done (tk s i) \<longrightarrow> bt_promoted (f (tk s i)) = bt_promoted (tk s i)"
    "bt_pc (tk s i) = GEnd \<longrightarrow> bt_pc (f (tk s i)) = GEnd"
  shows "still_blank s (upd i f s)"
  using assms got_done [OF assms(1,2)] by (intro still_blankI) (auto simp: got_def batch_simps)

lemma deliver_blank: "i < ntasks s \<Longrightarrow> still_blank s (deliver i s)"
  by (rule still_blankI) (auto simp: deliver_def taskDone_def Let_def got_def batch_simps)

lemma put_placeholder_blank: "batch_ok s \<Longrightarrow> i < ntasks s \<Longrightarrow> still_blank s (put_placeholder i s)"
  by (auto simp: put_placeholder_def still_blank_def unsettled_def got_def nth_list_update batch_simps)

lemma finishPromote_blank:
  assumes "batch_ok s" "i < ntasks s" shows "still_blank s (finishPromote i s)"
proof -
  have "i < ntasks (put_placeholder i s)" using put_placeholder_frame [OF assms(2)] assms(2) by (simp add: same_frame_def)
  then show ?thesis using put_placeholder_blank [OF assms] deliver_blank still_blank_trans by (auto simp: finishPromote_split)
qed

lemma markPromoted_blank:
  assumes "batch_ok s" "i < ntasks s" "\<not> bt_done (tk s i)" shows "still_blank s (markPromoted i s)"
  using assms got_done [OF assms(1,2)]
  by (intro still_blankI) (auto simp: markPromoted_def detach_def set_free_def got_def batch_simps)

lemma timer_blank:
  assumes "batch_ok s" "\<forall>i < ntasks s. overdue s i \<longrightarrow> \<not> bt_done (tk s i)"
  shows "still_blank s (timer_pass s)"
proof -
  define P where "P t \<longleftrightarrow> batch_ok t \<and> still_blank s t \<and> (\<forall>i < ntasks t. overdue t i \<longrightarrow> \<not> bt_done (tk t i))" for t
  have "P (timer_one i t)" if p: "P t" and i: "i < ntasks t" for i t
  proof -
    have m: "i < ntasks (markPromoted i t)" using markPromoted_frame [OF i] i by (simp add: same_frame_def)
    have f: "same_frame t (timer_one i t)" by (rule timer_one_frame [OF i])
    have "still_blank t (timer_one i t)"
      using p i markPromoted_blank [of t i] finishPromote_blank [OF markPromoted_ok m] still_blank_trans by (auto simp: P_def timer_one_def)
    moreover have "overdue t j" if "overdue (timer_one i t) j" for j
      using that f by (auto simp: overdue_def same_frame_def same_task_def split: option.splits)
    ultimately show ?thesis using p i f timer_one_ok [of t i] still_blank_trans by (auto simp: P_def same_frame_def same_task_def)
  qed
  then have "P (fold timer_one [0..<ntasks s] s) \<and> same_frame s (fold timer_one [0..<ntasks s] s)"
    using assms by (intro timer_fold_keeps) (auto simp: P_def)
  then show ?thesis by (simp add: timer_pass_fold P_def)
qed

lemma frame_blank: "ntasks s' = ntasks s \<Longrightarrow> tk s' = tk s \<Longrightarrow> b_doneCh s' = b_doneCh s \<Longrightarrow> b_results s' = b_results s \<Longrightarrow> still_blank s s'"
  by (auto simp: still_blank_def unsettled_def got_def)

lemma step_blank:
  assumes ok: "batch_ok s" and st: "batch_step ev s = Some s'" and t: "in_time ev s" and w: "b_loop s' = LWait"
  shows "b_loop s = LWait \<and> still_blank s s'"
  using st
proof (cases rule: batch_step_cases)
  case 1
  show ?thesis
  proof (cases ev)
    case (GoDeliver i)
    then have i: "i < ntasks s" "bt_pc (tk s i) = GDeliver" "s' = deliver i (upd i (\<lambda>t. t\<lparr>bt_pc := GSend\<rparr>) s)" using 1 by (auto split: if_splits)
    have "still_blank s (upd i (\<lambda>t. t\<lparr>bt_pc := GSend\<rparr>) s)" using ok i by (intro upd_blank) auto
    moreover have "b_loop (deliver i x) = b_loop x" for x by (simp add: deliver_def taskDone_def Let_def batch_simps)
    ultimately show ?thesis using w i deliver_blank [of i "upd i (\<lambda>t. t\<lparr>bt_pc := GSend\<rparr>) s"] still_blank_trans by (auto simp: batch_simps)
  next
    case (GoSend i)
    then have i: "i < ntasks s" "bt_pc (tk s i) = GSend" "s' = upd i (\<lambda>t. t\<lparr>bt_pc := GEnd, bt_slot := False\<rparr>) (s\<lparr>b_doneCh := b_doneCh s @ [i]\<rparr>)"
      using 1 by (auto split: if_splits)
    then show ?thesis using w by (auto simp: batch_simps got_def intro!: still_blankI)
  qed (use 1 w ok in \<open>auto simp: close_task_def batch_simps split: if_splits option.splits intro!: upd_blank\<close>)
next
  case 2
  then show ?thesis using w
    by (cases ev) (auto simp: got_def batch_simps split: if_splits option.splits intro!: still_blankI)
next
  case 3
  have h: "fst (b_hosts s ! k) < ntasks s" if "k < length (b_hosts s)" for k using host_ok [OF ok nth_mem [OF that]] by simp
  have reg: "\<forall>i \<in> set (b_registered s). i < ntasks s" using ok by (simp add: batch_ok_def channels_ok_def)
  show ?thesis
  proof (cases ev)
    case (HostStep k)
    then have k: "k < length (b_hosts s)" using 3 by (auto split: if_splits)
    obtain i g where ig: "b_hosts s ! k = (i, g)" by (cases "b_hosts s ! k")
    have i: "i < ntasks s" using h [OF k] ig by simp
    have d: "got s i \<Longrightarrow> g = PDetach \<Longrightarrow> bt_promoted (tk s i)" using t HostStep k ig got_done [OF ok i] by auto
    show ?thesis using 3 HostStep k ig i d w
      by (cases g) (auto simp: Let_def set_free_def got_def batch_simps split: if_splits intro!: still_blankI)
  next
    case (HostInterrupt i)
    then show ?thesis using 3 w reg by (auto simp: Interrupt_def got_def batch_simps split: if_splits intro!: still_blankI)
  qed (use 3 w in \<open>auto simp: batch_simps split: if_splits intro!: frame_blank\<close>)
next
  case 4
  show ?thesis
  proof (cases ev)
    case LoopPromote
    obtain i rest where c: "b_loop s = LWait" "b_promoteCh s = i # rest" "s' = (if i \<in> set (b_registered s) then finishPromote i (s\<lparr>b_promoteCh := rest\<rparr>) else s\<lparr>b_promoteCh := rest\<rparr>)"
      using LoopPromote 4 by (auto split: if_splits list.splits)
    let ?s1 = "s\<lparr>b_promoteCh := rest\<rparr>"
    have p: "\<forall>j \<in> set (i # rest). j < ntasks s \<and> bt_promoted (tk s j)" using ok c(2) by (metis batch_ok_def channels_ok_def)
    have ok1: "batch_ok ?s1" by (rule host_fields_ok(2) [OF ok]) (use p in auto)
    have "still_blank s ?s1" by (rule frame_blank) (simp_all add: batch_simps)
    then show ?thesis using c p finishPromote_blank [OF ok1, of i] still_blank_trans by (auto simp: batch_simps)
  next
    case LoopDone
    obtain i rest where c: "b_loop s = LWait" "b_doneCh s = i # rest" "s' = (if bt_promoted (tk s i) then s\<lparr>b_doneCh := rest\<rparr>
                  else s\<lparr>b_doneCh := rest, b_results := (b_results s)[i := bt_result (tk s i)], b_pending := b_pending s - 1\<rparr>)"
      using LoopDone 4 by (auto split: if_splits list.splits)
    have d: "i \<notin> set rest" "i < ntasks s" "bt_pc (tk s i) = GEnd" using ok c(2) by (auto simp: batch_ok_def channels_ok_def)
    show ?thesis using c d by (auto simp: still_blank_def unsettled_def got_def batch_simps) (metis nth_list_update_neq)+
  next
    case LoopTimer
    then show ?thesis using 4 t timer_blank [OF ok] by (auto split: if_splits)
  next
    case LoopCollect
    then show ?thesis using 4 w by (auto simp: batch_simps split: wait_loop.splits if_splits)
  qed (use 4 w in \<open>auto simp: release_batch_def batch_simps split: if_splits wait_loop.splits\<close>)
qed

lemma run_blank:
  "batch_ok s \<Longrightarrow> run_in_time evs s \<Longrightarrow> batch_run evs s = Some s' \<Longrightarrow> b_loop s' = LWait \<Longrightarrow> b_loop s = LWait \<and> still_blank s s'"
proof (induction evs arbitrary: s)
  case (Cons ev evs)
  obtain s1 where s1: "batch_step ev s = Some s1" "batch_run evs s1 = Some s'" using Cons.prems(3) by (auto simp: bind_eq_Some_conv)
  have t: "in_time ev s" "run_in_time evs s1" using Cons.prems(2) s1(1) by auto
  have 1: "b_loop s1 = LWait" "still_blank s1 s'" using Cons.IH [OF batch_step_ok [OF Cons.prems(1) s1(1)] t(2) s1(2) Cons.prems(4)] by simp_all
  show ?case using step_blank [OF Cons.prems(1) s1(1) t(1) 1(1)] still_blank_trans 1(2) by blast
qed simp

text \<open>What the timer's pass does to one call; the passes over the other calls do not touch it.\<close>

lemma timer_one_other:
  assumes j: "j < ntasks s" and i: "i \<noteq> j"
  shows "tk (timer_one j s) i = tk s i" "b_results (timer_one j s) ! i = b_results s ! i"
proof -
  have m: "j < ntasks (markPromoted j s)" using markPromoted_frame [OF j] j by (simp add: same_frame_def)
  have p: "j < ntasks (put_placeholder j (markPromoted j s))" using put_placeholder_frame [OF m] m by (simp add: same_frame_def)
  have 1: "tk (markPromoted j s) i = tk s i" "b_results (markPromoted j s) = b_results s" using j i by (auto simp: markPromoted_def detach_def batch_simps)
  have 2: "tk (put_placeholder j (markPromoted j s)) i = tk s i" "b_results (put_placeholder j (markPromoted j s)) ! i = b_results s ! i"
    using m i 1 by (auto simp: put_placeholder_def batch_simps)
  have 3: "tk (deliver j (put_placeholder j (markPromoted j s))) i = tk s i" "b_results (deliver j (put_placeholder j (markPromoted j s))) ! i = b_results s ! i"
    using p i 2 by (auto simp: deliver_def taskDone_def Let_def batch_simps)
  show "tk (timer_one j s) i = tk s i" "b_results (timer_one j s) ! i = b_results s ! i"
    using 2 3 by (auto simp: timer_one_def finishPromote_split)
qed

lemma timer_one_pending: "j < ntasks s \<Longrightarrow> b_pending (timer_one j s) \<le> b_pending s"
  by (auto simp: timer_one_def finishPromote_split put_placeholder_def deliver_def taskDone_def markPromoted_def detach_def Let_def batch_simps)

lemma timer_fold_other:
  "\<forall>j \<in> set js. j < ntasks s \<and> j \<noteq> i \<Longrightarrow> same_frame s (fold timer_one js s) \<and> tk (fold timer_one js s) i = tk s i \<and>
     b_results (fold timer_one js s) ! i = b_results s ! i \<and> b_pending (fold timer_one js s) \<le> b_pending s"
proof (induction js arbitrary: s)
  case (Cons j js)
  have j: "j < ntasks s" "i \<noteq> j" using Cons.prems by auto
  have f: "same_frame s (timer_one j s)" by (rule timer_one_frame [OF j(1)])
  then have "\<forall>k \<in> set js. k < ntasks (timer_one j s) \<and> k \<noteq> i" using Cons.prems by (simp add: same_frame_def)
  from Cons.IH [OF this] show ?case using timer_one_other [OF j] timer_one_pending [OF j(1)] f same_frame_trans by auto
qed simp

lemma timer_pass_at:
  assumes "i < ntasks s"
  obtains s1 where "same_frame s s1" "tk s1 i = tk s i" "b_results s1 ! i = b_results s ! i" "b_pending s1 \<le> b_pending s"
    "tk (timer_pass s) i = tk (timer_one i s1) i" "b_results (timer_pass s) ! i = b_results (timer_one i s1) ! i"
    "b_pending (timer_pass s) \<le> b_pending (timer_one i s1)"
proof -
  have l: "[0..<ntasks s] = [0..<i] @ i # [Suc i..<ntasks s]"
    using assms by (metis upt_conv_Cons upt_add_eq_append le_add1 less_imp_add_positive plus_nat.add_0 zero_le)
  define s1 where "s1 = fold timer_one [0..<i] s"
  have 1: "same_frame s s1 \<and> tk s1 i = tk s i \<and> b_results s1 ! i = b_results s ! i \<and> b_pending s1 \<le> b_pending s"
    unfolding s1_def by (rule timer_fold_other) (use assms in auto)
  have "same_frame s1 (timer_one i s1)" by (rule timer_one_frame) (use 1 assms in \<open>simp add: same_frame_def\<close>)
  then have "\<forall>j \<in> set [Suc i..<ntasks s]. j < ntasks (timer_one i s1) \<and> j \<noteq> i" using 1 by (simp add: same_frame_def)
  from timer_fold_other [OF this] show ?thesis using 1 by (intro that [of s1]) (simp_all add: timer_pass_fold l s1_def)
qed

lemma timer_takes:
  assumes "i < ntasks s" "overdue s i" "\<not> bt_ph (tk s i)" "length (b_results s) = ntasks s"
  shows "b_results (timer_pass s) ! i = placeholderResult (tk s i)" "b_pending (timer_pass s) < b_pending s"
proof -
  obtain s1 where s1: "same_frame s s1" "tk s1 i = tk s i" "b_pending s1 \<le> b_pending s" "b_results (timer_pass s) ! i = b_results (timer_one i s1) ! i"
    "b_pending (timer_pass s) \<le> b_pending (timer_one i s1)" using timer_pass_at [OF assms(1)] by metis
  have n: "i < ntasks s1" "length (b_results s1) = ntasks s" "b_now s1 = b_now s" using s1(1) assms(1,4) by (simp_all add: same_frame_def)
  have o: "overdue s1 i" using assms(2) s1(2) n(3) by (auto simp: overdue_def split: option.splits)
  let ?m = "markPromoted i s1"
  have m: "i < ntasks ?m" "\<not> bt_ph (tk ?m i)" "placeholderResult (tk ?m i) = placeholderResult (tk s i)" "b_results ?m = b_results s1" "b_pending ?m = b_pending s1"
    using n(1) assms(3) s1(2) by (auto simp: markPromoted_def detach_def set_free_def placeholderResult_def batch_simps)
  have "b_results (timer_one i s1) ! i = placeholderResult (tk s i)" "b_pending (timer_one i s1) = b_pending s1 - 1"
    using o m n assms(1) by (auto simp: timer_one_def finishPromote_split put_placeholder_def deliver_def taskDone_def Let_def batch_simps)
  then show "b_results (timer_pass s) ! i = placeholderResult (tk s i)" "b_pending (timer_pass s) < b_pending s" using s1 by simp_all
qed

lemma timer_spares:
  assumes "i < ntasks s" "\<not> overdue s i"
  shows "b_results (timer_pass s) ! i = b_results s ! i" "tk (timer_pass s) i = tk s i"
proof -
  obtain s1 where s1: "same_frame s s1" "tk s1 i = tk s i" "b_results s1 ! i = b_results s ! i"
    "tk (timer_pass s) i = tk (timer_one i s1) i" "b_results (timer_pass s) ! i = b_results (timer_one i s1) ! i" using timer_pass_at [OF assms(1)] by metis
  have "\<not> overdue s1 i" using assms(2) s1(1,2) by (auto simp: overdue_def same_frame_def split: option.splits)
  then show "b_results (timer_pass s) ! i = b_results s ! i" "tk (timer_pass s) i = tk s i" using s1 by (simp_all add: timer_one_def)
qed
text \<open>Behind the return of the batch its results stand, and a call that nobody moves to the background pushes nothing.\<close>

lemma returned_step:
  assumes ok: "batch_ok s" and r: "b_loop s = LReturned" and st: "batch_step ev s = Some s'"
  shows "b_loop s' = LReturned \<and> b_results s' = b_results s \<and>
    (i < ntasks s \<and> \<not> bt_promoted (tk s i) \<and> (\<forall>k. ev \<noteq> HostStep k) \<longrightarrow>
       \<not> bt_promoted (tk s' i) \<and> (i \<in> fst ` set (b_pushed s') \<longrightarrow> i \<in> fst ` set (b_pushed s)))"
  using st
proof (cases rule: batch_step_cases)
  case 1
  then show ?thesis using r
    by (cases ev) (auto simp: deliver_def taskDone_def close_task_def Let_def batch_simps split: if_splits option.splits)
next
  case 2
  then show ?thesis using r by (cases ev) (auto simp: batch_simps split: if_splits option.splits)
next
  case 3
  have reg: "\<forall>i \<in> set (b_registered s). i < ntasks s" using ok by (simp add: batch_ok_def channels_ok_def)
  then show ?thesis using 3 r
    by (cases ev) (auto simp: Interrupt_def set_free_def Let_def batch_simps split: if_splits prod.splits promote_stage.splits)
next
  case 4
  then show ?thesis using r by (cases ev) (auto split: if_splits)
qed

lemma returned_run:
  "batch_ok s \<Longrightarrow> b_loop s = LReturned \<Longrightarrow> batch_run evs s = Some s' \<Longrightarrow> b_results s' = b_results s \<and>
    (i < ntasks s \<and> \<not> bt_promoted (tk s i) \<and> i \<notin> fst ` set (b_pushed s) \<and> (\<forall>k. HostStep k \<notin> set evs) \<longrightarrow> i \<notin> fst ` set (b_pushed s'))"
proof (induction evs arbitrary: s)
  case (Cons ev evs)
  obtain s1 where s1: "batch_step ev s = Some s1" "batch_run evs s1 = Some s'" using Cons.prems(3) by (auto simp: bind_eq_Some_conv)
  have n: "ntasks s1 = ntasks s" using ntasks_statics [OF batch_step_statics [OF Cons.prems(1) s1(1)]] .
  note r = returned_step [OF Cons.prems(1,2) s1(1)]
  from Cons.IH [OF batch_step_ok [OF Cons.prems(1) s1(1)] _ s1(2)] r [of i] n show ?case by auto
qed simp

lemma call_of_start:
  assumes "batch_run evs (start_batch e ctl pa now calls) = Some s" "i < length calls"
  shows "bt_call (tk s i) = fst (calls ! i)"
proof -
  note ok = batch_run_start [OF assms(1)]
  have "map bt_call (b_tasks s) = map bt_call (b_tasks (start_batch e ctl pa now calls))"
    using arg_cong [OF ok(3), of "map fst \<circ> fst"] by (simp add: statics_def comp_def)
  then have "map bt_call (b_tasks s) ! i = map bt_call (b_tasks (start_batch e ctl pa now calls)) ! i" by simp
  then show ?thesis using ok(2) assms(2) start_batch_tk by (simp add: tk_def ntasks_def launch_def)
qed

text \<open>C22. Defect of the automatic move to the background: the timer also takes calls whose result has been
  collected long ago, and counts them a second time. Whenever the loop waits for a single call \<open>i\<close> and the
  calls that are due have all been collected, among them \<open>j\<close>, the pass makes the batch return at once: the result of
  \<open>j\<close> is replaced by the placeholder, \<open>i\<close> is answered with an empty success, nothing changes this any more,
  and if the host does not move \<open>i\<close> to the background, what its tool returns reaches nobody.\<close>

theorem late_promotion_loses_a_result:
  assumes "batch_run evs (start_batch e ctl pa now calls) = Some s" "run_in_time evs (start_batch e ctl pa now calls)"
    and "b_loop s = LWait" "unsettled s = {i}" "\<not> bt_promoted (tk s i)"
    and "j < length calls" "overdue s j" "\<forall>k < length calls. overdue s k \<longrightarrow> got s k"
  shows "\<exists>s'. batch_run [LoopTimer, LoopEnd] s = Some s' \<and> b_loop s' = LReturned \<and> b_results s' ! j = placeholderResult (tk s j) \<and>
    b_results s' ! i = blank_result (tc_id (fst (calls ! i))) \<and>
    (\<forall>evs' s''. batch_run evs' s' = Some s'' \<longrightarrow> b_results s'' = b_results s' \<and>
       ((\<forall>k. HostStep k \<notin> set evs') \<longrightarrow> i \<notin> fst ` set (b_pushed s'')))"
proof -
  note ok = batch_run_start [OF assms(1)]
  have w: "wait_ok s" using batch_run_wait [OF start_wait start_batch_ok assms(2,1)] .
  have len: "length (b_results s) = ntasks s" by (rule results_length [OF ok(1)])
  have i: "i < ntasks s" "\<not> got s i" "\<not> overdue s i" using assms(4,8) ok(2) by (auto simp: unsettled_def)
  have pend: "b_pending s = 1" using w assms(3,4) by (simp add: wait_ok_def)
  have sb: "still_blank (start_batch e ctl pa now calls) s" using run_blank [OF start_batch_ok assms(2,1,3)] by simp
  have "b_results s ! i = b_results (start_batch e ctl pa now calls) ! i" using sb assms(4) by (auto simp: still_blank_def)
  then have blank: "b_results s ! i = blank_result (tc_id (fst (calls ! i)))" using i(1) ok(2) by (simp add: start_batch_def Let_def)
  have j: "j < ntasks s" "\<not> bt_promoted (tk s j)" using assms(6,7) ok(2) by (simp_all add: overdue_def)
  then have "\<not> bt_ph (tk s j)" using call_ok_of [OF ok(1) j(1)] by (auto simp: call_ok_def)
  note tj = timer_takes [OF j(1) assms(7) this len]
  note ti = timer_spares [OF i(1,3)]
  define t where "t = timer_pass s"
  have tok: "batch_ok t" "same_frame s t" using timer_pass_ok [OF ok(1)] by (simp_all add: t_def)
  have 1: "batch_step LoopTimer s = Some t" using assms(3,7) pend j(1) by (auto simp: batch_step_def t_def)
  have tl: "b_loop t = LWait" "b_pending t \<le> 0" using tok(2) assms(3) tj(2) pend by (simp_all add: same_frame_def t_def)
  define s' where "s' = release_batch (t\<lparr>b_loop := LReturned\<rparr>)"
  have 2: "batch_step LoopEnd t = Some s'" using tl by (simp add: batch_step_def s'_def)
  have f: "b_loop s' = LReturned" "b_results s' = b_results t" "tk s' = tk t" "ntasks s' = ntasks s" "b_pushed s' = b_pushed t"
    using tok(2) by (auto simp: s'_def release_batch_def same_frame_def batch_simps)
  have ok': "batch_ok s'" using batch_step_ok [OF tok(1) 2] .
  have np: "\<not> bt_promoted (tk s' i)" using ti(2) assms(5) by (simp add: f t_def)
  have "i \<notin> fst ` set (b_pushed s')"
  proof
    assume "i \<in> fst ` set (b_pushed s')"
    then have "bt_given (tk s' i)" using ok' by (auto simp: batch_ok_def pushed_ok_def)
    then show False using call_ok_of [OF ok', of i] i(1) f(4) np by (auto simp: call_ok_def)
  qed
  with returned_run [OF ok' f(1)] i(1) f(4) np
  have "\<forall>evs' s''. batch_run evs' s' = Some s'' \<longrightarrow> b_results s'' = b_results s' \<and>
       ((\<forall>k. HostStep k \<notin> set evs') \<longrightarrow> i \<notin> fst ` set (b_pushed s''))" by (metis (no_types))
  then show ?thesis using 1 2 f tj(1) ti(1) blank by (intro exI [of _ s']) (simp add: t_def)
qed

definition late_events :: "batch_event list" where
  "late_events = [GoStart 0, GoAcquire 0, GoReturn 0 (blank_result ''x''), GoCheck 0, GoSend 0, LoopDone, Clock 5, GoStart 1, GoAcquire 1, Clock 6]"

lemma late_run:
  "\<exists>s. batch_run late_events (two_start 10) = Some s \<and> ntasks s = 2 \<and> b_loop s = LWait \<and> got s 0 \<and> \<not> got s 1 \<and> \<not> bt_ph (tk s 1) \<and> \<not> bt_promoted (tk s 1) \<and>
     overdue s 0 \<and> \<not> overdue s 1"
  "run_in_time late_events (two_start 10)"
  by (simp_all add: late_events_def batch_eval got_def)

theorem late_promotion_loses_a_result_witness:
  "\<exists>s s'. batch_run late_events (two_start 10) = Some s \<and> bt_pc (tk s 1) = GRunning \<and> batch_run [LoopTimer, LoopEnd] s = Some s' \<and>
     b_results s' ! 0 = placeholderResult (tk s 0) \<and> b_results s' ! 1 = blank_result ''b''"
proof -
  obtain s where s: "batch_run late_events (two_start 10) = Some s" "ntasks s = 2" "b_loop s = LWait" "got s 0" "\<not> got s 1" "\<not> bt_ph (tk s 1)" "\<not> bt_promoted (tk s 1)"
     "overdue s 0" "\<not> overdue s 1" using late_run(1) by blast
  have u: "unsettled s = {1}" using s by (auto simp: unsettled_def less_2_cases_iff)
  have k: "\<forall>k < length batch_calls. overdue s k \<longrightarrow> got s k" using s by (auto simp: batch_calls_def less_2_cases_iff numeral_2_eq_2 [symmetric])
  have c: "tc_id (fst (batch_calls ! 1)) = ''b''" "0 < length batch_calls" by (simp_all add: batch_calls_def sample_call_def)
  have pc: "bt_pc (tk s 1) = GRunning" using s(1) by (simp add: late_events_def batch_eval) auto
  show ?thesis
    using late_promotion_loses_a_result [OF s(1) [unfolded two_start_def] late_run(2) [unfolded two_start_def] s(3) u s(7) c(2) s(8) k] s(1) pc c(1) by auto
qed

section \<open>Order and number of running calls\<close>

lemma serial_prevs_none: "j < length bs \<Longrightarrow> \<forall>i < j. \<not> bs ! i \<Longrightarrow> serial_prevs k p bs ! j = p"
proof (induction bs arbitrary: k p j)
  case (Cons b bs)
  show ?case
  proof (cases j)
    case (Suc j')
    have "\<not> b" "\<forall>i < j'. \<not> bs ! i" using Cons.prems(2) Suc by (metis nth_Cons_0 zero_less_Suc, metis Suc_mono nth_Cons_Suc)
    then show ?thesis using Cons.IH [of j'] Cons.prems(1) Suc by simp
  qed simp
qed simp

lemma serial_prevs_some:
  "i < j \<Longrightarrow> j < length bs \<Longrightarrow> bs ! i \<Longrightarrow> \<exists>p. serial_prevs k q bs ! j = Some (k + p) \<and> i \<le> p \<and> p < j \<and> bs ! p"
proof (induction bs arbitrary: k q i j)
  case (Cons b bs)
  obtain j' where j: "j = Suc j'" "j' < length bs" using Cons.prems(1,2) by (cases j) auto
  show ?case
  proof (cases "\<exists>i' < j'. bs ! i'")
    case True
    then obtain i' where i': "i' < j'" "bs ! i'" "case i of 0 \<Rightarrow> True | Suc i0 \<Rightarrow> i' = i0"
      using Cons.prems(1,3) j by (cases i) auto
    obtain p where p: "serial_prevs (Suc k) (if b then Some k else q) bs ! j' = Some (Suc k + p)" "i' \<le> p" "p < j'" "bs ! p"
      using Cons.IH [OF i'(1) j(2) i'(2)] by blast
    show ?thesis using p i'(3) j by (intro exI [of _ "Suc p"]) (auto split: nat.splits)
  next
    case False
    then have "i = 0" "b" using Cons.prems(1,3) j by (cases i; auto)+
    moreover have "serial_prevs (Suc k) (if b then Some k else q) bs ! j' = (if b then Some k else q)" using False j(2) by (intro serial_prevs_none) auto
    ultimately show ?thesis using j by (intro exI [of _ 0]) auto
  qed
qed simp

definition runs_slot :: "batch \<Rightarrow> bool" where
  "runs_slot s \<longleftrightarrow> (\<forall>i < ntasks s. bt_pc (tk s i) = GRunning \<longrightarrow> bt_slot (tk s i) = (0 < b_cap s))"

lemma slots_card: "slots_used s = int (card {i. i < ntasks s \<and> bt_slot (tk s i)})"
  by (simp add: slots_used_def length_filter_conv_card ntasks_def tk_def)

definition slots_ok :: "batch \<Rightarrow> bool" where
  "slots_ok s \<longleftrightarrow> runs_slot s \<and> (b_cap s \<le> 0 \<or> slots_used s \<le> b_cap s)"

lemma slots_cong:
  assumes "slots_ok s" "ntasks s' = ntasks s" "b_cap s' = b_cap s"
    "\<And>i. i < ntasks s \<Longrightarrow> (bt_slot (tk s' i) \<longrightarrow> bt_slot (tk s i)) \<and> (bt_pc (tk s' i) = GRunning \<longrightarrow> bt_pc (tk s i) = GRunning \<and> bt_slot (tk s' i) = bt_slot (tk s i))"
  shows "slots_ok s'"
proof -
  have "{i. i < ntasks s' \<and> bt_slot (tk s' i)} \<subseteq> {i. i < ntasks s \<and> bt_slot (tk s i)}" using assms(2,4) by auto
  then have "slots_used s' \<le> slots_used s" unfolding slots_card by (simp add: card_mono)
  then show ?thesis using assms by (auto simp: slots_ok_def runs_slot_def)
qed

lemma slots_frame: "slots_ok s \<Longrightarrow> same_frame s s' \<Longrightarrow> slots_ok s'"
  by (rule slots_cong [of s]) (auto simp: same_frame_def same_task_def)

lemma acquire_slots:
  assumes "slots_ok s" "i < ntasks s" "bt_pc (tk s i) = GWaitSem" "b_cap s \<le> 0 \<or> slots_used s < b_cap s"
  shows "slots_ok (upd i (\<lambda>t. t\<lparr>bt_pc := GRunning, bt_slot := 0 < b_cap s\<rparr>) s)"
proof -
  let ?s = "upd i (\<lambda>t. t\<lparr>bt_pc := GRunning, bt_slot := 0 < b_cap s\<rparr>) s"
  have "{j. j < ntasks ?s \<and> bt_slot (tk ?s j)} \<subseteq> insert i {j. j < ntasks s \<and> bt_slot (tk s j)}" using assms(2) by (auto simp: batch_simps)
  then have "card {j. j < ntasks ?s \<and> bt_slot (tk ?s j)} \<le> card (insert i {j. j < ntasks s \<and> bt_slot (tk s j)})" by (intro card_mono) auto
  also have "\<dots> \<le> Suc (card {j. j < ntasks s \<and> bt_slot (tk s j)})" by (simp add: card_insert_if)
  finally have "slots_used ?s \<le> slots_used s + 1" unfolding slots_card by simp
  then show ?thesis using assms by (auto simp: slots_ok_def runs_slot_def batch_simps)
qed


text \<open>Apart from the cancellation, the loop only promotes calls, marks them and delivers them.\<close>

lemma loop_tasks:
  assumes ok: "batch_ok s" and st: "loop_step ev s = Some s'" and no: "ev \<noteq> LoopCtx"
  shows "ntasks s' = ntasks s \<and> b_cap s' = b_cap s \<and> b_ctx s' = b_ctx s \<and> (\<forall>i. same_task (tk s i) (tk s' i))"
proof (cases ev)
  case LoopPromote
  obtain j rest where c: "b_promoteCh s = j # rest" "s' = (if j \<in> set (b_registered s) then finishPromote j (s\<lparr>b_promoteCh := rest\<rparr>) else s\<lparr>b_promoteCh := rest\<rparr>)"
    using LoopPromote st by (auto split: if_splits list.splits)
  have "j < ntasks (s\<lparr>b_promoteCh := rest\<rparr>)" using ok c(1) by (auto simp: batch_ok_def channels_ok_def batch_simps)
  then show ?thesis using c(2) finishPromote_frame [of j "s\<lparr>b_promoteCh := rest\<rparr>"] by (auto simp: same_frame_def batch_simps)
next
  case LoopTimer
  then show ?thesis using st timer_pass_ok [OF ok] by (auto simp: same_frame_def split: if_splits)
next
  case LoopCollect
  then obtain k where k: "b_loop s = LCancel k" "k < ntasks s" using st by (auto split: wait_loop.splits if_splits)
  then show ?thesis using LoopCollect st finishPromote_frame [OF k(2)] by (auto simp: same_frame_def batch_simps split: if_splits)
qed (use st no in \<open>auto simp: release_batch_def batch_simps split: if_splits list.splits wait_loop.splits\<close>)

lemma slots_step:
  assumes sl: "slots_ok s" and ok: "batch_ok s" and st: "batch_step ev s = Some s'"
  shows "slots_ok s'"
  using st
proof (cases rule: batch_step_cases)
  case 1
  show ?thesis
  proof (cases ev)
    case (GoAcquire i)
    then show ?thesis using 1 acquire_slots [OF sl] by (auto split: if_splits)
  next
    case (GoDeliver i)
    then have i: "i < ntasks s" "s' = deliver i (upd i (\<lambda>t. t\<lparr>bt_pc := GSend\<rparr>) s)" using 1 by (auto split: if_splits)
    have "slots_ok (upd i (\<lambda>t. t\<lparr>bt_pc := GSend\<rparr>) s)" by (rule slots_cong [OF sl]) (use i(1) in \<open>auto simp: batch_simps\<close>)
    then show ?thesis using i slots_frame deliver_frame [of i "upd i (\<lambda>t. t\<lparr>bt_pc := GSend\<rparr>) s"] by (simp add: batch_simps)
  qed (use 1 in \<open>auto simp: batch_simps close_task_def split: if_splits option.splits intro!: slots_cong [OF sl]\<close>)
next
  case 2
  then show ?thesis by (cases ev) (auto simp: batch_simps split: if_splits option.splits intro!: slots_cong [OF sl])
next
  case 3
  have h: "fst (b_hosts s ! k) < ntasks s" if "k < length (b_hosts s)" for k using host_ok [OF ok nth_mem [OF that]] by simp
  have reg: "\<forall>i \<in> set (b_registered s). i < ntasks s" using ok by (simp add: batch_ok_def channels_ok_def)
  show ?thesis
  proof (cases ev)
    case (HostStep k)
    then show ?thesis using 3 h [of k]
      by (auto simp: batch_simps set_free_def Let_def split: if_splits prod.splits promote_stage.splits intro!: slots_cong [OF sl])
  qed (use 3 reg in \<open>auto simp: batch_simps Interrupt_def split: if_splits intro!: slots_cong [OF sl]\<close>)
next
  case 4
  show ?thesis
  proof (cases "ev = LoopCtx")
    case True
    then have "s' = (cancel_rest s)\<lparr>b_loop := LCancel 0\<rparr>" using 4 by (auto simp: cancel_rest_def split: if_splits)
    moreover have "b_cap (cancel_rest s) = b_cap s" by (simp add: cancel_rest_def)
    ultimately show ?thesis by (intro slots_cong [OF sl]) (auto simp: cancel_rest_tk batch_simps)
  next
    case False
    then show ?thesis using loop_tasks [OF ok 4] by (intro slots_cong [OF sl]) (auto simp: same_task_def)
  qed
qed

lemma start_slots:
  assumes "0 \<le> en_maxParallel e"
  shows "slots_ok (start_batch e ctl pa now calls)"
proof -
  let ?s = "start_batch e ctl pa now calls"
  have "\<not> bt_slot (tk ?s i)" if "i < ntasks ?s" for i using that by (simp add: start_batch_tk launch_def)
  then have "{i. i < ntasks ?s \<and> bt_slot (tk ?s i)} = {}" by auto
  then have "slots_used ?s = 0" unfolding slots_card by simp
  moreover have "b_cap ?s = en_maxParallel e" by (simp add: start_batch_def Let_def)
  ultimately show ?thesis using assms by (simp add: slots_ok_def runs_slot_def start_batch_tk launch_def)
qed

section \<open>Serial calls\<close>

text \<open>Steps of a batch that is neither cancelled nor interrupted.\<close>

fun undisturbed :: "batch_event \<Rightarrow> bool" where
  "undisturbed (CtxEnds _) = False"
| "undisturbed (HostInterrupt _) = False"
| "undisturbed _ = True"

definition in_turn :: "batch \<Rightarrow> bool" where
  "in_turn s \<longleftrightarrow> b_ctx s = None \<and> (\<forall>i < ntasks s. rp_err (bt_rctx (tk s i)) = None \<and>
     (bt_pc (tk s i) \<noteq> GWaitPrev \<longrightarrow> (case bt_prev (tk s i) of None \<Rightarrow> True | Some p \<Rightarrow> bt_done (tk s p))))"

lemma in_turn_cong:
  assumes "in_turn s" "ntasks s' = ntasks s" "b_ctx s' = b_ctx s" "\<And>i. bt_done (tk s i) \<Longrightarrow> bt_done (tk s' i)"
    "\<And>i. i < ntasks s \<Longrightarrow> rp_err (bt_rctx (tk s' i)) = rp_err (bt_rctx (tk s i)) \<and> bt_prev (tk s' i) = bt_prev (tk s i) \<and>
       (bt_pc (tk s i) = GWaitPrev \<longrightarrow> bt_pc (tk s' i) = GWaitPrev \<or> (case bt_prev (tk s i) of None \<Rightarrow> True | Some p \<Rightarrow> bt_done (tk s p)))"
  shows "in_turn s'"
  using assms unfolding in_turn_def by (fastforce split: option.splits)

lemma in_turn_frame: "in_turn s \<Longrightarrow> same_frame s s' \<Longrightarrow> in_turn s'"
  by (rule in_turn_cong [of s]) (auto simp: same_frame_def same_task_def)


lemma in_turn_step:
  assumes t: "in_turn s" and ok: "batch_ok s" and st: "batch_step ev s = Some s'" and u: "undisturbed ev"
  shows "in_turn s'"
  using st
proof (cases rule: batch_step_cases)
  case 1
  show ?thesis
  proof (cases ev)
    case (GoDeliver i)
    then have i: "i < ntasks s" "bt_pc (tk s i) = GDeliver" "s' = deliver i (upd i (\<lambda>t. t\<lparr>bt_pc := GSend\<rparr>) s)" using 1 by (auto split: if_splits)
    have "in_turn (upd i (\<lambda>t. t\<lparr>bt_pc := GSend\<rparr>) s)" by (rule in_turn_cong [OF t]) (use i(1,2) in \<open>auto simp: batch_simps\<close>)
    then show ?thesis using i in_turn_frame deliver_frame [of i "upd i (\<lambda>t. t\<lparr>bt_pc := GSend\<rparr>) s"] by (simp add: batch_simps)
  next
    case (GoGiveUp i)
    then have "i < ntasks s" "rp_err (bt_rctx (tk s i)) \<noteq> None" using 1 by (auto split: if_splits option.splits)
    then show ?thesis using t by (simp add: in_turn_def)
  qed (use 1 in \<open>auto simp: batch_simps close_task_def split: if_splits option.splits intro!: in_turn_cong [OF t]\<close>)
next
  case 2
  then show ?thesis using u t
    by (cases ev) (auto simp: in_turn_def [of s] batch_simps split: if_splits option.splits intro!: in_turn_cong [OF t])
next
  case 3
  have h: "fst (b_hosts s ! k) < ntasks s" if "k < length (b_hosts s)" for k using host_ok [OF ok nth_mem [OF that]] by simp
  show ?thesis
  proof (cases ev)
    case (HostStep k)
    then show ?thesis using 3 h [of k]
      by (auto simp: batch_simps set_free_def rp_Detach_def Let_def split: if_splits prod.splits promote_stage.splits intro!: in_turn_cong [OF t])
  qed (use 3 u in \<open>auto simp: batch_simps split: if_splits intro!: in_turn_cong [OF t]\<close>)
next
  case 4
  have "ev \<noteq> LoopCtx" using 4 t by (auto simp: in_turn_def split: if_splits)
  then show ?thesis using loop_tasks [OF ok 4] by (intro in_turn_cong [OF t]) (auto simp: same_task_def)
qed

lemma batch_run_invariant:
  assumes "P s" "batch_ok s" "batch_run evs s = Some s'" "list_all Q evs"
    "\<And>s ev s'. P s \<Longrightarrow> batch_ok s \<Longrightarrow> batch_step ev s = Some s' \<Longrightarrow> Q ev \<Longrightarrow> P s'"
  shows "P s'"
  using assms(1-4)
proof (induction evs arbitrary: s)
  case (Cons ev evs)
  obtain s1 where s1: "batch_step ev s = Some s1" "batch_run evs s1 = Some s'" using Cons.prems(3) by (auto simp: bind_eq_Some_conv)
  have "Q ev" "list_all Q evs" using Cons.prems(4) by simp_all
  then show ?case using Cons.IH [OF assms(5) [OF Cons.prems(1,2) s1(1)] batch_step_ok [OF Cons.prems(2) s1(1)] s1(2)] by simp
qed simp

lemma earlier_serial_done:
  assumes t: "in_turn s" and ok: "batch_ok s" and st: "statics s = statics (start_batch e ctl pa now calls)"
    and ij: "i < j" "j < length calls" "is_serial e (fst (calls ! i))" "is_serial e (fst (calls ! j))" "bt_pc (tk s j) \<noteq> GWaitPrev"
  shows "bt_done (tk s i)"
  using ij
proof (induction j rule: less_induct)
  case (less j)
  let ?s0 = "start_batch e ctl pa now calls" and ?bs = "map (is_serial e \<circ> fst) calls"
  have n: "ntasks s = length calls" using ntasks_statics [OF st] by (simp add: start_batch_tk)
  have prev: "bt_prev (tk s m) = bt_prev (tk ?s0 m)" if "m < length calls" for m
  proof -
    have "map (\<lambda>t. (bt_call t, bt_taskID t, bt_serial t, bt_prev t, bt_auto t)) (b_tasks s) ! m =
        map (\<lambda>t. (bt_call t, bt_taskID t, bt_serial t, bt_prev t, bt_auto t)) (b_tasks ?s0) ! m" using st by (simp add: statics_def)
    moreover have "m < length (b_tasks s)" "m < length (b_tasks ?s0)" using that n by (simp_all add: ntasks_def flip: start_batch_tk(1) [of e ctl pa now calls])
    ultimately show ?thesis by (simp add: tk_def)
  qed
  obtain p where p: "serial_prevs 0 None ?bs ! j = Some (0 + p)" "i \<le> p" "p < j" "?bs ! p"
    using serial_prevs_some [of i j ?bs 0 None] less.prems(1-3) by auto
  have "bt_prev (tk s j) = Some p" using prev [OF less.prems(2)] p(1) less.prems(2,4) by (simp add: start_batch_tk launch_def)
  then have fin: "bt_done (tk s p)" using t n less.prems(2,5) by (auto simp: in_turn_def)
  show ?case
  proof (cases "i = p")
    case False
    have "p < length calls" using p(3) less.prems(2) by simp
    moreover have "is_serial e (fst (calls ! p))" using p(4) calculation by simp
    moreover have "bt_pc (tk s p) \<noteq> GWaitPrev" using fin call_ok_of [OF ok, of p] n calculation(1) by (auto simp: call_ok_def)
    ultimately show ?thesis using less.IH [OF p(3)] False p(2) less.prems(3) by simp
  qed (use fin in simp)
qed

lemma start_in_turn: "in_turn (start_batch e ctl pa now calls)"
proof -
  have "b_ctx (start_batch e ctl pa now calls) = None" by (simp add: start_batch_def Let_def)
  then show ?thesis by (simp add: in_turn_def start_batch_tk launch_def NewReparentable_def)
qed

text \<open>C21. Calls of tools that may not run in parallel keep their order: as long as nothing is cancelled, such a call is
  in its tool only when every earlier one has ended, so that no two of them overlap, also when calls are moved to
  the background.\<close>

theorem serial_calls_never_overlap:
  assumes "batch_run evs (start_batch e ctl pa now calls) = Some s" "list_all undisturbed evs"
    and "i < j" "j < length calls" "is_serial e (fst (calls ! i))" "is_serial e (fst (calls ! j))" "bt_pc (tk s j) = GRunning"
  shows "bt_done (tk s i) \<and> bt_pc (tk s i) \<noteq> GRunning"
proof -
  note ok = batch_run_start [OF assms(1)]
  have "in_turn s" by (rule batch_run_invariant [of in_turn, OF start_in_turn start_batch_ok assms(1,2)]) (rule in_turn_step)
  then have "bt_done (tk s i)" using earlier_serial_done [OF _ ok(1,3) assms(3-6)] assms(7) by simp
  then show ?thesis using call_ok_of [OF ok(1), of i] ok(2) assms(3,4) by (auto simp: call_ok_def)
qed

text \<open>At no moment are more calls in their tools than the engine allows, whatever is promoted, interrupted or
  cancelled.\<close>

theorem running_calls_are_limited:
  assumes "batch_run evs (start_batch e ctl pa now calls) = Some s" "0 < en_maxParallel e"
  shows "int (card {i. i < length calls \<and> bt_pc (tk s i) = GRunning}) \<le> en_maxParallel e"
proof -
  note ok = batch_run_start [OF assms(1)]
  have sl: "slots_ok s"
    by (rule batch_run_invariant [of slots_ok _ _ _ "\<lambda>_. True", OF start_slots start_batch_ok assms(1)]) (use assms(2) slots_step in \<open>auto simp: list_all_iff\<close>)
  have cap: "b_cap s = en_maxParallel e" using ok(3) by (simp add: statics_def) (simp add: start_batch_def Let_def)
  have "{i. i < length calls \<and> bt_pc (tk s i) = GRunning} \<subseteq> {i. i < ntasks s \<and> bt_slot (tk s i)}"
    using sl cap assms(2) ok(2) by (auto simp: slots_ok_def runs_slot_def)
  then have "card {i. i < length calls \<and> bt_pc (tk s i) = GRunning} \<le> card {i. i < ntasks s \<and> bt_slot (tk s i)}" by (intro card_mono) auto
  then show ?thesis using sl cap assms(2) by (auto simp: slots_ok_def slots_card)
qed

lemma serial_is_serial: "is_serial serial_engine (fst (batch_calls ! 0))" "is_serial serial_engine (fst (batch_calls ! 1))"
  by (simp_all add: is_serial_def batch_calls_def sample_call_def serial_GetTool)

lemma second_runs:
  "\<exists>s. batch_run [GoStart 0, GoAcquire 0, GoReturn 0 (blank_result ''x''), GoStart 1, GoAcquire 1] (two_start 0) = Some s \<and> bt_pc (tk s 1) = GRunning"
  by (simp add: batch_eval)

theorem serial_calls_never_overlap_witness:
  "\<exists>s. batch_run [GoStart 0, GoAcquire 0, GoReturn 0 (blank_result ''x''), GoStart 1, GoAcquire 1] (two_start 0) = Some s \<and>
     bt_pc (tk s 1) = GRunning \<and> bt_done (tk s 0)"
proof -
  obtain s where s: "batch_run [GoStart 0, GoAcquire 0, GoReturn 0 (blank_result ''x''), GoStart 1, GoAcquire 1] (two_start 0) = Some s" "bt_pc (tk s 1) = GRunning"
    using second_runs by (elim exE conjE) (rule that)
  have "bt_done (tk s 0)"
    using serial_calls_never_overlap [OF s(1) [unfolded two_start_def], of 0 1] s(2) serial_is_serial by (simp add: batch_calls_def)
  then show ?thesis using s by (intro exI [of _ s] conjI)
qed

theorem running_calls_are_limited_witness:
  "\<exists>s. batch_run [GoStart 0, GoAcquire 0, GoReturn 0 (blank_result ''x''), GoStart 1, GoAcquire 1] (two_start 0) = Some s \<and>
     int (card {i. i < length batch_calls \<and> bt_pc (tk s i) = GRunning}) \<le> en_maxParallel serial_engine"
proof -
  obtain s where s: "batch_run [GoStart 0, GoAcquire 0, GoReturn 0 (blank_result ''x''), GoStart 1, GoAcquire 1] (two_start 0) = Some s"
    using second_runs by (elim exE conjE) (rule that)
  have "0 < en_maxParallel serial_engine" by (simp add: serial_engine_def RegisterTool_def NewToolEngine_def)
  then show ?thesis using running_calls_are_limited [OF s [unfolded two_start_def]] s by (intro exI [of _ s] conjI)
qed

section \<open>A quiet batch returns\<close>

text \<open>The steps of a batch in which only the calls and the loop move.\<close>

fun quiet :: "batch_event \<Rightarrow> bool" where
  "quiet (GoStart _) = True" | "quiet (GoAcquire _) = True" | "quiet (GoReturn _ _) = True" | "quiet (GoCheck _) = True" | "quiet (GoSend _) = True"
| "quiet LoopDone = True" | "quiet LoopEnd = True" | "quiet _ = False"

fun pc_rank :: "goroutine \<Rightarrow> nat" where
  "pc_rank GWaitPrev = 6" | "pc_rank GWaitSem = 5" | "pc_rank GRunning = 4" | "pc_rank GClosed = 3" | "pc_rank GDeliver = 3" | "pc_rank GSend = 2" | "pc_rank GEnd = 0"

definition todo :: "batch \<Rightarrow> nat" where
  "todo s = sum_list (map (\<lambda>t. pc_rank (bt_pc t)) (b_tasks s)) + length (b_doneCh s) + (case b_loop s of LWait \<Rightarrow> 1 | _ \<Rightarrow> 0)"

definition unpromoted :: "batch \<Rightarrow> bool" where "unpromoted s \<longleftrightarrow> (\<forall>i < ntasks s. \<not> bt_promoted (tk s i))"

lemma rank_upd:
  assumes "i < ntasks s" "pc_rank (bt_pc (f (tk s i))) < pc_rank (bt_pc (tk s i))"
  shows "sum_list (map (\<lambda>t. pc_rank (bt_pc t)) (b_tasks (upd i f s))) + (pc_rank (bt_pc (tk s i)) - pc_rank (bt_pc (f (tk s i)))) =
    sum_list (map (\<lambda>t. pc_rank (bt_pc t)) (b_tasks s))"
proof -
  have i: "i < length (map (\<lambda>t. pc_rank (bt_pc t)) (b_tasks s))" using assms(1) by (simp add: ntasks_def)
  have m: "map (\<lambda>t. pc_rank (bt_pc t)) (b_tasks (upd i f s)) = (map (\<lambda>t. pc_rank (bt_pc t)) (b_tasks s))[i := pc_rank (bt_pc (f (tk s i)))]"
    by (simp add: upd_def map_update tk_def)
  have "(map (\<lambda>t. pc_rank (bt_pc t)) (b_tasks s)) ! i \<le> sum_list (map (\<lambda>t. pc_rank (bt_pc t)) (b_tasks s))" using i by (rule elem_le_sum_list)
  then show ?thesis unfolding m sum_list_update [OF i] using assms i by (simp add: tk_def)
qed

lemma quiet_step:
  assumes "unpromoted s" "batch_ok s" "batch_step ev s = Some s'" "quiet ev"
  shows "todo s' < todo s \<and> unpromoted s' \<and> ntasks s' = ntasks s"
proof -
  have r: "sum_list (map (\<lambda>t. pc_rank (bt_pc t)) (b_tasks (upd i f s))) < sum_list (map (\<lambda>t. pc_rank (bt_pc t)) (b_tasks s))"
    if "i < ntasks s" "pc_rank (bt_pc (f (tk s i))) < pc_rank (bt_pc (tk s i))" for i f
    using rank_upd [of i s f] that by linarith
  show ?thesis using assms(3)
  proof (cases rule: batch_step_cases)
    case 1
    show ?thesis
    proof (cases ev)
      case (GoSend i)
      let ?f = "\<lambda>t. t\<lparr>bt_pc := GEnd, bt_slot := False\<rparr>"
      have i: "i < ntasks s" "bt_pc (tk s i) = GSend" "s' = upd i ?f (s\<lparr>b_doneCh := b_doneCh s @ [i]\<rparr>)" using GoSend 1 by (auto split: if_splits)
      have "sum_list (map (\<lambda>t. pc_rank (bt_pc t)) (b_tasks (upd i ?f s))) + 2 = sum_list (map (\<lambda>t. pc_rank (bt_pc t)) (b_tasks s))"
        using rank_upd [of i s ?f] i(1,2) by simp
      moreover have "b_tasks s' = b_tasks (upd i ?f s)" by (simp add: i(3) upd_def)
      ultimately show ?thesis using i assms(1) by (auto simp: todo_def unpromoted_def batch_simps)
    qed (use 1 assms(1,4) r in \<open>auto simp: todo_def unpromoted_def close_task_def batch_simps split: if_splits\<close>)
  next
    case 4
    then show ?thesis using assms(1,4) doneCh_ok [OF assms(2)]
      by (cases ev) (auto simp: todo_def unpromoted_def release_batch_def batch_simps split: if_splits list.splits)
  qed (use assms(4) in \<open>cases ev; simp\<close>)+
qed


lemma serial_prevs_before: "j < length bs \<Longrightarrow> serial_prevs k q bs ! j = Some p \<Longrightarrow> q = Some p \<or> k \<le> p \<and> p < k + j"
proof (induction bs arbitrary: k q j)
  case (Cons b bs)
  show ?case
  proof (cases j)
    case (Suc j')
    then show ?thesis using Cons.IH [of j' "Suc k" "if b then Some k else q"] Cons.prems by (auto split: if_splits)
  qed (use Cons.prems in simp)
qed simp

definition quiet_task :: "nat \<Rightarrow> batch_task \<Rightarrow> bool" where
  "quiet_task i t \<longleftrightarrow> (bt_slot t \<longrightarrow> bt_pc t \<in> {GRunning, GClosed, GSend}) \<and> (\<forall>p. bt_prev t = Some p \<longrightarrow> p < i) \<and>
     bt_done t = pc_done (bt_pc t) \<and> bt_pc t \<noteq> GDeliver"

definition quiet_ok :: "batch \<Rightarrow> bool" where
  "quiet_ok s \<longleftrightarrow> wait_ok s \<and> unpromoted s \<and> b_loop s \<in> {LWait, LReturned} \<and> (\<forall>i < ntasks s. quiet_task i (tk s i)) \<and> b_ctx s = None"

lemma quiet_task_of: "quiet_ok s \<Longrightarrow> i < ntasks s \<Longrightarrow> quiet_task i (tk s i)"
  by (simp add: quiet_ok_def)

lemma quiet_upd:
  "\<forall>j < ntasks s. quiet_task j (tk s j) \<Longrightarrow> i < ntasks s \<Longrightarrow> quiet_task i (f (tk s i)) \<Longrightarrow> \<forall>j < ntasks (upd i f s). quiet_task j (tk (upd i f s) j)"
  by (simp add: batch_simps)

lemma quiet_ok_step:
  assumes q: "quiet_ok s" and ok: "batch_ok s" and st: "batch_step ev s = Some s'" and e: "quiet ev"
  shows "quiet_ok s'"
proof -
  have "in_time ev s" using e by (cases ev) simp_all
  then have w: "wait_ok s'" using batch_step_wait [OF _ ok st] q by (simp add: quiet_ok_def)
  have up: "unpromoted s" using q by (simp add: quiet_ok_def)
  have u: "unpromoted s'" using quiet_step [OF up ok st e] by simp
  have ts: "\<forall>j < ntasks s. quiet_task j (tk s j)" and l: "b_loop s \<in> {LWait, LReturned}" "b_ctx s = None" using q by (simp_all add: quiet_ok_def)
  have "(\<forall>j < ntasks s'. quiet_task j (tk s' j)) \<and> b_loop s' \<in> {LWait, LReturned} \<and> b_ctx s' = None" using st
  proof (cases rule: batch_step_cases)
    case 1
    show ?thesis
    proof (cases ev)
      case (GoStart i)
      then obtain f where f: "i < ntasks s" "s' = upd i f s" "f = (\<lambda>t. t\<lparr>bt_pc := GWaitSem, bt_started := Some (b_now s)\<rparr>)" "bt_pc (tk s i) = GWaitPrev" using 1 by (auto split: if_splits)
      have "quiet_task i (f (tk s i))" using quiet_task_of [OF q f(1)] f(4) up f(1) by (auto simp: f(3) quiet_task_def close_task_def unpromoted_def)
      then show ?thesis using quiet_upd [OF ts f(1)] f(2) l by (simp add: upd_fields)
    next
      case (GoAcquire i)
      then obtain f where f: "i < ntasks s" "s' = upd i f s" "f = (\<lambda>t. t\<lparr>bt_pc := GRunning, bt_slot := 0 < b_cap s\<rparr>)" "bt_pc (tk s i) = GWaitSem" using 1 by (auto split: if_splits)
      have "quiet_task i (f (tk s i))" using quiet_task_of [OF q f(1)] f(4) up f(1) by (auto simp: f(3) quiet_task_def close_task_def unpromoted_def)
      then show ?thesis using quiet_upd [OF ts f(1)] f(2) l by (simp add: upd_fields)
    next
      case (GoReturn i r)
      then obtain f where f: "i < ntasks s" "s' = upd i f s" "f = (\<lambda>t. (close_task r t)\<lparr>bt_pc := GClosed, bt_lb := map_option lt_stop (bt_lb t)\<rparr>)" "bt_pc (tk s i) = GRunning"
        using 1 by (auto split: if_splits)
      have "quiet_task i (f (tk s i))" using quiet_task_of [OF q f(1)] f(4) up f(1) by (auto simp: f(3) quiet_task_def close_task_def unpromoted_def)
      then show ?thesis using quiet_upd [OF ts f(1)] f(2) l by (simp add: upd_fields)
    next
      case (GoCheck i)
      then obtain f where f: "i < ntasks s" "s' = upd i f s" "f = (\<lambda>t. t\<lparr>bt_pc := if bt_promoted t \<and> b_ctl s then GDeliver else GSend\<rparr>)" "bt_pc (tk s i) = GClosed"
        using 1 by (auto split: if_splits)
      have "quiet_task i (f (tk s i))" using quiet_task_of [OF q f(1)] f(4) up f(1) by (auto simp: f(3) quiet_task_def close_task_def unpromoted_def)
      then show ?thesis using quiet_upd [OF ts f(1)] f(2) l by (simp add: upd_fields)
    next
      case (GoSend i)
      then obtain f where f: "i < ntasks s" "s' = upd i f (s\<lparr>b_doneCh := b_doneCh s @ [i]\<rparr>)" "f = (\<lambda>t. t\<lparr>bt_pc := GEnd, bt_slot := False\<rparr>)" "bt_pc (tk s i) = GSend"
        using 1 by (auto split: if_splits)
      have "quiet_task i (f (tk s i))" using quiet_task_of [OF q f(1)] f(4) up f(1) by (auto simp: f(3) quiet_task_def close_task_def unpromoted_def)
      then show ?thesis using quiet_upd [of "s\<lparr>b_doneCh := b_doneCh s @ [i]\<rparr>" i f] ts f(1,2) l by (simp add: batch_simps)
    qed (use 1 e in simp_all)
  next
    case 4
    then show ?thesis using ts l e by (cases ev) (auto simp: release_batch_def batch_simps split: if_splits list.splits)
  qed (use e in \<open>cases ev; simp\<close>)+
  then show ?thesis using w u by (simp add: quiet_ok_def)
qed

lemma start_quiet: "quiet_ok (start_batch e ctl pa now calls)"
proof -
  have "b_loop (start_batch e ctl pa now calls) = LWait" "b_ctx (start_batch e ctl pa now calls) = None" by (simp_all add: start_batch_def Let_def)
  moreover have "p < i" if "i < length calls" "serial_prevs 0 None (map (is_serial e \<circ> fst) calls) ! i = Some p" for i p
    using serial_prevs_before [of i "map (is_serial e \<circ> fst) calls" 0 None p] that by simp
  ultimately show ?thesis using start_wait by (simp add: quiet_ok_def quiet_task_def unpromoted_def start_batch_tk launch_def)
qed

lemma unfinished_call_moves:
  assumes q: "quiet_ok s" and i: "i < ntasks s" "bt_pc (tk s i) \<noteq> GEnd" "\<forall>j < i. bt_pc (tk s j) = GEnd"
  shows "\<exists>ev s'. quiet ev \<and> batch_step ev s = Some s'"
proof (cases "bt_pc (tk s i)")
  case GWaitPrev
  have "case bt_prev (tk s i) of None \<Rightarrow> True | Some p \<Rightarrow> bt_done (tk s p)"
  proof (cases "bt_prev (tk s i)")
    case (Some p)
    then have p: "p < i" using quiet_task_of [OF q i(1)] by (simp add: quiet_task_def)
    then have "bt_done (tk s p) = pc_done (bt_pc (tk s p))" using quiet_task_of [OF q, of p] i(1) by (simp add: quiet_task_def)
    then show ?thesis using i(3) p Some by simp
  qed simp
  then show ?thesis using i(1) GWaitPrev by (intro exI [of _ "GoStart i"]) (simp add: batch_step_def)
next
  case GWaitSem
  show ?thesis
  proof (cases "b_cap s \<le> 0 \<or> slots_used s < b_cap s")
    case True
    then show ?thesis using i(1) GWaitSem by (intro exI [of _ "GoAcquire i"]) (simp add: batch_step_def)
  next
    case False
    have "slots_used s = 0" if "{j. j < ntasks s \<and> bt_slot (tk s j)} = {}" unfolding slots_card that by simp
    then obtain j where j: "j < ntasks s" "bt_slot (tk s j)" using False by fastforce
    then have "bt_pc (tk s j) \<in> {GRunning, GClosed, GSend}" using quiet_task_of [OF q] by (simp add: quiet_task_def)
    then consider "bt_pc (tk s j) = GRunning" | "bt_pc (tk s j) = GClosed" | "bt_pc (tk s j) = GSend" by blast
    then show ?thesis
    proof cases
      case 1
      then show ?thesis using j(1) by (intro exI [of _ "GoReturn j (blank_result [])"]) (simp add: batch_step_def)
    next
      case 2
      then show ?thesis using j(1) by (intro exI [of _ "GoCheck j"]) (simp add: batch_step_def)
    next
      case 3
      then show ?thesis using j(1) by (intro exI [of _ "GoSend j"]) (simp add: batch_step_def)
    qed
  qed
next
  case GRunning
  then show ?thesis using i(1) by (intro exI [of _ "GoReturn i (blank_result [])"]) (simp add: batch_step_def)
next
  case GClosed
  then show ?thesis using i(1) by (intro exI [of _ "GoCheck i"]) (simp add: batch_step_def)
next
  case GSend
  then show ?thesis using i(1) by (intro exI [of _ "GoSend i"]) (simp add: batch_step_def)
qed (use quiet_task_of [OF q i(1)] i in \<open>auto simp: quiet_task_def\<close>)

lemma quiet_progress:
  assumes q: "quiet_ok s" and n: "b_loop s \<noteq> LReturned"
  shows "\<exists>ev s'. quiet ev \<and> batch_step ev s = Some s'"
proof -
  have w: "b_loop s = LWait" "wait_ok s" "unpromoted s" using q n by (simp_all add: quiet_ok_def)
  show ?thesis
  proof (cases "b_pending s \<le> 0")
    case True
    then show ?thesis using w(1) by (intro exI [of _ LoopEnd]) (simp add: batch_step_def)
  next
    case False
    show ?thesis
    proof (cases "b_doneCh s")
      case (Cons i rest)
      then show ?thesis using w(1) False by (intro exI [of _ LoopDone]) (simp add: batch_step_def)
    next
      case Nil
      have "b_pending s = int (card (unsettled s))" using w(1,2) by (simp add: wait_ok_def)
      then have "unsettled s \<noteq> {}" using False by auto
      then obtain i where "i \<in> unsettled s" by blast
      then have i: "i < ntasks s" "\<not> got s i" by (simp_all add: unsettled_def)
      then have "bt_pc (tk s i) \<noteq> GEnd" using w(3) Nil by (simp add: got_def unpromoted_def)
      then have ex: "\<exists>i. i < ntasks s \<and> bt_pc (tk s i) \<noteq> GEnd" using i(1) by blast
      define m where "m = (LEAST i. i < ntasks s \<and> bt_pc (tk s i) \<noteq> GEnd)"
      have m: "m < ntasks s" "bt_pc (tk s m) \<noteq> GEnd" using LeastI_ex [OF ex] by (simp_all add: m_def)
      have "\<forall>j < m. bt_pc (tk s j) = GEnd"
      proof (intro allI impI)
        fix j assume j: "j < m"
        then have "\<not> (j < ntasks s \<and> bt_pc (tk s j) \<noteq> GEnd)" unfolding m_def by (rule not_less_Least)
        then show "bt_pc (tk s j) = GEnd" using j m(1) by simp
      qed
      then show ?thesis using unfinished_call_moves [OF q m] by simp
    qed
  qed
qed

lemma quiet_run_length:
  "unpromoted s \<Longrightarrow> batch_ok s \<Longrightarrow> batch_run evs s = Some s' \<Longrightarrow> list_all quiet evs \<Longrightarrow> length evs + todo s' \<le> todo s"
proof (induction evs arbitrary: s)
  case (Cons ev evs)
  obtain s1 where s1: "batch_step ev s = Some s1" "batch_run evs s1 = Some s'" using Cons.prems(3) by (auto simp: bind_eq_Some_conv)
  have q: "quiet ev" "list_all quiet evs" using Cons.prems(4) by simp_all
  note step = quiet_step [OF Cons.prems(1,2) s1(1) q(1)]
  have "length evs + todo s' \<le> todo s1" by (rule Cons.IH [OF _ batch_step_ok [OF Cons.prems(2) s1(1)] s1(2) q(2)]) (rule step [THEN conjunct2, THEN conjunct1])
  then show ?case using step [THEN conjunct1] by simp
qed simp

lemma todo_start: "todo (start_batch e ctl pa now calls) = 6 * length calls + 1"
proof -
  let ?s = "start_batch e ctl pa now calls"
  have "map (\<lambda>t. pc_rank (bt_pc t)) (b_tasks ?s) = replicate (length calls) 6"
  proof (rule nth_equalityI)
    show "length (map (\<lambda>t. pc_rank (bt_pc t)) (b_tasks ?s)) = length (replicate (length calls) 6)"
      using start_batch_tk(1) [of e ctl pa now calls] by (simp add: ntasks_def)
    then show "map (\<lambda>t. pc_rank (bt_pc t)) (b_tasks ?s) ! i = replicate (length calls) 6 ! i" if "i < length (map (\<lambda>t. pc_rank (bt_pc t)) (b_tasks ?s))" for i
      using that start_batch_tk(2) [of i calls e ctl pa now] by (simp add: tk_def launch_def)
  qed
  then show ?thesis by (simp add: todo_def sum_list_replicate) (simp add: start_batch_def Let_def)
qed

text \<open>C18. A batch in which no call is moved away, cancelled or interrupted returns: it makes at most six steps per call
  and one more, it can always go on as long as it has not returned (no call waits for ever for its turn or for a
  free place), and when it has returned its results are, in the order of the calls, what the tools have returned.\<close>

theorem quiet_batch_returns:
  assumes "batch_run evs (start_batch e ctl pa now calls) = Some s" "list_all quiet evs"
  shows "length evs \<le> 6 * length calls + 1 \<and>
    (b_loop s = LReturned \<and> b_results s = map bt_result (b_tasks s) \<or> (\<exists>ev s'. quiet ev \<and> batch_step ev s = Some s'))"
proof -
  note ok = batch_run_start [OF assms(1)]
  have q: "quiet_ok s" by (rule batch_run_invariant [of quiet_ok, OF start_quiet start_batch_ok assms(1,2)]) (rule quiet_ok_step)
  have "unpromoted (start_batch e ctl pa now calls)" using start_quiet by (simp add: quiet_ok_def)
  then have len: "length evs \<le> 6 * length calls + 1" using quiet_run_length [OF _ start_batch_ok assms] by (simp add: todo_start)
  show ?thesis
  proof (cases "b_loop s = LReturned")
    case True
    have "b_results s = map bt_result (b_tasks s)"
    proof (rule nth_equalityI)
      show "length (b_results s) = length (map bt_result (b_tasks s))" using results_length [OF ok(1)] by (simp add: ntasks_def)
      fix i assume "i < length (b_results s)"
      then have i: "i < ntasks s" using results_length [OF ok(1)] by simp
      then have "settled s i" "\<not> bt_ph (tk s i)" "b_ctx s = None"
        using q True call_ok_of [OF ok(1) i] by (auto simp: quiet_ok_def wait_ok_def unpromoted_def call_ok_def)
      then show "b_results s ! i = map bt_result (b_tasks s) ! i" using i by (simp add: settled_def tk_def ntasks_def)
    qed
    then show ?thesis using len True by blast
  next
    case False
    then show ?thesis using len quiet_progress [OF q] by blast
  qed
qed

theorem quiet_batch_returns_witness:
  "\<exists>s. batch_run [GoStart 0, GoAcquire 0, GoReturn 0 (blank_result ''x''), GoStart 1, GoAcquire 1] (two_start 0) = Some s \<and>
     (b_loop s = LReturned \<and> b_results s = map bt_result (b_tasks s) \<or> (\<exists>ev s'. quiet ev \<and> batch_step ev s = Some s'))"
proof -
  obtain s where s: "batch_run [GoStart 0, GoAcquire 0, GoReturn 0 (blank_result ''x''), GoStart 1, GoAcquire 1] (two_start 0) = Some s"
    using second_runs by (elim exE conjE) (rule that)
  have "list_all quiet [GoStart 0, GoAcquire 0, GoReturn 0 (blank_result ''x''), GoStart 1, GoAcquire 1]" by simp
  then show ?thesis using quiet_batch_returns [OF s [unfolded two_start_def]] s by (intro exI [of _ s] conjI) blast+
qed

end
