(* ===== verification/ApprovalQueue.thy ===== *)
theory ApprovalQueue
  imports ToolEngine
begin

text \<open>
  The approvals of a session (\<open>session/approval.go\<close>): one queue that the main agent and all its sub-agents share,
  of which only the head is shown to the user and can be decided. Every goroutine that asks is a
  request with a place in its code; a step is one critical section together with the channel
  operation that belongs to it. The contexts of the callers, the timer and the user are events.
\<close>

section \<open>Requests\<close>

datatype approval_error =
  ErrSessionClosed | ErrDuplicateApproval | ErrNoPendingApproval | ErrApprovalNotHead | ErrApprovalTimeout | ApprovalCanceled | ApprovalCtx string

record approval_outcome =
  ao_approved :: bool
  ao_err :: "approval_error option"

text \<open>A caller waits for its turn, is shown to the user and waits for the decision, or has its answer.\<close>

datatype approval_place = AwaitTurn | Shown | Answered approval_outcome

record approval_request =
  ar_call :: tool_call
  ar_ready :: bool
  ar_outcome :: "approval_outcome option"
  ar_place :: approval_place

text \<open>\<open>aw_reqs\<close> are all requests ever registered; the queue and the table of waits hold their numbers.\<close>

record approval_waiter =
  aw_timeout :: int
  aw_reqs :: "approval_request list"
  aw_queue :: "nat list"
  aw_waits :: "(string \<times> nat) list"
  aw_closed :: bool

definition defaultApprovalTimeout :: int where "defaultApprovalTimeout = 30 * 60 * 1000000000"
definition MaxApprovalTimeout :: int where "MaxApprovalTimeout = 30 * 60 * 1000000000"

definition newApprovalWaiter :: "int \<Rightarrow> approval_waiter" where
  "newApprovalWaiter timeout =
     (let t = (if timeout \<le> 0 then defaultApprovalTimeout else timeout) in
      \<lparr>aw_timeout = (if MaxApprovalTimeout < t then MaxApprovalTimeout else t), aw_reqs = [], aw_queue = [], aw_waits = [], aw_closed = False\<rparr>)"

definition set_req :: "nat \<Rightarrow> (approval_request \<Rightarrow> approval_request) \<Rightarrow> approval_waiter \<Rightarrow> approval_waiter" where
  "set_req i f w = w\<lparr>aw_reqs := (aw_reqs w)[i := f (aw_reqs w ! i)]\<rparr>"

definition req :: "approval_waiter \<Rightarrow> nat \<Rightarrow> approval_request" where "req w i = aw_reqs w ! i"

definition req_id :: "approval_waiter \<Rightarrow> nat \<Rightarrow> string" where "req_id w i = tc_id (ar_call (req w i))"

section \<open>Operations\<close>

definition register :: "tool_call \<Rightarrow> approval_waiter \<Rightarrow> (approval_error + nat) \<times> approval_waiter" where
  "register call w =
     (if aw_closed w then (Inl ErrSessionClosed, w)
      else if map_of (aw_waits w) (tc_id call) \<noteq> None then (Inl ErrDuplicateApproval, w)
      else let i = length (aw_reqs w) in
        (Inr i, w\<lparr>aw_reqs := aw_reqs w @ [\<lparr>ar_call = call, ar_ready = (aw_queue w = []), ar_outcome = None, ar_place = AwaitTurn\<rparr>],
                  aw_queue := aw_queue w @ [i], aw_waits := AList.update (tc_id call) i (aw_waits w)\<rparr>))"

text \<open>\<open>removeLocked\<close>: take a request out and wake the next one if it was the head.\<close>

definition removeLocked :: "nat \<Rightarrow> approval_waiter \<Rightarrow> bool \<times> approval_waiter" where
  "removeLocked i w =
     (if map_of (aw_waits w) (req_id w i) \<noteq> Some i then (False, w)
      else let waits = AList.delete (req_id w i) (aw_waits w) in
        if i \<notin> set (aw_queue w) then (False, w\<lparr>aw_waits := waits\<rparr>)
        else let wasHead = (hd (aw_queue w) = i); queue = remove1 i (aw_queue w); w1 = w\<lparr>aw_queue := queue, aw_waits := waits\<rparr> in
          (True, if wasHead \<and> queue \<noteq> [] then set_req (hd queue) (\<lambda>r. r\<lparr>ar_ready := True\<rparr>) w1 else w1))"

definition approval_cancel :: "nat \<Rightarrow> approval_outcome \<Rightarrow> approval_waiter \<Rightarrow> bool \<times> approval_waiter" where
  "approval_cancel i out w =
     (case removeLocked i w of (True, w1) \<Rightarrow> (True, set_req i (\<lambda>r. r\<lparr>ar_outcome := Some out\<rparr>) w1) | (False, w1) \<Rightarrow> (False, w1))"

definition decide :: "string \<Rightarrow> bool \<Rightarrow> approval_waiter \<Rightarrow> approval_error option \<times> approval_waiter" where
  "decide i approve w =
     (case map_of (aw_waits w) i of
        None \<Rightarrow> (Some ErrNoPendingApproval, w)
      | Some r \<Rightarrow>
          if aw_queue w = [] \<or> hd (aw_queue w) \<noteq> r then (Some ErrApprovalNotHead, w)
          else (case removeLocked r w of
              (False, w1) \<Rightarrow> (Some ErrNoPendingApproval, w1)
            | (True, w1) \<Rightarrow> (None, set_req r (\<lambda>x. x\<lparr>ar_outcome := Some \<lparr>ao_approved = approve, ao_err = None\<rparr>\<rparr>) w1)))"

definition approval_close :: "approval_waiter \<Rightarrow> approval_waiter" where
  "approval_close w =
     (if aw_closed w then w
      else fold (\<lambda>i. set_req i (\<lambda>r. r\<lparr>ar_outcome := Some \<lparr>ao_approved = False, ao_err = Some ApprovalCanceled\<rparr>\<rparr>)) (aw_queue w)
             (w\<lparr>aw_closed := True, aw_queue := [], aw_waits := []\<rparr>))"

section \<open>Steps\<close>

datatype approval_event =
    ApRegister tool_call
  | ApDecide string bool
  | ApClose
  | ApTurn nat
  | ApTurnCtx nat string
  | ApTurnClosed nat
  | ApOutcome nat
  | ApShownCtx nat string
  | ApShownTimeout nat
  | ApShownClosed nat

definition answer :: "nat \<Rightarrow> approval_outcome \<Rightarrow> approval_waiter \<Rightarrow> approval_waiter" where
  "answer i out w = set_req i (\<lambda>r. r\<lparr>ar_place := Answered out\<rparr>) w"

definition failed_outcome :: "approval_error \<Rightarrow> approval_outcome" where
  "failed_outcome e = \<lparr>ao_approved = False, ao_err = Some e\<rparr>"

text \<open>\<open>waitFunc\<close> on one of its three other channels: leave with \<open>err\<close> if the request is still queued, else take
  the outcome that ended it.\<close>

definition leave_wait :: "nat \<Rightarrow> approval_outcome \<Rightarrow> approval_error \<Rightarrow> approval_waiter \<Rightarrow> approval_waiter option" where
  "leave_wait i out err w =
     (case approval_cancel i out w of
        (True, w1) \<Rightarrow> Some (answer i (failed_outcome err) w1)
      | (False, w1) \<Rightarrow> map_option (\<lambda>o1. answer i o1 w1) (ar_outcome (req w1 i)))"

text \<open>\<open>awaitTurn\<close> with its context at an end.\<close>

definition leave_turn :: "nat \<Rightarrow> string \<Rightarrow> approval_waiter \<Rightarrow> approval_waiter" where
  "leave_turn i err w =
     (case approval_cancel i (failed_outcome (ApprovalCtx err)) w of
        (True, w1) \<Rightarrow> answer i (failed_outcome (ApprovalCtx err)) w1
      | (False, w1) \<Rightarrow>
          if ar_ready (req w1 i) then set_req i (\<lambda>r. r\<lparr>ar_place := Shown\<rparr>) w1 else answer i (failed_outcome (ApprovalCtx err)) w1)"

definition at_place :: "approval_waiter \<Rightarrow> nat \<Rightarrow> approval_place \<Rightarrow> bool" where
  "at_place w i p \<longleftrightarrow> i < length (aw_reqs w) \<and> ar_place (req w i) = p"

fun approval_step :: "approval_event \<Rightarrow> approval_waiter \<Rightarrow> approval_waiter option" where
  "approval_step (ApRegister call) w = Some (snd (register call w))"
| "approval_step (ApDecide i ok) w = Some (snd (decide i ok w))"
| "approval_step ApClose w = Some (approval_close w)"
| "approval_step (ApTurn i) w =
     (if at_place w i AwaitTurn \<and> ar_ready (req w i) then Some (set_req i (\<lambda>r. r\<lparr>ar_place := Shown\<rparr>) w) else None)"
| "approval_step (ApTurnCtx i err) w = (if at_place w i AwaitTurn then Some (leave_turn i err w) else None)"
| "approval_step (ApTurnClosed i) w =
     (if at_place w i AwaitTurn \<and> aw_closed w then Some (answer i (failed_outcome ErrSessionClosed) w) else None)"
| "approval_step (ApOutcome i) w =
     (if at_place w i Shown then map_option (\<lambda>o1. answer i o1 w) (ar_outcome (req w i)) else None)"
| "approval_step (ApShownCtx i err) w =
     (if at_place w i Shown then leave_wait i (failed_outcome (ApprovalCtx err)) (ApprovalCtx err) w else None)"
| "approval_step (ApShownTimeout i) w =
     (if at_place w i Shown then leave_wait i \<lparr>ao_approved = False, ao_err = None\<rparr> ErrApprovalTimeout w else None)"
| "approval_step (ApShownClosed i) w =
     (if at_place w i Shown \<and> aw_closed w then leave_wait i (failed_outcome ApprovalCanceled) ApprovalCanceled w else None)"

fun approval_run :: "approval_event list \<Rightarrow> approval_waiter \<Rightarrow> approval_waiter option" where
  "approval_run [] w = Some w"
| "approval_run (ev # evs) w = Option.bind (approval_step ev w) (approval_run evs)"

text \<open>What the engine gets: the error of the registration, or what waiting has ended in.\<close>

definition begin_result_of :: "approval_outcome \<Rightarrow> (approval_error \<Rightarrow> string) \<Rightarrow> begin_result" where
  "begin_result_of out text =
     (case ao_err out of
        None \<Rightarrow> Waits (Approved (ao_approved out))
      | Some ErrApprovalTimeout \<Rightarrow> Waits WindowExpired
      | Some e \<Rightarrow> Waits (WaitFails (text e)))"

section \<open>The queue is consistent\<close>

text \<open>The requests in the queue are exactly those in the table, under their ids; the head alone is ready.\<close>

definition queue_ok :: "approval_waiter \<Rightarrow> bool" where
  "queue_ok w \<longleftrightarrow> distinct (aw_queue w) \<and> distinct (map fst (aw_waits w)) \<and>
     (\<forall>i x. map_of (aw_waits w) x = Some i \<longleftrightarrow> i \<in> set (aw_queue w) \<and> req_id w i = x) \<and>
     (\<forall>i \<in> set (aw_queue w). i < length (aw_reqs w) \<and> ar_outcome (req w i) = None \<and>
        (ar_ready (req w i) \<longleftrightarrow> i = hd (aw_queue w)) \<and> (ar_place (req w i) = AwaitTurn \<or> ar_ready (req w i) \<and> ar_place (req w i) = Shown)) \<and>
     (\<forall>i < length (aw_reqs w). i \<notin> set (aw_queue w) \<and> ar_place (req w i) = Shown \<longrightarrow> ar_outcome (req w i) \<noteq> None) \<and>
     (\<forall>i < length (aw_reqs w). i \<notin> set (aw_queue w) \<and> ar_place (req w i) = AwaitTurn \<longrightarrow> ar_outcome (req w i) \<noteq> None \<and> (ar_ready (req w i) \<or> aw_closed w)) \<and>
     (aw_closed w \<longrightarrow> aw_queue w = []) \<and> sorted (aw_queue w)"

lemma req_set: "i < length (aw_reqs w) \<Longrightarrow> req (set_req i f w) j = (if j = i then f (req w i) else req w j)"
  by (simp add: req_def set_req_def)

lemma set_req_fields [simp]:
  "aw_queue (set_req i f w) = aw_queue w" "aw_waits (set_req i f w) = aw_waits w" "aw_closed (set_req i f w) = aw_closed w"
  "length (aw_reqs (set_req i f w)) = length (aw_reqs w)" "aw_timeout (set_req i f w) = aw_timeout w"
  by (simp_all add: set_req_def)

lemma req_fields [simp]:
  "req (w\<lparr>aw_queue := q\<rparr>) = req w" "req (w\<lparr>aw_waits := t\<rparr>) = req w" "req (w\<lparr>aw_closed := c\<rparr>) = req w"
  by (simp_all add: req_def fun_eq_iff)

lemma queue_okD:
  assumes "queue_ok w" "i \<in> set (aw_queue w)"
  shows "i < length (aw_reqs w)" "ar_outcome (req w i) = None" "ar_ready (req w i) \<longleftrightarrow> i = hd (aw_queue w)" "map_of (aw_waits w) (req_id w i) = Some i"
  using assms by (auto simp: queue_ok_def)

lemma not_queued: "queue_ok w \<Longrightarrow> i \<notin> set (aw_queue w) \<Longrightarrow> removeLocked i w = (False, w)"
  by (simp add: removeLocked_def queue_ok_def)

lemma queue_id_inj: "queue_ok w \<Longrightarrow> i \<in> set (aw_queue w) \<Longrightarrow> j \<in> set (aw_queue w) \<Longrightarrow> req_id w i = req_id w j \<Longrightarrow> i = j"
  by (metis queue_okD(4) option.inject)

text \<open>Taking a queued request out, in one step with its own change \<open>f\<close>.\<close>

definition take_out :: "nat \<Rightarrow> (approval_request \<Rightarrow> approval_request) \<Rightarrow> approval_waiter \<Rightarrow> approval_waiter" where
  "take_out i f w = set_req i f (snd (removeLocked i w))"

lemma removeLocked_queued:
  assumes "queue_ok w" "i \<in> set (aw_queue w)"
  shows "fst (removeLocked i w)" "aw_queue (snd (removeLocked i w)) = remove1 i (aw_queue w)"
    "aw_waits (snd (removeLocked i w)) = AList.delete (req_id w i) (aw_waits w)" "aw_closed (snd (removeLocked i w)) = aw_closed w"
    "length (aw_reqs (snd (removeLocked i w))) = length (aw_reqs w)"
    "req (snd (removeLocked i w)) j =
       (if i = hd (aw_queue w) \<and> remove1 i (aw_queue w) \<noteq> [] \<and> j = hd (remove1 i (aw_queue w)) then (req w j)\<lparr>ar_ready := True\<rparr> else req w j)"
proof -
  note q = queue_okD [OF assms]
  have h: "hd (remove1 i (aw_queue w)) < length (aw_reqs w)" if "remove1 i (aw_queue w) \<noteq> []"
    by (rule queue_okD(1) [OF assms(1)], rule subsetD [OF set_remove1_subset], rule hd_in_set [OF that])
  let ?w1 = "w\<lparr>aw_queue := remove1 i (aw_queue w), aw_waits := AList.delete (req_id w i) (aw_waits w)\<rparr>"
  have eq: "removeLocked i w = (True, if hd (aw_queue w) = i \<and> remove1 i (aw_queue w) \<noteq> []
      then set_req (hd (remove1 i (aw_queue w))) (\<lambda>r. r\<lparr>ar_ready := True\<rparr>) ?w1 else ?w1)"
    using q(4) assms(2) unfolding removeLocked_def Let_def by presburger
  have h1: "hd (remove1 i (aw_queue w)) < length (aw_reqs ?w1)" if "remove1 i (aw_queue w) \<noteq> []" using h [OF that] by simp
  show "fst (removeLocked i w)" "aw_queue (snd (removeLocked i w)) = remove1 i (aw_queue w)"
    "aw_waits (snd (removeLocked i w)) = AList.delete (req_id w i) (aw_waits w)" "aw_closed (snd (removeLocked i w)) = aw_closed w"
    "length (aw_reqs (snd (removeLocked i w))) = length (aw_reqs w)"
    unfolding eq by simp_all
  show "req (snd (removeLocked i w)) j =
       (if i = hd (aw_queue w) \<and> remove1 i (aw_queue w) \<noteq> [] \<and> j = hd (remove1 i (aw_queue w)) then (req w j)\<lparr>ar_ready := True\<rparr> else req w j)"
  proof (cases "hd (aw_queue w) = i \<and> remove1 i (aw_queue w) \<noteq> []")
    case True
    then have h2: "hd (remove1 i (aw_queue w)) < length (aw_reqs ?w1)" using h1 by blast
    have w1: "req ?w1 = req w" by simp
    have e1: "snd (removeLocked i w) = set_req (hd (remove1 i (aw_queue w))) (\<lambda>r. r\<lparr>ar_ready := True\<rparr>) ?w1" using True unfolding eq by simp
    have "i = hd (aw_queue w) \<and> remove1 i (aw_queue w) \<noteq> []" using True by blast
    then show ?thesis unfolding e1 req_set [OF h2] w1 by (cases "j = hd (remove1 i (aw_queue w))") auto
  next
    case False
    have w1: "req ?w1 = req w" by simp
    have e1: "snd (removeLocked i w) = ?w1" using False unfolding eq by (simp only: if_False snd_conv)
    have "\<not> (i = hd (aw_queue w) \<and> remove1 i (aw_queue w) \<noteq> [] \<and> j = hd (remove1 i (aw_queue w)))" using False by blast
    then show ?thesis unfolding e1 w1 by (simp only: if_False)
  qed
qed

lemma hd_remove1: "distinct q \<Longrightarrow> i \<noteq> hd q \<Longrightarrow> i \<in> set q \<Longrightarrow> hd (remove1 i q) = hd q \<and> remove1 i q \<noteq> []"
  by (cases q) auto

lemma take_out_req:
  assumes "queue_ok w" "i \<in> set (aw_queue w)"
  shows "req (take_out i f w) j =
    (if j = i then f (req w i) else if j \<in> set (aw_queue w) then (req w j)\<lparr>ar_ready := (j = hd (remove1 i (aw_queue w)))\<rparr> else req w j)"
proof -
  note r = removeLocked_queued [OF assms]
  have d: "distinct (aw_queue w)" using assms(1) by (simp add: queue_ok_def)
  have len: "i < length (aw_reqs (snd (removeLocked i w)))" using queue_okD(1) [OF assms] r(5) by simp
  have ready: "ar_ready (req w j) \<longleftrightarrow> j = hd (aw_queue w)" if "j \<in> set (aw_queue w)" for j using queue_okD(3) [OF assms(1) that] .
  have same: "(req w j)\<lparr>ar_ready := ar_ready (req w j)\<rparr> = req w j" for j by simp
  show ?thesis
  proof (cases "j = i")
    case True
    have "i \<noteq> hd (remove1 i (aw_queue w))" if "remove1 i (aw_queue w) \<noteq> []"
      using hd_in_set [OF that] d by auto
    then show ?thesis using True len by (auto simp: take_out_def req_set r(6))
  next
    case False
    show ?thesis
    proof (cases "j \<in> set (aw_queue w)")
      case True
      then have jq: "j \<in> set (remove1 i (aw_queue w))" using False by simp
      show ?thesis
      proof (cases "i = hd (aw_queue w)")
        case True
        then have "\<not> ar_ready (req w j)" using ready [OF \<open>j \<in> set (aw_queue w)\<close>] False by simp
        then have k: "(req w j)\<lparr>ar_ready := False\<rparr> = req w j" using same [of j] by simp
        have ne: "remove1 i (aw_queue w) \<noteq> []" using jq by auto
        have "req (take_out i f w) j = req (snd (removeLocked i w)) j" using False by (simp add: take_out_def req_set [OF len])
        then show ?thesis using True False \<open>j \<in> set (aw_queue w)\<close> ne k unfolding r(6) by simp
      next
        case other: False
        then have "hd (remove1 i (aw_queue w)) = hd (aw_queue w)" using hd_remove1 [OF d other assms(2)] by simp
        then show ?thesis using other False \<open>j \<in> set (aw_queue w)\<close> len ready same [of j] by (auto simp: take_out_def req_set r(6))
      qed
    next
      case notin: False
      have "j \<noteq> hd (remove1 i (aw_queue w))" if "remove1 i (aw_queue w) \<noteq> []"
        using hd_in_set [OF that] notin set_remove1_subset [of i "aw_queue w"] by auto
      then show ?thesis using False notin len by (auto simp: take_out_def req_set r(6))
    qed
  qed
qed

lemma take_out_ok:
  assumes ok: "queue_ok w" and i: "i \<in> set (aw_queue w)"
    and f: "ar_call (f (req w i)) = ar_call (req w i)" "ar_outcome (f (req w i)) \<noteq> None"
      "ar_place (f (req w i)) = AwaitTurn \<Longrightarrow> ar_ready (f (req w i))"
  shows "queue_ok (take_out i f w)"
proof -
  let ?w = "take_out i f w" and ?q = "aw_queue w"
  note r = removeLocked_queued [OF ok i]
  have d: "distinct ?q" "distinct (map fst (aw_waits w))" "sorted ?q" using ok by (auto simp: queue_ok_def)
  have q: "aw_queue ?w = remove1 i ?q" "set (aw_queue ?w) = set ?q - {i}" "length (aw_reqs ?w) = length (aw_reqs w)" "aw_closed ?w = aw_closed w"
    using r d(1) by (simp_all add: take_out_def)
  have waits: "map_of (aw_waits ?w) x = (if x = req_id w i then None else map_of (aw_waits w) x)" for x
    using r(3) by (simp add: take_out_def delete_conv' )
  have ids: "req_id ?w j = req_id w j" for j using f(1) by (simp add: req_id_def take_out_req [OF ok i])
  have tab: "map_of (aw_waits ?w) x = Some j \<longleftrightarrow> j \<in> set (aw_queue ?w) \<and> req_id ?w j = x" for x j
  proof -
    have "map_of (aw_waits w) x = Some j \<longleftrightarrow> j \<in> set ?q \<and> req_id w j = x" using ok unfolding queue_ok_def by blast
    moreover have "j = i" if "j \<in> set ?q" "req_id w j = req_id w i" using queue_id_inj [OF ok that(1) i that(2)] .
    ultimately show ?thesis using q(2) by (auto simp: waits ids)
  qed
  have "\<forall>j \<in> set (aw_queue ?w). j < length (aw_reqs ?w) \<and> ar_outcome (req ?w j) = None \<and>
        (ar_ready (req ?w j) \<longleftrightarrow> j = hd (aw_queue ?w)) \<and> (ar_place (req ?w j) = AwaitTurn \<or> ar_ready (req ?w j) \<and> ar_place (req ?w j) = Shown)"
  proof
    fix j assume "j \<in> set (aw_queue ?w)"
    then have j: "j \<in> set ?q" "j \<noteq> i" using q(2) by auto
    have "ar_place (req w j) = AwaitTurn \<or> j = hd ?q \<and> ar_place (req w j) = Shown" using ok j(1) by (auto simp: queue_ok_def)
    moreover have "j = hd ?q \<Longrightarrow> j = hd (remove1 i ?q)" using j hd_remove1 [OF d(1) _ i] by auto
    ultimately show "j < length (aw_reqs ?w) \<and> ar_outcome (req ?w j) = None \<and>
        (ar_ready (req ?w j) \<longleftrightarrow> j = hd (aw_queue ?w)) \<and> (ar_place (req ?w j) = AwaitTurn \<or> ar_ready (req ?w j) \<and> ar_place (req ?w j) = Shown)"
      using j queue_okD [OF ok j(1)] by (auto simp: take_out_req [OF ok i] q)
  qed
  moreover have "\<forall>j < length (aw_reqs ?w). j \<notin> set (aw_queue ?w) \<and> ar_place (req ?w j) = Shown \<longrightarrow> ar_outcome (req ?w j) \<noteq> None"
    using ok f(2) by (auto simp: take_out_req [OF ok i] q queue_ok_def)
  moreover have "\<forall>j < length (aw_reqs ?w). j \<notin> set (aw_queue ?w) \<and> ar_place (req ?w j) = AwaitTurn \<longrightarrow> ar_outcome (req ?w j) \<noteq> None \<and> (ar_ready (req ?w j) \<or> aw_closed ?w)"
    using ok f(2,3) by (auto simp: take_out_req [OF ok i] q queue_ok_def)
  moreover have "distinct (map fst (aw_waits ?w))" using r(3) d(2) by (simp add: take_out_def distinct_delete)
  moreover have "aw_closed ?w \<longrightarrow> aw_queue ?w = []" using ok by (auto simp: q queue_ok_def)
  moreover have "sorted (aw_queue ?w)" using d(3) by (simp add: q(1) sorted_remove1)
  moreover have "distinct (aw_queue ?w)" using d(1) by (simp add: q(1))
  ultimately show ?thesis using tab unfolding queue_ok_def by blast
qed


section \<open>Every step keeps the queue consistent\<close>

lemma cancel_queued:
  "queue_ok w \<Longrightarrow> i \<in> set (aw_queue w) \<Longrightarrow> approval_cancel i out w = (True, take_out i (\<lambda>r. r\<lparr>ar_outcome := Some out\<rparr>) w)"
  using removeLocked_queued(1) [of w i] by (cases "removeLocked i w") (simp add: approval_cancel_def take_out_def)

lemma cancel_gone: "queue_ok w \<Longrightarrow> i \<notin> set (aw_queue w) \<Longrightarrow> approval_cancel i out w = (False, w)"
  by (simp add: approval_cancel_def not_queued)

lemma answer_take_out:
  "i < length (aw_reqs w) \<Longrightarrow> queue_ok w \<Longrightarrow> i \<in> set (aw_queue w) \<Longrightarrow>
    answer i out (take_out i f w) = take_out i (\<lambda>r. (f r)\<lparr>ar_place := Answered out\<rparr>) w"
  using removeLocked_queued(5) [of w i] by (simp add: answer_def take_out_def set_req_def)

lemma set_place_ok:
  assumes ok: "queue_ok w" and i: "i < length (aw_reqs w)" "p \<noteq> AwaitTurn"
    and p: "i \<in> set (aw_queue w) \<Longrightarrow> p = Shown \<and> ar_ready (req w i)" "i \<notin> set (aw_queue w) \<Longrightarrow> p = Shown \<Longrightarrow> ar_outcome (req w i) \<noteq> None"
  shows "queue_ok (set_req i (\<lambda>r. r\<lparr>ar_place := p\<rparr>) w)"
proof -
  let ?w = "set_req i (\<lambda>r. r\<lparr>ar_place := p\<rparr>) w"
  have r: "req ?w j = (if j = i then (req w i)\<lparr>ar_place := p\<rparr> else req w j)" for j by (rule req_set [OF i(1)])
  have ids: "req_id ?w j = req_id w j" for j by (simp add: req_id_def r)
  show ?thesis using ok i(2) p unfolding queue_ok_def set_req_fields ids by (intro conjI) (auto simp: r)
qed

lemma new_queue_ok: "queue_ok (newApprovalWaiter t)"
  by (simp add: queue_ok_def newApprovalWaiter_def Let_def)

lemma register_ok:
  assumes ok: "queue_ok w" shows "queue_ok (snd (register call w))"
proof (cases "aw_closed w \<or> map_of (aw_waits w) (tc_id call) \<noteq> None")
  case True
  then show ?thesis using ok by (auto simp: register_def)
next
  case False
  let ?n = "length (aw_reqs w)" and ?w = "snd (register call w)"
  let ?r = "\<lparr>ar_call = call, ar_ready = (aw_queue w = []), ar_outcome = None, ar_place = AwaitTurn\<rparr>"
  have f: "aw_queue ?w = aw_queue w @ [?n]" "aw_waits ?w = AList.update (tc_id call) ?n (aw_waits w)" "aw_closed ?w = aw_closed w"
    "aw_reqs ?w = aw_reqs w @ [?r]" using False by (simp_all add: register_def Let_def)
  have r: "req ?w j = (if j = ?n then ?r else req w j)" if "j \<le> ?n" for j using that by (auto simp: req_def f(4) nth_append)
  have lt: "j < ?n" if "j \<in> set (aw_queue w)" for j using queue_okD(1) [OF ok that] .
  have hd: "hd (aw_queue ?w) = (if aw_queue w = [] then ?n else hd (aw_queue w))" by (simp add: f(1))
  have tab: "map_of (aw_waits ?w) x = Some j \<longleftrightarrow> j \<in> set (aw_queue ?w) \<and> req_id ?w j = x" for x j
  proof -
    have old: "map_of (aw_waits w) x = Some j \<longleftrightarrow> j \<in> set (aw_queue w) \<and> req_id w j = x" using ok unfolding queue_ok_def by blast
    have new: "req_id w k \<noteq> tc_id call" if "k \<in> set (aw_queue w)" for k using queue_okD(4) [OF ok that] False by auto
    have same: "req_id ?w k = req_id w k" if "k \<in> set (aw_queue w)" for k using lt [OF that] r [of k] by (simp add: req_id_def)
    have last: "req_id ?w ?n = tc_id call" using r [of ?n] by (simp add: req_id_def)
    show ?thesis
    proof (cases "j = ?n")
      case True
      have "?n \<notin> set (aw_queue w)" using lt by auto
      then show ?thesis using True old last by (auto simp: f update_conv')
    next
      case False
      then show ?thesis using old new same by (auto simp: f update_conv')
    qed
  qed
  have q: "j < length (aw_reqs ?w) \<and> ar_outcome (req ?w j) = None \<and> (ar_ready (req ?w j) \<longleftrightarrow> j = hd (aw_queue ?w)) \<and>
      (ar_place (req ?w j) = AwaitTurn \<or> ar_ready (req ?w j) \<and> ar_place (req ?w j) = Shown)" if "j \<in> set (aw_queue ?w)" for j
  proof (cases "j = ?n")
    case True
    have "?n \<noteq> hd (aw_queue w)" if "aw_queue w \<noteq> []" using lt [OF hd_in_set [OF that]] by simp
    then show ?thesis using True r [of ?n] by (simp add: f(4) hd)
  next
    case False
    then have j: "j \<in> set (aw_queue w)" using that by (simp add: f(1))
    then have "aw_queue w \<noteq> []" by auto
    moreover have "ar_place (req w j) = AwaitTurn \<or> ar_ready (req w j) \<and> ar_place (req w j) = Shown" using ok j unfolding queue_ok_def by blast
    ultimately show ?thesis using queue_okD [OF ok j] r [of j] by (simp add: f(4) hd)
  qed
  have out: "(ar_place (req ?w j) = Shown \<longrightarrow> ar_outcome (req ?w j) \<noteq> None) \<and>
      (ar_place (req ?w j) = AwaitTurn \<longrightarrow> ar_outcome (req ?w j) \<noteq> None \<and> (ar_ready (req ?w j) \<or> aw_closed ?w))"
    if "j < length (aw_reqs ?w)" "j \<notin> set (aw_queue ?w)" for j
  proof -
    have "j < ?n" "j \<notin> set (aw_queue w)" using that by (auto simp: f)
    then show ?thesis using ok r [of j] by (simp add: queue_ok_def f(3))
  qed
  have "distinct (aw_queue ?w)" "sorted (aw_queue ?w)" using ok lt by (auto simp: f(1) queue_ok_def sorted_append dest: less_imp_le)
  moreover have "distinct (map fst (aw_waits ?w))" using ok by (simp add: f(2) distinct_update queue_ok_def)
  moreover have "aw_closed ?w \<longrightarrow> aw_queue ?w = []" using False by (simp add: f(3))
  ultimately show ?thesis using tab q out unfolding queue_ok_def by blast
qed

lemma decide_head:
  assumes ok: "queue_ok w" and c: "map_of (aw_waits w) x = Some r" "aw_queue w \<noteq> []" "hd (aw_queue w) = r"
  shows "decide x b w = (None, take_out r (\<lambda>y. y\<lparr>ar_outcome := Some \<lparr>ao_approved = b, ao_err = None\<rparr>\<rparr>) w)"
proof -
  have "r \<in> set (aw_queue w)" using c by auto
  from removeLocked_queued(1) [OF ok this] have "fst (removeLocked r w)" .
  then show ?thesis using c by (cases "removeLocked r w") (simp add: decide_def take_out_def)
qed

lemma decide_else: "\<not> (\<exists>r. map_of (aw_waits w) x = Some r \<and> aw_queue w \<noteq> [] \<and> hd (aw_queue w) = r) \<Longrightarrow> snd (decide x b w) = w"
  by (auto simp: decide_def split: option.splits)

lemma decide_ok:
  assumes ok: "queue_ok w" shows "queue_ok (snd (decide x b w))"
proof (cases "\<exists>r. map_of (aw_waits w) x = Some r \<and> aw_queue w \<noteq> [] \<and> hd (aw_queue w) = r")
  case True
  then obtain r where r: "map_of (aw_waits w) x = Some r" "aw_queue w \<noteq> []" "hd (aw_queue w) = r" by blast
  have i: "r \<in> set (aw_queue w)" using r by auto
  show ?thesis using queue_okD(3) [OF ok i] r(3) unfolding decide_head [OF ok r] snd_conv by (intro take_out_ok [OF ok i]) simp_all
next
  case False
  then show ?thesis using decide_else ok by metis
qed

lemma fold_set_req:
  assumes "\<forall>i \<in> set is. i < length (aw_reqs w)" "distinct is"
  shows "aw_queue (fold (\<lambda>i. set_req i f) is w) = aw_queue w \<and> aw_waits (fold (\<lambda>i. set_req i f) is w) = aw_waits w \<and>
    aw_closed (fold (\<lambda>i. set_req i f) is w) = aw_closed w \<and> length (aw_reqs (fold (\<lambda>i. set_req i f) is w)) = length (aw_reqs w) \<and>
    req (fold (\<lambda>i. set_req i f) is w) j = (if j \<in> set is then f (req w j) else req w j)"
  using assms by (induction "is" arbitrary: w) (auto simp: req_set)

lemma close_req:
  assumes ok: "queue_ok w" "\<not> aw_closed w"
  shows "aw_queue (approval_close w) = []" "aw_waits (approval_close w) = []" "aw_closed (approval_close w)"
    "length (aw_reqs (approval_close w)) = length (aw_reqs w)"
    "req (approval_close w) j = (if j \<in> set (aw_queue w) then (req w j)\<lparr>ar_outcome := Some (failed_outcome ApprovalCanceled)\<rparr> else req w j)"
proof -
  let ?w = "w\<lparr>aw_closed := True, aw_queue := [], aw_waits := []\<rparr>" and ?f = "\<lambda>r. r\<lparr>ar_outcome := Some (failed_outcome ApprovalCanceled)\<rparr>"
  have c: "approval_close w = fold (\<lambda>i. set_req i ?f) (aw_queue w) ?w" using ok(2) by (simp add: approval_close_def failed_outcome_def)
  have "\<forall>i \<in> set (aw_queue w). i < length (aw_reqs ?w)" "distinct (aw_queue w)" using ok(1) by (auto simp: queue_ok_def)
  note f = fold_set_req [OF this, of ?f]
  show "aw_queue (approval_close w) = []" "aw_waits (approval_close w) = []" "aw_closed (approval_close w)"
    "length (aw_reqs (approval_close w)) = length (aw_reqs w)"
    "req (approval_close w) j = (if j \<in> set (aw_queue w) then (req w j)\<lparr>ar_outcome := Some (failed_outcome ApprovalCanceled)\<rparr> else req w j)"
    unfolding c using f by (simp_all add: req_def)
qed

lemma approval_close_ok:
  assumes ok: "queue_ok w" shows "queue_ok (approval_close w)"
proof (cases "aw_closed w")
  case True
  then show ?thesis using ok by (simp add: approval_close_def)
next
  case False
  note c = close_req [OF ok False]
  have "ar_outcome (req w j) \<noteq> None" if "j < length (aw_reqs w)" "j \<notin> set (aw_queue w)" "ar_place (req w j) = Shown \<or> ar_place (req w j) = AwaitTurn" for j
    using ok that unfolding queue_ok_def by blast
  then show ?thesis unfolding queue_ok_def by (auto simp: c)
qed


lemma answer_gone_ok: "queue_ok w \<Longrightarrow> i < length (aw_reqs w) \<Longrightarrow> i \<notin> set (aw_queue w) \<Longrightarrow> queue_ok (answer i out w)"
  unfolding answer_def by (rule set_place_ok) simp_all

text \<open>A request that leaves the queue by its own decision.\<close>

abbreviation give_up :: "nat \<Rightarrow> approval_outcome \<Rightarrow> approval_outcome \<Rightarrow> approval_waiter \<Rightarrow> approval_waiter" where
  "give_up i out out' \<equiv> take_out i (\<lambda>r. r\<lparr>ar_outcome := Some out, ar_place := Answered out'\<rparr>)"

lemma give_up_ok: "queue_ok w \<Longrightarrow> i \<in> set (aw_queue w) \<Longrightarrow> queue_ok (give_up i out out' w)"
  by (rule take_out_ok) simp_all

lemma leave_wait_queued:
  "queue_ok w \<Longrightarrow> i \<in> set (aw_queue w) \<Longrightarrow> leave_wait i out err w = Some (give_up i out (failed_outcome err) w)"
  using answer_take_out [OF queue_okD(1)] by (simp add: leave_wait_def cancel_queued)

lemma leave_wait_gone:
  "queue_ok w \<Longrightarrow> i \<notin> set (aw_queue w) \<Longrightarrow> leave_wait i out err w = map_option (\<lambda>o1. answer i o1 w) (ar_outcome (req w i))"
  by (simp add: leave_wait_def cancel_gone)

lemma leave_turn_queued:
  "queue_ok w \<Longrightarrow> i \<in> set (aw_queue w) \<Longrightarrow>
    leave_turn i err w = give_up i (failed_outcome (ApprovalCtx err)) (failed_outcome (ApprovalCtx err)) w"
  using answer_take_out [OF queue_okD(1)] by (simp add: leave_turn_def cancel_queued)

lemma leave_turn_gone:
  "queue_ok w \<Longrightarrow> i \<notin> set (aw_queue w) \<Longrightarrow>
    leave_turn i err w = (if ar_ready (req w i) then set_req i (\<lambda>r. r\<lparr>ar_place := Shown\<rparr>) w else answer i (failed_outcome (ApprovalCtx err)) w)"
  by (simp add: leave_turn_def cancel_gone)

lemma gone_turn:
  "queue_ok w \<Longrightarrow> i < length (aw_reqs w) \<Longrightarrow> i \<notin> set (aw_queue w) \<Longrightarrow> ar_place (req w i) = AwaitTurn \<Longrightarrow>
    ar_outcome (req w i) \<noteq> None \<and> (ar_ready (req w i) \<or> aw_closed w)"
  unfolding queue_ok_def by blast

lemma gone_has_outcome:
  "queue_ok w \<Longrightarrow> i < length (aw_reqs w) \<Longrightarrow> i \<notin> set (aw_queue w) \<Longrightarrow> ar_place (req w i) = Shown \<Longrightarrow> ar_outcome (req w i) \<noteq> None"
  unfolding queue_ok_def by blast


lemma shown_is_head:
  assumes ok: "queue_ok w" and i: "i < length (aw_reqs w)" "ar_place (req w i) = Shown" "ar_outcome (req w i) = None"
  shows "i \<in> set (aw_queue w)" "i = hd (aw_queue w)"
proof -
  show q: "i \<in> set (aw_queue w)" using gone_has_outcome [OF ok i(1) _ i(2)] i(3) by blast
  have "ar_ready (req w i)" using ok q i(2) by (auto simp: queue_ok_def)
  then show "i = hd (aw_queue w)" using queue_okD(3) [OF ok q] by simp
qed

lemma closed_queue: "queue_ok w \<Longrightarrow> aw_closed w \<Longrightarrow> aw_queue w = []"
  by (simp add: queue_ok_def)

theorem approval_step_ok:
  assumes ok: "queue_ok w" and s: "approval_step ev w = Some w'"
  shows "queue_ok w'"
proof -
  have shown: "queue_ok (set_req i (\<lambda>r. r\<lparr>ar_place := Shown\<rparr>) w)" if "i < length (aw_reqs w)" "ar_place (req w i) = AwaitTurn" "ar_ready (req w i)" for i
    using gone_turn [OF ok that(1) _ that(2)] that by (intro set_place_ok [OF ok that(1)]) simp_all
  have wait: "queue_ok w1" if "leave_wait i out err w = Some w1" "i < length (aw_reqs w)" for i out err w1
    using that leave_wait_queued [OF ok] leave_wait_gone [OF ok] give_up_ok [OF ok] answer_gone_ok [OF ok that(2)] by (cases "i \<in> set (aw_queue w)") auto
  have turn: "queue_ok (leave_turn i err w)" if "at_place w i AwaitTurn" for i err
    using that leave_turn_queued [OF ok] leave_turn_gone [OF ok] give_up_ok [OF ok] answer_gone_ok [OF ok] shown
    by (cases "i \<in> set (aw_queue w)") (auto simp: at_place_def)
  show ?thesis
  proof (cases ev)
    case (ApTurnClosed i)
    then have i: "i < length (aw_reqs w)" "aw_closed w" "w' = answer i (failed_outcome ErrSessionClosed) w" using s by (auto simp: at_place_def split: if_splits)
    then have "i \<notin> set (aw_queue w)" using closed_queue [OF ok] by simp
    then show ?thesis using i answer_gone_ok [OF ok] by simp
  next
    case (ApOutcome i)
    then obtain o1 where o1: "ar_outcome (req w i) = Some o1" "w' = answer i o1 w" "i < length (aw_reqs w)" using s by (auto simp: at_place_def split: if_splits)
    then have "i \<notin> set (aw_queue w)" using queue_okD(2) [OF ok] by auto
    then show ?thesis using o1 answer_gone_ok [OF ok] by simp
  qed (use s ok register_ok [OF ok] decide_ok [OF ok] approval_close_ok [OF ok] shown wait turn in \<open>auto simp: at_place_def split: if_splits\<close>)
qed

lemma approval_run_ok: "queue_ok w \<Longrightarrow> approval_run evs w = Some w' \<Longrightarrow> queue_ok w'"
proof (induction evs arbitrary: w)
  case (Cons ev evs)
  then obtain w1 where "approval_step ev w = Some w1" "approval_run evs w1 = Some w'" by (auto split: Option.bind_splits)
  then show ?case using Cons approval_step_ok by blast
qed simp

lemma approval_run_append: "approval_run (as @ bs) w = Option.bind (approval_run as w) (approval_run bs)"
  by (induction as arbitrary: w) (auto split: Option.bind_splits)

section \<open>Where an approval comes from\<close>

text \<open>A request whose answer is, or will be, an answer of the user.\<close>

definition settled_by :: "approval_waiter \<Rightarrow> nat \<Rightarrow> bool \<Rightarrow> bool" where
  "settled_by w i b \<longleftrightarrow> i < length (aw_reqs w) \<and>
     (case ar_place (req w i) of
        Answered out \<Rightarrow> out = \<lparr>ao_approved = b, ao_err = None\<rparr>
      | _ \<Rightarrow> ar_outcome (req w i) = Some \<lparr>ao_approved = b, ao_err = None\<rparr>)"

definition head_decision :: "approval_waiter \<Rightarrow> approval_event \<Rightarrow> nat \<Rightarrow> bool \<Rightarrow> bool" where
  "head_decision w ev i b \<longleftrightarrow> aw_queue w \<noteq> [] \<and> hd (aw_queue w) = i \<and> ev = ApDecide (req_id w i) b"

lemma settled_give_up:
  assumes ok: "queue_ok w" and j: "j \<in> set (aw_queue w)" and out: "ao_err out' \<noteq> None"
    and s: "settled_by (give_up j out out' w) i b"
  shows "settled_by w i b"
proof -
  have len: "length (aw_reqs (give_up j out out' w)) = length (aw_reqs w)" using removeLocked_queued(5) [OF ok j] by (simp add: take_out_def)
  have "i \<noteq> j" using s out by (auto simp: settled_by_def take_out_req [OF ok j])
  then show ?thesis using s unfolding settled_by_def len take_out_req [OF ok j] by (auto split: if_splits approval_place.splits)
qed

lemma settled_answer:
  assumes "j < length (aw_reqs w)" "ar_outcome (req w j) = Some o1 \<and> ar_place (req w j) = Shown \<or> ao_err o1 \<noteq> None" "settled_by (answer j o1 w) i b"
  shows "settled_by w i b"
  using assms by (cases "i = j") (auto simp: settled_by_def answer_def req_set split: approval_place.splits)


lemma settled_register: "settled_by (snd (register call w)) i b \<Longrightarrow> settled_by w i b"
  by (auto simp: register_def settled_by_def Let_def req_def nth_append split: if_splits approval_place.splits)

lemma settled_close:
  assumes "queue_ok w" "settled_by (approval_close w) i b" shows "settled_by w i b"
proof (cases "aw_closed w")
  case True
  then show ?thesis using assms(2) by (simp add: approval_close_def)
next
  case False
  show ?thesis using assms(2) unfolding settled_by_def close_req [OF assms(1) False]
    by (auto simp: failed_outcome_def split: if_splits approval_place.splits)
qed

lemma settled_shown:
  assumes "j < length (aw_reqs w)" "ar_place (req w j) = AwaitTurn" "settled_by (set_req j (\<lambda>r. r\<lparr>ar_place := Shown\<rparr>) w) i b"
  shows "settled_by w i b"
  using assms by (cases "i = j") (auto simp: settled_by_def req_set split: approval_place.splits)

lemma settled_decide:
  assumes ok: "queue_ok w" and s: "settled_by (snd (decide x a w)) i b" and n: "\<not> settled_by w i b"
  shows "head_decision w (ApDecide x a) i b"
proof (cases "\<exists>r. map_of (aw_waits w) x = Some r \<and> aw_queue w \<noteq> [] \<and> hd (aw_queue w) = r")
  case True
  then obtain r where r: "map_of (aw_waits w) x = Some r" "aw_queue w \<noteq> []" "hd (aw_queue w) = r" by blast
  have j: "r \<in> set (aw_queue w)" using r by auto
  have x: "req_id w r = x" using ok r(1) unfolding queue_ok_def by blast
  have len: "length (aw_reqs (take_out r f w)) = length (aw_reqs w)" for f using removeLocked_queued(5) [OF ok j] by (simp add: take_out_def)
  have s': "settled_by (take_out r (\<lambda>y. y\<lparr>ar_outcome := Some \<lparr>ao_approved = a, ao_err = None\<rparr>\<rparr>) w) i b" using s unfolding decide_head [OF ok r] by simp
  have "i = r" using s' n unfolding settled_by_def len take_out_req [OF ok j] by (auto split: if_splits approval_place.splits)
  moreover have "a = b" using s' n \<open>i = r\<close> unfolding settled_by_def len take_out_req [OF ok j] by (auto split: if_splits approval_place.splits)
  ultimately show ?thesis using r x by (simp add: head_decision_def)
next
  case False
  then show ?thesis using decide_else s n by metis
qed

lemma step_settles:
  assumes ok: "queue_ok w" and s: "approval_step ev w = Some w'" and new: "settled_by w' i b" "\<not> settled_by w i b"
  shows "head_decision w ev i b"
proof -
  have wait: False if "leave_wait j out err w = Some w'" "j < length (aw_reqs w)" "ar_place (req w j) = Shown" for j out err
  proof (cases "j \<in> set (aw_queue w)")
    case True
    have "ao_err (failed_outcome err) \<noteq> None" by (simp add: failed_outcome_def)
    from settled_give_up [OF ok True this] show False using that(1) new leave_wait_queued [OF ok True] by auto
  next
    case False
    then show False using that new settled_answer [OF that(2)] leave_wait_gone [OF ok False] by auto
  qed
  have turn: False if "leave_turn j err w = w'" "j < length (aw_reqs w)" "ar_place (req w j) = AwaitTurn" for j err
  proof (cases "j \<in> set (aw_queue w)")
    case True
    have "ao_err (failed_outcome (ApprovalCtx err)) \<noteq> None" by (simp add: failed_outcome_def)
    from settled_give_up [OF ok True this] show False using that(1) new leave_turn_queued [OF ok True] by auto
  next
    case False
    then show False using that new settled_answer [OF that(2), of "failed_outcome (ApprovalCtx err)"] settled_shown [OF that(2,3)] leave_turn_gone [OF ok False]
      by (auto simp: failed_outcome_def split: if_splits)
  qed
  show ?thesis
  proof (cases ev)
    case (ApTurnClosed j)
    then show ?thesis using s new settled_answer [of j w "failed_outcome ErrSessionClosed" i b] by (auto simp: at_place_def failed_outcome_def split: if_splits)
  next
    case (ApOutcome j)
    then show ?thesis using s new settled_answer [of j w _ i b] by (auto simp: at_place_def split: if_splits)
  next
    case (ApTurn j)
    then show ?thesis using s new settled_shown [of j w i b] by (auto simp: at_place_def split: if_splits)
  next
    case (ApDecide x a)
    then show ?thesis using s new settled_decide [OF ok] by auto
  next
    case (ApRegister call)
    then show ?thesis using s new settled_register by auto
  next
    case ApClose
    then show ?thesis using s new settled_close [OF ok] by auto
  next
    case (ApTurnCtx j e)
    then show ?thesis using s turn [of j e] by (auto simp: at_place_def split: if_splits)
  qed (use s wait turn in \<open>auto simp: at_place_def split: if_splits\<close>)
qed

lemma run_settles:
  assumes "queue_ok w" "approval_run evs w = Some w'" "settled_by w' i b" "\<not> settled_by w i b"
  shows "\<exists>as ev bs w1. evs = as @ ev # bs \<and> approval_run as w = Some w1 \<and> head_decision w1 ev i b"
  using assms
proof (induction evs arbitrary: w)
  case (Cons ev evs)
  then obtain w1 where s: "approval_step ev w = Some w1" "approval_run evs w1 = Some w'" by (auto split: Option.bind_splits)
  show ?case
  proof (cases "settled_by w1 i b")
    case True
    then have "head_decision w ev i b" using step_settles Cons.prems s(1) by blast
    then show ?thesis by (intro exI [of _ "[]"]) auto
  next
    case False
    then obtain as e bs w2 where "evs = as @ e # bs" "approval_run as w1 = Some w2" "head_decision w2 e i b"
      using Cons.IH [OF approval_step_ok [OF Cons.prems(1) s(1)] s(2) Cons.prems(3)] by blast
    then show ?thesis using s(1) by (intro exI [of _ "ev # as"]) auto
  qed
qed simp


section \<open>Every request gets an answer\<close>

text \<open>The steps a request takes by itself.\<close>

definition own_steps :: "nat \<Rightarrow> approval_event set" where
  "own_steps i = {ApTurn i, ApTurnClosed i, ApOutcome i, ApShownTimeout i}"

definition answered :: "approval_waiter \<Rightarrow> nat \<Rightarrow> bool" where
  "answered w i \<longleftrightarrow> i < length (aw_reqs w) \<and> (case ar_place (req w i) of Answered out \<Rightarrow> True | _ \<Rightarrow> False)"

lemma answered_answer: "i < length (aw_reqs w) \<Longrightarrow> answered (answer i out w) i"
  by (simp add: answered_def answer_def req_set)

lemma shown_head_leaves:
  assumes ok: "queue_ok w" and q: "aw_queue w = h # t" "ar_place (req w h) = Shown"
  shows "\<exists>w'. approval_step (ApShownTimeout h) w = Some w' \<and> aw_queue w' = t \<and> length (aw_reqs w') = length (aw_reqs w) \<and> answered w' h"
proof -
  have h: "h \<in> set (aw_queue w)" using q(1) by simp
  let ?w = "give_up h \<lparr>ao_approved = False, ao_err = None\<rparr> (failed_outcome ErrApprovalTimeout) w"
  have len: "length (aw_reqs ?w) = length (aw_reqs w)" "aw_queue ?w = t" using removeLocked_queued [OF ok h] q(1) by (simp_all add: take_out_def)
  have "approval_step (ApShownTimeout h) w = Some ?w" using leave_wait_queued [OF ok h] queue_okD(1) [OF ok h] q(2) by (simp add: at_place_def)
  moreover have "answered ?w h" using queue_okD(1) [OF ok h] by (simp add: answered_def len take_out_req [OF ok h])
  ultimately show ?thesis using len by blast
qed

lemma head_leaves:
  assumes ok: "queue_ok w" and q: "aw_queue w = h # t"
  shows "\<exists>evs w'. set evs \<subseteq> own_steps h \<and> length evs \<le> 2 \<and> approval_run evs w = Some w' \<and> aw_queue w' = t \<and>
    length (aw_reqs w') = length (aw_reqs w) \<and> answered w' h"
proof -
  have h: "h \<in> set (aw_queue w)" using q by simp
  have r: "ar_ready (req w h)" using queue_okD(3) [OF ok h] q by simp
  show ?thesis
  proof (cases "ar_place (req w h) = Shown")
    case True
    obtain w' where "approval_step (ApShownTimeout h) w = Some w'" "aw_queue w' = t" "length (aw_reqs w') = length (aw_reqs w)" "answered w' h"
      using shown_head_leaves [OF ok q True] by blast
    then show ?thesis by (intro exI [of _ "[ApShownTimeout h]"] exI [of _ w']) (simp add: own_steps_def)
  next
    case False
    then have p: "ar_place (req w h) = AwaitTurn" using ok h unfolding queue_ok_def by blast
    let ?w = "set_req h (\<lambda>r. r\<lparr>ar_place := Shown\<rparr>) w"
    have s: "approval_step (ApTurn h) w = Some ?w" using p r queue_okD(1) [OF ok h] by (simp add: at_place_def)
    have "ar_place (req ?w h) = Shown" using queue_okD(1) [OF ok h] by (simp add: req_set)
    then obtain w' where "approval_step (ApShownTimeout h) ?w = Some w'" "aw_queue w' = t" "length (aw_reqs w') = length (aw_reqs ?w)" "answered w' h"
      using shown_head_leaves [OF approval_step_ok [OF ok s], of h t] q by auto
    then show ?thesis using s by (intro exI [of _ "[ApTurn h, ApShownTimeout h]"] exI [of _ w']) (simp add: own_steps_def)
  qed
qed

lemma gone_answered:
  assumes ok: "queue_ok w" and i: "i < length (aw_reqs w)" "i \<notin> set (aw_queue w)"
  shows "\<exists>evs w'. set evs \<subseteq> own_steps i \<and> length evs \<le> 2 \<and> approval_run evs w = Some w' \<and> answered w' i"
proof (cases "ar_place (req w i)")
  case AwaitTurn
  note g = gone_turn [OF ok i AwaitTurn]
  show ?thesis
  proof (cases "ar_ready (req w i)")
    case True
    let ?w = "set_req i (\<lambda>r. r\<lparr>ar_place := Shown\<rparr>) w"
    obtain o1 where o1: "ar_outcome (req w i) = Some o1" using g by blast
    have "approval_step (ApTurn i) w = Some ?w" "approval_step (ApOutcome i) ?w = Some (answer i o1 ?w)"
      using True AwaitTurn i o1 by (simp_all add: at_place_def req_set)
    then show ?thesis using answered_answer [of i ?w] i by (intro exI [of _ "[ApTurn i, ApOutcome i]"] exI [of _ "answer i o1 ?w"]) (simp add: own_steps_def)
  next
    case False
    then have "approval_step (ApTurnClosed i) w = Some (answer i (failed_outcome ErrSessionClosed) w)" using g AwaitTurn i by (simp add: at_place_def)
    then show ?thesis using answered_answer i
      by (intro exI [of _ "[ApTurnClosed i]"] exI [of _ "answer i (failed_outcome ErrSessionClosed) w"]) (simp add: own_steps_def)
  qed
next
  case Shown
  then obtain o1 where o1: "ar_outcome (req w i) = Some o1" using gone_has_outcome [OF ok i] by blast
  have "approval_step (ApOutcome i) w = Some (answer i o1 w)" using Shown i o1 by (simp add: at_place_def)
  then show ?thesis using answered_answer i by (intro exI [of _ "[ApOutcome i]"] exI [of _ "answer i o1 w"]) (simp add: own_steps_def)
next
  case (Answered out)
  then show ?thesis using i by (intro exI [of _ "[]"] exI [of _ w]) (simp add: answered_def)
qed

lemma queued_answered:
  assumes "queue_ok w" "i \<in> set (aw_queue w)"
  shows "\<exists>evs w'. set evs \<subseteq> (\<Union>j \<in> set (aw_queue w). own_steps j) \<and> length evs \<le> 2 * length (aw_queue w) \<and>
    approval_run evs w = Some w' \<and> answered w' i"
  using assms
proof (induction "aw_queue w" arbitrary: w)
  case (Cons h t)
  obtain as w1 where 1: "set as \<subseteq> own_steps h" "length as \<le> 2" "approval_run as w = Some w1" "aw_queue w1 = t" "answered w1 h"
    using head_leaves [OF Cons.prems(1) Cons.hyps(2) [symmetric]] by blast
  show ?case
  proof (cases "i = h")
    case True
    then show ?thesis using 1 Cons.hyps(2) [symmetric] by (intro exI [of _ as] exI [of _ w1]) auto
  next
    case False
    then have "i \<in> set (aw_queue w1)" using Cons.prems(2) Cons.hyps(2) [symmetric] 1(4) by simp
    then obtain bs w2 where 2: "set bs \<subseteq> (\<Union>j \<in> set t. own_steps j)" "length bs \<le> 2 * length t" "approval_run bs w1 = Some w2" "answered w2 i"
      using Cons.hyps(1) [OF 1(4) [symmetric] approval_run_ok [OF Cons.prems(1) 1(3)]] 1(4) by blast
    then show ?thesis using 1 Cons.hyps(2) [symmetric] by (intro exI [of _ "as @ bs"] exI [of _ w2]) (auto simp: approval_run_append)
  qed
qed simp


section \<open>The promises of the queue\<close>

definition visible_requests :: "approval_waiter \<Rightarrow> nat list" where
  "visible_requests w = filter (\<lambda>i. ar_place (req w i) = Shown \<and> ar_outcome (req w i) = None) [0..<length (aw_reqs w)]"

lemma visible_is_head:
  assumes ok: "queue_ok w" shows "visible_requests w = [] \<or> aw_queue w \<noteq> [] \<and> visible_requests w = [hd (aw_queue w)]"
proof (cases "visible_requests w")
  case (Cons i rest)
  have v: "j \<in> set (aw_queue w) \<and> j = hd (aw_queue w)" if "j \<in> set (visible_requests w)" for j
    using that shown_is_head [OF ok, of j] by (auto simp: visible_requests_def)
  have "distinct (visible_requests w)" by (simp add: visible_requests_def)
  then have "rest = []" using v Cons by (cases rest) auto
  then show ?thesis using v [of i] Cons by auto
qed simp

definition open_requests :: "approval_waiter \<Rightarrow> nat list" where
  "open_requests w = filter (\<lambda>i. \<not> answered w i \<and> ar_outcome (req w i) = None) [0..<length (aw_reqs w)]"

lemma queue_is_open:
  assumes ok: "queue_ok w" shows "aw_queue w = open_requests w"
proof (rule sorted_distinct_set_unique)
  have "i \<in> set (aw_queue w) \<longleftrightarrow> i < length (aw_reqs w) \<and> \<not> answered w i \<and> ar_outcome (req w i) = None" for i
  proof
    assume i: "i \<in> set (aw_queue w)"
    have "ar_place (req w i) = AwaitTurn \<or> ar_place (req w i) = Shown" using ok i unfolding queue_ok_def by blast
    then show "i < length (aw_reqs w) \<and> \<not> answered w i \<and> ar_outcome (req w i) = None" using queue_okD [OF ok i] by (auto simp: answered_def)
  next
    assume i: "i < length (aw_reqs w) \<and> \<not> answered w i \<and> ar_outcome (req w i) = None"
    then show "i \<in> set (aw_queue w)" using gone_turn [OF ok, of i] gone_has_outcome [OF ok, of i]
      by (cases "ar_place (req w i)") (auto simp: answered_def)
  qed
  then show "set (aw_queue w) = set (open_requests w)" by (auto simp: open_requests_def)
qed (use ok in \<open>simp_all add: queue_ok_def open_requests_def sorted_wrt_filter\<close>)

text \<open>C7. At every moment of a session the queue holds exactly the approvals that have no outcome yet, of
  the main agent and the sub-agents together, in the order of their registration, and the only one
  that may be shown to the user is the oldest of them.\<close>

theorem oldest_approval_alone_is_shown:
  assumes "approval_run evs (newApprovalWaiter t) = Some w"
  shows "aw_queue w = open_requests w \<and> (visible_requests w = [] \<or> visible_requests w = [hd (open_requests w)])"
proof -
  have ok: "queue_ok w" by (rule approval_run_ok [OF new_queue_ok assms])
  then show ?thesis using visible_is_head [OF ok] queue_is_open [OF ok] by auto
qed

text \<open>Two requests; the first is shown and approved, then the second is shown.\<close>

definition approval_call :: "string \<Rightarrow> tool_call" where
  "approval_call i = \<lparr>tc_id = i, tc_index = 0, tc_name = ''write'', tc_args = '''', tc_request = '''', tc_parent = '''', tc_depth = 0\<rparr>"

definition approval_demo :: "approval_event list" where
  "approval_demo = [ApRegister (approval_call ''a''), ApRegister (approval_call ''b''), ApTurn 0, ApDecide ''a'' True, ApOutcome 0, ApTurn 1]"

lemmas approval_eval = approval_demo_def approval_call_def approval_run.simps approval_step.simps newApprovalWaiter_def register_def decide_def removeLocked_def
  set_req_def at_place_def req_def req_id_def answer_def defaultApprovalTimeout_def MaxApprovalTimeout_def Let_def

lemma approval_demo_run:
  obtains w where "approval_run approval_demo (newApprovalWaiter 0) = Some w" "aw_queue w = [1]" "length (aw_reqs w) = 2"
    "ar_place (req w 0) = Answered \<lparr>ao_approved = True, ao_err = None\<rparr>" "ar_place (req w 1) = Shown" "ar_outcome (req w 1) = None"
proof -
  have "\<exists>w. approval_run approval_demo (newApprovalWaiter 0) = Some w \<and> aw_queue w = [1] \<and> length (aw_reqs w) = 2 \<and>
    ar_place (req w 0) = Answered \<lparr>ao_approved = True, ao_err = None\<rparr> \<and> ar_place (req w 1) = Shown \<and> ar_outcome (req w 1) = None"
    by (simp add: approval_eval)
  then show ?thesis using that by blast
qed

theorem oldest_approval_alone_is_shown_witness:
  "\<exists>w. approval_run approval_demo (newApprovalWaiter 0) = Some w \<and> visible_requests w = [1] \<and> open_requests w = [1]"
proof -
  obtain w where w: "approval_run approval_demo (newApprovalWaiter 0) = Some w" "aw_queue w = [1]" "length (aw_reqs w) = 2"
    "ar_place (req w 1) = Shown" "ar_outcome (req w 1) = None" by (rule approval_demo_run)
  have "1 \<in> set (visible_requests w)" using w(3,4,5) by (simp add: visible_requests_def)
  then show ?thesis using oldest_approval_alone_is_shown [OF w(1)] w(1,2) by auto
qed

text \<open>C6. What the engine takes for an answer of the user is one: if waiting for a request ends as approved,
  or as rejected by the user, then the session decided this very request, in this way, while it was
  the head of the queue. Cancellation, a closed session and the timer never approve.\<close>

theorem only_the_user_answers:
  assumes run: "approval_run evs (newApprovalWaiter t) = Some w"
    and i: "at_place w i (Answered out)" "begin_result_of out text = Waits (Approved b)"
  shows "\<exists>as bs w1. evs = as @ ApDecide (req_id w1 i) b # bs \<and> approval_run as (newApprovalWaiter t) = Some w1 \<and>
    aw_queue w1 \<noteq> [] \<and> hd (aw_queue w1) = i"
proof -
  have "out = \<lparr>ao_approved = b, ao_err = None\<rparr>" using i(2) by (cases out) (auto simp: begin_result_of_def split: option.splits approval_error.splits)
  then have "settled_by w i b" using i(1) by (simp add: settled_by_def at_place_def)
  moreover have "\<not> settled_by (newApprovalWaiter t) i b" by (simp add: settled_by_def newApprovalWaiter_def Let_def)
  ultimately obtain as ev bs w1 where "evs = as @ ev # bs" "approval_run as (newApprovalWaiter t) = Some w1" "head_decision w1 ev i b"
    using run_settles [OF new_queue_ok run] by blast
  then show ?thesis unfolding head_decision_def by blast
qed

theorem only_the_user_answers_witness:
  "\<exists>as bs w1. approval_demo = as @ ApDecide (req_id w1 0) True # bs \<and> approval_run as (newApprovalWaiter 0) = Some w1 \<and>
    aw_queue w1 \<noteq> [] \<and> hd (aw_queue w1) = 0"
proof -
  obtain w where w: "approval_run approval_demo (newApprovalWaiter 0) = Some w" "length (aw_reqs w) = 2"
    "ar_place (req w 0) = Answered \<lparr>ao_approved = True, ao_err = None\<rparr>" by (rule approval_demo_run)
  show ?thesis
    by (rule only_the_user_answers [OF w(1), of _ "\<lparr>ao_approved = True, ao_err = None\<rparr>" "\<lambda>_. ''''"])
      (use w(2,3) in \<open>simp_all add: at_place_def begin_result_of_def\<close>)
qed

text \<open>C8. No request waits for ever: from any state of a session, by the steps of the requests in the queue
  alone, without the user and without any caller's context ending, a request has its answer after at
  most two steps for each request in the queue, and two.\<close>

theorem every_request_is_answered:
  assumes run: "approval_run evs (newApprovalWaiter t) = Some w" and i: "i < length (aw_reqs w)"
  shows "\<exists>own w'. set own \<subseteq> (\<Union>j \<in> insert i (set (aw_queue w)). own_steps j) \<and> length own \<le> 2 * length (aw_queue w) + 2 \<and>
    approval_run own w = Some w' \<and> answered w' i"
proof -
  have ok: "queue_ok w" by (rule approval_run_ok [OF new_queue_ok run])
  show ?thesis
  proof (cases "i \<in> set (aw_queue w)")
    case True
    obtain own w' where "set own \<subseteq> (\<Union>j \<in> set (aw_queue w). own_steps j)" "length own \<le> 2 * length (aw_queue w)"
      "approval_run own w = Some w'" "answered w' i" using queued_answered [OF ok True] by blast
    then show ?thesis by (intro exI [of _ own] exI [of _ w']) auto
  next
    case False
    obtain own w' where "set own \<subseteq> own_steps i" "length own \<le> 2" "approval_run own w = Some w'" "answered w' i"
      using gone_answered [OF ok i False] by blast
    then show ?thesis by (intro exI [of _ own] exI [of _ w']) auto
  qed
qed

theorem every_request_is_answered_witness:
  "\<exists>w own w'. approval_run approval_demo (newApprovalWaiter 0) = Some w \<and> aw_queue w = [1] \<and> length own \<le> 4 \<and>
    approval_run own w = Some w' \<and> answered w' 1"
proof -
  obtain w where w: "approval_run approval_demo (newApprovalWaiter 0) = Some w" "aw_queue w = [1]" "length (aw_reqs w) = 2"
    by (rule approval_demo_run)
  show ?thesis using every_request_is_answered [OF w(1), of 1] w by auto
qed

end
