(* ===== verification/PathGuard.thy ===== *)
theory PathGuard
  imports ToolText
begin

text \<open>
  Which paths the file tools accept (\<open>resolve\<close> and \<open>denyHarnessConfigPath\<close> of
  \<open>tools/builtin/builtin.go\<close>), with what they use of \<open>path/filepath\<close> on Unix. What the operating system
  answers is the record \<open>os_view\<close>; \<open>os_of\<close> computes it from a tree of directories, files and
  links, so the theorems hold for every such tree.
\<close>

section \<open>Paths\<close>

definition IsAbs :: "string \<Rightarrow> bool" where "IsAbs s \<longleftrightarrow> has_prefix s ''/''"

definition path_comps :: "string \<Rightarrow> string list" where
  "path_comps s = filter (\<lambda>c. c \<noteq> [] \<and> c \<noteq> ''.'') (split_on (CHR ''/'') s)"

text \<open>The loop of \<open>filepath.Clean\<close> over the elements of a path; \<open>st\<close> is the output in reverse.\<close>

fun clean_stack :: "bool \<Rightarrow> string list \<Rightarrow> string list \<Rightarrow> string list" where
  "clean_stack rooted st [] = rev st"
| "clean_stack rooted st (c # cs) =
     (if c = ''..'' then
        (case st of
           [] \<Rightarrow> clean_stack rooted (if rooted then [] else [''..'']) cs
         | x # xs \<Rightarrow> if x = ''..'' then clean_stack rooted (''..'' # st) cs else clean_stack rooted xs cs)
      else clean_stack rooted (c # st) cs)"

definition abs_path :: "string list \<Rightarrow> string" where "abs_path cs = ''/'' @ join ''/'' cs"

definition path_Clean :: "string \<Rightarrow> string" where
  "path_Clean s =
     (let cs = clean_stack (IsAbs s) [] (path_comps s) in
      if IsAbs s then abs_path cs else if cs = [] then ''.'' else join ''/'' cs)"

definition path_Join :: "string list \<Rightarrow> string" where
  "path_Join es = (let l = dropWhile (\<lambda>e. e = []) es in if l = [] then [] else path_Clean (join ''/'' l))"

section \<open>The guard\<close>

record file_info =
  fi_regular :: bool
  fi_dev :: nat
  fi_ino :: nat

text \<open>\<open>os.UserHomeDir\<close>, \<open>filepath.EvalSymlinks\<close> and \<open>os.Stat\<close>.\<close>

record os_view =
  os_home :: "string option"
  os_eval :: "string \<Rightarrow> string option"
  os_stat :: "string \<Rightarrow> file_info option"

datatype path_error = PathRequired | EscapesRoot string string | HardLinkToConfig string | ProtectedPath string string

definition path_error_text :: "(string \<Rightarrow> string) \<Rightarrow> path_error \<Rightarrow> string" where
  "path_error_text q e =
     (case e of
        PathRequired \<Rightarrow> ''path is required''
      | EscapesRoot raw base \<Rightarrow> ''path '' @ q raw @ '' escapes workspace root '' @ q base
      | HardLinkToConfig p \<Rightarrow> ''path '' @ q p @ '' is a hard link to a protected go-code config file''
      | ProtectedPath p r \<Rightarrow> ''path '' @ q p @ '' resolves to '' @ q r @ '', which is go-code's own config/secret directory and is protected'')"

definition protectedConfigFiles :: "string list" where
  "protectedConfigFiles = [''settings.json'', ''keys.json'', ''im-config.json'', ''oauth.json'']"

definition allowedConfigSubtrees :: "string list" where
  "allowedConfigSubtrees = [''plugins'', ''runtime'', ''memory'']"

definition same_file :: "file_info \<Rightarrow> file_info \<Rightarrow> bool" where
  "same_file a b \<longleftrightarrow> fi_dev a = fi_dev b \<and> fi_ino a = fi_ino b"

definition isHardlinkToProtected :: "os_view \<Rightarrow> string \<Rightarrow> string \<Rightarrow> bool" where
  "isHardlinkToProtected os p cfg =
     (case os_stat os p of
        None \<Rightarrow> False
      | Some fi \<Rightarrow> fi_regular fi \<and>
          list_ex (\<lambda>name. case os_stat os (path_Join [cfg, name]) of None \<Rightarrow> False | Some ti \<Rightarrow> fi_regular ti \<and> same_file ti fi) protectedConfigFiles)"

text \<open>\<open>resolveRealTarget\<close> for an absolute path, whose elements are given in reverse: the deepest ancestor
  that exists is resolved, the rest put behind it.\<close>

fun real_target :: "os_view \<Rightarrow> string \<Rightarrow> string list \<Rightarrow> string \<Rightarrow> string" where
  "real_target os p [] rest = (case os_eval os (abs_path []) of Some r \<Rightarrow> if rest = [] then r else path_Join [r, rest] | None \<Rightarrow> p)"
| "real_target os p (c # rc) rest =
     (case os_eval os (abs_path (rev (c # rc))) of
        Some r \<Rightarrow> if rest = [] then r else path_Join [r, rest]
      | None \<Rightarrow> real_target os p rc (path_Join [c, rest]))"

definition resolveRealTarget :: "os_view \<Rightarrow> string \<Rightarrow> string" where
  "resolveRealTarget os p = real_target os p (rev (path_comps (path_Clean p))) []"

text \<open>\<open>p == dir || strings.HasPrefix(p, dir + "/")\<close>\<close>

definition inside :: "string \<Rightarrow> string \<Rightarrow> bool" where
  "inside dir p \<longleftrightarrow> p = dir \<or> has_prefix p (dir @ ''/'')"

definition cfg_dir :: "os_view \<Rightarrow> string option" where
  "cfg_dir os = map_option (\<lambda>h. path_Clean (path_Join [case os_eval os h of Some r \<Rightarrow> r | None \<Rightarrow> h, ''.go-code''])) (os_home os)"

definition denyHarnessConfigPath :: "os_view \<Rightarrow> string \<Rightarrow> path_error option" where
  "denyHarnessConfigPath os p =
     (case cfg_dir os of
        None \<Rightarrow> None
      | Some cfg \<Rightarrow>
          let real = resolveRealTarget os p in
          if inside cfg real then
            if list_ex (\<lambda>sub. inside (path_Join [cfg, sub]) real) allowedConfigSubtrees
            then if isHardlinkToProtected os p cfg then Some (HardLinkToConfig p) else None
            else Some (ProtectedPath p real)
          else None)"

definition resolve_path :: "os_view \<Rightarrow> string \<Rightarrow> string \<Rightarrow> path_error + string" where
  "resolve_path os root raw =
     (if raw = [] then Inl PathRequired
      else let base = (if IsAbs raw then [] else root); p = path_Clean (path_Join [base, raw]) in
        if base \<noteq> [] \<and> \<not> inside base p then Inl (EscapesRoot raw base)
        else (case denyHarnessConfigPath os p of Some e \<Rightarrow> Inl e | None \<Rightarrow> Inr p))"

section \<open>Elements of a path\<close>

text \<open>A clean list of elements: what an absolute path has after \<open>filepath.Clean\<close>.\<close>

definition elem_ok :: "string \<Rightarrow> bool" where
  "elem_ok c \<longleftrightarrow> c \<noteq> [] \<and> c \<noteq> ''.'' \<and> CHR ''/'' \<notin> set c"

definition clean_comps :: "string list \<Rightarrow> bool" where
  "clean_comps cs \<longleftrightarrow> list_all elem_ok cs \<and> ''..'' \<notin> set cs"

lemma path_comps_ok: "list_all elem_ok (path_comps s)"
  using split_on_parts by (fastforce simp: list_all_iff path_comps_def elem_ok_def)

lemma path_comps_append: "path_comps (a @ ''/'' @ b) = path_comps a @ path_comps b"
  by (simp add: path_comps_def split_on_append)

lemma path_comps_elem: "elem_ok c \<Longrightarrow> path_comps c = [c]"
  by (simp add: path_comps_def elem_ok_def split_on_single)

lemma path_comps_Nil [simp]: "path_comps [] = []"
  by (simp add: path_comps_def)

lemma path_comps_join: "list_all elem_ok cs \<Longrightarrow> path_comps (join ''/'' cs) = cs"
proof (induction cs)
  case (Cons x cs)
  then show ?case using path_comps_append [of x "join ''/'' cs"] by (cases cs) (simp_all add: path_comps_elem)
qed simp

lemma path_comps_abs: "list_all elem_ok cs \<Longrightarrow> path_comps (abs_path cs) = cs"
  using path_comps_append [of "[]" "join ''/'' cs"] by (simp add: abs_path_def path_comps_join)

lemma abs_path_inj: "list_all elem_ok cs \<Longrightarrow> list_all elem_ok ds \<Longrightarrow> abs_path cs = abs_path ds \<Longrightarrow> cs = ds"
  using path_comps_abs by metis

lemma IsAbs_abs_path [simp]: "IsAbs (abs_path cs)"
  by (simp add: IsAbs_def abs_path_def has_prefix_def)

lemma clean_stack_elems: "list_all elem_ok cs \<Longrightarrow> list_all elem_ok st \<Longrightarrow> list_all elem_ok (clean_stack r st cs)"
  by (induction r st cs rule: clean_stack.induct) (auto simp: elem_ok_def split: list.splits if_splits)

lemma clean_stack_dots: "''..'' \<notin> set st \<Longrightarrow> ''..'' \<notin> set (clean_stack True st cs)"
proof (induction cs arbitrary: st)
  case (Cons c cs)
  then show ?case by (cases st) auto
qed simp

lemma clean_stack_clean: "''..'' \<notin> set cs \<Longrightarrow> clean_stack r st cs = rev st @ cs"
  by (induction cs arbitrary: st) auto

lemma clean_abs:
  assumes "IsAbs s" obtains cs where "path_Clean s = abs_path cs" "clean_comps cs"
  using assms clean_stack_elems [of "path_comps s" "[]" True] clean_stack_dots [of "[]" "path_comps s"] path_comps_ok [of s]
  by (auto simp: path_Clean_def clean_comps_def Let_def)

lemma clean_of_clean: "clean_comps cs \<Longrightarrow> path_Clean (abs_path cs) = abs_path cs"
  by (simp add: path_Clean_def clean_comps_def path_comps_abs clean_stack_clean)

lemma join_snoc: "cs \<noteq> [] \<Longrightarrow> join s (cs @ ds) = (if ds = [] then join s cs else join s cs @ s @ join s ds)"
  by (induction s cs rule: join.induct) (auto simp: neq_Nil_conv)

lemma inside_abs:
  assumes "list_all elem_ok ds" "list_all elem_ok cs" "ds \<noteq> []"
  shows "inside (abs_path ds) (abs_path cs) \<longleftrightarrow> prefix ds cs"
proof
  assume "inside (abs_path ds) (abs_path cs)"
  then consider "abs_path cs = abs_path ds" | t where "abs_path cs = abs_path ds @ ''/'' @ t"
    by (auto simp: inside_def has_prefix_iff prefix_def)
  then show "prefix ds cs"
  proof cases
    case 1
    then show ?thesis using abs_path_inj assms by blast
  next
    case 2
    have "cs = ds @ path_comps t" using arg_cong [OF 2, of path_comps] unfolding path_comps_append path_comps_abs [OF assms(1)] path_comps_abs [OF assms(2)] .
    then show ?thesis by simp
  qed
next
  assume "prefix ds cs"
  then obtain es where "cs = ds @ es" by (auto simp: prefix_def)
  then show "inside (abs_path ds) (abs_path cs)" using assms(3) by (cases "es = []") (auto simp: inside_def abs_path_def join_snoc has_prefix_iff)
qed

lemma join_abs_elems:
  assumes "list_all elem_ok ds"
  shows "path_Join [abs_path ds, raw] = abs_path (clean_stack True [] (ds @ path_comps raw))"
proof -
  have j: "path_Join [abs_path ds, raw] = path_Clean (abs_path ds @ ''/'' @ raw)" by (simp add: path_Join_def abs_path_def Let_def)
  have a: "IsAbs (abs_path ds @ ''/'' @ raw)" by (simp add: IsAbs_def abs_path_def has_prefix_def)
  show ?thesis unfolding j path_Clean_def path_comps_append path_comps_abs [OF assms] using a by (simp add: Let_def)
qed

lemma join_abs: "path_Join [[], raw] = (if raw = [] then [] else path_Clean raw)"
  by (simp add: path_Join_def)


section \<open>Accepted paths\<close>

text \<open>C11. A path that the file tools accept is absolute and clean, without any \<open>..\<close>; one that was given relative
  to the workspace lies in the workspace.\<close>

theorem accepted_path_is_clean:
  assumes root: "root = abs_path rs" "clean_comps rs" and r: "resolve_path os root raw = Inr p"
  shows "\<exists>cs. p = abs_path cs \<and> clean_comps cs \<and> (IsAbs raw \<or> prefix rs cs)"
proof (cases "IsAbs raw")
  case True
  then have raw: "raw \<noteq> []" by (auto simp: IsAbs_def has_prefix_def)
  have "p = path_Clean (path_Clean raw)" using r True raw by (auto simp: resolve_path_def Let_def join_abs split: option.splits)
  then show ?thesis using clean_abs [OF True] clean_of_clean True by metis
next
  case False
  have ok: "list_all elem_ok rs" using root(2) by (simp add: clean_comps_def)
  let ?cs = "clean_stack True [] (rs @ path_comps raw)"
  have cs: "clean_comps ?cs" unfolding clean_comps_def using clean_stack_elems [of "rs @ path_comps raw" "[]" True] clean_stack_dots [of "[]"] ok path_comps_ok by simp
  have b: "root \<noteq> []" using root(1) by (simp add: abs_path_def)
  have p: "p = abs_path ?cs" "inside root (abs_path ?cs)"
    using r False b root(1) join_abs_elems [OF ok] clean_of_clean [OF cs] by (auto simp: resolve_path_def Let_def split: if_splits option.splits)
  have "prefix rs ?cs"
  proof (cases "rs = []")
    case False
    then show ?thesis using p(2) inside_abs [OF ok _ False] cs unfolding root(1) clean_comps_def by blast
  qed simp
  then show ?thesis using p(1) cs by blast
qed

text \<open>A workspace that is the root directory refuses every relative path but the root itself, since \<open>base + "/"\<close>
  is then \<open>//\<close>.\<close>

theorem root_workspace_refuses: "resolve_path os ''/'' ''etc/hosts'' = Inl (EscapesRoot ''etc/hosts'' ''/'')"
proof -
  have "path_Clean (path_Join [''/'', ''etc/hosts'']) = ''/etc/hosts''" "\<not> inside ''/'' ''/etc/hosts''" "\<not> IsAbs ''etc/hosts''" by code_simp+
  then show ?thesis by (simp only: resolve_path_def Let_def if_False simp_thms list.distinct if_True)
qed

section \<open>What a path opens\<close>

datatype fs_node = FsDir | FsFile "nat \<times> nat" | FsLink string

type_synonym file_tree = "string list \<Rightarrow> fs_node option"

text \<open>Following a path element by element and through links, at most \<open>n\<close> of them. With \<open>new\<close> the last element
  may be missing, as for \<open>O_CREATE\<close>.\<close>

function walk :: "bool \<Rightarrow> file_tree \<Rightarrow> nat \<Rightarrow> string list \<Rightarrow> string list \<Rightarrow> string list option" where
  "walk new t n cur [] = Some cur"
| "walk new t n cur (c # cs) =
     (if c = ''..'' then walk new t n (butlast cur) cs
      else (case t (cur @ [c]) of
          None \<Rightarrow> if new \<and> cs = [] then Some (cur @ [c]) else None
        | Some FsDir \<Rightarrow> walk new t n (cur @ [c]) cs
        | Some (FsFile i) \<Rightarrow> if cs = [] then Some (cur @ [c]) else None
        | Some (FsLink l) \<Rightarrow>
            if n = 0 then None else walk new t (n - 1) (if IsAbs l then [] else cur) (path_comps l @ cs)))"
  by pat_completeness auto
termination by (relation "measures [\<lambda>(new, t, n, cur, cs). n, \<lambda>(new, t, n, cur, cs). length cs]") auto

definition max_links :: nat where "max_links = 255"

definition opens_file :: "file_tree \<Rightarrow> string \<Rightarrow> (nat \<times> nat) option" where
  "opens_file t p =
     (case walk False t max_links [] (path_comps p) of
        None \<Rightarrow> None
      | Some cs \<Rightarrow> (case t cs of Some (FsFile f) \<Rightarrow> Some f | _ \<Rightarrow> None))"

text \<open>The place of the file that opening a path with \<open>O_CREATE\<close> opens or makes.\<close>

definition creates :: "file_tree \<Rightarrow> string \<Rightarrow> string option" where
  "creates t p = map_option abs_path (walk True t max_links [] (path_comps p))"

definition os_of :: "string option \<Rightarrow> file_tree \<Rightarrow> os_view" where
  "os_of home t =
     \<lparr>os_home = home,
      os_eval = (\<lambda>p. map_option abs_path (walk False t max_links [] (path_comps p))),
      os_stat = (\<lambda>p. map_option (\<lambda>cs. case t cs of
            Some (FsFile f) \<Rightarrow> \<lparr>fi_regular = True, fi_dev = fst f, fi_ino = snd f\<rparr>
          | _ \<Rightarrow> \<lparr>fi_regular = False, fi_dev = 0, fi_ino = 0\<rparr>) (walk False t max_links [] (path_comps p)))\<rparr>"

text \<open>What the guard relies on: a path that opens a file is resolved to a name of this file, and its status
  is that of the file.\<close>

locale os_files =
  fixes os :: os_view and opened :: "string \<Rightarrow> (nat \<times> nat) option" and name_of :: "string \<Rightarrow> nat \<times> nat \<Rightarrow> bool"
  assumes eval_names: "opened p = Some f \<Longrightarrow> \<exists>r. os_eval os p = Some r \<and> name_of r f"
    and stat_file: "opened p = Some f \<Longrightarrow> os_stat os p = Some \<lparr>fi_regular = True, fi_dev = fst f, fi_ino = snd f\<rparr>"
begin

lemma hard_link_seen:
  assumes "opened p = Some f" "opened (path_Join [cfg, name]) = Some f" "name \<in> set protectedConfigFiles"
  shows "isHardlinkToProtected os p cfg"
  using assms stat_file [OF assms(1)] stat_file [OF assms(2)] by (auto simp: isHardlinkToProtected_def list_ex_iff same_file_def intro!: bexI [of _ name])

lemma real_of_open:
  assumes "opened (abs_path cs) = Some f" "clean_comps cs"
  shows "\<exists>r. resolveRealTarget os (abs_path cs) = r \<and> name_of r f"
proof -
  obtain r where "os_eval os (abs_path cs) = Some r" "name_of r f" using eval_names [OF assms(1)] by blast
  moreover have "path_comps (path_Clean (abs_path cs)) = cs" using assms(2) by (simp add: clean_of_clean path_comps_abs clean_comps_def)
  ultimately show ?thesis by (cases "rev cs") (simp_all add: resolveRealTarget_def)
qed

lemma guard_closes:
  assumes cs: "clean_comps cs" and g: "denyHarnessConfigPath os (abs_path cs) = None" "cfg_dir os = Some cfg"
    and f: "name \<in> set protectedConfigFiles" "opened (path_Join [cfg, name]) = Some f"
    and inner: "\<And>r. name_of r f \<Longrightarrow> inside cfg r"
  shows "opened (abs_path cs) \<noteq> Some f"
proof
  assume o1: "opened (abs_path cs) = Some f"
  obtain r where r: "resolveRealTarget os (abs_path cs) = r" "name_of r f" using real_of_open [OF o1 cs] by blast
  show False using g inner [OF r(2)] hard_link_seen [OF o1 f(2,1)] r(1) by (simp add: denyHarnessConfigPath_def Let_def split: if_splits)
qed

end

lemma opens_file_walk: "opens_file t p = Some f \<longleftrightarrow> (\<exists>cs. walk False t max_links [] (path_comps p) = Some cs \<and> t cs = Some (FsFile f))"
  by (auto simp: opens_file_def split: option.splits fs_node.splits)

interpretation tree: os_files "os_of home t" "opens_file t" "\<lambda>r f. \<exists>cs. r = abs_path cs \<and> t cs = Some (FsFile f)" for home t
proof
  fix p f
  assume "opens_file t p = Some f"
  then obtain cs where "walk False t max_links [] (path_comps p) = Some cs" "t cs = Some (FsFile f)" unfolding opens_file_walk by blast
  then show "\<exists>r. os_eval (os_of home t) p = Some r \<and> (\<exists>cs. r = abs_path cs \<and> t cs = Some (FsFile f))"
    "os_stat (os_of home t) p = Some \<lparr>fi_regular = True, fi_dev = fst f, fi_ino = snd f\<rparr>"
    by (auto simp: os_of_def)
qed

lemma accepted_passes_guard:
  assumes "resolve_path os root raw = Inr p" shows "denyHarnessConfigPath os p = None"
  using assms by (auto simp: resolve_path_def Let_def split: if_splits option.splits)

text \<open>C9. Whatever links a file system has: if every name of a protected configuration file is inside the
  configuration directory, then no path that the file tools accept opens_file this file.\<close>

theorem protected_files_stay_closed:
  assumes root: "root = abs_path rs" "clean_comps rs" and r: "resolve_path (os_of home t) root raw = Inr p"
    and cfg: "cfg_dir (os_of home t) = Some cfg" and f: "name \<in> set protectedConfigFiles" "opens_file t (path_Join [cfg, name]) = Some f"
    and inner: "\<And>cs. t cs = Some (FsFile f) \<Longrightarrow> inside cfg (abs_path cs)"
  shows "opens_file t p \<noteq> Some f"
proof -
  obtain cs where cs: "p = abs_path cs" "clean_comps cs" using accepted_path_is_clean [OF root r] by blast
  have "denyHarnessConfigPath (os_of home t) (abs_path cs) = None" using accepted_passes_guard [OF r] cs(1) by simp
  then show ?thesis unfolding cs(1) using tree.guard_closes [OF cs(2) _ cfg f] inner by blast
qed

section \<open>Links around the guard\<close>

text \<open>A workspace beside a configuration directory with settings and no \<open>oauth.json\<close>; \<open>hard\<close> is a hard link to the
  settings, \<open>soft\<close> a link to them and \<open>gone\<close> a link to the missing file.\<close>

definition link_tree :: file_tree where
  "link_tree = map_of
     [([''home''], FsDir), ([''home'', ''.go-code''], FsDir), ([''home'', ''.go-code'', ''settings.json''], FsFile (1, 7)),
      ([''home'', ''.go-code'', ''memory''], FsDir), ([''home'', ''.go-code'', ''memory'', ''hard''], FsFile (1, 7)),
      ([''ws''], FsDir), ([''ws'', ''a''], FsFile (1, 9)), ([''ws'', ''hard''], FsFile (1, 7)),
      ([''ws'', ''soft''], FsLink ''/home/.go-code/settings.json''), ([''ws'', ''gone''], FsLink ''/home/.go-code/oauth.json'')]"

definition link_os :: os_view where "link_os = os_of (Some ''/home'') link_tree"


lemma guard_on_links:
  "resolve_path link_os ''/ws'' ''soft'' = Inl (ProtectedPath ''/ws/soft'' ''/home/.go-code/settings.json'')"
  "resolve_path link_os ''/ws'' ''/home/.go-code/memory/hard'' = Inl (HardLinkToConfig ''/home/.go-code/memory/hard'')"
  "resolve_path link_os ''/ws'' ''hard'' = Inr ''/ws/hard''" "resolve_path link_os ''/ws'' ''gone'' = Inr ''/ws/gone''"
  by code_simp+

text \<open>A path of plain directories: no element is a link.\<close>

definition plain_dirs :: "file_tree \<Rightarrow> string list \<Rightarrow> bool" where
  "plain_dirs t ds \<longleftrightarrow> clean_comps ds \<and> (\<forall>k \<in> {1..length ds}. t (take k ds) = Some FsDir)"

lemma walk_dirs:
  assumes "\<forall>k. 0 < k \<and> k \<le> length ds \<longrightarrow> t (cur @ take k ds) = Some FsDir" "''..'' \<notin> set ds"
  shows "walk new t n cur (ds @ cs) = walk new t n (cur @ ds) cs"
  using assms
proof (induction ds arbitrary: cur)
  case (Cons d ds)
  have "t (cur @ [d]) = Some FsDir" using Cons.prems(1) [rule_format, of 1] by simp
  moreover have "t ((cur @ [d]) @ take k ds) = Some FsDir" if "0 < k \<and> k \<le> length ds" for k
    using Cons.prems(1) [rule_format, of "Suc k"] that by simp
  moreover have "d \<noteq> ''..''" using Cons.prems(2) by auto
  ultimately show ?case using Cons.IH [of "cur @ [d]"] Cons.prems(2) by simp
qed simp

lemma walk_plain: "plain_dirs t ds \<Longrightarrow> walk new t n [] (ds @ cs) = walk new t n ds cs"
  using walk_dirs [of ds t "[]" new n cs] by (simp add: plain_dirs_def clean_comps_def less_Suc_eq_le Suc_le_eq)

lemma walk_plain_all: "plain_dirs t ds \<Longrightarrow> walk new t n [] ds = Some ds"
  using walk_plain [of t ds new n "[]"] by simp

lemma elem_name: "name \<in> set protectedConfigFiles \<Longrightarrow> elem_ok name \<and> name \<noteq> ''..''"
  by (auto simp: protectedConfigFiles_def elem_ok_def)

lemma join_last: "elem_ok c \<Longrightarrow> c \<noteq> ''..'' \<Longrightarrow> path_Join [c, []] = c"
  using path_comps_append [of c "[]"] path_comps_elem [of c]
  by (cases c) (auto simp: path_Join_def path_Clean_def IsAbs_def has_prefix_iff elem_ok_def Let_def)

text \<open>A name in a plain directory that is no link, or a link that leads nowhere, is its own real place for
  the guard.\<close>

lemma real_in_plain:
  assumes ds: "plain_dirs t ds" and c: "elem_ok c" "c \<noteq> ''..''"
    and ev: "walk False t max_links [] (ds @ [c]) = Some (ds @ [c]) \<or> walk False t max_links [] (ds @ [c]) = None"
  shows "resolveRealTarget (os_of home t) (abs_path (ds @ [c])) = abs_path (ds @ [c])"
proof -
  have k: "clean_comps (ds @ [c])" "list_all elem_ok (ds @ [c])" "list_all elem_ok ds" using ds c by (simp_all add: plain_dirs_def clean_comps_def)
  have pc: "path_comps (path_Clean (abs_path (ds @ [c]))) = ds @ [c]" by (simp add: clean_of_clean [OF k(1)] path_comps_abs [OF k(2)])
  have e: "os_eval (os_of home t) (abs_path xs) = map_option abs_path (walk False t max_links [] xs)" if "list_all elem_ok xs" for xs
    using that by (simp add: os_of_def path_comps_abs)
  have j: "path_Join [abs_path ds, c] = abs_path (ds @ [c])"
    using join_abs_elems [OF k(3), of c] k(1) by (simp add: path_comps_elem [OF c(1)] clean_stack_clean clean_comps_def)
  show ?thesis
  proof (cases "walk False t max_links [] (ds @ [c])")
    case (Some x)
    then show ?thesis using ev e [OF k(2)] by (simp add: resolveRealTarget_def pc)
  next
    case None
    have "real_target (os_of home t) p (rev ds) c = abs_path (ds @ [c])" for p
      using e [OF k(3)] walk_plain_all [OF ds] j c by (cases "rev ds") (auto simp: elem_ok_def)
    then show ?thesis using None e [OF k(2)] join_last [OF c] by (simp add: resolveRealTarget_def pc)
  qed
qed

lemma outside_accepted:
  assumes cs: "clean_comps cs" and cfg: "cfg_dir os = Some (abs_path gs)" "clean_comps gs" "gs \<noteq> []" "\<not> prefix gs cs"
    and real: "resolveRealTarget os (abs_path cs) = abs_path cs"
  shows "resolve_path os root (abs_path cs) = Inr (abs_path cs)"
proof -
  have "\<not> inside (abs_path gs) (abs_path cs)" using inside_abs [of gs cs] cfg cs by (simp add: clean_comps_def)
  then have "denyHarnessConfigPath os (abs_path cs) = None" using cfg(1) real by (simp add: denyHarnessConfigPath_def)
  then show ?thesis by (simp add: resolve_path_def join_abs clean_of_clean [OF cs] Let_def) (simp add: abs_path_def)
qed

lemma protected_refused:
  assumes gs: "clean_comps gs" "gs \<noteq> []" and name: "name \<in> set protectedConfigFiles" and cfg: "cfg_dir os = Some (abs_path gs)"
    and real: "resolveRealTarget os (abs_path (gs @ [name])) = abs_path (gs @ [name])"
  shows "resolve_path os root (abs_path (gs @ [name])) = Inl (ProtectedPath (abs_path (gs @ [name])) (abs_path (gs @ [name])))"
proof -
  note n = elem_name [OF name]
  have g: "list_all elem_ok gs" "''..'' \<notin> set gs" "clean_comps (gs @ [name])" using gs(1) n by (auto simp: clean_comps_def)
  have i: "inside (abs_path gs) (abs_path (gs @ [name]))" using inside_abs [of gs "gs @ [name]"] g(1) gs(2) n by simp
  have sub: "\<not> inside (path_Join [abs_path gs, sub]) (abs_path (gs @ [name]))" if "sub \<in> set allowedConfigSubtrees" for sub
  proof -
    have s: "elem_ok sub" "sub \<noteq> ''..''" "sub \<noteq> name" using that name by (auto simp: allowedConfigSubtrees_def elem_ok_def protectedConfigFiles_def)
    have "path_Join [abs_path gs, sub] = abs_path (gs @ [sub])"
      using join_abs_elems [OF g(1), of sub] s g(2) by (simp add: path_comps_elem clean_stack_clean)
    then show ?thesis using inside_abs [of "gs @ [sub]" "gs @ [name]"] g(1) n s by simp
  qed
  have "denyHarnessConfigPath os (abs_path (gs @ [name])) = Some (ProtectedPath (abs_path (gs @ [name])) (abs_path (gs @ [name])))"
    using cfg real i sub by (auto simp: denyHarnessConfigPath_def list_ex_iff Let_def)
  then show ?thesis by (simp add: resolve_path_def join_abs clean_of_clean [OF g(3)] Let_def) (simp add: abs_path_def)
qed

text \<open>C10. Two ways around the guard, in every tree of files: let \<open>name\<close> be a protected name in the configuration
  directory, \<open>gs\<close>, which the guard refuses, and \<open>c\<close> a name in any plain directory outside of it. If \<open>c\<close> is a hard link
  to the protected file, its path is accepted and opens that file. If \<open>c\<close> is a symbolic link to the protected
  name and the file does not exist yet, the path is accepted and opening it with \<open>O_CREATE\<close>, as an append does,
  makes the protected file.\<close>

theorem links_around_the_guard:
  assumes cfg: "cfg_dir (os_of home t) = Some (abs_path gs)" "plain_dirs t gs" "gs \<noteq> []" "name \<in> set protectedConfigFiles"
    and c: "plain_dirs t ds" "elem_ok c" "c \<noteq> ''..''" "\<not> prefix gs (ds @ [c])"
    and link: "t (ds @ [c]) = Some (FsFile f) \<and> t (gs @ [name]) = Some (FsFile f) \<or>
      t (ds @ [c]) = Some (FsLink (abs_path (gs @ [name]))) \<and> t (gs @ [name]) = None"
  shows "resolve_path (os_of home t) root (abs_path (gs @ [name])) = Inl (ProtectedPath (abs_path (gs @ [name])) (abs_path (gs @ [name]))) \<and>
    resolve_path (os_of home t) root (abs_path (ds @ [c])) = Inr (abs_path (ds @ [c])) \<and>
    (if t (gs @ [name]) = None then creates t (abs_path (ds @ [c])) = Some (abs_path (gs @ [name]))
     else opens_file t (abs_path (ds @ [c])) = Some f \<and> opens_file t (abs_path (gs @ [name])) = Some f)"
proof -
  note n = elem_name [OF cfg(4)]
  have k: "clean_comps gs" "clean_comps (ds @ [c])" "list_all elem_ok (ds @ [c])" "list_all elem_ok (gs @ [name])"
    using cfg(2) c n by (simp_all add: plain_dirs_def clean_comps_def)
  have wn: "walk new t m [] (gs @ [name]) = (case t (gs @ [name]) of None \<Rightarrow> if new then Some (gs @ [name]) else None | Some _ \<Rightarrow> Some (gs @ [name]))" for new m
    using walk_plain [OF cfg(2)] n link by auto
  have wc: "walk new t max_links [] (ds @ [c]) = (case t (ds @ [c]) of Some (FsLink l) \<Rightarrow> walk new t (max_links - 1) [] (gs @ [name]) | _ \<Rightarrow> Some (ds @ [c]))" for new
    using walk_plain [OF c(1)] c(3) link path_comps_abs [OF k(4)] by (auto simp: max_links_def)
  have "resolveRealTarget (os_of home t) (abs_path (gs @ [name])) = abs_path (gs @ [name])"
    by (rule real_in_plain [OF cfg(2)]) (use n wn in \<open>auto split: option.splits\<close>)
  from protected_refused [OF k(1) cfg(3,4,1) this]
  have 1: "resolve_path (os_of home t) root (abs_path (gs @ [name])) = Inl (ProtectedPath (abs_path (gs @ [name])) (abs_path (gs @ [name])))" .
  have "resolveRealTarget (os_of home t) (abs_path (ds @ [c])) = abs_path (ds @ [c])"
    by (rule real_in_plain [OF c(1-3)]) (use link wc wn in auto)
  from outside_accepted [OF k(2) cfg(1) k(1) cfg(3) c(4) this]
  have 2: "resolve_path (os_of home t) root (abs_path (ds @ [c])) = Inr (abs_path (ds @ [c]))" .
  show ?thesis using 1 2 link wc wn by (auto simp: creates_def opens_file_def path_comps_abs [OF k(3)] path_comps_abs [OF k(4)])
qed

theorem links_around_the_guard_witness:
  "resolve_path (os_of (Some ''/home'') link_tree) ''/ws'' ''/ws/hard'' = Inr ''/ws/hard'' \<and> opens_file link_tree ''/ws/hard'' = Some (1, 7) \<and>
   opens_file link_tree ''/home/.go-code/settings.json'' = Some (1, 7) \<and>
   resolve_path (os_of (Some ''/home'') link_tree) ''/ws'' ''/ws/gone'' = Inr ''/ws/gone'' \<and> creates link_tree ''/ws/gone'' = Some ''/home/.go-code/oauth.json''"
proof -
  have cfg: "cfg_dir (os_of (Some ''/home'') link_tree) = Some (abs_path [''home'', ''.go-code''])" by code_simp
  have d: "plain_dirs link_tree [''home'', ''.go-code'']" "plain_dirs link_tree [''ws'']"
    by (simp_all add: plain_dirs_def clean_comps_def elem_ok_def link_tree_def atLeastAtMostSuc_conv numeral_2_eq_2)
  have n: "''settings.json'' \<in> set protectedConfigFiles" "''oauth.json'' \<in> set protectedConfigFiles" by (simp_all add: protectedConfigFiles_def)
  have e: "elem_ok ''hard''" "elem_ok ''gone''" by (simp_all add: elem_ok_def)
  have t: "link_tree [''ws'', ''hard''] = Some (FsFile (1, 7))" "link_tree [''home'', ''.go-code'', ''settings.json''] = Some (FsFile (1, 7))"
    "link_tree [''ws'', ''gone''] = Some (FsLink (abs_path [''home'', ''.go-code'', ''oauth.json'']))" "link_tree [''home'', ''.go-code'', ''oauth.json''] = None"
    by (simp_all add: link_tree_def abs_path_def)
  show ?thesis
    using links_around_the_guard [OF cfg d(1) _ n(1) d(2) e(1), of "(1, 7)" "''/ws''"]
      links_around_the_guard [OF cfg d(1) _ n(2) d(2) e(2), of "(1, 7)" "''/ws''"] t
    by (simp add: abs_path_def)
qed

section \<open>Instances\<close>

lemma ws_comps: "''/ws'' = abs_path [''ws'']" "clean_comps [''ws'']"
  by (simp_all add: abs_path_def clean_comps_def elem_ok_def)

theorem accepted_path_is_clean_witness: "\<exists>cs. ''/ws/hard'' = abs_path cs \<and> clean_comps cs \<and> prefix [''ws''] cs"
proof -
  have "\<not> IsAbs ''hard''" by code_simp
  then show ?thesis using accepted_path_is_clean [OF ws_comps guard_on_links(3)] by blast
qed

definition plain_tree :: file_tree where "plain_tree = link_tree([''ws'', ''hard''] := None)"

theorem protected_files_stay_closed_witness:
  "opens_file plain_tree ''/ws/a'' = Some (1, 9) \<and> opens_file plain_tree ''/home/.go-code/settings.json'' = Some (1, 7) \<and> opens_file plain_tree ''/ws/a'' \<noteq> Some (1, 7)"
proof -
  have r: "resolve_path (os_of (Some ''/home'') plain_tree) ''/ws'' ''a'' = Inr ''/ws/a''"
    "cfg_dir (os_of (Some ''/home'') plain_tree) = Some ''/home/.go-code''" by code_simp+
  have o1: "opens_file plain_tree (path_Join [''/home/.go-code'', ''settings.json'']) = Some (1, 7)"
    "opens_file plain_tree ''/home/.go-code/settings.json'' = Some (1, 7)" "opens_file plain_tree ''/ws/a'' = Some (1, 9)" by code_simp+
  have name: "''settings.json'' \<in> set protectedConfigFiles" by (simp add: protectedConfigFiles_def)
  have inner: "inside ''/home/.go-code'' (abs_path cs)" if "plain_tree cs = Some (FsFile (1, 7))" for cs
  proof -
    have "cs = [''home'', ''.go-code'', ''settings.json''] \<or> cs = [''home'', ''.go-code'', ''memory'', ''hard'']"
      using that by (auto simp: plain_tree_def link_tree_def split: if_splits)
    then show ?thesis by (auto simp: abs_path_def inside_def has_prefix_iff)
  qed
  show ?thesis using protected_files_stay_closed [OF ws_comps r name o1(1) inner] o1(2,3) by blast
qed

end
