(* ===== verification/FileTools.thy ===== *)
theory FileTools
  imports PathGuard ToolEngine
begin

text \<open>
  The tools \<open>read_file\<close>, \<open>write_file\<close> and \<open>edit_file\<close> (\<open>tools/builtin/builtin.go\<close>) with the change record of a
  write (\<open>diff.go\<close>), the recognition of images (\<open>image.go\<close>) and the two texts of \<open>recovery.go\<close>. The files
  are a map from paths to contents; what the tools get from the operating system, from the diff
  library, the image codecs and the hooks of the host is the record \<open>file_env\<close>. The arguments are
  given decoded. Writers at the same time are in theory \<open>FileLocks\<close>.
\<close>

section \<open>Strings\<close>

text \<open>\<open>strings.Count\<close> of a non-empty substring, \<open>strings.Replace\<close> of the first one, and a count of bytes.\<close>

function count_sub :: "string \<Rightarrow> string \<Rightarrow> nat" where
  "count_sub p s =
     (if p = [] then 0
      else (case str_index s p of None \<Rightarrow> 0 | Some i \<Rightarrow> Suc (count_sub p (drop (i + length p) s))))"
  by pat_completeness auto
termination
proof (relation "measure (\<lambda>(p, s). length s)")
  fix p s :: string and i
  assume "p \<noteq> []" "str_index s p = Some i"
  then show "((p, drop (i + length p) s), (p, s)) \<in> measure (\<lambda>(p, s). length s)"
    using str_index_bound [of s p i] by (cases p) auto
qed simp

declare count_sub.simps [simp del]

definition str_count :: "string \<Rightarrow> string \<Rightarrow> nat" where
  "str_count s p = (if p = [] then length (runes s) + 1 else count_sub p s)"

definition replace_first :: "string \<Rightarrow> string \<Rightarrow> string \<Rightarrow> string" where
  "replace_first s p r = (case str_index s p of None \<Rightarrow> s | Some i \<Rightarrow> take i s @ r @ drop (i + length p) s)"

definition newlines :: "string \<Rightarrow> nat" where "newlines s = length (filter (\<lambda>c. c = CHR 0x0A) s)"

section \<open>Texts\<close>

definition nl :: string where "nl = [CHR 0x0A]"

definition invalidJSON :: "string \<Rightarrow> string" where
  "invalidJSON detail =
     recoveryError ''invalid_arguments'' ''correct_arguments'' detail ''Send valid JSON matching the tool schema; do not repeat the same arguments.''"

definition requiredArgument :: "string \<Rightarrow> string" where
  "requiredArgument name =
     recoveryError ''missing_required_argument'' ''correct_arguments'' (name @ '' is required'') ''Provide the missing argument and retry.''"

text \<open>\<open>%.1f\<close> and \<open>%.0f\<close> of a quotient by a power of two, which is exact: to the nearest, ties to even.\<close>

definition round_div :: "nat \<Rightarrow> nat \<Rightarrow> nat" where
  "round_div a b = (let q = a div b; r = a mod b in if b < 2 * r \<or> (2 * r = b \<and> odd q) then q + 1 else q)"

definition humanSize :: "nat \<Rightarrow> string" where
  "humanSize n =
     (if 2 ^ 20 \<le> n then (let t = round_div (n * 10) (2 ^ 20) in show_nat (t div 10) @ ''.'' @ show_nat (t mod 10) @ ''MB'')
      else if 2 ^ 10 \<le> n then show_nat (round_div n (2 ^ 10)) @ ''KB''
      else show_nat n @ ''B'')"

definition withNotice :: "string \<Rightarrow> string \<Rightarrow> string" where
  "withNotice result notice = (if trim_space notice = [] then result else result @ nl @ nl @ trim_space notice)"

section \<open>The record of a change\<close>

record file_diff =
  fd_path :: string
  fd_added :: nat
  fd_removed :: nat
  fd_unified :: string
  fd_truncated :: bool
  fd_created :: bool
  fd_size :: nat
  fd_lines :: nat
  fd_sha :: string

text \<open>The operations of the diff library.\<close>

datatype op_tag = OpEqual | OpInsert | OpDelete | OpReplace

record op_code =
  oc_tag :: op_tag
  oc_I1 :: nat
  oc_I2 :: nat
  oc_J1 :: nat
  oc_J2 :: nat

record diff_lib =
  dl_grouped :: "string list \<Rightarrow> string list \<Rightarrow> op_code list list"
  dl_unified :: "string \<Rightarrow> string list \<Rightarrow> string list \<Rightarrow> string option"
  dl_sha :: "string \<Rightarrow> string"

definition maxUnifiedDiffBytes :: nat where "maxUnifiedDiffBytes = 8 * 1024"
definition maxArtifactHashBytes :: nat where "maxArtifactHashBytes = 8 * 2 ^ 20"

text \<open>\<open>strings.SplitAfter\<close> at line ends, without the empty rest.\<close>

fun splitLines :: "string \<Rightarrow> string list" where
  "splitLines [] = []"
| "splitLines (c # s) =
     (if c = CHR 0x0A then [c] # splitLines s
      else (case splitLines s of [] \<Rightarrow> [[c]] | l # ls \<Rightarrow> (c # l) # ls))"

definition diffStats :: "diff_lib \<Rightarrow> string list \<Rightarrow> string list \<Rightarrow> nat \<times> nat" where
  "diffStats dl a b =
     fold (\<lambda>op (added, removed).
         case oc_tag op of
           OpEqual \<Rightarrow> (added, removed)
         | OpInsert \<Rightarrow> (added + (oc_J2 op - oc_J1 op), removed)
         | OpDelete \<Rightarrow> (added, removed + (oc_I2 op - oc_I1 op))
         | OpReplace \<Rightarrow> (added + (oc_J2 op - oc_J1 op), removed + (oc_I2 op - oc_I1 op)))
       (concat (dl_grouped dl a b)) (0, 0)"

definition truncateUTF8 :: "string \<Rightarrow> nat \<Rightarrow> string" where
  "truncateUTF8 s n = (if length s \<le> n then s else take (back_to_start s n) s)"

definition no_diff :: "string \<Rightarrow> file_diff" where
  "no_diff path =
     \<lparr>fd_path = path, fd_added = 0, fd_removed = 0, fd_unified = [], fd_truncated = False, fd_created = False, fd_size = 0, fd_lines = 0, fd_sha = []\<rparr>"

definition computeFileDiff :: "diff_lib \<Rightarrow> string \<Rightarrow> string \<Rightarrow> string \<Rightarrow> file_diff" where
  "computeFileDiff dl path old new =
     (if old = new then no_diff path
      else let al = splitLines old; bl = splitLines new; (added, removed) = diffStats dl al bl;
               d = (no_diff path)\<lparr>fd_added := added, fd_removed := removed\<rparr> in
        (case dl_unified dl path al bl of
           None \<Rightarrow> d\<lparr>fd_truncated := True\<rparr>
         | Some u \<Rightarrow>
             if maxUnifiedDiffBytes < length u
             then d\<lparr>fd_truncated := True,
                    fd_unified := truncateUTF8 u maxUnifiedDiffBytes @ nl @ ''[file diff truncated: +'' @ show_nat added @ '' -'' @ show_nat removed @ '' lines]'' @ nl\<rparr>
             else d\<lparr>fd_unified := u\<rparr>))"

definition contentFingerprint :: "diff_lib \<Rightarrow> string \<Rightarrow> string" where
  "contentFingerprint dl content = (if maxArtifactHashBytes < length content then [] else dl_sha dl content)"

definition finalizeDiff :: "diff_lib \<Rightarrow> string \<Rightarrow> file_diff \<Rightarrow> file_diff" where
  "finalizeDiff dl content d =
     (let d1 = d\<lparr>fd_size := length content, fd_lines := newlines content\<rparr> in
      if length content \<le> maxArtifactHashBytes then d1\<lparr>fd_sha := dl_sha dl content\<rparr> else d1)"

section \<open>Images and binary files\<close>

record image_format =
  if_mime :: string
  if_ext :: string
  if_decodable :: bool

definition detectImageFormat :: "string \<Rightarrow> image_format option" where
  "detectImageFormat d =
     (if has_prefix d [CHR 0x89, CHR ''P'', CHR ''N'', CHR ''G'', CHR 0x0D, CHR 0x0A, CHR 0x1A, CHR 0x0A]
        then Some \<lparr>if_mime = ''image/png'', if_ext = ''.png'', if_decodable = True\<rparr>
      else if has_prefix d [CHR 0xFF, CHR 0xD8, CHR 0xFF] then Some \<lparr>if_mime = ''image/jpeg'', if_ext = ''.jpg'', if_decodable = True\<rparr>
      else if has_prefix d ''GIF87a'' \<or> has_prefix d ''GIF89a'' then Some \<lparr>if_mime = ''image/gif'', if_ext = ''.gif'', if_decodable = True\<rparr>
      else if has_prefix d ''RIFF'' \<and> has_prefix (drop 8 d) ''WEBP'' then Some \<lparr>if_mime = ''image/webp'', if_ext = ''.webp'', if_decodable = False\<rparr>
      else if has_prefix d ''BM'' then Some \<lparr>if_mime = ''image/bmp'', if_ext = ''.bmp'', if_decodable = False\<rparr>
      else if has_prefix (drop 4 d) ''ftypheic'' then Some \<lparr>if_mime = ''image/heic'', if_ext = ''.heic'', if_decodable = False\<rparr>
      else None)"

definition odd_byte :: "char \<Rightarrow> bool" where
  "odd_byte c \<longleftrightarrow> of_char c < (0x09 :: nat) \<or> (of_char c > (0x0D :: nat) \<and> of_char c < (0x20 :: nat)) \<or> of_char c = (0x7F :: nat)"

definition LookBinary :: "string \<Rightarrow> bool" where
  "LookBinary d =
     (let head = take (8 * 1024) d in
      if CHR 0x00 \<in> set head then True
      else if head = [] then False
      else 30 < length (filter odd_byte head) * 100 div length head)"

text \<open>\<open>filepath.Ext\<close>: from the last dot of the last element.\<close>

definition path_Ext :: "string \<Rightarrow> string" where
  "path_Ext p =
     (let e = rev (takeWhile (\<lambda>c. c \<noteq> CHR ''/'') (rev p)) in
      if CHR ''.'' \<in> set e then ''.'' @ rev (takeWhile (\<lambda>c. c \<noteq> CHR ''.'') (rev e)) else [])"

definition imageExtHint :: "string \<Rightarrow> bool" where
  "imageExtHint p \<longleftrightarrow>
     to_lower (path_Ext p) \<in> set [''.png'', ''.jpg'', ''.jpeg'', ''.gif'', ''.webp'', ''.bmp'', ''.heic'', ''.tif'', ''.tiff'', ''.avif'']"

definition maxImageDim :: int where "maxImageDim = 1568"
definition maxInlineImageBytes :: int where "maxInlineImageBytes = 3 * 2 ^ 20"
definition encodedLen :: "nat \<Rightarrow> int" where "encodedLen n = (int n + 2) div 3 * 4"


text \<open>The image codecs: the size in the header, decoding to width and height, and the encoding of the image
  scaled to a longest side at a quality.\<close>

record image_lib =
  il_size :: "string \<Rightarrow> (nat \<times> nat) option"
  il_decode :: "string \<Rightarrow> string + (nat \<times> nat)"
  il_jpeg :: "string \<Rightarrow> int \<Rightarrow> int \<Rightarrow> string + string"
  il_base64 :: "string \<Rightarrow> string"

definition scaleToFit :: "nat \<times> nat \<Rightarrow> int \<Rightarrow> nat \<times> nat" where
  "scaleToFit wh dim =
     (let (w, h) = wh; longest = int (max w h) in
      if longest \<le> dim \<or> longest = 0 then (w, h)
      else (nat (max 1 (int w * dim div longest)), nat (max 1 (int h * dim div longest))))"

fun try_qualities :: "(int \<Rightarrow> string + string) \<Rightarrow> int \<Rightarrow> int list \<Rightarrow> nat \<Rightarrow> string + (string option \<times> nat)" where
  "try_qualities enc mx [] len1 = Inr (None, len1)"
| "try_qualities enc mx (q # qs) len1 =
     (case enc q of
        Inl e \<Rightarrow> Inl e
      | Inr b \<Rightarrow> if encodedLen (length b) \<le> mx then Inr (Some b, length b) else try_qualities enc mx qs (length b))"

fun shrink_rounds :: "nat \<Rightarrow> (int \<Rightarrow> int \<Rightarrow> string + string) \<Rightarrow> nat \<times> nat \<Rightarrow> int \<Rightarrow> int \<Rightarrow> nat \<Rightarrow> string + (string \<times> nat \<times> nat)" where
  "shrink_rounds 0 enc wh mx dim len1 = Inl (''still '' @ humanSize len1 @ '' after downscaling'')"
| "shrink_rounds (Suc n) enc wh mx dim len1 =
     (case try_qualities (enc dim) mx [85, 60, 45] len1 of
        Inl e \<Rightarrow> Inl e
      | Inr (Some b, _) \<Rightarrow> Inr (b, scaleToFit wh dim)
      | Inr (None, len2) \<Rightarrow>
          if dim div 2 < 64 then Inl (''still '' @ humanSize len2 @ '' after downscaling'') else shrink_rounds n enc wh mx (dim div 2) len2)"

definition shrinkToLimit :: "(int \<Rightarrow> int \<Rightarrow> string + string) \<Rightarrow> nat \<times> nat \<Rightarrow> int \<Rightarrow> string + (string \<times> nat \<times> nat)" where
  "shrinkToLimit enc wh mx = shrink_rounds 6 enc wh mx (min maxImageDim (int (max (fst wh) (snd wh)))) 0"

definition show_dims :: "nat \<times> nat \<Rightarrow> string" where "show_dims wh = show_nat (fst wh) @ ''x'' @ show_nat (snd wh)"

definition read_dash :: string where \<comment> \<open>a long dash between blanks\<close>
  "read_dash = '' '' @ [CHR 0xE2, CHR 0x80, CHR 0x94] @ '' ''"

text \<open>The data URL and the text of an image; the block also carries the type.\<close>

definition loadImageForModel :: "image_lib \<Rightarrow> string \<Rightarrow> string \<Rightarrow> int \<Rightarrow> string + (string \<times> string \<times> string)" where
  "loadImageForModel il path d maxBytes =
     (let mx = (if maxBytes \<le> 0 then maxInlineImageBytes else maxBytes) in
      case detectImageFormat d of
        None \<Rightarrow> Inl (path @ '' is not a supported image format'')
      | Some f \<Rightarrow>
          let name = path_Base path; size = humanSize (length d) in
          if encodedLen (length d) \<le> mx then
            let dim = (case il_size il d of Some wh \<Rightarrow> '', '' @ show_dims wh | None \<Rightarrow> []) in
            Inr (''data:'' @ if_mime f @ '';base64,'' @ il_base64 il d, if_mime f,
                 ''[read_file: '' @ name @ read_dash @ if_mime f @ dim @ '', '' @ size @ '', embedded as-is for direct viewing]'')
          else if \<not> if_decodable f then
            Inl (name @ '' is '' @ if_mime f @ '' ('' @ size @ '') and exceeds the inline limit ('' @ humanSize (nat mx) @
                 ''); this harness cannot re-encode '' @ if_ext f @
                 ''. Convert it first (e.g. `sips -s format png`, `ffmpeg`, `cwebp -d`) or read the original source instead'')
          else (case il_decode il d of
              Inl e \<Rightarrow> Inl (name @ '': decode '' @ if_mime f @ '' failed: '' @ e)
            | Inr wh \<Rightarrow>
                (case shrinkToLimit (il_jpeg il d) wh mx of
                   Inl e \<Rightarrow> Inl (name @ '': cannot shrink '' @ show_dims wh @ '' '' @ if_mime f @ '' image under '' @ humanSize (nat mx) @ '': '' @ e)
                 | Inr (b, w, h) \<Rightarrow>
                     Inr (''data:image/jpeg;base64,'' @ il_base64 il b, ''image/jpeg'',
                          ''[read_file: '' @ name @ read_dash @ if_mime f @ '' '' @ show_dims wh @ '' '' @ size @ '', downscaled to '' @ show_dims (w, h) @
                          '' JPEG '' @ humanSize (length b) @ '' to fit the inline limit]''))))"

section \<open>The environment of the tools\<close>

text \<open>Files by their paths; failures of an operation on a path other than a missing file are an argument, and so
  is the number of bytes a failing write of \<open>appendTo\<close> has written before.\<close>

type_synonym files = "string \<Rightarrow> string option"

datatype io_op = IoStat | IoHead | IoSize | IoRead | IoOpen | IoLock | IoReplace | IoAppend

record file_env =
  fe_os :: os_view
  fe_root :: string
  fe_quote :: "string \<Rightarrow> string"
  fe_diff :: diff_lib
  fe_image :: image_lib
  fe_maxImageBytes :: int
  fe_fault :: "io_op \<Rightarrow> string \<Rightarrow> string option"
  fe_written :: "string \<Rightarrow> nat"
  fe_isDir :: "string \<Rightarrow> bool"
  fe_entries :: "string \<Rightarrow> (string \<times> bool) list option"
  fe_binaryHint :: "(string \<Rightarrow> string) option"
  fe_postRead :: "(string \<Rightarrow> string + string) option"
  fe_postWrite :: "(string \<Rightarrow> string + string) option"

definition notify :: "(string \<Rightarrow> string + string) option \<Rightarrow> string \<Rightarrow> string + string" where
  "notify hook p = (case hook of None \<Rightarrow> Inr [] | Some f \<Rightarrow> f p)"

definition tool_resolve :: "file_env \<Rightarrow> string \<Rightarrow> string + string" where
  "tool_resolve env raw =
     (case resolve_path (fe_os env) (fe_root env) raw of Inl e \<Rightarrow> Inl (path_error_text (fe_quote env) e) | Inr p \<Rightarrow> Inr p)"

section \<open>A missing file\<close>

definition path_Dir :: "string \<Rightarrow> string" where
  "path_Dir p = path_Clean (rev (dropWhile (\<lambda>c. c \<noteq> CHR ''/'') (rev p)))"

text \<open>\<open>nearestExistingDir\<close> of an absolute path, with its elements in reverse.\<close>

fun nearestExistingDir :: "file_env \<Rightarrow> string list \<Rightarrow> string option" where
  "nearestExistingDir env [] = (if fe_isDir env (abs_path []) then Some (abs_path []) else None)"
| "nearestExistingDir env (c # rc) =
     (if fe_isDir env (abs_path (rev (c # rc))) then Some (abs_path (rev (c # rc))) else nearestExistingDir env rc)"

text \<open>The first element of \<open>p\<close> behind its ancestor \<open>dir\<close>.\<close>

definition missingComponent :: "string \<Rightarrow> string \<Rightarrow> string" where
  "missingComponent p dir =
     (if path_Clean dir = path_Clean (path_Dir p) then path_Base p
      else (case drop (length (path_comps dir)) (path_comps p) of [] \<Rightarrow> path_Base p | c # _ \<Rightarrow> c))"

definition quoteCandidates :: "(string \<Rightarrow> string) \<Rightarrow> string list \<Rightarrow> string" where
  "quoteCandidates q names =
     (case map q names of
        [x] \<Rightarrow> x
      | xs \<Rightarrow> join '', '' (butlast xs) @ '' or '' @ last xs)"

definition maxPathSuggestions :: int where "maxPathSuggestions = 3"

definition similarPathHint :: "file_env \<Rightarrow> string \<Rightarrow> string" where
  "similarPathHint env p =
     (case nearestExistingDir env (rev (path_comps (path_Dir p))) of
        None \<Rightarrow> []
      | Some dir \<Rightarrow>
          (case fe_entries env dir of
             None \<Rightarrow> []
           | Some es \<Rightarrow>
               let cands = SuggestSimilarFileNames (missingComponent p dir) (map fst es) maxPathSuggestions in
               if cands = [] then []
               else ''; did you mean '' @ quoteCandidates (fe_quote env) (map (\<lambda>n. if map_of es n = Some True then n @ ''/'' else n) cands) @ ''?''))"

definition notFoundError :: "string \<Rightarrow> string \<Rightarrow> string \<Rightarrow> string" where
  "notFoundError p tool hint =
     tool @ '': file not found: '' @ p @ hint @ '' (use glob to locate the file first, or inspect the workspace)''"

definition missing :: "file_env \<Rightarrow> files \<Rightarrow> string \<Rightarrow> bool" where
  "missing env fs p \<longleftrightarrow> fs p = None \<and> \<not> fe_isDir env p"

text \<open>Reading all of a path, which fails for a directory.\<close>

definition read_fault :: "file_env \<Rightarrow> files \<Rightarrow> string \<Rightarrow> string option" where
  "read_fault env fs p = (if fs p = None then Some (''read '' @ p @ '': is a directory'') else fe_fault env IoRead p)"

definition statPath :: "file_env \<Rightarrow> files \<Rightarrow> string \<Rightarrow> string \<Rightarrow> string option" where
  "statPath env fs p tool = (if missing env fs p then Some (notFoundError p tool []) else fe_fault env IoStat p)"

definition statPathHint :: "file_env \<Rightarrow> files \<Rightarrow> string \<Rightarrow> string \<Rightarrow> string option" where
  "statPathHint env fs p tool = (if missing env fs p then Some (notFoundError p tool (similarPathHint env p)) else fe_fault env IoStat p)"

section \<open>Reading\<close>

record read_args =
  ra_path :: string
  ra_start :: "int option"
  ra_end :: "int option"

definition show_line :: "int option \<Rightarrow> string" where
  "show_line l = (case l of None \<Rightarrow> ''omitted'' | Some i \<Rightarrow> show_int i)"

definition read_ValidParams :: "read_args \<Rightarrow> string option" where
  "read_ValidParams a =
     (if ra_path a = [] then Some (requiredArgument ''path'')
      else if (case ra_start a of Some i \<Rightarrow> i < 1 | None \<Rightarrow> False) \<or> (case ra_end a of Some i \<Rightarrow> i < 1 | None \<Rightarrow> False) then
        Some (recoveryError ''invalid_line_range'' ''correct_arguments''
          (''start_line='' @ show_line (ra_start a) @ '', end_line='' @ show_line (ra_end a) @ ''; line numbers must be >= 1 when provided'')
          ''Use positive 1-based line numbers, or omit start_line/end_line for the default range.'')
      else None)"

text \<open>\<open>bufio.ScanLines\<close>: lines without their end and one carriage return before it; a line of 4 MiB or more fails.\<close>

definition dropCR :: "string \<Rightarrow> string" where
  "dropCR l = (if l \<noteq> [] \<and> last l = CHR 0x0D then butlast l else l)"

definition raw_lines :: "string \<Rightarrow> string list" where
  "raw_lines s = (let ls = split_on (CHR 0x0A) s in if last ls = [] then butlast ls else ls)"

definition max_line :: nat where "max_line = 4 * 1024 * 1024"

fun pick_lines :: "int \<Rightarrow> int \<Rightarrow> int \<Rightarrow> string list \<Rightarrow> string list \<Rightarrow> int \<times> string list" where
  "pick_lines a b n [] acc = (n, acc)"
| "pick_lines a b n (l # ls) acc = pick_lines a b (n + 1) ls (if a \<le> n + 1 \<and> n + 1 \<le> b then acc @ [dropCR l] else acc)"

definition readLines :: "string \<Rightarrow> int \<Rightarrow> int \<Rightarrow> string + (int \<times> string list)" where
  "readLines s a b =
     (if list_ex (\<lambda>l. max_line \<le> length l) (raw_lines s) then Inl ''bufio.Scanner: token too long''
      else Inr (pick_lines a b 0 (raw_lines s) []))"

definition defaultReadMaxLines :: int where "defaultReadMaxLines = 200"

text \<open>First and last line, and whether the two were swapped.\<close>

definition read_window :: "read_args \<Rightarrow> int \<times> int \<times> bool" where
  "read_window a =
     (let s = (case ra_start a of None \<Rightarrow> 1 | Some i \<Rightarrow> i); e = (case ra_end a of None \<Rightarrow> 0 | Some i \<Rightarrow> i);
          swapped = (0 < e \<and> e < s); s1 = (if swapped then e else s); e1 = (if swapped then s else e) in
      (s1, if e1 < s1 then wrap64 (s1 + defaultReadMaxLines - 1) else e1, swapped))"

fun number_lines :: "int \<Rightarrow> string list \<Rightarrow> string" where
  "number_lines n [] = []"
| "number_lines n (l # ls) = show_int n @ '': '' @ l @ nl @ number_lines (n + 1) ls"

definition read_output :: "read_args \<Rightarrow> int \<Rightarrow> int \<Rightarrow> bool \<Rightarrow> int \<Rightarrow> string list \<Rightarrow> string" where
  "read_output a s e swapped total_lines ls =
     ''[read_file: '' @ ra_path a @ '', '' @ show_int total_lines @ '' lines total, showing '' @ show_int s @ ''-'' @ show_int (s + int (length ls) - 1) @ '']'' @ nl @
     (if swapped then ''[line range normalized from '' @ show_int (the (ra_start a)) @ ''-'' @ show_int (the (ra_end a)) @ '' to '' @ show_int s @ ''-'' @ show_int e @ '']'' @ nl else []) @
     (if ra_end a = None \<and> s + int (length ls) \<le> total_lines then ''[file has more lines; use start_line/end_line to read further]'' @ nl else []) @
     number_lines s ls"

definition defaultBinaryHint :: string where
  "defaultBinaryHint = ''Use bash for other formats (e.g. `file`, `ffmpeg`, `sips`, `unzip -l`)''"

definition binary_error :: "file_env \<Rightarrow> string \<Rightarrow> string \<Rightarrow> string \<Rightarrow> string" where
  "binary_error env path p d =
     (let kind = (if imageExtHint p then ''binary (image-like extension, but the content is not a decodable image)'' else ''binary'');
          size = (if fe_fault env IoSize p = None then '', '' @ humanSize (length d) else []);
          hint = (case fe_binaryHint env of None \<Rightarrow> defaultBinaryHint | Some f \<Rightarrow> f path) in
      ''read_file: '' @ path @ '' looks like a '' @ kind @ '' file'' @ size @ ''; read_file only returns text or decodable images (png/jpeg/gif).'' @
      (if hint = [] then [] else '' '' @ hint))"

text \<open>The text part of \<open>readFileTool.Call\<close>, for a path already resolved.\<close>

definition read_lines_call :: "file_env \<Rightarrow> read_args \<Rightarrow> string \<Rightarrow> string \<Rightarrow> string + string" where
  "read_lines_call env a p d =
     (let (s, e, swapped) = read_window a in
      case fe_fault env IoRead p of
        Some err \<Rightarrow> Inl err
      | None \<Rightarrow>
          (case readLines d s e of
             Inl err \<Rightarrow> Inl err
           | Inr (total_lines, ls) \<Rightarrow>
               (case notify (fe_postRead env) p of
                  Inl err \<Rightarrow> Inl err
                | Inr notice \<Rightarrow> Inr (withNotice (read_output a s e swapped total_lines ls) notice))))"

text \<open>The result of a call: an error, or a text and perhaps an image (its data URL and type).\<close>

definition read_Call :: "file_env \<Rightarrow> files \<Rightarrow> read_args \<Rightarrow> string + (string \<times> (string \<times> string) option)" where
  "read_Call env fs a =
     (case tool_resolve env (ra_path a) of
        Inl e \<Rightarrow> Inl e
      | Inr p \<Rightarrow>
          (case statPathHint env fs p ''read_file'' of
             Some e \<Rightarrow> Inl e
           | None \<Rightarrow>
               if fs p = None then Inl (''read '' @ p @ '': is a directory'')
               else let d = the (fs p); head = take 512 d; as_text = map_sum id (\<lambda>t. (t, None)) (read_lines_call env a p d) in
               if fe_fault env IoHead p \<noteq> None then as_text
               else (case detectImageFormat head of
                   Some f \<Rightarrow>
                     if ra_start a \<noteq> None \<or> ra_end a \<noteq> None then
                       Inl (''read_file: '' @ ra_path a @ '' is an image ('' @ if_mime f @ ''); line ranges do not apply to images'' @ read_dash @
                            ''call read_file with just the path to view it'')
                     else (case fe_fault env IoRead p of
                         Some e \<Rightarrow> Inl e
                       | None \<Rightarrow> map_sum id (\<lambda>(url, mime, t). (t, Some (url, mime))) (loadImageForModel (fe_image env) p d (fe_maxImageBytes env)))
                 | None \<Rightarrow> if LookBinary head then Inl (binary_error env (ra_path a) p d) else as_text)))"

section \<open>Writing\<close>

record write_args =
  wa_path :: string
  wa_content :: string
  wa_append :: bool

record edit_args =
  ea_path :: string
  ea_old :: string
  ea_new :: string

definition write_ValidParams :: "write_args \<Rightarrow> string option" where
  "write_ValidParams a = (if wa_path a = [] \<or> wa_content a = [] then Some ''write_file: path and content are required'' else None)"

definition edit_ValidParams :: "edit_args \<Rightarrow> string option" where
  "edit_ValidParams a =
     (if ea_path a = [] \<or> ea_old a = [] then
        Some (recoveryError ''missing_required_argument'' ''correct_arguments'' ''path and old_string are required''
          ''Provide both path and old_string; read the file first if needed.'')
      else None)"

text \<open>A call returns its text or an error, the change it records, and the files.\<close>

type_synonym write_outcome = "(string + string) \<times> file_diff option \<times> files"

definition finish_write :: "file_env \<Rightarrow> string \<Rightarrow> file_diff \<Rightarrow> files \<Rightarrow> string \<Rightarrow> write_outcome" where
  "finish_write env p d fs msg =
     (case notify (fe_postWrite env) p of
        Inl e \<Rightarrow> (Inl e, Some d, fs)
      | Inr notice \<Rightarrow> (Inr (withNotice msg notice), Some d, fs))"

definition show_stat :: "file_diff \<Rightarrow> string" where
  "show_stat d = ''(+'' @ show_nat (fd_added d) @ '' -'' @ show_nat (fd_removed d) @ '')''"

definition append_diff :: "diff_lib \<Rightarrow> string \<Rightarrow> string \<Rightarrow> bool \<Rightarrow> file_diff" where
  "append_diff dl path content created =
     (if created then (finalizeDiff dl content ((no_diff path)\<lparr>fd_added := newlines content\<rparr>))\<lparr>fd_created := True\<rparr>
      else (no_diff path)\<lparr>fd_added := newlines content, fd_sha := contentFingerprint dl content\<rparr>)"

text \<open>\<open>appendTo\<close>: the opening (with the parent directories before it) makes a missing file; then the lock or the
  write may still fail, and a failing write leaves what it has written so far.\<close>

definition old_text :: "files \<Rightarrow> string \<Rightarrow> string" where "old_text fs p = (case fs p of None \<Rightarrow> [] | Some s \<Rightarrow> s)"

definition appendTo :: "file_env \<Rightarrow> files \<Rightarrow> string \<Rightarrow> string \<Rightarrow> string option \<times> files" where
  "appendTo env fs p content =
     (case fe_fault env IoOpen p of
        Some e \<Rightarrow> (Some e, fs)
      | None \<Rightarrow>
          if fs p = None \<and> fe_isDir env p then (Some (''open '' @ p @ '': is a directory''), fs)
          else (case fe_fault env IoLock p of
             Some e \<Rightarrow> (Some e, fs(p \<mapsto> old_text fs p))
           | None \<Rightarrow>
               (case fe_fault env IoAppend p of
                  Some e \<Rightarrow> (Some e, fs(p \<mapsto> old_text fs p @ take (fe_written env p) content))
                | None \<Rightarrow> (None, fs(p \<mapsto> old_text fs p @ content)))))"

definition append_call :: "file_env \<Rightarrow> files \<Rightarrow> write_args \<Rightarrow> string \<Rightarrow> write_outcome" where
  "append_call env fs a p =
     (let created = (fs p = None) in
      case appendTo env fs p (wa_content a) of
        (Some e, fs') \<Rightarrow> (Inl e, None, fs')
      | (None, fs') \<Rightarrow>
          let d = append_diff (fe_diff env) (wa_path a) (wa_content a) created in
          finish_write env p d fs' (''appended (+'' @ show_nat (fd_added d) @ '')''))"

definition overwrite_call :: "file_env \<Rightarrow> files \<Rightarrow> write_args \<Rightarrow> string \<Rightarrow> write_outcome" where
  "overwrite_call env fs a p =
     (case fe_fault env IoLock p of
        Some e \<Rightarrow> (Inl e, None, fs)
      | None \<Rightarrow>
          (case (if missing env fs p then None else read_fault env fs p) of
             Some e \<Rightarrow> (Inl e, None, fs)
           | None \<Rightarrow>
               let old = (case fs p of None \<Rightarrow> [] | Some s \<Rightarrow> s) in
               (case fe_fault env IoReplace p of
                  Some e \<Rightarrow> (Inl e, None, fs)
                | None \<Rightarrow>
                    let d = (finalizeDiff (fe_diff env) (wa_content a) (computeFileDiff (fe_diff env) (wa_path a) old (wa_content a)))\<lparr>fd_created := (fs p = None)\<rparr> in
                    finish_write env p d (fs(p \<mapsto> wa_content a)) (''written '' @ show_stat d))))"

definition write_Call :: "file_env \<Rightarrow> files \<Rightarrow> write_args \<Rightarrow> write_outcome" where
  "write_Call env fs a =
     (case tool_resolve env (wa_path a) of
        Inl e \<Rightarrow> (Inl e, None, fs)
      | Inr p \<Rightarrow> if wa_append a then append_call env fs a p else overwrite_call env fs a p)"

text \<open>The replacement itself.\<close>

definition edit_content :: "edit_args \<Rightarrow> string \<Rightarrow> string + string" where
  "edit_content a s =
     (let n = str_count s (ea_old a) in
      if n = 0 then
        Inl (recoveryError ''old_string_not_found'' ''read_file'' (''old_string was not found in '' @ ea_path a)
          ''Re-read the file and copy the exact current text (incl. whitespace); use the shortest unique snippet.'')
      else if 1 < n then
        Inl (recoveryError ''old_string_not_unique'' ''read_file'' (''old_string appears '' @ show_nat n @ '' times in '' @ ea_path a)
          ''Add a bit of surrounding context to make it unique. Do not repeat the same arguments.'')
      else Inr (replace_first s (ea_old a) (ea_new a)))"

definition edit_call :: "file_env \<Rightarrow> files \<Rightarrow> edit_args \<Rightarrow> string \<Rightarrow> write_outcome" where
  "edit_call env fs a p =
     (case statPath env fs p ''edit_file'' of
        Some e \<Rightarrow> (Inl e, None, fs)
      | None \<Rightarrow>
          (case fe_fault env IoLock p of
             Some e \<Rightarrow> (Inl e, None, fs)
           | None \<Rightarrow>
               (case read_fault env fs p of
                  Some e \<Rightarrow> (Inl e, None, fs)
                | None \<Rightarrow>
                    let s = the (fs p) in
                    (case edit_content a s of
                       Inl e \<Rightarrow> (Inl e, None, fs)
                     | Inr new \<Rightarrow>
                         (case fe_fault env IoReplace p of
                            Some e \<Rightarrow> (Inl e, None, fs)
                          | None \<Rightarrow>
                              let d = finalizeDiff (fe_diff env) new (computeFileDiff (fe_diff env) (ea_path a) s new) in
                              finish_write env p d (fs(p \<mapsto> new))
                                (''[edit_file: replaced 1 occurrence in '' @ ea_path a @ '' '' @ show_stat d @ '']''))))))"

definition edit_Call :: "file_env \<Rightarrow> files \<Rightarrow> edit_args \<Rightarrow> write_outcome" where
  "edit_Call env fs a = (case tool_resolve env (ea_path a) of Inl e \<Rightarrow> (Inl e, None, fs) | Inr p \<Rightarrow> edit_call env fs a p)"


section \<open>Occurrences\<close>

lemma str_index_None: "str_index s p = None \<longleftrightarrow> \<not> contains s p"
  by (induction s) auto

lemma str_index_Some:
  "str_index s p = Some i \<Longrightarrow> s = take i s @ p @ drop (i + length p) s \<and> (\<forall>j < i. \<not> has_prefix (drop j s) p)"
proof (induction s arbitrary: i)
  case (Cons c s)
  show ?case
  proof (cases "has_prefix (c # s) p")
    case True
    then have i: "i = 0" using Cons.prems by simp
    have "c # s = p @ drop (length p) (c # s)" using True append_take_drop_id [of "length p" "c # s"] unfolding has_prefix_def by simp
    then show ?thesis using i by simp
  next
    case False
    then obtain k where k: "str_index s p = Some k" "i = Suc k" using Cons.prems by auto
    have "\<not> has_prefix (drop j (c # s)) p" if "j < i" for j
      using that False Cons.IH [OF k(1)] k(2) by (cases j) auto
    moreover have "c # s = take i (c # s) @ p @ drop (i + length p) (c # s)" using Cons.IH [OF k(1)] k(2) by auto
    ultimately show ?thesis by blast
  qed
qed (auto split: if_splits)

lemma count_sub_0: "p \<noteq> [] \<Longrightarrow> count_sub p s = 0 \<longleftrightarrow> \<not> contains s p"
  by (subst count_sub.simps) (simp add: str_index_None [symmetric] split: option.splits)

lemma count_sub_1:
  assumes "p \<noteq> []" "count_sub p s = 1"
  obtains i where "str_index s p = Some i" "\<not> contains (drop (i + length p) s) p"
  using assms count_sub_0 by (auto simp: count_sub.simps [of p s] split: option.splits)

lemma edit_content_Inr:
  assumes "edit_content a s = Inr t" "ea_old a \<noteq> []"
  shows "\<exists>u v. s = u @ ea_old a @ v \<and> t = u @ ea_new a @ v \<and> \<not> contains v (ea_old a) \<and> (\<forall>j < length u. \<not> has_prefix (drop j s) (ea_old a))"
proof -
  have n: "count_sub (ea_old a) s = 1" "t = replace_first s (ea_old a) (ea_new a)"
    using assms by (auto simp: edit_content_def str_count_def Let_def split: if_splits)
  obtain i where i: "str_index s (ea_old a) = Some i" "\<not> contains (drop (i + length (ea_old a)) s) (ea_old a)" using count_sub_1 [OF assms(2) n(1)] .
  have "length (take i s) = i" using str_index_bound [OF i(1)] by simp
  then show ?thesis using str_index_Some [OF i(1)] i n(2)
    by (intro exI [of _ "take i s"] exI [of _ "drop (i + length (ea_old a)) s"]) (simp add: replace_first_def)
qed

lemma edit_content_absent: "ea_old a \<noteq> [] \<Longrightarrow> \<not> contains s (ea_old a) \<Longrightarrow> edit_content a s =
    Inl (recoveryError ''old_string_not_found'' ''read_file'' (''old_string was not found in '' @ ea_path a)
          ''Re-read the file and copy the exact current text (incl. whitespace); use the shortest unique snippet.'')"
  using count_sub_0 [of "ea_old a" s] by (simp add: edit_content_def str_count_def Let_def)

section \<open>Edits and writes\<close>

lemma finish_write_parts: "snd (finish_write env p d fs msg) = (Some d, fs)"
  by (simp add: finish_write_def split: sum.splits)

lemma edit_call_changed:
  assumes "edit_call env fs a p = (r, Some d, fs')"
  shows "\<exists>s t. fs p = Some s \<and> edit_content a s = Inr t \<and> fs' = fs(p \<mapsto> t) \<and>
    d = finalizeDiff (fe_diff env) t (computeFileDiff (fe_diff env) (ea_path a) s t)"
proof -
  have p: "fs p \<noteq> None" using assms by (cases "fs p") (auto simp: edit_call_def read_fault_def split: option.splits)
  then obtain s where s: "fs p = Some s" by blast
  obtain t where t: "edit_content a s = Inr t" using assms s by (auto simp: edit_call_def split: option.splits sum.splits)
  show ?thesis using assms s t finish_write_parts [of env p _ "fs(p \<mapsto> t)"]
    by (auto simp: edit_call_def Let_def finish_write_def split: option.splits sum.splits)
qed

lemma edit_call_same: "edit_call env fs a p = (r, None, fs') \<Longrightarrow> fs' = fs \<and> (\<exists>e. r = Inl e)"
  by (cases "edit_content a (the (fs p))") ((auto simp: edit_call_def Let_def finish_write_def split: option.splits sum.splits if_splits), metis)

lemma edit_call_msg: "edit_call env fs a p = (Inr m, d, fs') \<Longrightarrow> d \<noteq> None"
  using edit_call_same [of env fs a p "Inr m" fs'] by (cases d) auto

text \<open>C12. A successful edit replaces the text where it first occurs: the file was that text between a part in
  which no occurrence starts and a part without any, both parts stay, and no other file changes.\<close>

theorem edit_replaces_the_first_occurrence:
  assumes "edit_Call env fs a = (Inr msg, d, fs')" "edit_ValidParams a = None"
  shows "\<exists>p u v. tool_resolve env (ea_path a) = Inr p \<and> fs p = Some (u @ ea_old a @ v) \<and> fs' = fs(p \<mapsto> u @ ea_new a @ v) \<and>
    \<not> contains v (ea_old a) \<and> (\<forall>j < length u. \<not> has_prefix (drop j (u @ ea_old a @ v)) (ea_old a))"
proof -
  have old: "ea_old a \<noteq> []" using assms(2) by (auto simp: edit_ValidParams_def split: if_splits)
  obtain p where p: "tool_resolve env (ea_path a) = Inr p" "edit_call env fs a p = (Inr msg, d, fs')"
    using assms(1) by (auto simp: edit_Call_def split: sum.splits)
  obtain x where "d = Some x" using edit_call_msg [OF p(2)] by blast
  then obtain s t where s: "fs p = Some s" "edit_content a s = Inr t" "fs' = fs(p \<mapsto> t)" using edit_call_changed [of env fs a p] p(2) by blast
  obtain u v where "s = u @ ea_old a @ v" "t = u @ ea_new a @ v" "\<not> contains v (ea_old a)" "\<forall>j < length u. \<not> has_prefix (drop j s) (ea_old a)"
    using edit_content_Inr [OF s(2) old] by blast
  then show ?thesis using p(1) s by blast
qed

text \<open>The three writing operations on one path.\<close>

text \<open>What an append that failed behind the opening leaves at \<open>p\<close>: the file, made if it was missing, with a first
  part of the new text.\<close>

definition half_appended :: "file_env \<Rightarrow> files \<Rightarrow> write_args \<Rightarrow> string \<Rightarrow> files \<Rightarrow> bool" where
  "half_appended env fs a p fs' \<longleftrightarrow>
     wa_append a \<and> (fe_fault env IoLock p \<noteq> None \<or> fe_fault env IoAppend p \<noteq> None) \<and>
     (\<exists>k. fs' = fs(p \<mapsto> old_text fs p @ take k (wa_content a)) \<and>
        (fe_fault env IoLock p \<noteq> None \<longrightarrow> k = 0))"

definition recorded_as :: "file_diff \<Rightarrow> string \<Rightarrow> files \<Rightarrow> string \<Rightarrow> files \<Rightarrow> bool" where
  "recorded_as x path fs p fs' \<longleftrightarrow> (\<exists>t. fs' = fs(p \<mapsto> t)) \<and> fd_path x = path \<and> (fd_created x \<longleftrightarrow> fs p = None)"

lemma finish_write_eq: "finish_write env p d fs msg = (r, x, fs') \<longleftrightarrow> x = Some d \<and> fs' = fs \<and>
    r = (case notify (fe_postWrite env) p of Inl e \<Rightarrow> Inl e | Inr notice \<Rightarrow> Inr (withNotice msg notice))"
  by (auto simp: finish_write_def split: sum.splits)

lemma append_call_parts:
  assumes "append_call env fs a p = (r, d, fs')" "wa_append a"
  shows "case d of None \<Rightarrow> (\<exists>e. r = Inl e) \<and> (fs' = fs \<or> half_appended env fs a p fs')
     | Some x \<Rightarrow> recorded_as x (wa_path a) fs p fs'"
proof (cases "fst (appendTo env fs p (wa_content a))")
  case (Some e)
  then have "r = Inl e" "d = None" "fs' = snd (appendTo env fs p (wa_content a))"
    using assms(1) by (cases "appendTo env fs p (wa_content a)"; simp add: append_call_def)+
  moreover have "snd (appendTo env fs p (wa_content a)) = fs \<or> half_appended env fs a p (snd (appendTo env fs p (wa_content a)))"
    using Some assms(2) by (auto simp: appendTo_def half_appended_def split: option.splits if_splits)
  ultimately show ?thesis by simp
next
  case None
  then have "snd (appendTo env fs p (wa_content a)) = fs(p \<mapsto> old_text fs p @ wa_content a)"
    by (auto simp: appendTo_def split: option.splits if_splits)
  with None have "appendTo env fs p (wa_content a) = (None, fs(p \<mapsto> old_text fs p @ wa_content a))" by (metis prod.collapse)
  then show ?thesis using assms(1)
    by (cases d) (auto simp: append_call_def Let_def finish_write_eq recorded_as_def append_diff_def finalizeDiff_def no_diff_def)
qed

lemma computeFileDiff_path: "fd_path (computeFileDiff dl path old new) = path" "\<not> fd_created (computeFileDiff dl path old new)"
  by (simp_all add: computeFileDiff_def Let_def no_diff_def split: prod.splits option.splits)

lemma finalizeDiff_path: "fd_path (finalizeDiff dl s d) = fd_path d" "fd_created (finalizeDiff dl s d) = fd_created d"
  by (simp_all add: finalizeDiff_def Let_def)

lemma overwrite_call_parts:
  "overwrite_call env fs a p = (r, d, fs') \<Longrightarrow>
    case d of None \<Rightarrow> (\<exists>e. r = Inl e) \<and> fs' = fs | Some x \<Rightarrow> recorded_as x (wa_path a) fs p fs'"
  by (auto simp: overwrite_call_def Let_def finish_write_eq recorded_as_def finalizeDiff_path computeFileDiff_path split: option.splits if_splits)

lemma write_Call_parts:
  assumes "write_Call env fs a = (r, d, fs')"
  shows "case d of
      None \<Rightarrow> (\<exists>e. r = Inl e) \<and> (fs' = fs \<or> (\<exists>p. tool_resolve env (wa_path a) = Inr p \<and> half_appended env fs a p fs'))
    | Some x \<Rightarrow> \<exists>p. tool_resolve env (wa_path a) = Inr p \<and> recorded_as x (wa_path a) fs p fs'"
proof (cases "tool_resolve env (wa_path a)")
  case (Inr p)
  then show ?thesis using assms append_call_parts [of env fs a p r d fs'] overwrite_call_parts [of env fs a p r d fs']
    by (cases "wa_append a"; cases d) (auto simp: write_Call_def)
next
  case (Inl e)
  then have "(r, d, fs') = (Inl e, None, fs)" using assms by (simp only: write_Call_def sum.case)
  then show ?thesis by simp
qed

lemma edit_Call_parts:
  assumes "edit_Call env fs a = (r, d, fs')"
  shows "case d of None \<Rightarrow> (\<exists>e. r = Inl e) \<and> fs' = fs
    | Some x \<Rightarrow> \<exists>p. tool_resolve env (ea_path a) = Inr p \<and> recorded_as x (ea_path a) fs p fs'"
proof (cases "tool_resolve env (ea_path a)")
  case (Inr p)
  then have c: "edit_call env fs a p = (r, d, fs')" using assms by (simp add: edit_Call_def)
  show ?thesis
  proof (cases d)
    case None
    then show ?thesis using edit_call_same c by fastforce
  next
    case (Some x)
    then show ?thesis using edit_call_changed [of env fs a p r x fs'] c Inr by (auto simp: recorded_as_def finalizeDiff_path computeFileDiff_path)
  qed
next
  case (Inl e)
  then have "(r, d, fs') = (Inl e, None, fs)" using assms by (simp only: edit_Call_def sum.case)
  then show ?thesis by simp
qed

text \<open>C13. Changes are recorded. A call of a writing tool that records a change has changed the file at the accepted
  path and no other, and the record names the file and says rightly whether it is new. A call that records
  none has failed, and it has changed no file, with one exception: an append whose lock or whose write
  failed after it had opened the file leaves that file, made if it was missing, with a first part of the
  new text.\<close>

theorem changes_are_recorded:
  assumes "write_Call env fs a = (r, d, fs') \<and> path = wa_path a \<or> edit_Call env fs b = (r, d, fs') \<and> path = ea_path b"
  shows "case d of
      None \<Rightarrow> (\<exists>e. r = Inl e) \<and>
        (fs' = fs \<or> write_Call env fs a = (r, d, fs') \<and> (\<exists>p. tool_resolve env path = Inr p \<and> half_appended env fs a p fs'))
    | Some x \<Rightarrow> \<exists>p t. tool_resolve env path = Inr p \<and> fs' = fs(p \<mapsto> t) \<and> fd_path x = path \<and> (fd_created x \<longleftrightarrow> fs p = None)"
  using assms write_Call_parts [of env fs a r d fs'] edit_Call_parts [of env fs b r d fs']
  by (cases d) (auto simp: recorded_as_def)

text \<open>The exception happens, without a record: a write that fails half way.\<close>

theorem failed_append_is_not_recorded:
  assumes "tool_resolve env (wa_path a) = Inr p" "wa_append a" "fs p = None" "\<not> fe_isDir env p"
    and "fe_fault env IoOpen p = None" "fe_fault env IoLock p = None" "fe_fault env IoAppend p = Some e"
  shows "write_Call env fs a = (Inl e, None, fs(p \<mapsto> take (fe_written env p) (wa_content a)))"
  using assms by (simp add: write_Call_def append_call_def appendTo_def old_text_def)

section \<open>The lines of a file\<close>

lemma concat_splitLines: "concat (splitLines s) = s"
  by (induction s) (auto split: list.splits)

lemma splitLines_ends: "l \<in> set (butlast (splitLines s)) \<Longrightarrow> \<exists>w. l = w @ nl \<and> CHR 0x0A \<notin> set w"
proof (induction s arbitrary: l)
  case (Cons c s)
  show ?case
  proof (cases "c = CHR 0x0A")
    case True
    then show ?thesis using Cons by (auto simp: nl_def split: if_splits)
  next
    case False
    show ?thesis
    proof (cases "splitLines s")
      case (Cons m ls)
      have "\<exists>w. c # m = w @ nl \<and> CHR 0x0A \<notin> set w" if ne: "ls \<noteq> []"
      proof -
        obtain w where "m = w @ nl" "CHR 0x0A \<notin> set w" using Cons.IH [of m] Cons ne by auto
        then show ?thesis using False by (intro exI [of _ "c # w"]) simp
      qed
      then show ?thesis using Cons.prems Cons.IH [of l] Cons False by (auto split: if_splits)
    qed (use Cons.prems False in simp)
  qed
qed simp


lemma pick_lines_shift: "pick_lines a b n ls acc = (n + int (length ls), acc @ snd (pick_lines a b n ls []))"
proof (induction ls arbitrary: n acc)
  case (Cons l ls)
  show ?case using Cons [of "n + 1" "if a \<le> n + 1 \<and> n + 1 \<le> b then acc @ [dropCR l] else acc"]
      Cons [of "n + 1" "[dropCR l]"] by (cases "a \<le> n + 1 \<and> n + 1 \<le> b") auto
qed simp

text \<open>The loop of \<open>readLines\<close> selects the interval: what \<open>take\<close> and \<open>drop\<close> would.\<close>

lemma pick_lines_slice:
  assumes "0 \<le> n" shows "snd (pick_lines a b n ls []) = map dropCR (take (nat (b - max n (a - 1))) (drop (nat (a - 1 - n)) ls))"
  using assms
proof (induction ls arbitrary: n)
  case (Cons l ls)
  have step: "snd (pick_lines a b n (l # ls) []) = (if a \<le> n + 1 \<and> n + 1 \<le> b then [dropCR l] else []) @ snd (pick_lines a b (n + 1) ls [])"
    using pick_lines_shift [of a b "n + 1" ls "[dropCR l]"] by simp
  have IH: "snd (pick_lines a b (n + 1) ls []) = map dropCR (take (nat (b - max (n + 1) (a - 1))) (drop (nat (a - 1 - (n + 1))) ls))"
    using Cons by simp
  show ?case
  proof (cases "a \<le> n + 1")
    case True
    then have "max n (a - 1) = n" "max (n + 1) (a - 1) = n + 1" "nat (a - 1 - n) = 0" "nat (a - 1 - (n + 1)) = 0" by auto
    moreover have "nat (b - n) = Suc (nat (b - (n + 1)))" if "n + 1 \<le> b" using that by simp
    moreover have "nat (b - n) = 0" if "\<not> n + 1 \<le> b" using that by simp
    ultimately show ?thesis unfolding step IH using True by (cases "n + 1 \<le> b") simp_all
  next
    case False
    then have "max n (a - 1) = a - 1" "max (n + 1) (a - 1) = a - 1" "nat (a - 1 - n) = Suc (nat (a - 1 - (n + 1)))" by auto
    then show ?thesis unfolding step IH using False by simp
  qed
qed simp

lemma readLines_slice:
  assumes "readLines s a b = Inr (n, ls)" "1 \<le> a"
  shows "n = int (length (raw_lines s))" "ls = map dropCR (take (nat (b - a + 1)) (drop (nat (a - 1)) (raw_lines s)))"
proof -
  have p: "pick_lines a b 0 (raw_lines s) [] = (n, ls)" using assms by (auto simp: readLines_def split: if_splits)
  show "n = int (length (raw_lines s))" using pick_lines_shift [of a b 0 "raw_lines s" "[]"] p by simp
  show "ls = map dropCR (take (nat (b - a + 1)) (drop (nat (a - 1)) (raw_lines s)))"
    using pick_lines_slice [of 0 a b "raw_lines s"] p assms(2) by (simp add: max_def algebra_simps)
qed

lemma dropCR_in: "dropCR l = l \<or> l = dropCR l @ [CHR 0x0D]"
  by (auto simp: dropCR_def) (metis append_butlast_last_id)

text \<open>The windows that a reader asks for who follows the hint on further lines.\<close>

definition page_args :: "string \<Rightarrow> nat \<Rightarrow> read_args" where
  "page_args path k = \<lparr>ra_path = path, ra_start = Some (200 * int k + 1), ra_end = None\<rparr>"

definition page_lines :: "string \<Rightarrow> string \<Rightarrow> nat \<Rightarrow> string list" where
  "page_lines path s k =
     (case read_window (page_args path k) of (a, b, _) \<Rightarrow> (case readLines s a b of Inl _ \<Rightarrow> [] | Inr (n, ls) \<Rightarrow> ls))"

definition more_lines :: "string \<Rightarrow> string \<Rightarrow> nat \<Rightarrow> bool" where
  "more_lines path s k \<longleftrightarrow>
     (case read_window (page_args path k) of (a, b, _) \<Rightarrow> (case readLines s a b of Inl _ \<Rightarrow> False | Inr (n, ls) \<Rightarrow> a + int (length ls) \<le> n))"

lemma page_window: "200 * int k + 200 < 2 ^ 63 \<Longrightarrow> read_window (page_args path k) = (200 * int k + 1, 200 * int k + 200, False)"
  by (simp add: read_window_def page_args_def defaultReadMaxLines_def Let_def wrap64_def)

lemma page_slice:
  assumes "200 * int k + 200 < 2 ^ 63" "\<forall>l \<in> set (raw_lines s). length l < max_line"
  shows "page_lines path s k = map dropCR (take 200 (drop (200 * k) (raw_lines s)))"
    "more_lines path s k \<longleftrightarrow> 200 * (k + 1) < length (raw_lines s)"
proof -
  have "\<not> list_ex (\<lambda>l. max_line \<le> length l) (raw_lines s)" using assms(2) by (force simp: list_ex_iff)
  then obtain n ls where r: "readLines s (200 * int k + 1) (200 * int k + 200) = Inr (n, ls)"
    unfolding readLines_def by (cases "pick_lines (200 * int k + 1) (200 * int k + 200) 0 (raw_lines s) []") simp
  have "nat (200 * int k + 1 - 1) = 200 * k" "nat (200 * int k + 200 - (200 * int k + 1) + 1) = 200" by simp_all
  then have ls: "n = int (length (raw_lines s))" "ls = map dropCR (take 200 (drop (200 * k) (raw_lines s)))" using readLines_slice [OF r] by simp_all
  show "page_lines path s k = map dropCR (take 200 (drop (200 * k) (raw_lines s)))"
    using ls(2) r page_window [OF assms(1)] by (simp add: page_lines_def)
  show "more_lines path s k \<longleftrightarrow> 200 * (k + 1) < length (raw_lines s)"
  proof -
    have "more_lines path s k \<longleftrightarrow> 200 * int k + 1 + int (length ls) \<le> n" using r page_window [OF assms(1)] by (simp add: more_lines_def)
    moreover have "length ls = min 200 (length (raw_lines s) - 200 * k)" using ls(2) by simp
    moreover have "200 * int k + 1 + int (length ls) \<le> n \<longleftrightarrow> 200 * k + 1 + length ls \<le> length (raw_lines s)" using ls(1) by linarith
    ultimately show ?thesis by (cases "200 * k < length (raw_lines s)") (auto simp: min_def)
  qed
qed

text \<open>Following the hint on further lines reads a text file once and in order: the pages one after the
  other are its lines, and the hint is missing exactly on the page that reaches the end.\<close>

theorem pages_read_the_file:
  assumes len: "\<forall>l \<in> set (raw_lines s). length l < max_line" and m: "200 * int m < 2 ^ 63"
  shows "concat (map (page_lines path s) [0..<m]) = take (200 * m) (map dropCR (raw_lines s)) \<and>
    (\<forall>k < m. more_lines path s k \<longleftrightarrow> 200 * (k + 1) < length (raw_lines s))"
proof -
  have b: "200 * int k + 200 < 2 ^ 63 \<or> 200 * int k + 200 = 2 ^ 63" if "k < m" for k using that m by linarith
  have odd63: "200 * int k + 200 \<noteq> 2 ^ 63" for k
  proof -
    have "(200 * int k + 200) mod 200 = 0" "(2 ^ 63 :: int) mod 200 \<noteq> 0" by simp_all
    then show ?thesis by metis
  qed
  have ok: "200 * int k + 200 < 2 ^ 63" if "k < m" for k using b [OF that] odd63 by blast
  have "concat (map (page_lines path s) [0..<j]) = take (200 * j) (map dropCR (raw_lines s))" if "j \<le> m" for j
    using that
  proof (induction j)
    case (Suc j)
    then have "concat (map (page_lines path s) [0..<Suc j]) = take (200 * j) (map dropCR (raw_lines s)) @ take 200 (drop (200 * j) (map dropCR (raw_lines s)))"
      using page_slice(1) [OF ok len, of j path] by (simp add: drop_map take_map)
    then show ?case by (simp add: take_add [symmetric] algebra_simps)
  qed simp
  then show ?thesis using page_slice(2) [OF ok len] by blast
qed


section \<open>Text that cannot be edited as it was read\<close>

lemma contains_parts: "contains s p \<Longrightarrow> \<exists>u v. s = u @ p @ v"
  by (auto simp: contains_iff sublist_def)

text \<open>In a file whose lines end in carriage return and line feed, a text of two lines as \<open>read_file\<close> shows
  them is never found by \<open>edit_file\<close>, although the two lines stand there one after the other.\<close>

theorem crlf_text_is_not_found:
  assumes crlf: "\<forall>i < length s. s ! i = CHR 0x0A \<longrightarrow> 0 < i \<and> s ! (i - 1) = CHR 0x0D"
    and shown: "readLines s a b = Inr (n, ls)" "Suc i < length ls" "ls ! i \<noteq> []" "last (ls ! i) \<noteq> CHR 0x0D"
    and old: "ea_old e = ls ! i @ nl @ ls ! Suc i"
  shows "(\<exists>text. edit_content e s = Inl text) \<and> \<not> contains s (ea_old e)"
proof -
  have "\<not> contains s (ea_old e)"
  proof
    assume "contains s (ea_old e)"
    then obtain u v where "s = u @ (ls ! i @ nl @ ls ! Suc i) @ v" using contains_parts old by metis
    then have s: "s = (u @ ls ! i) @ CHR 0x0A # (ls ! Suc i @ v)" by (simp add: nl_def)
    let ?k = "length (u @ ls ! i)"
    have "s ! ?k = CHR 0x0A" "?k < length s" unfolding s by (simp_all add: nth_append)
    then have "s ! (?k - 1) = CHR 0x0D" "0 < ?k" using crlf by blast+
    moreover have "?k - 1 < length (u @ ls ! i)" using shown(3) by (cases "ls ! i") simp_all
    then have "s ! (?k - 1) = (u @ ls ! i) ! (?k - 1)" unfolding s nth_append [of "u @ ls ! i" "CHR 0x0A # (ls ! Suc i @ v)"] by (simp only: if_True)
    moreover have "(u @ ls ! i) ! (?k - 1) = last (u @ ls ! i)" using shown(3) by (simp add: last_conv_nth)
    ultimately show False using shown(3,4) by simp
  qed
  moreover have "ea_old e \<noteq> []" using old by (simp add: nl_def)
  ultimately show ?thesis using edit_content_absent [of e s] by blast
qed

definition crlf_text :: string where "crlf_text = ''ab'' @ [CHR 0x0D, CHR 0x0A] @ ''cd'' @ [CHR 0x0D, CHR 0x0A]"

lemma crlf_text_lines: "readLines crlf_text 1 200 = Inr (2, [''ab'', ''cd''])"
  by (simp add: readLines_def crlf_text_def raw_lines_def dropCR_def max_line_def)

theorem crlf_text_is_not_found_witness:
  "\<exists>text. edit_content \<lparr>ea_path = ''f'', ea_old = ''ab'' @ nl @ ''cd'', ea_new = ''x''\<rparr> crlf_text = Inl text"
proof -
  have "\<forall>i < length crlf_text. crlf_text ! i = CHR 0x0A \<longrightarrow> 0 < i \<and> crlf_text ! (i - 1) = CHR 0x0D"
    by (auto simp: crlf_text_def nth_Cons less_Suc_eq split: nat.splits)
  from crlf_text_is_not_found [OF this crlf_text_lines, of 0 "\<lparr>ea_path = ''f'', ea_old = ''ab'' @ nl @ ''cd'', ea_new = ''x''\<rparr>"]
  show ?thesis by auto
qed

text \<open>The count of occurrences skips those that overlap: a text that occurs at two places passes as unique.\<close>

theorem overlaps_are_not_counted:
  "edit_content \<lparr>ea_path = ''f'', ea_old = ''aa'', ea_new = ''b''\<rparr> ''aaa'' = Inr ''ba'' \<and> has_prefix (drop 0 ''aaa'') ''aa'' \<and> has_prefix (drop 1 ''aaa'') ''aa''"
  by (simp add: edit_content_def str_count_def count_sub.simps replace_first_def has_prefix_def)

section \<open>Images and the engine\<close>

lemma try_qualities_fit: "try_qualities enc mx qs k = Inr (Some b, m) \<Longrightarrow> encodedLen (length b) \<le> mx"
  by (induction qs arbitrary: k) (auto split: sum.splits if_splits)

lemma shrink_rounds_fit: "shrink_rounds n enc wh mx dim k = Inr (b, wh') \<Longrightarrow> encodedLen (length b) \<le> mx"
  by (induction n arbitrary: dim k) (auto split: sum.splits option.splits if_splits prod.splits dest: try_qualities_fit)

text \<open>An image that is handed to the engine is within the limit, apart from the head of its data URL.\<close>

theorem embedded_image_fits:
  assumes "loadImageForModel il path d mx = Inr (url, m, t)"
  shows "\<exists>b. url = ''data:'' @ m @ '';base64,'' @ il_base64 il b \<and> encodedLen (length b) \<le> (if mx \<le> 0 then maxInlineImageBytes else mx)"
  using assms shrink_rounds_fit by (auto simp: loadImageForModel_def shrinkToLimit_def Let_def split: option.splits if_splits sum.splits)

text \<open>The limit of the engine counts the whole data URL, that of \<open>read_file\<close> only its body: an image whose body
  is just within the common limit is announced as embedded and then left out by the engine.\<close>

theorem embedded_image_is_left_out:
  assumes f: "detectImageFormat d = Some f" and mx: "0 < mx" "encodedLen (length d) \<le> mx" "mx < encodedLen (length d) + int (length (''data:'' @ if_mime f @ '';base64,''))"
    and b64: "int (length (il_base64 il d)) = encodedLen (length d)" and e: "en_maxImageBytes e = mx"
  shows "\<exists>url t. loadImageForModel il path d mx = Inr (url, if_mime f, t) \<and>
    pass_images e [\<lparr>ctype = ContentTypeImage, ctext = url, mime = if_mime f\<rparr>] [] 0 = ([], 1)"
proof -
  let ?url = "''data:'' @ if_mime f @ '';base64,'' @ il_base64 il d"
  obtain t where "loadImageForModel il path d mx = Inr (?url, if_mime f, t)" using f mx by (simp add: loadImageForModel_def Let_def)
  moreover have "mx < int (length ?url)" using mx(3) b64 by simp
  ultimately show ?thesis using e mx(1) by (intro exI [of _ ?url] exI [of _ t]) (simp add: is_image_def)
qed


section \<open>Instances\<close>

definition ones_lib :: image_lib where
  "ones_lib = \<lparr>il_size = (\<lambda>_. None), il_decode = (\<lambda>_. Inl ''''), il_jpeg = (\<lambda>_ _ _. Inl ''''), il_base64 = (\<lambda>d. replicate (nat (encodedLen (length d))) (CHR ''A''))\<rparr>"

theorem embedded_image_is_left_out_witness:
  "\<exists>url t. loadImageForModel ones_lib ''/ws/a.gif'' (''GIF89a'' @ ''abcdef'') 16 = Inr (url, ''image/gif'', t) \<and>
    pass_images (sample_engine\<lparr>en_maxImageBytes := 16\<rparr>) [\<lparr>ctype = ContentTypeImage, ctext = url, mime = ''image/gif''\<rparr>] [] 0 = ([], 1)"
proof -
  have f: "detectImageFormat (''GIF89a'' @ ''abcdef'') = Some \<lparr>if_mime = ''image/gif'', if_ext = ''.gif'', if_decodable = True\<rparr>"
    by (simp add: detectImageFormat_def has_prefix_def)
  show ?thesis
    using embedded_image_is_left_out [OF f, of 16 ones_lib "sample_engine\<lparr>en_maxImageBytes := 16\<rparr>" "''/ws/a.gif''"]
    by (simp add: encodedLen_def ones_lib_def)
qed

text \<open>A workspace with one file, in which every operation succeeds.\<close>

definition quiet_env :: file_env where
  "quiet_env =
     \<lparr>fe_os = link_os, fe_root = ''/ws'', fe_quote = (\<lambda>s. s),
      fe_diff = \<lparr>dl_grouped = (\<lambda>_ _. []), dl_unified = (\<lambda>_ _ _. None), dl_sha = (\<lambda>s. s)\<rparr>,
      fe_image = ones_lib, fe_maxImageBytes = 0, fe_fault = (\<lambda>_ _. None), fe_written = (\<lambda>_. 0), fe_isDir = (\<lambda>_. False), fe_entries = (\<lambda>_. None),
      fe_binaryHint = None, fe_postRead = None, fe_postWrite = None\<rparr>"

lemma quiet_resolve: "tool_resolve quiet_env ''hard'' = Inr ''/ws/hard''"
  by (simp add: tool_resolve_def quiet_env_def guard_on_links)

definition quiet_edit :: edit_args where "quiet_edit = \<lparr>ea_path = ''hard'', ea_old = ''b'', ea_new = ''xy''\<rparr>"

lemma quiet_edit_runs: "\<exists>msg d. edit_Call quiet_env [''/ws/hard'' \<mapsto> ''abc''] quiet_edit = (Inr msg, Some d, [''/ws/hard'' \<mapsto> ''axyc''])"
proof -
  have "edit_content quiet_edit ''abc'' = Inr ''axyc''"
    by (simp add: edit_content_def quiet_edit_def str_count_def count_sub.simps replace_first_def has_prefix_def)
  moreover have "ea_path quiet_edit = ''hard''" by (simp add: quiet_edit_def)
  ultimately show ?thesis
    using quiet_resolve by (simp add: edit_Call_def edit_call_def statPath_def missing_def read_fault_def finish_write_def notify_def quiet_env_def Let_def)
qed

theorem edit_replaces_the_first_occurrence_witness:
  "\<exists>u v. ''abc'' = u @ ''b'' @ v \<and> ''axyc'' = u @ ''xy'' @ v \<and> \<not> contains v ''b''"
proof -
  obtain msg d where e: "edit_Call quiet_env [''/ws/hard'' \<mapsto> ''abc''] quiet_edit = (Inr msg, Some d, [''/ws/hard'' \<mapsto> ''axyc''])"
    using quiet_edit_runs by blast
  have v: "edit_ValidParams quiet_edit = None" by (simp add: edit_ValidParams_def quiet_edit_def)
  obtain p u v where r: "tool_resolve quiet_env (ea_path quiet_edit) = Inr p" "[''/ws/hard'' \<mapsto> ''abc''] p = Some (u @ ea_old quiet_edit @ v)"
    "[''/ws/hard'' \<mapsto> ''axyc''] = [''/ws/hard'' \<mapsto> ''abc''](p \<mapsto> u @ ea_new quiet_edit @ v)" "\<not> contains v (ea_old quiet_edit)"
    using edit_replaces_the_first_occurrence [OF e v] by blast
  have p: "p = ''/ws/hard''" using r(2) by (auto split: if_splits)
  show ?thesis using r(2,4) fun_cong [OF r(3), of p] p by (auto simp: quiet_edit_def)
qed

theorem changes_are_recorded_witness:
  "\<exists>msg d. edit_Call quiet_env [''/ws/hard'' \<mapsto> ''abc''] quiet_edit = (Inr msg, Some d, [''/ws/hard'' \<mapsto> ''axyc'']) \<and> fd_path d = ''hard'' \<and> \<not> fd_created d"
proof -
  obtain msg d where e: "edit_Call quiet_env [''/ws/hard'' \<mapsto> ''abc''] quiet_edit = (Inr msg, Some d, [''/ws/hard'' \<mapsto> ''axyc''])"
    using quiet_edit_runs by blast
  have "ea_path quiet_edit = ''hard''" by (simp add: quiet_edit_def)
  with e changes_are_recorded [of quiet_env "[''/ws/hard'' \<mapsto> ''abc'']" undefined "Inr msg" "Some d" "[''/ws/hard'' \<mapsto> ''axyc'']" "''hard''" quiet_edit]
  have "\<exists>p t. tool_resolve quiet_env ''hard'' = Inr p \<and> [''/ws/hard'' \<mapsto> ''axyc''] = [''/ws/hard'' \<mapsto> ''abc''](p \<mapsto> t) \<and>
      fd_path d = ''hard'' \<and> (fd_created d \<longleftrightarrow> [''/ws/hard'' \<mapsto> ''abc''] p = None)" by (simp only: option.case simp_thms)
  then have "fd_path d = ''hard'' \<and> \<not> fd_created d" using quiet_resolve by auto
  then show ?thesis using e by blast
qed

theorem pages_read_the_file_witness:
  "concat (map (page_lines ''f'' crlf_text) [0..<1]) = [''ab'', ''cd''] \<and> \<not> more_lines ''f'' crlf_text 0"
proof -
  have l: "raw_lines crlf_text = [''ab'' @ [CHR 0x0D], ''cd'' @ [CHR 0x0D]]" by (simp add: crlf_text_def raw_lines_def)
  have "\<forall>l \<in> set (raw_lines crlf_text). length l < max_line" by (simp add: l max_line_def)
  from pages_read_the_file [OF this, of 1 "''f''"] show ?thesis unfolding l by (simp add: dropCR_def)
qed

end
