(* ===== verification/FileLocks.thy ===== *)
theory FileLocks
  imports FileTools
begin

text \<open>
  Writers of one file at the same time (\<open>tools/builtin/lock.go\<close> with its users in \<open>builtin.go\<close>): several
  sessions or processes edit, overwrite or append to the same path. The path names an inode; a writer
  opens what the path names, locks this inode, and replaces the file by a new inode under the
  same name. A step is one operation of the system; the order in which writers take theirs is a list.
\<close>

section \<open>Writers\<close>

datatype writer_job = JobEdit edit_args | JobOverwrite string | JobAppend string

text \<open>\<open>WFresh\<close> and \<open>WReady None\<close>: there was no file and so there is no lock.\<close>

datatype writer_place =
  WStart | WOpened nat | WLocked nat | WFresh | WReady "nat option" string | WClosing "nat option" | WDone | WFailed string

record lock_state =
  lk_name :: string
  lk_path :: "nat option"
  lk_data :: "string list"
  lk_jobs :: "writer_job list"
  lk_places :: "writer_place list"
  lk_log :: "nat list"

definition holds :: "nat \<Rightarrow> writer_place \<Rightarrow> bool" where
  "holds ino w \<longleftrightarrow> (case w of WLocked k \<Rightarrow> k = ino | WReady (Some k) _ \<Rightarrow> k = ino | WClosing (Some k) \<Rightarrow> k = ino | _ \<Rightarrow> False)"

definition locked_error :: string where "locked_error = ''file is locked by another writer''"

text \<open>\<open>lockFile\<close>: an exclusive lock on the inode, without waiting.\<close>

definition lockFile :: "lock_state \<Rightarrow> nat \<Rightarrow> bool" where
  "lockFile st ino \<longleftrightarrow> \<not> list_ex (holds ino) (lk_places st)"

definition put_writer :: "nat \<Rightarrow> writer_place \<Rightarrow> lock_state \<Rightarrow> lock_state" where
  "put_writer i w st = st\<lparr>lk_places := (lk_places st)[i := w]\<rparr>"

definition new_inode :: "string \<Rightarrow> lock_state \<Rightarrow> lock_state" where
  "new_inode s st = st\<lparr>lk_path := Some (length (lk_data st)), lk_data := lk_data st @ [s]\<rparr>"

definition commit :: "nat \<Rightarrow> lock_state \<Rightarrow> lock_state" where
  "commit i st = st\<lparr>lk_log := lk_log st @ [i]\<rparr>"

text \<open>\<open>lockPath\<close> opens an existing file; \<open>appendTo\<close> makes a missing one.\<close>

definition open_step :: "nat \<Rightarrow> lock_state \<Rightarrow> lock_state" where
  "open_step i st =
     (case lk_path st of
        Some ino \<Rightarrow> put_writer i (WOpened ino) st
      | None \<Rightarrow>
          (case lk_jobs st ! i of
             JobEdit a \<Rightarrow> put_writer i (WFailed (notFoundError (lk_name st) ''edit_file'' [])) st
           | JobOverwrite s \<Rightarrow> put_writer i WFresh st
           | JobAppend s \<Rightarrow> put_writer i (WOpened (length (lk_data st))) (new_inode [] st)))"

text \<open>What a writer does with its lock: \<open>readAllLocked\<close> and the replacement, or the single write of \<open>appendTo\<close>.\<close>

definition locked_step :: "nat \<Rightarrow> nat \<Rightarrow> lock_state \<Rightarrow> lock_state" where
  "locked_step i ino st =
     (case lk_jobs st ! i of
        JobEdit a \<Rightarrow> (case edit_content a (lk_data st ! ino) of Inl e \<Rightarrow> put_writer i (WFailed e) st | Inr t \<Rightarrow> put_writer i (WReady (Some ino) t) st)
      | JobOverwrite s \<Rightarrow> put_writer i (WReady (Some ino) s) st
      | JobAppend s \<Rightarrow> commit i (put_writer i (WClosing (Some ino)) (st\<lparr>lk_data := (lk_data st)[ino := lk_data st ! ino @ s]\<rparr>)))"

text \<open>\<open>replaceLocked\<close>: the text goes to a new inode, which takes over the name.\<close>

definition replaceLocked :: "nat \<Rightarrow> nat option \<Rightarrow> string \<Rightarrow> lock_state \<Rightarrow> lock_state" where
  "replaceLocked i lock s st = commit i (put_writer i (WClosing lock) (new_inode s st))"

definition writer_step :: "nat \<Rightarrow> lock_state \<Rightarrow> lock_state option" where
  "writer_step i st =
     (if length (lk_places st) \<le> i then None
      else (case lk_places st ! i of
          WStart \<Rightarrow> Some (open_step i st)
        | WOpened ino \<Rightarrow> Some (if lockFile st ino then put_writer i (WLocked ino) st else put_writer i (WFailed locked_error) st)
        | WLocked ino \<Rightarrow> Some (locked_step i ino st)
        | WFresh \<Rightarrow> (case lk_jobs st ! i of JobOverwrite s \<Rightarrow> Some (put_writer i (WReady None s) st) | _ \<Rightarrow> None)
        | WReady lock s \<Rightarrow> Some (replaceLocked i lock s st)
        | WClosing lock \<Rightarrow> Some (put_writer i WDone st)
        | WDone \<Rightarrow> None
        | WFailed e \<Rightarrow> None))"

fun writer_run :: "nat list \<Rightarrow> lock_state \<Rightarrow> lock_state option" where
  "writer_run [] st = Some st"
| "writer_run (i # is) st = Option.bind (writer_step i st) (writer_run is)"

definition file_text :: "lock_state \<Rightarrow> string option" where
  "file_text st = map_option (\<lambda>ino. lk_data st ! ino) (lk_path st)"

text \<open>A file with the text \<open>s\<close>, or none, and writers that have not begun.\<close>

definition writers :: "string \<Rightarrow> string option \<Rightarrow> writer_job list \<Rightarrow> lock_state" where
  "writers p s jobs =
     \<lparr>lk_name = p, lk_path = map_option (\<lambda>_. 0) s, lk_data = (case s of None \<Rightarrow> [] | Some t \<Rightarrow> [t]), lk_jobs = jobs,
      lk_places = replicate (length jobs) WStart, lk_log = []\<rparr>"

section \<open>Serial writers\<close>

text \<open>The effect of a writer that is alone.\<close>

definition job_text :: "writer_job \<Rightarrow> string \<Rightarrow> string" where
  "job_text j s =
     (case j of JobEdit a \<Rightarrow> (case edit_content a s of Inl _ \<Rightarrow> s | Inr t \<Rightarrow> t) | JobOverwrite t \<Rightarrow> t | JobAppend t \<Rightarrow> s @ t)"

text \<open>Every lock of the run was taken on the inode that the path named at that moment.\<close>

fun locks_current :: "nat list \<Rightarrow> lock_state \<Rightarrow> bool" where
  "locks_current [] st = True"
| "locks_current (i # is) st =
     ((case lk_places st ! i of WOpened ino \<Rightarrow> lk_path st = Some ino \<or> \<not> lockFile st ino | _ \<Rightarrow> True) \<and>
      (case writer_step i st of None \<Rightarrow> True | Some st' \<Rightarrow> locks_current is st'))"

definition serial_text :: "string \<Rightarrow> lock_state \<Rightarrow> string" where
  "serial_text s0 st = fold (\<lambda>i. job_text (lk_jobs st ! i)) (lk_log st) s0"

definition place_ok :: "lock_state \<Rightarrow> nat \<Rightarrow> nat \<Rightarrow> bool" where
  "place_ok st c i \<longleftrightarrow>
     (case lk_places st ! i of
        WLocked k \<Rightarrow> k = c
      | WReady None t \<Rightarrow> False
      | WReady (Some k) t \<Rightarrow> k = c \<and> (case lk_jobs st ! i of
            JobEdit a \<Rightarrow> edit_content a (lk_data st ! c) = Inr t | JobOverwrite s \<Rightarrow> t = s | JobAppend s \<Rightarrow> False)
      | WFresh \<Rightarrow> False
      | _ \<Rightarrow> True)"

definition serial_ok :: "string \<Rightarrow> lock_state \<Rightarrow> bool" where
  "serial_ok s0 st \<longleftrightarrow>
     (\<exists>c. lk_path st = Some c \<and> c < length (lk_data st) \<and> lk_data st ! c = serial_text s0 st \<and>
        (\<forall>i < length (lk_places st). place_ok st c i) \<and>
        (\<forall>i < length (lk_places st). \<forall>j < length (lk_places st). holds c (lk_places st ! i) \<and> holds c (lk_places st ! j) \<longrightarrow> i = j) \<and>
        (\<forall>i < length (lk_places st). \<forall>k. holds k (lk_places st ! i) \<longrightarrow> k < length (lk_data st)))"

lemma start_serial_ok: "serial_ok s (writers p (Some s) jobs)"
  by (simp add: serial_ok_def writers_def serial_text_def place_ok_def holds_def)


lemma put_fields [simp]:
  "lk_path (put_writer i w st) = lk_path st" "lk_data (put_writer i w st) = lk_data st" "lk_jobs (put_writer i w st) = lk_jobs st" "lk_log (put_writer i w st) = lk_log st"
  "length (lk_places (put_writer i w st)) = length (lk_places st)"
  "i < length (lk_places st) \<Longrightarrow> lk_places (put_writer i w st) ! j = (if j = i then w else lk_places st ! j)"
  by (simp_all add: put_writer_def)

lemma commit_fields [simp]:
  "lk_path (commit i st) = lk_path st" "lk_data (commit i st) = lk_data st" "lk_jobs (commit i st) = lk_jobs st"
  "lk_places (commit i st) = lk_places st" "lk_log (commit i st) = lk_log st @ [i]"
  by (simp_all add: commit_def)

lemma new_inode_fields [simp]:
  "lk_path (new_inode s st) = Some (length (lk_data st))" "lk_data (new_inode s st) = lk_data st @ [s]" "lk_jobs (new_inode s st) = lk_jobs st"
  "lk_places (new_inode s st) = lk_places st" "lk_log (new_inode s st) = lk_log st"
  by (simp_all add: new_inode_def)

lemma serial_okI:
  assumes "lk_path st = Some c" "c < length (lk_data st)" "lk_data st ! c = serial_text s0 st"
    "\<And>i. i < length (lk_places st) \<Longrightarrow> place_ok st c i"
    "\<And>i j. i < length (lk_places st) \<Longrightarrow> j < length (lk_places st) \<Longrightarrow> holds c (lk_places st ! i) \<Longrightarrow> holds c (lk_places st ! j) \<Longrightarrow> i = j"
    "\<And>i k. i < length (lk_places st) \<Longrightarrow> holds k (lk_places st ! i) \<Longrightarrow> k < length (lk_data st)"
  shows "serial_ok s0 st"
  unfolding serial_ok_def using assms by blast

lemma serial_okD:
  assumes "serial_ok s0 st" "lk_path st = Some c"
  shows "c < length (lk_data st)" "lk_data st ! c = serial_text s0 st"
    "i < length (lk_places st) \<Longrightarrow> place_ok st c i"
    "i < length (lk_places st) \<Longrightarrow> j < length (lk_places st) \<Longrightarrow> holds c (lk_places st ! i) \<Longrightarrow> holds c (lk_places st ! j) \<Longrightarrow> i = j"
    "i < length (lk_places st) \<Longrightarrow> holds k (lk_places st ! i) \<Longrightarrow> k < length (lk_data st)"
  using assms unfolding serial_ok_def by (metis option.inject)+

text \<open>A step that only moves one writer.\<close>

lemma put_ok:
  assumes ok: "serial_ok s0 st" and i: "i < length (lk_places st)" and c: "lk_path st = Some c"
    and new: "place_ok (put_writer i w st) c i" "\<And>k. holds k w \<Longrightarrow> k < length (lk_data st)"
      "holds c w \<Longrightarrow> holds c (lk_places st ! i) \<or> \<not> list_ex (holds c) (lk_places st)"
  shows "serial_ok s0 (put_writer i w st)"
proof -
  note f = serial_okD [OF ok c]
  have none: "\<not> holds c (lk_places st ! j)" if "j < length (lk_places st)" "\<not> list_ex (holds c) (lk_places st)" for j
    using that by (auto simp: list_ex_iff)
  show ?thesis
  proof (rule serial_okI [of _ c])
    show "place_ok (put_writer i w st) c j" if "j < length (lk_places (put_writer i w st))" for j
      using new(1) f(3) [of j] that i by (cases "j = i") (auto simp: place_ok_def split: writer_place.splits option.splits writer_job.splits)
    show "j = k" if "j < length (lk_places (put_writer i w st))" "k < length (lk_places (put_writer i w st))"
      "holds c (lk_places (put_writer i w st) ! j)" "holds c (lk_places (put_writer i w st) ! k)" for j k
      using that i f(4) [of j k] f(4) [of i k] f(4) [of j i] new(3) none [of j] none [of k] by (auto split: if_splits)
    show "k < length (lk_data (put_writer i w st))" if "j < length (lk_places (put_writer i w st))" "holds k (lk_places (put_writer i w st) ! j)" for j k
      using that i f(5) [of j k] new(2) by (auto split: if_splits)
  qed (use c f in \<open>simp_all add: serial_text_def\<close>)
qed

lemma only_holder:
  assumes ok: "serial_ok s0 st" and c: "lk_path st = Some c" and i: "i < length (lk_places st)" "holds c (lk_places st ! i)"
    and j: "j < length (lk_places st)" "j \<noteq> i"
  shows "case lk_places st ! j of WLocked _ \<Rightarrow> False | WReady _ _ \<Rightarrow> False | WFresh \<Rightarrow> False | _ \<Rightarrow> \<not> holds c (lk_places st ! j)"
proof -
  have "\<not> holds c (lk_places st ! j)" "place_ok st c j" using serial_okD(4) [OF ok c j(1) i(1)] serial_okD(3) [OF ok c j(1)] i(2) j(2) by blast+
  then show ?thesis by (auto simp: place_ok_def holds_def split: writer_place.splits option.splits)
qed

lemma locked_append_ok:
  assumes ok: "serial_ok s0 st" and c: "lk_path st = Some c" and i: "i < length (lk_places st)" "lk_places st ! i = WLocked c"
    and job: "lk_jobs st ! i = JobAppend s"
  shows "serial_ok s0 (locked_step i c st)"
proof -
  have h: "holds c (lk_places st ! i)" using i by (simp add: holds_def)
  note other = only_holder [OF ok c i(1) h]
  let ?st = "locked_step i c st"
  have st: "?st = commit i (put_writer i (WClosing (Some c)) (st\<lparr>lk_data := (lk_data st)[c := lk_data st ! c @ s]\<rparr>))" using job by (simp add: locked_step_def)
  have f: "c < length (lk_data st)" "lk_data st ! c = serial_text s0 st" "\<And>i k. i < length (lk_places st) \<Longrightarrow> holds k (lk_places st ! i) \<Longrightarrow> k < length (lk_data st)"
    using serial_okD [OF ok c] by blast+
  show ?thesis
  proof (rule serial_okI [of _ c])
    show "lk_data ?st ! c = serial_text s0 ?st" using f job by (simp add: st serial_text_def job_text_def)
    show "place_ok ?st c j" if "j < length (lk_places ?st)" for j
      using that other [of j] i(1) by (cases "j = i") (auto simp: st place_ok_def split: writer_place.splits)
    show "j = k" if "j < length (lk_places ?st)" "k < length (lk_places ?st)" "holds c (lk_places ?st ! j)" "holds c (lk_places ?st ! k)" for j k
      using that other [of j] other [of k] i(1) by (auto simp: st split: if_splits writer_place.splits)
    show "k < length (lk_data ?st)" if "j < length (lk_places ?st)" "holds k (lk_places ?st ! j)" for j k
      using that f(3) [of j k] f(1) i(1) by (auto simp: st holds_def split: if_splits)
  qed (use c f in \<open>simp_all add: st\<close>)
qed

lemma replace_ok:
  assumes ok: "serial_ok s0 st" and c: "lk_path st = Some c" and i: "i < length (lk_places st)" "lk_places st ! i = WReady (Some c) t"
    and t: "t = job_text (lk_jobs st ! i) (lk_data st ! c)"
  shows "serial_ok s0 (replaceLocked i (Some c) t st)"
proof -
  have h: "holds c (lk_places st ! i)" using i by (simp add: holds_def)
  note other = only_holder [OF ok c i(1) h]
  let ?st = "replaceLocked i (Some c) t st" and ?n = "length (lk_data st)"
  have f: "c < ?n" "lk_data st ! c = serial_text s0 st" "\<And>i k. i < length (lk_places st) \<Longrightarrow> holds k (lk_places st ! i) \<Longrightarrow> k < ?n"
    using serial_okD [OF ok c] by blast+
  show ?thesis
  proof (rule serial_okI [of _ ?n])
    show "lk_data ?st ! ?n = serial_text s0 ?st" using f t by (simp add: replaceLocked_def serial_text_def)
    show "place_ok ?st ?n j" if "j < length (lk_places ?st)" for j
      using that other [of j] i(1) by (cases "j = i") (auto simp: replaceLocked_def place_ok_def split: writer_place.splits)
    show "j = k" if "j < length (lk_places ?st)" "k < length (lk_places ?st)" "holds ?n (lk_places ?st ! j)" "holds ?n (lk_places ?st ! k)" for j k
      using that f(3) [of j ?n] f(3) [of k ?n] i(1) f(1) by (auto simp: replaceLocked_def holds_def split: if_splits)
    show "k < length (lk_data ?st)" if "j < length (lk_places ?st)" "holds k (lk_places ?st ! j)" for j k
      using that f(3) [of j k] f(1) i(1) by (auto simp: replaceLocked_def holds_def split: if_splits)
  qed (simp_all add: replaceLocked_def)
qed

lemma locked_ok:
  assumes ok: "serial_ok s0 st" and c: "lk_path st = Some c" and i: "i < length (lk_places st)" "lk_places st ! i = WLocked c"
  shows "serial_ok s0 (locked_step i c st)"
proof (cases "lk_jobs st ! i")
  case (JobAppend s)
  then show ?thesis by (rule locked_append_ok [OF ok c i])
next
  case (JobEdit a)
  have h: "holds c (lk_places st ! i)" "c < length (lk_data st)" using i ok c by (auto simp: holds_def serial_ok_def)
  show ?thesis
  proof (cases "edit_content a (lk_data st ! c)")
    case (Inl e)
    then show ?thesis using JobEdit i by (simp add: locked_step_def) (rule put_ok [OF ok i(1) c], simp_all add: place_ok_def holds_def)
  next
    case (Inr t)
    then show ?thesis using JobEdit i h by (simp add: locked_step_def) (rule put_ok [OF ok i(1) c], simp_all add: place_ok_def holds_def)
  qed
next
  case (JobOverwrite s)
  have h: "holds c (lk_places st ! i)" "c < length (lk_data st)" using i ok c by (auto simp: holds_def serial_ok_def)
  show ?thesis using JobOverwrite i h by (simp add: locked_step_def) (rule put_ok [OF ok i(1) c], simp_all add: place_ok_def holds_def)
qed


lemma writer_step_ok:
  assumes ok: "serial_ok s0 st" and s: "writer_step i st = Some st'"
    and cur: "case lk_places st ! i of WOpened ino \<Rightarrow> lk_path st = Some ino \<or> \<not> lockFile st ino | _ \<Rightarrow> True"
  shows "serial_ok s0 st'"
proof -
  obtain c where c: "lk_path st = Some c" using ok by (auto simp: serial_ok_def)
  have i: "i < length (lk_places st)" using s by (auto simp: writer_step_def split: if_splits)
  note d = serial_okD [OF ok c]
  note p = d(3) [OF i, unfolded place_ok_def]
  note put1 = put_ok [OF ok i c]
  show ?thesis
  proof (cases "lk_places st ! i")
    case WStart
    then have "st' = put_writer i (WOpened c) st" using s i c by (simp add: writer_step_def open_step_def)
    then show ?thesis using i put1 [of "WOpened c"] by (simp add: place_ok_def holds_def)
  next
    case (WOpened ino)
    show ?thesis
    proof (cases "lockFile st ino")
      case True
      then have ino: "ino = c" using cur WOpened c by simp
      then have "st' = put_writer i (WLocked c) st" "\<not> list_ex (holds c) (lk_places st)" using s i WOpened True by (simp_all add: writer_step_def lockFile_def)
      then show ?thesis using i d(1) put1 [of "WLocked c"] by (simp add: place_ok_def holds_def)
    next
      case False
      then have "st' = put_writer i (WFailed locked_error) st" using s i WOpened by (simp add: writer_step_def)
      then show ?thesis using i put1 [of "WFailed locked_error"] by (simp add: place_ok_def holds_def)
    qed
  next
    case (WLocked ino)
    then have "ino = c" using p by simp
    then show ?thesis using s i WLocked locked_ok [OF ok c i] by (simp add: writer_step_def)
  next
    case WFresh
    then show ?thesis using p by simp
  next
    case (WReady lock t)
    then obtain k where k: "lock = Some k" using p by (cases lock) auto
    then have t: "k = c" "t = job_text (lk_jobs st ! i) (lk_data st ! c)" using p WReady
      by (auto simp: job_text_def split: writer_job.splits)
    then show ?thesis using s i WReady k replace_ok [OF ok c i, of t] by (simp add: writer_step_def)
  next
    case (WClosing lock)
    then have "st' = put_writer i WDone st" using s i by (simp add: writer_step_def)
    then show ?thesis using i put1 [of WDone] by (simp add: place_ok_def holds_def)
  qed (use s i in \<open>simp_all add: writer_step_def\<close>)
qed

lemma writer_run_ok: "serial_ok s0 st \<Longrightarrow> writer_run is st = Some st' \<Longrightarrow> locks_current is st \<Longrightarrow> serial_ok s0 st'"
proof (induction "is" arbitrary: st)
  case (Cons i steps)
  then obtain st1 where s: "writer_step i st = Some st1" "writer_run steps st1 = Some st'" by (auto split: Option.bind_splits)
  have "serial_ok s0 st1" using Cons.prems writer_step_ok [OF Cons.prems(1) s(1)] by simp
  then show ?case using Cons.IH s Cons.prems(3) by simp
qed simp

lemma jobs_fixed: "writer_step i st = Some st' \<Longrightarrow> lk_jobs st' = lk_jobs st"
  by (auto simp: writer_step_def open_step_def locked_step_def replaceLocked_def split: if_splits writer_place.splits writer_job.splits option.splits sum.splits)

lemma run_jobs_fixed: "writer_run is st = Some st' \<Longrightarrow> lk_jobs st' = lk_jobs st"
  by (induction "is" arbitrary: st) (auto split: Option.bind_splits dest: jobs_fixed)

text \<open>Before a missing file has been made, writers that do not overwrite have only begun or failed.\<close>

definition nothing_yet :: "lock_state \<Rightarrow> bool" where
  "nothing_yet st \<longleftrightarrow> lk_path st = None \<and> lk_data st = [] \<and> lk_log st = [] \<and> length (lk_places st) = length (lk_jobs st) \<and>
     (\<forall>t. JobOverwrite t \<notin> set (lk_jobs st)) \<and> (\<forall>w \<in> set (lk_places st). w = WStart \<or> (\<exists>e. w = WFailed e))"

lemma nothing_yet_step:
  assumes n: "nothing_yet st" and s: "writer_step i st = Some st'"
  shows "nothing_yet st' \<or> serial_ok [] st'"
proof -
  have i: "i < length (lk_places st)" using s by (auto simp: writer_step_def split: if_splits)
  have start: "lk_places st ! i = WStart" using n s i by (auto simp: nothing_yet_def writer_step_def dest!: bspec [OF _ nth_mem [OF i]])
  then have st': "st' = open_step i st" using s i by (simp add: writer_step_def)
  show ?thesis
  proof (cases "lk_jobs st ! i")
    case (JobEdit a)
    then have "nothing_yet st'" using n i
      by (auto simp: nothing_yet_def st' open_step_def put_writer_def dest!: set_update_subset_insert [THEN subsetD])
    then show ?thesis ..
  next
    case (JobOverwrite t)
    then have False using n i nth_mem [of i "lk_jobs st"] by (auto simp: nothing_yet_def)
    then show ?thesis ..
  next
    case (JobAppend t)
    have none: "\<not> holds k w" if "w \<in> set (lk_places st)" for k w using n that by (auto simp: nothing_yet_def holds_def)
    have "serial_ok [] st'"
    proof (rule serial_okI [of _ 0])
      show "place_ok st' 0 j" if "j < length (lk_places st')" for j
      proof (cases "j = i")
        case False
        then have "lk_places st' ! j \<in> set (lk_places st)" using that i n JobAppend by (simp add: st' open_step_def nothing_yet_def)
        then have "lk_places st' ! j = WStart \<or> (\<exists>e. lk_places st' ! j = WFailed e)" using n by (simp add: nothing_yet_def)
        then show ?thesis by (auto simp: place_ok_def)
      qed (use n i JobAppend in \<open>simp add: st' open_step_def nothing_yet_def place_ok_def\<close>)
      have noh: "\<not> holds k (lk_places st' ! j)" if "j < length (lk_places st')" for j k
        using that i n JobAppend none [OF nth_mem, of j] by (auto simp: st' open_step_def nothing_yet_def holds_def)
      show "j = k" if "j < length (lk_places st')" "holds 0 (lk_places st' ! j)" for j k using noh that by blast
      show "k < length (lk_data st')" if "j < length (lk_places st')" "holds k (lk_places st' ! j)" for j k using noh that by blast
    qed (use n i JobAppend in \<open>simp_all add: st' open_step_def nothing_yet_def serial_text_def\<close>)
    then show ?thesis ..
  qed
qed

lemma nothing_yet_run:
  "nothing_yet st \<Longrightarrow> writer_run is st = Some st' \<Longrightarrow> locks_current is st \<Longrightarrow> nothing_yet st' \<or> serial_ok [] st'"
proof (induction "is" arbitrary: st)
  case (Cons i steps)
  then obtain st1 where s: "writer_step i st = Some st1" "writer_run steps st1 = Some st'" by (auto split: Option.bind_splits)
  then have l: "locks_current steps st1" using Cons.prems(3) by simp
  from nothing_yet_step [OF Cons.prems(1) s(1)] show ?case
    using Cons.IH [OF _ s(2) l] writer_run_ok [OF _ s(2) l] by blast
qed simp

text \<open>C14. No update is lost as long as every lock was taken on the file that bore the name at that moment, and the
  file exists at the start or nobody overwrites it: the text of the file is then what the writers
  that have committed make of the first text (of the empty text, if there was no file) one after the other, in the
  order of their commits; and as long as there is no file nobody has committed.\<close>

theorem current_locks_serialise:
  assumes "writer_run steps (writers p s jobs) = Some st" "locks_current steps (writers p s jobs)"
    and "s \<noteq> None \<or> (\<forall>t. JobOverwrite t \<notin> set jobs)"
  shows "case file_text st of
      Some t \<Rightarrow> t = fold (\<lambda>i. job_text (jobs ! i)) (lk_log st) (case s of Some s0 \<Rightarrow> s0 | None \<Rightarrow> [])
    | None \<Rightarrow> s = None \<and> lk_log st = []"
proof -
  have j: "lk_jobs st = jobs" using run_jobs_fixed [OF assms(1)] by (simp add: writers_def)
  show ?thesis
  proof (cases s)
    case (Some s0)
    have "serial_ok s0 st" by (rule writer_run_ok [OF start_serial_ok [of s0 p jobs]]) (use assms Some in simp_all)
    then show ?thesis using j Some by (auto simp: serial_ok_def file_text_def serial_text_def)
  next
    case None
    have "nothing_yet (writers p s jobs)" using assms(3) None by (auto simp: nothing_yet_def writers_def)
    from nothing_yet_run [OF this assms(1,2)] show ?thesis
      using j None by (auto simp: serial_ok_def nothing_yet_def file_text_def serial_text_def)
  qed
qed

section \<open>Locks on a replaced file\<close>

definition demo_edit :: "string \<Rightarrow> string \<Rightarrow> writer_job" where
  "demo_edit old new = JobEdit \<lparr>ea_path = ''f'', ea_old = old, ea_new = new\<rparr>"

lemma demo_edits:
  "edit_content \<lparr>ea_path = ''f'', ea_old = ''a'', ea_new = ''x''\<rparr> ''ab'' = Inr ''xb''"
  "edit_content \<lparr>ea_path = ''f'', ea_old = ''b'', ea_new = ''y''\<rparr> ''ab'' = Inr ''ay''"
  by (simp_all add: edit_content_def str_count_def count_sub.simps replace_first_def has_prefix_def)

lemmas writer_eval = writers_def writer_step_def open_step_def locked_step_def replaceLocked_def lockFile_def put_writer_def commit_def new_inode_def
  file_text_def holds_def demo_edit_def

text \<open>Without the condition the property fails although every lock is current: who finds no file takes no lock, and
  his replacement discards what another one has just begun to append.\<close>

theorem overwriter_of_a_missing_file_takes_no_lock:
  "locks_current [0, 0, 1, 1, 0, 1] (writers p None [JobOverwrite a, JobAppend b]) \<and>
   (\<exists>st. writer_run [0, 0, 1, 1, 0, 1] (writers p None [JobOverwrite a, JobAppend b]) = Some st \<and> lk_log st = [0, 1] \<and>
     file_text st = Some a)"
  by (simp add: writer_eval)

lemma lockFile_nth: "lockFile st ino \<longleftrightarrow> (\<forall>k < length (lk_places st). \<not> holds ino (lk_places st ! k))"
  by (auto simp: lockFile_def list_ex_length)

lemma holds_places: "\<not> holds k WStart" "\<not> holds k (WOpened n)" "holds k (WLocked n) \<longleftrightarrow> n = k" "holds k (WReady (Some n) t) \<longleftrightarrow> n = k"
  "holds k (WClosing (Some n)) \<longleftrightarrow> n = k" "\<not> holds k WDone"
  by (simp_all add: holds_def)

text \<open>A writer that has opened an inode the name has been taken from.\<close>

lemma stale_edit:
  assumes "i < length (lk_places st)" "lk_places st ! i = WOpened ino" "lockFile st ino"
    and "lk_jobs st ! i = JobEdit a" "edit_content a (lk_data st ! ino) = Inr t"
  shows "\<exists>st'. writer_run [i, i, i, i] st = Some st' \<and> lk_places st' = (lk_places st)[i := WDone] \<and> file_text st' = Some t"
  using assms by (simp add: writer_step_def locked_step_def replaceLocked_def file_text_def put_writer_def commit_def new_inode_def)

lemma stale_overwrite:
  assumes "i < length (lk_places st)" "lk_places st ! i = WOpened ino" "lockFile st ino"
    and "lk_jobs st ! i = JobOverwrite t"
  shows "\<exists>st'. writer_run [i, i, i, i] st = Some st' \<and> lk_places st' = (lk_places st)[i := WDone] \<and> file_text st' = Some t"
  using assms by (simp add: writer_step_def locked_step_def replaceLocked_def file_text_def put_writer_def commit_def new_inode_def)

lemma stale_append:
  assumes "i < length (lk_places st)" "lk_places st ! i = WOpened ino" "lockFile st ino" "lk_path st = Some c" "c \<noteq> ino"
    and "lk_jobs st ! i = JobAppend s"
  shows "\<exists>st'. writer_run [i, i, i] st = Some st' \<and> lk_places st' = (lk_places st)[i := WDone] \<and> file_text st' = file_text st"
  using assms by (simp add: writer_step_def locked_step_def file_text_def put_writer_def commit_def)

lemma replaced_meanwhile:
  assumes "i < length jobs" "j < length jobs" "i \<noteq> j"
    and "case jobs ! j of JobEdit b \<Rightarrow> edit_content b s = Inr u | JobOverwrite w \<Rightarrow> u = w | JobAppend w \<Rightarrow> False"
  shows "\<exists>st. writer_run [i, j, j, j, j, j] (writers p (Some s) jobs) = Some st \<and> lk_places st = (replicate (length jobs) WStart)[i := WOpened 0, j := WDone] \<and>
    lockFile st 0 \<and> lk_path st = Some 1 \<and> lk_data st = [s, u] \<and> lk_jobs st = jobs"
  using assms
  by (cases "jobs ! j") (simp_all add: writer_step_def open_step_def locked_step_def replaceLocked_def put_writer_def commit_def new_inode_def writers_def
    lockFile_nth holds_places nth_list_update)

lemma writer_run_append: "writer_run (xs @ ys) st = Option.bind (writer_run xs st) (writer_run ys)"
  by (induction xs arbitrary: st) (auto split: Option.bind_splits)

text \<open>C15. A writer that has opened the file before another one replaces it gets its lock afterwards, on the old
  inode, and its update is worth nothing or undoes the other one: whatever the file holds and whatever the other
  writer does, an edit that suits the old text then succeeds and leaves the edit of the \<^emph>\<open>old\<close>
  text, and an append succeeds and leaves the text of the other writer, without what was to be appended
  (an overwrite leaves its own text).\<close>

theorem locks_on_a_replaced_file_lose_updates:
  assumes "i < length jobs" "j < length jobs" "i \<noteq> j"
    and "case jobs ! j of JobEdit b \<Rightarrow> edit_content b s = Inr u | JobOverwrite w \<Rightarrow> u = w | JobAppend w \<Rightarrow> False"
    and "case jobs ! i of JobEdit a \<Rightarrow> edit_content a s = Inr t | JobOverwrite w \<Rightarrow> t = w | JobAppend w \<Rightarrow> t = u"
  shows "\<exists>later st. writer_run ([i, j, j, j, j, j] @ later) (writers p (Some s) jobs) = Some st \<and>
    set later = {i} \<and> lk_places st ! i = WDone \<and> lk_places st ! j = WDone \<and> file_text st = Some t"
proof -
  obtain st where st: "writer_run [i, j, j, j, j, j] (writers p (Some s) jobs) = Some st" "lk_places st = (replicate (length jobs) WStart)[i := WOpened 0, j := WDone]"
    "lockFile st 0" "lk_path st = Some 1" "lk_data st = [s, u]" "lk_jobs st = jobs" using replaced_meanwhile [OF assms(1-4)] by blast
  have i: "i < length (lk_places st)" "lk_places st ! i = WOpened 0" using assms(1-3) st(2) by (simp_all add: nth_list_update)
  have fin: ?thesis if "writer_run later st = Some st'" "set later = {i}" "lk_places st' = (lk_places st)[i := WDone]" "file_text st' = Some t" for later st'
    using that st(1,2) assms(1-3) by (intro exI [of _ later] exI [of _ st']) (simp only: writer_run_append bind.simps, simp add: nth_list_update)
  show ?thesis
  proof (cases "jobs ! i")
    case (JobEdit a)
    with stale_edit [OF i st(3), of a t] st(5,6) assms(5) obtain st' where
      "writer_run [i, i, i, i] st = Some st'" "lk_places st' = (lk_places st)[i := WDone]" "file_text st' = Some t" by auto
    then show ?thesis by (intro fin [of "[i, i, i, i]" st']) simp_all
  next
    case (JobOverwrite w)
    with stale_overwrite [OF i st(3), of w] st(6) assms(5) obtain st' where
      "writer_run [i, i, i, i] st = Some st'" "lk_places st' = (lk_places st)[i := WDone]" "file_text st' = Some t" by auto
    then show ?thesis by (intro fin [of "[i, i, i, i]" st']) simp_all
  next
    case (JobAppend w)
    with stale_append [OF i st(3,4), of w] st(5,6) assms(5) obtain st' where
      "writer_run [i, i, i] st = Some st'" "lk_places st' = (lk_places st)[i := WDone]" "file_text st' = Some t" by (auto simp: file_text_def st(4,5))
    then show ?thesis by (intro fin [of "[i, i, i]" st']) simp_all
  qed
qed

theorem locks_on_a_replaced_file_lose_updates_witness:
  "\<exists>later st. writer_run ([0, 1, 1, 1, 1, 1] @ later) (writers ''f'' (Some ''ab'') [demo_edit ''b'' ''y'', demo_edit ''a'' ''x'']) = Some st \<and>
    lk_places st ! 0 = WDone \<and> lk_places st ! 1 = WDone \<and> file_text st = Some ''ay''"
proof -
  have "\<exists>later st. writer_run ([0, 1, 1, 1, 1, 1] @ later) (writers ''f'' (Some ''ab'') [demo_edit ''b'' ''y'', demo_edit ''a'' ''x'']) = Some st \<and>
    set later = {0} \<and> lk_places st ! 0 = WDone \<and> lk_places st ! 1 = WDone \<and> file_text st = Some ''ay''"
    by (rule locks_on_a_replaced_file_lose_updates [where u = "''xb''"]) (simp_all add: demo_edit_def demo_edits)
  then show ?thesis by blast
qed

theorem current_locks_serialise_witness:
  "\<exists>st. writer_run [0, 1, 0, 1, 0, 0, 0] (writers ''f'' (Some ''ab'') [demo_edit ''a'' ''x'', JobAppend ''!'']) = Some st \<and>
    lk_places st = [WDone, WFailed locked_error] \<and> file_text st = Some ''xb''"
proof -
  let ?w = "writers ''f'' (Some ''ab'') [demo_edit ''a'' ''x'', JobAppend ''!'']" and ?is = "[0, 1, 0, 1, 0, 0, 0] :: nat list"
  have run: "\<exists>st. writer_run ?is ?w = Some st \<and> lk_places st = [WDone, WFailed locked_error] \<and> lk_log st = [0]" by (simp add: writer_eval demo_edits)
  then obtain st where st: "writer_run ?is ?w = Some st" "lk_places st = [WDone, WFailed locked_error]" "lk_log st = [0]" by blast
  have "locks_current ?is ?w" by (simp add: writer_eval demo_edits)
  from current_locks_serialise [OF st(1) this] show ?thesis using st by (auto simp: job_text_def demo_edit_def demo_edits split: option.splits)
qed

section \<open>A writer alone\<close>

definition job_call :: "file_env \<Rightarrow> files \<Rightarrow> string \<Rightarrow> writer_job \<Rightarrow> write_outcome" where
  "job_call env fs p j =
     (case j of
        JobEdit a \<Rightarrow> edit_call env fs a p
      | JobOverwrite s \<Rightarrow> overwrite_call env fs \<lparr>wa_path = p, wa_content = s, wa_append = False\<rparr> p
      | JobAppend s \<Rightarrow> append_call env fs \<lparr>wa_path = p, wa_content = s, wa_append = True\<rparr> p)"

lemma run_Suc: "writer_run (replicate (Suc n) 0) st = Option.bind (writer_step 0 st) (writer_run (replicate n 0))"
  by simp

text \<open>C16. A writer alone does what the tool does: after at most five steps it stands still, the file has the text
  that the sequential model of the call gives it, and it has failed exactly when the call fails, with the same error.\<close>

theorem lone_writer_does_the_call:
  assumes "\<And>op q. fe_fault env op q = None" "fe_postWrite env = None" "\<not> fe_isDir env p"
  shows "\<exists>n st. n \<le> 5 \<and> writer_run (replicate n 0) (writers p (fs p) [job]) = Some st \<and> writer_step 0 st = None \<and>
    file_text st = snd (snd (job_call env fs p job)) p \<and>
    lk_places st = [case fst (job_call env fs p job) of Inl e \<Rightarrow> WFailed e | Inr _ \<Rightarrow> WDone]"
proof (cases job)
  case (JobEdit a)
  show ?thesis
  proof (cases "fs p")
    case None
    then show ?thesis using JobEdit assms by (intro exI [of _ 1]) (simp add: writer_eval job_call_def edit_call_def statPath_def missing_def read_fault_def)
  next
    case (Some s)
    show ?thesis
    proof (cases "edit_content a s")
      case (Inl e)
      then show ?thesis using JobEdit Some assms
        by (intro exI [of _ 3]) (simp add: writer_eval job_call_def edit_call_def statPath_def missing_def read_fault_def numeral_3_eq_3)
    next
      case (Inr t)
      then show ?thesis using JobEdit Some assms
        by (intro exI [of _ 5]) (simp add: writer_eval job_call_def edit_call_def statPath_def missing_def read_fault_def finish_write_def notify_def Let_def eval_nat_numeral)
    qed
  qed
next
  case (JobOverwrite s)
  show ?thesis
    using JobOverwrite assms
    by (cases "fs p"; intro exI [of _ 4] exI [of _ 5])
      (simp_all add: writer_eval job_call_def overwrite_call_def missing_def read_fault_def finish_write_def notify_def Let_def eval_nat_numeral)
next
  case (JobAppend s)
  show ?thesis
    using JobAppend assms
    by (cases "fs p"; intro exI [of _ 4])
      (simp_all add: writer_eval job_call_def append_call_def appendTo_def old_text_def finish_write_def notify_def Let_def eval_nat_numeral)
qed


theorem lone_writer_does_the_call_witness:
  "\<exists>n st. writer_run (replicate n 0) (writers ''/ws/hard'' (Some ''abc'') [JobEdit quiet_edit]) = Some st \<and> writer_step 0 st = None \<and>
    file_text st = Some ''axyc'' \<and> lk_places st = [WDone]"
proof -
  let ?fs = "[''/ws/hard'' \<mapsto> ''abc'']"
  obtain msg d where "edit_Call quiet_env ?fs quiet_edit = (Inr msg, Some d, [''/ws/hard'' \<mapsto> ''axyc''])" using quiet_edit_runs by blast
  then have c: "job_call quiet_env ?fs ''/ws/hard'' (JobEdit quiet_edit) = (Inr msg, Some d, [''/ws/hard'' \<mapsto> ''axyc''])"
    using quiet_resolve by (simp add: job_call_def edit_Call_def quiet_edit_def)
  have "fe_fault quiet_env op q = None" "fe_postWrite quiet_env = None" "\<not> fe_isDir quiet_env ''/ws/hard''" for op q by (simp_all add: quiet_env_def)
  from lone_writer_does_the_call [OF this, of ?fs "JobEdit quiet_edit"] c
  show ?thesis by auto
qed

end
