(* ===== verification/Spec2Isabelle.thy ===== *)
theory Spec2Isabelle
  imports Todo CronLedger Slim RunTools Retry Compress AgentRun OpenAIStream SubTasks RecordSafety BatchRuns ApprovalQueue FileLocks
begin

text \<open>
  A model of the core of the agent harness and the theorems that make it correct.

  \<^bold>\<open>The program.\<close> A session (\<open>session/\<close>) owns an agent (\<open>agents/\<close>). The agent runs a loop: it
  prepares the context (\<open>agents/slim*.go\<close>, \<open>agents/merge_pairs.go\<close>, \<open>agents/llm_compressor.go\<close>),
  asks a model (\<open>provider/\<close>, repeated by \<open>agents/backoff.go\<close>), hands the tool calls of the answer to
  the tool engine (\<open>tools/\<close>), writes the results back and starts again. Tools among many are the
  to-do list (\<open>todo/\<close>), scheduled jobs (\<open>cron/\<close>) and sub-agents (\<open>subagent/\<close>); the last two bring
  results into later runs. What a session shows and remembers is kept in a record file with a
  sidecar of blocks (\<open>session/store_record.go\<close>, \<open>session/block_store.go\<close>).

  \<^bold>\<open>How the code is represented.\<close> A Go struct is a record, an enumeration or an interface with known
  implementations a datatype, an operation a total function on the state. Go strings are lists of
  bytes (theory Prelude, with the operations of \<open>strings\<close> and \<open>utf8\<close> that are used); texts that are
  not ASCII are byte literals in theory Literals. Errors are values (a sum or an option); a panic
  is a value of its own. Go maps whose order the code depends on are association lists or lists.
  Slices that share an array are kept as such where the code mutates them (theory Ledgers). What
  runs concurrently is a step relation, one step for each section between two synchronisation
  points, and the theorems speak about every interleaving.

  \<^bold>\<open>Foundations.\<close>
  \<^item> Prelude: result types, byte strings, decimal numbers, lists and their facts.
  \<^item> Ids: identifiers that are handed out by counting, as a locale; interpreted by the to-do list and
    the cron store.
  \<^item> Literals: the non-ASCII texts of the source.
  \<^item> Messages (\<open>core/message.go\<close>, \<open>core/tool.go\<close>): messages, content blocks, calls, results, usage.

  \<^bold>\<open>History.\<close>
  \<^item> MergePairs (\<open>agents/merge_pairs.go\<close>): redundant pairs of call and result are removed. Every call
    stays answered exactly once, and only placeholders or repetitions go.
  \<^item> Ledgers (\<open>agents/fileledger.go\<close>): touched files and failed calls, and the guard on repeated
    failures, characterised by the last round.
  \<^item> Slim (\<open>agents/slim.go\<close>, \<open>slim_text.go\<close>, \<open>slim_image.go\<close>): shortening and spilling of results; writing
    one back never leaves the list of messages.
  \<^item> Compress (\<open>agents/llm_compressor.go\<close>) and Compaction (\<open>agents/commands.go\<close> and the check before each
    model call): the summary of the older part; exchanges stay complete and the context stays in
    order with what the engine inserts.

  \<^bold>\<open>Model calls.\<close>
  \<^item> Errors (\<open>provider/errors.go\<close>, \<open>provider.go\<close>, \<open>retryhint.go\<close>): error chains, their classification and
    retry hints.
  \<^item> Retry (\<open>agents/backoff.go\<close>, \<open>streamWithRetry\<close>): bounds on attempts and waiting times.
  \<^item> ToolCallMerge (\<open>provider/toolcall_merge.go\<close>): frames of streamed calls; a refinement of grouping by
    call.
  \<^item> OpenAIStream (\<open>provider/openai.go\<close>, \<open>Stream\<close>): the receiving loop; the answer is what was streamed.
  \<^item> Repair (\<open>tools/repair.go\<close>): the syntax check of \<open>encoding/json\<close> and the repair of arguments.

  \<^bold>\<open>The loop\<close> (\<open>agents/agent_loop.go\<close>, \<open>mode.go\<close>, \<open>hooks.go\<close>).
  \<^item> RunState: context, configuration and options of a run, the goal, the estimate of tokens.
  \<^item> RunTools: one round of tool calls; which calls are answered, in what order.
  \<^item> AgentLoop: \<open>RunStream\<close> with its gates, interjections and ends, as a partial function that yields no
    value when the code loops for ever. AgentRun: properties of whole runs. The context stays a
    sequence of complete exchanges; a run with a quiet model ends, by a measure (\<open>spare\<close>) on the
    rounds that its gates may still ask for.

  \<^bold>\<open>The tool engine\<close> (\<open>tools/\<close>).
  \<^item> ToolText (\<open>engine.go\<close>, \<open>exec_status.go\<close>, \<open>nested.go\<close>, \<open>builtin/recovery.go\<close>): texts of results, their
    truncation, and error envelopes with their round trip.
  \<^item> ToolEngine (\<open>engine.go\<close>, \<open>exposure.go\<close>, \<open>nested.go\<close>, \<open>core/nested.go\<close>): the registry, approval, one
    call from validation to result, and calls from scripts.
  \<^item> ToolBatch (\<open>runBatch\<close>, \<open>task.go\<close>, \<open>timeout.go\<close>, \<open>core/reparentable.go\<close>): a batch as a step relation of
    loop, calls, timer and user, with the invariants \<open>batch_ok\<close> and \<open>wait_ok\<close>. BatchRuns: properties of
    all runs. What is said of a call in the background holds from the step on that detaches it. The
    defects of the bookkeeping are theorems too: the timer that takes collected calls (in general), a
    delivery before the loop knows of the promotion, and a call that dies between its flag and its
    detaching.

  \<^bold>\<open>The file tools\<close> (\<open>tools/builtin/\<close>).
  \<^item> PathGuard (\<open>resolve\<close>, \<open>denyHarnessConfigPath\<close>): accepted paths. The locale \<open>os_files\<close> states what the
    guard relies on in the operating system; it is interpreted on every tree of directories, files,
    hard and symbolic links. Protected files stay closed as long as all their names are inside the
    configuration directory, and two ways around the guard are shown in every such tree.
  \<^item> FileTools (\<open>builtin.go\<close>, \<open>diff.go\<close>, \<open>image.go\<close>): reading, overwriting, appending and editing, their records
    and errors. Each operation on a file may fail (\<open>fe_fault\<close>); a failing append may leave its file made
    or partly written (\<open>fe_written\<close>), which is the one change that no record tells of.
  \<^item> FileLocks (\<open>lock.go\<close>): concurrent writers of one file as steps on names and inodes. Updates are
    serialised while locks are current and the file exists or is not overwritten; they are lost when a
    lock is on a replaced inode, for all texts and writers, and when a missing file is overwritten; a
    writer alone does what FileTools says.

  \<^bold>\<open>Services.\<close>
  \<^item> Todo (\<open>todo/todo.go\<close>): an invariant over any sequence of tool calls.
  \<^item> CronSpec (\<open>cron/parser.go\<close>): expressions; \<open>NextAfter\<close> equals the first match. CronStore (\<open>store.go\<close>,
    \<open>scheduler.go\<close>): jobs and their invariant over operations and restarts. CronLedger (\<open>ledger.go\<close>,
    \<open>retention.go\<close>, the tick of \<open>desktop/bridge/cron.go\<close>): the run file; the fold equals a merge per run.
  \<^item> SlotPool (\<open>subagent/slots.go\<close>): slots are conserved and a waiting caller reaches a free one.
  \<^item> SubTasks (\<open>subagent/registry.go\<close>): background sub-agents as a step relation over the locked
    sections; each result arrives once, in the parent's inbox or through the callback, with its text, and
    no channel is closed twice.
  \<^item> ApprovalQueue (\<open>session/approval.go\<close>): the queue of approvals that the main agent and its
    sub-agents share, as a step relation; only the head is shown, only the user approves, and every
    request gets an answer.

  \<^bold>\<open>Persistence\<close> (\<open>session/\<close>).
  \<^item> BlockIndex, BlockStore, BlockRuns (\<open>block_index.go\<close>, \<open>block_store.go\<close>): the sidecar, an append-only
    file with an index beside it, as bytes. It refines a map from ids to payloads, over any run of
    operations and reopenings, and a file cut anywhere opens with exactly its complete records.
  \<^item> JsonStream, BlockView, BlockRef, JsonObject: the byte-level work on view checkpoints, what is used
    of \<open>encoding/json\<close>, and the reference that replaces the blocks of a view.
  \<^item> RecordStore, RecordCommit, RecordSafety (\<open>store_record.go\<close>): the envelope with its checksum, commit,
    loading with backup, and every crash point of a commit behind the step of the sidecar. What is
    committed is loaded, whether the caller has cut the blocks (\<open>BlockSpans\<close>) or the store scans for
    them; such a crash leaves the old or the new record if the record file could be read before, with the
    exceptions that are proved as such.

  \<^bold>\<open>Interfaces.\<close> Locales state what one part relies on in another (ids handed out by counting, and
  the contracts named in the theories); each is interpreted on the model's own definitions.

  \<^bold>\<open>Fuel and termination.\<close> Most loops are structural or have a measure. The search of \<open>NextAfter\<close>
  carries the code's own limit. The JSON scanner takes fuel and is called with more than the number
  of bytes; that this suffices is proved where a result depends on it. \<open>run_loop\<close> is a partial
  function, and \<open>quiet_run_ends\<close> and \<open>quiet_batch_returns\<close> prove that values are reached.

  \<^bold>\<open>Parameters.\<close> The model provider and its stream, tools, hooks, gates, user commands, the decoding
  of a tool's JSON arguments, the diff library, image codecs, \<open>strconv.Quote\<close>, SHA-256, zone offsets, random ids, growth of Go slices,
  the success of file operations, the creation of sessions and the float arithmetic of margins are
  arguments of the definitions, with what is relied on as named hypotheses.

  \<^bold>\<open>Simplifications.\<close> Other goroutines' interrupts and changes of the to-do list are read at the
  points where the loop reads them. The tick of the cron bridge is sequential. In a batch, removing
  a call from the set and sending its result is one step, and so is a pass of the timer; the stuck
  timeout is an event. The automatic promotion of a call is one step (the host's is split), and so are the
  locked sections of one operation of the registry of sub-agents (\<open>task_start\<close>, \<open>task_Interrupt\<close>,
  \<open>restart_acquired\<close>) and, for an approval, its removal from the queue with the sending of its outcome.
  \<open>rewrite_message\<close> gives a new message where the code changes the first block in place. The end of a parent context by a deadline is not told apart from its
  cancellation. Time stamps, artifacts, log lines and events for display are left out where nothing
  reads them back, and so are the prompts of the summary call.

  \<^bold>\<open>Not modelled.\<close> The desktop bridge beyond the cron tick, remote access, instant messaging, hooks,
  memory, skills, plug-ins, browser and computer control, sandboxing, MCP, credentials and the
  other built-in tools are adapters to the operating system, the network or other programs: their effect
  lies in calls the model would have to take as parameters. Of the parts above: requests and the
  translation of messages into each vendor's form, the list of models, journals and checkpoints of
  sub-agents, the in-process cache of open sidecars and the older checksum of records, sidecar
  blocks of 2 GiB and more, the timer goroutines of the schedulers, loading of project instructions,
  and the session's own command loop.
\<close>

end
